(* ===== verification/Prelude.thy ===== *)
theory Prelude
  imports Main "HOL-Library.Word"
begin

text \<open>
  Shared vocabulary of the development: bytes and machine words, the nginx return codes
  (\<open>NGX_OK\<close>, \<open>NGX_ERROR\<close>, ...), big-endian numbers, and the list and word lemmas that
  several components use.  The collection \<open>byte_simps\<close> turns the C idioms
  \<open>(u_char) (x >> n)\<close> and \<open>(v << 8) + *p++\<close> into \<open>div\<close> and \<open>mod\<close> on naturals.
\<close>

unbundle bit_operations_syntax

named_theorems byte_simps \<open>words narrowed to bytes, read as naturals\<close>
named_theorems rc_simps \<open>case distinctions on return codes\<close>

section \<open>Types\<close>

type_synonym byte = "8 word"
type_synonym bytes = "byte list"
type_synonym u16 = "16 word"
type_synonym u32 = "32 word"
type_synonym u64 = "64 word"

text \<open>
  The values an \<open>ngx_int_t\<close> result takes in the modelled code.  \<open>NGX_RTMP_PARSE_INVALID_REQUEST\<close>
  is the 11 of ngx\_rtmp\_parse.c.
\<close>

datatype ngx_rc =
    NGX_OK
  | NGX_ERROR
  | NGX_AGAIN
  | NGX_DONE
  | NGX_RTMP_PARSE_INVALID_REQUEST

section \<open>Big-endian numbers\<close>

definition be_nat :: "bytes \<Rightarrow> nat" where
  "be_nat bs = foldl (\<lambda>v b. v * 256 + unat b) 0 bs"

fun enc_nat :: "nat \<Rightarrow> nat \<Rightarrow> bytes" where
  "enc_nat 0 v = []"
| "enc_nat (Suc n) v = enc_nat n (v div 256) @ [word_of_nat v]"

lemma be_nat_Nil [simp]: "be_nat [] = 0"
  by (simp add: be_nat_def)

lemma be_nat_snoc [simp]: "be_nat (bs @ [b]) = be_nat bs * 256 + unat b"
  by (simp add: be_nat_def)

lemma be_nat_append: "be_nat (xs @ ys) = be_nat xs * 256 ^ length ys + be_nat ys"
proof (induction ys rule: rev_induct)
  case Nil
  then show ?case by simp
next
  case (snoc y ys)
  have "be_nat (xs @ ys @ [y]) = be_nat (xs @ ys) * 256 + unat y"
    by (simp flip: append_assoc)
  with snoc show ?case by (simp add: algebra_simps)
qed

lemma be_nat_Cons: "be_nat (b # bs) = unat b * 256 ^ length bs + be_nat bs"
  using be_nat_append [of "[b]" bs] by (simp add: be_nat_def)

lemma unat_byte_less [simp]: "unat (b :: byte) < 256"
  using unsigned_less [of b] by simp

lemma be_nat_less: "be_nat bs < 256 ^ length bs"
proof (induction bs rule: rev_induct)
  case (snoc b bs)
  have "be_nat bs * 256 + unat b < (be_nat bs + 1) * 256"
    using unat_byte_less [of b] by simp
  also have "\<dots> \<le> 256 ^ length bs * 256"
    using snoc by (intro mult_le_mono1) simp
  finally show ?case by (simp add: mult.commute)
qed simp

lemma length_enc_nat [simp]: "length (enc_nat n v) = n"
  by (induction n arbitrary: v) auto

lemma unat_byte_of_nat [simp]: "unat (word_of_nat v :: byte) = v mod 256"
  by (simp add: unsigned_of_nat take_bit_eq_mod)

lemma be_nat_enc_nat [simp]: "be_nat (enc_nat n v) = v mod 256 ^ n"
proof (induction n arbitrary: v)
  case (Suc n)
  have "v mod (256 * 256 ^ n) = 256 * (v div 256 mod 256 ^ n) + v mod 256"
    by (rule mod_mult2_eq)
  with Suc show ?case by (simp add: mult.commute)
qed simp

lemma be_nat_1 [simp]: "be_nat [a] = unat a"
  by (simp add: be_nat_Cons)

lemma be_nat_2 [simp]: "be_nat [a, b] = unat a * 256 + unat b"
  by (simp add: be_nat_Cons)

lemma be_nat_3 [simp]: "be_nat [a, b, c] = unat a * 65536 + unat b * 256 + unat c"
  by (simp add: be_nat_Cons)

lemma be_nat_4 [simp]:
  "be_nat [a, b, c, d] = unat a * 16777216 + unat b * 65536 + unat c * 256 + unat d"
  by (simp add: be_nat_Cons)

section \<open>Words as naturals\<close>

lemma unat_ucast_byte [byte_simps]: "unat (ucast (w :: 'a::len word) :: byte) = unat w mod 256"
  by (simp add: unsigned_ucast_eq take_bit_eq_mod)

lemma unat_drop_bit [byte_simps]: "unat (drop_bit n (w :: 'a::len word)) = unat w div 2 ^ n"
proof -
  have "unat (drop_bit n w) = drop_bit n (take_bit LENGTH('a) (unat w))"
    by (rule unsigned_drop_bit_eq)
  also have "\<dots> = drop_bit n (unat w)"
    by (simp add: take_bit_nat_eq_self)
  finally show ?thesis by (simp only: drop_bit_eq_div)
qed

lemma unat_lt_2p: "unat (w :: 'a::len word) < 2 ^ LENGTH('a)"
  by (rule unsigned_less)

lemma unat_u16_less [simp]: "unat (w :: u16) < 65536"
  using unat_lt_2p [of w] by simp

lemma unat_u32_less [simp]: "unat (w :: u32) < 4294967296"
  using unat_lt_2p [of w] by simp

lemma word_of_nat_unat_eq:
  "unat (w :: 'a::len word) = n \<Longrightarrow> w = word_of_nat n"
  by (auto simp: unsigned_word_eqI)

lemma unat_u64_less [simp]: "unat (w :: u64) < 18446744073709551616"
  using unat_lt_2p [of w] by simp

lemma unat_ucast: "unat (ucast (w :: 'a::len word) :: 'b::len word) = unat w mod 2 ^ LENGTH('b)"
  by (simp add: unsigned_ucast_eq take_bit_eq_mod)

lemma unat_byte_cast [byte_simps, simp]:
  "unat (ucast (b :: byte) :: u16) = unat b"
  "unat (ucast (b :: byte) :: u32) = unat b"
  "unat (ucast (b :: byte) :: u64) = unat b"
  using unat_byte_less [of b] by (simp_all add: unat_ucast del: unat_byte_less)

lemma unat_u16_cast [byte_simps, simp]:
  "unat (ucast (w :: u16) :: u32) = unat w"
  "unat (ucast (w :: u16) :: u64) = unat w"
  using unat_u16_less [of w] by (simp_all add: unat_ucast del: unat_u16_less)

lemma unat_and_mask: "unat ((w :: 'a::len word) AND mask n) = unat w mod 2 ^ n"
  unfolding take_bit_eq_mask [symmetric] unsigned_take_bit_eq by (rule take_bit_eq_mod)

lemma word_and_masks:
  "(w :: byte) AND 0x01 = w AND mask 1" "w AND 0x0f = w AND mask 4" "w AND 0x1f = w AND mask 5"
  "w AND 0x3f = w AND mask 6" "w AND 0x7f = w AND mask 7"
  by (simp_all add: mask_eq_exp_minus_1)

lemma unat_byte_masks [byte_simps]:
  "unat ((w :: byte) AND 0x01) = unat w mod 2" "unat (w AND 0x0f) = unat w mod 16"
  "unat (w AND 0x1f) = unat w mod 32" "unat (w AND 0x3f) = unat w mod 64"
  "unat (w AND 0x7f) = unat w mod 128"
  by (simp_all only: word_and_masks unat_and_mask) simp_all

lemma unat_u16_masks [byte_simps]:
  "unat ((w :: u16) AND 0x0fff) = unat w mod 4096" "unat (w AND 0x1fff) = unat w mod 8192"
proof -
  have "(w :: u16) AND 0x0fff = w AND mask 12" "w AND 0x1fff = w AND mask 13"
    by (simp_all add: mask_eq_exp_minus_1)
  then show "unat (w AND 0x0fff) = unat w mod 4096" "unat (w AND 0x1fff) = unat w mod 8192"
    by (simp_all add: unat_and_mask)
qed

lemma unat_push_bit: "unat (push_bit n (w :: 'a::len word)) = unat w * 2 ^ n mod 2 ^ LENGTH('a)"
  unfolding unsigned_push_bit_eq take_bit_eq_mod [where 'a = nat] push_bit_eq_mult [where 'a = nat] ..

text \<open>\<open>v = (v << 8) + *p++\<close>, when no bit is lost.\<close>

lemma unat_shift_add:
  assumes "unat (v :: 'a::len word) * 2 ^ n + unat w < 2 ^ LENGTH('a)"
  shows "unat (push_bit n v + w) = unat v * 2 ^ n + unat w"
proof -
  have "unat (push_bit n v) = unat v * 2 ^ n"
    using assms by (simp add: unat_push_bit)
  with assms show ?thesis by (simp add: unat_word_ariths)
qed

lemma bit_less_exp: "unat (w :: 'a::len word) < 2 ^ k \<Longrightarrow> bit w n \<Longrightarrow> n < k"
proof -
  assume "unat w < 2 ^ k" "bit w n"
  have "unat (take_bit k w) = unat w"
    using \<open>unat w < 2 ^ k\<close> by (simp only: unsigned_take_bit_eq take_bit_nat_eq_self)
  then have "w = take_bit k w"
    by (simp only: word_unat_eq_iff)
  with \<open>bit w n\<close> show "n < k" by (metis bit_take_bit_iff)
qed

text \<open>The bits of the constants the code masks with.\<close>

named_theorems byte_bits \<open>which bits a constant has (words reduce to integers)\<close>

lemma bit_int_pow: "bit (2 ^ k :: int) n \<longleftrightarrow> n = k"
  by (auto simp: bit_exp_iff)

lemma bit_int_mask: "bit (mask k :: int) n \<longleftrightarrow> n < k"
  by (auto simp: bit_mask_iff)

lemma bit_byte_consts [byte_bits]:
  "bit (0x02 :: int) n \<longleftrightarrow> n = 1"
  "bit (0x04 :: int) n \<longleftrightarrow> n = 2"
  "bit (0x08 :: int) n \<longleftrightarrow> n = 3"
  "bit (0x10 :: int) n \<longleftrightarrow> n = 4"
  "bit (0x20 :: int) n \<longleftrightarrow> n = 5"
  "bit (0x40 :: int) n \<longleftrightarrow> n = 6"
  "bit (0x80 :: int) n \<longleftrightarrow> n = 7"
  "bit (0x03 :: int) n \<longleftrightarrow> n < 2"
  "bit (0x07 :: int) n \<longleftrightarrow> n < 3"
  "bit (0x0f :: int) n \<longleftrightarrow> n < 4"
  "bit (0x1f :: int) n \<longleftrightarrow> n < 5"
  "bit (0x3f :: int) n \<longleftrightarrow> n < 6"
  "bit (0x7f :: int) n \<longleftrightarrow> n < 7"
proof -
  show "bit (0x02 :: int) n \<longleftrightarrow> n = 1" using bit_int_pow [of 1 n] by simp
  show "bit (0x04 :: int) n \<longleftrightarrow> n = 2" using bit_int_pow [of 2 n] by simp
  show "bit (0x08 :: int) n \<longleftrightarrow> n = 3" using bit_int_pow [of 3 n] by simp
  show "bit (0x10 :: int) n \<longleftrightarrow> n = 4" using bit_int_pow [of 4 n] by simp
  show "bit (0x20 :: int) n \<longleftrightarrow> n = 5" using bit_int_pow [of 5 n] by simp
  show "bit (0x40 :: int) n \<longleftrightarrow> n = 6" using bit_int_pow [of 6 n] by simp
  show "bit (0x80 :: int) n \<longleftrightarrow> n = 7" using bit_int_pow [of 7 n] by simp
  show "bit (0x03 :: int) n \<longleftrightarrow> n < 2"
    using bit_int_mask [of 2 n] by (simp add: mask_eq_exp_minus_1)
  show "bit (0x07 :: int) n \<longleftrightarrow> n < 3"
    using bit_int_mask [of 3 n] by (simp add: mask_eq_exp_minus_1)
  show "bit (0x0f :: int) n \<longleftrightarrow> n < 4"
    using bit_int_mask [of 4 n] by (simp add: mask_eq_exp_minus_1)
  show "bit (0x1f :: int) n \<longleftrightarrow> n < 5"
    using bit_int_mask [of 5 n] by (simp add: mask_eq_exp_minus_1)
  show "bit (0x3f :: int) n \<longleftrightarrow> n < 6"
    using bit_int_mask [of 6 n] by (simp add: mask_eq_exp_minus_1)
  show "bit (0x7f :: int) n \<longleftrightarrow> n < 7"
    using bit_int_mask [of 7 n] by (simp add: mask_eq_exp_minus_1)
qed

lemma div_step: "(x :: nat) div (m * k) * k + x div m mod k = x div m"
  by (metis div_mult2_eq div_mult_mod_eq)

section \<open>Lists\<close>

lemma take_drop_append [simp]: "take n xs @ take m (drop n xs) = take (n + m) xs"
  by (simp add: take_add)

lemma length_2_iff: "length xs = 2 \<longleftrightarrow> (\<exists>a b. xs = [a, b])"
  by (auto simp: numeral_2_eq_2 length_Suc_conv)

end
