(* ===== verification/Buf_Chain.thy ===== *)
theory Buf_Chain
  imports Prelude "HOL-Library.Sublist"
begin

text \<open>
  nginx buffers and chains, and the interface of the sequential readers the program runs over
  them.  A buffer \<open>ngx_buf_t\<close> owns the memory between \<open>start\<close> and \<open>end\<close>; \<open>pos\<close> and \<open>last\<close> are
  offsets into it.  A chain \<open>ngx_chain_t\<close> is the list of the buffers it links, in order.
  The locale \<open>byte_source\<close> is the contract every chain reader of the program meets
  (\<open>ngx_ts_byte_read\<close>, \<open>ngx_rtmp_amf_get\<close>, \<open>ngx_rtmp_fetch\<close>): a read returns the next bytes and
  moves past them, or reports the end of the data.
\<close>

section \<open>Buffers, chains and pools\<close>

record buf =
  b_mem :: bytes
  b_pos :: nat
  b_last :: nat

type_synonym chain = "buf list"

definition buf_content :: "buf \<Rightarrow> bytes" where
  "buf_content b = take (b_last b - b_pos b) (drop (b_pos b) (b_mem b))"

definition buf_ok :: "buf \<Rightarrow> bool" where
  "buf_ok b \<longleftrightarrow> b_pos b \<le> b_last b \<and> b_last b \<le> length (b_mem b)"

definition flat :: "chain \<Rightarrow> bytes" where
  "flat cl = concat (map buf_content cl)"

abbreviation chain_ok :: "chain \<Rightarrow> bool" where
  "chain_ok cl \<equiv> list_all buf_ok cl"

text \<open>
  The pool is nginx core code, so its three operations are parameters: memory of a given size
  (\<open>ngx_palloc\<close>, \<open>ngx_create_temp_buf\<close>; the bytes are what the allocator left there), a chain link
  (\<open>ngx_alloc_chain_link\<close>) and the return of a link (\<open>ngx_free_chain\<close>).  \<open>None\<close> is NULL.
\<close>

record 'p pool_ops =
  p_alloc :: "'p \<Rightarrow> nat \<Rightarrow> ('p \<times> bytes) option"
  p_link :: "'p \<Rightarrow> 'p option"
  p_free_link :: "'p \<Rightarrow> 'p"

definition pool_ok :: "'p pool_ops \<Rightarrow> bool" where
  "pool_ok ops \<longleftrightarrow> (\<forall>p n p' m. p_alloc ops p n = Some (p', m) \<longrightarrow> length m = n)"

definition pool_total :: "'p pool_ops \<Rightarrow> bool" where
  "pool_total ops \<longleftrightarrow> pool_ok ops \<and> (\<forall>p n. p_alloc ops p n \<noteq> None) \<and> (\<forall>p. p_link ops p \<noteq> None)"

text \<open>A pool that never fails, for witnesses.\<close>

definition unit_pool :: "unit pool_ops" where
  "unit_pool = \<lparr>p_alloc = (\<lambda>p n. Some (p, replicate n 0)), p_link = Some, p_free_link = (\<lambda>p. p)\<rparr>"

lemma pool_total_unit [simp]: "pool_total unit_pool"
  by (simp add: pool_total_def pool_ok_def unit_pool_def)

lemma pool_totalE:
  assumes "pool_total ops"
  obtains p' m where "p_alloc ops p n = Some (p', m)" "length m = n"
  using assms unfolding pool_total_def pool_ok_def by (metis option.exhaust surj_pair)

lemma pool_total_link:
  assumes "pool_total ops"
  obtains p' where "p_link ops p = Some p'"
  using assms unfolding pool_total_def by (metis option.exhaust)

lemma flat_Nil [simp]: "flat [] = []"
  by (simp add: flat_def)

lemma flat_Cons [simp]: "flat (b # cl) = buf_content b @ flat cl"
  by (simp add: flat_def)

lemma flat_append [simp]: "flat (xs @ ys) = flat xs @ flat ys"
  by (simp add: flat_def)

lemma length_buf_content [simp]: "buf_ok b \<Longrightarrow> length (buf_content b) = b_last b - b_pos b"
  by (auto simp: buf_ok_def buf_content_def)

lemma buf_content_whole [simp]:
  "buf_content \<lparr>b_mem = m, b_pos = n, b_last = length m\<rparr> = drop n m"
  by (simp add: buf_content_def)

section \<open>The contract of a sequential reader\<close>

text \<open>
  \<open>rd c n\<close> asks for \<open>n\<close> bytes at cursor \<open>c\<close>; \<open>rest c\<close> is what the cursor still has ahead of it.
\<close>

locale byte_source =
  fixes rd :: "'c \<Rightarrow> nat \<Rightarrow> ngx_rc \<times> bytes \<times> 'c"
    and rest :: "'c \<Rightarrow> bytes"
    and good :: "'c \<Rightarrow> bool"
    and eof :: ngx_rc
  assumes rd_enough: "good c \<Longrightarrow> n \<le> length (rest c) \<Longrightarrow>
      \<exists>c'. rd c n = (NGX_OK, take n (rest c), c') \<and> rest c' = drop n (rest c) \<and> good c'"
    and rd_short: "good c \<Longrightarrow> length (rest c) < n \<Longrightarrow> fst (rd c n) = eof"
    and eof_not_ok: "eof \<noteq> NGX_OK"
begin

definition adv :: "'c \<Rightarrow> nat \<Rightarrow> 'c" where
  "adv c n = snd (snd (rd c n))"

lemma rd_eq: "good c \<Longrightarrow> n \<le> length (rest c) \<Longrightarrow> rd c n = (NGX_OK, take n (rest c), adv c n)"
  using rd_enough [of c n] by (auto simp: adv_def)

lemma rest_adv: "good c \<Longrightarrow> n \<le> length (rest c) \<Longrightarrow> rest (adv c n) = drop n (rest c)"
  using rd_enough [of c n] by (auto simp: adv_def)

lemma good_adv: "good c \<Longrightarrow> n \<le> length (rest c) \<Longrightarrow> good (adv c n)"
  using rd_enough [of c n] by (auto simp: adv_def)

lemma rd_cases:
  assumes "good c"
  obtains (enough) "n \<le> length (rest c)" "rd c n = (NGX_OK, take n (rest c), adv c n)"
      "rest (adv c n) = drop n (rest c)" "good (adv c n)"
  | (short) ds c' where "length (rest c) < n" "rd c n = (eof, ds, c')"
proof (cases "n \<le> length (rest c)")
  case True
  with assms enough show thesis by (simp add: rd_eq rest_adv good_adv)
next
  case False
  with assms have "fst (rd c n) = eof" by (simp add: rd_short)
  then obtain ds c' where "rd c n = (eof, ds, c')" by (metis prod.collapse)
  with False short show thesis by simp
qed

text \<open>Whether a read succeeds depends only on how many bytes are left.\<close>

lemma rd_ok_iff: "good c \<Longrightarrow> fst (rd c n) = NGX_OK \<longleftrightarrow> n \<le> length (rest c)"
  using rd_short [of c n] eof_not_ok by (cases "n \<le> length (rest c)") (auto simp: rd_eq)

text \<open>Two reads in a row see the bytes one longer read would have seen.\<close>

lemma rd_rd:
  assumes "good c" "n + m \<le> length (rest c)"
  shows "rd (adv c n) m = (NGX_OK, take m (drop n (rest c)), adv (adv c n) m)"
    and "rest (adv (adv c n) m) = drop (n + m) (rest c)"
    and "good (adv (adv c n) m)"
  using assms by (simp_all add: rd_eq rest_adv good_adv add.commute)

end

section \<open>The transport stream reader over a chain\<close>

text \<open>
  \<open>ngx_ts_byte_read_t\<close>: the links from \<open>br->cl\<close> on, and \<open>br->p\<close> as an offset into the first one.
  With no link left the C code sets \<open>p = NULL\<close>; the model keeps 0 there.
\<close>

record byte_read =
  br_cl :: chain
  br_p :: nat

definition first_pos :: "chain \<Rightarrow> nat" where
  "first_pos cl = (case cl of [] \<Rightarrow> 0 | b # _ \<Rightarrow> b_pos b)"

definition ngx_ts_byte_read_init :: "chain \<Rightarrow> byte_read" where
  "ngx_ts_byte_read_init cl = \<lparr>br_cl = cl, br_p = first_pos cl\<rparr>"

text \<open>
  The loop of \<open>ngx_ts_byte_read\<close>: the bytes copied, the length still wanted and the cursor.  When
  the cursor does not reach \<open>last\<close>, the wanted length is 0 and the loop ends.
\<close>

fun byte_read_loop :: "chain \<Rightarrow> nat \<Rightarrow> nat \<Rightarrow> bytes \<times> nat \<times> chain \<times> nat" where
  "byte_read_loop [] p len = ([], len, [], p)"
| "byte_read_loop (b # cl) p len =
     (if len = 0 then ([], 0, b # cl, p)
      else
        let n = min (b_last b - p) len;
            dst = take n (drop p (b_mem b));
            p' = p + n;
            len' = len - n
        in if p' = b_last b
           then (case byte_read_loop cl (first_pos cl) len' of
                   (ds, l, cl', q) \<Rightarrow> (dst @ ds, l, cl', q))
           else (dst, len', b # cl, p'))"

definition ngx_ts_byte_read :: "byte_read \<Rightarrow> nat \<Rightarrow> ngx_rc \<times> bytes \<times> byte_read" where
  "ngx_ts_byte_read br len =
     (case byte_read_loop (br_cl br) (br_p br) len of
        (ds, l, cl, p) \<Rightarrow> (if l \<noteq> 0 then NGX_AGAIN else NGX_OK, ds, \<lparr>br_cl = cl, br_p = p\<rparr>))"

definition ngx_ts_byte_read_skip :: "byte_read \<Rightarrow> nat \<Rightarrow> ngx_rc \<times> byte_read" where
  "ngx_ts_byte_read_skip br len = (case ngx_ts_byte_read br len of (rc, _, br') \<Rightarrow> (rc, br'))"

definition ngx_ts_byte_read8 :: "byte_read \<Rightarrow> ngx_rc \<times> byte \<times> byte_read" where
  "ngx_ts_byte_read8 br =
     (case ngx_ts_byte_read br 1 of (rc, ds, br') \<Rightarrow> (rc, (case ds of [] \<Rightarrow> 0 | v # _ \<Rightarrow> v), br'))"

text \<open>\<open>*v = htons(*v)\<close> on a little-endian host: the two bytes read big-endian.\<close>

definition ngx_ts_byte_read16 :: "byte_read \<Rightarrow> ngx_rc \<times> u16 \<times> byte_read" where
  "ngx_ts_byte_read16 br =
     (case ngx_ts_byte_read br 2 of
        (rc, ds, br') \<Rightarrow> (rc, if rc = NGX_AGAIN then 0 else word_of_nat (be_nat ds), br'))"

definition br_rest :: "byte_read \<Rightarrow> bytes" where
  "br_rest br =
     (case br_cl br of [] \<Rightarrow> []
      | b # cl \<Rightarrow> take (b_last b - br_p br) (drop (br_p br) (b_mem b)) @ flat cl)"

definition br_good :: "byte_read \<Rightarrow> bool" where
  "br_good br \<longleftrightarrow> chain_ok (br_cl br) \<and>
     (case br_cl br of [] \<Rightarrow> True | b # _ \<Rightarrow> b_pos b \<le> br_p br \<and> br_p br \<le> b_last b)"

lemma br_rest_first [simp]: "br_rest \<lparr>br_cl = cl, br_p = first_pos cl\<rparr> = flat cl"
  by (cases cl) (auto simp: br_rest_def first_pos_def buf_content_def)

lemma br_good_first [simp]: "br_good \<lparr>br_cl = cl, br_p = first_pos cl\<rparr> \<longleftrightarrow> chain_ok cl"
  by (cases cl) (auto simp: br_good_def first_pos_def buf_ok_def)

lemma br_rest_init [simp]: "br_rest (ngx_ts_byte_read_init cl) = flat cl"
  by (simp add: ngx_ts_byte_read_init_def)

lemma br_good_init [simp]: "br_good (ngx_ts_byte_read_init cl) \<longleftrightarrow> chain_ok cl"
  by (simp add: ngx_ts_byte_read_init_def)

lemma byte_read_loop_spec:
  assumes "br_good \<lparr>br_cl = cl, br_p = p\<rparr>"
    and "byte_read_loop cl p len = (ds, l, cl', p')"
  defines "r \<equiv> br_rest \<lparr>br_cl = cl, br_p = p\<rparr>"
  shows "ds = take len r" "l = len - length r"
    "br_rest \<lparr>br_cl = cl', br_p = p'\<rparr> = drop len r"
    "br_good \<lparr>br_cl = cl', br_p = p'\<rparr>" "suffix cl' cl"
proof -
  have "ds = take len r \<and> l = len - length r \<and> br_rest \<lparr>br_cl = cl', br_p = p'\<rparr> = drop len r
      \<and> br_good \<lparr>br_cl = cl', br_p = p'\<rparr> \<and> suffix cl' cl"
    using assms(1,2) unfolding r_def
  proof (induction cl arbitrary: p len ds l)
    case Nil
    then show ?case by (auto simp: br_rest_def)
  next
    case (Cons b cl)
    let ?n = "min (b_last b - p) len"
    let ?m = "take (b_last b - p) (drop p (b_mem b))"
    from Cons.prems(1) have p: "p \<le> b_last b" "b_last b \<le> length (b_mem b)" and ok: "chain_ok cl"
      by (auto simp: br_good_def buf_ok_def)
    have m: "length ?m = b_last b - p" using p by simp
    have r: "br_rest \<lparr>br_cl = b # cl, br_p = p\<rparr> = ?m @ flat cl"
      by (simp add: br_rest_def)
    show ?case
    proof (cases "len = 0 \<or> p + ?n \<noteq> b_last b")
      case True
      then have less: "len = 0 \<or> len < b_last b - p" using p by auto
      have "byte_read_loop (b # cl) p len = (take len (drop p (b_mem b)), 0, b # cl, p + len)"
        using True less by (auto simp: Let_def min_def)
      with Cons.prems(2) have out: "ds = take len (drop p (b_mem b))" "l = 0" "cl' = b # cl"
          "p' = p + len"
        by auto
      have "take len (?m @ flat cl) = take len (drop p (b_mem b))"
        using less m by auto
      moreover have "drop len ?m = take (b_last b - (p + len)) (drop (p + len) (b_mem b))"
        by (simp add: drop_take add.commute)
      moreover have "p + len \<le> b_last b" using less p by auto
      ultimately show ?thesis
        using less m out r Cons.prems(1) by (auto simp: br_rest_def br_good_def)
    next
      case False
      then have n: "?n = b_last b - p" "len \<noteq> 0" "b_last b - p \<le> len" using p by auto
      obtain ds2 where rec: "byte_read_loop cl (first_pos cl) (len - ?n) = (ds2, l, cl', p')"
        and ds: "ds = ?m @ ds2"
        using Cons.prems(2) False n by (auto simp: Let_def split: prod.splits)
      from Cons.IH [OF _ rec] ok m n show ?thesis
        unfolding r ds by (auto simp: suffix_ConsI)
    qed
  qed
  then show "ds = take len r" "l = len - length r"
    "br_rest \<lparr>br_cl = cl', br_p = p'\<rparr> = drop len r"
    "br_good \<lparr>br_cl = cl', br_p = p'\<rparr>" "suffix cl' cl"
    by auto
qed

interpretation ts_br: byte_source ngx_ts_byte_read br_rest br_good NGX_AGAIN
proof unfold_locales
  fix c :: byte_read and n
  obtain cl0 p0 where c: "c = \<lparr>br_cl = cl0, br_p = p0\<rparr>" by (cases c) auto
  obtain ds l cl p where loop: "byte_read_loop cl0 p0 n = (ds, l, cl, p)"
    by (metis prod.exhaust)
  note spec = byte_read_loop_spec [OF _ loop]
  {
    assume "br_good c" "n \<le> length (br_rest c)"
    with spec loop c
    show "\<exists>c'. ngx_ts_byte_read c n = (NGX_OK, take n (br_rest c), c')
        \<and> br_rest c' = drop n (br_rest c) \<and> br_good c'"
      by (auto simp: ngx_ts_byte_read_def)
  next
    assume "br_good c" "length (br_rest c) < n"
    with spec loop c
    show "fst (ngx_ts_byte_read c n) = NGX_AGAIN"
      by (auto simp: ngx_ts_byte_read_def)
  }
qed simp

text \<open>The cursor only moves forward in the chain it started in.\<close>

lemma suffix_adv:
  assumes "br_good c"
  shows "suffix (br_cl (ts_br.adv c n)) (br_cl c)"
proof -
  obtain cl0 p0 where c: "c = \<lparr>br_cl = cl0, br_p = p0\<rparr>" by (cases c) auto
  obtain ds l cl p where loop: "byte_read_loop cl0 p0 n = (ds, l, cl, p)"
    by (metis prod.exhaust)
  from byte_read_loop_spec(5) [OF _ loop] assms c loop
  show ?thesis by (simp add: ts_br.adv_def ngx_ts_byte_read_def)
qed

lemma byte_read_skip_eq:
  "br_good c \<Longrightarrow> n \<le> length (br_rest c) \<Longrightarrow> ngx_ts_byte_read_skip c n = (NGX_OK, ts_br.adv c n)"
  by (simp add: ngx_ts_byte_read_skip_def ts_br.rd_eq)

lemma byte_read_skip_short:
  "br_good c \<Longrightarrow> length (br_rest c) < n \<Longrightarrow> fst (ngx_ts_byte_read_skip c n) = NGX_AGAIN"
  using ts_br.rd_short [of c n] by (auto simp: ngx_ts_byte_read_skip_def split: prod.splits)

lemma byte_read8_eq:
  "br_good c \<Longrightarrow> 1 \<le> length (br_rest c) \<Longrightarrow>
   ngx_ts_byte_read8 c = (NGX_OK, br_rest c ! 0, ts_br.adv c 1)"
  by (cases "br_rest c") (simp_all add: ngx_ts_byte_read8_def ts_br.rd_eq)

lemma byte_read8_short:
  "br_good c \<Longrightarrow> br_rest c = [] \<Longrightarrow> fst (ngx_ts_byte_read8 c) = NGX_AGAIN"
  using ts_br.rd_short [of c 1] by (auto simp: ngx_ts_byte_read8_def split: prod.splits)

lemma byte_read16_eq:
  "br_good c \<Longrightarrow> 2 \<le> length (br_rest c) \<Longrightarrow>
   ngx_ts_byte_read16 c = (NGX_OK, word_of_nat (be_nat (take 2 (br_rest c))), ts_br.adv c 2)"
  by (simp add: ngx_ts_byte_read16_def ts_br.rd_eq)

lemma byte_read16_short:
  "br_good c \<Longrightarrow> length (br_rest c) < 2 \<Longrightarrow> fst (ngx_ts_byte_read16 c) = NGX_AGAIN"
  using ts_br.rd_short [of c 2] by (auto simp: ngx_ts_byte_read16_def split: prod.splits)

lemmas byte_read_eqs =
  ts_br.rd_eq byte_read_skip_eq byte_read8_eq byte_read16_eq ts_br.rest_adv ts_br.good_adv

end
