(* ===== verification/Ts_Types.thy ===== *)
theory Ts_Types
  imports Buf_Chain
begin

text \<open>
  The state of the MPEG transport stream component (ngx\_ts\_stream.h), and the operations of
  ngx\_ts\_stream.c that manage its buffers and handlers: \<open>ngx_ts_add_handler\<close>,
  \<open>ngx_ts_run_handlers\<close>, \<open>ngx_ts_free_buf\<close>, \<open>ngx_ts_free_chain\<close>, \<open>ngx_ts_append_buf\<close>.  The arrays
  \<open>progs\<close> and \<open>es\<close> are lists, so \<open>nprogs\<close> and \<open>nes\<close> are their lengths.  A handler is a function
  pointer with its data: an element of the type \<open>'h\<close>, run by the parameter \<open>call\<close>, which may change
  the stream (the HLS and DASH handlers do) and whatever the handlers own themselves (\<open>ts_world\<close>).
\<close>

section \<open>Data\<close>

definition NGX_TS_PACKET_SIZE :: nat where
  "NGX_TS_PACKET_SIZE = 188"

definition NGX_TS_VIDEO_MPEG1 :: byte where "NGX_TS_VIDEO_MPEG1 = 0x01"
definition NGX_TS_VIDEO_MPEG2 :: byte where "NGX_TS_VIDEO_MPEG2 = 0x02"
definition NGX_TS_VIDEO_MPEG4 :: byte where "NGX_TS_VIDEO_MPEG4 = 0x10"
definition NGX_TS_VIDEO_AVC :: byte where "NGX_TS_VIDEO_AVC = 0x1b"
definition NGX_TS_AUDIO_MPEG1 :: byte where "NGX_TS_AUDIO_MPEG1 = 0x03"
definition NGX_TS_AUDIO_MPEG2 :: byte where "NGX_TS_AUDIO_MPEG2 = 0x04"
definition NGX_TS_AUDIO_AAC :: byte where "NGX_TS_AUDIO_AAC = 0x0f"

lemmas ts_type_defs = NGX_TS_VIDEO_MPEG1_def NGX_TS_VIDEO_MPEG2_def NGX_TS_VIDEO_MPEG4_def
  NGX_TS_VIDEO_AVC_def NGX_TS_AUDIO_MPEG1_def NGX_TS_AUDIO_MPEG2_def NGX_TS_AUDIO_AAC_def

datatype ngx_ts_event_e = NGX_TS_PAT | NGX_TS_PMT | NGX_TS_PES

record ngx_ts_es =
  es_type :: byte
  es_sid :: byte
  es_cont :: byte
  es_pid :: u16
  es_pts :: u64
  es_dts :: u64
  es_ptsf :: bool
  es_rand :: bool
  es_video :: bool
  es_bufs :: chain

record ngx_ts_program =
  pr_number :: u16
  pr_pid :: u16
  pr_pcr_pid :: u16
  pr_pcr :: u64
  pr_video :: bool
  pr_es :: "ngx_ts_es list"
  pr_bufs :: chain

record ('h, 'w, 'p) ngx_ts_stream =
  ts_progs :: "ngx_ts_program list"
  ts_pool :: 'p
  ts_buf :: "buf option"
  ts_free :: chain
  ts_bufs :: chain
  ts_handlers :: "'h list"
  ts_world :: 'w

text \<open>\<open>ngx_ts_handler_data_t\<close>: the program and the elementary stream by their indices.\<close>

record ngx_ts_handler_data =
  hd_event :: ngx_ts_event_e
  hd_prog :: "nat option"
  hd_es :: "nat option"
  hd_bufs :: chain

record ngx_ts_header =
  h_pusi :: bool
  h_cont :: byte
  h_rand :: bool
  h_pcrf :: bool
  h_stuff :: bool
  h_pid :: u16
  h_pcr :: u64

text \<open>\<open>ngx_memzero\<close> of a header, and \<open>ngx_pcalloc\<close> of a program and of an elementary stream.\<close>

definition zero_header :: ngx_ts_header where
  "zero_header = \<lparr>h_pusi = False, h_cont = 0, h_rand = False, h_pcrf = False, h_stuff = False,
     h_pid = 0, h_pcr = 0\<rparr>"

definition zero_es :: ngx_ts_es where
  "zero_es = \<lparr>es_type = 0, es_sid = 0, es_cont = 0, es_pid = 0, es_pts = 0, es_dts = 0,
     es_ptsf = False, es_rand = False, es_video = False, es_bufs = []\<rparr>"

definition zero_program :: ngx_ts_program where
  "zero_program = \<lparr>pr_number = 0, pr_pid = 0, pr_pcr_pid = 0, pr_pcr = 0, pr_video = False,
     pr_es = [], pr_bufs = []\<rparr>"

text \<open>A stream as its users create it (\<open>ngx_pcalloc\<close>, then the pool).\<close>

definition zero_ts :: "'p \<Rightarrow> 'w \<Rightarrow> ('h, 'w, 'p) ngx_ts_stream" where
  "zero_ts p w = \<lparr>ts_progs = [], ts_pool = p, ts_buf = None, ts_free = [], ts_bufs = [],
     ts_handlers = [], ts_world = w\<rparr>"

type_synonym ('h, 'w, 'p) handler_call =
  "'h \<Rightarrow> ngx_ts_handler_data \<Rightarrow> ('h, 'w, 'p) ngx_ts_stream \<Rightarrow>
   ngx_rc \<times> ('h, 'w, 'p) ngx_ts_stream"

definition upd_prog ::
    "nat \<Rightarrow> (ngx_ts_program \<Rightarrow> ngx_ts_program) \<Rightarrow> ('h, 'w, 'p) ngx_ts_stream \<Rightarrow>
     ('h, 'w, 'p) ngx_ts_stream" where
  "upd_prog i f ts = ts\<lparr>ts_progs := (ts_progs ts)[i := f (ts_progs ts ! i)]\<rparr>"

definition upd_es ::
    "nat \<Rightarrow> nat \<Rightarrow> (ngx_ts_es \<Rightarrow> ngx_ts_es) \<Rightarrow> ('h, 'w, 'p) ngx_ts_stream \<Rightarrow>
     ('h, 'w, 'p) ngx_ts_stream" where
  "upd_es i j f = upd_prog i (\<lambda>pr. pr\<lparr>pr_es := (pr_es pr)[j := f (pr_es pr ! j)]\<rparr>)"

section \<open>Handlers\<close>

text \<open>24 is \<open>sizeof(ngx_ts_handler_t)\<close>: three pointers.\<close>

definition ngx_ts_add_handler ::
    "'p pool_ops \<Rightarrow> ('h, 'w, 'p) ngx_ts_stream \<Rightarrow> 'h \<Rightarrow> ngx_rc \<times> ('h, 'w, 'p) ngx_ts_stream" where
  "ngx_ts_add_handler ops ts h =
     (case p_alloc ops (ts_pool ts) 24 of
        None \<Rightarrow> (NGX_ERROR, ts)
      | Some (p, _) \<Rightarrow> (NGX_OK, ts\<lparr>ts_pool := p, ts_handlers := h # ts_handlers ts\<rparr>))"

fun run_handlers_loop ::
    "('h, 'w, 'p) handler_call \<Rightarrow> ngx_ts_handler_data \<Rightarrow> 'h list \<Rightarrow> ('h, 'w, 'p) ngx_ts_stream \<Rightarrow>
     ngx_rc \<times> ('h, 'w, 'p) ngx_ts_stream" where
  "run_handlers_loop call dat [] ts = (NGX_OK, ts)"
| "run_handlers_loop call dat (h # hs) ts =
     (case call h dat ts of
        (rc, ts') \<Rightarrow> if rc \<noteq> NGX_OK then (NGX_ERROR, ts') else run_handlers_loop call dat hs ts')"

definition ngx_ts_run_handlers ::
    "('h, 'w, 'p) handler_call \<Rightarrow> ngx_ts_event_e \<Rightarrow> ('h, 'w, 'p) ngx_ts_stream \<Rightarrow> nat option \<Rightarrow>
     nat option \<Rightarrow> chain \<Rightarrow> ngx_rc \<times> ('h, 'w, 'p) ngx_ts_stream" where
  "ngx_ts_run_handlers call event ts prog es bufs =
     run_handlers_loop call \<lparr>hd_event = event, hd_prog = prog, hd_es = es, hd_bufs = bufs\<rparr>
       (ts_handlers ts) ts"

section \<open>Buffers in flight\<close>

definition ngx_ts_free_buf ::
    "'p pool_ops \<Rightarrow> ('h, 'w, 'p) ngx_ts_stream \<Rightarrow> buf \<Rightarrow> ngx_rc \<times> ('h, 'w, 'p) ngx_ts_stream" where
  "ngx_ts_free_buf ops ts b =
     (case p_link ops (ts_pool ts) of
        None \<Rightarrow> (NGX_ERROR, ts)
      | Some p \<Rightarrow> (NGX_OK, ts\<lparr>ts_pool := p, ts_free := b # ts_free ts\<rparr>))"

text \<open>\<open>ngx_ts_free_chain\<close> returns the stream; the chain passed by reference becomes empty.\<close>

definition ngx_ts_free_chain ::
    "('h, 'w, 'p) ngx_ts_stream \<Rightarrow> chain \<Rightarrow> ('h, 'w, 'p) ngx_ts_stream \<times> chain" where
  "ngx_ts_free_chain ts ll = (if ll = [] then (ts, []) else (ts\<lparr>ts_free := ll @ ts_free ts\<rparr>, []))"

definition ngx_ts_append_buf ::
    "'p pool_ops \<Rightarrow> ('h, 'w, 'p) ngx_ts_stream \<Rightarrow> ngx_ts_header \<Rightarrow> chain \<Rightarrow> buf option \<Rightarrow>
     ngx_rc \<times> ('h, 'w, 'p) ngx_ts_stream \<times> chain" where
  "ngx_ts_append_buf ops ts h ll b =
     (case b of
        None \<Rightarrow> (NGX_OK, ts, ll)
      | Some b \<Rightarrow>
          if \<not> h_pusi h \<and> ll = [] then
            (case ngx_ts_free_buf ops ts b of (rc, ts') \<Rightarrow> (rc, ts', ll))
          else
            let (ts, ll) = (if h_pusi h \<and> ll \<noteq> [] then ngx_ts_free_chain ts ll else (ts, ll))
            in (case p_link ops (ts_pool ts) of
                  None \<Rightarrow> (NGX_ERROR, ts, ll)
                | Some p \<Rightarrow> (NGX_OK, ts\<lparr>ts_pool := p\<rparr>, ll @ [b])))"

definition ngx_ts_dash_get_oti :: "byte \<Rightarrow> nat" where
  "ngx_ts_dash_get_oti type =
     (if type = NGX_TS_VIDEO_MPEG1 then 0x6a
      else if type = NGX_TS_VIDEO_MPEG2 then 0x61
      else if type = NGX_TS_VIDEO_MPEG4 then 0x20
      else if type = NGX_TS_VIDEO_AVC then 0x21
      else if type = NGX_TS_AUDIO_MPEG1 then 0x6b
      else if type = NGX_TS_AUDIO_MPEG2 then 0x69
      else if type = NGX_TS_AUDIO_AAC then 0x40
      else 0)"

section \<open>Where the packet buffers are\<close>

text \<open>
  Every buffer the reader ever allocates is in exactly one place: being filled, collected for the
  PAT, a PMT or a PES packet, or on the free list.  The operations move buffers and neither lose
  nor copy one.
\<close>

lemma ngx_ts_free_chain_simp [simp]:
  "ngx_ts_free_chain ts ll = (ts\<lparr>ts_free := ll @ ts_free ts\<rparr>, [])"
  by (simp add: ngx_ts_free_chain_def)

lemma append_buf_count:
  assumes "ngx_ts_append_buf ops ts h ll (Some b) = (NGX_OK, ts', ll')"
  shows "length (ts_free ts') + length ll' = length (ts_free ts) + length ll + 1"
  using assms
  by (auto simp: ngx_ts_append_buf_def ngx_ts_free_buf_def Let_def split: option.splits if_splits)

lemma append_buf_frame:
  assumes "ngx_ts_append_buf ops ts h ll b = (rc, ts', ll')"
  shows "ts_progs ts' = ts_progs ts" "ts_handlers ts' = ts_handlers ts" "ts_world ts' = ts_world ts"
    "ts_bufs ts' = ts_bufs ts" "ts_buf ts' = ts_buf ts"
  using assms
  by (auto simp: ngx_ts_append_buf_def ngx_ts_free_buf_def Let_def split: option.splits if_splits)

text \<open>With memory available: what a packet does to the chain it belongs to.\<close>

lemma append_buf_cases:
  assumes "pool_total ops"
  obtains (flush) "b = None" "ngx_ts_append_buf ops ts h ll b = (NGX_OK, ts, ll)"
  | (orphan) b' p where "b = Some b'" "\<not> h_pusi h" "ll = []"
      "ngx_ts_append_buf ops ts h ll b = (NGX_OK, ts\<lparr>ts_pool := p, ts_free := b' # ts_free ts\<rparr>, [])"
  | (start) b' p where "b = Some b'" "h_pusi h"
      "ngx_ts_append_buf ops ts h ll b = (NGX_OK, ts\<lparr>ts_pool := p, ts_free := ll @ ts_free ts\<rparr>, [b'])"
  | (cont) b' p where "b = Some b'" "\<not> h_pusi h" "ll \<noteq> []"
      "ngx_ts_append_buf ops ts h ll b = (NGX_OK, ts\<lparr>ts_pool := p\<rparr>, ll @ [b'])"
proof (cases b)
  case None
  then show thesis by (intro flush) (auto simp: ngx_ts_append_buf_def)
next
  case (Some b')
  obtain p where p: "p_link ops (ts_pool ts) = Some p"
    using assms by (rule pool_total_link)
  show thesis
  proof (cases "h_pusi h")
    case True
    have "ngx_ts_append_buf ops ts h ll b
        = (NGX_OK, ts\<lparr>ts_pool := p, ts_free := ll @ ts_free ts\<rparr>, [b'])"
      using Some True p by (cases ts) (auto simp: ngx_ts_append_buf_def)
    with Some True show thesis by (rule start)
  next
    case False
    then show thesis
      using Some p orphan cont
      by (cases "ll = []") (auto simp: ngx_ts_append_buf_def ngx_ts_free_buf_def)
  qed
qed

lemma run_handlers_nil [simp]: "run_handlers_loop call dat [] ts = (NGX_OK, ts)"
  by simp

end
