(* ===== verification/Ts_Header.thy ===== *)
theory Ts_Header
  imports Ts_Types
begin

text \<open>
  Reading the header of one 188-byte packet: \<open>ngx_ts_read_header\<close> of ngx\_ts\_stream.c, with the
  adaptation field and the program clock reference.  The result is an error (\<open>Inl\<close>), \<open>NGX_DONE\<close>
  when the packet has no payload (also \<open>Inl\<close>), or the length of the header (\<open>Inr\<close>).
\<close>

definition read_pcr :: "bytes \<Rightarrow> u64" where
  "read_pcr p =
     (let pcrb = ucast (p ! 0);
          pcrb = push_bit 8 pcrb + ucast (p ! 1);
          pcrb = push_bit 8 pcrb + ucast (p ! 2);
          pcrb = push_bit 8 pcrb + ucast (p ! 3);
          pcrb = push_bit 1 pcrb + ucast (drop_bit 7 (p ! 4));
          pcre = ucast (p ! 4 AND 0x01);
          pcre = push_bit 8 pcre + ucast (p ! 5)
      in pcrb * 300 + pcre)"

text \<open>The fields after a non-zero \<open>adaptation_field_length\<close>; \<open>p\<close> starts at the flags.\<close>

definition read_adaptation :: "bytes \<Rightarrow> ngx_ts_header \<Rightarrow> ngx_ts_header" where
  "read_adaptation p h =
     (let h = h\<lparr>h_rand := p ! 0 AND 0x40 \<noteq> 0\<rparr>;
          h = h\<lparr>h_pcrf := p ! 0 AND 0x10 \<noteq> 0\<rparr>
      in if h_pcrf h then h\<lparr>h_pcr := read_pcr (drop 1 p)\<rparr> else h)"

definition ngx_ts_read_header :: "bytes \<Rightarrow> (ngx_rc + nat) \<times> ngx_ts_header" where
  "ngx_ts_read_header p =
     (if p ! 0 \<noteq> 0x47 then (Inl NGX_ERROR, zero_header)
      else
        let h = zero_header\<lparr>h_pusi := p ! 1 AND 0x40 \<noteq> 0,
                  h_pid := push_bit 8 (ucast (p ! 1 AND 0x1f)) + ucast (p ! 2)\<rparr>;
            afic = drop_bit 4 (p ! 3 AND 0x30);
            h = h\<lparr>h_cont := p ! 3 AND 0x0f\<rparr>
        in if afic = 0 then (Inl NGX_ERROR, h)
           else if afic AND 0x02 \<noteq> 0 then
             let alen = p ! 4
             in if alen > 183 then (Inl NGX_ERROR, h)
                else
                  (if afic AND 0x01 \<noteq> 0 then Inr (4 + (unat alen + 1)) else Inl NGX_DONE,
                   if alen \<noteq> 0 then read_adaptation (drop 5 p) h else h)
           else (Inr 4, h))"

section \<open>Bounds\<close>

lemma byte_gt_183: "\<not> (alen :: byte) > 183 \<Longrightarrow> unat alen \<le> 183"
  by (simp add: word_le_nat_alt not_less)

text \<open>The header never reaches past the packet, so the payload \<open>b->pos + n .. b->last\<close> is inside it.\<close>

lemma read_header_length:
  "ngx_ts_read_header p = (Inr n, h) \<Longrightarrow> 4 \<le> n \<and> n \<le> NGX_TS_PACKET_SIZE"
  by (auto simp: ngx_ts_read_header_def Let_def NGX_TS_PACKET_SIZE_def dest: byte_gt_183
           split: if_splits)

text \<open>The packet identifier has 13 bits.\<close>

lemma pid_of_bytes:
  "unat (push_bit 8 (ucast ((a :: byte) AND 0x1f)) + ucast (b :: byte) :: u16)
     = unat a mod 32 * 256 + unat b"
proof -
  have "unat a mod 32 < 32" by simp
  then have "unat a mod 32 * 256 + unat b < 65536"
    using unat_byte_less [of b] by arith
  then show ?thesis
    by (subst unat_shift_add) (simp_all add: byte_simps)
qed

lemma read_adaptation_keeps [simp]:
  "h_pid (read_adaptation p h) = h_pid h" "h_cont (read_adaptation p h) = h_cont h"
  "h_pusi (read_adaptation p h) = h_pusi h" "h_stuff (read_adaptation p h) = h_stuff h"
  by (simp_all add: read_adaptation_def Let_def)

lemma read_header_pid:
  "ngx_ts_read_header p = (Inr n, h) \<Longrightarrow> unat (h_pid h) = unat (p ! 1) mod 32 * 256 + unat (p ! 2)"
  by (auto simp: ngx_ts_read_header_def Let_def pid_of_bytes split: if_splits)

section \<open>Bytes with flags\<close>

lemma bit_0x30: "bit (0x30 :: int) n \<longleftrightarrow> n = 4 \<or> n = 5"
proof -
  have "(0x30 :: int) = 0x10 OR 0x20" by simp
  then show ?thesis by (simp only: bit_or_iff byte_bits)
qed

lemma byte_flag_5bits:
  assumes "unat (x :: byte) < 32"
  shows "(0x40 OR x) AND 0x40 \<noteq> 0" "x AND 0x40 = 0" "unat ((0x40 OR x) AND 0x1f) = unat x"
    "unat (x AND 0x1f) = unat x"
proof -
  have b: "n < 5" if "bit x n" for n
    using bit_less_exp [of x 5] that assms by simp
  have "bit ((0x40 OR x) AND 0x40) 6"
    by (simp add: bit_or_iff bit_and_iff byte_bits)
  then show "(0x40 OR x) AND 0x40 \<noteq> 0" by (metis bit_0_eq bot_apply bot_bool_def)
  show "x AND 0x40 = 0"
    by (intro bit_word_eqI) (auto simp: bit_and_iff byte_bits dest: b)
  have "(0x40 OR x) AND 0x1f = x" "x AND 0x1f = x"
    by (intro bit_word_eqI; auto simp: bit_and_iff bit_or_iff byte_bits dest: b)+
  then show "unat ((0x40 OR x) AND 0x1f) = unat x" "unat (x AND 0x1f) = unat x"
    by simp_all
qed

lemma byte_cont_4bits:
  assumes "unat (x :: byte) < 16"
  shows "drop_bit 4 ((0x10 OR x) AND 0x30) = 1" "(0x10 OR x) AND 0x0f = x"
    "drop_bit 4 (((0x10 OR x) OR 0x20) AND 0x30) = 3" "((0x10 OR x) OR 0x20) AND 0x0f = x"
proof -
  have b: "n < 4" if "bit x n" for n
    using bit_less_exp [of x 4] that assms by simp
  have x0: "x AND 0x30 = 0"
    by (intro bit_word_eqI) (auto simp: bit_and_iff bit_0x30 dest: b)
  have x1: "x AND 0x0f = x"
    by (intro bit_word_eqI) (auto simp: bit_and_iff byte_bits dest: b)
  show "drop_bit 4 ((0x10 OR x) AND 0x30) = 1" "(0x10 OR x) AND 0x0f = x"
    "drop_bit 4 (((0x10 OR x) OR 0x20) AND 0x30) = 3" "((0x10 OR x) OR 0x20) AND 0x0f = x"
    by (simp_all add: word_ao_dist x0 x1)
qed

lemma byte_step_4bits: "unat ((x + 1 :: byte) AND 0x0f) = (unat x + 1) mod 16"
  by (simp add: byte_simps unat_word_ariths mod_mod_cancel)


section \<open>Properties\<close>

text \<open>
  C32: the header never reaches past the packet and the identifier has 13 bits, so the payload
  \<open>b->pos + n .. b->last\<close> the readers get lies inside the 188-byte buffer.
\<close>

theorem read_header_bounds:
  assumes "ngx_ts_read_header p = (Inr n, h)"
  shows "4 \<le> n \<and> n \<le> NGX_TS_PACKET_SIZE \<and> unat (h_pid h) < 2 ^ 13"
proof -
  have "unat (p ! 1) mod 32 * 256 + unat (p ! 2) < 8192"
    using unat_byte_less [of "p ! 2"] mod_less_divisor [of 32 "unat (p ! 1)"] by linarith
  then show ?thesis using read_header_length [OF assms] read_header_pid [OF assms] by simp
qed

theorem read_header_bounds_witness:
  "4 \<le> (4 :: nat) \<and> (4 :: nat) \<le> NGX_TS_PACKET_SIZE \<and>
   unat (h_pid (snd (ngx_ts_read_header [0x47, 0x40, 0x11, 0x10]))) < 2 ^ 13"
  by (rule read_header_bounds [of "[0x47, 0x40, 0x11, 0x10]"]) (simp add: ngx_ts_read_header_def Let_def)

end
