(* ===== verification/Ts_Packetize.thy ===== *)
theory Ts_Packetize
  imports Ts_Header
begin

text \<open>
  Cutting a chain into transport stream packets: \<open>ngx_ts_packetize\<close> of ngx\_ts\_stream.c.  The main
  lemma says that reading back the headers of the packets with \<open>ngx_ts_read_header\<close> gives the
  identifier, the indicators and consecutive continuity counters, and that the payloads joined are
  the input.  The \<open>do ... while (in)\<close> loop takes fuel, one unit for a packet: \<open>None\<close> means that the
  loop has not ended.  It ends for every chain of non-empty buffers; a chain whose last buffer is
  empty can keep it running for ever (\<open>packetize_loop_stuck\<close>).
\<close>

section \<open>The code\<close>

text \<open>A buffer for the next packet, from the free list or from the pool.\<close>

definition next_packet_buf ::
    "'p pool_ops \<Rightarrow> ('h, 'w, 'p) ngx_ts_stream \<Rightarrow> ('h, 'w, 'p) ngx_ts_stream \<times> bytes option" where
  "next_packet_buf ops ts =
     (case ts_free ts of
        b # fs \<Rightarrow> (ts\<lparr>ts_free := fs\<rparr>, Some (b_mem b))
      | [] \<Rightarrow>
          (case p_alloc ops (ts_pool ts) NGX_TS_PACKET_SIZE of
             None \<Rightarrow> (ts, None)
           | Some (p, m) \<Rightarrow>
               (case p_link ops p of
                  None \<Rightarrow> (ts\<lparr>ts_pool := p\<rparr>, None)
                | Some p' \<Rightarrow> (ts\<lparr>ts_pool := p'\<rparr>, Some m))))"

definition pcr_bytes :: "u64 \<Rightarrow> bytes" where
  "pcr_bytes pcr =
     (let pcrb = pcr div 300; pcre = pcr mod 300
      in [ucast (drop_bit 25 pcrb), ucast (drop_bit 17 pcrb), ucast (drop_bit 9 pcrb),
          ucast (drop_bit 1 pcrb),
          ucast (push_bit 7 pcrb) OR ucast (drop_bit 8 pcre AND 0x01), ucast pcre])"

text \<open>
  Everything before the data bytes; \<open>cap\<close> is \<open>b->end - b->start\<close>, \<open>left\<close> what is still to be written.
\<close>

definition packet_head :: "ngx_ts_header \<Rightarrow> bool \<Rightarrow> nat \<Rightarrow> nat \<Rightarrow> bytes" where
  "packet_head h first left cap =
     [0x47, (if first then 0x40 else 0x00) OR ucast (drop_bit 8 (h_pid h)), ucast (h_pid h)] @
     (let af = 0x10 OR h_cont h
      in if h_rand h \<or> h_pcrf h \<or> (h_stuff h \<and> left < 184) then
           let flags = (if h_rand h then 0x40 else 0x00) OR (if h_pcrf h then 0x10 else 0x00);
               pcr = (if h_pcrf h then pcr_bytes (h_pcr h) else []);
               room = cap - (6 + length pcr);
               n = (if h_stuff h \<and> left < room then room - left else 0)
           in [af OR 0x20, word_of_nat (1 + length pcr + n), flags] @ pcr @ replicate n 0xff
         else [af])"

text \<open>
  The loop over the data bytes: the bytes put into the packet, how many of them came from the
  input, and where the input goes on.
\<close>

fun fill_packet :: "chain \<Rightarrow> nat \<Rightarrow> nat \<Rightarrow> bytes \<times> nat \<times> chain \<times> nat" where
  "fill_packet [] ip room = ([], 0, [], ip)"
| "fill_packet (b # cl) ip room =
     (if room = 0 then ([], 0, b # cl, ip)
      else
        let n = min (b_last b - ip) room;
            d = take n (drop ip (b_mem b))
        in if ip + n = b_last b
           then (if cl = [] then (d @ replicate (room - n) 0xff, n, [], ip + n)
                 else (case fill_packet cl (first_pos cl) (room - n) of
                         (d', k, cl', ip') \<Rightarrow> (d @ d', n + k, cl', ip')))
           else (d, n, b # cl, ip + n))"

fun packetize_loop ::
    "nat \<Rightarrow> 'p pool_ops \<Rightarrow> ('h, 'w, 'p) ngx_ts_stream \<Rightarrow> ngx_ts_header \<Rightarrow> bool \<Rightarrow> chain \<Rightarrow> nat \<Rightarrow>
     nat \<Rightarrow> (('h, 'w, 'p) ngx_ts_stream \<times> ngx_ts_header \<times> chain option) option" where
  "packetize_loop 0 ops ts h first inn ip left = None"
| "packetize_loop (Suc fuel) ops ts h first inn ip left =
     (case next_packet_buf ops ts of
        (ts, None) \<Rightarrow> Some (ts, h, None)
      | (ts, Some m) \<Rightarrow>
          let cap = length m;
              head = packet_head h first left cap;
              h' = h\<lparr>h_cont := (h_cont h + 1) AND 0x0f, h_rand := False, h_pcrf := False\<rparr>
          in (case fill_packet inn ip (cap - length head) of
                (dat, k, inn', ip') \<Rightarrow>
                  let b = \<lparr>b_mem = head @ dat, b_pos = 0, b_last = cap\<rparr>
                  in if inn' = [] then Some (ts, h', Some [b])
                     else (case packetize_loop fuel ops ts h' False inn' ip' (left - k) of
                             None \<Rightarrow> None
                           | Some (ts, h'', out) \<Rightarrow> Some (ts, h'', map_option ((#) b) out))))"

definition chain_size :: "chain \<Rightarrow> nat" where
  "chain_size cl = sum_list (map (\<lambda>b. b_last b - b_pos b) cl)"

definition ngx_ts_packetize ::
    "nat \<Rightarrow> 'p pool_ops \<Rightarrow> ('h, 'w, 'p) ngx_ts_stream \<Rightarrow> ngx_ts_header \<Rightarrow> chain \<Rightarrow>
     (('h, 'w, 'p) ngx_ts_stream \<times> ngx_ts_header \<times> chain option) option" where
  "ngx_ts_packetize fuel ops ts h inn =
     packetize_loop fuel ops ts h True inn (first_pos inn) (chain_size inn)"

section \<open>The clock reference survives\<close>

text \<open>A 33-bit base and a 9-bit extension below 300.\<close>

definition pcr_range :: "u64 \<Rightarrow> bool" where
  "pcr_range pcr \<longleftrightarrow> unat pcr < 300 * 2 ^ 33"

lemma length_pcr_bytes [simp]: "length (pcr_bytes pcr) = 6"
  by (simp add: pcr_bytes_def Let_def)

lemma pcr_byte4:
  "unat ((ucast (push_bit 7 (b :: u64)) :: byte) OR ucast (drop_bit 8 (e :: u64) AND 0x01)) =
     unat b mod 2 * 128 + unat e div 256 mod 2"
proof -
  have d: "(ucast (push_bit 7 b) :: byte) AND ucast (drop_bit 8 e AND 0x01) = 0"
    by (intro bit_word_eqI) (auto simp: bit_simps bit_1_iff)
  have "(ucast (push_bit 7 b) :: byte) OR ucast (drop_bit 8 e AND 0x01)
      = ucast (push_bit 7 b) + ucast (drop_bit 8 e AND 0x01)"
    using d by (simp add: disjunctive_add_eq_or)
  moreover have "unat (ucast (push_bit 7 b) :: byte) = unat b mod 2 * 128"
    by (simp add: unat_ucast_byte unat_push_bit mod_mod_cancel) (simp add: mult_mod_left)
  moreover have "unat (ucast (drop_bit 8 e AND 0x01) :: byte) = unat e div 256 mod 2"
    by (simp add: unat_ucast_byte and_one_eq unat_mod unat_drop_bit mod_mod_cancel)
  ultimately show ?thesis
    by (simp add: unat_word_ariths)
qed

lemma read_pcr_bytes:
  assumes "pcr_range pcr"
  shows "read_pcr (pcr_bytes pcr @ xs) = pcr"
proof -
  define b where "b = unat (pcr div 300)"
  define e where "e = unat (pcr mod 300)"
  have b: "b = unat pcr div 300" "b < 2 ^ 33"
    using assms by (auto simp: b_def pcr_range_def unat_div less_mult_imp_div_less)
  have e: "e = unat pcr mod 300" "e < 300"
    by (simp_all add: e_def unat_mod)
  let ?p = "pcr_bytes pcr @ xs"
  have nth: "?p ! 0 = ucast (drop_bit 25 (pcr div 300))" "?p ! 1 = ucast (drop_bit 17 (pcr div 300))"
    "?p ! 2 = ucast (drop_bit 9 (pcr div 300))" "?p ! 3 = ucast (drop_bit 1 (pcr div 300))"
    "unat (?p ! 4) = b mod 2 * 128 + e div 256 mod 2" "?p ! 5 = ucast (pcr mod 300)"
    using pcr_byte4 [of "pcr div 300" "pcr mod 300"]
    by (simp_all add: pcr_bytes_def Let_def b_def e_def)
  note n = nth b_def [symmetric] e_def [symmetric]
  define s0 :: u64 where "s0 = ucast (?p ! 0)"
  define s1 where "s1 = push_bit 8 s0 + ucast (?p ! 1)"
  define s2 where "s2 = push_bit 8 s1 + ucast (?p ! 2)"
  define s3 where "s3 = push_bit 8 s2 + ucast (?p ! 3)"
  define s4 where "s4 = push_bit 1 s3 + ucast (drop_bit 7 (?p ! 4))"
  define e1 :: u64 where "e1 = push_bit 8 (ucast (?p ! 4 AND 0x01)) + ucast (?p ! 5)"
  have sh: "unat (push_bit k v + w) = unat v * 2 ^ k + unat w"
    if "unat v * 2 ^ k + unat w < 2 ^ 40" for v w :: u64 and k
    by (rule unat_shift_add) (rule less_trans [OF that], simp)
  have s0: "unat s0 = b div 33554432"
    using b(2) unfolding s0_def by (simp add: n byte_simps)
  have d: "b div 131072 < 2 ^ 16" "b div 512 < 2 ^ 24" "b div 2 < 2 ^ 32" "b < 2 ^ 33"
    using b(2) by (simp_all add: less_mult_imp_div_less)
  have "unat s0 * 2 ^ 8 + unat (ucast (?p ! 1) :: u64) = b div 131072"
    using div_step [of b 131072 256] by (simp add: n byte_simps s0 del: One_nat_def)
  with d have s1: "unat s1 = b div 131072" unfolding s1_def by (simp add: sh)
  have "unat s1 * 2 ^ 8 + unat (ucast (?p ! 2) :: u64) = b div 512"
    using div_step [of b 512 256] by (simp add: n byte_simps s1)
  with d have s2: "unat s2 = b div 512" unfolding s2_def by (simp add: sh)
  have "unat s2 * 2 ^ 8 + unat (ucast (?p ! 3) :: u64) = b div 2"
    using div_step [of b 2 256] by (simp add: n byte_simps s2)
  with d have s3: "unat s3 = b div 2" unfolding s3_def by (simp add: sh)
  have y: "e div 256 mod 2 = e div 256" "e div 256 < 2"
    using e(2) by (simp_all add: less_mult_imp_div_less)
  then have "(b mod 2 * 128 + e div 256 mod 2) div 128 = b mod 2" by simp
  then have "unat s3 * 2 ^ 1 + unat (ucast (drop_bit 7 (?p ! 4)) :: u64) = b"
    using div_step [of b 1 2] by (simp add: unat_drop_bit nth(5) s3)
  with d have s4: "unat s4 = b" unfolding s4_def by (subst sh) simp_all
  have m2: "(b mod 2 * 128 + e div 256) mod 2 = e div 256"
    using y mod_mult_self3 [of "b mod 2 * 64" 2 "e div 256"] by (simp add: mult.commute)
  have "unat (ucast (?p ! 4 AND 0x01) :: u64) * 2 ^ 8 + unat (ucast (?p ! 5) :: u64) = e"
    by (simp only: unat_byte_cast unat_byte_masks nth(5) nth(6) unat_ucast_byte e_def [symmetric])
       (simp add: m2 y)
  with e(2) have e1: "unat e1 = e" unfolding e1_def by (simp add: sh)
  have "b * 300 + e = unat pcr" using b(1) e(1) by simp
  then have "unat (s4 * 300 + e1) = unat pcr"
    using unat_u64_less [of pcr] by (simp add: unat_word_ariths s4 e1 mod_simps)
  moreover have "read_pcr ?p = s4 * 300 + e1"
    unfolding read_pcr_def Let_def s4_def s3_def s2_def s1_def s0_def e1_def ..
  ultimately show ?thesis by (simp only: word_unat_eq_iff)
qed

section \<open>Reading a packet head back\<close>

definition header_ok :: "ngx_ts_header \<Rightarrow> bool" where
  "header_ok h \<longleftrightarrow> unat (h_pid h) < 2 ^ 13 \<and> unat (h_cont h) < 16 \<and> (h_pcrf h \<longrightarrow> pcr_range (h_pcr h))"

text \<open>What a packet says about itself: the indicators of the writer's header, and whether it is first.\<close>

definition seen_header :: "ngx_ts_header \<Rightarrow> bool \<Rightarrow> ngx_ts_header" where
  "seen_header h first = \<lparr>h_pusi = first, h_cont = h_cont h, h_rand = h_rand h, h_pcrf = h_pcrf h,
     h_stuff = False, h_pid = h_pid h, h_pcr = (if h_pcrf h then h_pcr h else 0)\<rparr>"

lemma packet_head_length:
  "length (packet_head h first left NGX_TS_PACKET_SIZE) \<le> NGX_TS_PACKET_SIZE"
  "h_stuff h \<Longrightarrow> left < NGX_TS_PACKET_SIZE - length (packet_head h first left NGX_TS_PACKET_SIZE) \<Longrightarrow> False"
  by (auto simp: packet_head_def Let_def NGX_TS_PACKET_SIZE_def split: if_splits)

lemma packet_head_room:
  "0 < left \<Longrightarrow> 0 < NGX_TS_PACKET_SIZE - length (packet_head h first left NGX_TS_PACKET_SIZE)"
  by (auto simp: packet_head_def Let_def NGX_TS_PACKET_SIZE_def split: if_splits)

lemma pid_bytes:
  assumes "unat (pid :: u16) < 2 ^ 13"
  defines "x \<equiv> ucast (drop_bit 8 pid) :: byte"
  shows "unat x < 32" "push_bit 8 (ucast (x AND 0x1f)) + ucast (ucast pid :: byte) = pid"
    "push_bit 8 (ucast ((0x40 OR x) AND 0x1f)) + ucast (ucast pid :: byte) = pid"
proof -
  have x: "unat x = unat pid div 256" "unat pid div 256 < 32"
    using assms(1) by (auto simp: x_def byte_simps less_mult_imp_div_less)
  then show x32: "unat x < 32" by simp
  have "unat ((0x40 OR x) AND 0x1f) = unat x" "unat (x AND 0x1f) = unat x"
    using byte_flag_5bits [OF x32] by simp_all
  moreover have "unat (push_bit 8 (ucast y) + ucast (ucast pid :: byte) :: u16) = unat pid"
    if "unat y = unat x" for y :: byte
    using x that unat_u16_less [of pid]
    by (subst unat_shift_add) (simp_all add: byte_simps)
  ultimately show "push_bit 8 (ucast (x AND 0x1f)) + ucast (ucast pid :: byte) = pid"
    "push_bit 8 (ucast ((0x40 OR x) AND 0x1f)) + ucast (ucast pid :: byte) = pid"
    by (simp_all add: word_unat_eq_iff)
qed

lemma flag_byte:
  "((if r then 0x40 else 0x00) OR (if q then 0x10 else 0x00) :: byte) AND 0x40 \<noteq> 0 \<longleftrightarrow> r"
  "((if r then 0x40 else 0x00) OR (if q then 0x10 else 0x00) :: byte) AND 0x10 \<noteq> 0 \<longleftrightarrow> q"
  by auto

lemma read_packet_head:
  assumes "header_ok h" and pre_def: "pre = packet_head h first left NGX_TS_PACKET_SIZE"
  shows "ngx_ts_read_header (pre @ dat) = (Inr (length pre), seen_header h first)"
proof -
  let ?x = "ucast (drop_bit 8 (h_pid h)) :: byte"
  have pid: "unat (h_pid h) < 2 ^ 13" and c: "unat (h_cont h) < 16"
    using assms(1) by (auto simp: header_ok_def)
  note x = pid_bytes [OF pid] and cb = byte_cont_4bits [OF c]
  note xb = byte_flag_5bits [OF x(1)]
  have pusi: "((if first then 0x40 else 0x00) OR ?x) AND 0x40 \<noteq> 0 \<longleftrightarrow> first"
    "push_bit 8 (ucast (((if first then 0x40 else 0x00) OR ?x) AND 0x1f))
       + ucast (ucast (h_pid h) :: byte) = h_pid h"
    using x(2,3) xb(1,2) by auto
  show ?thesis
  proof (cases "h_rand h \<or> h_pcrf h \<or> (h_stuff h \<and> left < 184)")
    case False
    then have "pre = [0x47, (if first then 0x40 else 0x00) OR ?x, ucast (h_pid h), 0x10 OR h_cont h]"
      by (auto simp: pre_def packet_head_def Let_def)
    with False pusi cb show ?thesis
      by (simp add: ngx_ts_read_header_def Let_def seen_header_def zero_header_def)
  next
    case True
    define pcr where "pcr = (if h_pcrf h then pcr_bytes (h_pcr h) else [])"
    define room where "room = NGX_TS_PACKET_SIZE - (6 + length pcr)"
    define n where "n = (if h_stuff h \<and> left < room then room - left else 0)"
    define fl where "fl = (if h_rand h then 0x40 else 0x00) OR (if h_pcrf h then 0x10 else 0x00 :: byte)"
    have pre_eq: "pre = [0x47, (if first then 0x40 else 0x00) OR ?x, ucast (h_pid h)] @
        [(0x10 OR h_cont h) OR 0x20, word_of_nat (1 + length pcr + n), fl] @ pcr @ replicate n 0xff"
      using True unfolding pre_def packet_head_def Let_def pcr_def room_def n_def fl_def by simp
    have len: "length pcr \<le> 6" by (simp add: pcr_def)
    have "1 + length pcr + n \<le> 183"
      using len by (auto simp: n_def room_def NGX_TS_PACKET_SIZE_def)
    then have alen: "unat (word_of_nat (1 + length pcr + n) :: byte) = 1 + length pcr + n"
      by (subst unat_byte_of_nat) simp
    then have le: "\<not> (word_of_nat (1 + length pcr + n) :: byte) > 183"
        "(word_of_nat (1 + length pcr + n) :: byte) \<noteq> 0"
      using \<open>1 + length pcr + n \<le> 183\<close>
      by (auto simp: word_less_nat_alt simp del: unat_byte_of_nat of_nat_Suc of_nat_add)
    have fl: "fl AND 0x40 \<noteq> 0 \<longleftrightarrow> h_rand h" "fl AND 0x10 \<noteq> 0 \<longleftrightarrow> h_pcrf h"
      unfolding fl_def by (rule flag_byte)+
    have adapt: "read_adaptation (fl # pcr @ xs) g =
        g\<lparr>h_rand := h_rand h, h_pcrf := h_pcrf h, h_pcr := (if h_pcrf h then h_pcr h else h_pcr g)\<rparr>"
      for xs g
      using assms(1) fl by (cases g) (auto simp: read_adaptation_def Let_def pcr_def header_ok_def
          read_pcr_bytes)
    show ?thesis
      unfolding pre_eq using pusi cb alen le
      by (simp add: ngx_ts_read_header_def Let_def adapt seen_header_def zero_header_def
          del: unat_byte_of_nat of_nat_Suc of_nat_add)
  qed
qed

section \<open>Filling a packet from a chain of non-empty buffers\<close>

definition solid :: "chain \<Rightarrow> bool" where
  "solid cl \<longleftrightarrow> list_all (\<lambda>b. buf_ok b \<and> b_pos b < b_last b) cl"

definition solid_at :: "chain \<Rightarrow> nat \<Rightarrow> bool" where
  "solid_at cl ip \<longleftrightarrow> solid cl \<and> (case cl of [] \<Rightarrow> False | b # _ \<Rightarrow> b_pos b \<le> ip \<and> ip < b_last b)"

lemma solid_simps [simp]:
  "solid []" "solid (b # cl) \<longleftrightarrow> buf_ok b \<and> b_pos b < b_last b \<and> solid cl"
  "solid (xs @ ys) \<longleftrightarrow> solid xs \<and> solid ys"
  by (auto simp: solid_def)

lemma solid_at_Cons [simp]:
  "solid_at (b # cl) ip \<longleftrightarrow> buf_ok b \<and> b_pos b \<le> ip \<and> ip < b_last b \<and> solid cl"
  "\<not> solid_at [] ip"
  by (auto simp: solid_at_def)

lemma solid_at_first: "solid cl \<Longrightarrow> cl \<noteq> [] \<Longrightarrow> solid_at cl (first_pos cl)"
  by (cases cl) (auto simp: first_pos_def)

lemma solid_chain_ok: "solid cl \<Longrightarrow> chain_ok cl"
  by (auto simp: solid_def list_all_iff)

lemma chain_size_flat: "chain_ok cl \<Longrightarrow> chain_size cl = length (flat cl)"
  by (induction cl) (auto simp: chain_size_def)

abbreviation rest_at :: "chain \<Rightarrow> nat \<Rightarrow> bytes" where
  "rest_at cl ip \<equiv> br_rest \<lparr>br_cl = cl, br_p = ip\<rparr>"

lemma rest_at_Cons: "rest_at (b # cl) ip = take (b_last b - ip) (drop ip (b_mem b)) @ flat cl"
  by (simp add: br_rest_def)

lemma solid_flat_nonempty: "solid cl \<Longrightarrow> cl \<noteq> [] \<Longrightarrow> flat cl \<noteq> []"
  by (cases cl) (auto simp: buf_content_def buf_ok_def)

lemma fill_packet_spec:
  assumes "solid_at cl ip" "0 < room" "fill_packet cl ip room = (dat, k, cl', ip')"
  shows "k = min room (length (rest_at cl ip))"
    and "length (rest_at cl ip) \<le> room \<Longrightarrow>
      cl' = [] \<and> dat = rest_at cl ip @ replicate (room - length (rest_at cl ip)) 0xff"
    and "room < length (rest_at cl ip) \<Longrightarrow>
      dat = take room (rest_at cl ip) \<and> solid_at cl' ip' \<and> rest_at cl' ip' = drop room (rest_at cl ip)"
proof -
  let ?P = "\<lambda>cl ip room dat k cl' ip'.
      k = min room (length (rest_at cl ip)) \<and>
      (length (rest_at cl ip) \<le> room \<longrightarrow>
        cl' = [] \<and> dat = rest_at cl ip @ replicate (room - length (rest_at cl ip)) 0xff) \<and>
      (room < length (rest_at cl ip) \<longrightarrow>
        dat = take room (rest_at cl ip) \<and> solid_at cl' ip' \<and> rest_at cl' ip' = drop room (rest_at cl ip))"
  have "?P cl ip room dat k cl' ip'"
    using assms
  proof (induction cl arbitrary: ip room dat k)
    case Nil
    then show ?case by simp
  next
    case (Cons b cl)
    let ?m = "take (b_last b - ip) (drop ip (b_mem b))"
    from Cons.prems have p: "b_pos b \<le> ip" "ip < b_last b" "b_last b \<le> length (b_mem b)"
      and sol: "solid cl" by (auto simp: buf_ok_def)
    have m: "length ?m = b_last b - ip" using p by simp
    note r = rest_at_Cons [of b cl ip]
    consider (inside) "room < b_last b - ip" | (last) "b_last b - ip \<le> room" "cl = []"
      | (cross) "b_last b - ip \<le> room" "cl \<noteq> []" by linarith
    then show ?case
    proof cases
      case inside
      then have "fill_packet (b # cl) ip room = (take room (drop ip (b_mem b)), room, b # cl, ip + room)"
        using Cons.prems(2) by (auto simp: Let_def)
      then have out: "dat = take room (drop ip (b_mem b))" "k = room" "cl' = b # cl" "ip' = ip + room"
        using Cons.prems(3) by auto
      have "take room ?m = take room (drop ip (b_mem b))" using inside by simp
      moreover have "drop room ?m = take (b_last b - (ip + room)) (drop (ip + room) (b_mem b))"
        by (simp add: drop_take add.commute)
      ultimately show ?thesis
        using inside m p Cons.prems(1) unfolding out r by (auto simp: rest_at_Cons)
    next
      case last
      then have "fill_packet (b # cl) ip room
          = (?m @ replicate (room - (b_last b - ip)) 0xff, b_last b - ip, [], b_last b)"
        using Cons.prems(2) p by (auto simp: Let_def min_def)
      then show ?thesis
        using Cons.prems(3) last m unfolding r by auto
    next
      case cross
      obtain d2 k2 where rec: "fill_packet cl (first_pos cl) (room - (b_last b - ip)) = (d2, k2, cl', ip')"
        and out: "dat = ?m @ d2" "k = b_last b - ip + k2"
        using Cons.prems(2,3) cross p by (auto simp: Let_def min_def split: prod.splits)
      show ?thesis
      proof (cases "room = b_last b - ip")
        case True
        then have "d2 = []" "k2 = 0" "cl' = cl" "ip' = first_pos cl"
          using rec cross by (cases cl; auto)+
        with True show ?thesis
          using out m solid_at_first [OF sol cross(2)] solid_flat_nonempty [OF sol cross(2)]
          unfolding r by auto
      next
        case False
        with cross have "0 < room - (b_last b - ip)" by simp
        note IH = Cons.IH [OF solid_at_first [OF sol cross(2)] this rec, unfolded br_rest_first]
        have len: "length (?m @ flat cl) = b_last b - ip + length (flat cl)"
          using m by simp
        show ?thesis
        proof (cases "length (flat cl) \<le> room - (b_last b - ip)")
          case True
          with IH have "k2 = length (flat cl)" "cl' = []"
            "d2 = flat cl @ replicate (room - (b_last b - ip) - length (flat cl)) 0xff" by simp_all
          with True cross show ?thesis unfolding out r len by simp
        next
          case False
          with IH have "k2 = room - (b_last b - ip)" "d2 = take (room - (b_last b - ip)) (flat cl)"
            "solid_at cl' ip'" "rest_at cl' ip' = drop (room - (b_last b - ip)) (flat cl)" by simp_all
          moreover have "room < b_last b - ip + length (flat cl)" using False cross by arith
          ultimately show ?thesis using cross m unfolding out r len by simp
        qed
      qed
    qed
  qed
  then show "k = min room (length (rest_at cl ip))"
    and "length (rest_at cl ip) \<le> room \<Longrightarrow>
      cl' = [] \<and> dat = rest_at cl ip @ replicate (room - length (rest_at cl ip)) 0xff"
    and "room < length (rest_at cl ip) \<Longrightarrow>
      dat = take room (rest_at cl ip) \<and> solid_at cl' ip' \<and> rest_at cl' ip' = drop room (rest_at cl ip)"
    by blast+
qed

section \<open>The packets of a chain\<close>

text \<open>\<open>next_header h\<close>: the header of the following packet, as the loop leaves it.\<close>

definition next_header :: "ngx_ts_header \<Rightarrow> ngx_ts_header" where
  "next_header h = h\<lparr>h_cont := (h_cont h + 1) AND 0x0f, h_rand := False, h_pcrf := False\<rparr>"

definition ts_payload :: "bytes \<Rightarrow> bytes" where
  "ts_payload m = (case ngx_ts_read_header m of (Inr n, _) \<Rightarrow> drop n m | _ \<Rightarrow> [])"

fun packets_ok :: "ngx_ts_header \<Rightarrow> bool \<Rightarrow> chain \<Rightarrow> bool" where
  "packets_ok h first [] \<longleftrightarrow> True"
| "packets_ok h first (b # bs) \<longleftrightarrow>
     length (b_mem b) = NGX_TS_PACKET_SIZE \<and> b_pos b = 0 \<and> b_last b = NGX_TS_PACKET_SIZE \<and>
     snd (ngx_ts_read_header (b_mem b)) = seen_header h first \<and>
     isl (fst (ngx_ts_read_header (b_mem b))) = False \<and>
     packets_ok (next_header h) False bs"

definition packet_bufs :: "chain \<Rightarrow> bool" where
  "packet_bufs cl \<longleftrightarrow> list_all (\<lambda>b. length (b_mem b) = NGX_TS_PACKET_SIZE) cl"

lemma header_ok_next: "header_ok h \<Longrightarrow> header_ok (next_header h)"
  using byte_step_4bits [of "h_cont h"] by (simp add: header_ok_def next_header_def)

lemma next_packet_buf_total:
  assumes "pool_total ops" "packet_bufs (ts_free ts)"
  obtains p fs m where "next_packet_buf ops ts = (ts\<lparr>ts_pool := p, ts_free := fs\<rparr>, Some m)"
    "length m = NGX_TS_PACKET_SIZE" "packet_bufs fs"
proof (cases "ts_free ts")
  case Nil
  obtain p m where a: "p_alloc ops (ts_pool ts) NGX_TS_PACKET_SIZE = Some (p, m)"
      "length m = NGX_TS_PACKET_SIZE"
    using assms(1) by (rule pool_totalE)
  obtain p' where "p_link ops p = Some p'" using assms(1) by (rule pool_total_link)
  with a Nil have "next_packet_buf ops ts = (ts\<lparr>ts_pool := p', ts_free := []\<rparr>, Some m)"
    by (cases ts) (simp add: next_packet_buf_def)
  with a(2) show thesis by (intro that) (auto simp: packet_bufs_def)
next
  case (Cons b fs)
  then have "next_packet_buf ops ts = (ts\<lparr>ts_pool := ts_pool ts, ts_free := fs\<rparr>, Some (b_mem b))"
    by (cases ts) (simp add: next_packet_buf_def)
  moreover have "length (b_mem b) = NGX_TS_PACKET_SIZE" "packet_bufs fs"
    using assms(2) Cons by (simp_all add: packet_bufs_def)
  ultimately show thesis by (rule that)
qed

text \<open>
  One packet: its head, then data from the input, padded at the end of the input when the header does
  not ask for stuffing.
\<close>

lemma packet_step:
  assumes "header_ok h" "solid_at inn ip" "left = length (rest_at inn ip)" "0 < left"
    and "pre = packet_head h first left NGX_TS_PACKET_SIZE"
    and "fill_packet inn ip (NGX_TS_PACKET_SIZE - length pre) = (dat, k, inn', ip')"
  shows "length (pre @ dat) = NGX_TS_PACKET_SIZE"
    "ngx_ts_read_header (pre @ dat) = (Inr (length pre), seen_header h first)"
    "inn' = [] \<Longrightarrow> \<exists>j. dat = rest_at inn ip @ replicate j 0xff \<and> (h_stuff h \<longrightarrow> j = 0)"
    "inn' \<noteq> [] \<Longrightarrow> solid_at inn' ip' \<and> rest_at inn ip = dat @ rest_at inn' ip' \<and> 0 < k
       \<and> left - k = length (rest_at inn' ip') \<and> rest_at inn' ip' \<noteq> []"
proof -
  define room where "room = NGX_TS_PACKET_SIZE - length pre"
  have room: "0 < room" and pre: "length pre \<le> NGX_TS_PACKET_SIZE"
    using packet_head_room [OF assms(4)] packet_head_length(1) assms(5) by (auto simp: room_def)
  have nostuff: "\<not> left < room" if "h_stuff h"
    using packet_head_length(2) [OF that, of left first] assms(5) by (auto simp: room_def)
  note f = fill_packet_spec [OF assms(2) room assms(6) [folded room_def]]
  show "ngx_ts_read_header (pre @ dat) = (Inr (length pre), seen_header h first)"
    using assms(1,5) by (rule read_packet_head)
  show "length (pre @ dat) = NGX_TS_PACKET_SIZE"
    using f(2,3) pre by (cases "left \<le> room") (auto simp: room_def assms(3))
  show "\<exists>j. dat = rest_at inn ip @ replicate j 0xff \<and> (h_stuff h \<longrightarrow> j = 0)" if "inn' = []"
  proof -
    have "left \<le> room" using f(3) that assms(3) by (cases "left \<le> room") auto
    then show ?thesis using f(2) nostuff assms(3) by auto
  qed
  show "solid_at inn' ip' \<and> rest_at inn ip = dat @ rest_at inn' ip' \<and> 0 < k
       \<and> left - k = length (rest_at inn' ip') \<and> rest_at inn' ip' \<noteq> []" if "inn' \<noteq> []"
  proof -
    have "room < left" using f(2) that assms(3) by (cases "left \<le> room") auto
    with f(1,3) room assms(3) show ?thesis by auto
  qed
qed


lemma fill_packet_shrinks:
  assumes "fill_packet inn ip room = (dat, k, inn', ip')" "solid_at inn ip" "0 < room"
  shows "length dat = room \<or> inn' = []"
  using fill_packet_spec [OF assms(2,3,1)] by (cases "length (rest_at inn ip) \<le> room") auto

lemma packetize_loop_spec:
  assumes "pool_total ops" "packet_bufs (ts_free ts)" "header_ok h" "solid_at inn ip"
    and "length (rest_at inn ip) \<le> fuel"
  shows "\<exists>p fs h' out j.
      packetize_loop fuel ops ts h first inn ip (length (rest_at inn ip))
        = Some (ts\<lparr>ts_pool := p, ts_free := fs\<rparr>, h', Some out) \<and>
      packets_ok h first out \<and> out \<noteq> [] \<and>
      concat (map (\<lambda>b. ts_payload (b_mem b)) out) = rest_at inn ip @ replicate j 0xff \<and>
      (h_stuff h \<longrightarrow> j = 0) \<and> j < length (ts_payload (b_mem (last out)))"
  using assms(2-)
proof (induction fuel arbitrary: ts h first inn ip)
  case 0
  then show ?case by (cases inn) (auto simp: rest_at_Cons buf_ok_def)
next
  case (Suc fuel)
  define left where "left = length (rest_at inn ip)"
  have pos: "0 < left"
    using Suc.prems(3) by (cases inn) (auto simp: left_def rest_at_Cons buf_ok_def)
  obtain p fs m where nb: "next_packet_buf ops ts = (ts\<lparr>ts_pool := p, ts_free := fs\<rparr>, Some m)"
    and m: "length m = NGX_TS_PACKET_SIZE" and fs: "packet_bufs fs"
    using next_packet_buf_total [OF assms(1) Suc.prems(1)] by metis
  define pre where "pre = packet_head h first left NGX_TS_PACKET_SIZE"
  obtain dat k inn' ip' where
    fill: "fill_packet inn ip (NGX_TS_PACKET_SIZE - length pre) = (dat, k, inn', ip')"
    by (metis prod_cases4)
  note step = packet_step [OF Suc.prems(2,3) left_def pos pre_def fill]
  let ?b = "\<lparr>b_mem = pre @ dat, b_pos = 0, b_last = NGX_TS_PACKET_SIZE\<rparr>"
  have pay: "ts_payload (pre @ dat) = dat"
    using step(2) by (simp add: ts_payload_def)
  have hd_ok: "packets_ok h first (?b # bs) \<longleftrightarrow> packets_ok (next_header h) False bs" for bs
    using step(1,2) by simp
  have unf: "packetize_loop (Suc fuel) ops ts h first inn ip left =
      (if inn' = [] then Some (ts\<lparr>ts_pool := p, ts_free := fs\<rparr>, next_header h, Some [?b])
       else (case packetize_loop fuel ops (ts\<lparr>ts_pool := p, ts_free := fs\<rparr>) (next_header h) False
                   inn' ip' (left - k) of
               None \<Rightarrow> None
             | Some (ts, h'', out) \<Rightarrow> Some (ts, h'', map_option ((#) ?b) out)))"
    by (simp only: packetize_loop.simps nb prod.case option.case Let_def m pre_def [symmetric] fill
        next_header_def)
  show ?case
  proof (cases "inn' = []")
    case True
    from step(3) [OF True] obtain j where "dat = rest_at inn ip @ replicate j 0xff" "h_stuff h \<longrightarrow> j = 0"
      by blast
    with True show ?thesis
      unfolding left_def [symmetric] unf using hd_ok [of "[]"] pay pos left_def by auto
  next
    case False
    note st = step(4) [OF False]
    have "length (rest_at inn' ip') \<le> fuel" using st Suc.prems(4) left_def by linarith
    from Suc.IH [of "ts\<lparr>ts_pool := p, ts_free := fs\<rparr>" "next_header h" inn' ip' False, OF _ _ _ this]
    obtain p' fs' h' out j where
      rec: "packetize_loop fuel ops (ts\<lparr>ts_pool := p, ts_free := fs\<rparr>) (next_header h) False inn' ip'
          (left - k) = Some (ts\<lparr>ts_pool := p', ts_free := fs'\<rparr>, h', Some out)"
      and out: "packets_ok (next_header h) False out" "out \<noteq> []" "h_stuff h \<longrightarrow> j = 0"
        "concat (map (\<lambda>b. ts_payload (b_mem b)) out) = rest_at inn' ip' @ replicate j 0xff"
        "j < length (ts_payload (b_mem (last out)))"
      using fs header_ok_next [OF Suc.prems(2)] st by (auto simp: next_header_def)
    have "packets_ok h first (?b # out)" using hd_ok out(1) by blast
    moreover have "concat (map (\<lambda>b. ts_payload (b_mem b)) (?b # out)) = rest_at inn ip @ replicate j 0xff"
      using out(4) pay st by simp
    moreover have "packetize_loop (Suc fuel) ops ts h first inn ip left
        = Some (ts\<lparr>ts_pool := p', ts_free := fs'\<rparr>, h', Some (?b # out))"
      unfolding unf using False rec by simp
    moreover have "j < length (ts_payload (b_mem (last (?b # out))))" using out(2,5) by simp
    ultimately show ?thesis unfolding left_def [symmetric] using out(3) by blast
  qed
qed

text \<open>The continuity counter of packet \<open>i\<close>, and the payload unit start of the first packet only.\<close>

lemma packets_ok_nth:
  "packets_ok h first out \<Longrightarrow> header_ok h \<Longrightarrow> i < length out \<Longrightarrow>
   (let g = snd (ngx_ts_read_header (b_mem (out ! i)))
    in h_pid g = h_pid h \<and> unat (h_cont g) = (unat (h_cont h) + i) mod 16
       \<and> (h_pusi g \<longleftrightarrow> first \<and> i = 0) \<and> (h_rand g \<longleftrightarrow> h_rand h \<and> i = 0)
       \<and> (h_pcrf g \<longleftrightarrow> h_pcrf h \<and> i = 0))"
proof (induction h first out arbitrary: i rule: packets_ok.induct)
  case (2 h first b bs)
  have c: "unat (h_cont h) < 16" using 2 by (simp add: header_ok_def)
  show ?case
  proof (cases i)
    case 0
    with 2 c show ?thesis by (simp add: Let_def seen_header_def)
  next
    case (Suc j)
    with 2 have "let g = snd (ngx_ts_read_header (b_mem (bs ! j)))
      in h_pid g = h_pid h \<and> unat (h_cont g) = (unat (h_cont (next_header h)) + j) mod 16
       \<and> \<not> h_pusi g \<and> \<not> h_rand g \<and> \<not> h_pcrf g"
      using "2.IH" [of j] header_ok_next [of h] by (auto simp: Let_def next_header_def)
    moreover have "unat (h_cont (next_header h)) = (unat (h_cont h) + 1) mod 16"
        using byte_step_4bits [of "h_cont h"] by (simp add: next_header_def)
    ultimately show ?thesis
      using Suc by (simp add: Let_def mod_simps)
  qed
qed simp

lemma packets_ok_size:
  "packets_ok h first out \<Longrightarrow> i < length out \<Longrightarrow> length (b_mem (out ! i)) = NGX_TS_PACKET_SIZE"
  by (induction h first out arbitrary: i rule: packets_ok.induct) (auto simp: nth_Cons split: nat.splits)

section \<open>A chain that ends in an empty buffer\<close>

text \<open>
  The data of the packet are exhausted when the fill loop moves on to the empty last buffer, so the
  loop goes round with nothing left: the next packet is all stuffing, no byte is taken, and
  \<open>in\<close> stays where it is.
\<close>

lemma packetize_loop_stuck:
  assumes "pool_total ops" "packet_bufs (ts_free ts)" "h_stuff h" "b_pos b = b_last b"
  shows "packetize_loop fuel ops ts h first [b] (b_pos b) 0 = None"
  using assms(2,3)
proof (induction fuel arbitrary: ts h first)
  case (Suc fuel)
  obtain p fs m where nb: "next_packet_buf ops ts = (ts\<lparr>ts_pool := p, ts_free := fs\<rparr>, Some m)"
    and m: "length m = NGX_TS_PACKET_SIZE" and fs: "packet_bufs fs"
    using next_packet_buf_total [OF assms(1) Suc.prems(1)] by metis
  have "length (packet_head h first 0 NGX_TS_PACKET_SIZE) = NGX_TS_PACKET_SIZE"
    using packet_head_length Suc.prems(2)
    by (auto simp: packet_head_def Let_def NGX_TS_PACKET_SIZE_def)
  then show ?case
    using Suc.IH [of "ts\<lparr>ts_pool := p, ts_free := fs\<rparr>"] fs Suc.prems(2) nb m by (simp add: Let_def)
qed simp


section \<open>Properties\<close>

text \<open>
  C10: cutting a chain of non-empty buffers into packets ends, with one unit of fuel for a byte, and
  succeeds when memory is available; every packet has 188 bytes and a header that reads back as the
  writer's, with the continuity counter going up by one from packet to packet modulo 16 and the
  unit start, random access and clock reference indicators on the first packet only; and the
  payloads in order are exactly the bytes of the chain, followed by 0xff padding only when the
  header does not ask for stuffing.
\<close>

theorem packetize_spec:
  assumes "pool_total ops" "packet_bufs (ts_free ts)" "header_ok h" "solid inn" "inn \<noteq> []"
    and "length (flat inn) \<le> fuel"
  shows "\<exists>ts' h' out j. ngx_ts_packetize fuel ops ts h inn = Some (ts', h', Some out) \<and>
      concat (map (\<lambda>b. ts_payload (b_mem b)) out) = flat inn @ replicate j 0xff \<and>
      (h_stuff h \<longrightarrow> j = 0) \<and>
      (\<forall>i < length out. length (b_mem (out ! i)) = NGX_TS_PACKET_SIZE \<and>
         (let g = snd (ngx_ts_read_header (b_mem (out ! i)))
          in h_pid g = h_pid h \<and> unat (h_cont g) = (unat (h_cont h) + i) mod 16
             \<and> (h_pusi g \<longleftrightarrow> i = 0) \<and> (h_rand g \<longleftrightarrow> h_rand h \<and> i = 0)
             \<and> (h_pcrf g \<longleftrightarrow> h_pcrf h \<and> i = 0)))"
proof -
  have "chain_size inn = length (rest_at inn (first_pos inn))"
    using chain_size_flat [OF solid_chain_ok [OF assms(4)]] by simp
  moreover have "length (rest_at inn (first_pos inn)) \<le> fuel" using assms(6) by simp
  moreover note packetize_loop_spec [OF assms(1,2,3) solid_at_first [OF assms(4,5)], of fuel True]
  ultimately obtain ts' h' out j where
    "ngx_ts_packetize fuel ops ts h inn = Some (ts', h', Some out)" "packets_ok h True out"
    "concat (map (\<lambda>b. ts_payload (b_mem b)) out) = flat inn @ replicate j 0xff" "h_stuff h \<longrightarrow> j = 0"
    by (auto simp: ngx_ts_packetize_def)
  moreover from this(2) have "length (b_mem (out ! i)) = NGX_TS_PACKET_SIZE" if "i < length out" for i
    using that by (rule packets_ok_size)
  moreover note packets_ok_nth [OF \<open>packets_ok h True out\<close> assms(3)]
  ultimately show ?thesis
    by (intro exI [of _ ts'] exI [of _ h'] exI [of _ out] exI [of _ j]) (auto simp: Let_def)
qed

theorem packetize_spec_witness:
  "\<exists>ts' h' out j. ngx_ts_packetize 2 unit_pool (zero_ts () () :: (unit, unit, unit) ngx_ts_stream)
       (zero_header\<lparr>h_pid := 0x1000, h_stuff := True\<rparr>) [\<lparr>b_mem = [1, 2], b_pos = 0, b_last = 2\<rparr>]
     = Some (ts', h', Some out) \<and>
     concat (map (\<lambda>b. ts_payload (b_mem b)) out) = [1, 2] @ replicate j 0xff"
  using packetize_spec [of unit_pool "zero_ts () () :: (unit, unit, unit) ngx_ts_stream"
      "zero_header\<lparr>h_pid := 0x1000, h_stuff := True\<rparr>"
      "[\<lparr>b_mem = [1, 2], b_pos = 0, b_last = 2\<rparr>]" 2]
  by (auto simp: zero_ts_def packet_bufs_def zero_header_def header_ok_def buf_ok_def buf_content_def)

text \<open>
  C30: a chain that ends in an empty buffer, after data that fill the last packet exactly, makes the
  loop write stuffing packets for ever, when the header asks for stuffing: no fuel is enough.
\<close>

theorem packetize_empty_tail_diverges:
  assumes "pool_total ops" "packet_bufs (ts_free ts)" "h_stuff h" "\<not> h_rand h" "\<not> h_pcrf h"
    and "buf_ok a" "length (buf_content a) = 184" "b_pos b = b_last b"
  shows "ngx_ts_packetize fuel ops ts h [a, b] = None"
proof (cases fuel)
  case (Suc n)
  obtain p fs m where nb: "next_packet_buf ops ts = (ts\<lparr>ts_pool := p, ts_free := fs\<rparr>, Some m)"
    and m: "length m = NGX_TS_PACKET_SIZE" and fs: "packet_bufs fs"
    using next_packet_buf_total [OF assms(1,2)] by metis
  have size: "b_last a - b_pos a = 184" "b_last a = b_pos a + 184"
    using assms(6,7) by auto
  then have left: "chain_size [a, b] = 184" using assms(8) by (simp add: chain_size_def)
  have pre: "length (packet_head h True 184 NGX_TS_PACKET_SIZE) = 4"
    using assms(3-5) by (simp add: packet_head_def)
  have fill: "fill_packet [a, b] (b_pos a) 184 = (take 184 (drop (b_pos a) (b_mem a)), 184, [b], b_pos b)"
    using size by (simp add: Let_def first_pos_def)
  then show ?thesis
    using Suc nb m left pre fill packetize_loop_stuck [OF assms(1), of "ts\<lparr>ts_pool := p, ts_free := fs\<rparr>"
        "h\<lparr>h_cont := (h_cont h + 1) AND 0x0f, h_rand := False, h_pcrf := False\<rparr>" b n False]
      fs assms(3,8)
    by (simp add: ngx_ts_packetize_def first_pos_def Let_def NGX_TS_PACKET_SIZE_def
        del: fill_packet.simps)
qed (simp add: ngx_ts_packetize_def)

theorem packetize_empty_tail_diverges_witness:
  "ngx_ts_packetize 1000 unit_pool (zero_ts () () :: (unit, unit, unit) ngx_ts_stream)
     (zero_header\<lparr>h_stuff := True\<rparr>)
     [\<lparr>b_mem = replicate 184 7, b_pos = 0, b_last = 184\<rparr>, \<lparr>b_mem = [], b_pos = 0, b_last = 0\<rparr>] = None"
  by (rule packetize_empty_tail_diverges)
     (auto simp: zero_ts_def packet_bufs_def zero_header_def buf_ok_def buf_content_def)

end
