(* ===== verification/Ts_Crc.thy ===== *)
theory Ts_Crc
  imports Prelude
begin

text \<open>
  The table-driven CRC of ngx\_ts\_stream.c and its agreement with the CRC-32 of ISO/IEC 13818-1
  Annex A (polynomial 0x04C11DB7, most significant bit first, register preset to all ones).  The code
  keeps the register byte-swapped, so that the low byte comes first in the table lookup and in the
  bytes the writers append to a section.
\<close>

section \<open>The code\<close>

definition ngx_ts_crc32_table_ieee :: "u32 list" where
  "ngx_ts_crc32_table_ieee = [
    0x00000000, 0xb71dc104, 0x6e3b8209, 0xd926430d,
    0xdc760413, 0x6b6bc517, 0xb24d861a, 0x0550471e,
    0xb8ed0826, 0x0ff0c922, 0xd6d68a2f, 0x61cb4b2b,
    0x649b0c35, 0xd386cd31, 0x0aa08e3c, 0xbdbd4f38,
    0x70db114c, 0xc7c6d048, 0x1ee09345, 0xa9fd5241,
    0xacad155f, 0x1bb0d45b, 0xc2969756, 0x758b5652,
    0xc836196a, 0x7f2bd86e, 0xa60d9b63, 0x11105a67,
    0x14401d79, 0xa35ddc7d, 0x7a7b9f70, 0xcd665e74,
    0xe0b62398, 0x57abe29c, 0x8e8da191, 0x39906095,
    0x3cc0278b, 0x8bdde68f, 0x52fba582, 0xe5e66486,
    0x585b2bbe, 0xef46eaba, 0x3660a9b7, 0x817d68b3,
    0x842d2fad, 0x3330eea9, 0xea16ada4, 0x5d0b6ca0,
    0x906d32d4, 0x2770f3d0, 0xfe56b0dd, 0x494b71d9,
    0x4c1b36c7, 0xfb06f7c3, 0x2220b4ce, 0x953d75ca,
    0x28803af2, 0x9f9dfbf6, 0x46bbb8fb, 0xf1a679ff,
    0xf4f63ee1, 0x43ebffe5, 0x9acdbce8, 0x2dd07dec,
    0x77708634, 0xc06d4730, 0x194b043d, 0xae56c539,
    0xab068227, 0x1c1b4323, 0xc53d002e, 0x7220c12a,
    0xcf9d8e12, 0x78804f16, 0xa1a60c1b, 0x16bbcd1f,
    0x13eb8a01, 0xa4f64b05, 0x7dd00808, 0xcacdc90c,
    0x07ab9778, 0xb0b6567c, 0x69901571, 0xde8dd475,
    0xdbdd936b, 0x6cc0526f, 0xb5e61162, 0x02fbd066,
    0xbf469f5e, 0x085b5e5a, 0xd17d1d57, 0x6660dc53,
    0x63309b4d, 0xd42d5a49, 0x0d0b1944, 0xba16d840,
    0x97c6a5ac, 0x20db64a8, 0xf9fd27a5, 0x4ee0e6a1,
    0x4bb0a1bf, 0xfcad60bb, 0x258b23b6, 0x9296e2b2,
    0x2f2bad8a, 0x98366c8e, 0x41102f83, 0xf60dee87,
    0xf35da999, 0x4440689d, 0x9d662b90, 0x2a7bea94,
    0xe71db4e0, 0x500075e4, 0x892636e9, 0x3e3bf7ed,
    0x3b6bb0f3, 0x8c7671f7, 0x555032fa, 0xe24df3fe,
    0x5ff0bcc6, 0xe8ed7dc2, 0x31cb3ecf, 0x86d6ffcb,
    0x8386b8d5, 0x349b79d1, 0xedbd3adc, 0x5aa0fbd8,
    0xeee00c69, 0x59fdcd6d, 0x80db8e60, 0x37c64f64,
    0x3296087a, 0x858bc97e, 0x5cad8a73, 0xebb04b77,
    0x560d044f, 0xe110c54b, 0x38368646, 0x8f2b4742,
    0x8a7b005c, 0x3d66c158, 0xe4408255, 0x535d4351,
    0x9e3b1d25, 0x2926dc21, 0xf0009f2c, 0x471d5e28,
    0x424d1936, 0xf550d832, 0x2c769b3f, 0x9b6b5a3b,
    0x26d61503, 0x91cbd407, 0x48ed970a, 0xfff0560e,
    0xfaa01110, 0x4dbdd014, 0x949b9319, 0x2386521d,
    0x0e562ff1, 0xb94beef5, 0x606dadf8, 0xd7706cfc,
    0xd2202be2, 0x653deae6, 0xbc1ba9eb, 0x0b0668ef,
    0xb6bb27d7, 0x01a6e6d3, 0xd880a5de, 0x6f9d64da,
    0x6acd23c4, 0xddd0e2c0, 0x04f6a1cd, 0xb3eb60c9,
    0x7e8d3ebd, 0xc990ffb9, 0x10b6bcb4, 0xa7ab7db0,
    0xa2fb3aae, 0x15e6fbaa, 0xccc0b8a7, 0x7bdd79a3,
    0xc660369b, 0x717df79f, 0xa85bb492, 0x1f467596,
    0x1a163288, 0xad0bf38c, 0x742db081, 0xc3307185,
    0x99908a5d, 0x2e8d4b59, 0xf7ab0854, 0x40b6c950,
    0x45e68e4e, 0xf2fb4f4a, 0x2bdd0c47, 0x9cc0cd43,
    0x217d827b, 0x9660437f, 0x4f460072, 0xf85bc176,
    0xfd0b8668, 0x4a16476c, 0x93300461, 0x242dc565,
    0xe94b9b11, 0x5e565a15, 0x87701918, 0x306dd81c,
    0x353d9f02, 0x82205e06, 0x5b061d0b, 0xec1bdc0f,
    0x51a69337, 0xe6bb5233, 0x3f9d113e, 0x8880d03a,
    0x8dd09724, 0x3acd5620, 0xe3eb152d, 0x54f6d429,
    0x7926a9c5, 0xce3b68c1, 0x171d2bcc, 0xa000eac8,
    0xa550add6, 0x124d6cd2, 0xcb6b2fdf, 0x7c76eedb,
    0xc1cba1e3, 0x76d660e7, 0xaff023ea, 0x18ede2ee,
    0x1dbda5f0, 0xaaa064f4, 0x738627f9, 0xc49be6fd,
    0x09fdb889, 0xbee0798d, 0x67c63a80, 0xd0dbfb84,
    0xd58bbc9a, 0x62967d9e, 0xbbb03e93, 0x0cadff97,
    0xb110b0af, 0x060d71ab, 0xdf2b32a6, 0x6836f3a2,
    0x6d66b4bc, 0xda7b75b8, 0x035d36b5, 0xb440f7b1]"

definition crc32_step :: "u32 \<Rightarrow> byte \<Rightarrow> u32" where
  "crc32_step crc p =
     ngx_ts_crc32_table_ieee ! unat ((crc XOR ucast p) AND 0xff) XOR drop_bit 8 crc"

definition ngx_ts_crc32 :: "bytes \<Rightarrow> u32" where
  "ngx_ts_crc32 p = foldl crc32_step 0xffffffff p"

text \<open>The four bytes the section writers append: \<open>(u_char) crc\<close>, \<open>(u_char) (crc >> 8)\<close>, ...\<close>

definition crc32_bytes :: "u32 \<Rightarrow> bytes" where
  "crc32_bytes crc = [ucast crc, ucast (drop_bit 8 crc), ucast (drop_bit 16 crc),
     ucast (drop_bit 24 crc)]"

text \<open>The byte reversal of ngx\_rtmp.h.\<close>

definition ngx_rtmp_r32 :: "u32 \<Rightarrow> u32" where
  "ngx_rtmp_r32 n = push_bit 24 n OR (push_bit 8 n AND 0xff0000) OR (drop_bit 8 n AND 0xff00)
     OR drop_bit 24 n"

section \<open>The reference: one bit at a time\<close>

definition crc_bit :: "u32 \<Rightarrow> u32" where
  "crc_bit r = push_bit 1 r XOR (if bit r 31 then 0x04c11db7 else 0)"

definition crc_bits8 :: "u32 \<Rightarrow> u32" where
  "crc_bits8 r = crc_bit (crc_bit (crc_bit (crc_bit (crc_bit (crc_bit (crc_bit (crc_bit r)))))))"

definition crc_byte :: "u32 \<Rightarrow> byte \<Rightarrow> u32" where
  "crc_byte r b = crc_bits8 (r XOR push_bit 24 (ucast b))"

definition mpeg_crc32 :: "bytes \<Rightarrow> u32" where
  "mpeg_crc32 bs = foldl crc_byte 0xffffffff bs"

section \<open>Agreement\<close>


lemma crc_bit_xor: "crc_bit (x XOR y) = crc_bit x XOR crc_bit y"
  by (auto simp: crc_bit_def push_bit_xor bit_xor_iff ac_simps)

lemma crc_bits8_xor: "crc_bits8 (x XOR y) = crc_bits8 x XOR crc_bits8 y"
  by (simp add: crc_bits8_def crc_bit_xor)

lemma bit_r32:
  "bit (ngx_rtmp_r32 x) n \<longleftrightarrow>
     (if n < 8 then bit x (n + 24) else if n < 16 then bit x (n + 8)
      else if n < 24 then bit x (n - 8) else n < 32 \<and> bit x (n - 24))"
proof -
  have m: "(0xff0000 :: u32) = push_bit 16 (mask 8)" "(0xff00 :: u32) = push_bit 8 (mask 8)"
    by (simp_all add: mask_eq_exp_minus_1)
  show ?thesis
    unfolding ngx_rtmp_r32_def m
    by (auto simp: bit_simps not_less add.commute dest: bit_imp_le_length)
qed

lemma r32_xor: "ngx_rtmp_r32 (x XOR y) = ngx_rtmp_r32 x XOR ngx_rtmp_r32 y"
  by (intro bit_word_eqI) (simp add: bit_r32 bit_xor_iff)

definition lane :: "u32 \<Rightarrow> u32" where
  "lane x = ngx_rtmp_r32 (crc_bits8 (push_bit 24 x))"

lemma lane_xor: "lane (x XOR y) = lane x XOR lane y"
  by (simp add: lane_def push_bit_xor crc_bits8_xor r32_xor)

definition dbl :: "u32 \<Rightarrow> u32 list \<Rightarrow> u32 list" where
  "dbl b t = t @ map ((XOR) b) t"

definition tabulates :: "nat \<Rightarrow> u32 list \<Rightarrow> bool" where
  "tabulates k t \<longleftrightarrow> length t = 2 ^ k \<and> (\<forall>i < 2 ^ k. t ! i = lane (word_of_nat i))"

lemma of_nat_add_xor:
  assumes "i < 2 ^ k"
  shows "(word_of_nat (2 ^ k + i) :: u32) = 2 ^ k XOR word_of_nat i"
proof -
  have "\<not> bit i n" if "k \<le> n" for n
  proof -
    have "i < 2 ^ n" using assms that by (meson less_le_trans one_le_numeral power_increasing)
    then show ?thesis by (simp add: bit_iff_odd)
  qed
  then have disj: "(2 ^ k :: u32) AND word_of_nat i = 0"
    by (intro bit_word_eqI) (auto simp: bit_simps bit_2_iff bit_exp_iff)
  have "(2 ^ k :: u32) + word_of_nat i = 2 ^ k XOR word_of_nat i"
    by (simp add: disjunctive_add_eq_or disjunctive_xor_eq_or disj)
  then show ?thesis by simp
qed

lemma tabulates_Suc:
  assumes "tabulates k t" "b = lane (2 ^ k)"
  shows "tabulates (Suc k) (dbl b t)"
  unfolding tabulates_def dbl_def
proof (intro conjI allI impI)
  show "length (t @ map ((XOR) b) t) = 2 ^ Suc k"
    using assms by (simp add: tabulates_def)
next
  fix i :: nat
  assume i: "i < 2 ^ Suc k"
  show "(t @ map ((XOR) b) t) ! i = lane (word_of_nat i)"
  proof (cases "i < 2 ^ k")
    case True
    then show ?thesis using assms by (simp add: tabulates_def nth_append)
  next
    case False
    define j where "j = i - 2 ^ k"
    with False i have j: "i = 2 ^ k + j" "j < 2 ^ k" by auto
    then show ?thesis
      using assms of_nat_add_xor [OF j(2)] by (simp add: tabulates_def nth_append lane_xor)
  qed
qed
lemma tabulates_0: "tabulates 0 [0]"
  by (simp add: tabulates_def lane_def crc_bits8_def crc_bit_def ngx_rtmp_r32_def)

lemma table_doubling:
  "ngx_ts_crc32_table_ieee = dbl 0xeee00c69 (dbl 0x77708634 (dbl 0xe0b62398 (dbl 0x70db114c
     (dbl 0xb8ed0826 (dbl 0xdc760413 (dbl 0x6e3b8209 (dbl 0xb71dc104 [0])))))))"
  by (simp add: ngx_ts_crc32_table_ieee_def dbl_def)

lemma lane_powers:
  "lane 1 = 0xb71dc104" "lane 2 = 0x6e3b8209" "lane 4 = 0xdc760413" "lane 8 = 0xb8ed0826"
  "lane 16 = 0x70db114c" "lane 32 = 0xe0b62398" "lane 64 = 0x77708634" "lane 128 = 0xeee00c69"
  by (simp_all add: lane_def crc_bits8_def crc_bit_def ngx_rtmp_r32_def)

lemma tabulates_table: "tabulates 8 ngx_ts_crc32_table_ieee"
proof -
  have "tabulates (Suc (Suc (Suc (Suc (Suc (Suc (Suc (Suc 0)))))))) ngx_ts_crc32_table_ieee"
    unfolding table_doubling
    by (intro tabulates_Suc tabulates_0) (simp_all add: lane_powers)
  then show ?thesis by (simp add: eval_nat_numeral)
qed

lemma table_nth: "i < 256 \<Longrightarrow> ngx_ts_crc32_table_ieee ! i = lane (word_of_nat i)"
  using tabulates_table by (simp add: tabulates_def)

text \<open>Shifting a byte through the register: the top byte goes through the table, the rest moves up.\<close>

lemma crc_bit_low: "k < 8 \<Longrightarrow> crc_bit (push_bit k (take_bit 24 x)) = push_bit (Suc k) (take_bit 24 x)"
proof -
  assume "k < 8"
  then have "\<not> 31 - k < 24" by arith
  then show ?thesis
    by (simp add: crc_bit_def bit_push_bit_iff bit_take_bit_iff push_bit_push_bit del: push_bit_Suc)
qed

lemma crc_bits8_low: "crc_bits8 (take_bit 24 x) = push_bit 8 (take_bit 24 x)"
proof -
  have "crc_bits8 (push_bit 0 (take_bit 24 x))
      = push_bit (Suc (Suc (Suc (Suc (Suc (Suc (Suc (Suc 0)))))))) (take_bit 24 x)"
    unfolding crc_bits8_def by (simp only: crc_bit_low)
  then show ?thesis by (simp add: eval_nat_numeral del: push_bit_Suc)
qed

lemma crc_bits8_split:
  "crc_bits8 x = crc_bits8 (push_bit 24 (drop_bit 24 x)) XOR push_bit 8 (take_bit 24 x)"
proof -
  have "x = push_bit 24 (drop_bit 24 x) XOR take_bit 24 x"
    by (intro bit_word_eqI) (auto simp: bit_simps)
  then have "crc_bits8 x = crc_bits8 (push_bit 24 (drop_bit 24 x)) XOR crc_bits8 (take_bit 24 x)"
    by (metis crc_bits8_xor)
  then show ?thesis by (simp only: crc_bits8_low)
qed

lemma crc32_step_eq: "crc32_step (ngx_rtmp_r32 r) b = ngx_rtmp_r32 (crc_byte r b)"
proof -
  define x where "x = r XOR push_bit 24 (ucast b)"
  have idx: "(ngx_rtmp_r32 r XOR ucast b) AND 0xff = drop_bit 24 x"
  proof -
    have m: "(0xff :: u32) = mask 8" by (simp add: mask_eq_exp_minus_1)
    show ?thesis
      unfolding x_def m by (intro bit_word_eqI) (auto simp: bit_simps bit_r32 add.commute dest: bit_imp_le_length)
  qed
  have rest: "drop_bit 8 (ngx_rtmp_r32 r) = ngx_rtmp_r32 (push_bit 8 (take_bit 24 x))"
    unfolding x_def by (intro bit_word_eqI) (auto simp: bit_simps bit_r32)
  have "unat (drop_bit 24 x) < 256"
    using unat_u32_less [of x] by (simp add: unat_drop_bit less_mult_imp_div_less)
  then have "ngx_ts_crc32_table_ieee ! unat (drop_bit 24 x) = lane (drop_bit 24 x)"
    by (simp add: table_nth)
  then show ?thesis
    unfolding crc32_step_def idx rest crc_byte_def x_def [symmetric]
    by (simp add: lane_def crc_bits8_split [of x] r32_xor)
qed

lemma foldl_crc: "foldl crc32_step (ngx_rtmp_r32 r) bs = ngx_rtmp_r32 (foldl crc_byte r bs)"
  by (induction bs arbitrary: r) (simp_all add: crc32_step_eq)

lemma crc32_step_low_byte: "crc32_step c (ucast c) = drop_bit 8 c"
proof -
  have "(c XOR ucast (ucast c :: byte)) AND 0xff = 0"
  proof -
    have m: "(0xff :: u32) = mask 8" by (simp add: mask_eq_exp_minus_1)
    show ?thesis unfolding m by (intro bit_word_eqI) (auto simp: bit_simps)
  qed
  moreover have "ngx_ts_crc32_table_ieee ! 0 = 0"
    by (simp add: ngx_ts_crc32_table_ieee_def)
  ultimately show ?thesis by (simp add: crc32_step_def)
qed

lemma crc32_append_self: "ngx_ts_crc32 (bs @ crc32_bytes (ngx_ts_crc32 bs)) = 0"
proof -
  define c where "c = ngx_ts_crc32 bs"
  have z: "drop_bit 32 c = 0" by (intro bit_word_eqI) (auto simp: bit_simps)
  have d: "drop_bit 8 (drop_bit 8 c) = drop_bit 16 c" "drop_bit 8 (drop_bit 16 c) = drop_bit 24 c"
      "drop_bit 8 (drop_bit 24 c) = drop_bit 32 c"
    by simp_all
  have "ngx_ts_crc32 (bs @ crc32_bytes c) = foldl crc32_step c (crc32_bytes c)"
    by (simp add: ngx_ts_crc32_def c_def)
  also have "\<dots> = 0"
    by (simp only: crc32_bytes_def foldl.simps crc32_step_low_byte d z)
  finally show ?thesis by (simp add: c_def)
qed

section \<open>Properties\<close>

text \<open>
  C29: for every section the table-driven checksum is the byte-swapped CRC-32 of ISO/IEC 13818-1
  computed one bit at a time.
\<close>

theorem crc32_is_mpeg_crc: "ngx_ts_crc32 bs = ngx_rtmp_r32 (mpeg_crc32 bs)"
proof -
  have "ngx_rtmp_r32 0xffffffff = 0xffffffff"
    by (simp add: ngx_rtmp_r32_def)
  then show ?thesis
    using foldl_crc [of "0xffffffff" bs] by (simp add: ngx_ts_crc32_def mpeg_crc32_def)
qed

text \<open>
  A section followed by the four checksum bytes the writers append has checksum 0, which is
  what a demultiplexer tests.
\<close>

theorem crc32_residue: "ngx_ts_crc32 (bs @ crc32_bytes (ngx_ts_crc32 bs)) = 0"
  by (rule crc32_append_self)

end
