(* ===== verification/Ts_Write.thy ===== *)
theory Ts_Write
  imports Ts_Packetize Ts_Crc
begin

text \<open>
  The multiplexer: \<open>ngx_ts_write_pat\<close>, \<open>ngx_ts_write_pmt\<close> and \<open>ngx_ts_write_pes\<close> of ngx\_ts\_stream.c.
  Each builds its bytes in a buffer and hands the chain to \<open>ngx_ts_packetize\<close>; the fuel and the
  result are those of that function.
\<close>

type_synonym ('h, 'w, 'p) packets =
  "(('h, 'w, 'p) ngx_ts_stream \<times> chain option) option"

text \<open>\<open>(u_char) (v >> 8), (u_char) v\<close>\<close>

definition put16 :: "u16 \<Rightarrow> bytes" where
  "put16 v = [ucast (drop_bit 8 v), ucast v]"

text \<open>Two bytes of a \<open>size_t\<close> length.\<close>

definition put16_len :: "nat \<Rightarrow> byte \<Rightarrow> bytes" where
  "put16_len len flags = [flags OR word_of_nat (len div 256), word_of_nat len]"

text \<open>A section: the pointer field, the bytes and their checksum.\<close>

definition with_crc :: "bytes \<Rightarrow> bytes" where
  "with_crc sec = 0 # sec @ crc32_bytes (ngx_ts_crc32 sec)"

definition whole_buf :: "bytes \<Rightarrow> buf" where
  "whole_buf m = \<lparr>b_mem = m, b_pos = 0, b_last = length m\<rparr>"

section \<open>The program association table\<close>

definition pat_section :: "ngx_ts_program list \<Rightarrow> bytes" where
  "pat_section progs =
     [0] @ put16_len (9 + length progs * 4) 0x80 @ [0, 0, 0x01, 0, 0] @
     concat (map (\<lambda>prog. put16 (pr_number prog) @ put16 (pr_pid prog)) progs)"

definition ngx_ts_write_pat ::
    "nat \<Rightarrow> 'p pool_ops \<Rightarrow> ('h, 'w, 'p) ngx_ts_stream \<Rightarrow> ngx_ts_program option \<Rightarrow>
     ('h, 'w, 'p) packets" where
  "ngx_ts_write_pat fuel ops ts prog =
     (let progs = (case prog of Some p \<Rightarrow> [p] | None \<Rightarrow> ts_progs ts);
          len = 9 + length progs * 4
      in case p_alloc ops (ts_pool ts) (4 + len) of
           None \<Rightarrow> Some (ts, None)
         | Some (pool, _) \<Rightarrow>
             (case ngx_ts_packetize fuel ops (ts\<lparr>ts_pool := pool\<rparr>) zero_header
                     [whole_buf (with_crc (pat_section progs))] of
                None \<Rightarrow> None
              | Some (ts, _, out) \<Rightarrow> Some (ts, out)))"

section \<open>The program map table\<close>

definition pmt_section :: "ngx_ts_program \<Rightarrow> bytes" where
  "pmt_section prog =
     [0x02] @ put16_len (13 + 5 * length (pr_es prog)) 0x80 @ put16 (pr_number prog) @
     [0x01, 0, 0] @ put16 (pr_pcr_pid prog) @ [0, 0] @
     concat (map (\<lambda>es. [es_type es] @ put16 (es_pid es) @ [0, 0]) (pr_es prog))"

definition ngx_ts_write_pmt ::
    "nat \<Rightarrow> 'p pool_ops \<Rightarrow> ('h, 'w, 'p) ngx_ts_stream \<Rightarrow> ngx_ts_program \<Rightarrow>
     ('h, 'w, 'p) packets" where
  "ngx_ts_write_pmt fuel ops ts prog =
     (let len = 13 + 5 * length (pr_es prog)
      in case p_alloc ops (ts_pool ts) (4 + len) of
           None \<Rightarrow> Some (ts, None)
         | Some (pool, _) \<Rightarrow>
             (case ngx_ts_packetize fuel ops (ts\<lparr>ts_pool := pool\<rparr>) (zero_header\<lparr>h_pid := pr_pid prog\<rparr>)
                     [whole_buf (with_crc (pmt_section prog))] of
                None \<Rightarrow> None
              | Some (ts, _, out) \<Rightarrow> Some (ts, out)))"

section \<open>A packetized elementary stream\<close>

text \<open>The stream ids that have no optional header.\<close>

definition pes_plain_sid :: "byte \<Rightarrow> bool" where
  "pes_plain_sid sid \<longleftrightarrow> sid \<in> {0xbc, 0xbe, 0xbf, 0xf0, 0xf1, 0xff, 0xf2, 0xf8}"

text \<open>A 33-bit time stamp in five bytes after the 4-bit code in \<open>mark\<close>.\<close>

definition pes_stamp :: "byte \<Rightarrow> u64 \<Rightarrow> bytes" where
  "pes_stamp mark pts =
     [mark OR (ucast (drop_bit 29 pts AND 0x0e)), ucast (drop_bit 22 pts),
      0x01 OR ucast (drop_bit 14 pts), ucast (drop_bit 7 pts), 0x01 OR ucast (push_bit 1 pts)]"

text \<open>From the \<open>0x80\<close> of \<open>PES_scrambling_control\<close> to the last time stamp.\<close>

definition pes_optional :: "ngx_ts_es \<Rightarrow> bytes" where
  "pes_optional es =
     (if pes_plain_sid (es_sid es) then []
      else if es_pts es = es_dts es then [0x80, 0x80, 5] @ pes_stamp 0x21 (es_pts es)
      else [0x80, 0xc0, 10] @ pes_stamp 0x31 (es_pts es) @ pes_stamp 0x11 (es_dts es))"

definition pes_header :: "ngx_ts_es \<Rightarrow> chain \<Rightarrow> bytes" where
  "pes_header es bufs =
     (let opt = pes_optional es;
          len = length opt + chain_size bufs
      in [0, 0, 1, es_sid es] @ (if len \<le> 0xffff then put16_len len 0 else [0, 0]) @ opt)"

text \<open>The result carries \<open>es\<close>, whose continuity counter is updated on success.\<close>

definition ngx_ts_write_pes ::
    "nat \<Rightarrow> 'p pool_ops \<Rightarrow> ('h, 'w, 'p) ngx_ts_stream \<Rightarrow> ngx_ts_program \<Rightarrow> ngx_ts_es \<Rightarrow> chain \<Rightarrow>
     (('h, 'w, 'p) ngx_ts_stream \<times> ngx_ts_es \<times> chain option) option" where
  "ngx_ts_write_pes fuel ops ts prog es bufs =
     (let h = zero_header\<lparr>h_pid := es_pid es, h_rand := es_rand es, h_cont := es_cont es,
                h_stuff := True\<rparr>;
          h = (if pr_pcr_pid prog = es_pid es then h\<lparr>h_pcrf := True, h_pcr := pr_pcr prog\<rparr> else h)
      in case ngx_ts_packetize fuel ops ts h (whole_buf (pes_header es bufs) # bufs) of
           None \<Rightarrow> None
         | Some (ts, h', None) \<Rightarrow> Some (ts, es, None)
         | Some (ts, h', Some out) \<Rightarrow> Some (ts, es\<lparr>es_cont := h_cont h'\<rparr>, Some out))"

section \<open>Sizes\<close>

lemma length_put16 [simp]: "length (put16 v) = 2"
  by (simp add: put16_def)

lemma be_nat_put16 [simp]: "be_nat (put16 v) = unat v"
  using div_step [of "unat v" 1 256] unat_u16_less [of v]
  by (simp add: put16_def byte_simps less_mult_imp_div_less del: unat_u16_less)

lemma length_put16_len [simp]: "length (put16_len n f) = 2"
  by (simp add: put16_len_def)

lemma length_with_crc [simp]: "length (with_crc sec) = length sec + 5"
  by (simp add: with_crc_def crc32_bytes_def)

lemma length_concat_const:
  "(\<And>x. x \<in> set xs \<Longrightarrow> length (f x) = n) \<Longrightarrow> length (concat (map f xs)) = n * length xs"
  by (induction xs) auto

lemma length_pat_section [simp]: "length (pat_section progs) = 8 + 4 * length progs"
  by (simp add: pat_section_def length_concat_const [where n = 4])

lemma length_pmt_section [simp]: "length (pmt_section prog) = 12 + 5 * length (pr_es prog)"
  by (simp add: pmt_section_def length_concat_const [where n = 5])

lemma length_pes_stamp [simp]: "length (pes_stamp m t) = 5"
  by (simp add: pes_stamp_def)

lemma whole_buf_simps [simp]:
  "buf_content (whole_buf m) = m" "buf_ok (whole_buf m)" "b_pos (whole_buf m) = 0"
  "b_last (whole_buf m) = length m" "b_mem (whole_buf m) = m"
  by (simp_all add: whole_buf_def buf_ok_def buf_content_def)

lemma put16_len_be:
  assumes "n < 65536"
  shows "be_nat (put16_len n 0) = n"
  using assms div_step [of n 1 256] by (simp add: put16_len_def less_mult_imp_div_less)

section \<open>Properties\<close>

text \<open>
  The writers use the memory they allocate exactly: the association and map tables fill the
  \<open>4 + len\<close> bytes of the allocation, and the header of a packetized stream never outgrows the
  19-byte array on the stack.
\<close>

theorem write_sizes:
  "length (with_crc (pat_section progs)) = 4 + (9 + length progs * 4) \<and>
   length (with_crc (pmt_section prog)) = 4 + (13 + 5 * length (pr_es prog)) \<and>
   length (pes_header es bufs) \<le> 19"
  by (simp_all add: pes_header_def pes_optional_def Let_def)

end
