(* ===== verification/Ts_Psi.thy ===== *)
theory Ts_Psi
  imports Ts_Write
begin

text \<open>
  Program specific information, demultiplexed: \<open>ngx_ts_read_pat\<close> and \<open>ngx_ts_read_pmt\<close> of
  ngx\_ts\_stream.c.  A section is collected from packets until all its bytes are there; the lemmas
  say what the readers do in terms of the bytes of the collected chain alone, whichever way they are
  cut into buffers, and that they undo \<open>ngx_ts_write_pat\<close> and \<open>ngx_ts_write_pmt\<close>.
\<close>

section \<open>The code\<close>

text \<open>
  Pointer field, table id and section length, up to \<open>len &= 0x0fff\<close>; \<open>None\<close> when the bytes are not
  there yet.
\<close>

definition read_section_head :: "byte_read \<Rightarrow> (byte_read \<times> nat) option" where
  "read_section_head br =
     (case ngx_ts_byte_read8 br of (rc, ptr, br) \<Rightarrow>
        if rc = NGX_AGAIN then None
        else case ngx_ts_byte_read_skip br (unat ptr + 1) of (rc, br) \<Rightarrow>
          if rc = NGX_AGAIN then None
          else case ngx_ts_byte_read16 br of (rc, len, br) \<Rightarrow>
            if rc = NGX_AGAIN then None else Some (br, unat (len AND 0x0fff)))"

fun read_pat_entries :: "nat \<Rightarrow> byte_read \<Rightarrow> ngx_ts_program list" where
  "read_pat_entries 0 br = []"
| "read_pat_entries (Suc n) br =
     (case ngx_ts_byte_read16 br of (_, number, br) \<Rightarrow>
        case ngx_ts_byte_read16 br of (_, pid, br) \<Rightarrow>
          if number \<noteq> 0
          then zero_program\<lparr>pr_number := number, pr_pid := pid AND 0x1fff\<rparr> # read_pat_entries n br
          else read_pat_entries n br)"

text \<open>48 is \<open>sizeof(ngx_ts_program_t)\<close> and 40 below \<open>sizeof(ngx_ts_es_t)\<close> on a 64-bit host.\<close>

definition ngx_ts_read_pat ::
    "'p pool_ops \<Rightarrow> ('h, 'w, 'p) handler_call \<Rightarrow> ('h, 'w, 'p) ngx_ts_stream \<Rightarrow> ngx_ts_header \<Rightarrow> buf \<Rightarrow>
     ngx_rc \<times> ('h, 'w, 'p) ngx_ts_stream" where
  "ngx_ts_read_pat ops call ts h b =
     (if ts_progs ts \<noteq> [] then ngx_ts_free_buf ops ts b
      else case ngx_ts_append_buf ops ts h (ts_bufs ts) (Some b) of (rc, ts, ll) \<Rightarrow>
        let ts = ts\<lparr>ts_bufs := ll\<rparr>
        in if rc \<noteq> NGX_OK then (NGX_ERROR, ts)
           else case read_section_head (ngx_ts_byte_read_init (ts_bufs ts)) of
             None \<Rightarrow> (NGX_OK, ts)
           | Some (br, len) \<Rightarrow>
               if len < 9 then (NGX_ERROR, ts)
               else if len > 0x03fd then (NGX_ERROR, ts)
               else if fst (ngx_ts_byte_read_skip br len) = NGX_AGAIN then (NGX_OK, ts)
               else
                 let br = snd (ngx_ts_byte_read_skip br 5);
                     nprogs = (len - 9) div 4
                 in case p_alloc ops (ts_pool ts) (nprogs * 48) of
                      None \<Rightarrow> (NGX_ERROR, ts)
                    | Some (pool, _) \<Rightarrow>
                        let ts = ts\<lparr>ts_pool := pool, ts_progs := read_pat_entries nprogs br\<rparr>
                        in case ngx_ts_run_handlers call NGX_TS_PAT ts None None [] of (rc, ts) \<Rightarrow>
                             if rc \<noteq> NGX_OK then (NGX_ERROR, ts)
                             else case ngx_ts_free_chain ts (ts_bufs ts) of (ts, ll) \<Rightarrow>
                               (NGX_OK, ts\<lparr>ts_bufs := ll\<rparr>))"

text \<open>
  The first pass over the elementary streams, which checks that they fill the section:
  \<open>None\<close> is malformed, \<open>Some nes\<close> their number.  Every turn takes at least 5 from \<open>len\<close>.
\<close>

function count_es :: "byte_read \<Rightarrow> nat \<Rightarrow> nat option" where
  "count_es pr len =
     (if len = 0 then Some 0
      else case ngx_ts_byte_read pr 3 of (rc, _, pr) \<Rightarrow>
        if rc = NGX_AGAIN then None
        else case ngx_ts_byte_read16 pr of (rc, elen, pr) \<Rightarrow>
          if rc = NGX_AGAIN then None
          else case ngx_ts_byte_read pr (unat (elen AND 0x0fff)) of (rc, _, pr) \<Rightarrow>
            if rc = NGX_AGAIN then None
            else if len < 5 + unat (elen AND 0x0fff) then None
            else map_option Suc (count_es pr (len - (5 + unat (elen AND 0x0fff)))))"
  by pat_completeness auto
termination by (relation "measure snd") auto

declare count_es.simps [simp del]

definition ngx_ts_video_type :: "byte \<Rightarrow> bool" where
  "ngx_ts_video_type type \<longleftrightarrow> type = NGX_TS_VIDEO_MPEG1 \<or> type = NGX_TS_VIDEO_MPEG2 \<or>
     type = NGX_TS_VIDEO_MPEG4 \<or> type = NGX_TS_VIDEO_AVC"

fun read_es_entries :: "nat \<Rightarrow> byte_read \<Rightarrow> ngx_ts_es list" where
  "read_es_entries 0 br = []"
| "read_es_entries (Suc n) br =
     (case ngx_ts_byte_read8 br of (_, type, br) \<Rightarrow>
        case ngx_ts_byte_read16 br of (_, pid, br) \<Rightarrow>
          case ngx_ts_byte_read16 br of (_, elen, br) \<Rightarrow>
            case ngx_ts_byte_read_skip br (unat (elen AND 0x0fff)) of (_, br) \<Rightarrow>
              zero_es\<lparr>es_type := type, es_pid := pid AND 0x1fff, es_video := ngx_ts_video_type type\<rparr>
                # read_es_entries n br)"

text \<open>
  The handler is \<open>ngx_ts_read_pmt (ts, prog = &ts->progs[i], h, b)\<close>.  The cursor \<open>br\<close> passed to the
  second pass is the one the first pass started from.
\<close>

definition ngx_ts_read_pmt ::
    "'p pool_ops \<Rightarrow> ('h, 'w, 'p) handler_call \<Rightarrow> ('h, 'w, 'p) ngx_ts_stream \<Rightarrow> nat \<Rightarrow>
     ngx_ts_header \<Rightarrow> buf \<Rightarrow> ngx_rc \<times> ('h, 'w, 'p) ngx_ts_stream" where
  "ngx_ts_read_pmt ops call ts i h b =
     (if pr_es (ts_progs ts ! i) \<noteq> [] then ngx_ts_free_buf ops ts b
      else case ngx_ts_append_buf ops ts h (pr_bufs (ts_progs ts ! i)) (Some b) of (rc, ts, ll) \<Rightarrow>
        let ts = upd_prog i (\<lambda>pr. pr\<lparr>pr_bufs := ll\<rparr>) ts
        in if rc \<noteq> NGX_OK then (NGX_ERROR, ts)
           else case read_section_head (ngx_ts_byte_read_init ll) of
             None \<Rightarrow> (NGX_OK, ts)
           | Some (br, len) \<Rightarrow>
               if len < 13 then (NGX_ERROR, ts)
               else if len > 0x03fd then (NGX_ERROR, ts)
               else if fst (ngx_ts_byte_read_skip br len) = NGX_AGAIN then (NGX_OK, ts)
               else
                 case ngx_ts_byte_read16 (snd (ngx_ts_byte_read_skip br 5)) of (_, pid, br) \<Rightarrow>
                   let ts = upd_prog i (\<lambda>pr. pr\<lparr>pr_pcr_pid := pid AND 0x1fff\<rparr>) ts
                   in case ngx_ts_byte_read16 br of (_, pilen, br) \<Rightarrow>
                     let pilen = unat (pilen AND 0x0fff)
                     in case ngx_ts_byte_read_skip br pilen of (rc, br) \<Rightarrow>
                       if rc = NGX_AGAIN \<or> len < 13 + pilen then (NGX_ERROR, ts)
                       else case count_es br (len - (13 + pilen)) of
                         None \<Rightarrow> (NGX_ERROR, ts)
                       | Some nes \<Rightarrow>
                           (case p_alloc ops (ts_pool ts) (nes * 40) of
                              None \<Rightarrow> (NGX_ERROR, ts)
                            | Some (pool, _) \<Rightarrow>
                                let es = read_es_entries nes br;
                                    ts = upd_prog i
                                      (\<lambda>pr. pr\<lparr>pr_es := es,
                                               pr_video := pr_video pr \<or> (\<exists>e \<in> set es. es_video e)\<rparr>)
                                      (ts\<lparr>ts_pool := pool\<rparr>)
                                in case ngx_ts_run_handlers call NGX_TS_PMT ts (Some i) None [] of
                                     (rc, ts) \<Rightarrow>
                                       if rc \<noteq> NGX_OK then (NGX_ERROR, ts)
                                       else case ngx_ts_free_chain ts (pr_bufs (ts_progs ts ! i)) of
                                         (ts, ll) \<Rightarrow>
                                           (NGX_OK, upd_prog i (\<lambda>pr. pr\<lparr>pr_bufs := ll\<rparr>) ts)))"

section \<open>Sections as bytes\<close>

text \<open>What the head of a section says, read off the bytes: the bytes after it and the length.\<close>

definition psi_head :: "bytes \<Rightarrow> (bytes \<times> nat) option" where
  "psi_head bs =
     (case bs of [] \<Rightarrow> None
      | ptr # r \<Rightarrow>
          if length r < unat ptr + 3 then None
          else Some (drop (unat ptr + 3) r, be_nat (take 2 (drop (unat ptr + 1) r)) mod 4096))"

lemma u16_of_be: "length bs = 2 \<Longrightarrow> unat (word_of_nat (be_nat bs) :: u16) = be_nat bs"
  using be_nat_less [of bs] by (simp add: unsigned_of_nat take_bit_nat_eq_self)

lemma read_section_head_spec:
  assumes "br_good br"
  shows "rel_option (\<lambda>(br', n) (r, m). br_good br' \<and> br_rest br' = r \<and> n = m)
    (read_section_head br) (psi_head (br_rest br))"
proof (cases "br_rest br")
  case Nil
  with byte_read8_short [OF assms] show ?thesis
    by (cases "ngx_ts_byte_read8 br") (simp add: read_section_head_def psi_head_def)
next
  case (Cons ptr r)
  let ?b1 = "ts_br.adv br 1"
  have r8: "ngx_ts_byte_read8 br = (NGX_OK, ptr, ?b1)" and b1: "br_good ?b1" "br_rest ?b1 = r"
    using Cons assms by (simp_all add: byte_read8_eq ts_br.good_adv ts_br.rest_adv)
  show ?thesis
  proof (cases "unat ptr + 1 \<le> length r")
    case False
    with byte_read_skip_short [OF b1(1), of "unat ptr + 1"] b1 show ?thesis
      by (cases "ngx_ts_byte_read_skip ?b1 (unat ptr + 1)")
         (simp add: read_section_head_def psi_head_def r8 Cons)
  next
    case skip: True
    let ?b2 = "ts_br.adv ?b1 (unat ptr + 1)"
    have sk: "ngx_ts_byte_read_skip ?b1 (unat ptr + 1) = (NGX_OK, ?b2)"
      and b2: "br_good ?b2" "br_rest ?b2 = drop (unat ptr + 1) r"
      using skip b1 by (simp_all add: byte_read_skip_eq ts_br.good_adv ts_br.rest_adv)
    show ?thesis
    proof (cases "unat ptr + 3 \<le> length r")
      case False
      with byte_read16_short [OF b2(1)] b2 show ?thesis
        by (cases "ngx_ts_byte_read16 ?b2")
           (simp add: read_section_head_def psi_head_def r8 sk [simplified] Cons)
    next
      case True
      then have "ngx_ts_byte_read16 ?b2
          = (NGX_OK, word_of_nat (be_nat (take 2 (drop (unat ptr + 1) r))), ts_br.adv ?b2 2)"
        "br_good (ts_br.adv ?b2 2)" "br_rest (ts_br.adv ?b2 2) = drop (unat ptr + 3) r"
        using b2 True
        by (simp_all add: byte_read16_eq ts_br.good_adv ts_br.rest_adv numeral_3_eq_3)
      with True show ?thesis
        by (simp add: read_section_head_def psi_head_def r8 sk [simplified] Cons byte_simps u16_of_be)
    qed
  qed
qed


lemma psi_head_append: "psi_head bs = Some (r, n) \<Longrightarrow> psi_head (bs @ xs) = Some (r @ xs, n)"
  by (cases bs) (auto simp: psi_head_def split: if_splits)

lemma psi_head_Some_iff:
  "psi_head bs = None \<and> read_section_head br = None \<or>
   (\<exists>br' n. read_section_head br = Some (br', n) \<and> psi_head bs = Some (br_rest br', n) \<and> br_good br')"
  if "br_good br" "br_rest br = bs"
  using read_section_head_spec [OF that(1)] that(2)
  by (cases "read_section_head br"; cases "psi_head bs") auto

lemma be_nat_put16_len:
  assumes "n < 4096"
  shows "be_nat (put16_len n 0x80) mod 4096 = n"
proof -
  have n: "n div 256 < 16" using assms by (simp add: less_mult_imp_div_less)
  have "bit (word_of_nat (n div 256) :: byte) k \<Longrightarrow> k < 4" for k
    using bit_less_exp [of "word_of_nat (n div 256) :: byte" 4 k] n by simp
  then have "(0x80 :: byte) AND word_of_nat (n div 256) = 0"
    by (intro bit_word_eqI) (force simp: bit_and_iff byte_bits)
  then have "(0x80 :: byte) OR word_of_nat (n div 256) = 0x80 + word_of_nat (n div 256)"
    by (simp add: disjunctive_add_eq_or)
  then have "unat ((0x80 :: byte) OR word_of_nat (n div 256)) = 128 + n div 256"
    using n by (simp add: unat_word_ariths)
  then have "be_nat (put16_len n 0x80) = 32768 + n"
    using div_step [of n 1 256] by (simp add: put16_len_def)
  with assms mod_mult_self3 [of 8 4096 n] show ?thesis by simp
qed

lemma psi_head_section:
  assumes "n < 4096"
  shows "psi_head (with_crc (tid # put16_len n 0x80 @ body) @ pad) =
    Some (body @ crc32_bytes (ngx_ts_crc32 (tid # put16_len n 0x80 @ body)) @ pad, n)"
proof -
  obtain a b where ab: "put16_len n 0x80 = [a, b]" by (auto simp: put16_len_def)
  with be_nat_put16_len [OF assms] show ?thesis
    by (simp add: psi_head_def with_crc_def)
qed

text \<open>A proper prefix of a section does not hold the bytes its length promises.\<close>

lemma psi_head_prefix:
  assumes "psi_head (bs @ xs) = Some (r, n)" "length r < n + length xs" "psi_head bs = Some (r', n')"
  shows "n' = n \<and> length r' < n"
  using psi_head_append [OF assms(3), of xs] assms(1,2) by auto

section \<open>The program association table\<close>

fun pat_entries :: "nat \<Rightarrow> bytes \<Rightarrow> ngx_ts_program list" where
  "pat_entries 0 bs = []"
| "pat_entries (Suc n) bs =
     (let number = word_of_nat (be_nat (take 2 bs));
          pid = word_of_nat (be_nat (take 2 (drop 2 bs)));
          ps = pat_entries n (drop 4 bs)
      in if number \<noteq> 0 then zero_program\<lparr>pr_number := number, pr_pid := pid AND 0x1fff\<rparr> # ps else ps)"

lemma read_pat_entries_spec:
  "br_good br \<Longrightarrow> 4 * n \<le> length (br_rest br) \<Longrightarrow> read_pat_entries n br = pat_entries n (br_rest br)"
  by (induction n arbitrary: br)
     (simp_all add: byte_read16_eq ts_br.rest_adv ts_br.good_adv Let_def)

definition seen_program :: "ngx_ts_program \<Rightarrow> ngx_ts_program" where
  "seen_program p = zero_program\<lparr>pr_number := pr_number p, pr_pid := pr_pid p AND 0x1fff\<rparr>"

lemma be_take_put16 [simp]:
  "word_of_nat (be_nat (take 2 (put16 v @ xs))) = v"
  "drop 2 (put16 v @ xs) = xs" "drop 4 (put16 v @ put16 w @ xs) = xs"
  using be_nat_put16 [of v] by (simp_all add: drop_append)

lemma pat_entries_written:
  "pat_entries (length ps) (concat (map (\<lambda>p. put16 (pr_number p) @ put16 (pr_pid p)) ps) @ xs) =
   map seen_program (filter (\<lambda>p. pr_number p \<noteq> 0) ps)"
  by (induction ps) (simp_all add: Let_def seen_program_def)

text \<open>The reader in terms of the bytes collected.\<close>

lemma read_pat_spec:
  assumes "ts_progs ts = []" "ngx_ts_append_buf ops ts h (ts_bufs ts) (Some b) = (NGX_OK, ts', ll)"
    and "chain_ok ll"
  shows "ngx_ts_read_pat ops call ts h b =
    (let ts = ts'\<lparr>ts_bufs := ll\<rparr>
     in case psi_head (flat ll) of
          None \<Rightarrow> (NGX_OK, ts)
        | Some (r, len) \<Rightarrow>
            if len < 9 \<or> len > 0x03fd then (NGX_ERROR, ts)
            else if length r < len then (NGX_OK, ts)
            else case p_alloc ops (ts_pool ts) ((len - 9) div 4 * 48) of
                   None \<Rightarrow> (NGX_ERROR, ts)
                 | Some (pool, _) \<Rightarrow>
                     let ts = ts\<lparr>ts_pool := pool, ts_progs := pat_entries ((len - 9) div 4) (drop 5 r)\<rparr>
                     in case ngx_ts_run_handlers call NGX_TS_PAT ts None None [] of (rc, ts) \<Rightarrow>
                          if rc \<noteq> NGX_OK then (NGX_ERROR, ts)
                          else case ngx_ts_free_chain ts (ts_bufs ts) of (ts, ll) \<Rightarrow>
                            (NGX_OK, ts\<lparr>ts_bufs := ll\<rparr>))"
proof -
  let ?br = "ngx_ts_byte_read_init ll"
  have br: "br_good ?br" "br_rest ?br = flat ll"
    using assms(3) by (simp_all add: ngx_ts_byte_read_init_def)
  from psi_head_Some_iff [OF br] show ?thesis
  proof (elim disjE exE conjE)
    assume "psi_head (flat ll) = None" "read_section_head ?br = None"
    with assms show ?thesis by (simp add: ngx_ts_read_pat_def Let_def)
  next
    fix br' n
    assume rd: "read_section_head ?br = Some (br', n)" "psi_head (flat ll) = Some (br_rest br', n)"
      and good: "br_good br'"
    show ?thesis
    proof (cases "n < 9 \<or> n > 0x03fd \<or> length (br_rest br') < n")
      case True
      moreover have "fst (ngx_ts_byte_read_skip br' n) = NGX_AGAIN" if "length (br_rest br') < n"
        using good that by (rule byte_read_skip_short)
      ultimately show ?thesis
        using assms rd by (auto simp: ngx_ts_read_pat_def Let_def)
    next
      case False
      then have le: "n \<le> length (br_rest br')" "5 \<le> length (br_rest br')"
        "4 * ((n - 9) div 4) \<le> length (br_rest br') - 5" by auto
      then have "read_pat_entries ((n - 9) div 4) (ts_br.adv br' 5)
          = pat_entries ((n - 9) div 4) (drop 5 (br_rest br'))"
        using good by (simp add: read_pat_entries_spec ts_br.rest_adv ts_br.good_adv)
      with False le good assms rd show ?thesis
        by (simp add: ngx_ts_read_pat_def Let_def byte_read_skip_eq cong: option.case_cong)
    qed
  qed
qed

text \<open>Two ways to collect the same bytes are read alike.\<close>

lemma read_pat_wait:
  assumes "ts_progs ts = []" "ngx_ts_append_buf ops ts h (ts_bufs ts) (Some b) = (NGX_OK, ts', ll)"
    and "chain_ok ll" "length ps \<le> 253" "with_crc (pat_section ps) = flat ll @ xs" "xs \<noteq> []"
  shows "ngx_ts_read_pat ops call ts h b = (NGX_OK, ts'\<lparr>ts_bufs := ll\<rparr>)"
proof -
  have sec: "pat_section ps = 0 # put16_len (9 + length ps * 4) 0x80 @ drop 3 (pat_section ps)"
    by (simp add: pat_section_def put16_len_def)
  have hd: "psi_head (with_crc (pat_section ps)) = Some (drop 3 (pat_section ps)
      @ crc32_bytes (ngx_ts_crc32 (pat_section ps)), 9 + length ps * 4)"
    using psi_head_section [of "9 + length ps * 4" 0 "drop 3 (pat_section ps)" "[]"] assms(4)
    unfolding sec [symmetric] by simp
  show ?thesis
  proof (cases "psi_head (flat ll)")
    case None
    then show ?thesis using assms by (simp add: read_pat_spec)
  next
    case (Some rn)
    then obtain r n where rn: "psi_head (flat ll) = Some (r, n)" by (cases rn) auto
    have "n = 9 + length ps * 4 \<and> length r < 9 + length ps * 4"
      using psi_head_prefix [OF hd [unfolded assms(5)] _ rn] assms(6)
      by (simp add: crc32_bytes_def)
    with rn assms(4) show ?thesis using assms(1-3) by (simp add: read_pat_spec)
  qed
qed

lemma read_pat_done:
  assumes "ts_progs ts = []" "ngx_ts_append_buf ops ts h (ts_bufs ts) (Some b) = (NGX_OK, ts', ll)"
    and "chain_ok ll" "length ps \<le> 253" "flat ll = with_crc (pat_section ps) @ xs"
  shows "ngx_ts_read_pat ops call ts h b =
    (case p_alloc ops (ts_pool ts') (length ps * 48) of
       None \<Rightarrow> (NGX_ERROR, ts'\<lparr>ts_bufs := ll\<rparr>)
     | Some (pool, _) \<Rightarrow>
         case ngx_ts_run_handlers call NGX_TS_PAT
             (ts'\<lparr>ts_bufs := ll, ts_pool := pool,
                  ts_progs := map seen_program (filter (\<lambda>p. pr_number p \<noteq> 0) ps)\<rparr>) None None [] of
           (rc, ts) \<Rightarrow>
             if rc \<noteq> NGX_OK then (NGX_ERROR, ts)
             else (NGX_OK, ts\<lparr>ts_free := ts_bufs ts @ ts_free ts, ts_bufs := []\<rparr>))"
proof -
  let ?r = "drop 3 (pat_section ps) @ crc32_bytes (ngx_ts_crc32 (pat_section ps)) @ xs"
  have sec: "pat_section ps = 0 # put16_len (9 + length ps * 4) 0x80 @ drop 3 (pat_section ps)"
    by (simp add: pat_section_def put16_len_def)
  have hd: "psi_head (flat ll) = Some (?r, 9 + length ps * 4)"
    using psi_head_section [of "9 + length ps * 4" 0 "drop 3 (pat_section ps)" xs] assms(4)
    unfolding sec [symmetric] by (simp add: assms(5))
  have r: "drop 5 ?r = concat (map (\<lambda>p. put16 (pr_number p) @ put16 (pr_pid p)) ps)
      @ crc32_bytes (ngx_ts_crc32 (pat_section ps)) @ xs"
    by (simp add: pat_section_def put16_len_def)
  have n: "(9 + length ps * 4 - 9) div 4 = length ps" by simp
  have len: "\<not> length ?r < 9 + length ps * 4" "\<not> (9 + length ps * 4 < 9 \<or> 9 + length ps * 4 > 0x03fd)"
    using assms(4) by (simp_all add: crc32_bytes_def)
  show ?thesis
    using len
    by (simp only: read_pat_spec [OF assms(1-3)] hd option.case prod.case r n pat_entries_written
        Let_def if_False ngx_ts_free_chain_simp) (simp split: option.split prod.split)
qed


section \<open>The program map table\<close>

function pmt_entries :: "bytes \<Rightarrow> nat \<Rightarrow> ngx_ts_es list option" where
  "pmt_entries bs len =
     (if len = 0 then Some []
      else if length bs < 5 then None
      else
        let elen = be_nat (take 2 (drop 3 bs)) mod 4096
        in if length bs < 5 + elen \<or> len < 5 + elen then None
           else map_option
             ((#) (zero_es\<lparr>es_type := bs ! 0, es_pid := word_of_nat (be_nat (take 2 (drop 1 bs))) AND 0x1fff,
                            es_video := ngx_ts_video_type (bs ! 0)\<rparr>))
             (pmt_entries (drop (5 + elen) bs) (len - (5 + elen))))"
  by pat_completeness auto
termination by (relation "measure snd") auto

declare pmt_entries.simps [simp del]

lemma read_elen:
  assumes "br_good br" "length (br_rest br) = length bs - k" "br_rest br = drop k bs" "k + 2 \<le> length bs"
  shows "ngx_ts_byte_read16 br = (NGX_OK, word_of_nat (be_nat (take 2 (drop k bs))), ts_br.adv br 2)"
    and "unat (word_of_nat (be_nat (take 2 (drop k bs))) AND (0x0fff :: u16)) =
      be_nat (take 2 (drop k bs)) mod 4096"
  using assms by (simp_all add: byte_read16_eq byte_simps u16_of_be)

lemma count_es_spec:
  "br_good br \<Longrightarrow> count_es br len = map_option length (pmt_entries (br_rest br) len)"
proof (induction len arbitrary: br rule: less_induct)
  case (less len)
  let ?bs = "br_rest br"
  let ?elen = "be_nat (take 2 (drop 3 ?bs)) mod 4096"
  let ?b1 = "ts_br.adv br 3"
  let ?b2 = "ts_br.adv ?b1 2"
  note short = ts_br.rd_short [of br 3] byte_read16_short [of ?b1] ts_br.rd_short [of ?b2 ?elen]
  consider (none) "len = 0" | (b3) "len \<noteq> 0" "length ?bs < 3"
    | (b5) "len \<noteq> 0" "3 \<le> length ?bs" "length ?bs < 5" | (ok) "len \<noteq> 0" "5 \<le> length ?bs"
    by linarith
  then show ?case
  proof cases
    case none
    then show ?thesis by (simp add: count_es.simps pmt_entries.simps)
  next
    case b3
    then show ?thesis
      using short(1) less.prems
      by (cases "ngx_ts_byte_read br 3") (simp add: count_es.simps [of br] pmt_entries.simps [of ?bs])
  next
    case b5
    then have "fst (ngx_ts_byte_read16 ?b1) = NGX_AGAIN"
      using short(2) less.prems by (simp add: ts_br.good_adv ts_br.rest_adv)
    with b5 less.prems show ?thesis
      by (cases "ngx_ts_byte_read16 ?b1")
         (simp add: count_es.simps [of br] pmt_entries.simps [of ?bs] ts_br.rd_eq)
  next
    case ok
    have b1: "br_good ?b1" "br_rest ?b1 = drop 3 ?bs"
      using ok less.prems by (simp_all add: ts_br.good_adv ts_br.rest_adv)
    note el = read_elen [OF b1(1) _ b1(2)]
    have r16: "ngx_ts_byte_read16 ?b1 = (NGX_OK, word_of_nat (be_nat (take 2 (drop 3 ?bs))), ?b2)"
      and elen: "unat (word_of_nat (be_nat (take 2 (drop 3 ?bs))) AND (0x0fff :: u16)) = ?elen"
      using el ok b1 by simp_all
    have b2: "br_good ?b2" "br_rest ?b2 = drop 5 ?bs"
      using ok b1 by (simp_all add: ts_br.good_adv ts_br.rest_adv)
    show ?thesis
    proof (cases "length ?bs < 5 + ?elen")
      case True
      then have "fst (ngx_ts_byte_read ?b2 ?elen) = NGX_AGAIN"
        using short(3) b2 ok by simp
      with True ok less.prems show ?thesis
        by (cases "ngx_ts_byte_read ?b2 ?elen")
           (simp add: count_es.simps [of br] pmt_entries.simps [of ?bs] ts_br.rd_eq r16 elen Let_def)
    next
      case False
      let ?b3 = "ts_br.adv ?b2 ?elen"
      have rd: "ngx_ts_byte_read ?b2 ?elen = (NGX_OK, take ?elen (drop 5 ?bs), ?b3)"
        and b3: "br_good ?b3" "br_rest ?b3 = drop (5 + ?elen) ?bs"
        using False b2 by (simp_all add: ts_br.rd_eq ts_br.good_adv ts_br.rest_adv add.commute)
      have IH: "count_es ?b3 (len - (5 + ?elen))
          = map_option length (pmt_entries (drop (5 + ?elen) ?bs) (len - (5 + ?elen)))"
        using less.IH [of "len - (5 + ?elen)" ?b3] ok b3 by simp
      have "map_option Suc (map_option length m) = map_option length (map_option ((#) e) m)"
        for m and e :: ngx_ts_es by (cases m) simp_all
      with False ok less.prems rd show ?thesis
        by (simp add: count_es.simps [of br] pmt_entries.simps [of ?bs] ts_br.rd_eq r16 elen Let_def IH)
    qed
  qed
qed

lemma read_es_entries_spec:
  "br_good br \<Longrightarrow> pmt_entries (br_rest br) len = Some es \<Longrightarrow> read_es_entries (length es) br = es"
proof (induction es arbitrary: br len)
  case (Cons e es)
  let ?bs = "br_rest br"
  let ?elen = "be_nat (take 2 (drop 3 ?bs)) mod 4096"
  have e: "5 + ?elen \<le> length ?bs" "pmt_entries (drop (5 + ?elen) ?bs) (len - (5 + ?elen)) = Some es"
    "e = zero_es\<lparr>es_type := ?bs ! 0, es_pid := word_of_nat (be_nat (take 2 (drop 1 ?bs))) AND 0x1fff,
       es_video := ngx_ts_video_type (?bs ! 0)\<rparr>"
    using Cons.prems(2) by (auto simp: pmt_entries.simps [of ?bs] Let_def split: if_splits)
  let ?b1 = "ts_br.adv br 1" and ?b2 = "ts_br.adv (ts_br.adv br 1) 2"
  let ?b3 = "ts_br.adv (ts_br.adv (ts_br.adv br 1) 2) 2"
  have b12: "br_good ?b1" "br_rest ?b1 = drop 1 ?bs" "br_good ?b2" "br_rest ?b2 = drop 3 ?bs"
    using e(1) Cons.prems(1) by (simp_all add: ts_br.good_adv ts_br.rest_adv numeral_3_eq_3)
  have b: "br_good ?b1" "br_rest ?b1 = drop 1 ?bs" "br_good ?b2" "br_rest ?b2 = drop 3 ?bs"
      "br_good ?b3" "br_rest ?b3 = drop 5 ?bs"
    using e(1) b12 ts_br.rest_adv [OF b12(3), of 2] ts_br.good_adv [OF b12(3), of 2] by simp_all
  have "ngx_ts_byte_read8 br = (NGX_OK, ?bs ! 0, ?b1)"
    "ngx_ts_byte_read16 ?b1 = (NGX_OK, word_of_nat (be_nat (take 2 (drop 1 ?bs))), ?b2)"
    using e(1) Cons.prems(1) b by (simp_all add: byte_read_eqs)
  moreover have "ngx_ts_byte_read16 ?b2 = (NGX_OK, word_of_nat (be_nat (take 2 (drop 3 ?bs))), ?b3)"
    "unat (word_of_nat (be_nat (take 2 (drop 3 ?bs))) AND (0x0fff :: u16)) = ?elen"
    using read_elen [OF b(3) _ b(4)] e(1) b(4) by simp_all
  moreover have "ngx_ts_byte_read_skip ?b3 ?elen = (NGX_OK, ts_br.adv ?b3 ?elen)"
    "br_good (ts_br.adv ?b3 ?elen)" "br_rest (ts_br.adv ?b3 ?elen) = drop (5 + ?elen) ?bs"
    using e(1) b by (simp_all add: byte_read_skip_eq ts_br.good_adv ts_br.rest_adv add.commute)
  ultimately show ?case
    using Cons.IH [of "ts_br.adv ?b3 ?elen"] e(2,3) by simp
qed simp

definition seen_es :: "ngx_ts_es \<Rightarrow> ngx_ts_es" where
  "seen_es e = zero_es\<lparr>es_type := es_type e, es_pid := es_pid e AND 0x1fff,
     es_video := ngx_ts_video_type (es_type e)\<rparr>"

lemma pmt_entries_written:
  "pmt_entries (concat (map (\<lambda>es. [es_type es] @ put16 (es_pid es) @ [0, 0]) es) @ xs) (5 * length es)
   = Some (map seen_es es)"
proof (induction es)
  case Nil
  show ?case by (simp add: pmt_entries.simps)
next
  case (Cons e es)
  let ?ys = "concat (map (\<lambda>es. [es_type es] @ put16 (es_pid es) @ [0, 0]) es) @ xs"
  obtain a b where ab: "put16 (es_pid e) = [a, b]" by (auto simp: put16_def)
  have "word_of_nat (be_nat [a, b]) = es_pid e"
    using be_take_put16(1) [of "es_pid e" "[]"] ab by simp
  then show ?case
    using Cons ab by (subst pmt_entries.simps) (simp add: seen_es_def)
qed


text \<open>The reader in terms of the bytes collected.\<close>

lemma read_pmt_spec:
  assumes "pr_es (ts_progs ts ! i) = []"
    and "ngx_ts_append_buf ops ts h (pr_bufs (ts_progs ts ! i)) (Some b) = (NGX_OK, ts', ll)"
    and "chain_ok ll"
  shows "ngx_ts_read_pmt ops call ts i h b =
    (let ts = upd_prog i (\<lambda>pr. pr\<lparr>pr_bufs := ll\<rparr>) ts'
     in case psi_head (flat ll) of
          None \<Rightarrow> (NGX_OK, ts)
        | Some (r, len) \<Rightarrow>
            if len < 13 \<or> len > 0x03fd then (NGX_ERROR, ts)
            else if length r < len then (NGX_OK, ts)
            else
              let ts = upd_prog i (\<lambda>pr. pr\<lparr>pr_pcr_pid := word_of_nat (be_nat (take 2 (drop 5 r))) AND 0x1fff\<rparr>) ts;
                  pilen = be_nat (take 2 (drop 7 r)) mod 4096
              in if length r < 9 + pilen \<or> len < 13 + pilen then (NGX_ERROR, ts)
                 else case pmt_entries (drop (9 + pilen) r) (len - (13 + pilen)) of
                   None \<Rightarrow> (NGX_ERROR, ts)
                 | Some es \<Rightarrow>
                     (case p_alloc ops (ts_pool ts) (length es * 40) of
                        None \<Rightarrow> (NGX_ERROR, ts)
                      | Some (pool, _) \<Rightarrow>
                          let ts = upd_prog i
                                (\<lambda>pr. pr\<lparr>pr_es := es,
                                         pr_video := pr_video pr \<or> (\<exists>e \<in> set es. es_video e)\<rparr>)
                                (ts\<lparr>ts_pool := pool\<rparr>)
                          in case ngx_ts_run_handlers call NGX_TS_PMT ts (Some i) None [] of
                               (rc, ts) \<Rightarrow>
                                 if rc \<noteq> NGX_OK then (NGX_ERROR, ts)
                                 else case ngx_ts_free_chain ts (pr_bufs (ts_progs ts ! i)) of
                                   (ts, ll) \<Rightarrow>
                                     (NGX_OK, upd_prog i (\<lambda>pr. pr\<lparr>pr_bufs := ll\<rparr>) ts)))"
proof -
  let ?br = "ngx_ts_byte_read_init ll"
  have br: "br_good ?br" "br_rest ?br = flat ll"
    using assms(3) by (simp_all add: ngx_ts_byte_read_init_def)
  note unf = ngx_ts_read_pmt_def [of ops call ts i h b, unfolded assms(2) prod.case]
  from psi_head_Some_iff [OF br] show ?thesis
  proof (elim disjE exE conjE)
    assume "psi_head (flat ll) = None" "read_section_head ?br = None"
    with assms(1) show ?thesis by (simp add: unf Let_def)
  next
    fix br' n
    assume rd: "read_section_head ?br = Some (br', n)" "psi_head (flat ll) = Some (br_rest br', n)"
      and good: "br_good br'"
    let ?r = "br_rest br'"
    show ?thesis
    proof (cases "n < 13 \<or> n > 0x03fd \<or> length ?r < n")
      case True
      moreover have "fst (ngx_ts_byte_read_skip br' n) = NGX_AGAIN" if "length ?r < n"
        using good that by (rule byte_read_skip_short)
      ultimately show ?thesis
        using assms(1) rd by (auto simp: unf Let_def)
    next
      case False
      let ?b1 = "ts_br.adv br' 5"
      let ?b2 = "ts_br.adv ?b1 2"
      let ?b3 = "ts_br.adv ?b2 2"
      let ?pilen = "be_nat (take 2 (drop 7 ?r)) mod 4096"
      have len: "13 \<le> length ?r" using False by linarith
      then have b: "br_good ?b1" "br_rest ?b1 = drop 5 ?r" "br_good ?b2" "br_rest ?b2 = drop 7 ?r"
        "br_good ?b3" "br_rest ?b3 = drop 9 ?r"
        using good by (simp_all add: ts_br.good_adv ts_br.rest_adv)
      have sk: "ngx_ts_byte_read_skip br' n = (NGX_OK, ts_br.adv br' n)"
        "ngx_ts_byte_read_skip br' 5 = (NGX_OK, ?b1)"
        using False len good by (simp_all add: byte_read_skip_eq)
      have r1: "ngx_ts_byte_read16 ?b1 = (NGX_OK, word_of_nat (be_nat (take 2 (drop 5 ?r))), ?b2)"
        using read_elen(1) [OF b(1) _ b(2)] len b(2) by simp
      have r2: "ngx_ts_byte_read16 ?b2 = (NGX_OK, word_of_nat (be_nat (take 2 (drop 7 ?r))), ?b3)"
        and pi: "unat (word_of_nat (be_nat (take 2 (drop 7 ?r))) AND (0x0fff :: u16)) = ?pilen"
        using read_elen [OF b(3) _ b(4)] len b(4) by simp_all
      have hd: "\<not> n < 13" "\<not> n > 0x03fd" "\<not> length ?r < n" using False by simp_all
      note run = unf rd option.case prod.case Let_def assms(1) sk r1 r2 pi fst_conv snd_conv
      show ?thesis
      proof (cases "length ?r < 9 + ?pilen")
        case True
        then have "fst (ngx_ts_byte_read_skip ?b3 ?pilen) = NGX_AGAIN"
          using b(5,6) len by (intro byte_read_skip_short) (simp_all add: less_diff_conv2 add.commute)
        then show ?thesis
          using hd True by (cases "ngx_ts_byte_read_skip ?b3 ?pilen") (simp add: run)
      next
        case False
        let ?b4 = "ts_br.adv ?b3 ?pilen"
        have sk4: "ngx_ts_byte_read_skip ?b3 ?pilen = (NGX_OK, ?b4)"
          and b4: "br_good ?b4" "br_rest ?b4 = drop (9 + ?pilen) ?r"
          using False b by (simp_all add: byte_read_skip_eq ts_br.good_adv ts_br.rest_adv add.commute)
        show ?thesis
        proof (cases "pmt_entries (drop (9 + ?pilen) ?r) (n - (13 + ?pilen))")
          case None
          then show ?thesis
            using hd False b4 by (simp add: run sk4 count_es_spec)
        next
          case (Some es)
          moreover have "read_es_entries (length es) ?b4 = es"
            using read_es_entries_spec [OF b4(1)] b4(2) Some by simp
          ultimately show ?thesis
            using hd False b4 by (simp add: run sk4 count_es_spec cong: option.case_cong)
        qed
      qed
    qed
  qed
qed


lemma pmt_section_shape:
  assumes "13 + 5 * length (pr_es prog) < 4096"
  shows "psi_head (with_crc (pmt_section prog) @ xs) =
    Some (drop 3 (pmt_section prog) @ crc32_bytes (ngx_ts_crc32 (pmt_section prog)) @ xs,
          13 + 5 * length (pr_es prog))"
proof -
  have sec: "pmt_section prog
      = 0x02 # put16_len (13 + 5 * length (pr_es prog)) 0x80 @ drop 3 (pmt_section prog)"
    by (simp add: pmt_section_def put16_len_def)
  show ?thesis
    using psi_head_section [of "13 + 5 * length (pr_es prog)" "0x02" "drop 3 (pmt_section prog)" xs]
      assms unfolding sec [symmetric] by simp
qed

lemma read_pmt_wait:
  assumes "pr_es (ts_progs ts ! i) = []"
    and "ngx_ts_append_buf ops ts h (pr_bufs (ts_progs ts ! i)) (Some b) = (NGX_OK, ts', ll)"
    and "chain_ok ll" "length (pr_es prog) \<le> 201"
    and "with_crc (pmt_section prog) = flat ll @ xs" "xs \<noteq> []"
  shows "ngx_ts_read_pmt ops call ts i h b = (NGX_OK, upd_prog i (\<lambda>pr. pr\<lparr>pr_bufs := ll\<rparr>) ts')"
proof (cases "psi_head (flat ll)")
  case None
  then show ?thesis using assms by (simp add: read_pmt_spec)
next
  case (Some rn)
  then obtain r n where rn: "psi_head (flat ll) = Some (r, n)" by (cases rn) auto
  have "n = 13 + 5 * length (pr_es prog) \<and> length r < 13 + 5 * length (pr_es prog)"
    using psi_head_prefix [OF pmt_section_shape [of prog "[]", unfolded append_Nil2 assms(5)] _ rn]
      assms(4,6) by (simp add: crc32_bytes_def)
  with rn assms(4) show ?thesis using assms(1-3) by (simp add: read_pmt_spec)
qed

definition seen_pmt :: "ngx_ts_program \<Rightarrow> chain \<Rightarrow> ngx_ts_program \<Rightarrow> ngx_ts_program" where
  "seen_pmt prog ll pr = pr\<lparr>pr_bufs := ll, pr_pcr_pid := pr_pcr_pid prog AND 0x1fff,
     pr_es := map seen_es (pr_es prog),
     pr_video := pr_video pr \<or> (\<exists>e \<in> set (pr_es prog). ngx_ts_video_type (es_type e))\<rparr>"

lemma upd_prog_upd_prog [simp]: "upd_prog i f (upd_prog i g ts) = upd_prog i (f \<circ> g) ts"
  by (cases "i < length (ts_progs ts)") (simp_all add: upd_prog_def not_less list_update_beyond)

lemma upd_prog_pool [simp]:
  "ts_pool (upd_prog i f ts) = ts_pool ts"
  "(upd_prog i f ts)\<lparr>ts_pool := p\<rparr> = upd_prog i f (ts\<lparr>ts_pool := p\<rparr>)"
  by (simp_all add: upd_prog_def)

lemma read_pmt_done:
  assumes "pr_es (ts_progs ts ! i) = []"
    and "ngx_ts_append_buf ops ts h (pr_bufs (ts_progs ts ! i)) (Some b) = (NGX_OK, ts', ll)"
    and "chain_ok ll" "length (pr_es prog) \<le> 201" "flat ll = with_crc (pmt_section prog) @ xs"
    and "p_alloc ops (ts_pool ts') (length (pr_es prog) * 40) = Some (pool, m)"
  shows "ngx_ts_read_pmt ops call ts i h b =
    (case ngx_ts_run_handlers call NGX_TS_PMT (upd_prog i (seen_pmt prog ll) (ts'\<lparr>ts_pool := pool\<rparr>))
         (Some i) None [] of
       (rc, ts) \<Rightarrow>
         if rc \<noteq> NGX_OK then (NGX_ERROR, ts)
         else (NGX_OK, upd_prog i (\<lambda>pr. pr\<lparr>pr_bufs := []\<rparr>)
                 (ts\<lparr>ts_free := pr_bufs (ts_progs ts ! i) @ ts_free ts\<rparr>)))"
proof -
  let ?n = "13 + 5 * length (pr_es prog)"
  let ?r = "drop 3 (pmt_section prog) @ crc32_bytes (ngx_ts_crc32 (pmt_section prog)) @ xs"
  have hd: "psi_head (flat ll) = Some (?r, ?n)"
    using pmt_section_shape [of prog xs] assms(4) by (simp add: assms(5))
  have len: "\<not> (?n < 13 \<or> ?n > 0x03fd)" "\<not> length ?r < ?n"
    using assms(4) by (simp_all add: crc32_bytes_def)
  obtain a b c d where put: "put16 (pr_number prog) = [a, b]" "put16 (pr_pcr_pid prog) = [c, d]"
    by (auto simp: put16_def)
  have "word_of_nat (be_nat [c, d]) = pr_pcr_pid prog"
    using be_take_put16(1) [of "pr_pcr_pid prog" "[]"] put by simp
  then have r: "word_of_nat (be_nat (take 2 (drop 5 ?r))) = pr_pcr_pid prog" "be_nat (take 2 (drop 7 ?r)) = 0"
    "drop 9 ?r = concat (map (\<lambda>es. [es_type es] @ put16 (es_pid es) @ [0, 0]) (pr_es prog))
       @ crc32_bytes (ngx_ts_crc32 (pmt_section prog)) @ xs"
    by (simp_all add: pmt_section_def put16_len_def put)
  have es: "pmt_entries (drop 9 ?r) (?n - 13) = Some (map seen_es (pr_es prog))"
    using pmt_entries_written [of "pr_es prog" "crc32_bytes (ngx_ts_crc32 (pmt_section prog)) @ xs"]
    unfolding r by simp
  have "\<not> length ?r < 9" using assms(4) by (simp add: crc32_bytes_def)
  then have z: "\<not> (length ?r < 9 + 0 mod 4096 \<or> ?n < 13 + 0 mod 4096)" by simp
  have video: "(\<exists>e \<in> set (map seen_es es). es_video e) \<longleftrightarrow> (\<exists>e \<in> set es. ngx_ts_video_type (es_type e))"
    for es by (simp add: seen_es_def)
  have al: "p_alloc ops (ts_pool ts') (length (map seen_es (pr_es prog)) * 40) = Some (pool, m)"
    using assms(6) by simp
  have upd: "upd_prog i (\<lambda>pr. pr\<lparr>pr_es := map seen_es (pr_es prog),
          pr_video := pr_video pr \<or> (\<exists>e \<in> set (map seen_es (pr_es prog)). es_video e)\<rparr>)
        ((upd_prog i (\<lambda>pr. pr\<lparr>pr_pcr_pid := pr_pcr_pid prog AND 0x1fff\<rparr>)
           (upd_prog i (\<lambda>pr. pr\<lparr>pr_bufs := ll\<rparr>) ts'))\<lparr>ts_pool := pool\<rparr>)
      = upd_prog i (seen_pmt prog ll) (ts'\<lparr>ts_pool := pool\<rparr>)"
    unfolding video by (simp add: seen_pmt_def [abs_def] o_def)
  show ?thesis
    unfolding read_pmt_spec [OF assms(1-3)] Let_def hd option.case prod.case if_not_P [OF len(1)]
      if_not_P [OF len(2)] r(1,2) if_not_P [OF z]
    by (simp only: mod_0 add_0_right es option.case upd_prog_pool(1) al prod.case upd
        ngx_ts_free_chain_simp)
qed

end
