(* ===== verification/Ts_Pes.thy ===== *)
theory Ts_Pes
  imports Ts_Psi
begin

text \<open>
  Packetized elementary streams, demultiplexed: \<open>ngx_ts_read_pes\<close> of ngx\_ts\_stream.c.  The packets
  of a PES packet are collected on \<open>es->bufs\<close>; when it is complete the handlers get the part of the
  chain that holds the payload, cut out by moving \<open>pos\<close> of its first and \<open>last\<close> of its last buffer.
\<close>

section \<open>The code\<close>

text \<open>The five bytes of a time stamp; \<open>None\<close> when they are not there.\<close>

definition read_stamp :: "byte_read \<Rightarrow> (u64 \<times> byte_read) option" where
  "read_stamp pr =
     (case ngx_ts_byte_read8 pr of (rc, v8, pr) \<Rightarrow>
        if rc = NGX_AGAIN then None
        else let pts = push_bit 29 (ucast (v8 AND 0x0e))
        in case ngx_ts_byte_read16 pr of (rc, v16, pr) \<Rightarrow>
          if rc = NGX_AGAIN then None
          else let pts = pts OR push_bit 14 (ucast (v16 AND 0xfffe))
          in case ngx_ts_byte_read16 pr of (rc, v16, pr) \<Rightarrow>
            if rc = NGX_AGAIN then None else Some (pts OR ucast (drop_bit 1 v16), pr))"

text \<open>
  The optional header.  \<open>Inl rc\<close> is a return; \<open>Inr (len, stamps, br)\<close> the length that remains, the
  time stamps when \<open>ptsf\<close> is set, and the cursor at the payload.
\<close>

definition read_pes_optional ::
    "byte \<Rightarrow> nat \<Rightarrow> byte_read \<Rightarrow> ngx_rc + (nat \<times> (u64 \<times> u64) option \<times> byte_read)" where
  "read_pes_optional sid len br =
     (if sid \<in> {0xbc, 0xbf, 0xf0, 0xf1, 0xff, 0xf2, 0xf8} then Inr (len, None, br)
      else case ngx_ts_byte_read16 br of (rc, flags, br) \<Rightarrow>
        if rc = NGX_AGAIN then Inl NGX_OK
        else case ngx_ts_byte_read8 br of (rc, hlen, br) \<Rightarrow>
          if rc = NGX_AGAIN then Inl NGX_OK
          else if len \<noteq> 0 \<and> len < 3 + unat hlen then Inl NGX_ERROR
          else
            let len = (if len \<noteq> 0 then len - (3 + unat hlen) else len);
                pr = br
            in case ngx_ts_byte_read_skip br (unat hlen) of (rc, br) \<Rightarrow>
              if rc = NGX_AGAIN then Inl NGX_OK
              else if flags AND 0x00c0 = 0x0080 then
                (case read_stamp pr of
                   None \<Rightarrow> Inl NGX_OK
                 | Some (pts, _) \<Rightarrow> Inr (len, Some (pts, pts), br))
              else if flags AND 0x00c0 = 0x00c0 then
                (case read_stamp pr of
                   None \<Rightarrow> Inl NGX_OK
                 | Some (pts, pr) \<Rightarrow>
                     (case read_stamp pr of
                        None \<Rightarrow> Inl NGX_OK
                      | Some (dts, _) \<Rightarrow> Inr (len, Some (pts, dts), br)))
              else Inr (len, None, br))"

text \<open>\<open>br.cl->buf->pos = br.p\<close>: the chain from the cursor on.\<close>

definition set_pos :: "byte_read \<Rightarrow> chain" where
  "set_pos br = (case br_cl br of [] \<Rightarrow> [] | b # cl \<Rightarrow> b\<lparr>b_pos := br_p br\<rparr> # cl)"

text \<open>\<open>pr.cl->buf->last = pr.p\<close>: the chain \<open>cl\<close> after the cursor \<open>pr\<close> has moved along it.\<close>

definition set_last :: "chain \<Rightarrow> byte_read \<Rightarrow> chain" where
  "set_last cl pr =
     take (length cl - length (br_cl pr)) cl @
     (case br_cl pr of [] \<Rightarrow> [] | b # cl' \<Rightarrow> b\<lparr>b_last := br_p pr\<rparr> # cl')"

text \<open>A chain whose last links are now \<open>cl\<close>.\<close>

definition with_tail :: "chain \<Rightarrow> chain \<Rightarrow> chain" where
  "with_tail all cl = take (length all - length cl) all @ cl"

abbreviation the_es :: "('h, 'w, 'p) ngx_ts_stream \<Rightarrow> nat \<Rightarrow> nat \<Rightarrow> ngx_ts_es" where
  "the_es ts i j \<equiv> pr_es (ts_progs ts ! i) ! j"

text \<open>From \<open>if (br.cl)\<close> to the end, once the header has been read.\<close>

definition pes_deliver ::
    "('h, 'w, 'p) handler_call \<Rightarrow> ('h, 'w, 'p) ngx_ts_stream \<Rightarrow> nat \<Rightarrow> nat \<Rightarrow> nat \<Rightarrow> bool \<Rightarrow>
     byte_read \<Rightarrow> ngx_rc \<times> ('h, 'w, 'p) ngx_ts_stream" where
  "pes_deliver call ts i j len ptsf br =
     (let dl = set_pos br;
          ts = upd_es i j (\<lambda>es. es\<lparr>es_bufs := with_tail (es_bufs es) dl\<rparr>) ts;
          (rc, dl) = (if len \<noteq> 0
             then case ngx_ts_byte_read_skip \<lparr>br_cl = dl, br_p = br_p br\<rparr> len of (rc, pr) \<Rightarrow>
               (if rc = NGX_AGAIN then (NGX_AGAIN, dl) else (NGX_OK, set_last dl pr))
             else (NGX_OK, dl))
      in if rc = NGX_AGAIN then (NGX_OK, ts)
         else
           let ts = upd_es i j
                 (\<lambda>es. es\<lparr>es_bufs := with_tail (es_bufs es) dl, es_ptsf := ptsf\<rparr>) ts
           in case ngx_ts_run_handlers call NGX_TS_PES ts (Some i) (Some j) dl of (rc, ts) \<Rightarrow>
                if rc \<noteq> NGX_OK then (NGX_ERROR, ts)
                else case ngx_ts_free_chain ts (es_bufs (the_es ts i j)) of (ts, ll) \<Rightarrow>
                  (NGX_OK, upd_es i j (\<lambda>es. es\<lparr>es_bufs := ll\<rparr>) ts))"

text \<open>What the header says about the stream and the clock, before the packet is looked at.\<close>

definition pes_note ::
    "('h, 'w, 'p) ngx_ts_stream \<Rightarrow> nat \<Rightarrow> nat \<Rightarrow> ngx_ts_header \<Rightarrow> ('h, 'w, 'p) ngx_ts_stream" where
  "pes_note ts i j h =
     (let ts = (if es_bufs (the_es ts i j) = []
            then upd_es i j (\<lambda>es. es\<lparr>es_rand := h_rand h\<rparr>) ts else ts)
      in if h_pcrf h \<and> pr_pcr_pid (ts_progs ts ! i) = es_pid (the_es ts i j)
         then upd_prog i (\<lambda>pr. pr\<lparr>pr_pcr := h_pcr h\<rparr>) ts else ts)"

text \<open>Everything after the flush of an unfinished packet.\<close>

definition read_pes_body ::
    "'p pool_ops \<Rightarrow> ('h, 'w, 'p) handler_call \<Rightarrow> ('h, 'w, 'p) ngx_ts_stream \<Rightarrow> nat \<Rightarrow> nat \<Rightarrow>
     ngx_ts_header \<Rightarrow> buf option \<Rightarrow> ngx_rc \<times> ('h, 'w, 'p) ngx_ts_stream" where
  "read_pes_body ops call ts i j h b =
     (let ts = pes_note ts i j h
      in case ngx_ts_append_buf ops ts h (es_bufs (the_es ts i j)) b of (rc, ts, ll) \<Rightarrow>
        let ts = upd_es i j (\<lambda>es. es\<lparr>es_bufs := ll\<rparr>) ts
        in if rc \<noteq> NGX_OK then (NGX_ERROR, ts)
           else case ngx_ts_byte_read (ngx_ts_byte_read_init ll) 3 of (rc, pfx, br) \<Rightarrow>
             if rc = NGX_AGAIN then (NGX_OK, ts)
             else if pfx \<noteq> [0, 0, 1] then (NGX_ERROR, ts)
             else case ngx_ts_byte_read8 br of (rc, sid, br) \<Rightarrow>
               if rc = NGX_AGAIN then (NGX_OK, ts)
               else
                 let ts = upd_es i j (\<lambda>es. es\<lparr>es_sid := sid\<rparr>) ts
                 in case ngx_ts_byte_read16 br of (rc, len, br) \<Rightarrow>
                   if rc = NGX_AGAIN then (NGX_OK, ts)
                   else if (if len \<noteq> 0 then fst (ngx_ts_byte_read_skip br (unat len)) = NGX_AGAIN
                            else b \<noteq> None)
                   then (NGX_OK, ts)
                   else if sid = 0xbe then
                     (case ngx_ts_free_chain ts (es_bufs (the_es ts i j)) of (ts, ll) \<Rightarrow>
                        (NGX_OK, upd_es i j (\<lambda>es. es\<lparr>es_bufs := ll\<rparr>) ts))
                   else case read_pes_optional sid (unat len) br of
                     Inl rc \<Rightarrow> (rc, ts)
                   | Inr (len, stamps, br) \<Rightarrow>
                       let ts = (case stamps of
                              None \<Rightarrow> ts
                            | Some (pts, dts) \<Rightarrow> upd_es i j (\<lambda>es. es\<lparr>es_pts := pts, es_dts := dts\<rparr>) ts)
                       in pes_deliver call ts i j len (stamps \<noteq> None) br)"

definition ngx_ts_read_pes ::
    "'p pool_ops \<Rightarrow> ('h, 'w, 'p) handler_call \<Rightarrow> ('h, 'w, 'p) ngx_ts_stream \<Rightarrow> nat \<Rightarrow> nat \<Rightarrow>
     ngx_ts_header \<Rightarrow> buf option \<Rightarrow> ngx_rc \<times> ('h, 'w, 'p) ngx_ts_stream" where
  "ngx_ts_read_pes ops call ts i j h b =
     (if es_bufs (the_es ts i j) \<noteq> [] \<and> h_pusi h \<and> b \<noteq> None
      then case read_pes_body ops call ts i j h None of (rc, ts) \<Rightarrow>
        if rc \<noteq> NGX_OK then (NGX_ERROR, ts) else read_pes_body ops call ts i j h b
      else read_pes_body ops call ts i j h b)"

section \<open>Cutting the payload out of the chain\<close>

lemma flat_set_pos: "flat (set_pos br) = br_rest br"
  by (simp add: set_pos_def br_rest_def buf_content_def split: list.split)

lemma set_pos_good: "br_good br \<Longrightarrow> br_good \<lparr>br_cl = set_pos br, br_p = br_p br\<rparr>"
  by (auto simp: set_pos_def br_good_def buf_ok_def split: list.splits)

lemma set_pos_first: "br_cl br = [] \<or> first_pos (set_pos br) = br_p br"
  by (simp add: set_pos_def first_pos_def split: list.split)

lemma set_last_suffix:
  "set_last (zs @ br_cl pr) pr
   = zs @ (case br_cl pr of [] \<Rightarrow> [] | b # cl' \<Rightarrow> b\<lparr>b_last := br_p pr\<rparr> # cl')"
  by (simp add: set_last_def)

lemma first_pos_set_last:
  assumes "suffix (br_cl pr) cl"
  shows "first_pos (set_last cl pr) = first_pos cl"
proof -
  obtain zs where "cl = zs @ br_cl pr" using assms by (auto simp: suffix_def)
  then show ?thesis
    using set_last_suffix [of zs pr]
    by (cases zs) (auto simp: first_pos_def split: list.splits)
qed

lemma flat_set_last_rest:
  "suffix (br_cl pr) cl \<Longrightarrow> flat (set_last cl pr) = br_rest \<lparr>br_cl = set_last cl pr, br_p = first_pos cl\<rparr>"
  by (metis br_rest_first first_pos_set_last)

lemma set_last_loop:
  assumes "br_good \<lparr>br_cl = cl, br_p = p\<rparr>" "byte_read_loop cl p n = (ds, 0, cl', p')"
  shows "br_rest \<lparr>br_cl = set_last cl \<lparr>br_cl = cl', br_p = p'\<rparr>, br_p = p\<rparr> = ds @ flat (tl cl')"
  using assms
proof (induction cl arbitrary: p n ds)
  case Nil
  then show ?case by (simp add: set_last_def br_rest_def)
next
  case (Cons b cl)
  let ?n = "min (b_last b - p) n"
  from Cons.prems(1) have p: "b_pos b \<le> p" "p \<le> b_last b" "b_last b \<le> length (b_mem b)"
    and ok: "chain_ok cl" by (auto simp: br_good_def buf_ok_def)
  show ?case
  proof (cases "n = 0 \<or> p + ?n \<noteq> b_last b")
    case True
    then have "byte_read_loop (b # cl) p n = (take n (drop p (b_mem b)), 0, b # cl, p + n)"
      using p by (auto simp: Let_def min_def)
    with Cons.prems(2) have "ds = take n (drop p (b_mem b))" "cl' = b # cl" "p' = p + n" by auto
    then show ?thesis by (simp add: set_last_def br_rest_def)
  next
    case False
    obtain ds2 where rec: "byte_read_loop cl (first_pos cl) (n - ?n) = (ds2, 0, cl', p')"
      and ds: "ds = take ?n (drop p (b_mem b)) @ ds2"
      using Cons.prems(2) False by (auto simp: Let_def split: prod.splits)
    have n: "?n = b_last b - p" using False p by auto
    have suf: "suffix cl' cl" using byte_read_loop_spec(5) [OF _ rec] ok by simp
    then have "length cl' \<le> length cl" by (rule suffix_length_le)
    then have sl: "set_last (b # cl) \<lparr>br_cl = cl', br_p = p'\<rparr> = b # set_last cl \<lparr>br_cl = cl', br_p = p'\<rparr>"
      by (simp add: set_last_def Suc_diff_le)
    have IH: "br_rest \<lparr>br_cl = set_last cl \<lparr>br_cl = cl', br_p = p'\<rparr>, br_p = first_pos cl\<rparr>
        = ds2 @ flat (tl cl')"
      using Cons.IH [OF _ rec] ok by simp
    have "flat (set_last cl \<lparr>br_cl = cl', br_p = p'\<rparr>) = ds2 @ flat (tl cl')"
      using IH flat_set_last_rest [of "\<lparr>br_cl = cl', br_p = p'\<rparr>" cl] suf by simp
    then show ?thesis unfolding sl ds n by (simp add: br_rest_def)
  qed
qed

lemma flat_set_last:
  assumes "br_good br" "n \<le> length (br_rest br)"
    and "ngx_ts_byte_read_skip \<lparr>br_cl = set_pos br, br_p = br_p br\<rparr> n = (rc, pr)"
  shows "flat (set_last (set_pos br) pr) = take n (br_rest br) @ flat (tl (br_cl pr))"
proof -
  let ?c = "\<lparr>br_cl = set_pos br, br_p = br_p br\<rparr>"
  have good: "br_good ?c" using set_pos_good [OF assms(1)] .
  have rest: "br_rest ?c = br_rest br"
    by (simp add: set_pos_def br_rest_def split: list.split)
  obtain ds l cl' p' where loop: "byte_read_loop (set_pos br) (br_p br) n = (ds, l, cl', p')"
    by (metis prod_cases4)
  have pr: "pr = \<lparr>br_cl = cl', br_p = p'\<rparr>"
    using assms(3) loop by (auto simp: ngx_ts_byte_read_skip_def ngx_ts_byte_read_def)
  note spec = byte_read_loop_spec [OF good loop]
  have l: "l = 0" and ds: "ds = take n (br_rest br)" using spec(1,2) assms(2) rest by simp_all
  note sl = set_last_loop [OF good loop [unfolded l]]
  have "flat (set_last (set_pos br) pr) = br_rest \<lparr>br_cl = set_last (set_pos br) pr, br_p = br_p br\<rparr>"
  proof (cases "br_cl br = []")
    case True
    then show ?thesis using spec(5) by (simp add: set_last_def set_pos_def br_rest_def pr)
  next
    case False
    then have "first_pos (set_pos br) = br_p br" using set_pos_first by blast
    then show ?thesis using flat_set_last_rest [of pr "set_pos br"] spec(5) pr by simp
  qed
  then show ?thesis using sl ds by (simp add: pr)
qed


section \<open>Time stamps survive\<close>

lemma u16_be_bits:
  "bit (word_of_nat (be_nat [a, b]) :: u16) n \<longleftrightarrow> (if n < 8 then bit b n else n < 16 \<and> bit a (n - 8))"
proof -
  have "word_of_nat (be_nat [a, b]) = (push_bit 8 (ucast a) + ucast b :: u16)"
    using unat_byte_less [of a] unat_byte_less [of b]
    by (simp add: word_unat_eq_iff unat_word_ariths unat_push_bit unsigned_of_nat take_bit_eq_mod
        mod_simps mult.commute)
  also have "\<dots> = push_bit 8 (ucast a) OR ucast b"
    by (rule disjunctive_add_eq_or) (intro bit_word_eqI, auto simp: bit_simps dest: bit_imp_le_length)
  finally show ?thesis
    by (auto simp: bit_simps dest: bit_imp_le_length)
qed

lemma bit_stamp_masks:
  "bit (0x0e :: int) n \<longleftrightarrow> n \<in> {1, 2, 3}" "bit (0xfffe :: int) n \<longleftrightarrow> 1 \<le> n \<and> n < 16"
proof -
  have "(0x0e :: int) = 0x0f XOR 0x01" "(0xfffe :: int) = mask 16 XOR mask 1"
    by (simp_all add: mask_eq_exp_minus_1)
  then show "bit (0x0e :: int) n \<longleftrightarrow> n \<in> {1, 2, 3}" "bit (0xfffe :: int) n \<longleftrightarrow> 1 \<le> n \<and> n < 16"
    by (simp_all only: bit_xor_iff byte_bits bit_mask_iff bit_1_iff possible_bit_int) auto
qed

definition stamp_mark :: "byte \<Rightarrow> bool" where
  "stamp_mark m \<longleftrightarrow> m \<in> {0x21, 0x31, 0x11}"

lemma stamp_bits:
  assumes "unat pts < 2 ^ 33" "stamp_mark m"
    and "pes_stamp m pts = [a, b, c, d, e]"
  shows "push_bit 29 (ucast (a AND 0x0e)) OR
      push_bit 14 (ucast (word_of_nat (be_nat [b, c]) AND (0xfffe :: u16))) OR
      ucast (drop_bit 1 (word_of_nat (be_nat [d, e]) :: u16)) = pts"
proof -
  have lim: "n < 33" if "bit pts n" for n
    using bit_less_exp [OF assms(1)] that by simp
  have m: "\<not> bit m n" if "n \<in> {1, 2, 3}" for n
    using assms(2) that by (auto simp: stamp_mark_def)
  have abcde: "a = m OR ucast (drop_bit 29 pts AND 0x0e)" "b = ucast (drop_bit 22 pts)"
    "c = 0x01 OR ucast (drop_bit 14 pts)" "d = ucast (drop_bit 7 pts)"
    "e = 0x01 OR ucast (push_bit 1 pts)"
    using assms(3) by (simp_all add: pes_stamp_def)
  have hi: "bit (a AND 0x0e) k \<longleftrightarrow> k \<in> {1, 2, 3} \<and> bit pts (k + 29)" for k
  proof (cases "k \<in> {1, 2, 3}")
    case True
    then have "k < 8" by auto
    then show ?thesis
      using m [OF True] True
      by (simp only: abcde bit_and_iff bit_or_iff bit_unsigned_iff bit_drop_bit_eq)
         (auto simp: bit_stamp_masks)
  qed (simp add: bit_and_iff bit_stamp_masks)
  have mid: "bit (word_of_nat (be_nat [b, c]) :: u16) k \<longleftrightarrow> bit pts (k + 14)"
    if "1 \<le> k" "k < 16" for k
    unfolding u16_be_bits abcde using that
    by (auto simp: bit_or_iff bit_unsigned_iff bit_drop_bit_eq bit_1_iff add.commute)
  have lo: "bit (word_of_nat (be_nat [d, e]) :: u16) (k + 1) \<longleftrightarrow> bit pts k" if "k < 15" for k
  proof (cases "k < 7")
    case True
    then show ?thesis
      unfolding u16_be_bits abcde
      by (simp only: bit_or_iff bit_unsigned_iff bit_push_bit_iff) (auto simp: bit_1_iff)
  next
    case False
    then show ?thesis
      unfolding u16_be_bits abcde using that
      by (auto simp: bit_unsigned_iff bit_drop_bit_eq)
  qed
  show ?thesis
  proof (rule bit_word_eqI)
    fix n
    assume "n < LENGTH(64)"
    then have n: "n < 64" by simp
    have "bit (push_bit 29 (ucast (a AND 0x0e)) :: u64) n \<longleftrightarrow> 29 \<le> n \<and> bit (a AND 0x0e) (n - 29)"
      using n by (simp only: bit_push_bit_iff bit_unsigned_iff possible_bit_word) auto
    also have "\<dots> \<longleftrightarrow> bit pts n \<and> n \<in> {30, 31, 32}"
      unfolding hi by (auto simp: le_iff_add)
    finally have 1: "bit (push_bit 29 (ucast (a AND 0x0e)) :: u64) n \<longleftrightarrow> bit pts n \<and> n \<in> {30, 31, 32}" .
    have "bit (push_bit 14 (ucast (word_of_nat (be_nat [b, c]) AND (0xfffe :: u16))) :: u64) n
        \<longleftrightarrow> 15 \<le> n \<and> n < 30 \<and> bit (word_of_nat (be_nat [b, c]) :: u16) (n - 14)"
      using n by (simp only: bit_push_bit_iff bit_unsigned_iff bit_and_iff possible_bit_word)
        (auto simp: bit_stamp_masks simp del: be_nat_2)
    also have "\<dots> \<longleftrightarrow> bit pts n \<and> 15 \<le> n \<and> n < 30"
      using mid [of "n - 14"] by auto
    finally have 2: "bit (push_bit 14 (ucast (word_of_nat (be_nat [b, c]) AND (0xfffe :: u16))) :: u64) n
        \<longleftrightarrow> bit pts n \<and> 15 \<le> n \<and> n < 30" .
    have "bit (ucast (drop_bit 1 (word_of_nat (be_nat [d, e]) :: u16)) :: u64) n
        \<longleftrightarrow> n < 15 \<and> bit (word_of_nat (be_nat [d, e]) :: u16) (n + 1)"
      using n by (simp only: bit_unsigned_iff bit_drop_bit_eq possible_bit_word)
        (auto simp del: be_nat_2 dest: bit_imp_le_length)
    also have "\<dots> \<longleftrightarrow> bit pts n \<and> n < 15"
      using lo by auto
    finally have 3: "bit (ucast (drop_bit 1 (word_of_nat (be_nat [d, e]) :: u16)) :: u64) n
        \<longleftrightarrow> bit pts n \<and> n < 15" .
    show "bit ((push_bit 29 (ucast (a AND 0x0e)) OR
        push_bit 14 (ucast (word_of_nat (be_nat [b, c]) AND (0xfffe :: u16))) OR
        ucast (drop_bit 1 (word_of_nat (be_nat [d, e]) :: u16))) :: u64) n = bit pts n"
      unfolding bit_or_iff 1 2 3 using lim [of n] by auto
  qed
qed


lemma read_stamp_written:
  assumes "br_good pr" "br_rest pr = pes_stamp m pts @ xs" "unat pts < 2 ^ 33" "stamp_mark m"
  obtains pr' where "read_stamp pr = Some (pts, pr')" "br_good pr'" "br_rest pr' = xs"
proof -
  obtain a b c d e where st: "pes_stamp m pts = [a, b, c, d, e]" by (auto simp: pes_stamp_def)
  let ?p1 = "ts_br.adv pr 1"
  let ?p2 = "ts_br.adv ?p1 2"
  let ?p3 = "ts_br.adv ?p2 2"
  have rest: "br_rest pr = [a, b, c, d, e] @ xs" using assms(2) st by simp
  then have p1: "br_good ?p1" "br_rest ?p1 = [b, c, d, e] @ xs"
    using assms(1) by (simp_all add: ts_br.good_adv ts_br.rest_adv)
  then have p2: "br_good ?p2" "br_rest ?p2 = [d, e] @ xs"
    by (simp_all add: ts_br.good_adv ts_br.rest_adv)
  then have p3: "br_good ?p3" "br_rest ?p3 = xs"
    by (simp_all add: ts_br.good_adv ts_br.rest_adv)
  have "ngx_ts_byte_read8 pr = (NGX_OK, a, ?p1)"
    "ngx_ts_byte_read16 ?p1 = (NGX_OK, word_of_nat (be_nat [b, c]), ?p2)"
    "ngx_ts_byte_read16 ?p2 = (NGX_OK, word_of_nat (be_nat [d, e]), ?p3)"
    using assms(1) rest p1 p2 by (simp_all add: byte_read8_eq byte_read16_eq)
  then have "read_stamp pr = Some (pts, ?p3)"
    using stamp_bits [OF assms(3,4) st] by (simp add: read_stamp_def Let_def or.assoc del: be_nat_2)
  then show thesis using p3 by (rule that)
qed

section \<open>A packet that \<open>ngx_ts_write_pes\<close> wrote\<close>

definition pes_len :: "ngx_ts_es \<Rightarrow> nat \<Rightarrow> nat" where
  "pes_len e n = length (pes_optional e) + n"

text \<open>What the length field says: 0 when the packet is too long for it.\<close>

definition pes_len_field :: "ngx_ts_es \<Rightarrow> nat \<Rightarrow> nat" where
  "pes_len_field e n = (if pes_len e n \<le> 0xffff then pes_len e n else 0)"

definition stamped :: "ngx_ts_es \<Rightarrow> bool" where
  "stamped e \<longleftrightarrow> \<not> pes_plain_sid (es_sid e) \<and> unat (es_pts e) < 2 ^ 33 \<and> unat (es_dts e) < 2 ^ 33"

lemma pes_header_parts:
  "pes_header e bufs = [0, 0, 1, es_sid e] @ put16_len (pes_len_field e (chain_size bufs)) 0 @ pes_optional e"
proof -
  have "put16_len 0 0 = [0, 0]" by (simp add: put16_len_def)
  then show ?thesis by (simp add: pes_header_def Let_def pes_len_field_def pes_len_def)
qed

lemma pes_flags:
  "((0x8080 :: u16) AND 0x00c0) = 0x0080" "((0x80c0 :: u16) AND 0x00c0) = 0x00c0"
  by simp_all

lemma read_pes_optional_written:
  assumes "stamped e" "br_good br" "br_rest br = pes_optional e @ xs"
    and "len = 0 \<or> length (pes_optional e) \<le> len"
  obtains br' where "read_pes_optional (es_sid e) len br =
      Inr (len - length (pes_optional e), Some (es_pts e, es_dts e), br')"
    "br_good br'" "br_rest br' = xs" "suffix (br_cl br') (br_cl br)"
proof -
  have sid: "es_sid e \<notin> {0xbc, 0xbf, 0xf0, 0xf1, 0xff, 0xf2, 0xf8}"
    using assms(1) by (auto simp: stamped_def pes_plain_sid_def)
  define two where "two = (es_pts e \<noteq> es_dts e)"
  define fl :: byte where "fl = (if two then 0xc0 else 0x80)"
  define hl :: byte where "hl = (if two then 10 else 5)"
  define st where "st = (if two then pes_stamp 0x31 (es_pts e) @ pes_stamp 0x11 (es_dts e)
    else pes_stamp 0x21 (es_pts e))"
  have opt: "pes_optional e = [0x80, fl, hl] @ st"
    using assms(1) by (simp add: pes_optional_def stamped_def two_def fl_def hl_def st_def)
  have st_len: "length st = unat hl" by (simp add: st_def hl_def)
  let ?b2 = "ts_br.adv br 2"
  let ?b3 = "ts_br.adv ?b2 1"
  let ?b4 = "ts_br.adv ?b3 (unat hl)"
  have b2: "br_good ?b2" "br_rest ?b2 = hl # st @ xs"
    using assms(2,3) opt by (simp_all add: ts_br.good_adv ts_br.rest_adv)
  then have b3: "br_good ?b3" "br_rest ?b3 = st @ xs"
    by (simp_all add: ts_br.good_adv ts_br.rest_adv)
  then have b4: "br_good ?b4" "br_rest ?b4 = xs"
    using st_len by (simp_all add: ts_br.good_adv ts_br.rest_adv)
  have suf: "suffix (br_cl ?b4) (br_cl br)"
    using suffix_adv [OF b3(1)] suffix_adv [OF b2(1)] suffix_adv [OF assms(2)]
    by (meson suffix_order.trans)
  have r: "ngx_ts_byte_read16 br = (NGX_OK, word_of_nat (be_nat [0x80, fl]), ?b2)"
    "ngx_ts_byte_read8 ?b2 = (NGX_OK, hl, ?b3)"
    "ngx_ts_byte_read_skip ?b3 (unat hl) = (NGX_OK, ?b4)"
    using assms(2,3) opt b2 b3 st_len
    by (simp_all add: byte_read8_eq byte_read16_eq byte_read_skip_eq)
  have flags: "word_of_nat (be_nat [0x80, fl]) AND (0x00c0 :: u16) = (if two then 0x00c0 else 0x0080)"
    by (simp add: fl_def)
  have len: "\<not> (len \<noteq> 0 \<and> len < 3 + unat hl)"
    "(if len \<noteq> 0 then len - (3 + unat hl) else len) = len - length (pes_optional e)"
    using assms(4) opt st_len by auto
  have rng: "unat (es_pts e) < 2 ^ 33" "unat (es_dts e) < 2 ^ 33"
    using assms(1) by (simp_all add: stamped_def)
  have "read_pes_optional (es_sid e) len br =
      Inr (len - length (pes_optional e), Some (es_pts e, es_dts e), ?b4)"
  proof (cases two)
    case True
    obtain p' where p': "read_stamp ?b3 = Some (es_pts e, p')" "br_good p'"
        "br_rest p' = pes_stamp 0x11 (es_dts e) @ xs"
      using read_stamp_written [OF b3(1), of "0x31" "es_pts e" "pes_stamp 0x11 (es_dts e) @ xs"]
        b3(2) rng(1) True by (auto simp: st_def stamp_mark_def)
    obtain p'' where "read_stamp p' = Some (es_dts e, p'')"
      using read_stamp_written [OF p'(2,3) rng(2)] by (auto simp: stamp_mark_def)
    then show ?thesis
      unfolding read_pes_optional_def if_not_P [OF sid] r prod.case Let_def if_not_P [OF len(1)]
        len(2) flags
      using True p' by simp
  next
    case False
    obtain p' where "read_stamp ?b3 = Some (es_pts e, p')"
      using read_stamp_written [OF b3(1), of "0x21" "es_pts e" xs] b3(2) rng(1) False
      by (auto simp: st_def stamp_mark_def)
    with False show ?thesis
      unfolding read_pes_optional_def if_not_P [OF sid] r prod.case Let_def if_not_P [OF len(1)]
        len(2) flags
      by (simp add: two_def)
  qed
  then show thesis using b4 suf by (rule that)
qed


lemma upd_es_upd_es [simp]:
  "upd_es i j f (upd_es i j g ts) = upd_es i j (f \<circ> g) ts"
proof -
  have "(xs[j := g (xs ! j)])[j := f (xs[j := g (xs ! j)] ! j)] = xs[j := f (g (xs ! j))]"
    for xs :: "ngx_ts_es list"
    by (cases "j < length xs") (simp_all add: not_less list_update_beyond)
  then show ?thesis by (simp add: upd_es_def o_def)
qed

definition es_at :: "('h, 'w, 'p) ngx_ts_stream \<Rightarrow> nat \<Rightarrow> nat \<Rightarrow> bool" where
  "es_at ts i j \<longleftrightarrow> i < length (ts_progs ts) \<and> j < length (pr_es (ts_progs ts ! i))"

lemma the_es_upd [simp]:
  "es_at ts i j \<Longrightarrow> the_es (upd_es i j f ts) i j = f (the_es ts i j)"
  "es_at (upd_es i j f ts) i j \<longleftrightarrow> es_at ts i j"
  by (auto simp: es_at_def upd_es_def upd_prog_def nth_list_update)

lemma with_tail_mem:
  assumes "suffix cl all" "map b_mem dl = map b_mem cl"
  shows "map b_mem (with_tail all dl) = map b_mem all"
proof -
  have "length dl = length cl" using assms(2) by (metis length_map)
  then show ?thesis using assms by (auto simp: with_tail_def suffix_def)
qed

lemma set_last_mem: "suffix (br_cl pr) cl \<Longrightarrow> map b_mem (set_last cl pr) = map b_mem cl"
  by (auto simp: set_last_def suffix_def split: list.split)

lemma set_pos_mem: "map b_mem (set_pos br) = map b_mem (br_cl br)"
  by (simp add: set_pos_def split: list.split)

lemma with_tail_twice:
  "length dl' = length dl \<Longrightarrow> length dl \<le> length all \<Longrightarrow> with_tail (with_tail all dl) dl' = with_tail all dl'"
  by (simp add: with_tail_def)

text \<open>The handlers get exactly the payload, and no buffer of the chain is lost.\<close>

lemma pes_deliver_all:
  assumes "es_at ts i j" "br_good br" "suffix (br_cl br) (es_bufs (the_es ts i j))"
    and "len = 0 \<or> len = length (br_rest br)"
  obtains dl bl where "flat dl = br_rest br" "map b_mem bl = map b_mem (es_bufs (the_es ts i j))"
    "pes_deliver call ts i j len ptsf br =
      (case ngx_ts_run_handlers call NGX_TS_PES
          (upd_es i j (\<lambda>es. es\<lparr>es_bufs := bl, es_ptsf := ptsf\<rparr>) ts) (Some i) (Some j) dl of (rc, ts) \<Rightarrow>
         if rc \<noteq> NGX_OK then (NGX_ERROR, ts)
         else (NGX_OK, upd_es i j (\<lambda>es. es\<lparr>es_bufs := []\<rparr>)
                (ts\<lparr>ts_free := es_bufs (the_es ts i j) @ ts_free ts\<rparr>)))"
proof -
  let ?all = "es_bufs (the_es ts i j)"
  define c where "c = \<lparr>br_cl = set_pos br, br_p = br_p br\<rparr>"
  have good: "br_good c" and rest: "br_rest c = br_rest br"
    using set_pos_good [OF assms(2)] by (simp_all add: c_def set_pos_def br_rest_def split: list.split)
  obtain pr where sk: "ngx_ts_byte_read_skip c (length (br_rest br)) = (NGX_OK, pr)"
    and pr: "br_rest pr = []" "suffix (br_cl pr) (set_pos br)"
    using good rest suffix_adv [OF good, of "length (br_rest br)"]
    by (simp add: byte_read_skip_eq ts_br.rest_adv c_def)
  define dl where "dl = (if len \<noteq> 0 then set_last (set_pos br) pr else set_pos br)"
  have "flat (tl (br_cl pr)) = []"
    using pr(1) by (cases "br_cl pr") (auto simp: br_rest_def)
  then have flat: "flat dl = br_rest br"
    using flat_set_last [OF assms(2) order_refl sk [unfolded c_def]] by (simp add: dl_def flat_set_pos)
  have mem: "map b_mem dl = map b_mem (br_cl br)"
    using set_last_mem [OF pr(2)] by (simp add: dl_def set_pos_mem)
  then have len_dl: "length dl = length (set_pos br)"
    using set_pos_mem [of br] by (metis length_map)
  have len_pos: "length (set_pos br) \<le> length ?all"
    using suffix_length_le [OF assms(3)] set_pos_mem [of br] by (metis length_map)
  have tails: "with_tail (with_tail ?all (set_pos br)) dl = with_tail ?all dl"
    using len_dl len_pos by (rule with_tail_twice)
  have "upd_es i j (\<lambda>es. es\<lparr>es_bufs := with_tail (es_bufs es) dl, es_ptsf := ptsf\<rparr>)
      (upd_es i j (\<lambda>es. es\<lparr>es_bufs := with_tail (es_bufs es) (set_pos br)\<rparr>) ts)
    = upd_es i j (\<lambda>es. es\<lparr>es_bufs := with_tail ?all dl, es_ptsf := ptsf\<rparr>) ts"
    using tails by (simp add: o_def) (simp add: upd_es_def upd_prog_def)
  moreover have "(if len \<noteq> 0
      then case ngx_ts_byte_read_skip c len of (rc, pr) \<Rightarrow>
        (if rc = NGX_AGAIN then (NGX_AGAIN, set_pos br) else (NGX_OK, set_last (set_pos br) pr))
      else (NGX_OK, set_pos br)) = (NGX_OK, dl)"
    using sk assms(4) by (auto simp: dl_def)
  ultimately have "pes_deliver call ts i j len ptsf br =
      (case ngx_ts_run_handlers call NGX_TS_PES
          (upd_es i j (\<lambda>es. es\<lparr>es_bufs := with_tail ?all dl, es_ptsf := ptsf\<rparr>) ts) (Some i) (Some j) dl of
         (rc, ts) \<Rightarrow>
         if rc \<noteq> NGX_OK then (NGX_ERROR, ts)
         else (NGX_OK, upd_es i j (\<lambda>es. es\<lparr>es_bufs := []\<rparr>)
                (ts\<lparr>ts_free := es_bufs (the_es ts i j) @ ts_free ts\<rparr>)))"
    unfolding pes_deliver_def Let_def c_def
    by (simp del: upd_es_upd_es split: prod.split)
  with flat with_tail_mem [OF assms(3) mem] show thesis by (rule that)
qed

lemma read_pes_written:
  assumes "ngx_ts_append_buf ops (pes_note ts i j h) h (es_bufs (the_es (pes_note ts i j h) i j)) b
      = (NGX_OK, ts', ll)"
    and "chain_ok ll" "es_at ts' i j" "stamped e"
    and "flat ll = pes_header e bufs @ payload" "chain_size bufs = length payload"
    and "b = None \<or> pes_len e (length payload) \<le> 0xffff"
  obtains dl bl where "flat dl = payload" "map b_mem bl = map b_mem ll"
    "read_pes_body ops call ts i j h b =
      (case ngx_ts_run_handlers call NGX_TS_PES
          (upd_es i j (\<lambda>es. es\<lparr>es_sid := es_sid e, es_pts := es_pts e, es_dts := es_dts e,
             es_bufs := bl, es_ptsf := True\<rparr>) ts') (Some i) (Some j) dl of (rc, ts) \<Rightarrow>
         if rc \<noteq> NGX_OK then (NGX_ERROR, ts)
         else (NGX_OK, upd_es i j (\<lambda>es. es\<lparr>es_bufs := []\<rparr>)
                (ts\<lparr>ts_free := es_bufs (the_es ts i j) @ ts_free ts\<rparr>)))"
proof -
  let ?b0 = "ngx_ts_byte_read_init ll"
  let ?b3 = "ts_br.adv ?b0 3"
  let ?b4 = "ts_br.adv ?b3 1"
  let ?b6 = "ts_br.adv ?b4 2"
  let ?L = "pes_len_field e (length payload)"
  have L: "?L < 65536" by (simp add: pes_len_field_def)
  note hdr = pes_header_parts [of e bufs, unfolded assms(6)]
  have b0: "br_good ?b0" "br_rest ?b0 = [0, 0, 1, es_sid e] @ put16_len ?L 0 @ pes_optional e @ payload"
    "br_cl ?b0 = ll"
    using assms(2,5) hdr by (simp_all add: ngx_ts_byte_read_init_def)
  then have b3: "br_good ?b3" "br_rest ?b3 = es_sid e # put16_len ?L 0 @ pes_optional e @ payload"
    by (simp_all add: ts_br.good_adv ts_br.rest_adv)
  then have b4: "br_good ?b4" "br_rest ?b4 = put16_len ?L 0 @ pes_optional e @ payload"
    by (simp_all add: ts_br.good_adv ts_br.rest_adv)
  then have b6: "br_good ?b6" "br_rest ?b6 = pes_optional e @ payload"
    by (simp_all add: ts_br.good_adv ts_br.rest_adv)
  have suf: "suffix (br_cl ?b6) ll"
    using suffix_adv [OF b4(1), of 2] suffix_adv [OF b3(1), of 1] suffix_adv [OF b0(1), of 3] b0(3)
    by (metis suffix_order.trans)
  have r: "ngx_ts_byte_read ?b0 3 = (NGX_OK, [0, 0, 1], ?b3)"
    "ngx_ts_byte_read8 ?b3 = (NGX_OK, es_sid e, ?b4)"
    "ngx_ts_byte_read16 ?b4 = (NGX_OK, word_of_nat ?L, ?b6)"
    using b0 b3 b4 put16_len_be [OF L] by (simp_all add: ts_br.rd_eq byte_read8_eq byte_read16_eq)
  have L16: "unat (word_of_nat ?L :: u16) = ?L"
    using L by (simp add: unsigned_of_nat take_bit_nat_eq_self)
  then have L0: "(word_of_nat ?L :: u16) = 0 \<longleftrightarrow> ?L = 0"
    using word_unat_eq_iff [of "word_of_nat ?L :: u16" 0] by (simp only: L16 unsigned_0)
  have full: "\<not> (if (word_of_nat ?L :: u16) \<noteq> 0 then fst (ngx_ts_byte_read_skip ?b6 (unat (word_of_nat ?L :: u16))) = NGX_AGAIN
      else b \<noteq> None)"
    using assms(7) b6 unfolding L16 L0
    by (auto simp: pes_len_field_def pes_len_def byte_read_skip_eq)
      (use assms(4) in \<open>auto simp: pes_optional_def stamped_def split: if_splits\<close>)
  have sid: "es_sid e \<noteq> 0xbe" using assms(4) by (auto simp: stamped_def pes_plain_sid_def)
  have "?L = 0 \<or> length (pes_optional e) \<le> ?L" by (auto simp: pes_len_field_def pes_len_def)
  from read_pes_optional_written [OF assms(4) b6 this] obtain br' where
    opt: "read_pes_optional (es_sid e) ?L ?b6
        = Inr (?L - length (pes_optional e), Some (es_pts e, es_dts e), br')"
    and br': "br_good br'" "br_rest br' = payload" "suffix (br_cl br') (br_cl ?b6)" by blast
  let ?ts = "upd_es i j (\<lambda>es. es\<lparr>es_bufs := ll, es_sid := es_sid e, es_pts := es_pts e, es_dts := es_dts e\<rparr>) ts'"
  have all: "es_bufs (the_es ?ts i j) = ll" and at: "es_at ?ts i j" using assms(3) by simp_all
  have suf': "suffix (br_cl br') (es_bufs (the_es ?ts i j))"
    unfolding all using br'(3) suf by (rule suffix_order.trans)
  have len: "?L - length (pes_optional e) = 0 \<or> ?L - length (pes_optional e) = length (br_rest br')"
    using br'(2) by (auto simp: pes_len_field_def pes_len_def)
  obtain dl bl where d: "flat dl = br_rest br'" "map b_mem bl = map b_mem (es_bufs (the_es ?ts i j))"
    "pes_deliver call ?ts i j (?L - length (pes_optional e)) True br' =
      (case ngx_ts_run_handlers call NGX_TS_PES
          (upd_es i j (\<lambda>es. es\<lparr>es_bufs := bl, es_ptsf := True\<rparr>) ?ts) (Some i) (Some j) dl of (rc, ts) \<Rightarrow>
         if rc \<noteq> NGX_OK then (NGX_ERROR, ts)
         else (NGX_OK, upd_es i j (\<lambda>es. es\<lparr>es_bufs := []\<rparr>)
                (ts\<lparr>ts_free := es_bufs (the_es ts i j) @ ts_free ts\<rparr>)))"
    by (rule pes_deliver_all [OF at br'(1) suf' len])
  have u1: "upd_es i j (\<lambda>es. es\<lparr>es_pts := es_pts e, es_dts := es_dts e\<rparr>)
      (upd_es i j (\<lambda>es. es\<lparr>es_sid := es_sid e\<rparr>) (upd_es i j (\<lambda>es. es\<lparr>es_bufs := ll\<rparr>) ts')) = ?ts"
    by (simp add: o_def)
  have u2: "upd_es i j (\<lambda>es. es\<lparr>es_bufs := bl, es_ptsf := True\<rparr>) ?ts
      = upd_es i j (\<lambda>es. es\<lparr>es_sid := es_sid e, es_pts := es_pts e, es_dts := es_dts e,
             es_bufs := bl, es_ptsf := True\<rparr>) ts'"
    by (simp add: o_def)
  have "read_pes_body ops call ts i j h b
      = pes_deliver call ?ts i j (?L - length (pes_optional e)) True br'"
    unfolding read_pes_body_def Let_def assms(1) prod.case r if_not_P [OF full] u1 [symmetric]
    using sid opt by (simp add: L16 del: upd_es_upd_es)
  then show thesis using d(1,2) br'(2) all d(3) unfolding u2 by (intro that [of dl bl]) simp_all
qed


text \<open>Until the last byte is there the readers wait, and only note the stream id.\<close>

lemma read_pes_wait:
  assumes "ngx_ts_append_buf ops (pes_note ts i j h) h (es_bufs (the_es (pes_note ts i j h) i j)) (Some b)
      = (NGX_OK, ts', ll)"
    and "chain_ok ll" "es_at ts' i j" "chain_size bufs = length payload"
    and "flat ll @ xs = pes_header e bufs @ payload"
    and "xs \<noteq> [] \<or> 0xffff < pes_len e (length payload)"
  shows "\<exists>sid. read_pes_body ops call ts i j h (Some b) =
    (NGX_OK, upd_es i j (\<lambda>es. es\<lparr>es_bufs := ll, es_sid := sid\<rparr>) ts')"
proof -
  let ?b0 = "ngx_ts_byte_read_init ll"
  let ?b3 = "ts_br.adv ?b0 3"
  let ?b4 = "ts_br.adv ?b3 1"
  let ?b6 = "ts_br.adv ?b4 2"
  let ?L = "pes_len_field e (length payload)"
  have L: "?L < 65536" by (simp add: pes_len_field_def)
  define full where "full = [0, 0, 1, es_sid e] @ put16_len ?L 0 @ pes_optional e @ payload"
  have eq: "flat ll @ xs = full"
    using assms(5) pes_header_parts [of e bufs] unfolding full_def assms(4) by simp
  have pre: "flat ll = take (length (flat ll)) full" by (simp flip: eq)
  have b0: "br_good ?b0" "br_rest ?b0 = flat ll"
    using assms(2) by (simp_all add: ngx_ts_byte_read_init_def)
  have unchanged: "upd_es i j (\<lambda>es. es\<lparr>es_bufs := ll\<rparr>) ts'
      = upd_es i j (\<lambda>es. es\<lparr>es_bufs := ll, es_sid := es_sid (the_es ts' i j)\<rparr>) ts'"
    by (simp add: upd_es_def upd_prog_def)
  have sid: "upd_es i j (\<lambda>es. es\<lparr>es_sid := es_sid e\<rparr>) (upd_es i j (\<lambda>es. es\<lparr>es_bufs := ll\<rparr>) ts')
      = upd_es i j (\<lambda>es. es\<lparr>es_bufs := ll, es_sid := es_sid e\<rparr>) ts'"
    by (simp add: o_def)
  note run = read_pes_body_def [of ops call ts i j h "Some b", unfolded Let_def assms(1) prod.case]
  consider (n2) "length (flat ll) < 3" | (n3) "length (flat ll) = 3"
    | (n5) "3 < length (flat ll)" "length (flat ll) < 6" | (n6) "6 \<le> length (flat ll)"
    by linarith
  then show ?thesis
  proof cases
    case n2
    then have "fst (ngx_ts_byte_read ?b0 3) = NGX_AGAIN"
      using b0 by (simp add: ts_br.rd_short)
    then show ?thesis
      using unchanged by (cases "ngx_ts_byte_read ?b0 3") (auto simp: run)
  next
    case n3
    have f: "take 3 (flat ll) = [0, 0, 1]"
      using n3 by (subst pre) (simp add: full_def)
    have b3: "br_good ?b3" "br_rest ?b3 = []"
      using n3 b0 by (simp_all add: ts_br.good_adv ts_br.rest_adv)
    then have "fst (ngx_ts_byte_read8 ?b3) = NGX_AGAIN" by (rule byte_read8_short)
    then show ?thesis
      using unchanged f n3 b0 by (cases "ngx_ts_byte_read8 ?b3") (auto simp: run ts_br.rd_eq)
  next
    case n5
    have f: "take 3 (flat ll) = [0, 0, 1]" "drop 3 (flat ll) ! 0 = es_sid e"
      using n5 by (subst pre, simp add: full_def)+
    have b3: "br_good ?b3" "br_rest ?b3 = drop 3 (flat ll)"
      using n5 b0 by (simp_all add: ts_br.good_adv ts_br.rest_adv)
    then have b4: "br_good ?b4" "length (br_rest ?b4) < 2"
      using n5 by (simp_all add: ts_br.good_adv ts_br.rest_adv)
    then have "fst (ngx_ts_byte_read16 ?b4) = NGX_AGAIN" by (rule byte_read16_short)
    moreover have "ngx_ts_byte_read8 ?b3 = (NGX_OK, es_sid e, ?b4)"
      using b3 n5 f(2) by (simp add: byte_read8_eq)
    ultimately show ?thesis
      using sid f(1) n5 b0 by (cases "ngx_ts_byte_read16 ?b4") (auto simp: run ts_br.rd_eq)
  next
    case n6
    have f: "take 3 (flat ll) = [0, 0, 1]" "drop 3 (flat ll) ! 0 = es_sid e"
      "take 2 (drop 4 (flat ll)) = put16_len ?L 0"
      using n6 by (subst pre, simp add: full_def take_drop)+
    have b3: "br_good ?b3" "br_rest ?b3 = drop 3 (flat ll)"
      using n6 b0 by (simp_all add: ts_br.good_adv ts_br.rest_adv)
    then have b4: "br_good ?b4" "br_rest ?b4 = drop 4 (flat ll)"
      using n6 by (simp_all add: ts_br.good_adv ts_br.rest_adv)
    then have b6: "br_good ?b6" "br_rest ?b6 = drop 6 (flat ll)"
      using n6 by (simp_all add: ts_br.good_adv ts_br.rest_adv)
    have r: "ngx_ts_byte_read ?b0 3 = (NGX_OK, [0, 0, 1], ?b3)"
      "ngx_ts_byte_read8 ?b3 = (NGX_OK, es_sid e, ?b4)"
      "ngx_ts_byte_read16 ?b4 = (NGX_OK, word_of_nat ?L, ?b6)"
      using b0 b3 b4 n6 f put16_len_be [OF L]
      by (simp_all add: ts_br.rd_eq byte_read8_eq byte_read16_eq)
    have L16: "unat (word_of_nat ?L :: u16) = ?L"
      using L by (simp add: unsigned_of_nat take_bit_nat_eq_self)
    have L0: "(word_of_nat ?L :: u16) = 0 \<longleftrightarrow> ?L = 0"
      using word_unat_eq_iff [of "word_of_nat ?L :: u16" 0] by (simp only: L16 unsigned_0)
    have short: "length (br_rest ?b6) < ?L" if "?L \<noteq> 0"
    proof -
      have "1 \<le> length xs" "?L = pes_len e (length payload)"
        using that assms(6) by (auto simp: pes_len_field_def Suc_le_eq split: if_splits)
      moreover have "length (flat ll) + length xs = length full"
        by (simp flip: eq)
      moreover have "length full = 6 + pes_len e (length payload)"
        by (simp add: full_def pes_len_def)
      moreover have "length (br_rest ?b6) = length (flat ll) - 6"
        using b6(2) by simp
      ultimately show ?thesis using n6 by linarith
    qed
    have again: "(if (word_of_nat ?L :: u16) \<noteq> 0
        then fst (ngx_ts_byte_read_skip ?b6 (unat (word_of_nat ?L :: u16))) = NGX_AGAIN
        else Some b \<noteq> None)"
      using byte_read_skip_short [OF b6(1) short] unfolding L0 L16 by simp
    show ?thesis unfolding run r prod.case sid if_P [OF again] by auto
  qed
qed

end
