(* ===== verification/Ts_Stream.thy ===== *)
theory Ts_Stream
  imports Ts_Pes
begin

text \<open>
  The demultiplexer: \<open>ngx_ts_read_packet\<close> and \<open>ngx_ts_read\<close> of ngx\_ts\_stream.c.  Input chains are cut
  into 188-byte packets; a packet goes to the reader of its identifier.  The lemmas say that the
  result depends on the bytes alone and not on how the network cut them, that every buffer keeps its
  188 bytes, and that what the multiplexer wrote comes out again.
\<close>

section \<open>The code\<close>

fun find_es :: "u16 \<Rightarrow> nat \<Rightarrow> ngx_ts_es list \<Rightarrow> nat option" where
  "find_es pid j [] = None"
| "find_es pid j (e # es) = (if pid = es_pid e then Some j else find_es pid (Suc j) es)"

text \<open>The two loops: a program's own identifier first, then those of its streams.\<close>

fun find_pid :: "u16 \<Rightarrow> nat \<Rightarrow> ngx_ts_program list \<Rightarrow> (nat \<times> nat option) option" where
  "find_pid pid i [] = None"
| "find_pid pid i (p # ps) =
     (if pid = pr_pid p then Some (i, None)
      else case find_es pid 0 (pr_es p) of
        Some j \<Rightarrow> Some (i, Some j)
      | None \<Rightarrow> find_pid pid (Suc i) ps)"

definition ngx_ts_read_packet ::
    "'p pool_ops \<Rightarrow> ('h, 'w, 'p) handler_call \<Rightarrow> ('h, 'w, 'p) ngx_ts_stream \<Rightarrow> buf \<Rightarrow>
     ngx_rc \<times> ('h, 'w, 'p) ngx_ts_stream" where
  "ngx_ts_read_packet ops call ts b =
     (case ngx_ts_read_header (drop (b_pos b) (b_mem b)) of (n, h) \<Rightarrow>
        if n = Inl NGX_ERROR then (NGX_ERROR, ts)
        else
          let b = (case n of Inl _ \<Rightarrow> b\<lparr>b_pos := b_last b\<rparr> | Inr n \<Rightarrow> b\<lparr>b_pos := b_pos b + n\<rparr>)
          in if h_pid h = 0 then ngx_ts_read_pat ops call ts h b
             else case find_pid (h_pid h) 0 (ts_progs ts) of
               Some (i, None) \<Rightarrow> ngx_ts_read_pmt ops call ts i h b
             | Some (i, Some j) \<Rightarrow> ngx_ts_read_pes ops call ts i j h (Some b)
             | None \<Rightarrow> ngx_ts_free_buf ops ts b)"

text \<open>The buffer being filled: \<open>ts->buf\<close>, or one from the free list, or a new one.\<close>

definition read_get_buf ::
    "'p pool_ops \<Rightarrow> ('h, 'w, 'p) ngx_ts_stream \<Rightarrow> ('h, 'w, 'p) ngx_ts_stream \<times> buf option" where
  "read_get_buf ops ts =
     (case ts_buf ts of
        Some b \<Rightarrow> (ts, Some b)
      | None \<Rightarrow>
          (case ts_free ts of
             c # fs \<Rightarrow>
               let b = c\<lparr>b_pos := 0, b_last := 0\<rparr>
               in (ts\<lparr>ts_free := fs, ts_pool := p_free_link ops (ts_pool ts), ts_buf := Some b\<rparr>, Some b)
           | [] \<Rightarrow>
               (case p_alloc ops (ts_pool ts) NGX_TS_PACKET_SIZE of
                  None \<Rightarrow> (ts, None)
                | Some (p, m) \<Rightarrow>
                    let b = \<lparr>b_mem = m, b_pos = 0, b_last = 0\<rparr>
                    in (ts\<lparr>ts_pool := p, ts_buf := Some b\<rparr>, Some b))))"

text \<open>\<open>b->last = ngx_cpymem(b->last, data, n)\<close>\<close>

definition buf_put :: "buf \<Rightarrow> bytes \<Rightarrow> buf" where
  "buf_put b ds = b\<lparr>b_mem := take (b_last b) (b_mem b) @ ds @ drop (b_last b + length ds) (b_mem b),
                    b_last := b_last b + length ds\<rparr>"

text \<open>One turn of the inner loop; the number is how many bytes of the input it took.\<close>

definition read_turn ::
    "'p pool_ops \<Rightarrow> ('h, 'w, 'p) handler_call \<Rightarrow> ('h, 'w, 'p) ngx_ts_stream \<Rightarrow> bytes \<Rightarrow>
     ngx_rc \<times> nat \<times> ('h, 'w, 'p) ngx_ts_stream" where
  "read_turn ops call ts inn =
     (case read_get_buf ops ts of
        (ts, None) \<Rightarrow> (NGX_ERROR, 0, ts)
      | (ts, Some b) \<Rightarrow>
          let n = min (length (b_mem b) - b_last b) (length inn);
              b = buf_put b (take n inn);
              ts = ts\<lparr>ts_buf := Some b\<rparr>
          in if b_last b = length (b_mem b)
             then case ngx_ts_read_packet ops call ts b of (rc, ts) \<Rightarrow>
               if rc \<noteq> NGX_OK then (NGX_ERROR, n, ts) else (NGX_OK, n, ts\<lparr>ts_buf := None\<rparr>)
             else (NGX_OK, n, ts))"

text \<open>\<open>while (in->buf->pos != in->buf->last)\<close>, with fuel.\<close>

fun read_buf ::
    "nat \<Rightarrow> 'p pool_ops \<Rightarrow> ('h, 'w, 'p) handler_call \<Rightarrow> ('h, 'w, 'p) ngx_ts_stream \<Rightarrow> buf \<Rightarrow>
     (ngx_rc \<times> ('h, 'w, 'p) ngx_ts_stream \<times> buf) option" where
  "read_buf 0 ops call ts b = None"
| "read_buf (Suc fuel) ops call ts b =
     (if b_pos b = b_last b then Some (NGX_OK, ts, b)
      else case read_turn ops call ts (buf_content b) of (rc, n, ts) \<Rightarrow>
        let b = b\<lparr>b_pos := b_pos b + n\<rparr>
        in if rc \<noteq> NGX_OK then Some (rc, ts, b) else read_buf fuel ops call ts b)"

text \<open>The fuel is for each input buffer anew.\<close>

fun ngx_ts_read ::
    "nat \<Rightarrow> 'p pool_ops \<Rightarrow> ('h, 'w, 'p) handler_call \<Rightarrow> ('h, 'w, 'p) ngx_ts_stream \<Rightarrow> chain \<Rightarrow>
     (ngx_rc \<times> ('h, 'w, 'p) ngx_ts_stream \<times> chain) option" where
  "ngx_ts_read fuel ops call ts [] = Some (NGX_OK, ts, [])"
| "ngx_ts_read fuel ops call ts (b # inn) =
     (case read_buf fuel ops call ts b of
        None \<Rightarrow> None
      | Some (rc, ts, b) \<Rightarrow>
          if rc \<noteq> NGX_OK then Some (rc, ts, b # inn)
          else map_option (\<lambda>(rc, ts, inn). (rc, ts, b # inn)) (ngx_ts_read fuel ops call ts inn))"

section \<open>Every buffer keeps its 188 bytes\<close>

definition pkt :: "buf \<Rightarrow> bool" where
  "pkt b \<longleftrightarrow> length (b_mem b) = NGX_TS_PACKET_SIZE \<and> buf_ok b"

abbreviation pkts :: "chain \<Rightarrow> bool" where
  "pkts cl \<equiv> list_all pkt cl"

definition es_inv :: "ngx_ts_es \<Rightarrow> bool" where
  "es_inv e \<longleftrightarrow> pkts (es_bufs e)"

definition prog_inv :: "ngx_ts_program \<Rightarrow> bool" where
  "prog_inv p \<longleftrightarrow> pkts (pr_bufs p) \<and> list_all es_inv (pr_es p)"

definition ts_inv :: "('h, 'w, 'p) ngx_ts_stream \<Rightarrow> bool" where
  "ts_inv ts \<longleftrightarrow> packet_bufs (ts_free ts) \<and> pkts (ts_bufs ts) \<and> list_all prog_inv (ts_progs ts)"

text \<open>
  What the demultiplexer asks of the handlers: that they keep the invariant and the arrays of programs
  and streams, into which the readers hold pointers.
\<close>

definition shape :: "('h, 'w, 'p) ngx_ts_stream \<Rightarrow> nat list" where
  "shape ts = map (\<lambda>p. length (pr_es p)) (ts_progs ts)"

definition handlers_ok :: "('h, 'w, 'p) handler_call \<Rightarrow> bool" where
  "handlers_ok call \<longleftrightarrow>
     (\<forall>h dat ts. ts_inv ts \<longrightarrow> ts_inv (snd (call h dat ts)) \<and> shape (snd (call h dat ts)) = shape ts)"

lemma run_handlers_ok:
  assumes "handlers_ok call" "ts_inv ts" "ngx_ts_run_handlers call ev ts pr es bufs = (rc, ts')"
  shows "ts_inv ts'" "shape ts' = shape ts"
proof -
  have "run_handlers_loop call dat hs ts = (rc, ts') \<Longrightarrow> ts_inv ts \<Longrightarrow> ts_inv ts' \<and> shape ts' = shape ts"
    for dat hs ts
  proof (induction hs arbitrary: ts)
    case (Cons h hs)
    obtain rc1 ts1 where c: "call h dat ts = (rc1, ts1)" by (metis prod.exhaust)
    have "ts_inv ts1 \<and> shape ts1 = shape ts"
      using assms(1) Cons.prems(2) c unfolding handlers_ok_def by (metis snd_conv)
    with Cons c show ?case by (auto split: if_splits)
  qed simp
  with assms(2,3) show "ts_inv ts'" "shape ts' = shape ts" by (simp_all add: ngx_ts_run_handlers_def)
qed

lemma packet_bufs_simps [simp]:
  "packet_bufs []" "packet_bufs (b # cl) \<longleftrightarrow> length (b_mem b) = NGX_TS_PACKET_SIZE \<and> packet_bufs cl"
  "packet_bufs (xs @ ys) \<longleftrightarrow> packet_bufs xs \<and> packet_bufs ys"
  by (simp_all add: packet_bufs_def)

lemma pkts_packet_bufs: "pkts cl \<Longrightarrow> packet_bufs cl"
  by (auto simp: packet_bufs_def list_all_iff pkt_def)

lemma pkts_chain_ok: "pkts cl \<Longrightarrow> chain_ok cl"
  by (auto simp: list_all_iff pkt_def)

lemma append_buf_inv:
  assumes "ngx_ts_append_buf ops ts h ll b = (rc, ts', ll')" "ts_inv ts" "pkts ll"
    and "\<And>b'. b = Some b' \<Longrightarrow> pkt b'"
  shows "ts_inv ts' \<and> pkts ll'"
  using assms pkts_packet_bufs [of ll]
  by (auto simp: ngx_ts_append_buf_def ngx_ts_free_buf_def ts_inv_def pkt_def Let_def
      split: option.splits if_splits)

lemma ts_inv_upd_prog:
  assumes "ts_inv ts" "\<And>p. prog_inv p \<Longrightarrow> prog_inv (f p)"
  shows "ts_inv (upd_prog i f ts)"
  using assms
  by (cases "i < length (ts_progs ts)")
     (auto simp: ts_inv_def upd_prog_def list_all_length nth_list_update not_less list_update_beyond)

lemma ts_inv_upd_es:
  assumes "ts_inv ts" "\<And>e. es_inv e \<Longrightarrow> es_inv (f e)"
  shows "ts_inv (upd_es i j f ts)"
  unfolding upd_es_def
proof (rule ts_inv_upd_prog [OF assms(1)])
  fix p
  assume "prog_inv p"
  then show "prog_inv (p\<lparr>pr_es := (pr_es p)[j := f (pr_es p ! j)]\<rparr>)"
    using assms(2)
    by (cases "j < length (pr_es p)")
       (auto simp: prog_inv_def list_all_length nth_list_update not_less list_update_beyond)
qed

lemma ts_inv_frame [simp]:
  "ts_inv (ts\<lparr>ts_pool := p\<rparr>) \<longleftrightarrow> ts_inv ts" "ts_inv (ts\<lparr>ts_buf := b\<rparr>) \<longleftrightarrow> ts_inv ts"
  by (simp_all add: ts_inv_def)

lemma free_buf_inv:
  "ngx_ts_free_buf ops ts b = (rc, ts') \<Longrightarrow> ts_inv ts \<Longrightarrow> pkt b \<Longrightarrow> ts_inv ts'"
  by (auto simp: ngx_ts_free_buf_def ts_inv_def pkt_def split: option.splits)


lemma shape_upd [simp]:
  "(\<And>p. length (pr_es (f p)) = length (pr_es p)) \<Longrightarrow> shape (upd_prog i f ts) = shape ts"
  "shape (upd_es i j g ts) = shape ts"
  "shape (ts\<lparr>ts_pool := q\<rparr>) = shape ts" "shape (ts\<lparr>ts_free := fs\<rparr>) = shape ts"
  "shape (ts\<lparr>ts_bufs := fs\<rparr>) = shape ts"
  by (simp_all add: shape_def upd_es_def upd_prog_def map_update list_update_beyond)
     (metis (no_types, lifting) list_update_beyond list_update_id map_update not_le nth_map)+

lemma shape_es_at: "shape ts' = shape ts \<Longrightarrow> es_at ts' i j \<longleftrightarrow> es_at ts i j"
  "shape ts' = shape ts \<Longrightarrow> length (ts_progs ts') = length (ts_progs ts)"
  by (auto simp: es_at_def shape_def dest: map_eq_imp_length_eq)
     (metis (no_types, lifting) length_map nth_map)+

lemma append_buf_shape: "ngx_ts_append_buf ops ts h ll b = (rc, ts', ll') \<Longrightarrow> shape ts' = shape ts"
  by (simp add: shape_def append_buf_frame)

lemma ts_inv_prog: "ts_inv ts \<Longrightarrow> i < length (ts_progs ts) \<Longrightarrow> prog_inv (ts_progs ts ! i)"
  by (simp add: ts_inv_def list_all_length)

lemma ts_inv_es: "ts_inv ts \<Longrightarrow> es_at ts i j \<Longrightarrow> es_inv (the_es ts i j)"
  using ts_inv_prog [of ts i] by (simp add: es_at_def prog_inv_def list_all_length)

lemma ts_inv_free: "ts_inv ts \<Longrightarrow> pkts ll \<Longrightarrow> ts_inv (ts\<lparr>ts_free := ll @ ts_free ts\<rparr>)"
  by (simp add: ts_inv_def pkts_packet_bufs)

lemma entries_inv:
  "list_all prog_inv (read_pat_entries n br)" "list_all es_inv (read_es_entries n br)"
  by (induction n arbitrary: br)
     (auto simp: prog_inv_def es_inv_def zero_program_def zero_es_def split: prod.split)

lemma read_pat_inv:
  assumes "handlers_ok call" "ts_inv ts" "pkt b" "ngx_ts_read_pat ops call ts h b = (rc, ts')"
  shows "ts_inv ts'"
proof (cases "ts_progs ts = []")
  case True
  obtain rc1 ts1 ll where ap: "ngx_ts_append_buf ops ts h (ts_bufs ts) (Some b) = (rc1, ts1, ll)"
    by (metis prod_cases3)
  have i1: "ts_inv ts1" "pkts ll"
    using append_buf_inv [OF ap assms(2)] assms(2,3) by (auto simp: ts_inv_def)
  then have i2: "ts_inv (ts1\<lparr>ts_bufs := ll\<rparr>)" by (simp add: ts_inv_def)
  have i3: "ts_inv (ts1\<lparr>ts_bufs := ll, ts_pool := p, ts_progs := read_pat_entries n br\<rparr>)" for p n br
    using i1 entries_inv(1) by (simp add: ts_inv_def)
  have i4: "ts_inv (ts2\<lparr>ts_free := ts_bufs ts2 @ ts_free ts2, ts_bufs := []\<rparr>)" if "ts_inv ts2"
    for ts2 :: "('a, 'b, 'c) ngx_ts_stream"
    using that pkts_packet_bufs [of "ts_bufs ts2"] by (simp add: ts_inv_def)
  show ?thesis
    using assms(4) True ap i2 i3 i4 run_handlers_ok(1) [OF assms(1) i3]
    by (auto simp: ngx_ts_read_pat_def Let_def split: option.splits prod.splits if_splits)
next
  case False
  then show ?thesis using assms free_buf_inv by (simp add: ngx_ts_read_pat_def)
qed

lemma read_pmt_inv:
  assumes "handlers_ok call" "ts_inv ts" "pkt b" "i < length (ts_progs ts)"
    and "ngx_ts_read_pmt ops call ts i h b = (rc, ts')"
  shows "ts_inv ts'"
proof (cases "pr_es (ts_progs ts ! i) = []")
  case True
  obtain rc1 ts1 ll where ap: "ngx_ts_append_buf ops ts h (pr_bufs (ts_progs ts ! i)) (Some b) = (rc1, ts1, ll)"
    by (metis prod_cases3)
  have i1: "ts_inv ts1" "pkts ll"
    using append_buf_inv [OF ap assms(2)] ts_inv_prog [OF assms(2,4)] assms(3) by (auto simp: prog_inv_def)
  have i2: "ts_inv (upd_prog i (\<lambda>pr. pr\<lparr>pr_bufs := ll\<rparr>) ts1)"
    using i1 by (intro ts_inv_upd_prog) (simp_all add: prog_inv_def)
  have i3: "ts_inv (upd_prog i (\<lambda>pr. pr\<lparr>pr_pcr_pid := x\<rparr>) (upd_prog i (\<lambda>pr. pr\<lparr>pr_bufs := ll\<rparr>) ts1))" for x
    using i2 by (rule ts_inv_upd_prog) (simp add: prog_inv_def)
  define ts4 where "ts4 x es p = upd_prog i
      (\<lambda>pr. pr\<lparr>pr_es := es, pr_video := pr_video pr \<or> (\<exists>e \<in> set es. es_video e)\<rparr>)
      ((upd_prog i (\<lambda>pr. pr\<lparr>pr_pcr_pid := x\<rparr>) (upd_prog i (\<lambda>pr. pr\<lparr>pr_bufs := ll\<rparr>) ts1))\<lparr>ts_pool := p\<rparr>)"
    for x es p
  have i4: "ts_inv (ts4 x (read_es_entries n br) p)" for x n br p
    unfolding ts4_def
    by (rule ts_inv_upd_prog, simp only: ts_inv_frame i3) (simp add: prog_inv_def entries_inv(2))
  have len4: "length (ts_progs (ts4 x es p)) = length (ts_progs ts)" for x es p
    using append_buf_frame(1) [OF ap] by (simp add: ts4_def upd_prog_def)
  have i5: "ts_inv (upd_prog i (\<lambda>pr. pr\<lparr>pr_bufs := []\<rparr>) (ts2\<lparr>ts_free := pr_bufs (ts_progs ts2 ! i) @ ts_free ts2\<rparr>))"
    if "ts_inv ts2" "i < length (ts_progs ts2)" for ts2 :: "('a, 'b, 'c) ngx_ts_stream"
    using that ts_inv_prog [OF that]
    by (intro ts_inv_upd_prog ts_inv_free) (simp_all add: prog_inv_def)
  have i6: "ts_inv ts3 \<and> ts_inv (upd_prog i (\<lambda>pr. pr\<lparr>pr_bufs := []\<rparr>) (ts3\<lparr>ts_free := pr_bufs (ts_progs ts3 ! i) @ ts_free ts3\<rparr>))"
    if "ngx_ts_run_handlers call NGX_TS_PMT (ts4 x (read_es_entries n br) p) (Some i) None [] = (rc, ts3)"
    for x n br p rc ts3
    using run_handlers_ok [OF assms(1) i4 that] i5 [of ts3] shape_es_at(2) len4 assms(4) by metis
  show ?thesis
    using assms(5) True i2 i3 i6
    unfolding ngx_ts_read_pmt_def ap prod.case Let_def ts4_def [symmetric]
    by (auto split: option.splits prod.splits if_splits)
next
  case False
  then show ?thesis using assms free_buf_inv by (simp add: ngx_ts_read_pmt_def)
qed


text \<open>A cursor somewhere in a chain; every read leaves it there.\<close>

definition within :: "chain \<Rightarrow> byte_read \<Rightarrow> bool" where
  "within cl br \<longleftrightarrow> br_good br \<and> suffix (br_cl br) cl"

lemma within_read:
  assumes "ngx_ts_byte_read br n = (rc, ds, br')" "within cl br"
  shows "within cl br'"
proof -
  obtain cl0 p0 where c: "br = \<lparr>br_cl = cl0, br_p = p0\<rparr>" by (cases br) auto
  obtain d l cl' p' where loop: "byte_read_loop cl0 p0 n = (d, l, cl', p')"
    by (metis prod_cases4)
  with assms(1) c have br': "br' = \<lparr>br_cl = cl', br_p = p'\<rparr>" by (auto simp: ngx_ts_byte_read_def)
  have "br_good \<lparr>br_cl = cl0, br_p = p0\<rparr>" using assms(2) c by (simp add: within_def)
  from byte_read_loop_spec(4,5) [OF this loop] assms(2) c
  show ?thesis by (auto simp: within_def br' intro: suffix_order.trans)
qed

lemma within_reads:
  "ngx_ts_byte_read_skip br n = (rc, br') \<Longrightarrow> within cl br \<Longrightarrow> within cl br'"
  "ngx_ts_byte_read8 br = (rc, v, br') \<Longrightarrow> within cl br \<Longrightarrow> within cl br'"
  "ngx_ts_byte_read16 br = (rc, w, br') \<Longrightarrow> within cl br \<Longrightarrow> within cl br'"
  by (auto simp: ngx_ts_byte_read_skip_def ngx_ts_byte_read8_def ngx_ts_byte_read16_def
      dest: within_read split: prod.splits)

lemma within_optional:
  assumes "read_pes_optional sid len br = Inr (len', st, br')" "within cl br"
  shows "within cl br'"
proof (cases "sid \<in> {0xbc, 0xbf, 0xf0, 0xf1, 0xff, 0xf2, 0xf8}")
  case True
  with assms show ?thesis by (simp add: read_pes_optional_def)
next
  case False
  obtain rc1 fl b1 where r1: "ngx_ts_byte_read16 br = (rc1, fl, b1)" by (metis prod_cases3)
  obtain rc2 hl b2 where r2: "ngx_ts_byte_read8 b1 = (rc2, hl, b2)" by (metis prod_cases3)
  obtain rc3 b3 where r3: "ngx_ts_byte_read_skip b2 (unat hl) = (rc3, b3)" by (metis prod.exhaust)
  have "within cl b3"
    using assms(2) within_reads(3) [OF r1] within_reads(2) [OF r2] within_reads(1) [OF r3] by blast
  moreover have "br' = b3"
    using assms(1) r1 r2 r3
    unfolding read_pes_optional_def if_not_P [OF False] r1 r2 prod.case Let_def
    by (auto split: if_splits option.splits prod.splits)
  ultimately show ?thesis by simp
qed

lemma pkts_suffix: "suffix cl' cl \<Longrightarrow> pkts cl \<Longrightarrow> pkts cl'"
  by (auto simp: suffix_def)

lemma pkts_set_pos: "br_good br \<Longrightarrow> pkts (br_cl br) \<Longrightarrow> pkts (set_pos br)"
  by (auto simp: set_pos_def br_good_def pkt_def buf_ok_def split: list.splits)

lemma pkts_take: "pkts cl \<Longrightarrow> pkts (take n cl)"
  by (auto simp: list_all_iff dest: in_set_takeD)

lemma pkts_with_tail: "pkts all \<Longrightarrow> pkts cl \<Longrightarrow> pkts (with_tail all cl)"
  by (simp add: with_tail_def pkts_take)

lemma pkts_set_last: "within cl pr \<Longrightarrow> pkts cl \<Longrightarrow> pkts (set_last cl pr)"
  by (auto simp: set_last_def within_def br_good_def pkt_def buf_ok_def pkts_take dest: pkts_suffix
      split: list.split)

lemma pes_note_inv: "ts_inv ts \<Longrightarrow> ts_inv (pes_note ts i j h)"
  by (auto simp: pes_note_def Let_def prog_inv_def es_inv_def intro!: ts_inv_upd_prog ts_inv_upd_es)

lemma pes_note_shape [simp]: "shape (pes_note ts i j h) = shape ts"
  by (simp add: pes_note_def Let_def)

lemma pes_deliver_inv:
  assumes "handlers_ok call" "ts_inv ts" "es_at ts i j" "within (es_bufs (the_es ts i j)) br"
    and "pes_deliver call ts i j len ptsf br = (rc, ts')"
  shows "ts_inv ts' \<and> shape ts' = shape ts"
proof -
  have pk: "pkts (es_bufs (the_es ts i j))"
    using ts_inv_es [OF assms(2,3)] by (simp add: es_inv_def)
  have dl: "pkts (set_pos br)"
    using assms(4) pk pkts_suffix by (auto simp: within_def intro!: pkts_set_pos)
  define ts1 where "ts1 = upd_es i j (\<lambda>es. es\<lparr>es_bufs := with_tail (es_bufs es) (set_pos br)\<rparr>) ts"
  have i1: "ts_inv ts1"
    unfolding ts1_def using assms(2)
    by (rule ts_inv_upd_es) (use dl in \<open>simp add: es_inv_def pkts_with_tail\<close>)
  define ts2 where "ts2 d = upd_es i j (\<lambda>es. es\<lparr>es_bufs := with_tail (es_bufs es) d, es_ptsf := ptsf\<rparr>) ts1"
    for d
  have i2: "ts_inv (ts2 d)" if "pkts d" for d
    unfolding ts2_def using i1
    by (rule ts_inv_upd_es) (use that in \<open>simp add: es_inv_def pkts_with_tail\<close>)
  have sh1: "shape ts1 = shape ts" by (simp add: ts1_def)
  have sh2: "shape (ts2 d) = shape ts" for d by (simp add: ts2_def ts1_def)
  have i3: "ts_inv ts3 \<and> shape ts3 = shape ts \<and> ts_inv (upd_es i j (\<lambda>es. es\<lparr>es_bufs := []\<rparr>)
      (ts3\<lparr>ts_free := es_bufs (the_es ts3 i j) @ ts_free ts3\<rparr>))"
    if "pkts d" "ngx_ts_run_handlers call NGX_TS_PES (ts2 d) (Some i) (Some j) d = (rc, ts3)" for d rc ts3
  proof -
    have t3: "ts_inv ts3" "shape ts3 = shape ts" "es_at ts3 i j"
      using run_handlers_ok [OF assms(1) i2 [OF that(1)] that(2)] sh2 assms(3) shape_es_at(1) by metis+
    then have "pkts (es_bufs (the_es ts3 i j))" using ts_inv_es es_inv_def by blast
    with t3(1,2) show ?thesis
      by (auto intro!: ts_inv_upd_es ts_inv_free simp: es_inv_def)
  qed
  have win: "within (set_pos br) \<lparr>br_cl = set_pos br, br_p = br_p br\<rparr>"
    using assms(4) set_pos_good by (simp add: within_def)
  have sl: "pkts (set_last (set_pos br) pr)"
    if "ngx_ts_byte_read_skip \<lparr>br_cl = set_pos br, br_p = br_p br\<rparr> n = (rc, pr)" for n rc pr
    using within_reads(1) [OF that win] dl by (rule pkts_set_last)
  show ?thesis
    using assms(5) i1 sh1
    unfolding pes_deliver_def Let_def ts1_def [symmetric] ts2_def [symmetric]
    by (auto split: prod.splits if_splits dest: i3 [OF dl] i3 [OF sl])
qed


lemma read_pes_body_inv:
  assumes "handlers_ok call" "ts_inv ts" "es_at ts i j" "\<And>b'. b = Some b' \<Longrightarrow> pkt b'"
    and "read_pes_body ops call ts i j h b = (rc, ts')"
  shows "ts_inv ts' \<and> shape ts' = shape ts"
proof -
  let ?n = "pes_note ts i j h"
  obtain rc1 ts1 ll where ap: "ngx_ts_append_buf ops ?n h (es_bufs (the_es ?n i j)) b = (rc1, ts1, ll)"
    by (metis prod_cases3)
  have sh: "shape ts1 = shape ts" using append_buf_shape [OF ap] by simp
  then have at: "es_at ts1 i j" using shape_es_at(1) assms(3) by metis
  have "es_at ?n i j" using assms(3) shape_es_at(1) pes_note_shape by metis
  then have "pkts (es_bufs (the_es ?n i j))"
    using ts_inv_es pes_note_inv [OF assms(2)] es_inv_def by blast
  then have i1: "ts_inv ts1" "pkts ll"
    using append_buf_inv [OF ap pes_note_inv [OF assms(2)]] assms(4) by blast+
  have win: "within ll (ngx_ts_byte_read_init ll)"
    using i1(2) by (simp add: within_def ngx_ts_byte_read_init_def pkts_chain_ok)
  have upd: "ts_inv (upd_es i j f ts1)"
    if "\<And>e. es_bufs (f e) = ll \<or> es_bufs (f e) = []" for f
  proof (rule ts_inv_upd_es [OF i1(1)])
    fix e
    show "es_inv (f e)" using i1(2) that [of e] by (auto simp: es_inv_def)
  qed
  have free: "ts_inv (upd_es i j (\<lambda>es. es\<lparr>es_bufs := []\<rparr>)
      (upd_es i j (\<lambda>es. es\<lparr>es_bufs := ll, es_sid := s\<rparr>) ts1
         \<lparr>ts_free := ll @ ts_free (upd_es i j (\<lambda>es. es\<lparr>es_bufs := ll, es_sid := s\<rparr>) ts1)\<rparr>))" for s
    by (rule ts_inv_upd_es, rule ts_inv_free, rule upd) (simp_all add: es_inv_def i1(2))
  have deliver: "ts_inv ts3 \<and> shape ts3 = shape ts"
    if "pes_deliver call (upd_es i j f ts1) i j len ptsf br = (rc3, ts3)" "within ll br"
      "\<And>e. es_bufs (f e) = ll" for f len ptsf br rc3 ts3
    using pes_deliver_inv [OF assms(1) upd _ _ that(1)] that(2,3) at sh by simp
  obtain rc2 pfx b3 where r3: "ngx_ts_byte_read (ngx_ts_byte_read_init ll) 3 = (rc2, pfx, b3)"
    by (metis prod_cases3)
  obtain rc3 sid b4 where r4: "ngx_ts_byte_read8 b3 = (rc3, sid, b4)" by (metis prod_cases3)
  obtain rc4 len b6 where r6: "ngx_ts_byte_read16 b4 = (rc4, len, b6)" by (metis prod_cases3)
  have w6: "within ll b6"
    using within_read [OF r3 win] within_reads(2) [OF r4] within_reads(3) [OF r6] by blast
  have w: "within ll br'" if "read_pes_optional sid (unat len) b6 = Inr (l', st, br')" for l' st br'
    using that w6 by (rule within_optional)
  show ?thesis
    using assms(5) at sh upd free deliver w
    unfolding read_pes_body_def Let_def ap prod.case r3 r4 r6
    by (auto simp: o_def split: prod.splits if_splits option.splits sum.splits)
qed


lemma read_pes_inv:
  assumes "handlers_ok call" "ts_inv ts" "es_at ts i j" "pkt b"
    and "ngx_ts_read_pes ops call ts i j h (Some b) = (rc, ts')"
  shows "ts_inv ts'"
proof -
  obtain rc1 ts1 where flush: "read_pes_body ops call ts i j h None = (rc1, ts1)" by (metis prod.exhaust)
  have 1: "ts_inv ts1" "es_at ts1 i j"
    using read_pes_body_inv [OF assms(1-3) _ flush] assms(3) shape_es_at(1) by blast+
  have 2: "ts_inv ts'" if "read_pes_body ops call t i j h (Some b) = (rc, ts')" "ts_inv t" "es_at t i j" for t
    using read_pes_body_inv [OF assms(1) that(2,3) _ that(1)] assms(4) by simp
  show ?thesis
    using assms(2,3,5) 1 2 flush
    by (auto simp: ngx_ts_read_pes_def split: if_splits prod.splits)
qed

lemma find_es_at: "find_es pid k es = Some j \<Longrightarrow> k \<le> j \<and> j - k < length es \<and> es_pid (es ! (j - k)) = pid"
  by (induction es arbitrary: k) (fastforce simp: nth_Cons' split: if_splits)+

lemma find_pid_at:
  "find_pid pid k ps = Some (i, r) \<Longrightarrow> k \<le> i \<and> i - k < length ps \<and>
     (case r of None \<Rightarrow> pr_pid (ps ! (i - k)) = pid
      | Some j \<Rightarrow> j < length (pr_es (ps ! (i - k))) \<and> es_pid (pr_es (ps ! (i - k)) ! j) = pid)"
proof (induction ps arbitrary: k)
  case (Cons p ps)
  consider (own) "pid = pr_pid p" | (es) j where "pid \<noteq> pr_pid p" "find_es pid 0 (pr_es p) = Some j"
    | (later) "pid \<noteq> pr_pid p" "find_es pid 0 (pr_es p) = None"
    by (cases "find_es pid 0 (pr_es p)") auto
  then show ?case
  proof cases
    case own
    with Cons.prems show ?thesis by auto
  next
    case es
    then have "i = k" "r = Some j" using Cons.prems by simp_all
    with find_es_at [OF es(2)] show ?thesis by auto
  next
    case later
    with Cons.prems have "find_pid pid (Suc k) ps = Some (i, r)" by simp
    from Cons.IH [OF this] show ?thesis
      by (auto simp: nth_Cons' Suc_diff_Suc split: option.splits)
  qed
qed simp

lemma read_packet_inv:
  assumes "handlers_ok call" "ts_inv ts" "pkt b" "ngx_ts_read_packet ops call ts b = (rc, ts')"
    and "b_pos b = 0" "b_last b = NGX_TS_PACKET_SIZE"
  shows "ts_inv ts'"
proof -
  obtain n h where hd: "ngx_ts_read_header (b_mem b) = (n, h)" by (metis prod.exhaust)
  define b' where "b' = (case n of Inl _ \<Rightarrow> b\<lparr>b_pos := b_last b\<rparr> | Inr n \<Rightarrow> b\<lparr>b_pos := b_pos b + n\<rparr>)"
  have pk: "pkt b'"
    using assms(3,5,6) hd read_header_length [of "b_mem b"]
    by (auto simp: b'_def pkt_def buf_ok_def split: sum.split)
  have at: "i < length (ts_progs ts) \<and> (\<forall>j. r = Some j \<longrightarrow> es_at ts i j)"
    if "find_pid (h_pid h) 0 (ts_progs ts) = Some (i, r)" for i r
    using find_pid_at [OF that] by (auto simp: es_at_def split: option.splits)
  have run: "ngx_ts_read_packet ops call ts b =
    (if n = Inl NGX_ERROR then (NGX_ERROR, ts)
     else if h_pid h = 0 then ngx_ts_read_pat ops call ts h b'
     else case find_pid (h_pid h) 0 (ts_progs ts) of
       Some (i, None) \<Rightarrow> ngx_ts_read_pmt ops call ts i h b'
     | Some (i, Some j) \<Rightarrow> ngx_ts_read_pes ops call ts i j h (Some b')
     | None \<Rightarrow> ngx_ts_free_buf ops ts b')"
  proof -
    have "drop (b_pos b) (b_mem b) = b_mem b" using assms(5) by simp
    then show ?thesis by (simp only: ngx_ts_read_packet_def hd prod.case b'_def Let_def)
  qed
  show ?thesis
    using assms(4) at assms(2) unfolding run
    by (auto split: if_splits option.splits
        dest: read_pat_inv [OF assms(1,2) pk] read_pmt_inv [OF assms(1,2) pk]
          read_pes_inv [OF assms(1,2) _ pk] free_buf_inv [OF _ assms(2) pk])
qed


section \<open>One byte at a time\<close>

text \<open>The specification of \<open>ngx_ts_read\<close>: the bytes of the input, one after the other.\<close>

fun ts_bytes ::
    "'p pool_ops \<Rightarrow> ('h, 'w, 'p) handler_call \<Rightarrow> bytes \<Rightarrow> ('h, 'w, 'p) ngx_ts_stream \<Rightarrow>
     ngx_rc \<times> ('h, 'w, 'p) ngx_ts_stream" where
  "ts_bytes ops call [] ts = (NGX_OK, ts)"
| "ts_bytes ops call (x # xs) ts =
     (case read_turn ops call ts [x] of (rc, _, ts') \<Rightarrow>
        if rc \<noteq> NGX_OK then (rc, ts') else ts_bytes ops call xs ts')"

definition rd_inv :: "('h, 'w, 'p) ngx_ts_stream \<Rightarrow> bool" where
  "rd_inv ts \<longleftrightarrow> ts_inv ts \<and>
     (case ts_buf ts of None \<Rightarrow> True
      | Some b \<Rightarrow> length (b_mem b) = NGX_TS_PACKET_SIZE \<and> b_pos b = 0 \<and> b_last b < NGX_TS_PACKET_SIZE)"

lemma ts_bytes_append:
  "ts_bytes ops call (xs @ ys) ts =
   (case ts_bytes ops call xs ts of (rc, ts') \<Rightarrow>
      if rc \<noteq> NGX_OK then (rc, ts') else ts_bytes ops call ys ts')"
  by (induction xs arbitrary: ts) (auto split: prod.split)

lemma read_get_buf_inv:
  assumes "pool_ok ops" "rd_inv ts" "read_get_buf ops ts = (ts1, r)"
  shows "ts_inv ts1" "\<And>b. r = Some b \<Longrightarrow> ts_buf ts1 = Some b \<and> length (b_mem b) = NGX_TS_PACKET_SIZE \<and>
      b_pos b = 0 \<and> b_last b < NGX_TS_PACKET_SIZE"
  using assms
  by (auto simp: read_get_buf_def rd_inv_def ts_inv_def pool_ok_def Let_def NGX_TS_PACKET_SIZE_def
      split: option.splits list.splits prod.splits)

lemma buf_put_twice:
  assumes "b_last b + length xs + length ys \<le> length (b_mem b)"
  shows "buf_put (buf_put b xs) ys = buf_put b (xs @ ys)"
  using assms by (simp add: buf_put_def ac_simps)

lemma buf_put_simps [simp]:
  "b_pos (buf_put b xs) = b_pos b" "b_last (buf_put b xs) = b_last b + length xs"
  "b_last b + length xs \<le> length (b_mem b) \<Longrightarrow> length (b_mem (buf_put b xs)) = length (b_mem b)"
  by (simp_all add: buf_put_def)

lemma read_turn_room:
  fixes x :: byte
  assumes "read_get_buf ops ts = (ts1, Some b)" "b_last b + 1 < length (b_mem b)" "xs \<noteq> []"
  defines "ts2 \<equiv> ts1\<lparr>ts_buf := Some (buf_put b [x])\<rparr>"
  shows "read_turn ops call ts [x] = (NGX_OK, 1, ts2)"
    and "read_turn ops call ts (x # xs) = (case read_turn ops call ts2 xs of (rc, n, t) \<Rightarrow> (rc, Suc n, t))"
proof -
  show "read_turn ops call ts [x] = (NGX_OK, 1, ts2)"
    using assms(1,2) by (simp add: read_turn_def ts2_def Let_def)
  define k where "k = min (length (b_mem b) - (b_last b + 1)) (length xs)"
  have g: "read_get_buf ops ts2 = (ts2, Some (buf_put b [x]))"
    by (simp add: read_get_buf_def ts2_def)
  have k: "min (length (b_mem b) - b_last b) (length (x # xs)) = Suc k"
    using assms(2) by (simp add: k_def)
  have k2: "min (length (b_mem (buf_put b [x])) - b_last (buf_put b [x])) (length xs) = k"
    using assms(2) by (simp add: k_def)
  have put: "buf_put b (take (Suc k) (x # xs)) = buf_put (buf_put b [x]) (take k xs)"
    using assms(2) by (subst buf_put_twice) (auto simp: k_def)
  have ts: "ts2\<lparr>ts_buf := c\<rparr> = ts1\<lparr>ts_buf := c\<rparr>" for c by (simp add: ts2_def)
  show "read_turn ops call ts (x # xs) = (case read_turn ops call ts2 xs of (rc, n, t) \<Rightarrow> (rc, Suc n, t))"
    unfolding read_turn_def [of ops call ts "x # xs"] assms(1) prod.case option.case Let_def k put
    unfolding read_turn_def [of ops call ts2 xs] g prod.case option.case Let_def k2 ts
    by (simp split: prod.split)
qed

lemma read_turn_bytes:
  assumes "pool_ok ops" "handlers_ok call" "rd_inv ts" "inn \<noteq> []" "read_turn ops call ts inn = (rc, n, ts')"
  shows "ts_bytes ops call inn ts = (if rc \<noteq> NGX_OK then (rc, ts') else ts_bytes ops call (drop n inn) ts')
    \<and> (rc = NGX_OK \<longrightarrow> rd_inv ts' \<and> 0 < n) \<and> n \<le> length inn"
  using assms(3-)
proof (induction inn arbitrary: ts n)
  case (Cons x xs)
  obtain ts1 r where g: "read_get_buf ops ts = (ts1, r)" by (metis prod.exhaust)
  note gi = read_get_buf_inv [OF assms(1) Cons.prems(1) g]
  show ?case
  proof (cases r)
    case None
    with Cons.prems(3) g show ?thesis by (auto simp: read_turn_def)
  next
    case (Some b)
    then have b: "length (b_mem b) = NGX_TS_PACKET_SIZE" "b_pos b = 0" "b_last b < NGX_TS_PACKET_SIZE"
      using gi(2) by blast+
    show ?thesis
    proof (cases "xs \<noteq> [] \<and> b_last b + 1 < length (b_mem b)")
      case True
      let ?ts2 = "ts1\<lparr>ts_buf := Some (buf_put b [x])\<rparr>"
      note room = read_turn_room [OF g [unfolded Some], where xs = xs and x = x and call = call]
      have "rd_inv ?ts2" using gi(1) b True by (simp add: rd_inv_def)
      moreover obtain m where "read_turn ops call ?ts2 xs = (rc, m, ts')" "n = Suc m"
        using room(2) True Cons.prems(3) by (auto split: prod.splits)
      ultimately show ?thesis
        using Cons.IH [of ?ts2 m] room(1) True by auto
    next
      case False
      then have one: "min (length (b_mem b) - b_last b) (length (x # xs)) = 1"
        using b by auto
      have same: "read_turn ops call ts (x # xs) = read_turn ops call ts [x]"
        using one b unfolding read_turn_def g Some by simp
      define b' where "b' = buf_put b [x]"
      have b': "b_pos b' = 0" "length (b_mem b') = NGX_TS_PACKET_SIZE" "b_last b' \<le> NGX_TS_PACKET_SIZE"
        using b by (simp_all add: b'_def)
      have turn: "read_turn ops call ts [x] =
        (if b_last b' = length (b_mem b')
         then case ngx_ts_read_packet ops call (ts1\<lparr>ts_buf := Some b'\<rparr>) b' of (rc, ts) \<Rightarrow>
           if rc \<noteq> NGX_OK then (NGX_ERROR, 1, ts) else (NGX_OK, 1, ts\<lparr>ts_buf := None\<rparr>)
         else (NGX_OK, 1, ts1\<lparr>ts_buf := Some b'\<rparr>))"
      proof -
        have "min (length (b_mem b) - b_last b) (Suc 0) = Suc 0" using b by simp
        then show ?thesis using g Some b by (auto simp: read_turn_def b'_def Let_def split: prod.split)
      qed
      have "rd_inv ts' \<and> n = 1" if ok: "rc = NGX_OK"
      proof (cases "b_last b' = length (b_mem b')")
        case True
        then have pk: "pkt b'" using b' by (simp add: pkt_def buf_ok_def)
        obtain t where t: "ngx_ts_read_packet ops call (ts1\<lparr>ts_buf := Some b'\<rparr>) b' = (NGX_OK, t)"
          "ts' = t\<lparr>ts_buf := None\<rparr>" "n = 1"
          using Cons.prems(3) ok True unfolding same turn by (auto split: prod.splits if_splits)
        have "ts_inv t"
          using read_packet_inv [OF assms(2) _ pk t(1)] gi(1) b' True by simp
        then show ?thesis using t by (simp add: rd_inv_def)
      next
        case False
        with Cons.prems(3) gi(1) b' show ?thesis
          unfolding same turn by (auto simp: rd_inv_def)
      qed
      moreover have "n = 1"
        using Cons.prems(3) unfolding same turn by (auto split: prod.splits if_splits)
      ultimately show ?thesis using Cons.prems(3) same by auto
    qed
  qed
qed simp

lemma read_buf_bytes:
  assumes "pool_ok ops" "handlers_ok call" "rd_inv ts" "buf_ok b" "b_last b - b_pos b < fuel"
  shows "\<exists>b'. read_buf fuel ops call ts b =
    Some (fst (ts_bytes ops call (buf_content b) ts), snd (ts_bytes ops call (buf_content b) ts), b')
    \<and> (fst (ts_bytes ops call (buf_content b) ts) = NGX_OK \<longrightarrow> rd_inv (snd (ts_bytes ops call (buf_content b) ts)))"
  using assms(3-)
proof (induction fuel arbitrary: ts b)
  case (Suc fuel)
  show ?case
  proof (cases "b_pos b = b_last b")
    case True
    then show ?thesis using Suc.prems by (simp add: buf_content_def)
  next
    case False
    then have ne: "buf_content b \<noteq> []" using Suc.prems(2) by (auto simp: buf_content_def buf_ok_def)
    obtain rc n ts1 where t: "read_turn ops call ts (buf_content b) = (rc, n, ts1)" by (metis prod_cases3)
    note turn = read_turn_bytes [OF assms(1,2) Suc.prems(1) ne t]
    show ?thesis
    proof (cases "rc = NGX_OK")
      case True
      let ?b = "b\<lparr>b_pos := b_pos b + n\<rparr>"
      have n: "0 < n" "n \<le> b_last b - b_pos b" "rd_inv ts1"
        using turn True Suc.prems(2) by auto
      have ok: "buf_ok ?b" using n(2) Suc.prems(2) False by (auto simp: buf_ok_def)
      have "buf_content ?b = drop n (buf_content b)"
        by (simp add: buf_content_def drop_take add.commute)
      moreover have "b_last ?b - b_pos ?b < fuel" using n(1,2) Suc.prems(3) by simp
      ultimately show ?thesis
        using Suc.IH [OF n(3) ok] turn True False t by (simp add: Let_def)
    next
      case err: False
      then show ?thesis using turn t False by (simp add: Let_def)
    qed
  qed
qed simp

lemma read_chain_bytes:
  assumes "pool_ok ops" "handlers_ok call" "rd_inv ts" "chain_ok inn" "length (flat inn) < fuel"
  shows "\<exists>inn'. ngx_ts_read fuel ops call ts inn =
    Some (fst (ts_bytes ops call (flat inn) ts), snd (ts_bytes ops call (flat inn) ts), inn')"
  using assms(3-)
proof (induction inn arbitrary: ts)
  case (Cons b inn)
  have b: "buf_ok b" "b_last b - b_pos b < fuel" "length (flat inn) < fuel" "chain_ok inn"
    using Cons.prems by auto
  obtain rc ts1 where t: "ts_bytes ops call (buf_content b) ts = (rc, ts1)" by (metis prod.exhaust)
  from read_buf_bytes [OF assms(1,2) Cons.prems(1) b(1,2)] t
  obtain b' where "read_buf fuel ops call ts b = Some (rc, ts1, b')" "rc = NGX_OK \<longrightarrow> rd_inv ts1"
    by auto
  with Cons.IH [of ts1] b t show ?case
    by (auto simp: ts_bytes_append)
qed simp


section \<open>Properties\<close>

text \<open>
  C8: reading ends, with one unit of fuel more than there are bytes, and how the input is cut into
  buffers makes no difference: any two chains with the same bytes give the same result and the same
  stream, through every packet, error and handler call.
\<close>

theorem ts_read_segmentation:
  assumes "pool_ok ops" "handlers_ok call" "rd_inv ts" "chain_ok as" "chain_ok bs" "flat as = flat bs"
    and "length (flat as) < fuel"
  shows "\<exists>rc ts' as' bs'. ngx_ts_read fuel ops call ts as = Some (rc, ts', as') \<and>
    ngx_ts_read fuel ops call ts bs = Some (rc, ts', bs')"
  using read_chain_bytes [OF assms(1-4,7)] read_chain_bytes [OF assms(1-3,5)] assms(6,7) by auto

theorem ts_read_segmentation_witness:
  "\<exists>rc ts' as' bs'.
     ngx_ts_read 4 unit_pool (\<lambda>_ _ ts. (NGX_OK, ts)) (zero_ts () () :: (unit, unit, unit) ngx_ts_stream)
       [\<lparr>b_mem = [0x47, 0x40], b_pos = 0, b_last = 2\<rparr>, \<lparr>b_mem = [0x00], b_pos = 0, b_last = 1\<rparr>]
       = Some (rc, ts', as') \<and>
     ngx_ts_read 4 unit_pool (\<lambda>_ _ ts. (NGX_OK, ts)) (zero_ts () () :: (unit, unit, unit) ngx_ts_stream)
       [\<lparr>b_mem = [0x47, 0x40, 0x00], b_pos = 0, b_last = 3\<rparr>] = Some (rc, ts', bs')"
  by (rule ts_read_segmentation)
     (auto simp: handlers_ok_def rd_inv_def ts_inv_def zero_ts_def buf_ok_def buf_content_def
       intro: pool_total_unit [unfolded pool_total_def, THEN conjunct1])

text \<open>
  C28: every packet the reader accepts leaves all buffers in their place: the free list and the chains
  of the association table, of every program and of every stream hold whole 188-byte buffers with
  their data inside, whatever the packet says, and whether it is accepted or not.
\<close>

theorem read_packet_keeps_buffers:
  assumes "handlers_ok call" "ts_inv ts" "pkt b" "b_pos b = 0" "b_last b = NGX_TS_PACKET_SIZE"
  shows "ts_inv (snd (ngx_ts_read_packet ops call ts b))"
  using read_packet_inv [OF assms(1-3) _ assms(4,5)] by (metis prod.collapse)

theorem read_packet_keeps_buffers_witness:
  "ts_inv (snd (ngx_ts_read_packet unit_pool (\<lambda>_ _ ts. (NGX_OK, ts))
     (zero_ts () () :: (unit, unit, unit) ngx_ts_stream)
     \<lparr>b_mem = 0x47 # replicate 187 0x10, b_pos = 0, b_last = 188\<rparr>))"
  by (rule read_packet_keeps_buffers)
     (auto simp: handlers_ok_def ts_inv_def zero_ts_def pkt_def buf_ok_def NGX_TS_PACKET_SIZE_def)

text \<open>
  A packet identifier leads to a program whose own identifier it is, or to a stream of a program
  with that identifier; in both cases the indices the readers use are inside the arrays.
\<close>

theorem find_pid_sound:
  assumes "find_pid pid 0 ps = Some (i, r)"
  shows "i < length ps \<and> (case r of None \<Rightarrow> pr_pid (ps ! i) = pid
    | Some j \<Rightarrow> j < length (pr_es (ps ! i)) \<and> es_pid (pr_es (ps ! i) ! j) = pid)"
  using find_pid_at [OF assms] by (auto split: option.splits)

theorem find_pid_sound_witness:
  "0 < length [zero_program\<lparr>pr_pid := 7\<rparr>] \<and> pr_pid ([zero_program\<lparr>pr_pid := 7\<rparr>] ! 0) = 7"
  using find_pid_sound [of 7 "[zero_program\<lparr>pr_pid := 7\<rparr>]" 0 None] by simp

end
