(* ===== verification/Ts_Roundtrip.thy ===== *)
theory Ts_Roundtrip
  imports Ts_Stream
begin

text \<open>
  What the multiplexer writes, the demultiplexer reads: packets of \<open>ngx_ts_write_pat\<close>,
  \<open>ngx_ts_write_pmt\<close> and \<open>ngx_ts_write_pes\<close> fed to \<open>ngx_ts_read\<close>.  The three readers share a
  contract, the locale \<open>packet_consumer\<close>: while bytes of the section are missing a packet is kept,
  and the packet with the last byte finishes it.  The handler of these lemmas notes what it is
  called with.
\<close>

section \<open>The contract\<close>

locale packet_consumer =
  fixes feed :: "bytes \<Rightarrow> 's \<Rightarrow> ngx_rc \<times> 's"
    and total :: bytes
    and may_pad :: bool
    and hdr :: "bool \<Rightarrow> ngx_ts_header \<Rightarrow> bool"
    and waiting :: "bool \<Rightarrow> bytes \<Rightarrow> 's \<Rightarrow> bool"
    and finished :: "'s \<Rightarrow> bool"
  assumes feed_append: "feed (xs @ ys) s =
      (case feed xs s of (rc, s') \<Rightarrow> if rc \<noteq> NGX_OK then (rc, s') else feed ys s')"
    and feed_more: "waiting started cs s \<Longrightarrow> length m = NGX_TS_PACKET_SIZE \<Longrightarrow>
      ngx_ts_read_header m = (Inr n, g) \<Longrightarrow> hdr started g \<Longrightarrow> total = (cs @ drop n m) @ xs \<Longrightarrow> xs \<noteq> [] \<Longrightarrow>
      \<exists>s'. feed m s = (NGX_OK, s') \<and> waiting True (cs @ drop n m) s'"
    and feed_last: "waiting started cs s \<Longrightarrow> length m = NGX_TS_PACKET_SIZE \<Longrightarrow>
      ngx_ts_read_header m = (Inr n, g) \<Longrightarrow> hdr started g \<Longrightarrow> cs @ drop n m = total @ pad \<Longrightarrow>
      length pad < length (drop n m) \<Longrightarrow> may_pad \<or> pad = [] \<Longrightarrow>
      \<exists>s'. feed m s = (NGX_OK, s') \<and> finished s'"
begin

lemma feed_all:
  assumes "waiting started cs s" "out \<noteq> []"
    and "\<And>i. i < length out \<Longrightarrow> length (out ! i) = NGX_TS_PACKET_SIZE \<and>
      (\<exists>n g. ngx_ts_read_header (out ! i) = (Inr n, g) \<and> hdr (started \<or> 0 < i) g)"
    and "cs @ concat (map ts_payload out) = total @ pad" "length pad < length (ts_payload (last out))"
    and "may_pad \<or> pad = []"
  shows "\<exists>s'. feed (concat out) s = (NGX_OK, s') \<and> finished s'"
  using assms
proof (induction out arbitrary: started cs s)
  case (Cons m out)
  obtain n g where m: "length m = NGX_TS_PACKET_SIZE" "ngx_ts_read_header m = (Inr n, g)" "hdr started g"
    using Cons.prems(3) [of 0] by auto
  have pay: "ts_payload m = drop n m" using m(2) by (simp add: ts_payload_def)
  show ?case
  proof (cases "out = []")
    case True
    then show ?thesis
      using feed_last [OF Cons.prems(1) m, of pad] Cons.prems(4-6) pay by simp
  next
    case False
    then have lst: "length pad < length (ts_payload (last out))" "last (m # out) = last out"
      using Cons.prems(5) by auto
    define tl where "tl = concat (map ts_payload out)"
    have "length (ts_payload (last out)) \<le> length tl"
      using False unfolding tl_def by (metis concat_append append_butlast_last_id length_append
          le_add2 list.simps(8,9) map_append concat.simps append_Nil2)
    with lst have len: "length pad < length tl" by simp
    have eq: "(cs @ drop n m) @ tl = total @ pad"
      using Cons.prems(4) pay by (simp add: tl_def)
    define xs where "xs = take (length tl - length pad) tl"
    have "length ((cs @ drop n m) @ tl) = length (total @ pad)" using eq by simp
    then have tot: "length total = length (cs @ drop n m) + (length tl - length pad)" using len by simp
    have "total = take (length total) (total @ pad)" by simp
    also have "\<dots> = (cs @ drop n m) @ xs" unfolding eq [symmetric] tot xs_def by simp
    finally have split: "total = (cs @ drop n m) @ xs" .
    have "xs \<noteq> []" using len by (auto simp: xs_def)
    from feed_more [OF Cons.prems(1) m split this] obtain s1 where
      s1: "feed m s = (NGX_OK, s1)" "waiting True (cs @ drop n m) s1" by blast
    have rest: "length (out ! i) = NGX_TS_PACKET_SIZE \<and>
        (\<exists>n g. ngx_ts_read_header (out ! i) = (Inr n, g) \<and> hdr (True \<or> 0 < i) g)" if "i < length out" for i
      using Cons.prems(3) [of "Suc i"] that by simp
    have "\<exists>s'. feed (concat out) s1 = (NGX_OK, s') \<and> finished s'"
      using Cons.IH [OF s1(2) False rest] eq lst(1) Cons.prems(6) by (simp add: tl_def)
    with s1(1) show ?thesis by (simp add: feed_append)
  qed
qed simp

end

section \<open>One packet\<close>

definition ts_dispatch ::
    "'p pool_ops \<Rightarrow> ('h, 'w, 'p) handler_call \<Rightarrow> ('h, 'w, 'p) ngx_ts_stream \<Rightarrow> ngx_ts_header \<Rightarrow> buf \<Rightarrow>
     ngx_rc \<times> ('h, 'w, 'p) ngx_ts_stream" where
  "ts_dispatch ops call ts h b =
     (if h_pid h = 0 then ngx_ts_read_pat ops call ts h b
      else case find_pid (h_pid h) 0 (ts_progs ts) of
        Some (i, None) \<Rightarrow> ngx_ts_read_pmt ops call ts i h b
      | Some (i, Some j) \<Rightarrow> ngx_ts_read_pes ops call ts i j h (Some b)
      | None \<Rightarrow> ngx_ts_free_buf ops ts b)"

text \<open>The parts of a stream that matter here: all but the memory.\<close>

definition same_core :: "('h, 'w, 'p) ngx_ts_stream \<Rightarrow> ('h, 'w, 'p) ngx_ts_stream \<Rightarrow> bool" where
  "same_core ts ts' \<longleftrightarrow> ts_progs ts' = ts_progs ts \<and> ts_bufs ts' = ts_bufs ts \<and>
     ts_handlers ts' = ts_handlers ts \<and> ts_world ts' = ts_world ts"

lemma feed_packet:
  assumes "pool_total ops" "handlers_ok call" "rd_inv ts" "ts_buf ts = None"
    and "length m = NGX_TS_PACKET_SIZE" "ngx_ts_read_header m = (Inr n, g)"
  obtains ts1 b where "same_core ts ts1" "ts_inv ts1" "pkt b" "buf_content b = drop n m"
    "ts_bytes ops call m ts = (case ts_dispatch ops call ts1 g b of (rc, t) \<Rightarrow>
       if rc \<noteq> NGX_OK then (NGX_ERROR, t) else (NGX_OK, t\<lparr>ts_buf := None\<rparr>))"
proof -
  have ok: "pool_ok ops" using assms(1) by (simp add: pool_total_def)
  obtain ts1 b0 where g: "read_get_buf ops ts = (ts1, Some b0)" and same: "same_core ts ts1"
    and b0: "b_last b0 = 0"
  proof (cases "ts_free ts")
    case Nil
    obtain p m where "p_alloc ops (ts_pool ts) NGX_TS_PACKET_SIZE = Some (p, m)"
      using assms(1) by (rule pool_totalE)
    with Nil assms(4) show thesis
      by (intro that [of "ts\<lparr>ts_pool := p, ts_buf := Some \<lparr>b_mem = m, b_pos = 0, b_last = 0\<rparr>\<rparr>"])
         (auto simp: read_get_buf_def same_core_def Let_def)
  next
    case (Cons c fs)
    with assms(4) show thesis
      by (intro that [of "ts\<lparr>ts_free := fs, ts_pool := p_free_link ops (ts_pool ts),
            ts_buf := Some (c\<lparr>b_pos := 0, b_last := 0\<rparr>)\<rparr>" "c\<lparr>b_pos := 0, b_last := 0\<rparr>"])
         (auto simp: read_get_buf_def same_core_def Let_def)
  qed
  note gi = read_get_buf_inv [OF ok assms(3) g]
  have len0: "length (b_mem b0) = NGX_TS_PACKET_SIZE" "b_pos b0 = 0" using gi(2) by blast+
  define b1 where "b1 = buf_put b0 m"
  have b1: "b_mem b1 = m" "b_pos b1 = 0" "b_last b1 = NGX_TS_PACKET_SIZE"
    using len0 b0 assms(5) by (simp_all add: b1_def buf_put_def)
  define ts2 where "ts2 = ts1\<lparr>ts_buf := Some b1\<rparr>"
  define b where "b = b1\<lparr>b_pos := b_pos b1 + n\<rparr>"
  have n: "n \<le> NGX_TS_PACKET_SIZE" using read_header_length [OF assms(6)] by simp
  have b: "pkt b" "buf_content b = drop n m"
    using b1 n assms(5) by (simp_all add: b_def pkt_def buf_ok_def buf_content_def)
  have disp: "ngx_ts_read_packet ops call ts2 b1 = ts_dispatch ops call ts2 g b"
    using b1 assms(6) by (simp add: ngx_ts_read_packet_def ts_dispatch_def b_def Let_def)
  have min: "min (length (b_mem b0) - b_last b0) (length m) = length m"
    using len0 b0 assms(5) by simp
  obtain rc t where rt: "ts_dispatch ops call ts2 g b = (rc, t)" by (metis prod.exhaust)
  have "read_turn ops call ts m = (if rc \<noteq> NGX_OK then (NGX_ERROR, length m, t)
      else (NGX_OK, length m, t\<lparr>ts_buf := None\<rparr>))"
    unfolding read_turn_def g prod.case option.case Let_def min take_all [OF order_refl]
    using b1 assms(5) disp rt by (simp add: ts2_def b1_def [symmetric])
  moreover have "m \<noteq> []" using assms(5) by (auto simp: NGX_TS_PACKET_SIZE_def)
  ultimately have "ts_bytes ops call m ts =
      (if rc \<noteq> NGX_OK then (NGX_ERROR, t) else (NGX_OK, t\<lparr>ts_buf := None\<rparr>))"
    using read_turn_bytes [OF ok assms(2,3), of m] by (cases "rc = NGX_OK") auto
  with rt show thesis
    using gi(1) same b by (intro that [of ts2 b]) (auto simp: ts2_def same_core_def)
qed

section \<open>A handler that takes notes\<close>

record ts_note =
  n_event :: ngx_ts_event_e
  n_prog :: "nat option"
  n_es :: "nat option"
  n_pts :: u64
  n_dts :: u64
  n_bytes :: bytes

definition note_call :: "(unit, ts_note list, 'p) handler_call" where
  "note_call h dat ts =
     (let (pts, dts) = (case (hd_prog dat, hd_es dat) of
            (Some i, Some j) \<Rightarrow> (es_pts (the_es ts i j), es_dts (the_es ts i j))
          | _ \<Rightarrow> (0, 0))
      in (NGX_OK, ts\<lparr>ts_world := ts_world ts @
            [\<lparr>n_event = hd_event dat, n_prog = hd_prog dat, n_es = hd_es dat, n_pts = pts,
              n_dts = dts, n_bytes = flat (hd_bufs dat)\<rparr>]\<rparr>))"

lemma handlers_ok_note [simp]: "handlers_ok note_call"
  by (simp add: handlers_ok_def note_call_def ts_inv_def shape_def split: prod.split)

lemma run_note:
  assumes "ts_handlers ts = [()]"
  shows "ngx_ts_run_handlers note_call ev ts pr es bufs =
    (NGX_OK, ts\<lparr>ts_world := ts_world ts @
       [\<lparr>n_event = ev, n_prog = pr, n_es = es,
         n_pts = (case (pr, es) of (Some i, Some j) \<Rightarrow> es_pts (the_es ts i j) | _ \<Rightarrow> 0),
         n_dts = (case (pr, es) of (Some i, Some j) \<Rightarrow> es_dts (the_es ts i j) | _ \<Rightarrow> 0),
         n_bytes = flat bufs\<rparr>]\<rparr>)"
  using assms by (simp add: ngx_ts_run_handlers_def note_call_def split: option.split)


section \<open>The association table\<close>

text \<open>Ready for packets: nothing half read, memory available, the note taker installed.\<close>

definition ready :: "'p pool_ops \<Rightarrow> (unit, ts_note list, 'p) ngx_ts_stream \<Rightarrow> bool" where
  "ready ops ts \<longleftrightarrow> pool_total ops \<and> rd_inv ts \<and> ts_buf ts = None \<and> ts_handlers ts = [()]"

definition pat_waiting ::
    "'p pool_ops \<Rightarrow> ngx_ts_program list \<Rightarrow> ts_note list \<Rightarrow> bool \<Rightarrow> bytes \<Rightarrow>
     (unit, ts_note list, 'p) ngx_ts_stream \<Rightarrow> bool" where
  "pat_waiting ops ps w started cs ts \<longleftrightarrow> ready ops ts \<and> length ps \<le> 253 \<and> ts_progs ts = [] \<and>
     ts_world ts = w \<and> (if started then ts_bufs ts \<noteq> [] \<and> flat (ts_bufs ts) = cs else cs = [])"

definition pat_note :: ts_note where
  "pat_note = \<lparr>n_event = NGX_TS_PAT, n_prog = None, n_es = None, n_pts = 0, n_dts = 0, n_bytes = []\<rparr>"

definition pat_finished ::
    "'p pool_ops \<Rightarrow> ngx_ts_program list \<Rightarrow> ts_note list \<Rightarrow>
     (unit, ts_note list, 'p) ngx_ts_stream \<Rightarrow> bool" where
  "pat_finished ops ps w ts \<longleftrightarrow> ready ops ts \<and> ts_bufs ts = [] \<and> ts_world ts = w @ [pat_note] \<and>
     ts_progs ts = map seen_program (filter (\<lambda>p. pr_number p \<noteq> 0) ps)"

definition section_hdr :: "u16 \<Rightarrow> bool \<Rightarrow> ngx_ts_header \<Rightarrow> bool" where
  "section_hdr pid started g \<longleftrightarrow> h_pid g = pid \<and> (h_pusi g \<longleftrightarrow> \<not> started)"

lemma feed_ready:
  assumes "ready ops ts" "length m = NGX_TS_PACKET_SIZE" "ngx_ts_read_header m = (Inr n, g)"
  obtains ts1 b where "same_core ts ts1" "ts_inv ts1" "pkt b" "buf_content b = drop n m"
    "ts_bytes ops note_call m ts = (case ts_dispatch ops note_call ts1 g b of (rc, t) \<Rightarrow>
       if rc \<noteq> NGX_OK then (NGX_ERROR, t) else (NGX_OK, t\<lparr>ts_buf := None\<rparr>))"
  using assms(1) unfolding ready_def
  by (elim conjE) (rule feed_packet [OF _ handlers_ok_note _ _ assms(2,3)])

text \<open>What \<open>ngx_ts_append_buf\<close> does to a chain that is fed in order.\<close>

lemma append_in_order:
  assumes "pool_total ops" "ts_inv ts" "pkts ll" "pkt b"
    and "if started then ll \<noteq> [] \<and> flat ll = cs else cs = []" "h_pusi h \<longleftrightarrow> \<not> started"
  obtains ts' ll' where "ngx_ts_append_buf ops ts h ll (Some b) = (NGX_OK, ts', ll')"
    "ts_inv ts'" "pkts ll'" "ll' \<noteq> []" "flat ll' = cs @ buf_content b" "same_core ts ts'"
    "ts_buf ts' = ts_buf ts"
proof -
  obtain rc ts' ll' where ap: "ngx_ts_append_buf ops ts h ll (Some b) = (rc, ts', ll')"
    by (metis prod_cases3)
  have inv: "ts_inv ts'" "pkts ll'"
    using append_buf_inv [OF ap assms(2,3)] assms(4) by simp_all
  from assms(1) have "rc = NGX_OK \<and> ll' = (if started then ll @ [b] else [b])"
    by (cases rule: append_buf_cases [where ts = ts and h = h and ll = ll and b = "Some b"])
       (use ap assms(5,6) in \<open>auto split: if_splits\<close>)
  with ap inv assms(5) append_buf_frame [OF ap] show thesis
    by (intro that [of ts' ll']) (auto simp: same_core_def split: if_splits)
qed

interpretation pat: packet_consumer "ts_bytes ops note_call" "with_crc (pat_section ps)"
  True "section_hdr 0" "pat_waiting ops ps w" "pat_finished ops ps w"
  for ops :: "'p pool_ops" and ps w
proof unfold_locales
  fix xs ys :: bytes and s :: "(unit, ts_note list, 'p) ngx_ts_stream"
  show "ts_bytes ops note_call (xs @ ys) s = (case ts_bytes ops note_call xs s of (rc, s') \<Rightarrow>
      if rc \<noteq> NGX_OK then (rc, s') else ts_bytes ops note_call ys s')"
    by (rule ts_bytes_append)
next
  fix started cs m n g xs and s :: "(unit, ts_note list, 'p) ngx_ts_stream"
  assume w: "pat_waiting ops ps w started cs s" and m: "length m = NGX_TS_PACKET_SIZE"
    "ngx_ts_read_header m = (Inr n, g)" and h: "section_hdr 0 started g"
    and tot: "with_crc (pat_section ps) = (cs @ drop n m) @ xs" "xs \<noteq> []"
  note wd = w [unfolded pat_waiting_def ready_def]
  have rdy: "ready ops s" using w by (simp add: pat_waiting_def)
  obtain ts1 b where 1: "same_core s ts1" "ts_inv ts1" "pkt b" "buf_content b = drop n m"
    "ts_bytes ops note_call m s = (case ts_dispatch ops note_call ts1 g b of (rc, t) \<Rightarrow>
       if rc \<noteq> NGX_OK then (NGX_ERROR, t) else (NGX_OK, t\<lparr>ts_buf := None\<rparr>))"
    by (rule feed_ready [OF rdy m])
  have app: "pool_total ops" "pkts (ts_bufs ts1)"
    "if started then ts_bufs ts1 \<noteq> [] \<and> flat (ts_bufs ts1) = cs else cs = []" "h_pusi g \<longleftrightarrow> \<not> started"
    using wd h 1(1,2) by (auto simp: same_core_def section_hdr_def ts_inv_def)
  obtain ts' ll where 2: "ngx_ts_append_buf ops ts1 g (ts_bufs ts1) (Some b) = (NGX_OK, ts', ll)"
    "ts_inv ts'" "pkts ll" "ll \<noteq> []" "flat ll = cs @ buf_content b" "same_core ts1 ts'"
    "ts_buf ts' = ts_buf ts1"
    by (rule append_in_order [OF app(1) 1(2) app(2) 1(3) app(3,4)])
  have "ts_dispatch ops note_call ts1 g b = (NGX_OK, ts'\<lparr>ts_bufs := ll\<rparr>)"
    using read_pat_wait [OF _ 2(1) pkts_chain_ok [OF 2(3)], of ps xs note_call] wd h 1 2 tot
    by (simp add: ts_dispatch_def section_hdr_def same_core_def)
  with 1 2 wd show "\<exists>s'. ts_bytes ops note_call m s = (NGX_OK, s') \<and> pat_waiting ops ps w True (cs @ drop n m) s'"
    by (auto simp: pat_waiting_def ready_def rd_inv_def ts_inv_def same_core_def)
next
  fix started cs m n g pad and s :: "(unit, ts_note list, 'p) ngx_ts_stream"
  assume w: "pat_waiting ops ps w started cs s" and m: "length m = NGX_TS_PACKET_SIZE"
    "ngx_ts_read_header m = (Inr n, g)" and h: "section_hdr 0 started g"
    and tot: "cs @ drop n m = with_crc (pat_section ps) @ pad"
  note wd = w [unfolded pat_waiting_def ready_def]
  have rdy: "ready ops s" using w by (simp add: pat_waiting_def)
  obtain ts1 b where 1: "same_core s ts1" "ts_inv ts1" "pkt b" "buf_content b = drop n m"
    "ts_bytes ops note_call m s = (case ts_dispatch ops note_call ts1 g b of (rc, t) \<Rightarrow>
       if rc \<noteq> NGX_OK then (NGX_ERROR, t) else (NGX_OK, t\<lparr>ts_buf := None\<rparr>))"
    by (rule feed_ready [OF rdy m])
  have app: "pool_total ops" "pkts (ts_bufs ts1)"
    "if started then ts_bufs ts1 \<noteq> [] \<and> flat (ts_bufs ts1) = cs else cs = []" "h_pusi g \<longleftrightarrow> \<not> started"
    using wd h 1(1,2) by (auto simp: same_core_def section_hdr_def ts_inv_def)
  obtain ts' ll where 2: "ngx_ts_append_buf ops ts1 g (ts_bufs ts1) (Some b) = (NGX_OK, ts', ll)"
    "ts_inv ts'" "pkts ll" "ll \<noteq> []" "flat ll = cs @ buf_content b" "same_core ts1 ts'"
    "ts_buf ts' = ts_buf ts1"
    by (rule append_in_order [OF app(1) 1(2) app(2) 1(3) app(3,4)])
  obtain pool mem where al: "p_alloc ops (ts_pool ts') (length ps * 48) = Some (pool, mem)"
    using wd pool_totalE by metis
  let ?ps = "map seen_program (filter (\<lambda>p. pr_number p \<noteq> 0) ps)"
  have inv: "list_all prog_inv ?ps"
    by (auto simp: list_all_iff prog_inv_def seen_program_def zero_program_def)
  have "ts_handlers ts' = [()]" using wd 1 2 by (simp add: same_core_def)
  then have "ts_dispatch ops note_call ts1 g b = (NGX_OK, ts'\<lparr>ts_bufs := [], ts_pool := pool, ts_progs := ?ps,
      ts_world := w @ [pat_note], ts_free := ll @ ts_free ts'\<rparr>)"
    using read_pat_done [OF _ 2(1) pkts_chain_ok [OF 2(3)], of ps pad note_call] wd h 1 2 tot al
    by (simp add: ts_dispatch_def section_hdr_def same_core_def run_note pat_note_def)
  with 1 2 wd inv pkts_packet_bufs [OF 2(3)]
  show "\<exists>s'. ts_bytes ops note_call m s = (NGX_OK, s') \<and> pat_finished ops ps w s'"
    by (auto simp: pat_finished_def ready_def rd_inv_def ts_inv_def same_core_def)
qed


section \<open>A map table\<close>

definition pid_keys :: "ngx_ts_program list \<Rightarrow> (u16 \<times> u16 list) list" where
  "pid_keys ps = map (\<lambda>p. (pr_pid p, map es_pid (pr_es p))) ps"

lemma find_es_cong: "map es_pid es = map es_pid fs \<Longrightarrow> find_es pid k es = find_es pid k fs"
proof (induction es arbitrary: fs k)
  case (Cons e es)
  then show ?case by (cases fs) auto
qed simp

lemma find_pid_cong: "pid_keys ps = pid_keys qs \<Longrightarrow> find_pid pid k ps = find_pid pid k qs"
proof (induction ps arbitrary: qs k)
  case (Cons p ps)
  then obtain q qs' where qs: "qs = q # qs'" by (cases qs) (auto simp: pid_keys_def)
  with Cons.prems have "pr_pid p = pr_pid q" "map es_pid (pr_es p) = map es_pid (pr_es q)"
    "pid_keys ps = pid_keys qs'" by (auto simp: pid_keys_def)
  with Cons.IH [of qs' "Suc k"] find_es_cong [of "pr_es p" "pr_es q" pid 0] qs show ?case
    by (simp split: option.split)
qed (simp add: pid_keys_def)

lemma pid_keys_update:
  assumes "pr_pid q = pr_pid (ps ! i)" "map es_pid (pr_es q) = map es_pid (pr_es (ps ! i))"
  shows "pid_keys (ps[i := q]) = pid_keys ps"
  using assms by (cases "i < length ps")
    (auto simp: pid_keys_def map_update not_less list_update_beyond intro: list_update_same_conv [THEN iffD2])

lemma seen_pmt_bufs [simp]:
  "pr_bufs (seen_pmt prog ll p) = ll" "(seen_pmt prog ll p)\<lparr>pr_bufs := []\<rparr> = seen_pmt prog [] p"
  by (cases p; simp add: seen_pmt_def)+

definition pmt_target :: "ngx_ts_program list \<Rightarrow> nat \<Rightarrow> ngx_ts_program \<Rightarrow> bool" where
  "pmt_target P i prog \<longleftrightarrow> pr_pid prog \<noteq> 0 \<and> find_pid (pr_pid prog) 0 P = Some (i, None) \<and>
     pr_es (P ! i) = [] \<and> length (pr_es prog) \<le> 201"

definition pmt_waiting ::
    "'p pool_ops \<Rightarrow> ngx_ts_program list \<Rightarrow> nat \<Rightarrow> ngx_ts_program \<Rightarrow> ts_note list \<Rightarrow> bool \<Rightarrow> bytes \<Rightarrow>
     (unit, ts_note list, 'p) ngx_ts_stream \<Rightarrow> bool" where
  "pmt_waiting ops P i prog w started cs ts \<longleftrightarrow> ready ops ts \<and> pmt_target P i prog \<and> ts_world ts = w \<and>
     (\<exists>ll. ts_progs ts = P[i := (P ! i)\<lparr>pr_bufs := ll\<rparr>] \<and>
        (if started then ll \<noteq> [] \<and> flat ll = cs else cs = []))"

definition pmt_note :: "nat \<Rightarrow> ts_note" where
  "pmt_note i = \<lparr>n_event = NGX_TS_PMT, n_prog = Some i, n_es = None, n_pts = 0, n_dts = 0, n_bytes = []\<rparr>"

definition pmt_finished ::
    "'p pool_ops \<Rightarrow> ngx_ts_program list \<Rightarrow> nat \<Rightarrow> ngx_ts_program \<Rightarrow> ts_note list \<Rightarrow>
     (unit, ts_note list, 'p) ngx_ts_stream \<Rightarrow> bool" where
  "pmt_finished ops P i prog w ts \<longleftrightarrow> ready ops ts \<and> ts_world ts = w @ [pmt_note i] \<and>
     ts_progs ts = P[i := seen_pmt prog [] (P ! i)]"

lemma pmt_waiting_facts:
  assumes "pmt_waiting ops P i prog w started cs s" "same_core s ts1" "ts_inv ts1"
  shows "find_pid (pr_pid prog) 0 (ts_progs ts1) = Some (i, None)" "i < length P"
    "pr_es (ts_progs ts1 ! i) = []" "pkts (pr_bufs (ts_progs ts1 ! i))"
    "if started then pr_bufs (ts_progs ts1 ! i) \<noteq> [] \<and> flat (pr_bufs (ts_progs ts1 ! i)) = cs else cs = []"
    "\<And>q. (ts_progs ts1)[i := q] = P[i := q]"
    "ts_progs ts1 ! i = (P ! i)\<lparr>pr_bufs := pr_bufs (ts_progs ts1 ! i)\<rparr>"
proof -
  obtain ll where ll: "ts_progs ts1 = P[i := (P ! i)\<lparr>pr_bufs := ll\<rparr>]"
      "if started then ll \<noteq> [] \<and> flat ll = cs else cs = []"
    using assms(1,2) by (auto simp: pmt_waiting_def same_core_def)
  have t: "find_pid (pr_pid prog) 0 P = Some (i, None)" "pr_es (P ! i) = []"
    using assms(1) by (auto simp: pmt_waiting_def pmt_target_def)
  show i: "i < length P" using find_pid_at [OF t(1)] by simp
  have "pid_keys (ts_progs ts1) = pid_keys P"
    unfolding ll(1) by (rule pid_keys_update) simp_all
  then show "find_pid (pr_pid prog) 0 (ts_progs ts1) = Some (i, None)"
    using t(1) find_pid_cong by metis
  have "prog_inv (ts_progs ts1 ! i)" using ts_inv_prog [OF assms(3), of i] i ll(1) by simp
  then show "pkts (pr_bufs (ts_progs ts1 ! i))" by (simp add: prog_inv_def)
  show "pr_es (ts_progs ts1 ! i) = []"
    "if started then pr_bufs (ts_progs ts1 ! i) \<noteq> [] \<and> flat (pr_bufs (ts_progs ts1 ! i)) = cs else cs = []"
    "\<And>q. (ts_progs ts1)[i := q] = P[i := q]"
    "ts_progs ts1 ! i = (P ! i)\<lparr>pr_bufs := pr_bufs (ts_progs ts1 ! i)\<rparr>"
    using ll t i by simp_all
qed

interpretation pmt: packet_consumer "ts_bytes ops note_call" "with_crc (pmt_section prog)"
  True "section_hdr (pr_pid prog)" "pmt_waiting ops P i prog w" "pmt_finished ops P i prog w"
  for ops :: "'p pool_ops" and P i prog w
proof unfold_locales
  fix xs ys :: bytes and s :: "(unit, ts_note list, 'p) ngx_ts_stream"
  show "ts_bytes ops note_call (xs @ ys) s = (case ts_bytes ops note_call xs s of (rc, s') \<Rightarrow>
      if rc \<noteq> NGX_OK then (rc, s') else ts_bytes ops note_call ys s')"
    by (rule ts_bytes_append)
next
  fix started cs m n g xs and s :: "(unit, ts_note list, 'p) ngx_ts_stream"
  assume w: "pmt_waiting ops P i prog w started cs s" and m: "length m = NGX_TS_PACKET_SIZE"
    "ngx_ts_read_header m = (Inr n, g)" and h: "section_hdr (pr_pid prog) started g"
    and tot: "with_crc (pmt_section prog) = (cs @ drop n m) @ xs" "xs \<noteq> []"
  have rdy: "ready ops s" and tgt: "pmt_target P i prog" using w by (auto simp: pmt_waiting_def)
  note wd = rdy [unfolded ready_def] tgt [unfolded pmt_target_def]
  obtain ts1 b where 1: "same_core s ts1" "ts_inv ts1" "pkt b" "buf_content b = drop n m"
    "ts_bytes ops note_call m s = (case ts_dispatch ops note_call ts1 g b of (rc, t) \<Rightarrow>
       if rc \<noteq> NGX_OK then (NGX_ERROR, t) else (NGX_OK, t\<lparr>ts_buf := None\<rparr>))"
    by (rule feed_ready [OF rdy m])
  note f = pmt_waiting_facts [OF w 1(1,2)]
  have app: "pool_total ops" "h_pusi g \<longleftrightarrow> \<not> started"
    using wd h by (auto simp: section_hdr_def)
  obtain ts' ll where 2: "ngx_ts_append_buf ops ts1 g (pr_bufs (ts_progs ts1 ! i)) (Some b) = (NGX_OK, ts', ll)"
    "ts_inv ts'" "pkts ll" "ll \<noteq> []" "flat ll = cs @ buf_content b" "same_core ts1 ts'"
    "ts_buf ts' = ts_buf ts1"
    by (rule append_in_order [OF app(1) 1(2) f(4) 1(3) f(5) app(2)])
  let ?t = "upd_prog i (\<lambda>pr. pr\<lparr>pr_bufs := ll\<rparr>) ts'"
  have disp: "ts_dispatch ops note_call ts1 g b = (NGX_OK, ?t)"
    using read_pmt_wait [OF f(3) 2(1) pkts_chain_ok [OF 2(3)], of prog xs note_call] wd h 1(4) 2(5) tot f(1)
    by (simp add: ts_dispatch_def section_hdr_def)
  have "ts_progs ?t = P[i := (P ! i)\<lparr>pr_bufs := ll\<rparr>]"
    using 2(6) f(6,7) by (auto simp: upd_prog_def same_core_def) (metis ngx_ts_program.update_convs(7) ngx_ts_program.surjective)
  moreover have "ts_inv ?t"
    using 2(2,3) by (intro ts_inv_upd_prog) (simp_all add: prog_inv_def)
  moreover have "ts_handlers ?t = ts_handlers s" "ts_world ?t = ts_world s"
    using 1(1) 2(6) by (simp_all add: same_core_def upd_prog_def)
  ultimately have "pmt_waiting ops P i prog w True (cs @ drop n m) (?t\<lparr>ts_buf := None\<rparr>)"
    using w 1(4) 2(4,5) unfolding pmt_waiting_def ready_def rd_inv_def by auto
  with disp 1(5) show "\<exists>s'. ts_bytes ops note_call m s = (NGX_OK, s') \<and>
      pmt_waiting ops P i prog w True (cs @ drop n m) s'"
    by simp
next
  fix started cs m n g pad and s :: "(unit, ts_note list, 'p) ngx_ts_stream"
  assume w: "pmt_waiting ops P i prog w started cs s" and m: "length m = NGX_TS_PACKET_SIZE"
    "ngx_ts_read_header m = (Inr n, g)" and h: "section_hdr (pr_pid prog) started g"
    and tot: "cs @ drop n m = with_crc (pmt_section prog) @ pad"
  have rdy: "ready ops s" and tgt: "pmt_target P i prog" using w by (auto simp: pmt_waiting_def)
  note wd = rdy [unfolded ready_def] tgt [unfolded pmt_target_def]
  obtain ts1 b where 1: "same_core s ts1" "ts_inv ts1" "pkt b" "buf_content b = drop n m"
    "ts_bytes ops note_call m s = (case ts_dispatch ops note_call ts1 g b of (rc, t) \<Rightarrow>
       if rc \<noteq> NGX_OK then (NGX_ERROR, t) else (NGX_OK, t\<lparr>ts_buf := None\<rparr>))"
    by (rule feed_ready [OF rdy m])
  note f = pmt_waiting_facts [OF w 1(1,2)]
  have app: "pool_total ops" "h_pusi g \<longleftrightarrow> \<not> started"
    using wd h by (auto simp: section_hdr_def)
  obtain ts' ll where 2: "ngx_ts_append_buf ops ts1 g (pr_bufs (ts_progs ts1 ! i)) (Some b) = (NGX_OK, ts', ll)"
    "ts_inv ts'" "pkts ll" "ll \<noteq> []" "flat ll = cs @ buf_content b" "same_core ts1 ts'"
    "ts_buf ts' = ts_buf ts1"
    by (rule append_in_order [OF app(1) 1(2) f(4) 1(3) f(5) app(2)])
  obtain pool mem where al: "p_alloc ops (ts_pool ts') (length (pr_es prog) * 40) = Some (pool, mem)"
    using app(1) pool_totalE by metis
  let ?t = "ts'\<lparr>ts_pool := pool, ts_progs := P[i := seen_pmt prog [] (P ! i)], ts_world := w @ [pmt_note i],
      ts_free := ll @ ts_free ts'\<rparr>"
  have hs: "ts_handlers ts' = [()]" "ts_world ts' = w" "ts_progs ts' = ts_progs ts1"
    using wd w 1(1) 2(6) by (simp_all add: same_core_def pmt_waiting_def)
  have P1: "(ts_progs ts1)[i := seen_pmt prog ll (ts_progs ts1 ! i)] = P[i := seen_pmt prog ll (P ! i)]"
    unfolding f(6) by (subst f(7)) (simp add: seen_pmt_def)
  have disp: "ts_dispatch ops note_call ts1 g b = (NGX_OK, ?t)"
  proof -
    have "ts_dispatch ops note_call ts1 g b = ngx_ts_read_pmt ops note_call ts1 i g b"
      using h f(1) wd by (simp add: ts_dispatch_def section_hdr_def)
    also have "\<dots> = (NGX_OK, ?t)"
      using read_pmt_done [OF f(3) 2(1) pkts_chain_ok [OF 2(3)] _ _ al, of pad note_call] wd 1(4) 2(5) tot hs P1 f(2)
      by (simp add: run_note upd_prog_def pmt_note_def)
    finally show ?thesis .
  qed
  have "list_all prog_inv P'" if "P' = P[i := seen_pmt prog [] (P ! i)]" for P'
  proof -
    have "list_all prog_inv (ts_progs ts1)" using 1(2) by (simp add: ts_inv_def)
    moreover have "prog_inv (seen_pmt prog [] (P ! i))"
      by (auto simp: prog_inv_def seen_pmt_def seen_es_def zero_es_def es_inv_def list_all_iff)
    ultimately show ?thesis
      unfolding that f(6) [symmetric]
      using set_update_subset_insert [of "ts_progs ts1" i "seen_pmt prog [] (P ! i)"]
      by (auto simp: list_all_iff)
  qed
  then have "pmt_finished ops P i prog w (?t\<lparr>ts_buf := None\<rparr>)"
    using wd 2(2) hs(1) pkts_packet_bufs [OF 2(3)]
    by (simp add: pmt_finished_def ready_def rd_inv_def ts_inv_def)
  with disp 1(5) show "\<exists>s'. ts_bytes ops note_call m s = (NGX_OK, s') \<and> pmt_finished ops P i prog w s'"
    by simp
qed


section \<open>A packetized elementary stream\<close>

definition pes_target :: "ngx_ts_es \<Rightarrow> chain \<Rightarrow> bytes \<Rightarrow> bool" where
  "pes_target e bufs payload \<longleftrightarrow> stamped e \<and> es_pid e \<noteq> 0 \<and> chain_size bufs = length payload \<and>
     pes_len e (length payload) \<le> 0xffff"

definition pes_waiting ::
    "'p pool_ops \<Rightarrow> (u16 \<times> u16 list) list \<Rightarrow> nat \<Rightarrow> nat \<Rightarrow> ngx_ts_es \<Rightarrow> chain \<Rightarrow> bytes \<Rightarrow>
     ts_note list \<Rightarrow> bool \<Rightarrow> bytes \<Rightarrow> (unit, ts_note list, 'p) ngx_ts_stream \<Rightarrow> bool" where
  "pes_waiting ops K i j e bufs payload w started cs ts \<longleftrightarrow> ready ops ts \<and> pes_target e bufs payload \<and>
     ts_world ts = w \<and> pid_keys (ts_progs ts) = K \<and>
     find_pid (es_pid e) 0 (ts_progs ts) = Some (i, Some j) \<and>
     (if started then es_bufs (the_es ts i j) \<noteq> [] \<and> flat (es_bufs (the_es ts i j)) = cs
      else es_bufs (the_es ts i j) = [] \<and> cs = [])"

definition pes_note_of :: "nat \<Rightarrow> nat \<Rightarrow> ngx_ts_es \<Rightarrow> bytes \<Rightarrow> ts_note" where
  "pes_note_of i j e payload = \<lparr>n_event = NGX_TS_PES, n_prog = Some i, n_es = Some j,
     n_pts = es_pts e, n_dts = es_dts e, n_bytes = payload\<rparr>"

definition pes_finished ::
    "'p pool_ops \<Rightarrow> (u16 \<times> u16 list) list \<Rightarrow> nat \<Rightarrow> nat \<Rightarrow> ngx_ts_es \<Rightarrow> bytes \<Rightarrow> ts_note list \<Rightarrow>
     (unit, ts_note list, 'p) ngx_ts_stream \<Rightarrow> bool" where
  "pes_finished ops K i j e payload w ts \<longleftrightarrow> ready ops ts \<and> ts_world ts = w @ [pes_note_of i j e payload] \<and>
     pid_keys (ts_progs ts) = K \<and> es_bufs (the_es ts i j) = [] \<and> es_sid (the_es ts i j) = es_sid e \<and>
     es_pts (the_es ts i j) = es_pts e \<and> es_dts (the_es ts i j) = es_dts e \<and> es_ptsf (the_es ts i j)"

lemma pid_keys_upd_prog:
  assumes "\<And>p. pr_pid (f p) = pr_pid p" "\<And>p. map es_pid (pr_es (f p)) = map es_pid (pr_es p)"
  shows "pid_keys (ts_progs (upd_prog i f ts)) = pid_keys (ts_progs ts)"
  unfolding upd_prog_def using assms by (simp add: pid_keys_update)

lemma pid_keys_upd_es:
  assumes "\<And>e. es_pid (f e) = es_pid e"
  shows "pid_keys (ts_progs (upd_es i j f ts)) = pid_keys (ts_progs ts)"
  unfolding upd_es_def
proof (rule pid_keys_upd_prog)
  fix p
  show "map es_pid (pr_es (p\<lparr>pr_es := (pr_es p)[j := f (pr_es p ! j)]\<rparr>)) = map es_pid (pr_es p)"
    using assms by (cases "j < length (pr_es p)")
      (auto simp: map_update not_less list_update_beyond intro: list_update_same_conv [THEN iffD2])
qed simp

lemma upd_core [simp]:
  "ts_handlers (upd_prog i f ts) = ts_handlers ts" "ts_world (upd_prog i f ts) = ts_world ts"
  "ts_buf (upd_prog i f ts) = ts_buf ts" "ts_bufs (upd_prog i f ts) = ts_bufs ts"
  "ts_free (upd_prog i f ts) = ts_free ts"
  "ts_handlers (upd_es i j g ts) = ts_handlers ts" "ts_world (upd_es i j g ts) = ts_world ts"
  "ts_buf (upd_es i j g ts) = ts_buf ts" "ts_bufs (upd_es i j g ts) = ts_bufs ts"
  "ts_free (upd_es i j g ts) = ts_free ts"
  by (simp_all add: upd_prog_def upd_es_def)

lemma the_es_upd_prog [simp]:
  "(\<And>p. pr_es (f p) = pr_es p) \<Longrightarrow> the_es (upd_prog i f ts) i j = the_es ts i j"
  "(\<And>p. pr_es (f p) = pr_es p) \<Longrightarrow> es_at (upd_prog i f ts) i j \<longleftrightarrow> es_at ts i j"
  by (cases "i < length (ts_progs ts)";
      simp add: upd_prog_def es_at_def not_less list_update_beyond)+

lemma pes_note_facts:
  assumes "es_at ts i j"
  shows "es_bufs (the_es (pes_note ts i j h) i j) = es_bufs (the_es ts i j)"
    "pid_keys (ts_progs (pes_note ts i j h)) = pid_keys (ts_progs ts)"
    "ts_handlers (pes_note ts i j h) = ts_handlers ts" "ts_world (pes_note ts i j h) = ts_world ts"
    "ts_buf (pes_note ts i j h) = ts_buf ts" "es_at (pes_note ts i j h) i j"
  using assms
  by (simp_all add: pes_note_def Let_def pid_keys_upd_prog pid_keys_upd_es)


lemma pes_packet:
  assumes w: "pes_waiting ops K i j e bufs payload w started cs s" and m: "length m = NGX_TS_PACKET_SIZE"
    "ngx_ts_read_header m = (Inr n, g)" and h: "section_hdr (es_pid e) started g"
  obtains ts1 ts' b ll where
    "ngx_ts_append_buf ops (pes_note ts1 i j g) g (es_bufs (the_es (pes_note ts1 i j g) i j)) (Some b)
      = (NGX_OK, ts', ll)"
    "ts_inv ts'" "pkts ll" "ll \<noteq> []" "flat ll = cs @ drop n m" "es_at ts' i j"
    "ts_handlers ts' = [()]" "ts_world ts' = w" "pid_keys (ts_progs ts') = K"
    "ts_bytes ops note_call m s = (case read_pes_body ops note_call ts1 i j g (Some b) of (rc, t) \<Rightarrow>
       if rc \<noteq> NGX_OK then (NGX_ERROR, t) else (NGX_OK, t\<lparr>ts_buf := None\<rparr>))"
proof -
  have rdy: "ready ops s" and tgt: "pes_target e bufs payload"
    and find: "find_pid (es_pid e) 0 (ts_progs s) = Some (i, Some j)"
    using w by (auto simp: pes_waiting_def)
  obtain ts1 b where 1: "same_core s ts1" "ts_inv ts1" "pkt b" "buf_content b = drop n m"
    "ts_bytes ops note_call m s = (case ts_dispatch ops note_call ts1 g b of (rc, t) \<Rightarrow>
       if rc \<noteq> NGX_OK then (NGX_ERROR, t) else (NGX_OK, t\<lparr>ts_buf := None\<rparr>))"
    by (rule feed_ready [OF rdy m])
  have prog: "ts_progs ts1 = ts_progs s" using 1(1) by (simp add: same_core_def)
  have at: "es_at ts1 i j" using find_pid_at [OF find] prog by (auto simp: es_at_def)
  let ?n = "pes_note ts1 i j g"
  note nf = pes_note_facts [OF at, of g]
  have app: "pool_total ops" "h_pusi g \<longleftrightarrow> \<not> started"
    "if started then es_bufs (the_es ?n i j) \<noteq> [] \<and> flat (es_bufs (the_es ?n i j)) = cs else cs = []"
    using w h prog nf(1) by (auto simp: section_hdr_def pes_waiting_def ready_def)
  have inv: "ts_inv ?n" "pkts (es_bufs (the_es ?n i j))"
    using pes_note_inv [OF 1(2)] ts_inv_es [OF 1(2) at] nf(1) by (simp_all add: es_inv_def)
  obtain ts' ll where 2: "ngx_ts_append_buf ops ?n g (es_bufs (the_es ?n i j)) (Some b) = (NGX_OK, ts', ll)"
    "ts_inv ts'" "pkts ll" "ll \<noteq> []" "flat ll = cs @ buf_content b" "same_core ?n ts'"
    "ts_buf ts' = ts_buf ?n"
    by (rule append_in_order [OF app(1) inv 1(3) app(3,2)])
  have "ts_dispatch ops note_call ts1 g b = ngx_ts_read_pes ops note_call ts1 i j g (Some b)"
    using h find tgt prog by (simp add: ts_dispatch_def section_hdr_def pes_target_def)
  also have "\<dots> = read_pes_body ops note_call ts1 i j g (Some b)"
    using w prog app(2) by (auto simp: ngx_ts_read_pes_def pes_waiting_def)
  finally have disp: "ts_dispatch ops note_call ts1 g b = read_pes_body ops note_call ts1 i j g (Some b)" .
  have "ts_handlers ts1 = [()]" "ts_world ts1 = w" "pid_keys (ts_progs ts1) = K"
    using w 1(1) by (auto simp: same_core_def pes_waiting_def ready_def)
  then show thesis
    using 1(4,5) 2 nf disp by (intro that [of ts1 b ts' ll]) (auto simp: same_core_def es_at_def)
qed

interpretation pes: packet_consumer "ts_bytes ops note_call" "pes_header e bufs @ payload"
  False "section_hdr (es_pid e)" "pes_waiting ops K i j e bufs payload w"
  "pes_finished ops K i j e payload w"
  for ops :: "'p pool_ops" and K i j e bufs payload w
proof unfold_locales
  fix xs ys :: bytes and s :: "(unit, ts_note list, 'p) ngx_ts_stream"
  show "ts_bytes ops note_call (xs @ ys) s = (case ts_bytes ops note_call xs s of (rc, s') \<Rightarrow>
      if rc \<noteq> NGX_OK then (rc, s') else ts_bytes ops note_call ys s')"
    by (rule ts_bytes_append)
next
  fix started cs m n g xs and s :: "(unit, ts_note list, 'p) ngx_ts_stream"
  assume w: "pes_waiting ops K i j e bufs payload w started cs s" and m: "length m = NGX_TS_PACKET_SIZE"
    "ngx_ts_read_header m = (Inr n, g)" and h: "section_hdr (es_pid e) started g"
    and tot: "pes_header e bufs @ payload = (cs @ drop n m) @ xs" "xs \<noteq> []"
  obtain ts1 ts' b ll where p:
    "ngx_ts_append_buf ops (pes_note ts1 i j g) g (es_bufs (the_es (pes_note ts1 i j g) i j)) (Some b)
      = (NGX_OK, ts', ll)"
    "ts_inv ts'" "pkts ll" "ll \<noteq> []" "flat ll = cs @ drop n m" "es_at ts' i j"
    "ts_handlers ts' = [()]" "ts_world ts' = w" "pid_keys (ts_progs ts') = K"
    "ts_bytes ops note_call m s = (case read_pes_body ops note_call ts1 i j g (Some b) of (rc, t) \<Rightarrow>
       if rc \<noteq> NGX_OK then (NGX_ERROR, t) else (NGX_OK, t\<lparr>ts_buf := None\<rparr>))"
    by (rule pes_packet [OF w m h])
  have tgt: "pes_target e bufs payload" and rdy: "pool_total ops"
    and find: "find_pid (es_pid e) 0 (ts_progs s) = Some (i, Some j)" "pid_keys (ts_progs s) = K"
    using w by (auto simp: pes_waiting_def ready_def)
  have "chain_size bufs = length payload" using tgt by (simp add: pes_target_def)
  from read_pes_wait [OF p(1) pkts_chain_ok [OF p(3)] p(6) this, of xs e note_call] tot p(5)
  obtain sid where body: "read_pes_body ops note_call ts1 i j g (Some b)
      = (NGX_OK, upd_es i j (\<lambda>es. es\<lparr>es_bufs := ll, es_sid := sid\<rparr>) ts')" by auto
  let ?t = "upd_es i j (\<lambda>es. es\<lparr>es_bufs := ll, es_sid := sid\<rparr>) ts'"
  have keys: "pid_keys (ts_progs ?t) = K" using p(9) by (simp add: pid_keys_upd_es)
  then have "find_pid (es_pid e) 0 (ts_progs ?t) = Some (i, Some j)"
    using find find_pid_cong by metis
  moreover have "ts_inv ?t" using p(2) by (rule ts_inv_upd_es) (use p(3) in \<open>simp add: es_inv_def\<close>)
  ultimately have "pes_waiting ops K i j e bufs payload w True (cs @ drop n m) (?t\<lparr>ts_buf := None\<rparr>)"
    using p tgt rdy keys by (simp add: pes_waiting_def ready_def rd_inv_def)
  with body p(10) show "\<exists>s'. ts_bytes ops note_call m s = (NGX_OK, s') \<and>
      pes_waiting ops K i j e bufs payload w True (cs @ drop n m) s'"
    by simp
next
  fix started cs m n g and pad :: bytes and s :: "(unit, ts_note list, 'p) ngx_ts_stream"
  assume w: "pes_waiting ops K i j e bufs payload w started cs s" and m: "length m = NGX_TS_PACKET_SIZE"
    "ngx_ts_read_header m = (Inr n, g)" and h: "section_hdr (es_pid e) started g"
    and tot: "cs @ drop n m = (pes_header e bufs @ payload) @ pad" "False \<or> pad = []"
  obtain ts1 ts' b ll where p:
    "ngx_ts_append_buf ops (pes_note ts1 i j g) g (es_bufs (the_es (pes_note ts1 i j g) i j)) (Some b)
      = (NGX_OK, ts', ll)"
    "ts_inv ts'" "pkts ll" "ll \<noteq> []" "flat ll = cs @ drop n m" "es_at ts' i j"
    "ts_handlers ts' = [()]" "ts_world ts' = w" "pid_keys (ts_progs ts') = K"
    "ts_bytes ops note_call m s = (case read_pes_body ops note_call ts1 i j g (Some b) of (rc, t) \<Rightarrow>
       if rc \<noteq> NGX_OK then (NGX_ERROR, t) else (NGX_OK, t\<lparr>ts_buf := None\<rparr>))"
    by (rule pes_packet [OF w m h])
  have tgt: "pes_target e bufs payload" and rdy: "pool_total ops"
    using w by (auto simp: pes_waiting_def ready_def)
  have fl: "flat ll = pes_header e bufs @ payload" using p(5) tot by simp
  have tg: "stamped e" "chain_size bufs = length payload"
    "Some b = None \<or> pes_len e (length payload) \<le> 0xffff"
    using tgt by (simp_all add: pes_target_def)
  obtain dl bl where d: "flat dl = payload" "map b_mem bl = map b_mem ll"
    "read_pes_body ops note_call ts1 i j g (Some b) =
      (case ngx_ts_run_handlers note_call NGX_TS_PES
          (upd_es i j (\<lambda>es. es\<lparr>es_sid := es_sid e, es_pts := es_pts e, es_dts := es_dts e,
             es_bufs := bl, es_ptsf := True\<rparr>) ts') (Some i) (Some j) dl of (rc, ts) \<Rightarrow>
         if rc \<noteq> NGX_OK then (NGX_ERROR, ts)
         else (NGX_OK, upd_es i j (\<lambda>es. es\<lparr>es_bufs := []\<rparr>)
                (ts\<lparr>ts_free := es_bufs (the_es ts i j) @ ts_free ts\<rparr>)))"
    by (rule read_pes_written [OF p(1) pkts_chain_ok [OF p(3)] p(6) tg(1) fl tg(2,3)])
  let ?u = "upd_es i j (\<lambda>es. es\<lparr>es_sid := es_sid e, es_pts := es_pts e, es_dts := es_dts e,
             es_bufs := bl, es_ptsf := True\<rparr>) ts'"
  let ?v = "?u\<lparr>ts_world := w @ [pes_note_of i j e payload], ts_free := bl @ ts_free ts'\<rparr>"
  have at: "es_at ?v i j" using p(6) by (simp add: es_at_def upd_es_def upd_prog_def nth_list_update)
  have vu: "the_es ?v i j = the_es ?u i j" by simp
  have body: "read_pes_body ops note_call ts1 i j g (Some b)
      = (NGX_OK, upd_es i j (\<lambda>es. es\<lparr>es_bufs := []\<rparr>) ?v)"
    using d(1,3) p(6-8) by (simp add: run_note pes_note_of_def)
  have "packet_bufs ll = packet_bufs bl"
    using d(2) by (simp add: packet_bufs_def list_all_iff) (metis (no_types, lifting) image_iff list.set_map)
  then have free: "packet_bufs (bl @ ts_free ts')"
    using pkts_packet_bufs [OF p(3)] p(2) by (simp add: ts_inv_def)
  have inv: "ts_inv (upd_es i j (\<lambda>es. es\<lparr>es_bufs := []\<rparr>) ?v)"
  proof -
    have "ts_inv (upd_es i j (\<lambda>es. es\<lparr>es_sid := es_sid e, es_pts := es_pts e, es_dts := es_dts e,
        es_ptsf := True, es_bufs := []\<rparr>) ts')"
      using p(2) by (rule ts_inv_upd_es) (simp add: es_inv_def)
    moreover have "ts_progs (upd_es i j (\<lambda>es. es\<lparr>es_bufs := []\<rparr>) ?v)
        = ts_progs (upd_es i j (\<lambda>es. es\<lparr>es_sid := es_sid e, es_pts := es_pts e, es_dts := es_dts e,
        es_ptsf := True, es_bufs := []\<rparr>) ts')"
      using p(6) by (simp add: upd_es_def upd_prog_def es_at_def)
    ultimately show ?thesis using free by (simp add: ts_inv_def)
  qed
  have keys: "pid_keys (ts_progs (upd_es i j (\<lambda>es. es\<lparr>es_bufs := []\<rparr>) ?v)) = K"
    using p(9) by (simp add: pid_keys_upd_es)
  have "pes_finished ops K i j e payload w ((upd_es i j (\<lambda>es. es\<lparr>es_bufs := []\<rparr>) ?v)\<lparr>ts_buf := None\<rparr>)"
    using inv keys rdy p(6,7) at by (simp add: pes_finished_def ready_def rd_inv_def)
  with body p(10) show "\<exists>s'. ts_bytes ops note_call m s = (NGX_OK, s') \<and> pes_finished ops K i j e payload w s'"
    by simp
qed


section \<open>From the writer to the reader\<close>

lemma packets_ok_payload:
  "packets_ok h first out \<Longrightarrow> i < length out \<Longrightarrow> \<not> isl (fst (ngx_ts_read_header (b_mem (out ! i))))"
  by (induction h first out arbitrary: i rule: packets_ok.induct) (auto simp: nth_Cons split: nat.splits)

lemma packets_ok_hdr:
  assumes "packets_ok h True out" "header_ok h" "i < length out"
  shows "length (b_mem (out ! i)) = NGX_TS_PACKET_SIZE \<and>
    (\<exists>n g. ngx_ts_read_header (b_mem (out ! i)) = (Inr n, g) \<and> section_hdr (h_pid h) (0 < i) g)"
proof -
  obtain r g where r: "ngx_ts_read_header (b_mem (out ! i)) = (r, g)" by (metis prod.exhaust)
  then obtain n where rd: "ngx_ts_read_header (b_mem (out ! i)) = (Inr n, g)"
    using packets_ok_payload [OF assms(1,3)] by (cases r) auto
  with packets_ok_nth [OF assms] packets_ok_size [OF assms(1,3)] show ?thesis
    by (auto simp: section_hdr_def)
qed


lemma packetize_fed:
  assumes "pool_total ops" "packet_bufs (ts_free ts)" "header_ok h" "solid inn" "inn \<noteq> []"
    and "length (flat inn) \<le> fuel"
  obtains ts' h' out j where "ngx_ts_packetize fuel ops ts h inn = Some (ts', h', Some out)" "out \<noteq> []"
    "\<And>i. i < length (map b_mem out) \<Longrightarrow> length (map b_mem out ! i) = NGX_TS_PACKET_SIZE \<and>
      (\<exists>n g. ngx_ts_read_header (map b_mem out ! i) = (Inr n, g) \<and> section_hdr (h_pid h) (0 < i) g)"
    "concat (map ts_payload (map b_mem out)) = flat inn @ replicate j 0xff" "h_stuff h \<longrightarrow> j = 0"
    "length (replicate j (0xff :: byte)) < length (ts_payload (last (map b_mem out)))"
proof -
  have "chain_size inn = length (rest_at inn (first_pos inn))"
    using chain_size_flat [OF solid_chain_ok [OF assms(4)]] by simp
  moreover have "length (rest_at inn (first_pos inn)) \<le> fuel" using assms(6) by simp
  moreover note packetize_loop_spec [OF assms(1,2,3) solid_at_first [OF assms(4,5)], of fuel True]
  ultimately obtain ts' h' out j where
    o: "ngx_ts_packetize fuel ops ts h inn = Some (ts', h', Some out)" "packets_ok h True out" "out \<noteq> []"
    "concat (map (\<lambda>b. ts_payload (b_mem b)) out) = flat inn @ replicate j 0xff" "h_stuff h \<longrightarrow> j = 0"
    "j < length (ts_payload (b_mem (last out)))"
    by (auto simp: ngx_ts_packetize_def)
  then show thesis
    using packets_ok_hdr [OF o(2) assms(3)]
    by (intro that [of ts' h' out j]) (simp_all add: o_def last_map)
qed

text \<open>The reader run on any chain with the bytes of the packets.\<close>

lemma read_any_chain:
  assumes "ts_bytes ops note_call bs ts = (NGX_OK, t)" "ready ops ts" "chain_ok inn" "flat inn = bs"
  shows "\<exists>inn'. ngx_ts_read (Suc (length bs)) ops note_call ts inn = Some (NGX_OK, t, inn')"
proof -
  have "pool_ok ops" "rd_inv ts" using assms(2) by (simp_all add: ready_def pool_total_def)
  from read_chain_bytes [OF this(1) handlers_ok_note this(2) assms(3), of "Suc (length bs)"] assms(1,4)
  show ?thesis by simp
qed

lemma solid_whole_buf: "m \<noteq> [] \<Longrightarrow> solid [whole_buf m]"
  by (simp add: whole_buf_def buf_ok_def)

section \<open>Properties\<close>

text \<open>
  C27: an association table of at most 253 programs, written by \<open>ngx_ts_write_pat\<close> and read by
  \<open>ngx_ts_read\<close> from chains cut in any way, gives the reader the written programs with a non-zero
  number, in order, with their 13-bit identifiers, and calls the handlers once.
\<close>

theorem pat_roundtrip:
  assumes "pool_total wops" "packet_bufs (ts_free wts)" "length (ts_progs wts) \<le> 253" "1030 \<le> fuel"
    and "ready rops ts" "ts_progs ts = []"
  shows "\<exists>wts' out. ngx_ts_write_pat fuel wops wts None = Some (wts', Some out) \<and>
    (\<forall>inn. chain_ok inn \<and> flat inn = concat (map b_mem out) \<longrightarrow>
      (\<exists>ts' inn'. ngx_ts_read (Suc (length (flat inn))) rops note_call ts inn = Some (NGX_OK, ts', inn') \<and>
         ts_progs ts' = map seen_program (filter (\<lambda>p. pr_number p \<noteq> 0) (ts_progs wts)) \<and>
         ts_world ts' = ts_world ts @ [pat_note] \<and> ready rops ts'))"
proof -
  let ?ps = "ts_progs wts"
  let ?sec = "with_crc (pat_section ?ps)"
  obtain p m where al: "p_alloc wops (ts_pool wts) (4 + (9 + length ?ps * 4)) = Some (p, m)"
    using assms(1) by (rule pool_totalE)
  have pre: "packet_bufs (ts_free (wts\<lparr>ts_pool := p\<rparr>))" "header_ok zero_header" "solid [whole_buf ?sec]"
    "[whole_buf ?sec] \<noteq> []" "length (flat [whole_buf ?sec]) \<le> fuel"
    using assms(2-4) by (simp_all add: header_ok_def zero_header_def whole_buf_def buf_ok_def buf_content_def
        with_crc_def crc32_bytes_def)
  obtain wts' h' out j where
    w: "ngx_ts_packetize fuel wops (wts\<lparr>ts_pool := p\<rparr>) zero_header [whole_buf ?sec] = Some (wts', h', Some out)"
    "out \<noteq> []"
    "\<And>i. i < length (map b_mem out) \<Longrightarrow> length (map b_mem out ! i) = NGX_TS_PACKET_SIZE \<and>
      (\<exists>n g. ngx_ts_read_header (map b_mem out ! i) = (Inr n, g) \<and> section_hdr (h_pid zero_header) (0 < i) g)"
    "concat (map ts_payload (map b_mem out)) = flat [whole_buf ?sec] @ replicate j 0xff"
    "h_stuff zero_header \<longrightarrow> j = 0"
    "length (replicate j (0xff :: byte)) < length (ts_payload (last (map b_mem out)))"
    by (rule packetize_fed [OF assms(1) pre]) blast
  have wr: "ngx_ts_write_pat fuel wops wts None = Some (wts', Some out)"
    using al w(1) by (simp add: ngx_ts_write_pat_def)
  have wait: "pat_waiting rops ?ps (ts_world ts) False [] ts"
    using assms(3,5,6) by (simp add: pat_waiting_def)
  have "\<exists>t. ts_bytes rops note_call (concat (map b_mem out)) ts = (NGX_OK, t)
      \<and> pat_finished rops ?ps (ts_world ts) t"
    using pat.feed_all [OF wait, of "map b_mem out" "replicate j 0xff"] w(2-4,6)
    by (simp add: zero_header_def)
  with wr read_any_chain [OF _ assms(5)] show ?thesis
    by (fastforce simp: pat_finished_def)
qed

theorem pat_roundtrip_witness:
  "\<exists>wts' out. ngx_ts_write_pat 1030 unit_pool
      ((zero_ts () () :: (unit, unit, unit) ngx_ts_stream)\<lparr>ts_progs := [zero_program\<lparr>pr_number := 1, pr_pid := 0x1000\<rparr>]\<rparr>)
      None = Some (wts', Some out) \<and>
    (\<forall>inn. chain_ok inn \<and> flat inn = concat (map b_mem out) \<longrightarrow>
      (\<exists>ts' inn'. ngx_ts_read (Suc (length (flat inn))) unit_pool note_call
           ((zero_ts () [])\<lparr>ts_handlers := [()]\<rparr>) inn = Some (NGX_OK, ts', inn') \<and>
         map (\<lambda>p. (pr_number p, pr_pid p)) (ts_progs ts') = [(1, 0x1000)]))"
  using pat_roundtrip [of unit_pool
      "(zero_ts () () :: (unit, unit, unit) ngx_ts_stream)\<lparr>ts_progs := [zero_program\<lparr>pr_number := 1, pr_pid := 0x1000\<rparr>]\<rparr>"
      1030 unit_pool "(zero_ts () [])\<lparr>ts_handlers := [()]\<rparr>"]
  by (fastforce simp: zero_ts_def ready_def rd_inv_def ts_inv_def seen_program_def zero_program_def)

text \<open>
  C23: a map table of at most 201 streams, written by \<open>ngx_ts_write_pmt\<close> and read from chains cut in
  any way by a reader that knows the program and has not seen its map, gives the program the clock
  identifier and the streams with their types, identifiers and video flags, and calls the handlers
  once.
\<close>

theorem pmt_roundtrip:
  assumes "pool_total wops" "packet_bufs (ts_free wts)" "unat (pr_pid prog) < 2 ^ 13" "1030 \<le> fuel"
    and "ready rops ts" "pmt_target (ts_progs ts) i prog"
  shows "\<exists>wts' out. ngx_ts_write_pmt fuel wops wts prog = Some (wts', Some out) \<and>
    (\<forall>inn. chain_ok inn \<and> flat inn = concat (map b_mem out) \<longrightarrow>
      (\<exists>ts' inn'. ngx_ts_read (Suc (length (flat inn))) rops note_call ts inn = Some (NGX_OK, ts', inn') \<and>
         ts_progs ts' = (ts_progs ts)[i := seen_pmt prog [] (ts_progs ts ! i)] \<and>
         ts_world ts' = ts_world ts @ [pmt_note i] \<and> ready rops ts'))"
proof -
  let ?sec = "with_crc (pmt_section prog)"
  let ?h = "zero_header\<lparr>h_pid := pr_pid prog\<rparr>"
  obtain p m where al: "p_alloc wops (ts_pool wts) (4 + (13 + 5 * length (pr_es prog))) = Some (p, m)"
    using assms(1) by (rule pool_totalE)
  have "length (pr_es prog) \<le> 201" using assms(6) by (simp add: pmt_target_def)
  then have pre: "packet_bufs (ts_free (wts\<lparr>ts_pool := p\<rparr>))" "header_ok ?h" "solid [whole_buf ?sec]"
    "[whole_buf ?sec] \<noteq> []" "length (flat [whole_buf ?sec]) \<le> fuel"
    using assms(2-4) by (simp_all add: header_ok_def zero_header_def whole_buf_def buf_ok_def buf_content_def
        with_crc_def crc32_bytes_def)
  obtain wts' h' out j where
    w: "ngx_ts_packetize fuel wops (wts\<lparr>ts_pool := p\<rparr>) ?h [whole_buf ?sec] = Some (wts', h', Some out)"
    "out \<noteq> []"
    "\<And>i. i < length (map b_mem out) \<Longrightarrow> length (map b_mem out ! i) = NGX_TS_PACKET_SIZE \<and>
      (\<exists>n g. ngx_ts_read_header (map b_mem out ! i) = (Inr n, g) \<and> section_hdr (h_pid ?h) (0 < i) g)"
    "concat (map ts_payload (map b_mem out)) = flat [whole_buf ?sec] @ replicate j 0xff"
    "h_stuff ?h \<longrightarrow> j = 0"
    "length (replicate j (0xff :: byte)) < length (ts_payload (last (map b_mem out)))"
    by (rule packetize_fed [OF assms(1) pre]) blast
  have wr: "ngx_ts_write_pmt fuel wops wts prog = Some (wts', Some out)"
    using al w(1) by (simp add: ngx_ts_write_pmt_def)
  have "\<exists>ll. ts_progs ts = (ts_progs ts)[i := (ts_progs ts ! i)\<lparr>pr_bufs := ll\<rparr>]"
    by (rule exI [of _ "pr_bufs (ts_progs ts ! i)"]) simp
  then have wait: "pmt_waiting rops (ts_progs ts) i prog (ts_world ts) False [] ts"
    using assms(5,6) by (simp add: pmt_waiting_def)
  have "\<exists>t. ts_bytes rops note_call (concat (map b_mem out)) ts = (NGX_OK, t)
      \<and> pmt_finished rops (ts_progs ts) i prog (ts_world ts) t"
    using pmt.feed_all [OF wait, of "map b_mem out" "replicate j 0xff"] w(2-4,6)
    by simp
  with wr read_any_chain [OF _ assms(5)] show ?thesis
    by (fastforce simp: pmt_finished_def)
qed

theorem pmt_roundtrip_witness:
  "\<exists>wts' out. ngx_ts_write_pmt 1030 unit_pool (zero_ts () () :: (unit, unit, unit) ngx_ts_stream)
      (zero_program\<lparr>pr_pid := 0x1000, pr_pcr_pid := 0x100,
         pr_es := [zero_es\<lparr>es_type := NGX_TS_VIDEO_AVC, es_pid := 0x100\<rparr>]\<rparr>) = Some (wts', Some out) \<and>
    (\<forall>inn. chain_ok inn \<and> flat inn = concat (map b_mem out) \<longrightarrow>
      (\<exists>ts' inn'. ngx_ts_read (Suc (length (flat inn))) unit_pool note_call
           ((zero_ts () [])\<lparr>ts_handlers := [()], ts_progs := [zero_program\<lparr>pr_pid := 0x1000\<rparr>]\<rparr>) inn
             = Some (NGX_OK, ts', inn') \<and>
         map es_pid (pr_es (ts_progs ts' ! 0)) = [0x100] \<and> pr_video (ts_progs ts' ! 0)))"
  using pmt_roundtrip [of unit_pool "zero_ts () () :: (unit, unit, unit) ngx_ts_stream"
      "zero_program\<lparr>pr_pid := 0x1000, pr_pcr_pid := 0x100,
         pr_es := [zero_es\<lparr>es_type := NGX_TS_VIDEO_AVC, es_pid := 0x100\<rparr>]\<rparr>"
      1030 unit_pool "(zero_ts () [])\<lparr>ts_handlers := [()], ts_progs := [zero_program\<lparr>pr_pid := 0x1000\<rparr>]\<rparr>" 0]
  by (fastforce simp: zero_ts_def ready_def rd_inv_def ts_inv_def seen_pmt_def seen_es_def zero_program_def
      zero_es_def pmt_target_def prog_inv_def ngx_ts_video_type_def)

text \<open>
  C1: a packet of an elementary stream with at most 65535 bytes behind its length field, written by
  \<open>ngx_ts_write_pes\<close> and read from chains cut in any way by a reader that knows the stream and has no
  packet of it half read, reaches the handlers once, with the payload byte for byte and both 33-bit
  time stamps.
\<close>

theorem pes_roundtrip:
  assumes "pool_total wops" "packet_bufs (ts_free wts)" "solid bufs" "pes_target e bufs (flat bufs)"
    and "unat (es_pid e) < 2 ^ 13" "unat (es_cont e) < 16"
    and "pr_pcr_pid prog = es_pid e \<longrightarrow> pcr_range (pr_pcr prog)" "65541 \<le> fuel"
    and "ready rops ts" "find_pid (es_pid e) 0 (ts_progs ts) = Some (i, Some j)"
    and "es_bufs (the_es ts i j) = []"
  shows "\<exists>wts' e' out. ngx_ts_write_pes fuel wops wts prog e bufs = Some (wts', e', Some out) \<and>
    (\<forall>inn. chain_ok inn \<and> flat inn = concat (map b_mem out) \<longrightarrow>
      (\<exists>ts' inn'. ngx_ts_read (Suc (length (flat inn))) rops note_call ts inn = Some (NGX_OK, ts', inn') \<and>
         ts_world ts' = ts_world ts @ [pes_note_of i j e (flat bufs)] \<and>
         es_pts (the_es ts' i j) = es_pts e \<and> es_dts (the_es ts' i j) = es_dts e \<and>
         es_bufs (the_es ts' i j) = [] \<and> ready rops ts'))"
proof -
  let ?h0 = "zero_header\<lparr>h_pid := es_pid e, h_rand := es_rand e, h_cont := es_cont e, h_stuff := True\<rparr>"
  define h where "h = (if pr_pcr_pid prog = es_pid e then ?h0\<lparr>h_pcrf := True, h_pcr := pr_pcr prog\<rparr> else ?h0)"
  let ?inn = "whole_buf (pes_header e bufs) # bufs"
  have h: "h_pid h = es_pid e" "h_stuff h" "header_ok h"
    using assms(5-7) by (simp_all add: h_def header_ok_def zero_header_def)
  have ne: "pes_header e bufs \<noteq> []" by (simp add: pes_header_def Let_def)
  have "length (pes_header e bufs) + length (flat bufs) \<le> 6 + 0xffff"
    using assms(4) by (simp add: pes_header_parts pes_target_def pes_len_def)
  then have pre: "solid ?inn" "?inn \<noteq> []" "length (flat ?inn) \<le> fuel"
    using assms(3,8) ne by (simp_all add: whole_buf_def buf_ok_def buf_content_def)
  obtain wts' h' out k where
    w: "ngx_ts_packetize fuel wops wts h ?inn = Some (wts', h', Some out)" "out \<noteq> []"
    "\<And>i. i < length (map b_mem out) \<Longrightarrow> length (map b_mem out ! i) = NGX_TS_PACKET_SIZE \<and>
      (\<exists>n g. ngx_ts_read_header (map b_mem out ! i) = (Inr n, g) \<and> section_hdr (h_pid h) (0 < i) g)"
    "concat (map ts_payload (map b_mem out)) = flat ?inn @ replicate k 0xff" "h_stuff h \<longrightarrow> k = 0"
    "length (replicate k (0xff :: byte)) < length (ts_payload (last (map b_mem out)))"
    by (rule packetize_fed [OF assms(1,2) h(3) pre]) blast
  have wr: "ngx_ts_write_pes fuel wops wts prog e bufs = Some (wts', e\<lparr>es_cont := h_cont h'\<rparr>, Some out)"
    using w(1) by (simp add: ngx_ts_write_pes_def Let_def h_def)
  have wait: "pes_waiting rops (pid_keys (ts_progs ts)) i j e bufs (flat bufs) (ts_world ts) False [] ts"
    using assms(4,9-11) by (simp add: pes_waiting_def)
  have "\<exists>t. ts_bytes rops note_call (concat (map b_mem out)) ts = (NGX_OK, t)
      \<and> pes_finished rops (pid_keys (ts_progs ts)) i j e (flat bufs) (ts_world ts) t"
    using pes.feed_all [OF wait, of "map b_mem out" "[]"] w(2-6) h(1,2) by simp
  with wr read_any_chain [OF _ assms(9)] show ?thesis
    by (fastforce simp: pes_finished_def)
qed


theorem pes_roundtrip_witness:
  "\<exists>wts' e' out. ngx_ts_write_pes 65541 unit_pool (zero_ts () () :: (unit, unit, unit) ngx_ts_stream)
      zero_program (zero_es\<lparr>es_sid := 0xe0, es_pid := 0x100, es_pts := 93600, es_dts := 90000\<rparr>)
      [\<lparr>b_mem = [1, 2, 3], b_pos = 0, b_last = 3\<rparr>] = Some (wts', e', Some out) \<and>
    (\<forall>inn. chain_ok inn \<and> flat inn = concat (map b_mem out) \<longrightarrow>
      (\<exists>ts' inn'. ngx_ts_read (Suc (length (flat inn))) unit_pool note_call
           ((zero_ts () [])\<lparr>ts_handlers := [()],
              ts_progs := [zero_program\<lparr>pr_pid := 0x1000, pr_es := [zero_es\<lparr>es_pid := 0x100\<rparr>]\<rparr>]\<rparr>) inn
             = Some (NGX_OK, ts', inn') \<and>
         map n_bytes (ts_world ts') = [[1, 2, 3]] \<and> map n_pts (ts_world ts') = [93600]))"
proof -
  let ?e = "zero_es\<lparr>es_sid := 0xe0, es_pid := 0x100, es_pts := 93600, es_dts := 90000\<rparr>"
  let ?bufs = "[\<lparr>b_mem = [1, 2, 3], b_pos = 0, b_last = 3\<rparr>]"
  let ?ts = "(zero_ts () [])\<lparr>ts_handlers := [()],
      ts_progs := [zero_program\<lparr>pr_pid := 0x1000, pr_es := [zero_es\<lparr>es_pid := 0x100\<rparr>]\<rparr>]\<rparr>"
  have fl: "flat ?bufs = [1, 2, 3]" by (simp add: buf_content_def)
  have 1: "pes_target ?e ?bufs (flat ?bufs)"
    unfolding fl by (simp add: pes_target_def stamped_def pes_plain_sid_def pes_len_def pes_optional_def
        zero_es_def chain_size_def)
  have 2: "ready unit_pool ?ts"
    by (simp add: ready_def rd_inv_def ts_inv_def zero_ts_def prog_inv_def es_inv_def zero_program_def zero_es_def)
  have 3: "find_pid (es_pid ?e) 0 (ts_progs ?ts) = Some (0, Some 0)" "es_bufs (the_es ?ts 0 0) = []"
    by (simp_all add: zero_program_def zero_es_def)
  have 4: "solid ?bufs" "unat (es_pid ?e) < 2 ^ 13" "unat (es_cont ?e) < 16"
    "packet_bufs (ts_free (zero_ts () () :: (unit, unit, unit) ngx_ts_stream))"
    "pr_pcr_pid zero_program = es_pid ?e \<longrightarrow> pcr_range (pr_pcr zero_program)"
    by (simp_all add: buf_ok_def zero_es_def zero_ts_def zero_program_def)
  from pes_roundtrip [OF pool_total_unit 4(4,1) 1 4(2,3,5) order_refl 2 3]
  obtain wts' e' out where
    w: "ngx_ts_write_pes 65541 unit_pool (zero_ts () () :: (unit, unit, unit) ngx_ts_stream) zero_program ?e ?bufs
          = Some (wts', e', Some out)"
    and r: "\<And>inn. chain_ok inn \<and> flat inn = concat (map b_mem out) \<Longrightarrow>
      \<exists>ts' inn'. ngx_ts_read (Suc (length (flat inn))) unit_pool note_call ?ts inn = Some (NGX_OK, ts', inn') \<and>
         ts_world ts' = ts_world ?ts @ [pes_note_of 0 0 ?e (flat ?bufs)]" by blast
  have n: "map n_bytes (ts_world ?ts @ [pes_note_of 0 0 ?e (flat ?bufs)]) = [[1, 2, 3]]"
    "map n_pts (ts_world ?ts @ [pes_note_of 0 0 ?e (flat ?bufs)]) = [93600]"
    unfolding fl by (simp_all add: pes_note_of_def zero_ts_def)
  have "\<exists>ts' inn'. ngx_ts_read (Suc (length (flat inn))) unit_pool note_call ?ts inn = Some (NGX_OK, ts', inn') \<and>
      map n_bytes (ts_world ts') = [[1, 2, 3]] \<and> map n_pts (ts_world ts') = [93600]"
    if "chain_ok inn \<and> flat inn = concat (map b_mem out)" for inn
    using r [OF that] n by (elim exE conjE) (intro exI conjI, assumption, simp_all only:)
  with w show ?thesis by blast
qed

end
