(* ===== verification/Bit_Reader.thy ===== *)
theory Bit_Reader
  imports Prelude
begin

text \<open>
  The two bit readers of the program: \<open>ngx_ts_avc_read\<close> (ngx\_ts\_avc.c) and \<open>ngx_rtmp_bit_read\<close>
  (ngx\_rtmp\_bitop.c), each with its Exp-Golomb decoder.  Both meet the contract \<open>bit_source\<close>: while
  bits are left a read returns the next ones as a number, most significant first, and moves past
  them.  A reader keeps the bytes from \<open>pos\<close> to \<open>last\<close> and the number of bits used of the first one.
\<close>

section \<open>Bit strings\<close>

definition byte_bits_msb :: "byte \<Rightarrow> bool list" where
  "byte_bits_msb b = map (bit b) [7, 6, 5, 4, 3, 2, 1, 0]"

definition bits_of_bytes :: "bytes \<Rightarrow> bool list" where
  "bits_of_bytes bs = concat (map byte_bits_msb bs)"

definition bits_val :: "bool list \<Rightarrow> u64" where
  "bits_val xs = foldl (\<lambda>v b. 2 * v + of_bool b) 0 xs"

lemma length_byte_bits [simp]: "length (byte_bits_msb b) = 8"
  by (simp add: byte_bits_msb_def)

lemma bits_of_bytes_simps [simp]:
  "bits_of_bytes [] = []" "bits_of_bytes (b # bs) = byte_bits_msb b @ bits_of_bytes bs"
  by (simp_all add: bits_of_bytes_def)

lemma length_bits_of_bytes [simp]: "length (bits_of_bytes bs) = 8 * length bs"
  by (induction bs) simp_all

lemma bits_val_Nil [simp]: "bits_val [] = 0"
  by (simp add: bits_val_def)

lemma bits_val_append: "bits_val (xs @ ys) = push_bit (length ys) (bits_val xs) + bits_val ys"
proof (induction ys rule: rev_induct)
  case (snoc y ys)
  have "bits_val (xs @ ys @ [y]) = 2 * bits_val (xs @ ys) + of_bool y"
    by (simp add: bits_val_def)
  moreover have "bits_val (ys @ [y]) = 2 * bits_val ys + of_bool y"
    by (simp add: bits_val_def)
  ultimately show ?case
    using snoc by (simp add: push_bit_eq_mult algebra_simps)
qed simp

section \<open>The contract\<close>

locale bit_source =
  fixes rd :: "'c \<Rightarrow> nat \<Rightarrow> u64 \<times> 'c"
    and bits :: "'c \<Rightarrow> bool list"
    and good :: "'c \<Rightarrow> bool"
  assumes rd_bits: "good c \<Longrightarrow> n \<le> length (bits c) \<Longrightarrow>
      \<exists>c'. rd c n = (bits_val (take n (bits c)), c') \<and> bits c' = drop n (bits c) \<and> good c'"
begin

lemma rd_app:
  assumes "good c" "bits c = xs @ ys"
  obtains c' where "rd c (length xs) = (bits_val xs, c')" "bits c' = ys" "good c'"
  using rd_bits [of c "length xs"] assms by auto

lemma rd_bit:
  assumes "good c" "bits c = x # ys"
  obtains c' where "rd c 1 = (of_bool x, c')" "bits c' = ys" "good c'"
  using rd_app [of c "[x]" ys] assms by (auto simp: bits_val_def)

end

section \<open>The reader of parameter sets\<close>

record avc_reader =
  ar_rest :: bytes
  ar_shift :: nat
  ar_err :: bool

definition ngx_ts_avc_init_reader :: "bytes \<Rightarrow> avc_reader" where
  "ngx_ts_avc_init_reader buf = \<lparr>ar_rest = buf, ar_shift = 0, ar_err = False\<rparr>"

text \<open>
  The loop of \<open>ngx_ts_avc_read\<close>: the value, what is left of the bytes, the shift and the error.  When
  \<open>shift + k\<close> stays below 8, \<open>k\<close> is all of \<open>n\<close> and the loop ends.
\<close>

fun avc_read_loop :: "bytes \<Rightarrow> nat \<Rightarrow> nat \<Rightarrow> u64 \<Rightarrow> u64 \<times> bytes \<times> nat \<times> bool" where
  "avc_read_loop [] shift n v = (v, [], shift, n \<noteq> 0)"
| "avc_read_loop (p # ps) shift n v =
     (if n = 0 then (v, p # ps, shift, False)
      else
        let k = min (8 - shift) n;
            v = push_bit k v OR ucast (drop_bit (8 - shift - k) (p AND drop_bit shift 0xff))
        in if shift + k = 8 then avc_read_loop ps 0 (n - k) v
           else (v, p # ps, shift + k, False))"

definition ngx_ts_avc_read :: "avc_reader \<Rightarrow> nat \<Rightarrow> u64 \<times> avc_reader" where
  "ngx_ts_avc_read br bits =
     (if ar_err br then (0, br)
      else case avc_read_loop (ar_rest br) (ar_shift br) bits 0 of (v, rest, shift, err) \<Rightarrow>
        (v, \<lparr>ar_rest = rest, ar_shift = shift, ar_err = err\<rparr>))"

text \<open>
  \<open>(uint64_t) 1 << n\<close>: C leaves the value open for \<open>n\<close> of 64 or more, so \<open>ub\<close> stands for what the
  compiler makes of it.
\<close>

definition shl_one64 :: "(nat \<Rightarrow> u64) \<Rightarrow> nat \<Rightarrow> u64" where
  "shl_one64 ub n = (if n < 64 then push_bit n 1 else ub n)"

text \<open>
  The loop of \<open>ngx_ts_avc_read_golomb\<close>; \<open>None\<close> is the return inside it.  Every turn takes a bit, so
  eight turns for a byte and one more are enough fuel (\<open>avc_zeros_enough\<close>).
\<close>

fun avc_zeros :: "nat \<Rightarrow> avc_reader \<Rightarrow> nat \<Rightarrow> nat option \<times> avc_reader" where
  "avc_zeros 0 br n = (None, br)"
| "avc_zeros (Suc fuel) br n =
     (case ngx_ts_avc_read br 1 of (v, br) \<Rightarrow>
        if v = 0 then (if ar_err br then (None, br) else avc_zeros fuel br (Suc n))
        else (Some n, br))"

definition ngx_ts_avc_read_golomb :: "(nat \<Rightarrow> u64) \<Rightarrow> avc_reader \<Rightarrow> u64 \<times> avc_reader" where
  "ngx_ts_avc_read_golomb ub br =
     (if ar_err br then (0, br)
      else case avc_zeros (8 * length (ar_rest br) + 1) br 0 of
        (None, br) \<Rightarrow> (0, br)
      | (Some n, br) \<Rightarrow>
          (case ngx_ts_avc_read br n of (v, br) \<Rightarrow> (shl_one64 ub n - 1 + v, br)))"

section \<open>The reader of the RTMP modules\<close>

text \<open>\<open>ngx_rtmp_bit_reader_t\<close> has the fields of the other reader; \<open>offs\<close> is the shift.\<close>

definition ngx_rtmp_bit_init_reader :: "bytes \<Rightarrow> avc_reader" where
  "ngx_rtmp_bit_init_reader buf = \<lparr>ar_rest = buf, ar_shift = 0, ar_err = False\<rparr>"

fun rtmp_bit_loop :: "bytes \<Rightarrow> nat \<Rightarrow> nat \<Rightarrow> u64 \<Rightarrow> u64 option \<times> bytes \<times> nat" where
  "rtmp_bit_loop [] offs n v = (if n = 0 then Some v else None, [], offs)"
| "rtmp_bit_loop (p # ps) offs n v =
     (if n = 0 then (Some v, p # ps, offs)
      else
        let d = (if offs + n > 8 then 8 - offs else n);
            v = push_bit d v + ucast (drop_bit (8 - offs - d) p AND drop_bit (8 - d) 0xff)
        in if offs + d = 8 then rtmp_bit_loop ps 0 (n - d) v
           else (Some v, p # ps, offs + d))"

definition ngx_rtmp_bit_read :: "avc_reader \<Rightarrow> nat \<Rightarrow> u64 \<times> avc_reader" where
  "ngx_rtmp_bit_read br n =
     (case rtmp_bit_loop (ar_rest br) (ar_shift br) n 0 of
        (None, rest, offs) \<Rightarrow> (0, \<lparr>ar_rest = rest, ar_shift = offs, ar_err = True\<rparr>)
      | (Some v, rest, offs) \<Rightarrow> (v, \<lparr>ar_rest = rest, ar_shift = offs, ar_err = ar_err br\<rparr>))"

text \<open>The loop ends at a one bit or with the error set, which the caller has to ask for.\<close>

fun rtmp_zeros :: "nat \<Rightarrow> avc_reader \<Rightarrow> nat \<Rightarrow> nat \<times> avc_reader" where
  "rtmp_zeros 0 br n = (n, br)"
| "rtmp_zeros (Suc fuel) br n =
     (case ngx_rtmp_bit_read br 1 of (v, br) \<Rightarrow>
        if v = 0 \<and> \<not> ar_err br then rtmp_zeros fuel br (Suc n) else (n, br))"

definition ngx_rtmp_bit_read_golomb :: "(nat \<Rightarrow> u64) \<Rightarrow> avc_reader \<Rightarrow> u64 \<times> avc_reader" where
  "ngx_rtmp_bit_read_golomb ub br =
     (case rtmp_zeros (8 * length (ar_rest br) + 1) br 0 of (n, br) \<Rightarrow>
        case ngx_rtmp_bit_read br n of (v, br) \<Rightarrow> (shl_one64 ub n + v - 1, br))"

section \<open>Both readers meet the contract\<close>

definition reader_bits :: "avc_reader \<Rightarrow> bool list" where
  "reader_bits br = drop (ar_shift br) (bits_of_bytes (ar_rest br))"

definition reader_good :: "avc_reader \<Rightarrow> bool" where
  "reader_good br \<longleftrightarrow> \<not> ar_err br \<and> ar_shift br < 8 \<and> (ar_rest br = [] \<longrightarrow> ar_shift br = 0)"

lemma bits_val_snoc: "bits_val (xs @ [b]) = 2 * bits_val xs + of_bool b"
  by (simp add: bits_val_def)

lemma bit_double_add: "bit (2 * v + of_bool b :: u64) n \<longleftrightarrow> (if n = 0 then b else n < 64 \<and> bit v (n - 1))"
proof -
  have disj: "push_bit 1 v AND of_bool b = (0 :: u64)"
    by (intro bit_word_eqI) (auto simp: bit_and_iff bit_of_bool_iff bit_0)
  have "2 * v + of_bool b = push_bit 1 v + (of_bool b :: u64)"
    by (simp add: push_bit_eq_mult mult.commute)
  also have "\<dots> = push_bit 1 v OR of_bool b"
    using disj by (rule disjunctive_add_eq_or)
  finally have eq: "2 * v + of_bool b = push_bit 1 v OR (of_bool b :: u64)" .
  show ?thesis
    unfolding eq bit_or_iff bit_push_bit_iff bit_of_bool_iff
    by (auto dest: bit_imp_le_length)
qed

lemma bit_bits_val: "bit (bits_val xs) n \<longleftrightarrow> n < 64 \<and> n < length xs \<and> xs ! (length xs - Suc n)"
proof (induction xs arbitrary: n rule: rev_induct)
  case (snoc x xs)
  show ?case
  proof (cases n)
    case 0
    then show ?thesis by (simp add: bits_val_snoc bit_double_add)
  next
    case (Suc m)
    then show ?thesis using snoc [of m]
      by (auto simp: bits_val_snoc bit_double_add nth_append)
  qed
qed simp

lemma byte_bits_nth: "i < 8 \<Longrightarrow> byte_bits_msb p ! i = bit p (7 - i)"
  unfolding byte_bits_msb_def
  by (auto simp: less_Suc_eq numeral_eq_Suc)

lemma bit_ff: "bit (0xff :: byte) n \<longleftrightarrow> n < 8"
proof -
  have "(0xff :: byte) = mask 8" by (simp add: mask_eq_exp_minus_1)
  then show ?thesis by (simp only: bit_mask_iff) simp
qed

lemma bits_val_take_byte:
  assumes "s + k \<le> 8"
  shows "bits_val (take k (drop s (byte_bits_msb p))) = ucast (drop_bit (8 - s - k) (p AND drop_bit s 0xff))"
    and "bits_val (take k (drop s (byte_bits_msb p))) = ucast (drop_bit (8 - s - k) p AND drop_bit (8 - k) 0xff)"
proof -
  have nth: "take k (drop s (byte_bits_msb p)) ! (k - Suc n) = bit p (8 - s - k + n)" if "n < k" for n
    using assms that by (simp add: byte_bits_nth)
  have lhs: "bit (bits_val (take k (drop s (byte_bits_msb p)))) n \<longleftrightarrow> n < k \<and> bit p (8 - s - k + n)" for n
  proof -
    have "length (take k (drop s (byte_bits_msb p))) = k" using assms by simp
    then show ?thesis using assms nth [of n] unfolding bit_bits_val by auto
  qed
  show "bits_val (take k (drop s (byte_bits_msb p))) = ucast (drop_bit (8 - s - k) (p AND drop_bit s 0xff))"
  proof (rule bit_word_eqI)
    fix n
    assume "n < LENGTH(64)"
    then show "bit (bits_val (take k (drop s (byte_bits_msb p)))) n =
        bit (ucast (drop_bit (8 - s - k) (p AND drop_bit s 0xff)) :: u64) n"
      using assms unfolding lhs
      by (auto simp only: bit_unsigned_iff bit_drop_bit_eq bit_and_iff bit_ff o_def possible_bit_word)
  qed
  show "bits_val (take k (drop s (byte_bits_msb p))) = ucast (drop_bit (8 - s - k) p AND drop_bit (8 - k) 0xff)"
  proof (rule bit_word_eqI)
    fix n
    assume "n < LENGTH(64)"
    then show "bit (bits_val (take k (drop s (byte_bits_msb p)))) n =
        bit (ucast (drop_bit (8 - s - k) p AND drop_bit (8 - k) 0xff) :: u64) n"
      using assms unfolding lhs
      by (auto simp only: bit_unsigned_iff bit_drop_bit_eq bit_and_iff bit_ff o_def possible_bit_word)
  qed
qed


lemma push_or_add:
  assumes "length xs = k"
  shows "push_bit k v OR bits_val xs = push_bit k v + bits_val xs"
proof -
  have "push_bit k v AND bits_val xs = 0"
    using assms by (intro bit_word_eqI) (auto simp: bit_and_iff bit_push_bit_iff bit_bits_val)
  then show ?thesis by (rule disjunctive_add_eq_or [symmetric])
qed

text \<open>One turn takes the rest of the byte or all of the wanted bits.\<close>

lemma avc_read_loop_spec:
  assumes "shift < 8" "ps = [] \<longrightarrow> shift = 0" "n \<le> 8 * length ps - shift"
  shows "\<exists>ps' shift'. avc_read_loop ps shift n v
      = (push_bit n v + bits_val (take n (drop shift (bits_of_bytes ps))), ps', shift', False) \<and>
    drop shift' (bits_of_bytes ps') = drop n (drop shift (bits_of_bytes ps)) \<and> shift' < 8 \<and>
    (ps' = [] \<longrightarrow> shift' = 0)"
  using assms
proof (induction ps arbitrary: shift n v)
  case (Cons p ps)
  define k where "k = min (8 - shift) n"
  let ?byte = "drop shift (byte_bits_msb p)"
  have k: "shift + k \<le> 8" "k \<le> n" using Cons.prems(1) by (auto simp: k_def)
  define w where "w = push_bit k v + bits_val (take k ?byte)"
  have w: "push_bit k v OR ucast (drop_bit (8 - shift - k) (p AND drop_bit shift 0xff)) = w"
    using push_or_add [of "take k ?byte" k v] k(1) bits_val_take_byte(1) [OF k(1), of p]
    by (simp add: w_def)
  have loop: "avc_read_loop (p # ps) shift n v =
      (if n = 0 then (v, p # ps, shift, False)
       else if shift + k = 8 then avc_read_loop ps 0 (n - k) w else (w, p # ps, shift + k, False))"
    by (simp only: avc_read_loop.simps Let_def k_def [symmetric] w)
  have bits: "drop shift (bits_of_bytes (p # ps)) = ?byte @ bits_of_bytes ps"
    using Cons.prems(1) by simp
  show ?case
  proof (cases "n \<noteq> 0 \<and> shift + k = 8")
    case True
    then have kl: "k = length ?byte" by auto
    have "n - k \<le> 8 * length ps" using Cons.prems(3) True by auto
    with Cons.IH [of 0 "n - k" w] obtain ps' shift' where IH:
      "avc_read_loop ps 0 (n - k) w = (push_bit (n - k) w + bits_val (take (n - k) (bits_of_bytes ps)), ps', shift', False)"
      "drop shift' (bits_of_bytes ps') = drop (n - k) (bits_of_bytes ps)" "shift' < 8" "ps' = [] \<longrightarrow> shift' = 0"
      by auto
    have "take n (?byte @ bits_of_bytes ps) = ?byte @ take (n - k) (bits_of_bytes ps)"
      using kl k(2) by simp
    moreover have "bits_val (?byte @ take (n - k) (bits_of_bytes ps))
        = push_bit (n - k) (bits_val ?byte) + bits_val (take (n - k) (bits_of_bytes ps))"
      using \<open>n - k \<le> 8 * length ps\<close> by (simp add: bits_val_append)
    moreover have "push_bit (n - k) w = push_bit n v + push_bit (n - k) (bits_val ?byte)"
      using kl k(2) by (simp add: w_def push_bit_add push_bit_push_bit)
    ultimately show ?thesis
      using IH True kl k(2) loop unfolding bits by (auto simp: add.assoc)
  next
    case False
    then have kn: "n = k" "n \<noteq> 0 \<longrightarrow> shift + n < 8" using k(1) by (auto simp: k_def)
    then have "take n (?byte @ bits_of_bytes ps) = take n ?byte"
      "drop (shift + n) (byte_bits_msb p) @ bits_of_bytes ps = drop n (?byte @ bits_of_bytes ps)"
      using k(1) by (simp_all add: add.commute)
    then show ?thesis
      using kn loop Cons.prems(1) w_def unfolding bits by (cases "n = 0") auto
  qed
qed simp

interpretation avc: bit_source ngx_ts_avc_read reader_bits reader_good
proof unfold_locales
  fix c :: avc_reader and n
  assume g: "reader_good c" and n: "n \<le> length (reader_bits c)"
  from avc_read_loop_spec [of "ar_shift c" "ar_rest c" n 0] g n
  show "\<exists>c'. ngx_ts_avc_read c n = (bits_val (take n (reader_bits c)), c') \<and>
      reader_bits c' = drop n (reader_bits c) \<and> reader_good c'"
    by (auto simp: ngx_ts_avc_read_def reader_good_def reader_bits_def)
qed

lemma rtmp_bit_loop_eq:
  assumes "shift < 8" "ps = [] \<longrightarrow> shift = 0" "n \<le> 8 * length ps - shift"
  shows "rtmp_bit_loop ps shift n v =
    (case avc_read_loop ps shift n v of (v, ps', shift', _) \<Rightarrow> (Some v, ps', shift'))"
  using assms
proof (induction ps arbitrary: shift n v)
  case (Cons p ps)
  define k where "k = min (8 - shift) n"
  have d: "(if shift + n > 8 then 8 - shift else n) = k" using Cons.prems(1) by (auto simp: k_def)
  have k: "shift + k \<le> 8" using Cons.prems(1) by (auto simp: k_def)
  have v: "push_bit k v + ucast (drop_bit (8 - shift - k) p AND drop_bit (8 - k) 0xff)
      = push_bit k v OR ucast (drop_bit (8 - shift - k) (p AND drop_bit shift 0xff))"
    using push_or_add [of "take k (drop shift (byte_bits_msb p))" k v] k
      bits_val_take_byte [OF k, of p] by simp
  have "n - k \<le> 8 * length ps" if "shift + k = 8" using Cons.prems(3) that by auto
  with Cons.IH [of 0 "n - k"] show ?case
    by (simp only: rtmp_bit_loop.simps avc_read_loop.simps d Let_def k_def [symmetric] v) simp
qed simp

interpretation rtmp: bit_source ngx_rtmp_bit_read reader_bits reader_good
proof unfold_locales
  fix c :: avc_reader and n
  assume g: "reader_good c" and n: "n \<le> length (reader_bits c)"
  then have eq: "ngx_rtmp_bit_read c n = ngx_ts_avc_read c n"
    using avc_read_loop_spec [of "ar_shift c" "ar_rest c" n 0] rtmp_bit_loop_eq [of "ar_shift c" "ar_rest c" n 0]
    by (auto simp: ngx_rtmp_bit_read_def ngx_ts_avc_read_def reader_good_def reader_bits_def)
  show "\<exists>c'. ngx_rtmp_bit_read c n = (bits_val (take n (reader_bits c)), c') \<and>
      reader_bits c' = drop n (reader_bits c) \<and> reader_good c'"
    unfolding eq using g n by (rule avc.rd_bits)
qed

section \<open>Exp-Golomb codes\<close>

text \<open>The code of \<open>v\<close>: \<open>n\<close> zeros, then \<open>v + 1\<close> in \<open>n + 1\<close> bits.\<close>

definition msb_bits :: "nat \<Rightarrow> nat \<Rightarrow> bool list" where
  "msb_bits n v = map (\<lambda>i. odd (v div 2 ^ i)) (rev [0..<n])"

fun ue_len :: "nat \<Rightarrow> nat" where
  "ue_len v = (if v = 0 then 0 else Suc (ue_len ((v - 1) div 2)))"

declare ue_len.simps [simp del]

definition ue_bits :: "nat \<Rightarrow> bool list" where
  "ue_bits v = replicate (ue_len v) False @ msb_bits (ue_len v + 1) (v + 1)"

lemma length_msb_bits [simp]: "length (msb_bits n v) = n"
  by (simp add: msb_bits_def)

lemma msb_bits_Suc: "msb_bits (Suc n) v = odd (v div 2 ^ n) # msb_bits n v"
  by (simp add: msb_bits_def)

lemma bits_val_msb: "bits_val (msb_bits n v) = word_of_nat (v mod 2 ^ n)"
proof (induction n)
  case (Suc n)
  have "v mod 2 ^ Suc n = 2 ^ n * (v div 2 ^ n mod 2) + v mod 2 ^ n"
    by (simp only: power_Suc2 mod_mult2_eq)
  moreover have "bits_val (msb_bits (Suc n) v)
      = push_bit n (of_bool (odd (v div 2 ^ n))) + word_of_nat (v mod 2 ^ n)"
    using bits_val_append [of "[odd (v div 2 ^ n)]" "msb_bits n v"] Suc
    by (simp add: msb_bits_Suc bits_val_def)
  ultimately show ?case
    by (cases "odd (v div 2 ^ n)") (simp_all add: push_bit_eq_mult odd_iff_mod_2_eq_one)
qed (simp add: msb_bits_def)

lemma ue_len_bounds: "2 ^ ue_len v \<le> v + 1" "v + 1 < 2 ^ (ue_len v + 1)"
proof -
  have "2 ^ ue_len v \<le> v + 1 \<and> v + 1 < 2 ^ (ue_len v + 1)"
  proof (induction v rule: ue_len.induct)
    case (1 v)
    show ?case
    proof (cases "v = 0")
      case False
      then have "(v - 1) div 2 + 1 = (v + 1) div 2" by presburger
      with 1 [OF False] have "2 ^ ue_len ((v - 1) div 2) \<le> (v + 1) div 2"
        "(v + 1) div 2 < 2 * 2 ^ ue_len ((v - 1) div 2)" by simp_all
      then show ?thesis using False by (subst (1 2) ue_len.simps) auto
    qed (simp add: ue_len.simps)
  qed
  then show "2 ^ ue_len v \<le> v + 1" "v + 1 < 2 ^ (ue_len v + 1)" by simp_all
qed

lemma ue_bits_cons: "ue_bits v = replicate (ue_len v) False @ True # msb_bits (ue_len v) (v + 1)"
proof -
  have "(v + 1) div 2 ^ ue_len v = 1"
    using ue_len_bounds [of v] by (simp add: div_nat_eqI)
  then show ?thesis by (simp add: ue_bits_def msb_bits_Suc)
qed

lemma ue_value:
  "push_bit (ue_len v) 1 - 1 + bits_val (msb_bits (ue_len v) (v + 1)) = word_of_nat v"
  "push_bit (ue_len v) 1 + bits_val (msb_bits (ue_len v) (v + 1)) - 1 = word_of_nat v"
proof -
  have "(v + 1) mod 2 ^ ue_len v = v + 1 - 2 ^ ue_len v"
    using ue_len_bounds [of v] by (simp add: mod_if)
  then have "bits_val (msb_bits (ue_len v) (v + 1)) = word_of_nat (v + 1 - 2 ^ ue_len v)"
    by (simp add: bits_val_msb)
  also have "\<dots> = word_of_nat (v + 1) - 2 ^ ue_len v"
    using ue_len_bounds(1) [of v] by (simp add: of_nat_diff)
  finally have eq: "bits_val (msb_bits (ue_len v) (v + 1)) = word_of_nat (v + 1) - 2 ^ ue_len v" .
  then show "push_bit (ue_len v) 1 - 1 + bits_val (msb_bits (ue_len v) (v + 1)) = word_of_nat v"
    "push_bit (ue_len v) 1 + bits_val (msb_bits (ue_len v) (v + 1)) - 1 = word_of_nat v"
    by (simp_all add: push_bit_eq_mult)
qed


lemma avc_zeros_found:
  assumes "reader_good br" "reader_bits br = replicate n False @ True # ys" "n < fuel"
  obtains br' where "avc_zeros fuel br m = (Some (m + n), br')" "reader_bits br' = ys" "reader_good br'"
  using assms
proof (induction fuel arbitrary: br m n thesis)
  case (Suc fuel)
  show ?case
  proof (cases n)
    case 0
    then obtain c where "ngx_ts_avc_read br 1 = (1, c)" "reader_bits c = ys" "reader_good c"
      using avc.rd_bit [of br True ys] Suc.prems by auto
    with 0 show ?thesis by (intro Suc.prems(1) [of c]) simp_all
  next
    case (Suc k)
    then obtain c where c: "ngx_ts_avc_read br 1 = (0, c)" "reader_bits c = replicate k False @ True # ys"
      "reader_good c"
      using avc.rd_bit [of br False "replicate k False @ True # ys"] Suc.prems by auto
    obtain c' where "avc_zeros fuel c (Suc m) = (Some (Suc m + k), c')" "reader_bits c' = ys" "reader_good c'"
      using Suc.IH [OF _ c(3,2), of "Suc m"] Suc.prems(4) Suc by auto
    with c Suc show ?thesis by (intro Suc.prems(1) [of c']) (simp_all add: reader_good_def)
  qed
qed simp

lemma rtmp_zeros_found:
  assumes "reader_good br" "reader_bits br = replicate n False @ True # ys" "n < fuel"
  obtains br' where "rtmp_zeros fuel br m = (m + n, br')" "reader_bits br' = ys" "reader_good br'"
  using assms
proof (induction fuel arbitrary: br m n thesis)
  case (Suc fuel)
  show ?case
  proof (cases n)
    case 0
    then obtain c where "ngx_rtmp_bit_read br 1 = (1, c)" "reader_bits c = ys" "reader_good c"
      using rtmp.rd_bit [of br True ys] Suc.prems by auto
    with 0 show ?thesis by (intro Suc.prems(1) [of c]) simp_all
  next
    case (Suc k)
    then obtain c where c: "ngx_rtmp_bit_read br 1 = (0, c)" "reader_bits c = replicate k False @ True # ys"
      "reader_good c"
      using rtmp.rd_bit [of br False "replicate k False @ True # ys"] Suc.prems by auto
    obtain c' where "rtmp_zeros fuel c (Suc m) = (Suc m + k, c')" "reader_bits c' = ys" "reader_good c'"
      using Suc.IH [OF _ c(3,2), of "Suc m"] Suc.prems(4) Suc by auto
    with c Suc show ?thesis by (intro Suc.prems(1) [of c']) (simp_all add: reader_good_def)
  qed
qed simp

text \<open>More fuel than bits makes no difference: the search ends at a one bit or at the end of the data.\<close>

lemma avc_zeros_enough:
  assumes "reader_good br" "length (reader_bits br) < fuel" "length (reader_bits br) < fuel'"
  shows "avc_zeros fuel br n = avc_zeros fuel' br n"
  using assms
proof (induction fuel arbitrary: br fuel' n)
  case (Suc fuel)
  obtain f where f: "fuel' = Suc f" using Suc.prems(3) by (cases fuel') auto
  show ?case
  proof (cases "reader_bits br")
    case Nil
    then have "length (bits_of_bytes (ar_rest br)) \<le> ar_shift br" by (simp add: reader_bits_def)
    then have "ar_rest br = []" "ar_shift br = 0"
      using Suc.prems(1) by (cases "ar_rest br"; simp add: reader_good_def)+
    then show ?thesis
      using Suc.prems(1) by (simp add: f ngx_ts_avc_read_def reader_good_def)
  next
    case (Cons b bs)
    from avc.rd_bit [OF Suc.prems(1) this] obtain c where
      "ngx_ts_avc_read br 1 = (of_bool b, c)" "reader_bits c = bs" "reader_good c" .
    then show ?thesis
      using Suc.IH [of c f "Suc n"] Suc.prems Cons by (cases b) (auto simp: f reader_good_def)
  qed
qed simp

lemma ue_fuel: "reader_bits br = ue_bits v @ ys \<Longrightarrow> ue_len v < 8 * length (ar_rest br) + 1"
proof -
  assume "reader_bits br = ue_bits v @ ys"
  then have "length (reader_bits br) = length (ue_bits v @ ys)" by simp
  then show ?thesis by (simp add: reader_bits_def ue_bits_def)
qed

lemma avc_golomb_reads:
  assumes "reader_good br" "reader_bits br = ue_bits v @ ys" "ue_len v < 64"
  obtains br' where "ngx_ts_avc_read_golomb ub br = (word_of_nat v, br')" "reader_bits br' = ys" "reader_good br'"
proof -
  have bits: "reader_bits br = replicate (ue_len v) False @ True # msb_bits (ue_len v) (v + 1) @ ys"
    using assms(2) by (simp add: ue_bits_cons)
  from avc_zeros_found [OF assms(1) bits ue_fuel [OF assms(2)], of 0] obtain c where
    c: "avc_zeros (8 * length (ar_rest br) + 1) br 0 = (Some (ue_len v), c)"
      "reader_bits c = msb_bits (ue_len v) (v + 1) @ ys" "reader_good c"
    by auto
  obtain c' where c': "ngx_ts_avc_read c (ue_len v) = (bits_val (msb_bits (ue_len v) (v + 1)), c')"
      "reader_bits c' = ys" "reader_good c'"
    using avc.rd_app [OF c(3,2)] by auto
  have "ngx_ts_avc_read_golomb ub br = (word_of_nat v, c')"
    using assms(1,3) c(1) c'(1) ue_value(1) [of v]
    unfolding ngx_ts_avc_read_golomb_def shl_one64_def by (simp add: reader_good_def)
  then show ?thesis using c'(2,3) by (rule that)
qed

text \<open>
  The Exp-Golomb decoder of the RTMP modules returns the number whose code is next and leaves the
  bits after it, for every number whose code has fewer than 64 leading zeros.
\<close>

theorem bit_read_golomb_decodes:
  assumes "reader_good br" "reader_bits br = ue_bits v @ ys" "ue_len v < 64"
  shows "\<exists>br'. ngx_rtmp_bit_read_golomb ub br = (word_of_nat v, br') \<and> reader_bits br' = ys \<and> reader_good br'"
proof -
  have bits: "reader_bits br = replicate (ue_len v) False @ True # msb_bits (ue_len v) (v + 1) @ ys"
    using assms(2) by (simp add: ue_bits_cons)
  from rtmp_zeros_found [OF assms(1) bits ue_fuel [OF assms(2)], of 0] obtain c where
    c: "rtmp_zeros (8 * length (ar_rest br) + 1) br 0 = (ue_len v, c)"
      "reader_bits c = msb_bits (ue_len v) (v + 1) @ ys" "reader_good c"
    by auto
  obtain c' where c': "ngx_rtmp_bit_read c (ue_len v) = (bits_val (msb_bits (ue_len v) (v + 1)), c')"
      "reader_bits c' = ys" "reader_good c'"
    using rtmp.rd_app [OF c(3,2)] by auto
  have "ngx_rtmp_bit_read_golomb ub br = (word_of_nat v, c')"
    using assms(3) c(1) c'(1) ue_value(2) [of v]
    unfolding ngx_rtmp_bit_read_golomb_def shl_one64_def by simp
  with c'(2,3) show ?thesis by blast
qed


theorem bit_read_golomb_decodes_witness:
  "\<exists>br'. ngx_rtmp_bit_read_golomb (\<lambda>_. 0) \<lparr>ar_rest = [0x28], ar_shift = 0, ar_err = False\<rparr> = (4, br') \<and>
     reader_bits br' = [False, False, False] \<and> reader_good br'"
proof -
  have len: "ue_len 4 = 2" by (simp add: ue_len.simps)
  have two: "replicate 2 False = [False, False]" by (simp add: numeral_2_eq_2)
  have "reader_good \<lparr>ar_rest = [0x28], ar_shift = 0, ar_err = False\<rparr>" by (simp add: reader_good_def)
  moreover have "reader_bits \<lparr>ar_rest = [0x28], ar_shift = 0, ar_err = False\<rparr> = ue_bits 4 @ [False, False, False]"
    by (simp add: reader_bits_def byte_bits_msb_def ue_bits_def len msb_bits_def upt_rec two)
  moreover have "ue_len 4 < 64" by (simp add: len)
  ultimately show ?thesis
    using bit_read_golomb_decodes [of "\<lparr>ar_rest = [0x28], ar_shift = 0, ar_err = False\<rparr>" 4 "[False, False, False]" "\<lambda>_. 0"]
    by simp
qed

end
