(* ===== verification/Ts_Codec.thy ===== *)
theory Ts_Codec
  imports Bit_Reader Buf_Chain
begin

text \<open>
  The codec parameters the segmenters publish: \<open>ngx_ts_avc_decode_params\<close> (ngx\_ts\_avc.c) reads a
  sequence parameter set, \<open>ngx_ts_aac_decode_params\<close> (ngx\_ts\_aac.c) an ADTS header.  The picture
  parameter set is an argument the C code ignores.  \<open>ub64\<close> and \<open>ub32\<close> are the values of shifts C
  leaves undefined: \<open>(uint64_t) 1 << n\<close> for \<open>n\<close> of 64 or more and \<open>1 << n\<close> for \<open>n\<close> of 31 or more.
\<close>

section \<open>AVC\<close>

record ngx_ts_avc_params =
  profile_idc :: u64
  constraints :: u64
  level_idc :: u64
  sps_id :: u64
  chroma_format_idc :: u64
  bit_depth_luma :: u64
  bit_depth_chroma :: u64
  max_frame_num :: u64
  pic_order_cnt_type :: u64
  max_pic_order_cnt_lsb :: u64
  offset_for_non_ref_pic :: u64
  offset_for_top_to_bottom_field :: u64
  num_ref_frames_in_pic_order_cnt_cycle :: u64
  num_ref_frames :: u64
  pic_width_in_mbs :: u64
  pic_height_in_map_units :: u64
  frame_crop_left_offset :: u64
  frame_crop_right_offset :: u64
  frame_crop_top_offset :: u64
  frame_crop_bottom_offset :: u64
  avc_width :: u64
  avc_height :: u64
  delta_pic_order_always_zero_flag :: bool
  gaps_in_frame_num_value_allowed_flag :: bool
  frame_mbs_only_flag :: bool
  mb_adaptive_frame_field_flag :: bool
  direct_8x8_inference_flag :: bool
  frame_cropping_flag :: bool
  residual_colour_transform_flag :: bool
  qpprime_y_zero_transform_bypass_flag :: bool
  seq_scaling_matrix_present_flag :: bool

definition zero_avc :: ngx_ts_avc_params where
  "zero_avc = \<lparr>profile_idc = 0, constraints = 0, level_idc = 0, sps_id = 0, chroma_format_idc = 0,
     bit_depth_luma = 0, bit_depth_chroma = 0, max_frame_num = 0, pic_order_cnt_type = 0,
     max_pic_order_cnt_lsb = 0, offset_for_non_ref_pic = 0, offset_for_top_to_bottom_field = 0,
     num_ref_frames_in_pic_order_cnt_cycle = 0, num_ref_frames = 0, pic_width_in_mbs = 0,
     pic_height_in_map_units = 0, frame_crop_left_offset = 0, frame_crop_right_offset = 0,
     frame_crop_top_offset = 0, frame_crop_bottom_offset = 0, avc_width = 0, avc_height = 0,
     delta_pic_order_always_zero_flag = False, gaps_in_frame_num_value_allowed_flag = False,
     frame_mbs_only_flag = False, mb_adaptive_frame_field_flag = False,
     direct_8x8_inference_flag = False, frame_cropping_flag = False,
     residual_colour_transform_flag = False, qpprime_y_zero_transform_bypass_flag = False,
     seq_scaling_matrix_present_flag = False\<rparr>"

definition shl_one32 :: "(u64 \<Rightarrow> u64) \<Rightarrow> u64 \<Rightarrow> u64" where
  "shl_one32 ub32 k = (if k < 31 then push_bit (unat k) 1 else ub32 k)"

definition avc_high_profiles :: "u64 list" where
  "avc_high_profiles = [100, 110, 122, 244, 44, 83, 86, 118, 128, 138, 139, 134]"

text \<open>Assigning to a one bit field keeps the lowest bit.\<close>

abbreviation flag1 :: "u64 \<Rightarrow> bool" where
  "flag1 v \<equiv> v AND 1 \<noteq> 0"

text \<open>The scaling list flags: one that is set ends the parse (\<open>goto failed\<close>).\<close>

fun avc_scaling_lists :: "nat \<Rightarrow> avc_reader \<Rightarrow> avc_reader option" where
  "avc_scaling_lists 0 br = Some br"
| "avc_scaling_lists (Suc n) br =
     (case ngx_ts_avc_read br 1 of (v, br) \<Rightarrow> if v \<noteq> 0 then None else avc_scaling_lists n br)"

definition avc_chroma ::
    "(nat \<Rightarrow> u64) \<Rightarrow> ngx_ts_avc_params \<Rightarrow> avc_reader \<Rightarrow> (ngx_ts_avc_params \<times> avc_reader) option" where
  "avc_chroma ub64 avc br =
     (case ngx_ts_avc_read_golomb ub64 br of (v, br) \<Rightarrow>
      let avc = avc\<lparr>chroma_format_idc := v\<rparr> in
      case (if chroma_format_idc avc = 3
            then (case ngx_ts_avc_read br 1 of (v, br) \<Rightarrow>
              (avc\<lparr>residual_colour_transform_flag := flag1 v\<rparr>, br))
            else (avc, br)) of (avc, br) \<Rightarrow>
      case ngx_ts_avc_read_golomb ub64 br of (luma, br) \<Rightarrow>
      case ngx_ts_avc_read_golomb ub64 br of (chroma, br) \<Rightarrow>
      case ngx_ts_avc_read br 1 of (qp, br) \<Rightarrow>
      case ngx_ts_avc_read br 1 of (sc, br) \<Rightarrow>
      let avc = avc\<lparr>bit_depth_luma := luma + 8, bit_depth_chroma := chroma + 8,
                qpprime_y_zero_transform_bypass_flag := flag1 qp,
                seq_scaling_matrix_present_flag := flag1 sc\<rparr> in
      if seq_scaling_matrix_present_flag avc then
        (case avc_scaling_lists (if chroma_format_idc avc \<noteq> 3 then 8 else 12) br of
           None \<Rightarrow> None
         | Some br \<Rightarrow> Some (avc, br))
      else Some (avc, br))"

fun avc_skip_golombs :: "(nat \<Rightarrow> u64) \<Rightarrow> nat \<Rightarrow> avc_reader \<Rightarrow> avc_reader" where
  "avc_skip_golombs ub64 0 br = br"
| "avc_skip_golombs ub64 (Suc n) br = avc_skip_golombs ub64 n (snd (ngx_ts_avc_read_golomb ub64 br))"

definition avc_pic_order ::
    "(nat \<Rightarrow> u64) \<Rightarrow> (u64 \<Rightarrow> u64) \<Rightarrow> ngx_ts_avc_params \<Rightarrow> avc_reader \<Rightarrow> ngx_ts_avc_params \<times> avc_reader" where
  "avc_pic_order ub64 ub32 avc br =
     (case ngx_ts_avc_read_golomb ub64 br of (v, br) \<Rightarrow>
      let avc = avc\<lparr>pic_order_cnt_type := v\<rparr> in
      if pic_order_cnt_type avc = 0 then
        (case ngx_ts_avc_read_golomb ub64 br of (v, br) \<Rightarrow>
          (avc\<lparr>max_pic_order_cnt_lsb := shl_one32 ub32 (v + 4)\<rparr>, br))
      else if pic_order_cnt_type avc = 1 then
        (case ngx_ts_avc_read br 1 of (dz, br) \<Rightarrow>
         case ngx_ts_avc_read_golomb ub64 br of (nr, br) \<Rightarrow>
         case ngx_ts_avc_read_golomb ub64 br of (tb, br) \<Rightarrow>
         case ngx_ts_avc_read_golomb ub64 br of (n, br) \<Rightarrow>
           (avc\<lparr>delta_pic_order_always_zero_flag := flag1 dz, offset_for_non_ref_pic := nr,
              offset_for_top_to_bottom_field := tb\<rparr>, avc_skip_golombs ub64 (unat n) br))
      else (avc, br))"

definition avc_cropping ::
    "(nat \<Rightarrow> u64) \<Rightarrow> ngx_ts_avc_params \<Rightarrow> avc_reader \<Rightarrow> ngx_ts_avc_params \<times> avc_reader" where
  "avc_cropping ub64 avc br =
     (case ngx_ts_avc_read br 1 of (v, br) \<Rightarrow>
      let avc = avc\<lparr>frame_cropping_flag := flag1 v\<rparr> in
      if frame_cropping_flag avc then
        (case ngx_ts_avc_read_golomb ub64 br of (l, br) \<Rightarrow>
         case ngx_ts_avc_read_golomb ub64 br of (r, br) \<Rightarrow>
         case ngx_ts_avc_read_golomb ub64 br of (t, br) \<Rightarrow>
         case ngx_ts_avc_read_golomb ub64 br of (b, br) \<Rightarrow>
           (avc\<lparr>frame_crop_left_offset := l, frame_crop_right_offset := r,
              frame_crop_top_offset := t, frame_crop_bottom_offset := b\<rparr>, br))
      else (avc, br))"

definition avc_frame ::
    "(nat \<Rightarrow> u64) \<Rightarrow> ngx_ts_avc_params \<Rightarrow> avc_reader \<Rightarrow> ngx_ts_avc_params \<times> avc_reader" where
  "avc_frame ub64 avc br =
     (case ngx_ts_avc_read_golomb ub64 br of (refs, br) \<Rightarrow>
      case ngx_ts_avc_read br 1 of (gaps, br) \<Rightarrow>
      case ngx_ts_avc_read_golomb ub64 br of (w, br) \<Rightarrow>
      case ngx_ts_avc_read_golomb ub64 br of (h, br) \<Rightarrow>
      case ngx_ts_avc_read br 1 of (mbs, br) \<Rightarrow>
      let avc = avc\<lparr>num_ref_frames := refs, gaps_in_frame_num_value_allowed_flag := flag1 gaps,
                pic_width_in_mbs := w + 1, pic_height_in_map_units := h + 1,
                frame_mbs_only_flag := flag1 mbs\<rparr> in
      case (if \<not> frame_mbs_only_flag avc
            then (case ngx_ts_avc_read br 1 of (v, br) \<Rightarrow>
              (avc\<lparr>mb_adaptive_frame_field_flag := flag1 v\<rparr>, br))
            else (avc, br)) of (avc, br) \<Rightarrow>
      case ngx_ts_avc_read br 1 of (v, br) \<Rightarrow>
        (avc\<lparr>direct_8x8_inference_flag := flag1 v\<rparr>, br))"

definition avc_set_size :: "ngx_ts_avc_params \<Rightarrow> ngx_ts_avc_params" where
  "avc_set_size avc = avc\<lparr>
     avc_width := pic_width_in_mbs avc * 16
       - (frame_crop_left_offset avc + frame_crop_right_offset avc) * 2,
     avc_height := (2 - of_bool (frame_mbs_only_flag avc)) * pic_height_in_map_units avc * 16
       - (frame_crop_top_offset avc + frame_crop_bottom_offset avc) * 2\<rparr>"

definition avc_decode ::
    "(nat \<Rightarrow> u64) \<Rightarrow> (u64 \<Rightarrow> u64) \<Rightarrow> avc_reader \<Rightarrow> ngx_ts_avc_params option" where
  "avc_decode ub64 ub32 br =
     (case ngx_ts_avc_read br 8 of (type, br) \<Rightarrow>
      if type AND 0x1f \<noteq> 7 then None
      else
        case ngx_ts_avc_read br 8 of (profile, br) \<Rightarrow>
        case ngx_ts_avc_read br 8 of (cs, br) \<Rightarrow>
        case ngx_ts_avc_read br 8 of (level, br) \<Rightarrow>
        case ngx_ts_avc_read_golomb ub64 br of (spsid, br) \<Rightarrow>
        let avc = zero_avc\<lparr>profile_idc := profile, constraints := cs, level_idc := level, sps_id := spsid\<rparr> in
        case (if profile_idc avc \<in> set avc_high_profiles then avc_chroma ub64 avc br
              else Some (avc, br)) of
          None \<Rightarrow> None
        | Some (avc, br) \<Rightarrow>
            (case ngx_ts_avc_read_golomb ub64 br of (v, br) \<Rightarrow>
             case avc_pic_order ub64 ub32 (avc\<lparr>max_frame_num := shl_one32 ub32 (v + 4)\<rparr>) br of
               (avc, br) \<Rightarrow>
             case avc_frame ub64 avc br of (avc, br) \<Rightarrow>
             case avc_cropping ub64 avc br of (avc, br) \<Rightarrow>
             if ar_err br then None else Some (avc_set_size avc)))"

text \<open>184 is \<open>sizeof(ngx_ts_avc_params_t)\<close>.\<close>

definition ngx_ts_avc_decode_params ::
    "'p pool_ops \<Rightarrow> (nat \<Rightarrow> u64) \<Rightarrow> (u64 \<Rightarrow> u64) \<Rightarrow> 'p \<Rightarrow> bytes \<Rightarrow> bytes \<Rightarrow> ngx_ts_avc_params option \<times> 'p" where
  "ngx_ts_avc_decode_params ops ub64 ub32 p sps pps =
     (case p_alloc ops p 184 of
        None \<Rightarrow> (None, p)
      | Some (p, _) \<Rightarrow> (avc_decode ub64 ub32 (ngx_ts_avc_init_reader sps), p))"

section \<open>AAC\<close>

record ngx_ts_aac_params =
  aac_version :: nat
  aac_profile :: nat
  aac_freq_index :: nat
  aac_freq :: nat
  aac_chan :: nat

definition aac_freqs :: "nat list" where
  "aac_freqs = [96000, 88200, 64000, 48000, 44100, 32000, 24000, 22050,
                16000, 12000, 11025, 8000, 7350, 0, 0, 0]"

text \<open>40 is \<open>sizeof(ngx_ts_aac_params_t)\<close>.\<close>

definition ngx_ts_aac_decode_params ::
    "'p pool_ops \<Rightarrow> 'p \<Rightarrow> bytes \<Rightarrow> ngx_ts_aac_params option \<times> 'p" where
  "ngx_ts_aac_decode_params ops p adts =
     (if length adts < 7 then (None, p)
      else case p_alloc ops p 40 of
        None \<Rightarrow> (None, p)
      | Some (p, _) \<Rightarrow>
          let version = (if adts ! 1 AND 0x08 \<noteq> 0 then 1 else 0);
              profile = unat (drop_bit 6 (adts ! 2)) + 1;
              freq_index = unat (drop_bit 2 (adts ! 2) AND 0x0f);
              freq = aac_freqs ! freq_index
          in if freq = 0 then (None, p)
             else (Some \<lparr>aac_version = version, aac_profile = profile, aac_freq_index = freq_index,
                     aac_freq = freq,
                     aac_chan = unat (push_bit 2 (adts ! 2 AND 0x01) OR drop_bit 6 (adts ! 3))\<rparr>, p))"


section \<open>What a sequence parameter set means\<close>

text \<open>
  The syntax elements of ISO 14496-10, 7.3.2.1, and how they are written: the unsigned elements are Exp-Golomb
  codes, the signed ones are mapped to them by 9.1.1.  The scaling matrix has a list or none for each of
  its places, and a list is the differences that are sent for it (7.3.2.1.1.1).  The profiles with chroma
  fields are those of the present edition; the one the code cites, of 2004, has fewer, and the code does not know 135.
\<close>

record sps =
  s_nal :: nat
  s_profile :: nat
  s_constraints :: nat
  s_level :: nat
  s_id :: nat
  s_chroma :: nat
  s_residual :: bool
  s_luma :: nat
  s_depth :: nat
  s_qpprime :: bool
  s_scaling :: "int list option list option"
  s_log2_frame :: nat
  s_poc_type :: nat
  s_log2_poc :: nat
  s_delta_zero :: bool
  s_non_ref :: int
  s_top_bottom :: int
  s_cycle :: "int list"
  s_refs :: nat
  s_gaps :: bool
  s_width :: nat
  s_height :: nat
  s_mbs_only :: bool
  s_adaptive :: bool
  s_direct :: bool
  s_crop :: "(nat \<times> nat \<times> nat \<times> nat) option"

definition sps_high :: "sps \<Rightarrow> bool" where
  "sps_high s \<longleftrightarrow> s_profile s \<in> {100, 110, 122, 244, 44, 83, 86, 118, 128, 138, 139, 134, 135}"

definition se_code :: "int \<Rightarrow> nat" where
  "se_code k = (if 0 < k then nat (2 * k - 1) else nat (- 2 * k))"

abbreviation se_bits :: "int \<Rightarrow> bool list" where
  "se_bits k \<equiv> ue_bits (se_code k)"

fun matrix_bits :: "int list option list \<Rightarrow> bool list" where
  "matrix_bits [] = []"
| "matrix_bits (None # ls) = False # matrix_bits ls"
| "matrix_bits (Some ds # ls) = True # concat (map se_bits ds) @ matrix_bits ls"

definition chroma_bits :: "sps \<Rightarrow> bool list" where
  "chroma_bits s = ue_bits (s_chroma s) @ (if s_chroma s = 3 then [s_residual s] else []) @
     ue_bits (s_luma s) @ ue_bits (s_depth s) @ [s_qpprime s] @
     (case s_scaling s of None \<Rightarrow> [False] | Some ls \<Rightarrow> True # matrix_bits ls)"

definition poc_bits :: "sps \<Rightarrow> bool list" where
  "poc_bits s = ue_bits (s_poc_type s) @
     (if s_poc_type s = 0 then ue_bits (s_log2_poc s)
      else if s_poc_type s = 1 then
        s_delta_zero s # se_bits (s_non_ref s) @ se_bits (s_top_bottom s) @
        ue_bits (length (s_cycle s)) @ concat (map se_bits (s_cycle s))
      else [])"

definition frame_bits :: "sps \<Rightarrow> bool list" where
  "frame_bits s = ue_bits (s_refs s) @ s_gaps s # ue_bits (s_width s) @ ue_bits (s_height s) @
     s_mbs_only s # (if s_mbs_only s then [] else [s_adaptive s]) @ [s_direct s]"

definition crop_bits :: "sps \<Rightarrow> bool list" where
  "crop_bits s = (case s_crop s of
       None \<Rightarrow> [False]
     | Some (l, r, t, b) \<Rightarrow> True # ue_bits l @ ue_bits r @ ue_bits t @ ue_bits b)"

definition sps_bits :: "sps \<Rightarrow> bool list" where
  "sps_bits s = msb_bits 8 (s_nal s) @ msb_bits 8 (s_profile s) @ msb_bits 8 (s_constraints s) @
     msb_bits 8 (s_level s) @ ue_bits (s_id s) @ (if sps_high s then chroma_bits s else []) @
     ue_bits (s_log2_frame s) @ poc_bits s @ frame_bits s @ crop_bits s"

abbreviation ue_ok :: "nat \<Rightarrow> bool" where
  "ue_ok v \<equiv> ue_len v < 64"

text \<open>
  A scaling list ends when a difference makes the next scale 0 or when all places have one (16, or 64 from
  the seventh list on).
\<close>

fun scaling_list_ok :: "nat \<Rightarrow> int \<Rightarrow> int list \<Rightarrow> bool" where
  "scaling_list_ok 0 last_scale ds \<longleftrightarrow> ds = []"
| "scaling_list_ok (Suc n) last_scale [] \<longleftrightarrow> False"
| "scaling_list_ok (Suc n) last_scale (d # ds) \<longleftrightarrow> - 128 \<le> d \<and> d \<le> 127 \<and>
     (let next_scale = (last_scale + d + 256) mod 256
      in if next_scale = 0 then ds = [] else scaling_list_ok n next_scale ds)"

definition matrix_ok :: "sps \<Rightarrow> bool" where
  "matrix_ok s \<longleftrightarrow> (case s_scaling s of
       None \<Rightarrow> True
     | Some ls \<Rightarrow> length ls = (if s_chroma s \<noteq> 3 then 8 else 12) \<and>
         list_all (\<lambda>(i, l). case l of None \<Rightarrow> True | Some ds \<Rightarrow> scaling_list_ok (if i < 6 then 16 else 64) 8 ds)
           (zip [0..<length ls] ls))"

text \<open>The set has a scaling list, which its profile has to allow for.\<close>

definition has_lists :: "sps \<Rightarrow> bool" where
  "has_lists s \<longleftrightarrow> sps_high s \<and> (case s_scaling s of None \<Rightarrow> False | Some ls \<Rightarrow> list_ex (\<lambda>l. l \<noteq> None) ls)"

text \<open>Numbers that fit the fields, and 135 left aside.\<close>

definition sps_ok :: "sps \<Rightarrow> bool" where
  "sps_ok s \<longleftrightarrow> s_nal s < 256 \<and> s_nal s mod 32 = 7 \<and> s_profile s < 256 \<and> s_profile s \<noteq> 135 \<and> s_constraints s < 256 \<and>
     s_level s < 256 \<and> s_log2_frame s < 27 \<and> s_log2_poc s < 27 \<and> matrix_ok s \<and>
     list_all ue_ok ([s_id s, s_chroma s, s_luma s, s_depth s, s_log2_frame s, s_poc_type s, s_log2_poc s, se_code (s_non_ref s),
       se_code (s_top_bottom s), length (s_cycle s), s_refs s, s_width s, s_height s] @ map se_code (s_cycle s)) \<and>
     (case s_crop s of None \<Rightarrow> True | Some (l, r, t, b) \<Rightarrow> list_all ue_ok [l, r, t, b])"

text \<open>
  The fields as the code keeps them; every field the parse does not reach is zero.  It reads the two
  signed offsets of picture order count type 1 as if they were unsigned, so what it keeps of them is the
  number of their code.
\<close>

definition chroma_params :: "sps \<Rightarrow> ngx_ts_avc_params \<Rightarrow> ngx_ts_avc_params" where
  "chroma_params s avc = avc\<lparr>chroma_format_idc := word_of_nat (s_chroma s),
     residual_colour_transform_flag :=
       (if s_chroma s = 3 then s_residual s else residual_colour_transform_flag avc),
     bit_depth_luma := word_of_nat (s_luma s) + 8, bit_depth_chroma := word_of_nat (s_depth s) + 8,
     qpprime_y_zero_transform_bypass_flag := s_qpprime s,
     seq_scaling_matrix_present_flag := (s_scaling s \<noteq> None)\<rparr>"

definition poc_params :: "sps \<Rightarrow> ngx_ts_avc_params \<Rightarrow> ngx_ts_avc_params" where
  "poc_params s avc =
     (let avc = avc\<lparr>pic_order_cnt_type := word_of_nat (s_poc_type s)\<rparr>
      in if s_poc_type s = 0 then avc\<lparr>max_pic_order_cnt_lsb := 2 ^ (s_log2_poc s + 4)\<rparr>
         else if s_poc_type s = 1 then
           avc\<lparr>delta_pic_order_always_zero_flag := s_delta_zero s,
             offset_for_non_ref_pic := word_of_nat (se_code (s_non_ref s)),
             offset_for_top_to_bottom_field := word_of_nat (se_code (s_top_bottom s))\<rparr>
         else avc)"

definition frame_params :: "sps \<Rightarrow> ngx_ts_avc_params \<Rightarrow> ngx_ts_avc_params" where
  "frame_params s avc =
     (let avc = avc\<lparr>num_ref_frames := word_of_nat (s_refs s),
        gaps_in_frame_num_value_allowed_flag := s_gaps s,
        pic_width_in_mbs := word_of_nat (s_width s) + 1,
        pic_height_in_map_units := word_of_nat (s_height s) + 1,
        frame_mbs_only_flag := s_mbs_only s\<rparr>
      in (if s_mbs_only s then avc else avc\<lparr>mb_adaptive_frame_field_flag := s_adaptive s\<rparr>)
        \<lparr>direct_8x8_inference_flag := s_direct s\<rparr>)"

definition crop_params :: "sps \<Rightarrow> ngx_ts_avc_params \<Rightarrow> ngx_ts_avc_params" where
  "crop_params s avc = (case s_crop s of
       None \<Rightarrow> avc\<lparr>frame_cropping_flag := False\<rparr>
     | Some (l, r, t, b) \<Rightarrow> avc\<lparr>frame_cropping_flag := True, frame_crop_left_offset := word_of_nat l,
         frame_crop_right_offset := word_of_nat r, frame_crop_top_offset := word_of_nat t,
         frame_crop_bottom_offset := word_of_nat b\<rparr>)"

definition sps_fields :: "sps \<Rightarrow> ngx_ts_avc_params" where
  "sps_fields s =
     (let avc = zero_avc\<lparr>profile_idc := word_of_nat (s_profile s),
        constraints := word_of_nat (s_constraints s), level_idc := word_of_nat (s_level s),
        sps_id := word_of_nat (s_id s)\<rparr>;
        avc = (if sps_high s then chroma_params s avc else avc)
      in crop_params s (frame_params s (poc_params s (avc\<lparr>max_frame_num := 2 ^ (s_log2_frame s + 4)\<rparr>))))"

text \<open>
  The size of the picture in luma samples, by 7.4.2.1.1: 16 for each macroblock, twice the rows when the set
  counts rows of fields, less the cropping.  Cropping counts in units: one chroma sample, in a picture of
  fields one row of each field.  Profiles without the chroma fields are 4:2:0, and with separate colour
  planes there is no chroma.
\<close>

definition chroma_array_type :: "sps \<Rightarrow> nat" where
  "chroma_array_type s =
     (if \<not> sps_high s then 1 else if s_chroma s = 3 \<and> s_residual s then 0 else s_chroma s)"

definition crop_unit_x :: "sps \<Rightarrow> int" where
  "crop_unit_x s = (if chroma_array_type s \<in> {1, 2} then 2 else 1)"

definition crop_unit_y :: "sps \<Rightarrow> int" where
  "crop_unit_y s = (if chroma_array_type s = 1 then 2 else 1) * (if s_mbs_only s then 1 else 2)"

definition sps_crop :: "sps \<Rightarrow> nat \<times> nat \<times> nat \<times> nat" where
  "sps_crop s = (case s_crop s of None \<Rightarrow> (0, 0, 0, 0) | Some q \<Rightarrow> q)"

definition picture_width :: "sps \<Rightarrow> int" where
  "picture_width s = (case sps_crop s of (l, r, t, b) \<Rightarrow> 16 * (int (s_width s) + 1) - crop_unit_x s * (int l + int r))"

definition picture_height :: "sps \<Rightarrow> int" where
  "picture_height s = (case sps_crop s of (l, r, t, b) \<Rightarrow>
     (if s_mbs_only s then 1 else 2) * 16 * (int (s_height s) + 1) - crop_unit_y s * (int t + int b))"

text \<open>The parameters the set stands for, and what becomes of them where two offsets are read as unsigned codes.\<close>

definition sps_params :: "sps \<Rightarrow> ngx_ts_avc_params" where
  "sps_params s =
     (let avc = (sps_fields s)\<lparr>avc_width := word_of_int (picture_width s), avc_height := word_of_int (picture_height s)\<rparr>
      in if s_poc_type s = 1
         then avc\<lparr>offset_for_non_ref_pic := word_of_int (s_non_ref s), offset_for_top_to_bottom_field := word_of_int (s_top_bottom s)\<rparr>
         else avc)"

definition unsigned_offsets :: "sps \<Rightarrow> ngx_ts_avc_params \<Rightarrow> ngx_ts_avc_params" where
  "unsigned_offsets s avc =
     (if s_poc_type s = 1
      then avc\<lparr>offset_for_non_ref_pic := word_of_nat (se_code (s_non_ref s)),
             offset_for_top_to_bottom_field := word_of_nat (se_code (s_top_bottom s))\<rparr>
      else avc)"

text \<open>The code takes two for both units.  That is right for frames in 4:2:0, and where nothing is cropped.\<close>

definition crop_by_two :: "sps \<Rightarrow> bool" where
  "crop_by_two s \<longleftrightarrow> (case sps_crop s of (l, r, t, b) \<Rightarrow>
     (crop_unit_x s = 2 \<or> l + r = 0) \<and> (crop_unit_y s = 2 \<or> t + b = 0))"

section \<open>Reading a parameter set\<close>

definition at_bits :: "avc_reader \<Rightarrow> bool list \<Rightarrow> bool" where
  "at_bits br xs \<longleftrightarrow> reader_good br \<and> reader_bits br = xs"

text \<open>One element is read off the front; \<open>F\<close> is what the code does with it.\<close>

lemma read_bits:
  assumes "at_bits br (msb_bits n v @ ys)" "v < 2 ^ n"
  obtains br' where "ngx_ts_avc_read br n = (word_of_nat v, br')" "at_bits br' ys"
proof -
  have "bits_val (msb_bits n v) = word_of_nat v" using assms(2) by (simp add: bits_val_msb)
  then show ?thesis
    using avc.rd_app [of br "msb_bits n v" ys] assms(1) that by (auto simp: at_bits_def)
qed

lemma read_flag:
  assumes "at_bits br (b # ys)"
  obtains br' where "ngx_ts_avc_read br 1 = (of_bool b, br')" "at_bits br' ys"
  using avc.rd_bit [of br b ys] assms that by (auto simp: at_bits_def)

lemma read_ue:
  assumes "at_bits br (ue_bits v @ ys)" "ue_ok v"
  obtains br' where "ngx_ts_avc_read_golomb ub br = (word_of_nat v, br')" "at_bits br' ys"
  using avc_golomb_reads [of br v ys] assms that by (auto simp: at_bits_def)

lemma flag_step:
  assumes "at_bits br (b # ys)"
    and "\<And>br'. at_bits br' ys \<Longrightarrow> \<exists>c. at_bits c zs \<and> F (of_bool b) br' = K c"
  shows "\<exists>c. at_bits c zs \<and> (case ngx_ts_avc_read br 1 of (v, br) \<Rightarrow> F v br) = K c"
  using read_flag [OF assms(1)] assms(2) by (metis (no_types, lifting) case_prod_conv)

lemma ue_step:
  assumes "at_bits br (ue_bits v @ ys)" "ue_ok v"
    and "\<And>br'. at_bits br' ys \<Longrightarrow> \<exists>c. at_bits c zs \<and> F (word_of_nat v) br' = K c"
  shows "\<exists>c. at_bits c zs \<and> (case ngx_ts_avc_read_golomb ub br of (v, br) \<Rightarrow> F v br) = K c"
  using read_ue [OF assms(1,2)] assms(3) by (metis (no_types, lifting) case_prod_conv)

lemma bits_step:
  assumes "at_bits br (msb_bits n v @ ys)" "v < 2 ^ n"
    and "\<And>br'. at_bits br' ys \<Longrightarrow> \<exists>c. at_bits c zs \<and> F (word_of_nat v) br' = K c"
  shows "\<exists>c. at_bits c zs \<and> (case ngx_ts_avc_read br n of (v, br) \<Rightarrow> F v br) = K c"
  using read_bits [OF assms(1,2)] assms(3) by (metis (no_types, lifting) case_prod_conv)

lemma ue_less: "ue_ok v \<Longrightarrow> v < 2 ^ 64"
proof -
  assume "ue_ok v"
  then have "(2 :: nat) ^ (ue_len v + 1) \<le> 2 ^ 64" by (intro power_increasing) auto
  then show ?thesis using ue_len_bounds(2) [of v] by linarith
qed

lemma ue_word_eq: "ue_ok v \<Longrightarrow> k < 2 ^ 64 \<Longrightarrow> (word_of_nat v :: u64) = word_of_nat k \<longleftrightarrow> v = k"
  using ue_less [of v] by (auto simp: word_of_nat_eq_iff take_bit_nat_eq_self)

lemma flag1_of_bool [simp]: "flag1 (of_bool b) = b"
  by (cases b) auto


lemma scaling_lists_read:
  assumes "at_bits br (matrix_bits ls @ ys)" "\<not> list_ex (\<lambda>l. l \<noteq> None) ls"
  shows "\<exists>c. at_bits c ys \<and> avc_scaling_lists (length ls) br = Some c"
  using assms
proof (induction ls arbitrary: br)
  case (Cons l ls)
  then have "l = None" by simp
  with Cons.prems obtain b where "ngx_ts_avc_read br 1 = (0, b)" "at_bits b (matrix_bits ls @ ys)"
    using read_flag [of br False "matrix_bits ls @ ys"] by auto
  with Cons.IH [of b] Cons.prems(2) show ?case by simp
qed simp

lemma scaling_lists_refused:
  "at_bits br (matrix_bits ls @ ys) \<Longrightarrow> list_ex (\<lambda>l. l \<noteq> None) ls \<Longrightarrow> avc_scaling_lists (length ls) br = None"
proof (induction ls arbitrary: br)
  case (Cons l ls)
  show ?case
  proof (cases l)
    case None
    with Cons.prems obtain b where "ngx_ts_avc_read br 1 = (0, b)" "at_bits b (matrix_bits ls @ ys)"
      using read_flag [of br False "matrix_bits ls @ ys"] by auto
    with Cons.IH [of b] Cons.prems(2) None show ?thesis by simp
  next
    case (Some ds)
    with Cons.prems(1) obtain b where "ngx_ts_avc_read br 1 = (1, b)"
      using read_flag [of br True "concat (map se_bits ds) @ matrix_bits ls @ ys"] by auto
    then show ?thesis by simp
  qed
qed simp

lemma skip_golombs_read:
  "at_bits br (concat (map se_bits vs) @ ys) \<Longrightarrow> list_all ue_ok (map se_code vs) \<Longrightarrow>
   at_bits (avc_skip_golombs ub (length vs) br) ys"
proof (induction vs arbitrary: br)
  case (Cons v vs)
  from Cons.prems obtain b where "ngx_ts_avc_read_golomb ub br = (word_of_nat (se_code v), b)"
    "at_bits b (concat (map se_bits vs) @ ys)"
    using read_ue [of br "se_code v" "concat (map se_bits vs) @ ys" ub] by auto
  with Cons show ?case by simp
qed simp

text \<open>The chroma fields up to the scaling matrix, and then the matrix.\<close>

lemma chroma_head:
  assumes "at_bits br (chroma_bits s @ ys)" "sps_ok s"
  shows "\<exists>c. at_bits c (case s_scaling s of None \<Rightarrow> ys | Some ls \<Rightarrow> matrix_bits ls @ ys) \<and>
    avc_chroma ub avc br =
      (if s_scaling s \<noteq> None then
         (case avc_scaling_lists (if s_chroma s \<noteq> 3 then 8 else 12) c of
            None \<Rightarrow> None | Some br \<Rightarrow> Some (chroma_params s avc, br))
       else Some (chroma_params s avc, c))"
proof -
  have ok: "ue_ok (s_chroma s)" "ue_ok (s_luma s)" "ue_ok (s_depth s)"
    using assms(2) by (simp_all add: sps_ok_def)
  have is3: "(word_of_nat (s_chroma s) :: u64) = 3 \<longleftrightarrow> s_chroma s = 3"
    using ue_word_eq [OF ok(1), of 3] by simp
  let ?m = "case s_scaling s of None \<Rightarrow> ys | Some ls \<Rightarrow> matrix_bits ls @ ys"
  let ?tail = "ue_bits (s_luma s) @ ue_bits (s_depth s) @ s_qpprime s # (s_scaling s \<noteq> None) # ?m"
  have "at_bits br (ue_bits (s_chroma s) @ (if s_chroma s = 3 then [s_residual s] else []) @ ?tail)"
    using assms(1) by (cases "s_scaling s") (simp_all add: chroma_bits_def)
  from read_ue [OF this ok(1)] obtain b1 where
    1: "ngx_ts_avc_read_golomb ub br = (word_of_nat (s_chroma s), b1)"
      "at_bits b1 ((if s_chroma s = 3 then [s_residual s] else []) @ ?tail)" .
  define a1 where "a1 = avc\<lparr>chroma_format_idc := word_of_nat (s_chroma s),
    residual_colour_transform_flag := (if s_chroma s = 3 then s_residual s else residual_colour_transform_flag avc)\<rparr>"
  obtain b2 where
    2: "(if s_chroma s = 3
         then (case ngx_ts_avc_read b1 1 of (v, br) \<Rightarrow>
           (avc\<lparr>chroma_format_idc := word_of_nat (s_chroma s), residual_colour_transform_flag := flag1 v\<rparr>, br))
         else (avc\<lparr>chroma_format_idc := word_of_nat (s_chroma s)\<rparr>, b1)) = (a1, b2)" "at_bits b2 ?tail"
  proof (cases "s_chroma s = 3")
    case True
    with 1(2) have "at_bits b1 (s_residual s # ?tail)" by simp
    from read_flag [OF this] obtain b where "ngx_ts_avc_read b1 1 = (of_bool (s_residual s), b)" "at_bits b ?tail" .
    with True that [of b] show ?thesis by (simp add: a1_def)
  next
    case False
    with 1(2) that [of b1] show ?thesis by (simp add: a1_def)
  qed
  from read_ue [OF 2(2) ok(2)] obtain b3 where 3: "ngx_ts_avc_read_golomb ub b2 = (word_of_nat (s_luma s), b3)"
      "at_bits b3 (ue_bits (s_depth s) @ s_qpprime s # (s_scaling s \<noteq> None) # ?m)" .
  from read_ue [OF 3(2) ok(3)] obtain b4 where 4: "ngx_ts_avc_read_golomb ub b3 = (word_of_nat (s_depth s), b4)"
      "at_bits b4 (s_qpprime s # (s_scaling s \<noteq> None) # ?m)" .
  from read_flag [OF 4(2)] obtain b5 where 5: "ngx_ts_avc_read b4 1 = (of_bool (s_qpprime s), b5)"
      "at_bits b5 ((s_scaling s \<noteq> None) # ?m)" .
  from read_flag [OF 5(2)] obtain b6 where 6: "ngx_ts_avc_read b5 1 = (of_bool (s_scaling s \<noteq> None), b6)"
      "at_bits b6 ?m" .
  let ?a = "a1\<lparr>bit_depth_luma := word_of_nat (s_luma s) + 8, bit_depth_chroma := word_of_nat (s_depth s) + 8,
      qpprime_y_zero_transform_bypass_flag := s_qpprime s, seq_scaling_matrix_present_flag := (s_scaling s \<noteq> None)\<rparr>"
  have idc: "chroma_format_idc ?a = word_of_nat (s_chroma s)" "seq_scaling_matrix_present_flag ?a \<longleftrightarrow> s_scaling s \<noteq> None"
    "chroma_format_idc (avc\<lparr>chroma_format_idc := word_of_nat (s_chroma s)\<rparr>) = word_of_nat (s_chroma s)"
    by (simp_all add: a1_def)
  have a: "?a = chroma_params s avc" by (simp add: a1_def chroma_params_def)
  have "avc_chroma ub avc br =
      (if s_scaling s \<noteq> None then
         (case avc_scaling_lists (if s_chroma s \<noteq> 3 then 8 else 12) b6 of None \<Rightarrow> None | Some br \<Rightarrow> Some (?a, br))
       else Some (?a, b6))"
    unfolding avc_chroma_def
    by (simp only: 1(1) case_prod_conv Let_def idc is3 2(1) 3(1) 4(1) 5(1) 6(1) flag1_of_bool)
  then show ?thesis using 6(2) unfolding a by (intro exI [of _ b6] conjI)
qed

lemma matrix_length: "sps_ok s \<Longrightarrow> s_scaling s = Some ls \<Longrightarrow> (if s_chroma s \<noteq> 3 then 8 else 12) = length ls"
  by (simp add: sps_ok_def matrix_ok_def)

lemma chroma_read:
  assumes "at_bits br (chroma_bits s @ ys)" "sps_ok s" "sps_high s" "\<not> has_lists s"
  shows "\<exists>c. at_bits c ys \<and> avc_chroma ub avc br = Some (chroma_params s avc, c)"
proof -
  from chroma_head [OF assms(1,2), of ub avc] obtain b where
    b: "at_bits b (case s_scaling s of None \<Rightarrow> ys | Some ls \<Rightarrow> matrix_bits ls @ ys)"
    "avc_chroma ub avc br =
      (if s_scaling s \<noteq> None then
         (case avc_scaling_lists (if s_chroma s \<noteq> 3 then 8 else 12) b of
            None \<Rightarrow> None | Some br \<Rightarrow> Some (chroma_params s avc, br))
       else Some (chroma_params s avc, b))" by blast
  show ?thesis
  proof (cases "s_scaling s")
    case None
    then show ?thesis using b by auto
  next
    case (Some ls)
    then have "\<not> list_ex (\<lambda>l. l \<noteq> None) ls" using assms(3,4) by (simp add: has_lists_def)
    from scaling_lists_read [OF _ this, of b ys] obtain c where "at_bits c ys" "avc_scaling_lists (length ls) b = Some c"
      using b(1) Some by auto
    then show ?thesis using b(2) Some matrix_length [OF assms(2) Some] by (intro exI [of _ c]) simp
  qed
qed

lemma chroma_refused:
  assumes "at_bits br (chroma_bits s @ ys)" "sps_ok s" "has_lists s"
  shows "avc_chroma ub avc br = None"
proof -
  obtain ls where ls: "s_scaling s = Some ls" "list_ex (\<lambda>l. l \<noteq> None) ls"
    using assms(3) by (cases "s_scaling s") (auto simp: has_lists_def)
  with chroma_head [OF assms(1,2), of ub avc] show ?thesis
    using scaling_lists_refused [OF _ ls(2)] matrix_length [OF assms(2) ls(1)] by auto
qed


lemma shl_one32_log: "k < 27 \<Longrightarrow> shl_one32 ub32 (word_of_nat k + 4) = 2 ^ (k + 4)"
proof -
  assume k: "k < 27"
  have eq: "word_of_nat k + 4 = (word_of_nat (k + 4) :: u64)" by simp
  have u: "unat (word_of_nat (k + 4) :: u64) = k + 4"
    using k by (simp only: unsigned_of_nat take_bit_eq_mod) simp
  have "(word_of_nat (k + 4) :: u64) < 31"
    unfolding word_less_nat_alt u using k by simp
  then show ?thesis unfolding shl_one32_def eq u by (simp add: push_bit_eq_mult)
qed

lemma avc_written_fields:
  "pic_order_cnt_type (avc\<lparr>pic_order_cnt_type := v\<rparr>) = v"
  "frame_cropping_flag (avc\<lparr>frame_cropping_flag := b\<rparr>) = b"
  "frame_mbs_only_flag (avc\<lparr>frame_mbs_only_flag := b\<rparr>) = b"
  by simp_all

lemma poc_read:
  assumes "at_bits br (poc_bits s @ ys)" "sps_ok s"
  shows "\<exists>c. at_bits c ys \<and> avc_pic_order ub ub32 avc br = (poc_params s avc, c)"
proof -
  have ok: "ue_ok (s_poc_type s)" "ue_ok (s_log2_poc s)" "ue_ok (se_code (s_non_ref s))" "ue_ok (se_code (s_top_bottom s))"
    "ue_ok (length (s_cycle s))" "list_all ue_ok (map se_code (s_cycle s))" "s_log2_poc s < 27"
    using assms(2) by (simp_all add: sps_ok_def)
  have is01: "(word_of_nat (s_poc_type s) :: u64) = 0 \<longleftrightarrow> s_poc_type s = 0"
    "(word_of_nat (s_poc_type s) :: u64) = 1 \<longleftrightarrow> s_poc_type s = 1"
    using ue_word_eq [OF ok(1), of 0] ue_word_eq [OF ok(1), of 1] by simp_all
  have cycle: "unat (word_of_nat (length (s_cycle s)) :: u64) = length (s_cycle s)"
    using ue_less [OF ok(5)] by (simp add: unsigned_of_nat take_bit_nat_eq_self)
  consider (zero) "s_poc_type s = 0" | (one) "s_poc_type s = 1" | (other) "s_poc_type s \<notin> {0, 1}"
    by auto
  then show ?thesis
  proof cases
    case zero
    then have type: "((word_of_nat (s_poc_type s) :: u64) = 0) = True" by simp
    from zero assms(1) have "at_bits br (ue_bits (s_poc_type s) @ ue_bits (s_log2_poc s) @ ys)"
      by (simp add: poc_bits_def)
    then show ?thesis
      unfolding avc_pic_order_def
      apply -
      apply (erule ue_step, rule ok)
      apply (simp only: Let_def avc_written_fields type if_True)
      apply (erule ue_step, rule ok)
      using ok(7) by (auto simp: poc_params_def Let_def zero shl_one32_log)
  next
    case one
    then have type: "((word_of_nat (s_poc_type s) :: u64) = 0) = False"
      "((word_of_nat (s_poc_type s) :: u64) = 1) = True" by simp_all
    from one assms(1) have "at_bits br (ue_bits (s_poc_type s) @ s_delta_zero s # se_bits (s_non_ref s) @
        se_bits (s_top_bottom s) @ ue_bits (length (s_cycle s)) @ concat (map se_bits (s_cycle s)) @ ys)"
      by (simp add: poc_bits_def)
    then show ?thesis
      unfolding avc_pic_order_def
      apply -
      apply (erule ue_step, rule ok)
      apply (simp only: Let_def avc_written_fields type if_True if_False)
      apply (erule flag_step)
      apply (erule ue_step, rule ok)
      apply (erule ue_step, rule ok)
      apply (erule ue_step, rule ok)
      using skip_golombs_read [OF _ ok(6)] by (auto simp: poc_params_def Let_def one cycle)
  next
    case other
    with assms(1) have "at_bits br (ue_bits (s_poc_type s) @ ys)"
      by (simp add: poc_bits_def)
    then show ?thesis
      unfolding avc_pic_order_def
      apply -
      apply (erule ue_step, rule ok)
      using other by (auto simp: poc_params_def Let_def is01)
  qed
qed

lemma frame_read:
  assumes "at_bits br (frame_bits s @ ys)" "sps_ok s"
  shows "\<exists>c. at_bits c ys \<and> avc_frame ub avc br = (frame_params s avc, c)"
proof -
  have ok: "ue_ok (s_refs s)" "ue_ok (s_width s)" "ue_ok (s_height s)"
    using assms(2) by (simp_all add: sps_ok_def)
  have last: "\<exists>c. at_bits c ys \<and> (case ngx_ts_avc_read b 1 of (v, br) \<Rightarrow>
      (a\<lparr>direct_8x8_inference_flag := flag1 v\<rparr>, br)) = (a\<lparr>direct_8x8_inference_flag := s_direct s\<rparr>, c)"
    if "at_bits b (s_direct s # ys)" for a b
    using that
    apply -
    apply (erule flag_step)
    by auto
  show ?thesis
  proof (cases "s_mbs_only s")
    case True
    with assms(1) have "at_bits br (ue_bits (s_refs s) @ s_gaps s # ue_bits (s_width s) @
        ue_bits (s_height s) @ s_mbs_only s # s_direct s # ys)"
      by (simp add: frame_bits_def)
    then show ?thesis
      unfolding avc_frame_def
      apply -
      apply (erule ue_step, rule ok)
      apply (erule flag_step)
      apply (erule ue_step, rule ok)
      apply (erule ue_step, rule ok)
      apply (erule flag_step)
      apply (simp only: Let_def flag1_of_bool True simp_thms if_False case_prod_conv avc_written_fields)
      apply (drule last)
      by (auto simp: frame_params_def Let_def True)
  next
    case False
    with assms(1) have "at_bits br (ue_bits (s_refs s) @ s_gaps s # ue_bits (s_width s) @
        ue_bits (s_height s) @ s_mbs_only s # s_adaptive s # s_direct s # ys)"
      by (simp add: frame_bits_def)
    then show ?thesis
      unfolding avc_frame_def
      apply -
      apply (erule ue_step, rule ok)
      apply (erule flag_step)
      apply (erule ue_step, rule ok)
      apply (erule ue_step, rule ok)
      apply (erule flag_step)
      apply (simp only: Let_def flag1_of_bool False simp_thms if_True avc_written_fields)
      apply (erule read_flag)
      apply (simp only: case_prod_conv flag1_of_bool)
      apply (drule last)
      by (auto simp: frame_params_def Let_def False)
  qed
qed

lemma crop_read:
  assumes "at_bits br (crop_bits s @ ys)" "sps_ok s"
  shows "\<exists>c. at_bits c ys \<and> avc_cropping ub avc br = (crop_params s avc, c)"
proof (cases "s_crop s")
  case None
  with assms(1) have "at_bits br (False # ys)" by (simp add: crop_bits_def)
  then show ?thesis
    unfolding avc_cropping_def
    apply -
    apply (erule flag_step)
    by (auto simp: Let_def crop_params_def None)
next
  case (Some q)
  obtain l r t b where q: "q = (l, r, t, b)" by (metis prod.collapse)
  have ok: "ue_ok l" "ue_ok r" "ue_ok t" "ue_ok b"
    using assms(2) by (simp_all add: sps_ok_def Some q)
  from assms(1) have "at_bits br (True # ue_bits l @ ue_bits r @ ue_bits t @ ue_bits b @ ys)"
    by (simp add: crop_bits_def Some q)
  then show ?thesis
    unfolding avc_cropping_def
    apply -
    apply (erule flag_step)
    apply (simp only: Let_def flag1_of_bool if_True avc_written_fields)
    apply (erule ue_step, rule ok)
    apply (erule ue_step, rule ok)
    apply (erule ue_step, rule ok)
    apply (erule ue_step, rule ok)
    by (auto simp: crop_params_def Some q)
qed


text \<open>The last steps of the parse, from \<open>log2_max_frame_num\<close> on.\<close>

lemma avc_tail:
  assumes "at_bits br (ue_bits (s_log2_frame s) @ poc_bits s @ frame_bits s @ crop_bits s @ ys)" "sps_ok s"
  shows "(case ngx_ts_avc_read_golomb ub br of (v, br) \<Rightarrow>
      case avc_pic_order ub ub32 (avc\<lparr>max_frame_num := shl_one32 ub32 (v + 4)\<rparr>) br of (avc, br) \<Rightarrow>
      case avc_frame ub avc br of (avc, br) \<Rightarrow>
      case avc_cropping ub avc br of (avc, br) \<Rightarrow>
      if ar_err br then None else Some (avc_set_size avc)) =
    Some (avc_set_size (crop_params s (frame_params s (poc_params s
      (avc\<lparr>max_frame_num := 2 ^ (s_log2_frame s + 4)\<rparr>)))))"
proof -
  have ok: "ue_ok (s_log2_frame s)" "s_log2_frame s < 27" using assms(2) by (simp_all add: sps_ok_def)
  obtain b1 where 1: "ngx_ts_avc_read_golomb ub br = (word_of_nat (s_log2_frame s), b1)"
    "at_bits b1 (poc_bits s @ frame_bits s @ crop_bits s @ ys)"
    using read_ue [OF assms(1) ok(1)] .
  let ?a1 = "avc\<lparr>max_frame_num := 2 ^ (s_log2_frame s + 4)\<rparr>"
  obtain b2 where 2: "avc_pic_order ub ub32 ?a1 b1 = (poc_params s ?a1, b2)"
    "at_bits b2 (frame_bits s @ crop_bits s @ ys)"
    using poc_read [OF 1(2) assms(2)] by metis
  obtain b3 where 3: "avc_frame ub (poc_params s ?a1) b2 = (frame_params s (poc_params s ?a1), b3)"
    "at_bits b3 (crop_bits s @ ys)"
    using frame_read [OF 2(2) assms(2)] by metis
  obtain b4 where 4: "avc_cropping ub (frame_params s (poc_params s ?a1)) b3 =
      (crop_params s (frame_params s (poc_params s ?a1)), b4)" "at_bits b4 ys"
    using crop_read [OF 3(2) assms(2)] by metis
  have "\<not> ar_err b4" using 4(2) by (simp add: at_bits_def reader_good_def)
  then show ?thesis
    by (simp only: 1(1) case_prod_conv shl_one32_log [OF ok(2)] 2(1) 3(1) 4(1) if_False)
qed

definition no_crop :: "ngx_ts_avc_params \<Rightarrow> bool" where
  "no_crop avc \<longleftrightarrow> frame_crop_left_offset avc = 0 \<and> frame_crop_right_offset avc = 0 \<and>
     frame_crop_top_offset avc = 0 \<and> frame_crop_bottom_offset avc = 0"

lemma no_crop_params:
  "no_crop avc \<Longrightarrow> no_crop (frame_params s avc)" "no_crop avc \<Longrightarrow> no_crop (poc_params s avc)"
  "no_crop avc \<Longrightarrow> no_crop (chroma_params s avc)"
  by (simp_all add: no_crop_def frame_params_def poc_params_def chroma_params_def Let_def)

lemma word_of_int_of_nat: "word_of_int (int n) = (word_of_nat n :: 'a::len word)"
  by simp

lemma fields_size:
  "avc_set_size (sps_fields s) = (case sps_crop s of (l, r, t, b) \<Rightarrow> (sps_fields s)\<lparr>
     avc_width := word_of_int (16 * (int (s_width s) + 1) - 2 * (int l + int r)),
     avc_height := word_of_int ((if s_mbs_only s then 1 else 2) * 16 * (int (s_height s) + 1) - 2 * (int t + int b))\<rparr>)"
proof -
  define avc where "avc = frame_params s (poc_params s ((let avc = zero_avc\<lparr>profile_idc := word_of_nat (s_profile s),
        constraints := word_of_nat (s_constraints s), level_idc := word_of_nat (s_level s),
        sps_id := word_of_nat (s_id s)\<rparr> in if sps_high s then chroma_params s avc else avc)
      \<lparr>max_frame_num := 2 ^ (s_log2_frame s + 4)\<rparr>))"
  have fields: "sps_fields s = crop_params s avc" by (simp only: sps_fields_def avc_def Let_def)
  have "no_crop avc"
    unfolding avc_def by (intro no_crop_params) (simp add: no_crop_def zero_avc_def chroma_params_def Let_def)
  moreover have "pic_width_in_mbs avc = word_of_nat (s_width s) + 1"
    "pic_height_in_map_units avc = word_of_nat (s_height s) + 1" "frame_mbs_only_flag avc = s_mbs_only s"
    by (simp_all add: avc_def frame_params_def Let_def)
  ultimately show ?thesis
    unfolding fields
    by (auto simp: avc_set_size_def crop_params_def no_crop_def sps_crop_def algebra_simps split: option.splits)
qed

lemma fields_offsets:
  assumes "s_poc_type s = 1"
  shows "offset_for_non_ref_pic (sps_fields s) = word_of_nat (se_code (s_non_ref s))"
    "offset_for_top_to_bottom_field (sps_fields s) = word_of_nat (se_code (s_top_bottom s))"
  using assms
  by (simp_all add: sps_fields_def crop_params_def frame_params_def poc_params_def Let_def split: option.splits prod.splits)

lemma fields_params: "crop_by_two s \<Longrightarrow> avc_set_size (sps_fields s) = unsigned_offsets s (sps_params s)"
proof -
  assume "crop_by_two s"
  then have "avc_set_size (sps_fields s) =
      (sps_fields s)\<lparr>avc_width := word_of_int (picture_width s), avc_height := word_of_int (picture_height s)\<rparr>"
    unfolding fields_size by (auto simp: crop_by_two_def picture_width_def picture_height_def split: prod.splits)
  also have "\<dots> = unsigned_offsets s (sps_params s)"
  proof (cases "s_poc_type s = 1")
    case True
    then show ?thesis using fields_offsets [OF True]
      by (cases "sps_fields s") (simp add: sps_params_def unsigned_offsets_def)
  qed (simp add: sps_params_def unsigned_offsets_def)
  finally show ?thesis .
qed

lemma high_profile_iff:
  assumes "s_profile s < 256" "s_profile s \<noteq> 135"
  shows "(word_of_nat (s_profile s) :: u64) \<in> set avc_high_profiles \<longleftrightarrow> sps_high s"
proof -
  have "(word_of_nat (s_profile s) :: u64) = word_of_nat k \<longleftrightarrow> s_profile s = k" if "k < 256" for k
    using assms that by (auto simp: word_of_nat_eq_iff take_bit_nat_eq_self)
  from this [of 100] this [of 110] this [of 122] this [of 244] this [of 44] this [of 83] this [of 86]
    this [of 118] this [of 128] this [of 138] this [of 139] this [of 134]
  show ?thesis using assms(2) by (simp add: avc_high_profiles_def sps_high_def)
qed

text \<open>The fields in front of the chroma fields, and what follows with or without these.\<close>

abbreviation sps_tail :: "sps \<Rightarrow> bool list" where
  "sps_tail s \<equiv> ue_bits (s_log2_frame s) @ poc_bits s @ frame_bits s @ crop_bits s"

lemma avc_decode_head:
  assumes "bits_of_bytes buf = sps_bits s @ ys" "sps_ok s"
  obtains b a where "at_bits b ((if sps_high s then chroma_bits s else []) @ sps_tail s @ ys)"
    "a = zero_avc\<lparr>profile_idc := word_of_nat (s_profile s), constraints := word_of_nat (s_constraints s),
       level_idc := word_of_nat (s_level s), sps_id := word_of_nat (s_id s)\<rparr>"
    "avc_decode ub64 ub32 (ngx_ts_avc_init_reader buf) =
      (case (if sps_high s then avc_chroma ub64 a b else Some (a, b)) of
         None \<Rightarrow> None
       | Some (avc, br) \<Rightarrow>
           (case ngx_ts_avc_read_golomb ub64 br of (v, br) \<Rightarrow>
            case avc_pic_order ub64 ub32 (avc\<lparr>max_frame_num := shl_one32 ub32 (v + 4)\<rparr>) br of (avc, br) \<Rightarrow>
            case avc_frame ub64 avc br of (avc, br) \<Rightarrow>
            case avc_cropping ub64 avc br of (avc, br) \<Rightarrow>
            if ar_err br then None else Some (avc_set_size avc)))"
proof -
  have ok: "s_nal s < 2 ^ 8" "s_profile s < 2 ^ 8" "s_constraints s < 2 ^ 8" "s_level s < 2 ^ 8"
    "ue_ok (s_id s)" "s_profile s < 256" "s_profile s \<noteq> 135"
    using assms(2) by (simp_all add: sps_ok_def)
  have nal: "(word_of_nat (s_nal s) :: u64) AND 0x1f = 7"
  proof -
    have "(0x1f :: u64) = mask 5" by (simp add: mask_eq_exp_minus_1)
    then have "unat ((word_of_nat (s_nal s) :: u64) AND 0x1f) = 7"
      using assms(2) ok(1) by (simp only: unat_and_mask) (simp add: sps_ok_def unsigned_of_nat take_bit_nat_eq_self)
    then show ?thesis by (simp add: word_unat_eq_iff)
  qed
  let ?rest = "(if sps_high s then chroma_bits s else []) @ sps_tail s @ ys"
  have "at_bits (ngx_ts_avc_init_reader buf) (msb_bits 8 (s_nal s) @ msb_bits 8 (s_profile s) @
      msb_bits 8 (s_constraints s) @ msb_bits 8 (s_level s) @ ue_bits (s_id s) @ ?rest)" (is "at_bits ?b0 _")
    using assms(1) by (simp add: at_bits_def ngx_ts_avc_init_reader_def reader_good_def reader_bits_def sps_bits_def)
  from read_bits [OF this ok(1)] obtain b1 where 1: "ngx_ts_avc_read ?b0 8 = (word_of_nat (s_nal s), b1)"
    and "at_bits b1 (msb_bits 8 (s_profile s) @ msb_bits 8 (s_constraints s) @ msb_bits 8 (s_level s) @
      ue_bits (s_id s) @ ?rest)" .
  from read_bits [OF this(2) ok(2)] obtain b2 where 2: "ngx_ts_avc_read b1 8 = (word_of_nat (s_profile s), b2)"
    and "at_bits b2 (msb_bits 8 (s_constraints s) @ msb_bits 8 (s_level s) @ ue_bits (s_id s) @ ?rest)" .
  from read_bits [OF this(2) ok(3)] obtain b3 where 3: "ngx_ts_avc_read b2 8 = (word_of_nat (s_constraints s), b3)"
    and "at_bits b3 (msb_bits 8 (s_level s) @ ue_bits (s_id s) @ ?rest)" .
  from read_bits [OF this(2) ok(4)] obtain b4 where 4: "ngx_ts_avc_read b3 8 = (word_of_nat (s_level s), b4)"
    and "at_bits b4 (ue_bits (s_id s) @ ?rest)" .
  from read_ue [OF this(2) ok(5)] obtain b5 where 5: "ngx_ts_avc_read_golomb ub64 b4 = (word_of_nat (s_id s), b5)"
    and b5: "at_bits b5 ?rest" .
  define a where "a = zero_avc\<lparr>profile_idc := word_of_nat (s_profile s),
    constraints := word_of_nat (s_constraints s), level_idc := word_of_nat (s_level s),
    sps_id := word_of_nat (s_id s)\<rparr>"
  have prof: "profile_idc a = word_of_nat (s_profile s)" by (simp add: a_def)
  show ?thesis
    by (rule that [OF b5 a_def], unfold avc_decode_def)
      (simp only: 1 2 3 4 5 case_prod_conv nal Let_def a_def [symmetric] prof high_profile_iff [OF ok(6,7)], simp)
qed

lemma avc_decode_reads:
  assumes "bits_of_bytes buf = sps_bits s @ ys" "sps_ok s" "\<not> has_lists s"
  shows "avc_decode ub64 ub32 (ngx_ts_avc_init_reader buf) = Some (avc_set_size (sps_fields s))"
proof -
  obtain b a where b: "at_bits b ((if sps_high s then chroma_bits s else []) @ sps_tail s @ ys)"
    and a: "a = zero_avc\<lparr>profile_idc := word_of_nat (s_profile s), constraints := word_of_nat (s_constraints s),
       level_idc := word_of_nat (s_level s), sps_id := word_of_nat (s_id s)\<rparr>"
    and run: "avc_decode ub64 ub32 (ngx_ts_avc_init_reader buf) =
      (case (if sps_high s then avc_chroma ub64 a b else Some (a, b)) of
         None \<Rightarrow> None
       | Some (avc, br) \<Rightarrow>
           (case ngx_ts_avc_read_golomb ub64 br of (v, br) \<Rightarrow>
            case avc_pic_order ub64 ub32 (avc\<lparr>max_frame_num := shl_one32 ub32 (v + 4)\<rparr>) br of (avc, br) \<Rightarrow>
            case avc_frame ub64 avc br of (avc, br) \<Rightarrow>
            case avc_cropping ub64 avc br of (avc, br) \<Rightarrow>
            if ar_err br then None else Some (avc_set_size avc)))"
    using avc_decode_head [OF assms(1,2)] .
  obtain c where 6: "(if sps_high s then avc_chroma ub64 a b else Some (a, b))
      = Some (if sps_high s then chroma_params s a else a, c)"
    and c: "at_bits c (ue_bits (s_log2_frame s) @ poc_bits s @ frame_bits s @ crop_bits s @ ys)"
  proof (cases "sps_high s")
    case True
    with b have "at_bits b (chroma_bits s @ sps_tail s @ ys)" by (simp only: if_True)
    from chroma_read [OF this assms(2) True assms(3), of ub64 a] obtain c where
      "at_bits c (sps_tail s @ ys)" "avc_chroma ub64 a b = Some (chroma_params s a, c)" by blast
    with True that [of c] show ?thesis by simp
  next
    case False
    with b that [of b] show ?thesis by simp
  qed
  show ?thesis
    unfolding run 6 sps_fields_def
    by (simp only: option.case case_prod_conv avc_tail [OF c assms(2)] Let_def a)
qed



text \<open>
  The witness: 1920x1080 in the high profile, 1088 rows less four steps of cropping, with an empty scaling
  matrix and two signed offsets.
\<close>

definition sps_1080p :: sps where
  "sps_1080p = \<lparr>s_nal = 0x67, s_profile = 100, s_constraints = 0, s_level = 40, s_id = 0,
     s_chroma = 1, s_residual = False, s_luma = 0, s_depth = 0, s_qpprime = False, s_scaling = Some (replicate 8 None),
     s_log2_frame = 0, s_poc_type = 1, s_log2_poc = 0, s_delta_zero = False, s_non_ref = -1,
     s_top_bottom = 1, s_cycle = [], s_refs = 1, s_gaps = False, s_width = 119, s_height = 67,
     s_mbs_only = True, s_adaptive = False, s_direct = True, s_crop = Some (0, 0, 0, 4)\<rparr>"

text \<open>And 320x240 in the baseline profile: 67 42 c0 1e da 05 07 e8.\<close>

definition sps_320x240 :: sps where
  "sps_320x240 = \<lparr>s_nal = 0x67, s_profile = 66, s_constraints = 0xc0, s_level = 30, s_id = 0,
     s_chroma = 0, s_residual = False, s_luma = 0, s_depth = 0, s_qpprime = False, s_scaling = None,
     s_log2_frame = 0, s_poc_type = 2, s_log2_poc = 0, s_delta_zero = False, s_non_ref = 0,
     s_top_bottom = 0, s_cycle = [], s_refs = 1, s_gaps = False, s_width = 19, s_height = 14,
     s_mbs_only = True, s_adaptive = False, s_direct = True, s_crop = None\<rparr>"

lemma bits_320x240:
  "bits_of_bytes [0x67, 0x42, 0xc0, 0x1e, 0xda, 0x05, 0x07, 0xe8] = sps_bits sps_320x240 @ [True, False, False, False]"
  "sps_ok sps_320x240" "\<not> has_lists sps_320x240"
proof -
  have lens: "ue_len 0 = 0" "ue_len (Suc 0) = 1" "ue_len 2 = 1" "ue_len 19 = 4" "ue_len 14 = 3"
    by (simp_all add: ue_len.simps)
  have zeros: "replicate 4 False = [False, False, False, False]" "replicate 3 False = [False, False, False]"
    by (simp_all add: eval_nat_numeral)
  show "bits_of_bytes [0x67, 0x42, 0xc0, 0x1e, 0xda, 0x05, 0x07, 0xe8] = sps_bits sps_320x240 @ [True, False, False, False]"
    by (simp add: sps_320x240_def sps_bits_def sps_high_def poc_bits_def frame_bits_def crop_bits_def
        ue_bits_def lens msb_bits_def upt_rec byte_bits_msb_def zeros)
  show "sps_ok sps_320x240" "\<not> has_lists sps_320x240"
    by (simp_all add: sps_320x240_def sps_ok_def lens se_code_def matrix_ok_def has_lists_def)
qed

lemma code_lengths:
  "ue_len 0 = 0" "ue_len (Suc 0) = 1" "ue_len 2 = 1" "ue_len 4 = 2" "ue_len 14 = 3" "ue_len 15 = 4" "ue_len 16 = 4"
  "ue_len 19 = 4" "ue_len 33 = 5" "ue_len 67 = 6" "ue_len 119 = 6"
  by (simp_all add: ue_len.simps)

lemma zero_bits:
  "replicate 2 False = [False, False]" "replicate 3 False = [False, False, False]" "replicate 4 False = [False, False, False, False]"
  "replicate 5 False = [False, False, False, False, False]" "replicate 6 False = [False, False, False, False, False, False]"
  "replicate 8 (None :: int list option) = [None, None, None, None, None, None, None, None]"
  by (simp_all add: eval_nat_numeral)

lemmas write_sps = sps_bits_def sps_high_def chroma_bits_def poc_bits_def frame_bits_def crop_bits_def ue_bits_def
  se_code_def code_lengths msb_bits_def upt_rec byte_bits_msb_def zero_bits
lemmas check_sps = sps_ok_def has_lists_def sps_high_def matrix_ok_def se_code_def code_lengths zero_bits upt_rec


section \<open>Where the code departs from the standard\<close>

text \<open>
  A picture of fields in 4:2:0 is cropped in steps of four rows, of which the code takes two: it returns too
  many rows.  For 1920x1080 in fields, 1088 rows less two steps, it returns 1084.
\<close>

lemma avc_interlaced_crop:
  assumes "bits_of_bytes buf = sps_bits s @ ys" "sps_ok s" "\<not> has_lists s" "p_alloc ops p 184 = Some (p', m)"
    and "chroma_array_type s = 1" "\<not> s_mbs_only s" "s_crop s = Some (l, r, t, b)"
  shows "\<exists>avc. ngx_ts_avc_decode_params ops ub64 ub32 p buf pps = (Some avc, p') \<and>
    avc_width avc = word_of_int (picture_width s) \<and> avc_height avc = word_of_int (picture_height s + 2 * (int t + int b))"
proof -
  have "crop_unit_x s = 2" "crop_unit_y s = 4" using assms(5,6) by (simp_all add: crop_unit_x_def crop_unit_y_def)
  then show ?thesis
    using avc_decode_reads [OF assms(1-3)] assms(4,6,7)
    by (simp add: ngx_ts_avc_decode_params_def fields_size sps_crop_def picture_width_def picture_height_def)
qed

definition sps_1080i :: sps where
  "sps_1080i = sps_1080p\<lparr>s_scaling := None, s_poc_type := 2, s_height := 33, s_mbs_only := False, s_crop := Some (0, 0, 0, 2)\<rparr>"

lemma avc_1080i:
  "\<exists>avc. ngx_ts_avc_decode_params unit_pool (\<lambda>_. 0) (\<lambda>_. 0) ()
      [0x67, 0x64, 0x00, 0x28, 0xac, 0xb4, 0x03, 0xc0, 0x22, 0x3e, 0xe0] [] = (Some avc, ()) \<and> avc_height avc = 1084"
  "picture_height sps_1080i = 1080"
proof -
  have bits: "bits_of_bytes [0x67, 0x64, 0x00, 0x28, 0xac, 0xb4, 0x03, 0xc0, 0x22, 0x3e, 0xe0] =
      sps_bits sps_1080i @ [True, False, False, False, False, False]"
    by (simp add: sps_1080i_def sps_1080p_def write_sps)
  have ok: "sps_ok sps_1080i" "\<not> has_lists sps_1080i" by (simp_all add: sps_1080i_def sps_1080p_def check_sps)
  show h: "picture_height sps_1080i = 1080"
    by (simp add: sps_1080i_def sps_1080p_def picture_height_def crop_unit_y_def chroma_array_type_def sps_crop_def sps_high_def)
  have s: "chroma_array_type sps_1080i = 1" "\<not> s_mbs_only sps_1080i" "s_crop sps_1080i = Some (0, 0, 0, 2)"
    by (simp_all add: sps_1080i_def sps_1080p_def chroma_array_type_def sps_high_def)
  have "p_alloc unit_pool () 184 = Some ((), replicate 184 0)" by (simp add: unit_pool_def)
  from avc_interlaced_crop [OF bits ok this s, of "\<lambda>_. 0" "\<lambda>_. 0" "[]"] h
  show "\<exists>avc. ngx_ts_avc_decode_params unit_pool (\<lambda>_. 0) (\<lambda>_. 0) ()
      [0x67, 0x64, 0x00, 0x28, 0xac, 0xb4, 0x03, 0xc0, 0x22, 0x3e, 0xe0] [] = (Some avc, ()) \<and> avc_height avc = 1084"
    by auto
qed

lemma avc_decode_refused:
  assumes "bits_of_bytes buf = sps_bits s @ ys" "sps_ok s" "has_lists s"
  shows "avc_decode ub64 ub32 (ngx_ts_avc_init_reader buf) = None"
proof -
  obtain b a where b: "at_bits b ((if sps_high s then chroma_bits s else []) @ sps_tail s @ ys)"
    and run: "avc_decode ub64 ub32 (ngx_ts_avc_init_reader buf) =
      (case (if sps_high s then avc_chroma ub64 a b else Some (a, b)) of
         None \<Rightarrow> None
       | Some (avc, br) \<Rightarrow>
           (case ngx_ts_avc_read_golomb ub64 br of (v, br) \<Rightarrow>
            case avc_pic_order ub64 ub32 (avc\<lparr>max_frame_num := shl_one32 ub32 (v + 4)\<rparr>) br of (avc, br) \<Rightarrow>
            case avc_frame ub64 avc br of (avc, br) \<Rightarrow>
            case avc_cropping ub64 avc br of (avc, br) \<Rightarrow>
            if ar_err br then None else Some (avc_set_size avc)))"
    using avc_decode_head [OF assms(1,2)] by metis
  have high: "sps_high s" using assms(3) by (simp add: has_lists_def)
  with b have "at_bits b (chroma_bits s @ sps_tail s @ ys)" by (simp only: if_True)
  from chroma_refused [OF this assms(2,3), of ub64 a] show ?thesis using high run by simp
qed

text \<open>
  C31: a sequence parameter set that has a scaling list, which ISO 14496-10 allows in the high profiles, is
  refused, wherever the list stands and whatever it holds; the parameters behind it are never returned.
\<close>

theorem avc_scaling_list_refused:
  assumes "bits_of_bytes buf = sps_bits s @ ys" "sps_ok s" "has_lists s" "p_alloc ops p 184 = Some (p', m)"
  shows "ngx_ts_avc_decode_params ops ub64 ub32 p buf pps = (None, p')"
  using avc_decode_refused [OF assms(1-3)] assms(4) by (simp add: ngx_ts_avc_decode_params_def)

text \<open>A set whose second list is the one difference -8, which stands for the default list.\<close>

definition sps_listed :: sps where
  "sps_listed = sps_1080p\<lparr>s_scaling := Some [None, Some [- 8], None, None, None, None, None, None], s_poc_type := 2\<rparr>"

theorem avc_scaling_list_refused_witness:
  "ngx_ts_avc_decode_params unit_pool (\<lambda>_. 0) (\<lambda>_. 0) ()
     [0x67, 0x64, 0x00, 0x28, 0xad, 0x42, 0x20, 0x5a, 0x01, 0xe0, 0x08, 0x9f, 0x96] [] = (None, ())"
proof -
  have bits: "bits_of_bytes [0x67, 0x64, 0x00, 0x28, 0xad, 0x42, 0x20, 0x5a, 0x01, 0xe0, 0x08, 0x9f, 0x96] =
      sps_bits sps_listed @ [True, False]"
    by (simp add: sps_listed_def sps_1080p_def write_sps)
  have "scaling_list_ok 16 8 [- 8]" by (simp add: numeral_eq_Suc)
  then have ok: "sps_ok sps_listed" "has_lists sps_listed" by (simp_all add: sps_listed_def sps_1080p_def check_sps)
  have "p_alloc unit_pool () 184 = Some ((), replicate 184 0)" by (simp add: unit_pool_def)
  from avc_scaling_list_refused [OF bits ok this] show ?thesis .
qed

section \<open>ADTS headers\<close>

text \<open>The first seven bytes of an ADTS frame: sync word, version, layer 0, no CRC, profile, sampling
  frequency index, private bit, channels; \<open>x\<close> and \<open>tail\<close> are the lengths and the rest.\<close>

definition adts_head :: "nat \<Rightarrow> nat \<Rightarrow> nat \<Rightarrow> nat \<Rightarrow> nat \<Rightarrow> nat \<Rightarrow> bytes \<Rightarrow> bytes" where
  "adts_head version profile freq priv chan x tail =
     [0xff, word_of_nat (0xf1 + 8 * version),
      word_of_nat (64 * profile + 4 * freq + 2 * priv + chan div 4),
      word_of_nat (64 * (chan mod 4) + x)] @ tail"

text \<open>
  C34: \<open>ngx_ts_aac_decode_params\<close> returns what an ADTS header says, for each of the 13 sampling
  frequencies, and the object type is the profile plus one.
\<close>

theorem aac_params_roundtrip:
  assumes "version < 2" "profile < 4" "freq < 13" "priv < 2" "chan < 8" "x < 64" "3 \<le> length tail"
    and "p_alloc ops p 40 = Some (p', m)"
  shows "ngx_ts_aac_decode_params ops p (adts_head version profile freq priv chan x tail) =
    (Some \<lparr>aac_version = version, aac_profile = profile + 1, aac_freq_index = freq,
       aac_freq = aac_freqs ! freq, aac_chan = chan\<rparr>, p')"
proof -
  define b2 :: byte where "b2 = word_of_nat (64 * profile + 4 * freq + 2 * priv + chan div 4)"
  define b3 :: byte where "b3 = word_of_nat (64 * (chan mod 4) + x)"
  have b2: "unat b2 = 64 * profile + 4 * freq + 2 * priv + chan div 4"
    unfolding b2_def unat_byte_of_nat using assms by simp
  have b3: "unat b3 = 64 * (chan mod 4) + x"
    unfolding b3_def unat_byte_of_nat using assms by simp
  have profile: "unat (drop_bit 6 b2) = profile"
    using assms by (simp add: byte_simps b2)
  have freq: "unat (drop_bit 2 b2 AND 0x0f) = freq"
  proof -
    have "(64 * profile + 4 * freq + 2 * priv + chan div 4) div 4 = 16 * profile + freq"
      using assms by (intro div_nat_eqI) simp_all
    then show ?thesis using assms by (simp add: byte_simps b2)
  qed
  have low: "unat (b2 AND 0x01) = chan div 4"
    using assms by (simp add: byte_simps b2 del: and_one_eq) presburger
  have high: "unat (drop_bit 6 b3) = chan mod 4"
    using assms by (simp add: byte_simps b3)
  have "push_bit 2 (b2 AND 0x01) AND drop_bit 6 b3 = 0"
    by (intro bit_word_eqI) (auto simp: bit_and_iff bit_push_bit_iff bit_drop_bit_eq dest: bit_imp_le_length)
  then have "push_bit 2 (b2 AND 0x01) OR drop_bit 6 b3 = push_bit 2 (b2 AND 0x01) + drop_bit 6 b3"
    by (rule disjunctive_add_eq_or [symmetric])
  moreover have "unat (push_bit 2 (b2 AND 0x01) + drop_bit 6 b3) = (chan div 4) * 2 ^ 2 + chan mod 4"
    using unat_shift_add [of "b2 AND 0x01" 2 "drop_bit 6 b3"] assms(5) unfolding low high by simp
  ultimately have chan: "unat (push_bit 2 (b2 AND 0x01) OR drop_bit 6 b3) = chan" by simp
  then have chan': "unat (push_bit 2 b2 AND 4 OR drop_bit 6 b3) = chan" by simp
  define b1 :: byte where "b1 = word_of_nat (0xf1 + 8 * version)"
  have version: "(if b1 AND 0x08 \<noteq> 0 then 1 else 0) = version"
  proof -
    have "version = 0 \<or> version = 1" using assms(1) by auto
    then show ?thesis by (auto simp: b1_def)
  qed
  have head: "adts_head version profile freq priv chan x tail = [0xff, b1, b2, b3] @ tail"
    by (simp only: adts_head_def b1_def b2_def b3_def)
  have "aac_freqs ! freq \<noteq> 0"
    using assms(3) by (simp add: aac_freqs_def nth_Cons split: nat.splits)
  then show ?thesis
    using assms(7,8) version
    unfolding head
    by (simp add: ngx_ts_aac_decode_params_def Let_def profile freq chan')
qed

theorem aac_params_roundtrip_witness:
  "ngx_ts_aac_decode_params unit_pool () [0xff, 0xf1, 0x50, 0x80, 0, 0, 0] =
     (Some \<lparr>aac_version = 0, aac_profile = 2, aac_freq_index = 4, aac_freq = 44100, aac_chan = 2\<rparr>, ())"
  using aac_params_roundtrip [of 0 1 4 0 2 0 "[0, 0, 0]" unit_pool "()" "()" "replicate 40 0"]
  by (simp add: adts_head_def aac_freqs_def unit_pool_def)

end
