(* ===== verification/Dash_Boxes.thy ===== *)
theory Dash_Boxes
  imports Ts_Types Ts_Codec
begin

text \<open>
  The box writers of ngx\_ts\_dash\_mp4.c: each writes one box of ISO 14496-12 at the end of a buffer,
  bounded by the end of the buffer, and patches its size in when its content is complete.  The
  initialisation segment is written by the boxes of this theory; Dash\_Segment has the media segments.
  \<open>ngx_time()\<close> is the parameter \<open>now\<close>.
\<close>

section \<open>Data\<close>

definition NGX_TS_DASH_BUFFER_SIZE :: nat where
  "NGX_TS_DASH_BUFFER_SIZE = 1024"

definition NGX_TS_DASH_DEFAULT_WIDTH :: u64 where
  "NGX_TS_DASH_DEFAULT_WIDTH = 400"

definition NGX_TS_DASH_DEFAULT_HEIGHT :: u64 where
  "NGX_TS_DASH_DEFAULT_HEIGHT = 400"

text \<open>
  \<open>ngx_ts_dash_subs_t\<close>: where the values that are known at the end of a segment go.  A pointer is an
  offset into the first buffer of the segment's \<open>meta\<close> chain; that of \<open>mdat\<close> is into the first buffer
  of \<open>data\<close>, and that of \<open>sample_duration\<close>, set for every sample, names the buffer too.
\<close>

record ngx_ts_dash_subs =
  sub_dts :: "nat option"
  sub_pts :: "nat option"
  sub_seq :: "nat option"
  sub_duration :: "nat option"
  sub_sample_duration :: "(nat \<times> nat) option"
  sub_nsamples :: "nat option"
  sub_traf :: "nat option"
  sub_trun :: "nat option"
  sub_moof :: "nat option"
  sub_moof_mdat :: "nat option"
  sub_moof_data :: "nat option"
  sub_mdat :: "nat option"

text \<open>
  \<open>ngx_ts_dash_rep_t\<close>; \<open>last_meta\<close> and \<open>last_data\<close> are the last links of the two chains.  A null \<open>avc\<close>
  or \<open>aac\<close> is \<open>None\<close>; a null \<open>meta\<close> or \<open>data\<close> is the empty chain.
\<close>

record ngx_ts_dash_rep =
  rep_es :: ngx_ts_es
  rep_seg :: u64
  rep_seg_pts :: u64
  rep_seg_dts :: u64
  rep_dts :: u64
  rep_bandwidth :: u64
  rep_sps :: bytes
  rep_pps :: bytes
  rep_avc :: "ngx_ts_avc_params option"
  rep_aac :: "ngx_ts_aac_params option"
  rep_meta :: chain
  rep_data :: chain
  rep_nsamples :: u64
  rep_nmeta :: u64
  rep_ndata :: u64
  rep_subs :: ngx_ts_dash_subs

section \<open>Bounded writes\<close>

abbreviation asc :: "string \<Rightarrow> bytes" where
  "asc s \<equiv> map of_char s"

fun dash_write_loop :: "nat \<Rightarrow> 'a::len word \<Rightarrow> buf \<Rightarrow> buf" where
  "dash_write_loop 0 v b = b"
| "dash_write_loop (Suc n) v b =
     (if b_last b < length (b_mem b) then
        dash_write_loop n v
          (b\<lparr>b_mem := (b_mem b)[b_last b := ucast (drop_bit (8 * n) v)], b_last := b_last b + 1\<rparr>)
      else b)"

definition ngx_ts_dash_write64 :: "buf \<Rightarrow> u64 \<Rightarrow> buf" where
  "ngx_ts_dash_write64 b v = dash_write_loop 8 v b"

definition ngx_ts_dash_write32 :: "buf \<Rightarrow> u32 \<Rightarrow> buf" where
  "ngx_ts_dash_write32 b v = dash_write_loop 4 v b"

definition ngx_ts_dash_write24 :: "buf \<Rightarrow> u32 \<Rightarrow> buf" where
  "ngx_ts_dash_write24 b v = dash_write_loop 3 v b"

definition ngx_ts_dash_write16 :: "buf \<Rightarrow> u16 \<Rightarrow> buf" where
  "ngx_ts_dash_write16 b v = dash_write_loop 2 v b"

definition ngx_ts_dash_write8 :: "buf \<Rightarrow> byte \<Rightarrow> buf" where
  "ngx_ts_dash_write8 b v =
     (if b_last b < length (b_mem b)
      then b\<lparr>b_mem := (b_mem b)[b_last b := v], b_last := b_last b + 1\<rparr> else b)"

text \<open>\<open>*p++ = x\<close> for the bytes of a list.\<close>

fun poke :: "bytes \<Rightarrow> nat \<Rightarrow> bytes \<Rightarrow> bytes" where
  "poke m p [] = m"
| "poke m p (x # xs) = poke (m[p := x]) (p + 1) xs"

definition ngx_ts_dash_cpymem :: "buf \<Rightarrow> bytes \<Rightarrow> buf" where
  "ngx_ts_dash_cpymem b dat =
     (let n = min (length (b_mem b) - b_last b) (length dat)
      in b\<lparr>b_mem := poke (b_mem b) (b_last b) (take n dat), b_last := b_last b + n\<rparr>)"

definition ngx_ts_dash_set_sub :: "buf \<Rightarrow> nat option" where
  "ngx_ts_dash_set_sub b = Some (b_last b)"

section \<open>Box headers and descriptors\<close>

definition ngx_ts_dash_box :: "buf \<Rightarrow> string \<Rightarrow> nat \<times> buf" where
  "ngx_ts_dash_box b type =
     (let p = b_last b;
          b = ngx_ts_dash_write32 b 0;
          b = ngx_ts_dash_cpymem b (asc type)
      in (p, b))"

definition ngx_ts_dash_box_full :: "buf \<Rightarrow> string \<Rightarrow> byte \<Rightarrow> u32 \<Rightarrow> nat \<times> buf" where
  "ngx_ts_dash_box_full b type version flags =
     (let (p, b) = ngx_ts_dash_box b type;
          b = ngx_ts_dash_write8 b version;
          b = ngx_ts_dash_write24 b flags
      in (p, b))"

definition ngx_ts_dash_box_update :: "buf \<Rightarrow> nat \<Rightarrow> buf" where
  "ngx_ts_dash_box_update b p =
     (if p + 4 > length (b_mem b) then b
      else
        let size = (word_of_nat (b_last b - p) :: u32)
        in b\<lparr>b_mem := poke (b_mem b) p
             [ucast (drop_bit 24 size), ucast (drop_bit 16 size), ucast (drop_bit 8 size), ucast size]\<rparr>)"

definition ngx_ts_dash_desc :: "buf \<Rightarrow> byte \<Rightarrow> nat \<times> buf" where
  "ngx_ts_dash_desc b tag =
     (let b = ngx_ts_dash_write8 b tag;
          p = b_last b;
          b = ngx_ts_dash_write32 b 0
      in (p, b))"

definition ngx_ts_dash_desc_update :: "buf \<Rightarrow> nat \<Rightarrow> buf" where
  "ngx_ts_dash_desc_update b p =
     (if p + 4 > length (b_mem b) then b
      else
        let size = (word_of_nat (b_last b) - word_of_nat p - 4 :: u32)
        in b\<lparr>b_mem := poke (b_mem b) p
             [ucast (drop_bit 21 size OR 0x80), ucast (drop_bit 14 size OR 0x80),
              ucast (drop_bit 7 size OR 0x80), ucast (size AND 0x7f)]\<rparr>)"

section \<open>Elementary stream descriptors\<close>

definition ngx_ts_dash_desc_dec_spec :: "buf \<Rightarrow> ngx_ts_dash_rep \<Rightarrow> buf" where
  "ngx_ts_dash_desc_dec_spec b rep =
     (case rep_aac rep of
        None \<Rightarrow> b
      | Some aac \<Rightarrow>
          let (p, b) = ngx_ts_dash_desc b 0x05;
              b = ngx_ts_dash_write8 b (word_of_nat (aac_profile aac * 8 + aac_freq_index aac div 2));
              b = ngx_ts_dash_write8 b (word_of_nat (aac_freq_index aac * 128 + aac_chan aac * 8))
          in ngx_ts_dash_desc_update b p)"

definition ngx_ts_dash_desc_sl_conf :: "buf \<Rightarrow> buf" where
  "ngx_ts_dash_desc_sl_conf b =
     (let (p, b) = ngx_ts_dash_desc b 0x06;
          b = ngx_ts_dash_write8 b 0x02
      in ngx_ts_dash_desc_update b p)"

definition ngx_ts_dash_desc_dec_conf :: "buf \<Rightarrow> ngx_ts_dash_rep \<Rightarrow> buf" where
  "ngx_ts_dash_desc_dec_conf b rep =
     (let (p, b) = ngx_ts_dash_desc b 0x04;
          b = ngx_ts_dash_write8 b (word_of_nat (ngx_ts_dash_get_oti (es_type (rep_es rep))));
          b = ngx_ts_dash_write8 b (push_bit 2 (if es_video (rep_es rep) then 0x04 else 0x05));
          b = ngx_ts_dash_write24 b 0;
          b = ngx_ts_dash_write32 b (ucast (rep_bandwidth rep * 2));
          b = ngx_ts_dash_write32 b (ucast (rep_bandwidth rep));
          b = ngx_ts_dash_desc_dec_spec b rep
      in ngx_ts_dash_desc_update b p)"

definition ngx_ts_dash_desc_es :: "buf \<Rightarrow> ngx_ts_dash_rep \<Rightarrow> buf" where
  "ngx_ts_dash_desc_es b rep =
     (let (p, b) = ngx_ts_dash_desc b 0x03;
          b = ngx_ts_dash_write16 b 1;
          b = ngx_ts_dash_write8 b 0;
          b = ngx_ts_dash_desc_dec_conf b rep;
          b = ngx_ts_dash_desc_sl_conf b
      in ngx_ts_dash_desc_update b p)"

definition ngx_ts_dash_box_esds :: "buf \<Rightarrow> ngx_ts_dash_rep \<Rightarrow> buf" where
  "ngx_ts_dash_box_esds b rep =
     (let (p, b) = ngx_ts_dash_box_full b ''esds'' 0 0;
          b = ngx_ts_dash_desc_es b rep
      in ngx_ts_dash_box_update b p)"

section \<open>Sample entries\<close>

definition ngx_ts_dash_box_avcc :: "buf \<Rightarrow> ngx_ts_dash_rep \<Rightarrow> buf" where
  "ngx_ts_dash_box_avcc b rep =
     (let sps = rep_sps rep; pps = rep_pps rep; sps_len = length sps; pps_len = length pps
      in if sps_len < 4 \<or> pps_len = 0 then b
         else
           let (p, b) = ngx_ts_dash_box b ''avcC'';
               b = ngx_ts_dash_write8 b 1;
               b = ngx_ts_dash_cpymem b (take 3 (drop 1 sps));
               b = ngx_ts_dash_write8 b 0xff;
               b = ngx_ts_dash_write8 b 0xe1;
               b = ngx_ts_dash_write16 b (word_of_nat sps_len);
               b = ngx_ts_dash_cpymem b sps;
               b = ngx_ts_dash_write8 b 1;
               b = ngx_ts_dash_write16 b (word_of_nat pps_len);
               b = ngx_ts_dash_cpymem b pps
           in ngx_ts_dash_box_update b p)"

definition rep_width :: "ngx_ts_dash_rep \<Rightarrow> u64" where
  "rep_width rep = (case rep_avc rep of Some avc \<Rightarrow> avc_width avc | None \<Rightarrow> NGX_TS_DASH_DEFAULT_WIDTH)"

definition rep_height :: "ngx_ts_dash_rep \<Rightarrow> u64" where
  "rep_height rep = (case rep_avc rep of Some avc \<Rightarrow> avc_height avc | None \<Rightarrow> NGX_TS_DASH_DEFAULT_HEIGHT)"

definition ngx_ts_dash_box_video :: "buf \<Rightarrow> ngx_ts_dash_rep \<Rightarrow> buf" where
  "ngx_ts_dash_box_video b rep =
     (let avc1 = (es_type (rep_es rep) = NGX_TS_VIDEO_AVC);
          (p, b) = ngx_ts_dash_box b (if avc1 then ''avc1'' else ''mp4v'');
          b = ngx_ts_dash_write32 b 0;
          b = ngx_ts_dash_write16 b 0;
          b = ngx_ts_dash_write16 b 1;
          b = ngx_ts_dash_write32 b 0;
          b = ngx_ts_dash_write32 b 0;
          b = ngx_ts_dash_write32 b 0;
          b = ngx_ts_dash_write32 b 0;
          b = ngx_ts_dash_write16 b (ucast (rep_width rep));
          b = ngx_ts_dash_write16 b (ucast (rep_height rep));
          b = ngx_ts_dash_write32 b 0x00480000;
          b = ngx_ts_dash_write32 b 0x00480000;
          b = ngx_ts_dash_write32 b 0;
          b = ngx_ts_dash_write16 b 1;
          b = ngx_ts_dash_write32 b 0;
          b = ngx_ts_dash_write32 b 0;
          b = ngx_ts_dash_write32 b 0;
          b = ngx_ts_dash_write32 b 0;
          b = ngx_ts_dash_write32 b 0;
          b = ngx_ts_dash_write32 b 0;
          b = ngx_ts_dash_write32 b 0;
          b = ngx_ts_dash_write32 b 0;
          b = ngx_ts_dash_write16 b 0x0018;
          b = ngx_ts_dash_write16 b 0xffff;
          b = (if avc1 then ngx_ts_dash_box_avcc b rep else ngx_ts_dash_box_esds b rep)
      in ngx_ts_dash_box_update b p)"

definition ngx_ts_dash_box_audio :: "buf \<Rightarrow> ngx_ts_dash_rep \<Rightarrow> buf" where
  "ngx_ts_dash_box_audio b rep =
     (let (p, b) = ngx_ts_dash_box b ''mp4a'';
          b = ngx_ts_dash_write32 b 0;
          b = ngx_ts_dash_write16 b 0;
          b = ngx_ts_dash_write16 b 1;
          b = ngx_ts_dash_write32 b 0;
          b = ngx_ts_dash_write32 b 0;
          b = ngx_ts_dash_write16 b 2;
          b = ngx_ts_dash_write16 b 16;
          b = ngx_ts_dash_write32 b 0;
          b = ngx_ts_dash_write32 b 90000;
          b = ngx_ts_dash_box_esds b rep
      in ngx_ts_dash_box_update b p)"

definition ngx_ts_dash_box_stsd :: "buf \<Rightarrow> ngx_ts_dash_rep \<Rightarrow> buf" where
  "ngx_ts_dash_box_stsd b rep =
     (let (p, b) = ngx_ts_dash_box_full b ''stsd'' 0 0;
          b = ngx_ts_dash_write32 b 1;
          b = (if es_video (rep_es rep) then ngx_ts_dash_box_video b rep
               else ngx_ts_dash_box_audio b rep)
      in ngx_ts_dash_box_update b p)"

section \<open>The sample table and the media boxes\<close>

definition ngx_ts_dash_box_stts :: "buf \<Rightarrow> buf" where
  "ngx_ts_dash_box_stts b =
     (let (p, b) = ngx_ts_dash_box_full b ''stts'' 0 0;
          b = ngx_ts_dash_write32 b 0
      in ngx_ts_dash_box_update b p)"

definition ngx_ts_dash_box_stsc :: "buf \<Rightarrow> buf" where
  "ngx_ts_dash_box_stsc b =
     (let (p, b) = ngx_ts_dash_box_full b ''stsc'' 0 0;
          b = ngx_ts_dash_write32 b 0
      in ngx_ts_dash_box_update b p)"

definition ngx_ts_dash_box_stsz :: "buf \<Rightarrow> buf" where
  "ngx_ts_dash_box_stsz b =
     (let (p, b) = ngx_ts_dash_box_full b ''stsz'' 0 0;
          b = ngx_ts_dash_write32 b 0;
          b = ngx_ts_dash_write32 b 0
      in ngx_ts_dash_box_update b p)"

definition ngx_ts_dash_box_stco :: "buf \<Rightarrow> buf" where
  "ngx_ts_dash_box_stco b =
     (let (p, b) = ngx_ts_dash_box_full b ''stco'' 0 0;
          b = ngx_ts_dash_write32 b 0
      in ngx_ts_dash_box_update b p)"

definition ngx_ts_dash_box_stbl :: "buf \<Rightarrow> ngx_ts_dash_rep \<Rightarrow> buf" where
  "ngx_ts_dash_box_stbl b rep =
     (let (p, b) = ngx_ts_dash_box b ''stbl'';
          b = ngx_ts_dash_box_stsd b rep;
          b = ngx_ts_dash_box_stts b;
          b = ngx_ts_dash_box_stsc b;
          b = ngx_ts_dash_box_stsz b;
          b = ngx_ts_dash_box_stco b
      in ngx_ts_dash_box_update b p)"

definition ngx_ts_dash_box_url :: "buf \<Rightarrow> buf" where
  "ngx_ts_dash_box_url b =
     (let (p, b) = ngx_ts_dash_box_full b ''url '' 0 0x01
      in ngx_ts_dash_box_update b p)"

definition ngx_ts_dash_box_dref :: "buf \<Rightarrow> buf" where
  "ngx_ts_dash_box_dref b =
     (let (p, b) = ngx_ts_dash_box_full b ''dref'' 0 0;
          b = ngx_ts_dash_write32 b 1;
          b = ngx_ts_dash_box_url b
      in ngx_ts_dash_box_update b p)"

definition ngx_ts_dash_box_dinf :: "buf \<Rightarrow> buf" where
  "ngx_ts_dash_box_dinf b =
     (let (p, b) = ngx_ts_dash_box b ''dinf'';
          b = ngx_ts_dash_box_dref b
      in ngx_ts_dash_box_update b p)"

definition ngx_ts_dash_box_smhd :: "buf \<Rightarrow> buf" where
  "ngx_ts_dash_box_smhd b =
     (let (p, b) = ngx_ts_dash_box_full b ''smhd'' 0 0;
          b = ngx_ts_dash_write32 b 0
      in ngx_ts_dash_box_update b p)"

definition ngx_ts_dash_box_vmhd :: "buf \<Rightarrow> buf" where
  "ngx_ts_dash_box_vmhd b =
     (let (p, b) = ngx_ts_dash_box_full b ''vmhd'' 0 1;
          b = ngx_ts_dash_write32 b 0;
          b = ngx_ts_dash_write32 b 0
      in ngx_ts_dash_box_update b p)"

definition ngx_ts_dash_box_minf :: "buf \<Rightarrow> ngx_ts_dash_rep \<Rightarrow> buf" where
  "ngx_ts_dash_box_minf b rep =
     (let (p, b) = ngx_ts_dash_box b ''minf'';
          b = (if es_video (rep_es rep) then ngx_ts_dash_box_vmhd b else ngx_ts_dash_box_smhd b);
          b = ngx_ts_dash_box_dinf b;
          b = ngx_ts_dash_box_stbl b rep
      in ngx_ts_dash_box_update b p)"

definition ngx_ts_dash_box_hdlr :: "buf \<Rightarrow> ngx_ts_dash_rep \<Rightarrow> buf" where
  "ngx_ts_dash_box_hdlr b rep =
     (let (p, b) = ngx_ts_dash_box_full b ''hdlr'' 0 0;
          b = ngx_ts_dash_write32 b 0;
          b = ngx_ts_dash_cpymem b (if es_video (rep_es rep) then asc ''vide'' else asc ''soun'');
          b = ngx_ts_dash_write32 b 0;
          b = ngx_ts_dash_write32 b 0;
          b = ngx_ts_dash_write32 b 0;
          b = ngx_ts_dash_cpymem b ((if es_video (rep_es rep) then asc ''video'' else asc ''audio'') @ [0])
      in ngx_ts_dash_box_update b p)"

definition ngx_ts_dash_box_mdhd :: "u64 \<Rightarrow> buf \<Rightarrow> buf" where
  "ngx_ts_dash_box_mdhd now b =
     (let (p, b) = ngx_ts_dash_box_full b ''mdhd'' 0 0;
          b = ngx_ts_dash_write32 b (ucast now);
          b = ngx_ts_dash_write32 b (ucast now);
          b = ngx_ts_dash_write32 b 90000;
          b = ngx_ts_dash_write32 b 0;
          b = ngx_ts_dash_write32 b 0x55c40000
      in ngx_ts_dash_box_update b p)"

definition ngx_ts_dash_box_mdia :: "u64 \<Rightarrow> buf \<Rightarrow> ngx_ts_dash_rep \<Rightarrow> buf" where
  "ngx_ts_dash_box_mdia now b rep =
     (let (p, b) = ngx_ts_dash_box b ''mdia'';
          b = ngx_ts_dash_box_mdhd now b;
          b = ngx_ts_dash_box_hdlr b rep;
          b = ngx_ts_dash_box_minf b rep
      in ngx_ts_dash_box_update b p)"

section \<open>The movie boxes\<close>

definition ngx_ts_dash_box_tkhd :: "u64 \<Rightarrow> buf \<Rightarrow> ngx_ts_dash_rep \<Rightarrow> buf" where
  "ngx_ts_dash_box_tkhd now b rep =
     (let (p, b) = ngx_ts_dash_box_full b ''tkhd'' 0 0x03;
          b = ngx_ts_dash_write32 b (ucast now);
          b = ngx_ts_dash_write32 b (ucast now);
          b = ngx_ts_dash_write32 b 1;
          b = ngx_ts_dash_write32 b 0;
          b = ngx_ts_dash_write32 b 0xffffffff;
          b = ngx_ts_dash_write32 b 0;
          b = ngx_ts_dash_write32 b 0;
          b = ngx_ts_dash_write32 b 0;
          b = ngx_ts_dash_write32 b (if es_video (rep_es rep) then 0x00000000 else 0x01000000);
          b = ngx_ts_dash_write32 b 0x00010000;
          b = ngx_ts_dash_write32 b 0x00000000;
          b = ngx_ts_dash_write32 b 0x00000000;
          b = ngx_ts_dash_write32 b 0x00000000;
          b = ngx_ts_dash_write32 b 0x00010000;
          b = ngx_ts_dash_write32 b 0x00000000;
          b = ngx_ts_dash_write32 b 0x00000000;
          b = ngx_ts_dash_write32 b 0x00000000;
          b = ngx_ts_dash_write32 b 0x40000000;
          b = ngx_ts_dash_write32 b (ucast (push_bit 16 (rep_width rep)));
          b = ngx_ts_dash_write32 b (ucast (push_bit 16 (rep_height rep)))
      in ngx_ts_dash_box_update b p)"

definition ngx_ts_dash_box_trak :: "u64 \<Rightarrow> buf \<Rightarrow> ngx_ts_dash_rep \<Rightarrow> buf" where
  "ngx_ts_dash_box_trak now b rep =
     (let (p, b) = ngx_ts_dash_box b ''trak'';
          b = ngx_ts_dash_box_tkhd now b rep;
          b = ngx_ts_dash_box_mdia now b rep
      in ngx_ts_dash_box_update b p)"

definition ngx_ts_dash_box_trex :: "buf \<Rightarrow> buf" where
  "ngx_ts_dash_box_trex b =
     (let (p, b) = ngx_ts_dash_box_full b ''trex'' 0 0;
          b = ngx_ts_dash_write32 b 1;
          b = ngx_ts_dash_write32 b 1;
          b = ngx_ts_dash_write32 b 0;
          b = ngx_ts_dash_write32 b 0;
          b = ngx_ts_dash_write32 b 0
      in ngx_ts_dash_box_update b p)"

definition ngx_ts_dash_box_mvex :: "buf \<Rightarrow> buf" where
  "ngx_ts_dash_box_mvex b =
     (let (p, b) = ngx_ts_dash_box b ''mvex'';
          b = ngx_ts_dash_box_trex b
      in ngx_ts_dash_box_update b p)"

definition ngx_ts_dash_box_mvhd :: "u64 \<Rightarrow> buf \<Rightarrow> buf" where
  "ngx_ts_dash_box_mvhd now b =
     (let (p, b) = ngx_ts_dash_box_full b ''mvhd'' 0 0;
          b = ngx_ts_dash_write32 b (ucast now);
          b = ngx_ts_dash_write32 b (ucast now);
          b = ngx_ts_dash_write32 b 90000;
          b = ngx_ts_dash_write32 b 0;
          b = ngx_ts_dash_write32 b 0x00010000;
          b = ngx_ts_dash_write32 b 0x01000000;
          b = ngx_ts_dash_write64 b 0;
          b = ngx_ts_dash_write32 b 0x00010000;
          b = ngx_ts_dash_write32 b 0x00000000;
          b = ngx_ts_dash_write32 b 0x00000000;
          b = ngx_ts_dash_write32 b 0x00000000;
          b = ngx_ts_dash_write32 b 0x00010000;
          b = ngx_ts_dash_write32 b 0x00000000;
          b = ngx_ts_dash_write32 b 0x00000000;
          b = ngx_ts_dash_write32 b 0x00000000;
          b = ngx_ts_dash_write32 b 0x40000000;
          b = ngx_ts_dash_write32 b 0;
          b = ngx_ts_dash_write32 b 0;
          b = ngx_ts_dash_write32 b 0;
          b = ngx_ts_dash_write32 b 0;
          b = ngx_ts_dash_write32 b 0;
          b = ngx_ts_dash_write32 b 0;
          b = ngx_ts_dash_write32 b 1
      in ngx_ts_dash_box_update b p)"

definition ngx_ts_dash_box_moov :: "u64 \<Rightarrow> buf \<Rightarrow> ngx_ts_dash_rep \<Rightarrow> buf" where
  "ngx_ts_dash_box_moov now b rep =
     (let (p, b) = ngx_ts_dash_box b ''moov'';
          b = ngx_ts_dash_box_mvhd now b;
          b = ngx_ts_dash_box_mvex b;
          b = ngx_ts_dash_box_trak now b rep
      in ngx_ts_dash_box_update b p)"

definition ngx_ts_dash_box_ftyp :: "buf \<Rightarrow> buf" where
  "ngx_ts_dash_box_ftyp b =
     (let (p, b) = ngx_ts_dash_box b ''ftyp'';
          b = ngx_ts_dash_cpymem b (asc ''iso6'');
          b = ngx_ts_dash_write32 b 1;
          b = ngx_ts_dash_cpymem b (asc ''isom'');
          b = ngx_ts_dash_cpymem b (asc ''iso6'');
          b = ngx_ts_dash_cpymem b (asc ''dash'')
      in ngx_ts_dash_box_update b p)"

definition ngx_ts_dash_write_init_segment :: "u64 \<Rightarrow> buf \<Rightarrow> ngx_ts_dash_rep \<Rightarrow> buf" where
  "ngx_ts_dash_write_init_segment now b rep = ngx_ts_dash_box_moov now (ngx_ts_dash_box_ftyp b) rep"

end
