(* ===== verification/Dash_Spec.thy ===== *)
theory Dash_Spec
  imports Dash_Boxes
begin

text \<open>
  What the box writers promise, and that they keep it.  A box is its type and its content, and content
  is nested boxes for the containers of ISO 14496-12.  With room for it, every writer appends exactly
  the bytes of its box (\<open>emit\<close>); without room it stops at the end of the buffer.
\<close>

section \<open>Appending to a buffer\<close>

definition room :: "buf \<Rightarrow> nat" where
  "room b = length (b_mem b) - b_last b"

definition emit :: "buf \<Rightarrow> bytes \<Rightarrow> buf" where
  "emit b xs = b\<lparr>b_mem := take (b_last b) (b_mem b) @ xs @ drop (b_last b + length xs) (b_mem b),
     b_last := b_last b + length xs\<rparr>"

lemma emit_Nil [simp]: "emit b [] = b"
  by (simp add: emit_def)

lemma b_last_emit [simp]: "b_last (emit b xs) = b_last b + length xs"
  by (simp add: emit_def)

lemma b_pos_emit [simp]: "b_pos (emit b xs) = b_pos b"
  by (simp add: emit_def)

lemma length_emit [simp]: "length xs \<le> room b \<Longrightarrow> length (b_mem (emit b xs)) = length (b_mem b)"
  by (cases xs) (auto simp: emit_def room_def)

lemma room_emit [simp]: "length xs \<le> room b \<Longrightarrow> room (emit b xs) = room b - length xs"
  by (simp add: room_def)

lemma emit_emit [simp]: "length xs \<le> room b \<Longrightarrow> emit (emit b xs) ys = emit b (xs @ ys)"
  by (cases xs) (auto simp: emit_def room_def add_ac min_def)

lemma take_Suc_upd [simp]: "p < length m \<Longrightarrow> take (Suc p) (m[p := x]) = take p m @ [x]"
  by (rule nth_equalityI) (auto simp: nth_append nth_list_update less_Suc_eq)

lemma poke_eq: "p + length xs \<le> length m \<Longrightarrow> poke m p xs = take p m @ xs @ drop (p + length xs) m"
proof (induction m p xs rule: poke.induct)
  case (2 m p x xs)
  then show ?case by simp
qed simp

lemma length_poke [simp]: "length (poke m p xs) = length m"
  by (induction m p xs rule: poke.induct) simp_all

text \<open>What the writers write, when there is room.\<close>

abbreviation be16 :: "nat \<Rightarrow> bytes" where "be16 v \<equiv> enc_nat 2 v"
abbreviation be24 :: "nat \<Rightarrow> bytes" where "be24 v \<equiv> enc_nat 3 v"
abbreviation be32 :: "nat \<Rightarrow> bytes" where "be32 v \<equiv> enc_nat 4 v"
abbreviation be64 :: "nat \<Rightarrow> bytes" where "be64 v \<equiv> enc_nat 8 v"

lemma enc_nat_Cons: "enc_nat (Suc n) v = word_of_nat (v div 256 ^ n) # enc_nat n v"
proof (induction n arbitrary: v)
  case (Suc n)
  have "enc_nat (Suc (Suc n)) v = enc_nat (Suc n) (v div 256) @ [word_of_nat v]" by simp
  also have "\<dots> = word_of_nat (v div 256 div 256 ^ n) # enc_nat n (v div 256) @ [word_of_nat v]"
    by (simp only: Suc append.simps)
  finally show ?case by (simp add: div_mult2_eq)
qed simp

lemma byte_of_drop_bit: "(ucast (drop_bit (8 * n) v) :: byte) = word_of_nat (unat v div 256 ^ n)"
proof -
  have "(2 :: nat) ^ (8 * n) = 256 ^ n" by (simp add: power_mult)
  then show ?thesis
    by (simp only: word_unat_eq_iff unat_byte_of_nat unat_ucast_byte unat_drop_bit)
qed

lemma write_loop_emit: "n \<le> room b \<Longrightarrow> dash_write_loop n v b = emit b (enc_nat n (unat v))"
proof (induction n arbitrary: b)
  case (Suc n)
  have step: "b\<lparr>b_mem := (b_mem b)[b_last b := x], b_last := b_last b + 1\<rparr> = emit b [x]" for x
    using Suc.prems by (simp add: emit_def room_def upd_conv_take_nth_drop)
  show ?case
    using Suc.prems Suc.IH [of "emit b [ucast (drop_bit (8 * n) v)]"]
    unfolding dash_write_loop.simps(2) step enc_nat_Cons byte_of_drop_bit
    by (simp add: room_def)
qed simp

lemma write_emit:
  "8 \<le> room b \<Longrightarrow> ngx_ts_dash_write64 b v8 = emit b (be64 (unat v8))"
  "4 \<le> room b \<Longrightarrow> ngx_ts_dash_write32 b v4 = emit b (be32 (unat v4))"
  "3 \<le> room b \<Longrightarrow> ngx_ts_dash_write24 b v4 = emit b (be24 (unat v4))"
  "2 \<le> room b \<Longrightarrow> ngx_ts_dash_write16 b v2 = emit b (be16 (unat v2))"
  "1 \<le> room b \<Longrightarrow> ngx_ts_dash_write8 b v1 = emit b [v1]"
  "length xs \<le> room b \<Longrightarrow> ngx_ts_dash_cpymem b xs = emit b xs"
proof -
  show "1 \<le> room b \<Longrightarrow> ngx_ts_dash_write8 b v1 = emit b [v1]"
    by (simp add: ngx_ts_dash_write8_def emit_def room_def upd_conv_take_nth_drop)
  show "length xs \<le> room b \<Longrightarrow> ngx_ts_dash_cpymem b xs = emit b xs"
    by (cases xs) (auto simp: ngx_ts_dash_cpymem_def emit_def room_def min_def poke_eq Let_def)
qed (simp_all add: ngx_ts_dash_write64_def ngx_ts_dash_write32_def ngx_ts_dash_write24_def
    ngx_ts_dash_write16_def write_loop_emit)


section \<open>Boxes\<close>

definition box_bytes :: "string \<Rightarrow> bytes \<Rightarrow> bytes" where
  "box_bytes t xs = be32 (8 + length xs) @ asc t @ xs"

datatype box = Leaf string bytes | Node string "box list"

fun enc_box :: "box \<Rightarrow> bytes" where
  "enc_box (Leaf t xs) = box_bytes t xs"
| "enc_box (Node t bs) = box_bytes t (concat (map enc_box bs))"

abbreviation full :: "byte \<Rightarrow> nat \<Rightarrow> bytes" where
  "full version flags \<equiv> version # be24 flags"

abbreviation be32s :: "nat list \<Rightarrow> bytes" where
  "be32s vs \<equiv> concat (map be32 vs)"

lemma length_box_bytes [simp]: "length t = 4 \<Longrightarrow> length (box_bytes t xs) = 8 + length xs"
  by (simp add: box_bytes_def)

named_theorems box_simps \<open>writers as appended bytes\<close>

lemmas [box_simps] = write_emit

lemma enc_nat_zero: "enc_nat n 0 = replicate n 0"
  by (induction n) (simp_all flip: replicate_append_same)

lemma four: "(4 :: nat) = Suc (Suc (Suc (Suc 0)))"
  by simp

lemma be_zeros: "be32 0 = [0, 0, 0, 0]"
  unfolding enc_nat_zero four by simp

lemma box_open [box_simps]:
  "4 + length t \<le> room b \<Longrightarrow> ngx_ts_dash_box b t = (b_last b, emit b (0 # 0 # 0 # 0 # asc t))"
  by (simp add: ngx_ts_dash_box_def Let_def box_simps be_zeros)

lemma box_full_open [box_simps]:
  "8 + length t \<le> room b \<Longrightarrow>
   ngx_ts_dash_box_full b t v f = (b_last b, emit b (0 # 0 # 0 # 0 # asc t @ v # be24 (unat f)))"
  by (simp add: ngx_ts_dash_box_full_def Let_def box_simps)

lemma poke_append: "length zs = length ys \<Longrightarrow> poke (A @ ys @ R) (length A) zs = A @ zs @ R"
  by (simp add: poke_eq)

lemma poke_emit:
  assumes "length (ys @ xs) \<le> room b" "length zs = length ys"
  shows "(emit b (ys @ xs))\<lparr>b_mem := poke (b_mem (emit b (ys @ xs))) (b_last b) zs\<rparr> = emit b (zs @ xs)"
proof (cases "ys = []")
  case False
  then have "length (take (b_last b) (b_mem b)) = b_last b"
    using assms(1) by (cases ys) (auto simp: room_def)
  then show ?thesis
    using assms(2) poke_append [of zs ys "take (b_last b) (b_mem b)" "xs @ drop (b_last b + length (ys @ xs)) (b_mem b)"]
    by (simp add: emit_def)
qed (use assms in simp)

lemma be32_bytes:
  "[ucast (drop_bit 24 v), ucast (drop_bit 16 v), ucast (drop_bit 8 v), ucast v] = be32 (unat (v :: u32))"
proof -
  have "be32 (unat v) = [word_of_nat (unat v div 256 ^ 3), word_of_nat (unat v div 256 ^ 2),
      word_of_nat (unat v div 256 ^ 1), word_of_nat (unat v div 256 ^ 0)]"
    unfolding four enc_nat_Cons by (simp add: numeral_2_eq_2 numeral_3_eq_3)
  then show ?thesis
    unfolding byte_of_drop_bit [symmetric] by simp
qed

lemma enc_nat_mod: "enc_nat n (v mod 256 ^ n) = enc_nat n v"
proof (induction n arbitrary: v)
  case (Suc n)
  have "v mod 256 ^ Suc n div 256 = v div 256 mod 256 ^ n"
    by (simp add: mod_mult2_eq)
  moreover have "(word_of_nat (v mod 256 ^ Suc n) :: byte) = word_of_nat v"
    by (simp add: word_unat_eq_iff mod_mod_cancel)
  ultimately show ?case using Suc [of "v div 256"] by simp
qed simp

lemma box_close [box_simps]:
  assumes "4 + length xs \<le> room b"
  shows "ngx_ts_dash_box_update (emit b (z0 # z1 # z2 # z3 # xs)) (b_last b) = emit b (be32 (4 + length xs) @ xs)"
proof -
  let ?b = "emit b ([z0, z1, z2, z3] @ xs)"
  have len: "length ([z0, z1, z2, z3] @ xs) \<le> room b" using assms by simp
  have "b_last ?b - b_last b = 4 + length xs" by simp
  moreover have "b_last b + 4 \<le> length (b_mem ?b)" using len by (simp add: room_def)
  moreover have "be32 (unat (word_of_nat (4 + length xs) :: u32)) = be32 (4 + length xs)"
    using enc_nat_mod [of 4 "4 + length xs"]
    by (simp only: unsigned_of_nat take_bit_eq_mod) simp
  ultimately have "ngx_ts_dash_box_update ?b (b_last b) =
      ?b\<lparr>b_mem := poke (b_mem ?b) (b_last b) (be32 (4 + length xs))\<rparr>"
    by (simp only: ngx_ts_dash_box_update_def be32_bytes Let_def) simp
  also have "\<dots> = emit b (be32 (4 + length xs) @ xs)"
    using len by (rule poke_emit) simp
  finally show ?thesis by simp
qed


text \<open>
  Writers compose: what each appends follows what the ones before it appended.  The rules take a body
  of calls apart from the last one on, so their order is the order of the code.
\<close>

definition emits :: "(buf \<Rightarrow> buf) \<Rightarrow> bytes \<Rightarrow> bool" where
  "emits f xs \<longleftrightarrow> (\<forall>b. length xs \<le> room b \<longrightarrow> f b = emit b xs)"

named_theorems emits_intros \<open>one rule for each writer\<close>

lemma emitsD: "emits f xs \<Longrightarrow> length xs \<le> room b \<Longrightarrow> f b = emit b xs"
  by (simp add: emits_def)

lemma emits_eq: "emits f xs \<Longrightarrow> xs = ys \<Longrightarrow> emits f ys"
  by simp

lemma emits_id [emits_intros]: "emits (\<lambda>b. b) []"
  by (simp add: emits_def)

lemma emits_comp: "emits g ys \<Longrightarrow> emits f xs \<Longrightarrow> emits (\<lambda>b. g (f b)) (xs @ ys)"
  by (simp add: emits_def)

lemma emits_writes [emits_intros]:
  "emits f xs \<Longrightarrow> emits (\<lambda>b. ngx_ts_dash_write64 (f b) v8) (xs @ be64 (unat v8))"
  "emits f xs \<Longrightarrow> emits (\<lambda>b. ngx_ts_dash_write32 (f b) v4) (xs @ be32 (unat v4))"
  "emits f xs \<Longrightarrow> emits (\<lambda>b. ngx_ts_dash_write24 (f b) v4) (xs @ be24 (unat v4))"
  "emits f xs \<Longrightarrow> emits (\<lambda>b. ngx_ts_dash_write16 (f b) v2) (xs @ be16 (unat v2))"
  "emits f xs \<Longrightarrow> emits (\<lambda>b. ngx_ts_dash_write8 (f b) v1) (xs @ [v1])"
  "emits f xs \<Longrightarrow> emits (\<lambda>b. ngx_ts_dash_cpymem (f b) ys) (xs @ ys)"
  by (simp_all add: emits_def write_emit)

lemma emits_if [emits_intros]:
  "(c \<Longrightarrow> emits f xs) \<Longrightarrow> (\<not> c \<Longrightarrow> emits g ys) \<Longrightarrow>
   emits (\<lambda>b. if c then f b else g b) (if c then xs else ys)"
  by simp

text \<open>A box or a descriptor around what its body appends.\<close>

lemma emits_box [emits_intros]:
  assumes "emits body xs" "emits f ys" "length t = 4"
  shows "emits (\<lambda>b. case ngx_ts_dash_box (f b) t of (p, b) \<Rightarrow> ngx_ts_dash_box_update (body b) p)
    (ys @ box_bytes t xs)"
proof -
  have "(case ngx_ts_dash_box b t of (p, b) \<Rightarrow> ngx_ts_dash_box_update (body b) p) = emit b (box_bytes t xs)"
    if "8 + length xs \<le> room b" for b
    using that assms(3) emitsD [OF assms(1), of "emit b (0 # 0 # 0 # 0 # asc t)"]
      box_close [of "asc t @ xs" b 0 0 0 0]
    by (simp add: box_open box_bytes_def)
  then show ?thesis
    using assms(2,3) by (simp add: emits_def)
qed

lemma emits_box_full [emits_intros]:
  assumes "emits body xs" "emits f ys" "length t = 4"
  shows "emits (\<lambda>b. case ngx_ts_dash_box_full (f b) t v fl of (p, b) \<Rightarrow> ngx_ts_dash_box_update (body b) p)
    (ys @ box_bytes t (full v (unat fl) @ xs))"
proof -
  have "(case ngx_ts_dash_box_full b t v fl of (p, b) \<Rightarrow> ngx_ts_dash_box_update (body b) p)
      = emit b (box_bytes t (full v (unat fl) @ xs))" if "12 + length xs \<le> room b" for b
    using that assms(3) emitsD [OF assms(1), of "emit b (0 # 0 # 0 # 0 # asc t @ full v (unat fl))"]
      box_close [of "asc t @ full v (unat fl) @ xs" b 0 0 0 0]
    by (simp add: box_full_open box_bytes_def)
  then show ?thesis
    using assms(2,3) by (simp add: emits_def)
qed

section \<open>Descriptors\<close>

text \<open>The size of a descriptor, seven bits to a byte and a set top bit on all but the last.\<close>

definition desc_len :: "nat \<Rightarrow> bytes" where
  "desc_len n = (let s = (word_of_nat n :: u32)
     in [ucast (drop_bit 21 s OR 0x80), ucast (drop_bit 14 s OR 0x80), ucast (drop_bit 7 s OR 0x80),
         ucast (s AND 0x7f)])"

definition desc_bytes :: "byte \<Rightarrow> bytes \<Rightarrow> bytes" where
  "desc_bytes tag xs = tag # desc_len (length xs) @ xs"

lemma length_desc_len [simp]: "length (desc_len n) = 4"
  by (simp add: desc_len_def Let_def)

lemma length_desc_bytes [simp]: "length (desc_bytes t xs) = 5 + length xs"
  by (simp add: desc_bytes_def)

lemma desc_open [box_simps]:
  "5 \<le> room b \<Longrightarrow> ngx_ts_dash_desc b t = (Suc (b_last b), emit b [t, 0, 0, 0, 0])"
  by (simp add: ngx_ts_dash_desc_def Let_def box_simps be_zeros)

lemma desc_close [box_simps]:
  assumes "5 + length xs \<le> room b"
  shows "ngx_ts_dash_desc_update (emit b (t # z0 # z1 # z2 # z3 # xs)) (Suc (b_last b)) = emit b (desc_bytes t xs)"
proof -
  let ?b = "emit (emit b [t]) ([z0, z1, z2, z3] @ xs)"
  have b: "?b = emit b (t # z0 # z1 # z2 # z3 # xs)" using assms by simp
  have len: "length ([z0, z1, z2, z3] @ xs) \<le> room (emit b [t])" using assms by simp
  have "(word_of_nat (b_last ?b) - word_of_nat (b_last (emit b [t])) - 4 :: u32) = word_of_nat (length xs)"
    by simp
  moreover have "b_last (emit b [t]) + 4 \<le> length (b_mem ?b)" using assms by (simp add: room_def)
  ultimately have "ngx_ts_dash_desc_update ?b (b_last (emit b [t])) =
      ?b\<lparr>b_mem := poke (b_mem ?b) (b_last (emit b [t])) (desc_len (length xs))\<rparr>"
    by (simp only: ngx_ts_dash_desc_update_def Let_def desc_len_def) simp
  also have "\<dots> = emit (emit b [t]) (desc_len (length xs) @ xs)"
    using len by (rule poke_emit) simp
  finally show ?thesis using assms by (simp add: desc_bytes_def)
qed

lemma emits_desc [emits_intros]:
  assumes "emits body xs" "emits f ys"
  shows "emits (\<lambda>b. case ngx_ts_dash_desc (f b) t of (p, b) \<Rightarrow> ngx_ts_dash_desc_update (body b) p)
    (ys @ desc_bytes t xs)"
proof -
  have "(case ngx_ts_dash_desc b t of (p, b) \<Rightarrow> ngx_ts_dash_desc_update (body b) p) = emit b (desc_bytes t xs)"
    if "5 + length xs \<le> room b" for b
    using that emitsD [OF assms(1), of "emit b [t, 0, 0, 0, 0]"] desc_close [of xs b t 0 0 0 0]
    by (simp add: desc_open)
  then show ?thesis
    using assms(2) by (simp add: emits_def)
qed

text \<open>A descriptor's size can be read back.\<close>

lemma desc_len_value:
  assumes "n < 2 ^ 28"
  shows "foldl (\<lambda>v b. v * 128 + unat b mod 128) 0 (desc_len n) = n"
proof -
  have u: "unat (word_of_nat n :: u32) = n"
    using assms by (simp add: unsigned_of_nat take_bit_nat_eq_self)
  have top: "unat (ucast (drop_bit k (word_of_nat n :: u32) OR 0x80) :: byte) mod 128 = n div 2 ^ k mod 128" for k
  proof -
    have "unat (ucast (drop_bit k (word_of_nat n :: u32) OR 0x80) :: byte) mod 128
        = unat ((drop_bit k (word_of_nat n :: u32) OR 0x80) AND mask 7)"
      by (simp add: byte_simps unat_and_mask mod_mod_cancel)
    also have "(drop_bit k (word_of_nat n :: u32) OR 0x80) AND mask 7 = drop_bit k (word_of_nat n) AND mask 7"
      by (intro bit_word_eqI) (auto simp: bit_and_iff bit_or_iff bit_mask_iff bit_byte_consts)
    finally show ?thesis by (simp add: unat_and_mask unat_drop_bit u)
  qed
  have low: "unat (ucast ((word_of_nat n :: u32) AND 0x7f) :: byte) mod 128 = n mod 128"
  proof -
    have "(0x7f :: u32) = mask 7" by (simp add: mask_eq_exp_minus_1)
    then show ?thesis by (simp only: byte_simps unat_and_mask u) simp
  qed
  have "foldl (\<lambda>v b. v * 128 + unat b mod 128) 0 (desc_len n) =
      ((n div 2 ^ 21 mod 128 * 128 + n div 2 ^ 14 mod 128) * 128 + n div 2 ^ 7 mod 128) * 128 + n mod 128"
    by (simp only: desc_len_def Let_def foldl.simps top low) simp
  also have "\<dots> = n"
    using assms div_step [of n "2 ^ 14" 128] div_step [of n "2 ^ 7" 128] div_step [of n 1 128]
    by simp
  finally show ?thesis .
qed

end
