(* ===== verification/Dash_Init.thy ===== *)
theory Dash_Init
  imports Dash_Spec
begin

text \<open>
  The initialisation segment: the boxes it is made of, and the proof that
  \<open>ngx_ts_dash_write_init_segment\<close> appends exactly them.
\<close>

section \<open>The boxes of the initialisation segment\<close>

definition ftyp_box :: box where
  "ftyp_box = Leaf ''ftyp'' (asc ''iso6'' @ be32 1 @ asc ''isom'' @ asc ''iso6'' @ asc ''dash'')"

abbreviation unity_matrix :: "nat list" where
  "unity_matrix \<equiv> [0x10000, 0, 0, 0, 0x10000, 0, 0, 0, 0x40000000]"

definition mvhd_box :: "u64 \<Rightarrow> box" where
  "mvhd_box now = (let t = unat (ucast now :: u32) in
     Leaf ''mvhd'' (full 0 0 @ be32s [t, t, 90000, 0, 0x10000, 0x1000000] @ be64 0 @
       be32s (unity_matrix @ [0, 0, 0, 0, 0, 0, 1])))"

definition mvex_box :: box where
  "mvex_box = Node ''mvex'' [Leaf ''trex'' (full 0 0 @ be32s [1, 1, 0, 0, 0])]"

definition tkhd_box :: "u64 \<Rightarrow> ngx_ts_dash_rep \<Rightarrow> box" where
  "tkhd_box now rep = (let t = unat (ucast now :: u32) in
     Leaf ''tkhd'' (full 0 3 @ be32s [t, t, 1, 0, 0xffffffff, 0, 0, 0,
       if es_video (rep_es rep) then 0 else 0x1000000] @ be32s unity_matrix @
       be32s [unat (ucast (push_bit 16 (rep_width rep)) :: u32),
         unat (ucast (push_bit 16 (rep_height rep)) :: u32)]))"

definition mdhd_box :: "u64 \<Rightarrow> box" where
  "mdhd_box now = (let t = unat (ucast now :: u32) in
     Leaf ''mdhd'' (full 0 0 @ be32s [t, t, 90000, 0, 0x55c40000]))"

definition hdlr_box :: "ngx_ts_dash_rep \<Rightarrow> box" where
  "hdlr_box rep = Leaf ''hdlr'' (full 0 0 @ be32 0 @
     (if es_video (rep_es rep) then asc ''vide'' else asc ''soun'') @ be32s [0, 0, 0] @
     (if es_video (rep_es rep) then asc ''video'' else asc ''audio'') @ [0])"

definition media_header_box :: "ngx_ts_dash_rep \<Rightarrow> box" where
  "media_header_box rep =
     (if es_video (rep_es rep) then Leaf ''vmhd'' (full 0 1 @ be32s [0, 0])
      else Leaf ''smhd'' (full 0 0 @ be32 0))"

definition dinf_box :: box where
  "dinf_box = Node ''dinf'' [Leaf ''dref'' (full 0 0 @ be32 1 @ box_bytes ''url '' (full 0 1))]"

definition dec_spec_desc :: "ngx_ts_dash_rep \<Rightarrow> bytes" where
  "dec_spec_desc rep = (case rep_aac rep of
       None \<Rightarrow> []
     | Some aac \<Rightarrow> desc_bytes 5 [word_of_nat (aac_profile aac * 8 + aac_freq_index aac div 2),
         word_of_nat (aac_freq_index aac * 128 + aac_chan aac * 8)])"

definition es_desc :: "ngx_ts_dash_rep \<Rightarrow> bytes" where
  "es_desc rep = desc_bytes 3 (be16 1 @ [0] @
     desc_bytes 4 ([word_of_nat (ngx_ts_dash_get_oti (es_type (rep_es rep))),
         push_bit 2 (if es_video (rep_es rep) then 4 else 5)] @ be24 0 @
       be32 (unat (ucast (rep_bandwidth rep * 2) :: u32)) @ be32 (unat (ucast (rep_bandwidth rep) :: u32)) @
       dec_spec_desc rep) @
     desc_bytes 6 [2])"

definition esds_bytes :: "ngx_ts_dash_rep \<Rightarrow> bytes" where
  "esds_bytes rep = box_bytes ''esds'' (full 0 0 @ es_desc rep)"

definition avcc_bytes :: "ngx_ts_dash_rep \<Rightarrow> bytes" where
  "avcc_bytes rep =
     (if length (rep_sps rep) < 4 \<or> rep_pps rep = [] then []
      else box_bytes ''avcC'' ([1] @ take 3 (drop 1 (rep_sps rep)) @ [0xff, 0xe1] @
        be16 (length (rep_sps rep)) @ rep_sps rep @ [1] @ be16 (length (rep_pps rep)) @ rep_pps rep))"

definition sample_entry_bytes :: "ngx_ts_dash_rep \<Rightarrow> bytes" where
  "sample_entry_bytes rep =
     (if es_video (rep_es rep) then
        box_bytes (if es_type (rep_es rep) = NGX_TS_VIDEO_AVC then ''avc1'' else ''mp4v'')
          (be32 0 @ be16 0 @ be16 1 @ be32s [0, 0, 0, 0] @
           be16 (unat (ucast (rep_width rep) :: u16)) @ be16 (unat (ucast (rep_height rep) :: u16)) @
           be32s [0x480000, 0x480000, 0] @ be16 1 @ be32s [0, 0, 0, 0, 0, 0, 0, 0] @
           be16 0x18 @ be16 0xffff @
           (if es_type (rep_es rep) = NGX_TS_VIDEO_AVC then avcc_bytes rep else esds_bytes rep))
      else
        box_bytes ''mp4a'' (be32 0 @ be16 0 @ be16 1 @ be32s [0, 0] @ be16 2 @ be16 16 @
          be32 0 @ be32 90000 @ esds_bytes rep))"

definition stbl_box :: "ngx_ts_dash_rep \<Rightarrow> box" where
  "stbl_box rep = Node ''stbl''
     [Leaf ''stsd'' (full 0 0 @ be32 1 @ sample_entry_bytes rep), Leaf ''stts'' (full 0 0 @ be32 0),
      Leaf ''stsc'' (full 0 0 @ be32 0), Leaf ''stsz'' (full 0 0 @ be32s [0, 0]),
      Leaf ''stco'' (full 0 0 @ be32 0)]"

definition trak_box :: "u64 \<Rightarrow> ngx_ts_dash_rep \<Rightarrow> box" where
  "trak_box now rep = Node ''trak'' [tkhd_box now rep,
     Node ''mdia'' [mdhd_box now, hdlr_box rep,
       Node ''minf'' [media_header_box rep, dinf_box, stbl_box rep]]]"

definition moov_box :: "u64 \<Rightarrow> ngx_ts_dash_rep \<Rightarrow> box" where
  "moov_box now rep = Node ''moov'' [mvhd_box now, mvex_box, trak_box now rep]"

section \<open>Every writer appends its box\<close>

lemma ftyp_emits: "emits (\<lambda>b. ngx_ts_dash_box_ftyp b) (enc_box ftyp_box)"
  unfolding ngx_ts_dash_box_ftyp_def Let_def
  by (rule emits_eq, (rule emits_intros)+) (simp_all add: ftyp_box_def)

lemma mvhd_emits: "emits (\<lambda>b. ngx_ts_dash_box_mvhd now b) (enc_box (mvhd_box now))"
  unfolding ngx_ts_dash_box_mvhd_def Let_def
  by (rule emits_eq, (rule emits_intros)+) (simp_all add: mvhd_box_def Let_def)

lemma tkhd_emits: "emits (\<lambda>b. ngx_ts_dash_box_tkhd now b rep) (enc_box (tkhd_box now rep))"
  unfolding ngx_ts_dash_box_tkhd_def Let_def
  by (rule emits_eq, (rule emits_intros)+) (simp_all add: tkhd_box_def Let_def)

lemma mdhd_emits: "emits (\<lambda>b. ngx_ts_dash_box_mdhd now b) (enc_box (mdhd_box now))"
  unfolding ngx_ts_dash_box_mdhd_def Let_def
  by (rule emits_eq, (rule emits_intros)+) (simp_all add: mdhd_box_def Let_def)

lemma hdlr_emits: "emits (\<lambda>b. ngx_ts_dash_box_hdlr b rep) (enc_box (hdlr_box rep))"
  unfolding ngx_ts_dash_box_hdlr_def Let_def
  by (rule emits_eq, (rule emits_intros)+) (simp_all add: hdlr_box_def)

lemma leaf_emits:
  "emits (\<lambda>b. ngx_ts_dash_box_trex b) (enc_box (Leaf ''trex'' (full 0 0 @ be32s [1, 1, 0, 0, 0])))"
  "emits (\<lambda>b. ngx_ts_dash_box_vmhd b) (enc_box (Leaf ''vmhd'' (full 0 1 @ be32s [0, 0])))"
  "emits (\<lambda>b. ngx_ts_dash_box_smhd b) (enc_box (Leaf ''smhd'' (full 0 0 @ be32 0)))"
  "emits (\<lambda>b. ngx_ts_dash_box_url b) (box_bytes ''url '' (full 0 1))"
  "emits (\<lambda>b. ngx_ts_dash_box_stts b) (enc_box (Leaf ''stts'' (full 0 0 @ be32 0)))"
  "emits (\<lambda>b. ngx_ts_dash_box_stsc b) (enc_box (Leaf ''stsc'' (full 0 0 @ be32 0)))"
  "emits (\<lambda>b. ngx_ts_dash_box_stsz b) (enc_box (Leaf ''stsz'' (full 0 0 @ be32s [0, 0])))"
  "emits (\<lambda>b. ngx_ts_dash_box_stco b) (enc_box (Leaf ''stco'' (full 0 0 @ be32 0)))"
  unfolding ngx_ts_dash_box_trex_def ngx_ts_dash_box_vmhd_def ngx_ts_dash_box_smhd_def
    ngx_ts_dash_box_url_def ngx_ts_dash_box_stts_def ngx_ts_dash_box_stsc_def
    ngx_ts_dash_box_stsz_def ngx_ts_dash_box_stco_def Let_def
  by (rule emits_eq, (rule emits_intros)+, simp_all)+

lemma dec_spec_emits: "emits (\<lambda>b. ngx_ts_dash_desc_dec_spec b rep) (dec_spec_desc rep)"
proof (cases "rep_aac rep")
  case None
  then show ?thesis by (simp add: ngx_ts_dash_desc_dec_spec_def dec_spec_desc_def emits_id)
next
  case (Some aac)
  show ?thesis
    unfolding ngx_ts_dash_desc_dec_spec_def Let_def Some option.case
    by (rule emits_eq, (rule emits_intros)+) (simp_all add: dec_spec_desc_def Some)
qed

lemma sl_conf_emits: "emits (\<lambda>b. ngx_ts_dash_desc_sl_conf b) (desc_bytes 6 [2])"
  unfolding ngx_ts_dash_desc_sl_conf_def Let_def
  by (rule emits_eq, (rule emits_intros)+) simp_all

lemma dec_conf_emits: "emits (\<lambda>b. ngx_ts_dash_desc_dec_conf b rep)
    (desc_bytes 4 ([word_of_nat (ngx_ts_dash_get_oti (es_type (rep_es rep))),
         push_bit 2 (if es_video (rep_es rep) then 4 else 5)] @ be24 0 @
       be32 (unat (ucast (rep_bandwidth rep * 2) :: u32)) @ be32 (unat (ucast (rep_bandwidth rep) :: u32)) @
       dec_spec_desc rep))"
  unfolding ngx_ts_dash_desc_dec_conf_def Let_def
  by (rule emits_eq, (rule emits_intros emits_comp [OF dec_spec_emits])+) simp_all

lemma es_desc_emits: "emits (\<lambda>b. ngx_ts_dash_desc_es b rep) (es_desc rep)"
  unfolding ngx_ts_dash_desc_es_def Let_def
  by (rule emits_eq, (rule emits_intros emits_comp [OF dec_conf_emits] emits_comp [OF sl_conf_emits])+)
    (simp_all add: es_desc_def)

lemma esds_emits: "emits (\<lambda>b. ngx_ts_dash_box_esds b rep) (esds_bytes rep)"
  unfolding ngx_ts_dash_box_esds_def Let_def
  by (rule emits_eq, (rule emits_intros emits_comp [OF es_desc_emits])+) (simp_all add: esds_bytes_def)

lemma be16_len: "be16 (unat (word_of_nat n :: u16)) = be16 n"
  using enc_nat_mod [of 2 n] by (simp only: unsigned_of_nat take_bit_eq_mod) simp

lemma avcc_emits: "emits (\<lambda>b. ngx_ts_dash_box_avcc b rep) (avcc_bytes rep)"
proof (cases "length (rep_sps rep) < 4 \<or> length (rep_pps rep) = 0")
  case True
  then show ?thesis
    unfolding ngx_ts_dash_box_avcc_def Let_def avcc_bytes_def by (simp add: emits_id)
next
  case False
  show ?thesis
    unfolding ngx_ts_dash_box_avcc_def Let_def if_not_P [OF False]
    by (rule emits_eq, (rule emits_intros)+) (use False in \<open>simp_all add: avcc_bytes_def be16_len\<close>)
qed


lemma sample_entry_emits:
  "es_video (rep_es rep) \<Longrightarrow> emits (\<lambda>b. ngx_ts_dash_box_video b rep) (sample_entry_bytes rep)"
  "\<not> es_video (rep_es rep) \<Longrightarrow> emits (\<lambda>b. ngx_ts_dash_box_audio b rep) (sample_entry_bytes rep)"
proof -
  assume video: "es_video (rep_es rep)"
  show "emits (\<lambda>b. ngx_ts_dash_box_video b rep) (sample_entry_bytes rep)"
    unfolding ngx_ts_dash_box_video_def Let_def
    by (rule emits_eq, (rule emits_intros emits_comp [OF avcc_emits] emits_comp [OF esds_emits])+)
      (simp_all add: sample_entry_bytes_def video)
next
  assume audio: "\<not> es_video (rep_es rep)"
  show "emits (\<lambda>b. ngx_ts_dash_box_audio b rep) (sample_entry_bytes rep)"
    unfolding ngx_ts_dash_box_audio_def Let_def
    by (rule emits_eq, (rule emits_intros emits_comp [OF esds_emits])+)
      (simp_all add: sample_entry_bytes_def audio)
qed

lemma stsd_emits:
  "emits (\<lambda>b. ngx_ts_dash_box_stsd b rep) (enc_box (Leaf ''stsd'' (full 0 0 @ be32 1 @ sample_entry_bytes rep)))"
  unfolding ngx_ts_dash_box_stsd_def Let_def
  by (rule emits_eq, (rule emits_intros emits_comp [OF sample_entry_emits(1)]
      emits_comp [OF sample_entry_emits(2)] | assumption)+) simp_all

lemma stbl_emits: "emits (\<lambda>b. ngx_ts_dash_box_stbl b rep) (enc_box (stbl_box rep))"
  unfolding ngx_ts_dash_box_stbl_def Let_def
  by (rule emits_eq, (rule emits_intros emits_comp [OF stsd_emits] leaf_emits [THEN emits_comp])+)
    (simp_all add: stbl_box_def)

lemma dinf_emits: "emits (\<lambda>b. ngx_ts_dash_box_dinf b) (enc_box dinf_box)"
proof -
  have dref: "emits (\<lambda>b. ngx_ts_dash_box_dref b)
      (enc_box (Leaf ''dref'' (full 0 0 @ be32 1 @ box_bytes ''url '' (full 0 1))))"
    unfolding ngx_ts_dash_box_dref_def Let_def
    by (rule emits_eq, (rule emits_intros leaf_emits [THEN emits_comp])+) simp_all
  show ?thesis
    unfolding ngx_ts_dash_box_dinf_def Let_def
    by (rule emits_eq, (rule emits_intros emits_comp [OF dref])+) (simp_all add: dinf_box_def)
qed

lemma minf_emits: "emits (\<lambda>b. ngx_ts_dash_box_minf b rep)
    (enc_box (Node ''minf'' [media_header_box rep, dinf_box, stbl_box rep]))"
  unfolding ngx_ts_dash_box_minf_def Let_def
  by (rule emits_eq, (rule emits_intros emits_comp [OF dinf_emits] emits_comp [OF stbl_emits]
      leaf_emits [THEN emits_comp])+) (simp_all add: media_header_box_def)

lemma trak_emits: "emits (\<lambda>b. ngx_ts_dash_box_trak now b rep) (enc_box (trak_box now rep))"
proof -
  have mdia: "emits (\<lambda>b. ngx_ts_dash_box_mdia now b rep) (enc_box (Node ''mdia'' [mdhd_box now, hdlr_box rep,
       Node ''minf'' [media_header_box rep, dinf_box, stbl_box rep]]))"
    unfolding ngx_ts_dash_box_mdia_def Let_def
    by (rule emits_eq, (rule emits_intros emits_comp [OF mdhd_emits] emits_comp [OF hdlr_emits]
        emits_comp [OF minf_emits])+) simp_all
  show ?thesis
    unfolding ngx_ts_dash_box_trak_def Let_def
    by (rule emits_eq, (rule emits_intros emits_comp [OF tkhd_emits] emits_comp [OF mdia])+)
      (simp_all add: trak_box_def)
qed

lemma moov_emits: "emits (\<lambda>b. ngx_ts_dash_box_moov now b rep) (enc_box (moov_box now rep))"
proof -
  have mvex: "emits (\<lambda>b. ngx_ts_dash_box_mvex b) (enc_box mvex_box)"
    unfolding ngx_ts_dash_box_mvex_def Let_def
    by (rule emits_eq, (rule emits_intros leaf_emits [THEN emits_comp])+) (simp_all add: mvex_box_def)
  show ?thesis
    unfolding ngx_ts_dash_box_moov_def Let_def
    by (rule emits_eq, (rule emits_intros emits_comp [OF mvhd_emits] emits_comp [OF mvex]
        emits_comp [OF trak_emits])+) (simp_all add: moov_box_def)
qed

lemma init_segment_emits:
  "emits (\<lambda>b. ngx_ts_dash_write_init_segment now b rep) (enc_box ftyp_box @ enc_box (moov_box now rep))"
  unfolding ngx_ts_dash_write_init_segment_def
  by (rule emits_comp [OF moov_emits ftyp_emits])

section \<open>Parsing boxes\<close>

text \<open>
  A reader of the format: a box of a container type is a list of boxes, any other is a leaf.  The fuel
  is the nesting depth plus the number of boxes; \<open>None\<close> is a malformed sequence of boxes.
\<close>

definition containers :: "bytes list" where
  "containers = map asc [''moov'', ''mvex'', ''trak'', ''mdia'', ''minf'', ''dinf'', ''stbl'', ''moof'', ''traf'']"

datatype pbox = PLeaf bytes bytes | PNode bytes "pbox list"

fun parse_boxes :: "nat \<Rightarrow> bytes \<Rightarrow> pbox list option" where
  "parse_boxes 0 xs = None"
| "parse_boxes (Suc fuel) xs =
     (if xs = [] then Some []
      else
        let n = be_nat (take 4 xs); t = take 4 (drop 4 xs); body = take (n - 8) (drop 8 xs)
        in if length xs < 8 \<or> n < 8 \<or> length xs < n then None
           else case parse_boxes fuel (drop n xs) of
                  None \<Rightarrow> None
                | Some ps \<Rightarrow>
                    if t \<in> set containers then
                      (case parse_boxes fuel body of None \<Rightarrow> None | Some qs \<Rightarrow> Some (PNode t qs # ps))
                    else Some (PLeaf t body # ps))"

fun pbox_of :: "box \<Rightarrow> pbox" where
  "pbox_of (Leaf t xs) = PLeaf (asc t) xs"
| "pbox_of (Node t bs) = PNode (asc t) (map pbox_of bs)"

fun box_ok :: "box \<Rightarrow> bool" where
  "box_ok (Leaf t xs) \<longleftrightarrow> length t = 4 \<and> asc t \<notin> set containers \<and> length (enc_box (Leaf t xs)) < 2 ^ 32"
| "box_ok (Node t bs) \<longleftrightarrow> length t = 4 \<and> asc t \<in> set containers \<and> list_all box_ok bs \<and>
     length (enc_box (Node t bs)) < 2 ^ 32"

fun box_weight :: "box \<Rightarrow> nat" where
  "box_weight (Leaf t xs) = 1"
| "box_weight (Node t bs) = 1 + sum_list (map box_weight bs)"

lemma parse_box_bytes:
  assumes "length t = 4" "8 + length xs < 2 ^ 32"
  shows "parse_boxes (Suc fuel) (box_bytes t xs @ ys) =
    (case parse_boxes fuel ys of
       None \<Rightarrow> None
     | Some ps \<Rightarrow>
         if asc t \<in> set containers then
           (case parse_boxes fuel xs of None \<Rightarrow> None | Some qs \<Rightarrow> Some (PNode (asc t) qs # ps))
         else Some (PLeaf (asc t) xs # ps))"
proof -
  let ?B = "box_bytes t xs @ ys"
  have n: "be_nat (take 4 ?B) = 8 + length xs" using assms(2) by (simp add: box_bytes_def)
  have parts: "?B \<noteq> []" "take 4 (drop 4 ?B) = asc t" "drop 8 ?B = xs @ ys" "drop (8 + length xs) ?B = ys"
    "length ?B = 8 + length xs + length ys"
    using assms(1) length_enc_nat [of 4 "8 + length xs"]
    by (auto simp: box_bytes_def simp del: length_enc_nat)
  have body: "take (8 + length xs - 8) (xs @ ys) = xs" by simp
  show ?thesis
    unfolding parse_boxes.simps Let_def n parts(2-5) if_not_P [OF parts(1)] body by simp
qed

lemma parse_boxes_enc:
  "sum_list (map box_weight bs) < fuel \<Longrightarrow> list_all box_ok bs \<Longrightarrow>
   parse_boxes fuel (concat (map enc_box bs)) = Some (map pbox_of bs)"
proof (induction fuel arbitrary: bs)
  case (Suc fuel)
  show ?case
  proof (cases bs)
    case (Cons b bs')
    have rest: "parse_boxes fuel (concat (map enc_box bs')) = Some (map pbox_of bs')"
      using Suc.prems Cons by (intro Suc.IH) (cases b; simp)+
    show ?thesis
    proof (cases b)
      case (Leaf t xs)
      then show ?thesis
        using Suc.prems Cons rest parse_box_bytes [of t xs fuel "concat (map enc_box bs')"]
        by (auto simp del: parse_boxes.simps)
    next
      case (Node t kids)
      have "parse_boxes fuel (concat (map enc_box kids)) = Some (map pbox_of kids)"
        using Suc.prems Cons Node by (intro Suc.IH) auto
      then show ?thesis
        using Suc.prems Cons Node rest
          parse_box_bytes [of t "concat (map enc_box kids)" fuel "concat (map enc_box bs')"]
        by (auto simp del: parse_boxes.simps)
    qed
  qed simp
qed simp


section \<open>Writers stay inside the buffer\<close>

text \<open>
  Whatever the room, a writer never passes the end of the buffer and never changes what was there
  before it: the code truncates.
\<close>

definition grows :: "buf \<Rightarrow> buf \<Rightarrow> bool" where
  "grows b b' \<longleftrightarrow> length (b_mem b') = length (b_mem b) \<and> b_pos b' = b_pos b \<and> b_last b \<le> b_last b' \<and>
     b_last b' \<le> length (b_mem b') \<and> take (b_last b) (b_mem b') = take (b_last b) (b_mem b)"

definition safe :: "(buf \<Rightarrow> buf) \<Rightarrow> bool" where
  "safe f \<longleftrightarrow> (\<forall>b. b_last b \<le> length (b_mem b) \<longrightarrow> grows b (f b))"

named_theorems safe_intros \<open>one rule for each writer\<close>

lemma grows_trans: "grows a b \<Longrightarrow> grows b c \<Longrightarrow> grows a c"
  unfolding grows_def by (metis order.trans min.absorb1 take_take)

lemma growsD: "grows b b' \<Longrightarrow> b_last b' \<le> length (b_mem b')" "grows b b' \<Longrightarrow> b_last b \<le> b_last b'"
  by (simp_all add: grows_def)

lemma safeD: "safe f \<Longrightarrow> b_last b \<le> length (b_mem b) \<Longrightarrow> grows b (f b)"
  by (simp add: safe_def)

lemma safe_id [safe_intros]: "safe (\<lambda>b. b)"
  by (simp add: safe_def grows_def)

lemma safe_comp: "safe g \<Longrightarrow> safe f \<Longrightarrow> safe (\<lambda>b. g (f b))"
  unfolding safe_def using grows_trans by (metis grows_def)

lemma safe_write_loop: "safe (dash_write_loop n v)"
proof (induction n)
  case 0
  then show ?case by (simp add: safe_def grows_def)
next
  case (Suc n)
  have step: "grows b (b\<lparr>b_mem := (b_mem b)[b_last b := x], b_last := b_last b + 1\<rparr>)"
    if "b_last b < length (b_mem b)" for b :: buf and x
    using that by (simp add: grows_def)
  show ?case
    unfolding safe_def
  proof (intro allI impI)
    fix b :: buf
    assume b: "b_last b \<le> length (b_mem b)"
    show "grows b (dash_write_loop (Suc n) v b)"
    proof (cases "b_last b < length (b_mem b)")
      case True
      let ?b = "b\<lparr>b_mem := (b_mem b)[b_last b := ucast (drop_bit (8 * n) v)], b_last := b_last b + 1\<rparr>"
      have g: "grows b ?b" using step [OF True] .
      have "grows ?b (dash_write_loop n v ?b)" using safeD [OF Suc.IH growsD(1) [OF g]] .
      with g have "grows b (dash_write_loop n v ?b)" by (rule grows_trans)
      with True show ?thesis by simp
    next
      case False
      with b show ?thesis by (simp add: grows_def)
    qed
  qed
qed

lemma take_poke: "k \<le> p \<Longrightarrow> take k (poke m p xs) = take k m"
  by (induction m p xs rule: poke.induct) simp_all

lemma safe_writers:
  "safe (\<lambda>b. ngx_ts_dash_write64 b v8)" "safe (\<lambda>b. ngx_ts_dash_write32 b v4)"
  "safe (\<lambda>b. ngx_ts_dash_write24 b v4)" "safe (\<lambda>b. ngx_ts_dash_write16 b v2)"
  "safe (\<lambda>b. ngx_ts_dash_write8 b v1)" "safe (\<lambda>b. ngx_ts_dash_cpymem b xs)"
  unfolding ngx_ts_dash_write64_def ngx_ts_dash_write32_def ngx_ts_dash_write24_def ngx_ts_dash_write16_def
  by (simp_all add: safe_write_loop)
    (auto simp: safe_def grows_def ngx_ts_dash_write8_def ngx_ts_dash_cpymem_def Let_def take_poke)

lemmas [safe_intros] = safe_writers [THEN safe_comp]

lemma safe_if [safe_intros]: "(c \<Longrightarrow> safe f) \<Longrightarrow> (\<not> c \<Longrightarrow> safe g) \<Longrightarrow> safe (\<lambda>b. if c then f b else g b)"
  by (cases c) simp_all

lemma grows_update: "grows a b \<Longrightarrow> grows a (ngx_ts_dash_box_update b (b_last a))"
  "grows a b \<Longrightarrow> b_last a \<le> p \<Longrightarrow> grows a (ngx_ts_dash_desc_update b p)"
  by (auto simp: grows_def ngx_ts_dash_box_update_def ngx_ts_dash_desc_update_def Let_def take_poke)

text \<open>A box or descriptor is safe when its opening and its body are.\<close>

lemma safe_block:
  assumes opened: "\<And>b. b_last b \<le> length (b_mem b) \<Longrightarrow> b_last b \<le> fst (start b) \<and> grows b (snd (start b))"
    and body: "safe body"
    and closed: "\<And>a b. b_last a \<le> length (b_mem a) \<Longrightarrow> grows a b \<Longrightarrow> grows a (finish b (fst (start a)))"
    and f: "safe f"
  shows "safe (\<lambda>b. case start (f b) of (p, b) \<Rightarrow> finish (body b) p)"
proof -
  have "grows b (case start b of (p, b) \<Rightarrow> finish (body b) p)" if b: "b_last b \<le> length (b_mem b)" for b
  proof -
    have o: "grows b (snd (start b))" using opened [OF b] by simp
    have "grows (snd (start b)) (body (snd (start b)))" using safeD [OF body growsD(1) [OF o]] .
    with o have "grows b (body (snd (start b)))" by (rule grows_trans)
    from closed [OF b this] show ?thesis by (simp add: split_def)
  qed
  then have "safe (\<lambda>b. case start b of (p, b) \<Rightarrow> finish (body b) p)" by (simp add: safe_def)
  from safe_comp [OF this f] show ?thesis .
qed

lemma safe_boxes [safe_intros]:
  assumes "safe body" "safe f"
  shows "safe (\<lambda>b. case ngx_ts_dash_box (f b) t of (p, b) \<Rightarrow> ngx_ts_dash_box_update (body b) p)"
    and "safe (\<lambda>b. case ngx_ts_dash_box_full (f b) t v fl of (p, b) \<Rightarrow> ngx_ts_dash_box_update (body b) p)"
    and "safe (\<lambda>b. case ngx_ts_dash_desc (f b) tag of (p, b) \<Rightarrow> ngx_ts_dash_desc_update (body b) p)"
proof -
  have box: "grows b (ngx_ts_dash_cpymem (ngx_ts_dash_write32 b 0) (asc t))"
    if "b_last b \<le> length (b_mem b)" for b
    using safe_comp [OF safe_writers(6) safe_writers(2)] that by (simp add: safe_def)
  have full: "grows b (ngx_ts_dash_write24 (ngx_ts_dash_write8 (ngx_ts_dash_cpymem (ngx_ts_dash_write32 b 0) (asc t)) v) fl)"
    if "b_last b \<le> length (b_mem b)" for b
    using safe_comp [OF safe_writers(3) safe_comp [OF safe_writers(5)
        safe_comp [OF safe_writers(6) safe_writers(2)]]] that by (simp add: safe_def)
  have desc: "grows b (ngx_ts_dash_write32 (ngx_ts_dash_write8 b tag) 0)"
    and byte: "b_last b \<le> b_last (ngx_ts_dash_write8 b tag)"
    if "b_last b \<le> length (b_mem b)" for b
    using safeD [OF safe_comp [OF safe_writers(2) safe_writers(5)] that]
      growsD(2) [OF safeD [OF safe_writers(5) that]] by simp_all
  show "safe (\<lambda>b. case ngx_ts_dash_box (f b) t of (p, b) \<Rightarrow> ngx_ts_dash_box_update (body b) p)"
    using box assms by (intro safe_block) (simp_all add: ngx_ts_dash_box_def Let_def grows_update)
  show "safe (\<lambda>b. case ngx_ts_dash_box_full (f b) t v fl of (p, b) \<Rightarrow> ngx_ts_dash_box_update (body b) p)"
    using full assms by (intro safe_block)
      (simp_all add: ngx_ts_dash_box_full_def ngx_ts_dash_box_def Let_def grows_update)
  show "safe (\<lambda>b. case ngx_ts_dash_desc (f b) tag of (p, b) \<Rightarrow> ngx_ts_dash_desc_update (body b) p)"
    using desc byte assms by (intro safe_block) (simp_all add: ngx_ts_dash_desc_def Let_def grows_update)
qed

lemma safe_dec_spec: "safe (\<lambda>b. ngx_ts_dash_desc_dec_spec b rep)"
  unfolding ngx_ts_dash_desc_dec_spec_def Let_def
  by (cases "rep_aac rep"; simp only: option.case) (rule safe_intros | simp only: safe_id)+

lemma safe_esds: "safe (\<lambda>b. ngx_ts_dash_box_esds b rep)"
  unfolding ngx_ts_dash_box_esds_def ngx_ts_dash_desc_es_def ngx_ts_dash_desc_dec_conf_def
    ngx_ts_dash_desc_sl_conf_def Let_def
  by (rule safe_intros safe_comp [OF safe_dec_spec])+


lemma safe_stsd: "safe (\<lambda>b. ngx_ts_dash_box_stsd b rep)"
  unfolding ngx_ts_dash_box_stsd_def ngx_ts_dash_box_video_def ngx_ts_dash_box_audio_def
    ngx_ts_dash_box_avcc_def Let_def
  by (rule safe_intros safe_comp [OF safe_esds])+

lemma safe_minf: "safe (\<lambda>b. ngx_ts_dash_box_minf b rep)"
  unfolding ngx_ts_dash_box_minf_def ngx_ts_dash_box_vmhd_def ngx_ts_dash_box_smhd_def
    ngx_ts_dash_box_dinf_def ngx_ts_dash_box_dref_def ngx_ts_dash_box_url_def ngx_ts_dash_box_stbl_def
    ngx_ts_dash_box_stts_def ngx_ts_dash_box_stsc_def ngx_ts_dash_box_stsz_def
    ngx_ts_dash_box_stco_def Let_def
  by (rule safe_intros safe_comp [OF safe_stsd])+

lemma safe_init_segment: "safe (\<lambda>b. ngx_ts_dash_write_init_segment now b rep)"
  unfolding ngx_ts_dash_write_init_segment_def ngx_ts_dash_box_ftyp_def ngx_ts_dash_box_moov_def
    ngx_ts_dash_box_mvhd_def ngx_ts_dash_box_mvex_def ngx_ts_dash_box_trex_def ngx_ts_dash_box_trak_def
    ngx_ts_dash_box_tkhd_def ngx_ts_dash_box_mdia_def ngx_ts_dash_box_mdhd_def ngx_ts_dash_box_hdlr_def
    Let_def
  by (rule safe_intros safe_comp [OF safe_minf])+

section \<open>The properties\<close>

text \<open>
  Whatever the representation and however small the buffer, writing the initialisation segment
  stays inside the buffer and keeps every byte that was there before.
\<close>

theorem init_segment_bounded:
  assumes "b_last b \<le> length (b_mem b)" "b' = ngx_ts_dash_write_init_segment now b rep"
  shows "length (b_mem b') = length (b_mem b) \<and> b_last b \<le> b_last b' \<and> b_last b' \<le> length (b_mem b') \<and>
    take (b_last b) (b_mem b') = take (b_last b) (b_mem b)"
  using safeD [OF safe_init_segment assms(1), of now rep] by (simp add: assms(2) grows_def)

definition audio_rep :: ngx_ts_dash_rep where
  "audio_rep = \<lparr>rep_es = zero_es\<lparr>es_type := NGX_TS_AUDIO_AAC\<rparr>, rep_seg = 0, rep_seg_pts = 0,
     rep_seg_dts = 0, rep_dts = 0, rep_bandwidth = 64000, rep_sps = [], rep_pps = [], rep_avc = None,
     rep_aac = Some \<lparr>aac_version = 0, aac_profile = 2, aac_freq_index = 4, aac_freq = 44100, aac_chan = 2\<rparr>,
     rep_meta = [], rep_data = [], rep_nsamples = 0, rep_nmeta = 0, rep_ndata = 0,
     rep_subs = \<lparr>sub_dts = None, sub_pts = None, sub_seq = None, sub_duration = None,
       sub_sample_duration = None, sub_nsamples = None, sub_traf = None, sub_trun = None,
       sub_moof = None, sub_moof_mdat = None, sub_moof_data = None, sub_mdat = None\<rparr>\<rparr>"

theorem init_segment_bounded_witness:
  "b_last (ngx_ts_dash_write_init_segment 0 \<lparr>b_mem = replicate 100 0, b_pos = 0, b_last = 0\<rparr> audio_rep) \<le> 100"
  using init_segment_bounded [of "\<lparr>b_mem = replicate 100 0, b_pos = 0, b_last = 0\<rparr>" _ 0 audio_rep, OF _ refl]
  by simp

lemma init_boxes_ok:
  assumes "length (enc_box (moov_box now rep)) < 2 ^ 32"
  shows "list_all box_ok [ftyp_box, moov_box now rep]"
  using assms
  by (simp add: ftyp_box_def moov_box_def mvhd_box_def mvex_box_def trak_box_def tkhd_box_def mdhd_box_def
      hdlr_box_def media_header_box_def dinf_box_def stbl_box_def containers_def Let_def split: if_splits)

text \<open>
  C25: with room for it, the initialisation segment is a file type box and a movie box, and a reader of
  the format gets back the whole tree: each size covers exactly its box.
\<close>

theorem init_segment_parses:
  assumes "length (enc_box ftyp_box @ enc_box (moov_box now rep)) \<le> room b"
    and "length (enc_box (moov_box now rep)) < 2 ^ 32" "b_last b \<le> length (b_mem b)"
    and "b' = ngx_ts_dash_write_init_segment now b rep"
  shows "parse_boxes 32 (drop (b_last b) (take (b_last b') (b_mem b'))) =
    Some [pbox_of ftyp_box, pbox_of (moov_box now rep)]"
proof -
  have "b' = emit b (concat (map enc_box [ftyp_box, moov_box now rep]))"
    using emitsD [OF init_segment_emits assms(1)] assms(4) by simp
  then have "drop (b_last b) (take (b_last b') (b_mem b')) = concat (map enc_box [ftyp_box, moov_box now rep])"
    using assms(3) by (simp add: emit_def min_def)
  moreover have "sum_list (map box_weight [ftyp_box, moov_box now rep]) < 32"
    by (simp add: ftyp_box_def moov_box_def mvhd_box_def mvex_box_def trak_box_def tkhd_box_def mdhd_box_def
        hdlr_box_def media_header_box_def dinf_box_def stbl_box_def Let_def)
  ultimately show ?thesis
    using parse_boxes_enc [OF _ init_boxes_ok [OF assms(2)], of 32] by simp
qed

theorem init_segment_parses_witness:
  "\<exists>b'. b' = ngx_ts_dash_write_init_segment 0 \<lparr>b_mem = replicate 1024 0, b_pos = 0, b_last = 0\<rparr> audio_rep \<and>
     parse_boxes 32 (take (b_last b') (b_mem b')) = Some [pbox_of ftyp_box, pbox_of (moov_box 0 audio_rep)]"
proof -
  have "length (enc_box (moov_box 0 audio_rep)) < 900" "length (enc_box ftyp_box) = 28"
    by (simp_all add: ftyp_box_def moov_box_def mvhd_box_def mvex_box_def trak_box_def tkhd_box_def mdhd_box_def
        hdlr_box_def media_header_box_def dinf_box_def stbl_box_def audio_rep_def zero_es_def
        sample_entry_bytes_def esds_bytes_def es_desc_def dec_spec_desc_def Let_def)
  then show ?thesis
    using init_segment_parses [of 0 audio_rep "\<lparr>b_mem = replicate 1024 0, b_pos = 0, b_last = 0\<rparr>" _, OF _ _ _ refl]
    by (simp add: room_def)
qed

end
