(* ===== verification/Dash_Segment.thy ===== *)
theory Dash_Segment
  imports Dash_Init
begin

text \<open>
  Media segments (ngx\_ts\_dash\_mp4.c): \<open>ngx_ts_dash_start_segment\<close> writes the headers with empty
  values and remembers where they are, \<open>ngx_ts_dash_append_meta\<close> and \<open>ngx_ts_dash_append_data\<close> add
  the samples, and \<open>ngx_ts_dash_end_segment\<close> patches the values in.  \<open>None\<close> is a fault: a null or
  stray pointer is used.
\<close>

section \<open>Buffers\<close>

text \<open>The fields of \<open>ngx_ts_dash_t\<close> the segments use: the pool of the stream and the free buffers.\<close>

record 'p ngx_ts_dash =
  dash_pool :: 'p
  dash_free :: chain

definition ngx_ts_dash_get_buffer ::
    "'p pool_ops \<Rightarrow> 'p ngx_ts_dash \<Rightarrow> buf option \<times> 'p ngx_ts_dash" where
  "ngx_ts_dash_get_buffer ops dash =
     (case dash_free dash of
        b # bs \<Rightarrow> (Some (b\<lparr>b_pos := 0, b_last := 0\<rparr>), dash\<lparr>dash_free := bs\<rparr>)
      | [] \<Rightarrow>
          (case p_link ops (dash_pool dash) of
             None \<Rightarrow> (None, dash)
           | Some p \<Rightarrow>
               (case p_alloc ops p NGX_TS_DASH_BUFFER_SIZE of
                  None \<Rightarrow> (None, dash\<lparr>dash_pool := p\<rparr>)
                | Some (p, m) \<Rightarrow>
                    (Some \<lparr>b_mem = m, b_pos = 0, b_last = 0\<rparr>, dash\<lparr>dash_pool := p\<rparr>))))"

definition ngx_ts_dash_free_segment ::
    "'p ngx_ts_dash \<Rightarrow> chain \<Rightarrow> 'p ngx_ts_dash option" where
  "ngx_ts_dash_free_segment dash out =
     (if out = [] then None else Some (dash\<lparr>dash_free := out @ dash_free dash\<rparr>))"

section \<open>The boxes of a media segment\<close>

definition zero_subs :: ngx_ts_dash_subs where
  "zero_subs = \<lparr>sub_dts = None, sub_pts = None, sub_seq = None, sub_duration = None,
     sub_sample_duration = None, sub_nsamples = None, sub_traf = None, sub_trun = None,
     sub_moof = None, sub_moof_mdat = None, sub_moof_data = None, sub_mdat = None\<rparr>"

definition ngx_ts_dash_box_styp :: "buf \<Rightarrow> buf" where
  "ngx_ts_dash_box_styp b =
     (let (p, b) = ngx_ts_dash_box b ''styp'';
          b = ngx_ts_dash_cpymem b (asc ''iso6'');
          b = ngx_ts_dash_write32 b 1;
          b = ngx_ts_dash_cpymem b (asc ''isom'');
          b = ngx_ts_dash_cpymem b (asc ''iso6'');
          b = ngx_ts_dash_cpymem b (asc ''dash'')
      in ngx_ts_dash_box_update b p)"

text \<open>The writers that remember a place return the places with the buffer.\<close>

definition ngx_ts_dash_box_sidx :: "buf \<Rightarrow> ngx_ts_dash_subs \<Rightarrow> buf \<times> ngx_ts_dash_subs" where
  "ngx_ts_dash_box_sidx b subs =
     (let (p, b) = ngx_ts_dash_box_full b ''sidx'' 1 0;
          b = ngx_ts_dash_write32 b 1;
          b = ngx_ts_dash_write32 b 90000;
          subs = subs\<lparr>sub_pts := ngx_ts_dash_set_sub b\<rparr>;
          b = ngx_ts_dash_write64 b 0;
          b = ngx_ts_dash_write64 b 0;
          b = ngx_ts_dash_write32 b 1;
          subs = subs\<lparr>sub_moof_mdat := ngx_ts_dash_set_sub b\<rparr>;
          b = ngx_ts_dash_write32 b 0;
          subs = subs\<lparr>sub_duration := ngx_ts_dash_set_sub b\<rparr>;
          b = ngx_ts_dash_write32 b 0;
          b = ngx_ts_dash_write32 b 0x80000000
      in (ngx_ts_dash_box_update b p, subs))"

definition ngx_ts_dash_box_mfhd :: "buf \<Rightarrow> ngx_ts_dash_subs \<Rightarrow> buf \<times> ngx_ts_dash_subs" where
  "ngx_ts_dash_box_mfhd b subs =
     (let (p, b) = ngx_ts_dash_box_full b ''mfhd'' 0 0;
          subs = subs\<lparr>sub_seq := ngx_ts_dash_set_sub b\<rparr>;
          b = ngx_ts_dash_write32 b 0
      in (ngx_ts_dash_box_update b p, subs))"

definition ngx_ts_dash_box_tfhd :: "buf \<Rightarrow> buf" where
  "ngx_ts_dash_box_tfhd b =
     (let (p, b) = ngx_ts_dash_box_full b ''tfhd'' 0 0;
          b = ngx_ts_dash_write32 b 1
      in ngx_ts_dash_box_update b p)"

definition ngx_ts_dash_box_tfdt :: "buf \<Rightarrow> ngx_ts_dash_subs \<Rightarrow> buf \<times> ngx_ts_dash_subs" where
  "ngx_ts_dash_box_tfdt b subs =
     (let (p, b) = ngx_ts_dash_box_full b ''tfdt'' 1 0;
          subs = subs\<lparr>sub_dts := ngx_ts_dash_set_sub b\<rparr>;
          b = ngx_ts_dash_write64 b 0
      in (ngx_ts_dash_box_update b p, subs))"

definition trun_flags :: "bool \<Rightarrow> u32" where
  "trun_flags video =
     (let flags = 0x000001 OR 0x000100 OR 0x000200
      in if video then flags OR (0x000400 OR 0x000800) else flags)"

definition ngx_ts_dash_box_trun :: "bool \<Rightarrow> buf \<Rightarrow> ngx_ts_dash_subs \<Rightarrow> buf \<times> ngx_ts_dash_subs" where
  "ngx_ts_dash_box_trun video b subs =
     (let subs = subs\<lparr>sub_trun := ngx_ts_dash_set_sub b\<rparr>;
          (p, b) = ngx_ts_dash_box_full b ''trun'' 0 (trun_flags video);
          subs = subs\<lparr>sub_nsamples := ngx_ts_dash_set_sub b\<rparr>;
          b = ngx_ts_dash_write32 b 0;
          subs = subs\<lparr>sub_moof_data := ngx_ts_dash_set_sub b\<rparr>;
          b = ngx_ts_dash_write32 b 0
      in (ngx_ts_dash_box_update b p, subs))"

definition ngx_ts_dash_box_traf :: "bool \<Rightarrow> buf \<Rightarrow> ngx_ts_dash_subs \<Rightarrow> buf \<times> ngx_ts_dash_subs" where
  "ngx_ts_dash_box_traf video b subs =
     (let subs = subs\<lparr>sub_traf := ngx_ts_dash_set_sub b\<rparr>;
          (p, b) = ngx_ts_dash_box b ''traf'';
          b = ngx_ts_dash_box_tfhd b;
          (b, subs) = ngx_ts_dash_box_tfdt b subs;
          (b, subs) = ngx_ts_dash_box_trun video b subs
      in (ngx_ts_dash_box_update b p, subs))"

definition ngx_ts_dash_box_moof :: "bool \<Rightarrow> buf \<Rightarrow> ngx_ts_dash_subs \<Rightarrow> buf \<times> ngx_ts_dash_subs" where
  "ngx_ts_dash_box_moof video b subs =
     (let subs = subs\<lparr>sub_moof := ngx_ts_dash_set_sub b\<rparr>;
          (p, b) = ngx_ts_dash_box b ''moof'';
          (b, subs) = ngx_ts_dash_box_mfhd b subs;
          (b, subs) = ngx_ts_dash_box_traf video b subs
      in (ngx_ts_dash_box_update b p, subs))"

definition ngx_ts_dash_box_mdat :: "buf \<Rightarrow> ngx_ts_dash_subs \<Rightarrow> buf \<times> ngx_ts_dash_subs" where
  "ngx_ts_dash_box_mdat b subs =
     (let subs = subs\<lparr>sub_mdat := ngx_ts_dash_set_sub b\<rparr>;
          (p, b) = ngx_ts_dash_box b ''mdat''
      in (ngx_ts_dash_box_update b p, subs))"

section \<open>Starting a segment\<close>

definition ngx_ts_dash_start_segment ::
    "'p pool_ops \<Rightarrow> 'p ngx_ts_dash \<Rightarrow> ngx_ts_dash_rep \<Rightarrow> ngx_rc \<times> 'p ngx_ts_dash \<times> ngx_ts_dash_rep" where
  "ngx_ts_dash_start_segment ops dash rep =
     (let rep = rep\<lparr>rep_subs := zero_subs, rep_nsamples := 0, rep_nmeta := 0, rep_ndata := 0\<rparr>
      in case ngx_ts_dash_get_buffer ops dash of
           (None, dash) \<Rightarrow> (NGX_ERROR, dash, rep\<lparr>rep_meta := []\<rparr>)
         | (Some b, dash) \<Rightarrow>
             let b = ngx_ts_dash_box_styp b;
                 (b, subs) = ngx_ts_dash_box_sidx b (rep_subs rep);
                 (b, subs) = ngx_ts_dash_box_moof (es_video (rep_es rep)) b subs;
                 rep = rep\<lparr>rep_meta := [b], rep_subs := subs\<rparr>
             in if b_last b = length (b_mem b) then (NGX_ERROR, dash, rep)
                else case ngx_ts_dash_get_buffer ops dash of
                  (None, dash) \<Rightarrow> (NGX_ERROR, dash, rep\<lparr>rep_data := []\<rparr>)
                | (Some b, dash) \<Rightarrow>
                    let (b, subs) = ngx_ts_dash_box_mdat b subs;
                        rep = rep\<lparr>rep_data := [b], rep_subs := subs\<rparr>
                    in if b_last b = length (b_mem b) then (NGX_ERROR, dash, rep)
                       else (NGX_OK, dash, rep))"

section \<open>Adding samples\<close>

text \<open>Stores and loads through a pointer into a chain; a null or stray one is a fault.\<close>

definition chain_put :: "chain \<Rightarrow> nat \<Rightarrow> nat \<Rightarrow> bytes \<Rightarrow> chain option" where
  "chain_put cl i off xs =
     (if i < length cl \<and> off + length xs \<le> length (b_mem (cl ! i))
      then Some (cl[i := (cl ! i)\<lparr>b_mem := poke (b_mem (cl ! i)) off xs\<rparr>]) else None)"

definition ngx_ts_dash_put32 :: "chain \<Rightarrow> (nat \<times> nat) option \<Rightarrow> u32 \<Rightarrow> chain option" where
  "ngx_ts_dash_put32 cl p v =
     (case p of
        None \<Rightarrow> None
      | Some (i, off) \<Rightarrow> chain_put cl i off
          [ucast (drop_bit 24 v), ucast (drop_bit 16 v), ucast (drop_bit 8 v), ucast v])"

definition ngx_ts_dash_put64 :: "chain \<Rightarrow> (nat \<times> nat) option \<Rightarrow> u64 \<Rightarrow> chain option" where
  "ngx_ts_dash_put64 cl p v =
     (case p of
        None \<Rightarrow> None
      | Some (i, off) \<Rightarrow> chain_put cl i off
          [ucast (drop_bit 56 v), ucast (drop_bit 48 v), ucast (drop_bit 40 v), ucast (drop_bit 32 v),
           ucast (drop_bit 24 v), ucast (drop_bit 16 v), ucast (drop_bit 8 v), ucast v])"

definition ngx_ts_dash_get32 :: "chain \<Rightarrow> (nat \<times> nat) option \<Rightarrow> u32 option" where
  "ngx_ts_dash_get32 cl p =
     (case p of
        None \<Rightarrow> None
      | Some (i, off) \<Rightarrow>
          if i < length cl \<and> off + 4 \<le> length (b_mem (cl ! i)) then
            let m = b_mem (cl ! i);
                v = ucast (m ! off);
                v = push_bit 8 v + ucast (m ! (off + 1));
                v = push_bit 8 v + ucast (m ! (off + 2))
            in Some (push_bit 8 v + ucast (m ! (off + 3)))
          else None)"

text \<open>
  \<open>cl->next = ngx_ts_dash_get_buffer(dash)\<close> when the last buffer has less than \<open>n\<close> bytes left.  The
  counters are changed before the buffer is there.
\<close>

definition append_sample :: "ngx_ts_dash_rep \<Rightarrow> nat \<Rightarrow> u64 \<Rightarrow> ngx_ts_dash_rep option" where
  "append_sample rep sz dts =
     (let n = (if es_video (rep_es rep) then 16 else 8);
          rep = rep\<lparr>rep_nmeta := rep_nmeta rep + n\<rparr>
      in case (case sub_sample_duration (rep_subs rep) of
                 None \<Rightarrow> Some (rep_meta rep)
               | Some p \<Rightarrow> ngx_ts_dash_put32 (rep_meta rep) (Some p) (ucast (dts - rep_dts rep))) of
           None \<Rightarrow> None
         | Some meta \<Rightarrow>
             let b = last meta;
                 subs = (rep_subs rep)\<lparr>sub_sample_duration :=
                   Some (length meta - 1, the (ngx_ts_dash_set_sub b))\<rparr>;
                 b = ngx_ts_dash_write32 b 0;
                 b = ngx_ts_dash_write32 b (word_of_nat sz);
                 b = (if es_video (rep_es rep) then
                        ngx_ts_dash_write32
                          (ngx_ts_dash_write32 b (if es_rand (rep_es rep) then 0x00000000 else 0x00010000))
                          (ucast (es_pts (rep_es rep) - es_dts (rep_es rep)))
                      else b)
             in Some (rep\<lparr>rep_meta := butlast meta @ [b], rep_subs := subs, rep_dts := dts\<rparr>))"

definition ngx_ts_dash_append_meta ::
    "'p pool_ops \<Rightarrow> 'p ngx_ts_dash \<Rightarrow> ngx_ts_dash_rep \<Rightarrow> nat \<Rightarrow> u64 \<Rightarrow>
     (ngx_rc \<times> 'p ngx_ts_dash \<times> ngx_ts_dash_rep) option" where
  "ngx_ts_dash_append_meta ops dash rep sz dts =
     (let rep = rep\<lparr>rep_ndata := rep_ndata rep + word_of_nat sz, rep_nsamples := rep_nsamples rep + 1\<rparr>;
          n = (if es_video (rep_es rep) then 16 else 8)
      in if rep_meta rep = [] then None
         else
           let b = last (rep_meta rep)
           in if length (b_mem b) - b_last b < n then
                (case ngx_ts_dash_get_buffer ops dash of
                   (None, dash) \<Rightarrow> Some (NGX_ERROR, dash, rep)
                 | (Some b, dash) \<Rightarrow>
                     map_option (\<lambda>rep. (NGX_OK, dash, rep))
                       (append_sample (rep\<lparr>rep_meta := rep_meta rep @ [b]\<rparr>) sz dts))
              else map_option (\<lambda>rep. (NGX_OK, dash, rep)) (append_sample rep sz dts))"

text \<open>
  The copy loop: \<open>cl\<close> is the chain up to \<open>last_data\<close>.  Every turn takes a byte at least, unless a new
  buffer is empty, so the length of the data is enough fuel; out of it is \<open>None\<close>, like a null chain.
\<close>

fun append_data_loop ::
    "nat \<Rightarrow> 'p pool_ops \<Rightarrow> 'p ngx_ts_dash \<Rightarrow> chain \<Rightarrow> bytes \<Rightarrow> (ngx_rc \<times> 'p ngx_ts_dash \<times> chain) option" where
  "append_data_loop fuel ops dash cl [] = Some (NGX_OK, dash, cl)"
| "append_data_loop 0 ops dash cl (x # xs) = None"
| "append_data_loop (Suc fuel) ops dash cl (x # xs) =
     (if cl = [] then None
      else
        case (if b_last (last cl) = length (b_mem (last cl))
              then (case ngx_ts_dash_get_buffer ops dash of
                      (None, dash) \<Rightarrow> (NGX_ERROR, dash, cl)
                    | (Some b, dash) \<Rightarrow> (NGX_OK, dash, cl @ [b]))
              else (NGX_OK, dash, cl)) of
          (rc, dash, cl) \<Rightarrow>
            if rc \<noteq> NGX_OK then Some (rc, dash, cl)
            else
              let b = last cl;
                  n = min (length (b_mem b) - b_last b) (length (x # xs));
                  b = b\<lparr>b_mem := poke (b_mem b) (b_last b) (take n (x # xs)), b_last := b_last b + n\<rparr>
              in append_data_loop fuel ops dash (butlast cl @ [b]) (drop n (x # xs)))"

definition ngx_ts_dash_append_data ::
    "'p pool_ops \<Rightarrow> 'p ngx_ts_dash \<Rightarrow> ngx_ts_dash_rep \<Rightarrow> bytes \<Rightarrow>
     (ngx_rc \<times> 'p ngx_ts_dash \<times> ngx_ts_dash_rep) option" where
  "ngx_ts_dash_append_data ops dash rep dat =
     (case append_data_loop (length dat) ops dash (rep_data rep) dat of
        None \<Rightarrow> None
      | Some (rc, dash, cl) \<Rightarrow> Some (rc, dash, rep\<lparr>rep_data := cl\<rparr>))"

section \<open>Ending a segment\<close>

text \<open>A place in the first buffer of a chain.\<close>

abbreviation at_first :: "nat option \<Rightarrow> (nat \<times> nat) option" where
  "at_first p \<equiv> map_option (\<lambda>off. (0, off)) p"

text \<open>\<open>ngx_ts_dash_put32(p, ngx_ts_dash_get32(p) + n)\<close>, and the new value.\<close>

definition add32 :: "chain \<Rightarrow> (nat \<times> nat) option \<Rightarrow> u64 \<Rightarrow> (u32 \<times> chain) option" where
  "add32 cl p n =
     (case ngx_ts_dash_get32 cl p of
        None \<Rightarrow> None
      | Some v \<Rightarrow>
          let v = ucast (ucast v + n)
          in map_option (\<lambda>cl. (v, cl)) (ngx_ts_dash_put32 cl p v))"

definition end_values :: "ngx_ts_dash_rep \<Rightarrow> chain option" where
  "end_values rep =
     (let subs = rep_subs rep
      in Option.bind (ngx_ts_dash_put64 (rep_meta rep) (at_first (sub_pts subs)) (rep_seg_pts rep)) (\<lambda>m.
         Option.bind (ngx_ts_dash_put64 m (at_first (sub_dts subs)) (rep_seg_dts rep)) (\<lambda>m.
         Option.bind (ngx_ts_dash_put32 m (at_first (sub_seq subs)) (ucast (rep_seg rep))) (\<lambda>m.
         Option.bind (ngx_ts_dash_put32 m (at_first (sub_nsamples subs)) (ucast (rep_nsamples rep))) (\<lambda>m.
           ngx_ts_dash_put32 m (at_first (sub_duration subs))
             (ucast (es_dts (rep_es rep) - rep_seg_dts rep)))))))"

definition end_meta :: "ngx_ts_dash_rep \<Rightarrow> (u32 \<times> chain) option" where
  "end_meta rep =
     (let subs = rep_subs rep;
          d = (ucast (es_dts (rep_es rep) - rep_dts rep) :: u32)
      in Option.bind (end_values rep) (\<lambda>m.
         Option.bind (if sub_sample_duration subs \<noteq> None \<and> sint d > 0
           then ngx_ts_dash_put32 m (sub_sample_duration subs) d else Some m) (\<lambda>m.
         Option.bind (add32 m (at_first (sub_traf subs)) (rep_nmeta rep)) (\<lambda>(_, m).
         Option.bind (add32 m (at_first (sub_trun subs)) (rep_nmeta rep)) (\<lambda>(_, m).
           add32 m (at_first (sub_moof subs)) (rep_nmeta rep))))))"

definition ngx_ts_dash_end_segment :: "ngx_ts_dash_rep \<Rightarrow> (chain \<times> ngx_ts_dash_rep) option" where
  "ngx_ts_dash_end_segment rep =
     (let subs = rep_subs rep
      in Option.bind (end_meta rep) (\<lambda>(moof, m).
         Option.bind (add32 (rep_data rep) (at_first (sub_mdat subs)) (rep_ndata rep)) (\<lambda>(mdat, dat).
         Option.bind (ngx_ts_dash_put32 m (at_first (sub_moof_mdat subs)) (moof + mdat)) (\<lambda>m.
         Option.bind (ngx_ts_dash_put32 m (at_first (sub_moof_data subs)) (moof + 8)) (\<lambda>m.
           Some (m @ dat, rep\<lparr>rep_meta := [], rep_data := []\<rparr>))))))"


section \<open>The bytes of a segment\<close>

text \<open>
  What precedes the samples in the first buffer: the segment type, the index and the movie fragment up
  to the sample table, with the values that are patched in.  It is 168 bytes long.
\<close>

record seg_values =
  v_pts :: nat
  v_moof_mdat :: nat
  v_duration :: nat
  v_moof :: nat
  v_seq :: nat
  v_traf :: nat
  v_dts :: nat
  v_trun :: nat
  v_nsamples :: nat
  v_moof_data :: nat

definition sidx_bytes :: "nat \<Rightarrow> nat \<Rightarrow> nat \<Rightarrow> bytes" where
  "sidx_bytes pts moof_mdat duration = box_bytes ''sidx'' (full 1 0 @ be32s [1, 90000] @ be64 pts @ be64 0 @
     be32s [1, moof_mdat, duration, 0x80000000])"

definition styp_bytes :: bytes where
  "styp_bytes = box_bytes ''styp'' (asc ''iso6'' @ be32 1 @ asc ''isom'' @ asc ''iso6'' @ asc ''dash'')"

definition trun_head :: "bool \<Rightarrow> nat \<Rightarrow> nat \<Rightarrow> bytes" where
  "trun_head video nsamples moof_data =
     full 0 (if video then 0xf01 else 0x301) @ be32s [nsamples, moof_data]"

definition seg_head :: "bool \<Rightarrow> seg_values \<Rightarrow> bytes" where
  "seg_head video v = styp_bytes @ sidx_bytes (v_pts v) (v_moof_mdat v) (v_duration v) @
     be32 (v_moof v) @ asc ''moof'' @ box_bytes ''mfhd'' (full 0 0 @ be32 (v_seq v)) @
     be32 (v_traf v) @ asc ''traf'' @ box_bytes ''tfhd'' (full 0 0 @ be32 1) @
     box_bytes ''tfdt'' (full 1 0 @ be64 (v_dts v)) @
     be32 (v_trun v) @ asc ''trun'' @ trun_head video (v_nsamples v) (v_moof_data v)"

definition start_values :: seg_values where
  "start_values = \<lparr>v_pts = 0, v_moof_mdat = 0, v_duration = 0, v_moof = 88, v_seq = 0, v_traf = 64,
     v_dts = 0, v_trun = 20, v_nsamples = 0, v_moof_data = 0\<rparr>"

definition start_subs :: ngx_ts_dash_subs where
  "start_subs = \<lparr>sub_dts = Some 140, sub_pts = Some 48, sub_seq = Some 100, sub_duration = Some 72,
     sub_sample_duration = None, sub_nsamples = Some 160, sub_traf = Some 104, sub_trun = Some 148,
     sub_moof = Some 80, sub_moof_mdat = Some 68, sub_moof_data = Some 164, sub_mdat = Some 0\<rparr>"

lemma length_seg_head [simp]: "length (seg_head video v) = 168"
  by (simp add: seg_head_def styp_bytes_def sidx_bytes_def trun_head_def)

lemma styp_emits: "emits (\<lambda>b. ngx_ts_dash_box_styp b) styp_bytes"
  unfolding ngx_ts_dash_box_styp_def Let_def
  by (rule emits_eq, (rule emits_intros)+) (simp_all add: styp_bytes_def)

lemma sidx_emit:
  assumes "52 \<le> room b"
  shows "ngx_ts_dash_box_sidx b subs = (emit b (sidx_bytes 0 0 0),
    subs\<lparr>sub_pts := Some (b_last b + 20), sub_moof_mdat := Some (b_last b + 40),
      sub_duration := Some (b_last b + 44)\<rparr>)"
  using assms
  by (simp add: ngx_ts_dash_box_sidx_def Let_def box_simps ngx_ts_dash_set_sub_def sidx_bytes_def box_bytes_def)

lemma mfhd_emit:
  assumes "16 \<le> room b"
  shows "ngx_ts_dash_box_mfhd b subs = (emit b (box_bytes ''mfhd'' (full 0 0 @ be32 0)),
    subs\<lparr>sub_seq := Some (b_last b + 12)\<rparr>)"
  using assms
  by (simp add: ngx_ts_dash_box_mfhd_def Let_def box_simps ngx_ts_dash_set_sub_def box_bytes_def)

lemma tfhd_emits: "emits (\<lambda>b. ngx_ts_dash_box_tfhd b) (box_bytes ''tfhd'' (full 0 0 @ be32 1))"
  unfolding ngx_ts_dash_box_tfhd_def Let_def
  by (rule emits_eq, (rule emits_intros)+) simp_all

lemma tfdt_emit:
  assumes "20 \<le> room b"
  shows "ngx_ts_dash_box_tfdt b subs = (emit b (box_bytes ''tfdt'' (full 1 0 @ be64 0)),
    subs\<lparr>sub_dts := Some (b_last b + 12)\<rparr>)"
  using assms
  by (simp add: ngx_ts_dash_box_tfdt_def Let_def box_simps ngx_ts_dash_set_sub_def box_bytes_def)

lemma trun_emit:
  assumes "20 \<le> room b"
  shows "ngx_ts_dash_box_trun video b subs = (emit b (be32 20 @ asc ''trun'' @ trun_head video 0 0),
    subs\<lparr>sub_trun := Some (b_last b), sub_nsamples := Some (b_last b + 12), sub_moof_data := Some (b_last b + 16)\<rparr>)"
proof -
  have flags: "unat (trun_flags video) = (if video then 0xf01 else 0x301)"
    by (simp add: trun_flags_def)
  show ?thesis
    using assms by (simp add: ngx_ts_dash_box_trun_def Let_def box_simps ngx_ts_dash_set_sub_def trun_head_def flags)
qed


lemma traf_emit:
  assumes "64 \<le> room b"
  shows "ngx_ts_dash_box_traf video b subs =
    (emit b (be32 64 @ asc ''traf'' @ box_bytes ''tfhd'' (full 0 0 @ be32 1) @
       box_bytes ''tfdt'' (full 1 0 @ be64 0) @ be32 20 @ asc ''trun'' @ trun_head video 0 0),
     subs\<lparr>sub_traf := Some (b_last b), sub_dts := Some (b_last b + 36), sub_trun := Some (b_last b + 44),
       sub_nsamples := Some (b_last b + 56), sub_moof_data := Some (b_last b + 60)\<rparr>)"
  using assms emitsD [OF tfhd_emits]
  by (simp add: ngx_ts_dash_box_traf_def Let_def box_open box_close tfdt_emit trun_emit
      ngx_ts_dash_set_sub_def trun_head_def)

lemma moof_emit:
  assumes "88 \<le> room b"
  shows "ngx_ts_dash_box_moof video b subs =
    (emit b (be32 88 @ asc ''moof'' @ box_bytes ''mfhd'' (full 0 0 @ be32 0) @
       be32 64 @ asc ''traf'' @ box_bytes ''tfhd'' (full 0 0 @ be32 1) @
       box_bytes ''tfdt'' (full 1 0 @ be64 0) @ be32 20 @ asc ''trun'' @ trun_head video 0 0),
     subs\<lparr>sub_moof := Some (b_last b), sub_seq := Some (b_last b + 20), sub_traf := Some (b_last b + 24),
       sub_dts := Some (b_last b + 60), sub_trun := Some (b_last b + 68),
       sub_nsamples := Some (b_last b + 80), sub_moof_data := Some (b_last b + 84)\<rparr>)"
  using assms
  by (simp add: ngx_ts_dash_box_moof_def Let_def box_open box_close mfhd_emit traf_emit
      ngx_ts_dash_set_sub_def trun_head_def)

definition mdat_head :: "nat \<Rightarrow> bytes" where
  "mdat_head v = be32 v @ asc ''mdat''"

lemma mdat_emit:
  assumes "8 \<le> room b"
  shows "ngx_ts_dash_box_mdat b subs = (emit b (mdat_head 8), subs\<lparr>sub_mdat := Some (b_last b)\<rparr>)"
  using assms
  by (simp add: ngx_ts_dash_box_mdat_def Let_def box_open box_close [where xs = "asc ''mdat''", simplified]
      ngx_ts_dash_set_sub_def mdat_head_def)

section \<open>What a segment holds while it is open\<close>

text \<open>The free buffers of a stream are buffers it allocated.\<close>

definition dash_ok :: "'p ngx_ts_dash \<Rightarrow> bool" where
  "dash_ok dash \<longleftrightarrow> list_all (\<lambda>b. length (b_mem b) = NGX_TS_DASH_BUFFER_SIZE) (dash_free dash)"

definition fresh_buf :: "buf \<Rightarrow> bool" where
  "fresh_buf b \<longleftrightarrow> length (b_mem b) = NGX_TS_DASH_BUFFER_SIZE \<and> b_pos b = 0 \<and> b_last b = 0"

lemma get_buffer_total:
  assumes "pool_total ops" "dash_ok dash"
  obtains b dash' where "ngx_ts_dash_get_buffer ops dash = (Some b, dash')" "fresh_buf b" "dash_ok dash'"
proof (cases "dash_free dash")
  case Nil
  obtain p1 where p1: "p_link ops (dash_pool dash) = Some p1" using pool_total_link [OF assms(1)] .
  obtain p2 m where "p_alloc ops p1 NGX_TS_DASH_BUFFER_SIZE = Some (p2, m)" "length m = NGX_TS_DASH_BUFFER_SIZE"
    using pool_totalE [OF assms(1)] .
  with Nil p1 assms(2) show ?thesis
    by (intro that [of "\<lparr>b_mem = m, b_pos = 0, b_last = 0\<rparr>" "dash\<lparr>dash_pool := p2\<rparr>"])
      (simp_all add: ngx_ts_dash_get_buffer_def fresh_buf_def dash_ok_def)
next
  case (Cons b bs)
  with assms(2) show ?thesis
    by (intro that [of "b\<lparr>b_pos := 0, b_last := 0\<rparr>" "dash\<lparr>dash_free := bs\<rparr>"])
      (simp_all add: ngx_ts_dash_get_buffer_def fresh_buf_def dash_ok_def)
qed

text \<open>Buffers in use start at their memory; \<open>flat\<close> of a chain of them is what was written.\<close>

definition used_buf :: "buf \<Rightarrow> bool" where
  "used_buf b \<longleftrightarrow> length (b_mem b) = NGX_TS_DASH_BUFFER_SIZE \<and> b_pos b = 0 \<and> b_last b \<le> NGX_TS_DASH_BUFFER_SIZE"

lemma fresh_used: "fresh_buf b \<Longrightarrow> used_buf b"
  by (simp add: fresh_buf_def used_buf_def)

lemma room_used: "used_buf b \<Longrightarrow> room b = NGX_TS_DASH_BUFFER_SIZE - b_last b"
  by (simp add: room_def used_buf_def)

lemma room_fresh: "fresh_buf b \<Longrightarrow> room b = NGX_TS_DASH_BUFFER_SIZE"
  by (simp add: room_def fresh_buf_def)

lemma emit_used [simp]: "used_buf b \<Longrightarrow> length xs \<le> room b \<Longrightarrow> used_buf (emit b xs)"
  by (simp add: used_buf_def) (auto simp: room_def)

lemma content_used: "used_buf b \<Longrightarrow> buf_content b = take (b_last b) (b_mem b)"
  by (simp add: used_buf_def buf_content_def)

lemma content_emit [simp]: "used_buf b \<Longrightarrow> length xs \<le> room b \<Longrightarrow> buf_content (emit b xs) = buf_content b @ xs"
  by (simp add: content_used) (simp add: emit_def used_buf_def)

lemma content_fresh: "fresh_buf b \<Longrightarrow> buf_content b = []"
  by (simp add: content_used [OF fresh_used]) (simp add: fresh_buf_def)

text \<open>
  The representation of an open segment: the entries of the sample table so far, each its duration and
  the rest, and the bytes of the samples.
\<close>

definition entry_size :: "ngx_ts_dash_rep \<Rightarrow> nat" where
  "entry_size rep = (if es_video (rep_es rep) then 16 else 8)"

definition enc_entries :: "(nat \<times> bytes) list \<Rightarrow> bytes" where
  "enc_entries es = concat (map (\<lambda>(d, t). be32 d @ t) es)"

definition open_meta :: "ngx_ts_dash_rep \<Rightarrow> (nat \<times> bytes) list \<Rightarrow> bool" where
  "open_meta rep es \<longleftrightarrow>
     list_all used_buf (rep_meta rep) \<and> rep_meta rep \<noteq> [] \<and> 168 \<le> b_last (hd (rep_meta rep)) \<and>
     flat (rep_meta rep) = seg_head (es_video (rep_es rep)) start_values @ enc_entries es \<and>
     list_all (\<lambda>(d, t). length t + 4 = entry_size rep) es \<and>
     rep_nsamples rep = word_of_nat (length es) \<and>
     rep_nmeta rep = word_of_nat (entry_size rep * length es) \<and>
     (rep_subs rep)\<lparr>sub_sample_duration := None\<rparr> = start_subs \<and>
     sub_sample_duration (rep_subs rep) =
       (if es = [] then None
        else Some (length (rep_meta rep) - 1, b_last (last (rep_meta rep)) - entry_size rep)) \<and>
     (es \<noteq> [] \<longrightarrow> entry_size rep \<le> b_last (last (rep_meta rep)))"

definition open_data :: "ngx_ts_dash_rep \<Rightarrow> bytes \<Rightarrow> bool" where
  "open_data rep xs \<longleftrightarrow>
     list_all used_buf (rep_data rep) \<and> rep_data rep \<noteq> [] \<and> 8 \<le> b_last (hd (rep_data rep)) \<and>
     flat (rep_data rep) = mdat_head 8 @ xs"

lemma start_segment_opens:
  assumes "pool_total ops" "dash_ok dash"
  obtains dash' rep' where "ngx_ts_dash_start_segment ops dash rep = (NGX_OK, dash', rep')" "dash_ok dash'"
    "open_meta rep' []" "open_data rep' []" "rep_ndata rep' = 0"
    "rep' = rep\<lparr>rep_subs := rep_subs rep', rep_nsamples := 0, rep_nmeta := 0, rep_ndata := 0,
       rep_meta := rep_meta rep', rep_data := rep_data rep'\<rparr>"
proof -
  obtain b d1 where 1: "ngx_ts_dash_get_buffer ops dash = (Some b, d1)" "fresh_buf b" "dash_ok d1"
    using get_buffer_total [OF assms] .
  obtain c d2 where 2: "ngx_ts_dash_get_buffer ops d1 = (Some c, d2)" "fresh_buf c" "dash_ok d2"
    using get_buffer_total [OF assms(1) 1(3)] .
  let ?v = "es_video (rep_es rep)"
  have room: "room b = 1024" "room c = 1024" "b_last b = 0" "b_last c = 0" "length (b_mem b) = 1024" "length (b_mem c) = 1024"
    using 1(2) 2(2) by (simp_all add: room_fresh NGX_TS_DASH_BUFFER_SIZE_def) (simp_all add: fresh_buf_def NGX_TS_DASH_BUFFER_SIZE_def)
  have styp: "ngx_ts_dash_box_styp b = emit b styp_bytes"
    using emitsD [OF styp_emits] room by (simp add: styp_bytes_def)
  have lens: "length styp_bytes = 28" "length (sidx_bytes 0 0 0) = 52"
    by (simp_all add: styp_bytes_def sidx_bytes_def)
  define b1 where "b1 = emit b (seg_head ?v start_values)"
  define subs where "subs = start_subs\<lparr>sub_mdat := None\<rparr>"
  have meta: "(case ngx_ts_dash_box_sidx (ngx_ts_dash_box_styp b) zero_subs of
      (b, subs) \<Rightarrow> ngx_ts_dash_box_moof ?v b subs) = (b1, subs)"
    using room lens
    by (simp add: styp sidx_emit moof_emit b1_def seg_head_def start_values_def subs_def start_subs_def zero_subs_def)
  define c1 where "c1 = emit c (mdat_head 8)"
  have dat: "ngx_ts_dash_box_mdat c subs = (c1, start_subs)"
    using room by (simp add: mdat_emit c1_def subs_def start_subs_def)
  have full: "b_last b1 \<noteq> length (b_mem b1)" "b_last c1 \<noteq> length (b_mem c1)"
    using room by (simp_all add: b1_def c1_def mdat_head_def)
  let ?rep = "rep\<lparr>rep_subs := start_subs, rep_nsamples := 0, rep_nmeta := 0, rep_ndata := 0,
       rep_meta := [b1], rep_data := [c1]\<rparr>"
  show ?thesis
  proof (rule that [of d2 ?rep])
    show "ngx_ts_dash_start_segment ops dash rep = (NGX_OK, d2, ?rep)"
    proof -
      obtain b0 s0 where "ngx_ts_dash_box_sidx (ngx_ts_dash_box_styp b) zero_subs = (b0, s0)"
        by (metis prod.collapse)
      then show ?thesis
        using meta dat full 1(1) 2(1) by (simp add: ngx_ts_dash_start_segment_def Let_def)
    qed
    show "open_meta ?rep []"
      using 1(2) room unfolding open_meta_def
      by (simp add: b1_def fresh_used content_fresh enc_entries_def) (simp add: start_subs_def)
    show "open_data ?rep []"
      using 2(2) room unfolding open_data_def by (simp add: c1_def fresh_used content_fresh mdat_head_def)
  qed (use 2(3) in simp_all)
qed


section \<open>Adding to an open segment\<close>

lemma used_mem: "used_buf b \<Longrightarrow> b_mem b = buf_content b @ drop (b_last b) (b_mem b)"
  by (simp add: content_used)

lemma length_content: "used_buf b \<Longrightarrow> length (buf_content b) = b_last b"
  by (simp add: content_used used_buf_def)

lemma content_poke:
  assumes "used_buf b" "buf_content b = A @ old @ R" "length xs = length old"
  shows "used_buf (b\<lparr>b_mem := poke (b_mem b) (length A) xs\<rparr>)"
    and "buf_content (b\<lparr>b_mem := poke (b_mem b) (length A) xs\<rparr>) = A @ xs @ R"
proof -
  have "poke (b_mem b) (length A) xs = A @ xs @ R @ drop (b_last b) (b_mem b)"
    using poke_append [of xs old A "R @ drop (b_last b) (b_mem b)"] assms(3) used_mem [OF assms(1)] assms(2)
    by simp
  moreover have "b_last b = length (A @ xs @ R)"
    using length_content [OF assms(1)] assms(2,3) by simp
  moreover show "used_buf (b\<lparr>b_mem := poke (b_mem b) (length A) xs\<rparr>)"
    using assms(1) by (simp add: used_buf_def)
  ultimately show "buf_content (b\<lparr>b_mem := poke (b_mem b) (length A) xs\<rparr>) = A @ xs @ R"
    by (simp add: content_used)
qed

lemma chain_put_content:
  assumes "used_buf b" "buf_content b = A @ old @ R" "length xs = length old"
  obtains b' where "chain_put (M1 @ b # M2) (length M1) (length A) xs = Some (M1 @ b' # M2)"
    "used_buf b'" "buf_content b' = A @ xs @ R" "b_last b' = b_last b"
proof -
  have "length A + length xs \<le> length (b_mem b)"
    using used_mem [OF assms(1)] assms(2,3) by (metis append_assoc le_add1 length_append)
  then show ?thesis
    using content_poke [OF assms]
    by (intro that [of "b\<lparr>b_mem := poke (b_mem b) (length A) xs\<rparr>"]) (simp_all add: chain_put_def)
qed

lemma put32_content:
  assumes "used_buf b" "buf_content b = A @ old @ R" "length old = 4"
  obtains b' where "ngx_ts_dash_put32 (M1 @ b # M2) (Some (length M1, length A)) v = Some (M1 @ b' # M2)"
    "used_buf b'" "buf_content b' = A @ be32 (unat v) @ R" "b_last b' = b_last b"
  using chain_put_content [OF assms(1,2), of "be32 (unat v)" M1 M2] assms(3)
  by (auto simp: ngx_ts_dash_put32_def be32_bytes)

text \<open>The entry of the last sample gets its duration when the next one comes.\<close>

fun close_entry :: "nat \<Rightarrow> (nat \<times> bytes) list \<Rightarrow> (nat \<times> bytes) list" where
  "close_entry d [] = []"
| "close_entry d [(d0, t)] = [(d, t)]"
| "close_entry d (e # e' # es) = e # close_entry d (e' # es)"

lemma close_entry_snoc [simp]: "close_entry d (es @ [(d0, t)]) = es @ [(d, t)]"
  by (induction d es rule: close_entry.induct) auto

lemma length_close_entry [simp]: "length (close_entry d es) = length es"
  by (induction d es rule: close_entry.induct) auto

lemma enc_entries_append [simp]: "enc_entries (es @ fs) = enc_entries es @ enc_entries fs"
  by (simp add: enc_entries_def)

lemma enc_entries_simps [simp]: "enc_entries [] = []" "enc_entries ((d, t) # es) = be32 d @ t @ enc_entries es"
  by (simp_all add: enc_entries_def)

lemma last_entry:
  assumes "flat (M1 @ [b]) = H @ enc_entries (es @ [(d, t)])" "used_buf b" "length t + 4 \<le> b_last b"
  shows "buf_content b = take (b_last b - (length t + 4)) (buf_content b) @ be32 d @ t"
proof -
  let ?k = "b_last b - (length t + 4)"
  have "flat M1 @ buf_content b = (H @ enc_entries es) @ be32 d @ t" using assms(1) by simp
  then have "drop (length (flat M1 @ buf_content b) - (length t + 4)) (flat M1 @ buf_content b) = be32 d @ t"
    by simp
  then have "drop ?k (buf_content b) = be32 d @ t"
    using assms(3) length_content [OF assms(2)] by (simp add: add.commute)
  then show ?thesis using append_take_drop_id [of ?k "buf_content b"] by simp
qed

text \<open>Patching the duration of the last sample, which may be in the buffer before the last.\<close>

lemma close_last_entry:
  assumes "list_all used_buf (M1 @ [b])" "flat (M1 @ [b]) = H @ enc_entries es"
    and "es \<noteq> []" "length (snd (last es)) + 4 = n" "n \<le> b_last b"
  obtains b' where "ngx_ts_dash_put32 (M1 @ b # M2) (Some (length M1, b_last b - n)) v = Some (M1 @ b' # M2)"
    "used_buf b'" "b_last b' = b_last b" "flat (M1 @ [b']) = H @ enc_entries (close_entry (unat v) es)"
    "length H \<le> length (flat M1) + b_last b - n"
proof -
  obtain es0 d t where es: "es = es0 @ [(d, t)]"
    using assms(3) by (metis append_butlast_last_id surj_pair)
  have b: "used_buf b" "length t + 4 \<le> b_last b" using assms by (simp_all add: es)
  define A where "A = take (b_last b - n) (buf_content b)"
  have c: "buf_content b = A @ be32 d @ t"
    using last_entry [of M1 b H es0 d t] assms b by (simp add: es A_def)
  have len: "length A = b_last b - n" using length_content [OF b(1)] by (simp add: A_def)
  have flat: "flat M1 @ A = H @ enc_entries es0" using assms(2) by (simp add: es c)
  then have "length (flat M1 @ A) = length (H @ enc_entries es0)" by simp
  then have "length H \<le> length (flat M1) + (b_last b - n)" by (simp add: len)
  moreover obtain b' where "ngx_ts_dash_put32 (M1 @ b # M2) (Some (length M1, length A)) v = Some (M1 @ b' # M2)"
    "used_buf b'" "buf_content b' = A @ be32 (unat v) @ t" "b_last b' = b_last b"
    using put32_content [OF b(1) c] by (metis length_enc_nat)
  ultimately show ?thesis
    using flat assms(5) by (intro that [of b']) (simp_all add: len es flip: append_assoc)
qed


text \<open>What adding a sample description leaves alone.\<close>

definition rep_frame :: "ngx_ts_dash_rep \<Rightarrow> ngx_ts_dash_rep" where
  "rep_frame rep = rep\<lparr>rep_meta := [], rep_nsamples := 0, rep_nmeta := 0, rep_subs := zero_subs\<rparr>"

definition entry_tail :: "ngx_ts_dash_rep \<Rightarrow> nat \<Rightarrow> bytes" where
  "entry_tail rep sz = be32 (unat (word_of_nat sz :: u32)) @
     (if es_video (rep_es rep) then
        be32 (if es_rand (rep_es rep) then 0 else 0x10000) @
        be32 (unat (ucast (es_pts (rep_es rep) - es_dts (rep_es rep)) :: u32))
      else [])"

lemma length_entry_tail: "length (entry_tail rep sz) + 4 = entry_size rep"
  by (simp add: entry_tail_def entry_size_def)

text \<open>The part of the invariant that patching and a new empty buffer keep.\<close>

lemma append_sample_emit:
  assumes "(case sub_sample_duration (rep_subs rep) of
      None \<Rightarrow> Some (rep_meta rep)
    | Some p \<Rightarrow> ngx_ts_dash_put32 (rep_meta rep) (Some p) (ucast (dts - rep_dts rep))) = Some (ms @ [b])"
    and "used_buf b" "entry_size rep \<le> room b"
  shows "append_sample rep sz dts = Some (rep\<lparr>rep_nmeta := rep_nmeta rep + word_of_nat (entry_size rep),
    rep_meta := ms @ [emit b (be32 0 @ entry_tail rep sz)],
    rep_subs := (rep_subs rep)\<lparr>sub_sample_duration := Some (length ms, b_last b)\<rparr>, rep_dts := dts\<rparr>)"
proof -
  let ?r = "rep\<lparr>rep_nmeta := rep_nmeta rep + (if es_video (rep_es rep) then 16 else 8)\<rparr>"
  have "(case sub_sample_duration (rep_subs ?r) of
      None \<Rightarrow> Some (rep_meta ?r)
    | Some p \<Rightarrow> ngx_ts_dash_put32 (rep_meta ?r) (Some p) (ucast (dts - rep_dts ?r))) = Some (ms @ [b])"
    using assms(1) by (simp cong: option.case_cong)
  then show ?thesis
    using assms(3) unfolding append_sample_def Let_def
    by (simp add: ngx_ts_dash_set_sub_def write_emit entry_tail_def entry_size_def
        cong: option.case_cong split: if_splits)
qed

lemma open_meta_snoc:
  assumes "list_all used_buf (ms @ [b])" "entry_size rep \<le> room b"
    and "flat (ms @ [b]) = seg_head (es_video (rep_es rep)) start_values @ enc_entries es"
    and "168 \<le> b_last (hd (ms @ [b]))" "list_all (\<lambda>(d, t). length t + 4 = entry_size rep) es"
    and "rep_nsamples rep' = word_of_nat (Suc (length es))"
    and "rep_nmeta rep' = word_of_nat (entry_size rep * Suc (length es))"
    and "(rep_subs rep')\<lparr>sub_sample_duration := None\<rparr> = start_subs"
    and "sub_sample_duration (rep_subs rep') = Some (length ms, b_last b)"
    and "rep_meta rep' = ms @ [emit b (be32 0 @ entry_tail rep sz)]" "rep_es rep' = rep_es rep"
  shows "open_meta rep' (es @ [(0, entry_tail rep sz)])"
proof -
  have n: "length (be32 0 @ entry_tail rep sz) = entry_size rep"
    using length_entry_tail [of rep sz] by simp
  have e: "entry_size rep' = entry_size rep" by (simp add: entry_size_def assms(11))
  have b: "used_buf b" using assms(1) by simp
  have "168 \<le> b_last (hd (rep_meta rep'))"
    using assms(4) by (cases ms) (simp_all add: assms(10))
  moreover have "flat (rep_meta rep') = seg_head (es_video (rep_es rep)) start_values @
      enc_entries (es @ [(0, entry_tail rep sz)])"
    using assms(2,3) n b by (simp add: assms(10))
  ultimately show ?thesis
    using assms n b length_entry_tail [of rep sz] unfolding open_meta_def e by (simp add: assms(10))
qed

text \<open>
  The state when the entry is written: the invariant, except that the sample is counted already and
  that a new empty buffer may follow the last used one.
\<close>

definition counted_meta :: "ngx_ts_dash_rep \<Rightarrow> (nat \<times> bytes) list \<Rightarrow> chain \<Rightarrow> buf \<Rightarrow> chain \<Rightarrow> bool" where
  "counted_meta rep es M1 b M2 \<longleftrightarrow>
     rep_meta rep = M1 @ b # M2 \<and> list_all used_buf (M1 @ [b]) \<and> 168 \<le> b_last (hd (M1 @ [b])) \<and>
     flat (M1 @ [b]) = seg_head (es_video (rep_es rep)) start_values @ enc_entries es \<and>
     list_all (\<lambda>(d, t). length t + 4 = entry_size rep) es \<and>
     rep_nsamples rep = word_of_nat (Suc (length es)) \<and>
     rep_nmeta rep = word_of_nat (entry_size rep * length es) \<and>
     (rep_subs rep)\<lparr>sub_sample_duration := None\<rparr> = start_subs \<and>
     sub_sample_duration (rep_subs rep) = (if es = [] then None else Some (length M1, b_last b - entry_size rep)) \<and>
     (es \<noteq> [] \<longrightarrow> entry_size rep \<le> b_last b) \<and>
     (M2 = [] \<and> entry_size rep \<le> room b \<or> (\<exists>c. M2 = [c] \<and> fresh_buf c))"

lemma counted_patched:
  assumes "counted_meta rep es M1 b M2"
  obtains ms c where "(case sub_sample_duration (rep_subs rep) of None \<Rightarrow> Some (rep_meta rep)
      | Some p \<Rightarrow> ngx_ts_dash_put32 (rep_meta rep) (Some p) v) = Some (ms @ [c])"
    "list_all used_buf (ms @ [c])" "entry_size rep \<le> room c" "168 \<le> b_last (hd (ms @ [c]))"
    "flat (ms @ [c]) = seg_head (es_video (rep_es rep)) start_values @ enc_entries (close_entry (unat v) es)"
proof -
  obtain b' where b': "(case sub_sample_duration (rep_subs rep) of None \<Rightarrow> Some (M1 @ b # M2)
      | Some p \<Rightarrow> ngx_ts_dash_put32 (M1 @ b # M2) (Some p) v) = Some (M1 @ b' # M2)" "used_buf b'"
    "b_last b' = b_last b"
    "flat (M1 @ [b']) = seg_head (es_video (rep_es rep)) start_values @ enc_entries (close_entry (unat v) es)"
  proof (cases "es = []")
    case True
    with assms that [of b] show ?thesis by (simp add: counted_meta_def)
  next
    case False
    then have n: "entry_size rep \<le> b_last b"
      and u: "list_all used_buf (M1 @ [b])"
      and f: "flat (M1 @ [b]) = seg_head (es_video (rep_es rep)) start_values @ enc_entries es"
      and s: "sub_sample_duration (rep_subs rep) = Some (length M1, b_last b - entry_size rep)"
      using assms by (auto simp: counted_meta_def)
    have l: "length (snd (last es)) + 4 = entry_size rep"
      using assms False by (cases es rule: rev_cases) (auto simp: counted_meta_def)
    obtain b' where "ngx_ts_dash_put32 (M1 @ b # M2) (Some (length M1, b_last b - entry_size rep)) v = Some (M1 @ b' # M2)"
      "used_buf b'" "b_last b' = b_last b"
      "flat (M1 @ [b']) = seg_head (es_video (rep_es rep)) start_values @ enc_entries (close_entry (unat v) es)"
      using close_last_entry [OF u f False l n] by metis
    with that [of b'] show ?thesis by (simp add: s)
  qed
  have meta: "rep_meta rep = M1 @ b # M2" and used: "list_all used_buf M1"
    and first: "168 \<le> b_last (hd (M1 @ [b]))"
    using assms by (simp_all add: counted_meta_def)
  have hd': "168 \<le> b_last (hd (M1 @ [b']))" using first b'(3) by (cases M1) simp_all
  consider (old) "M2 = []" "entry_size rep \<le> room b" | (new) c where "M2 = [c]" "fresh_buf c"
    using assms by (auto simp: counted_meta_def)
  then show ?thesis
  proof cases
    case old
    have "room b' = room b"
      using b'(2,3) assms by (simp add: counted_meta_def room_used)
    with old b' used hd' show ?thesis by (intro that [of M1 b']) (simp_all add: meta cong: option.case_cong)
  next
    case new
    have "entry_size rep \<le> room c" using new(2) by (simp add: room_fresh NGX_TS_DASH_BUFFER_SIZE_def entry_size_def)
    with new b' used hd' show ?thesis
      by (intro that [of "M1 @ [b']" c]) (simp_all add: meta fresh_used content_fresh hd_append cong: option.case_cong split: if_splits)
  qed
qed

lemma append_sample_opens:
  assumes "counted_meta rep es M1 b M2"
  obtains rep' where "append_sample rep sz dts = Some rep'"
    "open_meta rep' (close_entry (unat (ucast (dts - rep_dts rep) :: u32)) es @ [(0, entry_tail rep sz)])"
    "rep_frame rep' = rep_frame (rep\<lparr>rep_dts := dts\<rparr>)"
proof -
  obtain ms c where mc: "(case sub_sample_duration (rep_subs rep) of None \<Rightarrow> Some (rep_meta rep)
      | Some p \<Rightarrow> ngx_ts_dash_put32 (rep_meta rep) (Some p) (ucast (dts - rep_dts rep))) = Some (ms @ [c])"
    "list_all used_buf (ms @ [c])" "entry_size rep \<le> room c" "168 \<le> b_last (hd (ms @ [c]))"
    "flat (ms @ [c]) = seg_head (es_video (rep_es rep)) start_values @
       enc_entries (close_entry (unat (ucast (dts - rep_dts rep) :: u32)) es)"
    using counted_patched [OF assms] .
  let ?r = "rep\<lparr>rep_nmeta := rep_nmeta rep + word_of_nat (entry_size rep),
    rep_meta := ms @ [emit c (be32 0 @ entry_tail rep sz)],
    rep_subs := (rep_subs rep)\<lparr>sub_sample_duration := Some (length ms, b_last c)\<rparr>, rep_dts := dts\<rparr>"
  have "append_sample rep sz dts = Some ?r"
    using append_sample_emit [OF mc(1)] mc(2,3) by simp
  moreover have "list_all (\<lambda>(d, t). length t + 4 = entry_size rep)
      (close_entry (unat (ucast (dts - rep_dts rep) :: u32)) es)"
    using assms by (cases es rule: rev_cases) (auto simp: counted_meta_def)
  then have "open_meta ?r (close_entry (unat (ucast (dts - rep_dts rep) :: u32)) es @ [(0, entry_tail rep sz)])"
    using mc assms by (intro open_meta_snoc [where b = c and ms = ms and rep = rep])
      (simp_all add: counted_meta_def algebra_simps)
  ultimately show ?thesis by (intro that [of ?r]) (simp_all add: rep_frame_def)
qed

lemma append_meta_opens:
  assumes "open_meta rep es" "pool_total ops" "dash_ok dash"
  obtains dash' rep' where "ngx_ts_dash_append_meta ops dash rep sz dts = Some (NGX_OK, dash', rep')"
    "dash_ok dash'"
    "open_meta rep' (close_entry (unat (ucast (dts - rep_dts rep) :: u32)) es @ [(0, entry_tail rep sz)])"
    "rep_frame rep' = rep_frame (rep\<lparr>rep_ndata := rep_ndata rep + word_of_nat sz, rep_dts := dts\<rparr>)"
proof -
  let ?r = "rep\<lparr>rep_ndata := rep_ndata rep + word_of_nat sz, rep_nsamples := rep_nsamples rep + 1\<rparr>"
  obtain M1 b where M: "rep_meta rep = M1 @ [b]"
    using assms(1) by (metis append_butlast_last_id open_meta_def)
  have b: "used_buf b" using assms(1) by (simp add: open_meta_def M)
  show ?thesis
  proof (cases "length (b_mem b) - b_last b < entry_size rep")
    case True
    obtain c d1 where c: "ngx_ts_dash_get_buffer ops dash = (Some c, d1)" "fresh_buf c" "dash_ok d1"
      using get_buffer_total [OF assms(2,3)] .
    let ?r' = "?r\<lparr>rep_meta := rep_meta ?r @ [c]\<rparr>"
    have "counted_meta ?r' es M1 b [c]"
      using assms(1) c(2) by (simp add: counted_meta_def open_meta_def M entry_size_def)
    note opens = append_sample_opens [OF this, of sz dts]
    have same: "rep_dts ?r' = rep_dts rep" "entry_tail ?r' sz = entry_tail rep sz"
      by (simp_all add: entry_tail_def)
    from opens obtain r where r: "append_sample ?r' sz dts = Some r"
      "open_meta r (close_entry (unat (ucast (dts - rep_dts rep) :: u32)) es @ [(0, entry_tail rep sz)])"
      "rep_frame r = rep_frame (?r'\<lparr>rep_dts := dts\<rparr>)"
      unfolding same .
    have "ngx_ts_dash_append_meta ops dash rep sz dts = Some (NGX_OK, d1, r)"
      using True c(1) r(1) by (simp add: ngx_ts_dash_append_meta_def Let_def M entry_size_def)
    moreover have "rep_frame r = rep_frame (rep\<lparr>rep_ndata := rep_ndata rep + word_of_nat sz, rep_dts := dts\<rparr>)"
      using r(3) by (simp add: rep_frame_def)
    ultimately show ?thesis using c(3) r(2) by (intro that)
  next
    case False
    have "counted_meta ?r es M1 b []"
      using assms(1) False b by (simp add: counted_meta_def open_meta_def M entry_size_def room_def)
    note opens = append_sample_opens [OF this, of sz dts]
    have same: "rep_dts ?r = rep_dts rep" "entry_tail ?r sz = entry_tail rep sz"
      by (simp_all add: entry_tail_def)
    from opens obtain r where r: "append_sample ?r sz dts = Some r"
      "open_meta r (close_entry (unat (ucast (dts - rep_dts rep) :: u32)) es @ [(0, entry_tail rep sz)])"
      "rep_frame r = rep_frame (?r\<lparr>rep_dts := dts\<rparr>)"
      unfolding same .
    have "ngx_ts_dash_append_meta ops dash rep sz dts = Some (NGX_OK, dash, r)"
      using False r(1) by (simp add: ngx_ts_dash_append_meta_def Let_def M entry_size_def)
    moreover have "rep_frame r = rep_frame (rep\<lparr>rep_ndata := rep_ndata rep + word_of_nat sz, rep_dts := dts\<rparr>)"
      using r(3) by (simp add: rep_frame_def)
    ultimately show ?thesis using assms(3) r(2) by (intro that)
  qed
qed


lemma append_data_loop_ok:
  assumes "pool_total ops" "dash_ok dash" "list_all used_buf cl" "cl \<noteq> []" "length dat \<le> fuel"
  shows "\<exists>dash' cl'. append_data_loop fuel ops dash cl dat = Some (NGX_OK, dash', cl') \<and> dash_ok dash' \<and>
    list_all used_buf cl' \<and> cl' \<noteq> [] \<and> b_last (hd cl) \<le> b_last (hd cl') \<and> flat cl' = flat cl @ dat"
  using assms(2-)
proof (induction fuel arbitrary: dash cl dat)
  case (Suc fuel)
  show ?case
  proof (cases dat)
    case (Cons x xs)
    have step: ?thesis
      if cl': "list_all used_buf (cs @ [b])" "1 \<le> room b" "flat (cs @ [b]) = flat cl"
          "b_last (hd cl) \<le> b_last (hd (cs @ [b]))" "dash_ok d"
        and run: "append_data_loop (Suc fuel) ops dash cl dat =
          (let n = min (length (b_mem b) - b_last b) (length dat);
               b = b\<lparr>b_mem := poke (b_mem b) (b_last b) (take n dat), b_last := b_last b + n\<rparr>
           in append_data_loop fuel ops d (cs @ [b]) (drop n dat))" for cs b d
    proof -
      define n where "n = min (room b) (length dat)"
      have n: "length (take n dat) \<le> room b" "0 < n" using cl'(2) Cons by (simp_all add: n_def)
      have "ngx_ts_dash_cpymem b (take n dat) = emit b (take n dat)" using n(1) by (rule write_emit(6))
      then have e: "b\<lparr>b_mem := poke (b_mem b) (b_last b) (take n dat), b_last := b_last b + n\<rparr> = emit b (take n dat)"
        using n(1) by (simp add: ngx_ts_dash_cpymem_def Let_def n_def room_def)
      let ?cl = "cs @ [emit b (take n dat)]"
      have hd: "b_last (hd cl) \<le> b_last (hd ?cl)" using cl'(4) by (cases cs) simp_all
      have used: "list_all used_buf ?cl" using cl'(1) emit_used [OF _ n(1)] by simp
      have fuel: "length (drop n dat) \<le> fuel"
        using n(2) Suc.prems(4) unfolding length_drop by linarith
      have bytes: "flat ?cl @ drop n dat = flat cl @ dat"
        unfolding cl'(3) [symmetric] using cl'(1) n(1) by simp
      have "append_data_loop (Suc fuel) ops dash cl dat = append_data_loop fuel ops d ?cl (drop n dat)"
        unfolding run Let_def room_def [symmetric] n_def [symmetric] e ..
      moreover obtain dash' cl2 where "append_data_loop fuel ops d ?cl (drop n dat) = Some (NGX_OK, dash', cl2)"
        "dash_ok dash'" "list_all used_buf cl2" "cl2 \<noteq> []" "b_last (hd ?cl) \<le> b_last (hd cl2)"
        "flat cl2 = flat ?cl @ drop n dat"
        using Suc.IH [OF cl'(5) used _ fuel] by blast
      ultimately show ?thesis using hd bytes by (intro exI [of _ dash'] exI [of _ cl2]) simp
    qed
    obtain cs b where cb: "cl = cs @ [b]" using Suc.prems(3) by (metis append_butlast_last_id)
    show ?thesis
    proof (cases "b_last b = length (b_mem b)")
      case True
      obtain c d where c: "ngx_ts_dash_get_buffer ops dash = (Some c, d)" "fresh_buf c" "dash_ok d"
        using get_buffer_total [OF assms(1) Suc.prems(1)] .
      show ?thesis
        using True c Suc.prems cb Cons
        by (intro step [of "cs @ [b]" c d]) (simp_all add: fresh_used content_fresh room_fresh
            NGX_TS_DASH_BUFFER_SIZE_def hd_append butlast_append Let_def)
    next
      case False
      have "1 \<le> room b" using False Suc.prems(2) cb by (auto simp: room_def used_buf_def)
      then show ?thesis
        using False Suc.prems cb Cons by (intro step [of cs b dash]) (simp_all add: Let_def)
    qed
  qed (use Suc.prems in simp)
qed simp

lemma append_data_opens:
  assumes "open_data rep xs" "pool_total ops" "dash_ok dash"
  obtains dash' cl where "ngx_ts_dash_append_data ops dash rep dat = Some (NGX_OK, dash', rep\<lparr>rep_data := cl\<rparr>)"
    "dash_ok dash'" "open_data (rep\<lparr>rep_data := cl\<rparr>) (xs @ dat)"
proof -
  obtain dash' cl where "append_data_loop (length dat) ops dash (rep_data rep) dat = Some (NGX_OK, dash', cl)"
    "dash_ok dash'" "list_all used_buf cl" "cl \<noteq> []" "b_last (hd (rep_data rep)) \<le> b_last (hd cl)"
    "flat cl = flat (rep_data rep) @ dat"
    using append_data_loop_ok [OF assms(2,3), of "rep_data rep" dat "length dat"] assms(1)
    by (auto simp: open_data_def)
  with assms(1) show ?thesis
    by (intro that [of dash' cl]) (simp_all add: ngx_ts_dash_append_data_def open_data_def)
qed

section \<open>Closing a segment\<close>

definition headed :: "bool \<Rightarrow> chain \<Rightarrow> seg_values \<Rightarrow> bytes \<Rightarrow> bool" where
  "headed video M v xs \<longleftrightarrow> M \<noteq> [] \<and> list_all used_buf M \<and> 168 \<le> b_last (hd M) \<and>
     flat M = seg_head video v @ xs"

lemma enc_nat_map: "enc_nat k n = map (\<lambda>i. word_of_nat (n div 256 ^ i)) (rev [0..<k])"
  by (induction k) (simp_all add: enc_nat_Cons del: enc_nat.simps(2))

lemma be64_bytes:
  "[ucast (drop_bit 56 v), ucast (drop_bit 48 v), ucast (drop_bit 40 v), ucast (drop_bit 32 v),
    ucast (drop_bit 24 v), ucast (drop_bit 16 v), ucast (drop_bit 8 v), ucast v] = be64 (unat (v :: u64))"
proof -
  have "rev [0..<8] = [7, 6, 5, 4, 3, 2, 1, 0 :: nat]" by (simp add: upt_rec)
  then have "be64 (unat v) = map (\<lambda>i. ucast (drop_bit (8 * i) v)) [7, 6, 5, 4, 3, 2, 1, 0]"
    by (simp only: enc_nat_map byte_of_drop_bit)
  then show ?thesis by simp
qed

lemma headed_put:
  assumes "headed video M v xs" "p + length ys \<le> 168"
    and "take p (seg_head video v) @ ys @ drop (p + length ys) (seg_head video v) = seg_head video v'"
  shows "\<exists>M'. chain_put M 0 p ys = Some M' \<and> headed video M' v' xs \<and> map b_last M' = map b_last M"
proof -
  obtain b bs where M: "M = b # bs" and b: "used_buf b" "168 \<le> b_last b"
    using assms(1) by (cases M) (auto simp: headed_def)
  have fl: "buf_content b @ flat bs = seg_head video v @ xs" using assms(1) by (simp add: headed_def M)
  define R where "R = drop 168 (buf_content b)"
  have "take 168 (buf_content b @ flat bs) = take 168 (seg_head video v @ xs)" by (simp only: fl)
  then have "take 168 (buf_content b) = seg_head video v"
    using b length_content [OF b(1)] by simp
  then have c: "buf_content b = seg_head video v @ R"
    unfolding R_def by (metis append_take_drop_id)
  with fl have R: "R @ flat bs = xs" by simp
  let ?A = "take p (seg_head video v)"
  have parts: "buf_content b = ?A @ take (length ys) (drop p (seg_head video v)) @
      drop (p + length ys) (seg_head video v) @ R"
    unfolding c by (metis append.assoc append_take_drop_id drop_drop add.commute)
  obtain b' where b': "chain_put ([] @ b # bs) (length ([] :: chain)) (length ?A) ys = Some ([] @ b' # bs)"
    "used_buf b'" "buf_content b' = ?A @ ys @ drop (p + length ys) (seg_head video v) @ R" "b_last b' = b_last b"
    using chain_put_content [OF b(1) parts, of ys "[]" bs] assms(2) by auto
  have "buf_content b' = seg_head video v' @ R"
    unfolding b'(3) assms(3) [symmetric] by simp
  then show ?thesis
    using assms(1,2) b' R by (intro exI [of _ "b' # bs"]) (simp add: headed_def M)
qed

lemma headed_put32:
  assumes "headed video M v xs" "p + 4 \<le> 168"
    and "take p (seg_head video v) @ be32 (unat w) @ drop (p + 4) (seg_head video v) = seg_head video v'"
  shows "\<exists>M'. ngx_ts_dash_put32 M (Some (0, p)) w = Some M' \<and> headed video M' v' xs \<and> map b_last M' = map b_last M"
  using headed_put [OF assms(1), of p "be32 (unat w)" v'] assms(2,3)
  by (simp add: ngx_ts_dash_put32_def be32_bytes)

lemma headed_put64:
  assumes "headed video M v xs" "p + 8 \<le> 168"
    and "take p (seg_head video v) @ be64 (unat w) @ drop (p + 8) (seg_head video v) = seg_head video v'"
  shows "\<exists>M'. ngx_ts_dash_put64 M (Some (0, p)) w = Some M' \<and> headed video M' v' xs \<and> map b_last M' = map b_last M"
  using headed_put [OF assms(1), of p "be64 (unat w)" v'] assms(2,3)
  by (simp add: ngx_ts_dash_put64_def be64_bytes)

text \<open>Where the patched values are.\<close>

lemma seg_head_patches:
  "take 48 (seg_head video v) @ be64 a @ drop 56 (seg_head video v) = seg_head video (v\<lparr>v_pts := a\<rparr>)"
  "take 68 (seg_head video v) @ be32 a @ drop 72 (seg_head video v) = seg_head video (v\<lparr>v_moof_mdat := a\<rparr>)"
  "take 72 (seg_head video v) @ be32 a @ drop 76 (seg_head video v) = seg_head video (v\<lparr>v_duration := a\<rparr>)"
  "take 80 (seg_head video v) @ be32 a @ drop 84 (seg_head video v) = seg_head video (v\<lparr>v_moof := a\<rparr>)"
  "take 100 (seg_head video v) @ be32 a @ drop 104 (seg_head video v) = seg_head video (v\<lparr>v_seq := a\<rparr>)"
  "take 104 (seg_head video v) @ be32 a @ drop 108 (seg_head video v) = seg_head video (v\<lparr>v_traf := a\<rparr>)"
  "take 140 (seg_head video v) @ be64 a @ drop 148 (seg_head video v) = seg_head video (v\<lparr>v_dts := a\<rparr>)"
  "take 148 (seg_head video v) @ be32 a @ drop 152 (seg_head video v) = seg_head video (v\<lparr>v_trun := a\<rparr>)"
  "take 160 (seg_head video v) @ be32 a @ drop 164 (seg_head video v) = seg_head video (v\<lparr>v_nsamples := a\<rparr>)"
  "take 164 (seg_head video v) @ be32 a @ drop 168 (seg_head video v) = seg_head video (v\<lparr>v_moof_data := a\<rparr>)"
  by (simp_all add: seg_head_def styp_bytes_def sidx_bytes_def trun_head_def box_bytes_def)


lemma be32_word: "be32 (unat (word_of_nat k :: u32)) = be32 k"
  using enc_nat_mod [of 4 k] by (simp only: unsigned_of_nat take_bit_eq_mod) simp

lemma headed_nth:
  assumes "headed video M v xs"
  obtains R where "buf_content (M ! 0) = seg_head video v @ R" "used_buf (M ! 0)" "0 < length M"
proof -
  obtain b bs where M: "M = b # bs" and b: "used_buf b" "168 \<le> b_last b"
    using assms by (cases M) (auto simp: headed_def)
  have "take 168 (buf_content b @ flat bs) = take 168 (seg_head video v @ xs)"
    using assms by (simp add: headed_def M)
  then have "take 168 (buf_content b) = seg_head video v"
    using b length_content [OF b(1)] by simp
  then have "buf_content b = seg_head video v @ drop 168 (buf_content b)"
    by (metis append_take_drop_id)
  with b show ?thesis by (intro that) (simp_all add: M)
qed

lemma unat_be32:
  "unat (push_bit 8 (push_bit 8 (push_bit 8 (ucast a) + ucast b) + ucast c) + ucast d :: u32) = be_nat [a, b, c, d]"
  for a b c d :: byte
proof -
  note less = unat_byte_less [of a] unat_byte_less [of b] unat_byte_less [of c] unat_byte_less [of d]
  have 1: "unat (push_bit 8 (ucast a) + ucast b :: u32) = unat a * 2 ^ 8 + unat b"
    using unat_shift_add [of "ucast a :: u32" 8 "ucast b"] less by (simp del: unat_byte_less)
  have 2: "unat (push_bit 8 (push_bit 8 (ucast a) + ucast b) + ucast c :: u32) = (unat a * 2 ^ 8 + unat b) * 2 ^ 8 + unat c"
    using unat_shift_add [of "push_bit 8 (ucast a) + ucast b :: u32" 8 "ucast c"] less
    unfolding 1 by (simp del: unat_byte_less)
  show ?thesis
    using unat_shift_add [of "push_bit 8 (push_bit 8 (ucast a) + ucast b) + ucast c :: u32" 8 "ucast d"] less
    unfolding 2 by (simp del: unat_byte_less)
qed

lemma get32_bytes:
  assumes "take 4 (drop p m) = be32 k" "k < 2 ^ 32" "p + 4 \<le> length m" "i < length cl" "b_mem (cl ! i) = m"
  shows "ngx_ts_dash_get32 cl (Some (i, p)) = Some (word_of_nat k)"
proof -
  have nth: "take 4 (drop p m) = [m ! p, m ! (p + 1), m ! (p + 2), m ! (p + 3)]"
    using assms(3) by (intro nth_equalityI) (auto simp: numeral_eq_Suc less_Suc_eq nth_Cons')
  define v :: u32 where "v = push_bit 8 (push_bit 8 (push_bit 8 (ucast (m ! p)) + ucast (m ! (p + 1)))
      + ucast (m ! (p + 2))) + ucast (m ! (p + 3))"
  have "unat v = be_nat [m ! p, m ! (p + 1), m ! (p + 2), m ! (p + 3)]"
    unfolding v_def by (rule unat_be32)
  also have "\<dots> = k" using assms(1,2) unfolding nth [symmetric] by simp
  finally have "v = word_of_nat k" by (rule word_of_nat_unat_eq)
  then show ?thesis
    using assms(3-5) by (simp add: ngx_ts_dash_get32_def Let_def v_def)
qed

lemma headed_get32:
  assumes "headed video M v xs" "take 4 (drop p (seg_head video v)) = be32 k" "k < 2 ^ 32" "p + 4 \<le> 168"
  shows "ngx_ts_dash_get32 M (Some (0, p)) = Some (word_of_nat k)"
proof -
  obtain R where R: "buf_content (M ! 0) = seg_head video v @ R" "used_buf (M ! 0)" "0 < length M"
    using headed_nth [OF assms(1)] .
  have m: "b_mem (M ! 0) = seg_head video v @ R @ drop (b_last (M ! 0)) (b_mem (M ! 0))"
    using used_mem [OF R(2)] R(1) by simp
  have "take 4 (drop p (b_mem (M ! 0))) = be32 k"
    using assms(2,4) by (subst m) simp
  moreover have "p + 4 \<le> length (b_mem (M ! 0))"
    using assms(4) by (subst m) simp
  ultimately show ?thesis
    using assms(3) R(3) by (intro get32_bytes) auto
qed

lemma ucast_down_nat: "(ucast (word_of_nat n :: u64) :: u32) = word_of_nat n"
  by (simp add: word_unat_eq_iff unat_ucast unsigned_of_nat take_bit_eq_mod mod_mod_cancel)

lemma headed_add32:
  assumes "headed video M v xs" "take 4 (drop p (seg_head video v)) = be32 k" "k < 2 ^ 32" "p + 4 \<le> 168"
    and "take p (seg_head video v) @ be32 (k + n) @ drop (p + 4) (seg_head video v) = seg_head video v'"
  shows "\<exists>M'. add32 M (Some (0, p)) (word_of_nat n) = Some (word_of_nat (k + n), M') \<and>
    headed video M' v' xs \<and> map b_last M' = map b_last M"
proof -
  have "(ucast (word_of_nat k :: u32) :: u64) = word_of_nat k"
    using assms(3) by (simp add: word_unat_eq_iff unat_ucast unsigned_of_nat take_bit_nat_eq_self)
  then have w: "(ucast (ucast (word_of_nat k :: u32) + word_of_nat n :: u64) :: u32) = word_of_nat (k + n)"
    using ucast_down_nat [of "k + n"] by simp
  have "take p (seg_head video v) @ be32 (unat (word_of_nat (k + n) :: u32)) @ drop (p + 4) (seg_head video v)
      = seg_head video v'"
    using assms(5) by (simp only: be32_word)
  from headed_put32 [OF assms(1,4) this] show ?thesis
    using headed_get32 [OF assms(1-4)] by (auto simp: add32_def w Let_def)
qed

end
