(* ===== verification/Dash_Close.thy ===== *)
theory Dash_Close
  imports Dash_Segment
begin

text \<open>
  Closing a media segment: what \<open>ngx_ts_dash_end_segment\<close> leaves in the chain it returns, and the
  segments a whole run of the writers produces.
\<close>

section \<open>The values of a closed segment\<close>

definition closed_entries :: "ngx_ts_dash_rep \<Rightarrow> (nat \<times> bytes) list \<Rightarrow> (nat \<times> bytes) list" where
  "closed_entries rep es =
     (let d = (ucast (es_dts (rep_es rep) - rep_dts rep) :: u32)
      in if 0 < sint d then close_entry (unat d) es else es)"

definition meta_values :: "ngx_ts_dash_rep \<Rightarrow> nat \<Rightarrow> seg_values" where
  "meta_values rep k = start_values\<lparr>v_pts := unat (rep_seg_pts rep), v_dts := unat (rep_seg_dts rep),
     v_seq := unat (ucast (rep_seg rep) :: u32), v_nsamples := unat (ucast (word_of_nat k :: u64) :: u32),
     v_duration := unat (ucast (es_dts (rep_es rep) - rep_seg_dts rep) :: u32),
     v_traf := 64 + entry_size rep * k, v_trun := 20 + entry_size rep * k,
     v_moof := 88 + entry_size rep * k\<rparr>"

lemma seg_head_gets:
  "take 4 (drop 80 (seg_head video v)) = be32 (v_moof v)"
  "take 4 (drop 104 (seg_head video v)) = be32 (v_traf v)"
  "take 4 (drop 148 (seg_head video v)) = be32 (v_trun v)"
  by (simp_all add: seg_head_def styp_bytes_def sidx_bytes_def trun_head_def box_bytes_def)

lemma headed_close_entry:
  assumes "headed video M v (enc_entries es)" "es \<noteq> []" "length (snd (last es)) + 4 = n" "n \<le> b_last (last M)"
  shows "\<exists>M'. ngx_ts_dash_put32 M (Some (length M - 1, b_last (last M) - n)) d = Some M' \<and>
    headed video M' v (enc_entries (close_entry (unat d) es)) \<and> map b_last M' = map b_last M"
proof -
  obtain M1 b where M: "M = M1 @ [b]" using assms(1) by (metis append_butlast_last_id headed_def)
  have h: "list_all used_buf (M1 @ [b])" "flat (M1 @ [b]) = seg_head video v @ enc_entries es"
    "168 \<le> b_last (hd (M1 @ [b]))"
    using assms(1) unfolding M headed_def by blast+
  obtain b' where b': "ngx_ts_dash_put32 (M1 @ [b]) (Some (length M1, b_last b - n)) d = Some (M1 @ [b'])"
    "used_buf b'" "b_last b' = b_last b" "flat (M1 @ [b']) = seg_head video v @ enc_entries (close_entry (unat d) es)"
    using close_last_entry [OF h(1,2) assms(2,3), of "[]" d] assms(4) unfolding M by auto
  have "168 \<le> b_last (hd (M1 @ [b']))" using h(3) b'(3) by (cases M1) simp_all
  with b' h(1) show ?thesis
    unfolding M by (intro exI [of _ "M1 @ [b']"]) (simp add: headed_def)
qed

text \<open>One lemma for each value.\<close>

lemma headed_patches:
  assumes "headed video M v xs"
  shows "\<exists>M'. ngx_ts_dash_put64 M (Some (0, 48)) w = Some M' \<and> headed video M' (v\<lparr>v_pts := unat w\<rparr>) xs \<and> map b_last M' = map b_last M"
    and "\<exists>M'. ngx_ts_dash_put64 M (Some (0, 140)) w = Some M' \<and> headed video M' (v\<lparr>v_dts := unat w\<rparr>) xs \<and> map b_last M' = map b_last M"
    and "\<exists>M'. ngx_ts_dash_put32 M (Some (0, 100)) u = Some M' \<and> headed video M' (v\<lparr>v_seq := unat u\<rparr>) xs \<and> map b_last M' = map b_last M"
    and "\<exists>M'. ngx_ts_dash_put32 M (Some (0, 160)) u = Some M' \<and> headed video M' (v\<lparr>v_nsamples := unat u\<rparr>) xs \<and> map b_last M' = map b_last M"
    and "\<exists>M'. ngx_ts_dash_put32 M (Some (0, 72)) u = Some M' \<and> headed video M' (v\<lparr>v_duration := unat u\<rparr>) xs \<and> map b_last M' = map b_last M"
    and "\<exists>M'. ngx_ts_dash_put32 M (Some (0, 68)) u = Some M' \<and> headed video M' (v\<lparr>v_moof_mdat := unat u\<rparr>) xs \<and> map b_last M' = map b_last M"
    and "\<exists>M'. ngx_ts_dash_put32 M (Some (0, 164)) u = Some M' \<and> headed video M' (v\<lparr>v_moof_data := unat u\<rparr>) xs \<and> map b_last M' = map b_last M"
  by (rule headed_put64 [OF assms] headed_put32 [OF assms]; use seg_head_patches [of video v] in simp)+

lemma headed_adds:
  assumes "headed video M v xs"
  shows "v_traf v < 2 ^ 32 \<Longrightarrow> \<exists>M'. add32 M (Some (0, 104)) (word_of_nat n) = Some (word_of_nat (v_traf v + n), M') \<and>
      headed video M' (v\<lparr>v_traf := v_traf v + n\<rparr>) xs \<and> map b_last M' = map b_last M"
    and "v_trun v < 2 ^ 32 \<Longrightarrow> \<exists>M'. add32 M (Some (0, 148)) (word_of_nat n) = Some (word_of_nat (v_trun v + n), M') \<and>
      headed video M' (v\<lparr>v_trun := v_trun v + n\<rparr>) xs \<and> map b_last M' = map b_last M"
    and "v_moof v < 2 ^ 32 \<Longrightarrow> \<exists>M'. add32 M (Some (0, 80)) (word_of_nat n) = Some (word_of_nat (v_moof v + n), M') \<and>
      headed video M' (v\<lparr>v_moof := v_moof v + n\<rparr>) xs \<and> map b_last M' = map b_last M"
  by (rule headed_add32 [OF assms]; use seg_head_patches [of video v] seg_head_gets [of video v] in simp)+

lemma open_subs:
  assumes "open_meta rep es"
  shows "sub_pts (rep_subs rep) = Some 48" "sub_dts (rep_subs rep) = Some 140" "sub_seq (rep_subs rep) = Some 100"
    "sub_nsamples (rep_subs rep) = Some 160" "sub_duration (rep_subs rep) = Some 72"
    "sub_traf (rep_subs rep) = Some 104" "sub_trun (rep_subs rep) = Some 148" "sub_moof (rep_subs rep) = Some 80"
    "sub_moof_mdat (rep_subs rep) = Some 68" "sub_moof_data (rep_subs rep) = Some 164" "sub_mdat (rep_subs rep) = Some 0"
proof -
  have "(rep_subs rep)\<lparr>sub_sample_duration := None\<rparr> = start_subs" using assms by (simp add: open_meta_def)
  then show "sub_pts (rep_subs rep) = Some 48" "sub_dts (rep_subs rep) = Some 140" "sub_seq (rep_subs rep) = Some 100"
    "sub_nsamples (rep_subs rep) = Some 160" "sub_duration (rep_subs rep) = Some 72"
    "sub_traf (rep_subs rep) = Some 104" "sub_trun (rep_subs rep) = Some 148" "sub_moof (rep_subs rep) = Some 80"
    "sub_moof_mdat (rep_subs rep) = Some 68" "sub_moof_data (rep_subs rep) = Some 164" "sub_mdat (rep_subs rep) = Some 0"
    by (cases "rep_subs rep"; simp add: start_subs_def)+
qed

definition plain_values :: "ngx_ts_dash_rep \<Rightarrow> seg_values" where
  "plain_values rep = start_values\<lparr>v_pts := unat (rep_seg_pts rep), v_dts := unat (rep_seg_dts rep),
     v_seq := unat (ucast (rep_seg rep) :: u32), v_nsamples := unat (ucast (rep_nsamples rep) :: u32),
     v_duration := unat (ucast (es_dts (rep_es rep) - rep_seg_dts rep) :: u32)\<rparr>"

lemma end_values_ok:
  assumes "open_meta rep es"
  obtains m where "end_values rep = Some m" "headed (es_video (rep_es rep)) m (plain_values rep) (enc_entries es)"
    "map b_last m = map b_last (rep_meta rep)"
proof -
  let ?h = "headed (es_video (rep_es rep))"
  have m: "?h (rep_meta rep) start_values (enc_entries es)"
    using assms by (simp add: open_meta_def headed_def)
  let ?dur = "ucast (es_dts (rep_es rep) - rep_seg_dts rep) :: u32"
  let ?v1 = "start_values\<lparr>v_pts := unat (rep_seg_pts rep)\<rparr>"
  let ?v2 = "?v1\<lparr>v_dts := unat (rep_seg_dts rep)\<rparr>"
  let ?v3 = "?v2\<lparr>v_seq := unat (ucast (rep_seg rep) :: u32)\<rparr>"
  let ?v4 = "?v3\<lparr>v_nsamples := unat (ucast (rep_nsamples rep) :: u32)\<rparr>"
  obtain m1 where 1: "ngx_ts_dash_put64 (rep_meta rep) (Some (0, 48)) (rep_seg_pts rep) = Some m1"
    "?h m1 ?v1 (enc_entries es)" "map b_last m1 = map b_last (rep_meta rep)"
    using headed_patches(1) [OF m] by blast
  obtain m2 where 2: "ngx_ts_dash_put64 m1 (Some (0, 140)) (rep_seg_dts rep) = Some m2"
    "?h m2 ?v2 (enc_entries es)" "map b_last m2 = map b_last m1"
    using headed_patches(2) [OF 1(2)] by blast
  obtain m3 where 3: "ngx_ts_dash_put32 m2 (Some (0, 100)) (ucast (rep_seg rep)) = Some m3"
    "?h m3 ?v3 (enc_entries es)" "map b_last m3 = map b_last m2"
    using headed_patches(3) [OF 2(2)] by blast
  obtain m4 where 4: "ngx_ts_dash_put32 m3 (Some (0, 160)) (ucast (rep_nsamples rep)) = Some m4"
    "?h m4 ?v4 (enc_entries es)" "map b_last m4 = map b_last m3"
    using headed_patches(4) [OF 3(2)] by blast
  obtain m5 where 5: "ngx_ts_dash_put32 m4 (Some (0, 72)) ?dur = Some m5"
    "?h m5 (?v4\<lparr>v_duration := unat ?dur\<rparr>) (enc_entries es)" "map b_last m5 = map b_last m4"
    using headed_patches(5) [OF 4(2)] by blast
  show ?thesis
    using 1 2 3 4 5
    by (intro that [of m5]) (simp_all add: end_values_def Let_def open_subs [OF assms] plain_values_def)
qed

lemma end_meta_ok:
  assumes "open_meta rep es"
  obtains m where "end_meta rep = Some (word_of_nat (88 + entry_size rep * length es), m)"
    "headed (es_video (rep_es rep)) m (meta_values rep (length es)) (enc_entries (closed_entries rep es))"
proof -
  let ?h = "headed (es_video (rep_es rep))" and ?n = "entry_size rep * length es"
  define d :: u32 where "d = ucast (es_dts (rep_es rep) - rep_dts rep)"
  obtain m1 where 1: "end_values rep = Some m1" "?h m1 (plain_values rep) (enc_entries es)"
    "map b_last m1 = map b_last (rep_meta rep)"
    using end_values_ok [OF assms] .
  obtain m2 where 2: "(if sub_sample_duration (rep_subs rep) \<noteq> None \<and> sint d > 0
      then ngx_ts_dash_put32 m1 (sub_sample_duration (rep_subs rep)) d else Some m1) = Some m2"
    "?h m2 (plain_values rep) (enc_entries (closed_entries rep es))"
  proof (cases "es \<noteq> [] \<and> 0 < sint d")
    case True
    have len: "length m1 = length (rep_meta rep)" using 1(3) by (metis length_map)
    have lst: "b_last (last m1) = b_last (last (rep_meta rep))"
      using 1 assms by (metis headed_def last_map open_meta_def)
    have "length (snd (last es)) + 4 = entry_size rep"
      using assms True by (cases es rule: rev_cases) (auto simp: open_meta_def)
    from headed_close_entry [OF 1(2) _ this, of d] True assms that show ?thesis
      by (auto simp: open_meta_def len lst closed_entries_def d_def)
  next
    case False
    then show ?thesis
      using that [of m1] 1(2) assms by (auto simp: open_meta_def closed_entries_def d_def Let_def split: if_splits)
  qed
  have nmeta: "rep_nmeta rep = word_of_nat ?n" using assms by (simp add: open_meta_def)
  have sizes: "v_traf (plain_values rep) = 64" "v_trun (plain_values rep) = 20" "v_moof (plain_values rep) = 88"
    by (simp_all add: plain_values_def start_values_def)
  from headed_adds(1) [OF 2(2), of ?n] obtain m3 where 3: "add32 m2 (Some (0, 104)) (word_of_nat ?n) = Some (word_of_nat (64 + ?n), m3)"
    and h3: "?h m3 ((plain_values rep)\<lparr>v_traf := 64 + ?n\<rparr>) (enc_entries (closed_entries rep es))" unfolding sizes by auto
  from headed_adds(2) [OF h3, of ?n] obtain m4 where 4: "add32 m3 (Some (0, 148)) (word_of_nat ?n) = Some (word_of_nat (20 + ?n), m4)"
    and h4: "?h m4 ((plain_values rep)\<lparr>v_traf := 64 + ?n, v_trun := 20 + ?n\<rparr>) (enc_entries (closed_entries rep es))"
    by (auto simp: sizes)
  from headed_adds(3) [OF h4, of ?n] obtain m5 where 5: "add32 m4 (Some (0, 80)) (word_of_nat ?n) = Some (word_of_nat (88 + ?n), m5)"
    and h5: "?h m5 ((plain_values rep)\<lparr>v_traf := 64 + ?n, v_trun := 20 + ?n, v_moof := 88 + ?n\<rparr>)
      (enc_entries (closed_entries rep es))"
    by (auto simp: sizes)
  have "(plain_values rep)\<lparr>v_traf := 64 + ?n, v_trun := 20 + ?n, v_moof := 88 + ?n\<rparr> = meta_values rep (length es)"
    using assms by (simp add: plain_values_def meta_values_def open_meta_def)
  with h5 have h: "?h m5 (meta_values rep (length es)) (enc_entries (closed_entries rep es))" by simp
  have "end_meta rep = Some (word_of_nat (88 + ?n), m5)"
    unfolding end_meta_def Let_def 1(1) Option.bind_lunit d_def [symmetric] 2(1) open_subs [OF assms] nmeta
      option.map 3 4 5 case_prod_conv ..
  from this h show ?thesis by (rule that)
qed


lemma mdat_patched:
  assumes "open_data rep xs"
  obtains dat where "add32 (rep_data rep) (Some (0, 0)) (word_of_nat n) = Some (word_of_nat (8 + n), dat)"
    "flat dat = mdat_head (8 + n) @ xs" "list_all used_buf dat" "dat \<noteq> []"
proof -
  obtain b bs where M: "rep_data rep = b # bs" and b: "used_buf b" "8 \<le> b_last b" "list_all used_buf bs"
    and fl: "buf_content b @ flat bs = mdat_head 8 @ xs"
    using assms by (cases "rep_data rep") (auto simp: open_data_def)
  define R where "R = drop 8 (buf_content b)"
  have "take 8 (buf_content b @ flat bs) = take 8 (mdat_head 8 @ xs)" by (simp only: fl)
  then have "take 8 (buf_content b) = mdat_head 8"
    using b length_content [OF b(1)] by (simp add: mdat_head_def)
  then have c: "buf_content b = [] @ be32 8 @ asc ''mdat'' @ R"
    unfolding R_def by (metis append_Nil append_assoc append_take_drop_id mdat_head_def)
  have R: "R @ flat bs = xs" using fl by (simp add: c mdat_head_def)
  have m: "b_mem b = be32 8 @ asc ''mdat'' @ R @ drop (b_last b) (b_mem b)"
    using used_mem [OF b(1)] c by simp
  have get: "ngx_ts_dash_get32 (b # bs) (Some (0, 0)) = Some (word_of_nat 8)"
  proof (rule get32_bytes)
    show "take 4 (drop 0 (b_mem b)) = be32 8" by (subst m) simp
  qed (use b in \<open>simp_all add: used_buf_def NGX_TS_DASH_BUFFER_SIZE_def\<close>)
  have w: "(ucast (ucast (word_of_nat 8 :: u32) + word_of_nat n :: u64) :: u32) = word_of_nat (8 + n)"
    using ucast_down_nat [of "8 + n"] by simp
  obtain b' where b': "ngx_ts_dash_put32 ([] @ b # bs) (Some (length ([] :: chain), length ([] :: bytes))) (word_of_nat (8 + n))
      = Some ([] @ b' # bs)" "used_buf b'" "buf_content b' = [] @ be32 (unat (word_of_nat (8 + n) :: u32)) @ asc ''mdat'' @ R"
    using put32_content [OF b(1) c, of "[]" bs "word_of_nat (8 + n)"] by auto
  show ?thesis
  proof (rule that [of "b' # bs"])
    show "add32 (rep_data rep) (Some (0, 0)) (word_of_nat n) = Some (word_of_nat (8 + n), b' # bs)"
      using b'(1) by (simp only: add32_def M get option.case Let_def w append_Nil list.size option.map)
    show "flat (b' # bs) = mdat_head (8 + n) @ xs"
      using b'(3) R unfolding be32_word by (simp add: mdat_head_def)
  qed (use b b' in simp_all)
qed

definition seg_values :: "ngx_ts_dash_rep \<Rightarrow> nat \<Rightarrow> nat \<Rightarrow> seg_values" where
  "seg_values rep k n = (meta_values rep k)\<lparr>v_moof_mdat := 88 + entry_size rep * k + (8 + n),
     v_moof_data := 88 + entry_size rep * k + 8\<rparr>"

lemma be32_head_cong:
  assumes "v = v'\<lparr>v_moof_mdat := unat (word_of_nat a :: u32), v_moof_data := unat (word_of_nat b :: u32)\<rparr>"
  shows "seg_head video v = seg_head video (v'\<lparr>v_moof_mdat := a, v_moof_data := b\<rparr>)"
  by (simp add: assms seg_head_def sidx_bytes_def trun_head_def be32_word)

lemma end_segment_ok:
  assumes "open_meta rep es" "open_data rep xs" "rep_ndata rep = word_of_nat (length xs)"
  obtains out where "ngx_ts_dash_end_segment rep = Some (out, rep\<lparr>rep_meta := [], rep_data := []\<rparr>)"
    "flat out = seg_head (es_video (rep_es rep)) (seg_values rep (length es) (length xs)) @
       enc_entries (closed_entries rep es) @ mdat_head (8 + length xs) @ xs"
    "list_all used_buf out" "out \<noteq> []"
proof -
  let ?h = "headed (es_video (rep_es rep))" and ?n = "entry_size rep * length es"
  let ?e = "enc_entries (closed_entries rep es)"
  let ?mm = "88 + ?n + (8 + length xs)" and ?md = "88 + ?n + 8"
  obtain m1 where 1: "end_meta rep = Some (word_of_nat (88 + ?n), m1)" "?h m1 (meta_values rep (length es)) ?e"
    using end_meta_ok [OF assms(1)] .
  obtain dat where dat: "add32 (rep_data rep) (Some (0, 0)) (word_of_nat (length xs)) = Some (word_of_nat (8 + length xs), dat)"
    "flat dat = mdat_head (8 + length xs) @ xs" "list_all used_buf dat" "dat \<noteq> []"
    using mdat_patched [OF assms(2)] .
  have w: "(word_of_nat (88 + ?n) + word_of_nat (8 + length xs) :: u32) = word_of_nat ?mm"
    "(word_of_nat (88 + ?n) + 8 :: u32) = word_of_nat ?md" by simp_all
  obtain m2 where 2: "ngx_ts_dash_put32 m1 (Some (0, 68)) (word_of_nat ?mm) = Some m2"
    "?h m2 ((meta_values rep (length es))\<lparr>v_moof_mdat := unat (word_of_nat ?mm :: u32)\<rparr>) ?e"
    using headed_patches(6) [OF 1(2)] by blast
  obtain m3 where 3: "ngx_ts_dash_put32 m2 (Some (0, 164)) (word_of_nat ?md) = Some m3"
    "?h m3 ((meta_values rep (length es))\<lparr>v_moof_mdat := unat (word_of_nat ?mm :: u32),
      v_moof_data := unat (word_of_nat ?md :: u32)\<rparr>) ?e"
    using headed_patches(7) [OF 2(2)] by auto
  have head: "seg_head (es_video (rep_es rep)) ((meta_values rep (length es))\<lparr>v_moof_mdat := unat (word_of_nat ?mm :: u32),
      v_moof_data := unat (word_of_nat ?md :: u32)\<rparr>) =
    seg_head (es_video (rep_es rep)) (seg_values rep (length es) (length xs))"
    unfolding seg_values_def by (rule be32_head_cong) (rule refl)
  have "ngx_ts_dash_end_segment rep = Some (m3 @ dat, rep\<lparr>rep_meta := [], rep_data := []\<rparr>)"
    unfolding ngx_ts_dash_end_segment_def Let_def 1(1) Option.bind_lunit case_prod_conv open_subs [OF assms(1)]
      option.map assms(3) dat(1) w 2(1) 3(1) ..
  moreover have "flat (m3 @ dat) = seg_head (es_video (rep_es rep)) (seg_values rep (length es) (length xs)) @
      ?e @ mdat_head (8 + length xs) @ xs"
    using 3(2) dat(2) unfolding headed_def head by simp
  moreover have "list_all used_buf (m3 @ dat)" "m3 @ dat \<noteq> []"
    using 3(2) dat(3,4) by (simp_all add: headed_def)
  ultimately show ?thesis by (rule that)
qed


section \<open>Whole segments\<close>

text \<open>
  \<open>ngx_ts_dash_open_segment\<close> and \<open>ngx_ts_dash_copy_default\<close> of ngx\_ts\_dash.c, which copies the
  chain of a PES packet as one sample.
\<close>

definition ngx_ts_dash_open_segment ::
    "'p pool_ops \<Rightarrow> 'p ngx_ts_dash \<Rightarrow> ngx_ts_dash_rep \<Rightarrow> ngx_rc \<times> 'p ngx_ts_dash \<times> ngx_ts_dash_rep" where
  "ngx_ts_dash_open_segment ops dash rep =
     (if rep_meta rep \<noteq> [] then (NGX_OK, dash, rep)
      else ngx_ts_dash_start_segment ops dash
        (rep\<lparr>rep_seg_pts := es_pts (rep_es rep), rep_seg_dts := es_dts (rep_es rep)\<rparr>))"

fun copy_default_loop ::
    "'p pool_ops \<Rightarrow> 'p ngx_ts_dash \<Rightarrow> ngx_ts_dash_rep \<Rightarrow> nat \<Rightarrow> chain \<Rightarrow>
     (ngx_rc \<times> 'p ngx_ts_dash \<times> ngx_ts_dash_rep \<times> nat) option" where
  "copy_default_loop ops dash rep sz [] = Some (NGX_OK, dash, rep, sz)"
| "copy_default_loop ops dash rep sz (b # bs) =
     (case ngx_ts_dash_append_data ops dash rep (buf_content b) of
        None \<Rightarrow> None
      | Some (rc, dash, rep) \<Rightarrow>
          if rc \<noteq> NGX_OK then Some (NGX_ERROR, dash, rep, sz)
          else copy_default_loop ops dash rep (sz + length (buf_content b)) bs)"

definition ngx_ts_dash_copy_default ::
    "'p pool_ops \<Rightarrow> 'p ngx_ts_dash \<Rightarrow> ngx_ts_dash_rep \<Rightarrow> chain \<Rightarrow>
     (ngx_rc \<times> 'p ngx_ts_dash \<times> ngx_ts_dash_rep) option" where
  "ngx_ts_dash_copy_default ops dash rep cl =
     (case copy_default_loop ops dash rep 0 cl of
        None \<Rightarrow> None
      | Some (rc, dash, rep, sz) \<Rightarrow>
          if rc \<noteq> NGX_OK then Some (rc, dash, rep)
          else ngx_ts_dash_append_meta ops dash rep sz (es_dts (rep_es rep)))"

lemma open_meta_data [simp]: "open_meta (rep\<lparr>rep_data := cl\<rparr>) es = open_meta rep es"
  by (simp add: open_meta_def entry_size_def)

lemma copy_default_loop_ok:
  assumes "open_data rep xs" "pool_total ops" "dash_ok dash"
  shows "\<exists>dash' dat. copy_default_loop ops dash rep sz cl =
      Some (NGX_OK, dash', rep\<lparr>rep_data := dat\<rparr>, sz + length (flat cl)) \<and> dash_ok dash' \<and>
    open_data (rep\<lparr>rep_data := dat\<rparr>) (xs @ flat cl)"
  using assms(1,3)
proof (induction cl arbitrary: dash rep sz xs)
  case Nil
  then show ?case by (intro exI [of _ dash] exI [of _ "rep_data rep"]) simp
next
  case (Cons b bs)
  obtain d1 c1 where 1: "ngx_ts_dash_append_data ops dash rep (buf_content b) = Some (NGX_OK, d1, rep\<lparr>rep_data := c1\<rparr>)"
    "dash_ok d1" "open_data (rep\<lparr>rep_data := c1\<rparr>) (xs @ buf_content b)"
    using append_data_opens [OF Cons.prems(1) assms(2) Cons.prems(2)] .
  from Cons.IH [OF 1(3,2), of "sz + length (buf_content b)"] 1(1) show ?case
    by (auto simp: add.assoc)
qed

lemma copy_default_opens:
  assumes "open_meta rep es" "open_data rep xs" "pool_total ops" "dash_ok dash"
  obtains dash' rep' where "ngx_ts_dash_copy_default ops dash rep cl = Some (NGX_OK, dash', rep')" "dash_ok dash'"
    "open_meta rep' (close_entry (unat (ucast (es_dts (rep_es rep) - rep_dts rep) :: u32)) es @
       [(0, entry_tail rep (length (flat cl)))])"
    "open_data rep' (xs @ flat cl)"
    "rep_frame (rep'\<lparr>rep_data := []\<rparr>) = rep_frame (rep\<lparr>rep_data := [],
       rep_ndata := rep_ndata rep + word_of_nat (length (flat cl)), rep_dts := es_dts (rep_es rep)\<rparr>)"
proof -
  obtain d1 dat where 1: "copy_default_loop ops dash rep 0 cl = Some (NGX_OK, d1, rep\<lparr>rep_data := dat\<rparr>, length (flat cl))"
    "dash_ok d1" "open_data (rep\<lparr>rep_data := dat\<rparr>) (xs @ flat cl)"
    using copy_default_loop_ok [OF assms(2-4), of 0 cl] by auto
  let ?r = "rep\<lparr>rep_data := dat\<rparr>"
  have m: "open_meta ?r es" using assms(1) by simp
  obtain d2 r where 2: "ngx_ts_dash_append_meta ops d1 ?r (length (flat cl)) (es_dts (rep_es rep)) = Some (NGX_OK, d2, r)"
    "dash_ok d2"
    "open_meta r (close_entry (unat (ucast (es_dts (rep_es rep) - rep_dts ?r) :: u32)) es @
       [(0, entry_tail ?r (length (flat cl)))])"
    "rep_frame r = rep_frame (?r\<lparr>rep_ndata := rep_ndata ?r + word_of_nat (length (flat cl)), rep_dts := es_dts (rep_es rep)\<rparr>)"
    using append_meta_opens [OF m assms(3) 1(2)] .
  have same: "entry_tail ?r n = entry_tail rep n" for n by (simp add: entry_tail_def)
  have dat: "rep_data r = dat" "rep_frame (r\<lparr>rep_data := []\<rparr>) = rep_frame (rep\<lparr>rep_data := [],
       rep_ndata := rep_ndata rep + word_of_nat (length (flat cl)), rep_dts := es_dts (rep_es rep)\<rparr>)"
    using 2(4) by (cases r; cases rep; simp add: rep_frame_def)+
  have "ngx_ts_dash_copy_default ops dash rep cl = Some (NGX_OK, d2, r)"
    using 1(1) 2(1) by (simp add: ngx_ts_dash_copy_default_def)
  moreover have "open_data r (xs @ flat cl)" using 1(3) dat(1) by (simp add: open_data_def)
  ultimately show ?thesis using 2(2,3) dat(2) by (intro that) (simp_all add: same)
qed


text \<open>
  A run of PES packets of one stream, copied one after the other; \<open>es\<close> is the stream as it is when the
  packet is handled.
\<close>

type_synonym pes_frame = "ngx_ts_es \<times> chain"

fun copy_frames ::
    "'p pool_ops \<Rightarrow> 'p ngx_ts_dash \<Rightarrow> ngx_ts_dash_rep \<Rightarrow> pes_frame list \<Rightarrow>
     (ngx_rc \<times> 'p ngx_ts_dash \<times> ngx_ts_dash_rep) option" where
  "copy_frames ops dash rep [] = Some (NGX_OK, dash, rep)"
| "copy_frames ops dash rep ((es, cl) # fs) =
     (case ngx_ts_dash_copy_default ops dash (rep\<lparr>rep_es := es\<rparr>) cl of
        None \<Rightarrow> None
      | Some (rc, dash, rep) \<Rightarrow>
          if rc \<noteq> NGX_OK then Some (rc, dash, rep) else copy_frames ops dash rep fs)"

text \<open>The sample table they make: a sample lasts until the next one, the last one for \<open>d\<close>.\<close>

definition frame_tail :: "ngx_ts_dash_rep \<Rightarrow> pes_frame \<Rightarrow> bytes" where
  "frame_tail rep f = entry_tail (rep\<lparr>rep_es := fst f\<rparr>) (length (flat (snd f)))"

fun sample_entries :: "ngx_ts_dash_rep \<Rightarrow> nat \<Rightarrow> pes_frame list \<Rightarrow> (nat \<times> bytes) list" where
  "sample_entries rep d [] = []"
| "sample_entries rep d [f] = [(d, frame_tail rep f)]"
| "sample_entries rep d (f # g # fs) =
     (unat (ucast (es_dts (fst g) - es_dts (fst f)) :: u32), frame_tail rep f) # sample_entries rep d (g # fs)"

definition frames_data :: "pes_frame list \<Rightarrow> bytes" where
  "frames_data fs = concat (map (\<lambda>f. flat (snd f)) fs)"

lemma frames_data_simps [simp]: "frames_data [] = []" "frames_data (f # fs) = flat (snd f) @ frames_data fs"
  by (simp_all add: frames_data_def)

lemma frame_tail_cong: "frame_tail rep f = frame_tail rep' f"
  by (simp add: frame_tail_def entry_tail_def)

lemma sample_entries_cong: "sample_entries rep d fs = sample_entries rep' d fs"
  by (induction rep d fs rule: sample_entries.induct) (auto intro: frame_tail_cong)

lemma close_sample_entries: "close_entry d (sample_entries rep 0 fs) = sample_entries rep d fs"
proof (induction rep "0 :: nat" fs rule: sample_entries.induct)
  case (3 rep f g fs)
  then show ?case by (cases fs) simp_all
qed simp_all

lemma length_sample_entries [simp]: "length (sample_entries rep d fs) = length fs"
  by (induction rep d fs rule: sample_entries.induct) simp_all

lemma sample_entries_snoc:
  "fs \<noteq> [] \<Longrightarrow> sample_entries rep d (fs @ [g]) =
     sample_entries rep (unat (ucast (es_dts (fst g) - es_dts (fst (last fs))) :: u32)) fs @ [(d, frame_tail rep g)]"
proof (induction fs)
  case (Cons f fs)
  then show ?case by (cases fs) simp_all
qed simp

lemma open_meta_es [simp]:
  "es_video es = es_video (rep_es rep) \<Longrightarrow> open_meta (rep\<lparr>rep_es := es\<rparr>) e = open_meta rep e"
  by (simp add: open_meta_def entry_size_def)

lemma open_data_es [simp]: "open_data (rep\<lparr>rep_es := es\<rparr>) xs = open_data rep xs"
  by (simp add: open_data_def)

text \<open>What stays the same through the frames: everything but the fields the appends work on.\<close>

definition rep_rest :: "ngx_ts_dash_rep \<Rightarrow> ngx_ts_dash_rep" where
  "rep_rest rep = rep_frame (rep\<lparr>rep_data := [], rep_ndata := 0, rep_dts := 0, rep_es := zero_es\<rparr>)"

definition seg_open :: "ngx_ts_dash_rep \<Rightarrow> bool \<Rightarrow> pes_frame list \<Rightarrow> bool" where
  "seg_open rep video fs \<longleftrightarrow> open_meta rep (sample_entries rep 0 fs) \<and> open_data rep (frames_data fs) \<and>
     rep_ndata rep = word_of_nat (length (frames_data fs)) \<and> es_video (rep_es rep) = video \<and>
     (fs \<noteq> [] \<longrightarrow> rep_dts rep = es_dts (fst (last fs)))"

lemma rep_restD:
  assumes "rep_rest a = rep_rest b"
  shows "rep_seg_pts a = rep_seg_pts b" "rep_seg_dts a = rep_seg_dts b" "rep_seg a = rep_seg b"
  using arg_cong [OF assms, of rep_seg_pts] arg_cong [OF assms, of rep_seg_dts] arg_cong [OF assms, of rep_seg]
  by (simp_all add: rep_rest_def rep_frame_def)

lemma copy_frame_opens:
  assumes "seg_open rep video fs" "es_video es = video" "pool_total ops" "dash_ok dash"
  obtains dash' rep' where "ngx_ts_dash_copy_default ops dash (rep\<lparr>rep_es := es\<rparr>) cl = Some (NGX_OK, dash', rep')"
    "dash_ok dash'" "seg_open rep' video (fs @ [(es, cl)])" "rep_rest rep' = rep_rest rep"
proof -
  let ?r = "rep\<lparr>rep_es := es\<rparr>" and ?e = "sample_entries rep 0 fs"
  have o: "open_meta ?r ?e" "open_data ?r (frames_data fs)"
    using assms(1,2) by (simp_all add: seg_open_def)
  obtain d' r' where 1: "ngx_ts_dash_copy_default ops dash ?r cl = Some (NGX_OK, d', r')" "dash_ok d'"
    "open_meta r' (close_entry (unat (ucast (es_dts (rep_es ?r) - rep_dts ?r) :: u32)) ?e @
       [(0, entry_tail ?r (length (flat cl)))])"
    "open_data r' (frames_data fs @ flat cl)"
    "rep_frame (r'\<lparr>rep_data := []\<rparr>) = rep_frame (?r\<lparr>rep_data := [],
       rep_ndata := rep_ndata ?r + word_of_nat (length (flat cl)), rep_dts := es_dts (rep_es ?r)\<rparr>)"
    using copy_default_opens [OF o assms(3,4)] .
  have e: "close_entry (unat (ucast (es_dts es - rep_dts rep) :: u32)) ?e @ [(0, frame_tail rep (es, cl))] =
      sample_entries r' 0 (fs @ [(es, cl)])"
  proof (cases "fs = []")
    case True
    then show ?thesis by (simp add: frame_tail_cong [of rep _ r'])
  next
    case False
    then have "rep_dts rep = es_dts (fst (last fs))" using assms(1) by (simp add: seg_open_def)
    with False show ?thesis
      by (simp add: close_sample_entries sample_entries_snoc sample_entries_cong [of r' _ _ rep]
          frame_tail_cong [of r' _ rep])
  qed
  have f: "rep_es r' = es" "rep_ndata r' = rep_ndata rep + word_of_nat (length (flat cl))" "rep_dts r' = es_dts es"
    "rep_rest r' = rep_rest rep"
    using 1(5) by (cases r'; cases rep; simp add: rep_frame_def rep_rest_def)+
  have "open_meta r' (sample_entries r' 0 (fs @ [(es, cl)]))"
    using 1(3) e by (simp add: frame_tail_def)
  then have "seg_open r' video (fs @ [(es, cl)])"
    using 1(4) assms(1,2) f by (simp add: seg_open_def frames_data_def)
  with 1(1,2) f(4) show ?thesis by (intro that)
qed

lemma copy_frames_opens:
  assumes "seg_open rep video sofar" "list_all (\<lambda>f. es_video (fst f) = video) fs" "pool_total ops" "dash_ok dash"
  shows "\<exists>dash' rep'. copy_frames ops dash rep fs = Some (NGX_OK, dash', rep') \<and> dash_ok dash' \<and>
    seg_open rep' video (sofar @ fs) \<and> rep_rest rep' = rep_rest rep"
  using assms(1,2,4)
proof (induction fs arbitrary: rep sofar dash)
  case (Cons f fs)
  obtain es cl where f: "f = (es, cl)" by (cases f)
  obtain d1 r1 where 1: "ngx_ts_dash_copy_default ops dash (rep\<lparr>rep_es := es\<rparr>) cl = Some (NGX_OK, d1, r1)"
    "dash_ok d1" "seg_open r1 video (sofar @ [(es, cl)])" "rep_rest r1 = rep_rest rep"
    using copy_frame_opens [OF Cons.prems(1) _ assms(3) Cons.prems(3), of es cl] Cons.prems(2) by (auto simp: f)
  from Cons.IH [OF 1(3) _ 1(2)] Cons.prems(2) 1(1,4) show ?case
    by (auto simp: f)
qed simp


section \<open>The boxes of a closed segment\<close>

text \<open>
  \<open>es0\<close> is the stream when the segment was opened, \<open>es'\<close> when it is closed; the last sample lasts until
  the new time stamp if that is later.
\<close>

definition last_duration :: "ngx_ts_es \<Rightarrow> u64 \<Rightarrow> nat" where
  "last_duration es' dts = (let d = (ucast (es_dts es' - dts) :: u32) in if 0 < sint d then unat d else 0)"

definition segment_entries :: "ngx_ts_dash_rep \<Rightarrow> ngx_ts_es \<Rightarrow> pes_frame list \<Rightarrow> (nat \<times> bytes) list" where
  "segment_entries rep es' fs = sample_entries rep (last_duration es' (es_dts (fst (last fs)))) fs"

definition segment_boxes :: "ngx_ts_dash_rep \<Rightarrow> ngx_ts_es \<Rightarrow> pes_frame list \<Rightarrow> box list" where
  "segment_boxes rep es' fs =
     (let es0 = rep_es rep; video = es_video es0; n = entry_size rep * length fs;
          k = unat (ucast (word_of_nat (length fs) :: u64) :: u32)
      in [Leaf ''styp'' (asc ''iso6'' @ be32 1 @ asc ''isom'' @ asc ''iso6'' @ asc ''dash''),
          Leaf ''sidx'' (full 1 0 @ be32s [1, 90000] @ be64 (unat (es_pts es0)) @ be64 0 @
            be32s [1, 88 + n + (8 + length (frames_data fs)), unat (ucast (es_dts es' - es_dts es0) :: u32), 0x80000000]),
          Node ''moof'' [Leaf ''mfhd'' (full 0 0 @ be32 (unat (ucast (rep_seg rep) :: u32))),
            Node ''traf'' [Leaf ''tfhd'' (full 0 0 @ be32 1),
              Leaf ''tfdt'' (full 1 0 @ be64 (unat (es_dts es0))),
              Leaf ''trun'' (full 0 (if video then 0xf01 else 0x301) @ be32s [k, 88 + n + 8] @
                enc_entries (segment_entries rep es' fs))]],
          Leaf ''mdat'' (frames_data fs)])"

lemma length_frame_tail: "length (frame_tail rep f) + 4 = (if es_video (fst f) then 16 else 8)"
  using length_entry_tail [of "rep\<lparr>rep_es := fst f\<rparr>"] by (simp add: frame_tail_def entry_size_def)

lemma length_sample_bytes:
  "list_all (\<lambda>f. es_video (fst f) = es_video (rep_es rep)) fs \<Longrightarrow>
   length (enc_entries (sample_entries rep d fs)) = entry_size rep * length fs"
  using length_frame_tail [of rep]
  by (induction rep d fs rule: sample_entries.induct) (auto simp: entry_size_def algebra_simps)

lemma segment_bytes_boxes:
  assumes "list_all (\<lambda>f. es_video (fst f) = es_video (rep_es rep)) fs"
    and "v_pts v = unat (es_pts (rep_es rep))" "v_dts v = unat (es_dts (rep_es rep))"
      "v_seq v = unat (ucast (rep_seg rep) :: u32)" "v_nsamples v = unat (ucast (word_of_nat (length fs) :: u64) :: u32)"
      "v_duration v = unat (ucast (es_dts es' - es_dts (rep_es rep)) :: u32)"
      "v_traf v = 64 + entry_size rep * length fs" "v_trun v = 20 + entry_size rep * length fs"
      "v_moof v = 88 + entry_size rep * length fs" "v_moof_data v = 88 + entry_size rep * length fs + 8"
      "v_moof_mdat v = 88 + entry_size rep * length fs + (8 + length (frames_data fs))"
  shows "seg_head (es_video (rep_es rep)) v @ enc_entries (segment_entries rep es' fs) @
      mdat_head (8 + length (frames_data fs)) @ frames_data fs = concat (map enc_box (segment_boxes rep es' fs))"
proof -
  have "length (enc_entries (segment_entries rep es' fs)) = entry_size rep * length fs"
    unfolding segment_entries_def by (rule length_sample_bytes [OF assms(1)])
  then show ?thesis
    using assms(2-) by (simp add: segment_boxes_def seg_head_def styp_bytes_def sidx_bytes_def trun_head_def
        box_bytes_def mdat_head_def Let_def)
qed

lemma segment_parses:
  assumes "list_all (\<lambda>f. es_video (fst f) = es_video (rep_es rep)) fs"
    and "length (concat (map enc_box (segment_boxes rep es' fs))) < 2 ^ 32"
  shows "parse_boxes 16 (concat (map enc_box (segment_boxes rep es' fs))) =
    Some (map pbox_of (segment_boxes rep es' fs))"
proof (rule parse_boxes_enc)
  show "sum_list (map box_weight (segment_boxes rep es' fs)) < 16"
    by (simp add: segment_boxes_def Let_def)
  show "list_all box_ok (segment_boxes rep es' fs)"
    using assms(2) by (simp add: segment_boxes_def containers_def Let_def split: if_splits)
qed

text \<open>
  C7: a segment that is opened, filled with the packets \<open>fs\<close> and closed is a well-formed sequence of
  boxes: segment type, index, movie fragment with one entry for every packet, and the media data, which
  is the bytes of the packets in order; every size and offset that is patched in afterwards is right,
  so that a reader of the format gets the tree of boxes back.
\<close>

theorem dash_segment_wellformed:
  assumes "pool_total ops" "dash_ok dash" "rep_meta rep = []" "fs \<noteq> []"
    and "list_all (\<lambda>f. es_video (fst f) = es_video (rep_es rep)) fs" "es_video es' = es_video (rep_es rep)"
  shows "\<exists>dash1 rep1 dash2 rep2 out rep3.
    ngx_ts_dash_open_segment ops dash rep = (NGX_OK, dash1, rep1) \<and>
    copy_frames ops dash1 rep1 fs = Some (NGX_OK, dash2, rep2) \<and>
    ngx_ts_dash_end_segment (rep2\<lparr>rep_es := es'\<rparr>) = Some (out, rep3) \<and>
    rep_meta rep3 = [] \<and> rep_data rep3 = [] \<and>
    flat out = concat (map enc_box (segment_boxes rep es' fs)) \<and>
    (length (flat out) < 2 ^ 32 \<longrightarrow> parse_boxes 16 (flat out) = Some (map pbox_of (segment_boxes rep es' fs)))"
proof -
  let ?video = "es_video (rep_es rep)"
  let ?r0 = "rep\<lparr>rep_seg_pts := es_pts (rep_es rep), rep_seg_dts := es_dts (rep_es rep)\<rparr>"
  obtain d1 r1 where 1: "ngx_ts_dash_start_segment ops dash ?r0 = (NGX_OK, d1, r1)" "dash_ok d1"
    "open_meta r1 []" "open_data r1 []" "rep_ndata r1 = 0"
    "r1 = ?r0\<lparr>rep_subs := rep_subs r1, rep_nsamples := 0, rep_nmeta := 0, rep_ndata := 0,
       rep_meta := rep_meta r1, rep_data := rep_data r1\<rparr>"
    using start_segment_opens [OF assms(1,2)] .
  have r1: "rep_es r1 = rep_es rep" "rep_rest r1 = rep_rest ?r0"
    by (subst 1(6), simp add: rep_rest_def rep_frame_def)+
  have "seg_open r1 ?video []" using 1(3-5) r1 by (simp add: seg_open_def)
  then obtain d2 r2 where 2: "copy_frames ops d1 r1 fs = Some (NGX_OK, d2, r2)" "seg_open r2 ?video fs"
    "rep_rest r2 = rep_rest ?r0"
    using copy_frames_opens [OF _ assms(5,1) 1(2)] r1 by fastforce
  let ?r = "r2\<lparr>rep_es := es'\<rparr>"
  have r: "rep_seg_pts ?r = es_pts (rep_es rep)" "rep_seg_dts ?r = es_dts (rep_es rep)" "rep_seg ?r = rep_seg rep"
    "entry_size ?r = entry_size rep" "es_video (rep_es ?r) = ?video" "rep_dts ?r = es_dts (fst (last fs))"
    using rep_restD [OF 2(3)] 2(2) assms(4,6) by (simp_all add: entry_size_def seg_open_def)
  have o: "open_meta ?r (sample_entries r2 0 fs)" "open_data ?r (frames_data fs)"
    "rep_ndata ?r = word_of_nat (length (frames_data fs))"
    using 2(2) assms(6) by (simp_all add: seg_open_def)
  obtain out where out: "ngx_ts_dash_end_segment ?r = Some (out, ?r\<lparr>rep_meta := [], rep_data := []\<rparr>)"
    "flat out = seg_head ?video (seg_values ?r (length fs) (length (frames_data fs))) @
       enc_entries (closed_entries ?r (sample_entries r2 0 fs)) @ mdat_head (8 + length (frames_data fs)) @ frames_data fs"
    using end_segment_ok [OF o] unfolding r(5) length_sample_entries by metis
  have entries: "closed_entries ?r (sample_entries r2 0 fs) = segment_entries rep es' fs"
    using r(6) by (auto simp: closed_entries_def segment_entries_def last_duration_def Let_def close_sample_entries
        sample_entries_cong [of r2 _ _ rep])
  have "flat out = concat (map enc_box (segment_boxes rep es' fs))"
    unfolding out(2) entries using r
    by (intro segment_bytes_boxes [OF assms(5)]) (simp_all add: seg_values_def meta_values_def start_values_def)
  with 1(1) 2(1) out(1) assms(3) segment_parses [OF assms(5)] show ?thesis
    by (simp add: ngx_ts_dash_open_segment_def)
qed

theorem dash_segment_wellformed_witness:
  "\<exists>dash1 rep1 dash2 rep2 out rep3.
    ngx_ts_dash_open_segment unit_pool \<lparr>dash_pool = (), dash_free = []\<rparr> audio_rep = (NGX_OK, dash1, rep1) \<and>
    copy_frames unit_pool dash1 rep1 [(rep_es audio_rep, [\<lparr>b_mem = [1, 2, 3], b_pos = 0, b_last = 3\<rparr>])] =
      Some (NGX_OK, dash2, rep2) \<and>
    ngx_ts_dash_end_segment (rep2\<lparr>rep_es := (rep_es audio_rep)\<lparr>es_dts := 90000\<rparr>\<rparr>) = Some (out, rep3) \<and>
    flat out = concat (map enc_box (segment_boxes audio_rep ((rep_es audio_rep)\<lparr>es_dts := 90000\<rparr>)
      [(rep_es audio_rep, [\<lparr>b_mem = [1, 2, 3], b_pos = 0, b_last = 3\<rparr>])]))"
proof -
  let ?fs = "[(rep_es audio_rep, [\<lparr>b_mem = [1, 2, 3], b_pos = 0, b_last = 3\<rparr>])]"
  have "dash_ok \<lparr>dash_pool = (), dash_free = []\<rparr>" by (simp add: dash_ok_def)
  moreover have "rep_meta audio_rep = []" by (simp add: audio_rep_def)
  moreover have "list_all (\<lambda>f. es_video (fst f) = es_video (rep_es audio_rep)) ?fs" by simp
  ultimately show ?thesis
    using dash_segment_wellformed [of unit_pool "\<lparr>dash_pool = (), dash_free = []\<rparr>" audio_rep ?fs
      "(rep_es audio_rep)\<lparr>es_dts := 90000\<rparr>"] by auto
qed

text \<open>
  C35: when there is no buffer for the media data, \<open>ngx_ts_dash_start_segment\<close> fails but leaves the
  segment open (\<open>meta\<close> is set), and closing it, as the cleanup handler does, goes through the null
  pointer \<open>subs.mdat\<close>.
\<close>

theorem start_failure_faults:
  assumes "ngx_ts_dash_get_buffer ops dash = (Some b, dash1)" "fresh_buf b"
    and "ngx_ts_dash_get_buffer ops dash1 = (None, dash2)"
  shows "\<exists>rep'. ngx_ts_dash_start_segment ops dash rep = (NGX_ERROR, dash2, rep') \<and> rep_meta rep' \<noteq> [] \<and>
    ngx_ts_dash_end_segment rep' = None"
proof -
  let ?v = "es_video (rep_es rep)"
  have room: "room b = 1024" "b_last b = 0" "length (b_mem b) = 1024"
    using assms(2) by (simp_all add: room_fresh NGX_TS_DASH_BUFFER_SIZE_def)
      (simp_all add: fresh_buf_def NGX_TS_DASH_BUFFER_SIZE_def)
  have styp: "ngx_ts_dash_box_styp b = emit b styp_bytes"
    using emitsD [OF styp_emits] room by (simp add: styp_bytes_def)
  have lens: "length styp_bytes = 28" "length (sidx_bytes 0 0 0) = 52"
    by (simp_all add: styp_bytes_def sidx_bytes_def)
  obtain b0 s0 b1 s1 where box: "ngx_ts_dash_box_sidx (ngx_ts_dash_box_styp b) zero_subs = (b0, s0)"
    "ngx_ts_dash_box_moof ?v b0 s0 = (b1, s1)" by (metis prod.collapse)
  then have "sub_mdat s1 = None" "b_last b1 = 168" "length (b_mem b1) = 1024"
    using room lens by (auto simp: styp sidx_emit moof_emit zero_subs_def trun_head_def)
  then show ?thesis
    using assms(1,3) box
    by (auto simp: ngx_ts_dash_start_segment_def ngx_ts_dash_end_segment_def Let_def add32_def
        ngx_ts_dash_get32_def split: option.splits intro!: bind_eq_None_conv [THEN iffD2])
qed

text \<open>A pool that has memory once.\<close>

definition one_shot_pool :: "nat pool_ops" where
  "one_shot_pool = \<lparr>p_alloc = (\<lambda>p n. if p = 0 then None else Some (p - 1, replicate n 0)), p_link = Some,
     p_free_link = (\<lambda>p. p)\<rparr>"

theorem start_failure_faults_witness:
  "\<exists>rep'. ngx_ts_dash_start_segment one_shot_pool \<lparr>dash_pool = 1, dash_free = []\<rparr> audio_rep =
     (NGX_ERROR, \<lparr>dash_pool = 0, dash_free = []\<rparr>, rep') \<and> rep_meta rep' \<noteq> [] \<and>
     ngx_ts_dash_end_segment rep' = None"
  by (rule start_failure_faults [of _ _ "\<lparr>b_mem = replicate 1024 0, b_pos = 0, b_last = 0\<rparr>" "\<lparr>dash_pool = 0, dash_free = []\<rparr>"])
    (simp_all add: ngx_ts_dash_get_buffer_def one_shot_pool_def NGX_TS_DASH_BUFFER_SIZE_def fresh_buf_def)

end
