(* ===== verification/Dash_Copy.thy ===== *)
theory Dash_Copy
  imports Dash_Close
begin

text \<open>
  From transport stream to sample (ngx\_ts\_dash.c): \<open>ngx_ts_dash_copy_avc\<close> turns an Annex B byte
  stream into length-prefixed NAL units, and \<open>ngx_ts_dash_copy_aac\<close> cuts ADTS frames into samples.  The pair of a link \<open>in\<close> and a position \<open>p\<close> in
  its buffer is the chain from that link on with the position of its first buffer moved to \<open>p\<close>; no link
  is the empty chain.
\<close>

section \<open>AVC\<close>

text \<open>
  The scan for the end of a NAL unit: \<open>z\<close> zeros seen, length and type of the unit so far.  \<open>None\<close> is
  \<open>goto failed\<close>.
\<close>

definition chain_left :: "chain \<Rightarrow> nat" where
  "chain_left ch = length ch + sum_list (map (\<lambda>b. b_last b - b_pos b) ch)"

function avc_scan :: "nat \<Rightarrow> nat \<Rightarrow> byte \<Rightarrow> chain \<Rightarrow> (nat \<times> byte \<times> chain) option" where
  "avc_scan z len type [] = Some (len, type, [])"
| "avc_scan z len type (b # bs) =
     (if b_pos b \<ge> b_last b then avc_scan z len type bs
      else
        let c = b_mem b ! b_pos b; ch = b\<lparr>b_pos := b_pos b + 1\<rparr> # bs
        in if c = 0 then avc_scan (z + 1) len type ch
           else if c = 1 \<and> z \<ge> 2 then Some (len, type, ch)
           else if z \<ge> 3 then None
           else avc_scan 0 (len + (z + 1)) (if len = 0 then (if z \<noteq> 0 then 0 else c AND 0x1f) else type) ch)"
  by pat_completeness auto
termination
  by (relation "measure (\<lambda>(z, len, type, ch). chain_left ch)") (auto simp: chain_left_def)

text \<open>
  The copy of \<open>len\<close> bytes from a position in the chain; going past the end of the chain is the value of
  \<open>past\<close> (a fault in the AVC code, which has counted the bytes, an error in the AAC code).
\<close>

fun copy_bytes ::
    "(ngx_rc \<times> 'p ngx_ts_dash \<times> ngx_ts_dash_rep \<Rightarrow> (ngx_rc \<times> 'p ngx_ts_dash \<times> ngx_ts_dash_rep \<times> chain) option) \<Rightarrow>
     'p pool_ops \<Rightarrow> 'p ngx_ts_dash \<Rightarrow> ngx_ts_dash_rep \<Rightarrow> nat \<Rightarrow> chain \<Rightarrow>
     (ngx_rc \<times> 'p ngx_ts_dash \<times> ngx_ts_dash_rep \<times> chain) option" where
  "copy_bytes past ops dash rep 0 ch = Some (NGX_OK, dash, rep, ch)"
| "copy_bytes past ops dash rep (Suc len) [] = past (NGX_ERROR, dash, rep)"
| "copy_bytes past ops dash rep (Suc len) (b # bs) =
     (if b_pos b \<ge> b_last b then copy_bytes past ops dash rep (Suc len) bs
      else
        let n = min (b_last b - b_pos b) (Suc len)
        in case ngx_ts_dash_append_data ops dash rep (take n (buf_content b)) of
             None \<Rightarrow> None
           | Some (rc, dash, rep) \<Rightarrow>
               if rc \<noteq> NGX_OK then Some (NGX_ERROR, dash, rep, b # bs)
               else if n = Suc len then Some (NGX_OK, dash, rep, b\<lparr>b_pos := b_pos b + n\<rparr> # bs)
               else copy_bytes past ops dash rep (Suc len - n) bs)"

text \<open>Keeping the first parameter sets, and reading them when both are there.\<close>

definition keep_spec ::
    "'p pool_ops \<Rightarrow> (nat \<Rightarrow> u64) \<Rightarrow> (u64 \<Rightarrow> u64) \<Rightarrow> 'p ngx_ts_dash \<Rightarrow> ngx_ts_dash_rep \<Rightarrow> byte \<Rightarrow> bytes \<Rightarrow>
     ngx_rc \<times> 'p ngx_ts_dash \<times> ngx_ts_dash_rep" where
  "keep_spec ops ub64 ub32 dash rep type spec =
     (if length spec > 0xffff then (NGX_ERROR, dash, rep)
      else case p_alloc ops (dash_pool dash) (length spec) of
        None \<Rightarrow> (NGX_ERROR, dash, rep)
      | Some (p, _) \<Rightarrow>
          let rep = (if type = 7 then rep\<lparr>rep_sps := spec\<rparr> else rep\<lparr>rep_pps := spec\<rparr>);
              dash = dash\<lparr>dash_pool := p\<rparr>
          in if rep_sps rep \<noteq> [] \<and> rep_pps rep \<noteq> [] then
               (case ngx_ts_avc_decode_params ops ub64 ub32 p (rep_sps rep) (rep_pps rep) of
                  (None, p) \<Rightarrow> (NGX_ERROR, dash\<lparr>dash_pool := p\<rparr>, rep\<lparr>rep_avc := None\<rparr>)
                | (Some avc, p) \<Rightarrow> (NGX_OK, dash\<lparr>dash_pool := p\<rparr>, rep\<lparr>rep_avc := Some avc\<rparr>))
             else (NGX_OK, dash, rep))"

definition no_bytes ::
    "ngx_rc \<times> 'p ngx_ts_dash \<times> ngx_ts_dash_rep \<Rightarrow> (ngx_rc \<times> 'p ngx_ts_dash \<times> ngx_ts_dash_rep \<times> chain) option" where
  "no_bytes _ = None"

text \<open>One NAL unit of \<open>len\<close> bytes at \<open>s\<close>: what it adds to the sample size.\<close>

definition avc_unit ::
    "'p pool_ops \<Rightarrow> (nat \<Rightarrow> u64) \<Rightarrow> (u64 \<Rightarrow> u64) \<Rightarrow> 'p ngx_ts_dash \<Rightarrow> ngx_ts_dash_rep \<Rightarrow> chain \<Rightarrow> nat \<Rightarrow> byte \<Rightarrow>
     (ngx_rc \<times> 'p ngx_ts_dash \<times> ngx_ts_dash_rep \<times> nat) option" where
  "avc_unit ops ub64 ub32 dash rep s len type =
     (if len = 0 then Some (NGX_OK, dash, rep, 0)
      else if type = 7 \<or> type = 8 then
        (if type = 7 \<and> rep_sps rep \<noteq> [] \<or> type = 8 \<and> rep_pps rep \<noteq> [] then Some (NGX_OK, dash, rep, 0)
         else case keep_spec ops ub64 ub32 dash rep type (take len (flat s)) of
           (rc, dash, rep) \<Rightarrow> Some (rc, dash, rep, 0))
      else
        let n = (word_of_nat len :: u64) in
        case ngx_ts_dash_append_data ops dash rep
            [ucast (drop_bit 24 n), ucast (drop_bit 16 n), ucast (drop_bit 8 n), ucast n] of
          None \<Rightarrow> None
        | Some (rc, dash, rep) \<Rightarrow>
            if rc \<noteq> NGX_OK then Some (NGX_ERROR, dash, rep, 4)
            else case copy_bytes no_bytes ops dash rep len s of
                   None \<Rightarrow> None
                 | Some (rc, dash, rep, _) \<Rightarrow> Some (rc, dash, rep, 4 + len))"

text \<open>
  The loop over the units.  Every turn moves on in the chain, so \<open>chain_left\<close> is enough fuel
  (\<open>avc_scan_moves\<close>).
\<close>

fun avc_units ::
    "nat \<Rightarrow> 'p pool_ops \<Rightarrow> (nat \<Rightarrow> u64) \<Rightarrow> (u64 \<Rightarrow> u64) \<Rightarrow> 'p ngx_ts_dash \<Rightarrow> ngx_ts_dash_rep \<Rightarrow> nat \<Rightarrow> chain \<Rightarrow>
     (ngx_rc \<times> 'p ngx_ts_dash \<times> ngx_ts_dash_rep \<times> nat) option" where
  "avc_units fuel ops ub64 ub32 dash rep sz [] = Some (NGX_OK, dash, rep, sz)"
| "avc_units 0 ops ub64 ub32 dash rep sz (b # bs) = None"
| "avc_units (Suc fuel) ops ub64 ub32 dash rep sz (b # bs) =
     (case avc_scan 0 0 0 (b # bs) of
        None \<Rightarrow> Some (NGX_ERROR, dash, rep, sz)
      | Some (len, type, ch) \<Rightarrow>
          (case avc_unit ops ub64 ub32 dash rep (b # bs) len type of
             None \<Rightarrow> None
           | Some (rc, dash, rep, n) \<Rightarrow>
               if rc \<noteq> NGX_OK then Some (rc, dash, rep, sz + n)
               else avc_units fuel ops ub64 ub32 dash rep (sz + n) ch))"

definition ngx_ts_dash_copy_avc ::
    "'p pool_ops \<Rightarrow> (nat \<Rightarrow> u64) \<Rightarrow> (u64 \<Rightarrow> u64) \<Rightarrow> 'p ngx_ts_dash \<Rightarrow> ngx_ts_dash_rep \<Rightarrow> chain \<Rightarrow>
     (ngx_rc \<times> 'p ngx_ts_dash \<times> ngx_ts_dash_rep) option" where
  "ngx_ts_dash_copy_avc ops ub64 ub32 dash rep cl =
     (if cl = [] then Some (NGX_OK, dash, rep)
      else case avc_units (chain_left cl) ops ub64 ub32 dash rep 0 cl of
        None \<Rightarrow> None
      | Some (rc, dash, rep, sz) \<Rightarrow>
          if rc \<noteq> NGX_OK then Some (rc, dash, rep)
          else ngx_ts_dash_append_meta ops dash rep sz (es_dts (rep_es rep)))"

section \<open>AAC\<close>

text \<open>
  Reading an ADTS header: seven bytes if the second one says there is no CRC, nine otherwise.  The result
  is the bytes read and the chain after them.
\<close>

definition adts_size :: "bytes \<Rightarrow> nat" where
  "adts_size adts = (if length adts \<ge> 2 \<and> adts ! 1 AND 0x01 \<noteq> 0 then 7 else 9)"

function adts_read :: "bytes \<Rightarrow> chain \<Rightarrow> bytes \<times> chain" where
  "adts_read adts [] = (adts, [])"
| "adts_read adts (b # bs) =
     (if length adts \<ge> adts_size adts then (adts, b # bs)
      else if b_pos b \<ge> b_last b then adts_read adts bs
      else adts_read (adts @ [b_mem b ! b_pos b]) (b\<lparr>b_pos := b_pos b + 1\<rparr> # bs))"
  by pat_completeness auto
termination
  by (relation "measure (\<lambda>(adts, ch). chain_left ch)") (auto simp: chain_left_def)

definition adts_frame_len :: "bytes \<Rightarrow> nat" where
  "adts_frame_len adts =
     (let len = unat (adts ! 3 AND 0x03); len = len * 256 + unat (adts ! 4)
      in len * 8 + unat (drop_bit 5 (adts ! 5)))"

text \<open>\<open>goto failed\<close> at the end of the chain.\<close>

definition cut_frame ::
    "ngx_rc \<times> 'p ngx_ts_dash \<times> ngx_ts_dash_rep \<Rightarrow> (ngx_rc \<times> 'p ngx_ts_dash \<times> ngx_ts_dash_rep \<times> chain) option" where
  "cut_frame r = (case r of (rc, dash, rep) \<Rightarrow> Some (rc, dash, rep, []))"

fun aac_frames ::
    "nat \<Rightarrow> 'p pool_ops \<Rightarrow> 'p ngx_ts_dash \<Rightarrow> ngx_ts_dash_rep \<Rightarrow> nat \<Rightarrow> chain \<Rightarrow>
     (ngx_rc \<times> 'p ngx_ts_dash \<times> ngx_ts_dash_rep) option" where
  "aac_frames 0 ops dash rep i ch = None"
| "aac_frames (Suc fuel) ops dash rep i ch =
     (case adts_read [] ch of (adts, ch) \<Rightarrow>
        let n = length adts in
        if n < adts_size adts then Some (if n = 0 then NGX_OK else NGX_ERROR, dash, rep)
        else
          case (case rep_aac rep of
                  Some aac \<Rightarrow> (Some aac, dash_pool dash)
                | None \<Rightarrow> ngx_ts_aac_decode_params ops (dash_pool dash) (take 7 adts)) of
            (None, p) \<Rightarrow> Some (NGX_ERROR, dash\<lparr>dash_pool := p\<rparr>, rep)
          | (Some aac, p) \<Rightarrow>
              let dash = dash\<lparr>dash_pool := p\<rparr>; rep = rep\<lparr>rep_aac := Some aac\<rparr>;
                  len = adts_frame_len adts
              in if len < n then Some (NGX_ERROR, dash, rep)
                 else
                   let dts = es_dts (rep_es rep) + 90000 * 1024 * word_of_nat i div word_of_nat (aac_freq aac)
                   in case ngx_ts_dash_append_meta ops dash rep (len - n) dts of
                        None \<Rightarrow> None
                      | Some (rc, dash, rep) \<Rightarrow>
                          if rc \<noteq> NGX_OK then Some (NGX_ERROR, dash, rep)
                          else case copy_bytes cut_frame ops dash rep (len - n) ch of
                                 None \<Rightarrow> None
                               | Some (rc, dash, rep, ch) \<Rightarrow>
                                   if rc \<noteq> NGX_OK then Some (NGX_ERROR, dash, rep)
                                   else aac_frames fuel ops dash rep (i + 1) ch)"

text \<open>Every frame takes seven bytes at least, so there are fewer frames than bytes.\<close>

definition ngx_ts_dash_copy_aac ::
    "'p pool_ops \<Rightarrow> 'p ngx_ts_dash \<Rightarrow> ngx_ts_dash_rep \<Rightarrow> chain \<Rightarrow>
     (ngx_rc \<times> 'p ngx_ts_dash \<times> ngx_ts_dash_rep) option" where
  "ngx_ts_dash_copy_aac ops dash rep cl =
     (if cl = [] then Some (NGX_OK, dash, rep)
      else aac_frames (Suc (length (flat cl))) ops dash rep 0 cl)"


section \<open>Reading through a chain\<close>

declare avc_scan.simps(2) [simp del] adts_read.simps(2) [simp del]

lemma content_step:
  assumes "buf_ok b" "b_pos b < b_last b"
  shows "buf_content b = b_mem b ! b_pos b # buf_content (b\<lparr>b_pos := b_pos b + 1\<rparr>)"
    and "buf_ok (b\<lparr>b_pos := b_pos b + 1\<rparr>)"
proof -
  have "drop (b_pos b) (b_mem b) = b_mem b ! b_pos b # drop (Suc (b_pos b)) (b_mem b)"
    using assms by (intro Cons_nth_drop_Suc [symmetric]) (simp add: buf_ok_def)
  moreover have "b_last b - b_pos b = Suc (b_last b - Suc (b_pos b))" using assms(2) by simp
  ultimately show "buf_content b = b_mem b ! b_pos b # buf_content (b\<lparr>b_pos := b_pos b + 1\<rparr>)"
    by (simp add: buf_content_def)
  show "buf_ok (b\<lparr>b_pos := b_pos b + 1\<rparr>)" using assms by (simp add: buf_ok_def)
qed

lemma content_done: "b_last b \<le> b_pos b \<Longrightarrow> buf_content b = []"
  by (simp add: buf_content_def)

lemma content_drop:
  "n \<le> b_last b - b_pos b \<Longrightarrow> buf_content (b\<lparr>b_pos := b_pos b + n\<rparr>) = drop n (buf_content b)"
  by (simp add: buf_content_def drop_take add.commute)

text \<open>The scan over plain bytes; the rest is \<open>None\<close> at the end of the data.\<close>

fun scan_unit :: "nat \<Rightarrow> nat \<Rightarrow> byte \<Rightarrow> bytes \<Rightarrow> (nat \<times> byte \<times> bytes option) option" where
  "scan_unit z len type [] = Some (len, type, None)"
| "scan_unit z len type (c # cs) =
     (if c = 0 then scan_unit (z + 1) len type cs
      else if c = 1 \<and> z \<ge> 2 then Some (len, type, Some cs)
      else if z \<ge> 3 then None
      else scan_unit 0 (len + (z + 1)) (if len = 0 then (if z \<noteq> 0 then 0 else c AND 0x1f) else type) cs)"

definition scan_agrees :: "nat \<Rightarrow> (nat \<times> byte \<times> bytes option) option \<Rightarrow> (nat \<times> byte \<times> chain) option \<Rightarrow> bool" where
  "scan_agrees left r r' \<longleftrightarrow>
     (case r of
        None \<Rightarrow> r' = None
      | Some (len, type, rest) \<Rightarrow>
          \<exists>ch'. r' = Some (len, type, ch') \<and> chain_ok ch' \<and> chain_left ch' \<le> left \<and>
            (case rest of None \<Rightarrow> ch' = [] | Some xs \<Rightarrow> ch' \<noteq> [] \<and> flat ch' = xs))"

lemma scan_agrees_mono: "scan_agrees n r r' \<Longrightarrow> n \<le> m \<Longrightarrow> scan_agrees m r r'"
  unfolding scan_agrees_def by (auto split: option.splits intro: le_trans)

lemma avc_scan_flat:
  "chain_ok ch \<Longrightarrow> scan_agrees (chain_left ch - 1) (scan_unit z len type (flat ch)) (avc_scan z len type ch)"
proof (induction z len type ch rule: avc_scan.induct)
  case (1 z len type)
  then show ?case by (simp add: scan_agrees_def chain_left_def)
next
  case (2 z len type b bs)
  show ?case
  proof (cases "b_last b \<le> b_pos b")
    case True
    have "scan_agrees (chain_left bs - 1) (scan_unit z len type (flat bs)) (avc_scan z len type bs)"
      using 2(1) [OF True] 2(4) by simp
    then have "scan_agrees (chain_left (b # bs) - 1) (scan_unit z len type (flat bs)) (avc_scan z len type bs)"
      by (rule scan_agrees_mono) (simp add: chain_left_def)
    then show ?thesis using True by (simp add: content_done avc_scan.simps(2))
  next
    case False
    let ?ch = "b\<lparr>b_pos := b_pos b + 1\<rparr> # bs" and ?c = "b_mem b ! b_pos b"
    have ok: "chain_ok ?ch" and fl: "flat (b # bs) = ?c # flat ?ch"
      using 2(4) False content_step [of b] by simp_all
    have less: "chain_left (b # bs) - 1 = chain_left ?ch" using False by (simp add: chain_left_def)
    have up: "scan_agrees (chain_left ?ch) r r'" if "scan_agrees (chain_left ?ch - 1) r r'" for r r'
      using that by (rule scan_agrees_mono) simp
    have stop: "scan_agrees (chain_left ?ch) (Some (len, type, Some (flat ?ch))) (Some (len, type, ?ch))"
      using ok unfolding scan_agrees_def by simp
    have run: "avc_scan z len type (b # bs) = (if ?c = 0 then avc_scan (z + 1) len type ?ch
        else if ?c = 1 \<and> z \<ge> 2 then Some (len, type, ?ch) else if z \<ge> 3 then None
        else avc_scan 0 (len + (z + 1)) (if len = 0 then (if z \<noteq> 0 then 0 else ?c AND 0x1f) else type) ?ch)"
      by (subst avc_scan.simps(2)) (simp only: if_not_P [OF False] Let_def)
    show ?thesis
      unfolding fl less run scan_unit.simps
      using up [OF 2(2) [OF False refl refl _ ok]] up [OF 2(3) [OF False refl refl _ _ _ ok]] stop
      by (simp add: scan_agrees_def [of _ None])
  qed
qed

lemma scan_agreesD: "scan_agrees n r (Some (l, t, ch')) \<Longrightarrow> chain_left ch' \<le> n"
  by (cases r) (auto simp: scan_agrees_def)

lemma avc_scan_moves:
  assumes "chain_ok ch" "ch \<noteq> []" "avc_scan z len type ch = Some (l, t, ch')"
  shows "chain_left ch' < chain_left ch"
proof -
  have "chain_left ch' \<le> chain_left ch - 1"
    using avc_scan_flat [OF assms(1), of z len type] unfolding assms(3) by (rule scan_agreesD)
  moreover have "0 < chain_left ch" using assms(2) by (simp add: chain_left_def)
  ultimately show ?thesis by linarith
qed

lemma copy_bytes_ok:
  assumes "open_data rep xs" "pool_total ops" "dash_ok dash" "chain_ok ch" "len \<le> length (flat ch)"
  shows "\<exists>dash' dat ch'. copy_bytes past ops dash rep len ch = Some (NGX_OK, dash', rep\<lparr>rep_data := dat\<rparr>, ch') \<and>
    dash_ok dash' \<and> open_data (rep\<lparr>rep_data := dat\<rparr>) (xs @ take len (flat ch)) \<and> chain_ok ch' \<and>
    flat ch' = drop len (flat ch)"
  using assms(1,3-)
proof (induction ch arbitrary: rep xs dash len)
  case Nil
  then show ?case by (intro exI [of _ dash] exI [of _ "rep_data rep"] exI [of _ "[]"]) simp
next
  case (Cons b bs)
  note prems = Cons.prems
  show ?case
  proof (cases len)
    case 0
    then show ?thesis
      using prems by (intro exI [of _ dash] exI [of _ "rep_data rep"] exI [of _ "b # bs"]) simp
  next
    case (Suc l)
    define n where "n = min (b_last b - b_pos b) len"
    have lb: "length (buf_content b) = b_last b - b_pos b" using prems(3) by simp
    obtain d1 c1 where 1: "ngx_ts_dash_append_data ops dash rep (take n (buf_content b)) = Some (NGX_OK, d1, rep\<lparr>rep_data := c1\<rparr>)"
      "dash_ok d1" "open_data (rep\<lparr>rep_data := c1\<rparr>) (xs @ take n (buf_content b))"
      using append_data_opens [OF prems(1) assms(2) prems(2)] .
    consider (past) "b_last b \<le> b_pos b" | (whole) "b_pos b < b_last b" "n = len"
      | (part) "b_pos b < b_last b" "n = b_last b - b_pos b" "n < len"
      unfolding n_def by linarith
    then show ?thesis
    proof cases
      case past
      with Cons.IH [OF prems(1,2), of len] prems(3,4) Suc show ?thesis by (simp add: content_done)
    next
      case whole
      then have "n \<le> b_last b - b_pos b" "n \<le> length (buf_content b)" using lb by (simp_all add: n_def)
      moreover have "buf_ok (b\<lparr>b_pos := b_pos b + n\<rparr>)"
        using prems(3) \<open>n \<le> b_last b - b_pos b\<close> whole(1) by (simp add: buf_ok_def)
      moreover have "copy_bytes past ops dash rep len (b # bs) =
          Some (NGX_OK, d1, rep\<lparr>rep_data := c1\<rparr>, b\<lparr>b_pos := b_pos b + n\<rparr> # bs)"
        using whole unfolding Suc copy_bytes.simps n_def [unfolded Suc, symmetric] Let_def 1(1) by (simp add: Suc)
      ultimately show ?thesis
        using 1(2,3) whole prems(3) content_drop [of n b]
        by (intro exI [of _ d1] exI [of _ c1] exI [of _ "b\<lparr>b_pos := b_pos b + n\<rparr> # bs"]) simp
    next
      case part
      have t: "take n (buf_content b) = buf_content b" using part(2) lb by simp
      have "open_data (rep\<lparr>rep_data := c1\<rparr>) (xs @ buf_content b)" using 1(3) t by simp
      moreover have "chain_ok bs" "len - n \<le> length (flat bs)" using prems(3,4) part lb by auto
      ultimately obtain d2 c2 ch' where 2: "copy_bytes past ops d1 (rep\<lparr>rep_data := c1\<rparr>) (len - n) bs =
          Some (NGX_OK, d2, rep\<lparr>rep_data := c2\<rparr>, ch')" "dash_ok d2"
        "open_data (rep\<lparr>rep_data := c2\<rparr>) ((xs @ buf_content b) @ take (len - n) (flat bs))" "chain_ok ch'"
        "flat ch' = drop (len - n) (flat bs)"
        using Cons.IH [of "rep\<lparr>rep_data := c1\<rparr>" "xs @ buf_content b" d1 "len - n"] 1(2) by auto
      have "copy_bytes past ops dash rep len (b # bs) = Some (NGX_OK, d2, rep\<lparr>rep_data := c2\<rparr>, ch')"
        using part 2(1) unfolding Suc copy_bytes.simps n_def [unfolded Suc, symmetric] Let_def 1(1) by (simp add: Suc)
      then show ?thesis
        using 2 part lb by (intro exI [of _ d2] exI [of _ c2] exI [of _ ch']) simp
    qed
  qed
qed


section \<open>Annex B streams\<close>

text \<open>
  A NAL unit starts with its type, does not end with a zero and has no start code or three zeros in it;
  in the stream each follows a start code of two zeros or more and a one.
\<close>

fun nal_body :: "nat \<Rightarrow> bytes \<Rightarrow> bool" where
  "nal_body z [] \<longleftrightarrow> z = 0"
| "nal_body z (c # cs) \<longleftrightarrow>
     (if c = 0 then nal_body (z + 1) cs else \<not> (c = 1 \<and> z \<ge> 2) \<and> z < 3 \<and> nal_body 0 cs)"

definition nal_ok :: "bytes \<Rightarrow> bool" where
  "nal_ok nal \<longleftrightarrow> nal \<noteq> [] \<and> hd nal \<noteq> 0 \<and> nal_body 0 nal"

definition annexb :: "(nat \<times> bytes) list \<Rightarrow> bytes" where
  "annexb nals = concat (map (\<lambda>(k, nal). replicate (k + 2) 0 @ 1 # nal) nals)"

text \<open>What becomes of it: parameter sets go to the initialisation segment, the rest is prefixed.\<close>

definition nal_out :: "bytes \<Rightarrow> bytes" where
  "nal_out nal = (if hd nal AND 0x1f = 7 \<or> hd nal AND 0x1f = 8 then [] else be32 (length nal) @ nal)"

definition avc_sample :: "(nat \<times> bytes) list \<Rightarrow> bytes" where
  "avc_sample nals = concat (map (\<lambda>(k, nal). nal_out nal) nals)"

lemma annexb_simps [simp]: "annexb [] = []"
  "annexb ((k, nal) # ns) = replicate (k + 2) 0 @ 1 # nal @ annexb ns"
  by (simp_all add: annexb_def)

lemma avc_sample_simps [simp]: "avc_sample [] = []" "avc_sample ((k, nal) # ns) = nal_out nal @ avc_sample ns"
  by (simp_all add: avc_sample_def)

lemma scan_body:
  "nal_body z xs \<Longrightarrow> 0 < len \<Longrightarrow> scan_unit z len type (xs @ ys) = scan_unit 0 (len + z + length xs) type ys"
proof (induction xs arbitrary: z len)
  case (Cons c cs)
  show ?case
  proof (cases "c = 0")
    case True
    with Cons.IH [of "z + 1" len] Cons.prems show ?thesis by simp
  next
    case False
    with Cons.IH [of 0 "len + (z + 1)"] Cons.prems show ?thesis by auto
  qed
qed simp

lemma scan_nal:
  assumes "nal_ok nal"
  shows "scan_unit 0 0 type (nal @ ys) = scan_unit 0 (length nal) (hd nal AND 0x1f) ys"
proof -
  obtain c cs where "nal = c # cs" using assms by (cases nal) (auto simp: nal_ok_def)
  then show ?thesis
    using assms scan_body [of 0 cs 1 "c AND 0x1f" ys] by (simp add: nal_ok_def)
qed

lemma scan_start_code: "2 \<le> z + k \<Longrightarrow> scan_unit z len type (replicate k 0 @ 1 # ys) = Some (len, type, Some ys)"
  by (induction k arbitrary: z) simp_all

lemma be32_size: "[ucast (drop_bit 24 n), ucast (drop_bit 16 n), ucast (drop_bit 8 n), ucast n] = be32 len"
  if "n = (word_of_nat len :: u64)" for n
proof -
  have "[ucast (drop_bit 24 n), ucast (drop_bit 16 n), ucast (drop_bit 8 n), ucast n] = be32 (unat n)"
    using byte_of_drop_bit [of 3 n] byte_of_drop_bit [of 2 n] byte_of_drop_bit [of 1 n] byte_of_drop_bit [of 0 n]
    by (simp add: enc_nat_map upt_rec)
  also have "be32 (unat n) = be32 (unat n mod 256 ^ 4)" by (rule enc_nat_mod [symmetric])
  also have "unat n mod 256 ^ 4 = len mod 256 ^ 4"
    by (simp add: that unsigned_of_nat take_bit_eq_mod mod_mod_cancel)
  also have "be32 (len mod 256 ^ 4) = be32 len" by (rule enc_nat_mod)
  finally show ?thesis .
qed

lemma avc_unit_ok:
  assumes "open_data rep xs" "pool_total ops" "dash_ok dash" "chain_ok ch" "flat ch = nal @ ys" "nal_ok nal"
    and "rep_sps rep \<noteq> []" "rep_pps rep \<noteq> []"
  shows "\<exists>dash' dat. avc_unit ops ub64 ub32 dash rep ch (length nal) (hd nal AND 0x1f) =
      Some (NGX_OK, dash', rep\<lparr>rep_data := dat\<rparr>, length (nal_out nal)) \<and> dash_ok dash' \<and>
    open_data (rep\<lparr>rep_data := dat\<rparr>) (xs @ nal_out nal)"
proof (cases "hd nal AND 0x1f = 7 \<or> hd nal AND 0x1f = 8")
  case True
  with assms show ?thesis
    by (intro exI [of _ dash] exI [of _ "rep_data rep"]) (auto simp: avc_unit_def nal_out_def)
next
  case False
  define n where "n = (word_of_nat (length nal) :: u64)"
  obtain d1 c1 where 1: "ngx_ts_dash_append_data ops dash rep (be32 (length nal)) = Some (NGX_OK, d1, rep\<lparr>rep_data := c1\<rparr>)"
    "dash_ok d1" "open_data (rep\<lparr>rep_data := c1\<rparr>) (xs @ be32 (length nal))"
    using append_data_opens [OF assms(1-3)] .
  have le: "length nal \<le> length (flat ch)" by (simp add: assms(5))
  obtain d2 c2 ch' where 2: "copy_bytes no_bytes ops d1 (rep\<lparr>rep_data := c1\<rparr>) (length nal) ch =
      Some (NGX_OK, d2, rep\<lparr>rep_data := c2\<rparr>, ch')" "dash_ok d2"
    "open_data (rep\<lparr>rep_data := c2\<rparr>) ((xs @ be32 (length nal)) @ nal)"
    using copy_bytes_ok [OF 1(3) assms(2) 1(2) assms(4) le, of no_bytes] by (auto simp: assms(5))
  have "nal \<noteq> []" using assms(6) by (simp add: nal_ok_def)
  then have "avc_unit ops ub64 ub32 dash rep ch (length nal) (hd nal AND 0x1f) =
      Some (NGX_OK, d2, rep\<lparr>rep_data := c2\<rparr>, 4 + length nal)"
    using False 1(1) 2(1) by (simp add: avc_unit_def Let_def be32_size)
  with False 2(2,3) show ?thesis
    by (intro exI [of _ d2] exI [of _ c2]) (simp add: nal_out_def)
qed

lemma avc_units_ok:
  assumes "open_data rep xs" "pool_total ops" "dash_ok dash" "chain_ok ch" "ch \<noteq> []" "flat ch = nal @ annexb ns"
    and "nal_ok nal" "list_all (\<lambda>(k, nal). nal_ok nal) ns" "rep_sps rep \<noteq> []" "rep_pps rep \<noteq> []" "chain_left ch \<le> fuel"
  shows "\<exists>dash' dat. avc_units fuel ops ub64 ub32 dash rep sz ch =
      Some (NGX_OK, dash', rep\<lparr>rep_data := dat\<rparr>, sz + length (nal_out nal @ avc_sample ns)) \<and> dash_ok dash' \<and>
    open_data (rep\<lparr>rep_data := dat\<rparr>) (xs @ nal_out nal @ avc_sample ns)"
  using assms(1,3-)
proof (induction ns arbitrary: rep xs dash ch nal sz fuel)
  case Nil
  obtain b bs where ch: "ch = b # bs" using Nil.prems(4) by (cases ch) auto
  obtain f where fuel: "fuel = Suc f" using Nil.prems(10) ch by (cases fuel) (auto simp: chain_left_def)
  have "scan_unit 0 0 0 (flat ch) = Some (length nal, hd nal AND 0x1f, None)"
    using scan_nal [OF Nil.prems(6), of 0 "[]"] Nil.prems(5) by simp
  then have scan: "avc_scan 0 0 0 ch = Some (length nal, hd nal AND 0x1f, [])"
    using avc_scan_flat [OF Nil.prems(3), of 0 0 0] by (auto simp: scan_agrees_def)
  obtain d1 c1 where 1: "avc_unit ops ub64 ub32 dash rep ch (length nal) (hd nal AND 0x1f) =
      Some (NGX_OK, d1, rep\<lparr>rep_data := c1\<rparr>, length (nal_out nal))" "dash_ok d1"
    "open_data (rep\<lparr>rep_data := c1\<rparr>) (xs @ nal_out nal)"
    using avc_unit_ok [OF Nil.prems(1) assms(2) Nil.prems(2,3,5,6,8,9)] by blast
  then show ?case
    using scan unfolding ch fuel by (intro exI [of _ d1] exI [of _ c1]) simp
next
  case (Cons kn ns)
  obtain k nal2 where kn: "kn = (k, nal2)" by (cases kn)
  note prems = Cons.prems
  obtain b bs where ch: "ch = b # bs" using prems(4) by (cases ch) auto
  obtain f where fuel: "fuel = Suc f" using prems(10) ch by (cases fuel) (auto simp: chain_left_def)
  have "scan_unit 0 0 0 (flat ch) = Some (length nal, hd nal AND 0x1f, Some (nal2 @ annexb ns))"
    using scan_nal [OF prems(6), of 0] scan_start_code [of 0 "k + 2" "length nal" "hd nal AND 0x1f" "nal2 @ annexb ns"]
      prems(5) by (simp add: kn)
  then obtain ch' where scan: "avc_scan 0 0 0 ch = Some (length nal, hd nal AND 0x1f, ch')"
    "chain_ok ch'" "ch' \<noteq> []" "flat ch' = nal2 @ annexb ns"
    using avc_scan_flat [OF prems(3), of 0 0 0] by (auto simp: scan_agrees_def)
  have left: "chain_left ch' \<le> f"
    using avc_scan_moves [OF prems(3,4) scan(1)] prems(10) fuel by simp
  obtain d1 c1 where 1: "avc_unit ops ub64 ub32 dash rep ch (length nal) (hd nal AND 0x1f) =
      Some (NGX_OK, d1, rep\<lparr>rep_data := c1\<rparr>, length (nal_out nal))" "dash_ok d1"
    "open_data (rep\<lparr>rep_data := c1\<rparr>) (xs @ nal_out nal)"
    using avc_unit_ok [OF prems(1) assms(2) prems(2,3,5,6,8,9)] by blast
  have "nal_ok nal2" "list_all (\<lambda>(k, nal). nal_ok nal) ns" using prems(7) by (simp_all add: kn)
  then obtain d2 c2 where 2: "avc_units f ops ub64 ub32 d1 (rep\<lparr>rep_data := c1\<rparr>) (sz + length (nal_out nal)) ch' =
      Some (NGX_OK, d2, rep\<lparr>rep_data := c2\<rparr>, sz + length (nal_out nal) + length (nal_out nal2 @ avc_sample ns))"
    "dash_ok d2" "open_data (rep\<lparr>rep_data := c2\<rparr>) ((xs @ nal_out nal) @ nal_out nal2 @ avc_sample ns)"
    using Cons.IH [OF 1(3) 1(2) scan(2-4) _ _ _ _ left, of "sz + length (nal_out nal)"] prems(8,9) by auto
  then show ?case
    using scan(1) 1(1) unfolding ch fuel kn
    by (intro exI [of _ d2] exI [of _ c2]) (simp add: add.assoc)
qed


text \<open>
  C18: an access unit in Annex B form becomes one sample of length-prefixed NAL units, without the
  parameter sets that are known already, and the sample table gets its size.  The chain may be cut
  anywhere, inside a start code too.
\<close>

theorem copy_avc_sample:
  assumes "open_meta rep es" "open_data rep xs" "pool_total ops" "dash_ok dash"
    and "chain_ok cl" "flat cl = annexb nals" "nals \<noteq> []" "list_all (\<lambda>(k, nal). nal_ok nal) nals"
    and "rep_sps rep \<noteq> []" "rep_pps rep \<noteq> []"
  shows "\<exists>dash' rep'. ngx_ts_dash_copy_avc ops ub64 ub32 dash rep cl = Some (NGX_OK, dash', rep') \<and>
    dash_ok dash' \<and> open_data rep' (xs @ avc_sample nals) \<and>
    open_meta rep' (close_entry (unat (ucast (es_dts (rep_es rep) - rep_dts rep) :: u32)) es @
      [(0, entry_tail rep (length (avc_sample nals)))])"
proof -
  obtain k nal ns where nals: "nals = (k, nal) # ns" using assms(7) by (metis neq_Nil_conv surj_pair)
  obtain b bs where cl: "cl = b # bs" using assms(6) nals by (cases cl) auto
  have "scan_unit 0 0 0 (flat cl) = Some (0, 0, Some (nal @ annexb ns))"
    using scan_start_code [of 0 "k + 2" 0 0 "nal @ annexb ns"] assms(6) by (simp add: nals)
  then obtain ch where scan: "avc_scan 0 0 0 cl = Some (0, 0, ch)" "chain_ok ch" "ch \<noteq> []" "flat ch = nal @ annexb ns"
    using avc_scan_flat [OF assms(5), of 0 0 0] by (auto simp: scan_agrees_def)
  obtain f where f: "chain_left cl = Suc f" using cl by (cases "chain_left cl") (simp_all add: chain_left_def)
  have left: "chain_left ch \<le> f"
    using avc_scan_moves [OF assms(5) _ scan(1)] cl f by simp
  obtain d1 dat where 1: "avc_units f ops ub64 ub32 dash rep 0 ch =
      Some (NGX_OK, d1, rep\<lparr>rep_data := dat\<rparr>, length (avc_sample nals))" "dash_ok d1"
    "open_data (rep\<lparr>rep_data := dat\<rparr>) (xs @ avc_sample nals)"
    using avc_units_ok [OF assms(2-4) scan(2-4) _ _ assms(9,10) left, of ub64 ub32 0] assms(8)
    by (auto simp: nals)
  have units: "avc_units (chain_left cl) ops ub64 ub32 dash rep 0 cl =
      Some (NGX_OK, d1, rep\<lparr>rep_data := dat\<rparr>, length (avc_sample nals))"
    using scan(1) 1(1) unfolding f by (simp add: cl avc_unit_def)
  let ?r = "rep\<lparr>rep_data := dat\<rparr>"
  have m: "open_meta ?r es" using assms(1) by simp
  obtain d2 r where 2: "ngx_ts_dash_append_meta ops d1 ?r (length (avc_sample nals)) (es_dts (rep_es rep)) = Some (NGX_OK, d2, r)"
    "dash_ok d2"
    "open_meta r (close_entry (unat (ucast (es_dts (rep_es rep) - rep_dts ?r) :: u32)) es @
       [(0, entry_tail ?r (length (avc_sample nals)))])"
    "rep_frame r = rep_frame (?r\<lparr>rep_ndata := rep_ndata ?r + word_of_nat (length (avc_sample nals)), rep_dts := es_dts (rep_es rep)\<rparr>)"
    using append_meta_opens [OF m assms(3) 1(2)] .
  have "rep_data r = dat" using arg_cong [OF 2(4), of rep_data] by (simp add: rep_frame_def)
  then have "open_data r (xs @ avc_sample nals)" using 1(3) by (simp add: open_data_def)
  moreover have "ngx_ts_dash_copy_avc ops ub64 ub32 dash rep cl = Some (NGX_OK, d2, r)"
    using units 2(1) cl by (simp add: ngx_ts_dash_copy_avc_def)
  moreover have "entry_tail ?r n = entry_tail rep n" for n by (simp add: entry_tail_def)
  ultimately show ?thesis using 2(2,3) by (intro exI [of _ d2] exI [of _ r]) simp
qed

text \<open>
  The witness: two units, an IDR slice and a parameter set that is known, in a chain cut inside a start
  code; the segment is the one that \<open>ngx_ts_dash_start_segment\<close> opens.
\<close>

definition video_rep :: ngx_ts_dash_rep where
  "video_rep = audio_rep\<lparr>rep_es := zero_es\<lparr>es_type := NGX_TS_VIDEO_AVC, es_video := True\<rparr>,
     rep_sps := [0x67, 0x42, 0, 0], rep_pps := [0x68], rep_aac := None\<rparr>"

theorem copy_avc_sample_witness:
  "\<exists>dash rep dash' rep'.
    ngx_ts_dash_start_segment unit_pool \<lparr>dash_pool = (), dash_free = []\<rparr> video_rep = (NGX_OK, dash, rep) \<and>
    ngx_ts_dash_copy_avc unit_pool (\<lambda>_. 0) (\<lambda>_. 0) dash rep
      [\<lparr>b_mem = [0, 0], b_pos = 0, b_last = 2\<rparr>,
       \<lparr>b_mem = [1, 0x65, 7, 0, 0, 0, 1, 0x67, 9], b_pos = 0, b_last = 9\<rparr>] = Some (NGX_OK, dash', rep') \<and>
    open_data rep' [0, 0, 0, 2, 0x65, 7]"
proof -
  let ?cl = "[\<lparr>b_mem = [0, 0], b_pos = 0, b_last = 2\<rparr>, \<lparr>b_mem = [1, 0x65, 7, 0, 0, 0, 1, 0x67, 9], b_pos = 0, b_last = 9\<rparr>]"
  let ?nals = "[(0, [0x65, 7]), (1, [0x67, 9])]"
  have "dash_ok \<lparr>dash_pool = (), dash_free = []\<rparr>" by (simp add: dash_ok_def)
  from start_segment_opens [OF pool_total_unit this, of video_rep] obtain dash rep where
    1: "ngx_ts_dash_start_segment unit_pool \<lparr>dash_pool = (), dash_free = []\<rparr> video_rep = (NGX_OK, dash, rep)"
    "dash_ok dash" "open_meta rep []" "open_data rep []"
    and rep: "rep = video_rep\<lparr>rep_subs := rep_subs rep, rep_nsamples := 0, rep_nmeta := 0, rep_ndata := 0,
       rep_meta := rep_meta rep, rep_data := rep_data rep\<rparr>" .
  have sets: "rep_sps rep \<noteq> []" "rep_pps rep \<noteq> []" by (subst rep, simp add: video_rep_def)+
  have two: "replicate 2 (0 :: byte) = [0, 0]" "replicate 3 (0 :: byte) = [0, 0, 0]"
    by (simp_all add: numeral_2_eq_2 numeral_3_eq_3)
  have ok: "chain_ok ?cl" "flat ?cl = annexb ?nals" "list_all (\<lambda>(k, nal). nal_ok nal) ?nals"
    by (simp_all add: buf_ok_def buf_content_def annexb_def nal_ok_def two)
  have out: "avc_sample ?nals = [0, 0, 0, 2, 0x65, 7]"
    by (simp add: nal_out_def enc_nat_map upt_rec)
  from copy_avc_sample [OF 1(3,4) pool_total_unit 1(2) ok(1,2) _ ok(3) sets, of "\<lambda>_. 0" "\<lambda>_. 0"] 1(1)
  show ?thesis unfolding out append_Nil by blast
qed


section \<open>ADTS streams\<close>

type_synonym adts_frame = "bytes \<times> bytes"

definition adts_ok :: "adts_frame \<Rightarrow> bool" where
  "adts_ok f \<longleftrightarrow> length (fst f) = adts_size (fst f) \<and> adts_frame_len (fst f) = length (fst f) + length (snd f)"

definition adts_stream :: "adts_frame list \<Rightarrow> bytes" where
  "adts_stream fs = concat (map (\<lambda>f. fst f @ snd f) fs)"

definition adts_data :: "adts_frame list \<Rightarrow> bytes" where
  "adts_data fs = concat (map snd fs)"

lemma adts_simps [simp]: "adts_stream [] = []" "adts_stream (f # fs) = fst f @ snd f @ adts_stream fs"
  "adts_data [] = []" "adts_data (f # fs) = snd f @ adts_data fs"
  by (simp_all add: adts_stream_def adts_data_def)

lemma adts_size_prefix:
  assumes "length (acc @ rest) = adts_size (acc @ rest)" "rest \<noteq> []"
  shows "length acc < adts_size acc"
proof (cases "length acc < 2")
  case False
  then have "(acc @ rest) ! 1 = acc ! 1" by (simp add: nth_append)
  with False have "adts_size (acc @ rest) = adts_size acc" by (simp add: adts_size_def)
  moreover have "length acc < length (acc @ rest)" using assms(2) by simp
  ultimately show ?thesis using assms(1) by linarith
qed (simp add: adts_size_def)

lemma adts_read_ok:
  "chain_ok ch \<Longrightarrow> flat ch = rest @ ys \<Longrightarrow> length (acc @ rest) = adts_size (acc @ rest) \<Longrightarrow>
   \<exists>ch'. adts_read acc ch = (acc @ rest, ch') \<and> chain_ok ch' \<and> flat ch' = ys"
proof (induction acc ch arbitrary: rest rule: adts_read.induct)
  case (1 acc)
  then show ?case by simp
next
  case (2 acc b bs)
  show ?case
  proof (cases rest)
    case Nil
    then show ?thesis using 2(3-5) by (intro exI [of _ "b # bs"]) (simp add: adts_read.simps(2))
  next
    case (Cons c cs)
    have less: "\<not> adts_size acc \<le> length acc" using adts_size_prefix [OF 2(5)] Cons by simp
    show ?thesis
    proof (cases "b_last b \<le> b_pos b")
      case True
      with 2(1) [OF less True] 2(3-5) less show ?thesis by (simp add: adts_read.simps(2) content_done)
    next
      case False
      let ?ch = "b\<lparr>b_pos := b_pos b + 1\<rparr> # bs"
      have step: "chain_ok ?ch" "flat (b # bs) = b_mem b ! b_pos b # flat ?ch"
        using 2(3) False content_step [of b] by simp_all
      then have c: "b_mem b ! b_pos b = c" "flat ?ch = cs @ ys" using 2(4) Cons by simp_all
      have "length ((acc @ [b_mem b ! b_pos b]) @ cs) = adts_size ((acc @ [b_mem b ! b_pos b]) @ cs)"
        using 2(5) Cons c by simp
      from 2(2) [OF less False step(1) c(2) this] less False c Cons show ?thesis
        by (subst adts_read.simps(2)) simp
    qed
  qed
qed

text \<open>
  What a packet of frames adds to the sample table.  Frame \<open>i\<close> is decoded 1024 samples of sound after the
  one before it, and the clock has 90000 ticks a second; a sample lasts until the next one, the last
  sample until a later packet says so, and its size is that of the frame without the header.
\<close>

definition aac_time :: "ngx_ts_dash_rep \<Rightarrow> ngx_ts_aac_params \<Rightarrow> nat \<Rightarrow> u64" where
  "aac_time rep aac i = es_dts (rep_es rep) + 90000 * 1024 * word_of_nat i div word_of_nat (aac_freq aac)"

definition ticks :: "u64 \<Rightarrow> u64 \<Rightarrow> nat" where
  "ticks from_dts to_dts = unat (ucast (to_dts - from_dts) :: u32)"

fun aac_samples :: "(nat \<Rightarrow> u64) \<Rightarrow> nat \<Rightarrow> adts_frame list \<Rightarrow> (nat \<times> bytes) list" where
  "aac_samples time i [] = []"
| "aac_samples time i (f # fs) =
     ((if fs = [] then 0 else ticks (time i) (time (i + 1))), be32 (length (snd f))) # aac_samples time (i + 1) fs"

text \<open>The open sample of the packet before gets its duration when the first frame comes.\<close>

definition aac_table :: "(nat \<Rightarrow> u64) \<Rightarrow> u64 \<Rightarrow> nat \<Rightarrow> adts_frame list \<Rightarrow> (nat \<times> bytes) list \<Rightarrow> (nat \<times> bytes) list" where
  "aac_table time last_dts i fs es =
     (if fs = [] then es else close_entry (ticks last_dts (time i)) es @ aac_samples time i fs)"

lemma aac_table_Cons:
  "aac_table time last_dts i (f # fs) es =
   aac_table time (time i) (i + 1) fs (close_entry (ticks last_dts (time i)) es @ [(0, be32 (length (snd f)))])"
  by (cases fs) (simp_all add: aac_table_def)

lemma audio_entry_tail: "\<not> es_video (rep_es rep) \<Longrightarrow> entry_tail rep n = be32 n"
  by (simp add: entry_tail_def unsigned_of_nat take_bit_eq_mod enc_nat_mod [of 4, simplified])

lemma aac_frames_ok:
  assumes "open_meta rep es" "open_data rep xs" "pool_total ops" "dash_ok dash" "chain_ok ch"
    and "flat ch = adts_stream fs" "list_all adts_ok fs" "rep_aac rep = Some aac" "\<not> es_video (rep_es rep)"
    and "length fs < fuel"
  shows "\<exists>dash' rep'. aac_frames fuel ops dash rep i ch = Some (NGX_OK, dash', rep') \<and> dash_ok dash' \<and>
    open_data rep' (xs @ adts_data fs) \<and> open_meta rep' (aac_table (aac_time rep aac) (rep_dts rep) i fs es) \<and>
    (fs \<noteq> [] \<longrightarrow> rep_dts rep' = aac_time rep aac (i + length fs - 1)) \<and> (fs = [] \<longrightarrow> rep' = rep)"
  using assms(1,2,4-)
proof (induction fs arbitrary: rep es xs dash ch fuel i)
  case Nil
  obtain f where fuel: "fuel = Suc f" using Nil.prems(9) by (cases fuel) auto
  obtain ch' where "adts_read [] ch = ([], ch')"
  proof -
    have "chain_ok c \<Longrightarrow> flat c = [] \<Longrightarrow> adts_read [] c = ([], [])" for c
    proof (induction c)
      case (Cons b bs)
      then have "b_last b \<le> b_pos b" by (auto simp: buf_content_def buf_ok_def)
      with Cons show ?case by (simp add: adts_read.simps(2) adts_size_def content_done)
    qed simp
    with Nil.prems(4,5) that show ?thesis by simp
  qed
  then have "aac_frames fuel ops dash rep i ch = Some (NGX_OK, dash, rep)"
    by (simp add: fuel adts_size_def)
  with Nil.prems(1-3) show ?case by (simp add: aac_table_def)
next
  case (Cons fr fs)
  note prems = Cons.prems
  obtain hdr pay where fr: "fr = (hdr, pay)" by (cases fr)
  have ok: "length hdr = adts_size hdr" "adts_frame_len hdr = length hdr + length pay"
    using prems(6) by (simp_all add: fr adts_ok_def)
  obtain f where fuel: "fuel = Suc f" "length fs < f" using prems(9) by (cases fuel) auto
  obtain ch1 where read: "adts_read [] ch = (hdr, ch1)" "chain_ok ch1" "flat ch1 = pay @ adts_stream fs"
    using adts_read_ok [OF prems(4), of hdr "pay @ adts_stream fs" "[]"] prems(5) ok(1) by (auto simp: fr)
  define dts where "dts = aac_time rep aac i"
  have same: "dash\<lparr>dash_pool := dash_pool dash\<rparr> = dash" "rep\<lparr>rep_aac := Some aac\<rparr> = rep"
    using prems(7) by simp_all
  obtain d2 r2 where 2: "ngx_ts_dash_append_meta ops dash rep (length pay) dts = Some (NGX_OK, d2, r2)" "dash_ok d2"
    "open_meta r2 (close_entry (unat (ucast (dts - rep_dts rep) :: u32)) es @ [(0, entry_tail rep (length pay))])"
    "rep_frame r2 = rep_frame (rep\<lparr>rep_ndata := rep_ndata rep + word_of_nat (length pay), rep_dts := dts\<rparr>)"
    using append_meta_opens [OF prems(1) assms(3) prems(3)] .
  have r2: "rep_data r2 = rep_data rep" "rep_aac r2 = Some aac" "rep_es r2 = rep_es rep" "rep_dts r2 = dts"
    using arg_cong [OF 2(4), of rep_data] arg_cong [OF 2(4), of rep_aac] arg_cong [OF 2(4), of rep_es]
      arg_cong [OF 2(4), of rep_dts] prems(7) by (simp_all add: rep_frame_def)
  have o2: "open_data r2 xs" using prems(2) r2(1) by (simp add: open_data_def)
  obtain d3 dat ch3 where 3: "copy_bytes cut_frame ops d2 r2 (length pay) ch1 = Some (NGX_OK, d3, r2\<lparr>rep_data := dat\<rparr>, ch3)"
    "dash_ok d3" "open_data (r2\<lparr>rep_data := dat\<rparr>) (xs @ pay)" "chain_ok ch3" "flat ch3 = adts_stream fs"
    using copy_bytes_ok [OF o2 assms(3) 2(2) read(2), of "length pay" cut_frame] read(3) by auto
  have run: "aac_frames fuel ops dash rep i ch = aac_frames f ops d3 (r2\<lparr>rep_data := dat\<rparr>) (i + 1) ch3"
    unfolding fuel(1) using read(1) ok 2(1) 3(1) prems(7)
    by (simp add: Let_def same cong: option.case_cong flip: aac_time_def [simplified] dts_def)
  let ?es = "close_entry (ticks (rep_dts rep) dts) es @ [(0, be32 (length pay))]" and ?r = "r2\<lparr>rep_data := dat\<rparr>"
  have m: "open_meta ?r ?es" using 2(3) prems(8) by (simp add: ticks_def audio_entry_tail)
  have "rep_aac ?r = Some aac" "\<not> es_video (rep_es ?r)" "list_all adts_ok fs" using r2 prems(6,8) by simp_all
  from Cons.IH [OF m 3(3,2,4,5) this(3,1,2) fuel(2), of "i + 1"] obtain d4 r4 where
    4: "aac_frames f ops d3 ?r (i + 1) ch3 = Some (NGX_OK, d4, r4)" "dash_ok d4"
    "open_data r4 ((xs @ pay) @ adts_data fs)" "open_meta r4 (aac_table (aac_time ?r aac) (rep_dts ?r) (i + 1) fs ?es)"
    "fs \<noteq> [] \<Longrightarrow> rep_dts r4 = aac_time ?r aac (i + 1 + length fs - 1)" "fs = [] \<Longrightarrow> r4 = ?r"
    by blast
  have time: "aac_time ?r aac = aac_time rep aac" "rep_dts ?r = dts"
    using r2 by (simp_all add: aac_time_def fun_eq_iff)
  have "open_meta r4 (aac_table (aac_time rep aac) (rep_dts rep) i (fr # fs) es)"
    using 4(4) unfolding aac_table_Cons time by (simp add: fr dts_def)
  moreover have "rep_dts r4 = aac_time rep aac (i + length (fr # fs) - 1)"
    using 4(5,6) time by (cases "fs = []") (simp_all add: dts_def)
  ultimately show ?case
    using 4(1-3) unfolding run by (intro exI [of _ d4] exI [of _ r4]) (simp add: fr)
qed

text \<open>
  C33: a PES packet of whole ADTS frames becomes one sample for each frame, wherever the chain is cut: the
  data are those of the frames without their headers, and the sample table gets the size of each frame and
  the time to the next; the duration of the sample that was open before, up to the first frame, is filled in.
\<close>

theorem copy_aac_samples:
  assumes "open_meta rep es" "open_data rep xs" "pool_total ops" "dash_ok dash" "chain_ok cl"
    and "flat cl = adts_stream fs" "list_all adts_ok fs" "rep_aac rep = Some aac" "\<not> es_video (rep_es rep)"
  shows "\<exists>dash' rep'. ngx_ts_dash_copy_aac ops dash rep cl = Some (NGX_OK, dash', rep') \<and>
    open_data rep' (xs @ adts_data fs) \<and> open_meta rep' (aac_table (aac_time rep aac) (rep_dts rep) 0 fs es) \<and>
    (fs \<noteq> [] \<longrightarrow> rep_dts rep' = aac_time rep aac (length fs - 1))"
proof (cases "cl = []")
  case True
  then have "fs = []" using assms(6,7) by (cases fs) (auto simp: adts_ok_def adts_size_def split: if_splits)
  with True assms(1,2) show ?thesis by (auto simp: ngx_ts_dash_copy_aac_def aac_table_def)
next
  case False
  have "length fs \<le> length (adts_stream fs)"
    using assms(7)
  proof (induction fs)
    case (Cons f fs)
    then have "1 \<le> length (fst f)" by (auto simp: adts_ok_def adts_size_def split: if_splits)
    with Cons show ?case by simp
  qed simp
  then have "length fs < Suc (length (flat cl))" using assms(6) by simp
  from aac_frames_ok [OF assms this, of 0] False show ?thesis
    by (auto simp: ngx_ts_dash_copy_aac_def)
qed

text \<open>Two frames of 44100 Hz, of two bytes and of one, in three buffers; 1024 samples take 2089 ticks.\<close>

theorem copy_aac_samples_witness:
  "\<exists>dash rep dash' rep'.
    ngx_ts_dash_start_segment unit_pool \<lparr>dash_pool = (), dash_free = []\<rparr> audio_rep = (NGX_OK, dash, rep) \<and>
    ngx_ts_dash_copy_aac unit_pool dash rep
      [\<lparr>b_mem = [0xff, 0xf1, 0x50], b_pos = 0, b_last = 3\<rparr>,
       \<lparr>b_mem = [0x80, 1, 0x3f, 0xfc, 5], b_pos = 0, b_last = 5\<rparr>,
       \<lparr>b_mem = [6, 0xff, 0xf1, 0x50, 0x80, 1, 0x1f, 0xfc, 7], b_pos = 0, b_last = 9\<rparr>] = Some (NGX_OK, dash', rep') \<and>
    open_data rep' [5, 6, 7] \<and> open_meta rep' [(2089, [0, 0, 0, 2]), (0, [0, 0, 0, 1])] \<and> rep_dts rep' = 2089"
proof -
  let ?cl = "[\<lparr>b_mem = [0xff, 0xf1, 0x50], b_pos = 0, b_last = 3\<rparr>,
       \<lparr>b_mem = [0x80, 1, 0x3f, 0xfc, 5], b_pos = 0, b_last = 5\<rparr>,
       \<lparr>b_mem = [6, 0xff, 0xf1, 0x50, 0x80, 1, 0x1f, 0xfc, 7], b_pos = 0, b_last = 9\<rparr>]"
  let ?fs = "[([0xff, 0xf1, 0x50, 0x80, 1, 0x3f, 0xfc], [5, 6]), ([0xff, 0xf1, 0x50, 0x80, 1, 0x1f, 0xfc], [7])]"
  have "dash_ok \<lparr>dash_pool = (), dash_free = []\<rparr>" by (simp add: dash_ok_def)
  from start_segment_opens [OF pool_total_unit this, of audio_rep] obtain dash rep where
    1: "ngx_ts_dash_start_segment unit_pool \<lparr>dash_pool = (), dash_free = []\<rparr> audio_rep = (NGX_OK, dash, rep)"
    "dash_ok dash" "open_meta rep []" "open_data rep []"
    and rep: "rep = audio_rep\<lparr>rep_subs := rep_subs rep, rep_nsamples := 0, rep_nmeta := 0, rep_ndata := 0,
       rep_meta := rep_meta rep, rep_data := rep_data rep\<rparr>" .
  have aac: "rep_aac rep = rep_aac audio_rep" by (subst rep) simp
  have es: "rep_es rep = rep_es audio_rep" by (subst rep) simp
  have audio: "\<not> es_video (rep_es rep)" unfolding es by (simp add: audio_rep_def zero_es_def)
  have ok: "chain_ok ?cl" "flat ?cl = adts_stream ?fs" "list_all adts_ok ?fs"
    by (simp_all add: buf_ok_def buf_content_def adts_ok_def adts_size_def adts_frame_len_def)
  have size: "be32 (Suc (Suc 0)) = [0, 0, 0, 2]" "be32 1 = [0, 0, 0, 1]" by (simp_all add: enc_nat_map upt_rec)
  obtain dash' rep' where
    2: "ngx_ts_dash_copy_aac unit_pool dash rep ?cl = Some (NGX_OK, dash', rep')" "open_data rep' ([] @ adts_data ?fs)"
    "open_meta rep' (aac_table (aac_time rep (the (rep_aac audio_rep))) (rep_dts rep) 0 ?fs [])"
    "rep_dts rep' = aac_time rep (the (rep_aac audio_rep)) (length ?fs - 1)"
    using copy_aac_samples [OF 1(3,4) pool_total_unit 1(2) ok _ audio, of "the (rep_aac audio_rep)"]
    by (auto simp: aac audio_rep_def)
  have time: "aac_time rep (the (rep_aac audio_rep)) 0 = 0" "aac_time rep (the (rep_aac audio_rep)) 1 = 2089"
    unfolding aac_time_def es by (simp_all add: audio_rep_def zero_es_def)
  have "aac_table (aac_time rep (the (rep_aac audio_rep))) (rep_dts rep) 0 ?fs [] = [(2089, [0, 0, 0, 2]), (0, [0, 0, 0, 1])]"
    using size time by (simp add: aac_table_def ticks_def)
  then show ?thesis using 1(1) 2 time by (auto simp: adts_data_def)
qed

end
