(* ===== verification/Rtmp_Types.thy ===== *)
theory Rtmp_Types
  imports Buf_Chain
begin

text \<open>
  The state of an RTMP session (ngx\_rtmp.h) as far as the message layer uses it: the server
  configuration, the shared output buffers with their reference counts, the chunk streams of the input
  side, and the ring of messages of the output side.  The socket is a parameter: \<open>c_arrivals\<close> is what the
  peer sends, cut the way the kernel hands it out (an empty piece is the end of the connection), and
  \<open>c_sends\<close> is what each further call of \<open>c->send\<close> will do.
\<close>

section \<open>Constants\<close>

definition NGX_RTMP_DEFAULT_CHUNK_SIZE :: nat where "NGX_RTMP_DEFAULT_CHUNK_SIZE = 128"
definition NGX_RTMP_MAX_CHUNK_SIZE :: nat where "NGX_RTMP_MAX_CHUNK_SIZE = 10485760"
definition NGX_RTMP_MAX_CHUNK_HEADER :: nat where "NGX_RTMP_MAX_CHUNK_HEADER = 18"
definition NGX_RTMP_REFCOUNT_BYTES :: nat where "NGX_RTMP_REFCOUNT_BYTES = 4"
definition NGX_RTMP_BANDWIDTH_INTERVAL :: int where "NGX_RTMP_BANDWIDTH_INTERVAL = 10"

text \<open>Message types.\<close>

definition NGX_RTMP_MSG_CHUNK_SIZE :: byte where "NGX_RTMP_MSG_CHUNK_SIZE = 1"
definition NGX_RTMP_MSG_ABORT :: byte where "NGX_RTMP_MSG_ABORT = 2"
definition NGX_RTMP_MSG_ACK :: byte where "NGX_RTMP_MSG_ACK = 3"
definition NGX_RTMP_MSG_USER :: byte where "NGX_RTMP_MSG_USER = 4"
definition NGX_RTMP_MSG_ACK_SIZE :: byte where "NGX_RTMP_MSG_ACK_SIZE = 5"
definition NGX_RTMP_MSG_BANDWIDTH :: byte where "NGX_RTMP_MSG_BANDWIDTH = 6"
definition NGX_RTMP_MSG_AMF3_META :: byte where "NGX_RTMP_MSG_AMF3_META = 15"
definition NGX_RTMP_MSG_AMF3_SHARED :: byte where "NGX_RTMP_MSG_AMF3_SHARED = 16"
definition NGX_RTMP_MSG_AMF3_CMD :: byte where "NGX_RTMP_MSG_AMF3_CMD = 17"
definition NGX_RTMP_MSG_AMF_META :: byte where "NGX_RTMP_MSG_AMF_META = 18"
definition NGX_RTMP_MSG_AMF_SHARED :: byte where "NGX_RTMP_MSG_AMF_SHARED = 19"
definition NGX_RTMP_MSG_AMF_CMD :: byte where "NGX_RTMP_MSG_AMF_CMD = 20"
definition NGX_RTMP_MSG_MAX :: byte where "NGX_RTMP_MSG_MAX = 22"

text \<open>User control events.\<close>

definition NGX_RTMP_USER_STREAM_BEGIN :: u16 where "NGX_RTMP_USER_STREAM_BEGIN = 0"
definition NGX_RTMP_USER_STREAM_EOF :: u16 where "NGX_RTMP_USER_STREAM_EOF = 1"
definition NGX_RTMP_USER_STREAM_DRY :: u16 where "NGX_RTMP_USER_STREAM_DRY = 2"
definition NGX_RTMP_USER_SET_BUFLEN :: u16 where "NGX_RTMP_USER_SET_BUFLEN = 3"
definition NGX_RTMP_USER_RECORDED :: u16 where "NGX_RTMP_USER_RECORDED = 4"
definition NGX_RTMP_USER_PING_REQUEST :: u16 where "NGX_RTMP_USER_PING_REQUEST = 6"
definition NGX_RTMP_USER_PING_RESPONSE :: u16 where "NGX_RTMP_USER_PING_RESPONSE = 7"

lemmas rtmp_consts = NGX_RTMP_DEFAULT_CHUNK_SIZE_def NGX_RTMP_MAX_CHUNK_SIZE_def
  NGX_RTMP_MAX_CHUNK_HEADER_def NGX_RTMP_REFCOUNT_BYTES_def

lemmas rtmp_msg_types = NGX_RTMP_MSG_CHUNK_SIZE_def NGX_RTMP_MSG_ABORT_def NGX_RTMP_MSG_ACK_def
  NGX_RTMP_MSG_USER_def NGX_RTMP_MSG_ACK_SIZE_def NGX_RTMP_MSG_BANDWIDTH_def NGX_RTMP_MSG_AMF3_META_def
  NGX_RTMP_MSG_AMF3_SHARED_def NGX_RTMP_MSG_AMF3_CMD_def NGX_RTMP_MSG_AMF_META_def
  NGX_RTMP_MSG_AMF_SHARED_def NGX_RTMP_MSG_AMF_CMD_def NGX_RTMP_MSG_MAX_def

section \<open>Records\<close>

text \<open>\<open>ngx_rtmp_header_t\<close>, \<open>ngx_rtmp_stream_t\<close> and the constant part of \<open>ngx_rtmp_core_srv_conf_t\<close>.\<close>

record rtmp_header =
  mh_csid :: u32
  mh_timestamp :: u32
  mh_mlen :: u32
  mh_type :: byte
  mh_msid :: u32

text \<open>
  \<open>st_in\<close> is the ring of buffers of a chunk stream from the oldest one on, so \<open>st->in\<close> is its last element
  and \<open>st->in->next\<close> its first.  For stream 0, which only keeps buffers to be used again, the C code links
  them in a line with \<open>st->in\<close> at its head.
\<close>

record rtmp_stream =
  st_hdr :: rtmp_header
  st_dtime :: u32
  st_len :: u32
  st_ext :: bool
  st_in :: chain

record rtmp_conf =
  cf_ping :: nat
  cf_ping_timeout :: nat
  cf_max_streams :: nat
  cf_chunk_size :: nat
  cf_max_message :: nat
  cf_play_time_fix :: bool
  cf_publish_time_fix :: bool
  cf_busy :: bool

definition zero_mh :: rtmp_header where
  "zero_mh = \<lparr>mh_csid = 0, mh_timestamp = 0, mh_mlen = 0, mh_type = 0, mh_msid = 0\<rparr>"

definition zero_stream :: rtmp_stream where
  "zero_stream = \<lparr>st_hdr = zero_mh, st_dtime = 0, st_len = 0, st_ext = False, st_in = []\<rparr>"

text \<open>
  What the sessions of a server share: the free shared buffers and the pool (\<open>cscf->free\<close>,
  \<open>cscf->pool\<close>), and the messages in use.  A message is known by the address of its first link; the
  word in front of that link is its reference count.
\<close>

record rtmp_message =
  msg_ref :: u32
  msg_bufs :: chain

record 'p rtmp_shared =
  sh_free :: chain
  sh_pool :: 'p
  sh_msgs :: "nat \<Rightarrow> rtmp_message option"
  sh_next :: nat

text \<open>\<open>ngx_rtmp_bandwidth_t\<close>; times are seconds.\<close>

record rtmp_bandwidth =
  bw_bytes :: u64
  bw_bandwidth :: u64
  bw_intl_end :: int
  bw_intl_bytes :: u64

text \<open>What a call of \<open>c->send\<close> does: it takes up to so many bytes, or it would block, or it fails.\<close>

datatype send_result = Sent nat | Send_again | Send_error

record ngx_connection =
  c_destroyed :: bool
  c_timedout :: bool
  c_arrivals :: "bytes list"
  c_wire :: bytes
  c_sends :: "send_result list"
  c_write_active :: bool
  c_write_timer :: bool
  c_event_ok :: bool

text \<open>
  \<open>ngx_rtmp_session_t\<close>: the fields of the message layer; \<open>s_world\<close> is what the modules above it keep.
  \<open>s_out_chain\<close> is a pointer into a message: its address and the number of the link.
\<close>

record ('w, 'p) rtmp_session =
  s_conf :: rtmp_conf
  s_conn :: ngx_connection
  s_shared :: "'p rtmp_shared"
  s_now :: int
  s_bw_in :: rtmp_bandwidth
  s_bw_out :: rtmp_bandwidth
  s_relay :: bool
  s_http :: bool
  s_buflen :: u32
  s_ack_size :: u32
  s_ping_active :: bool
  s_ping_reset :: bool
  s_ping_timer :: "nat option"
  s_server_changed :: bool
  s_in_streams :: "rtmp_stream list"
  s_in_csid :: nat
  s_in_chunk_size :: nat
  s_in_pool :: "'p option"
  s_in_old_pool :: "'p option"
  s_in_chunk_size_changing :: bool
  s_in_bytes :: u32
  s_in_last_ack :: u32
  s_out_bytes :: u32
  s_out_pos :: nat
  s_out_last :: nat
  s_out_chain :: "(nat \<times> nat) option"
  s_out_bpos :: nat
  s_out_buffer :: bool
  s_out_queue :: nat
  s_out_cork :: nat
  s_out :: "nat option list"
  s_world :: 'w

abbreviation upd_conn :: "(ngx_connection \<Rightarrow> ngx_connection) \<Rightarrow> ('w, 'p) rtmp_session \<Rightarrow> ('w, 'p) rtmp_session" where
  "upd_conn f s \<equiv> s\<lparr>s_conn := f (s_conn s)\<rparr>"

text \<open>
  \<open>ngx_rtmp_finalize_session\<close>: the connection is marked, and closing it is posted to the event loop.
\<close>

definition ngx_rtmp_finalize_session :: "('w, 'p) rtmp_session \<Rightarrow> ('w, 'p) rtmp_session" where
  "ngx_rtmp_finalize_session s =
     (if c_destroyed (s_conn s) then s else upd_conn (\<lambda>c. c\<lparr>c_destroyed := True\<rparr>) s)"

definition ngx_rtmp_update_bandwidth :: "int \<Rightarrow> rtmp_bandwidth \<Rightarrow> u32 \<Rightarrow> rtmp_bandwidth" where
  "ngx_rtmp_update_bandwidth now bw n =
     (let bw = (if now > bw_intl_end bw then
          bw\<lparr>bw_bandwidth := (if now > bw_intl_end bw + NGX_RTMP_BANDWIDTH_INTERVAL then 0
                else bw_intl_bytes bw div 10),
             bw_intl_bytes := 0,
             bw_intl_end := now + NGX_RTMP_BANDWIDTH_INTERVAL\<rparr>
        else bw)
      in bw\<lparr>bw_bytes := bw_bytes bw + ucast n, bw_intl_bytes := bw_intl_bytes bw + ucast n\<rparr>)"

text \<open>\<open>ngx_rtmp_reset_ping\<close>: wait for another \<open>ping\<close> milliseconds.\<close>

definition ngx_rtmp_reset_ping :: "('w, 'p) rtmp_session \<Rightarrow> ('w, 'p) rtmp_session" where
  "ngx_rtmp_reset_ping s =
     (if cf_ping (s_conf s) = 0 then s
      else s\<lparr>s_ping_active := False, s_ping_reset := False, s_ping_timer := Some (cf_ping (s_conf s))\<rparr>)"

text \<open>
  A run of C code that may go wrong in two ways the program does not report: it touches memory it must
  not touch, or (for a loop with fuel) it does not come to an end within the fuel.
\<close>

datatype 'a run = Fault | Out_of_fuel | Ret 'a

fun run_bind :: "'a run \<Rightarrow> ('a \<Rightarrow> 'b run) \<Rightarrow> 'b run" where
  "run_bind Fault f = Fault"
| "run_bind Out_of_fuel f = Out_of_fuel"
| "run_bind (Ret x) f = f x"

section \<open>Bytes put into a buffer\<close>

definition put_at :: "bytes \<Rightarrow> nat \<Rightarrow> bytes \<Rightarrow> bytes" where
  "put_at m p xs = take p m @ xs @ drop (p + length xs) m"

lemma length_put_at [simp]: "p + length xs \<le> length m \<Longrightarrow> length (put_at m p xs) = length m"
  by (simp add: put_at_def)

lemma put_at_Nil [simp]: "put_at m p [] = m"
  by (simp add: put_at_def)

lemma take_put_at [simp]: "p \<le> length m \<Longrightarrow> take (p + length xs) (put_at m p xs) = take p m @ xs"
  by (simp add: put_at_def)

lemma drop_put_at_eq [simp]: "p \<le> length m \<Longrightarrow> drop p (put_at m p xs) = xs @ drop (p + length xs) m"
  by (simp add: put_at_def)

text \<open>\<open>b->last = ngx_cpymem(b->last, xs, n)\<close>.\<close>

definition buf_write :: "buf \<Rightarrow> bytes \<Rightarrow> buf" where
  "buf_write b xs = b\<lparr>b_mem := put_at (b_mem b) (b_last b) xs, b_last := b_last b + length xs\<rparr>"

abbreviation buf_room :: "buf \<Rightarrow> nat" where
  "buf_room b \<equiv> length (b_mem b) - b_last b"

lemma buf_write_simps [simp]:
  "b_pos (buf_write b xs) = b_pos b" "b_last (buf_write b xs) = b_last b + length xs"
  "b_last b + length xs \<le> length (b_mem b) \<Longrightarrow> length (b_mem (buf_write b xs)) = length (b_mem b)"
  by (simp_all add: buf_write_def)

lemma buf_write_ok: "buf_ok b \<Longrightarrow> length xs \<le> buf_room b \<Longrightarrow> buf_ok (buf_write b xs)"
  by (auto simp: buf_ok_def buf_write_def put_at_def)

lemma buf_write_content [simp]:
  assumes "buf_ok b" "length xs \<le> buf_room b"
  shows "buf_content (buf_write b xs) = buf_content b @ xs"
proof -
  have "drop (b_pos b) (put_at (b_mem b) (b_last b) xs) =
      (drop (b_pos b) (take (b_last b) (b_mem b))) @ xs @ drop (b_last b + length xs) (b_mem b)"
    using assms by (simp add: put_at_def buf_ok_def)
  moreover have "take (b_last b + length xs - b_pos b)
      (drop (b_pos b) (take (b_last b) (b_mem b)) @ xs @ drop (b_last b + length xs) (b_mem b))
      = drop (b_pos b) (take (b_last b) (b_mem b)) @ xs"
    using assms by (simp add: buf_ok_def)
  ultimately show ?thesis
    using assms by (simp add: buf_content_def buf_write_def drop_take)
qed

end
