(* ===== verification/Rtmp_Shared.thy ===== *)
theory Rtmp_Shared
  imports Rtmp_Types
begin

text \<open>
  The shared output buffers (ngx\_rtmp\_shared.c): buffers with room for a chunk header in front of
  \<open>chunk_size\<close> bytes, taken from \<open>cscf->free\<close> or from the pool, filled from a chain by
  \<open>ngx_rtmp_append_shared_bufs\<close>, and counted references to the messages made of them.
\<close>

section \<open>Buffers\<close>

text \<open>16 and 80 are \<open>sizeof(ngx_chain_t)\<close> and \<open>sizeof(ngx_buf_t)\<close>; \<open>ngx_pcalloc\<close> clears the memory.\<close>

definition ngx_rtmp_alloc_shared_buf ::
    "'p pool_ops \<Rightarrow> rtmp_conf \<Rightarrow> 'p rtmp_shared \<Rightarrow> buf option \<times> 'p rtmp_shared" where
  "ngx_rtmp_alloc_shared_buf ops conf sh =
     (case sh_free sh of
        b # fs \<Rightarrow>
          (Some (b\<lparr>b_pos := NGX_RTMP_MAX_CHUNK_HEADER, b_last := NGX_RTMP_MAX_CHUNK_HEADER\<rparr>),
           sh\<lparr>sh_free := fs\<rparr>)
      | [] \<Rightarrow>
          let sz = cf_chunk_size conf + NGX_RTMP_MAX_CHUNK_HEADER
          in (case p_alloc ops (sh_pool sh) (NGX_RTMP_REFCOUNT_BYTES + 16 + 80 + sz) of
                None \<Rightarrow> (None, sh)
              | Some (p, _) \<Rightarrow>
                  (Some \<lparr>b_mem = replicate sz 0, b_pos = NGX_RTMP_MAX_CHUNK_HEADER,
                     b_last = NGX_RTMP_MAX_CHUNK_HEADER\<rparr>, sh\<lparr>sh_pool := p\<rparr>)))"

text \<open>A chain becomes a message: its first link has a reference count of 1 since it was allocated.\<close>

definition new_message :: "'p rtmp_shared \<Rightarrow> chain \<Rightarrow> nat \<times> 'p rtmp_shared" where
  "new_message sh cl =
     (sh_next sh, sh\<lparr>sh_msgs := (sh_msgs sh)(sh_next sh \<mapsto> \<lparr>msg_ref = 1, msg_bufs = cl\<rparr>),
        sh_next := sh_next sh + 1\<rparr>)"

definition ngx_rtmp_acquire_shared_chain :: "'p rtmp_shared \<Rightarrow> nat \<Rightarrow> 'p rtmp_shared run" where
  "ngx_rtmp_acquire_shared_chain sh m =
     (case sh_msgs sh m of
        None \<Rightarrow> Fault
      | Some msg \<Rightarrow> Ret (sh\<lparr>sh_msgs := (sh_msgs sh)(m \<mapsto> msg\<lparr>msg_ref := msg_ref msg + 1\<rparr>)\<rparr>))"

definition ngx_rtmp_free_shared_chain :: "'p rtmp_shared \<Rightarrow> nat \<Rightarrow> 'p rtmp_shared run" where
  "ngx_rtmp_free_shared_chain sh m =
     (case sh_msgs sh m of
        None \<Rightarrow> Fault
      | Some msg \<Rightarrow>
          if msg_ref msg - 1 \<noteq> 0
          then Ret (sh\<lparr>sh_msgs := (sh_msgs sh)(m \<mapsto> msg\<lparr>msg_ref := msg_ref msg - 1\<rparr>)\<rparr>)
          else Ret (sh\<lparr>sh_msgs := (sh_msgs sh)(m := None), sh_free := msg_bufs msg @ sh_free sh\<rparr>))"

text \<open>
  The inner loop of \<open>ngx_rtmp_append_shared_bufs\<close>: input buffers that fit are copied whole.  \<open>x\<close> is what
  is left of the current input buffer, and the result says what is left when one does not fit.
\<close>

fun copy_fitting :: "buf \<Rightarrow> bytes \<Rightarrow> chain \<Rightarrow> buf \<times> (bytes \<times> chain) option" where
  "copy_fitting l x inn =
     (if buf_room l \<ge> length x then
        (case inn of
           [] \<Rightarrow> (buf_write l x, None)
         | b # bs \<Rightarrow> copy_fitting (buf_write l x) (buf_content b) bs)
      else (l, Some (x, inn)))"

definition next_shared_buf ::
    "'p pool_ops \<Rightarrow> rtmp_conf \<Rightarrow> 'p rtmp_shared \<Rightarrow> chain \<Rightarrow> chain option \<times> 'p rtmp_shared" where
  "next_shared_buf ops conf sh out =
     (if out = [] \<or> b_last (last out) = length (b_mem (last out))
      then case ngx_rtmp_alloc_shared_buf ops conf sh of
          (None, sh) \<Rightarrow> (None, sh)
        | (Some b, sh) \<Rightarrow> (Some (out @ [b]), sh)
      else (Some out, sh))"

fun append_shared_loop ::
    "nat \<Rightarrow> 'p pool_ops \<Rightarrow> rtmp_conf \<Rightarrow> 'p rtmp_shared \<Rightarrow> chain \<Rightarrow> bytes \<Rightarrow> chain \<Rightarrow>
     (chain \<times> 'p rtmp_shared) run" where
  "append_shared_loop 0 ops conf sh out x inn = Out_of_fuel"
| "append_shared_loop (Suc k) ops conf sh out x inn =
     (case next_shared_buf ops conf sh out of
        (None, sh) \<Rightarrow> Ret (out, sh)
      | (Some out, sh) \<Rightarrow>
          (case copy_fitting (last out) x inn of
             (l, None) \<Rightarrow> Ret (butlast out @ [l], sh)
           | (l, Some (x, inn)) \<Rightarrow>
               append_shared_loop k ops conf sh
                 (butlast out @ [buf_write l (take (buf_room l) x)]) (drop (buf_room l) x) inn))"

text \<open>\<open>head\<close> may be empty (NULL); \<open>in\<close> is not.\<close>

definition ngx_rtmp_append_shared_bufs ::
    "nat \<Rightarrow> 'p pool_ops \<Rightarrow> rtmp_conf \<Rightarrow> 'p rtmp_shared \<Rightarrow> chain \<Rightarrow> chain \<Rightarrow> (chain \<times> 'p rtmp_shared) run" where
  "ngx_rtmp_append_shared_bufs fuel ops conf sh head inn =
     (case inn of
        [] \<Rightarrow> Fault
      | b # bs \<Rightarrow> append_shared_loop fuel ops conf sh head (buf_content b) bs)"

declare copy_fitting.simps [simp del]

section \<open>What the copy contains\<close>

text \<open>A shared buffer: room for a header, then at most a chunk.\<close>

definition shared_buf :: "nat \<Rightarrow> buf \<Rightarrow> bool" where
  "shared_buf cs b \<longleftrightarrow> b_pos b = NGX_RTMP_MAX_CHUNK_HEADER \<and> b_pos b \<le> b_last b \<and>
     b_last b \<le> length (b_mem b) \<and> length (b_mem b) = cs + NGX_RTMP_MAX_CHUNK_HEADER"

definition shared_mem_ok :: "nat \<Rightarrow> 'p rtmp_shared \<Rightarrow> bool" where
  "shared_mem_ok cs sh \<longleftrightarrow> (\<forall>b \<in> set (sh_free sh). length (b_mem b) = cs + NGX_RTMP_MAX_CHUNK_HEADER)"

abbreviation buf_full :: "buf \<Rightarrow> bool" where
  "buf_full b \<equiv> b_last b = length (b_mem b)"

text \<open>A chain as the chunk layer wants it: every buffer but the last holds a whole chunk.\<close>

definition chunked :: "nat \<Rightarrow> chain \<Rightarrow> bool" where
  "chunked cs cl \<longleftrightarrow> list_all (shared_buf cs) cl \<and> list_all buf_full (butlast cl)"

lemma shared_buf_ok: "shared_buf cs b \<Longrightarrow> buf_ok b"
  by (simp add: shared_buf_def buf_ok_def)

lemma shared_buf_write:
  "shared_buf cs b \<Longrightarrow> length xs \<le> buf_room b \<Longrightarrow> shared_buf cs (buf_write b xs)"
  by (auto simp: shared_buf_def buf_write_def)

lemma shared_buf_content_write:
  "shared_buf cs b \<Longrightarrow> length xs \<le> buf_room b \<Longrightarrow> buf_content (buf_write b xs) = buf_content b @ xs"
  by (simp add: shared_buf_ok)

lemma alloc_shared_buf:
  assumes "pool_total ops" "shared_mem_ok (cf_chunk_size conf) sh"
  obtains b sh' where "ngx_rtmp_alloc_shared_buf ops conf sh = (Some b, sh')"
    "shared_buf (cf_chunk_size conf) b" "buf_content b = []" "buf_room b = cf_chunk_size conf"
    "shared_mem_ok (cf_chunk_size conf) sh'" "sh_msgs sh' = sh_msgs sh" "sh_next sh' = sh_next sh"
proof (cases "sh_free sh")
  case Nil
  obtain p m where "p_alloc ops (sh_pool sh)
      (NGX_RTMP_REFCOUNT_BYTES + 16 + 80 + (cf_chunk_size conf + NGX_RTMP_MAX_CHUNK_HEADER)) = Some (p, m)"
    using assms(1) by (rule pool_totalE)
  with Nil assms(2) show thesis
    by (intro that [of "\<lparr>b_mem = replicate (cf_chunk_size conf + NGX_RTMP_MAX_CHUNK_HEADER) 0,
        b_pos = NGX_RTMP_MAX_CHUNK_HEADER, b_last = NGX_RTMP_MAX_CHUNK_HEADER\<rparr>" "sh\<lparr>sh_pool := p\<rparr>"]) (auto simp: ngx_rtmp_alloc_shared_buf_def shared_buf_def buf_content_def shared_mem_ok_def)
next
  case (Cons b fs)
  with assms(2) show thesis
    by (intro that [of "b\<lparr>b_pos := NGX_RTMP_MAX_CHUNK_HEADER, b_last := NGX_RTMP_MAX_CHUNK_HEADER\<rparr>"
        "sh\<lparr>sh_free := fs\<rparr>"]) (auto simp: ngx_rtmp_alloc_shared_buf_def shared_buf_def buf_content_def shared_mem_ok_def)
qed

lemma copy_fitting_spec:
  assumes "shared_buf cs l" "copy_fitting l x inn = (l', r)"
  shows "shared_buf cs l' \<and> buf_content l' @ (case r of None \<Rightarrow> [] | Some (y, bs) \<Rightarrow> y @ flat bs) =
      buf_content l @ x @ flat inn \<and>
    (case r of None \<Rightarrow> True | Some (y, bs) \<Rightarrow> buf_room l' < length y)"
  using assms
proof (induction inn arbitrary: l x)
  case Nil
  then show ?case
    by (subst (asm) copy_fitting.simps)
       (auto simp: shared_buf_write shared_buf_content_write split: if_splits)
next
  case (Cons b bs)
  show ?case
  proof (cases "length x \<le> buf_room l")
    case True
    with Cons.prems have "copy_fitting (buf_write l x) (buf_content b) bs = (l', r)"
      by (subst (asm) copy_fitting.simps) simp
    from Cons.IH [OF shared_buf_write [OF Cons.prems(1) True] this] show ?thesis
      by (simp add: shared_buf_content_write [OF Cons.prems(1) True])
  next
    case False
    with Cons.prems show ?thesis
      by (subst (asm) copy_fitting.simps) auto
  qed
qed

lemma chunked_snoc:
  "chunked cs (cl @ [b]) \<longleftrightarrow> list_all (shared_buf cs) cl \<and> list_all buf_full cl \<and> shared_buf cs b"
  by (auto simp: chunked_def)

lemma append_shared_step:
  assumes "pool_total ops" "shared_mem_ok (cf_chunk_size conf) sh" "0 < cf_chunk_size conf"
    and "chunked (cf_chunk_size conf) out"
  obtains cl l sh' where
    "next_shared_buf ops conf sh out = (Some (cl @ [l]), sh')"
    "flat (cl @ [l]) = flat out" "chunked (cf_chunk_size conf) (cl @ [l])" "0 < buf_room l"
    "shared_mem_ok (cf_chunk_size conf) sh'" "sh_msgs sh' = sh_msgs sh" "sh_next sh' = sh_next sh"
    "shared_buf (cf_chunk_size conf) l"
proof (cases "out = [] \<or> buf_full (last out)")
  case True
  obtain b sh' where b: "ngx_rtmp_alloc_shared_buf ops conf sh = (Some b, sh')"
    "shared_buf (cf_chunk_size conf) b" "buf_content b = []" "buf_room b = cf_chunk_size conf"
    "shared_mem_ok (cf_chunk_size conf) sh'" "sh_msgs sh' = sh_msgs sh" "sh_next sh' = sh_next sh"
    using assms(1,2) by (rule alloc_shared_buf)
  have "list_all buf_full out"
    using True assms(4) by (cases out rule: rev_cases) (auto simp: chunked_def)
  then have "chunked (cf_chunk_size conf) (out @ [b])"
    using assms(4) b(2) by (auto simp: chunked_snoc chunked_def)
  with b True assms(3) show thesis by (intro that [of out b sh']) (auto simp: next_shared_buf_def)
next
  case False
  then obtain cl l where out: "out = cl @ [l]" by (cases out rule: rev_cases) auto
  with False assms(4) have l: "shared_buf (cf_chunk_size conf) l" by (simp add: chunked_snoc)
  with out False have "0 < buf_room l" by (auto simp: shared_buf_def)
  with out False assms(2,4) l show thesis by (intro that [of cl l sh]) (auto simp: next_shared_buf_def)
qed

lemma append_shared_loop_spec:
  assumes "pool_total ops" "0 < cf_chunk_size conf" "length x + length (flat inn) < fuel"
    "shared_mem_ok (cf_chunk_size conf) sh" "chunked (cf_chunk_size conf) out"
  shows "\<exists>out' sh'. append_shared_loop fuel ops conf sh out x inn = Ret (out', sh') \<and> out' \<noteq> [] \<and>
    flat out' = flat out @ x @ flat inn \<and> chunked (cf_chunk_size conf) out' \<and>
    shared_mem_ok (cf_chunk_size conf) sh' \<and> sh_msgs sh' = sh_msgs sh \<and> sh_next sh' = sh_next sh"
  using assms(3-5)
proof (induction fuel arbitrary: out x inn sh)
  case (Suc k)
  obtain cl l sh' where step:
    "next_shared_buf ops conf sh out = (Some (cl @ [l]), sh')"
    and flat: "flat (cl @ [l]) = flat out" and ch: "chunked (cf_chunk_size conf) (cl @ [l])"
    and room: "0 < buf_room l" and mem: "shared_mem_ok (cf_chunk_size conf) sh'"
    and sh': "sh_msgs sh' = sh_msgs sh" "sh_next sh' = sh_next sh" and l: "shared_buf (cf_chunk_size conf) l"
    using append_shared_step [OF assms(1) Suc.prems(2) assms(2) Suc.prems(3)] by metis
  obtain l' r where copy: "copy_fitting l x inn = (l', r)" by (metis surj_pair)
  note c = copy_fitting_spec [OF l copy]
  show ?case
  proof (cases r)
    case None
    have "flat (cl @ [l']) = flat out @ x @ flat inn"
      using c flat None by simp
    moreover have "chunked (cf_chunk_size conf) (cl @ [l'])"
      using ch c by (simp add: chunked_snoc)
    ultimately show ?thesis
      using mem sh' by (simp add: step copy None)
  next
    case (Some q)
    then obtain y bs where q: "r = Some (y, bs)" by (cases q) auto
    with c have l': "shared_buf (cf_chunk_size conf) l'" "buf_content l' @ y @ flat bs = buf_content l @ x @ flat inn"
      "buf_room l' < length y" by auto
    let ?b = "buf_write l' (take (buf_room l') y)"
    have b: "shared_buf (cf_chunk_size conf) ?b" "buf_content ?b = buf_content l' @ take (buf_room l') y"
      "buf_full ?b"
      using l' by (simp_all add: shared_buf_write shared_buf_content_write) (auto simp: shared_buf_def buf_write_def)
    have ch': "chunked (cf_chunk_size conf) (cl @ [?b])" using ch b(1) by (simp add: chunked_snoc)
    have len: "length (buf_content l') + length y + length (flat bs) =
        length (buf_content l) + length x + length (flat inn)"
      using arg_cong [OF l'(2), of length] by simp
    have "length (buf_content ?b) = cf_chunk_size conf"
      using b(1,3) by (auto simp: shared_buf_def buf_ok_def)
    moreover have "length (buf_content l) < cf_chunk_size conf"
      using l room by (auto simp: shared_buf_def buf_ok_def)
    ultimately have less: "length (drop (buf_room l') y) + length (flat bs) < length x + length (flat inn)"
      using len b(2) l'(3) by simp
    have "length (drop (buf_room l') y) + length (flat bs) < k" using less Suc.prems(1) by simp
    from Suc.IH [OF this mem ch'] obtain out' sh2 where
      out': "append_shared_loop k ops conf sh' (cl @ [?b]) (drop (buf_room l') y) bs = Ret (out', sh2)" "out' \<noteq> []"
      "flat out' = flat (cl @ [?b]) @ drop (buf_room l') y @ flat bs" "chunked (cf_chunk_size conf) out'"
      "shared_mem_ok (cf_chunk_size conf) sh2" "sh_msgs sh2 = sh_msgs sh'" "sh_next sh2 = sh_next sh'"
      by blast
    have "flat (cl @ [?b]) @ drop (buf_room l') y @ flat bs = flat cl @ buf_content l' @ y @ flat bs"
      using append_take_drop_id [of "buf_room l'" y] b(2) by (metis append.assoc append_Nil2 flat_Cons flat_Nil flat_append)
    also have "\<dots> = flat out @ x @ flat inn"
      using flat l'(2) by (simp flip: append_assoc)
    finally have "flat out' = flat out @ x @ flat inn" using out'(3) by simp
    moreover have "append_shared_loop (Suc k) ops conf sh out x inn = Ret (out', sh2)"
      using out'(1) by (simp add: step copy q)
    ultimately show ?thesis
      using out'(2,4-7) sh' by (intro exI [of _ out'] exI [of _ sh2]) (simp del: append_shared_loop.simps)
  qed
qed simp

text \<open>
  C36: \<open>ngx_rtmp_append_shared_bufs\<close> puts the bytes of a chain behind those of a message, in buffers of
  which every one but the last is filled with a whole chunk, and it comes to an end.
\<close>

theorem append_shared_bufs_spec:
  assumes "pool_total ops" "0 < cf_chunk_size conf" "shared_mem_ok (cf_chunk_size conf) sh"
    and "chunked (cf_chunk_size conf) out" "inn \<noteq> []" "length (flat inn) < fuel"
  shows "\<exists>out' sh'. ngx_rtmp_append_shared_bufs fuel ops conf sh out inn = Ret (out', sh') \<and>
    flat out' = flat out @ flat inn \<and> chunked (cf_chunk_size conf) out' \<and>
    shared_mem_ok (cf_chunk_size conf) sh' \<and> sh_msgs sh' = sh_msgs sh"
proof -
  obtain b bs where inn: "inn = b # bs" using assms(5) by (cases inn) auto
  have "length (buf_content b) + length (flat bs) < fuel" using assms(6) inn by simp
  from append_shared_loop_spec [OF assms(1,2) this assms(3,4)] show ?thesis
    by (auto simp: ngx_rtmp_append_shared_bufs_def inn)
qed

definition small_conf :: rtmp_conf where
  "small_conf = \<lparr>cf_ping = 0, cf_ping_timeout = 0, cf_max_streams = 8, cf_chunk_size = 4, cf_max_message = 1000,
     cf_play_time_fix = True, cf_publish_time_fix = True, cf_busy = False\<rparr>"

definition empty_shared :: "unit rtmp_shared" where
  "empty_shared = \<lparr>sh_free = [], sh_pool = (), sh_msgs = Map.empty, sh_next = 0\<rparr>"

theorem append_shared_bufs_spec_witness:
  "\<exists>out sh. ngx_rtmp_append_shared_bufs 10 unit_pool small_conf empty_shared []
     [\<lparr>b_mem = [1, 2, 3, 4, 5, 6], b_pos = 0, b_last = 6\<rparr>] = Ret (out, sh) \<and>
   flat out = [1, 2, 3, 4, 5, 6] \<and> chunked 4 out"
  using append_shared_bufs_spec [of unit_pool small_conf empty_shared "[]"
      "[\<lparr>b_mem = [1, 2, 3, 4, 5, 6], b_pos = 0, b_last = 6\<rparr>]" 10]
  by (auto simp: small_conf_def empty_shared_def shared_mem_ok_def chunked_def buf_content_def)

end
