(* ===== verification/Rtmp_Chunk.thy ===== *)
theory Rtmp_Chunk
  imports Rtmp_Shared
begin

text \<open>
  Chunk headers (ngx\_rtmp\_handler.c): \<open>ngx_rtmp_prepare_message\<close>, which puts them in front of the
  buffers of a message, and the part of \<open>ngx_rtmp_recv\<close> that parses them.  The main lemma says that the
  parser reads what the writer wrote, in each of the four formats, with and without extended time stamp.
\<close>

section \<open>Writing\<close>

definition be3 :: "u32 \<Rightarrow> bytes" where
  "be3 v = [ucast (drop_bit 16 v), ucast (drop_bit 8 v), ucast v]"

definition be4 :: "u32 \<Rightarrow> bytes" where
  "be4 v = [ucast (drop_bit 24 v), ucast (drop_bit 16 v), ucast (drop_bit 8 v), ucast v]"

definition le4 :: "u32 \<Rightarrow> bytes" where
  "le4 v = [ucast v, ucast (drop_bit 8 v), ucast (drop_bit 16 v), ucast (drop_bit 24 v)]"

definition hdrsize :: "nat list" where
  "hdrsize = [12, 8, 4, 1]"

definition basic_header :: "nat \<Rightarrow> u32 \<Rightarrow> bytes" where
  "basic_header fmt csid =
     (let p = push_bit 6 (word_of_nat fmt :: byte)
      in if csid \<ge> 2 \<and> csid \<le> 63 then [p OR (ucast csid AND 0x3f)]
         else if csid \<ge> 64 \<and> csid < 320 then [p, ucast (csid - 64)]
         else [p OR 1, ucast (csid - 64), ucast (drop_bit 8 (csid - 64))])"

definition message_header :: "nat \<Rightarrow> u32 \<Rightarrow> u32 \<Rightarrow> rtmp_header \<Rightarrow> bytes" where
  "message_header fmt timestamp mlen h =
     (if fmt \<le> 2 then be3 timestamp @
        (if fmt \<le> 1 then be3 mlen @ [mh_type h] @ (if fmt = 0 then le4 (mh_msid h) else []) else [])
      else [])"

text \<open>The format and the time stamp field, from the header of the message before on the same stream.\<close>

definition chunk_fmt :: "rtmp_header \<Rightarrow> rtmp_header option \<Rightarrow> u32 \<Rightarrow> nat \<times> u32" where
  "chunk_fmt h lh mlen =
     (case lh of
        None \<Rightarrow> (0, mh_timestamp h)
      | Some lh \<Rightarrow>
          if mh_csid lh \<noteq> 0 \<and> mh_msid h = mh_msid lh then
            (if mh_type h = mh_type lh \<and> mlen \<noteq> 0 \<and> mlen = mh_mlen lh
             then (if mh_timestamp h = mh_timestamp lh then 3 else 2) else 1,
             mh_timestamp h - mh_timestamp lh)
          else (0, mh_timestamp h))"

text \<open>\<open>pos -= n\<close>, and \<open>xs\<close> written from there on.\<close>

definition buf_prepend :: "buf \<Rightarrow> nat \<Rightarrow> bytes \<Rightarrow> buf run" where
  "buf_prepend b n xs =
     (if b_pos b < n \<or> b_pos b - n + length xs > length (b_mem b) then Fault
      else Ret (b\<lparr>b_pos := b_pos b - n, b_mem := put_at (b_mem b) (b_pos b - n) xs\<rparr>))"

fun prepend_all :: "bytes \<Rightarrow> chain \<Rightarrow> chain run" where
  "prepend_all th [] = Ret []"
| "prepend_all th (b # bs) =
     run_bind (buf_prepend b (length th) th) (\<lambda>b. run_bind (prepend_all th bs) (\<lambda>bs. Ret (b # bs)))"

definition ngx_rtmp_prepare_message ::
    "('w, 'p) rtmp_session \<Rightarrow> rtmp_header \<Rightarrow> rtmp_header option \<Rightarrow> chain \<Rightarrow>
     (chain \<times> ('w, 'p) rtmp_session) run" where
  "ngx_rtmp_prepare_message s h lh out =
     (if unat (mh_csid h) \<ge> cf_max_streams (s_conf s) then Ret (out, ngx_rtmp_finalize_session s)
      else case out of
        [] \<Rightarrow> Fault
      | b # bs \<Rightarrow>
          let mlen = word_of_nat (sum_list (map (\<lambda>b. b_last b - b_pos b) out));
              (fmt, timestamp) = chunk_fmt h lh mlen;
              ext = timestamp \<ge> 0x00ffffff;
              ext_timestamp = timestamp;
              timestamp = (if ext then 0x00ffffff else timestamp);
              hsize = hdrsize ! fmt + (if ext then 4 else 0) +
                (if mh_csid h \<ge> 64 then if mh_csid h \<ge> 320 then 2 else 1 else 0);
              basic = basic_header fmt (mh_csid h);
              th = (hd basic OR 0xc0) # tl basic @
                (if ext \<and> cf_play_time_fix (s_conf s) then be4 ext_timestamp else []);
              hdr = basic @ message_header fmt timestamp mlen h @ (if ext then be4 ext_timestamp else [])
          in run_bind (buf_prepend b hsize hdr) (\<lambda>b.
             run_bind (prepend_all th bs) (\<lambda>bs. Ret (b # bs, s))))"

section \<open>Reading\<close>

definition of_be3 :: "bytes \<Rightarrow> u32" where
  "of_be3 p = push_bit 16 (ucast (p ! 0)) OR push_bit 8 (ucast (p ! 1)) OR ucast (p ! 2)"

definition of_be4 :: "bytes \<Rightarrow> u32" where
  "of_be4 p = push_bit 24 (ucast (p ! 0)) OR push_bit 16 (ucast (p ! 1)) OR
     push_bit 8 (ucast (p ! 2)) OR ucast (p ! 3)"

definition of_le4 :: "bytes \<Rightarrow> u32" where
  "of_le4 p = ucast (p ! 0) OR push_bit 8 (ucast (p ! 1)) OR push_bit 16 (ucast (p ! 2)) OR
     push_bit 24 (ucast (p ! 3))"

text \<open>
  The basic header: \<open>None\<close> when it is not all there yet.  The code looks at the first byte without
  asking whether there is one, but it never gets here without.
\<close>

definition parse_basic :: "bytes \<Rightarrow> (nat \<times> u32 \<times> bytes) option" where
  "parse_basic p =
     (case p of
        [] \<Rightarrow> None
      | c # p \<Rightarrow>
          let fmt = unat (drop_bit 6 c AND 0x03); csid = (ucast (c AND 0x3f) :: u32)
          in if csid = 0 then
               (if length p < 1 then None else Some (fmt, 64 + ucast (p ! 0), drop 1 p))
             else if csid = 1 then
               (if length p < 2 then None else Some (fmt, 64 + ucast (p ! 0) + 256 * ucast (p ! 1), drop 2 p))
             else Some (fmt, csid, p))"

text \<open>
  The extended time stamp, and what the header means for the stream.  The fields of the header are
  written as they are read, so an incomplete header has already changed some of them.
\<close>

definition parse_ext :: "bool \<Rightarrow> nat \<Rightarrow> rtmp_stream \<Rightarrow> bool \<Rightarrow> u32 \<Rightarrow> bytes \<Rightarrow> rtmp_stream \<times> bytes option" where
  "parse_ext fix fmt st ext timestamp p =
     (if ext \<and> length p < 4 then (st, None)
      else
        let timestamp = (if ext then of_be4 p else timestamp);
            p = (if ext then drop 4 p else p);
            st = (if st_len st = 0 then
                    (if fmt \<noteq> 0 then st\<lparr>st_ext := ext \<and> fix, st_dtime := timestamp\<rparr>
                     else st\<lparr>st_ext := ext \<and> fix, st_hdr := (st_hdr st)\<lparr>mh_timestamp := timestamp\<rparr>,
                       st_dtime := 0\<rparr>)
                  else st)
        in (st, Some p))"

definition parse_mheader :: "bool \<Rightarrow> nat \<Rightarrow> rtmp_stream \<Rightarrow> bytes \<Rightarrow> rtmp_stream \<times> bytes option" where
  "parse_mheader fix fmt st p =
     (if fmt \<le> 2 then
        if length p < 3 then (st, None)
        else
          let timestamp = of_be3 p; p = drop 3 p; ext = (timestamp = 0x00ffffff)
          in if fmt \<le> 1 then
               if length p < 4 then (st, None)
               else
                 let st = st\<lparr>st_hdr := (st_hdr st)\<lparr>mh_mlen := of_be3 p, mh_type := p ! 3\<rparr>\<rparr>; p = drop 4 p
                 in if fmt = 0 then
                      if length p < 4 then (st, None)
                      else
                        let st = st\<lparr>st_hdr := (st_hdr st)\<lparr>mh_msid := of_le4 p\<rparr>\<rparr>; p = drop 4 p
                        in parse_ext fix fmt st ext timestamp p
                    else parse_ext fix fmt st ext timestamp p
             else parse_ext fix fmt st ext timestamp p
      else parse_ext fix fmt st (st_ext st) (st_dtime st) p)"

section \<open>Fields\<close>

lemma byte_parts_bit:
  fixes v :: u32
  shows "bit (push_bit k (ucast (ucast (drop_bit k v) :: byte)) :: u32) n \<longleftrightarrow> k \<le> n \<and> n < k + 8 \<and> bit v n"
  by (auto simp: bit_push_bit_iff bit_ucast_iff bit_drop_bit_eq dest: bit_imp_le_length)

lemma u32_bytes:
  fixes v :: u32
  shows "push_bit 24 (ucast (ucast (drop_bit 24 v) :: byte)) OR push_bit 16 (ucast (ucast (drop_bit 16 v) :: byte)) OR
    push_bit 8 (ucast (ucast (drop_bit 8 v) :: byte)) OR ucast (ucast v :: byte) = v"
    (is "?w = v")
proof (intro bit_word_eqI)
  fix n assume "n < LENGTH(32)"
  then consider "n < 8" | "8 \<le> n" "n < 16" | "16 \<le> n" "n < 24" | "24 \<le> n" "n < 32" by fastforce
  then show "bit ?w n \<longleftrightarrow> bit v n"
    using byte_parts_bit [of 0 v n] by cases (simp_all add: bit_or_iff byte_parts_bit)
qed

lemma of_be4_be4 [simp]: "of_be4 (be4 v @ p) = v"
  using u32_bytes [of v] by (simp add: of_be4_def be4_def)

lemma of_le4_le4 [simp]: "of_le4 (le4 v @ p) = v"
  using u32_bytes [of v] by (simp add: of_le4_def le4_def or.assoc or.commute or.left_commute)

lemma of_be3_be3 [simp]:
  assumes "v < 0x1000000"
  shows "of_be3 (be3 v @ p) = v"
proof -
  have "unat v < 2 ^ 24" using assms by (simp add: word_less_nat_alt)
  then have "drop_bit 24 v = 0"
    by (simp add: word_unat_eq_iff unat_drop_bit)
  then show ?thesis using u32_bytes [of v] by (simp add: of_be3_def be3_def)
qed

lemma length_fields [simp]: "length (be3 v) = 3" "length (be4 v) = 4" "length (le4 v) = 4"
  by (simp_all add: be3_def be4_def le4_def)

lemma byte_fmt_parts:
  fixes c :: byte
  assumes "fmt < 4"
  shows "unat (drop_bit 6 (push_bit 6 (word_of_nat fmt) OR (c AND 0x3f)) AND 0x03) = fmt"
    "(push_bit 6 (word_of_nat fmt) OR (c AND 0x3f)) AND 0x3f = c AND 0x3f"
proof -
  have m: "(0x3f :: byte) = mask 6" "(0x03 :: byte) = mask 2" by (simp_all add: mask_eq_exp_minus_1)
  have fmt: "fmt = 0 \<or> fmt = 1 \<or> fmt = 2 \<or> fmt = 3" using assms by auto
  have "drop_bit 6 (push_bit 6 (word_of_nat fmt) OR (c AND 0x3f)) AND 0x03 = (word_of_nat fmt AND mask 2 :: byte)"
    unfolding m
    by (intro bit_word_eqI)
       (auto simp: bit_simps dest: bit_imp_le_length)
  moreover have "unat (word_of_nat fmt AND mask 2 :: byte) = fmt"
    using fmt by (auto simp: unat_and_mask)
  ultimately show "unat (drop_bit 6 (push_bit 6 (word_of_nat fmt) OR (c AND 0x3f)) AND 0x03) = fmt" by simp
  show "(push_bit 6 (word_of_nat fmt) OR (c AND 0x3f)) AND 0x3f = c AND 0x3f"
    unfolding m by (intro bit_word_eqI) (auto simp: bit_simps)
qed

lemma byte_fmt_one:
  assumes "fmt < 4"
  shows "unat (drop_bit 6 (push_bit 6 (word_of_nat fmt :: byte)) AND 0x03) = fmt"
    "push_bit 6 (word_of_nat fmt :: byte) AND 0x3f = 0"
    "unat (drop_bit 6 (push_bit 6 (word_of_nat fmt :: byte) OR 1) AND 0x03) = fmt"
    "(push_bit 6 (word_of_nat fmt :: byte) OR 1) AND 0x3f = 1"
  using byte_fmt_parts [OF assms, of 0] byte_fmt_parts [OF assms, of 1] by simp_all

lemma parse_basic_header:
  assumes "2 \<le> csid" "csid < 65600" "fmt < 4"
  shows "parse_basic (basic_header fmt csid @ p) = Some (fmt, csid, p)"
proof -
  have un: "2 \<le> unat csid" "unat csid < 65600" using assms(1,2) by (simp_all add: word_le_nat_alt word_less_nat_alt)
  consider "csid \<le> 63" | "64 \<le> csid" "csid < 320" | "320 \<le> csid"
    by (fastforce simp: word_le_nat_alt word_less_nat_alt)
  then show ?thesis
  proof cases
    case 1
    then have "unat csid \<le> 63" by (simp add: word_le_nat_alt)
    then have low: "unat (ucast (ucast csid AND (0x3f :: byte)) :: u32) = unat csid"
      using un by (simp add: byte_simps)
    then have c: "ucast (ucast csid AND (0x3f :: byte)) = csid" by (simp only: word_unat_eq_iff)
    then have "csid \<noteq> 0" "csid \<noteq> 1" using un by auto
    with 1 assms c show ?thesis
      by (simp add: parse_basic_def basic_header_def Let_def byte_fmt_parts byte_fmt_one)
  next
    case 2
    then have u: "64 \<le> unat csid" "unat csid < 320" by (simp_all add: word_le_nat_alt word_less_nat_alt)
    then have sub: "unat (csid - 64) = unat csid - 64" by (simp add: unat_sub_if')
    then have "unat (64 + ucast (ucast (csid - 64) :: byte) :: u32) = unat csid"
      using u by (simp add: unat_word_ariths byte_simps)
    then have "64 + ucast (ucast (csid - 64) :: byte) = csid" by (simp only: word_unat_eq_iff)
    with 2 assms show ?thesis
      using u by (simp add: parse_basic_def basic_header_def Let_def byte_fmt_one word_le_nat_alt)
  next
    case 3
    then have u: "320 \<le> unat csid" by (simp add: word_le_nat_alt)
    then have sub: "unat (csid - 64) = unat csid - 64" by (simp add: unat_sub_if')
    have "unat (256 * ucast (ucast (drop_bit 8 (csid - 64)) :: byte) :: u32) = (unat csid - 64) div 256 * 256"
      using u un(2) by (simp add: unat_word_ariths byte_simps sub)
    then have "unat (64 + ucast (ucast (csid - 64) :: byte) + 256 * ucast (ucast (drop_bit 8 (csid - 64)) :: byte) :: u32)
        = 64 + (unat csid - 64) mod 256 + (unat csid - 64) div 256 * 256"
      using u un(2) by (simp add: unat_word_ariths byte_simps sub del: mod_mult_self1)
    also have "\<dots> = unat csid" using u by presburger
    finally have "64 + ucast (ucast (csid - 64) :: byte) + 256 * ucast (ucast (drop_bit 8 (csid - 64)) :: byte) = csid"
      by (simp only: word_unat_eq_iff)
    moreover have "\<not> csid \<le> 63" "\<not> csid < 320" using u by (simp_all add: word_le_nat_alt word_less_nat_alt)
    ultimately show ?thesis
      using assms by (simp add: parse_basic_def basic_header_def Let_def byte_fmt_one)
  qed
qed

lemma basic_header_fmt3:
  assumes "fmt < 4"
  shows "(hd (basic_header fmt csid) OR 0xc0) # tl (basic_header fmt csid) = basic_header 3 csid"
proof -
  have "fmt = 0 \<or> fmt = 1 \<or> fmt = 2 \<or> fmt = 3" using assms by auto
  then have 1: "push_bit 6 (word_of_nat fmt :: byte) OR 0xc0 = push_bit 6 (word_of_nat 3)"
    by (elim disjE) simp_all
  have 2: "(push_bit 6 (word_of_nat fmt :: byte) OR x) OR 0xc0 = push_bit 6 (word_of_nat 3) OR x" for x
    by (simp only: or.assoc or.commute [of x] 1 [symmetric])
  show ?thesis using 1 2 by (simp add: basic_header_def Let_def)
qed

text \<open>The stream after a header has been read, when a new message begins.\<close>

definition after_header :: "bool \<Rightarrow> nat \<Rightarrow> rtmp_stream \<Rightarrow> rtmp_header \<Rightarrow> u32 \<Rightarrow> u32 \<Rightarrow> rtmp_stream" where
  "after_header fix fmt st h mlen ts =
     (let ext = (if fmt \<le> 2 then ts \<ge> 0x00ffffff else st_ext st);
          hdr = (if fmt \<le> 1 then (st_hdr st)\<lparr>mh_mlen := mlen, mh_type := mh_type h\<rparr> else st_hdr st);
          hdr = (if fmt = 0 then hdr\<lparr>mh_msid := mh_msid h, mh_timestamp := ts\<rparr> else hdr)
      in st\<lparr>st_hdr := hdr, st_ext := ext \<and> fix,
           st_dtime := (if fmt = 0 then 0 else if fmt \<le> 2 then ts else st_dtime st)\<rparr>)"

lemma parse_message_header:
  assumes "st_len st = 0" "mlen < 0x1000000" "fmt < 4" "fmt = 3 \<Longrightarrow> \<not> st_ext st"
  shows "parse_mheader fix fmt st (message_header fmt (if ts \<ge> 0x00ffffff then 0x00ffffff else ts) mlen h @
      (if fmt \<le> 2 \<and> ts \<ge> 0x00ffffff then be4 ts else []) @ p) =
    (after_header fix fmt st h mlen ts, Some p)"
proof -
  have lt: "(if ts \<ge> 0x00ffffff then 0x00ffffff else ts) < (0x1000000 :: u32)"
    by (simp add: word_le_nat_alt word_less_nat_alt)
  have eq: "((if ts \<ge> 0x00ffffff then 0x00ffffff else ts) = (0x00ffffff :: u32)) \<longleftrightarrow> ts \<ge> 0x00ffffff"
    by auto
  have ne: "ts \<noteq> 0x00ffffff" if "\<not> ts \<ge> 0x00ffffff" using that by auto
  have mlen: "of_be3 (be3 mlen @ q) = mlen" for q using assms(2) by simp
  consider "fmt = 0" | "fmt = 1" | "fmt = 2" | "fmt = 3" using assms(3) by fastforce
  then show ?thesis
  proof cases
    case 1
    then show ?thesis
      using assms(1) of_be3_be3 [OF lt] mlen ne
      by (cases "ts \<ge> 0x00ffffff")
         (simp_all add: parse_mheader_def message_header_def parse_ext_def after_header_def Let_def nth_append)
  next
    case 2
    then show ?thesis
      using assms(1) of_be3_be3 [OF lt] mlen ne
      by (cases "ts \<ge> 0x00ffffff")
         (simp_all add: parse_mheader_def message_header_def parse_ext_def after_header_def Let_def nth_append)
  next
    case 3
    then show ?thesis
      using assms(1) of_be3_be3 [OF lt] ne
      by (cases "ts \<ge> 0x00ffffff")
         (simp_all add: parse_mheader_def message_header_def parse_ext_def after_header_def Let_def)
  next
    case 4
    then show ?thesis
      using assms(1,4) by (simp add: parse_mheader_def message_header_def parse_ext_def after_header_def Let_def)
  qed
qed

section \<open>The bytes of a prepared message\<close>

lemma buf_prepend_content:
  assumes "buf_ok b" "length xs \<le> b_pos b"
  obtains b' where "buf_prepend b (length xs) xs = Ret b'" "buf_content b' = xs @ buf_content b" "buf_ok b'"
    "b_last b' = b_last b" "length (b_mem b') = length (b_mem b)"
proof -
  let ?b = "b\<lparr>b_pos := b_pos b - length xs, b_mem := put_at (b_mem b) (b_pos b - length xs) xs\<rparr>"
  have le: "b_pos b \<le> b_last b" "b_last b \<le> length (b_mem b)" using assms(1) by (simp_all add: buf_ok_def)
  have "buf_content ?b = take (b_last b - (b_pos b - length xs)) (xs @ drop (b_pos b) (b_mem b))"
    using assms(2) le by (simp add: buf_content_def)
  also have "\<dots> = xs @ take (b_last b - b_pos b) (drop (b_pos b) (b_mem b))"
    using assms(2) le by simp
  finally have "buf_content ?b = xs @ buf_content b" by (simp add: buf_content_def)
  moreover have "buf_prepend b (length xs) xs = Ret ?b"
    using assms(2) le by (simp add: buf_prepend_def)
  moreover have "buf_ok ?b" using assms(2) le by (simp add: buf_ok_def)
  moreover have "length (b_mem ?b) = length (b_mem b)" using assms(2) le by simp
  ultimately show thesis by (intro that [of ?b]) simp_all
qed

lemma prepend_all_content:
  assumes "list_all (\<lambda>b. buf_ok b \<and> length th \<le> b_pos b) bs"
  shows "\<exists>bs'. prepend_all th bs = Ret bs' \<and> map buf_content bs' = map (\<lambda>b. th @ buf_content b) bs \<and> chain_ok bs'"
  using assms
proof (induction bs)
  case (Cons b bs)
  then obtain b' where b': "buf_prepend b (length th) th = Ret b'" "buf_content b' = th @ buf_content b" "buf_ok b'"
    using buf_prepend_content [of b th] by auto
  from Cons obtain bs' where "prepend_all th bs = Ret bs'" "map buf_content bs' = map (\<lambda>b. th @ buf_content b) bs"
    "chain_ok bs'" by auto
  with b' show ?case by simp
qed simp

lemma length_basic_header:
  "2 \<le> csid \<Longrightarrow> length (basic_header fmt csid) = (if csid \<ge> 64 then if csid \<ge> 320 then 3 else 2 else 1)"
  by (auto simp: basic_header_def Let_def word_le_nat_alt word_less_nat_alt)

lemma basic_header_nonempty: "basic_header fmt csid \<noteq> []"
  by (simp add: basic_header_def Let_def)

lemma chunk_fmt_less: "fst (chunk_fmt h lh mlen) < 4"
  by (simp add: chunk_fmt_def split: option.split)

lemma length_message_header: "fmt < 4 \<Longrightarrow> length (message_header fmt ts mlen h) = hdrsize ! fmt - 1"
  by (auto simp: message_header_def hdrsize_def less_Suc_eq eval_nat_numeral be3_def le4_def)

text \<open>The pieces of a message on the wire: the first one with a full header, the others with a short one.\<close>

definition chunk_ext :: "u32 \<Rightarrow> bytes" where
  "chunk_ext ts = (if ts \<ge> 0x00ffffff then be4 ts else [])"

definition first_chunk :: "nat \<Rightarrow> u32 \<Rightarrow> u32 \<Rightarrow> rtmp_header \<Rightarrow> bytes" where
  "first_chunk fmt ts mlen h = basic_header fmt (mh_csid h) @
     message_header fmt (if ts \<ge> 0x00ffffff then 0x00ffffff else ts) mlen h @ chunk_ext ts"

definition next_chunk :: "bool \<Rightarrow> u32 \<Rightarrow> u32 \<Rightarrow> bytes" where
  "next_chunk fix csid ts = basic_header 3 csid @ (if fix then chunk_ext ts else [])"

definition wire_chunks :: "bool \<Rightarrow> rtmp_header \<Rightarrow> rtmp_header option \<Rightarrow> bytes list \<Rightarrow> bytes list" where
  "wire_chunks fix h lh xs =
     (let mlen = word_of_nat (length (concat xs)); (fmt, ts) = chunk_fmt h lh mlen
      in case xs of [] \<Rightarrow> []
         | x # xs \<Rightarrow> (first_chunk fmt ts mlen h @ x) # map (\<lambda>y. next_chunk fix (mh_csid h) ts @ y) xs)"

lemma sum_content_lengths:
  "chain_ok cl \<Longrightarrow> sum_list (map (\<lambda>b. b_last b - b_pos b) cl) = length (concat (map buf_content cl))"
  by (induction cl) auto

lemma prepare_message_wire:
  assumes "unat (mh_csid h) < cf_max_streams (s_conf s)" "2 \<le> mh_csid h" "out \<noteq> []"
    and ok: "list_all (\<lambda>b. buf_ok b \<and> 18 \<le> b_pos b) out"
  shows "\<exists>out'. ngx_rtmp_prepare_message s h lh out = Ret (out', s) \<and> chain_ok out' \<and>
    map buf_content out' = wire_chunks (cf_play_time_fix (s_conf s)) h lh (map buf_content out)"
proof -
  obtain b bs where out: "out = b # bs" using assms(3) by (cases out) auto
  define mlen :: u32 where "mlen = word_of_nat (sum_list (map (\<lambda>b. b_last b - b_pos b) (b # bs)))"
  have cok: "chain_ok out" using ok by (auto simp: list_all_iff)
  obtain fmt ts where f: "chunk_fmt h lh mlen = (fmt, ts)" by (metis surj_pair)
  have fmt: "fmt < 4" using chunk_fmt_less [of h lh mlen] f by simp
  let ?hdr = "first_chunk fmt ts mlen h"
  let ?th = "next_chunk (cf_play_time_fix (s_conf s)) (mh_csid h) ts"
  have bl: "length (basic_header k (mh_csid h)) \<le> 3" for k
    using length_basic_header [OF assms(2), of k] by auto
  have fmt_cases: "fmt = 0 \<or> fmt = 1 \<or> fmt = 2 \<or> fmt = 3" using fmt by auto
  have hs: "length ?hdr = hdrsize ! fmt + (if ts \<ge> 0x00ffffff then 4 else 0) +
      (if mh_csid h \<ge> 64 then if mh_csid h \<ge> 320 then 2 else 1 else 0)"
    using fmt_cases length_message_header [OF fmt, of "if ts \<ge> 0x00ffffff then 0x00ffffff else ts" mlen h]
    by (auto simp: first_chunk_def length_basic_header [OF assms(2)] chunk_ext_def hdrsize_def)
  have "length ?hdr \<le> 18"
    unfolding hs using fmt_cases by (auto simp: hdrsize_def)
  moreover have "buf_ok b" "18 \<le> b_pos b" using ok out by auto
  ultimately obtain b' where b': "buf_prepend b (length ?hdr) ?hdr = Ret b'"
    "buf_content b' = ?hdr @ buf_content b" "buf_ok b'"
    using buf_prepend_content [of b ?hdr] by auto
  have "length ?th \<le> 7" using bl [of 3] by (simp add: next_chunk_def chunk_ext_def)
  then have "list_all (\<lambda>b. buf_ok b \<and> length ?th \<le> b_pos b) bs" using ok out by (auto simp: list_all_iff)
  from prepend_all_content [OF this] obtain bs' where bs': "prepend_all ?th bs = Ret bs'"
    "map buf_content bs' = map (\<lambda>b. ?th @ buf_content b) bs" "chain_ok bs'" by auto
  have th: "(hd (basic_header fmt (mh_csid h)) OR 0xc0) # tl (basic_header fmt (mh_csid h)) @
      (if ts \<ge> 0x00ffffff \<and> cf_play_time_fix (s_conf s) then be4 ts else []) = ?th"
    using basic_header_fmt3 [OF fmt, of "mh_csid h"]
    by (auto simp: next_chunk_def chunk_ext_def simp flip: append_Cons)
  have hdr: "basic_header fmt (mh_csid h) @ message_header fmt (if ts \<ge> 0x00ffffff then 0x00ffffff else ts) mlen h @
      (if ts \<ge> 0x00ffffff then be4 ts else []) = ?hdr"
    by (simp add: first_chunk_def chunk_ext_def)
  have n: "\<not> cf_max_streams (s_conf s) \<le> unat (mh_csid h)" using assms(1) by simp
  have "ngx_rtmp_prepare_message s h lh out = Ret (b' # bs', s)"
    unfolding ngx_rtmp_prepare_message_def out
    by (simp only: n if_False list.case mlen_def [symmetric] f Let_def case_prod_conv th hdr hs [symmetric] b'(1)
        bs'(1) run_bind.simps)
  moreover have m: "word_of_nat (length (concat (map buf_content out))) = mlen"
    unfolding mlen_def out [symmetric] sum_content_lengths [OF cok] ..
  have "wire_chunks (cf_play_time_fix (s_conf s)) h lh (map buf_content out) = map buf_content (b' # bs')"
    unfolding wire_chunks_def m Let_def f by (simp add: out b'(2) bs'(2) o_def)
  ultimately show ?thesis using b' bs' by auto
qed

end
