(* ===== verification/Rtmp_Out.thy ===== *)
theory Rtmp_Out
  imports Rtmp_Chunk
begin

text \<open>
  The output side of a session (ngx\_rtmp\_handler.c, ngx\_rtmp\_send.c): the ring \<open>s->out\<close> of messages
  waiting to be written, the write handler \<open>ngx_rtmp_send\<close>, and the control messages.  \<open>env_dry\<close> is what
  the events posted for an empty ring do (\<open>ngx_event_process_posted\<close>, nginx core and the modules above),
  \<open>env_create_pool\<close> is what \<open>ngx_create_pool\<close> returns.
\<close>

record ('w, 'p) rtmp_env =
  env_pool :: "'p pool_ops"
  env_create_pool :: "'p option"
  env_dry :: "('w, 'p) rtmp_session \<Rightarrow> ('w, 'p) rtmp_session"

section \<open>Writing\<close>

definition msg_chain :: "('w, 'p) rtmp_session \<Rightarrow> nat \<Rightarrow> chain option" where
  "msg_chain s m = map_option msg_bufs (sh_msgs (s_shared s) m)"

text \<open>The next link of a chain, \<open>s->out_chain->next\<close>, and \<open>s->out_bpos\<close> at its start.\<close>

definition out_begin :: "('w, 'p) rtmp_session \<Rightarrow> nat \<Rightarrow> nat \<Rightarrow> ('w, 'p) rtmp_session run" where
  "out_begin s m i =
     (case msg_chain s m of
        None \<Rightarrow> Fault
      | Some cl \<Rightarrow>
          if i < length cl then Ret (s\<lparr>s_out_chain := Some (m, i), s_out_bpos := b_pos (cl ! i)\<rparr>) else Fault)"

text \<open>The message at \<open>s->out_pos\<close> becomes the current one.\<close>

definition out_first :: "('w, 'p) rtmp_session \<Rightarrow> ('w, 'p) rtmp_session run" where
  "out_first s =
     (if s_out_pos s < length (s_out s)
      then case s_out s ! s_out_pos s of None \<Rightarrow> Fault | Some m \<Rightarrow> out_begin s m 0
      else Fault)"

text \<open>A link is written: the next one, or the end of the message, which is given up.\<close>

definition out_next :: "('w, 'p) rtmp_session \<Rightarrow> nat \<Rightarrow> nat \<Rightarrow> chain \<Rightarrow> ('w, 'p) rtmp_session run" where
  "out_next s m i cl =
     (if i + 1 < length cl then out_begin s m (i + 1)
      else case s_out s ! s_out_pos s of
        None \<Rightarrow> Fault
      | Some m' \<Rightarrow>
          run_bind (ngx_rtmp_free_shared_chain (s_shared s) m') (\<lambda>sh.
            let s = s\<lparr>s_shared := sh, s_out_chain := None,
                      s_out_pos := (s_out_pos s + 1) mod s_out_queue s\<rparr>
            in if s_out_pos s = s_out_last s then Ret s else out_first s))"

definition send_blocked :: "('w, 'p) rtmp_session \<Rightarrow> ('w, 'p) rtmp_session" where
  "send_blocked s =
     (let s = upd_conn (\<lambda>c. c\<lparr>c_write_timer := True\<rparr>) s
      in if c_event_ok (s_conn s) then upd_conn (\<lambda>c. c\<lparr>c_write_active := True\<rparr>) s
         else ngx_rtmp_finalize_session s)"

definition send_done :: "('w, 'p) rtmp_env \<Rightarrow> ('w, 'p) rtmp_session \<Rightarrow> ('w, 'p) rtmp_session" where
  "send_done env s =
     (let s = (if c_write_active (s_conn s) then upd_conn (\<lambda>c. c\<lparr>c_write_active := False\<rparr>) s else s)
      in env_dry env s)"

text \<open>\<open>k\<close> bytes from \<open>s->out_bpos\<close> on have been taken by the socket.\<close>

definition sent_bytes :: "('w, 'p) rtmp_session \<Rightarrow> buf \<Rightarrow> nat \<Rightarrow> ('w, 'p) rtmp_session" where
  "sent_bytes s b k =
     (upd_conn (\<lambda>c. c\<lparr>c_wire := c_wire c @ take k (drop (s_out_bpos s) (b_mem b))\<rparr>) s)
       \<lparr>s_out_bytes := s_out_bytes s + word_of_nat k, s_ping_reset := True,
        s_bw_out := ngx_rtmp_update_bandwidth (s_now s) (s_bw_out s) (word_of_nat k),
        s_out_bpos := s_out_bpos s + k\<rparr>"

fun send_loop :: "('w, 'p) rtmp_env \<Rightarrow> send_result list \<Rightarrow> ('w, 'p) rtmp_session \<Rightarrow> ('w, 'p) rtmp_session run" where
  "send_loop env sends s =
     (case s_out_chain s of
        None \<Rightarrow> Ret (send_done env (upd_conn (\<lambda>c. c\<lparr>c_sends := sends\<rparr>) s))
      | Some (m, i) \<Rightarrow>
          (case msg_chain s m of
             None \<Rightarrow> Fault
           | Some cl \<Rightarrow>
               (case sends of
                  [] \<Rightarrow> Ret (send_blocked (upd_conn (\<lambda>c. c\<lparr>c_sends := []\<rparr>) s))
                | Send_again # sends \<Rightarrow> Ret (send_blocked (upd_conn (\<lambda>c. c\<lparr>c_sends := sends\<rparr>) s))
                | Send_error # sends \<Rightarrow>
                    Ret (ngx_rtmp_finalize_session (upd_conn (\<lambda>c. c\<lparr>c_sends := sends\<rparr>) s))
                | Sent n # sends \<Rightarrow>
                    let b = cl ! i; k = min n (b_last b - s_out_bpos s)
                    in if k = 0 then Ret (send_blocked (upd_conn (\<lambda>c. c\<lparr>c_sends := sends\<rparr>) s))
                       else
                         let s = sent_bytes s b k
                         in (case (if s_out_bpos s = b_last b then out_next s m i cl else Ret s) of
                               Ret s \<Rightarrow> send_loop env sends s
                             | Fault \<Rightarrow> Fault
                             | Out_of_fuel \<Rightarrow> Out_of_fuel))))"

declare send_loop.simps [simp del]

text \<open>The write handler; the first argument says whether the write timer ran out.\<close>

definition ngx_rtmp_send :: "('w, 'p) rtmp_env \<Rightarrow> bool \<Rightarrow> ('w, 'p) rtmp_session \<Rightarrow> ('w, 'p) rtmp_session run" where
  "ngx_rtmp_send env timedout s =
     (if c_destroyed (s_conn s) then Ret s
      else if timedout then Ret (ngx_rtmp_finalize_session (upd_conn (\<lambda>c. c\<lparr>c_timedout := True\<rparr>) s))
      else
        let s = upd_conn (\<lambda>c. c\<lparr>c_write_timer := False\<rparr>) s
        in run_bind (if s_out_chain s = None \<and> s_out_pos s \<noteq> s_out_last s then out_first s else Ret s)
             (\<lambda>s. send_loop env (c_sends (s_conn s)) s))"

section \<open>Queueing\<close>

definition ngx_rtmp_send_message ::
    "('w, 'p) rtmp_env \<Rightarrow> ('w, 'p) rtmp_session \<Rightarrow> nat \<Rightarrow> nat \<Rightarrow> (ngx_rc \<times> ('w, 'p) rtmp_session) run" where
  "ngx_rtmp_send_message env s m priority =
     (let nmsg = (s_out_last s + s_out_queue s - s_out_pos s) mod s_out_queue s + 1;
          priority = min priority 3
      in if nmsg + priority * s_out_queue s div 4 \<ge> s_out_queue s then Ret (NGX_AGAIN, s)
         else
           let s = s\<lparr>s_out := (s_out s)[s_out_last s := Some m],
                     s_out_last := (s_out_last s + 1) mod s_out_queue s\<rparr>
           in run_bind (ngx_rtmp_acquire_shared_chain (s_shared s) m) (\<lambda>sh.
                let s = s\<lparr>s_shared := sh\<rparr>
                in if priority \<noteq> 0 \<and> s_out_buffer s \<and> nmsg < s_out_cork s then Ret (NGX_OK, s)
                   else if \<not> c_write_active (s_conn s)
                   then run_bind (ngx_rtmp_send env False s) (\<lambda>s. Ret (NGX_OK, s))
                   else Ret (NGX_OK, s)))"

definition ngx_rtmp_send_shared_packet ::
    "('w, 'p) rtmp_env \<Rightarrow> ('w, 'p) rtmp_session \<Rightarrow> nat option \<Rightarrow> (ngx_rc \<times> ('w, 'p) rtmp_session) run" where
  "ngx_rtmp_send_shared_packet env s cl =
     (case cl of
        None \<Rightarrow> Ret (NGX_ERROR, s)
      | Some m \<Rightarrow>
          if \<not> s_relay s \<and> s_http s
          then run_bind (ngx_rtmp_free_shared_chain (s_shared s) m) (\<lambda>sh. Ret (NGX_OK, s\<lparr>s_shared := sh\<rparr>))
          else run_bind (ngx_rtmp_send_message env s m 0) (\<lambda>(rc, s).
            run_bind (ngx_rtmp_free_shared_chain (s_shared s) m) (\<lambda>sh. Ret (rc, s\<lparr>s_shared := sh\<rparr>))))"

section \<open>Control messages\<close>

text \<open>
  The macros \<open>NGX_RTMP_USER_START\<close>, \<open>OUT1\<close>, \<open>OUT4\<close> and \<open>NGX_RTMP_USER_END\<close>: a buffer, the bytes, the
  chunk header.  The bytes are written without asking whether they fit.
\<close>

definition user_message ::
    "('w, 'p) rtmp_env \<Rightarrow> ('w, 'p) rtmp_session \<Rightarrow> byte \<Rightarrow> bytes \<Rightarrow> (nat option \<times> ('w, 'p) rtmp_session) run" where
  "user_message env s type xs =
     (case ngx_rtmp_alloc_shared_buf (env_pool env) (s_conf s) (s_shared s) of
        (None, sh) \<Rightarrow> Ret (None, s\<lparr>s_shared := sh\<rparr>)
      | (Some b, sh) \<Rightarrow>
          if buf_room b < length xs then Fault
          else run_bind
            (ngx_rtmp_prepare_message (s\<lparr>s_shared := sh\<rparr>) (zero_mh\<lparr>mh_type := type, mh_csid := 2\<rparr>) None
              [buf_write b xs]) (\<lambda>(out, s).
            case new_message (s_shared s) out of (m, sh) \<Rightarrow> Ret (Some m, s\<lparr>s_shared := sh\<rparr>)))"

text \<open>\<open>NGX_RTMP_UCTL_START\<close> puts the event in front.\<close>

definition be2 :: "u16 \<Rightarrow> bytes" where
  "be2 v = [ucast (drop_bit 8 v), ucast v]"

definition uctl_message ::
    "('w, 'p) rtmp_env \<Rightarrow> ('w, 'p) rtmp_session \<Rightarrow> byte \<Rightarrow> u16 \<Rightarrow> bytes \<Rightarrow> (nat option \<times> ('w, 'p) rtmp_session) run" where
  "uctl_message env s type utype xs = user_message env s type (be2 utype @ xs)"

abbreviation send_created ::
    "('w, 'p) rtmp_env \<Rightarrow> (nat option \<times> ('w, 'p) rtmp_session) run \<Rightarrow> (ngx_rc \<times> ('w, 'p) rtmp_session) run" where
  "send_created env r \<equiv> run_bind r (\<lambda>(cl, s). ngx_rtmp_send_shared_packet env s cl)"

definition ngx_rtmp_create_chunk_size where
  "ngx_rtmp_create_chunk_size env s chunk_size = user_message env s NGX_RTMP_MSG_CHUNK_SIZE (be4 chunk_size)"

definition ngx_rtmp_send_chunk_size where
  "ngx_rtmp_send_chunk_size env s chunk_size = send_created env (ngx_rtmp_create_chunk_size env s chunk_size)"

definition ngx_rtmp_create_abort where
  "ngx_rtmp_create_abort env s csid = user_message env s NGX_RTMP_MSG_ABORT (be4 csid)"

definition ngx_rtmp_send_abort where
  "ngx_rtmp_send_abort env s csid = send_created env (ngx_rtmp_create_abort env s csid)"

definition ngx_rtmp_create_ack where
  "ngx_rtmp_create_ack env s sq = user_message env s NGX_RTMP_MSG_ACK (be4 sq)"

definition ngx_rtmp_send_ack where
  "ngx_rtmp_send_ack env s sq = send_created env (ngx_rtmp_create_ack env s sq)"

definition ngx_rtmp_create_ack_size where
  "ngx_rtmp_create_ack_size env s ack_size = user_message env s NGX_RTMP_MSG_ACK_SIZE (be4 ack_size)"

definition ngx_rtmp_send_ack_size where
  "ngx_rtmp_send_ack_size env s ack_size = send_created env (ngx_rtmp_create_ack_size env s ack_size)"

definition ngx_rtmp_create_bandwidth where
  "ngx_rtmp_create_bandwidth env s ack_size limit_type =
     user_message env s NGX_RTMP_MSG_BANDWIDTH (be4 ack_size @ [limit_type])"

definition ngx_rtmp_send_bandwidth where
  "ngx_rtmp_send_bandwidth env s ack_size limit_type =
     send_created env (ngx_rtmp_create_bandwidth env s ack_size limit_type)"

definition ngx_rtmp_create_stream_begin where
  "ngx_rtmp_create_stream_begin env s msid =
     uctl_message env s NGX_RTMP_MSG_USER NGX_RTMP_USER_STREAM_BEGIN (be4 msid)"

definition ngx_rtmp_send_stream_begin where
  "ngx_rtmp_send_stream_begin env s msid = send_created env (ngx_rtmp_create_stream_begin env s msid)"

definition ngx_rtmp_create_stream_eof where
  "ngx_rtmp_create_stream_eof env s msid =
     uctl_message env s NGX_RTMP_MSG_USER NGX_RTMP_USER_STREAM_EOF (be4 msid)"

definition ngx_rtmp_send_stream_eof where
  "ngx_rtmp_send_stream_eof env s msid = send_created env (ngx_rtmp_create_stream_eof env s msid)"

definition ngx_rtmp_create_stream_dry where
  "ngx_rtmp_create_stream_dry env s msid =
     uctl_message env s NGX_RTMP_MSG_USER NGX_RTMP_USER_STREAM_DRY (be4 msid)"

definition ngx_rtmp_send_stream_dry where
  "ngx_rtmp_send_stream_dry env s msid = send_created env (ngx_rtmp_create_stream_dry env s msid)"

definition ngx_rtmp_create_set_buflen where
  "ngx_rtmp_create_set_buflen env s msid buflen_msec =
     uctl_message env s NGX_RTMP_MSG_USER NGX_RTMP_USER_SET_BUFLEN (be4 msid @ be4 buflen_msec)"

definition ngx_rtmp_send_set_buflen where
  "ngx_rtmp_send_set_buflen env s msid buflen_msec =
     send_created env (ngx_rtmp_create_set_buflen env s msid buflen_msec)"

definition ngx_rtmp_create_recorded where
  "ngx_rtmp_create_recorded env s msid =
     uctl_message env s NGX_RTMP_MSG_USER NGX_RTMP_USER_RECORDED (be4 msid)"

definition ngx_rtmp_send_recorded where
  "ngx_rtmp_send_recorded env s msid = send_created env (ngx_rtmp_create_recorded env s msid)"

definition ngx_rtmp_create_ping_request where
  "ngx_rtmp_create_ping_request env s timestamp =
     uctl_message env s NGX_RTMP_MSG_USER NGX_RTMP_USER_PING_REQUEST (be4 timestamp)"

definition ngx_rtmp_send_ping_request where
  "ngx_rtmp_send_ping_request env s timestamp = send_created env (ngx_rtmp_create_ping_request env s timestamp)"

definition ngx_rtmp_create_ping_response where
  "ngx_rtmp_create_ping_response env s timestamp =
     uctl_message env s NGX_RTMP_MSG_USER NGX_RTMP_USER_PING_RESPONSE (be4 timestamp)"

definition ngx_rtmp_send_ping_response where
  "ngx_rtmp_send_ping_response env s timestamp = send_created env (ngx_rtmp_create_ping_response env s timestamp)"

text \<open>\<open>ngx_rtmp_ping\<close>, the handler of the ping timer; \<open>now\<close> is \<open>ngx_current_msec\<close>.\<close>

definition ngx_rtmp_ping :: "('w, 'p) rtmp_env \<Rightarrow> u32 \<Rightarrow> ('w, 'p) rtmp_session \<Rightarrow> ('w, 'p) rtmp_session run" where
  "ngx_rtmp_ping env now s =
     (let s = s\<lparr>s_ping_timer := None\<rparr>
      in if s_ping_reset s then Ret (ngx_rtmp_reset_ping s)
         else if s_ping_active s then Ret (ngx_rtmp_finalize_session s)
         else if cf_busy (s_conf s) then Ret (ngx_rtmp_finalize_session s)
         else run_bind (ngx_rtmp_send_ping_request env s now) (\<lambda>(rc, s).
           if rc \<noteq> NGX_OK then Ret (ngx_rtmp_finalize_session s)
           else Ret (s\<lparr>s_ping_active := True, s_ping_timer := Some (cf_ping_timeout (s_conf s))\<rparr>)))"

end
