(* ===== verification/Rtmp_Recv.thy ===== *)
theory Rtmp_Recv
  imports Rtmp_Out
begin

text \<open>
  The input side of a session (ngx\_rtmp\_handler.c): \<open>ngx_rtmp_recv\<close> reads chunks into the buffers of
  their chunk streams and hands complete messages to the handlers of their type
  (\<open>ngx_rtmp_receive_message\<close>), and \<open>ngx_rtmp_set_chunk_size\<close> moves the buffers to a new pool.

  The handlers are elements of a type \<open>'h\<close>, \<open>ev\<close> is the event table \<open>cmcf->events\<close> and \<open>call\<close> runs a
  handler.  While a handler runs, the ring of the stream is taken apart; the model leaves the stream
  without buffers then, which \<open>ngx_rtmp_set_chunk_size\<close>, the only one to look, treats in the same way.
\<close>

type_synonym ('h, 'w, 'p) rtmp_call =
  "'h \<Rightarrow> ('w, 'p) rtmp_session \<Rightarrow> rtmp_header \<Rightarrow> chain \<Rightarrow> (ngx_rc \<times> ('w, 'p) rtmp_session) run"

section \<open>Handlers\<close>

fun rtmp_handlers ::
    "('h, 'w, 'p) rtmp_call \<Rightarrow> 'h list \<Rightarrow> ('w, 'p) rtmp_session \<Rightarrow> rtmp_header \<Rightarrow> chain \<Rightarrow>
     (ngx_rc \<times> ('w, 'p) rtmp_session) run" where
  "rtmp_handlers call [] s h inn = Ret (NGX_OK, s)"
| "rtmp_handlers call (f # fs) s h inn =
     run_bind (call f s h inn) (\<lambda>(rc, s).
       if rc = NGX_ERROR then Ret (NGX_ERROR, s)
       else if rc = NGX_DONE then Ret (NGX_OK, s)
       else rtmp_handlers call fs s h inn)"

definition ngx_rtmp_receive_message ::
    "(byte \<Rightarrow> 'h list) \<Rightarrow> ('h, 'w, 'p) rtmp_call \<Rightarrow> ('w, 'p) rtmp_session \<Rightarrow> rtmp_header \<Rightarrow> chain \<Rightarrow>
     (ngx_rc \<times> ('w, 'p) rtmp_session) run" where
  "ngx_rtmp_receive_message ev call s h inn =
     (if mh_type h > NGX_RTMP_MSG_MAX then Ret (NGX_OK, s)
      else rtmp_handlers call (ev (mh_type h)) s h inn)"

section \<open>Input buffers\<close>

definition upd_stream ::
    "nat \<Rightarrow> (rtmp_stream \<Rightarrow> rtmp_stream) \<Rightarrow> ('w, 'p) rtmp_session \<Rightarrow> ('w, 'p) rtmp_session" where
  "upd_stream n f s = s\<lparr>s_in_streams := (s_in_streams s)[n := f (s_in_streams s ! n)]\<rparr>"

definition ngx_rtmp_alloc_in_buf ::
    "('w, 'p) rtmp_env \<Rightarrow> ('w, 'p) rtmp_session \<Rightarrow> (buf option \<times> ('w, 'p) rtmp_session) run" where
  "ngx_rtmp_alloc_in_buf env s =
     (case s_in_pool s of
        None \<Rightarrow> Fault
      | Some p \<Rightarrow>
          (case p_link (env_pool env) p of
             None \<Rightarrow> Ret (None, s)
           | Some p \<Rightarrow>
               (case p_alloc (env_pool env) p 80 of
                  None \<Rightarrow> Ret (None, s\<lparr>s_in_pool := Some p\<rparr>)
                | Some (p, _) \<Rightarrow>
                    (case p_alloc (env_pool env) p (s_in_chunk_size s + NGX_RTMP_MAX_CHUNK_HEADER) of
                       None \<Rightarrow> Ret (None, s\<lparr>s_in_pool := Some p\<rparr>)
                     | Some (p, m) \<Rightarrow>
                         Ret (Some \<lparr>b_mem = m, b_pos = 0, b_last = 0\<rparr>, s\<lparr>s_in_pool := Some p\<rparr>)))))"

text \<open>The copying loop for one stream; \<open>out\<close> are the new buffers, \<open>None\<close> says that memory ran out.\<close>

fun copy_ring_loop ::
    "nat \<Rightarrow> ('w, 'p) rtmp_env \<Rightarrow> ('w, 'p) rtmp_session \<Rightarrow> chain \<Rightarrow> bytes \<Rightarrow> chain \<Rightarrow>
     (chain option \<times> ('w, 'p) rtmp_session) run" where
  "copy_ring_loop 0 env s out x inn = Out_of_fuel"
| "copy_ring_loop (Suc k) env s out x inn =
     (case copy_fitting (last out) x inn of
        (l, None) \<Rightarrow> Ret (Some (butlast out @ [l]), s)
      | (l, Some (x, inn)) \<Rightarrow>
          run_bind (ngx_rtmp_alloc_in_buf env s) (\<lambda>(b, s).
            case b of
              None \<Rightarrow> Ret (None, s)
            | Some b \<Rightarrow>
                copy_ring_loop k env s (butlast out @ [buf_write l (take (buf_room l) x), b])
                  (drop (buf_room l) x) inn))"

definition copy_ring ::
    "('w, 'p) rtmp_env \<Rightarrow> ('w, 'p) rtmp_session \<Rightarrow> chain \<Rightarrow> (chain option \<times> ('w, 'p) rtmp_session) run" where
  "copy_ring env s li =
     (case li of
        [] \<Rightarrow> Ret (Some [], s)
      | b # bs \<Rightarrow>
          run_bind (ngx_rtmp_alloc_in_buf env s) (\<lambda>(lo, s).
            case lo of
              None \<Rightarrow> Ret (None, s)
            | Some lo \<Rightarrow> copy_ring_loop (length (flat li) + 1) env s [lo] (buf_content b) bs))"

text \<open>The loop over the streams from number \<open>n\<close> on; the result says whether there was memory.\<close>

fun copy_streams ::
    "('w, 'p) rtmp_env \<Rightarrow> nat list \<Rightarrow> ('w, 'p) rtmp_session \<Rightarrow> (bool \<times> ('w, 'p) rtmp_session) run" where
  "copy_streams env [] s = Ret (True, s)"
| "copy_streams env (n # ns) s =
     (if n \<ge> length (s_in_streams s) then Fault
      else run_bind (copy_ring env s (st_in (s_in_streams s ! n))) (\<lambda>(cl, s).
        case cl of
          None \<Rightarrow> Ret (False, s)
        | Some cl \<Rightarrow> copy_streams env ns (upd_stream n (\<lambda>st. st\<lparr>st_in := cl\<rparr>) s)))"

definition ngx_rtmp_set_chunk_size ::
    "('w, 'p) rtmp_env \<Rightarrow> ('w, 'p) rtmp_session \<Rightarrow> nat \<Rightarrow> (ngx_rc \<times> ('w, 'p) rtmp_session) run" where
  "ngx_rtmp_set_chunk_size env s sz =
     (if sz > NGX_RTMP_MAX_CHUNK_SIZE then Ret (NGX_ERROR, s)
      else
        let s = s\<lparr>s_in_old_pool := s_in_pool s, s_in_chunk_size := sz, s_in_pool := env_create_pool env\<rparr>
        in if s_in_old_pool s = None then Ret (NGX_OK, s)
           else
             let s = upd_stream 0 (\<lambda>st. st\<lparr>st_in := []\<rparr>) (s\<lparr>s_in_chunk_size_changing := True\<rparr>)
             in run_bind (copy_streams env [1..<cf_max_streams (s_conf s)] s) (\<lambda>(ok, s).
                  Ret (if ok then NGX_OK else NGX_ERROR, s)))"

definition ngx_rtmp_finalize_set_chunk_size :: "('w, 'p) rtmp_session \<Rightarrow> ('w, 'p) rtmp_session" where
  "ngx_rtmp_finalize_set_chunk_size s =
     (if s_in_chunk_size_changing s \<and> s_in_old_pool s \<noteq> None
      then s\<lparr>s_in_old_pool := None, s_in_chunk_size_changing := False\<rparr> else s)"

section \<open>One turn of the read loop\<close>

abbreviation cur_stream :: "('w, 'p) rtmp_session \<Rightarrow> rtmp_stream" where
  "cur_stream s \<equiv> s_in_streams s ! s_in_csid s"

text \<open>The buffer \<open>st->in\<close>: the first of stream 0, the last of the ring of any other stream.\<close>

definition cur_buf :: "('w, 'p) rtmp_session \<Rightarrow> buf" where
  "cur_buf s = (if s_in_csid s = 0 then hd (st_in (cur_stream s)) else last (st_in (cur_stream s)))"

definition set_cur_buf :: "buf \<Rightarrow> ('w, 'p) rtmp_session \<Rightarrow> ('w, 'p) rtmp_session" where
  "set_cur_buf b s =
     upd_stream (s_in_csid s) (\<lambda>st. st\<lparr>st_in :=
       (if s_in_csid s = 0 then b # tl (st_in st) else butlast (st_in st) @ [b])\<rparr>) s"

text \<open>Reading from the socket; the result says whether the loop goes on.\<close>

definition count_in :: "('w, 'p) rtmp_session \<Rightarrow> nat \<Rightarrow> ('w, 'p) rtmp_session" where
  "count_in s n =
     (let s = s\<lparr>s_ping_reset := True,
                s_bw_in := ngx_rtmp_update_bandwidth (s_now s) (s_bw_in s) (word_of_nat n),
                s_in_bytes := s_in_bytes s + word_of_nat n\<rparr>
      in if s_in_bytes s \<ge> 0xf0000000 then s\<lparr>s_in_bytes := 0, s_in_last_ack := 0\<rparr> else s)"

definition recv_ack :: "('w, 'p) rtmp_env \<Rightarrow> ('w, 'p) rtmp_session \<Rightarrow> (bool \<times> ('w, 'p) rtmp_session) run" where
  "recv_ack env s =
     (if s_ack_size s \<noteq> 0 \<and> s_in_bytes s - s_in_last_ack s \<ge> s_ack_size s
      then run_bind (ngx_rtmp_send_ack env (s\<lparr>s_in_last_ack := s_in_bytes s\<rparr>) (s_in_bytes s)) (\<lambda>(rc, s).
        if rc \<noteq> NGX_OK then Ret (False, ngx_rtmp_finalize_session s) else Ret (True, s))
      else Ret (True, s))"

definition recv_socket :: "('w, 'p) rtmp_env \<Rightarrow> ('w, 'p) rtmp_session \<Rightarrow> (bool \<times> ('w, 'p) rtmp_session) run" where
  "recv_socket env s =
     (let b = cur_buf s
      in case c_arrivals (s_conn s) of
           [] \<Rightarrow> Ret (False, if c_event_ok (s_conn s) then s else ngx_rtmp_finalize_session s)
         | seg # segs \<Rightarrow>
             let d = take (buf_room b) seg;
                 segs = (if length seg \<le> buf_room b then segs else drop (buf_room b) seg # segs)
             in if d = [] then Ret (False, ngx_rtmp_finalize_session s)
                else recv_ack env (count_in (set_cur_buf (buf_write b d)
                       (upd_conn (\<lambda>c. c\<lparr>c_arrivals := segs\<rparr>) s)) (length d)))"

text \<open>A buffer for the stream when it has none.\<close>

definition recv_in_buf :: "('w, 'p) rtmp_env \<Rightarrow> ('w, 'p) rtmp_session \<Rightarrow> (bool \<times> ('w, 'p) rtmp_session) run" where
  "recv_in_buf env s =
     (if st_in (cur_stream s) = []
      then run_bind (ngx_rtmp_alloc_in_buf env s) (\<lambda>(b, s).
        case b of
          None \<Rightarrow> Ret (False, ngx_rtmp_finalize_session s)
        | Some b \<Rightarrow> Ret (True, upd_stream (s_in_csid s) (\<lambda>st. st\<lparr>st_in := [b]\<rparr>) s))
      else Ret (True, s))"

text \<open>
  The first part of the loop body.  \<open>old\<close> is \<open>None\<close> when \<open>old_pos\<close> is NULL and otherwise the \<open>old_size\<close>
  bytes at \<open>old_pos\<close>, which go into the next buffer without asking whether they fit.
\<close>

definition recv_fill ::
    "('w, 'p) rtmp_env \<Rightarrow> ('w, 'p) rtmp_session \<Rightarrow> bytes option \<Rightarrow> (bool \<times> ('w, 'p) rtmp_session) run" where
  "recv_fill env s old =
     (if s_in_csid s \<ge> length (s_in_streams s) then Fault
      else run_bind (recv_in_buf env s) (\<lambda>(go, s).
        if \<not> go then Ret (False, s)
        else
          let b = cur_buf s
          in case old of
               None \<Rightarrow> recv_socket env s
             | Some [] \<Rightarrow> recv_socket env (set_cur_buf (b\<lparr>b_pos := 0, b_last := 0\<rparr>) s)
             | Some (x # xs) \<Rightarrow>
                 if length (x # xs) > length (b_mem b) then Fault
                 else
                   let s = set_cur_buf (buf_write (b\<lparr>b_pos := 0, b_last := 0\<rparr>) (x # xs)) s
                   in Ret (True, if s_in_chunk_size_changing s then ngx_rtmp_finalize_set_chunk_size s else s)))"

text \<open>\<open>link orphan\<close>: the buffer leaves stream 0 and joins the ring of its stream.\<close>

definition link_orphan :: "nat \<Rightarrow> ('w, 'p) rtmp_session \<Rightarrow> ('w, 'p) rtmp_session" where
  "link_orphan csid s =
     (let b = cur_buf s;
          s = upd_stream 0 (\<lambda>st. st\<lparr>st_in := tl (st_in st)\<rparr>) s
      in (upd_stream csid (\<lambda>st. st\<lparr>st_in := st_in st @ [b], st_hdr := (st_hdr st)\<lparr>mh_csid := word_of_nat csid\<rparr>\<rparr>) s)
           \<lparr>s_in_csid := csid\<rparr>)"

datatype parse_status = Parsed | Incomplete | Refused

definition recv_header ::
    "rtmp_conf \<Rightarrow> ('w, 'p) rtmp_session \<Rightarrow> (parse_status \<times> ('w, 'p) rtmp_session) run" where
  "recv_header cscf s =
     (let b = cur_buf s
      in if b_pos b \<noteq> 0 then Ret (Parsed, s)
         else case parse_basic (buf_content b) of
           None \<Rightarrow> Ret (Incomplete, s)
         | Some (fmt, csid, p) \<Rightarrow>
             if unat csid \<ge> cf_max_streams cscf then Ret (Refused, ngx_rtmp_finalize_session s)
             else if unat csid \<ge> length (s_in_streams s) then Fault
             else
               let s = (if s_in_csid s = 0 then link_orphan (unat csid) s else s)
               in case parse_mheader (cf_publish_time_fix cscf) fmt (cur_stream s) p of
                    (st, None) \<Rightarrow> Ret (Incomplete, upd_stream (s_in_csid s) (\<lambda>_. st) s)
                  | (st, Some p) \<Rightarrow>
                      let s = set_cur_buf (b\<lparr>b_pos := b_last b - length p\<rparr>)
                                (upd_stream (s_in_csid s) (\<lambda>_. st) s)
                      in if unat (mh_mlen (st_hdr st)) > cf_max_message cscf
                         then Ret (Refused, ngx_rtmp_finalize_session s)
                         else Ret (Parsed, s))"

text \<open>
  The end of the loop body: what the next turn starts with, or \<open>None\<close> when the function has returned.
\<close>

type_synonym ('w, 'p) recv_state = "rtmp_conf \<times> ('w, 'p) rtmp_session \<times> bytes option"

definition recv_message ::
    "(byte \<Rightarrow> 'h list) \<Rightarrow> ('h, 'w, 'p) rtmp_call \<Rightarrow> rtmp_conf \<Rightarrow> ('w, 'p) rtmp_session \<Rightarrow> nat \<Rightarrow>
     (('w, 'p) rtmp_session \<times> ('w, 'p) recv_state option) run" where
  "recv_message ev call cscf s fsize =
     (let b = cur_buf s;
          old = drop fsize (buf_content b);
          s = set_cur_buf (b\<lparr>b_last := b_pos b + fsize\<rparr>) s;
          st = cur_stream s;
          hdr = (st_hdr st)\<lparr>mh_timestamp := mh_timestamp (st_hdr st) + st_dtime st\<rparr>;
          head = st_in st;
          s = upd_stream (s_in_csid s) (\<lambda>st. st\<lparr>st_len := 0, st_hdr := hdr, st_in := []\<rparr>) s
      in run_bind (ngx_rtmp_receive_message ev call s hdr head) (\<lambda>(rc, s).
           if rc \<noteq> NGX_OK then Ret (ngx_rtmp_finalize_session s, None)
           else
             let (cscf, s) = (if s_server_changed s then (s_conf s, s\<lparr>s_server_changed := False\<rparr>) else (cscf, s));
                 s = (if s_in_chunk_size_changing s
                      then (if old = [] then ngx_rtmp_finalize_set_chunk_size s else s)
                      else upd_stream 0 (\<lambda>st. st\<lparr>st_in := head @ st_in st\<rparr>) s)
             in Ret (s, Some (cscf, s\<lparr>s_in_csid := 0\<rparr>, Some old))))"

definition recv_payload ::
    "(byte \<Rightarrow> 'h list) \<Rightarrow> ('h, 'w, 'p) rtmp_call \<Rightarrow> rtmp_conf \<Rightarrow> ('w, 'p) rtmp_session \<Rightarrow>
     (('w, 'p) rtmp_session \<times> ('w, 'p) recv_state option) run" where
  "recv_payload ev call cscf s =
     (let b = cur_buf s;
          st = cur_stream s;
          sz = b_last b - b_pos b;
          fsize = unat (mh_mlen (st_hdr st) - st_len st)
      in if sz < min fsize (s_in_chunk_size s) then Ret (s, Some (cscf, s, None))
         else if fsize > s_in_chunk_size s then
           let old = drop (s_in_chunk_size s) (buf_content b);
               s = upd_stream (s_in_csid s) (\<lambda>st. st\<lparr>st_len := st_len st + word_of_nat (s_in_chunk_size s)\<rparr>)
                     (set_cur_buf (b\<lparr>b_last := b_pos b + s_in_chunk_size s\<rparr>) s)
           in Ret (s, Some (cscf, s\<lparr>s_in_csid := 0\<rparr>, Some old))
         else recv_message ev call cscf s fsize)"

definition recv_turn ::
    "('w, 'p) rtmp_env \<Rightarrow> (byte \<Rightarrow> 'h list) \<Rightarrow> ('h, 'w, 'p) rtmp_call \<Rightarrow> ('w, 'p) recv_state \<Rightarrow>
     (('w, 'p) rtmp_session \<times> ('w, 'p) recv_state option) run" where
  "recv_turn env ev call = (\<lambda>(cscf, s, old).
     run_bind (recv_fill env s old) (\<lambda>(go, s).
       if \<not> go then Ret (s, None)
       else run_bind (recv_header cscf s) (\<lambda>(status, s).
         case status of
           Incomplete \<Rightarrow> Ret (s, Some (cscf, s, None))
         | Refused \<Rightarrow> Ret (s, None)
         | Parsed \<Rightarrow> recv_payload ev call cscf s)))"

fun recv_loop ::
    "nat \<Rightarrow> ('w, 'p) rtmp_env \<Rightarrow> (byte \<Rightarrow> 'h list) \<Rightarrow> ('h, 'w, 'p) rtmp_call \<Rightarrow> ('w, 'p) recv_state \<Rightarrow>
     ('w, 'p) rtmp_session run" where
  "recv_loop 0 env ev call x = Out_of_fuel"
| "recv_loop (Suc k) env ev call x =
     run_bind (recv_turn env ev call x) (\<lambda>(s, next).
       case next of None \<Rightarrow> Ret s | Some x \<Rightarrow> recv_loop k env ev call x)"

definition ngx_rtmp_recv ::
    "nat \<Rightarrow> ('w, 'p) rtmp_env \<Rightarrow> (byte \<Rightarrow> 'h list) \<Rightarrow> ('h, 'w, 'p) rtmp_call \<Rightarrow> ('w, 'p) rtmp_session \<Rightarrow>
     ('w, 'p) rtmp_session run" where
  "ngx_rtmp_recv fuel env ev call s =
     (if c_destroyed (s_conn s) then Ret s else recv_loop fuel env ev call (s_conf s, s, None))"

text \<open>\<open>ngx_rtmp_cycle\<close> starts the message layer when the handshake is done.\<close>

definition ngx_rtmp_cycle ::
    "nat \<Rightarrow> ('w, 'p) rtmp_env \<Rightarrow> (byte \<Rightarrow> 'h list) \<Rightarrow> ('h, 'w, 'p) rtmp_call \<Rightarrow> ('w, 'p) rtmp_session \<Rightarrow>
     ('w, 'p) rtmp_session run" where
  "ngx_rtmp_cycle fuel env ev call s = ngx_rtmp_recv fuel env ev call (ngx_rtmp_reset_ping s)"

end
