(* ===== verification/Rtmp_Input.thy ===== *)
theory Rtmp_Input
  imports Rtmp_Recv
begin

text \<open>
  What the read loop of a session computes: an abstract receiver that works on the bytes alone, and a
  simulation that shows that \<open>ngx_rtmp_recv\<close> does what it does, whatever pieces the bytes arrive in.
\<close>

section \<open>The parsers and more input\<close>

lemma parse_basic_append: "parse_basic p = Some (fmt, csid, q) \<Longrightarrow> parse_basic (p @ d) = Some (fmt, csid, q @ d)"
  by (cases p; cases "tl p"; cases "tl (tl p)") (auto simp: parse_basic_def Let_def split: if_splits)

lemma parse_basic_length:
  "parse_basic p = Some (fmt, csid, q) \<Longrightarrow> length q < length p \<and> length p \<le> length q + 3"
  by (auto simp: parse_basic_def Let_def split: list.splits if_splits)

lemma parse_basic_None: "parse_basic p = None \<Longrightarrow> length p < 3"
  by (auto simp: parse_basic_def Let_def split: list.splits if_splits)

lemma parse_basic_csid: "parse_basic p = Some (fmt, csid, q) \<Longrightarrow> csid \<noteq> 0"
proof -
  assume a: "parse_basic p = Some (fmt, csid, q)"
  have 1: "(64 + ucast (x :: byte) :: u32) \<noteq> 0" for x
  proof -
    have "unat (64 + ucast x :: u32) = 64 + unat x"
      using unat_byte_less [of x] by (simp add: unat_word_ariths del: unat_byte_less)
    then show ?thesis by (metis add_eq_0_iff_both_eq_0 unsigned_0 zero_neq_numeral)
  qed
  have 2: "(64 + ucast (x :: byte) + 256 * ucast (y :: byte) :: u32) \<noteq> 0" for x y
  proof -
    have "unat (64 + ucast x + 256 * ucast y :: u32) = 64 + unat x + 256 * unat y"
      using unat_byte_less [of x] unat_byte_less [of y] by (simp add: unat_word_ariths del: unat_byte_less)
    then show ?thesis by (metis add_eq_0_iff_both_eq_0 unsigned_0 zero_neq_numeral)
  qed
  from a 1 2 show ?thesis
    by (auto simp: parse_basic_def Let_def split: list.splits if_splits)
qed

lemma of_be_append:
  "4 \<le> length p \<Longrightarrow> of_be4 (p @ d) = of_be4 p" "4 \<le> length p \<Longrightarrow> of_le4 (p @ d) = of_le4 p"
  "3 \<le> length p \<Longrightarrow> of_be3 (p @ d) = of_be3 p"
  by (auto simp: of_be4_def of_le4_def of_be3_def nth_append)

lemma parse_ext_append:
  "parse_ext fix fmt st ext ts p = (st', Some q) \<Longrightarrow> parse_ext fix fmt st ext ts (p @ d) = (st', Some (q @ d))"
  by (auto simp: parse_ext_def Let_def of_be_append split: if_splits)

lemma parse_mheader_append:
  "parse_mheader fix fmt st p = (st', Some q) \<Longrightarrow> parse_mheader fix fmt st (p @ d) = (st', Some (q @ d))"
  by (auto simp: parse_mheader_def Let_def of_be_append nth_append parse_ext_append split: if_splits)

lemma parse_ext_None: "parse_ext fix fmt st ext ts p = (st', None) \<Longrightarrow> st' = st \<and> ext \<and> length p < 4"
  by (auto simp: parse_ext_def Let_def split: if_splits)

lemma parse_ext_length:
  "parse_ext fix fmt st ext ts p = (st', Some q) \<Longrightarrow> length q \<le> length p \<and> length p \<le> length q + 4"
  by (auto simp: parse_ext_def Let_def split: if_splits)

lemma parse_mheader_length:
  assumes "parse_mheader fix fmt st p = (st', r)"
  shows "case r of None \<Rightarrow> length p < 15 | Some q \<Rightarrow> length q \<le> length p \<and> length p \<le> length q + 15"
  using assms
  by (cases r) (auto simp: parse_mheader_def Let_def split: if_splits
      dest!: parse_ext_length parse_ext_None)

lemma parse_ext_in: "parse_ext fix fmt (st\<lparr>st_in := x\<rparr>) ext ts p =
    (case parse_ext fix fmt st ext ts p of (st', r) \<Rightarrow> (st'\<lparr>st_in := x\<rparr>, r))"
  by (auto simp: parse_ext_def Let_def)

lemma parse_mheader_in: "parse_mheader fix fmt (st\<lparr>st_in := x\<rparr>) p =
    (case parse_mheader fix fmt st p of (st', r) \<Rightarrow> (st'\<lparr>st_in := x\<rparr>, r))"
proof -
  have swap: "st\<lparr>st_in := x, st_hdr := h\<rparr> = st\<lparr>st_hdr := h, st_in := x\<rparr>" for h by simp
  show ?thesis by (auto simp: parse_mheader_def Let_def parse_ext_in swap)
qed

text \<open>Reading a header again, after a part of it has been read into the stream, gives the same.\<close>

lemma parse_again:
  assumes "parse_mheader fix fmt st p = (st', None)"
  shows "parse_mheader fix fmt st' (p @ d) = parse_mheader fix fmt st (p @ d)"
proof (cases "fmt \<le> 1 \<and> 7 \<le> length p")
  case False
  then have "st' = st"
    using assms by (auto simp: parse_mheader_def Let_def split: if_splits dest: parse_ext_None)
  then show ?thesis by simp
next
  case True
  let ?h = "\<lambda>st. st\<lparr>st_hdr := (st_hdr st)\<lparr>mh_mlen := of_be3 (drop 3 p), mh_type := drop 3 p ! 3\<rparr>\<rparr>"
  have idem: "?h (?h st) = ?h st" by simp
  have l: "3 \<le> length (drop 3 p)" "3 < length (drop 3 p)" "3 \<le> length p" using True by auto
  then have d: "\<not> length (p @ d) < 3" "\<not> length (drop 3 (p @ d)) < 4"
    "of_be3 (drop 3 (p @ d)) = of_be3 (drop 3 p)" "drop 3 (p @ d) ! 3 = drop 3 p ! 3"
    "of_be3 (p @ d) = of_be3 p"
    by (auto simp: of_be_append(3) nth_append simp del: length_drop)
  show ?thesis
  proof (cases "fmt = 0 \<and> 11 \<le> length p")
    case False
    then have "st' = ?h st"
      using assms True by (auto simp: parse_mheader_def Let_def split: if_splits dest: parse_ext_None)
    then show ?thesis
      using True d unfolding parse_mheader_def Let_def by simp
  next
    case t2: True
    then have "st' = (?h st)\<lparr>st_hdr := (st_hdr (?h st))\<lparr>mh_msid := of_le4 (drop 7 p)\<rparr>\<rparr>"
      using assms True by (auto simp: parse_mheader_def Let_def split: if_splits dest: parse_ext_None)
    moreover have "of_le4 (drop 7 (p @ d)) = of_le4 (drop 7 p)" "\<not> length (drop 7 (p @ d)) < 4"
      using t2 of_be_append(2) [of "drop 7 p" d] by auto
    ultimately show ?thesis
      using True t2 d unfolding parse_mheader_def Let_def by simp
  qed
qed

section \<open>The abstract receiver\<close>

text \<open>
  The streams without their buffers, the payload collected on each of them, the stream whose chunk is
  being read (0 when a header is next), and the state of the handlers.
\<close>

record 'w rx =
  rx_str :: "nat \<Rightarrow> rtmp_stream"
  rx_dat :: "nat \<Rightarrow> bytes list"
  rx_cur :: nat
  rx_world :: 'w

datatype 'w rx_result = Need | Dead 'w | Step "'w rx" bytes

type_synonym 'w rx_handler = "rtmp_header \<Rightarrow> bytes list \<Rightarrow> 'w \<Rightarrow> ngx_rc \<times> 'w"

definition rx_join :: "'w rx \<Rightarrow> nat \<Rightarrow> rtmp_stream" where
  "rx_join rx n = (rx_str rx n)\<lparr>st_hdr := (st_hdr (rx_str rx n))\<lparr>mh_csid := word_of_nat n\<rparr>\<rparr>"

definition rx_head :: "rtmp_conf \<Rightarrow> 'w rx \<Rightarrow> bytes \<Rightarrow> 'w rx_result" where
  "rx_head conf rx p =
     (case parse_basic p of
        None \<Rightarrow> Need
      | Some (fmt, csid, p) \<Rightarrow>
          if unat csid \<ge> cf_max_streams conf then Dead (rx_world rx)
          else case parse_mheader (cf_publish_time_fix conf) fmt (rx_join rx (unat csid)) p of
            (_, None) \<Rightarrow> Need
          | (st, Some p) \<Rightarrow>
              if unat (mh_mlen (st_hdr st)) > cf_max_message conf then Dead (rx_world rx)
              else Step (rx\<lparr>rx_str := (rx_str rx)(unat csid := st), rx_cur := unat csid\<rparr>) p)"

definition rx_body :: "nat \<Rightarrow> 'w rx_handler \<Rightarrow> 'w rx \<Rightarrow> bytes \<Rightarrow> 'w rx_result" where
  "rx_body cs g rx p =
     (let n = rx_cur rx; st = rx_str rx n; fsize = unat (mh_mlen (st_hdr st) - st_len st)
      in if length p < min fsize cs then Need
         else if fsize > cs then
           Step (rx\<lparr>rx_str := (rx_str rx)(n := st\<lparr>st_len := st_len st + word_of_nat cs\<rparr>),
                    rx_dat := (rx_dat rx)(n := rx_dat rx n @ [take cs p]), rx_cur := 0\<rparr>) (drop cs p)
         else
           let hdr = (st_hdr st)\<lparr>mh_timestamp := mh_timestamp (st_hdr st) + st_dtime st\<rparr>
           in case g hdr (rx_dat rx n @ [take fsize p]) (rx_world rx) of (rc, w) \<Rightarrow>
             if rc \<noteq> NGX_OK then Dead w
             else Step (rx\<lparr>rx_str := (rx_str rx)(n := st\<lparr>st_len := 0, st_hdr := hdr\<rparr>),
                           rx_dat := (rx_dat rx)(n := []), rx_cur := 0, rx_world := w\<rparr>) (drop fsize p))"

definition rx_step :: "rtmp_conf \<Rightarrow> nat \<Rightarrow> 'w rx_handler \<Rightarrow> 'w rx \<Rightarrow> bytes \<Rightarrow> 'w rx_result" where
  "rx_step conf cs g rx p = (if rx_cur rx = 0 then rx_head conf rx p else rx_body cs g rx p)"

definition rx_measure :: "'w rx \<Rightarrow> bytes \<Rightarrow> nat" where
  "rx_measure rx p = 2 * length p + (if rx_cur rx = 0 then 0 else 1)"

lemma rx_step_less: "rx_step conf cs g rx p = Step rx' q \<Longrightarrow> rx_measure rx' q < rx_measure rx p"
proof (cases "rx_cur rx = 0")
  case True
  assume "rx_step conf cs g rx p = Step rx' q"
  with True show ?thesis
    by (auto simp: rx_step_def rx_head_def rx_measure_def split: option.splits if_splits prod.splits
        dest!: parse_basic_length parse_mheader_length)
next
  case False
  assume "rx_step conf cs g rx p = Step rx' q"
  with False show ?thesis
    by (auto simp: rx_step_def rx_body_def Let_def rx_measure_def split: if_splits prod.splits)
qed

datatype 'w rx_out = Waiting "'w rx" bytes | Died 'w

function rx_run :: "rtmp_conf \<Rightarrow> nat \<Rightarrow> 'w rx_handler \<Rightarrow> 'w rx \<Rightarrow> bytes \<Rightarrow> 'w rx_out" where
  "rx_run conf cs g rx p =
     (case rx_step conf cs g rx p of
        Need \<Rightarrow> Waiting rx p
      | Dead w \<Rightarrow> Died w
      | Step rx q \<Rightarrow> rx_run conf cs g rx q)"
  by auto
termination
  by (relation "measure (\<lambda>(_, _, _, rx, p). rx_measure rx p)") (auto simp: rx_step_less)

declare rx_run.simps [simp del]

lemma rx_run_Step: "rx_step conf cs g rx p = Step rx' q \<Longrightarrow> rx_run conf cs g rx p = rx_run conf cs g rx' q"
  by (subst rx_run.simps) simp

lemma rx_run_Need: "rx_step conf cs g rx p = Need \<Longrightarrow> rx_run conf cs g rx p = Waiting rx p"
  by (subst rx_run.simps) simp

lemma rx_run_Dead: "rx_step conf cs g rx p = Dead w \<Longrightarrow> rx_run conf cs g rx p = Died w"
  by (subst rx_run.simps) simp

lemmas rx_runs = rx_run_Step rx_run_Need rx_run_Dead

text \<open>More input does not change what has been decided.\<close>

lemma rx_step_append:
  "rx_step conf cs g rx p = Step rx' q \<Longrightarrow> rx_step conf cs g rx (p @ d) = Step rx' (q @ d)"
  "rx_step conf cs g rx p = Dead w \<Longrightarrow> rx_step conf cs g rx (p @ d) = Dead w"
  by (auto simp: rx_step_def rx_head_def rx_body_def Let_def parse_basic_append parse_mheader_append
      split: option.splits if_splits prod.splits)

lemma rx_run_append:
  "rx_run conf cs g rx (p @ d) =
     (case rx_run conf cs g rx p of Waiting rx' q \<Rightarrow> rx_run conf cs g rx' (q @ d) | Died w \<Rightarrow> Died w)"
proof (induction conf cs g rx p rule: rx_run.induct)
  case (1 conf cs g rx p)
  show ?case
  proof (cases "rx_step conf cs g rx p")
    case Need
    then show ?thesis by (simp add: rx_run_Need)
  next
    case (Dead w)
    then show ?thesis by (simp add: rx_run_Dead rx_step_append)
  next
    case (Step rx' q)
    then show ?thesis using "1.IH" by (simp add: rx_run_Step rx_step_append)
  qed
qed

end
