(* ===== verification/Rtmp_Sim.thy ===== *)
theory Rtmp_Sim
  imports Rtmp_Input
begin

text \<open>
  The read loop of a session simulates the abstract receiver of \<open>Rtmp_Input\<close>: the invariant that ties
  the rings of buffers to the payload collected, one lemma for each part of a turn, and the theorem on
  the whole loop.
\<close>

section \<open>The invariant\<close>

definition strm :: "rtmp_stream \<Rightarrow> rtmp_stream" where
  "strm st = st\<lparr>st_in := []\<rparr>"

text \<open>Every buffer has room for a header and a chunk.\<close>

definition in_buf :: "nat \<Rightarrow> buf \<Rightarrow> bool" where
  "in_buf cs b \<longleftrightarrow> buf_ok b \<and> length (b_mem b) = cs + NGX_RTMP_MAX_CHUNK_HEADER"

definition rings_ok :: "nat \<Rightarrow> rtmp_stream list \<Rightarrow> bool" where
  "rings_ok cs strs \<longleftrightarrow> (\<forall>st \<in> set strs. \<forall>b \<in> set (st_in st). in_buf cs b)"

text \<open>A stream that is not being read agrees with the abstract one.\<close>

definition agrees :: "'w rx \<Rightarrow> nat \<Rightarrow> rtmp_stream \<Rightarrow> bool" where
  "agrees rx n st \<longleftrightarrow> strm st = rx_str rx n \<and> map buf_content (st_in st) = rx_dat rx n"

definition others_agree :: "rtmp_stream list \<Rightarrow> nat \<Rightarrow> 'w rx \<Rightarrow> bool" where
  "others_agree strs csid rx \<longleftrightarrow> (\<forall>n. 0 < n \<longrightarrow> n < length strs \<longrightarrow> n \<noteq> csid \<longrightarrow> agrees rx n (strs ! n))"

text \<open>Where the loop is: \<open>p\<close> are the bytes read and not used yet.\<close>

inductive at_chunk :: "bool \<Rightarrow> rtmp_stream list \<Rightarrow> 'w rx \<Rightarrow> bytes \<Rightarrow> nat \<Rightarrow> bool" for pf strs rx p where
  orphan: "rx_cur rx = 0 \<Longrightarrow> st_in (strs ! 0) = b # bs \<Longrightarrow> b_pos b = 0 \<Longrightarrow> buf_content b = p \<Longrightarrow>
    at_chunk pf strs rx p 0"
| header: "n \<noteq> 0 \<Longrightarrow> rx_cur rx = 0 \<Longrightarrow> st_in (strs ! n) = bs @ [b] \<Longrightarrow> b_pos b = 0 \<Longrightarrow> buf_content b = p \<Longrightarrow>
    map buf_content bs = rx_dat rx n \<Longrightarrow> parse_basic p = Some (fmt, csid, q) \<Longrightarrow> unat csid = n \<Longrightarrow>
    (\<And>d. parse_mheader pf fmt (strm (strs ! n)) (q @ d) = parse_mheader pf fmt (rx_join rx n) (q @ d)) \<Longrightarrow>
    at_chunk pf strs rx p n"
| payload: "n \<noteq> 0 \<Longrightarrow> rx_cur rx = n \<Longrightarrow> st_in (strs ! n) = bs @ [b] \<Longrightarrow> 0 < b_pos b \<Longrightarrow> b_pos b \<le> 18 \<Longrightarrow>
    buf_content b = p \<Longrightarrow> map buf_content bs = rx_dat rx n \<Longrightarrow> strm (strs ! n) = rx_str rx n \<Longrightarrow>
    at_chunk pf strs rx p n"

definition rx_frame :: "('w, 'p) rtmp_session \<Rightarrow> 'w rx \<Rightarrow> bool" where
  "rx_frame s rx \<longleftrightarrow> length (s_in_streams s) = cf_max_streams (s_conf s) \<and> 0 < cf_max_streams (s_conf s) \<and>
     0 < s_in_chunk_size s \<and> s_in_pool s \<noteq> None \<and> \<not> s_in_chunk_size_changing s \<and> \<not> s_server_changed s \<and>
     s_ack_size s = 0 \<and> c_event_ok (s_conn s) \<and> \<not> c_destroyed (s_conn s) \<and>
     s_in_csid s < cf_max_streams (s_conf s) \<and>
     rings_ok (s_in_chunk_size s) (s_in_streams s) \<and> others_agree (s_in_streams s) (s_in_csid s) rx \<and>
     s_world s = rx_world rx"

abbreviation loaded :: "('w, 'p) rtmp_session \<Rightarrow> 'w rx \<Rightarrow> bytes \<Rightarrow> bool" where
  "loaded s rx p \<equiv> rx_frame s rx \<and>
     at_chunk (cf_publish_time_fix (s_conf s)) (s_in_streams s) rx p (s_in_csid s)"

abbreviation fresh :: "('w, 'p) rtmp_session \<Rightarrow> 'w rx \<Rightarrow> bool" where
  "fresh s rx \<equiv> rx_frame s rx \<and> s_in_csid s = 0 \<and> rx_cur rx = 0"

definition idle :: "'w rx_handler \<Rightarrow> ('w, 'p) rtmp_session \<Rightarrow> 'w rx \<Rightarrow> bytes \<Rightarrow> bool" where
  "idle g s rx p \<longleftrightarrow> (loaded s rx p \<and> rx_step (s_conf s) (s_in_chunk_size s) g rx p = Need) \<or>
     (fresh s rx \<and> st_in (s_in_streams s ! 0) = [] \<and> p = [])"

definition turn_ready :: "'w rx_handler \<Rightarrow> ('w, 'p) rtmp_session \<Rightarrow> bytes option \<Rightarrow> 'w rx \<Rightarrow> bytes \<Rightarrow> bool" where
  "turn_ready g s old rx p \<longleftrightarrow>
     (case old of
        None \<Rightarrow> idle g s rx p
      | Some xs \<Rightarrow> fresh s rx \<and> xs = p \<and> length p \<le> s_in_chunk_size s + NGX_RTMP_MAX_CHUNK_HEADER)"

section \<open>Updating one stream\<close>

lemma upd_stream_simps [simp]:
  "s_in_streams (upd_stream n f s) = (s_in_streams s)[n := f (s_in_streams s ! n)]"
  "s_in_csid (upd_stream n f s) = s_in_csid s" "s_conf (upd_stream n f s) = s_conf s"
  "s_conn (upd_stream n f s) = s_conn s" "s_in_chunk_size (upd_stream n f s) = s_in_chunk_size s"
  "s_in_pool (upd_stream n f s) = s_in_pool s" "s_world (upd_stream n f s) = s_world s"
  "s_in_chunk_size_changing (upd_stream n f s) = s_in_chunk_size_changing s"
  "s_server_changed (upd_stream n f s) = s_server_changed s" "s_ack_size (upd_stream n f s) = s_ack_size s"
  by (simp_all add: upd_stream_def)

lemma rings_ok_upd:
  "rings_ok cs strs \<Longrightarrow> (\<And>b. b \<in> set (st_in st) \<Longrightarrow> in_buf cs b) \<Longrightarrow> rings_ok cs (strs[n := st])"
  by (auto simp: rings_ok_def dest!: subsetD [OF set_update_subset_insert])

lemma rings_okD: "rings_ok cs strs \<Longrightarrow> n < length strs \<Longrightarrow> b \<in> set (st_in (strs ! n)) \<Longrightarrow> in_buf cs b"
  by (auto simp: rings_ok_def)

lemma others_agree_upd [simp]: "others_agree (strs[n := st]) n rx \<longleftrightarrow> others_agree strs n rx"
  by (auto simp: others_agree_def)

lemma others_agree_upd0 [simp]: "others_agree (strs[0 := st]) n rx \<longleftrightarrow> others_agree strs n rx"
  by (auto simp: others_agree_def)

lemma in_buf_ok: "in_buf cs b \<Longrightarrow> buf_ok b"
  by (simp add: in_buf_def)

lemma in_buf_write: "in_buf cs b \<Longrightarrow> length xs \<le> buf_room b \<Longrightarrow> in_buf cs (buf_write b xs)"
  by (auto simp: in_buf_def buf_write_ok) (auto simp: buf_ok_def)

section \<open>Filling a buffer\<close>

definition load_buf :: "('w, 'p) rtmp_session \<Rightarrow> bytes \<Rightarrow> ('w, 'p) rtmp_session" where
  "load_buf s d = set_cur_buf (buf_write (cur_buf s) d) s"

lemma set_cur_buf_frame [simp]:
  "s_in_csid (set_cur_buf b s) = s_in_csid s" "s_conf (set_cur_buf b s) = s_conf s"
  "s_conn (set_cur_buf b s) = s_conn s" "s_in_chunk_size (set_cur_buf b s) = s_in_chunk_size s"
  "s_in_pool (set_cur_buf b s) = s_in_pool s" "s_world (set_cur_buf b s) = s_world s"
  "s_in_chunk_size_changing (set_cur_buf b s) = s_in_chunk_size_changing s"
  "s_server_changed (set_cur_buf b s) = s_server_changed s" "s_ack_size (set_cur_buf b s) = s_ack_size s"
  by (simp_all add: set_cur_buf_def)

lemma rx_frame_set_cur_buf:
  assumes "rx_frame s rx" "in_buf (s_in_chunk_size s) b"
  shows "rx_frame (set_cur_buf b s) rx"
proof -
  let ?st = "cur_stream s"
  have "s_in_csid s < length (s_in_streams s)" using assms(1) by (simp add: rx_frame_def)
  then have r: "in_buf (s_in_chunk_size s) c" if "c \<in> set (st_in ?st)" for c
    using assms(1) that by (auto simp: rx_frame_def rings_ok_def)
  have "rings_ok (s_in_chunk_size s) (s_in_streams (set_cur_buf b s))"
    unfolding set_cur_buf_def upd_stream_simps
    using assms r by (intro rings_ok_upd) (auto simp: rx_frame_def dest: in_set_butlastD list.set_sel(2) split: if_splits,
      (metis list.sel(2) list.set_sel(2))+)
  then show ?thesis
    using assms(1) by (simp add: rx_frame_def set_cur_buf_def)
qed

lemma at_chunk_nonempty: "at_chunk pf strs rx p n \<Longrightarrow> st_in (strs ! n) \<noteq> []"
  by (auto elim: at_chunk.cases)

lemma cur_buf_in:
  assumes "loaded s rx p"
  shows "in_buf (s_in_chunk_size s) (cur_buf s)" "buf_content (cur_buf s) = p"
proof -
  have n: "st_in (cur_stream s) \<noteq> []" "s_in_csid s < length (s_in_streams s)"
    "rings_ok (s_in_chunk_size s) (s_in_streams s)"
    using assms by (auto simp: rx_frame_def dest: at_chunk_nonempty)
  then show "in_buf (s_in_chunk_size s) (cur_buf s)"
    by (auto simp: cur_buf_def intro: rings_okD)
  show "buf_content (cur_buf s) = p"
    using conjunct2 [OF assms] by cases (auto simp: cur_buf_def)
qed

lemma load_at_chunk:
  assumes l: "loaded s rx p" and room: "length d \<le> buf_room (cur_buf s)"
  shows "loaded (load_buf s d) rx (p @ d)"
proof -
  have ib: "in_buf (s_in_chunk_size s) (cur_buf s)" by (rule cur_buf_in [OF l])
  then have ok: "buf_ok (cur_buf s)" by (rule in_buf_ok)
  have fr: "rx_frame (load_buf s d) rx"
    unfolding load_buf_def using l room ib by (intro rx_frame_set_cur_buf in_buf_write) auto
  have len: "s_in_csid s < length (s_in_streams s)" using l by (simp add: rx_frame_def)
  have c: "buf_content (buf_write (cur_buf s) d) = p @ d"
    using cur_buf_in(2) [OF l] ok room by simp
  from conjunct2 [OF l] have "at_chunk (cf_publish_time_fix (s_conf s)) (s_in_streams (load_buf s d)) rx (p @ d) (s_in_csid s)"
  proof cases
    case (orphan b bs)
    then have "cur_buf s = b" by (simp add: cur_buf_def)
    with orphan c len show ?thesis
      by (simp add: load_buf_def set_cur_buf_def) (rule at_chunk.orphan, auto)
  next
    case (header bs b fmt csid q)
    then have b: "cur_buf s = b" by (simp add: cur_buf_def)
    have st: "strm ((cur_stream s)\<lparr>st_in := x\<rparr>) = strm (cur_stream s)" for x by (simp add: strm_def)
    show ?thesis
      unfolding load_buf_def set_cur_buf_def b
      using header b c len
      by (intro at_chunk.header [where bs = bs and b = "buf_write b d" and fmt = fmt and csid = csid and q = "q @ d"])
         (simp_all add: parse_basic_append st)
  next
    case (payload bs b)
    then have b: "cur_buf s = b" by (simp add: cur_buf_def)
    show ?thesis
      unfolding load_buf_def set_cur_buf_def b
      using payload b c len
      by (intro at_chunk.payload [where bs = bs and b = "buf_write b d"]) (simp_all add: strm_def)
  qed
  then show ?thesis using fr by (simp add: load_buf_def)
qed

lemma fresh_reset:
  assumes "fresh s rx" "st_in (s_in_streams s ! 0) \<noteq> []"
  defines "s' \<equiv> set_cur_buf (cur_buf s\<lparr>b_pos := 0, b_last := 0\<rparr>) s"
  shows "loaded s' rx []" "fresh s' rx"
    "buf_room (cur_buf s') = s_in_chunk_size s + NGX_RTMP_MAX_CHUNK_HEADER" "cur_buf s' = cur_buf s\<lparr>b_pos := 0, b_last := 0\<rparr>"
proof -
  obtain b bs where b: "st_in (s_in_streams s ! 0) = b # bs" using assms(2) by (cases "st_in (s_in_streams s ! 0)") auto
  have cb: "cur_buf s = b" using assms(1) b by (simp add: cur_buf_def)
  have len: "0 < length (s_in_streams s)" using assms(1) by (simp add: rx_frame_def)
  have ib: "in_buf (s_in_chunk_size s) b"
    using assms(1) b len by (auto simp: rx_frame_def intro: rings_okD)
  then have "rx_frame s' rx"
    unfolding s'_def cb using assms(1) by (intro rx_frame_set_cur_buf) (auto simp: in_buf_def buf_ok_def)
  moreover have "at_chunk (cf_publish_time_fix (s_conf s)) (s_in_streams s') rx [] 0"
    unfolding s'_def cb using assms(1) b len
    by (intro at_chunk.orphan [where b = "b\<lparr>b_pos := 0, b_last := 0\<rparr>" and bs = bs])
       (simp_all add: set_cur_buf_def buf_content_def)
  ultimately show "loaded s' rx []" "fresh s' rx" using assms(1) by (simp_all add: s'_def)
  show "cur_buf s' = cur_buf s\<lparr>b_pos := 0, b_last := 0\<rparr>"
    unfolding s'_def using assms(1) len by (simp add: cur_buf_def set_cur_buf_def)
  then show "buf_room (cur_buf s') = s_in_chunk_size s + NGX_RTMP_MAX_CHUNK_HEADER"
    using ib cb by (simp add: in_buf_def)
qed

text \<open>With memory available there is a buffer to go on with.\<close>

abbreviation same_input :: "('w, 'p) rtmp_session \<Rightarrow> ('w, 'p) rtmp_session \<Rightarrow> bool" where
  "same_input s s' \<equiv> s_conf s' = s_conf s \<and> s_in_chunk_size s' = s_in_chunk_size s \<and> s_conn s' = s_conn s"

lemma alloc_in_buf_fresh:
  assumes "fresh s rx" "st_in (s_in_streams s ! 0) = []" "pool_total (env_pool env)"
  obtains b s1 where "ngx_rtmp_alloc_in_buf env s = Ret (Some b, s1)" "s_in_csid s1 = 0"
    "fresh (upd_stream 0 (\<lambda>st. st\<lparr>st_in := [b]\<rparr>) s1) rx" "loaded (upd_stream 0 (\<lambda>st. st\<lparr>st_in := [b]\<rparr>) s1) rx []"
    "b_last b = 0" "same_input s s1"
    "cur_buf (upd_stream 0 (\<lambda>st. st\<lparr>st_in := [b]\<rparr>) s1) = b"
    "buf_room b = s_in_chunk_size s + NGX_RTMP_MAX_CHUNK_HEADER"
proof -
  let ?n = "s_in_chunk_size s + NGX_RTMP_MAX_CHUNK_HEADER"
  obtain p0 where p0: "s_in_pool s = Some p0" using assms(1) by (auto simp: rx_frame_def)
  obtain p1 where p1: "p_link (env_pool env) p0 = Some p1" using assms(3) by (rule pool_total_link)
  obtain p2 m2 where p2: "p_alloc (env_pool env) p1 80 = Some (p2, m2)" using assms(3) by (rule pool_totalE)
  obtain p3 m where p3: "p_alloc (env_pool env) p2 ?n = Some (p3, m)" "length m = ?n"
    using assms(3) by (rule pool_totalE)
  let ?b = "\<lparr>b_mem = m, b_pos = 0, b_last = 0\<rparr>" and ?s = "s\<lparr>s_in_pool := Some p3\<rparr>"
  let ?s2 = "upd_stream 0 (\<lambda>st. st\<lparr>st_in := [?b]\<rparr>) ?s"
  have len: "0 < length (s_in_streams s)" using assms(1) by (simp add: rx_frame_def)
  have "rings_ok (s_in_chunk_size s) (s_in_streams ?s2)"
    unfolding upd_stream_simps using assms(1) p3(2)
    by (intro rings_ok_upd) (auto simp: rx_frame_def in_buf_def buf_ok_def)
  then have fr: "fresh ?s2 rx" using assms(1) by (auto simp: rx_frame_def)
  have "at_chunk (cf_publish_time_fix (s_conf s)) (s_in_streams ?s2) rx [] 0"
    using assms(1) len by (intro at_chunk.orphan [where b = ?b and bs = "[]"]) (simp_all add: buf_content_def)
  moreover have "cur_buf ?s2 = ?b" using assms(1) len by (simp add: cur_buf_def)
  ultimately show thesis
    using fr p0 p1 p2 p3 by (intro that [of ?b ?s]) (simp_all add: ngx_rtmp_alloc_in_buf_def)
qed

lemma recv_ack_none: "s_ack_size s = 0 \<Longrightarrow> recv_ack env s = Ret (True, s)"
  by (simp add: recv_ack_def)

lemma count_in_simps [simp]:
  "s_in_streams (count_in s n) = s_in_streams s" "s_in_csid (count_in s n) = s_in_csid s"
  "s_conf (count_in s n) = s_conf s" "s_conn (count_in s n) = s_conn s"
  "s_in_chunk_size (count_in s n) = s_in_chunk_size s" "s_in_pool (count_in s n) = s_in_pool s"
  "s_world (count_in s n) = s_world s" "s_in_chunk_size_changing (count_in s n) = s_in_chunk_size_changing s"
  "s_server_changed (count_in s n) = s_server_changed s" "s_ack_size (count_in s n) = s_ack_size s"
  by (simp_all add: count_in_def Let_def)

lemma rx_frame_count_in [simp]: "rx_frame (count_in s n) rx \<longleftrightarrow> rx_frame s rx"
  by (simp add: rx_frame_def)

lemma rx_frame_conn:
  "c_event_ok c = c_event_ok (s_conn s) \<Longrightarrow> c_destroyed c = c_destroyed (s_conn s) \<Longrightarrow>
    rx_frame (s\<lparr>s_conn := c\<rparr>) rx \<longleftrightarrow> rx_frame s rx"
  by (simp add: rx_frame_def)

abbreviation arrivals :: "('w, 'p) rtmp_session \<Rightarrow> bytes list" where
  "arrivals s \<equiv> c_arrivals (s_conn s)"

abbreviation pieces :: "bytes list \<Rightarrow> bool" where
  "pieces segs \<equiv> list_all (\<lambda>x. x \<noteq> []) segs"

lemma recv_socket_data:
  assumes l: "loaded s rx p" and room: "0 < buf_room (cur_buf s)" and "pieces (arrivals s)" "arrivals s \<noteq> []"
  obtains d s' where "recv_socket env s = Ret (True, s')" "loaded s' rx (p @ d)" "d \<noteq> []"
    "d @ concat (arrivals s') = concat (arrivals s)" "pieces (arrivals s')"
    "s_conf s' = s_conf s" "s_in_chunk_size s' = s_in_chunk_size s"
proof -
  obtain seg segs where a: "arrivals s = seg # segs" "seg \<noteq> []" using assms(3,4) by (cases "arrivals s") auto
  let ?r = "buf_room (cur_buf s)"
  define d where "d = take ?r seg"
  define rest where "rest = (if length seg \<le> ?r then segs else drop ?r seg # segs)"
  have d: "d \<noteq> []" "length d \<le> ?r" using a(2) room by (simp_all add: d_def)
  have cat: "d @ concat rest = concat (arrivals s)" using a(1) by (simp add: d_def rest_def)
  have ps: "pieces rest" using assms(3) a by (auto simp: rest_def)
  let ?c = "upd_conn (\<lambda>c. c\<lparr>c_arrivals := rest\<rparr>) s"
  have cb: "cur_buf ?c = cur_buf s" by (simp add: cur_buf_def)
  have "loaded ?c rx p" using l by (simp add: rx_frame_conn)
  from load_at_chunk [OF this, of d] have ld: "loaded (load_buf ?c d) rx (p @ d)" using d cb by simp
  let ?s = "count_in (load_buf ?c d) (length d)"
  have "recv_socket env s = recv_ack env ?s"
    using a d(1) room by (simp add: recv_socket_def Let_def d_def [symmetric] rest_def [symmetric] load_buf_def cb)
  also have "\<dots> = Ret (True, ?s)"
    using ld by (intro recv_ack_none) (simp add: rx_frame_def)
  finally show thesis
    using ld d(1) cat ps by (intro that [of ?s d]) (simp_all add: load_buf_def)
qed

lemma recv_socket_empty:
  "c_event_ok (s_conn s) \<Longrightarrow> arrivals s = [] \<Longrightarrow> recv_socket env s = Ret (False, s)"
  by (simp add: recv_socket_def)

section \<open>The first part of a turn\<close>

lemma rx_head_need:
  assumes "rx_head conf rx p = Need"
  shows "length p < 18"
proof (cases "parse_basic p")
  case None
  then show ?thesis using parse_basic_None [of p] by simp
next
  case (Some x)
  then obtain fmt csid q where x: "parse_basic p = Some (fmt, csid, q)" by (cases x) auto
  obtain st r where r: "parse_mheader (cf_publish_time_fix conf) fmt (rx_join rx (unat csid)) q = (st, r)" by force
  with assms x have "r = None" by (auto simp: rx_head_def split: option.splits if_splits)
  then show ?thesis using parse_mheader_length [OF r] parse_basic_length [OF x] by simp
qed

lemma need_room:
  assumes l: "loaded s rx p" and need: "rx_step (s_conf s) (s_in_chunk_size s) g rx p = Need"
  shows "0 < buf_room (cur_buf s)"
proof -
  have b: "buf_ok (cur_buf s)" "length (b_mem (cur_buf s)) = s_in_chunk_size s + 18" "buf_content (cur_buf s) = p"
    using cur_buf_in [OF l] by (simp_all add: in_buf_def NGX_RTMP_MAX_CHUNK_HEADER_def)
  then have len: "b_last (cur_buf s) = b_pos (cur_buf s) + length p"
    by (metis buf_ok_def le_add_diff_inverse length_buf_content)
  from conjunct2 [OF l] have "b_last (cur_buf s) < s_in_chunk_size s + 18"
  proof cases
    case (orphan c bs)
    then show ?thesis using need len rx_head_need [of "s_conf s" rx p] by (simp add: rx_step_def cur_buf_def)
  next
    case (header bs c fmt csid q)
    then show ?thesis using need len rx_head_need [of "s_conf s" rx p] by (simp add: rx_step_def cur_buf_def)
  next
    case (payload bs c)
    then have "length p < s_in_chunk_size s"
      using need by (auto simp: rx_step_def rx_body_def Let_def split: if_splits prod.splits)
    then show ?thesis using payload len by (simp add: cur_buf_def)
  qed
  then show ?thesis using b by simp
qed

lemma fresh_need: "rx_cur rx = 0 \<Longrightarrow> rx_step conf cs g rx [] = Need"
  by (simp add: rx_step_def rx_head_def parse_basic_def)

text \<open>After the first statements of the loop body there is a buffer.\<close>

lemma recv_in_buf_ready:
  assumes t: "turn_ready g s old rx p" and "pool_total (env_pool env)"
  obtains s1 where "recv_in_buf env s = Ret (True, s1)" "same_input s s1"
    "s_in_csid s < length (s_in_streams s)"
    "case old of None \<Rightarrow> loaded s1 rx p \<and> rx_step (s_conf s) (s_in_chunk_size s) g rx p = Need
     | Some xs \<Rightarrow> fresh s1 rx \<and> st_in (s_in_streams s1 ! 0) \<noteq> []"
proof (cases "st_in (cur_stream s) = []")
  case False
  have "case old of None \<Rightarrow> loaded s rx p \<and> rx_step (s_conf s) (s_in_chunk_size s) g rx p = Need
     | Some xs \<Rightarrow> fresh s rx \<and> st_in (s_in_streams s ! 0) \<noteq> []"
    using t False by (auto simp: turn_ready_def idle_def split: option.splits)
  moreover have "s_in_csid s < length (s_in_streams s)"
    using t by (auto simp: turn_ready_def idle_def rx_frame_def split: option.splits)
  ultimately show thesis using False by (intro that [of s]) (simp_all add: recv_in_buf_def)
next
  case True
  have fr: "fresh s rx" "st_in (s_in_streams s ! 0) = []" and p: "old = None \<Longrightarrow> p = []"
    using t True by (auto simp: turn_ready_def idle_def split: option.splits dest: at_chunk_nonempty)
  obtain b s1 where b: "ngx_rtmp_alloc_in_buf env s = Ret (Some b, s1)" "s_in_csid s1 = 0"
    "fresh (upd_stream 0 (\<lambda>st. st\<lparr>st_in := [b]\<rparr>) s1) rx" "loaded (upd_stream 0 (\<lambda>st. st\<lparr>st_in := [b]\<rparr>) s1) rx []"
    "b_last b = 0" "same_input s s1"
    using alloc_in_buf_fresh [OF fr assms(2)] by metis
  let ?s = "upd_stream 0 (\<lambda>st. st\<lparr>st_in := [b]\<rparr>) s1"
  have ne: "st_in (s_in_streams ?s ! 0) \<noteq> []"
    using b(4) at_chunk_nonempty [OF conjunct2 [OF b(4)]] b(2) by simp
  have "case old of None \<Rightarrow> loaded ?s rx p \<and> rx_step (s_conf s) (s_in_chunk_size s) g rx p = Need
     | Some xs \<Rightarrow> fresh ?s rx \<and> st_in (s_in_streams ?s ! 0) \<noteq> []"
    using b(3,4) ne p fr(1) fresh_need by (auto split: option.split)
  then show thesis
    using True b fr by (intro that [of ?s]) (simp_all add: recv_in_buf_def rx_frame_def)
qed

lemma fill_blocked:
  assumes t: "turn_ready g s old rx p" and "pool_total (env_pool env)" "arrivals s = []"
    and old: "old = None \<or> old = Some []"
  obtains s' where "recv_fill env s old = Ret (False, s')" "idle g s' rx p" "same_input s s'"
proof -
  obtain s1 where s1: "recv_in_buf env s = Ret (True, s1)" "same_input s s1"
    "s_in_csid s < length (s_in_streams s)"
    "case old of None \<Rightarrow> loaded s1 rx p \<and> rx_step (s_conf s) (s_in_chunk_size s) g rx p = Need
     | Some xs \<Rightarrow> fresh s1 rx \<and> st_in (s_in_streams s1 ! 0) \<noteq> []"
    using recv_in_buf_ready [OF t assms(2)] by metis
  have ev: "c_event_ok (s_conn s)" using t by (auto simp: turn_ready_def idle_def rx_frame_def split: option.splits)
  from old show thesis
  proof
    assume "old = None"
    with s1 ev assms(3) show thesis
      by (intro that [of s1]) (simp_all add: recv_fill_def recv_socket_empty idle_def)
  next
    assume o: "old = Some []"
    let ?s = "set_cur_buf (cur_buf s1\<lparr>b_pos := 0, b_last := 0\<rparr>) s1"
    have "fresh s1 rx" "st_in (s_in_streams s1 ! 0) \<noteq> []" using s1(4) o by auto
    from fresh_reset [OF this] have "loaded ?s rx []" "fresh ?s rx" by simp_all
    moreover have "p = []" using t o by (simp add: turn_ready_def)
    ultimately have "idle g ?s rx p" using fresh_need by (auto simp: idle_def)
    with s1 o ev assms(3) show thesis
      by (intro that [of ?s]) (simp_all add: recv_fill_def recv_socket_empty Let_def)
  qed
qed

lemma fill_data:
  assumes t: "turn_ready g s old rx p" and "pool_total (env_pool env)" "pieces (arrivals s)"
    and old: "old \<noteq> None \<and> old \<noteq> Some [] \<or> arrivals s \<noteq> []"
  obtains d s' where "recv_fill env s old = Ret (True, s')" "loaded s' rx (p @ d)"
    "d @ concat (arrivals s') = concat (arrivals s)" "pieces (arrivals s')"
    "s_conf s' = s_conf s" "s_in_chunk_size s' = s_in_chunk_size s"
    "d = [] \<Longrightarrow> old \<noteq> None \<and> old \<noteq> Some []"
proof -
  obtain s1 where s1: "recv_in_buf env s = Ret (True, s1)" "same_input s s1"
    "s_in_csid s < length (s_in_streams s)"
    "case old of None \<Rightarrow> loaded s1 rx p \<and> rx_step (s_conf s) (s_in_chunk_size s) g rx p = Need
     | Some xs \<Rightarrow> fresh s1 rx \<and> st_in (s_in_streams s1 ! 0) \<noteq> []"
    using recv_in_buf_ready [OF t assms(2)] by metis
  have ps: "pieces (arrivals s1)" using assms(3) s1(2) by simp
  consider "old = None" | "old = Some []" | x xs where "old = Some (x # xs)"
    by (cases old; cases "the old") auto
  then show thesis
  proof cases
    case 1
    with s1 have l: "loaded s1 rx p" and need: "rx_step (s_conf s1) (s_in_chunk_size s1) g rx p = Need" by auto
    have ne: "arrivals s1 \<noteq> []" using old 1 s1(2) by auto
    obtain d s' where s': "recv_socket env s1 = Ret (True, s')" "loaded s' rx (p @ d)" "d \<noteq> []"
      "d @ concat (arrivals s') = concat (arrivals s1)" "pieces (arrivals s')"
      "s_conf s' = s_conf s1" "s_in_chunk_size s' = s_in_chunk_size s1"
      using recv_socket_data [OF l need_room [OF l need] ps ne] by metis
    with 1 s1 show thesis by (intro that [of s' d]) (simp_all add: recv_fill_def)
  next
    case 2
    let ?s = "set_cur_buf (cur_buf s1\<lparr>b_pos := 0, b_last := 0\<rparr>) s1"
    have "fresh s1 rx" "st_in (s_in_streams s1 ! 0) \<noteq> []" using s1(4) 2 by auto
    from fresh_reset [OF this] have l: "loaded ?s rx []" and room: "0 < buf_room (cur_buf ?s)"
      by (simp_all add: NGX_RTMP_MAX_CHUNK_HEADER_def)
    have p: "p = []" using t 2 by (simp add: turn_ready_def)
    have ps2: "pieces (arrivals ?s)" "arrivals ?s \<noteq> []" using ps old 2 s1(2) by simp_all
    obtain d s' where s': "recv_socket env ?s = Ret (True, s')" "loaded s' rx ([] @ d)" "d \<noteq> []"
      "d @ concat (arrivals s') = concat (arrivals ?s)" "pieces (arrivals s')"
      "s_conf s' = s_conf ?s" "s_in_chunk_size s' = s_in_chunk_size ?s"
      using recv_socket_data [OF l room ps2] by metis
    with 2 s1 p show thesis by (intro that [of s' d]) (simp_all add: recv_fill_def Let_def)
  next
    case 3
    let ?s = "set_cur_buf (cur_buf s1\<lparr>b_pos := 0, b_last := 0\<rparr>) s1"
    have f: "fresh s1 rx" "st_in (s_in_streams s1 ! 0) \<noteq> []" using s1(4) 3 by auto
    note r = fresh_reset [OF f]
    have p: "p = x # xs" "length p \<le> s_in_chunk_size s + NGX_RTMP_MAX_CHUNK_HEADER"
      using t 3 by (auto simp: turn_ready_def)
    have room: "length p \<le> buf_room (cur_buf ?s)" using r(3) p(2) s1(2) by simp
    then have lp: "loaded (load_buf ?s p) rx ([] @ p)" by (rule load_at_chunk [OF r(1)])
    have st0: "0 < length (s_in_streams s1)" "s_in_csid s1 = 0" using f(1) by (simp_all add: rx_frame_def)
    have eq: "load_buf ?s p = set_cur_buf (buf_write (cur_buf s1\<lparr>b_pos := 0, b_last := 0\<rparr>) p) s1"
      unfolding load_buf_def r(4) using st0 by (simp add: set_cur_buf_def upd_stream_def)
    have "\<not> length p > length (b_mem (cur_buf s1))" using room r(4) by simp
    moreover have "\<not> s_in_chunk_size_changing s1" using f(1) by (simp add: rx_frame_def)
    ultimately have "recv_fill env s old = Ret (True, load_buf ?s p)"
      using s1(1,3) 3 p(1) unfolding eq by (simp add: recv_fill_def Let_def)
    with lp s1(2) assms(3) 3 show thesis
      by (intro that [of "load_buf ?s p" "[]"]) (simp_all add: load_buf_def)
  qed
qed

end
