(* ===== verification/Rtmp_Loop.thy ===== *)
theory Rtmp_Loop
  imports Rtmp_Sim
begin

text \<open>
  The parsing and the payload part of a turn of the read loop, the turn as a whole, and the loop: whatever
  pieces the bytes arrive in, the session ends up where the abstract receiver of \<open>Rtmp_Input\<close> does.
\<close>

section \<open>Headers\<close>

lemma parse_basic_suffix: "parse_basic p = Some (fmt, csid, q) \<Longrightarrow> suffix q p"
  by (cases p; cases "tl p"; cases "tl (tl p)")
     (auto simp: parse_basic_def Let_def suffix_ConsI split: if_splits)

lemma parse_ext_suffix: "parse_ext pf fmt st ext ts p = (st', Some q) \<Longrightarrow> suffix q p"
  by (auto simp: parse_ext_def Let_def suffix_drop split: if_splits)

lemma parse_mheader_suffix: "parse_mheader pf fmt st p = (st', Some q) \<Longrightarrow> suffix q p"
  by (auto simp: parse_mheader_def Let_def split: if_splits
      dest!: parse_ext_suffix intro: suffix_order.trans [OF _ suffix_drop])

lemma suffix_drop_eq: "suffix q p \<Longrightarrow> drop (length p - length q) p = q"
  by (auto simp: suffix_def)

lemma parse_mheader_strm:
  assumes "parse_mheader pf fmt (strm st) p = (st', r)"
  shows "parse_mheader pf fmt st p = (st'\<lparr>st_in := st_in st\<rparr>, r)" "strm st' = st'"
proof -
  have "parse_mheader pf fmt ((strm st)\<lparr>st_in := st_in st\<rparr>) p = (st'\<lparr>st_in := st_in st\<rparr>, r)"
    unfolding parse_mheader_in assms by simp
  then show "parse_mheader pf fmt st p = (st'\<lparr>st_in := st_in st\<rparr>, r)" by (simp add: strm_def)
  have "parse_mheader pf fmt ((strm st)\<lparr>st_in := []\<rparr>) p = (st'\<lparr>st_in := []\<rparr>, r)"
    unfolding parse_mheader_in assms by simp
  then show "strm st' = st'" using assms by (simp add: strm_def)
qed

lemma drop_buf_content:
  assumes "buf_ok b" "k \<le> length (buf_content b)"
  shows "buf_content (b\<lparr>b_pos := b_pos b + k\<rparr>) = drop k (buf_content b)"
  using assms by (simp add: buf_content_def drop_take add.commute)

text \<open>The stream the header is for, with the buffer that holds the header at the end of its ring.\<close>

definition header_at :: "bool \<Rightarrow> ('w, 'p) rtmp_session \<Rightarrow> 'w rx \<Rightarrow> nat \<Rightarrow> nat \<Rightarrow> buf \<Rightarrow> bytes \<Rightarrow> bool" where
  "header_at pf s rx n fmt b q \<longleftrightarrow> rx_frame s rx \<and> s_in_csid s = n \<and> n \<noteq> 0 \<and>
     (\<exists>bs. st_in (s_in_streams s ! n) = bs @ [b] \<and> map buf_content bs = rx_dat rx n) \<and>
     (\<forall>d. parse_mheader pf fmt (strm (s_in_streams s ! n)) (q @ d) = parse_mheader pf fmt (rx_join rx n) (q @ d))"

lemma link_orphan_at:
  assumes l: "loaded s rx p" and "s_in_csid s = 0" and n: "n \<noteq> 0" "n < cf_max_streams (s_conf s)"
  shows "header_at pf (link_orphan n s) rx n fmt (cur_buf s) q" "same_input s (link_orphan n s)"
proof -
  obtain b bs where b: "st_in (s_in_streams s ! 0) = b # bs"
    using at_chunk_nonempty [OF conjunct2 [OF l]] assms(2) by (cases "st_in (s_in_streams s ! 0)") auto
  have cb: "cur_buf s = b" using b assms(2) by (simp add: cur_buf_def)
  have fr: "rx_frame s rx" using l by simp
  then have len: "length (s_in_streams s) = cf_max_streams (s_conf s)" by (simp add: rx_frame_def)
  have ag: "agrees rx n (s_in_streams s ! n)"
    using fr assms(2) n len by (simp add: rx_frame_def others_agree_def)
  let ?s = "link_orphan n s"
  let ?st = "(s_in_streams s ! n)\<lparr>st_in := st_in (s_in_streams s ! n) @ [b],
    st_hdr := (st_hdr (s_in_streams s ! n))\<lparr>mh_csid := word_of_nat n\<rparr>\<rparr>"
  let ?fst = "(s_in_streams s ! 0)\<lparr>st_in := bs\<rparr>"
  have strs: "s_in_streams ?s = (s_in_streams s)[0 := ?fst, n := ?st]"
    using n b cb by (simp add: link_orphan_def Let_def)
  have at_n: "s_in_streams ?s ! n = ?st" using n len by (simp add: strs)
  have r0: "rings_ok (s_in_chunk_size s) (s_in_streams s)" using fr by (simp add: rx_frame_def)
  have ib: "in_buf (s_in_chunk_size s) c" if "c \<in> set (b # bs)" for c
    using rings_okD [OF r0, of 0 c] that b len n by simp
  have "rings_ok (s_in_chunk_size s) (s_in_streams ?s)"
    unfolding strs using r0 ib n len by (intro rings_ok_upd) (auto intro: rings_okD)
  moreover have "others_agree (s_in_streams ?s) n rx"
    using fr assms(2) n len by (auto simp: strs rx_frame_def others_agree_def)
  ultimately have fr': "rx_frame ?s rx" and csid: "s_in_csid ?s = n"
    using fr n len by (simp_all add: rx_frame_def link_orphan_def Let_def)
  have "rx_str rx n = strm (s_in_streams s ! n)" using ag by (simp add: agrees_def)
  then have "strm ?st = rx_join rx n" unfolding rx_join_def by (simp add: strm_def)
  then show "header_at pf ?s rx n fmt (cur_buf s) q"
    using fr' csid n(1) ag cb at_n by (simp add: header_at_def agrees_def)
  show "same_input s ?s" by (simp add: link_orphan_def Let_def)
qed

lemma header_ready:
  assumes l: "loaded s rx p" and "rx_cur rx = 0" and pb: "parse_basic p = Some (fmt, csid, q)"
    and "unat csid < cf_max_streams (s_conf s)"
  defines "s1 \<equiv> if s_in_csid s = 0 then link_orphan (unat csid) s else s"
  shows "header_at (cf_publish_time_fix (s_conf s)) s1 rx (unat csid) fmt (cur_buf s) q" "same_input s s1"
proof -
  have n: "unat csid \<noteq> 0" using parse_basic_csid [OF pb] by (simp add: unat_eq_zero)
  have "header_at (cf_publish_time_fix (s_conf s)) s1 rx (unat csid) fmt (cur_buf s) q \<and> same_input s s1"
  proof (cases "s_in_csid s = 0")
    case True
    then show ?thesis
      using link_orphan_at [OF l True n assms(4)] by (simp add: s1_def)
  next
    case False
    from conjunct2 [OF l] False assms(2) obtain bs b where h: "st_in (cur_stream s) = bs @ [b]"
      "map buf_content bs = rx_dat rx (s_in_csid s)" "unat csid = s_in_csid s"
      "\<And>d. parse_mheader (cf_publish_time_fix (s_conf s)) fmt (strm (cur_stream s)) (q @ d) =
        parse_mheader (cf_publish_time_fix (s_conf s)) fmt (rx_join rx (s_in_csid s)) (q @ d)"
      using pb by (cases rule: at_chunk.cases) auto
    then show ?thesis
      using l False by (auto simp: s1_def header_at_def cur_buf_def)
  qed
  then show "header_at (cf_publish_time_fix (s_conf s)) s1 rx (unat csid) fmt (cur_buf s) q" "same_input s s1"
    by simp_all
qed

lemma finalize_simps [simp]:
  "c_destroyed (s_conn (ngx_rtmp_finalize_session s))" "s_world (ngx_rtmp_finalize_session s) = s_world s"
  by (simp_all add: ngx_rtmp_finalize_session_def)

lemma header_buf:
  assumes "loaded s rx p" "rx_cur rx = 0"
  shows "b_pos (cur_buf s) = 0"
  using conjunct2 [OF assms(1)] assms(2) by (cases rule: at_chunk.cases) (auto simp: cur_buf_def)

lemma recv_header_incomplete:
  assumes l: "loaded s rx p" and c0: "rx_cur rx = 0" and need: "rx_head (s_conf s) rx p = Need"
  obtains s' where "recv_header (s_conf s) s = Ret (Incomplete, s')" "loaded s' rx p" "same_input s s'"
proof -
  have b0: "b_pos (cur_buf s) = 0" "buf_content (cur_buf s) = p"
    by (rule header_buf [OF l c0], rule cur_buf_in [OF l])
  show thesis
  proof (cases "parse_basic p")
    case None
    then show thesis using l b0 by (intro that [of s]) (simp_all add: recv_header_def)
  next
    case (Some x)
    then obtain fmt csid q where pb: "parse_basic p = Some (fmt, csid, q)" by (cases x) auto
    let ?pf = "cf_publish_time_fix (s_conf s)" and ?n = "unat csid"
    have n: "?n < cf_max_streams (s_conf s)"
      using need pb by (auto simp: rx_head_def split: if_splits)
    obtain st r where r: "parse_mheader ?pf fmt (rx_join rx ?n) q = (st, r)" by force
    have r: "parse_mheader ?pf fmt (rx_join rx ?n) q = (st, None)"
      using need pb n r by (auto simp: rx_head_def split: option.splits if_splits)
    define s1 where "s1 = (if s_in_csid s = 0 then link_orphan ?n s else s)"
    have h: "header_at ?pf s1 rx ?n fmt (cur_buf s) q" "same_input s s1"
      using header_ready [OF l c0 pb n] by (simp_all add: s1_def)
    then obtain bs where bs: "st_in (s_in_streams s1 ! ?n) = bs @ [cur_buf s]" "map buf_content bs = rx_dat rx ?n"
      by (auto simp: header_at_def)
    have all: "parse_mheader ?pf fmt (strm (s_in_streams s1 ! ?n)) (q @ d) = parse_mheader ?pf fmt (rx_join rx ?n) (q @ d)" for d
      using h(1) by (simp add: header_at_def)
    have csid: "s_in_csid s1 = ?n" "rx_frame s1 rx" "?n \<noteq> 0" using h(1) by (simp_all add: header_at_def)
    have pm: "parse_mheader ?pf fmt (strm (s_in_streams s1 ! ?n)) q = (st, None)"
      using all [of "[]"] r by simp
    note pms = parse_mheader_strm [OF pm]
    let ?s = "upd_stream ?n (\<lambda>_. st\<lparr>st_in := bs @ [cur_buf s]\<rparr>) s1"
    have len: "?n < length (s_in_streams s1)" "?n < length (s_in_streams s)"
      using csid(2) l n h(2) by (simp_all add: rx_frame_def)
    have strs: "s_in_streams ?s ! ?n = st\<lparr>st_in := bs @ [cur_buf s]\<rparr>" using len by simp
    have fr: "rx_frame ?s rx"
    proof -
      have "rings_ok (s_in_chunk_size s1) (s_in_streams s1)" using csid(2) by (simp add: rx_frame_def)
      then have "rings_ok (s_in_chunk_size s1) (s_in_streams ?s)"
        unfolding upd_stream_simps using bs(1) len(1)
        by (intro rings_ok_upd) (auto intro: rings_okD)
      then show ?thesis using csid by (simp add: rx_frame_def)
    qed
    have "at_chunk ?pf (s_in_streams ?s) rx p ?n"
    proof (rule at_chunk.header [OF csid(3) c0, of _ bs "cur_buf s" p fmt csid q])
      show "st_in (s_in_streams ?s ! ?n) = bs @ [cur_buf s]" unfolding strs by simp
      show "parse_mheader ?pf fmt (strm (s_in_streams ?s ! ?n)) (q @ d) = parse_mheader ?pf fmt (rx_join rx ?n) (q @ d)" for d
      proof -
        have "strm (s_in_streams ?s ! ?n) = st" unfolding strs using pms(2) by (simp add: strm_def)
        then show ?thesis using parse_again [OF pm, of d] all [of d] by simp
      qed
    qed (use b0 bs pb len in simp_all)
    then have lo: "loaded ?s rx p" using fr csid h(2) by simp
    have "recv_header (s_conf s) s = Ret (Incomplete, ?s)"
      using b0 pb n len(2) pms(1) csid(1) bs(1) by (simp add: recv_header_def Let_def s1_def [symmetric])
    with lo h(2) show thesis by (intro that [of ?s]) auto
  qed
qed

lemma recv_header_step:
  assumes l: "loaded s rx p" and c0: "rx_cur rx = 0" and step: "rx_head (s_conf s) rx p = Step rx' q'"
  obtains s' where "recv_header (s_conf s) s = Ret (Parsed, s')" "loaded s' rx' q'" "same_input s s'" "rx_cur rx' \<noteq> 0"
proof -
  have b0: "b_pos (cur_buf s) = 0" "buf_content (cur_buf s) = p"
    by (rule header_buf [OF l c0], rule cur_buf_in [OF l])
  let ?pf = "cf_publish_time_fix (s_conf s)"
  obtain fmt csid q st where pb: "parse_basic p = Some (fmt, csid, q)"
    and n: "unat csid < cf_max_streams (s_conf s)"
    and r: "parse_mheader ?pf fmt (rx_join rx (unat csid)) q = (st, Some q')"
    and mlen: "unat (mh_mlen (st_hdr st)) \<le> cf_max_message (s_conf s)"
    and rx': "rx' = rx\<lparr>rx_str := (rx_str rx)(unat csid := st), rx_cur := unat csid\<rparr>"
    using step by (auto simp: rx_head_def split: option.splits if_splits prod.splits)
  let ?n = "unat csid"
  define s1 where "s1 = (if s_in_csid s = 0 then link_orphan ?n s else s)"
  have h: "header_at ?pf s1 rx ?n fmt (cur_buf s) q" "same_input s s1"
    using header_ready [OF l c0 pb n] by (simp_all add: s1_def)
  then obtain bs where bs: "st_in (s_in_streams s1 ! ?n) = bs @ [cur_buf s]" "map buf_content bs = rx_dat rx ?n"
    by (auto simp: header_at_def)
  have csid: "s_in_csid s1 = ?n" "rx_frame s1 rx" "?n \<noteq> 0" using h(1) by (simp_all add: header_at_def)
  have "parse_mheader ?pf fmt (strm (s_in_streams s1 ! ?n)) (q @ []) = parse_mheader ?pf fmt (rx_join rx ?n) (q @ [])"
    using h(1) unfolding header_at_def by blast
  then have pm: "parse_mheader ?pf fmt (strm (s_in_streams s1 ! ?n)) q = (st, Some q')" using r by simp
  note pms = parse_mheader_strm [OF pm]
  let ?k = "length p - length q'"
  have suf: "suffix q' p" using parse_mheader_suffix [OF pm] parse_basic_suffix [OF pb] by (rule suffix_order.trans)
  have k: "0 < ?k" "?k \<le> 18" "length q' \<le> length p"
    using parse_basic_length [OF pb] parse_mheader_length [OF pm] by auto
  have ib: "in_buf (s_in_chunk_size s) (cur_buf s)" by (rule cur_buf_in [OF l])
  then have ok: "buf_ok (cur_buf s)" by (rule in_buf_ok)
  have last: "b_last (cur_buf s) = length p" using length_buf_content [OF ok] b0 by simp
  let ?b = "cur_buf s\<lparr>b_pos := b_last (cur_buf s) - length q'\<rparr>"
  have bc: "buf_content ?b = q'"
    using drop_buf_content [OF ok, of ?k] b0 k last suffix_drop_eq [OF suf] by simp
  let ?t = "upd_stream ?n (\<lambda>_. st\<lparr>st_in := bs @ [cur_buf s]\<rparr>) s1"
  let ?s = "set_cur_buf ?b ?t"
  have len: "?n < length (s_in_streams s1)" "?n < length (s_in_streams s)"
    using csid(2) l n h(2) by (simp_all add: rx_frame_def)
  have strs: "s_in_streams ?s = (s_in_streams s1)[?n := st\<lparr>st_in := bs @ [?b]\<rparr>]"
    using len csid by (simp add: set_cur_buf_def)
  have "rings_ok (s_in_chunk_size s1) (s_in_streams s1)" using csid(2) by (simp add: rx_frame_def)
  moreover have "in_buf (s_in_chunk_size s1) ?b" using ib h(2) k(3) last by (simp add: in_buf_def buf_ok_def)
  ultimately have ro: "rings_ok (s_in_chunk_size s1) (s_in_streams ?s)"
    unfolding strs using bs(1) len(1) by (intro rings_ok_upd) (auto intro: rings_okD)
  have "others_agree (s_in_streams ?s) ?n rx'"
    using csid(1,2) by (auto simp: strs rx' rx_frame_def others_agree_def agrees_def)
  moreover have "length (s_in_streams ?s) = length (s_in_streams s1)" by (simp add: strs)
  ultimately have fr: "rx_frame ?s rx'" using csid ro by (simp add: rx_frame_def rx')
  have "at_chunk ?pf (s_in_streams ?s) rx' q' ?n"
  proof (rule at_chunk.payload [OF csid(3), of rx' _ bs ?b])
    show "st_in (s_in_streams ?s ! ?n) = bs @ [?b]" unfolding strs using len by simp
    show "strm (s_in_streams ?s ! ?n) = rx_str rx' ?n"
      unfolding strs using len pms(2) by (simp add: rx' strm_def)
  qed (use bs(2) bc k last in \<open>simp_all add: rx'\<close>)
  then have lo: "loaded ?s rx' q'" using fr csid h(2) by simp
  have "recv_header (s_conf s) s = Ret (Parsed, ?s)"
    using b0 pb n len(2) pms(1) csid(1) bs(1) mlen
    by (simp add: recv_header_def Let_def s1_def [symmetric])
  with lo h(2) csid(3) rx' show thesis by (intro that [of ?s]) auto
qed

lemma recv_header_dead:
  assumes l: "loaded s rx p" and c0: "rx_cur rx = 0" and dead: "rx_head (s_conf s) rx p = Dead w"
  obtains s' where "recv_header (s_conf s) s = Ret (Refused, s')" "c_destroyed (s_conn s')" "s_world s' = w"
proof -
  have b0: "b_pos (cur_buf s) = 0" "buf_content (cur_buf s) = p"
    by (rule header_buf [OF l c0], rule cur_buf_in [OF l])
  have w: "w = rx_world rx" using dead by (auto simp: rx_head_def split: option.splits if_splits prod.splits)
  let ?pf = "cf_publish_time_fix (s_conf s)"
  obtain fmt csid q where pb: "parse_basic p = Some (fmt, csid, q)"
    using dead by (auto simp: rx_head_def split: option.splits)
  let ?n = "unat csid"
  show thesis
  proof (cases "?n < cf_max_streams (s_conf s)")
    case False
    then show thesis
      using l b0 pb w
      by (intro that [of "ngx_rtmp_finalize_session s"]) (simp_all add: recv_header_def rx_frame_def)
  next
    case n: True
    then obtain st q' where r: "parse_mheader ?pf fmt (rx_join rx ?n) q = (st, Some q')"
      and mlen: "\<not> unat (mh_mlen (st_hdr st)) \<le> cf_max_message (s_conf s)"
      using dead pb by (auto simp: rx_head_def split: option.splits if_splits prod.splits)
    define s1 where "s1 = (if s_in_csid s = 0 then link_orphan ?n s else s)"
    have h: "header_at ?pf s1 rx ?n fmt (cur_buf s) q" "same_input s s1"
      using header_ready [OF l c0 pb n] by (simp_all add: s1_def)
    have csid: "s_in_csid s1 = ?n" "rx_frame s1 rx" using h(1) by (simp_all add: header_at_def)
    have "parse_mheader ?pf fmt (strm (s_in_streams s1 ! ?n)) (q @ []) = parse_mheader ?pf fmt (rx_join rx ?n) (q @ [])"
      using h(1) unfolding header_at_def by blast
    then have pm: "parse_mheader ?pf fmt (strm (s_in_streams s1 ! ?n)) q = (st, Some q')" using r by simp
    let ?s = "set_cur_buf (cur_buf s\<lparr>b_pos := b_last (cur_buf s) - length q'\<rparr>)
      (upd_stream ?n (\<lambda>_. st\<lparr>st_in := st_in (s_in_streams s1 ! ?n)\<rparr>) s1)"
    have len: "?n < length (s_in_streams s)" using l n by (simp add: rx_frame_def)
    have "recv_header (s_conf s) s = Ret (Refused, ngx_rtmp_finalize_session ?s)"
      using b0 pb n len parse_mheader_strm(1) [OF pm] csid(1) mlen
      by (simp add: recv_header_def Let_def s1_def [symmetric])
    moreover have "s_world ?s = w" using csid(2) w by (simp add: rx_frame_def)
    ultimately show thesis
      by (intro that [of "ngx_rtmp_finalize_session ?s"]) simp_all
  qed
qed

section \<open>Payloads\<close>

text \<open>The handlers see a message by its header and the payload in its buffers, and change what is theirs.\<close>

definition handles ::
    "(byte \<Rightarrow> 'h list) \<Rightarrow> ('h, 'w, 'p) rtmp_call \<Rightarrow> 'w rx_handler \<Rightarrow> bool" where
  "handles ev call g \<longleftrightarrow> (\<forall>s hdr head. ngx_rtmp_receive_message ev call s hdr head =
     (case g hdr (map buf_content head) (s_world s) of (rc, w) \<Rightarrow> Ret (rc, s\<lparr>s_world := w\<rparr>)))"

lemma recv_header_payload: "loaded s rx p \<Longrightarrow> rx_cur rx \<noteq> 0 \<Longrightarrow> recv_header cscf s = Ret (Parsed, s)"
proof -
  assume l: "loaded s rx p" and c: "rx_cur rx \<noteq> 0"
  from conjunct2 [OF l] c show ?thesis by (cases rule: at_chunk.cases) (auto simp: recv_header_def cur_buf_def)
qed

lemma payload_at:
  assumes l: "loaded s rx p" and c: "rx_cur rx \<noteq> 0"
  obtains bs b where "s_in_csid s = rx_cur rx" "st_in (s_in_streams s ! rx_cur rx) = bs @ [b]" "cur_buf s = b"
    "map buf_content bs = rx_dat rx (rx_cur rx)" "strm (s_in_streams s ! rx_cur rx) = rx_str rx (rx_cur rx)"
    "buf_content b = p" "b_last b - b_pos b = length p" "in_buf (s_in_chunk_size s) b"
    "rx_cur rx < length (s_in_streams s)"
proof -
  have ib: "in_buf (s_in_chunk_size s) (cur_buf s)" "buf_content (cur_buf s) = p" by (rule cur_buf_in [OF l])+
  then have len: "b_last (cur_buf s) - b_pos (cur_buf s) = length p"
    using length_buf_content [OF in_buf_ok [OF ib(1)]] by simp
  from conjunct2 [OF l] c show thesis
  proof (cases rule: at_chunk.cases)
    case (payload bs b)
    then have "cur_buf s = b" by (simp add: cur_buf_def)
    with payload l ib len show thesis by (intro that [of bs b]) (simp_all add: rx_frame_def)
  qed simp_all
qed

lemma strm_fields [simp]:
  "st_hdr (strm st) = st_hdr st" "st_len (strm st) = st_len st" "st_dtime (strm st) = st_dtime st"
  "st_ext (strm st) = st_ext st" "st_in (strm st) = []"
  by (simp_all add: strm_def)

lemma take_buf_content:
  assumes "buf_ok b" "k \<le> length (buf_content b)"
  shows "buf_content (b\<lparr>b_last := b_pos b + k\<rparr>) = take k (buf_content b)"
  using assms by (auto simp: buf_content_def buf_ok_def min_def split: if_splits)

lemma recv_payload_need:
  assumes l: "loaded s rx p" and c: "rx_cur rx \<noteq> 0" and "rx_body (s_in_chunk_size s) g rx p = Need"
  shows "recv_payload ev call cscf s = Ret (s, Some (cscf, s, None))"
proof -
  obtain bs b where b: "s_in_csid s = rx_cur rx" "cur_buf s = b" "strm (s_in_streams s ! rx_cur rx) = rx_str rx (rx_cur rx)"
    "b_last b - b_pos b = length p"
    using payload_at [OF l c] by metis
  have "st_hdr (rx_str rx (rx_cur rx)) = st_hdr (cur_stream s)" "st_len (rx_str rx (rx_cur rx)) = st_len (cur_stream s)"
    using b(1) b(3) [symmetric] by simp_all
  then show ?thesis
    using assms(3) b by (auto simp: recv_payload_def rx_body_def Let_def split: if_splits prod.splits)
qed

text \<open>The next chunk starts in a fresh buffer with what is left over.\<close>

lemma frame_between:
  assumes "rx_frame s rx" "s_in_csid s = n" "n \<noteq> 0" "n < length (s_in_streams s)"
    and "strm st = rx_str rx' n" "map buf_content (st_in st) = rx_dat rx' n"
    and "\<And>b. b \<in> set (st_in st) \<Longrightarrow> in_buf (s_in_chunk_size s) b"
    and "\<And>m. m \<noteq> n \<Longrightarrow> rx_str rx' m = rx_str rx m \<and> rx_dat rx' m = rx_dat rx m"
    and "\<And>b. b \<in> set (st_in st0) \<Longrightarrow> in_buf (s_in_chunk_size s) b"
    and "s_in_streams s' = (s_in_streams s)[n := st, 0 := st0]" "s_in_csid s' = 0"
    and "same_input s s'" "s_in_pool s' = s_in_pool s" "s_in_chunk_size_changing s' = s_in_chunk_size_changing s"
    and "s_server_changed s' = s_server_changed s" "s_ack_size s' = s_ack_size s" "s_world s' = rx_world rx'"
  shows "rx_frame s' rx'"
proof -
  have ro: "rings_ok (s_in_chunk_size s) (s_in_streams s')"
    unfolding assms(10) using assms(1,7,9) by (intro rings_ok_upd) (simp_all add: rx_frame_def)
  have "others_agree (s_in_streams s') 0 rx'"
    unfolding others_agree_def
  proof (intro allI impI)
    fix m assume m: "0 < m" "m < length (s_in_streams s')" "m \<noteq> 0"
    show "agrees rx' m (s_in_streams s' ! m)"
    proof (cases "m = n")
      case True
      then show ?thesis using assms(3-6,10) by (simp add: agrees_def)
    next
      case False
      then have "agrees rx m (s_in_streams s ! m)"
        using m assms(1,2,10) by (simp add: rx_frame_def others_agree_def)
      then show ?thesis using False m assms(8) [OF False] assms(10) by (simp add: agrees_def)
    qed
  qed
  then show ?thesis using assms ro by (simp add: rx_frame_def)
qed

lemma recv_payload_fragment:
  assumes l: "loaded s rx p" and c: "rx_cur rx \<noteq> 0"
  defines "st \<equiv> rx_str rx (rx_cur rx)" and "cs \<equiv> s_in_chunk_size s"
  assumes big: "cs < unat (mh_mlen (st_hdr st) - st_len st)" and len: "cs \<le> length p"
    and rx': "rx' = rx\<lparr>rx_str := (rx_str rx)(rx_cur rx := st\<lparr>st_len := st_len st + word_of_nat cs\<rparr>),
      rx_dat := (rx_dat rx)(rx_cur rx := rx_dat rx (rx_cur rx) @ [take cs p]), rx_cur := 0\<rparr>"
  obtains s0 s' where "recv_payload ev call cscf s = Ret (s0, Some (cscf, s', Some (drop cs p)))"
    "turn_ready g s' (Some (drop cs p)) rx' (drop cs p)" "same_input s s'"
proof -
  let ?n = "rx_cur rx"
  obtain bs b where b: "s_in_csid s = ?n" "st_in (s_in_streams s ! ?n) = bs @ [b]" "cur_buf s = b"
    "map buf_content bs = rx_dat rx ?n" "strm (s_in_streams s ! ?n) = st"
    "buf_content b = p" "b_last b - b_pos b = length p" "in_buf cs b" "?n < length (s_in_streams s)"
    using payload_at [OF l c] unfolding st_def cs_def by metis
  have f: "st_hdr st = st_hdr (s_in_streams s ! ?n)" "st_len st = st_len (s_in_streams s ! ?n)"
    using b(5) [symmetric] by simp_all
  have fr: "rx_frame s rx" using l by simp
  let ?b = "b\<lparr>b_last := b_pos b + cs\<rparr>"
  let ?st = "(s_in_streams s ! ?n)\<lparr>st_in := bs @ [?b], st_len := st_len st + word_of_nat cs\<rparr>"
  have bc: "buf_content ?b = take cs p" using take_buf_content [OF in_buf_ok [OF b(8)], of cs] b(6) len by simp
  have ib: "in_buf cs ?b" using b(7,8) len by (auto simp: in_buf_def buf_ok_def)
  let ?s = "upd_stream ?n (\<lambda>st. st\<lparr>st_len := st_len st + word_of_nat cs\<rparr>) (set_cur_buf ?b s)"
  have strs: "s_in_streams ?s = (s_in_streams s)[?n := ?st]"
    using b(1,2,9) c f by (simp add: set_cur_buf_def)
  have "rx_frame (?s\<lparr>s_in_csid := 0\<rparr>) rx'"
  proof (rule frame_between [OF fr b(1) c b(9), of ?st rx' "s_in_streams s ! 0"])
    have "strm ?st = (strm (s_in_streams s ! ?n))\<lparr>st_len := st_len st + word_of_nat cs\<rparr>" by (simp add: strm_def)
    then show "strm ?st = rx_str rx' ?n" using b(5) by (simp add: rx')
    show "map buf_content (st_in ?st) = rx_dat rx' ?n" using b(4) bc by (simp add: rx')
    show "in_buf (s_in_chunk_size s) x" if "x \<in> set (st_in ?st)" for x
    proof -
      have "in_buf cs x" if "x \<in> set bs"
        using rings_okD [of cs "s_in_streams s" ?n x] fr b(2,9) that by (simp add: rx_frame_def cs_def)
      then show ?thesis using that ib by (auto simp: cs_def)
    qed
    show "in_buf (s_in_chunk_size s) x" if "x \<in> set (st_in (s_in_streams s ! 0))" for x
    proof -
      have "rings_ok cs (s_in_streams s)" "0 < length (s_in_streams s)" using fr by (simp_all add: rx_frame_def cs_def)
      from rings_okD [OF this that] show ?thesis by (simp add: cs_def)
    qed
    show "s_in_streams (?s\<lparr>s_in_csid := 0\<rparr>) = (s_in_streams s)[?n := ?st, 0 := s_in_streams s ! 0]"
      using strs c by (simp add: list_update_swap)
    show "s_world (?s\<lparr>s_in_csid := 0\<rparr>) = rx_world rx'" using fr by (simp add: rx' rx_frame_def)
  qed (use rx' in simp_all)
  moreover have "length (drop cs p) \<le> cs + NGX_RTMP_MAX_CHUNK_HEADER"
    using b(7,8) by (auto simp: in_buf_def buf_ok_def)
  ultimately have tr: "turn_ready g (?s\<lparr>s_in_csid := 0\<rparr>) (Some (drop cs p)) rx' (drop cs p)"
    by (simp add: turn_ready_def rx' cs_def)
  have rp: "recv_payload ev call cscf s = Ret (?s, Some (cscf, ?s\<lparr>s_in_csid := 0\<rparr>, Some (drop cs p)))"
    using b f big len by (simp add: recv_payload_def Let_def cs_def)
  show thesis by (rule that [OF rp tr]) simp
qed

text \<open>The session after the handlers have run.\<close>

lemma recv_payload_handled:
  assumes l: "loaded s rx p" and c: "rx_cur rx \<noteq> 0" and h: "handles ev call g"
  defines "st \<equiv> rx_str rx (rx_cur rx)"
  defines "fsize \<equiv> unat (mh_mlen (st_hdr st) - st_len st)"
    and "hdr \<equiv> (st_hdr st)\<lparr>mh_timestamp := mh_timestamp (st_hdr st) + st_dtime st\<rparr>"
  assumes small: "fsize \<le> s_in_chunk_size s" and len: "fsize \<le> length p"
    and g: "g hdr (rx_dat rx (rx_cur rx) @ [take fsize p]) (rx_world rx) = (rc, w)"
  obtains head s2 where
    "recv_payload ev call cscf s =
       (if rc \<noteq> NGX_OK then Ret (ngx_rtmp_finalize_session s2, None)
        else Ret (upd_stream 0 (\<lambda>st. st\<lparr>st_in := head @ st_in st\<rparr>) s2,
          Some (cscf, (upd_stream 0 (\<lambda>st. st\<lparr>st_in := head @ st_in st\<rparr>) s2)\<lparr>s_in_csid := 0\<rparr>, Some (drop fsize p))))"
    "s_in_streams s2 = (s_in_streams s)[rx_cur rx := (s_in_streams s ! rx_cur rx)\<lparr>st_len := 0, st_hdr := hdr, st_in := []\<rparr>]"
    "\<And>b. b \<in> set head \<Longrightarrow> in_buf (s_in_chunk_size s) b" "same_input s s2" "s_in_pool s2 = s_in_pool s"
    "\<not> s_in_chunk_size_changing s2" "\<not> s_server_changed s2" "s_ack_size s2 = s_ack_size s" "s_world s2 = w"
    "length p \<le> s_in_chunk_size s + NGX_RTMP_MAX_CHUNK_HEADER"
proof -
  let ?n = "rx_cur rx"
  obtain bs b where b: "s_in_csid s = ?n" "st_in (s_in_streams s ! ?n) = bs @ [b]" "cur_buf s = b"
    "map buf_content bs = rx_dat rx ?n" "strm (s_in_streams s ! ?n) = st"
    "buf_content b = p" "b_last b - b_pos b = length p" "in_buf (s_in_chunk_size s) b" "?n < length (s_in_streams s)"
    using payload_at [OF l c] unfolding st_def by metis
  have f: "st_hdr st = st_hdr (s_in_streams s ! ?n)" "st_len st = st_len (s_in_streams s ! ?n)"
    "st_dtime st = st_dtime (s_in_streams s ! ?n)"
    using b(5) [symmetric] by simp_all
  have fr: "rx_frame s rx" using l by simp
  let ?b = "b\<lparr>b_last := b_pos b + fsize\<rparr>"
  have bc: "buf_content ?b = take fsize p" using take_buf_content [OF in_buf_ok [OF b(8)], of fsize] b(6) len by simp
  have ib: "in_buf (s_in_chunk_size s) x" if "x \<in> set (bs @ [?b])" for x
  proof -
    have "in_buf (s_in_chunk_size s) ?b" using b(7,8) len by (auto simp: in_buf_def buf_ok_def)
    moreover have "in_buf (s_in_chunk_size s) x" if "x \<in> set bs"
      using rings_okD [of "s_in_chunk_size s" "s_in_streams s" ?n x] fr b(2,9) that by (simp add: rx_frame_def)
    ultimately show ?thesis using that by auto
  qed
  let ?s = "upd_stream ?n (\<lambda>st. st\<lparr>st_len := 0, st_hdr := hdr, st_in := []\<rparr>) (set_cur_buf ?b s)"
  have cs: "cur_stream (set_cur_buf ?b s) = (s_in_streams s ! ?n)\<lparr>st_in := bs @ [?b]\<rparr>"
    using b(1,2,9) c by (simp add: set_cur_buf_def)
  have rm: "ngx_rtmp_receive_message ev call ?s hdr (bs @ [?b]) = Ret (rc, ?s\<lparr>s_world := w\<rparr>)"
    using h g fr b(4) bc by (simp add: handles_def rx_frame_def)
  have "recv_payload ev call cscf s = recv_message ev call cscf s fsize"
    using b f small len by (simp add: recv_payload_def Let_def fsize_def)
  also have "\<dots> = (if rc \<noteq> NGX_OK then Ret (ngx_rtmp_finalize_session (?s\<lparr>s_world := w\<rparr>), None)
     else Ret (upd_stream 0 (\<lambda>st. st\<lparr>st_in := (bs @ [?b]) @ st_in st\<rparr>) (?s\<lparr>s_world := w\<rparr>),
       Some (cscf, (upd_stream 0 (\<lambda>st. st\<lparr>st_in := (bs @ [?b]) @ st_in st\<rparr>) (?s\<lparr>s_world := w\<rparr>))\<lparr>s_in_csid := 0\<rparr>,
         Some (drop fsize p))))"
    using rm cs b(1,3,6) f fr unfolding recv_message_def Let_def
    by (simp add: hdr_def rx_frame_def del: upd_stream_simps(1))
  finally have rp: "recv_payload ev call cscf s = \<dots>" .
  have strs: "s_in_streams (?s\<lparr>s_world := w\<rparr>) =
    (s_in_streams s)[?n := (s_in_streams s ! ?n)\<lparr>st_len := 0, st_hdr := hdr, st_in := []\<rparr>]"
    using b(1,9) by (simp add: set_cur_buf_def)
  have lp: "length p \<le> s_in_chunk_size s + NGX_RTMP_MAX_CHUNK_HEADER"
    using b(7,8) by (auto simp: in_buf_def buf_ok_def)
  show thesis
    by (rule that [OF rp strs ib]) (use fr lp in \<open>simp_all add: rx_frame_def\<close>)
qed

lemma recv_payload_message:
  assumes l: "loaded s rx p" and c: "rx_cur rx \<noteq> 0" and h: "handles ev call g"
    and step: "rx_body (s_in_chunk_size s) g rx p = Step rx' q"
    and small: "unat (mh_mlen (st_hdr (rx_str rx (rx_cur rx))) - st_len (rx_str rx (rx_cur rx))) \<le> s_in_chunk_size s"
  obtains s0 s' where "recv_payload ev call cscf s = Ret (s0, Some (cscf, s', Some q))"
    "turn_ready g s' (Some q) rx' q" "same_input s s'"
proof -
  let ?n = "rx_cur rx" and ?st = "rx_str rx (rx_cur rx)"
  let ?f = "unat (mh_mlen (st_hdr ?st) - st_len ?st)"
  let ?hdr = "(st_hdr ?st)\<lparr>mh_timestamp := mh_timestamp (st_hdr ?st) + st_dtime ?st\<rparr>"
  obtain w where len: "?f \<le> length p"
    and g: "g ?hdr (rx_dat rx ?n @ [take ?f p]) (rx_world rx) = (NGX_OK, w)"
    and rx': "rx' = rx\<lparr>rx_str := (rx_str rx)(?n := ?st\<lparr>st_len := 0, st_hdr := ?hdr\<rparr>),
      rx_dat := (rx_dat rx)(?n := []), rx_cur := 0, rx_world := w\<rparr>" and q: "q = drop ?f p"
    using step small by (auto simp: rx_body_def Let_def min_def split: if_splits prod.splits)
  obtain head s2 where r: "recv_payload ev call cscf s =
       Ret (upd_stream 0 (\<lambda>st. st\<lparr>st_in := head @ st_in st\<rparr>) s2,
          Some (cscf, (upd_stream 0 (\<lambda>st. st\<lparr>st_in := head @ st_in st\<rparr>) s2)\<lparr>s_in_csid := 0\<rparr>, Some (drop ?f p)))"
    and strs: "s_in_streams s2 = (s_in_streams s)[?n := (s_in_streams s ! ?n)\<lparr>st_len := 0, st_hdr := ?hdr, st_in := []\<rparr>]"
    and ib: "\<And>b. b \<in> set head \<Longrightarrow> in_buf (s_in_chunk_size s) b" and same: "same_input s s2" "s_in_pool s2 = s_in_pool s"
      "\<not> s_in_chunk_size_changing s2" "\<not> s_server_changed s2" "s_ack_size s2 = s_ack_size s" "s_world s2 = w"
    and lp: "length p \<le> s_in_chunk_size s + NGX_RTMP_MAX_CHUNK_HEADER"
    by (rule recv_payload_handled [OF l c h small len g, of cscf]) auto
  obtain b: "s_in_csid s = ?n" "strm (s_in_streams s ! ?n) = ?st" "?n < length (s_in_streams s)"
    using payload_at [OF l c] by metis
  have fr: "rx_frame s rx" using l by simp
  let ?fst = "(s_in_streams s ! 0)\<lparr>st_in := head @ st_in (s_in_streams s ! 0)\<rparr>"
  let ?new = "(s_in_streams s ! ?n)\<lparr>st_len := 0, st_hdr := ?hdr, st_in := []\<rparr>"
  let ?s = "(upd_stream 0 (\<lambda>st. st\<lparr>st_in := head @ st_in st\<rparr>) s2)\<lparr>s_in_csid := 0\<rparr>"
  have "rx_frame ?s rx'"
  proof (rule frame_between [OF fr b(1) c b(3), of ?new rx' ?fst])
    have "strm ?new = (strm (s_in_streams s ! ?n))\<lparr>st_len := 0, st_hdr := ?hdr\<rparr>" by (simp add: strm_def)
    then show "strm ?new = rx_str rx' ?n" using b(2) by (simp add: rx')
    show "in_buf (s_in_chunk_size s) x" if "x \<in> set (st_in ?fst)" for x
    proof -
      have "rings_ok (s_in_chunk_size s) (s_in_streams s)" "0 < length (s_in_streams s)" using fr by (simp_all add: rx_frame_def)
      then have "in_buf (s_in_chunk_size s) x" if "x \<in> set (st_in (s_in_streams s ! 0))"
        using that by (rule rings_okD)
      then show ?thesis using that ib by auto
    qed
    show "s_in_streams ?s = (s_in_streams s)[?n := ?new, 0 := ?fst]"
      using strs c by simp
  qed (use rx' same fr in \<open>simp_all add: rx_frame_def\<close>)
  then have tr: "turn_ready g ?s (Some q) rx' q"
    using lp same by (simp add: turn_ready_def rx' q)
  show thesis by (rule that [OF r [folded q] tr]) (use same in simp)
qed

lemma recv_payload_step:
  assumes l: "loaded s rx p" and c: "rx_cur rx \<noteq> 0" and h: "handles ev call g"
    and step: "rx_body (s_in_chunk_size s) g rx p = Step rx' q"
  obtains s0 s' where "recv_payload ev call cscf s = Ret (s0, Some (cscf, s', Some q))"
    "turn_ready g s' (Some q) rx' q" "same_input s s'"
proof (cases "unat (mh_mlen (st_hdr (rx_str rx (rx_cur rx))) - st_len (rx_str rx (rx_cur rx))) \<le> s_in_chunk_size s")
  case True
  show thesis by (rule recv_payload_message [OF l c h step True that])
next
  case False
  let ?st = "rx_str rx (rx_cur rx)" and ?cs = "s_in_chunk_size s"
  have len: "?cs \<le> length p" and rx': "rx' = rx\<lparr>rx_str := (rx_str rx)(rx_cur rx := ?st\<lparr>st_len := st_len ?st + word_of_nat ?cs\<rparr>),
      rx_dat := (rx_dat rx)(rx_cur rx := rx_dat rx (rx_cur rx) @ [take ?cs p]), rx_cur := 0\<rparr>" and q: "q = drop ?cs p"
    using step False by (auto simp: rx_body_def Let_def min_def split: if_splits prod.splits)
  have big: "?cs < unat (mh_mlen (st_hdr ?st) - st_len ?st)" using False by simp
  show thesis
    by (rule recv_payload_fragment [OF l c big len rx', of ev call cscf g, folded q]) (rule that)
qed

lemma recv_payload_dead:
  assumes l: "loaded s rx p" and c: "rx_cur rx \<noteq> 0" and h: "handles ev call g"
    and dead: "rx_body (s_in_chunk_size s) g rx p = Dead w"
  obtains s' where "recv_payload ev call cscf s = Ret (s', None)" "c_destroyed (s_conn s')" "s_world s' = w"
proof -
  let ?n = "rx_cur rx" and ?st = "rx_str rx (rx_cur rx)"
  let ?f = "unat (mh_mlen (st_hdr ?st) - st_len ?st)"
  let ?hdr = "(st_hdr ?st)\<lparr>mh_timestamp := mh_timestamp (st_hdr ?st) + st_dtime ?st\<rparr>"
  obtain rc where len: "?f \<le> length p" and small: "?f \<le> s_in_chunk_size s" and rc: "rc \<noteq> NGX_OK"
    and g: "g ?hdr (rx_dat rx ?n @ [take ?f p]) (rx_world rx) = (rc, w)"
    using dead by (auto simp: rx_body_def Let_def min_def split: if_splits prod.splits)
  show thesis
    by (rule recv_payload_handled [OF l c h small len g, of cscf]) (use rc that in auto)
qed

section \<open>One turn\<close>

lemma recv_turn_loaded:
  assumes "recv_fill env s old = Ret (True, s1)"
  shows "recv_turn env ev call (cscf, s, old) =
    run_bind (recv_header cscf s1) (\<lambda>(status, s). case status of
       Incomplete \<Rightarrow> Ret (s, Some (cscf, s, None))
     | Refused \<Rightarrow> Ret (s, None)
     | Parsed \<Rightarrow> recv_payload ev call cscf s)"
  using assms by (simp add: recv_turn_def)

text \<open>
  A turn that has a buffer with input takes steps of the abstract receiver: none when more bytes are
  needed, a header, a payload, or both.
\<close>

datatype 'w turn_out = Turn_more "'w rx" bytes | Turn_next "'w rx" bytes | Turn_dead 'w

definition turn_spec :: "rtmp_conf \<Rightarrow> nat \<Rightarrow> 'w rx_handler \<Rightarrow> 'w rx \<Rightarrow> bytes \<Rightarrow> 'w turn_out" where
  "turn_spec conf cs g rx p =
     (let body = (\<lambda>rx p. case rx_body cs g rx p of
            Need \<Rightarrow> Turn_more rx p | Dead w \<Rightarrow> Turn_dead w | Step rx q \<Rightarrow> Turn_next rx q)
      in if rx_cur rx \<noteq> 0 then body rx p
         else case rx_head conf rx p of
           Need \<Rightarrow> Turn_more rx p | Dead w \<Rightarrow> Turn_dead w | Step rx q \<Rightarrow> body rx q)"

lemma rx_head_cur: "rx_head conf rx p = Step rx' q \<Longrightarrow> rx_cur rx' \<noteq> 0"
  by (auto simp: rx_head_def unat_gt_0 dest: parse_basic_csid split: option.splits if_splits prod.splits)

lemma turn_spec_run:
  "rx_run conf cs g rx p = (case turn_spec conf cs g rx p of
     Turn_more rx' q \<Rightarrow> Waiting rx' q
   | Turn_next rx' q \<Rightarrow> rx_run conf cs g rx' q
   | Turn_dead w \<Rightarrow> Died w)"
proof -
  have b: "rx_run conf cs g rx p = (case rx_body cs g rx p of
      Need \<Rightarrow> Waiting rx p | Dead w \<Rightarrow> Died w | Step rx' q \<Rightarrow> rx_run conf cs g rx' q)"
    if "rx_cur rx \<noteq> 0" for rx p
    using that by (subst rx_run.simps) (simp add: rx_step_def)
  show ?thesis
  proof (cases "rx_cur rx = 0")
    case False
    then show ?thesis by (simp add: b turn_spec_def split: rx_result.splits)
  next
    case True
    then have "rx_run conf cs g rx p = (case rx_head conf rx p of
      Need \<Rightarrow> Waiting rx p | Dead w \<Rightarrow> Died w | Step rx' q \<Rightarrow> rx_run conf cs g rx' q)"
      by (subst rx_run.simps) (simp add: rx_step_def)
    with True show ?thesis by (auto simp: b rx_head_cur turn_spec_def split: rx_result.splits)
  qed
qed

lemma turn_spec_size:
  "turn_spec conf cs g rx p = Turn_more rx' q \<Longrightarrow> length q \<le> length p"
  "turn_spec conf cs g rx p = Turn_next rx' q \<Longrightarrow> length q \<le> length p \<and> (rx_cur rx = 0 \<longrightarrow> length q < length p)"
proof -
  have h: "rx_head conf rx p = Step rx' q \<Longrightarrow> length q < length p" for rx p rx' q
    by (auto simp: rx_head_def split: option.splits if_splits prod.splits
        dest!: parse_basic_length parse_mheader_length)
  have b: "rx_body cs g rx p = Step rx' q \<Longrightarrow> length q \<le> length p" for rx p rx' q
    by (auto simp: rx_body_def Let_def split: if_splits prod.splits)
  show "turn_spec conf cs g rx p = Turn_more rx' q \<Longrightarrow> length q \<le> length p"
    by (auto simp: turn_spec_def split: if_splits rx_result.splits dest!: h b)
  show "turn_spec conf cs g rx p = Turn_next rx' q \<Longrightarrow> length q \<le> length p \<and> (rx_cur rx = 0 \<longrightarrow> length q < length p)"
    by (auto simp: turn_spec_def split: if_splits rx_result.splits dest!: h b)
qed

definition turn_goes ::
    "'w rx_handler \<Rightarrow> (('w, 'p) rtmp_session \<times> ('w, 'p) recv_state option) run \<Rightarrow> ('w, 'p) rtmp_session \<Rightarrow>
     'w turn_out \<Rightarrow> bool" where
  "turn_goes g r s t = (case t of
     Turn_dead w \<Rightarrow> (\<exists>s'. r = Ret (s', None) \<and> c_destroyed (s_conn s') \<and> s_world s' = w)
   | Turn_more rx q \<Rightarrow> (\<exists>s0 s'. r = Ret (s0, Some (s_conf s, s', None)) \<and> turn_ready g s' None rx q \<and> same_input s s')
   | Turn_next rx q \<Rightarrow> (\<exists>s0 s'. r = Ret (s0, Some (s_conf s, s', Some q)) \<and> turn_ready g s' (Some q) rx q \<and> same_input s s'))"

lemma recv_payload_goes:
  assumes l: "loaded s rx p" and c: "rx_cur rx \<noteq> 0" and h: "handles ev call g"
  shows "turn_goes g (recv_payload ev call (s_conf s) s) s (turn_spec (s_conf s) (s_in_chunk_size s) g rx p)"
proof (cases "rx_body (s_in_chunk_size s) g rx p")
  case Need
  have "turn_ready g s None rx p"
    using l c Need by (simp add: turn_ready_def idle_def rx_step_def)
  then show ?thesis
    using Need c recv_payload_need [OF l c Need, of ev call "s_conf s"] by (simp add: turn_goes_def turn_spec_def)
next
  case (Dead w)
  obtain s' where "recv_payload ev call (s_conf s) s = Ret (s', None)" "c_destroyed (s_conn s')" "s_world s' = w"
    using recv_payload_dead [OF l c h Dead] .
  then show ?thesis using Dead c by (simp add: turn_goes_def turn_spec_def)
next
  case (Step rx' q)
  obtain s0 s' where "recv_payload ev call (s_conf s) s = Ret (s0, Some (s_conf s, s', Some q))"
    "turn_ready g s' (Some q) rx' q" "same_input s s'"
    using recv_payload_step [OF l c h Step] .
  then show ?thesis using Step c by (simp add: turn_goes_def turn_spec_def)
qed

lemma turn_goes_same: "same_input s s1 \<Longrightarrow> turn_goes g r s1 t \<longleftrightarrow> turn_goes g r s t"
  by (simp add: turn_goes_def split: turn_out.split)

lemma recv_turn_goes:
  assumes l: "loaded s rx p" and h: "handles ev call g" and fill: "recv_fill env s' old = Ret (True, s)"
  shows "turn_goes g (recv_turn env ev call (s_conf s, s', old)) s (turn_spec (s_conf s) (s_in_chunk_size s) g rx p)"
proof (cases "rx_cur rx = 0")
  case False
  then show ?thesis
    using recv_payload_goes [OF l False h]
    unfolding recv_turn_loaded [OF fill] recv_header_payload [OF l False] by simp
next
  case c: True
  note t = recv_turn_loaded [OF fill, of ev call "s_conf s"]
  show ?thesis
  proof (cases "rx_head (s_conf s) rx p")
    case Need
    obtain s2 where s2: "recv_header (s_conf s) s = Ret (Incomplete, s2)" "loaded s2 rx p" "same_input s s2"
      using recv_header_incomplete [OF l c Need] .
    have "turn_ready g s2 None rx p"
      using s2 c Need by (simp add: turn_ready_def idle_def rx_step_def)
    then show ?thesis unfolding t using c Need s2 by (simp add: turn_goes_def turn_spec_def)
  next
    case (Dead w)
    obtain s2 where "recv_header (s_conf s) s = Ret (Refused, s2)" "c_destroyed (s_conn s2)" "s_world s2 = w"
      using recv_header_dead [OF l c Dead] .
    then show ?thesis unfolding t using c Dead by (simp add: turn_goes_def turn_spec_def)
  next
    case (Step rx' q)
    obtain s2 where s2: "recv_header (s_conf s) s = Ret (Parsed, s2)" "loaded s2 rx' q" "same_input s s2" "rx_cur rx' \<noteq> 0"
      using recv_header_step [OF l c Step] .
    have "turn_spec (s_conf s) (s_in_chunk_size s) g rx p = turn_spec (s_conf s2) (s_in_chunk_size s2) g rx' q"
      using c Step s2 by (simp add: turn_spec_def)
    then show ?thesis
      using recv_payload_goes [OF s2(2,4) h] s2(1,3) turn_goes_same [OF s2(3)] unfolding t by simp
  qed
qed

section \<open>The loop\<close>

definition loop_done ::
    "'w rx_handler \<Rightarrow> ('w, 'p) rtmp_session \<Rightarrow> ('w, 'p) rtmp_session \<Rightarrow> 'w rx_out \<Rightarrow> bool" where
  "loop_done g s s' r = (case r of
     Died w \<Rightarrow> c_destroyed (s_conn s') \<and> s_world s' = w
   | Waiting rx p \<Rightarrow> idle g s' rx p \<and> arrivals s' = [] \<and>
       s_conf s' = s_conf s \<and> s_in_chunk_size s' = s_in_chunk_size s)"

lemma loop_done_same:
  "s_conf s1 = s_conf s \<Longrightarrow> s_in_chunk_size s1 = s_in_chunk_size s \<Longrightarrow> loop_done g s1 s' r \<longleftrightarrow> loop_done g s s' r"
  by (simp add: loop_done_def split: rx_out.split)

definition recv_budget :: "('w, 'p) rtmp_session \<Rightarrow> bytes option \<Rightarrow> bytes \<Rightarrow> nat" where
  "recv_budget s old p = 4 * length (concat (arrivals s)) + 2 * length p + (if old = None then 0 else 1)"

lemma idle_waits: "idle g s rx p \<Longrightarrow> rx_run (s_conf s) (s_in_chunk_size s) g rx p = Waiting rx p"
  unfolding idle_def using rx_run_Need fresh_need by metis

lemma pieces_concat: "pieces segs \<Longrightarrow> concat segs = [] \<longleftrightarrow> segs = []"
  by (induction segs) auto

lemma recv_turn_blocked:
  assumes t: "turn_ready g s old rx p" and pt: "pool_total (env_pool env)" and a: "arrivals s = []"
    and old: "old = None \<or> old = Some []"
  obtains s' where "recv_turn env ev call (cscf, s, old) = Ret (s', None)"
    "loop_done g s s' (rx_run (s_conf s) (s_in_chunk_size s) g rx p)"
proof -
  obtain s' where s': "recv_fill env s old = Ret (False, s')" "idle g s' rx p" "same_input s s'"
    using fill_blocked [OF t pt a old] .
  show thesis
    by (rule that [of s']) (use s' a idle_waits [OF s'(2)] in \<open>simp_all add: recv_turn_def loop_done_def\<close>)
qed

lemma recv_loop_runs:
  assumes "turn_ready g s old rx p" "pool_total (env_pool env)" "pieces (arrivals s)" "handles ev call g"
    and "recv_budget s old p < fuel"
  shows "\<exists>s'. recv_loop fuel env ev call (s_conf s, s, old) = Ret s' \<and>
    loop_done g s s' (rx_run (s_conf s) (s_in_chunk_size s) g rx (p @ concat (arrivals s)))"
  using assms
proof (induction fuel arbitrary: s old rx p)
  case (Suc k)
  note t = Suc.prems(1) and pt = Suc.prems(2) and ps = Suc.prems(3) and h = Suc.prems(4)
  show ?case
  proof (cases "(old = None \<or> old = Some []) \<and> arrivals s = []")
    case True
    obtain s' where "recv_turn env ev call (s_conf s, s, old) = Ret (s', None)"
      "loop_done g s s' (rx_run (s_conf s) (s_in_chunk_size s) g rx p)"
      using recv_turn_blocked [OF t pt] True by metis
    then show ?thesis using True by simp
  next
    case False
    then have data: "old \<noteq> None \<and> old \<noteq> Some [] \<or> arrivals s \<noteq> []" by auto
    obtain d s1 where fill: "recv_fill env s old = Ret (True, s1)" and l: "loaded s1 rx (p @ d)"
      and cat: "d @ concat (arrivals s1) = concat (arrivals s)" and ps1: "pieces (arrivals s1)"
      and same: "s_conf s1 = s_conf s" "s_in_chunk_size s1 = s_in_chunk_size s"
      and d: "d = [] \<Longrightarrow> old \<noteq> None \<and> old \<noteq> Some []"
      using fill_data [OF t pt ps data] by metis
    let ?a = "concat (arrivals s1)"
    have goes: "turn_goes g (recv_turn env ev call (s_conf s, s, old)) s1 (turn_spec (s_conf s) (s_in_chunk_size s) g rx (p @ d))"
      using recv_turn_goes [OF l h fill] same by simp
    have run: "rx_run (s_conf s) (s_in_chunk_size s) g rx (p @ concat (arrivals s)) =
      (case turn_spec (s_conf s) (s_in_chunk_size s) g rx (p @ d) of
         Turn_more rx' q \<Rightarrow> rx_run (s_conf s) (s_in_chunk_size s) g rx' (q @ ?a)
       | Turn_next rx' q \<Rightarrow> rx_run (s_conf s) (s_in_chunk_size s) g rx' (q @ ?a)
       | Turn_dead w \<Rightarrow> Died w)"
      using rx_run_append [of "s_conf s" "s_in_chunk_size s" g rx "p @ d" ?a] cat
      by (simp add: turn_spec_run [of _ _ _ rx "p @ d"] rx_run_append [of _ _ _ _ _ ?a] split: turn_out.split)
    have len: "length (concat (arrivals s)) = length d + length ?a" using arg_cong [OF cat, of length] by simp
    show ?thesis
    proof (cases "turn_spec (s_conf s) (s_in_chunk_size s) g rx (p @ d)")
      case (Turn_dead w)
      then show ?thesis using goes run by (auto simp: turn_goes_def loop_done_def)
    next
      case (Turn_more rx' q)
      obtain s0 s' where s': "recv_turn env ev call (s_conf s, s, old) = Ret (s0, Some (s_conf s, s', None))"
        "turn_ready g s' None rx' q" "same_input s1 s'"
        using goes Turn_more same by (auto simp: turn_goes_def)
      have "recv_budget s' None q < k"
        using Suc.prems(5) turn_spec_size(1) [OF Turn_more] d len s'(3)
        by (cases d) (auto simp: recv_budget_def split: if_splits)
      have same2: "s_conf s' = s_conf s" "s_in_chunk_size s' = s_in_chunk_size s" using s'(3) same by simp_all
      from Suc.IH [OF s'(2) pt _ h \<open>recv_budget s' None q < k\<close>] s' ps1 same run Turn_more show ?thesis
        by (simp add: loop_done_same [OF same2])
    next
      case (Turn_next rx' q)
      obtain s0 s' where s': "recv_turn env ev call (s_conf s, s, old) = Ret (s0, Some (s_conf s, s', Some q))"
        "turn_ready g s' (Some q) rx' q" "same_input s1 s'"
        using goes Turn_next same by (auto simp: turn_goes_def)
      have "rx_cur rx \<noteq> 0 \<Longrightarrow> old = None"
        using t by (auto simp: turn_ready_def split: option.splits)
      then have "recv_budget s' (Some q) q < k"
        using Suc.prems(5) turn_spec_size(2) [OF Turn_next] d len s'(3)
        by (cases d) (auto simp: recv_budget_def split: if_splits)
      have same2: "s_conf s' = s_conf s" "s_in_chunk_size s' = s_in_chunk_size s" using s'(3) same by simp_all
      from Suc.IH [OF s'(2) pt _ h \<open>recv_budget s' (Some q) q < k\<close>] s' ps1 same run Turn_next show ?thesis
        by (simp add: loop_done_same [OF same2])
    qed
  qed
qed simp

section \<open>The read handler\<close>

text \<open>The event loop calls the read handler once for every batch of pieces that has come in.\<close>

fun recv_rounds ::
    "nat \<Rightarrow> ('w, 'p) rtmp_env \<Rightarrow> (byte \<Rightarrow> 'h list) \<Rightarrow> ('h, 'w, 'p) rtmp_call \<Rightarrow> ('w, 'p) rtmp_session \<Rightarrow>
     bytes list list \<Rightarrow> ('w, 'p) rtmp_session run" where
  "recv_rounds fuel env ev call s [] = Ret s"
| "recv_rounds fuel env ev call s (batch # batches) =
     run_bind (ngx_rtmp_recv fuel env ev call (upd_conn (\<lambda>c. c\<lparr>c_arrivals := batch\<rparr>) s))
       (\<lambda>s. recv_rounds fuel env ev call s batches)"

lemma rx_run_length: "rx_run conf cs g rx p = Waiting rx' q \<Longrightarrow> length q \<le> length p"
proof (induction conf cs g rx p rule: rx_run.induct)
  case (1 conf cs g rx p)
  show ?case
  proof (cases "rx_step conf cs g rx p")
    case (Step rx2 q2)
    then have "length q2 \<le> length p"
      by (auto simp: rx_step_def rx_head_def rx_body_def Let_def split: option.splits if_splits prod.splits
          dest!: parse_basic_length parse_mheader_length)
    then show ?thesis using "1.IH" [OF Step] "1.prems" Step by (simp add: rx_run_Step)
  qed (use "1.prems" in \<open>simp_all add: rx_runs\<close>)
qed

lemma idle_frame: "idle g s rx p \<Longrightarrow> rx_frame s rx"
  by (auto simp: idle_def)

lemma idle_arrivals: "idle g (upd_conn (\<lambda>c. c\<lparr>c_arrivals := x\<rparr>) s) rx p \<longleftrightarrow> idle g s rx p"
  by (simp add: idle_def rx_frame_conn)

lemma recv_once:
  assumes "idle g s rx p" "pool_total (env_pool env)" "pieces (arrivals s)" "handles ev call g"
    and "4 * length (p @ concat (arrivals s)) < fuel"
  shows "\<exists>s'. ngx_rtmp_recv fuel env ev call s = Ret s' \<and>
    loop_done g s s' (rx_run (s_conf s) (s_in_chunk_size s) g rx (p @ concat (arrivals s)))"
proof -
  have "\<not> c_destroyed (s_conn s)" using idle_frame [OF assms(1)] by (simp add: rx_frame_def)
  moreover have "recv_budget s None p < fuel" using assms(5) by (simp add: recv_budget_def)
  ultimately show ?thesis
    using recv_loop_runs [of g s None rx p env ev call fuel] assms by (simp add: ngx_rtmp_recv_def turn_ready_def)
qed

lemma recv_rounds_dead:
  "c_destroyed (s_conn s) \<Longrightarrow> \<exists>s'. recv_rounds fuel env ev call s batches = Ret s' \<and>
     c_destroyed (s_conn s') \<and> s_world s' = s_world s"
proof (induction batches arbitrary: s)
  case (Cons a batches)
  from Cons.IH [of "upd_conn (\<lambda>c. c\<lparr>c_arrivals := a\<rparr>) s"] Cons.prems show ?case
    by (simp add: ngx_rtmp_recv_def)
qed simp

text \<open>What a session and the abstract receiver have in common at the end of a call.\<close>

definition recv_agrees :: "'w rx_handler \<Rightarrow> ('w, 'p) rtmp_session \<Rightarrow> 'w rx_out \<Rightarrow> bool" where
  "recv_agrees g s r = (case r of
     Died w \<Rightarrow> c_destroyed (s_conn s) \<and> s_world s = w
   | Waiting rx p \<Rightarrow> idle g s rx p)"

lemma recv_rounds_agree:
  assumes "idle g s rx p" "pool_total (env_pool env)" "list_all pieces batches" "handles ev call g"
    and "4 * length (p @ concat (concat batches)) < fuel"
  shows "\<exists>s'. recv_rounds fuel env ev call s batches = Ret s' \<and>
    recv_agrees g s' (rx_run (s_conf s) (s_in_chunk_size s) g rx (p @ concat (concat batches)))"
  using assms
proof (induction batches arbitrary: s rx p)
  case Nil
  then show ?case by (simp add: recv_agrees_def idle_waits)
next
  case (Cons a batches)
  let ?s = "upd_conn (\<lambda>c. c\<lparr>c_arrivals := a\<rparr>) s"
  let ?run = "rx_run (s_conf s) (s_in_chunk_size s) g"
  have "idle g ?s rx p" using Cons.prems(1) idle_arrivals [of g a s] by simp
  from recv_once [OF this Cons.prems(2) _ Cons.prems(4), of fuel] Cons.prems(3,5)
  obtain s1 where s1: "ngx_rtmp_recv fuel env ev call ?s = Ret s1" "loop_done g ?s s1 (?run rx (p @ concat a))"
    by auto
  have run: "?run rx (p @ concat (concat (a # batches))) = (case ?run rx (p @ concat a) of
      Waiting rx' q \<Rightarrow> ?run rx' (q @ concat (concat batches)) | Died w \<Rightarrow> Died w)"
    using rx_run_append [of _ _ g rx "p @ concat a" "concat (concat batches)"] by simp
  show ?case
  proof (cases "?run rx (p @ concat a)")
    case (Died w)
    then obtain s' where "recv_rounds fuel env ev call s1 batches = Ret s'" "c_destroyed (s_conn s')" "s_world s' = w"
      using recv_rounds_dead [of s1 fuel env ev call batches] s1(2) by (auto simp: loop_done_def)
    then show ?thesis using s1(1) run Died by (simp add: recv_agrees_def)
  next
    case (Waiting rx' q)
    then have i: "idle g s1 rx' q" using s1(2) by (simp add: loop_done_def)
    have same: "s_conf s1 = s_conf s" "s_in_chunk_size s1 = s_in_chunk_size s"
      using s1(2) Waiting by (simp_all add: loop_done_def)
    have "length q \<le> length (p @ concat a)" using rx_run_length [OF Waiting] .
    then have "4 * length (q @ concat (concat batches)) < fuel" using Cons.prems(5) by simp
    from Cons.IH [OF i Cons.prems(2) _ Cons.prems(4) this] Cons.prems(3) show ?thesis
      using s1(1) run Waiting same by simp
  qed
qed

definition small_handler :: "(rtmp_header \<times> bytes list) list rx_handler" where
  "small_handler h xs w = (if mh_type h > NGX_RTMP_MSG_MAX then (NGX_OK, w) else (NGX_OK, w @ [(h, xs)]))"

definition small_call :: "(unit, (rtmp_header \<times> bytes list) list, 'p) rtmp_call" where
  "small_call u s h inn = Ret (NGX_OK, s\<lparr>s_world := s_world s @ [(h, map buf_content inn)]\<rparr>)"

lemma small_handles [simp]: "handles (\<lambda>_. [()]) small_call small_handler"
  by (simp add: handles_def ngx_rtmp_receive_message_def small_call_def small_handler_def)

definition small_env :: "('w, unit) rtmp_env" where
  "small_env = \<lparr>env_pool = unit_pool, env_create_pool = Some (), env_dry = (\<lambda>s. s)\<rparr>"

definition small_session :: "bytes list \<Rightarrow> ((rtmp_header \<times> bytes list) list, unit) rtmp_session" where
  "small_session segs = \<lparr>s_conf = small_conf,
     s_conn = \<lparr>c_destroyed = False, c_timedout = False, c_arrivals = segs, c_wire = [], c_sends = [],
       c_write_active = False, c_write_timer = False, c_event_ok = True\<rparr>,
     s_shared = empty_shared, s_now = 0, s_bw_in = \<lparr>bw_bytes = 0, bw_bandwidth = 0, bw_intl_end = 0, bw_intl_bytes = 0\<rparr>,
     s_bw_out = \<lparr>bw_bytes = 0, bw_bandwidth = 0, bw_intl_end = 0, bw_intl_bytes = 0\<rparr>, s_relay = False, s_http = False,
     s_buflen = 0, s_ack_size = 0, s_ping_active = False, s_ping_reset = False, s_ping_timer = None,
     s_server_changed = False, s_in_streams = replicate 8 zero_stream, s_in_csid = 0, s_in_chunk_size = 4,
     s_in_pool = Some (), s_in_old_pool = None, s_in_chunk_size_changing = False, s_in_bytes = 0, s_in_last_ack = 0,
     s_out_bytes = 0, s_out_pos = 0, s_out_last = 0, s_out_chain = None, s_out_bpos = 0, s_out_buffer = False,
     s_out_queue = 8, s_out_cork = 0, s_out = replicate 8 None, s_world = []\<rparr>"

definition rx_start :: "(rtmp_header \<times> bytes list) list rx" where
  "rx_start = \<lparr>rx_str = (\<lambda>_. zero_stream), rx_dat = (\<lambda>_. []), rx_cur = 0, rx_world = []\<rparr>"

lemma small_simps [simp]: "env_pool small_env = unit_pool" "s_conf (small_session segs) = small_conf"
  "s_in_chunk_size (small_session segs) = 4"
  by (simp_all add: small_env_def small_session_def)

lemma small_session_idle: "idle g (small_session segs) rx_start []"
  by (simp add: idle_def small_session_def rx_frame_def small_conf_def rings_ok_def others_agree_def agrees_def
      rx_start_def zero_stream_def strm_def)

text \<open>
  C3: the read handler of a session, called for one batch of pieces after the other, does what the
  abstract receiver does with the bytes in a row: it returns (no loop runs forever and no buffer is
  overrun), and it either closes the session, with the handlers run on the same messages, or waits for
  the rest of the same chunk.
\<close>

theorem recv_refines:
  assumes "idle g s rx p" "pool_total (env_pool env)" "list_all pieces batches" "handles ev call g"
    and "4 * length (p @ concat (concat batches)) < fuel"
  shows "\<exists>s'. recv_rounds fuel env ev call s batches = Ret s' \<and>
    recv_agrees g s' (rx_run (s_conf s) (s_in_chunk_size s) g rx (p @ concat (concat batches)))"
  by (rule recv_rounds_agree [OF assms])

definition tiny_message :: bytes where
  "tiny_message = [2, 0, 0, 9, 0, 0, 6, 8, 1, 0, 0, 0, 1, 2, 3, 4, 0xc2, 5, 6]"

definition tiny_header :: rtmp_header where
  "tiny_header = \<lparr>mh_csid = 2, mh_timestamp = 9, mh_mlen = 6, mh_type = 8, mh_msid = 1\<rparr>"

lemma tiny_run: "case rx_run small_conf 4 small_handler rx_start tiny_message of
    Waiting rx q \<Rightarrow> q = [] \<and> rx_cur rx = 0 \<and> rx_world rx = [(tiny_header, [[1, 2, 3, 4], [5, 6]])] | Died w \<Rightarrow> False"
  by code_simp

theorem recv_refines_witness:
  "\<exists>s'. recv_rounds 100 small_env (\<lambda>_. [()]) small_call (small_session [])
      [[[2, 0], [0, 9, 0, 0, 6, 8, 1]], [[0, 0, 0, 1, 2, 3, 4, 0xc2, 5], [6]]] = Ret s' \<and>
    s_world s' = [(tiny_header, [[1, 2, 3, 4], [5, 6]])]"
proof -
  let ?b = "[[[2, 0], [0, 9, 0, 0, 6, 8, 1]], [[0, 0, 0, 1, 2, 3, 4, 0xc2, 5], [6]]] :: bytes list list"
  have cat: "concat (concat ?b) = tiny_message" by (simp add: tiny_message_def)
  have len: "4 * length ([] @ concat (concat ?b)) < 100" "list_all pieces ?b" by simp_all
  have "\<exists>s'. recv_rounds 100 small_env (\<lambda>_. [()]) small_call (small_session []) ?b = Ret s' \<and>
    recv_agrees small_handler s' (rx_run small_conf 4 small_handler rx_start tiny_message)"
    using recv_refines [OF small_session_idle [of _ "[]"] _ len(2) small_handles len(1), of small_env]
    unfolding cat by (simp del: recv_rounds.simps)
  then show ?thesis
    using tiny_run by (auto simp: recv_agrees_def rx_frame_def dest!: idle_frame split: rx_out.splits)
qed

text \<open>
  C9: where the bytes are cut, and in how many calls they come, makes no difference: both sessions
  have run their handlers on the same messages, and both are closed or wait for the same rest.
\<close>

theorem recv_segmentation:
  assumes "idle g s rx p" "pool_total (env_pool env)" "handles ev call g"
    and "list_all pieces cut1" "list_all pieces cut2" "concat (concat cut1) = concat (concat cut2)"
    and "4 * length (p @ concat (concat cut1)) < fuel"
  shows "\<exists>s1 s2. recv_rounds fuel env ev call s cut1 = Ret s1 \<and> recv_rounds fuel env ev call s cut2 = Ret s2 \<and>
    c_destroyed (s_conn s1) = c_destroyed (s_conn s2) \<and> s_world s1 = s_world s2 \<and>
    (\<not> c_destroyed (s_conn s1) \<longrightarrow> (\<exists>rx' p'. idle g s1 rx' p' \<and> idle g s2 rx' p'))"
proof -
  let ?r = "rx_run (s_conf s) (s_in_chunk_size s) g rx (p @ concat (concat cut1))"
  obtain s1 where s1: "recv_rounds fuel env ev call s cut1 = Ret s1" "recv_agrees g s1 ?r"
    using recv_rounds_agree [OF assms(1,2,4,3,7)] by auto
  obtain s2 where s2: "recv_rounds fuel env ev call s cut2 = Ret s2" "recv_agrees g s2 ?r"
    using recv_rounds_agree [OF assms(1,2,5,3)] assms(6,7) by auto
  show ?thesis
  proof (cases ?r)
    case (Waiting rx' p')
    then have i: "idle g s1 rx' p'" "idle g s2 rx' p'" using s1(2) s2(2) by (simp_all add: recv_agrees_def)
    then show ?thesis using s1(1) s2(1) idle_frame [OF i(1)] idle_frame [OF i(2)] by (auto simp: rx_frame_def)
  next
    case (Died w)
    then show ?thesis using s1 s2 by (simp add: recv_agrees_def)
  qed
qed

theorem recv_segmentation_witness:
  "\<exists>s1 s2. recv_rounds 100 small_env (\<lambda>_. [()]) small_call (small_session []) [[tiny_message]] = Ret s1 \<and>
    recv_rounds 100 small_env (\<lambda>_. [()]) small_call (small_session []) (map (\<lambda>x. [[x]]) tiny_message) = Ret s2 \<and>
    s_world s1 = s_world s2"
proof -
  have len: "4 * length ([] @ concat (concat [[tiny_message]])) < 100" "list_all pieces [[tiny_message]]"
    "list_all pieces (map (\<lambda>x. [[x]]) tiny_message)"
    "concat (concat [[tiny_message]]) = concat (concat (map (\<lambda>x. [[x]]) tiny_message))"
    by (simp_all add: tiny_message_def)
  show ?thesis
    using recv_segmentation [OF small_session_idle [of _ "[]"] _ small_handles len(2-4) len(1), of small_env]
    by (auto simp del: recv_rounds.simps)
qed

end
