(* ===== verification/Rtmp_Wire.thy ===== *)
theory Rtmp_Wire
  imports Rtmp_Loop
begin

text \<open>
  From one session to the other: the chunks of a message that \<open>ngx_rtmp_prepare_message\<close> has put its
  headers in front of, read by \<open>ngx_rtmp_recv\<close>, are that message again.
\<close>

section \<open>The pieces of a payload\<close>

definition cut_payload :: "nat \<Rightarrow> bytes list \<Rightarrow> bool" where
  "cut_payload cs xs \<longleftrightarrow> xs \<noteq> [] \<and> list_all (\<lambda>x. length x = cs) (butlast xs) \<and> length (last xs) \<le> cs \<and>
     (tl xs = [] \<or> last xs \<noteq> [])"

lemma cut_payload_simps:
  "cut_payload cs [x] \<longleftrightarrow> length x \<le> cs"
  "cut_payload cs (x # y # xs) \<longleftrightarrow> length x = cs \<and> cut_payload cs (y # xs) \<and> concat (y # xs) \<noteq> []"
proof -
  show "cut_payload cs [x] \<longleftrightarrow> length x \<le> cs" by (simp add: cut_payload_def)
  show "cut_payload cs (x # y # xs) \<longleftrightarrow> length x = cs \<and> cut_payload cs (y # xs) \<and> concat (y # xs) \<noteq> []"
    by (cases xs rule: rev_cases) (auto simp: cut_payload_def butlast_append)
qed

lemma chunked_cut:
  assumes "chunked cs out" "out \<noteq> []" "tl out = [] \<or> buf_content (last out) \<noteq> []"
  shows "cut_payload cs (map buf_content out)"
proof -
  have len: "shared_buf cs b \<Longrightarrow> length (buf_content b) \<le> cs \<and> (buf_full b \<longrightarrow> length (buf_content b) = cs)" for b
    by (auto simp: shared_buf_def buf_ok_def)
  have "list_all (\<lambda>b. length (buf_content b) = cs) (butlast out)"
    using assms(1) len in_set_butlastD by (fastforce simp: chunked_def list_all_iff)
  moreover have "length (buf_content (last out)) \<le> cs"
    using assms(1,2) len by (auto simp: chunked_def list_all_iff)
  ultimately show ?thesis
    using assms(2,3) by (auto simp: cut_payload_def map_butlast [symmetric] last_map map_tl [symmetric] list_all_iff)
qed

section \<open>Reading the chunks\<close>

definition deliver :: "'w rx \<Rightarrow> nat \<Rightarrow> rtmp_stream \<Rightarrow> rtmp_header \<Rightarrow> 'w \<Rightarrow> 'w rx" where
  "deliver rx n st hdr w = rx\<lparr>rx_str := (rx_str rx)(n := st\<lparr>st_len := 0, st_hdr := hdr\<rparr>),
     rx_dat := (rx_dat rx)(n := []), rx_cur := 0, rx_world := w\<rparr>"

abbreviation due_header :: "rtmp_stream \<Rightarrow> rtmp_header" where
  "due_header st \<equiv> (st_hdr st)\<lparr>mh_timestamp := mh_timestamp (st_hdr st) + st_dtime st\<rparr>"

text \<open>The short header of a chunk that goes on with a message.\<close>

lemma rx_head_next:
  assumes "rx_cur rx = 0" "2 \<le> csid" "csid < 65600" "unat csid < cf_max_streams conf"
    and "mh_csid (st_hdr (rx_str rx (unat csid))) = csid" "st_len (rx_str rx (unat csid)) \<noteq> 0"
    and "st_ext (rx_str rx (unat csid)) \<longleftrightarrow> cf_publish_time_fix conf \<and> ts \<ge> 0x00ffffff"
    and "unat (mh_mlen (st_hdr (rx_str rx (unat csid)))) \<le> cf_max_message conf"
  shows "rx_step conf cs g rx (next_chunk (cf_publish_time_fix conf) csid ts @ p) = Step (rx\<lparr>rx_cur := unat csid\<rparr>) p"
proof -
  let ?st = "rx_str rx (unat csid)"
  have j: "rx_join rx (unat csid) = ?st"
    unfolding rx_join_def using assms(5) by simp
  have "parse_mheader (cf_publish_time_fix conf) 3 ?st
      ((if cf_publish_time_fix conf then chunk_ext ts else []) @ p) = (?st, Some p)"
    using assms(6,7) by (auto simp: parse_mheader_def parse_ext_def Let_def chunk_ext_def)
  then show ?thesis
    using assms(1,4,8) parse_basic_header [OF assms(2,3), of 3 "(if cf_publish_time_fix conf then chunk_ext ts else []) @ p"] j
    by (simp add: rx_step_def rx_head_def next_chunk_def)
qed

lemma rx_run_payload:
  assumes n: "n = unat csid" "2 \<le> csid" "csid < 65600" "n < cf_max_streams conf"
    and st: "mh_csid (st_hdr st) = csid" "st_ext st \<longleftrightarrow> cf_publish_time_fix conf \<and> ts \<ge> 0x00ffffff"
      "unat (mh_mlen (st_hdr st)) \<le> cf_max_message conf" "unat (mh_mlen (st_hdr st)) = tot"
    and cs: "0 < cs" and cut: "cut_payload cs (x # xs)" and len: "k + length (concat (x # xs)) = tot"
    and g: "g (due_header st) (xs0 @ x # xs) (rx_world rx) = (NGX_OK, w)"
    and rx: "rx_cur rx = n" "rx_str rx n = st\<lparr>st_len := word_of_nat k\<rparr>" "rx_dat rx n = xs0"
  shows "rx_run conf cs g rx (x @ concat (map (\<lambda>y. next_chunk (cf_publish_time_fix conf) csid ts @ y) xs) @ p) =
    rx_run conf cs g (deliver rx n st (due_header st) w) p"
  using cut len g rx
proof (induction xs arbitrary: x k xs0 rx)
  case Nil
  let ?st = "st\<lparr>st_len := word_of_nat k\<rparr>"
  have n0: "n \<noteq> 0" using n(1,2) by (auto simp: word_le_nat_alt)
  have t32: "tot < 2 ^ 32" using st(4) unat_u32_less [of "mh_mlen (st_hdr st)"] by simp
  have f: "unat (mh_mlen (st_hdr st) - word_of_nat k) = length x"
    using Nil.prems(2) st(4) t32 by (simp add: unat_sub_if' unat_of_nat)
  have "length x \<le> cs" using Nil.prems(1) by (simp add: cut_payload_simps)
  then have "rx_step conf cs g rx (x @ p) = Step (deliver rx n st (due_header st) w) p"
    using Nil.prems n0 f by (simp add: rx_step_def rx_body_def Let_def deliver_def)
  then show ?case by (simp add: rx_run_Step)
next
  case (Cons y ys)
  let ?st = "st\<lparr>st_len := word_of_nat k\<rparr>"
  let ?q = "y @ concat (map (\<lambda>y. next_chunk (cf_publish_time_fix conf) csid ts @ y) ys) @ p"
  let ?th = "next_chunk (cf_publish_time_fix conf) csid ts"
  have n0: "n \<noteq> 0" using n(1,2) by (auto simp: word_le_nat_alt)
  have t32: "tot < 2 ^ 32" using st(4) unat_u32_less [of "mh_mlen (st_hdr st)"] by simp
  have c: "length x = cs" "cut_payload cs (y # ys)" "0 < length (concat (y # ys))"
    using Cons.prems(1) by (simp_all add: cut_payload_simps del: concat.simps)
  have f: "unat (mh_mlen (st_hdr st) - word_of_nat k) = cs + length (concat (y # ys))"
    using Cons.prems(2) c(1) st(4) t32 by (simp add: unat_sub_if' unat_of_nat)
  let ?rx = "rx\<lparr>rx_str := (rx_str rx)(n := st\<lparr>st_len := word_of_nat (k + cs)\<rparr>),
    rx_dat := (rx_dat rx)(n := xs0 @ [x]), rx_cur := 0\<rparr>"
  have "rx_step conf cs g rx (x @ ?th @ ?q) = Step ?rx (?th @ ?q)"
    using Cons.prems(4-6) n0 f c(1,3) by (simp add: rx_step_def rx_body_def Let_def)
  moreover have "rx_step conf cs g ?rx (?th @ ?q) = Step (?rx\<lparr>rx_cur := n\<rparr>) ?q"
  proof -
    have "k + cs < 2 ^ 32" "0 < k + cs" using Cons.prems(2) c(1) t32 cs by simp_all
    then have "\<not> 2 ^ 32 dvd k + cs" by (rule nat_dvd_not_less [rotated])
    then have "(word_of_nat (k + cs) :: u32) \<noteq> 0" by (simp add: word_of_nat_eq_0_iff del: of_nat_add)
    then show ?thesis
      using rx_head_next [of ?rx csid conf ts cs g ?q] n st by simp
  qed
  ultimately have "rx_run conf cs g rx (x @ ?th @ ?q) = rx_run conf cs g (?rx\<lparr>rx_cur := n\<rparr>) ?q"
    by (simp add: rx_run_Step)
  also have "\<dots> = rx_run conf cs g (deliver (?rx\<lparr>rx_cur := n\<rparr>) n st (due_header st) w) p"
    using Cons.prems(2,3) c(1) by (intro Cons.IH [OF c(2), of "k + cs" "xs0 @ [x]"]) simp_all
  also have "deliver (?rx\<lparr>rx_cur := n\<rparr>) n st (due_header st) w = deliver rx n st (due_header st) w"
    by (simp add: deliver_def)
  finally show ?case by simp
qed

text \<open>
  What the receiver must know of the message before for the header format the sender picks; a message
  that is announced by nothing (format 3) must not follow one with an extended time stamp.
\<close>

definition follows :: "rtmp_header \<Rightarrow> rtmp_header option \<Rightarrow> u32 \<Rightarrow> rtmp_stream \<Rightarrow> bool" where
  "follows h lh mlen st \<longleftrightarrow> st_len st = 0 \<and>
     (case lh of None \<Rightarrow> True
      | Some l \<Rightarrow> fst (chunk_fmt h lh mlen) = 0 \<or>
          (mh_timestamp (st_hdr st) = mh_timestamp l \<and> mh_mlen (st_hdr st) = mh_mlen l \<and>
           mh_type (st_hdr st) = mh_type l \<and> mh_msid (st_hdr st) = mh_msid l \<and>
           (fst (chunk_fmt h lh mlen) = 3 \<longrightarrow> \<not> st_ext st)))"

text \<open>The header the handlers get: after format 3 the receiver adds the last difference once more.\<close>

definition received_header :: "rtmp_header \<Rightarrow> rtmp_header option \<Rightarrow> u32 \<Rightarrow> rtmp_stream \<Rightarrow> rtmp_header" where
  "received_header h lh mlen st = h\<lparr>mh_mlen := mlen,
     mh_timestamp := mh_timestamp h + (if fst (chunk_fmt h lh mlen) = 3 then st_dtime st else 0)\<rparr>"

lemma follows_no_ext:
  "chunk_fmt h lh mlen = (fmt, ts) \<Longrightarrow> follows h lh mlen st \<Longrightarrow> fmt = 3 \<Longrightarrow> \<not> st_ext st"
  by (auto simp: follows_def chunk_fmt_def split: option.splits if_splits)

lemma after_header_follows:
  fixes pf :: bool
  assumes f: "chunk_fmt h lh mlen = (fmt, ts)" and fo: "follows h lh mlen st" and c: "mh_csid (st_hdr st) = mh_csid h"
  defines "st' \<equiv> after_header pf fmt st h mlen ts"
  shows "st_len st' = 0" "st_ext st' \<longleftrightarrow> pf \<and> ts \<ge> 0x00ffffff" "mh_mlen (st_hdr st') = mlen"
    "mh_csid (st_hdr st') = mh_csid h" "due_header st' = received_header h lh mlen st"
proof -
  have len: "st_len st = 0" using fo by (simp add: follows_def)
  then show "st_len st' = 0" by (simp add: st'_def after_header_def Let_def)
  show "mh_csid (st_hdr st') = mh_csid h" using c by (simp add: st'_def after_header_def Let_def)
  note e = follows_no_ext [OF f fo]
  have t3: "ts = 0" if "fmt = 3" using that f by (auto simp: chunk_fmt_def split: option.splits if_splits)
  have f3: "fmt \<le> 2 \<or> fmt = 3" using chunk_fmt_less [of h lh mlen] f by auto
  show "st_ext st' \<longleftrightarrow> pf \<and> ts \<ge> 0x00ffffff"
    using f3 e t3 by (auto simp: st'_def after_header_def Let_def)
  have sh: "fmt = 0 \<or> (\<exists>l. lh = Some l \<and> mh_timestamp (st_hdr st) = mh_timestamp l \<and> mh_mlen (st_hdr st) = mh_mlen l \<and>
      mh_type (st_hdr st) = mh_type l \<and> mh_msid (st_hdr st) = mh_msid l)"
    using f fo by (auto simp: follows_def chunk_fmt_def split: option.splits)
  then show "mh_mlen (st_hdr st') = mlen"
    using f by (auto simp: st'_def after_header_def Let_def chunk_fmt_def split: option.splits if_splits)
  from sh show "due_header st' = received_header h lh mlen st"
  proof
    assume "fmt = 0"
    then show ?thesis using c f
      by (intro rtmp_header.equality) (auto simp: st'_def after_header_def Let_def received_header_def chunk_fmt_def split: option.splits if_splits)
  next
    assume "\<exists>l. lh = Some l \<and> mh_timestamp (st_hdr st) = mh_timestamp l \<and> mh_mlen (st_hdr st) = mh_mlen l \<and>
      mh_type (st_hdr st) = mh_type l \<and> mh_msid (st_hdr st) = mh_msid l"
    then show ?thesis using c f
      by (intro rtmp_header.equality) (auto simp: st'_def after_header_def Let_def received_header_def chunk_fmt_def split: if_splits)
  qed
qed

lemma rx_head_first:
  assumes f: "chunk_fmt h lh mlen = (fmt, ts)" and cur: "rx_cur rx = 0"
    and fo: "follows h lh mlen (rx_join rx (unat (mh_csid h)))"
    and csid: "2 \<le> mh_csid h" "mh_csid h < 65600" "unat (mh_csid h) < cf_max_streams conf"
    and m: "mlen < 0x1000000" "unat mlen \<le> cf_max_message conf"
  shows "rx_step conf cs g rx (first_chunk fmt ts mlen h @ p) =
    Step (rx\<lparr>rx_str := (rx_str rx)(unat (mh_csid h) :=
        after_header (cf_publish_time_fix conf) fmt (rx_join rx (unat (mh_csid h))) h mlen ts),
      rx_cur := unat (mh_csid h)\<rparr>) p"
proof -
  let ?st = "rx_join rx (unat (mh_csid h))"
  have c: "mh_csid (st_hdr ?st) = mh_csid h" by (simp add: rx_join_def)
  note a = after_header_follows [OF f fo c, of "cf_publish_time_fix conf"]
  have fmt: "fmt < 4" using chunk_fmt_less [of h lh mlen] f by simp
  have len: "st_len ?st = 0" using fo by (simp add: follows_def)
  have e: "chunk_ext ts = (if fmt \<le> 2 \<and> ts \<ge> 0x00ffffff then be4 ts else [])"
    using fmt f by (auto simp: chunk_ext_def chunk_fmt_def split: option.splits if_splits)
  note pm = parse_message_header [OF len m(1) fmt follows_no_ext [OF f fo], of "cf_publish_time_fix conf" ts h p]
  show ?thesis
    using cur csid(3) m(2) pm a(3) parse_basic_header [OF csid(1,2) fmt]
    by (simp add: rx_step_def rx_head_def first_chunk_def e)
qed

text \<open>The whole message.\<close>

lemma rx_run_message:
  assumes cut: "cut_payload cs xs" "0 < cs" and mlen: "mlen = word_of_nat (length (concat xs))" "length (concat xs) < 0x1000000"
    and cur: "rx_cur rx = 0" and n: "n = unat (mh_csid h)" and dat: "rx_dat rx n = []"
    and fo: "follows h lh mlen (rx_join rx n)"
    and csid: "2 \<le> mh_csid h" "mh_csid h < 65600" "n < cf_max_streams conf" and max: "length (concat xs) \<le> cf_max_message conf"
    and g: "g (received_header h lh mlen (rx_join rx n)) xs (rx_world rx) = (NGX_OK, w)"
  shows "\<exists>st. due_header st = received_header h lh mlen (rx_join rx n) \<and>
    rx_run conf cs g rx (concat (wire_chunks (cf_publish_time_fix conf) h lh xs)) =
      Waiting (deliver rx n st (received_header h lh mlen (rx_join rx n)) w) []"
proof -
  obtain x ys where xs: "xs = x # ys" using cut(1) by (cases xs) (auto simp: cut_payload_def)
  obtain fmt ts where f: "chunk_fmt h lh mlen = (fmt, ts)" by (metis surj_pair)
  let ?pf = "cf_publish_time_fix conf"
  let ?st = "after_header ?pf fmt (rx_join rx n) h mlen ts"
  have c: "mh_csid (st_hdr (rx_join rx n)) = mh_csid h" by (simp add: rx_join_def n)
  note a = after_header_follows [OF f fo c, of ?pf]
  have um: "unat mlen = length (concat xs)" using mlen by (simp add: unat_of_nat)
  then have m: "mlen < 0x1000000" "unat mlen \<le> cf_max_message conf" using mlen(2) max by (simp_all add: word_less_nat_alt)
  let ?th = "next_chunk ?pf (mh_csid h) ts"
  let ?rx = "rx\<lparr>rx_str := (rx_str rx)(n := ?st), rx_cur := n\<rparr>"
  have wire: "concat (wire_chunks ?pf h lh xs) = first_chunk fmt ts mlen h @ x @ concat (map (\<lambda>y. ?th @ y) ys) @ []"
    using f mlen(1) by (simp add: wire_chunks_def xs)
  have st0: "?st = ?st\<lparr>st_len := word_of_nat 0\<rparr>" using a(1) by simp
  have "rx_run conf cs g rx (concat (wire_chunks ?pf h lh xs)) =
      rx_run conf cs g ?rx (x @ concat (map (\<lambda>y. ?th @ y) ys) @ [])"
    unfolding wire using rx_head_first [OF f cur fo [unfolded n] csid(1,2) csid(3) [unfolded n] m] n
    by (simp add: rx_run_Step)
  also have "\<dots> = rx_run conf cs g (deliver ?rx n ?st (due_header ?st) w) []"
    by (rule rx_run_payload [OF n csid(1,2,3) a(4,2) _ _ cut(2) cut(1) [unfolded xs], where k = 0 and tot = "unat mlen" and ?xs0.0 = "[]"])
       (use a(3,5) m um g dat xs st0 in simp_all)
  also have "\<dots> = Waiting (deliver rx n ?st (received_header h lh mlen (rx_join rx n)) w) []"
    unfolding a(5) by (simp add: deliver_def rx_run_Need fresh_need)
  finally show ?thesis using a(5) by blast
qed

section \<open>From session to session\<close>

abbreviation msg_len :: "chain \<Rightarrow> u32" where
  "msg_len out \<equiv> word_of_nat (length (flat out))"

text \<open>A message cut into chunk buffers, none of them empty unless it is the only one.\<close>

abbreviation whole_chunks :: "nat \<Rightarrow> chain \<Rightarrow> bool" where
  "whole_chunks cs out \<equiv> chunked cs out \<and> out \<noteq> [] \<and> (tl out = [] \<or> buf_content (last out) \<noteq> [])"

text \<open>The sender \<open>s\<close> and the receiver \<open>r\<close> have agreed on the chunk size and on the time stamp rule.\<close>

definition connected ::
    "('w1, 'p1) rtmp_session \<Rightarrow> 'w rx_handler \<Rightarrow> ('w, 'p) rtmp_session \<Rightarrow> 'w rx \<Rightarrow> rtmp_header \<Rightarrow> bool" where
  "connected s g r rx h \<longleftrightarrow> idle g r rx [] \<and> rx_cur rx = 0 \<and> rx_dat rx (unat (mh_csid h)) = [] \<and>
     s_in_chunk_size r = cf_chunk_size (s_conf s) \<and> cf_publish_time_fix (s_conf r) = cf_play_time_fix (s_conf s) \<and>
     2 \<le> mh_csid h \<and> mh_csid h < 65600 \<and>
     unat (mh_csid h) < cf_max_streams (s_conf s) \<and> unat (mh_csid h) < cf_max_streams (s_conf r)"

lemma message_received:
  assumes con: "connected s g r rx h" and out: "whole_chunks (cf_chunk_size (s_conf s)) out"
    and len: "length (flat out) < 0x1000000" "length (flat out) \<le> cf_max_message (s_conf r)"
    and fo: "follows h lh (msg_len out) (rx_join rx (unat (mh_csid h)))"
    and g: "g (received_header h lh (msg_len out) (rx_join rx (unat (mh_csid h)))) (map buf_content out) (s_world r) = (NGX_OK, w)"
    and pt: "pool_total (env_pool env)" and h: "handles ev call g"
  obtains out' where "ngx_rtmp_prepare_message s h lh out = Ret (out', s)"
    "\<And>batches fuel. list_all pieces batches \<Longrightarrow> concat (concat batches) = flat out' \<Longrightarrow> 4 * length (flat out') < fuel \<Longrightarrow>
      \<exists>r' st. recv_rounds fuel env ev call r batches = Ret r' \<and> s_world r' = w \<and>
        idle g r' (deliver rx (unat (mh_csid h)) st (received_header h lh (msg_len out) (rx_join rx (unat (mh_csid h)))) w) []"
proof -
  let ?n = "unat (mh_csid h)"
  note c = con [unfolded connected_def]
  have fr: "rx_frame r rx" using c by (auto dest: idle_frame)
  have bufs: "list_all (\<lambda>b. buf_ok b \<and> 18 \<le> b_pos b) out"
    using out by (auto simp: chunked_def list_all_iff shared_buf_def buf_ok_def NGX_RTMP_MAX_CHUNK_HEADER_def)
  have fl: "flat out = concat (map buf_content out)" by (simp add: flat_def)
  obtain out' where out': "ngx_rtmp_prepare_message s h lh out = Ret (out', s)"
    "map buf_content out' = wire_chunks (cf_play_time_fix (s_conf s)) h lh (map buf_content out)"
    using prepare_message_wire [of h s out lh] c out bufs by auto
  have wire: "flat out' = concat (wire_chunks (cf_publish_time_fix (s_conf r)) h lh (map buf_content out))"
    using out'(2) c by (simp add: flat_def)
  have "cut_payload (s_in_chunk_size r) (map buf_content out)" using chunked_cut out c by metis
  moreover have "0 < s_in_chunk_size r" "s_world r = rx_world rx" using fr by (simp_all add: rx_frame_def)
  ultimately obtain st where st: "rx_run (s_conf r) (s_in_chunk_size r) g rx (flat out') =
      Waiting (deliver rx ?n st (received_header h lh (msg_len out) (rx_join rx ?n)) w) []"
    using rx_run_message [of "s_in_chunk_size r" "map buf_content out" "msg_len out" rx ?n h lh "s_conf r" g w]
      c len fo g unfolding fl wire by auto
  show thesis
  proof (rule that [OF out'(1)])
    fix batches :: "bytes list list" and fuel
    assume b: "list_all pieces batches" "concat (concat batches) = flat out'" "4 * length (flat out') < fuel"
    have "4 * length ([] @ concat (concat batches)) < fuel" using b(2,3) by simp
    from recv_rounds_agree [OF conjunct1 [OF c] pt b(1) h this]
    obtain r' where r': "recv_rounds fuel env ev call r batches = Ret r'"
      "recv_agrees g r' (rx_run (s_conf r) (s_in_chunk_size r) g rx (flat out'))"
      using b(2) by auto
    then have i: "idle g r' (deliver rx ?n st (received_header h lh (msg_len out) (rx_join rx ?n)) w) []"
      using st by (simp add: recv_agrees_def)
    moreover have "s_world r' = w" using idle_frame [OF i] by (simp add: rx_frame_def deliver_def)
    ultimately show "\<exists>r' st. recv_rounds fuel env ev call r batches = Ret r' \<and> s_world r' = w \<and>
        idle g r' (deliver rx ?n st (received_header h lh (msg_len out) (rx_join rx ?n)) w) []"
      using r'(1) by blast
  qed
qed

text \<open>
  C4: a message that one session cuts into chunks and another reads, in whatever pieces, reaches the
  handlers of the other with the same header and the same payload, and the receiver is ready for the next.
\<close>

theorem chunk_roundtrip:
  assumes "connected s g r rx h" "whole_chunks (cf_chunk_size (s_conf s)) out"
    and "length (flat out) < 0x1000000" "length (flat out) \<le> cf_max_message (s_conf r)"
    and "follows h lh (msg_len out) (rx_join rx (unat (mh_csid h)))"
    and "fst (chunk_fmt h lh (msg_len out)) = 3 \<Longrightarrow> st_dtime (rx_str rx (unat (mh_csid h))) = 0"
    and "g (h\<lparr>mh_mlen := msg_len out\<rparr>) (map buf_content out) (s_world r) = (NGX_OK, w)"
    and "pool_total (env_pool env)" "handles ev call g"
  shows "\<exists>out'. ngx_rtmp_prepare_message s h lh out = Ret (out', s) \<and>
    (\<forall>batches fuel. list_all pieces batches \<longrightarrow> concat (concat batches) = flat out' \<longrightarrow> 4 * length (flat out') < fuel \<longrightarrow>
      (\<exists>r' st. recv_rounds fuel env ev call r batches = Ret r' \<and> s_world r' = w \<and>
        idle g r' (deliver rx (unat (mh_csid h)) st (h\<lparr>mh_mlen := msg_len out\<rparr>) w) []))"
proof -
  have "received_header h lh (msg_len out) (rx_join rx (unat (mh_csid h))) = h\<lparr>mh_mlen := msg_len out\<rparr>"
    using assms(6) by (auto simp: received_header_def rx_join_def)
  then show ?thesis
    using message_received [OF assms(1-5) _ assms(8,9)] assms(7) by metis
qed

definition tiny_chunks :: chain where
  "tiny_chunks = [\<lparr>b_mem = replicate 18 0 @ [1, 2, 3, 4], b_pos = 18, b_last = 22\<rparr>,
     \<lparr>b_mem = replicate 18 0 @ [5, 6, 0, 0], b_pos = 18, b_last = 20\<rparr>]"

lemma tiny_chunks_whole: "whole_chunks 4 tiny_chunks" "flat tiny_chunks = [1, 2, 3, 4, 5, 6]"
  "map buf_content tiny_chunks = [[1, 2, 3, 4], [5, 6]]"
  by (simp_all add: tiny_chunks_def chunked_def shared_buf_def NGX_RTMP_MAX_CHUNK_HEADER_def buf_content_def)

lemma single_pieces: "list_all pieces [map (\<lambda>x. [x]) p]" "concat (concat [map (\<lambda>x. [x]) p]) = p"
  by (simp_all add: list_all_iff)

theorem chunk_roundtrip_witness:
  "\<exists>out' r'. ngx_rtmp_prepare_message (small_session []) tiny_header None tiny_chunks = Ret (out', small_session []) \<and>
    recv_rounds (4 * length (flat out') + 1) small_env (\<lambda>_. [()]) small_call (small_session [])
      [map (\<lambda>x. [x]) (flat out')] = Ret r' \<and>
    s_world r' = [(tiny_header, [[1, 2, 3, 4], [5, 6]])]"
proof -
  have con: "connected (small_session []) small_handler (small_session []) rx_start tiny_header"
    using small_session_idle [of small_handler "[]"]
    by (simp add: connected_def rx_start_def tiny_header_def small_conf_def)
  have fo: "follows tiny_header None (msg_len tiny_chunks) (rx_join rx_start (unat (mh_csid tiny_header)))"
    by (simp add: follows_def rx_join_def rx_start_def zero_stream_def)
  have len: "length (flat tiny_chunks) < 0x1000000" "length (flat tiny_chunks) \<le> cf_max_message (s_conf (small_session []))"
    by (simp_all add: tiny_chunks_whole small_conf_def)
  have wc: "whole_chunks (cf_chunk_size (s_conf (small_session []))) tiny_chunks"
    using tiny_chunks_whole(1) by (simp add: small_conf_def)
  have g: "small_handler (tiny_header\<lparr>mh_mlen := msg_len tiny_chunks\<rparr>) (map buf_content tiny_chunks) (s_world (small_session [])) =
      (NGX_OK, [(tiny_header, [[1, 2, 3, 4], [5, 6]])])"
    unfolding tiny_chunks_whole by (simp add: small_handler_def tiny_header_def NGX_RTMP_MSG_MAX_def small_session_def)
  have f: "fst (chunk_fmt tiny_header None (msg_len tiny_chunks)) = 3 \<Longrightarrow>
      st_dtime (rx_str rx_start (unat (mh_csid tiny_header))) = 0"
    by (simp add: chunk_fmt_def)
  have pt: "pool_total (env_pool small_env)" by simp
  from chunk_roundtrip [OF con wc len fo f g pt small_handles] obtain out' where out':
    "ngx_rtmp_prepare_message (small_session []) tiny_header None tiny_chunks = Ret (out', small_session [])"
    "\<And>batches fuel. list_all pieces batches \<Longrightarrow> concat (concat batches) = flat out' \<Longrightarrow> 4 * length (flat out') < fuel \<Longrightarrow>
      \<exists>r'. recv_rounds fuel small_env (\<lambda>_. [()]) small_call (small_session []) batches = Ret r' \<and>
        s_world r' = [(tiny_header, [[1, 2, 3, 4], [5, 6]])]"
    by blast
  show ?thesis using out'(1) out'(2) [OF single_pieces less_add_one] by blast
qed

text \<open>
  C37: after a message that was sent with a time difference, one that is like it and has the same time
  stamp reaches the other side with the difference added once more.
\<close>

theorem repeated_timestamp_drifts:
  assumes "connected s g r rx h" "whole_chunks (cf_chunk_size (s_conf s)) out"
    and "length (flat out) < 0x1000000" "length (flat out) \<le> cf_max_message (s_conf r)"
    and "follows h lh (msg_len out) (rx_join rx (unat (mh_csid h)))"
    and "fst (chunk_fmt h lh (msg_len out)) = 3" and "st_dtime (rx_str rx (unat (mh_csid h))) = d"
    and "g (h\<lparr>mh_mlen := msg_len out, mh_timestamp := mh_timestamp h + d\<rparr>) (map buf_content out) (s_world r) = (NGX_OK, w)"
    and "pool_total (env_pool env)" "handles ev call g"
  shows "\<exists>out'. ngx_rtmp_prepare_message s h lh out = Ret (out', s) \<and>
    (\<forall>batches fuel. list_all pieces batches \<longrightarrow> concat (concat batches) = flat out' \<longrightarrow> 4 * length (flat out') < fuel \<longrightarrow>
      (\<exists>r'. recv_rounds fuel env ev call r batches = Ret r' \<and> s_world r' = w))"
proof -
  have "received_header h lh (msg_len out) (rx_join rx (unat (mh_csid h))) =
      h\<lparr>mh_mlen := msg_len out, mh_timestamp := mh_timestamp h + d\<rparr>"
    using assms(6,7) by (auto simp: received_header_def rx_join_def)
  then show ?thesis
    using message_received [OF assms(1-5) _ assms(9,10)] assms(8) by metis
qed

definition drift_stream :: rtmp_stream where
  "drift_stream = zero_stream\<lparr>st_hdr := tiny_header, st_dtime := 3\<rparr>"

definition drift_session :: "((rtmp_header \<times> bytes list) list, unit) rtmp_session" where
  "drift_session = (small_session [])\<lparr>s_in_streams := (replicate 8 zero_stream)[2 := drift_stream]\<rparr>"

definition rx_drift :: "(rtmp_header \<times> bytes list) list rx" where
  "rx_drift = rx_start\<lparr>rx_str := (rx_str rx_start)(2 := drift_stream)\<rparr>"

lemma drift_session_idle: "idle g drift_session rx_drift []"
proof -
  have "rings_ok cs ((replicate 8 zero_stream)[2 := drift_stream])" for cs
    by (intro rings_ok_upd) (simp_all add: rings_ok_def zero_stream_def drift_stream_def)
  moreover have "others_agree ((replicate 8 zero_stream)[2 := drift_stream]) 0 rx_drift"
    by (auto simp: others_agree_def agrees_def rx_drift_def rx_start_def drift_stream_def zero_stream_def strm_def
        nth_list_update)
  ultimately show ?thesis
    by (simp add: idle_def drift_session_def small_session_def rx_frame_def small_conf_def rx_drift_def rx_start_def)
       (simp add: zero_stream_def)
qed

theorem repeated_timestamp_drifts_witness:
  "\<exists>out' r'. ngx_rtmp_prepare_message (small_session []) tiny_header (Some tiny_header) tiny_chunks =
      Ret (out', small_session []) \<and>
    recv_rounds (4 * length (flat out') + 1) small_env (\<lambda>_. [()]) small_call drift_session
      [map (\<lambda>x. [x]) (flat out')] = Ret r' \<and>
    mh_timestamp tiny_header = 9 \<and> s_world r' = [(tiny_header\<lparr>mh_timestamp := 12\<rparr>, [[1, 2, 3, 4], [5, 6]])]"
proof -
  have con: "connected (small_session []) small_handler drift_session rx_drift tiny_header"
    using drift_session_idle [of small_handler]
    by (simp add: connected_def rx_drift_def rx_start_def tiny_header_def small_conf_def drift_session_def)
  have st: "rx_str rx_drift (unat (mh_csid tiny_header)) = drift_stream"
    by (simp add: rx_drift_def tiny_header_def)
  have m: "msg_len tiny_chunks = mh_mlen tiny_header" "mh_mlen tiny_header \<noteq> 0" "mh_csid tiny_header \<noteq> 0"
    unfolding tiny_chunks_whole by (simp_all add: tiny_header_def)
  have f3: "fst (chunk_fmt tiny_header (Some tiny_header) (msg_len tiny_chunks)) = 3"
    using m by (simp add: chunk_fmt_def)
  have fo: "follows tiny_header (Some tiny_header) (msg_len tiny_chunks) (rx_join rx_drift (unat (mh_csid tiny_header)))"
    unfolding follows_def rx_join_def st by (simp add: drift_stream_def zero_stream_def)
  have len: "length (flat tiny_chunks) < 0x1000000" "length (flat tiny_chunks) \<le> cf_max_message (s_conf drift_session)"
    by (simp_all add: tiny_chunks_whole small_conf_def drift_session_def)
  have wc: "whole_chunks (cf_chunk_size (s_conf (small_session []))) tiny_chunks"
    using tiny_chunks_whole(1) by (simp add: small_conf_def)
  have d: "st_dtime (rx_str rx_drift (unat (mh_csid tiny_header))) = 3" unfolding st by (simp add: drift_stream_def)
  have g: "small_handler (tiny_header\<lparr>mh_mlen := msg_len tiny_chunks, mh_timestamp := mh_timestamp tiny_header + 3\<rparr>)
      (map buf_content tiny_chunks) (s_world drift_session) =
      (NGX_OK, [(tiny_header\<lparr>mh_timestamp := 12\<rparr>, [[1, 2, 3, 4], [5, 6]])])"
    unfolding tiny_chunks_whole
    by (simp add: small_handler_def tiny_header_def NGX_RTMP_MSG_MAX_def drift_session_def small_session_def)
  have pt: "pool_total (env_pool small_env)" by simp
  from repeated_timestamp_drifts [OF con wc len fo f3 d g pt small_handles] obtain out' where out':
    "ngx_rtmp_prepare_message (small_session []) tiny_header (Some tiny_header) tiny_chunks = Ret (out', small_session [])"
    "\<And>batches fuel. list_all pieces batches \<Longrightarrow> concat (concat batches) = flat out' \<Longrightarrow> 4 * length (flat out') < fuel \<Longrightarrow>
      \<exists>r'. recv_rounds fuel small_env (\<lambda>_. [()]) small_call drift_session batches = Ret r' \<and>
        s_world r' = [(tiny_header\<lparr>mh_timestamp := 12\<rparr>, [[1, 2, 3, 4], [5, 6]])]"
    by blast
  have "mh_timestamp tiny_header = 9" by (simp add: tiny_header_def)
  then show ?thesis using out'(1) out'(2) [OF single_pieces less_add_one] by blast
qed

end
