(* ===== verification/Rtmp_Resize.thy ===== *)
theory Rtmp_Resize
  imports Rtmp_Loop
begin

text \<open>
  Changing the chunk size (\<open>ngx_rtmp_set_chunk_size\<close>): what has been collected on the streams is kept in
  buffers of the new size, but what is left over in the buffer at hand may not fit into one of them.
\<close>

section \<open>Buffers of the new size\<close>

lemma alloc_in_buf_total:
  assumes "s_in_pool s \<noteq> None" "pool_total (env_pool env)"
  obtains b p where "ngx_rtmp_alloc_in_buf env s = Ret (Some b, s\<lparr>s_in_pool := Some p\<rparr>)"
    "in_buf (s_in_chunk_size s) b" "buf_content b = []" "buf_room b = s_in_chunk_size s + NGX_RTMP_MAX_CHUNK_HEADER"
proof -
  let ?n = "s_in_chunk_size s + NGX_RTMP_MAX_CHUNK_HEADER"
  obtain p0 where p0: "s_in_pool s = Some p0" using assms(1) by auto
  obtain p1 where p1: "p_link (env_pool env) p0 = Some p1" using assms(2) by (rule pool_total_link)
  obtain p2 m2 where p2: "p_alloc (env_pool env) p1 80 = Some (p2, m2)" using assms(2) by (rule pool_totalE)
  obtain p3 m where p3: "p_alloc (env_pool env) p2 ?n = Some (p3, m)" "length m = ?n"
    using assms(2) by (rule pool_totalE)
  with p0 p1 p2 show thesis
    by (intro that [of "\<lparr>b_mem = m, b_pos = 0, b_last = 0\<rparr>" p3])
       (simp_all add: ngx_rtmp_alloc_in_buf_def in_buf_def buf_ok_def buf_content_def)
qed

lemma copy_fitting_in:
  assumes "in_buf cs l" "copy_fitting l x inn = (l', r)"
  shows "in_buf cs l' \<and> buf_content l' @ (case r of None \<Rightarrow> [] | Some (y, bs) \<Rightarrow> y @ flat bs) =
      buf_content l @ x @ flat inn \<and>
    (case r of None \<Rightarrow> True | Some (y, bs) \<Rightarrow> buf_room l' < length y)"
  using assms
proof (induction inn arbitrary: l x)
  case Nil
  then show ?case
    by (subst (asm) copy_fitting.simps) (auto simp: in_buf_write in_buf_ok split: if_splits)
next
  case (Cons b bs)
  show ?case
  proof (cases "length x \<le> buf_room l")
    case True
    with Cons.prems have "copy_fitting (buf_write l x) (buf_content b) bs = (l', r)"
      by (subst (asm) copy_fitting.simps) simp
    from Cons.IH [OF in_buf_write [OF Cons.prems(1) True] this] show ?thesis
      using in_buf_ok [OF Cons.prems(1)] True by simp
  next
    case False
    with Cons.prems show ?thesis by (subst (asm) copy_fitting.simps) auto
  qed
qed

lemma length_in_buf:
  "in_buf cs b \<Longrightarrow> length (buf_content b) + buf_room b + b_pos b = cs + NGX_RTMP_MAX_CHUNK_HEADER"
  by (auto simp: in_buf_def buf_ok_def)

lemma copy_ring_loop_spec:
  assumes "pool_total (env_pool env)" "s_in_pool s \<noteq> None"
    and "in_buf (s_in_chunk_size s) lo" "buf_content lo = []" "0 < buf_room lo"
    and "list_all (in_buf (s_in_chunk_size s)) out" "length x + length (flat inn) < fuel"
  shows "\<exists>out' p. copy_ring_loop fuel env s (out @ [lo]) x inn = Ret (Some out', s\<lparr>s_in_pool := Some p\<rparr>) \<and>
    out' \<noteq> [] \<and> flat out' = flat out @ x @ flat inn \<and> list_all (in_buf (s_in_chunk_size s)) out'"
  using assms(2-)
proof (induction fuel arbitrary: s lo out x inn)
  case (Suc k)
  obtain l r where copy: "copy_fitting lo x inn = (l, r)" by (metis surj_pair)
  note c = copy_fitting_in [OF Suc.prems(2) copy, unfolded Suc.prems(3) append_Nil]
  obtain p0 where p0: "s_in_pool s = Some p0" using Suc.prems(1) by auto
  show ?case
  proof (cases r)
    case None
    have "copy_ring_loop (Suc k) env s (out @ [lo]) x inn = Ret (Some (out @ [l]), s\<lparr>s_in_pool := Some p0\<rparr>)"
      using copy None p0 by simp
    moreover have "flat (out @ [l]) = flat out @ x @ flat inn" "list_all (in_buf (s_in_chunk_size s)) (out @ [l])"
      using c Suc.prems(5) None by simp_all
    ultimately show ?thesis
      by (intro exI [of _ "out @ [l]"] exI [of _ p0]) (simp del: copy_ring_loop.simps)
  next
    case (Some q)
    then obtain y bs where q: "r = Some (y, bs)" by (cases q) auto
    with c have l: "in_buf (s_in_chunk_size s) l" "buf_content l @ y @ flat bs = x @ flat inn" "buf_room l < length y" by auto
    let ?l = "buf_write l (take (buf_room l) y)" and ?y = "drop (buf_room l) y"
    have l': "in_buf (s_in_chunk_size s) ?l" "buf_content ?l = buf_content l @ take (buf_room l) y"
      using l(1) in_buf_write [OF l(1)] in_buf_ok [OF l(1)] by simp_all
    obtain b p where b: "ngx_rtmp_alloc_in_buf env s = Ret (Some b, s\<lparr>s_in_pool := Some p\<rparr>)"
      "in_buf (s_in_chunk_size s) b" "buf_content b = []" "buf_room b = s_in_chunk_size s + NGX_RTMP_MAX_CHUNK_HEADER"
      using alloc_in_buf_total [OF Suc.prems(1) assms(1)] .
    have full: "0 < length (buf_content ?l)"
    proof -
      have "b_pos l = b_pos lo" using copy
      proof (induction inn arbitrary: lo x)
        case Nil
        then show ?case by (subst (asm) copy_fitting.simps) (auto split: if_splits)
      next
        case (Cons a inn)
        from Cons.prems show ?case
          by (subst (asm) copy_fitting.simps) (auto split: if_splits dest!: Cons.IH)
      qed
      then have "0 < buf_room l \<or> 0 < length (buf_content l)"
        using length_in_buf [OF l(1)] length_in_buf [OF Suc.prems(2)] Suc.prems(3,4) by auto
      then show ?thesis using l(3) unfolding l'(2) by auto
    qed
    have split: "buf_content ?l @ ?y @ flat bs = x @ flat inn"
      unfolding l'(2) using l(2) by (simp flip: append_assoc) (simp only: append_assoc append_take_drop_id)
    have "length ?y + length (flat bs) < k"
    proof -
      have "length (buf_content ?l) + (length ?y + length (flat bs)) = length x + length (flat inn)"
        using arg_cong [OF split, of length] by simp
      then show ?thesis using full Suc.prems(6) by linarith
    qed
    with Suc.IH [of "s\<lparr>s_in_pool := Some p\<rparr>" b "out @ [?l]" ?y bs] b Suc.prems(5) l'(1) obtain out' p' where out':
      "copy_ring_loop k env (s\<lparr>s_in_pool := Some p\<rparr>) (out @ [?l] @ [b]) ?y bs = Ret (Some out', s\<lparr>s_in_pool := Some p'\<rparr>)"
      "out' \<noteq> []" "flat out' = flat (out @ [?l]) @ ?y @ flat bs" "list_all (in_buf (s_in_chunk_size s)) out'"
      by (auto simp: NGX_RTMP_MAX_CHUNK_HEADER_def)
    have "copy_ring_loop (Suc k) env s (out @ [lo]) x inn = Ret (Some out', s\<lparr>s_in_pool := Some p'\<rparr>)"
      using copy q b(1) out'(1) by simp
    moreover have "flat out' = flat out @ x @ flat inn" using out'(3) split by simp
    ultimately show ?thesis using out'(2,4)
      by (intro exI [of _ out'] exI [of _ p']) (simp del: copy_ring_loop.simps)
  qed
qed simp

lemma copy_ring_spec:
  assumes "pool_total (env_pool env)" "s_in_pool s \<noteq> None"
  shows "\<exists>out p. copy_ring env s li = Ret (Some out, s\<lparr>s_in_pool := Some p\<rparr>) \<and> (out = [] \<longleftrightarrow> li = []) \<and>
    flat out = flat li \<and> list_all (in_buf (s_in_chunk_size s)) out"
proof (cases li)
  case Nil
  obtain p where "s_in_pool s = Some p" using assms(2) by auto
  then show ?thesis using Nil by (intro exI [of _ "[]"] exI [of _ p]) (simp add: copy_ring_def)
next
  case (Cons c bs)
  obtain b p where b: "ngx_rtmp_alloc_in_buf env s = Ret (Some b, s\<lparr>s_in_pool := Some p\<rparr>)"
    "in_buf (s_in_chunk_size s) b" "buf_content b = []" "buf_room b = s_in_chunk_size s + NGX_RTMP_MAX_CHUNK_HEADER"
    using alloc_in_buf_total [OF assms(2,1)] .
  from copy_ring_loop_spec [OF assms(1), of "s\<lparr>s_in_pool := Some p\<rparr>" b "[]" "buf_content c" bs "length (flat li) + 1"] b
  obtain out' p' where "copy_ring_loop (length (flat li) + 1) env (s\<lparr>s_in_pool := Some p\<rparr>) [b] (buf_content c) bs =
      Ret (Some out', s\<lparr>s_in_pool := Some p'\<rparr>)" "out' \<noteq> []" "flat out' = buf_content c @ flat bs"
      "list_all (in_buf (s_in_chunk_size s)) out'"
    by (auto simp: Cons NGX_RTMP_MAX_CHUNK_HEADER_def)
  with b(1) Cons show ?thesis by (auto simp: copy_ring_def)
qed

text \<open>A stream before and after.\<close>

definition same_data :: "nat \<Rightarrow> rtmp_stream \<Rightarrow> rtmp_stream \<Rightarrow> bool" where
  "same_data cs st st' \<longleftrightarrow> strm st' = strm st \<and> flat (st_in st') = flat (st_in st) \<and>
     (st_in st' = [] \<longleftrightarrow> st_in st = []) \<and> list_all (in_buf cs) (st_in st')"

lemma copy_streams_spec:
  assumes "pool_total (env_pool env)" "s_in_pool s \<noteq> None" "distinct ns" "\<forall>n \<in> set ns. n < length (s_in_streams s)"
  shows "\<exists>p strs. copy_streams env ns s = Ret (True, s\<lparr>s_in_pool := Some p, s_in_streams := strs\<rparr>) \<and>
    length strs = length (s_in_streams s) \<and> (\<forall>n. n \<notin> set ns \<longrightarrow> strs ! n = s_in_streams s ! n) \<and>
    (\<forall>n \<in> set ns. same_data (s_in_chunk_size s) (s_in_streams s ! n) (strs ! n))"
  using assms(2-)
proof (induction ns arbitrary: s)
  case Nil
  then obtain p where "s_in_pool s = Some p" by auto
  then have "s = s\<lparr>s_in_pool := Some p, s_in_streams := s_in_streams s\<rparr>" by simp
  then show ?case by (intro exI [of _ p] exI [of _ "s_in_streams s"]) simp
next
  case (Cons n ns)
  obtain out p where out: "copy_ring env s (st_in (s_in_streams s ! n)) = Ret (Some out, s\<lparr>s_in_pool := Some p\<rparr>)"
    "out = [] \<longleftrightarrow> st_in (s_in_streams s ! n) = []" "flat out = flat (st_in (s_in_streams s ! n))"
    "list_all (in_buf (s_in_chunk_size s)) out"
    using copy_ring_spec [OF assms(1) Cons.prems(1)] by metis
  let ?s = "upd_stream n (\<lambda>st. st\<lparr>st_in := out\<rparr>) (s\<lparr>s_in_pool := Some p\<rparr>)"
  have "s_in_pool ?s \<noteq> None" "\<forall>m \<in> set ns. m < length (s_in_streams ?s)" "distinct ns"
    using Cons.prems by simp_all
  note ih = Cons.IH [OF this(1,3,2)]
  have len: "length (s_in_streams ?s) = length (s_in_streams s)" "s_in_chunk_size ?s = s_in_chunk_size s" by simp_all
  obtain p' strs where r:
    "copy_streams env ns ?s = Ret (True, ?s\<lparr>s_in_pool := Some p', s_in_streams := strs\<rparr>)"
    "length strs = length (s_in_streams s)" "\<forall>m. m \<notin> set ns \<longrightarrow> strs ! m = s_in_streams ?s ! m"
    "\<forall>m \<in> set ns. same_data (s_in_chunk_size s) (s_in_streams ?s ! m) (strs ! m)"
    using ih unfolding len by (elim exE conjE) (rule that)
  have "n < length (s_in_streams s)" "n \<notin> set ns" using Cons.prems(2,3) by simp_all
  then have "strs ! n = (s_in_streams s ! n)\<lparr>st_in := out\<rparr>" using r(3) by simp
  then have "same_data (s_in_chunk_size s) (s_in_streams s ! n) (strs ! n)"
    using out(2-4) by (simp add: same_data_def strm_def)
  moreover have "same_data (s_in_chunk_size s) (s_in_streams s ! m) (strs ! m)" if "m \<in> set ns" for m
  proof -
    have "n \<noteq> m" using that \<open>n \<notin> set ns\<close> by auto
    then show ?thesis using r(4) [rule_format, OF that] by simp
  qed
  moreover have "copy_streams env (n # ns) s = Ret (True, s\<lparr>s_in_pool := Some p', s_in_streams := strs\<rparr>)"
    using r(1) out(1) \<open>n < length (s_in_streams s)\<close> by (simp add: upd_stream_def)
  ultimately show ?case using r(2,3)
    by (intro exI [of _ p'] exI [of _ strs]) (auto simp del: copy_streams.simps)
qed

section \<open>Changing the size\<close>

lemma set_chunk_size_result:
  assumes pt: "pool_total (env_pool env)" and cp: "env_create_pool env \<noteq> None" and old: "s_in_pool s \<noteq> None"
    and sz: "sz \<le> NGX_RTMP_MAX_CHUNK_SIZE"
    and len: "length (s_in_streams s) = cf_max_streams (s_conf s)" "0 < cf_max_streams (s_conf s)"
  shows "\<exists>p strs. ngx_rtmp_set_chunk_size env s sz = Ret (NGX_OK, s\<lparr>s_in_old_pool := s_in_pool s, s_in_chunk_size := sz,
      s_in_chunk_size_changing := True, s_in_pool := Some p, s_in_streams := strs\<rparr>) \<and>
    length strs = length (s_in_streams s) \<and> st_in (strs ! 0) = [] \<and>
    (\<forall>n. 0 < n \<longrightarrow> n < length strs \<longrightarrow> same_data sz (s_in_streams s ! n) (strs ! n))"
proof -
  obtain y where y: "s_in_pool s = Some y" using old by auto
  let ?s = "upd_stream 0 (\<lambda>st. st\<lparr>st_in := []\<rparr>) (s\<lparr>s_in_old_pool := s_in_pool s, s_in_chunk_size := sz,
    s_in_pool := env_create_pool env, s_in_chunk_size_changing := True\<rparr>)"
  have "s_in_pool ?s \<noteq> None" "distinct [1..<cf_max_streams (s_conf s)]"
    "\<forall>n \<in> set [1..<cf_max_streams (s_conf s)]. n < length (s_in_streams ?s)"
    using cp len by simp_all
  note cs = copy_streams_spec [OF pt this]
  have f: "length (s_in_streams ?s) = length (s_in_streams s)" "s_in_chunk_size ?s = sz" by simp_all
  obtain p strs where r: "copy_streams env [1..<cf_max_streams (s_conf s)] ?s = Ret (True, ?s\<lparr>s_in_pool := Some p, s_in_streams := strs\<rparr>)"
    "length strs = length (s_in_streams s)" "\<forall>n. n \<notin> set [1..<cf_max_streams (s_conf s)] \<longrightarrow> strs ! n = s_in_streams ?s ! n"
    "\<forall>n \<in> set [1..<cf_max_streams (s_conf s)]. same_data sz (s_in_streams ?s ! n) (strs ! n)"
    using cs unfolding f by (elim exE conjE) (rule that)
  have zero: "st_in (strs ! 0) = []" using r(3) len by simp
  have "same_data sz (s_in_streams s ! n) (strs ! n)" if "0 < n" "n < length strs" for n
    using r(4) [rule_format, of n] that r(2) len by simp
  moreover have "ngx_rtmp_set_chunk_size env s sz = Ret (NGX_OK, s\<lparr>s_in_old_pool := s_in_pool s, s_in_chunk_size := sz,
      s_in_chunk_size_changing := True, s_in_pool := Some p, s_in_streams := strs\<rparr>)"
    using r(1) y sz by (simp add: ngx_rtmp_set_chunk_size_def Let_def upd_stream_def)
  ultimately show ?thesis using r(2) zero by (intro exI [of _ p] exI [of _ strs] conjI allI impI)
qed

text \<open>
  C22: changing the chunk size keeps what has been collected on every chunk stream: the same bytes, in
  buffers that have room for a header and a chunk of the new size.
\<close>

theorem set_chunk_size_keeps_data:
  assumes "pool_total (env_pool env)" "env_create_pool env \<noteq> None" "s_in_pool s \<noteq> None"
    and "sz \<le> NGX_RTMP_MAX_CHUNK_SIZE"
    and "length (s_in_streams s) = cf_max_streams (s_conf s)" "0 < cf_max_streams (s_conf s)"
  shows "\<exists>s'. ngx_rtmp_set_chunk_size env s sz = Ret (NGX_OK, s') \<and> s_in_chunk_size s' = sz \<and>
    s_in_old_pool s' = s_in_pool s \<and> s_in_pool s' \<noteq> None \<and> rings_ok sz (s_in_streams s') \<and>
    (\<forall>n. 0 < n \<longrightarrow> n < length (s_in_streams s) \<longrightarrow>
      strm (s_in_streams s' ! n) = strm (s_in_streams s ! n) \<and>
      flat (st_in (s_in_streams s' ! n)) = flat (st_in (s_in_streams s ! n)))"
proof -
  obtain p strs where r: "ngx_rtmp_set_chunk_size env s sz = Ret (NGX_OK, s\<lparr>s_in_old_pool := s_in_pool s, s_in_chunk_size := sz,
      s_in_chunk_size_changing := True, s_in_pool := Some p, s_in_streams := strs\<rparr>)"
    "length strs = length (s_in_streams s)" "st_in (strs ! 0) = []"
    "\<forall>n. 0 < n \<longrightarrow> n < length strs \<longrightarrow> same_data sz (s_in_streams s ! n) (strs ! n)"
    using set_chunk_size_result [OF assms] by blast
  have "in_buf sz b" if "n < length strs" "b \<in> set (st_in (strs ! n))" for n b
    using r(3) r(4) [rule_format, of n] that by (cases "n = 0") (auto simp: same_data_def list_all_iff)
  then have "rings_ok sz strs" by (auto simp: rings_ok_def in_set_conv_nth [of _ strs])
  then show ?thesis using r(1,2,4) by (simp add: same_data_def)
qed

theorem set_chunk_size_keeps_data_witness:
  "\<exists>s'. ngx_rtmp_set_chunk_size small_env
      ((small_session [])\<lparr>s_in_streams := (replicate 8 zero_stream)
        [3 := zero_stream\<lparr>st_in := [\<lparr>b_mem = [7, 8, 9], b_pos = 0, b_last = 3\<rparr>]\<rparr>]\<rparr>) 64 = Ret (NGX_OK, s') \<and>
    flat (st_in (s_in_streams s' ! 3)) = [7, 8, 9]"
  using set_chunk_size_keeps_data [of small_env "(small_session [])\<lparr>s_in_streams := (replicate 8 zero_stream)
        [3 := zero_stream\<lparr>st_in := [\<lparr>b_mem = [7, 8, 9], b_pos = 0, b_last = 3\<rparr>]\<rparr>]\<rparr>" 64]
  by (auto simp: small_env_def small_session_def small_conf_def NGX_RTMP_MAX_CHUNK_SIZE_def buf_content_def
      dest!: spec [of _ 3])

text \<open>
  C38: when a message sets a chunk size so small that what was read behind it does not fit into a buffer
  of the new size, the next turn of the read loop writes beyond the end of that buffer.
\<close>

theorem chunk_size_shrink_overflows:
  assumes l: "loaded s rx p" and c: "rx_cur rx \<noteq> 0"
    and pt: "pool_total (env_pool env)" and cp: "env_create_pool env \<noteq> None"
    and fsize: "unat (mh_mlen (st_hdr (rx_str rx (rx_cur rx))) - st_len (rx_str rx (rx_cur rx))) = fsize"
      "fsize \<le> s_in_chunk_size s" "fsize \<le> length p"
    and ev: "mh_type (st_hdr (rx_str rx (rx_cur rx))) \<le> NGX_RTMP_MSG_MAX"
      "ev (mh_type (st_hdr (rx_str rx (rx_cur rx)))) = [f]"
    and call: "\<And>s h inn. call f s h inn = ngx_rtmp_set_chunk_size env s sz"
    and sz: "sz \<le> NGX_RTMP_MAX_CHUNK_SIZE" "sz + NGX_RTMP_MAX_CHUNK_HEADER < length (drop fsize p)"
  shows "\<exists>s' t. recv_payload ev call cscf s = Ret (s', Some t) \<and> recv_turn env ev call t = Fault"
proof -
  let ?n = "rx_cur rx"
  obtain bs b where b: "s_in_csid s = ?n" "st_in (s_in_streams s ! ?n) = bs @ [b]" "cur_buf s = b"
    "strm (s_in_streams s ! ?n) = rx_str rx ?n"
    "buf_content b = p" "b_last b - b_pos b = length p" "?n < length (s_in_streams s)"
    using payload_at [OF l c] by metis
  have f: "st_hdr (rx_str rx ?n) = st_hdr (s_in_streams s ! ?n)" "st_len (rx_str rx ?n) = st_len (s_in_streams s ! ?n)"
    using b(4) [symmetric] by simp_all
  have fr: "rx_frame s rx" using l by simp
  let ?s = "set_cur_buf (b\<lparr>b_last := b_pos b + fsize\<rparr>) s"
  define hdr where "hdr = (st_hdr (s_in_streams s ! ?n))\<lparr>mh_timestamp :=
    mh_timestamp (st_hdr (s_in_streams s ! ?n)) + st_dtime (s_in_streams s ! ?n)\<rparr>"
  let ?t = "upd_stream ?n (\<lambda>st. st\<lparr>st_len := 0, st_hdr := hdr, st_in := []\<rparr>) ?s"
  have cs: "cur_stream ?s = (s_in_streams s ! ?n)\<lparr>st_in := bs @ [b\<lparr>b_last := b_pos b + fsize\<rparr>]\<rparr>"
    using b(1,2,7) c by (simp add: set_cur_buf_def)
  have "s_in_pool ?t \<noteq> None" "length (s_in_streams ?t) = cf_max_streams (s_conf ?t)" "0 < cf_max_streams (s_conf ?t)"
    using fr by (simp_all add: rx_frame_def set_cur_buf_def)
  from set_chunk_size_result [OF pt cp this(1) sz(1) this(2,3)] obtain p' strs where r:
    "ngx_rtmp_set_chunk_size env ?t sz = Ret (NGX_OK, ?t\<lparr>s_in_old_pool := s_in_pool ?t, s_in_chunk_size := sz,
      s_in_chunk_size_changing := True, s_in_pool := Some p', s_in_streams := strs\<rparr>)"
    "length strs = length (s_in_streams ?t)" "st_in (strs ! 0) = []"
    by blast
  let ?u = "?t\<lparr>s_in_old_pool := s_in_pool ?t, s_in_chunk_size := sz,
      s_in_chunk_size_changing := True, s_in_pool := Some p', s_in_streams := strs\<rparr>"
  have rm: "ngx_rtmp_receive_message ev call ?t hdr inn = Ret (NGX_OK, ?u)" for inn
    using ev f call r(1) by (simp add: ngx_rtmp_receive_message_def hdr_def not_less del: upd_stream_simps(1))
  have ne: "drop fsize p \<noteq> []" using sz(2) by auto
  have "recv_payload ev call cscf s = recv_message ev call cscf s fsize"
    using b f fsize by (simp add: recv_payload_def Let_def)
  also have "\<dots> = Ret (?u, Some (cscf, ?u\<lparr>s_in_csid := 0\<rparr>, Some (drop fsize p)))"
    using cs b(1,3,5) rm fr ne fsize(3) unfolding recv_message_def Let_def
    by (simp add: hdr_def [symmetric] rx_frame_def del: upd_stream_simps(1))
  finally have rp: "recv_payload ev call cscf s = \<dots>" .
  let ?v = "?u\<lparr>s_in_csid := 0\<rparr>"
  have len: "0 < length strs" using r(2) b(7) by (cases strs) (auto simp: set_cur_buf_def)
  have "s_in_pool ?v \<noteq> None" "s_in_chunk_size ?v = sz" by simp_all
  from alloc_in_buf_total [OF this(1) pt, unfolded this(2)] obtain c2 p2 where
    al: "ngx_rtmp_alloc_in_buf env ?v = Ret (Some c2, ?v\<lparr>s_in_pool := Some p2\<rparr>)" "in_buf sz c2" .
  have "recv_fill env ?v (Some (drop fsize p)) = Fault"
  proof -
    obtain x xs where xs: "drop fsize p = x # xs" using ne by (cases "drop fsize p") auto
    have "recv_in_buf env ?v = Ret (True, upd_stream 0 (\<lambda>st. st\<lparr>st_in := [c2]\<rparr>) (?v\<lparr>s_in_pool := Some p2\<rparr>))"
      using al(1) r(3) by (simp add: recv_in_buf_def)
    moreover have "cur_buf (upd_stream 0 (\<lambda>st. st\<lparr>st_in := [c2]\<rparr>) (?v\<lparr>s_in_pool := Some p2\<rparr>)) = c2"
      using len by (simp add: cur_buf_def)
    moreover have "length (b_mem c2) < length (x # xs)" using al(2) sz(2) xs by (simp add: in_buf_def)
    ultimately show ?thesis using len xs by (simp add: recv_fill_def Let_def)
  qed
  then show ?thesis using rp by (simp add: recv_turn_def)
qed

definition shrink_payload :: bytes where
  "shrink_payload = [0, 0, 0, 1] @ replicate 40 7"

definition shrink_stream :: rtmp_stream where
  "shrink_stream = zero_stream\<lparr>st_hdr := \<lparr>mh_csid = 2, mh_timestamp = 0, mh_mlen = 4, mh_type = 1, mh_msid = 0\<rparr>,
     st_in := [\<lparr>b_mem = replicate 12 0 @ shrink_payload @ replicate 90 0, b_pos = 12, b_last = 56\<rparr>]\<rparr>"

definition shrink_session :: "((rtmp_header \<times> bytes list) list, unit) rtmp_session" where
  "shrink_session = (small_session [])\<lparr>s_in_chunk_size := 128, s_in_csid := 2,
     s_in_streams := (replicate 8 zero_stream)[2 := shrink_stream]\<rparr>"

definition rx_shrink :: "(rtmp_header \<times> bytes list) list rx" where
  "rx_shrink = rx_start\<lparr>rx_str := (rx_str rx_start)(2 := strm shrink_stream), rx_cur := 2\<rparr>"

lemma shrink_session_loaded: "loaded shrink_session rx_shrink shrink_payload"
proof -
  have l: "length shrink_payload = 44" by (simp add: shrink_payload_def)
  have "rings_ok 128 ((replicate 8 zero_stream)[2 := shrink_stream])"
    by (intro rings_ok_upd)
       (simp_all add: rings_ok_def zero_stream_def shrink_stream_def in_buf_def buf_ok_def NGX_RTMP_MAX_CHUNK_HEADER_def l)
  moreover have "others_agree ((replicate 8 zero_stream)[2 := shrink_stream]) 2 rx_shrink"
    by (auto simp: others_agree_def agrees_def rx_shrink_def rx_start_def zero_stream_def strm_def nth_list_update)
  moreover have "at_chunk True ((replicate 8 zero_stream)[2 := shrink_stream]) rx_shrink shrink_payload 2"
    by (rule at_chunk.payload [where bs = "[]" and b = "hd (st_in shrink_stream)"])
       (simp_all add: rx_shrink_def rx_start_def shrink_stream_def buf_content_def l)
  ultimately show ?thesis
    by (simp add: rx_frame_def shrink_session_def small_session_def small_conf_def)
       (simp add: rx_shrink_def rx_start_def)
qed

theorem chunk_size_shrink_overflows_witness:
  "\<exists>s' t. recv_payload (\<lambda>_. [()]) (\<lambda>_ s _ _. ngx_rtmp_set_chunk_size small_env s 1) small_conf shrink_session = Ret (s', Some t) \<and>
    recv_turn small_env (\<lambda>_. [()]) (\<lambda>_ s _ _. ngx_rtmp_set_chunk_size small_env s 1) t = Fault"
proof (rule chunk_size_shrink_overflows [OF shrink_session_loaded])
  have st: "rx_str rx_shrink (rx_cur rx_shrink) = strm shrink_stream" by (simp add: rx_shrink_def)
  show "unat (mh_mlen (st_hdr (rx_str rx_shrink (rx_cur rx_shrink))) - st_len (rx_str rx_shrink (rx_cur rx_shrink))) = 4"
    unfolding st by (simp add: shrink_stream_def zero_stream_def)
  show "mh_type (st_hdr (rx_str rx_shrink (rx_cur rx_shrink))) \<le> NGX_RTMP_MSG_MAX"
    unfolding st by (simp add: shrink_stream_def NGX_RTMP_MSG_MAX_def)
  show "1 \<le> NGX_RTMP_MAX_CHUNK_SIZE" "1 + NGX_RTMP_MAX_CHUNK_HEADER < length (drop 4 shrink_payload)"
    by (simp_all add: rtmp_consts shrink_payload_def del: One_nat_def)
qed (simp_all add: small_env_def rx_shrink_def shrink_session_def small_session_def shrink_payload_def rtmp_consts)

end
