(* ===== verification/Rtmp_Queue.thy ===== *)
theory Rtmp_Queue
  imports Rtmp_Loop
begin

text \<open>
  The output ring of a session as a queue: what has been written and what is still to be written are, in
  a row, the messages in the order they were queued; no byte is lost, repeated or overtaken, the messages
  are kept as long as they are referred to, and a socket that takes bytes is given all of them.
\<close>

section \<open>The ring as a list\<close>

definition queue_len :: "('w, 'p) rtmp_session \<Rightarrow> nat" where
  "queue_len s = (s_out_last s + s_out_queue s - s_out_pos s) mod s_out_queue s"

definition queued :: "('w, 'p) rtmp_session \<Rightarrow> nat option list" where
  "queued s = map (\<lambda>k. s_out s ! ((s_out_pos s + k) mod s_out_queue s)) [0..<queue_len s]"

definition ring_ok :: "('w, 'p) rtmp_session \<Rightarrow> bool" where
  "ring_ok s \<longleftrightarrow> length (s_out s) = s_out_queue s \<and> s_out_pos s < s_out_queue s \<and> s_out_last s < s_out_queue s"

lemma queue_len_eq:
  "ring_ok s \<Longrightarrow> queue_len s = (if s_out_pos s \<le> s_out_last s then s_out_last s - s_out_pos s
     else s_out_last s + s_out_queue s - s_out_pos s)"
  by (auto simp: queue_len_def ring_ok_def mod_if)

lemma queued_empty: "ring_ok s \<Longrightarrow> queued s = [] \<longleftrightarrow> s_out_pos s = s_out_last s"
  by (auto simp: queued_def queue_len_eq) (auto simp: ring_ok_def split: if_splits)

lemma queued_pop:
  assumes r: "ring_ok s" and ne: "s_out_pos s \<noteq> s_out_last s"
  defines "s' \<equiv> s\<lparr>s_out_pos := (s_out_pos s + 1) mod s_out_queue s\<rparr>"
  shows "queued s = s_out s ! s_out_pos s # queued s'" "ring_ok s'"
proof -
  show r': "ring_ok s'" using r by (simp add: ring_ok_def s'_def)
  have len: "queue_len s = Suc (queue_len s')"
    unfolding queue_len_eq [OF r] queue_len_eq [OF r'] using r ne by (auto simp: s'_def ring_ok_def mod_if)
  have idx: "(s_out_pos s + Suc k) mod s_out_queue s = ((s_out_pos s + 1) mod s_out_queue s + k) mod s_out_queue s" for k
    by (simp add: mod_add_left_eq)
  show "queued s = s_out s ! s_out_pos s # queued s'"
    unfolding queued_def len upt_conv_Cons [OF zero_less_Suc] list.map map_Suc_upt [symmetric] map_map o_def idx
    using r by (simp add: s'_def ring_ok_def)
qed

lemma queued_push:
  fixes m :: nat
  assumes r: "ring_ok s" and free: "queue_len s + 1 < s_out_queue s"
  defines "s' \<equiv> s\<lparr>s_out := (s_out s)[s_out_last s := Some m], s_out_last := (s_out_last s + 1) mod s_out_queue s\<rparr>"
  shows "queued s' = queued s @ [Some m]" "ring_ok s'"
proof -
  show r': "ring_ok s'" using r by (simp add: ring_ok_def s'_def)
  have len: "queue_len s' = Suc (queue_len s)"
    using free unfolding queue_len_eq [OF r] queue_len_eq [OF r'] using r by (auto simp: s'_def ring_ok_def mod_if)
  have last: "(s_out_pos s + queue_len s) mod s_out_queue s = s_out_last s"
    unfolding queue_len_eq [OF r] using r by (auto simp: ring_ok_def mod_if)
  have ne: "s_out_last s \<noteq> (s_out_pos s + k) mod s_out_queue s" if "k < queue_len s" for k
    using that free r unfolding queue_len_eq [OF r] by (auto simp: ring_ok_def mod_if split: if_splits)
  have pos: "s_out_pos s' = s_out_pos s" "s_out_queue s' = s_out_queue s"
    "s_out s' = (s_out s)[s_out_last s := Some m]" by (simp_all add: s'_def)
  have l: "s_out_last s < length (s_out s)" using r by (simp add: ring_ok_def)
  have "map (\<lambda>k. (s_out s)[s_out_last s := Some m] ! ((s_out_pos s + k) mod s_out_queue s)) [0..<queue_len s] = queued s"
    unfolding queued_def by (intro map_cong refl nth_list_update_neq ne) simp
  then show "queued s' = queued s @ [Some m]"
    unfolding queued_def [of s'] len pos upt_Suc_append [OF le0] map_append using last l by simp
qed

section \<open>Messages and references\<close>

definition msg_bytes :: "'p rtmp_shared \<Rightarrow> nat option \<Rightarrow> bytes" where
  "msg_bytes sh r = (case r of None \<Rightarrow> [] | Some m \<Rightarrow>
     (case sh_msgs sh m of None \<Rightarrow> [] | Some msg \<Rightarrow> flat (msg_bufs msg)))"

abbreviation queue_bytes :: "'p rtmp_shared \<Rightarrow> nat option list \<Rightarrow> bytes" where
  "queue_bytes sh q \<equiv> concat (map (msg_bytes sh) q)"

definition bufs_ok :: "chain \<Rightarrow> bool" where
  "bufs_ok cl \<longleftrightarrow> cl \<noteq> [] \<and> list_all (\<lambda>b. buf_ok b \<and> b_pos b < b_last b) cl"

text \<open>The messages of a queue are there, with a reference for each time they are in it.\<close>

definition msgs_ok :: "'p rtmp_shared \<Rightarrow> nat option list \<Rightarrow> bool" where
  "msgs_ok sh q \<longleftrightarrow> (\<forall>r \<in> set q. \<exists>m msg. r = Some m \<and> sh_msgs sh m = Some msg \<and> bufs_ok (msg_bufs msg) \<and>
     count_list q r \<le> unat (msg_ref msg))"

lemma msgs_ok_in:
  assumes "msgs_ok sh q" "r \<in> set q"
  obtains m msg where "r = Some m" "sh_msgs sh m = Some msg" "bufs_ok (msg_bufs msg)"
    "count_list q r \<le> unat (msg_ref msg)"
  using bspec [OF assms(1) [unfolded msgs_ok_def] assms(2)] by (elim exE conjE) (rule that)

lemma msgs_okD:
  assumes "msgs_ok sh (r # q)"
  obtains m msg where "r = Some m" "sh_msgs sh m = Some msg" "bufs_ok (msg_bufs msg)"
    "count_list q r < unat (msg_ref msg)"
  using assms by (auto simp: msgs_ok_def)

lemma msgs_ok_hd: "msgs_ok sh (Some m # q) \<Longrightarrow> sh_msgs sh m = Some msg \<Longrightarrow> bufs_ok (msg_bufs msg)"
  by (auto simp: msgs_ok_def)

lemma free_shared_chain_queue:
  assumes "msgs_ok sh (Some m # q)"
  obtains sh' where "ngx_rtmp_free_shared_chain sh m = Ret sh'" "msgs_ok sh' q" "queue_bytes sh' q = queue_bytes sh q"
proof -
  obtain msg where msg: "sh_msgs sh m = Some msg" "bufs_ok (msg_bufs msg)" "count_list q (Some m) < unat (msg_ref msg)"
    using msgs_okD [OF assms] by blast
  have q: "\<exists>n msg. r = Some n \<and> sh_msgs sh n = Some msg \<and> bufs_ok (msg_bufs msg) \<and> count_list q r \<le> unat (msg_ref msg)"
    if "r \<in> set q" for r
  proof -
    have "r \<in> set (Some m # q)" using that by simp
    from msgs_ok_in [OF assms this] obtain n msg where "r = Some n" "sh_msgs sh n = Some msg" "bufs_ok (msg_bufs msg)"
      "count_list (Some m # q) r \<le> unat (msg_ref msg)" .
    then show ?thesis by (intro exI [of _ n] exI [of _ msg]) (auto split: if_splits)
  qed
  show thesis
  proof (cases "msg_ref msg - 1 \<noteq> 0")
    case True
    let ?sh = "sh\<lparr>sh_msgs := (sh_msgs sh)(m \<mapsto> msg\<lparr>msg_ref := msg_ref msg - 1\<rparr>)\<rparr>"
    have "msg_ref msg \<noteq> 0" using msg(3) by auto
    then have u: "unat (msg_ref msg - 1) = unat (msg_ref msg) - 1" by (simp add: unat_minus_one)
    have "msgs_ok ?sh q"
      unfolding msgs_ok_def
    proof
      fix r assume "r \<in> set q"
      from q [OF this] obtain n msg' where n: "r = Some n" "sh_msgs sh n = Some msg'" "bufs_ok (msg_bufs msg')"
        "count_list q r \<le> unat (msg_ref msg')" by blast
      show "\<exists>n msg. r = Some n \<and> sh_msgs ?sh n = Some msg \<and> bufs_ok (msg_bufs msg) \<and> count_list q r \<le> unat (msg_ref msg)"
        using n msg u by (cases "n = m") auto
    qed
    moreover have "msg_bytes ?sh = msg_bytes sh"
      using msg(1) by (auto simp: msg_bytes_def fun_eq_iff split: option.split)
    ultimately show thesis using True msg(1) by (intro that [of ?sh]) (simp_all add: ngx_rtmp_free_shared_chain_def)
  next
    case False
    let ?sh = "sh\<lparr>sh_msgs := (sh_msgs sh)(m := None), sh_free := msg_bufs msg @ sh_free sh\<rparr>"
    from False have "msg_ref msg = 1" by simp
    then have "Some m \<notin> set q" using msg(3) by (simp add: count_list_0_iff)
    then have "msgs_ok ?sh q" using q by (fastforce simp: msgs_ok_def)
    moreover have "queue_bytes ?sh q = queue_bytes sh q"
      using \<open>Some m \<notin> set q\<close> by (intro arg_cong [of _ _ concat] map_cong refl) (auto simp: msg_bytes_def split: option.split)
    ultimately show thesis using False msg(1) by (intro that [of ?sh]) (simp_all add: ngx_rtmp_free_shared_chain_def)
  qed
qed

lemma acquire_shared_chain_queue:
  assumes ok: "msgs_ok sh q" and msg: "sh_msgs sh m = Some msg" "bufs_ok (msg_bufs msg)"
    and room: "count_list q (Some m) < unat (msg_ref msg + 1)" "unat (msg_ref msg) < unat (msg_ref msg + 1)"
  obtains sh' where "ngx_rtmp_acquire_shared_chain sh m = Ret sh'" "msgs_ok sh' (q @ [Some m])"
    "msg_bytes sh' = msg_bytes sh" "\<And>n. map_option msg_bufs (sh_msgs sh' n) = map_option msg_bufs (sh_msgs sh n)"
proof -
  let ?sh = "sh\<lparr>sh_msgs := (sh_msgs sh)(m \<mapsto> msg\<lparr>msg_ref := msg_ref msg + 1\<rparr>)\<rparr>"
  have "msgs_ok ?sh (q @ [Some m])"
    unfolding msgs_ok_def
  proof
    fix r assume r: "r \<in> set (q @ [Some m])"
    show "\<exists>n msg. r = Some n \<and> sh_msgs ?sh n = Some msg \<and> bufs_ok (msg_bufs msg) \<and>
        count_list (q @ [Some m]) r \<le> unat (msg_ref msg)"
    proof (cases "r = Some m")
      case True
      then show ?thesis using msg(2) room(1) by simp
    next
      case False
      with r obtain n msg' where "r = Some n" "sh_msgs sh n = Some msg'" "bufs_ok (msg_bufs msg')"
        "count_list q r \<le> unat (msg_ref msg')" using msgs_ok_in [OF ok, of r] by auto
      with False show ?thesis by auto
    qed
  qed
  moreover have "msg_bytes ?sh = msg_bytes sh"
    using msg(1) by (auto simp: msg_bytes_def fun_eq_iff split: option.split)
  ultimately show thesis using msg(1) by (intro that [of ?sh]) (simp_all add: ngx_rtmp_acquire_shared_chain_def)
qed

section \<open>What is still to be written\<close>

definition link_rest :: "chain \<Rightarrow> nat \<Rightarrow> nat \<Rightarrow> bytes" where
  "link_rest cl i p = take (b_last (cl ! i) - p) (drop p (b_mem (cl ! i))) @ flat (drop (i + 1) cl)"

definition pending :: "('w, 'p) rtmp_session \<Rightarrow> bytes" where
  "pending s = (case s_out_chain s of
     None \<Rightarrow> queue_bytes (s_shared s) (queued s)
   | Some (m, i) \<Rightarrow> (case sh_msgs (s_shared s) m of None \<Rightarrow> [] | Some msg \<Rightarrow> link_rest (msg_bufs msg) i (s_out_bpos s)) @
       queue_bytes (s_shared s) (tl (queued s)))"

abbreviation wire :: "('w, 'p) rtmp_session \<Rightarrow> bytes" where
  "wire s \<equiv> c_wire (s_conn s)"

definition at_link :: "'p rtmp_shared \<Rightarrow> nat option list \<Rightarrow> nat \<Rightarrow> nat \<Rightarrow> nat \<Rightarrow> bool" where
  "at_link sh q m i p \<longleftrightarrow> (\<exists>msg. q \<noteq> [] \<and> hd q = Some m \<and> sh_msgs sh m = Some msg \<and> i < length (msg_bufs msg) \<and>
     b_pos (msg_bufs msg ! i) \<le> p \<and> p < b_last (msg_bufs msg ! i))"

definition out_ok :: "('w, 'p) rtmp_session \<Rightarrow> bool" where
  "out_ok s \<longleftrightarrow> ring_ok s \<and> msgs_ok (s_shared s) (queued s) \<and>
     (case s_out_chain s of None \<Rightarrow> True | Some (m, i) \<Rightarrow> at_link (s_shared s) (queued s) m i (s_out_bpos s))"

lemma queue_simps [simp]:
  "queued (s\<lparr>s_conn := c\<rparr>) = queued s" "queued (s\<lparr>s_shared := sh\<rparr>) = queued s"
  "queued (s\<lparr>s_out_chain := oc\<rparr>) = queued s" "queued (s\<lparr>s_out_bpos := bp\<rparr>) = queued s"
  "ring_ok (s\<lparr>s_conn := c\<rparr>) = ring_ok s" "ring_ok (s\<lparr>s_shared := sh\<rparr>) = ring_ok s"
  "ring_ok (s\<lparr>s_out_chain := oc\<rparr>) = ring_ok s" "ring_ok (s\<lparr>s_out_bpos := bp\<rparr>) = ring_ok s"
  by (simp_all add: queued_def queue_len_def ring_ok_def)

lemma sent_bytes_simps [simp]:
  "queued (sent_bytes s b k) = queued s" "ring_ok (sent_bytes s b k) = ring_ok s"
  "s_shared (sent_bytes s b k) = s_shared s" "s_out_chain (sent_bytes s b k) = s_out_chain s"
  "s_out_bpos (sent_bytes s b k) = s_out_bpos s + k" "s_out (sent_bytes s b k) = s_out s"
  "s_out_pos (sent_bytes s b k) = s_out_pos s" "s_out_last (sent_bytes s b k) = s_out_last s"
  "s_out_queue (sent_bytes s b k) = s_out_queue s"
  "wire (sent_bytes s b k) = wire s @ take k (drop (s_out_bpos s) (b_mem b))"
  by (simp_all add: sent_bytes_def queued_def queue_len_def ring_ok_def)

lemma bufs_okD: "bufs_ok cl \<Longrightarrow> i < length cl \<Longrightarrow> buf_ok (cl ! i) \<and> b_pos (cl ! i) < b_last (cl ! i)"
  by (auto simp: bufs_ok_def list_all_iff)

lemma link_rest_first: "i < length cl \<Longrightarrow> link_rest cl i (b_pos (cl ! i)) = flat (drop i cl)"
  by (simp add: link_rest_def Cons_nth_drop_Suc [symmetric] buf_content_def)

text \<open>Beginning with a link.\<close>

lemma out_begin_ok:
  assumes ok: "msgs_ok (s_shared s) (queued s)" "ring_ok s" and q: "queued s = Some m # q"
    and msg: "sh_msgs (s_shared s) m = Some msg" "i < length (msg_bufs msg)"
  defines "s' \<equiv> s\<lparr>s_out_chain := Some (m, i), s_out_bpos := b_pos (msg_bufs msg ! i)\<rparr>"
  shows "out_begin s m i = Ret s'" "out_ok s'" "pending s' = flat (drop i (msg_bufs msg)) @ queue_bytes (s_shared s) q"
proof -
  have "bufs_ok (msg_bufs msg)" by (rule msgs_ok_hd [OF ok(1) [unfolded q] msg(1)])
  then have b: "b_pos (msg_bufs msg ! i) < b_last (msg_bufs msg ! i)" using bufs_okD msg(2) by blast
  show "out_begin s m i = Ret s'" using msg by (simp add: out_begin_def msg_chain_def s'_def)
  show "out_ok s'" using ok q msg b by (simp add: out_ok_def at_link_def s'_def)
  show "pending s' = flat (drop i (msg_bufs msg)) @ queue_bytes (s_shared s) q"
    using msg q by (simp add: pending_def s'_def link_rest_first)
qed

lemma out_first_ok:
  assumes ok: "msgs_ok (s_shared s) (queued s)" "ring_ok s" and ne: "s_out_pos s \<noteq> s_out_last s"
  shows "\<exists>oc bp. out_first s = Ret (s\<lparr>s_out_chain := Some oc, s_out_bpos := bp\<rparr>) \<and>
    out_ok (s\<lparr>s_out_chain := Some oc, s_out_bpos := bp\<rparr>) \<and>
    pending (s\<lparr>s_out_chain := Some oc, s_out_bpos := bp\<rparr>) = queue_bytes (s_shared s) (queued s)"
proof -
  obtain q where q: "queued s = s_out s ! s_out_pos s # q" using queued_pop(1) [OF ok(2) ne] by blast
  obtain m msg where m: "s_out s ! s_out_pos s = Some m" "sh_msgs (s_shared s) m = Some msg" "bufs_ok (msg_bufs msg)"
    using msgs_okD [OF ok(1) [unfolded q]] by blast
  have i: "0 < length (msg_bufs msg)" using m(3) by (simp add: bufs_ok_def)
  note b = out_begin_ok [OF ok q [unfolded m(1)] m(2) i]
  have "out_first s = out_begin s m 0" using ok(2) m(1) by (simp add: out_first_def ring_ok_def)
  moreover have "flat (drop 0 (msg_bufs msg)) @ queue_bytes (s_shared s) q = queue_bytes (s_shared s) (queued s)"
    using m q by (simp add: msg_bytes_def)
  ultimately show ?thesis using b by metis
qed

text \<open>The message at the front is written.\<close>

lemma out_next_last:
  assumes ok: "msgs_ok (s_shared s) (queued s)" "ring_ok s" and q: "queued s = Some m # q" and l: "\<not> i + 1 < length cl"
  obtains s' where "out_next s m i cl = Ret s'" "out_ok s'" "pending s' = queue_bytes (s_shared s) q" "s_conn s' = s_conn s"
    "s_out_chain s' = None \<Longrightarrow> queued s' = []"
proof -
  have ne: "s_out_pos s \<noteq> s_out_last s" using queued_empty [OF ok(2)] q by simp
  let ?pop = "s\<lparr>s_out_pos := (s_out_pos s + 1) mod s_out_queue s\<rparr>"
  have m: "s_out s ! s_out_pos s = Some m" "queued ?pop = q" "ring_ok ?pop"
    using queued_pop [OF ok(2) ne] q by simp_all
  obtain sh where sh: "ngx_rtmp_free_shared_chain (s_shared s) m = Ret sh" "msgs_ok sh q"
    "queue_bytes sh q = queue_bytes (s_shared s) q"
    using free_shared_chain_queue ok(1) q by metis
  let ?s = "s\<lparr>s_shared := sh, s_out_chain := None, s_out_pos := (s_out_pos s + 1) mod s_out_queue s\<rparr>"
  have qs: "queued ?s = q" "ring_ok ?s" using m(2,3) by (simp_all add: queued_def queue_len_def ring_ok_def)
  have nxt: "out_next s m i cl = (if s_out_pos ?s = s_out_last ?s then Ret ?s else out_first ?s)"
    using l m(1) sh(1) by (simp add: out_next_def Let_def)
  show thesis
  proof (cases "s_out_pos ?s = s_out_last ?s")
    case True
    then have "q = []" using queued_empty [OF qs(2)] qs(1) by simp
    have "out_ok ?s" using qs sh(2) by (simp add: out_ok_def)
    moreover have "pending ?s = queue_bytes (s_shared s) q" using qs sh(3) by (simp add: pending_def)
    ultimately show thesis using nxt True qs(1) \<open>q = []\<close> by (intro that [of ?s]) simp_all
  next
    case False
    have "msgs_ok (s_shared ?s) (queued ?s)" using qs(1) sh(2) by simp
    from out_first_ok [OF this qs(2) False] obtain oc bp where
      o: "out_first ?s = Ret (?s\<lparr>s_out_chain := Some oc, s_out_bpos := bp\<rparr>)"
      "out_ok (?s\<lparr>s_out_chain := Some oc, s_out_bpos := bp\<rparr>)"
      "pending (?s\<lparr>s_out_chain := Some oc, s_out_bpos := bp\<rparr>) = queue_bytes (s_shared ?s) (queued ?s)" by blast
    show thesis
      by (rule that [OF _ o(2)]) (use nxt False o(1,3) qs(1) sh(3) in simp_all)
  qed
qed

text \<open>One call of the socket.\<close>

lemma send_step:
  assumes ok: "out_ok s" and c: "s_out_chain s = Some (m, i)" and cl: "msg_chain s m = Some cl"
    and k: "0 < k" "k \<le> b_last (cl ! i) - s_out_bpos s"
  defines "s1 \<equiv> sent_bytes s (cl ! i) k"
  obtains s' where "(if s_out_bpos s1 = b_last (cl ! i) then out_next s1 m i cl else Ret s1) = Ret s'"
    "out_ok s'" "wire s' @ pending s' = wire s @ pending s" "length (pending s') + k = length (pending s)"
    "s_conn s' = s_conn s1" "s_out_chain s' = None \<Longrightarrow> queued s' = []"
proof -
  obtain msg q where msg: "queued s = Some m # q" "sh_msgs (s_shared s) m = Some msg" "i < length (msg_bufs msg)"
    "b_pos (msg_bufs msg ! i) \<le> s_out_bpos s" "s_out_bpos s < b_last (msg_bufs msg ! i)"
    using ok c unfolding out_ok_def at_link_def by (cases "queued s") auto
  have clm: "cl = msg_bufs msg" using cl msg(2) by (simp add: msg_chain_def)
  have r: "msgs_ok (s_shared s) (queued s)" "ring_ok s" using ok by (simp_all add: out_ok_def)
  have bo: "buf_ok (cl ! i)" "b_last (cl ! i) \<le> length (b_mem (cl ! i))"
    using bufs_okD [OF msgs_ok_hd [OF r(1) [unfolded msg(1)] msg(2)] msg(3)] clm by (simp_all add: buf_ok_def)
  let ?p = "s_out_bpos s" and ?b = "cl ! i"
  let ?sent = "take k (drop ?p (b_mem ?b))"
  have ls: "length ?sent = k" using k bo(2) by simp
  have cut: "take (b_last ?b - ?p) (drop ?p (b_mem ?b)) = ?sent @ take (b_last ?b - (?p + k)) (drop (?p + k) (b_mem ?b))"
    using k by (metis (no_types, lifting) add.commute diff_diff_left drop_drop le_add_diff_inverse take_add)
  have pend: "pending s = ?sent @ take (b_last ?b - (?p + k)) (drop (?p + k) (b_mem ?b)) @ flat (drop (i + 1) cl) @ queue_bytes (s_shared s) q"
    using c msg(1,2) cut by (simp add: pending_def link_rest_def clm)
  have r1: "msgs_ok (s_shared s1) (queued s1)" "ring_ok s1" "queued s1 = Some m # q" "sh_msgs (s_shared s1) m = Some msg"
    using r msg by (simp_all add: s1_def)
  have wire: "wire s1 = wire s @ ?sent" by (simp add: s1_def)
  show thesis
  proof (cases "s_out_bpos s1 = b_last ?b")
    case False
    then have lt: "?p + k < b_last ?b" using k by (simp add: s1_def)
    have "out_ok s1" using r1 c msg(3,4) lt by (simp add: out_ok_def at_link_def s1_def clm)
    moreover have "pending s1 = take (b_last ?b - (?p + k)) (drop (?p + k) (b_mem ?b)) @ flat (drop (i + 1) cl) @ queue_bytes (s_shared s) q"
      using c msg(1,2) by (simp add: pending_def link_rest_def clm s1_def)
    ultimately show thesis using False wire pend ls c by (intro that [of s1]) (simp_all add: s1_def)
  next
    case True
    then have full: "?p + k = b_last ?b" by (simp add: s1_def)
    have pend': "pending s = ?sent @ flat (drop (i + 1) cl) @ queue_bytes (s_shared s) q" using pend full by simp
    show thesis
    proof (cases "i + 1 < length cl")
      case l: True
      note b = out_begin_ok [OF r1(1,2,3,4), of "i + 1"]
      let ?s = "s1\<lparr>s_out_chain := Some (m, i + 1), s_out_bpos := b_pos (msg_bufs msg ! (i + 1))\<rparr>"
      have "out_next s1 m i cl = Ret ?s" using b(1) l by (simp add: out_next_def clm)
      moreover have "pending ?s = flat (drop (i + 1) cl) @ queue_bytes (s_shared s) q"
        using b(3) l by (simp add: clm s1_def)
      ultimately show thesis using True b(2) l wire pend' ls by (intro that [of ?s]) (simp_all add: clm)
    next
      case l: False
      obtain s' where s': "out_next s1 m i cl = Ret s'" "out_ok s'" "pending s' = queue_bytes (s_shared s1) q" "s_conn s' = s_conn s1"
        "s_out_chain s' = None \<Longrightarrow> queued s' = []"
        by (rule out_next_last [OF r1(1,2,3) l]) (rule that)
      have "flat (drop (i + 1) cl) = []" using l by simp
      then show thesis using True s' wire pend' ls by (intro that [of s']) (simp_all add: s1_def)
    qed
  qed
qed

section \<open>The write handler\<close>

text \<open>What is done when the ring is empty may queue more and write it, but changes nothing written.\<close>

definition dry_ok :: "('w, 'p) rtmp_env \<Rightarrow> bool" where
  "dry_ok env \<longleftrightarrow> (\<forall>s. out_ok s \<longrightarrow> out_ok (env_dry env s) \<and> prefix (wire s) (wire (env_dry env s)) \<and>
     prefix (wire s @ pending s) (wire (env_dry env s) @ pending (env_dry env s)))"

definition takes_bytes :: "send_result \<Rightarrow> bool" where
  "takes_bytes r \<longleftrightarrow> (case r of Sent n \<Rightarrow> 0 < n | _ \<Rightarrow> False)"

text \<open>What a session has written, and what it has written and will write, only grows at the end.\<close>

definition goes_on :: "('w, 'p) rtmp_session \<Rightarrow> ('w, 'p) rtmp_session \<Rightarrow> bool" where
  "goes_on s s' \<longleftrightarrow> out_ok s' \<and> prefix (wire s) (wire s') \<and> prefix (wire s @ pending s) (wire s' @ pending s')"

lemma conn_only:
  "\<exists>c. send_blocked s = s\<lparr>s_conn := c\<rparr> \<and> c_wire c = wire s"
  "\<exists>c. ngx_rtmp_finalize_session s = s\<lparr>s_conn := c\<rparr> \<and> c_wire c = wire s"
proof -
  show f: "\<exists>c. ngx_rtmp_finalize_session s = s\<lparr>s_conn := c\<rparr> \<and> c_wire c = wire s" for s :: "('w, 'p) rtmp_session"
    by (cases "c_destroyed (s_conn s)")
       (auto simp: ngx_rtmp_finalize_session_def intro: exI [of _ "s_conn s"])
  show "\<exists>c. send_blocked s = s\<lparr>s_conn := c\<rparr> \<and> c_wire c = wire s"
    using f [of "upd_conn (\<lambda>c. c\<lparr>c_write_timer := True\<rparr>) s"] by (auto simp: send_blocked_def Let_def)
qed

lemma out_ok_conn [simp]:
  "out_ok (s\<lparr>s_conn := c\<rparr>) \<longleftrightarrow> out_ok s" "pending (s\<lparr>s_conn := c\<rparr>) = pending s"
  by (simp_all add: out_ok_def pending_def split: option.split)

lemma goes_on_conn: "out_ok s \<Longrightarrow> c_wire c = wire s \<Longrightarrow> goes_on s (s\<lparr>s_conn := c\<rparr>)"
  by (simp add: goes_on_def)

lemma goes_on_trans: "goes_on s s1 \<Longrightarrow> goes_on s1 s2 \<Longrightarrow> goes_on s s2"
  by (auto simp: goes_on_def intro: prefix_order.trans)

lemma goes_on_upd [simp]: "c_wire c = wire s \<Longrightarrow> goes_on (s\<lparr>s_conn := c\<rparr>) s' \<longleftrightarrow> goes_on s s'"
  by (simp add: goes_on_def)

lemma goes_on_blocked: "out_ok s \<Longrightarrow> goes_on s (send_blocked s)" "out_ok s \<Longrightarrow> goes_on s (ngx_rtmp_finalize_session s)"
  using conn_only(1) [of s] conn_only(2) [of s] goes_on_conn by metis+

lemma send_done_goes: "dry_ok env \<Longrightarrow> out_ok s \<Longrightarrow> goes_on s (send_done env s)"
proof -
  assume d: "dry_ok env" and s: "out_ok s"
  let ?s = "if c_write_active (s_conn s) then upd_conn (\<lambda>c. c\<lparr>c_write_active := False\<rparr>) s else s"
  have "out_ok ?s" "wire ?s = wire s" "pending ?s = pending s" using s by simp_all
  moreover have "send_done env s = env_dry env ?s" by (simp add: send_done_def)
  moreover note d [unfolded dry_ok_def, rule_format, of ?s]
  ultimately show ?thesis by (simp only: goes_on_def)
qed

lemma send_loop_goes:
  assumes "dry_ok env" "out_ok s" "s_out_chain s = None \<Longrightarrow> queued s = []"
  shows "\<exists>s'. send_loop env sends s = Ret s' \<and> goes_on s s' \<and>
    (list_all takes_bytes sends \<longrightarrow> length (pending s) \<le> length sends \<longrightarrow> prefix (wire s @ pending s) (wire s'))"
  using assms(2,3)
proof (induction sends arbitrary: s)
  case Nil
  show ?case
  proof (cases "s_out_chain s")
    case None
    let ?s = "upd_conn (\<lambda>c. c\<lparr>c_sends := []\<rparr>) s"
    have "pending s = []" using None Nil.prems(2) by (simp add: pending_def)
    moreover have "goes_on s (send_done env ?s)"
      using send_done_goes [OF assms(1), of ?s] Nil.prems(1) by simp
    ultimately show ?thesis using None by (subst send_loop.simps) (simp add: goes_on_def)
  next
    case (Some mi)
    then obtain m i where c: "s_out_chain s = Some (m, i)" by (cases mi) auto
    then obtain cl where cl: "msg_chain s m = Some cl"
      using Nil.prems(1) by (auto simp: out_ok_def at_link_def msg_chain_def)
    let ?s = "upd_conn (\<lambda>c. c\<lparr>c_sends := []\<rparr>) s"
    have "goes_on s (send_blocked ?s)"
      using goes_on_blocked(1) [of ?s] Nil.prems(1) by simp
    moreover have "length (pending s) \<le> 0 \<longrightarrow> prefix (wire s @ pending s) (wire (send_blocked ?s))"
      using \<open>goes_on s (send_blocked ?s)\<close> by (simp add: goes_on_def)
    ultimately show ?thesis using c cl by (subst send_loop.simps) simp
  qed
next
  case (Cons r sends)
  show ?case
  proof (cases "s_out_chain s")
    case None
    let ?s = "upd_conn (\<lambda>c. c\<lparr>c_sends := r # sends\<rparr>) s"
    have "pending s = []" using None Cons.prems(2) by (simp add: pending_def)
    moreover have "goes_on s (send_done env ?s)"
      using send_done_goes [OF assms(1), of ?s] Cons.prems(1) by simp
    ultimately show ?thesis using None by (subst send_loop.simps) (simp add: goes_on_def)
  next
    case (Some mi)
    then obtain m i where c: "s_out_chain s = Some (m, i)" by (cases mi) auto
    then obtain cl where cl: "msg_chain s m = Some cl"
      using Cons.prems(1) by (auto simp: out_ok_def at_link_def msg_chain_def)
    have lt: "s_out_bpos s < b_last (cl ! i)"
      using Cons.prems(1) c cl by (auto simp: out_ok_def at_link_def msg_chain_def)
    let ?s = "upd_conn (\<lambda>c. c\<lparr>c_sends := sends\<rparr>) s"
    have stop: "goes_on s (send_blocked ?s)" "goes_on s (ngx_rtmp_finalize_session ?s)"
      using goes_on_blocked [of ?s] Cons.prems(1)
      by simp_all
    show ?thesis
    proof (cases r)
      case (Sent n)
      define k where "k = min n (b_last (cl ! i) - s_out_bpos s)"
      show ?thesis
      proof (cases "k = 0")
        case True
        then have "\<not> takes_bytes r" using lt Sent by (auto simp: takes_bytes_def k_def)
        then show ?thesis using True c cl Sent stop by (subst send_loop.simps) (simp add: Let_def k_def [symmetric])
      next
        case False
        then have k: "0 < k" "k \<le> b_last (cl ! i) - s_out_bpos s" by (simp_all add: k_def)
        let ?s1 = "sent_bytes s (cl ! i) k"
        obtain s' where s': "(if s_out_bpos ?s1 = b_last (cl ! i) then out_next ?s1 m i cl else Ret ?s1) = Ret s'"
          "out_ok s'" "wire s' @ pending s' = wire s @ pending s" "length (pending s') + k = length (pending s)"
          "s_conn s' = s_conn ?s1" "s_out_chain s' = None \<Longrightarrow> queued s' = []"
          by (rule send_step [OF Cons.prems(1) c cl k]) (rule that)
        have "prefix (wire s) (wire s')" using s'(5) by simp
        then have g1: "goes_on s s'" using s'(2,3) by (simp add: goes_on_def)
        obtain s2 where s2: "send_loop env sends s' = Ret s2" "goes_on s' s2"
          "list_all takes_bytes sends \<longrightarrow> length (pending s') \<le> length sends \<longrightarrow> prefix (wire s' @ pending s') (wire s2)"
          using Cons.IH [OF s'(2,6)] by blast
        have "send_loop env (r # sends) s = Ret s2"
          using c cl Sent False s'(1) s2(1) by (subst send_loop.simps) (simp add: Let_def k_def [symmetric])
        moreover have "goes_on s s2" using g1 s2(2) by (rule goes_on_trans)
        moreover have "length (pending s) \<le> length (r # sends) \<Longrightarrow> length (pending s') \<le> length sends"
          using s'(4) k(1) by simp
        ultimately show ?thesis using s2(3) s'(3) by auto
      qed
    next
      case Send_again
      then show ?thesis using c cl stop by (subst send_loop.simps) (simp add: takes_bytes_def)
    next
      case Send_error
      then show ?thesis using c cl stop by (subst send_loop.simps) (simp add: takes_bytes_def)
    qed
  qed
qed

lemma send_goes:
  assumes d: "dry_ok env" and ok: "out_ok s"
  shows "\<exists>s'. ngx_rtmp_send env timedout s = Ret s' \<and> goes_on s s' \<and>
    (\<not> timedout \<longrightarrow> \<not> c_destroyed (s_conn s) \<longrightarrow> list_all takes_bytes (c_sends (s_conn s)) \<longrightarrow>
      length (pending s) \<le> length (c_sends (s_conn s)) \<longrightarrow> prefix (wire s @ pending s) (wire s'))"
proof -
  consider "c_destroyed (s_conn s)" | "\<not> c_destroyed (s_conn s)" "timedout" | "\<not> c_destroyed (s_conn s)" "\<not> timedout" by blast
  then show ?thesis
  proof cases
    case 1
    then show ?thesis using ok by (simp add: ngx_rtmp_send_def goes_on_def)
  next
    case 2
    let ?s = "upd_conn (\<lambda>c. c\<lparr>c_timedout := True\<rparr>) s"
    have "goes_on s (ngx_rtmp_finalize_session ?s)"
      using goes_on_blocked(2) [of ?s] ok by simp
    then show ?thesis using 2 by (simp add: ngx_rtmp_send_def)
  next
    case 3
    let ?s = "upd_conn (\<lambda>c. c\<lparr>c_write_timer := False\<rparr>) s"
    have r: "msgs_ok (s_shared ?s) (queued ?s)" "ring_ok ?s" using ok by (simp_all add: out_ok_def)
    have "\<exists>s1. (if s_out_chain ?s = None \<and> s_out_pos ?s \<noteq> s_out_last ?s then out_first ?s else Ret ?s) = Ret s1 \<and>
        out_ok s1 \<and> pending s1 = pending s \<and> s_conn s1 = s_conn ?s \<and> (s_out_chain s1 = None \<longrightarrow> queued s1 = [])"
    proof (cases "s_out_chain ?s = None \<and> s_out_pos ?s \<noteq> s_out_last ?s")
      case True
      then have ne: "s_out_pos ?s \<noteq> s_out_last ?s" by simp
      from out_first_ok [OF r ne] obtain oc bp where "out_first ?s = Ret (?s\<lparr>s_out_chain := Some oc, s_out_bpos := bp\<rparr>)"
        "out_ok (?s\<lparr>s_out_chain := Some oc, s_out_bpos := bp\<rparr>)"
        "pending (?s\<lparr>s_out_chain := Some oc, s_out_bpos := bp\<rparr>) = queue_bytes (s_shared ?s) (queued ?s)" by blast
      moreover have "pending s = queue_bytes (s_shared ?s) (queued ?s)" using True by (simp add: pending_def)
      ultimately show ?thesis using True
        by (intro exI [of _ "?s\<lparr>s_out_chain := Some oc, s_out_bpos := bp\<rparr>"]) simp
    next
      case False
      have "s_out_chain s = None \<longrightarrow> queued s = []" using False queued_empty [of s] r(2) by auto
      then show ?thesis using ok unfolding if_not_P [OF False] by (intro exI [of _ ?s]) simp
    qed
    then obtain s1 where s1: "(if s_out_chain ?s = None \<and> s_out_pos ?s \<noteq> s_out_last ?s then out_first ?s else Ret ?s) = Ret s1"
      "out_ok s1" "pending s1 = pending s" "s_conn s1 = s_conn ?s" "s_out_chain s1 = None \<longrightarrow> queued s1 = []"
      by (elim exE conjE) (rule that)
    obtain s2 where s2: "send_loop env (c_sends (s_conn s1)) s1 = Ret s2" "goes_on s1 s2"
      "list_all takes_bytes (c_sends (s_conn s1)) \<longrightarrow> length (pending s1) \<le> length (c_sends (s_conn s1)) \<longrightarrow>
        prefix (wire s1 @ pending s1) (wire s2)"
      using send_loop_goes [OF d s1(2) s1(5) [rule_format], of "c_sends (s_conn s1)"] by auto
    have "ngx_rtmp_send env timedout s = Ret s2"
      using 3 s1(1) s2(1) unfolding ngx_rtmp_send_def Let_def by simp
    then show ?thesis using s2(2,3) s1(3,4) by (auto simp: goes_on_def)
  qed
qed

text \<open>
  C11: whatever the socket does, the write handler returns, keeps the ring in order, and what the session
  has written and will write only grows at the end: no byte is lost, repeated or overtaken, and every
  message in the ring is still there.
\<close>

theorem send_keeps_order:
  assumes "dry_ok env" "out_ok s"
  shows "\<exists>s'. ngx_rtmp_send env timedout s = Ret s' \<and> out_ok s' \<and> prefix (wire s) (wire s') \<and>
    prefix (wire s @ pending s) (wire s' @ pending s')"
  using send_goes [OF assms, of timedout] by (auto simp: goes_on_def)

definition ring_shared :: "unit rtmp_shared" where
  "ring_shared = empty_shared\<lparr>sh_msgs := [5 \<mapsto> \<lparr>msg_ref = 2, msg_bufs =
     [\<lparr>b_mem = [1, 2, 3], b_pos = 0, b_last = 3\<rparr>, \<lparr>b_mem = [0, 4, 5], b_pos = 1, b_last = 3\<rparr>]\<rparr>]\<rparr>"

text \<open>A ring of eight places that holds the same message twice, across its end.\<close>

definition ring_session :: "send_result list \<Rightarrow> ((rtmp_header \<times> bytes list) list, unit) rtmp_session" where
  "ring_session sends = (small_session [])\<lparr>s_shared := ring_shared, s_out_pos := 7, s_out_last := 1,
     s_out := (replicate 8 None)[7 := Some 5, 0 := Some 5],
     s_conn := (s_conn (small_session []))\<lparr>c_sends := sends\<rparr>\<rparr>"

lemma ring_session_facts:
  "queued (ring_session sends) = [Some 5, Some 5]" "out_ok (ring_session sends)"
  "pending (ring_session sends) = [1, 2, 3, 4, 5, 1, 2, 3, 4, 5]" "wire (ring_session sends) = []"
  "c_sends (s_conn (ring_session sends)) = sends" "\<not> c_destroyed (s_conn (ring_session sends))"
  "s_shared (ring_session sends) = ring_shared" "queue_len (ring_session sends) = 2" "s_out_queue (ring_session sends) = 8"
proof -
  have l: "[0..<2] = [0, 1 :: nat]" by (simp add: upt_conv_Cons)
  show q: "queued (ring_session sends) = [Some 5, Some 5]"
    by (simp add: queued_def queue_len_def ring_session_def small_session_def l)
  show "out_ok (ring_session sends)"
    unfolding out_ok_def q
    by (simp add: ring_ok_def msgs_ok_def ring_session_def small_session_def ring_shared_def bufs_ok_def buf_ok_def)
  show "pending (ring_session sends) = [1, 2, 3, 4, 5, 1, 2, 3, 4, 5]"
    unfolding pending_def q
    by (simp add: ring_session_def small_session_def ring_shared_def msg_bytes_def buf_content_def)
qed (simp_all add: ring_session_def small_session_def queue_len_def)

lemma small_dry: "dry_ok small_env"
  by (simp add: dry_ok_def small_env_def)

theorem send_keeps_order_witness:
  "\<exists>s'. ngx_rtmp_send small_env False (ring_session [Sent 2, Sent 7, Send_again]) = Ret s' \<and>
    prefix [1, 2, 3, 4, 5, 1, 2, 3, 4, 5] (wire s' @ pending s')"
  using send_keeps_order [OF small_dry ring_session_facts(2), of False "[Sent 2, Sent 7, Send_again]"]
  unfolding ring_session_facts by auto

text \<open>
  C39: when the socket takes at least a byte each time it is asked, as often as there are bytes waiting,
  one call of the write handler writes all of them.
\<close>

theorem send_drains:
  assumes "dry_ok env" "out_ok s" "\<not> c_destroyed (s_conn s)"
    and "list_all takes_bytes (c_sends (s_conn s))" "length (pending s) \<le> length (c_sends (s_conn s))"
  shows "\<exists>s'. ngx_rtmp_send env False s = Ret s' \<and> out_ok s' \<and> prefix (wire s @ pending s) (wire s')"
  using send_goes [OF assms(1,2), of False] assms(3-5) by (auto simp: goes_on_def)

theorem send_drains_witness:
  "\<exists>s'. ngx_rtmp_send small_env False (ring_session (replicate 10 (Sent 1))) = Ret s' \<and>
    prefix [1, 2, 3, 4, 5, 1, 2, 3, 4, 5] (wire s')"
proof -
  have "list_all takes_bytes (c_sends (s_conn (ring_session (replicate 10 (Sent 1)))))"
    unfolding ring_session_facts by (simp add: takes_bytes_def list_all_iff)
  from send_drains [OF small_dry ring_session_facts(2,6) this] show ?thesis
    unfolding ring_session_facts by auto
qed

section \<open>Queueing\<close>

lemma count_queue: "ring_ok s \<Longrightarrow> count_list (queued s) r < s_out_queue s"
proof -
  assume r: "ring_ok s"
  have "count_list (queued s) r \<le> queue_len s" using count_le_length [of "queued s" r] by (simp add: queued_def)
  also have "\<dots> < s_out_queue s" using r by (simp add: queue_len_def ring_ok_def)
  finally show ?thesis .
qed

text \<open>
  C24: \<open>ngx_rtmp_send_message\<close> either refuses a message and changes nothing, because the ring is too full
  for its priority, or puts it behind everything that is waiting; then its bytes follow theirs.
\<close>

theorem send_message_appends:
  assumes d: "dry_ok env" and ok: "out_ok s" and msg: "sh_msgs (s_shared s) m = Some msg" "bufs_ok (msg_bufs msg)"
    and refs: "count_list (queued s) (Some m) \<le> unat (msg_ref msg)" "unat (msg_ref msg) < 2 ^ 32 - 1"
  shows "if queue_len s + 1 + min priority 3 * s_out_queue s div 4 \<ge> s_out_queue s
    then ngx_rtmp_send_message env s m priority = Ret (NGX_AGAIN, s)
    else \<exists>s'. ngx_rtmp_send_message env s m priority = Ret (NGX_OK, s') \<and> out_ok s' \<and> prefix (wire s) (wire s') \<and>
      prefix (wire s @ pending s @ flat (msg_bufs msg)) (wire s' @ pending s')"
proof (cases "queue_len s + 1 + min priority 3 * s_out_queue s div 4 \<ge> s_out_queue s")
  case True
  then show ?thesis by (simp add: ngx_rtmp_send_message_def Let_def queue_len_def)
next
  case full: False
  have r: "ring_ok s" "msgs_ok (s_shared s) (queued s)" using ok by (simp_all add: out_ok_def)
  let ?s = "s\<lparr>s_out := (s_out s)[s_out_last s := Some m], s_out_last := (s_out_last s + 1) mod s_out_queue s\<rparr>"
  have push: "queued ?s = queued s @ [Some m]" "ring_ok ?s" using queued_push [OF r(1), of m] full by simp_all
  have u: "unat (msg_ref msg + 1) = unat (msg_ref msg) + 1" using refs(2) by (simp add: unat_word_ariths)
  have room: "count_list (queued s) (Some m) < unat (msg_ref msg + 1)" "unat (msg_ref msg) < unat (msg_ref msg + 1)"
    using refs(1) unfolding u by simp_all
  obtain sh where sh: "ngx_rtmp_acquire_shared_chain (s_shared s) m = Ret sh" "msgs_ok sh (queued s @ [Some m])"
    "msg_bytes sh = msg_bytes (s_shared s)" "\<And>n. map_option msg_bufs (sh_msgs sh n) = map_option msg_bufs (sh_msgs (s_shared s) n)"
    by (rule acquire_shared_chain_queue [OF r(2) msg room]) (rule that)
  let ?t = "?s\<lparr>s_shared := sh\<rparr>"
  have mb: "queue_bytes sh (q @ [Some m]) = queue_bytes (s_shared s) q @ flat (msg_bufs msg)" for q
    unfolding sh(3) using msg(1) by (simp add: msg_bytes_def)
  have q: "queued ?t = queued s @ [Some m]" "ring_ok ?t" using push by simp_all
  have okt: "out_ok ?t \<and> pending ?t = pending s @ flat (msg_bufs msg)"
  proof (cases "s_out_chain s")
    case None
    then show ?thesis using q sh(2) mb by (simp add: out_ok_def pending_def)
  next
    case (Some mi)
    then obtain m0 i where c: "s_out_chain s = Some (m0, i)" by (cases mi) auto
    then obtain msg0 where m0: "queued s \<noteq> []" "hd (queued s) = Some m0" "sh_msgs (s_shared s) m0 = Some msg0"
      "i < length (msg_bufs msg0)" "b_pos (msg_bufs msg0 ! i) \<le> s_out_bpos s" "s_out_bpos s < b_last (msg_bufs msg0 ! i)"
      using ok by (auto simp: out_ok_def at_link_def)
    obtain msg1 where m1: "sh_msgs sh m0 = Some msg1" "msg_bufs msg1 = msg_bufs msg0" using sh(4) [of m0] m0(3) by auto
    have "at_link sh (queued s @ [Some m]) m0 i (s_out_bpos s)"
      using m0 m1 by (simp add: at_link_def)
    then show ?thesis using c q sh(2) mb m0(1,3) m1 by (simp add: out_ok_def pending_def)
  qed
  have g: "goes_on ?t ?t" using okt by (simp add: goes_on_def)
  obtain s1 where s1: "ngx_rtmp_send env False ?t = Ret s1" "goes_on ?t s1"
    using send_goes [OF d conjunct1 [OF okt], of False] by blast
  have "\<exists>s'. ngx_rtmp_send_message env s m priority = Ret (NGX_OK, s') \<and> goes_on ?t s'"
    using full sh(1) s1 g by (auto simp: ngx_rtmp_send_message_def Let_def queue_len_def)
  then show ?thesis using full okt by (auto simp: goes_on_def)
qed

theorem send_message_appends_witness:
  "\<exists>s'. ngx_rtmp_send_message small_env (ring_session []) 5 0 = Ret (NGX_OK, s') \<and>
    prefix [1, 2, 3, 4, 5, 1, 2, 3, 4, 5, 1, 2, 3, 4, 5] (wire s' @ pending s')"
proof -
  let ?m = "\<lparr>msg_ref = 2, msg_bufs = [\<lparr>b_mem = [1, 2, 3], b_pos = 0, b_last = 3\<rparr>, \<lparr>b_mem = [0, 4, 5], b_pos = 1, b_last = 3\<rparr>]\<rparr>"
  have m: "sh_msgs (s_shared (ring_session [])) 5 = Some ?m" by (simp add: ring_session_facts ring_shared_def)
  have b: "bufs_ok (msg_bufs ?m)" by (simp add: bufs_ok_def buf_ok_def)
  have f: "flat (msg_bufs ?m) = [1, 2, 3, 4, 5]" by (simp add: buf_content_def)
  have c: "count_list (queued (ring_session [])) (Some 5) \<le> unat (msg_ref ?m)" "unat (msg_ref ?m) < 2 ^ 32 - 1"
    by (simp_all add: ring_session_facts)
  show ?thesis
    using send_message_appends [OF small_dry ring_session_facts(2) m b c, of 0]
    unfolding f ring_session_facts by auto
qed

end
