(* ===== verification/Rtmp_Amf.thy ===== *)
theory Rtmp_Amf
  imports Rtmp_Types
begin

text \<open>
  Reading AMF (ngx\_rtmp\_amf.c): \<open>ngx_rtmp_amf_get\<close>, which takes bytes from a chain and is a sequential
  reader in the sense of the locale \<open>byte_source\<close>, and \<open>ngx_rtmp_amf_read\<close>, which stores the values it
  finds in the elements the caller describes.  What \<open>elts->data\<close> points to is memory of a known size or
  an array of elements; a store beyond it is \<open>Fault\<close>.  The theorem on the reader says that it comes to an
  end without one on any input, when the elements have the memory their types need.
\<close>

section \<open>Types\<close>

abbreviation NGX_RTMP_AMF_NUMBER :: u32 where "NGX_RTMP_AMF_NUMBER \<equiv> 0x00"
abbreviation NGX_RTMP_AMF_BOOLEAN :: u32 where "NGX_RTMP_AMF_BOOLEAN \<equiv> 0x01"
abbreviation NGX_RTMP_AMF_STRING :: u32 where "NGX_RTMP_AMF_STRING \<equiv> 0x02"
abbreviation NGX_RTMP_AMF_OBJECT :: u32 where "NGX_RTMP_AMF_OBJECT \<equiv> 0x03"
abbreviation NGX_RTMP_AMF_NULL :: u32 where "NGX_RTMP_AMF_NULL \<equiv> 0x05"
abbreviation NGX_RTMP_AMF_ARRAY_NULL :: u32 where "NGX_RTMP_AMF_ARRAY_NULL \<equiv> 0x06"
abbreviation NGX_RTMP_AMF_MIXED_ARRAY :: u32 where "NGX_RTMP_AMF_MIXED_ARRAY \<equiv> 0x08"
abbreviation NGX_RTMP_AMF_END :: u32 where "NGX_RTMP_AMF_END \<equiv> 0x09"
abbreviation NGX_RTMP_AMF_ARRAY :: u32 where "NGX_RTMP_AMF_ARRAY \<equiv> 0x0a"
abbreviation NGX_RTMP_AMF_INT8 :: u32 where "NGX_RTMP_AMF_INT8 \<equiv> 0x0100"
abbreviation NGX_RTMP_AMF_INT16 :: u32 where "NGX_RTMP_AMF_INT16 \<equiv> 0x0101"
abbreviation NGX_RTMP_AMF_INT32 :: u32 where "NGX_RTMP_AMF_INT32 \<equiv> 0x0102"
abbreviation NGX_RTMP_AMF_VARIANT0 :: u32 where "NGX_RTMP_AMF_VARIANT0 \<equiv> 0x0103"
abbreviation NGX_RTMP_AMF_OPTIONAL :: u32 where "NGX_RTMP_AMF_OPTIONAL \<equiv> 0x1000"
abbreviation NGX_RTMP_AMF_TYPELESS :: u32 where "NGX_RTMP_AMF_TYPELESS \<equiv> 0x2000"
abbreviation NGX_RTMP_AMF_CONTEXT :: u32 where "NGX_RTMP_AMF_CONTEXT \<equiv> 0x4000"

text \<open>The reading half of \<open>ngx_rtmp_amf_ctx_t\<close>; \<open>ax_link\<close> is the chain from \<open>ctx->link\<close> on.\<close>

record amf_ctx =
  ax_link :: chain
  ax_offset :: nat

text \<open>
  \<open>ngx_rtmp_amf_elt_t\<close> and what its \<open>data\<close> points to: nothing, memory for bytes, an array of elements, or (for
  \<open>NGX_RTMP_AMF_CONTEXT\<close>) an \<open>ngx_rtmp_amf_ctx_t\<close>, which holds a context once one has been stored.  The
  length is in bytes; an element has 40.
\<close>

datatype amf_elt = Amf_elt (el_type: u32) (el_name: bytes) (el_data: amf_data) (el_len: nat)
  and amf_data = No_data | Mem bytes | Elts "amf_elt list" | Saved "amf_ctx option"

definition elt_size :: nat where "elt_size = 40"

fun set_el_data :: "amf_data \<Rightarrow> amf_elt \<Rightarrow> amf_elt" where
  "set_el_data d (Amf_elt t n _ l) = Amf_elt t n d l"

section \<open>Taking bytes\<close>

text \<open>The bytes copied to \<open>p\<close>, and the new place or \<open>None\<close> at the end of the chain.\<close>

fun amf_get_loop :: "chain \<Rightarrow> nat \<Rightarrow> nat \<Rightarrow> bytes \<times> (chain \<times> nat) option" where
  "amf_get_loop [] offset n = ([], None)"
| "amf_get_loop (b # bs) offset n =
     (let x = drop offset (buf_content b)
      in if n \<le> length x then (take n x, Some (b # bs, offset + n))
         else case amf_get_loop bs 0 (n - length x) of (y, r) \<Rightarrow> (x @ y, r))"

definition ngx_rtmp_amf_get :: "amf_ctx \<Rightarrow> nat \<Rightarrow> ngx_rc \<times> bytes \<times> amf_ctx" where
  "ngx_rtmp_amf_get ctx n =
     (if n = 0 then (NGX_OK, [], ctx)
      else case amf_get_loop (ax_link ctx) (ax_offset ctx) n of
        (x, Some (l, offset)) \<Rightarrow> (NGX_OK, x, \<lparr>ax_link = l, ax_offset = offset\<rparr>)
      | (x, None) \<Rightarrow> (NGX_DONE, x, ctx))"

definition ax_rest :: "amf_ctx \<Rightarrow> bytes" where
  "ax_rest ctx = (case ax_link ctx of [] \<Rightarrow> [] | b # bs \<Rightarrow> drop (ax_offset ctx) (buf_content b) @ flat bs)"

lemma amf_get_loop_enough:
  "n \<le> length (drop off (case cl of [] \<Rightarrow> [] | b # bs \<Rightarrow> buf_content b) @ flat (tl cl)) \<Longrightarrow> 0 < n \<Longrightarrow>
   \<exists>l off'. amf_get_loop cl off n = (take n (drop off (case cl of [] \<Rightarrow> [] | b # bs \<Rightarrow> buf_content b) @ flat (tl cl)), Some (l, off')) \<and>
     ax_rest \<lparr>ax_link = l, ax_offset = off'\<rparr> = drop n (drop off (case cl of [] \<Rightarrow> [] | b # bs \<Rightarrow> buf_content b) @ flat (tl cl))"
proof (induction cl arbitrary: off n)
  case (Cons b bs)
  let ?x = "drop off (buf_content b)"
  show ?case
  proof (cases "n \<le> length ?x")
    case True
    then show ?thesis by (simp add: ax_rest_def add.commute)
  next
    case False
    then have n: "0 < n - length ?x" by simp
    have f: "drop 0 (case bs of [] \<Rightarrow> [] | b # bs \<Rightarrow> buf_content b) @ flat (tl bs) = flat bs" by (cases bs) simp_all
    have "n - length ?x \<le> length (flat bs)" using Cons.prems(1) by simp
    with Cons.IH [of "n - length ?x" 0, OF _ n] obtain l off' where
      r: "amf_get_loop bs 0 (n - length ?x) = (take (n - length ?x) (flat bs), Some (l, off'))"
      "ax_rest \<lparr>ax_link = l, ax_offset = off'\<rparr> = drop (n - length ?x) (flat bs)"
      unfolding f by blast
    then show ?thesis using False by (simp add: Let_def)
  qed
qed simp

lemma amf_get_loop_short:
  "length (drop off (case cl of [] \<Rightarrow> [] | b # bs \<Rightarrow> buf_content b) @ flat (tl cl)) < n \<Longrightarrow>
   amf_get_loop cl off n = (drop off (case cl of [] \<Rightarrow> [] | b # bs \<Rightarrow> buf_content b) @ flat (tl cl), None)"
proof (induction cl arbitrary: off n)
  case (Cons b bs)
  have f: "drop 0 (case bs of [] \<Rightarrow> [] | b # bs \<Rightarrow> buf_content b) @ flat (tl bs) = flat bs" by (cases bs) simp_all
  have "length (flat bs) < n - length (drop off (buf_content b))" using Cons.prems by simp
  then have "amf_get_loop bs 0 (n - length (drop off (buf_content b))) = (flat bs, None)"
    using Cons.IH [of 0 "n - length (drop off (buf_content b))"] unfolding f by blast
  then show ?case using Cons.prems by (simp add: Let_def)
qed simp

lemma ax_rest_eq: "ax_rest ctx = drop (ax_offset ctx) (case ax_link ctx of [] \<Rightarrow> [] | b # bs \<Rightarrow> buf_content b) @ flat (tl (ax_link ctx))"
  by (cases "ax_link ctx") (simp_all add: ax_rest_def)

lemma amf_get_enough:
  assumes "n \<le> length (ax_rest ctx)"
  shows "\<exists>ctx'. ngx_rtmp_amf_get ctx n = (NGX_OK, take n (ax_rest ctx), ctx') \<and> ax_rest ctx' = drop n (ax_rest ctx)"
proof (cases "n = 0")
  case False
  with amf_get_loop_enough [of n "ax_offset ctx" "ax_link ctx"] assms show ?thesis
    by (auto simp: ngx_rtmp_amf_get_def ax_rest_eq [of ctx])
qed (simp add: ngx_rtmp_amf_get_def)

lemma amf_get_short:
  "length (ax_rest ctx) < n \<Longrightarrow> ngx_rtmp_amf_get ctx n = (NGX_DONE, ax_rest ctx, ctx)"
  using amf_get_loop_short [of "ax_offset ctx" "ax_link ctx" n] by (simp add: ngx_rtmp_amf_get_def ax_rest_eq)

interpretation amf: byte_source ngx_rtmp_amf_get ax_rest "\<lambda>_. True" NGX_DONE
  by unfold_locales (simp_all add: amf_get_enough amf_get_short)

section \<open>Storing\<close>

text \<open>\<open>ngx_rtmp_amf_get\<close> and \<open>ngx_rtmp_amf_reverse_copy\<close> write to \<open>data\<close> unless it is NULL.\<close>

fun amf_store :: "amf_data \<Rightarrow> bytes \<Rightarrow> amf_data run" where
  "amf_store No_data xs = Ret No_data"
| "amf_store (Mem m) xs = (if length xs \<le> length m then Ret (Mem (put_at m 0 xs)) else Fault)"
| "amf_store d xs = (if xs = [] then Ret d else Fault)"

fun amf_put_nul :: "amf_data \<Rightarrow> nat \<Rightarrow> amf_data run" where
  "amf_put_nul (Mem m) n = (if n < length m then Ret (Mem (m[n := 0])) else Fault)"
| "amf_put_nul _ n = Fault"

definition amf_get_to :: "amf_ctx \<Rightarrow> amf_data \<Rightarrow> nat \<Rightarrow> (ngx_rc \<times> amf_data \<times> amf_ctx) run" where
  "amf_get_to ctx data n =
     (case ngx_rtmp_amf_get ctx n of (rc, x, ctx) \<Rightarrow> run_bind (amf_store data x) (\<lambda>data. Ret (rc, data, ctx)))"

definition amf_get_reversed :: "amf_ctx \<Rightarrow> amf_data \<Rightarrow> nat \<Rightarrow> (ngx_rc \<times> amf_data \<times> amf_ctx) run" where
  "amf_get_reversed ctx data n =
     (case ngx_rtmp_amf_get ctx n of (rc, x, ctx) \<Rightarrow>
        if rc \<noteq> NGX_OK then Ret (NGX_ERROR, data, ctx)
        else run_bind (amf_store data (rev x)) (\<lambda>data. Ret (NGX_OK, data, ctx)))"

text \<open>The case for strings; \<open>el_len\<close> of 0 makes \<open>elts->len - 1\<close> the largest \<open>size_t\<close>.\<close>

definition amf_read_string :: "amf_ctx \<Rightarrow> amf_data \<Rightarrow> nat \<Rightarrow> (ngx_rc \<times> amf_data \<times> amf_ctx) run" where
  "amf_read_string ctx data elen =
     (case ngx_rtmp_amf_get ctx 2 of (rc, x, ctx) \<Rightarrow>
        if rc \<noteq> NGX_OK then Ret (NGX_ERROR, data, ctx)
        else
          let len = be_nat x
          in if data = No_data then amf_get_to ctx data len
             else if elen \<le> len then
               if elen = 0 then Fault
               else run_bind (amf_get_to ctx data (elen - 1)) (\<lambda>(rc, data, ctx).
                 if rc \<noteq> NGX_OK then Ret (NGX_ERROR, data, ctx)
                 else run_bind (amf_put_nul data (elen - 1)) (\<lambda>data.
                   case ngx_rtmp_amf_get ctx (len - elen + 1) of (rc, _, ctx) \<Rightarrow> Ret (rc, data, ctx)))
             else run_bind (amf_get_to ctx data len) (\<lambda>(rc, data, ctx).
               run_bind (amf_put_nul data len) (\<lambda>data. Ret (rc, data, ctx))))"

definition ngx_rtmp_amf_is_compatible_type :: "byte \<Rightarrow> byte \<Rightarrow> bool" where
  "ngx_rtmp_amf_is_compatible_type t1 t2 \<longleftrightarrow>
     t1 = t2 \<or> (t1 = 0x03 \<and> t2 = 0x08) \<or> (t2 = 0x03 \<and> t1 = 0x08)"

text \<open>
  \<open>*(ngx_rtmp_amf_ctx_t *) data = *ctx\<close>: the memory behind \<open>data\<close> has to be such a structure; anything else
  is written over, and beyond its end when it is smaller.
\<close>

fun amf_store_ctx :: "amf_ctx \<Rightarrow> amf_data \<Rightarrow> amf_data run" where
  "amf_store_ctx ctx No_data = Ret No_data"
| "amf_store_ctx ctx (Saved c) = Ret (Saved (Some ctx))"
| "amf_store_ctx ctx d = Fault"

text \<open>
  The start of the loop body of \<open>ngx_rtmp_amf_read\<close>: the type, \<open>data\<close>, and whether \<open>data\<close> is that of the
  element; or the value the function returns.
\<close>

definition amf_read_type ::
    "amf_ctx \<Rightarrow> amf_elt option \<Rightarrow> ((ngx_rc + u32 \<times> amf_data \<times> bool) \<times> amf_elt option \<times> amf_ctx) run" where
  "amf_read_type ctx elt =
     (case elt of
        Some e \<Rightarrow>
          if el_type e AND NGX_RTMP_AMF_TYPELESS \<noteq> 0
          then Ret (Inr (el_type e AND NOT NGX_RTMP_AMF_TYPELESS, el_data e, True), elt, ctx)
          else (case ngx_rtmp_amf_get ctx 1 of (rc, x, ctx) \<Rightarrow>
            if rc \<noteq> NGX_OK
            then Ret (Inl (if rc = NGX_DONE \<and> el_type e AND NGX_RTMP_AMF_OPTIONAL \<noteq> 0 then NGX_OK else NGX_ERROR), elt, ctx)
            else
              let type8 = hd x;
                  match = ngx_rtmp_amf_is_compatible_type (ucast (el_type e AND 0xff)) type8;
                  data = (if match then el_data e else No_data)
              in if el_type e AND NGX_RTMP_AMF_CONTEXT \<noteq> 0
                 then run_bind (amf_store_ctx ctx data) (\<lambda>data.
                   Ret (Inr (ucast type8, No_data, False), Some (if match then set_el_data data e else e), ctx))
                 else Ret (Inr (ucast type8, data, match), elt, ctx))
      | None \<Rightarrow> (case ngx_rtmp_amf_get ctx 1 of (rc, x, ctx) \<Rightarrow>
          if rc \<noteq> NGX_OK then Ret (Inl NGX_ERROR, None, ctx) else Ret (Inr (ucast (hd x), No_data, False), None, ctx)))"

text \<open>The elements \<open>data\<close> points to; reading more of them than there are is a fault.\<close>

definition sub_elts :: "amf_data \<Rightarrow> nat \<Rightarrow> amf_elt list run" where
  "sub_elts data len =
     (case data of
        No_data \<Rightarrow> Ret []
      | Elts es \<Rightarrow> if len div elt_size \<le> length es then Ret (take (len div elt_size) es) else Fault
      | _ \<Rightarrow> if len div elt_size = 0 then Ret [] else Fault)"

fun put_elts :: "amf_data \<Rightarrow> amf_elt list \<Rightarrow> amf_data" where
  "put_elts (Elts es) es' = Elts (es' @ drop (length es') es)"
| "put_elts d es' = d"

text \<open>\<open>ngx_strncmp(name, elts[n].name.data, len)\<close> for names of length \<open>len\<close> is 0.\<close>

definition same_name :: "bytes \<Rightarrow> bytes \<Rightarrow> bool" where
  "same_name a b \<longleftrightarrow> length a = length b \<and> takeWhile (\<lambda>c. c \<noteq> 0) a = takeWhile (\<lambda>c. c \<noteq> 0) b"

fun find_name :: "bytes \<Rightarrow> amf_elt list \<Rightarrow> nat option" where
  "find_name name [] = None"
| "find_name name (e # es) = (if same_name name (el_name e) then Some 0 else map_option Suc (find_name name es))"

definition max_name :: "amf_elt list \<Rightarrow> nat" where
  "max_name es = foldr (\<lambda>e. max (length (el_name e))) es 0"

text \<open>
  A key of an object: no more, the end, or the element to read into.  A name that is longer than all
  names of the elements is not kept.
\<close>

datatype amf_key = Key_eof | Key_end | Key_error | Key "nat option"

definition amf_read_key :: "amf_ctx \<Rightarrow> amf_elt list \<Rightarrow> amf_key \<times> amf_ctx" where
  "amf_read_key ctx es =
     (case ngx_rtmp_amf_get ctx 2 of (rc, x, ctx) \<Rightarrow>
        if rc \<noteq> NGX_OK then (Key_eof, ctx)
        else
          let len = be_nat x
          in if len = 0 then (Key_end, ctx)
             else if len \<le> max_name es then
               (case ngx_rtmp_amf_get ctx len of (rc, name, ctx) \<Rightarrow>
                  (if rc \<noteq> NGX_OK then Key_error else Key (find_name name es), ctx))
             else
               (case ngx_rtmp_amf_get ctx (max_name es) of (rc, _, ctx) \<Rightarrow>
                  if rc \<noteq> NGX_OK then (Key_error, ctx)
                  else case ngx_rtmp_amf_get ctx (len - max_name es) of (rc, _, ctx) \<Rightarrow>
                    (if rc \<noteq> NGX_OK then Key_error else Key None, ctx)))"

section \<open>Reading\<close>

text \<open>
  One turn of the loop of \<open>ngx_rtmp_amf_read\<close> (\<open>amf_one\<close>), the loops of \<open>ngx_rtmp_amf_read_object\<close> and
  \<open>ngx_rtmp_amf_read_array\<close>, and \<open>ngx_rtmp_amf_read_variant\<close>.  \<open>Stop rc\<close> is an early return.
\<close>

datatype amf_turn = Next | Stop ngx_rc

abbreviation turn_rc :: "amf_turn \<Rightarrow> ngx_rc" where
  "turn_rc t \<equiv> (case t of Next \<Rightarrow> NGX_OK | Stop rc \<Rightarrow> rc)"

abbreviation must_ok :: "ngx_rc \<Rightarrow> amf_turn" where
  "must_ok rc \<equiv> (if rc \<noteq> NGX_OK then Stop NGX_ERROR else Next)"

text \<open>The cases that read no further elements.\<close>

definition amf_read_scalar ::
    "amf_ctx \<Rightarrow> u32 \<Rightarrow> amf_data \<Rightarrow> nat \<Rightarrow> (amf_turn \<times> amf_data \<times> amf_ctx) run" where
  "amf_read_scalar ctx type data len =
     (let check = (\<lambda>(rc, data, ctx). Ret (must_ok rc, data, ctx))
      in if type = NGX_RTMP_AMF_NUMBER then run_bind (amf_get_reversed ctx data 8) check
         else if type = NGX_RTMP_AMF_BOOLEAN then run_bind (amf_get_to ctx data 1) check
         else if type = NGX_RTMP_AMF_STRING then run_bind (amf_read_string ctx data len) check
         else if type = NGX_RTMP_AMF_NULL \<or> type = NGX_RTMP_AMF_ARRAY_NULL then Ret (Next, data, ctx)
         else if type = NGX_RTMP_AMF_INT8 then run_bind (amf_get_to ctx data 1) check
         else if type = NGX_RTMP_AMF_INT16 then run_bind (amf_get_reversed ctx data 2) check
         else if type = NGX_RTMP_AMF_INT32 then run_bind (amf_get_reversed ctx data 4) check
         else if type = NGX_RTMP_AMF_END then Ret (Stop NGX_OK, data, ctx)
         else Ret (Stop NGX_ERROR, data, ctx))"

text \<open>The last element of a variant whose type is that of the value.\<close>

fun find_type :: "u32 \<Rightarrow> amf_elt list \<Rightarrow> nat option" where
  "find_type t [] = None"
| "find_type t (e # es) = (case find_type t es of Some n \<Rightarrow> Some (Suc n) | None \<Rightarrow> if t = el_type e then Some 0 else None)"

definition upd_elt :: "nat option \<Rightarrow> amf_elt option \<Rightarrow> amf_elt list \<Rightarrow> amf_elt list" where
  "upd_elt n e es = (case (n, e) of (Some n, Some e) \<Rightarrow> es[n := e] | _ \<Rightarrow> es)"

fun amf_one :: "nat \<Rightarrow> amf_ctx \<Rightarrow> amf_elt option \<Rightarrow> (amf_turn \<times> amf_elt option \<times> amf_ctx) run"
  and amf_read_object :: "nat \<Rightarrow> amf_ctx \<Rightarrow> amf_elt list \<Rightarrow> (ngx_rc \<times> amf_elt list \<times> amf_ctx) run"
  and amf_read_array :: "nat \<Rightarrow> nat \<Rightarrow> nat \<Rightarrow> amf_ctx \<Rightarrow> amf_elt list \<Rightarrow> (ngx_rc \<times> amf_elt list \<times> amf_ctx) run" where
  "amf_one 0 ctx elt = Out_of_fuel"
| "amf_one (Suc k) ctx elt =
     run_bind (amf_read_type ctx elt) (\<lambda>(r, elt, ctx). case r of
        Inl rc \<Rightarrow> Ret (Stop rc, elt, ctx)
      | Inr (type, data, own) \<Rightarrow>
          let len = (case elt of None \<Rightarrow> 0 | Some e \<Rightarrow> el_len e);
              put = (\<lambda>data. if own then map_option (set_el_data data) elt else elt);
              elts = (\<lambda>f. run_bind (sub_elts data len) (\<lambda>es. run_bind (f es) (\<lambda>(rc, es, ctx).
                Ret (must_ok rc, put (put_elts data es), ctx))))
          in if type = NGX_RTMP_AMF_MIXED_ARRAY then
               (case ngx_rtmp_amf_get ctx 4 of (rc, _, ctx) \<Rightarrow>
                  if rc \<noteq> NGX_OK then Ret (Stop NGX_ERROR, elt, ctx) else elts (amf_read_object k ctx))
             else if type = NGX_RTMP_AMF_OBJECT then elts (amf_read_object k ctx)
             else if type = NGX_RTMP_AMF_ARRAY then
               elts (\<lambda>es. case ngx_rtmp_amf_get ctx 4 of (rc, x, ctx) \<Rightarrow>
                  if rc \<noteq> NGX_OK then Ret (NGX_ERROR, es, ctx) else amf_read_array k 0 (be_nat x) ctx es)
             else if type = NGX_RTMP_AMF_VARIANT0 then
               elts (\<lambda>es. case ngx_rtmp_amf_get ctx 1 of (rc, x, ctx) \<Rightarrow>
                  if rc \<noteq> NGX_OK then Ret (rc, es, ctx)
                  else
                    let t = ucast (hd x); n = find_type t es;
                        e = (case n of None \<Rightarrow> Amf_elt (t OR NGX_RTMP_AMF_TYPELESS) [] No_data 0
                             | Some n \<Rightarrow> Amf_elt (t OR NGX_RTMP_AMF_TYPELESS) [] (el_data (es ! n)) (el_len (es ! n)))
                    in run_bind (amf_one k ctx (Some e)) (\<lambda>(turn, e, ctx).
                         Ret (turn_rc turn, upd_elt n (map_option (\<lambda>e. set_el_data (el_data e) (es ! the n)) e) es, ctx)))
             else run_bind (amf_read_scalar ctx type data len) (\<lambda>(turn, data, ctx). Ret (turn, put data, ctx)))"
| "amf_read_object 0 ctx es = Out_of_fuel"
| "amf_read_object (Suc k) ctx es =
     (case amf_read_key ctx es of
        (Key_eof, ctx) \<Rightarrow> Ret (NGX_OK, es, ctx)
      | (Key_error, ctx) \<Rightarrow> Ret (NGX_ERROR, es, ctx)
      | (Key_end, ctx) \<Rightarrow>
          (case ngx_rtmp_amf_get ctx 1 of (rc, x, ctx) \<Rightarrow>
             Ret (if rc \<noteq> NGX_OK \<or> ucast (hd x) \<noteq> NGX_RTMP_AMF_END then NGX_ERROR else NGX_OK, es, ctx))
      | (Key n, ctx) \<Rightarrow>
          run_bind (amf_one k ctx (map_option (\<lambda>n. es ! n) n)) (\<lambda>(turn, e, ctx).
            if turn_rc turn \<noteq> NGX_OK then Ret (NGX_ERROR, upd_elt n e es, ctx)
            else amf_read_object k ctx (upd_elt n e es)))"
| "amf_read_array 0 n len ctx es = Out_of_fuel"
| "amf_read_array (Suc k) n len ctx es =
     (if n < len then
        let i = (if n < length es then Some n else None)
        in run_bind (amf_one k ctx (map_option (\<lambda>n. es ! n) i)) (\<lambda>(turn, e, ctx).
             if turn_rc turn \<noteq> NGX_OK then Ret (NGX_ERROR, upd_elt i e es, ctx)
             else amf_read_array k (n + 1) len ctx (upd_elt i e es))
      else Ret (NGX_OK, es, ctx))"

fun ngx_rtmp_amf_read :: "nat \<Rightarrow> amf_ctx \<Rightarrow> amf_elt list \<Rightarrow> (ngx_rc \<times> amf_elt list \<times> amf_ctx) run" where
  "ngx_rtmp_amf_read fuel ctx [] = Ret (NGX_OK, [], ctx)"
| "ngx_rtmp_amf_read fuel ctx (e # es) =
     run_bind (amf_one fuel ctx (Some e)) (\<lambda>(turn, e', ctx).
       let e = (case e' of None \<Rightarrow> e | Some e \<Rightarrow> e)
       in case turn of
            Stop rc \<Rightarrow> Ret (rc, e # es, ctx)
          | Next \<Rightarrow> run_bind (ngx_rtmp_amf_read fuel ctx es) (\<lambda>(rc, es, ctx). Ret (rc, e # es, ctx)))"

section \<open>Memory for the types\<close>

text \<open>
  The types with which \<open>data\<close> of an element may be used, also as the element of a variant.  Where the context is
  asked for, \<open>data\<close> is used for nothing else.
\<close>

definition wants_ctx :: "u32 \<Rightarrow> bool" where
  "wants_ctx t \<longleftrightarrow> t AND NGX_RTMP_AMF_TYPELESS = 0 \<and> t AND NGX_RTMP_AMF_CONTEXT \<noteq> 0"

definition used_types :: "u32 \<Rightarrow> u32 list" where
  "used_types t = t #
     (if t AND NGX_RTMP_AMF_TYPELESS \<noteq> 0 then [t AND NOT NGX_RTMP_AMF_TYPELESS]
      else if t AND NGX_RTMP_AMF_CONTEXT \<noteq> 0 then []
      else let b = t AND 0xff in b # (if b = 3 then [8] else if b = 8 then [3] else []))"

definition compound :: "u32 \<Rightarrow> bool" where
  "compound ty \<longleftrightarrow> ty = NGX_RTMP_AMF_OBJECT \<or> ty = NGX_RTMP_AMF_MIXED_ARRAY \<or> ty = NGX_RTMP_AMF_ARRAY \<or> ty = NGX_RTMP_AMF_VARIANT0"

definition fits_mem :: "u32 \<Rightarrow> nat \<Rightarrow> nat \<Rightarrow> bool" where
  "fits_mem ty n l \<longleftrightarrow>
     (ty = NGX_RTMP_AMF_NUMBER \<longrightarrow> 8 \<le> n) \<and> (ty = NGX_RTMP_AMF_BOOLEAN \<or> ty = NGX_RTMP_AMF_INT8 \<longrightarrow> 1 \<le> n) \<and>
     (ty = NGX_RTMP_AMF_INT16 \<longrightarrow> 2 \<le> n) \<and> (ty = NGX_RTMP_AMF_INT32 \<longrightarrow> 4 \<le> n) \<and>
     (ty = NGX_RTMP_AMF_STRING \<longrightarrow> 0 < l \<and> l \<le> n) \<and> \<not> compound ty"

definition stores :: "u32 \<Rightarrow> bool" where
  "stores ty \<longleftrightarrow> ty \<in> {NGX_RTMP_AMF_NUMBER, NGX_RTMP_AMF_BOOLEAN, NGX_RTMP_AMF_STRING, NGX_RTMP_AMF_INT8, NGX_RTMP_AMF_INT16, NGX_RTMP_AMF_INT32}"

fun elt_ok :: "amf_elt \<Rightarrow> bool" where
  "elt_ok (Amf_elt t n No_data l) = True"
| "elt_ok (Amf_elt t n (Mem m) l) = (\<not> wants_ctx t \<and> (\<forall>ty \<in> set (used_types t). fits_mem ty (length m) l))"
| "elt_ok (Amf_elt t n (Elts es) l) = (\<not> wants_ctx t \<and> (\<forall>ty \<in> set (used_types t). \<not> stores ty) \<and> l div elt_size \<le> length es \<and>
     (\<forall>e \<in> set es. elt_ok e))"
| "elt_ok (Amf_elt t n (Saved c) l) = (\<forall>ty \<in> set (used_types t). \<not> stores ty \<and> \<not> compound ty)"

fun elt_weight :: "amf_elt \<Rightarrow> nat" where
  "elt_weight (Amf_elt t n (Elts es) l) = 1 + length es + sum_list (map elt_weight es)"
| "elt_weight (Amf_elt t n _ l) = 1"

definition data_weight :: "amf_data \<Rightarrow> nat" where
  "data_weight d = (case d of Elts es \<Rightarrow> length es + sum_list (map elt_weight es) | _ \<Rightarrow> 0)"

definition elts_weight :: "amf_elt list \<Rightarrow> nat" where
  "elts_weight es = length es + sum_list (map elt_weight es)"

lemma elt_weight_data: "elt_weight e = 1 + data_weight (el_data e)"
  by (cases e rule: elt_weight.cases) (simp_all add: data_weight_def)

lemma set_el_data_simps [simp]:
  "el_type (set_el_data d e) = el_type e" "el_len (set_el_data d e) = el_len e" "el_data (set_el_data d e) = d"
  "el_name (set_el_data d e) = el_name e" "set_el_data (el_data e) e = e"
  "set_el_data d (set_el_data d' e) = set_el_data d e"
  by (cases e; simp)+

text \<open>What the memory is used for decides; names do not.\<close>

lemma elt_ok_cases:
  "elt_ok e \<longleftrightarrow> (case el_data e of No_data \<Rightarrow> True
     | Mem m \<Rightarrow> \<not> wants_ctx (el_type e) \<and> (\<forall>ty \<in> set (used_types (el_type e)). fits_mem ty (length m) (el_len e))
     | Elts es \<Rightarrow> \<not> wants_ctx (el_type e) \<and> (\<forall>ty \<in> set (used_types (el_type e)). \<not> stores ty) \<and> el_len e div elt_size \<le> length es \<and> (\<forall>e \<in> set es. elt_ok e)
     | Saved c \<Rightarrow> \<forall>ty \<in> set (used_types (el_type e)). \<not> stores ty \<and> \<not> compound ty)"
  by (cases e rule: elt_ok.cases) simp_all

definition same_shape :: "amf_data \<Rightarrow> amf_data \<Rightarrow> bool" where
  "same_shape d d' \<longleftrightarrow> d' = d \<or> (\<exists>m m'. d = Mem m \<and> d' = Mem m' \<and> length m' = length m)"

lemma same_shape_ok: "same_shape (el_data e) d' \<Longrightarrow> elt_ok e \<Longrightarrow> elt_ok (set_el_data d' e)"
  by (auto simp: same_shape_def elt_ok_cases [of e] elt_ok_cases [of "set_el_data d' e"] split: amf_data.splits)

lemma same_shape_refl [simp]: "same_shape d d"
  by (simp add: same_shape_def)

lemma same_shape_trans: "same_shape d d1 \<Longrightarrow> same_shape d1 d2 \<Longrightarrow> same_shape d d2"
  by (auto simp: same_shape_def)

lemma same_shape_weight: "same_shape d d' \<Longrightarrow> data_weight d' = data_weight d"
  by (auto simp: same_shape_def data_weight_def)

lemma same_shape_null: "same_shape No_data d \<longleftrightarrow> d = No_data"
  by (auto simp: same_shape_def)

section \<open>Stores\<close>

definition room :: "amf_data \<Rightarrow> nat \<Rightarrow> bool" where
  "room d n \<longleftrightarrow> d = No_data \<or> (\<exists>m. d = Mem m \<and> n \<le> length m)"

lemma amf_store_ok: "room d n \<Longrightarrow> length xs \<le> n \<Longrightarrow> \<exists>d'. amf_store d xs = Ret d' \<and> same_shape d d'"
  by (auto simp: room_def same_shape_def)

lemma same_shape_room: "same_shape d d' \<Longrightarrow> room d n \<Longrightarrow> room d' n"
  by (auto simp: room_def same_shape_def)

lemma amf_get_bound:
  assumes "ngx_rtmp_amf_get ctx n = (rc, x, ctx')"
  shows "length x \<le> n \<and> length (ax_rest ctx') \<le> length (ax_rest ctx) \<and>
    (rc = NGX_OK \<longrightarrow> length x = n \<and> length (ax_rest ctx') + n = length (ax_rest ctx))"
proof (cases "n \<le> length (ax_rest ctx)")
  case True
  from amf_get_enough [OF this] assms show ?thesis using True by auto
next
  case False
  then show ?thesis using amf_get_short [of ctx n] assms by auto
qed

lemma amf_get_to_ok:
  assumes "room d n"
  shows "\<exists>rc d' ctx'. amf_get_to ctx d n = Ret (rc, d', ctx') \<and> same_shape d d' \<and>
    length (ax_rest ctx') \<le> length (ax_rest ctx)"
proof -
  obtain rc x ctx' where g: "ngx_rtmp_amf_get ctx n = (rc, x, ctx')" by (metis prod.collapse)
  note b = amf_get_bound [OF g]
  obtain d' where "amf_store d x = Ret d'" "same_shape d d'" using amf_store_ok [OF assms, of x] b by auto
  then show ?thesis using g b by (simp add: amf_get_to_def)
qed

lemma amf_get_reversed_ok:
  assumes "room d n"
  shows "\<exists>rc d' ctx'. amf_get_reversed ctx d n = Ret (rc, d', ctx') \<and> same_shape d d' \<and>
    length (ax_rest ctx') \<le> length (ax_rest ctx)"
proof -
  obtain rc x ctx' where g: "ngx_rtmp_amf_get ctx n = (rc, x, ctx')" by (metis prod.collapse)
  note b = amf_get_bound [OF g]
  obtain d' where "amf_store d (rev x) = Ret d'" "same_shape d d'" using amf_store_ok [OF assms, of "rev x"] b by auto
  then show ?thesis using g b by (simp add: amf_get_reversed_def)
qed

lemma amf_put_nul_ok: "room d (Suc n) \<Longrightarrow> d \<noteq> No_data \<Longrightarrow> \<exists>d'. amf_put_nul d n = Ret d' \<and> same_shape d d'"
  by (auto simp: room_def same_shape_def)

lemma amf_read_string_ok:
  assumes "d = No_data \<or> 0 < l \<and> room d l"
  shows "\<exists>rc d' ctx'. amf_read_string ctx d l = Ret (rc, d', ctx') \<and> same_shape d d' \<and>
    length (ax_rest ctx') \<le> length (ax_rest ctx)"
proof -
  obtain rc x c1 where g: "ngx_rtmp_amf_get ctx 2 = (rc, x, c1)" by (metis prod.collapse)
  note b = amf_get_bound [OF g]
  show ?thesis
  proof (cases "rc = NGX_OK")
    case False
    then show ?thesis using g b by (simp add: amf_read_string_def)
  next
    case ok: True
    show ?thesis
    proof (cases "d = No_data")
      case True
      have "room d (be_nat x)" using True by (simp add: room_def)
      from amf_get_to_ok [OF this, of c1] show ?thesis using g b ok True by (auto simp: amf_read_string_def)
    next
      case dat: False
      then have l: "0 < l" "room d l" using assms by auto
      show ?thesis
      proof (cases "l \<le> be_nat x")
        case True
        have "room d (l - 1)" using l(2) by (auto simp: room_def)
        from amf_get_to_ok [OF this, of c1] obtain rc2 d2 c2 where t: "amf_get_to c1 d (l - 1) = Ret (rc2, d2, c2)"
          "same_shape d d2" "length (ax_rest c2) \<le> length (ax_rest c1)" by blast
        have "room d2 (Suc (l - 1))" "d2 \<noteq> No_data"
          using same_shape_room [OF t(2) l(2)] l(1) t(2) dat by (auto simp: same_shape_def)
        then obtain d3 where d3: "amf_put_nul d2 (l - 1) = Ret d3" "same_shape d2 d3" using amf_put_nul_ok by blast
        obtain rc4 y c4 where g4: "ngx_rtmp_amf_get c2 (be_nat x - l + 1) = (rc4, y, c4)" by (metis prod.collapse)
        note b4 = amf_get_bound [OF g4]
        show ?thesis
          using g b ok dat True l(1) t d3 g4 b4 same_shape_trans [OF t(2) d3(2)]
          by (cases "rc2 = NGX_OK") (auto simp: amf_read_string_def Let_def)
      next
        case False
        then have "room d (be_nat x)" "room d (Suc (be_nat x))" using l(2) by (auto simp: room_def)
        from amf_get_to_ok [OF this(1), of c1] obtain rc2 d2 c2 where t: "amf_get_to c1 d (be_nat x) = Ret (rc2, d2, c2)"
          "same_shape d d2" "length (ax_rest c2) \<le> length (ax_rest c1)" by blast
        have "room d2 (Suc (be_nat x))" "d2 \<noteq> No_data"
          using same_shape_room [OF t(2) \<open>room d (Suc (be_nat x))\<close>] t(2) dat by (auto simp: same_shape_def)
        then obtain d3 where d3: "amf_put_nul d2 (be_nat x) = Ret d3" "same_shape d2 d3" using amf_put_nul_ok by blast
        show ?thesis
          using g b ok dat False t d3 same_shape_trans [OF t(2) d3(2)] by (auto simp: amf_read_string_def Let_def)
      qed
    qed
  qed
qed

lemma amf_read_scalar_ok:
  assumes "d = No_data \<or> (\<exists>m. d = Mem m \<and> fits_mem ty (length m) l) \<or> \<not> stores ty"
  shows "\<exists>turn d' ctx'. amf_read_scalar ctx ty d l = Ret (turn, d', ctx') \<and> same_shape d d' \<and>
    length (ax_rest ctx') \<le> length (ax_rest ctx)"
proof -
  consider "ty = NGX_RTMP_AMF_NUMBER" | "ty = NGX_RTMP_AMF_BOOLEAN" | "ty = NGX_RTMP_AMF_STRING" | "ty = NGX_RTMP_AMF_INT8"
    | "ty = NGX_RTMP_AMF_INT16" | "ty = NGX_RTMP_AMF_INT32" | "\<not> stores ty"
    by (auto simp: stores_def)
  then show ?thesis
  proof cases
    case 1
    then have "room d 8" using assms by (auto simp: room_def fits_mem_def stores_def)
    from amf_get_reversed_ok [OF this, of ctx] 1 show ?thesis by (auto simp: amf_read_scalar_def)
  next
    case 2
    then have "room d 1" using assms by (auto simp: room_def fits_mem_def stores_def)
    from amf_get_to_ok [OF this, of ctx] 2 show ?thesis by (auto simp: amf_read_scalar_def)
  next
    case 3
    then have "d = No_data \<or> 0 < l \<and> room d l" using assms by (auto simp: room_def fits_mem_def stores_def)
    from amf_read_string_ok [OF this, of ctx] 3 show ?thesis by (auto simp: amf_read_scalar_def)
  next
    case 4
    then have "room d 1" using assms by (auto simp: room_def fits_mem_def stores_def)
    from amf_get_to_ok [OF this, of ctx] 4 show ?thesis by (auto simp: amf_read_scalar_def)
  next
    case 5
    then have "room d 2" using assms by (auto simp: room_def fits_mem_def stores_def)
    from amf_get_reversed_ok [OF this, of ctx] 5 show ?thesis by (auto simp: amf_read_scalar_def)
  next
    case 6
    then have "room d 4" using assms by (auto simp: room_def fits_mem_def stores_def)
    from amf_get_reversed_ok [OF this, of ctx] 6 show ?thesis by (auto simp: amf_read_scalar_def)
  next
    case 7
    then show ?thesis by (auto simp: amf_read_scalar_def stores_def Let_def)
  qed
qed

section \<open>The type of a value\<close>

abbreviation opt_ok :: "amf_elt option \<Rightarrow> bool" where
  "opt_ok elt \<equiv> (case elt of None \<Rightarrow> True | Some e \<Rightarrow> elt_ok e)"

abbreviation opt_weight :: "amf_elt option \<Rightarrow> nat" where
  "opt_weight elt \<equiv> (case elt of None \<Rightarrow> 0 | Some e \<Rightarrow> elt_weight e)"

abbreviation left :: "amf_ctx \<Rightarrow> nat" where
  "left ctx \<equiv> length (ax_rest ctx)"

lemma compatible_used:
  fixes b :: byte and t :: u32
  assumes "ngx_rtmp_amf_is_compatible_type (ucast (t AND 0xff)) b" "t AND NGX_RTMP_AMF_TYPELESS = 0" "t AND NGX_RTMP_AMF_CONTEXT = 0"
  shows "ucast b \<in> set (used_types t)"
proof -
  have m: "(0xff :: u32) = mask 8" by (simp add: mask_eq_exp_minus_1)
  have u: "ucast (ucast (t AND 0xff) :: byte) = t AND 0xff"
    unfolding m by (intro bit_word_eqI) (auto simp: bit_simps)
  have "ucast (t AND 0xff) = b \<or> t AND 0xff = 3 \<and> b = 8 \<or> t AND 0xff = 8 \<and> b = 3"
    using assms(1) u by (auto simp: ngx_rtmp_amf_is_compatible_type_def dest: arg_cong [of _ _ "ucast :: byte \<Rightarrow> u32"])
  then show ?thesis using assms(2,3) u by (auto simp: used_types_def Let_def)
qed

lemma store_ctx_ok:
  assumes "elt_ok e" "wants_ctx (el_type e)"
  obtains "el_data e = No_data" "amf_store_ctx ctx (el_data e) = Ret No_data"
  | c where "el_data e = Saved c" "amf_store_ctx ctx (el_data e) = Ret (Saved (Some ctx))"
  using assms by (cases "el_data e") (auto simp: elt_ok_cases [of e])

text \<open>Storing a context keeps the kind of the data.\<close>

fun same_kind :: "amf_data \<Rightarrow> amf_data \<Rightarrow> bool" where
  "same_kind No_data d = (d = No_data)"
| "same_kind (Saved c) d = (\<exists>c. d = Saved c)"
| "same_kind _ d = False"

lemma same_kind_ok: "same_kind (el_data e) d \<Longrightarrow> elt_ok e \<Longrightarrow> elt_ok (set_el_data d e) \<and> elt_weight (set_el_data d e) = elt_weight e"
  unfolding elt_ok_cases [of e] elt_ok_cases [of "set_el_data d e"] elt_weight_data
  by (cases "el_data e") (auto simp: data_weight_def)

lemma amf_read_type_ret:
  assumes "opt_ok elt"
  shows "\<exists>r elt1 ctx1. amf_read_type ctx elt = Ret (r, elt1, ctx1)"
proof -
  obtain rc x ctx' where g: "ngx_rtmp_amf_get ctx 1 = (rc, x, ctx')" by (metis prod.collapse)
  show ?thesis
  proof (cases elt)
    case (Some e)
    have oke: "elt_ok e" using assms Some by simp
    show ?thesis
    proof (cases "wants_ctx (el_type e)")
      case True
      obtain d where "amf_store_ctx ctx' (el_data e) = Ret d" using store_ctx_ok [OF oke True, of ctx'] by metis
      then show ?thesis using Some g by (simp add: amf_read_type_def Let_def)
    next
      case False
      then have "el_type e AND NGX_RTMP_AMF_TYPELESS \<noteq> 0 \<or> el_type e AND NGX_RTMP_AMF_CONTEXT = 0"
        by (simp add: wants_ctx_def)
      then show ?thesis
        using Some g by (cases "el_type e AND NGX_RTMP_AMF_TYPELESS = 0") (simp_all add: amf_read_type_def Let_def)
    qed
  qed (simp add: amf_read_type_def g [simplified])
qed

lemma amf_read_type_ok:
  assumes "opt_ok elt" "amf_read_type ctx elt = Ret (r, elt1, ctx1)"
  shows "(\<exists>d. elt1 = map_option (set_el_data d) elt) \<and> opt_ok elt1 \<and> opt_weight elt1 \<le> opt_weight elt \<and>
    left ctx1 \<le> left ctx \<and> (elt = None \<longrightarrow> r = Inl NGX_ERROR \<or> left ctx1 < left ctx) \<and>
    (case r of Inl rc \<Rightarrow> True
     | Inr (ty, d, own) \<Rightarrow> left ctx1 + data_weight d < left ctx + opt_weight elt \<and>
         (if own then \<exists>e. elt = Some e \<and> elt1 = elt \<and> d = el_data e \<and> ty \<in> set (used_types (el_type e)) else d = No_data))"
proof -
  obtain rc x ctx' where g: "ngx_rtmp_amf_get ctx 1 = (rc, x, ctx')" by (metis prod.collapse)
  note b = amf_get_bound [OF g]
  show ?thesis
  proof (cases elt)
    case None
    then show ?thesis using assms(2) g b by (auto simp: amf_read_type_def data_weight_def split: if_splits)
  next
    case (Some e)
    have same: "\<exists>d. Some e = map_option (set_el_data d) (Some e)"
      by (rule exI [of _ "el_data e"]) simp
    have w: "data_weight (el_data e) < elt_weight e" by (simp add: elt_weight_data)
    show ?thesis
    proof (cases "el_type e AND NGX_RTMP_AMF_TYPELESS \<noteq> 0")
      case True
      then have "(r, elt1, ctx1) = (Inr (el_type e AND NOT NGX_RTMP_AMF_TYPELESS, el_data e, True), Some e, ctx)"
        using assms(2) Some by (simp add: amf_read_type_def)
      moreover have "el_type e AND NOT NGX_RTMP_AMF_TYPELESS \<in> set (used_types (el_type e))"
        using True by (simp add: used_types_def)
      ultimately show ?thesis using Some assms(1) same w by auto
    next
      case tl: False
      show ?thesis
      proof (cases "rc = NGX_OK")
        case False
        then show ?thesis using assms Some g b tl same by (auto simp: amf_read_type_def)
      next
        case ok: True
        then have l: "left ctx' + 1 = left ctx" using b by simp
        show ?thesis
        proof (cases "el_type e AND NGX_RTMP_AMF_CONTEXT \<noteq> 0")
          case True
          let ?match = "ngx_rtmp_amf_is_compatible_type (ucast (el_type e AND 0xff)) (hd x)"
          have w: "wants_ctx (el_type e)" using tl True by (simp add: wants_ctx_def)
          have oke: "elt_ok e" using assms(1) Some by simp
          obtain d where d: "amf_store_ctx ctx' (el_data e) = Ret d" "same_kind (el_data e) d"
            using store_ctx_ok [OF oke w, of ctx'] by (metis same_kind.simps)
          define me where "me = (if ?match then set_el_data d e else e)"
          have r: "(r, elt1, ctx1) = (Inr (ucast (hd x), No_data, False), Some me, ctx')"
            using assms(2) Some g tl ok True d by (auto simp add: amf_read_type_def Let_def me_def)
          have "\<exists>d. Some me = map_option (set_el_data d) (Some e)"
            unfolding me_def using same by (simp split: if_split) blast
          moreover have "elt_ok me" "elt_weight me \<le> elt_weight e" "0 < elt_weight e"
            using same_kind_ok [OF d(2) oke] oke by (simp_all add: me_def elt_weight_data [of e])
          moreover have "data_weight No_data = 0" by (simp add: data_weight_def)
          ultimately show ?thesis using r Some l by simp
        next
          case False
          let ?match = "ngx_rtmp_amf_is_compatible_type (ucast (el_type e AND 0xff)) (hd x)"
          have r: "(r, elt1, ctx1) = (Inr (ucast (hd x), if ?match then el_data e else No_data, ?match), Some e, ctx')"
            using assms(2) Some g tl ok False by (simp add: amf_read_type_def Let_def)
          have "?match \<Longrightarrow> ucast (hd x) \<in> set (used_types (el_type e))"
            using compatible_used tl False by blast
          then show ?thesis using r Some assms(1) same w l by (auto simp: data_weight_def)
        qed
      qed
    qed
  qed
qed

lemma amf_read_key_ok:
  assumes "amf_read_key ctx es = (k, ctx')"
  shows "left ctx' \<le> left ctx \<and> (\<forall>n. k = Key n \<longrightarrow> left ctx' + 3 \<le> left ctx)"
proof -
  obtain rc x c1 where g: "ngx_rtmp_amf_get ctx 2 = (rc, x, c1)" by (metis prod.collapse)
  obtain rc2 y c2 where g2: "ngx_rtmp_amf_get c1 (be_nat x) = (rc2, y, c2)" by (metis prod.collapse)
  obtain rc3 z c3 where g3: "ngx_rtmp_amf_get c1 (max_name es) = (rc3, z, c3)" by (metis prod.collapse)
  obtain rc4 u c4 where g4: "ngx_rtmp_amf_get c3 (be_nat x - max_name es) = (rc4, u, c4)" by (metis prod.collapse)
  note b = amf_get_bound [OF g] amf_get_bound [OF g2] amf_get_bound [OF g3] amf_get_bound [OF g4]
  show ?thesis
    using assms b by (auto simp: amf_read_key_def g g2 g3 g4 Let_def split: if_splits)
qed

lemma find_name_less: "find_name nm es = Some n \<Longrightarrow> n < length es"
  by (induction es arbitrary: n) (auto split: if_splits)

lemma amf_read_key_index: "amf_read_key ctx es = (Key (Some n), ctx') \<Longrightarrow> n < length es"
  by (auto simp: amf_read_key_def Let_def split: prod.splits if_splits dest: find_name_less)

lemma find_type_ok: "find_type t es = Some n \<Longrightarrow> n < length es \<and> el_type (es ! n) = t"
  by (induction es arbitrary: n) (auto split: option.splits if_splits)

section \<open>Elements of compound values\<close>

abbreviation elts_ok :: "amf_elt list \<Rightarrow> bool" where
  "elts_ok es \<equiv> \<forall>e \<in> set es. elt_ok e"

lemma compound_put:
  assumes "elt_ok e" "ty \<in> set (used_types (el_type e))" "compound ty"
  shows "\<exists>es. sub_elts (el_data e) (el_len e) = Ret es \<and> elts_ok es \<and> elts_weight es \<le> data_weight (el_data e) \<and>
    (\<forall>es'. elts_ok es' \<longrightarrow> length es' = length es \<longrightarrow> elts_weight es' \<le> elts_weight es \<longrightarrow>
      elt_ok (set_el_data (put_elts (el_data e) es') e) \<and> elt_weight (set_el_data (put_elts (el_data e) es') e) \<le> elt_weight e)"
proof (cases "el_data e")
  case No_data
  then show ?thesis
    by (auto simp: sub_elts_def data_weight_def elts_weight_def elt_weight_data elt_ok_cases [of "set_el_data No_data e"])
next
  case (Mem m)
  then show ?thesis using assms by (auto simp: elt_ok_cases [of e] fits_mem_def)
next
  case (Saved c)
  then show ?thesis using assms by (auto simp: elt_ok_cases [of e])
next
  case (Elts es0)
  let ?n = "el_len e div elt_size"
  have e: "\<forall>ty \<in> set (used_types (el_type e)). \<not> stores ty" "?n \<le> length es0" "elts_ok es0" "\<not> wants_ctx (el_type e)"
    using assms(1) Elts by (simp_all add: elt_ok_cases [of e])
  have w: "elts_weight es0 = elts_weight (take ?n es0) + elts_weight (drop ?n es0)"
  proof -
    have "elts_weight (xs @ ys) = elts_weight xs + elts_weight ys" for xs ys by (simp add: elts_weight_def)
    from this [of "take ?n es0" "drop ?n es0"] show ?thesis by simp
  qed
  have put: "elt_ok (set_el_data (put_elts (el_data e) es') e) \<and> elt_weight (set_el_data (put_elts (el_data e) es') e) \<le> elt_weight e"
    if "elts_ok es'" "length es' = length (take ?n es0)" "elts_weight es' \<le> elts_weight (take ?n es0)" for es'
  proof
    show "elt_ok (set_el_data (put_elts (el_data e) es') e)"
      using that e Elts by (subst elt_ok_cases) (auto dest: in_set_dropD)
    have "data_weight (put_elts (el_data e) es') = elts_weight es' + elts_weight (drop ?n es0)"
      using that(2) e(2) Elts by (simp add: data_weight_def elts_weight_def)
    moreover have "data_weight (el_data e) = elts_weight es0" using Elts by (simp add: data_weight_def elts_weight_def)
    ultimately show "elt_weight (set_el_data (put_elts (el_data e) es') e) \<le> elt_weight e"
      using that(3) w by (simp add: elt_weight_data)
  qed
  have "sub_elts (el_data e) (el_len e) = Ret (take ?n es0)" using Elts e(2) by (simp add: sub_elts_def)
  moreover have "elts_ok (take ?n es0)" using e(3) by (auto dest: in_set_takeD)
  moreover have "elts_weight (take ?n es0) \<le> data_weight (el_data e)"
    using w Elts by (simp add: data_weight_def elts_weight_def)
  ultimately show ?thesis using put by blast
qed

lemma weight_nth: "i < length es \<Longrightarrow> elt_weight (es ! i) \<le> sum_list (map elt_weight es)"
  by (simp add: member_le_sum_list)

lemma elts_upd:
  assumes "elts_ok es" "i < length es" "elt_ok e" "elt_weight e \<le> elt_weight (es ! i)"
  shows "elts_ok (es[i := e])" "sum_list (map elt_weight (es[i := e])) \<le> sum_list (map elt_weight es)"
proof -
  show "elts_ok (es[i := e])" using assms by (auto dest!: subsetD [OF set_update_subset_insert])
  have "sum_list ((map elt_weight es)[i := elt_weight e]) = sum_list (map elt_weight es) + elt_weight e - elt_weight (es ! i)"
    using assms(2) by (simp add: sum_list_update)
  then show "sum_list (map elt_weight (es[i := e])) \<le> sum_list (map elt_weight es)"
    using assms(4) by (simp add: map_update)
qed

lemma no_type:
  "x \<notin> {0, 1, 2, 0x100, 0x101, 0x102, 3, 8, 0xa, 0x103} \<Longrightarrow> \<not> stores x \<and> \<not> compound x \<and> fits_mem x n l"
  by (auto simp: stores_def compound_def fits_mem_def)

lemma typeless_none:
  "x AND NGX_RTMP_AMF_TYPELESS = NGX_RTMP_AMF_TYPELESS \<Longrightarrow> x \<notin> {0, 1, 2, 0x100, 0x101, 0x102, 3, 8, 0xa, 0x103}"
  by auto

lemma variant_ok:
  fixes b :: byte
  assumes "el_type e = ucast b"
  shows "elt_ok (Amf_elt (ucast b OR NGX_RTMP_AMF_TYPELESS) nm d (el_len e)) \<longleftrightarrow> elt_ok (set_el_data d e)"
proof -
  let ?t = "ucast b :: u32"
  have m: "(0xff :: u32) = mask 8" by (simp add: mask_eq_exp_minus_1)
  have t: "?t AND 0xff = ?t" unfolding m by (intro bit_word_eqI) (auto simp: bit_simps dest: bit_imp_le_length)
  have low: "?t AND x = ?t AND (0xff AND x)" for x by (metis t and.assoc)
  have lt: "?t AND 0xff = ?t" "?t AND NGX_RTMP_AMF_TYPELESS = 0" "?t AND NGX_RTMP_AMF_CONTEXT = 0"
    using t low [of NGX_RTMP_AMF_TYPELESS] low [of NGX_RTMP_AMF_CONTEXT] by simp_all
  have "?t AND NOT NGX_RTMP_AMF_TYPELESS = ?t" using t low [of "NOT NGX_RTMP_AMF_TYPELESS"] by simp
  then have tl: "(?t OR NGX_RTMP_AMF_TYPELESS) AND NGX_RTMP_AMF_TYPELESS = NGX_RTMP_AMF_TYPELESS"
    "(?t OR NGX_RTMP_AMF_TYPELESS) AND NOT NGX_RTMP_AMF_TYPELESS = ?t"
    using lt(2) by (simp_all only: bit.conj_disj_distrib2 and.idem bit.conj_cancel_right or.left_neutral or.right_neutral)
  have ut: "used_types (?t OR NGX_RTMP_AMF_TYPELESS) = [?t OR NGX_RTMP_AMF_TYPELESS, ?t]"
    unfolding used_types_def tl by simp
  note ge = typeless_none [OF tl(1)]
  have ns: "\<not> stores (?t OR NGX_RTMP_AMF_TYPELESS)" "\<not> compound (?t OR NGX_RTMP_AMF_TYPELESS)"
    "fits_mem (?t OR NGX_RTMP_AMF_TYPELESS) n l" for n l
    using no_type [OF ge, of n l] by blast+
  have us: "set (used_types ?t) = (if ?t = 3 \<or> ?t = 8 then {3, 8} else {?t})"
    using lt by (auto simp: used_types_def Let_def)
  have c38: "compound 3" "compound 8" "\<not> stores 3" "\<not> stores 8" "\<not> fits_mem 3 n l" "\<not> fits_mem 8 n l" for n l
    by (auto simp: compound_def stores_def fits_mem_def)
  have wc: "\<not> wants_ctx ?t" "\<not> wants_ctx (?t OR NGX_RTMP_AMF_TYPELESS)" using lt(3) tl(1) by (simp_all add: wants_ctx_def)
  show ?thesis
    using ut ns us c38 wc assms by (cases d) (auto simp: elt_ok_cases [of "set_el_data _ e"])
qed

section \<open>The reader is safe and comes to an end\<close>

definition one_post :: "amf_ctx \<Rightarrow> amf_elt option \<Rightarrow> amf_turn \<Rightarrow> amf_elt option \<Rightarrow> amf_ctx \<Rightarrow> bool" where
  "one_post ctx elt turn elt' ctx' \<longleftrightarrow> (\<exists>d. elt' = map_option (set_el_data d) elt) \<and> opt_ok elt' \<and>
     opt_weight elt' \<le> opt_weight elt \<and> left ctx' \<le> left ctx \<and> (elt = None \<and> turn_rc turn = NGX_OK \<longrightarrow> left ctx' < left ctx)"

definition es_post :: "amf_ctx \<Rightarrow> amf_elt list \<Rightarrow> amf_elt list \<Rightarrow> amf_ctx \<Rightarrow> bool" where
  "es_post ctx es es' ctx' \<longleftrightarrow> elts_ok es' \<and> length es' = length es \<and> elts_weight es' \<le> elts_weight es \<and> left ctx' \<le> left ctx"

definition one_safe :: "nat \<Rightarrow> bool" where
  "one_safe k \<longleftrightarrow> (\<forall>ctx elt. opt_ok elt \<longrightarrow> left ctx + opt_weight elt < k \<longrightarrow>
     (\<exists>turn elt' ctx'. amf_one k ctx elt = Ret (turn, elt', ctx') \<and> one_post ctx elt turn elt' ctx'))"

definition object_safe :: "nat \<Rightarrow> bool" where
  "object_safe k \<longleftrightarrow> (\<forall>ctx es. elts_ok es \<longrightarrow> left ctx + elts_weight es < k \<longrightarrow>
     (\<exists>rc es' ctx'. amf_read_object k ctx es = Ret (rc, es', ctx') \<and> es_post ctx es es' ctx'))"

definition array_safe :: "nat \<Rightarrow> bool" where
  "array_safe k \<longleftrightarrow> (\<forall>ctx n len es. elts_ok es \<longrightarrow> left ctx + (length es - n) + sum_list (map elt_weight es) + 1 < k \<longrightarrow>
     (\<exists>rc es' ctx'. amf_read_array k n len ctx es = Ret (rc, es', ctx') \<and> es_post ctx es es' ctx'))"

lemma one_safeD:
  assumes "one_safe k" "opt_ok elt" "left ctx + opt_weight elt < k"
  obtains turn elt' ctx' where "amf_one k ctx elt = Ret (turn, elt', ctx')" "one_post ctx elt turn elt' ctx'"
  using assms unfolding one_safe_def by blast

lemma object_safeD:
  assumes "object_safe k" "elts_ok es" "left ctx + elts_weight es < k"
  obtains rc es' ctx' where "amf_read_object k ctx es = Ret (rc, es', ctx')" "es_post ctx es es' ctx'"
  using assms unfolding object_safe_def by blast

lemma array_safeD:
  assumes "array_safe k" "elts_ok es" "left ctx + (length es - n) + sum_list (map elt_weight es) + 1 < k"
  obtains rc es' ctx' where "amf_read_array k n len ctx es = Ret (rc, es', ctx')" "es_post ctx es es' ctx'"
  using assms unfolding array_safe_def by blast

lemma es_post_refl: "elts_ok es \<Longrightarrow> left ctx' \<le> left ctx \<Longrightarrow> es_post ctx es es ctx'"
  by (simp add: es_post_def)

lemma es_post_trans: "es_post ctx es es1 ctx1 \<Longrightarrow> es_post ctx1 es1 es2 ctx2 \<Longrightarrow> es_post ctx es es2 ctx2"
  by (simp add: es_post_def)

text \<open>An element of a list, or none, read and written back.\<close>

lemma upd_elt_post:
  assumes ok: "elts_ok es" and i: "\<And>n. i = Some n \<Longrightarrow> n < length es"
    and p: "one_post ctx (map_option (\<lambda>n. es ! n) i) turn e ctx'"
  shows "es_post ctx es (upd_elt i e es) ctx'"
proof (cases i)
  case None
  then show ?thesis using ok p by (simp add: upd_elt_def es_post_def one_post_def)
next
  case (Some n)
  then obtain d where e: "e = Some (set_el_data d (es ! n))" using p by (auto simp: one_post_def)
  have u: "elt_ok (set_el_data d (es ! n))" "elt_weight (set_el_data d (es ! n)) \<le> elt_weight (es ! n)" "left ctx' \<le> left ctx"
    using p Some e by (simp_all add: one_post_def)
  from elts_upd [OF ok i [OF Some] u(1,2)] show ?thesis
    using Some e u(3) by (simp add: upd_elt_def es_post_def elts_weight_def)
qed

lemma opt_nth:
  "elts_ok es \<Longrightarrow> (\<And>n. i = Some n \<Longrightarrow> n < length es) \<Longrightarrow> opt_ok (map_option (\<lambda>n. es ! n) i)"
  "(\<And>n. i = Some n \<Longrightarrow> n < length es) \<Longrightarrow> opt_weight (map_option (\<lambda>n. es ! n) i) \<le> sum_list (map elt_weight es)"
  using weight_nth by (auto split: option.split)

lemma object_step: "one_safe k \<Longrightarrow> object_safe k \<Longrightarrow> object_safe (Suc k)"
  unfolding object_safe_def [of "Suc k"]
proof (intro allI impI)
  fix ctx es assume one: "one_safe k" and obj: "object_safe k" and ok: "elts_ok es" and fuel: "left ctx + elts_weight es < Suc k"
  obtain key ctx1 where key: "amf_read_key ctx es = (key, ctx1)" by (metis prod.collapse)
  note b = amf_read_key_ok [OF key]
  show "\<exists>rc es' ctx'. amf_read_object (Suc k) ctx es = Ret (rc, es', ctx') \<and> es_post ctx es es' ctx'"
  proof (cases key)
    case Key_eof
    then show ?thesis using key b ok by (simp add: es_post_refl)
  next
    case Key_error
    then show ?thesis using key b ok by (simp add: es_post_refl)
  next
    case Key_end
    obtain rc x ctx2 where g: "ngx_rtmp_amf_get ctx1 1 = (rc, x, ctx2)" by (metis prod.collapse)
    have "left ctx2 \<le> left ctx" using amf_get_bound [OF g] b by simp
    then show ?thesis using Key_end key g ok by (simp add: es_post_refl)
  next
    case (Key i)
    have i: "n < length es" if "i = Some n" for n using amf_read_key_index key Key that by blast
    have l: "left ctx1 + 3 \<le> left ctx" using b Key by simp
    have "left ctx1 + opt_weight (map_option (\<lambda>n. es ! n) i) < k"
      using opt_nth(2) [of i es, OF i] l fuel by (simp add: elts_weight_def)
    from one_safeD [OF one opt_nth(1) [OF ok i] this] obtain turn e ctx2 where
      o: "amf_one k ctx1 (map_option (\<lambda>n. es ! n) i) = Ret (turn, e, ctx2)" "one_post ctx1 (map_option (\<lambda>n. es ! n) i) turn e ctx2"
      by metis
    have p: "es_post ctx es (upd_elt i e es) ctx2"
      using upd_elt_post [OF ok i o(2)] l by (simp add: es_post_def)
    show ?thesis
    proof (cases "turn_rc turn = NGX_OK")
      case False
      then show ?thesis using Key key o(1) p by simp
    next
      case True
      have "left ctx2 \<le> left ctx1" using o(2) by (simp add: one_post_def)
      then have "left ctx2 + elts_weight (upd_elt i e es) < k" "elts_ok (upd_elt i e es)"
        using p l fuel by (simp_all add: es_post_def)
      from object_safeD [OF obj this(2,1)] obtain rc es' ctx' where
        r: "amf_read_object k ctx2 (upd_elt i e es) = Ret (rc, es', ctx')" "es_post ctx2 (upd_elt i e es) es' ctx'" .
      then show ?thesis using Key key o(1) True es_post_trans [OF p r(2)] by simp
    qed
  qed
qed

lemma array_step: "one_safe k \<Longrightarrow> array_safe k \<Longrightarrow> array_safe (Suc k)"
  unfolding array_safe_def [of "Suc k"]
proof (intro allI impI)
  fix ctx n len es
  assume one: "one_safe k" and arr: "array_safe k" and ok: "elts_ok es"
    and fuel: "left ctx + (length es - n) + sum_list (map elt_weight es) + 1 < Suc k"
  show "\<exists>rc es' ctx'. amf_read_array (Suc k) n len ctx es = Ret (rc, es', ctx') \<and> es_post ctx es es' ctx'"
  proof (cases "n < len")
    case False
    then show ?thesis using ok by (simp add: es_post_refl)
  next
    case n: True
    define i where "i = (if n < length es then Some n else None)"
    have i: "m < length es" if "i = Some m" for m using that by (simp add: i_def split: if_splits)
    have "left ctx + opt_weight (map_option (\<lambda>n. es ! n) i) < k"
      using opt_nth(2) [of i es, OF i] fuel by simp
    from one_safeD [OF one opt_nth(1) [OF ok i] this] obtain turn e ctx2 where
      o: "amf_one k ctx (map_option (\<lambda>n. es ! n) i) = Ret (turn, e, ctx2)" "one_post ctx (map_option (\<lambda>n. es ! n) i) turn e ctx2"
      by metis
    have p: "es_post ctx es (upd_elt i e es) ctx2" by (rule upd_elt_post [OF ok i o(2)])
    show ?thesis
    proof (cases "turn_rc turn = NGX_OK")
      case False
      then show ?thesis using n o(1) p by (simp add: i_def [symmetric])
    next
      case True
      let ?es = "upd_elt i e es"
      have next_less: "left ctx2 + (length es - (n + 1)) < left ctx + (length es - n)"
      proof (cases "n < length es")
        case True
        moreover have "left ctx2 \<le> left ctx" using p by (simp add: es_post_def)
        ultimately show ?thesis by linarith
      next
        case False
        then have "i = None" by (simp add: i_def)
        then show ?thesis using o(2) True False by (simp add: one_post_def)
      qed
      have "left ctx2 + (length ?es - (n + 1)) + sum_list (map elt_weight ?es) + 1 < k" "elts_ok ?es"
        using p next_less fuel by (simp_all add: es_post_def elts_weight_def)
      from array_safeD [OF arr this(2,1), of len] obtain rc es' ctx' where
        r: "amf_read_array k (n + 1) len ctx2 ?es = Ret (rc, es', ctx')" "es_post ctx2 ?es es' ctx'" .
      then show ?thesis using n o(1) True es_post_trans [OF p r(2)] by (simp add: i_def [symmetric])
    qed
  qed
qed

text \<open>The elements that \<open>data\<close> points to, handed to a reader and put back.\<close>

lemma amf_elts_ok:
  assumes ok: "opt_ok elt" and rt: "amf_read_type ctx elt = Ret (Inr (ty, data, own), elt1, ctx1)" and c: "compound ty"
    and f: "\<And>es. elts_ok es \<Longrightarrow> elts_weight es \<le> data_weight data \<Longrightarrow>
      \<exists>rc es' ctx'. f es = Ret (rc, es', ctx') \<and> es_post ctx1 es es' ctx'"
  shows "\<exists>turn elt' ctx'. run_bind (sub_elts data (case elt1 of None \<Rightarrow> 0 | Some e \<Rightarrow> el_len e)) (\<lambda>es. run_bind (f es) (\<lambda>(rc, es, ctx).
      Ret (must_ok rc, if own then map_option (set_el_data (put_elts data es)) elt1 else elt1, ctx))) = Ret (turn, elt', ctx') \<and>
    one_post ctx elt turn elt' ctx'"
proof -
  note t = amf_read_type_ok [OF ok rt]
  show ?thesis
  proof (cases own)
    case True
    then obtain e where e: "elt = Some e" "elt1 = elt" "data = el_data e" "ty \<in> set (used_types (el_type e))" using t by auto
    have "elt_ok e" using ok e(1) by simp
    from compound_put [OF this e(4) c] obtain es where es: "sub_elts (el_data e) (el_len e) = Ret es" "elts_ok es"
      "elts_weight es \<le> data_weight (el_data e)"
      "\<forall>es'. elts_ok es' \<longrightarrow> length es' = length es \<longrightarrow> elts_weight es' \<le> elts_weight es \<longrightarrow>
        elt_ok (set_el_data (put_elts (el_data e) es') e) \<and> elt_weight (set_el_data (put_elts (el_data e) es') e) \<le> elt_weight e"
      by blast
    obtain rc es' ctx' where r: "f es = Ret (rc, es', ctx')" "es_post ctx1 es es' ctx'" using f es(2,3) e(3) by blast
    have "elt_ok (set_el_data (put_elts (el_data e) es') e)" "elt_weight (set_el_data (put_elts (el_data e) es') e) \<le> elt_weight e"
      using es(4) r(2) by (auto simp: es_post_def)
    moreover have "left ctx' \<le> left ctx" using r(2) t by (simp add: es_post_def)
    ultimately show ?thesis using True e es(1) r(1) by (auto simp: one_post_def)
  next
    case False
    then have d: "data = No_data" using t by simp
    have "elts_ok []" "elts_weight [] \<le> data_weight data" by (simp_all add: elts_weight_def)
    from f [OF this] obtain rc es' ctx' where r: "f [] = Ret (rc, es', ctx')" "es_post ctx1 [] es' ctx'" by blast
    have l: "left ctx' \<le> left ctx1" using r(2) by (simp add: es_post_def)
    have "one_post ctx elt (must_ok rc) elt1 ctx'"
      using t l by (auto simp: one_post_def)
    then show ?thesis using False d r(1) by (simp add: sub_elts_def)
  qed
qed

lemma amf_scalar_ok:
  assumes ok: "opt_ok elt" and rt: "amf_read_type ctx elt = Ret (Inr (ty, data, own), elt1, ctx1)"
  shows "\<exists>turn elt' ctx'. run_bind (amf_read_scalar ctx1 ty data (case elt1 of None \<Rightarrow> 0 | Some e \<Rightarrow> el_len e))
      (\<lambda>(turn, data, ctx). Ret (turn, if own then map_option (set_el_data data) elt1 else elt1, ctx)) = Ret (turn, elt', ctx') \<and>
    one_post ctx elt turn elt' ctx'"
proof -
  note t = amf_read_type_ok [OF ok rt]
  show ?thesis
  proof (cases own)
    case True
    then obtain e where e: "elt = Some e" "elt1 = elt" "data = el_data e" "ty \<in> set (used_types (el_type e))" using t by auto
    have oke: "elt_ok e" using ok e(1) by simp
    have "data = No_data \<or> (\<exists>m. data = Mem m \<and> fits_mem ty (length m) (el_len e)) \<or> \<not> stores ty"
      using oke e(3,4) by (cases "el_data e") (auto simp: elt_ok_cases [of e])
    from amf_read_scalar_ok [OF this, of ctx1] obtain turn d' ctx' where
      r: "amf_read_scalar ctx1 ty data (el_len e) = Ret (turn, d', ctx')" "same_shape data d'" "left ctx' \<le> left ctx1" by blast
    have "elt_ok (set_el_data d' e)" using same_shape_ok oke r(2) e(3) by blast
    moreover have "elt_weight (set_el_data d' e) = elt_weight e"
      using same_shape_weight [OF r(2)] e(3) by (simp add: elt_weight_data)
    ultimately show ?thesis using True e r(1,3) t by (auto simp: one_post_def)
  next
    case False
    then have d: "data = No_data" using t by simp
    let ?l = "case elt1 of None \<Rightarrow> 0 | Some e \<Rightarrow> el_len e"
    from amf_read_scalar_ok [of data ty ?l ctx1] d obtain turn d' ctx' where
      r: "amf_read_scalar ctx1 ty data ?l = Ret (turn, d', ctx')" "left ctx' \<le> left ctx1" by blast
    have "one_post ctx elt turn elt1 ctx'" using t r(2) by (auto simp: one_post_def)
    then show ?thesis using False r(1) by simp
  qed
qed

definition variant_elt :: "byte \<Rightarrow> nat option \<Rightarrow> amf_elt list \<Rightarrow> amf_elt" where
  "variant_elt t n es = (case n of None \<Rightarrow> Amf_elt (ucast t OR NGX_RTMP_AMF_TYPELESS) [] No_data 0
     | Some n \<Rightarrow> Amf_elt (ucast t OR NGX_RTMP_AMF_TYPELESS) [] (el_data (es ! n)) (el_len (es ! n)))"

lemma variant_step:
  assumes one: "one_safe k" and ok: "elts_ok es" and fuel: "left ctx + elts_weight es + 1 < k"
    and n: "n = find_type (ucast t) es"
  shows "\<exists>turn e ctx'. amf_one k ctx (Some (variant_elt t n es)) = Ret (turn, e, ctx') \<and>
    es_post ctx es (upd_elt n (map_option (\<lambda>e. set_el_data (el_data e) (es ! the n)) e) es) ctx'"
proof (cases n)
  case None
  have ov: "opt_ok (Some (variant_elt t n es))" using None by (simp add: variant_elt_def)
  have "left ctx + opt_weight (Some (variant_elt t n es)) < k" using None fuel by (simp add: variant_elt_def)
  from one_safeD [OF one ov this] obtain turn e ctx' where
    "amf_one k ctx (Some (variant_elt t n es)) = Ret (turn, e, ctx')" "one_post ctx (Some (variant_elt t n es)) turn e ctx'" .
  then show ?thesis using None ok by (simp add: upd_elt_def one_post_def es_post_refl)
next
  case (Some m)
  then have m: "m < length es" "el_type (es ! m) = ucast t" using find_type_ok n by simp_all
  have okm: "elt_ok (es ! m)" using ok m(1) by simp
  let ?v = "variant_elt t n es"
  have v: "?v = Amf_elt (ucast t OR NGX_RTMP_AMF_TYPELESS) [] (el_data (es ! m)) (el_len (es ! m))"
    using Some by (simp add: variant_elt_def)
  have ov: "opt_ok (Some ?v)" using okm variant_ok [OF m(2), of "[]" "el_data (es ! m)"] v by simp
  have w: "elt_weight ?v = elt_weight (es ! m)" unfolding elt_weight_data v by simp
  have "left ctx + opt_weight (Some ?v) < k" using w weight_nth [OF m(1)] fuel by (simp add: elts_weight_def)
  from one_safeD [OF one ov this] obtain turn e ctx' where
    r: "amf_one k ctx (Some ?v) = Ret (turn, e, ctx')" "one_post ctx (Some ?v) turn e ctx'" .
  then obtain d where e: "e = Some (set_el_data d ?v)" "elt_ok (set_el_data d ?v)" "elt_weight (set_el_data d ?v) \<le> elt_weight ?v"
    "left ctx' \<le> left ctx"
    by (auto simp: one_post_def)
  have "set_el_data d ?v = Amf_elt (ucast t OR NGX_RTMP_AMF_TYPELESS) [] d (el_len (es ! m))" by (simp add: v)
  then have u: "elt_ok (set_el_data d (es ! m))" using e(2) variant_ok [OF m(2), of "[]" d] by simp
  have "elt_weight (set_el_data d (es ! m)) \<le> elt_weight (es ! m)"
    using e(3) unfolding w by (simp add: elt_weight_data)
  from elts_upd [OF ok m(1) u this] show ?thesis
    using r(1) e(1,4) Some by (simp add: upd_elt_def es_post_def elts_weight_def)
qed

lemma one_step: "one_safe k \<Longrightarrow> object_safe k \<Longrightarrow> array_safe k \<Longrightarrow> one_safe (Suc k)"
  unfolding one_safe_def [of "Suc k"]
proof (intro allI impI)
  fix ctx elt
  assume one: "one_safe k" and obj: "object_safe k" and arr: "array_safe k" and ok: "opt_ok elt"
    and fuel: "left ctx + opt_weight elt < Suc k"
  obtain r elt1 ctx1 where rt: "amf_read_type ctx elt = Ret (r, elt1, ctx1)" using amf_read_type_ret [OF ok] by blast
  note t = amf_read_type_ok [OF ok rt]
  show "\<exists>turn elt' ctx'. amf_one (Suc k) ctx elt = Ret (turn, elt', ctx') \<and> one_post ctx elt turn elt' ctx'"
  proof (cases r)
    case (Inl rc)
    then have "one_post ctx elt (Stop rc) elt1 ctx1" using t by (auto simp: one_post_def)
    then show ?thesis using rt Inl by simp
  next
    case (Inr x)
    then obtain ty data own where x: "r = Inr (ty, data, own)" by (cases x) auto
    note rt = rt [unfolded x]
    have fuel1: "left ctx1 + elts_weight es < k" if "elts_weight es \<le> data_weight data" for es
      using t x fuel that by simp
    consider "ty = NGX_RTMP_AMF_MIXED_ARRAY" | "ty = NGX_RTMP_AMF_OBJECT" | "ty = NGX_RTMP_AMF_ARRAY" | "ty = NGX_RTMP_AMF_VARIANT0"
      | "\<not> compound ty" by (auto simp: compound_def)
    then show ?thesis
    proof cases
      case 1
      obtain rc y ctx2 where g: "ngx_rtmp_amf_get ctx1 4 = (rc, y, ctx2)" by (metis prod.collapse)
      have l: "left ctx2 \<le> left ctx1" using amf_get_bound [OF g] by simp
      show ?thesis
      proof (cases "rc = NGX_OK")
        case False
        have "one_post ctx elt (Stop NGX_ERROR) elt1 ctx2" using t x l by (auto simp: one_post_def)
        then show ?thesis using rt 1 g False by simp
      next
        case True
        have "\<exists>rc es' ctx'. amf_read_object k ctx2 es = Ret (rc, es', ctx') \<and> es_post ctx1 es es' ctx'"
          if es: "elts_ok es" "elts_weight es \<le> data_weight data" for es
        proof -
          have "left ctx2 + elts_weight es < k" using fuel1 [OF es(2)] l by simp
          from object_safeD [OF obj es(1) this] obtain rc es' ctx' where
            "amf_read_object k ctx2 es = Ret (rc, es', ctx')" "es_post ctx2 es es' ctx'" .
          then show ?thesis using l by (auto simp: es_post_def)
        qed
        from amf_elts_ok [OF ok rt _ this] show ?thesis using rt 1 g True by (simp add: compound_def)
      qed
    next
      case 2
      have "\<exists>rc es' ctx'. amf_read_object k ctx1 es = Ret (rc, es', ctx') \<and> es_post ctx1 es es' ctx'"
        if es: "elts_ok es" "elts_weight es \<le> data_weight data" for es
        using object_safeD [OF obj es(1) fuel1 [OF es(2)]] by metis
      from amf_elts_ok [OF ok rt _ this] show ?thesis using rt 2 by (simp add: compound_def)
    next
      case 3
      let ?f = "\<lambda>es. case ngx_rtmp_amf_get ctx1 4 of (rc, x, ctx) \<Rightarrow>
        if rc \<noteq> NGX_OK then Ret (NGX_ERROR, es, ctx) else amf_read_array k 0 (be_nat x) ctx es"
      obtain rc y ctx2 where g: "ngx_rtmp_amf_get ctx1 4 = (rc, y, ctx2)" by (metis prod.collapse)
      have l: "left ctx2 \<le> left ctx1" "rc = NGX_OK \<longrightarrow> left ctx2 + 4 = left ctx1" using amf_get_bound [OF g] by simp_all
      have "\<exists>rc es' ctx'. ?f es = Ret (rc, es', ctx') \<and> es_post ctx1 es es' ctx'"
        if es: "elts_ok es" "elts_weight es \<le> data_weight data" for es
      proof (cases "rc = NGX_OK")
        case False
        then show ?thesis using g l es(1) by (simp add: es_post_refl)
      next
        case True
        then have "left ctx2 + (length es - 0) + sum_list (map elt_weight es) + 1 < k"
          using fuel1 [OF es(2)] l(2) by (simp add: elts_weight_def)
        from array_safeD [OF arr es(1) this, of "be_nat y"] obtain rc2 es' ctx' where
          "amf_read_array k 0 (be_nat y) ctx2 es = Ret (rc2, es', ctx')" "es_post ctx2 es es' ctx'" .
        then show ?thesis using g True l(1) by (auto simp: es_post_def)
      qed
      from amf_elts_ok [OF ok rt _ this] show ?thesis using rt 3 by (simp add: compound_def)
    next
      case 4
      let ?f = "\<lambda>es. case ngx_rtmp_amf_get ctx1 1 of (rc, x, ctx) \<Rightarrow>
        if rc \<noteq> NGX_OK then Ret (rc, es, ctx)
        else
          let t = ucast (hd x); n = find_type t es;
              e = (case n of None \<Rightarrow> Amf_elt (t OR NGX_RTMP_AMF_TYPELESS) [] No_data 0
                   | Some n \<Rightarrow> Amf_elt (t OR NGX_RTMP_AMF_TYPELESS) [] (el_data (es ! n)) (el_len (es ! n)))
          in run_bind (amf_one k ctx (Some e)) (\<lambda>(turn, e, ctx).
               Ret (turn_rc turn, upd_elt n (map_option (\<lambda>e. set_el_data (el_data e) (es ! the n)) e) es, ctx))"
      obtain rc y ctx2 where g: "ngx_rtmp_amf_get ctx1 1 = (rc, y, ctx2)" by (metis prod.collapse)
      have l: "left ctx2 \<le> left ctx1" "rc = NGX_OK \<longrightarrow> left ctx2 + 1 = left ctx1" using amf_get_bound [OF g] by simp_all
      have "\<exists>rc es' ctx'. ?f es = Ret (rc, es', ctx') \<and> es_post ctx1 es es' ctx'"
        if es: "elts_ok es" "elts_weight es \<le> data_weight data" for es
      proof (cases "rc = NGX_OK")
        case False
        then show ?thesis using g l es(1) by (simp add: es_post_refl)
      next
        case True
        define n where "n = find_type (ucast (hd y)) es"
        have "left ctx2 + elts_weight es + 1 < k" using True fuel1 [OF es(2)] l(2) by simp
        from variant_step [OF one es(1) this n_def] obtain turn e ctx' where
          r: "amf_one k ctx2 (Some (variant_elt (hd y) n es)) = Ret (turn, e, ctx')"
          "es_post ctx2 es (upd_elt n (map_option (\<lambda>e. set_el_data (el_data e) (es ! the n)) e) es) ctx'" by blast
        have "?f es = Ret (turn_rc turn, upd_elt n (map_option (\<lambda>e. set_el_data (el_data e) (es ! the n)) e) es, ctx')"
          using g True r(1) by (simp add: Let_def n_def [symmetric] variant_elt_def)
        then show ?thesis using r(2) l(1) by (auto simp: es_post_def)
      qed
      from amf_elts_ok [OF ok rt _ this] show ?thesis using rt 4 by (simp add: compound_def)
    next
      case 5
      then have ne: "ty \<noteq> NGX_RTMP_AMF_MIXED_ARRAY" "ty \<noteq> NGX_RTMP_AMF_OBJECT" "ty \<noteq> NGX_RTMP_AMF_ARRAY" "ty \<noteq> NGX_RTMP_AMF_VARIANT0"
        by (simp_all add: compound_def)
      from amf_scalar_ok [OF ok rt] show ?thesis using rt ne by simp
    qed
  qed
qed

lemma amf_all_safe: "one_safe k \<and> object_safe k \<and> array_safe k"
proof (induction k)
  case 0
  show ?case by (simp add: one_safe_def object_safe_def array_safe_def)
next
  case (Suc k)
  then show ?case using one_step object_step array_step by blast
qed

text \<open>
  C12: on any input, \<open>ngx_rtmp_amf_read\<close> comes to an end and stores nothing beyond the memory of its
  elements, when each of them has the memory its type needs; and they still have it afterwards.
\<close>

theorem amf_read_safe:
  assumes "list_all elt_ok es" "length (ax_rest ctx) + sum_list (map elt_weight es) < fuel"
  shows "\<exists>rc es' ctx'. ngx_rtmp_amf_read fuel ctx es = Ret (rc, es', ctx') \<and> list_all elt_ok es' \<and>
    length es' = length es \<and> length (ax_rest ctx') \<le> length (ax_rest ctx)"
  using assms
proof (induction es arbitrary: ctx)
  case (Cons e es)
  have "one_safe fuel" using amf_all_safe by blast
  moreover have "opt_ok (Some e)" "left ctx + opt_weight (Some e) < fuel" using Cons.prems by simp_all
  ultimately obtain turn e' ctx1 where r: "amf_one fuel ctx (Some e) = Ret (turn, e', ctx1)" "one_post ctx (Some e) turn e' ctx1"
    by (rule one_safeD)
  then obtain d where e': "e' = Some (set_el_data d e)" "elt_ok (set_el_data d e)" "left ctx1 \<le> left ctx"
    by (auto simp: one_post_def)
  show ?case
  proof (cases turn)
    case (Stop rc)
    then show ?thesis using r(1) e' Cons.prems by simp
  next
    case Next
    have "left ctx1 + sum_list (map elt_weight es) < fuel" using e'(3) Cons.prems by simp
    with Cons.IH [of ctx1] Cons.prems(1) obtain rc es' ctx' where
      "ngx_rtmp_amf_read fuel ctx1 es = Ret (rc, es', ctx')" "list_all elt_ok es'" "length es' = length es" "left ctx' \<le> left ctx1"
      by auto
    then show ?thesis using Next r(1) e' by simp
  qed
qed simp

text \<open>
  A command: its name, a number, an object of which one string is wanted, and the place of what follows; the
  input has more.
\<close>

definition amf_command :: "amf_elt list" where
  "amf_command = [Amf_elt NGX_RTMP_AMF_STRING [] (Mem (replicate 8 0)) 8, Amf_elt NGX_RTMP_AMF_NUMBER [] (Mem (replicate 8 0)) 0,
     Amf_elt NGX_RTMP_AMF_OBJECT [] (Elts [Amf_elt NGX_RTMP_AMF_STRING [97] (Mem (replicate 4 0)) 4]) 40,
     Amf_elt 0x4005 [] (Saved None) 0]"

definition amf_input :: bytes where
  "amf_input = [2, 0, 3, 112, 117, 98, 0, 0x3f, 0xf0, 0, 0, 0, 0, 0, 0, 3, 0, 1, 97, 2, 0, 5, 1, 2, 3, 4, 5, 0, 2, 98, 99, 5, 0, 0, 9, 5]"

theorem amf_read_safe_witness:
  "\<exists>es ctx. ngx_rtmp_amf_read 100 \<lparr>ax_link = [\<lparr>b_mem = amf_input, b_pos = 0, b_last = 36\<rparr>], ax_offset = 0\<rparr> amf_command =
      Ret (NGX_OK, es, ctx) \<and> list_all elt_ok es \<and> el_data (es ! 0) = Mem [112, 117, 98, 0, 0, 0, 0, 0] \<and>
      (\<exists>c. el_data (es ! 3) = Saved (Some c) \<and> ax_offset c = 36)"
proof -
  let ?ctx = "\<lparr>ax_link = [\<lparr>b_mem = amf_input, b_pos = 0, b_last = 36\<rparr>], ax_offset = 0\<rparr>"
  have ok: "list_all elt_ok amf_command"
    by (simp add: amf_command_def used_types_def wants_ctx_def fits_mem_def compound_def stores_def elt_size_def Let_def)
  have "length (ax_rest ?ctx) + sum_list (map elt_weight amf_command) < 100"
    by (simp add: ax_rest_def amf_input_def amf_command_def buf_content_def)
  from amf_read_safe [OF ok this] obtain rc es ctx where
    r: "ngx_rtmp_amf_read 100 ?ctx amf_command = Ret (rc, es, ctx)" "list_all elt_ok es" by blast
  have "case ngx_rtmp_amf_read 100 ?ctx amf_command of Ret (rc, es, _) \<Rightarrow>
    rc = NGX_OK \<and> el_data (es ! 0) = Mem [112, 117, 98, 0, 0, 0, 0, 0] \<and>
    (case el_data (es ! 3) of Saved (Some c) \<Rightarrow> ax_offset c = 36 | _ \<Rightarrow> False) | _ \<Rightarrow> False"
    by code_simp
  then show ?thesis using r by (auto split: amf_data.splits option.splits)
qed

end
