(* ===== verification/Rtmp_Amf_Write.thy ===== *)
theory Rtmp_Amf_Write
  imports Rtmp_Amf Rtmp_Shared
begin

text \<open>
  Writing AMF (ngx\_rtmp\_amf.c): \<open>ngx_rtmp_amf_put\<close> appends to a chain of buffers that \<open>ctx->alloc\<close>
  provides, \<open>ngx_rtmp_amf_write\<close> writes the values of elements.  The abstract side is a type of values with
  their encoding; when the elements describe values, the writer appends their encodings, across
  the buffers as they come.
\<close>

section \<open>Writing bytes\<close>

text \<open>
  The writing half of \<open>ngx_rtmp_amf_ctx_t\<close>: the chain from \<open>ctx->first\<close> to \<open>ctx->link\<close>, and the allocator
  with its state \<open>ctx->arg\<close>.
\<close>

record 'a amf_out =
  ao_bufs :: chain
  ao_arg :: 'a

type_synonym 'a amf_alloc = "'a \<Rightarrow> buf option \<times> 'a"

fun amf_put_loop :: "nat \<Rightarrow> 'a amf_alloc \<Rightarrow> 'a amf_out \<Rightarrow> bytes \<Rightarrow> (ngx_rc \<times> 'a amf_out) run" where
  "amf_put_loop 0 alloc out x = Out_of_fuel"
| "amf_put_loop (Suc k) alloc out x =
     (if x = [] then Ret (NGX_OK, out)
      else if ao_bufs out = [] \<or> b_last (last (ao_bufs out)) = length (b_mem (last (ao_bufs out))) then
        (case alloc (ao_arg out) of
           (None, a) \<Rightarrow> Ret (NGX_ERROR, out\<lparr>ao_arg := a\<rparr>)
         | (Some b, a) \<Rightarrow>
             if buf_room b \<ge> length x
             then Ret (NGX_OK, out\<lparr>ao_arg := a, ao_bufs := ao_bufs out @ [buf_write b x]\<rparr>)
             else amf_put_loop k alloc
               (out\<lparr>ao_arg := a, ao_bufs := ao_bufs out @ [buf_write b (take (buf_room b) x)]\<rparr>) (drop (buf_room b) x))
      else
        let b = last (ao_bufs out)
        in if buf_room b \<ge> length x then Ret (NGX_OK, out\<lparr>ao_bufs := butlast (ao_bufs out) @ [buf_write b x]\<rparr>)
           else amf_put_loop k alloc (out\<lparr>ao_bufs := butlast (ao_bufs out) @ [buf_write b (take (buf_room b) x)]\<rparr>)
             (drop (buf_room b) x))"

text \<open>
  With fuel for each byte and two turns more; it is enough for an allocator whose buffers have room, as
  those of \<open>ngx_rtmp_alloc_shared_buf\<close> have.  (With empty buffers the loop asks for one after the other.)
\<close>

definition ngx_rtmp_amf_put :: "'a amf_alloc \<Rightarrow> 'a amf_out \<Rightarrow> bytes \<Rightarrow> (ngx_rc \<times> 'a amf_out) run" where
  "ngx_rtmp_amf_put alloc out x = amf_put_loop (length x + 2) alloc out x"

text \<open>The first \<open>n\<close> bytes at \<open>data\<close>.\<close>

fun amf_load :: "amf_data \<Rightarrow> nat \<Rightarrow> bytes run" where
  "amf_load (Mem m) n = (if n \<le> length m then Ret (take n m) else Fault)"
| "amf_load d n = (if n = 0 then Ret [] else Fault)"

definition amf_put_data ::
    "'a amf_alloc \<Rightarrow> 'a amf_out \<Rightarrow> amf_data \<Rightarrow> nat \<Rightarrow> (bytes \<Rightarrow> bytes) \<Rightarrow> (ngx_rc \<times> 'a amf_out) run" where
  "amf_put_data alloc out data n f = run_bind (amf_load data n) (\<lambda>x. ngx_rtmp_amf_put alloc out (f x))"

text \<open>One write after the other, until one fails.\<close>

definition amf_then ::
    "(ngx_rc \<times> 'a amf_out) run \<Rightarrow> ('a amf_out \<Rightarrow> (ngx_rc \<times> 'a amf_out) run) \<Rightarrow> (ngx_rc \<times> 'a amf_out) run" where
  "amf_then r f = run_bind r (\<lambda>(rc, out). if rc \<noteq> NGX_OK then Ret (NGX_ERROR, out) else f out)"

text \<open>The number of bytes of a string: \<open>ngx_strlen\<close> when the length is 0.\<close>

definition amf_string_len :: "amf_data \<Rightarrow> nat \<Rightarrow> nat run" where
  "amf_string_len data len =
     (if len = 0 \<and> data \<noteq> No_data
      then case data of Mem m \<Rightarrow> if 0 \<in> set m then Ret (length (takeWhile (\<lambda>c. c \<noteq> 0) m) mod 65536) else Fault
           | _ \<Rightarrow> Fault
      else Ret len)"

definition amf_write_scalar :: "'a amf_alloc \<Rightarrow> 'a amf_out \<Rightarrow> u32 \<Rightarrow> amf_data \<Rightarrow> nat \<Rightarrow> (ngx_rc \<times> 'a amf_out) run" where
  "amf_write_scalar alloc out type data len =
     (if type = NGX_RTMP_AMF_NUMBER then amf_put_data alloc out data 8 rev
      else if type = NGX_RTMP_AMF_BOOLEAN then amf_put_data alloc out data 1 id
      else if type = NGX_RTMP_AMF_STRING then
        run_bind (amf_string_len data len) (\<lambda>len.
          amf_then (ngx_rtmp_amf_put alloc out (enc_nat 2 len)) (\<lambda>out. amf_put_data alloc out data len id))
      else if type = NGX_RTMP_AMF_NULL \<or> type = NGX_RTMP_AMF_ARRAY_NULL then Ret (NGX_OK, out)
      else if type = NGX_RTMP_AMF_INT8 then amf_put_data alloc out data 1 id
      else if type = NGX_RTMP_AMF_INT16 then amf_put_data alloc out data 2 rev
      else if type = NGX_RTMP_AMF_INT32 then amf_put_data alloc out data 4 rev
      else Ret (NGX_ERROR, out))"

fun amf_write_one :: "nat \<Rightarrow> 'a amf_alloc \<Rightarrow> 'a amf_out \<Rightarrow> amf_elt \<Rightarrow> (ngx_rc \<times> 'a amf_out) run"
  and amf_write_object :: "nat \<Rightarrow> 'a amf_alloc \<Rightarrow> 'a amf_out \<Rightarrow> amf_elt list \<Rightarrow> (ngx_rc \<times> 'a amf_out) run"
  and amf_write_elts :: "nat \<Rightarrow> 'a amf_alloc \<Rightarrow> 'a amf_out \<Rightarrow> amf_elt list \<Rightarrow> (ngx_rc \<times> 'a amf_out) run" where
  "amf_write_one 0 alloc out e = Out_of_fuel"
| "amf_write_one (Suc k) alloc out e =
     (let typeless = (el_type e AND NGX_RTMP_AMF_TYPELESS \<noteq> 0);
          type = (if typeless then el_type e AND NOT NGX_RTMP_AMF_TYPELESS else el_type e)
      in amf_then (if typeless then Ret (NGX_OK, out) else ngx_rtmp_amf_put alloc out [ucast type]) (\<lambda>out.
           if type = NGX_RTMP_AMF_MIXED_ARRAY \<or> type = NGX_RTMP_AMF_OBJECT then
             amf_then (if type = NGX_RTMP_AMF_MIXED_ARRAY then ngx_rtmp_amf_put alloc out [0, 0, 0, 0] else Ret (NGX_OK, out)) (\<lambda>out.
               run_bind (sub_elts (el_data e) (el_len e)) (\<lambda>es.
                 amf_then (amf_write_object k alloc out es) (\<lambda>out. ngx_rtmp_amf_put alloc out [ucast NGX_RTMP_AMF_END])))
           else if type = NGX_RTMP_AMF_ARRAY then
             run_bind (sub_elts (el_data e) (el_len e)) (\<lambda>es.
               amf_then (ngx_rtmp_amf_put alloc out (enc_nat 4 (length es))) (\<lambda>out. amf_write_elts k alloc out es))
           else amf_write_scalar alloc out type (el_data e) (el_len e mod 65536)))"
| "amf_write_object 0 alloc out es = Out_of_fuel"
| "amf_write_object (Suc k) alloc out [] = ngx_rtmp_amf_put alloc out [0, 0]"
| "amf_write_object (Suc k) alloc out (e # es) =
     (let len = length (el_name e) mod 65536
      in amf_then (ngx_rtmp_amf_put alloc out (enc_nat 2 len)) (\<lambda>out.
         amf_then (ngx_rtmp_amf_put alloc out (take len (el_name e))) (\<lambda>out.
         amf_then (amf_write_one k alloc out e) (\<lambda>out. amf_write_object k alloc out es))))"
| "amf_write_elts 0 alloc out es = Out_of_fuel"
| "amf_write_elts (Suc k) alloc out [] = Ret (NGX_OK, out)"
| "amf_write_elts (Suc k) alloc out (e # es) =
     amf_then (amf_write_one k alloc out e) (\<lambda>out. amf_write_elts k alloc out es)"

definition ngx_rtmp_amf_write :: "nat \<Rightarrow> 'a amf_alloc \<Rightarrow> 'a amf_out \<Rightarrow> amf_elt list \<Rightarrow> (ngx_rc \<times> 'a amf_out) run" where
  "ngx_rtmp_amf_write fuel alloc out es = amf_write_elts fuel alloc out es"

section \<open>Values\<close>

datatype amf_val =
    Num bytes | Bool byte | Str bytes | Null | Undef
  | Obj "(bytes \<times> amf_val) list" | Mixed "(bytes \<times> amf_val) list" | Arr "amf_val list"

fun enc_val :: "amf_val \<Rightarrow> bytes" where
  "enc_val (Num x) = 0 # rev x"
| "enc_val (Bool b) = [1, b]"
| "enc_val (Str s) = 2 # enc_nat 2 (length s) @ s"
| "enc_val Null = [5]"
| "enc_val Undef = [6]"
| "enc_val (Obj fs) = 3 # concat (map (\<lambda>(n, v). enc_nat 2 (length n) @ n @ enc_val v) fs) @ [0, 0, 9]"
| "enc_val (Mixed fs) = 8 # [0, 0, 0, 0] @ concat (map (\<lambda>(n, v). enc_nat 2 (length n) @ n @ enc_val v) fs) @ [0, 0, 9]"
| "enc_val (Arr vs) = 10 # enc_nat 4 (length vs) @ concat (map enc_val vs)"

text \<open>Numbers have eight bytes, names are not empty, lengths fit into their fields.\<close>

fun wf_val :: "amf_val \<Rightarrow> bool" where
  "wf_val (Num x) \<longleftrightarrow> length x = 8"
| "wf_val (Bool b) \<longleftrightarrow> True"
| "wf_val (Str s) \<longleftrightarrow> length s < 65536"
| "wf_val Null \<longleftrightarrow> True"
| "wf_val Undef \<longleftrightarrow> True"
| "wf_val (Obj fs) \<longleftrightarrow> (\<forall>(n, v) \<in> set fs. n \<noteq> [] \<and> length n < 65536 \<and> wf_val v)"
| "wf_val (Mixed fs) \<longleftrightarrow> (\<forall>(n, v) \<in> set fs. n \<noteq> [] \<and> length n < 65536 \<and> wf_val v)"
| "wf_val (Arr vs) \<longleftrightarrow> length vs < 2 ^ 32 \<and> (\<forall>v \<in> set vs. wf_val v)"

text \<open>The element describes the value.\<close>

fun describes :: "amf_val \<Rightarrow> amf_elt \<Rightarrow> bool" where
  "describes (Num x) e \<longleftrightarrow> el_type e = NGX_RTMP_AMF_NUMBER \<and> amf_load (el_data e) 8 = Ret x"
| "describes (Bool b) e \<longleftrightarrow> el_type e = NGX_RTMP_AMF_BOOLEAN \<and> amf_load (el_data e) 1 = Ret [b]"
| "describes (Str s) e \<longleftrightarrow> el_type e = NGX_RTMP_AMF_STRING \<and>
     amf_string_len (el_data e) (el_len e mod 65536) = Ret (length s) \<and> amf_load (el_data e) (length s) = Ret s"
| "describes Null e \<longleftrightarrow> el_type e = NGX_RTMP_AMF_NULL"
| "describes Undef e \<longleftrightarrow> el_type e = NGX_RTMP_AMF_ARRAY_NULL"
| "describes (Obj fs) e \<longleftrightarrow> el_type e = NGX_RTMP_AMF_OBJECT \<and> (\<exists>es. sub_elts (el_data e) (el_len e) = Ret es \<and>
     list_all2 (\<lambda>f e. fst f = el_name e \<and> describes (snd f) e) fs es)"
| "describes (Mixed fs) e \<longleftrightarrow> el_type e = NGX_RTMP_AMF_MIXED_ARRAY \<and> (\<exists>es. sub_elts (el_data e) (el_len e) = Ret es \<and>
     list_all2 (\<lambda>f e. fst f = el_name e \<and> describes (snd f) e) fs es)"
| "describes (Arr vs) e \<longleftrightarrow> el_type e = NGX_RTMP_AMF_ARRAY \<and> (\<exists>es. sub_elts (el_data e) (el_len e) = Ret es \<and>
     list_all2 describes vs es)"

section \<open>What is written\<close>

text \<open>
  What the writer asks of \<open>ctx->alloc\<close>: as long as its state is in order it provides an empty shared buffer
  with room for a chunk.
\<close>

locale amf_sink =
  fixes alloc :: "'a amf_alloc" and inv :: "'a \<Rightarrow> bool" and cs :: "'a \<Rightarrow> nat"
  assumes alloc_gives: "inv a \<Longrightarrow>
      \<exists>b a'. alloc a = (Some b, a') \<and> shared_buf (cs a) b \<and> buf_content b = [] \<and> inv a' \<and> cs a' = cs a"
    and cs_pos: "inv a \<Longrightarrow> 0 < cs a"
begin

text \<open>The chain is cut into whole chunks, and \<open>x\<close> has been written to it.\<close>

definition good :: "'a amf_out \<Rightarrow> bool" where
  "good out \<longleftrightarrow> inv (ao_arg out) \<and> chunked (cs (ao_arg out)) (ao_bufs out) \<and>
     (ao_bufs out \<noteq> [] \<longrightarrow> buf_content (last (ao_bufs out)) \<noteq> [])"

definition wrote :: "(ngx_rc \<times> 'a amf_out) run \<Rightarrow> 'a amf_out \<Rightarrow> bytes \<Rightarrow> bool" where
  "wrote r out x \<longleftrightarrow> (\<exists>out'. r = Ret (NGX_OK, out') \<and> good out' \<and> cs (ao_arg out') = cs (ao_arg out) \<and>
     flat (ao_bufs out') = flat (ao_bufs out) @ x)"

lemma put_step:
  assumes b: "shared_buf (cs (ao_arg o1)) b" "0 < buf_room b" "list_all (shared_buf (cs (ao_arg o1))) cl" "list_all buf_full cl"
    and o1: "inv (ao_arg o1)" "cs (ao_arg o1) = cs (ao_arg out)" "flat cl @ buf_content b = flat (ao_bufs out)" and x: "x \<noteq> []"
    and rest: "\<And>o1. good o1 \<Longrightarrow> wrote (f o1) o1 (drop (buf_room b) x)"
  shows "wrote (if buf_room b \<ge> length x then Ret (NGX_OK, o1\<lparr>ao_bufs := cl @ [buf_write b x]\<rparr>)
      else f (o1\<lparr>ao_bufs := cl @ [buf_write b (take (buf_room b) x)]\<rparr>)) out x"
proof -
  have ok: "good (o1\<lparr>ao_bufs := cl @ [buf_write b y]\<rparr>)" "flat (cl @ [buf_write b y]) = flat (ao_bufs out) @ y"
    if y: "length y \<le> buf_room b" "y \<noteq> []" for y
  proof -
    have c: "buf_content (buf_write b y) = buf_content b @ y" by (rule shared_buf_content_write [OF b(1) y(1)])
    show "good (o1\<lparr>ao_bufs := cl @ [buf_write b y]\<rparr>)"
      using shared_buf_write [OF b(1) y(1)] b(3,4) o1(1) y(2) c by (simp add: good_def chunked_snoc)
    show "flat (cl @ [buf_write b y]) = flat (ao_bufs out) @ y" using c by (simp flip: o1(3))
  qed
  show ?thesis
  proof (cases "buf_room b \<ge> length x")
    case True
    then show ?thesis using ok [OF True x] o1(2) by (simp add: wrote_def)
  next
    case False
    let ?y = "take (buf_room b) x"
    have y: "length ?y \<le> buf_room b" "?y \<noteq> []" using b(2) x by simp_all
    show ?thesis using rest [OF ok(1) [OF y]] ok(2) [OF y] False o1(2)
      by (simp add: wrote_def) (metis append.assoc append_take_drop_id)
  qed
qed

lemma put_loop_wrote: "good out \<Longrightarrow> length x < fuel \<Longrightarrow> wrote (amf_put_loop fuel alloc out x) out x"
proof (induction fuel arbitrary: out x)
  case (Suc k)
  note g = Suc.prems(1) [unfolded good_def]
  show ?case
  proof (cases "x = []")
    case True
    then show ?thesis using Suc.prems by (simp add: wrote_def)
  next
    case x: False
    have rest: "wrote (amf_put_loop k alloc o1 (drop (buf_room b) x)) o1 (drop (buf_room b) x)"
      if "good o1" "0 < buf_room b" for b o1
      using Suc.IH [OF that(1), of "drop (buf_room b) x"] that(2) x Suc.prems(2)
      by (simp del: length_greater_0_conv add: length_greater_0_conv [symmetric])
    show ?thesis
    proof (cases "ao_bufs out = [] \<or> buf_full (last (ao_bufs out))")
      case True
      obtain b a where b: "alloc (ao_arg out) = (Some b, a)" "shared_buf (cs (ao_arg out)) b" "buf_content b = []" "inv a"
        "cs a = cs (ao_arg out)" using alloc_gives g by blast
      have room: "0 < buf_room b"
      proof -
        have "b_last b = b_pos b" using b(2,3) by (auto simp: shared_buf_def buf_content_def)
        then show ?thesis using b(2) cs_pos g by (auto simp: shared_buf_def)
      qed
      have "list_all buf_full (ao_bufs out)"
        using True g by (cases "ao_bufs out" rule: rev_cases) (auto simp: chunked_def)
      then show ?thesis
        using put_step [of "out\<lparr>ao_arg := a\<rparr>" b "ao_bufs out" out x "\<lambda>o1. amf_put_loop k alloc o1 (drop (buf_room b) x)"]
          b room g rest True x by (simp add: chunked_def)
    next
      case False
      then obtain cl b where cl: "ao_bufs out = cl @ [b]" by (cases "ao_bufs out" rule: rev_cases) auto
      have ok: "shared_buf (cs (ao_arg out)) b" "list_all (shared_buf (cs (ao_arg out))) cl" "list_all buf_full cl"
        using g cl by (simp_all add: chunked_snoc)
      have room: "0 < buf_room b" using False cl ok(1) by (auto simp: shared_buf_def)
      have "flat cl @ buf_content b = flat (ao_bufs out)" using cl by simp
      then have "wrote (if buf_room b \<ge> length x then Ret (NGX_OK, out\<lparr>ao_bufs := cl @ [buf_write b x]\<rparr>)
        else amf_put_loop k alloc (out\<lparr>ao_bufs := cl @ [buf_write b (take (buf_room b) x)]\<rparr>) (drop (buf_room b) x)) out x"
        using put_step [OF ok(1) room ok(2,3), of out x "\<lambda>o1. amf_put_loop k alloc o1 (drop (buf_room b) x)"] g rest room x by simp
      moreover have "last (ao_bufs out) = b" "butlast (ao_bufs out) = cl" using cl by simp_all
      ultimately show ?thesis unfolding amf_put_loop.simps using False x by (simp only: Let_def if_False)
    qed
  qed
qed simp

lemma put_wrote: "good out \<Longrightarrow> wrote (ngx_rtmp_amf_put alloc out x) out x"
  unfolding ngx_rtmp_amf_put_def by (rule put_loop_wrote) simp_all

lemma then_wrote:
  assumes "wrote r out x" "\<And>out'. good out' \<Longrightarrow> wrote (f out') out' y"
  shows "wrote (amf_then r f) out (x @ y)"
  using assms by (fastforce simp: wrote_def amf_then_def)

lemma wrote_nothing: "good out \<Longrightarrow> wrote (Ret (NGX_OK, out)) out []"
  by (simp add: wrote_def)

lemma enc_val_nonempty: "0 < length (enc_val v)"
  by (cases v) simp_all

lemma write_fields:
  assumes ok: "good out"
    and l: "list_all2 (\<lambda>f e. fst f = el_name e \<and> describes (snd f) e) fs es"
    and wf: "\<forall>(n, v) \<in> set fs. n \<noteq> [] \<and> length n < 65536 \<and> wf_val v"
    and one: "\<And>n v e k out. (n, v) \<in> set fs \<Longrightarrow> describes v e \<Longrightarrow> length (enc_val v) < k \<Longrightarrow> good out \<Longrightarrow>
      wrote (amf_write_one k alloc out e) out (enc_val v)"
    and k: "length (concat (map (\<lambda>(n, v). enc_nat 2 (length n) @ n @ enc_val v) fs)) < k"
  shows "wrote (amf_write_object k alloc out es) out (concat (map (\<lambda>(n, v). enc_nat 2 (length n) @ n @ enc_val v) fs) @ [0, 0])"
  using l wf one k ok
proof (induction fs es arbitrary: k out rule: list_all2_induct)
  case Nil
  then show ?case using put_wrote by (cases k) simp_all
next
  case (Cons f fs e es)
  obtain n v where f: "f = (n, v)" by (cases f)
  obtain k' where k': "k = Suc k'" using Cons.prems(3) by (cases k) auto
  have n: "el_name e = n" "length n < 65536" "describes v e" using Cons.hyps(1) Cons.prems(1) f by auto
  have one': "wrote (amf_write_one k' alloc out e) out (enc_val v)" if "good out" for out
    using Cons.prems(2) [of n v e k' out] n(3) Cons.prems(3) that f k' by simp
  have rest: "wrote (amf_write_object k' alloc out es) out (concat (map (\<lambda>(n, v). enc_nat 2 (length n) @ n @ enc_val v) fs) @ [0, 0])"
    if "good out" for out
  proof (rule Cons.IH [OF _ _ _ that])
    show "\<forall>(n, v) \<in> set fs. n \<noteq> [] \<and> length n < 65536 \<and> wf_val v" using Cons.prems(1) by simp
    show "wrote (amf_write_one k alloc out e) out (enc_val v)"
      if "(n, v) \<in> set fs" "describes v e" "length (enc_val v) < k" "good out" for n v e k out
      using Cons.prems(2) [of n v e k out] that by simp
    show "length (concat (map (\<lambda>(n, v). enc_nat 2 (length n) @ n @ enc_val v) fs)) < k'"
      using Cons.prems(3) f k' enc_val_nonempty [of v] by simp
  qed
  have "wrote (amf_write_object (Suc k') alloc out (e # es)) out (enc_nat 2 (length n) @ n @ enc_val v @
      concat (map (\<lambda>(n, v). enc_nat 2 (length n) @ n @ enc_val v) fs) @ [0, 0])"
    unfolding amf_write_object.simps Let_def n(1)
    using n(2) by (auto intro!: then_wrote put_wrote one' rest Cons.prems(4))
  then show ?case using f k' by simp
qed


lemma write_elts_wrote:
  assumes l: "list_all2 describes vs es" and ok: "good out"
    and one: "\<And>v e k out. v \<in> set vs \<Longrightarrow> describes v e \<Longrightarrow> length (enc_val v) < k \<Longrightarrow> good out \<Longrightarrow>
      wrote (amf_write_one k alloc out e) out (enc_val v)"
    and k: "length (concat (map enc_val vs)) + 1 < k"
  shows "wrote (amf_write_elts k alloc out es) out (concat (map enc_val vs))"
  using l one k ok
proof (induction vs es arbitrary: k out rule: list_all2_induct)
  case Nil
  then show ?case by (cases k) (simp_all add: wrote_nothing)
next
  case (Cons v vs e es)
  obtain k' where k': "k = Suc k'" using Cons.prems(2) by (cases k) auto
  have one': "wrote (amf_write_one k' alloc out e) out (enc_val v)" if "good out" for out
    using Cons.prems(1) [of v e k' out] Cons.hyps(1) Cons.prems(2) that k' by simp
  have rest: "wrote (amf_write_elts k' alloc out es) out (concat (map enc_val vs))" if "good out" for out
  proof (rule Cons.IH [OF _ _ that])
    show "wrote (amf_write_one k alloc out e) out (enc_val v)"
      if "v \<in> set vs" "describes v e" "length (enc_val v) < k" "good out" for v e k out
      using Cons.prems(1) [of v e k out] that by simp
    show "length (concat (map enc_val vs)) + 1 < k'"
      using Cons.prems(2) k' enc_val_nonempty [of v] by (simp del: length_greater_0_conv)
  qed
  have "wrote (amf_write_elts (Suc k') alloc out (e # es)) out (enc_val v @ concat (map enc_val vs))"
    unfolding amf_write_elts.simps by (intro then_wrote one' rest Cons.prems(3))
  then show ?case using k' by simp
qed

lemma typed_bits:
  "NGX_RTMP_AMF_NUMBER AND NGX_RTMP_AMF_TYPELESS = 0" "NGX_RTMP_AMF_BOOLEAN AND NGX_RTMP_AMF_TYPELESS = 0"
  "NGX_RTMP_AMF_STRING AND NGX_RTMP_AMF_TYPELESS = 0" "NGX_RTMP_AMF_NULL AND NGX_RTMP_AMF_TYPELESS = 0"
  "NGX_RTMP_AMF_ARRAY_NULL AND NGX_RTMP_AMF_TYPELESS = 0" "NGX_RTMP_AMF_OBJECT AND NGX_RTMP_AMF_TYPELESS = 0"
  "NGX_RTMP_AMF_MIXED_ARRAY AND NGX_RTMP_AMF_TYPELESS = 0" "NGX_RTMP_AMF_ARRAY AND NGX_RTMP_AMF_TYPELESS = 0"
  by simp_all

lemma put_data_wrote:
  "good out \<Longrightarrow> amf_load d n = Ret x \<Longrightarrow> wrote (amf_put_data alloc out d n f) out (f x)"
  by (simp add: amf_put_data_def put_wrote)

text \<open>The type of an element that is not typeless, and what follows.\<close>

lemma write_typed:
  assumes ok: "good out"
    and t: "el_type e AND NGX_RTMP_AMF_TYPELESS = 0"
    and tail: "\<And>out. good out \<Longrightarrow> wrote (
        if el_type e = NGX_RTMP_AMF_MIXED_ARRAY \<or> el_type e = NGX_RTMP_AMF_OBJECT then
             amf_then (if el_type e = NGX_RTMP_AMF_MIXED_ARRAY then ngx_rtmp_amf_put alloc out [0, 0, 0, 0] else Ret (NGX_OK, out)) (\<lambda>out.
               run_bind (sub_elts (el_data e) (el_len e)) (\<lambda>es.
                 amf_then (amf_write_object k alloc out es) (\<lambda>out. ngx_rtmp_amf_put alloc out [ucast NGX_RTMP_AMF_END])))
           else if el_type e = NGX_RTMP_AMF_ARRAY then
             run_bind (sub_elts (el_data e) (el_len e)) (\<lambda>es.
               amf_then (ngx_rtmp_amf_put alloc out (enc_nat 4 (length es))) (\<lambda>out. amf_write_elts k alloc out es))
           else amf_write_scalar alloc out (el_type e) (el_data e) (el_len e mod 65536)) out x"
  shows "wrote (amf_write_one (Suc k) alloc out e) out (ucast (el_type e) # x)"
  using then_wrote [OF put_wrote [OF ok, of "[ucast (el_type e)]"] tail] t
  unfolding amf_write_one.simps Let_def by simp


lemma write_scalar_wrote:
  assumes ok: "good out"
    and t: "el_type e \<in> {NGX_RTMP_AMF_NUMBER, NGX_RTMP_AMF_BOOLEAN, NGX_RTMP_AMF_STRING, NGX_RTMP_AMF_NULL, NGX_RTMP_AMF_ARRAY_NULL}"
    and tail: "\<And>out. good out \<Longrightarrow> wrote (amf_write_scalar alloc out (el_type e) (el_data e) (el_len e mod 65536)) out x"
  shows "wrote (amf_write_one (Suc k) alloc out e) out (ucast (el_type e) # x)"
  by (rule write_typed [OF ok]) (use t tail in auto)

lemma write_one_wrote:
  shows "wf_val v \<Longrightarrow> describes v e \<Longrightarrow> length (enc_val v) < k \<Longrightarrow> good out \<Longrightarrow>
    wrote (amf_write_one k alloc out e) out (enc_val v)"
proof (induction v arbitrary: e k out)
  case (Num x)
  then obtain k' where k: "k = Suc k'" by (cases k) auto
  have "wrote (amf_write_one (Suc k') alloc out e) out (ucast (el_type e) # rev x)"
    by (rule write_scalar_wrote [OF Num.prems(4)]) (use Num.prems put_data_wrote in \<open>auto simp: amf_write_scalar_def\<close>)
  then show ?case using Num.prems k by simp
next
  case (Bool b)
  then obtain k' where k: "k = Suc k'" by (cases k) auto
  have "wrote (amf_write_one (Suc k') alloc out e) out (ucast (el_type e) # [b])"
    by (rule write_scalar_wrote [OF Bool.prems(4)])
      (use Bool.prems put_data_wrote [where f = id] in \<open>auto simp: amf_write_scalar_def\<close>)
  then show ?case using Bool.prems k by simp
next
  case (Str s)
  then obtain k' where k: "k = Suc k'" by (cases k) auto
  have "wrote (amf_write_scalar alloc out (el_type e) (el_data e) (el_len e mod 65536)) out (enc_nat 2 (length s) @ s)"
    if "good out" for out
    using Str.prems put_data_wrote [where f = id]
    by (auto simp: amf_write_scalar_def intro!: then_wrote put_wrote [OF that])
  then have "wrote (amf_write_one (Suc k') alloc out e) out (ucast (el_type e) # enc_nat 2 (length s) @ s)"
    by (intro write_scalar_wrote [OF Str.prems(4)]) (use Str.prems in auto)
  then show ?case using Str.prems k by simp
next
  case Null
  then obtain k' where k: "k = Suc k'" by (cases k) auto
  have "wrote (amf_write_one (Suc k') alloc out e) out (ucast (el_type e) # [])"
    by (rule write_scalar_wrote [OF Null.prems(4)]) (use Null.prems in \<open>auto simp: amf_write_scalar_def wrote_nothing\<close>)
  then show ?case using Null.prems k by simp
next
  case Undef
  then obtain k' where k: "k = Suc k'" by (cases k) auto
  have "wrote (amf_write_one (Suc k') alloc out e) out (ucast (el_type e) # [])"
    by (rule write_scalar_wrote [OF Undef.prems(4)]) (use Undef.prems in \<open>auto simp: amf_write_scalar_def wrote_nothing\<close>)
  then show ?case using Undef.prems k by simp
next
  case (Obj fs)
  obtain k' where k: "k = Suc k'" using Obj.prems(3) by (cases k) auto
  let ?x = "concat (map (\<lambda>(n, v). enc_nat 2 (length n) @ n @ enc_val v) fs)"
  obtain es where es: "el_type e = NGX_RTMP_AMF_OBJECT" "sub_elts (el_data e) (el_len e) = Ret es"
    "list_all2 (\<lambda>f e. fst f = el_name e \<and> describes (snd f) e) fs es" using Obj.prems(2) by auto
  have wf: "\<forall>(n, v) \<in> set fs. n \<noteq> [] \<and> length n < 65536 \<and> wf_val v" using Obj.prems(1) by simp
  have one: "wrote (amf_write_one k alloc out e) out (enc_val v)"
    if "(n, v) \<in> set fs" "describes v e" "length (enc_val v) < k" "good out" for n v e k out
    using Obj.IH [OF that(1), of v e k out] that wf by fastforce
  have x: "wrote (amf_write_object k' alloc out es) out (?x @ [0, 0])" if "good out" for out
    using write_fields [OF that es(3) wf one] Obj.prems(3) k by simp
  have "wrote (amf_write_one (Suc k') alloc out e) out (ucast (el_type e) # (?x @ [0, 0]) @ [9])"
    using es(1,2) then_wrote [OF x put_wrote [of _ "[9]"]]
    by (intro write_typed [OF Obj.prems(4)]) (simp_all add: amf_then_def)
  then show ?case using es(1) k by simp
next
  case (Mixed fs)
  obtain k' where k: "k = Suc k'" using Mixed.prems(3) by (cases k) auto
  let ?x = "concat (map (\<lambda>(n, v). enc_nat 2 (length n) @ n @ enc_val v) fs)"
  obtain es where es: "el_type e = NGX_RTMP_AMF_MIXED_ARRAY" "sub_elts (el_data e) (el_len e) = Ret es"
    "list_all2 (\<lambda>f e. fst f = el_name e \<and> describes (snd f) e) fs es" using Mixed.prems(2) by auto
  have wf: "\<forall>(n, v) \<in> set fs. n \<noteq> [] \<and> length n < 65536 \<and> wf_val v" using Mixed.prems(1) by simp
  have one: "wrote (amf_write_one k alloc out e) out (enc_val v)"
    if "(n, v) \<in> set fs" "describes v e" "length (enc_val v) < k" "good out" for n v e k out
    using Mixed.IH [OF that(1), of v e k out] that wf by fastforce
  have x: "wrote (amf_write_object k' alloc out es) out (?x @ [0, 0])" if "good out" for out
    using write_fields [OF that es(3) wf one] Mixed.prems(3) k by simp
  have y: "wrote (amf_then (amf_write_object k' alloc out es) (\<lambda>out. ngx_rtmp_amf_put alloc out [9])) out ((?x @ [0, 0]) @ [9])"
    if "good out" for out
    by (rule then_wrote [OF x [OF that] put_wrote])
  have "wrote (amf_write_one (Suc k') alloc out e) out (ucast (el_type e) # [0, 0, 0, 0] @ (?x @ [0, 0]) @ [9])"
    by (rule write_typed [OF Mixed.prems(4)])
      (use es(1,2) then_wrote [OF put_wrote [of _ "[0, 0, 0, 0]"] y] in simp_all)
  then show ?case using es(1) k by simp
next
  case (Arr vs)
  obtain k' where k: "k = Suc k'" using Arr.prems(3) by (cases k) auto
  obtain es where es: "el_type e = NGX_RTMP_AMF_ARRAY" "sub_elts (el_data e) (el_len e) = Ret es" "list_all2 describes vs es"
    using Arr.prems(2) by auto
  have one: "wrote (amf_write_one k alloc out e) out (enc_val v)"
    if "v \<in> set vs" "describes v e" "length (enc_val v) < k" "good out" for v e k out
    using Arr.IH [OF that(1)] that Arr.prems(1) by simp
  have x: "wrote (amf_write_elts k' alloc out es) out (concat (map enc_val vs))" if "good out" for out
    using write_elts_wrote [OF es(3) that one] Arr.prems(3) k by simp
  have "wrote (amf_write_one (Suc k') alloc out e) out (ucast (el_type e) # enc_nat 4 (length es) @ concat (map enc_val vs))"
    by (rule write_typed [OF Arr.prems(4)]) (use es(1,2) then_wrote [OF put_wrote [of _ "enc_nat 4 (length es)"] x] in simp_all)
  then show ?case using es(1) list_all2_lengthD [OF es(3)] k by simp
qed


end

section \<open>The shared buffers as a sink\<close>

text \<open>\<open>ngx_rtmp_alloc_amf_buf\<close> (ngx\_rtmp\_send.c); its argument is the server configuration with what it holds.\<close>

type_synonym 'p amf_arg = "'p pool_ops \<times> rtmp_conf \<times> 'p rtmp_shared"

fun ngx_rtmp_alloc_amf_buf :: "'p amf_arg amf_alloc" where
  "ngx_rtmp_alloc_amf_buf (ops, conf, sh) = (case ngx_rtmp_alloc_shared_buf ops conf sh of (b, sh) \<Rightarrow> (b, ops, conf, sh))"

fun amf_arg_ok :: "'p amf_arg \<Rightarrow> bool" where
  "amf_arg_ok (ops, conf, sh) \<longleftrightarrow> pool_total ops \<and> shared_mem_ok (cf_chunk_size conf) sh \<and> 0 < cf_chunk_size conf"

fun amf_arg_chunk :: "'p amf_arg \<Rightarrow> nat" where
  "amf_arg_chunk (ops, conf, sh) = cf_chunk_size conf"

interpretation shared_sink: amf_sink ngx_rtmp_alloc_amf_buf amf_arg_ok amf_arg_chunk
proof
  fix a :: "'p amf_arg"
  obtain ops conf sh where a: "a = (ops, conf, sh)" by (cases a)
  assume "amf_arg_ok a"
  then have ok: "pool_total ops" "shared_mem_ok (cf_chunk_size conf) sh" "0 < cf_chunk_size conf" by (simp_all add: a)
  then show "0 < amf_arg_chunk a" by (simp add: a)
  obtain b sh' where b: "ngx_rtmp_alloc_shared_buf ops conf sh = (Some b, sh')" "shared_buf (cf_chunk_size conf) b" "buf_content b = []"
    "shared_mem_ok (cf_chunk_size conf) sh'" using ok(1,2) by (rule alloc_shared_buf)
  then show "\<exists>b a'. ngx_rtmp_alloc_amf_buf a = (Some b, a') \<and> shared_buf (amf_arg_chunk a) b \<and> buf_content b = [] \<and>
      amf_arg_ok a' \<and> amf_arg_chunk a' = amf_arg_chunk a"
    using ok(1,3) a by (intro exI [of _ b] exI [of _ "(ops, conf, sh')"]) simp
qed

lemma write_shared:
  assumes "pool_total ops" "shared_mem_ok (cf_chunk_size conf) sh" "0 < cf_chunk_size conf"
    and "chunked (cf_chunk_size conf) bufs" "bufs = [] \<or> buf_content (last bufs) \<noteq> []"
    and "list_all2 describes vs es" "list_all wf_val vs" "length (concat (map enc_val vs)) + 1 < fuel"
  shows "\<exists>out. ngx_rtmp_amf_write fuel ngx_rtmp_alloc_amf_buf \<lparr>ao_bufs = bufs, ao_arg = (ops, conf, sh)\<rparr> es = Ret (NGX_OK, out) \<and>
    chunked (cf_chunk_size conf) (ao_bufs out) \<and> (ao_bufs out = [] \<or> buf_content (last (ao_bufs out)) \<noteq> []) \<and>
    flat (ao_bufs out) = flat bufs @ concat (map enc_val vs)"
proof -
  let ?out = "\<lparr>ao_bufs = bufs, ao_arg = (ops, conf, sh)\<rparr>"
  have g: "shared_sink.good ?out" using assms(1-5) by (auto simp: shared_sink.good_def)
  have "shared_sink.wrote (amf_write_one k ngx_rtmp_alloc_amf_buf out e) out (enc_val v)"
    if "v \<in> set vs" "describes v e" "length (enc_val v) < k" "shared_sink.good out" for v e k and out :: "'a amf_arg amf_out"
    using shared_sink.write_one_wrote [OF _ that(2,3,4)] that(1) assms(7) by (simp add: list_all_iff)
  from shared_sink.write_elts_wrote [OF assms(6) g this assms(8)] show ?thesis
    by (auto simp: shared_sink.wrote_def shared_sink.good_def ngx_rtmp_amf_write_def)
qed

text \<open>
  C19: when the elements describe values (their memory holds the numbers, strings and members), the
  writer appends the encodings of these values, one after the other and nothing else, to what is in the
  chain, and leaves it cut into chunks as the chunk layer wants it.
\<close>

theorem amf_write_emits:
  assumes "pool_total ops" "shared_mem_ok (cf_chunk_size conf) sh" "0 < cf_chunk_size conf"
    and "chunked (cf_chunk_size conf) bufs" "bufs = [] \<or> buf_content (last bufs) \<noteq> []"
    and "list_all2 describes vs es" "list_all wf_val vs" "length (concat (map enc_val vs)) + 1 < fuel"
  shows "\<exists>out. ngx_rtmp_amf_write fuel ngx_rtmp_alloc_amf_buf \<lparr>ao_bufs = bufs, ao_arg = (ops, conf, sh)\<rparr> es = Ret (NGX_OK, out) \<and>
    chunked (cf_chunk_size conf) (ao_bufs out) \<and> (ao_bufs out = [] \<or> buf_content (last (ao_bufs out)) \<noteq> []) \<and>
    flat (ao_bufs out) = flat bufs @ concat (map enc_val vs)"
  using assms by (rule write_shared)

text \<open>A status message: a C string, a number, null, and an object; chunks of four bytes.\<close>

definition status_elts :: "amf_elt list" where
  "status_elts = [Amf_elt NGX_RTMP_AMF_STRING [] (Mem [111, 110, 83, 0]) 0, Amf_elt NGX_RTMP_AMF_NUMBER [] (Mem [0, 0, 0, 0, 0, 0, 0xf0, 0x3f]) 0,
     Amf_elt NGX_RTMP_AMF_NULL [] No_data 0,
     Amf_elt NGX_RTMP_AMF_OBJECT [] (Elts [Amf_elt NGX_RTMP_AMF_STRING [97] (Mem [98, 99]) 2]) 40]"

definition status_vals :: "amf_val list" where
  "status_vals = [Str [111, 110, 83], Num [0, 0, 0, 0, 0, 0, 0xf0, 0x3f], Null, Obj [([97], Str [98, 99])]]"

theorem amf_write_emits_witness:
  "\<exists>out. ngx_rtmp_amf_write 100 ngx_rtmp_alloc_amf_buf \<lparr>ao_bufs = [], ao_arg = (unit_pool, small_conf, empty_shared)\<rparr> status_elts = Ret (NGX_OK, out) \<and>
    chunked 4 (ao_bufs out) \<and>
    flat (ao_bufs out) = [2, 0, 3, 111, 110, 83, 0, 0x3f, 0xf0, 0, 0, 0, 0, 0, 0, 5, 3, 0, 1, 97, 2, 0, 2, 98, 99, 0, 0, 9]"
proof -
  have d: "list_all2 describes status_vals status_elts" "list_all wf_val status_vals"
    by (simp_all add: status_vals_def status_elts_def amf_string_len_def sub_elts_def elt_size_def)
  have e: "concat (map enc_val status_vals) =
    [2, 0, 3, 111, 110, 83, 0, 0x3f, 0xf0, 0, 0, 0, 0, 0, 0, 5, 3, 0, 1, 97, 2, 0, 2, 98, 99, 0, 0, 9]" by code_simp
  then have l: "length (concat (map enc_val status_vals)) + 1 < 100" by simp
  have c: "cf_chunk_size small_conf = 4" by (simp add: small_conf_def)
  have m: "shared_mem_ok (cf_chunk_size small_conf) empty_shared" "chunked (cf_chunk_size small_conf) []"
    by (simp_all add: shared_mem_ok_def empty_shared_def chunked_def)
  from amf_write_emits [OF pool_total_unit m(1) _ m(2) _ d l] show ?thesis unfolding e c by auto
qed

end
