(* ===== verification/Rtmp_Amf_Send.thy ===== *)
theory Rtmp_Amf_Send
  imports Rtmp_Amf_Write Rtmp_Wire
begin

text \<open>
  AMF messages (ngx\_rtmp\_send.c): \<open>ngx_rtmp_append_amf\<close>, \<open>ngx_rtmp_create_amf\<close> and the status messages the
  program sends.  A C string is the bytes in front of its NUL; a \<open>double\<close> is its eight bytes in memory, and
  the conversion from an integer, which C does, is the parameter \<open>double\<close>.
\<close>

section \<open>Creating\<close>

text \<open>
  \<open>first\<close> is the chain from \<open>*first\<close> to \<open>*last\<close>.  (All callers start with an empty one; the last link is
  only needed to go on with a chain.)
\<close>

definition ngx_rtmp_append_amf ::
    "nat \<Rightarrow> ('w, 'p) rtmp_env \<Rightarrow> ('w, 'p) rtmp_session \<Rightarrow> chain \<Rightarrow> amf_elt list \<Rightarrow>
     (ngx_rc \<times> chain \<times> ('w, 'p) rtmp_session) run" where
  "ngx_rtmp_append_amf fuel env s first elts =
     run_bind (ngx_rtmp_amf_write fuel ngx_rtmp_alloc_amf_buf \<lparr>ao_bufs = first, ao_arg = (env_pool env, s_conf s, s_shared s)\<rparr> elts)
       (\<lambda>(rc, out). Ret (rc, ao_bufs out, s\<lparr>s_shared := snd (snd (ao_arg out))\<rparr>))"

definition ngx_rtmp_create_amf ::
    "nat \<Rightarrow> ('w, 'p) rtmp_env \<Rightarrow> ('w, 'p) rtmp_session \<Rightarrow> rtmp_header \<Rightarrow> amf_elt list \<Rightarrow>
     (nat option \<times> ('w, 'p) rtmp_session) run" where
  "ngx_rtmp_create_amf fuel env s h elts =
     run_bind (ngx_rtmp_append_amf fuel env s [] elts) (\<lambda>(rc, first, s).
       if first = [] then Ret (None, s)
       else if rc \<noteq> NGX_OK then
         (case new_message (s_shared s) first of (m, sh) \<Rightarrow>
            run_bind (ngx_rtmp_free_shared_chain sh m) (\<lambda>sh. Ret (None, s\<lparr>s_shared := sh\<rparr>)))
       else run_bind (ngx_rtmp_prepare_message s h None first) (\<lambda>(out, s).
         case new_message (s_shared s) out of (m, sh) \<Rightarrow> Ret (Some m, s\<lparr>s_shared := sh\<rparr>)))"

definition ngx_rtmp_send_amf where
  "ngx_rtmp_send_amf fuel env s h elts = send_created env (ngx_rtmp_create_amf fuel env s h elts)"

section \<open>Status messages\<close>

definition ascii :: "string \<Rightarrow> bytes" where
  "ascii x = map of_char x"

definition str_elt :: "bytes \<Rightarrow> bytes \<Rightarrow> amf_elt" where
  "str_elt name value = Amf_elt NGX_RTMP_AMF_STRING name (Mem (value @ [0])) 0"

definition num_elt :: "bytes \<Rightarrow> bytes \<Rightarrow> amf_elt" where
  "num_elt name value = Amf_elt NGX_RTMP_AMF_NUMBER name (Mem value) 0"

definition null_elt :: amf_elt where
  "null_elt = Amf_elt NGX_RTMP_AMF_NULL [] No_data 0"

definition obj_elt :: "amf_elt list \<Rightarrow> amf_elt" where
  "obj_elt es = Amf_elt NGX_RTMP_AMF_OBJECT [] (Elts es) (elt_size * length es)"

definition amf_mh :: "byte \<Rightarrow> u32 \<Rightarrow> rtmp_header" where
  "amf_mh type timestamp = zero_mh\<lparr>mh_type := type, mh_csid := 5, mh_msid := 1, mh_timestamp := timestamp\<rparr>"

text \<open>\<open>trans\<close> is a static \<open>double\<close> that nobody sets, 0.\<close>

definition status_message :: "bytes \<Rightarrow> bytes \<Rightarrow> bytes \<Rightarrow> bytes \<Rightarrow> amf_elt list" where
  "status_message name level code desc =
     [str_elt [] name, num_elt [] (replicate 8 0), null_elt,
      obj_elt [str_elt (ascii ''level'') level, str_elt (ascii ''code'') code, str_elt (ascii ''description'') desc]]"

definition ngx_rtmp_create_status where
  "ngx_rtmp_create_status fuel env s code level desc =
     ngx_rtmp_create_amf fuel env s (amf_mh NGX_RTMP_MSG_AMF_CMD 0) (status_message (ascii ''onStatus'') level code desc)"

definition ngx_rtmp_send_status where
  "ngx_rtmp_send_status fuel env s code level desc = send_created env (ngx_rtmp_create_status fuel env s code level desc)"

definition play_status_message :: "(nat \<Rightarrow> bytes) \<Rightarrow> bytes \<Rightarrow> bytes \<Rightarrow> nat \<Rightarrow> nat \<Rightarrow> amf_elt list" where
  "play_status_message double code level duration len =
     [str_elt [] (ascii ''onPlayStatus''),
      obj_elt [str_elt (ascii ''code'') code, str_elt (ascii ''level'') level,
        num_elt (ascii ''duration'') (double duration), num_elt (ascii ''bytes'') (double len)]]"

definition ngx_rtmp_create_play_status where
  "ngx_rtmp_create_play_status fuel double env s code level duration len =
     ngx_rtmp_create_amf fuel env s (amf_mh NGX_RTMP_MSG_AMF_META (word_of_nat duration)) (play_status_message double code level duration len)"

definition ngx_rtmp_send_play_status where
  "ngx_rtmp_send_play_status fuel double env s code level duration len =
     send_created env (ngx_rtmp_create_play_status fuel double env s code level duration len)"

definition ngx_rtmp_create_fcpublish where
  "ngx_rtmp_create_fcpublish fuel env s desc =
     ngx_rtmp_create_amf fuel env s (amf_mh NGX_RTMP_MSG_AMF_CMD 0)
       (status_message (ascii ''onFCPublish'') (ascii ''status'') (ascii ''NetStream.Publish.Start'') desc)"

definition ngx_rtmp_send_fcpublish where
  "ngx_rtmp_send_fcpublish fuel env s desc = send_created env (ngx_rtmp_create_fcpublish fuel env s desc)"

definition ngx_rtmp_create_fcunpublish where
  "ngx_rtmp_create_fcunpublish fuel env s desc =
     ngx_rtmp_create_amf fuel env s (amf_mh NGX_RTMP_MSG_AMF_CMD 0)
       (status_message (ascii ''onFCUnpublish'') (ascii ''status'') (ascii ''NetStream.Unpublish.Success'') desc)"

definition ngx_rtmp_send_fcunpublish where
  "ngx_rtmp_send_fcunpublish fuel env s desc = send_created env (ngx_rtmp_create_fcunpublish fuel env s desc)"

text \<open>\<open>access\<close> is an \<open>int\<close> of value 1, of which the first byte is written.\<close>

definition access_elt :: amf_elt where
  "access_elt = Amf_elt NGX_RTMP_AMF_BOOLEAN [] (Mem [1, 0, 0, 0]) 0"

definition ngx_rtmp_create_sample_access where
  "ngx_rtmp_create_sample_access fuel env s =
     ngx_rtmp_create_amf fuel env s (amf_mh NGX_RTMP_MSG_AMF_META 0) [str_elt [] (ascii ''|RtmpSampleAccess''), access_elt, access_elt]"

definition ngx_rtmp_send_sample_access where
  "ngx_rtmp_send_sample_access fuel env s = send_created env (ngx_rtmp_create_sample_access fuel env s)"

section \<open>What they say\<close>

lemma describes_str: "0 \<notin> set x \<Longrightarrow> length x < 65536 \<Longrightarrow> describes (Str x) (str_elt n x)"
proof -
  assume "0 \<notin> set x" "length x < 65536"
  moreover from this(1) have "\<forall>c \<in> set x. c \<noteq> 0" by metis
  ultimately show ?thesis by (simp add: str_elt_def amf_string_len_def takeWhile_append2)
qed

lemma describes_num: "length x = 8 \<Longrightarrow> describes (Num x) (num_elt n x)"
  by (simp add: num_elt_def)

lemma describes_null: "describes Null null_elt"
  by (simp add: null_elt_def)

lemma describes_obj: "list_all2 (\<lambda>f e. fst f = el_name e \<and> describes (snd f) e) fs es \<Longrightarrow> describes (Obj fs) (obj_elt es)"
  by (simp add: obj_elt_def sub_elts_def elt_size_def)

lemma describes_access: "describes (Bool 1) access_elt"
  by (simp add: access_elt_def)

lemma el_name_elts [simp]: "el_name (str_elt n x) = n" "el_name (num_elt n x) = n"
  by (simp_all add: str_elt_def num_elt_def)

definition c_str :: "bytes \<Rightarrow> bool" where
  "c_str x \<longleftrightarrow> 0 \<notin> set x \<and> length x < 65536"

definition status_values :: "bytes \<Rightarrow> bytes \<Rightarrow> bytes \<Rightarrow> bytes \<Rightarrow> amf_val list" where
  "status_values name level code desc =
     [Str name, Num (replicate 8 0), Null,
      Obj [(ascii ''level'', Str level), (ascii ''code'', Str code), (ascii ''description'', Str desc)]]"

lemma describes_status:
  assumes "c_str name" "c_str level" "c_str code" "c_str desc"
  shows "list_all2 describes (status_values name level code desc) (status_message name level code desc)"
    "list_all wf_val (status_values name level code desc)"
proof -
  have "describes (Obj [(ascii ''level'', Str level), (ascii ''code'', Str code), (ascii ''description'', Str desc)])
      (obj_elt [str_elt (ascii ''level'') level, str_elt (ascii ''code'') code, str_elt (ascii ''description'') desc])"
    using assms by (intro describes_obj) (simp add: describes_str c_str_def del: describes.simps)
  then show "list_all2 describes (status_values name level code desc) (status_message name level code desc)"
    using assms by (simp add: status_values_def status_message_def describes_str describes_num describes_null c_str_def del: describes.simps)
  show "list_all wf_val (status_values name level code desc)"
    using assms by (simp add: status_values_def c_str_def ascii_def)
qed


section \<open>From session to session\<close>

lemma create_amf_chunks:
  assumes "pool_total (env_pool env)" "shared_mem_ok (cf_chunk_size (s_conf s)) (s_shared s)" "0 < cf_chunk_size (s_conf s)"
    and "list_all2 describes vs es" "list_all wf_val vs" "vs \<noteq> []" "length (concat (map enc_val vs)) + 1 < fuel"
  obtains out sh where "whole_chunks (cf_chunk_size (s_conf s)) out" "flat out = concat (map enc_val vs)"
    "ngx_rtmp_create_amf fuel env s h es =
      run_bind (ngx_rtmp_prepare_message (s\<lparr>s_shared := sh\<rparr>) h None out) (\<lambda>(out, s).
         case new_message (s_shared s) out of (m, sh) \<Rightarrow> Ret (Some m, s\<lparr>s_shared := sh\<rparr>))"
proof -
  have c: "chunked (cf_chunk_size (s_conf s)) []" by (simp add: chunked_def)
  obtain out where w: "ngx_rtmp_amf_write fuel ngx_rtmp_alloc_amf_buf
      \<lparr>ao_bufs = [], ao_arg = (env_pool env, s_conf s, s_shared s)\<rparr> es = Ret (NGX_OK, out)"
    "chunked (cf_chunk_size (s_conf s)) (ao_bufs out)" "ao_bufs out = [] \<or> buf_content (last (ao_bufs out)) \<noteq> []"
    "flat (ao_bufs out) = concat (map enc_val vs)"
    using write_shared [OF assms(1-3) c _ assms(4,5,7)] by auto
  have "flat (ao_bufs out) \<noteq> []" using w(4) assms(6) shared_sink.enc_val_nonempty [of "hd vs"] by (cases vs) simp_all
  then have ne: "ao_bufs out \<noteq> []" by auto
  show thesis
    by (rule that [of "ao_bufs out" "snd (snd (ao_arg out))"])
      (use w ne in \<open>simp_all add: ngx_rtmp_create_amf_def ngx_rtmp_append_amf_def\<close>)
qed

text \<open>
  C6: an AMF message that one session creates from elements and writes to the wire reaches the handlers
  of the other, however the bytes arrive, with its header and with the encodings of the values that the
  elements describe.
\<close>

theorem amf_message_roundtrip:
  assumes "pool_total (env_pool env)" "shared_mem_ok (cf_chunk_size (s_conf s)) (s_shared s)" "0 < cf_chunk_size (s_conf s)"
    and "list_all2 describes vs es" "list_all wf_val vs" "vs \<noteq> []" "length (concat (map enc_val vs)) + 1 < fuel"
    and "connected s g r rx h" "st_len (rx_join rx (unat (mh_csid h))) = 0"
    and "length (concat (map enc_val vs)) < 0x1000000" "length (concat (map enc_val vs)) \<le> cf_max_message (s_conf r)"
    and "\<forall>xs. concat xs = concat (map enc_val vs) \<longrightarrow>
      g (h\<lparr>mh_mlen := word_of_nat (length (concat (map enc_val vs)))\<rparr>) xs (s_world r) = (NGX_OK, w)"
    and "pool_total (env_pool renv)" "handles ev call g"
  shows "\<exists>m s' out. ngx_rtmp_create_amf fuel env s h es = Ret (Some m, s') \<and>
    sh_msgs (s_shared s') m = Some \<lparr>msg_ref = 1, msg_bufs = out\<rparr> \<and>
    (\<forall>batches k. list_all pieces batches \<longrightarrow> concat (concat batches) = flat out \<longrightarrow> 4 * length (flat out) < k \<longrightarrow>
      (\<exists>r'. recv_rounds k renv ev call r batches = Ret r' \<and> s_world r' = w))"
proof -
  obtain out sh where o: "whole_chunks (cf_chunk_size (s_conf s)) out" "flat out = concat (map enc_val vs)"
    "ngx_rtmp_create_amf fuel env s h es =
      run_bind (ngx_rtmp_prepare_message (s\<lparr>s_shared := sh\<rparr>) h None out) (\<lambda>(out, s).
         case new_message (s_shared s) out of (m, sh) \<Rightarrow> Ret (Some m, s\<lparr>s_shared := sh\<rparr>))"
    using assms(1-7) by (rule create_amf_chunks)
  have con: "connected (s\<lparr>s_shared := sh\<rparr>) g r rx h" using assms(8) by (simp add: connected_def)
  have wc: "whole_chunks (cf_chunk_size (s_conf (s\<lparr>s_shared := sh\<rparr>))) out" using o(1) by simp
  have len: "length (flat out) < 0x1000000" "length (flat out) \<le> cf_max_message (s_conf r)" using assms(10,11) o(2) by simp_all
  have fo: "follows h None (msg_len out) (rx_join rx (unat (mh_csid h)))" using assms(9) by (simp add: follows_def)
  have "received_header h None (msg_len out) (rx_join rx (unat (mh_csid h))) = h\<lparr>mh_mlen := msg_len out\<rparr>"
    by (simp add: received_header_def chunk_fmt_def)
  moreover have "concat (map buf_content out) = concat (map enc_val vs)" using o(2) by (simp add: flat_def)
  ultimately have g: "g (received_header h None (msg_len out) (rx_join rx (unat (mh_csid h)))) (map buf_content out) (s_world r) = (NGX_OK, w)"
    using assms(12) o(2) by simp
  obtain out' where p: "ngx_rtmp_prepare_message (s\<lparr>s_shared := sh\<rparr>) h None out = Ret (out', s\<lparr>s_shared := sh\<rparr>)"
    and r: "\<And>batches fuel. list_all pieces batches \<Longrightarrow> concat (concat batches) = flat out' \<Longrightarrow> 4 * length (flat out') < fuel \<Longrightarrow>
      \<exists>r' st. recv_rounds fuel renv ev call r batches = Ret r' \<and> s_world r' = w \<and>
        idle g r' (deliver rx (unat (mh_csid h)) st (received_header h None (msg_len out) (rx_join rx (unat (mh_csid h)))) w) []"
    using message_received [OF con wc len fo g assms(13,14)] by metis
  have m: "ngx_rtmp_create_amf fuel env s h es = Ret (Some (sh_next sh), s\<lparr>s_shared := snd (new_message sh out')\<rparr>)"
    using o(3) p by (simp add: new_message_def)
  have "sh_msgs (s_shared (s\<lparr>s_shared := snd (new_message sh out')\<rparr>)) (sh_next sh) = Some \<lparr>msg_ref = 1, msg_bufs = out'\<rparr>"
    by (simp add: new_message_def)
  then show ?thesis using m r by blast
qed


text \<open>A status message, byte by byte, to a session that keeps what it gets.\<close>

definition flat_handler :: "(rtmp_header \<times> bytes list) list rx_handler" where
  "flat_handler h xs w = (if mh_type h > NGX_RTMP_MSG_MAX then (NGX_OK, w) else (NGX_OK, w @ [(h, [concat xs])]))"

definition flat_call :: "(unit, (rtmp_header \<times> bytes list) list, 'p) rtmp_call" where
  "flat_call u s h inn = Ret (NGX_OK, s\<lparr>s_world := s_world s @ [(h, [flat inn])]\<rparr>)"

lemma flat_handles: "handles (\<lambda>_. [()]) flat_call flat_handler"
  by (simp add: handles_def ngx_rtmp_receive_message_def flat_call_def flat_handler_def flat_def)

theorem amf_message_roundtrip_witness:
  "\<exists>m s' out r'. ngx_rtmp_create_status 200 small_env (small_session []) [79, 75] [115] [120] = Ret (Some m, s') \<and>
    sh_msgs (s_shared s') m = Some \<lparr>msg_ref = 1, msg_bufs = out\<rparr> \<and>
    recv_rounds (4 * length (flat out) + 1) small_env (\<lambda>_. [()]) flat_call (small_session []) [map (\<lambda>x. [x]) (flat out)] = Ret r' \<and>
    s_world r' = [((amf_mh NGX_RTMP_MSG_AMF_CMD 0)\<lparr>mh_mlen := 64\<rparr>,
      [concat (map enc_val (status_values (ascii ''onStatus'') [115] [79, 75] [120]))])]"
proof -
  let ?s = "small_session []" and ?h = "amf_mh NGX_RTMP_MSG_AMF_CMD 0"
  let ?vs = "status_values (ascii ''onStatus'') [115] [79, 75] [120]"
  have c: "c_str (ascii ''onStatus'')" "c_str [115]" "c_str [79, 75]" "c_str [120]" by (simp_all add: c_str_def ascii_def)
  note d = describes_status [OF c]
  have l: "length (concat (map enc_val ?vs)) = 64" by (simp add: status_values_def ascii_def)
  have m: "pool_total (env_pool small_env)" "shared_mem_ok (cf_chunk_size (s_conf ?s)) (s_shared ?s)" "0 < cf_chunk_size (s_conf ?s)"
    by (simp_all add: shared_mem_ok_def small_session_def small_conf_def empty_shared_def)
  have con: "connected ?s flat_handler ?s rx_start ?h"
    using small_session_idle [of flat_handler "[]"]
    by (simp add: connected_def rx_start_def amf_mh_def small_conf_def zero_mh_def)
  have ne: "?vs \<noteq> []" by (simp add: status_values_def)
  have st: "st_len (rx_join rx_start (unat (mh_csid ?h))) = 0"
    by (simp add: rx_join_def rx_start_def zero_stream_def)
  have len: "length (concat (map enc_val ?vs)) + 1 < 200" "length (concat (map enc_val ?vs)) < 0x1000000"
    "length (concat (map enc_val ?vs)) \<le> cf_max_message (s_conf ?s)"
    unfolding l by (simp_all add: small_session_def small_conf_def)
  have g0: "flat_handler (?h\<lparr>mh_mlen := word_of_nat (length (concat (map enc_val ?vs)))\<rparr>) xs (s_world ?s) =
      (NGX_OK, [(?h\<lparr>mh_mlen := 64\<rparr>, [concat (map enc_val ?vs)])])" if "concat xs = concat (map enc_val ?vs)" for xs
    unfolding flat_handler_def that l by (simp add: amf_mh_def zero_mh_def rtmp_msg_types small_session_def)
  then have g: "\<forall>xs. concat xs = concat (map enc_val ?vs) \<longrightarrow>
      flat_handler (?h\<lparr>mh_mlen := word_of_nat (length (concat (map enc_val ?vs)))\<rparr>) xs (s_world ?s) =
      (NGX_OK, [(?h\<lparr>mh_mlen := 64\<rparr>, [concat (map enc_val ?vs)])])" by blast
  from amf_message_roundtrip [OF m d ne len(1) con st len(2,3) g m(1) flat_handles]
  obtain x s' out where r: "ngx_rtmp_create_amf 200 small_env ?s ?h (status_message (ascii ''onStatus'') [115] [79, 75] [120]) = Ret (Some x, s')"
    "sh_msgs (s_shared s') x = Some \<lparr>msg_ref = 1, msg_bufs = out\<rparr>"
    "\<And>batches k. list_all pieces batches \<Longrightarrow> concat (concat batches) = flat out \<Longrightarrow> 4 * length (flat out) < k \<Longrightarrow>
      \<exists>r'. recv_rounds k small_env (\<lambda>_. [()]) flat_call ?s batches = Ret r' \<and>
        s_world r' = [(?h\<lparr>mh_mlen := 64\<rparr>, [concat (map enc_val ?vs)])]"
    by (elim exE conjE) (rule that, blast+)
  from r(3) [OF single_pieces(1,2)] show ?thesis using r(1,2) unfolding ngx_rtmp_create_status_def by force
qed

end
