(* ===== verification/Rtmp_Handlers.thy ===== *)
theory Rtmp_Handlers
  imports Rtmp_Recv Rtmp_Amf
begin

text \<open>
  The handlers of the protocol itself (ngx\_rtmp\_receive.c): protocol control messages, user control
  messages, aggregate messages, and the one that passes AMF commands to the handlers of their names.
  What the modules put into \<open>ngx_rtmp_stream_begin\<close> and the other hooks is a parameter, and so is the
  table of command names.
\<close>

section \<open>Control messages\<close>

definition ngx_rtmp_protocol_message_handler ::
    "('w, 'p) rtmp_env \<Rightarrow> ('w, 'p) rtmp_session \<Rightarrow> rtmp_header \<Rightarrow> chain \<Rightarrow> (ngx_rc \<times> ('w, 'p) rtmp_session) run" where
  "ngx_rtmp_protocol_message_handler env s h inn =
     (case inn of
        [] \<Rightarrow> Fault
      | b # _ \<Rightarrow>
          if b_last b < b_pos b + 4 then Ret (NGX_OK, s)
          else
            let val = of_be4 (buf_content b)
            in if mh_type h = NGX_RTMP_MSG_CHUNK_SIZE then
                 run_bind (ngx_rtmp_set_chunk_size env s (unat val)) (\<lambda>(_, s). Ret (NGX_OK, s))
               else if mh_type h = NGX_RTMP_MSG_ABORT then Ret (NGX_OK, s)
               else if mh_type h = NGX_RTMP_MSG_ACK then Ret (NGX_OK, s)
               else if mh_type h = NGX_RTMP_MSG_ACK_SIZE then Ret (NGX_OK, s\<lparr>s_ack_size := val\<rparr>)
               else if mh_type h = NGX_RTMP_MSG_BANDWIDTH then Ret (NGX_OK, s)
               else Ret (NGX_ERROR, s))"

text \<open>The hooks of the user control events.\<close>

record ('w, 'p) user_hooks =
  uh_stream_begin :: "('w, 'p) rtmp_session \<Rightarrow> u32 \<Rightarrow> (ngx_rc \<times> ('w, 'p) rtmp_session) run"
  uh_stream_eof :: "('w, 'p) rtmp_session \<Rightarrow> u32 \<Rightarrow> (ngx_rc \<times> ('w, 'p) rtmp_session) run"
  uh_stream_dry :: "('w, 'p) rtmp_session \<Rightarrow> u32 \<Rightarrow> (ngx_rc \<times> ('w, 'p) rtmp_session) run"
  uh_set_buflen :: "('w, 'p) rtmp_session \<Rightarrow> u32 \<Rightarrow> u32 \<Rightarrow> (ngx_rc \<times> ('w, 'p) rtmp_session) run"
  uh_recorded :: "('w, 'p) rtmp_session \<Rightarrow> u32 \<Rightarrow> (ngx_rc \<times> ('w, 'p) rtmp_session) run"

definition of_be2 :: "bytes \<Rightarrow> u16" where
  "of_be2 p = push_bit 8 (ucast (p ! 0)) OR ucast (p ! 1)"

definition ngx_rtmp_user_message_handler ::
    "('w, 'p) rtmp_env \<Rightarrow> ('w, 'p) user_hooks \<Rightarrow> ('w, 'p) rtmp_session \<Rightarrow> rtmp_header \<Rightarrow> chain \<Rightarrow>
     (ngx_rc \<times> ('w, 'p) rtmp_session) run" where
  "ngx_rtmp_user_message_handler env hooks s h inn =
     (case inn of
        [] \<Rightarrow> Fault
      | b # _ \<Rightarrow>
          if b_last b < b_pos b + 6 then Ret (NGX_OK, s)
          else
            let evt = of_be2 (buf_content b); val = of_be4 (drop 2 (buf_content b))
            in if evt = NGX_RTMP_USER_STREAM_BEGIN then uh_stream_begin hooks s val
               else if evt = NGX_RTMP_USER_STREAM_EOF then uh_stream_eof hooks s val
               else if evt = NGX_RTMP_USER_STREAM_DRY then uh_stream_dry hooks s val
               else if evt = NGX_RTMP_USER_SET_BUFLEN then
                 (if b_last b < b_pos b + 10 then Ret (NGX_OK, s)
                  else
                    let buflen = of_be4 (drop 6 (buf_content b))
                    in uh_set_buflen hooks (s\<lparr>s_buflen := buflen\<rparr>) val buflen)
               else if evt = NGX_RTMP_USER_RECORDED then uh_recorded hooks s val
               else if evt = NGX_RTMP_USER_PING_REQUEST then ngx_rtmp_send_ping_response env s val
               else if evt = NGX_RTMP_USER_PING_RESPONSE then Ret (NGX_OK, ngx_rtmp_reset_ping s)
               else Ret (NGX_OK, s))"

section \<open>Aggregate messages\<close>

fun ngx_rtmp_fetch :: "chain \<Rightarrow> ngx_rc \<times> byte \<times> chain" where
  "ngx_rtmp_fetch [] = (NGX_DONE, 0, [])"
| "ngx_rtmp_fetch (b # cl) =
     (if b_pos b \<ge> b_last b then ngx_rtmp_fetch cl
      else (NGX_OK, b_mem b ! b_pos b, b\<lparr>b_pos := b_pos b + 1\<rparr> # cl))"

text \<open>One byte after the other, until there is none: the loop of \<open>ngx_rtmp_fetch_uint32\<close>.\<close>

fun fetch_bytes :: "chain \<Rightarrow> nat \<Rightarrow> ngx_rc \<times> bytes \<times> chain" where
  "fetch_bytes cl 0 = (NGX_OK, [], cl)"
| "fetch_bytes cl (Suc n) =
     (case ngx_rtmp_fetch cl of
        (rc, x, cl) \<Rightarrow>
          if rc \<noteq> NGX_OK then (rc, [], cl)
          else case fetch_bytes cl n of (rc, xs, cl) \<Rightarrow> (rc, x # xs, cl))"

definition ngx_rtmp_fetch_uint8 :: "chain \<Rightarrow> ngx_rc \<times> byte \<times> chain" where
  "ngx_rtmp_fetch_uint8 cl = ngx_rtmp_fetch cl"

text \<open>The bytes go to the lower \<open>n\<close> bytes of the result, the first one to the highest of them.\<close>

definition ngx_rtmp_fetch_uint32 :: "chain \<Rightarrow> nat \<Rightarrow> ngx_rc \<times> u32 \<times> chain" where
  "ngx_rtmp_fetch_uint32 cl n =
     (case fetch_bytes cl n of
        (rc, xs, cl) \<Rightarrow> (rc, word_of_nat (be_nat (xs @ replicate (n - length xs) 0)), cl))"

text \<open>
  The header of a part: its type, length, time and stream.  \<open>Inl\<close> is the result of the handler.
\<close>

definition aggregate_header :: "chain \<Rightarrow> ngx_rc + (byte \<times> u32 \<times> u32 \<times> u32 \<times> chain)" where
  "aggregate_header inn =
     (case ngx_rtmp_fetch_uint8 inn of (rc, type, inn) \<Rightarrow>
      if rc \<noteq> NGX_OK then Inl NGX_OK
      else case ngx_rtmp_fetch_uint32 inn 3 of (rc, mlen, inn) \<Rightarrow>
      if rc \<noteq> NGX_OK then Inl NGX_ERROR
      else case ngx_rtmp_fetch_uint32 inn 3 of (rc, timestamp, inn) \<Rightarrow>
      if rc \<noteq> NGX_OK then Inl NGX_ERROR
      else case ngx_rtmp_fetch_uint8 inn of (rc, high, inn) \<Rightarrow>
      if rc \<noteq> NGX_OK then Inl NGX_ERROR
      else case ngx_rtmp_fetch_uint32 inn 3 of (rc, msid, inn) \<Rightarrow>
      if rc \<noteq> NGX_OK then Inl NGX_ERROR
      else Inr (type, mlen, timestamp OR push_bit 24 (ucast high), msid, inn))"

text \<open>
  The chain up to \<open>mlen\<close> bytes, and what is behind them; the buffer in which they end is in both.
  There is one when more than \<open>mlen\<close> bytes are left.
\<close>

fun limit_chain :: "nat \<Rightarrow> nat \<Rightarrow> chain \<Rightarrow> (chain \<times> chain) option" where
  "limit_chain mlen len [] = None"
| "limit_chain mlen len (b # cl) =
     (let len = len + (b_last b - b_pos b); last = b_last b - (len - mlen)
      in if len > mlen then Some ([b\<lparr>b_last := last\<rparr>], b\<lparr>b_pos := last\<rparr> # cl)
         else map_option (\<lambda>(part, rest). (b # part, rest)) (limit_chain mlen len cl))"

text \<open>The loop; \<open>receive\<close> is \<open>ngx_rtmp_receive_message\<close> and \<open>base\<close> the time of the first part.\<close>

fun aggregate_loop ::
    "nat \<Rightarrow> (('w, 'p) rtmp_session \<Rightarrow> rtmp_header \<Rightarrow> chain \<Rightarrow> (ngx_rc \<times> ('w, 'p) rtmp_session) run) \<Rightarrow>
     ('w, 'p) rtmp_session \<Rightarrow> rtmp_header \<Rightarrow> u32 option \<Rightarrow> chain \<Rightarrow> (ngx_rc \<times> ('w, 'p) rtmp_session) run" where
  "aggregate_loop 0 receive s h base inn = Out_of_fuel"
| "aggregate_loop (Suc k) receive s h base inn =
     (if inn = [] then Ret (NGX_OK, s)
      else case aggregate_header inn of
        Inl rc \<Rightarrow> Ret (rc, s)
      | Inr (type, mlen, timestamp, msid, inn) \<Rightarrow>
          let base_time = (case base of None \<Rightarrow> timestamp | Some t \<Rightarrow> t)
          in case limit_chain (unat mlen) 0 inn of
               None \<Rightarrow> Ret (NGX_ERROR, s)
             | Some (part, rest) \<Rightarrow>
                 run_bind (receive s (h\<lparr>mh_type := type, mh_mlen := mlen, mh_msid := msid,
                     mh_timestamp := mh_timestamp h + timestamp - base_time\<rparr>) part) (\<lambda>(rc, s).
                   if rc \<noteq> NGX_OK then Ret (rc, s)
                   else case ngx_rtmp_fetch_uint32 rest 4 of
                     (rc, _, inn) \<Rightarrow>
                       if rc \<noteq> NGX_OK then Ret (NGX_OK, s)
                       else aggregate_loop k receive s h (Some base_time) inn))"

definition ngx_rtmp_aggregate_message_handler ::
    "(('w, 'p) rtmp_session \<Rightarrow> rtmp_header \<Rightarrow> chain \<Rightarrow> (ngx_rc \<times> ('w, 'p) rtmp_session) run) \<Rightarrow>
     ('w, 'p) rtmp_session \<Rightarrow> rtmp_header \<Rightarrow> chain \<Rightarrow> (ngx_rc \<times> ('w, 'p) rtmp_session) run" where
  "ngx_rtmp_aggregate_message_handler receive s h inn = aggregate_loop (length (flat inn) + 1) receive s h None inn"

section \<open>AMF commands\<close>

text \<open>
  \<open>ngx_strlow\<close>; the table \<open>cmcf->amf_hash\<close> is the function \<open>amf_hash\<close> from a name to its handlers (none,
  when the name is not in it).
\<close>

definition strlow :: "bytes \<Rightarrow> bytes" where
  "strlow x = map (\<lambda>c. if 65 \<le> c \<and> c \<le> 90 then c OR 0x20 else c) x"

definition amf_name_elt :: "byte \<Rightarrow> amf_elt" where
  "amf_name_elt type =
     Amf_elt (if type = NGX_RTMP_MSG_AMF_SHARED \<or> type = NGX_RTMP_MSG_AMF3_SHARED
       then NGX_RTMP_AMF_STRING OR NGX_RTMP_AMF_TYPELESS else NGX_RTMP_AMF_STRING) [] (Mem (replicate 128 0)) 128"

definition skip_amf3_prefix :: "byte \<Rightarrow> chain \<Rightarrow> chain run" where
  "skip_amf3_prefix type inn =
     (if type = NGX_RTMP_MSG_AMF3_SHARED \<or> type = NGX_RTMP_MSG_AMF3_META \<or> type = NGX_RTMP_MSG_AMF3_CMD
      then case inn of [] \<Rightarrow> Fault
        | b # cl \<Rightarrow> Ret (if b_last b > b_pos b then b\<lparr>b_pos := b_pos b + 1\<rparr> # cl else b # cl)
      else Ret inn)"

definition c_string :: "amf_data \<Rightarrow> bytes" where
  "c_string d = (case d of Mem m \<Rightarrow> takeWhile (\<lambda>c. c \<noteq> 0) m | _ \<Rightarrow> [])"

definition ngx_rtmp_amf_message_handler ::
    "(bytes \<Rightarrow> 'h list) \<Rightarrow> ('h, 'w, 'p) rtmp_call \<Rightarrow> ('w, 'p) rtmp_session \<Rightarrow> rtmp_header \<Rightarrow> chain \<Rightarrow>
     (ngx_rc \<times> ('w, 'p) rtmp_session) run" where
  "ngx_rtmp_amf_message_handler amf_hash call s h inn =
     run_bind (skip_amf3_prefix (mh_type h) inn) (\<lambda>inn.
     run_bind (ngx_rtmp_amf_read (length (flat inn) + 2) \<lparr>ax_link = inn, ax_offset = 0\<rparr> [amf_name_elt (mh_type h)])
       (\<lambda>(rc, elts, act).
       if rc \<noteq> NGX_OK then Ret (NGX_ERROR, s)
       else case ax_link act of
         [] \<Rightarrow> Fault
       | b # cl \<Rightarrow>
           rtmp_handlers call (amf_hash (strlow (c_string (el_data (elts ! 0))))) s h
             (b\<lparr>b_pos := b_pos b + ax_offset act\<rparr> # cl)))"

definition ngx_rtmp_receive_amf ::
    "chain \<Rightarrow> amf_elt list \<Rightarrow> (ngx_rc \<times> amf_elt list) run" where
  "ngx_rtmp_receive_amf inn elts =
     run_bind (ngx_rtmp_amf_read (length (flat inn) + sum_list (map elt_weight elts) + 1) \<lparr>ax_link = inn, ax_offset = 0\<rparr> elts)
       (\<lambda>(rc, elts, _). Ret (rc, elts))"

section \<open>Reading the parts of an aggregate\<close>

lemma flat_first:
  assumes "buf_ok b" "b_pos b < b_last b"
  shows "buf_content b = b_mem b ! b_pos b # buf_content (b\<lparr>b_pos := b_pos b + 1\<rparr>)"
proof -
  have "drop (b_pos b) (b_mem b) = b_mem b ! b_pos b # drop (b_pos b + 1) (b_mem b)"
    using assms by (simp add: buf_ok_def Cons_nth_drop_Suc)
  moreover have "b_last b - b_pos b = Suc (b_last b - (b_pos b + 1))" using assms(2) by simp
  ultimately show ?thesis by (simp add: buf_content_def)
qed

lemma fetch_spec:
  "chain_ok cl \<Longrightarrow> flat cl = x # xs \<Longrightarrow> \<exists>cl'. ngx_rtmp_fetch cl = (NGX_OK, x, cl') \<and> flat cl' = xs \<and> chain_ok cl'"
proof (induction cl)
  case (Cons b cl)
  show ?case
  proof (cases "b_pos b \<ge> b_last b")
    case True
    then have "flat cl = x # xs" using Cons.prems(2) by (simp add: buf_content_def)
    then show ?thesis using Cons True by simp
  next
    case False
    then show ?thesis using Cons.prems flat_first [of b] by (auto simp: buf_ok_def)
  qed
qed simp

lemma fetch_end: "chain_ok cl \<Longrightarrow> flat cl = [] \<Longrightarrow> fst (ngx_rtmp_fetch cl) = NGX_DONE"
proof (induction cl)
  case (Cons b cl)
  then have "b_pos b \<ge> b_last b" by (auto simp: buf_content_def buf_ok_def)
  then show ?case using Cons by simp
qed simp

lemma fetch_bytes_enough:
  "chain_ok cl \<Longrightarrow> n \<le> length (flat cl) \<Longrightarrow>
   \<exists>cl'. fetch_bytes cl n = (NGX_OK, take n (flat cl), cl') \<and> flat cl' = drop n (flat cl) \<and> chain_ok cl'"
proof (induction n arbitrary: cl)
  case (Suc n)
  then obtain x xs where x: "flat cl = x # xs" by (cases "flat cl") auto
  from fetch_spec [OF Suc.prems(1) this] obtain cl1 where
    f: "ngx_rtmp_fetch cl = (NGX_OK, x, cl1)" "flat cl1 = xs" "chain_ok cl1" by blast
  from Suc.IH [OF f(3)] Suc.prems(2) x f(2) obtain cl' where
    "fetch_bytes cl1 n = (NGX_OK, take n xs, cl')" "flat cl' = drop n xs" "chain_ok cl'" by auto
  then show ?case using f(1) x by simp
qed simp

lemma fetch_bytes_short: "chain_ok cl \<Longrightarrow> length (flat cl) < n \<Longrightarrow> fst (fetch_bytes cl n) = NGX_DONE"
proof (induction n arbitrary: cl)
  case (Suc n)
  show ?case
  proof (cases "flat cl")
    case Nil
    then show ?thesis using fetch_end [OF Suc.prems(1)] by (auto split: prod.splits)
  next
    case (Cons x xs)
    from fetch_spec [OF Suc.prems(1) this] obtain cl1 where
      f: "ngx_rtmp_fetch cl = (NGX_OK, x, cl1)" "flat cl1 = xs" "chain_ok cl1" by blast
    then have "fst (fetch_bytes cl1 n) = NGX_DONE" using Suc.IH [OF f(3)] Suc.prems(2) Cons by simp
    then show ?thesis using f(1) by (auto split: prod.splits)
  qed
qed simp

interpretation fetch: byte_source fetch_bytes flat chain_ok NGX_DONE
  by unfold_locales (simp_all add: fetch_bytes_enough fetch_bytes_short)

lemma fetch_uint32_eq:
  assumes "chain_ok cl" "flat cl = xs @ ys" "length xs = n"
  shows "\<exists>cl'. ngx_rtmp_fetch_uint32 cl n = (NGX_OK, word_of_nat (be_nat xs), cl') \<and> flat cl' = ys \<and> chain_ok cl'"
proof -
  have n: "n \<le> length (flat cl)" using assms(2,3) by simp
  have "fetch_bytes cl n = (NGX_OK, xs, fetch.adv cl n)" using fetch.rd_eq [OF assms(1) n] assms(2,3) by simp
  moreover have "flat (fetch.adv cl n) = ys" using fetch.rest_adv [OF assms(1) n] assms(2,3) by simp
  ultimately show ?thesis using fetch.good_adv [OF assms(1) n] assms(3) by (simp add: ngx_rtmp_fetch_uint32_def)
qed

lemma fetch_uint8_eq:
  "chain_ok cl \<Longrightarrow> flat cl = x # xs \<Longrightarrow> \<exists>cl'. ngx_rtmp_fetch_uint8 cl = (NGX_OK, x, cl') \<and> flat cl' = xs \<and> chain_ok cl'"
  unfolding ngx_rtmp_fetch_uint8_def by (rule fetch_spec)

lemma limit_chain_spec:
  assumes "chain_ok cl" "len \<le> mlen" "mlen < len + length (flat cl)"
  shows "\<exists>part rest. limit_chain mlen len cl = Some (part, rest) \<and> flat part = take (mlen - len) (flat cl) \<and>
    flat rest = drop (mlen - len) (flat cl) \<and> chain_ok part \<and> chain_ok rest"
  using assms
proof (induction cl arbitrary: len)
  case (Cons b cl)
  have b: "b_pos b \<le> b_last b" "b_last b \<le> length (b_mem b)" using Cons.prems(1) by (simp_all add: buf_ok_def)
  then have l: "length (buf_content b) = b_last b - b_pos b" by (simp add: buf_content_def)
  show ?case
  proof (cases "len + (b_last b - b_pos b) > mlen")
    case True
    define q where "q = b_pos b + (mlen - len)"
    have q: "b_last b - (len + (b_last b - b_pos b) - mlen) = q" "b_pos b \<le> q" "q < b_last b"
      using True b(1) Cons.prems(2) by (simp_all add: q_def)
    have "buf_content (b\<lparr>b_last := q\<rparr>) = take (mlen - len) (buf_content b)"
      using q(3) by (simp add: buf_content_def q_def min_def)
    moreover have "buf_content (b\<lparr>b_pos := q\<rparr>) = drop (mlen - len) (buf_content b)"
      by (simp add: buf_content_def q_def drop_take add.commute)
    moreover have "mlen - len \<le> length (buf_content b)" using True l by simp
    ultimately show ?thesis using True q b Cons.prems(1) by (simp add: Let_def buf_ok_def)
  next
    case False
    let ?len = "len + (b_last b - b_pos b)"
    have "?len \<le> mlen" "mlen < ?len + length (flat cl)" "chain_ok cl" using False Cons.prems l by simp_all
    from Cons.IH [OF this(3,1,2)] obtain part rest where
      "limit_chain mlen ?len cl = Some (part, rest)" "flat part = take (mlen - ?len) (flat cl)"
      "flat rest = drop (mlen - ?len) (flat cl)" "chain_ok part" "chain_ok rest" by blast
    moreover have "mlen - len = length (buf_content b) + (mlen - ?len)" using False l by simp
    ultimately show ?thesis using False Cons.prems(1) by (simp add: Let_def)
  qed
qed simp

section \<open>Aggregates and their parts\<close>

text \<open>A part: its type, time, stream and payload; in the message the length of the part before follows.\<close>

record aggregate_part =
  ap_type :: byte
  ap_time :: u32
  ap_msid :: u32
  ap_payload :: bytes
  ap_size :: u32

definition part_ok :: "aggregate_part \<Rightarrow> bool" where
  "part_ok p \<longleftrightarrow> length (ap_payload p) < 2 ^ 24 \<and> unat (ap_msid p) < 2 ^ 24"

definition enc_part :: "aggregate_part \<Rightarrow> bytes" where
  "enc_part p = [ap_type p] @ enc_nat 3 (length (ap_payload p)) @ enc_nat 3 (unat (ap_time p)) @
     [ucast (drop_bit 24 (ap_time p))] @ enc_nat 3 (unat (ap_msid p)) @ ap_payload p @ enc_nat 4 (unat (ap_size p))"

text \<open>What is to happen: each part is received as a message of its own, its time relative to the first.\<close>

fun deliver_parts ::
    "(('w, 'p) rtmp_session \<Rightarrow> rtmp_header \<Rightarrow> bytes \<Rightarrow> (ngx_rc \<times> ('w, 'p) rtmp_session) run) \<Rightarrow>
     ('w, 'p) rtmp_session \<Rightarrow> rtmp_header \<Rightarrow> u32 \<Rightarrow> aggregate_part list \<Rightarrow> (ngx_rc \<times> ('w, 'p) rtmp_session) run" where
  "deliver_parts f s h t0 [] = Ret (NGX_OK, s)"
| "deliver_parts f s h t0 (p # ps) =
     run_bind (f s (h\<lparr>mh_type := ap_type p, mh_mlen := word_of_nat (length (ap_payload p)), mh_msid := ap_msid p,
        mh_timestamp := mh_timestamp h + ap_time p - t0\<rparr>) (ap_payload p)) (\<lambda>(rc, s).
       if rc \<noteq> NGX_OK then Ret (rc, s) else deliver_parts f s h t0 ps)"

lemma time_bytes: "word_of_nat (unat t mod 256 ^ 3) OR push_bit 24 (ucast (ucast (drop_bit 24 t) :: byte)) = (t :: u32)"
proof -
  have "(word_of_nat (unat t mod 256 ^ 3) :: u32) = take_bit 24 t"
    by (simp add: word_unat_eq_iff unsigned_take_bit_eq take_bit_eq_mod unat_of_nat unat_mod)
  then show ?thesis by (auto intro!: bit_word_eqI simp: bit_simps)
qed

lemma aggregate_header_spec:
  assumes "chain_ok cl" "flat cl = enc_part p @ ys" "part_ok p"
  shows "\<exists>cl'. aggregate_header cl = Inr (ap_type p, word_of_nat (length (ap_payload p)), ap_time p, ap_msid p, cl') \<and>
    flat cl' = ap_payload p @ enc_nat 4 (unat (ap_size p)) @ ys \<and> chain_ok cl'"
proof -
  have f: "flat cl = ap_type p # enc_nat 3 (length (ap_payload p)) @ enc_nat 3 (unat (ap_time p)) @
     ucast (drop_bit 24 (ap_time p)) # enc_nat 3 (unat (ap_msid p)) @ ap_payload p @ enc_nat 4 (unat (ap_size p)) @ ys"
    using assms(2) by (simp add: enc_part_def del: enc_nat.simps)
  from fetch_uint8_eq [OF assms(1) f] obtain c1 where c1: "ngx_rtmp_fetch_uint8 cl = (NGX_OK, ap_type p, c1)" "chain_ok c1"
    and f1: "flat c1 = enc_nat 3 (length (ap_payload p)) @ enc_nat 3 (unat (ap_time p)) @
     ucast (drop_bit 24 (ap_time p)) # enc_nat 3 (unat (ap_msid p)) @ ap_payload p @ enc_nat 4 (unat (ap_size p)) @ ys" by blast
  from fetch_uint32_eq [OF c1(2) f1 length_enc_nat] obtain c2 where
    c2: "ngx_rtmp_fetch_uint32 c1 3 = (NGX_OK, word_of_nat (be_nat (enc_nat 3 (length (ap_payload p)))), c2)" "chain_ok c2"
    and f2: "flat c2 = enc_nat 3 (unat (ap_time p)) @ ucast (drop_bit 24 (ap_time p)) #
      enc_nat 3 (unat (ap_msid p)) @ ap_payload p @ enc_nat 4 (unat (ap_size p)) @ ys" by blast
  from fetch_uint32_eq [OF c2(2) f2 length_enc_nat] obtain c3 where
    c3: "ngx_rtmp_fetch_uint32 c2 3 = (NGX_OK, word_of_nat (be_nat (enc_nat 3 (unat (ap_time p)))), c3)" "chain_ok c3"
    and f3: "flat c3 = ucast (drop_bit 24 (ap_time p)) # enc_nat 3 (unat (ap_msid p)) @ ap_payload p @ enc_nat 4 (unat (ap_size p)) @ ys"
    by blast
  from fetch_uint8_eq [OF c3(2) f3] obtain c4 where c4: "ngx_rtmp_fetch_uint8 c3 = (NGX_OK, ucast (drop_bit 24 (ap_time p)), c4)" "chain_ok c4"
    and f4: "flat c4 = enc_nat 3 (unat (ap_msid p)) @ ap_payload p @ enc_nat 4 (unat (ap_size p)) @ ys" by blast
  from fetch_uint32_eq [OF c4(2) f4 length_enc_nat] obtain c5 where
    c5: "ngx_rtmp_fetch_uint32 c4 3 = (NGX_OK, word_of_nat (be_nat (enc_nat 3 (unat (ap_msid p)))), c5)" "chain_ok c5"
    "flat c5 = ap_payload p @ enc_nat 4 (unat (ap_size p)) @ ys" by blast
  have m: "length (ap_payload p) mod 256 ^ 3 = length (ap_payload p)" "unat (ap_msid p) mod 256 ^ 3 = unat (ap_msid p)"
    using assms(3) by (simp_all add: part_ok_def)
  have "aggregate_header cl = Inr (ap_type p, word_of_nat (length (ap_payload p)), ap_time p, ap_msid p, c5)"
    unfolding aggregate_header_def c1(1) c2(1) c3(1) c4(1) c5(1) prod.case be_nat_enc_nat m time_bytes by simp
  then show ?thesis using c5(2,3) by blast
qed

lemma aggregate_loop_spec:
  assumes f: "\<And>s h c. chain_ok c \<Longrightarrow> receive s h c = f s h (flat c)"
  shows "chain_ok cl \<Longrightarrow> flat cl = concat (map enc_part ps) \<Longrightarrow> list_all part_ok ps \<Longrightarrow> length ps < fuel \<Longrightarrow>
    t0 = (case base of Some t \<Rightarrow> t | None \<Rightarrow> (case ps of [] \<Rightarrow> 0 | p # _ \<Rightarrow> ap_time p)) \<Longrightarrow>
    aggregate_loop fuel receive s h base cl = deliver_parts f s h t0 ps"
proof (induction ps arbitrary: fuel s base cl)
  case Nil
  then obtain k where k: "fuel = Suc k" by (cases fuel) auto
  have "aggregate_header cl = Inl NGX_OK"
    using fetch_end [OF Nil.prems(1)] Nil.prems(2) by (auto simp: aggregate_header_def ngx_rtmp_fetch_uint8_def split: prod.splits)
  then show ?case using k by simp
next
  case (Cons p ps)
  obtain k where k: "fuel = Suc k" using Cons.prems(4) by (cases fuel) auto
  have ok: "part_ok p" "list_all part_ok ps" using Cons.prems(3) by simp_all
  have ne: "cl \<noteq> []" using Cons.prems(2) by (auto simp: enc_part_def)
  have fl: "flat cl = enc_part p @ concat (map enc_part ps)" using Cons.prems(2) by simp
  from aggregate_header_spec [OF Cons.prems(1) fl ok(1)] obtain c1 where
    c1: "aggregate_header cl = Inr (ap_type p, word_of_nat (length (ap_payload p)), ap_time p, ap_msid p, c1)" "chain_ok c1"
    and f1: "flat c1 = ap_payload p @ enc_nat 4 (unat (ap_size p)) @ concat (map enc_part ps)" by blast
  have n: "unat (word_of_nat (length (ap_payload p)) :: u32) = length (ap_payload p)"
    using ok(1) by (simp add: part_ok_def unat_of_nat)
  have "length (ap_payload p) < 0 + length (flat c1)" by (simp add: f1 del: enc_nat.simps)
  from limit_chain_spec [OF c1(2) _ this] f1 obtain part rest where
    l: "limit_chain (length (ap_payload p)) 0 c1 = Some (part, rest)" "flat part = ap_payload p" "chain_ok part" "chain_ok rest"
    and f2: "flat rest = enc_nat 4 (unat (ap_size p)) @ concat (map enc_part ps)" by (auto simp del: enc_nat.simps)
  from fetch_uint32_eq [OF l(4) f2 length_enc_nat] obtain x c2 where
    c2: "ngx_rtmp_fetch_uint32 rest 4 = (NGX_OK, x, c2)" "flat c2 = concat (map enc_part ps)" "chain_ok c2" by blast
  have t0: "t0 = (case base of None \<Rightarrow> ap_time p | Some t \<Rightarrow> t)" using Cons.prems(5) by (simp split: option.splits)
  have IH: "aggregate_loop k receive s h (Some t0) c2 = deliver_parts f s h t0 ps" for s
    using Cons.IH [OF c2(3,2) ok(2), of k "Some t0"] Cons.prems(4) k by simp
  show ?case
    unfolding k aggregate_loop.simps c1(1) sum.case prod.case Let_def n l(1) option.case f [OF l(3)] l(2) t0 [symmetric] c2(1) IH
      deliver_parts.simps simp_thms if_False
    using ne by simp
qed

lemma length_parts: "length ps \<le> length (concat (map enc_part ps))"
  by (induction ps) (simp_all add: enc_part_def)

text \<open>
  C20: an aggregate message is received as its parts are, in their order and with their times moved to that
  of the message, however it is spread over buffers, up to the first part whose handler fails.
\<close>

theorem aggregate_delivers:
  assumes "chain_ok inn" "flat inn = concat (map enc_part ps)" "list_all part_ok ps"
    and "\<And>s h c. chain_ok c \<Longrightarrow> receive s h c = f s h (flat c)"
  shows "ngx_rtmp_aggregate_message_handler receive s h inn =
    deliver_parts f s h (case ps of [] \<Rightarrow> 0 | p # _ \<Rightarrow> ap_time p) ps"
  unfolding ngx_rtmp_aggregate_message_handler_def
  by (rule aggregate_loop_spec [where f = f, OF assms(4,1,2,3)]) (use assms(2) length_parts [of ps] in simp_all)


text \<open>Two parts over three buffers: a handler that keeps what it gets.\<close>

definition two_parts :: "aggregate_part list" where
  "two_parts = [\<lparr>ap_type = 8, ap_time = 100, ap_msid = 0, ap_payload = [7, 8, 9], ap_size = 14\<rparr>,
     \<lparr>ap_type = 9, ap_time = 140, ap_msid = 0, ap_payload = [5], ap_size = 12\<rparr>]"

definition log_parts ::
    "((byte \<times> u32 \<times> bytes) list, unit) rtmp_session \<Rightarrow> rtmp_header \<Rightarrow> bytes \<Rightarrow> (ngx_rc \<times> ((byte \<times> u32 \<times> bytes) list, unit) rtmp_session) run" where
  "log_parts s h x = Ret (NGX_OK, s\<lparr>s_world := s_world s @ [(mh_type h, mh_timestamp h, x)]\<rparr>)"

definition two_part_chain :: chain where
  "two_part_chain = [\<lparr>b_mem = take 13 (concat (map enc_part two_parts)), b_pos = 0, b_last = 13\<rparr>,
     \<lparr>b_mem = [], b_pos = 0, b_last = 0\<rparr>,
     \<lparr>b_mem = drop 13 (concat (map enc_part two_parts)), b_pos = 0, b_last = 21\<rparr>]"

theorem aggregate_delivers_witness:
  "\<forall>s. \<exists>s'. ngx_rtmp_aggregate_message_handler (\<lambda>s h c. log_parts s h (flat c)) s (zero_mh\<lparr>mh_timestamp := 1000\<rparr>) two_part_chain = Ret (NGX_OK, s') \<and>
    s_world s' = s_world s @ [(8, 1000, [7, 8, 9]), (9, 1040, [5])]"
proof
  fix s :: "((byte \<times> u32 \<times> bytes) list, unit) rtmp_session"
  have l: "length (concat (map enc_part two_parts)) = 34" by (simp add: two_parts_def enc_part_def)
  then have c: "chain_ok two_part_chain" "flat two_part_chain = concat (map enc_part two_parts)"
    by (simp_all add: two_part_chain_def buf_ok_def buf_content_def)
  have "list_all part_ok two_parts" by (simp add: two_parts_def part_ok_def)
  from aggregate_delivers [OF c this, of "\<lambda>s h c. log_parts s h (flat c)" log_parts s]
  show "\<exists>s'. ngx_rtmp_aggregate_message_handler (\<lambda>s h c. log_parts s h (flat c)) s (zero_mh\<lparr>mh_timestamp := 1000\<rparr>) two_part_chain = Ret (NGX_OK, s') \<and>
    s_world s' = s_world s @ [(8, 1000, [7, 8, 9]), (9, 1040, [5])]"
    by (simp add: two_parts_def log_parts_def zero_mh_def)
qed

end
