(* ===== verification/Rtmp_Command.thy ===== *)
theory Rtmp_Command
  imports Rtmp_Handlers
begin

text \<open>
  What \<open>ngx_rtmp_amf_message_handler\<close> does with a command: the name is read by the AMF reader, and the
  handlers of the name get the chain from behind it.
\<close>

section \<open>Commands\<close>

lemma amf_get_link: "ngx_rtmp_amf_get ctx n = (NGX_OK, x, ctx') \<Longrightarrow> 0 < n \<or> ax_link ctx \<noteq> [] \<Longrightarrow> ax_link ctx' \<noteq> []"
proof -
  have l: "amf_get_loop cl off n = (x, Some (l, off')) \<Longrightarrow> l \<noteq> []" for cl off n x l off'
    by (induction cl off n arbitrary: x rule: amf_get_loop.induct) (auto simp: Let_def split: if_splits prod.splits)
  show "ngx_rtmp_amf_get ctx n = (NGX_OK, x, ctx') \<Longrightarrow> 0 < n \<or> ax_link ctx \<noteq> [] \<Longrightarrow> ax_link ctx' \<noteq> []"
    by (auto simp: ngx_rtmp_amf_get_def dest: l split: if_splits prod.splits option.splits)
qed

lemma ax_rest_link: "ax_link ctx = b # cl \<Longrightarrow> flat (b\<lparr>b_pos := b_pos b + ax_offset ctx\<rparr> # cl) = ax_rest ctx"
  by (simp add: ax_rest_def buf_content_def drop_take add.commute)

text \<open>What stands in front of the name of a command.\<close>

definition is_amf3 :: "byte \<Rightarrow> bool" where
  "is_amf3 type \<longleftrightarrow> type \<in> {NGX_RTMP_MSG_AMF3_SHARED, NGX_RTMP_MSG_AMF3_META, NGX_RTMP_MSG_AMF3_CMD}"

definition is_shared :: "byte \<Rightarrow> bool" where
  "is_shared type \<longleftrightarrow> type = NGX_RTMP_MSG_AMF_SHARED \<or> type = NGX_RTMP_MSG_AMF3_SHARED"

definition enc_command :: "byte \<Rightarrow> bytes \<Rightarrow> bytes" where
  "enc_command type name = (if is_shared type then [] else [2]) @ enc_nat 2 (length name) @ name"

lemma read_name:
  assumes r: "ax_rest ctx = enc_nat 2 (length name) @ name @ rest" and n: "length name < 128"
  shows "\<exists>ctx'. amf_read_string ctx (Mem (replicate 128 0)) 128 = Ret (NGX_OK, Mem (put_at (replicate 128 0) 0 name), ctx') \<and>
    ax_rest ctx' = rest \<and> ax_link ctx' \<noteq> []"
proof -
  have l: "2 \<le> length (ax_rest ctx)" by (simp add: r del: enc_nat.simps)
  have c1: "ngx_rtmp_amf_get ctx 2 = (NGX_OK, enc_nat 2 (length name), amf.adv ctx 2)" "ax_rest (amf.adv ctx 2) = name @ rest"
    using amf.rd_eq [OF TrueI l] amf.rest_adv [OF TrueI l] r by (simp_all del: enc_nat.simps)
  then have nl: "ax_link (amf.adv ctx 2) \<noteq> []" using amf_get_link by fastforce
  have l2: "length name \<le> length (ax_rest (amf.adv ctx 2))" by (simp add: c1(2))
  obtain c2 where c2: "ngx_rtmp_amf_get (amf.adv ctx 2) (length name) = (NGX_OK, name, c2)" "ax_rest c2 = rest"
    using amf.rd_eq [OF TrueI l2] amf.rest_adv [OF TrueI l2] c1(2) by simp
  have "ax_link c2 \<noteq> []" using amf_get_link [OF c2(1)] nl by simp
  moreover have "be_nat (enc_nat 2 (length name)) = length name" using n by simp
  moreover have "(put_at (replicate 128 0) 0 name)[length name := 0] = put_at (replicate 128 0) 0 name"
    using n by (simp add: put_at_def list_update_append list_update_same_conv hd_drop_conv_nth)
  ultimately show ?thesis using n c2
    by (simp add: amf_read_string_def c1(1) amf_get_to_def del: enc_nat.simps)
qed

lemma read_command:
  assumes r: "ax_rest ctx = enc_command type name @ rest" and n: "length name < 128"
  shows "\<exists>ctx'. amf_one (Suc k) ctx (Some (amf_name_elt type)) =
      Ret (Next, Some (set_el_data (Mem (put_at (replicate 128 0) 0 name)) (amf_name_elt type)), ctx') \<and>
    ax_rest ctx' = rest \<and> ax_link ctx' \<noteq> []"
proof (cases "is_shared type")
  case True
  then have e: "amf_name_elt type = Amf_elt (NGX_RTMP_AMF_STRING OR NGX_RTMP_AMF_TYPELESS) [] (Mem (replicate 128 0)) 128"
    by (simp add: amf_name_elt_def is_shared_def)
  have t: "amf_read_type ctx (Some (amf_name_elt type)) =
      Ret (Inr (NGX_RTMP_AMF_STRING, Mem (replicate 128 0), True), Some (amf_name_elt type), ctx)"
    by (simp add: amf_read_type_def e)
  have "ax_rest ctx = enc_nat 2 (length name) @ name @ rest" using r True by (simp add: enc_command_def del: enc_nat.simps)
  from read_name [OF this n] obtain ctx' where
    "amf_read_string ctx (Mem (replicate 128 0)) 128 = Ret (NGX_OK, Mem (put_at (replicate 128 0) 0 name), ctx')"
    "ax_rest ctx' = rest" "ax_link ctx' \<noteq> []" by blast
  then show ?thesis unfolding amf_one.simps t by (simp add: amf_read_scalar_def e)
next
  case False
  then have e: "amf_name_elt type = Amf_elt NGX_RTMP_AMF_STRING [] (Mem (replicate 128 0)) 128"
    by (simp add: amf_name_elt_def is_shared_def)
  have x: "ax_rest ctx = 2 # enc_nat 2 (length name) @ name @ rest" using r False by (simp add: enc_command_def del: enc_nat.simps)
  then have l: "1 \<le> length (ax_rest ctx)" by simp
  have g: "ngx_rtmp_amf_get ctx 1 = (NGX_OK, [2], amf.adv ctx 1)" "ax_rest (amf.adv ctx 1) = enc_nat 2 (length name) @ name @ rest"
    using amf.rd_eq [OF TrueI l] amf.rest_adv [OF TrueI l] x by (simp_all del: enc_nat.simps)
  have t: "amf_read_type ctx (Some (amf_name_elt type)) =
      Ret (Inr (NGX_RTMP_AMF_STRING, Mem (replicate 128 0), True), Some (amf_name_elt type), amf.adv ctx 1)"
    using g(1) by (simp add: amf_read_type_def e ngx_rtmp_amf_is_compatible_type_def)
  from read_name [OF g(2) n] obtain ctx' where
    "amf_read_string (amf.adv ctx 1) (Mem (replicate 128 0)) 128 = Ret (NGX_OK, Mem (put_at (replicate 128 0) 0 name), ctx')"
    "ax_rest ctx' = rest" "ax_link ctx' \<noteq> []" by blast
  then show ?thesis unfolding amf_one.simps t by (simp add: amf_read_scalar_def e)
qed

lemma c_string_name:
  assumes "0 \<notin> set name" "length name < 128"
  shows "c_string (Mem (put_at (replicate 128 0) 0 name)) = name"
proof -
  have "drop (length name) (replicate 128 (0 :: byte)) = 0 # replicate (127 - length name) 0"
    using assms(2) by (simp add: Suc_diff_le flip: replicate_Suc)
  moreover have "\<forall>x \<in> set name. x \<noteq> 0" using assms(1) by metis
  ultimately show ?thesis by (simp add: c_string_def put_at_def takeWhile_append2)
qed

lemma skip_prefix:
  assumes "flat inn = (if is_amf3 type then [x] else []) @ ys" "is_amf3 type \<Longrightarrow> \<exists>b cl. inn = b # cl \<and> buf_content b \<noteq> []"
  shows "\<exists>inn'. skip_amf3_prefix type inn = Ret inn' \<and> flat inn' = ys"
proof (cases "is_amf3 type")
  case True
  with assms(2) obtain b cl where b: "inn = b # cl" "buf_content b \<noteq> []" by blast
  then have l: "b_pos b < b_last b" by (auto simp: buf_content_def)
  have "flat (b\<lparr>b_pos := b_pos b + 1\<rparr> # cl) = drop 1 (buf_content b) @ flat cl" by (simp add: buf_content_def drop_take)
  also have "\<dots> = drop 1 (flat inn)" using b by (cases "buf_content b") simp_all
  finally have "flat (b\<lparr>b_pos := b_pos b + 1\<rparr> # cl) = ys" using assms(1) True by simp
  then show ?thesis using True b(1) l by (auto simp: skip_amf3_prefix_def is_amf3_def)
next
  case False
  then show ?thesis using assms(1) by (auto simp: skip_amf3_prefix_def is_amf3_def)
qed

text \<open>
  C21: an AMF message whose name is \<open>name\<close> (with or without its type, and behind the AMF3 prefix, as the
  type of the message has it) goes to the handlers of the name in small letters, one after the other,
  and they find the data right behind the name.
\<close>

theorem amf_command_dispatch:
  assumes "flat inn = (if is_amf3 (mh_type h) then [x] else []) @ enc_command (mh_type h) name @ rest"
    and "is_amf3 (mh_type h) \<Longrightarrow> \<exists>b cl. inn = b # cl \<and> buf_content b \<noteq> []"
    and "0 \<notin> set name" "length name < 128"
  shows "\<exists>cl. flat cl = rest \<and>
    ngx_rtmp_amf_message_handler amf_hash call s h inn = rtmp_handlers call (amf_hash (strlow name)) s h cl"
proof -
  from skip_prefix [OF assms(1,2)] obtain inn' where
    p: "skip_amf3_prefix (mh_type h) inn = Ret inn'" "flat inn' = enc_command (mh_type h) name @ rest" by blast
  have "ax_rest \<lparr>ax_link = inn', ax_offset = 0\<rparr> = enc_command (mh_type h) name @ rest"
    using p(2) by (cases inn') (simp_all add: ax_rest_def)
  from read_command [OF this assms(4), of "Suc (length (flat inn'))"] obtain ctx' where
    r: "amf_one (length (flat inn') + 2) \<lparr>ax_link = inn', ax_offset = 0\<rparr> (Some (amf_name_elt (mh_type h))) =
      Ret (Next, Some (set_el_data (Mem (put_at (replicate 128 0) 0 name)) (amf_name_elt (mh_type h))), ctx')"
    and c: "ax_rest ctx' = rest" "ax_link ctx' \<noteq> []" by auto
  obtain b cl where b: "ax_link ctx' = b # cl" using c(2) by (cases "ax_link ctx'") auto
  have n: "c_string (el_data (set_el_data (Mem (put_at (replicate 128 0) 0 name)) (amf_name_elt (mh_type h)))) = name"
    using c_string_name [OF assms(3,4)] by (cases "amf_name_elt (mh_type h)") simp
  have "ngx_rtmp_amf_message_handler amf_hash call s h inn =
      rtmp_handlers call (amf_hash (strlow name)) s h (b\<lparr>b_pos := b_pos b + ax_offset ctx'\<rparr> # cl)"
    unfolding ngx_rtmp_amf_message_handler_def p(1) run_bind.simps ngx_rtmp_amf_read.simps r prod.case amf_turn.case
      option.sel by (simp add: n b c_string_name [OF assms(3,4)])
  then show ?thesis using ax_rest_link [OF b] c(1) by blast
qed

definition log_command :: "(bytes, (bytes \<times> bytes) list, unit) rtmp_call" where
  "log_command name s h inn = Ret (NGX_OK, s\<lparr>s_world := s_world s @ [(name, flat inn)]\<rparr>)"

theorem amf_command_dispatch_witness:
  "\<forall>s. \<exists>s'. ngx_rtmp_amf_message_handler (\<lambda>name. [name, rev name]) log_command s (zero_mh\<lparr>mh_type := NGX_RTMP_MSG_AMF3_CMD\<rparr>)
      [\<lparr>b_mem = [0, 2, 0], b_pos = 0, b_last = 3\<rparr>, \<lparr>b_mem = [3, 65, 98, 67, 5], b_pos = 0, b_last = 5\<rparr>] = Ret (NGX_OK, s') \<and>
    s_world s' = s_world s @ [([97, 98, 99], [5]), ([99, 98, 97], [5])]"
proof
  fix s :: "((bytes \<times> bytes) list, unit) rtmp_session"
  let ?h = "zero_mh\<lparr>mh_type := NGX_RTMP_MSG_AMF3_CMD\<rparr>"
  let ?in = "[\<lparr>b_mem = [0, 2, 0], b_pos = 0, b_last = 3\<rparr>, \<lparr>b_mem = [3, 65, 98, 67, 5], b_pos = 0, b_last = 5\<rparr>]"
  have f: "flat ?in = (if is_amf3 (mh_type ?h) then [0] else []) @ enc_command (mh_type ?h) [65, 98, 67] @ [5]"
    by code_simp
  have b: "\<exists>b cl. ?in = b # cl \<and> buf_content b \<noteq> []" by (simp add: buf_content_def)
  have n: "0 \<notin> set [65, 98, 67 :: byte]" "length [65, 98, 67 :: byte] < 128" by simp_all
  have "strlow [65, 98, 67] = [97, 98, 99]" by (simp add: strlow_def)
  moreover obtain cl where "flat cl = [5]"
    "ngx_rtmp_amf_message_handler (\<lambda>name. [name, rev name]) log_command s ?h ?in =
      rtmp_handlers log_command [strlow [65, 98, 67], rev (strlow [65, 98, 67])] s ?h cl"
    using amf_command_dispatch [OF f b n, of "\<lambda>name. [name, rev name]" log_command s] by (elim exE conjE) (rule that)
  ultimately show "\<exists>s'. ngx_rtmp_amf_message_handler (\<lambda>name. [name, rev name]) log_command s ?h ?in = Ret (NGX_OK, s') \<and>
    s_world s' = s_world s @ [([97, 98, 99], [5]), ([99, 98, 97], [5])]" by (simp add: log_command_def)
qed

end
