(* ===== verification/Rtmp_Uri.thy ===== *)
theory Rtmp_Uri
  imports Rtmp_Types "HOL-Library.Sublist"
begin

text \<open>
  The request line of a session (ngx\_rtmp\_parse.c), the URL the client sends: the parser that marks its
  parts, and the one that takes \<open>/./\<close>, \<open>/../\<close>, quoted characters and repeated slashes out of the path.
  Pointers into the line are offsets, and NULL is \<open>None\<close>; the pointers are those of a session whose line
  is parsed for the first time (they are not reset between calls).  The code for Windows is left out.
\<close>

section \<open>The request line\<close>

definition usual_table :: "u32 list" where
  "usual_table = [0xffffdbfe, 0x7fff37d6, 0xffffffff, 0xffffffff, 0xffffffff, 0xffffffff, 0xffffffff, 0xffffffff]"

definition usual :: "byte \<Rightarrow> bool" where
  "usual ch \<longleftrightarrow> bit (usual_table ! unat (drop_bit 5 ch)) (unat (ch AND 0x1f))"

record rtmp_uri =
  ru_schema_start :: "nat option"
  ru_schema_end :: "nat option"
  ru_host_start :: "nat option"
  ru_host_end :: "nat option"
  ru_port_start :: "nat option"
  ru_port_end :: "nat option"
  ru_uri_start :: "nat option"
  ru_uri_end :: "nat option"
  ru_args_start :: "nat option"
  ru_complex :: bool
  ru_quoted :: bool
  ru_plus :: bool

definition no_uri :: rtmp_uri where
  "no_uri = \<lparr>ru_schema_start = None, ru_schema_end = None, ru_host_start = None, ru_host_end = None, ru_port_start = None,
     ru_port_end = None, ru_uri_start = None, ru_uri_end = None, ru_args_start = None, ru_complex = False, ru_quoted = False, ru_plus = False\<rparr>"

datatype line_state = Sw_start | Sw_schema | Sw_schema_slash | Sw_schema_slash_slash | Sw_host_start | Sw_host | Sw_host_end
  | Sw_host_ip_literal | Sw_port | Sw_after_slash_in_uri | Sw_check_uri | Sw_uri

definition letter :: "byte \<Rightarrow> bool" where
  "letter ch \<longleftrightarrow> 97 \<le> ch OR 0x20 \<and> ch OR 0x20 \<le> 122"

definition digit :: "byte \<Rightarrow> bool" where
  "digit ch \<longleftrightarrow> 48 \<le> ch \<and> ch \<le> 57"

text \<open>The cases of the switch; \<open>Inl\<close> is \<open>NGX_RTMP_PARSE_INVALID_REQUEST\<close>, with what has been set.\<close>

type_synonym line_turn = "rtmp_uri + line_state \<times> rtmp_uri"

definition line_schema :: "nat \<Rightarrow> byte \<Rightarrow> rtmp_uri \<Rightarrow> line_turn" where
  "line_schema p ch r =
     (if letter ch then Inr (Sw_schema, r)
      else if ch = 58 then Inr (Sw_schema_slash, r\<lparr>ru_schema_end := Some p\<rparr>) else Inl r)"

definition line_host_end :: "nat \<Rightarrow> byte \<Rightarrow> rtmp_uri \<Rightarrow> line_turn" where
  "line_host_end p ch r =
     (let r = r\<lparr>ru_host_end := Some p\<rparr>
      in if ch = 58 then Inr (Sw_port, r\<lparr>ru_port_start := Some (p + 1)\<rparr>)
         else if ch = 47 then Inr (Sw_after_slash_in_uri, r\<lparr>ru_uri_start := Some p\<rparr>) else Inl r)"

definition line_host :: "nat \<Rightarrow> byte \<Rightarrow> rtmp_uri \<Rightarrow> line_turn" where
  "line_host p ch r =
     (if letter ch \<or> digit ch \<or> ch = 46 \<or> ch = 45 then Inr (Sw_host, r) else line_host_end p ch r)"

text \<open>\<open>unreserved\<close> and \<open>sub-delims\<close> of a literal address.\<close>

definition ip_literal_chars :: "byte list" where
  "ip_literal_chars = [45, 46, 95, 126, 33, 36, 38, 39, 40, 41, 42, 43, 44, 59, 61]"

definition line_after_slash :: "nat \<Rightarrow> byte \<Rightarrow> rtmp_uri \<Rightarrow> line_turn" where
  "line_after_slash p ch r =
     (if usual ch then Inr (Sw_check_uri, r)
      else if ch = 46 \<or> ch = 47 \<or> ch = 35 then Inr (Sw_uri, r\<lparr>ru_complex := True\<rparr>)
      else if ch = 37 then Inr (Sw_uri, r\<lparr>ru_quoted := True\<rparr>)
      else if ch = 63 then Inr (Sw_uri, r\<lparr>ru_args_start := Some (p + 1)\<rparr>)
      else if ch = 43 then Inr (Sw_after_slash_in_uri, r\<lparr>ru_plus := True\<rparr>)
      else if ch = 0 then Inl r
      else Inr (Sw_check_uri, r))"

definition line_check_uri :: "nat \<Rightarrow> byte \<Rightarrow> rtmp_uri \<Rightarrow> line_turn" where
  "line_check_uri p ch r =
     (if usual ch then Inr (Sw_check_uri, r)
      else if ch = 47 then Inr (Sw_after_slash_in_uri, r)
      else if ch = 46 then Inr (Sw_check_uri, r)
      else if ch = 37 then Inr (Sw_uri, r\<lparr>ru_quoted := True\<rparr>)
      else if ch = 63 then Inr (Sw_uri, r\<lparr>ru_args_start := Some (p + 1)\<rparr>)
      else if ch = 35 then Inr (Sw_uri, r\<lparr>ru_complex := True\<rparr>)
      else if ch = 43 then Inr (Sw_check_uri, r\<lparr>ru_plus := True\<rparr>)
      else if ch = 0 then Inl r
      else Inr (Sw_check_uri, r))"

fun line_step :: "line_state \<Rightarrow> nat \<Rightarrow> byte \<Rightarrow> rtmp_uri \<Rightarrow> line_turn" where
  "line_step Sw_start p ch r = line_schema p ch (r\<lparr>ru_schema_start := Some p\<rparr>)"
| "line_step Sw_schema p ch r = line_schema p ch r"
| "line_step Sw_schema_slash p ch r = (if ch = 47 then Inr (Sw_schema_slash_slash, r) else Inl r)"
| "line_step Sw_schema_slash_slash p ch r = (if ch = 47 then Inr (Sw_host_start, r) else Inl r)"
| "line_step Sw_host_start p ch r =
     (let r = r\<lparr>ru_host_start := Some p\<rparr> in if ch = 91 then Inr (Sw_host_ip_literal, r) else line_host p ch r)"
| "line_step Sw_host p ch r = line_host p ch r"
| "line_step Sw_host_end p ch r = line_host_end p ch r"
| "line_step Sw_host_ip_literal p ch r =
     (if digit ch \<or> letter ch \<or> ch = 58 then Inr (Sw_host_ip_literal, r)
      else if ch = 93 then Inr (Sw_host_end, r)
      else if ch \<in> set ip_literal_chars then Inr (Sw_host_ip_literal, r) else Inl r)"
| "line_step Sw_port p ch r =
     (if digit ch then Inr (Sw_port, r)
      else if ch = 47 then Inr (Sw_after_slash_in_uri, r\<lparr>ru_port_end := Some p, ru_uri_start := Some p\<rparr>) else Inl r)"
| "line_step Sw_after_slash_in_uri p ch r = line_after_slash p ch r"
| "line_step Sw_check_uri p ch r = line_check_uri p ch r"
| "line_step Sw_uri p ch r =
     (if usual ch then Inr (Sw_uri, r)
      else if ch = 35 then Inr (Sw_uri, r\<lparr>ru_complex := True\<rparr>)
      else if ch = 0 then Inl r else Inr (Sw_uri, r))"

fun line_loop :: "line_state \<Rightarrow> nat \<Rightarrow> bytes \<Rightarrow> rtmp_uri \<Rightarrow> bool \<times> rtmp_uri" where
  "line_loop st p [] r = (True, r\<lparr>ru_uri_end := Some p\<rparr>)"
| "line_loop st p (ch # xs) r =
     (case line_step st p ch r of Inl r \<Rightarrow> (False, r) | Inr (st, r) \<Rightarrow> line_loop st (p + 1) xs r)"

definition ngx_rtmp_parse_request_line :: "bytes \<Rightarrow> rtmp_uri \<Rightarrow> bool \<times> rtmp_uri" where
  "ngx_rtmp_parse_request_line line r = line_loop Sw_start 0 line r"

section \<open>Complex paths\<close>

text \<open>
  The state of the second parser: \<open>ur_rest\<close> are the bytes from \<open>p\<close> to the one behind the path, \<open>ur_mem\<close> the
  memory at \<open>s->uri.data\<close> with what the allocator left there, and \<open>ur_u\<close> is \<open>u\<close>.
\<close>

datatype uri_state = Sw_usual | Sw_slash | Sw_dot | Sw_dot_dot | Sw_quoted | Sw_quoted_second

record uri_run =
  ur_state :: uri_state
  ur_quoted_state :: uri_state
  ur_decoded :: byte
  ur_ch :: byte
  ur_rest :: bytes
  ur_mem :: bytes
  ur_u :: nat
  ur_quoted :: bool
  ur_plus :: bool

datatype uri_turn = Turn uri_run | To_args uri_run | To_done uri_run | Invalid uri_run

text \<open>\<open>ch = *p++\<close>, and \<open>*u++ = ch\<close> before it.\<close>

definition uri_next :: "uri_run \<Rightarrow> uri_run" where
  "uri_next r = r\<lparr>ur_ch := hd (ur_rest r), ur_rest := tl (ur_rest r)\<rparr>"

definition uri_put :: "uri_run \<Rightarrow> uri_turn run" where
  "uri_put r =
     (if ur_u r < length (ur_mem r)
      then Ret (Turn (uri_next (r\<lparr>ur_mem := (ur_mem r)[ur_u r := ur_ch r], ur_u := ur_u r + 1\<rparr>)))
      else Fault)"

text \<open>The cases the first four states have in common.\<close>

definition uri_other :: "uri_run \<Rightarrow> uri_turn run" where
  "uri_other r =
     (let ch = ur_ch r
      in if ch = 37 then Ret (Turn (uri_next (r\<lparr>ur_quoted_state := ur_state r, ur_state := Sw_quoted\<rparr>)))
         else if ch = 63 then Ret (To_args r)
         else if ch = 35 then Ret (To_done r)
         else uri_put (r\<lparr>ur_plus := (ur_plus r \<or> ch = 43), ur_state := Sw_usual\<rparr>))"

text \<open>Back to the slash in front of the last segment; \<open>k\<close> bytes are left to look at.\<close>

fun prev_slash :: "bytes \<Rightarrow> nat \<Rightarrow> nat option" where
  "prev_slash m 0 = None"
| "prev_slash m (Suc k) = (if m ! k = 47 then Some (Suc k) else prev_slash m k)"

definition hex_value :: "byte \<Rightarrow> byte option" where
  "hex_value ch =
     (if digit ch then Some (ch - 48)
      else if 97 \<le> ch OR 0x20 \<and> ch OR 0x20 \<le> 102 then Some ((ch OR 0x20) - 97 + 10) else None)"

definition uri_quoted_second :: "uri_run \<Rightarrow> uri_turn run" where
  "uri_quoted_second r =
     (if digit (ur_ch r) then
        let ch = push_bit 4 (ur_decoded r) + ur_ch r - 48
        in if ch = 37 \<or> ch = 35 then uri_put (r\<lparr>ur_ch := ch, ur_state := Sw_usual\<rparr>)
           else if ch = 0 then Ret (Invalid r)
           else Ret (Turn (r\<lparr>ur_ch := ch, ur_state := ur_quoted_state r\<rparr>))
      else if 97 \<le> ur_ch r OR 0x20 \<and> ur_ch r OR 0x20 \<le> 102 then
        let ch = push_bit 4 (ur_decoded r) + (ur_ch r OR 0x20) - 97 + 10
        in if ch = 63 then uri_put (r\<lparr>ur_ch := ch, ur_state := Sw_usual\<rparr>)
           else Ret (Turn (r\<lparr>ur_ch := ch, ur_plus := (ur_plus r \<or> ch = 43), ur_state := ur_quoted_state r\<rparr>))
      else Ret (Invalid r))"

definition uri_step :: "bool \<Rightarrow> uri_run \<Rightarrow> uri_turn run" where
  "uri_step merge_slashes r =
     (let ch = ur_ch r
      in case ur_state r of
           Sw_usual \<Rightarrow>
             if usual ch then uri_put r
             else if ch = 47 then uri_put (r\<lparr>ur_state := Sw_slash\<rparr>)
             else uri_other r
         | Sw_slash \<Rightarrow>
             if usual ch then uri_put (r\<lparr>ur_state := Sw_usual\<rparr>)
             else if ch = 47 then (if merge_slashes then Ret (Turn (uri_next r)) else uri_put r)
             else if ch = 46 then uri_put (r\<lparr>ur_state := Sw_dot\<rparr>)
             else uri_other r
         | Sw_dot \<Rightarrow>
             if usual ch then uri_put (r\<lparr>ur_state := Sw_usual\<rparr>)
             else if ch = 47 then Ret (Turn (uri_next (r\<lparr>ur_state := Sw_slash, ur_u := ur_u r - 1\<rparr>)))
             else if ch = 46 then uri_put (r\<lparr>ur_state := Sw_dot_dot\<rparr>)
             else uri_other r
         | Sw_dot_dot \<Rightarrow>
             if usual ch then uri_put (r\<lparr>ur_state := Sw_usual\<rparr>)
             else if ch = 47 then
               (case prev_slash (ur_mem r) (ur_u r - 4) of
                  None \<Rightarrow> Ret (Invalid r)
                | Some u \<Rightarrow> Ret (Turn (uri_next (r\<lparr>ur_state := Sw_slash, ur_u := u\<rparr>))))
             else uri_other r
         | Sw_quoted \<Rightarrow>
             (case hex_value ch of
                None \<Rightarrow> Ret (Invalid (r\<lparr>ur_quoted := True\<rparr>))
              | Some d \<Rightarrow> Ret (Turn (uri_next (r\<lparr>ur_quoted := True, ur_decoded := d, ur_state := Sw_quoted_second\<rparr>))))
         | Sw_quoted_second \<Rightarrow> uri_quoted_second r)"

text \<open>Each turn but that of the second hexadecimal digit takes a byte, so twice the bytes is enough fuel.\<close>

fun uri_loop :: "nat \<Rightarrow> bool \<Rightarrow> uri_run \<Rightarrow> uri_turn run" where
  "uri_loop 0 merge_slashes r = Out_of_fuel"
| "uri_loop (Suc k) merge_slashes r =
     (if ur_rest r = [] then Ret (To_done r)
      else run_bind (uri_step merge_slashes r) (\<lambda>t. case t of Turn r \<Rightarrow> uri_loop k merge_slashes r | _ \<Rightarrow> Ret t))"

text \<open>
  The path, the arguments if they end before the end of the line, and where they start in the path as it
  was sent.  At \<open>done\<close> the byte at \<open>u\<close>, which has not been written, decides about the length.
\<close>

record uri_result =
  ux_uri :: bytes
  ux_args :: "bytes option"
  ux_args_start :: "nat option"

fun uri_finish :: "nat \<Rightarrow> uri_turn \<Rightarrow> uri_result option run" where
  "uri_finish n (Turn r) = Fault"
| "uri_finish n (Invalid r) = Ret None"
| "uri_finish n (To_done r) =
     (if ur_u r < length (ur_mem r)
      then Ret (Some \<lparr>ux_uri = take (if ur_mem r ! ur_u r = 13 then ur_u r else ur_u r + 1) (ur_mem r), ux_args = None, ux_args_start = None\<rparr>)
      else Fault)"
| "uri_finish n (To_args r) =
     (let xs = butlast (ur_rest r); args = takeWhile (\<lambda>c. c \<noteq> 35) xs
      in Ret (Some (if 35 \<in> set xs
           then \<lparr>ux_uri = take (ur_u r) (ur_mem r), ux_args = Some args, ux_args_start = None\<rparr>
           else \<lparr>ux_uri = take (ur_u r) (ur_mem r), ux_args = None, ux_args_start = Some (n + 1 - length (ur_rest r))\<rparr>)))"

text \<open>\<open>x\<close> is the path as it was sent, \<open>behind\<close> the byte behind it, \<open>m\<close> the memory for the result.\<close>

definition uri_begin :: "bytes \<Rightarrow> byte \<Rightarrow> bytes \<Rightarrow> uri_run" where
  "uri_begin x behind m = uri_next \<lparr>ur_state = Sw_usual, ur_quoted_state = Sw_usual, ur_decoded = 0, ur_ch = 0,
     ur_rest = x @ [behind], ur_mem = m, ur_u = 0, ur_quoted = False, ur_plus = False\<rparr>"

definition ngx_rtmp_parse_complex_uri :: "bool \<Rightarrow> bytes \<Rightarrow> byte \<Rightarrow> bytes \<Rightarrow> uri_result option run" where
  "ngx_rtmp_parse_complex_uri merge_slashes x behind m =
     run_bind (uri_loop (2 * length x + 2) merge_slashes (uri_begin x behind m)) (uri_finish (length x))"

section \<open>The path of a request\<close>

text \<open>
  \<open>s->uri\<close>, \<open>s->args\<close> and \<open>s->unparsed_uri\<close>.  A line without a path leaves \<open>s->uri_start\<close> NULL, and the
  length is then the number of the address at which the line ends: a fault of the model.
\<close>

record rtmp_request =
  rq_uri :: bytes
  rq_args :: bytes
  rq_unparsed :: bytes

abbreviation slice :: "nat \<Rightarrow> nat \<Rightarrow> bytes \<Rightarrow> bytes" where
  "slice i j x \<equiv> take (j - i) (drop i x)"

definition ngx_rtmp_process_request_uri ::
    "'p pool_ops \<Rightarrow> 'p \<Rightarrow> bool \<Rightarrow> bytes \<Rightarrow> byte \<Rightarrow> rtmp_uri \<Rightarrow> (rtmp_request option \<times> 'p) run" where
  "ngx_rtmp_process_request_uri ops pool merge_slashes line behind r =
     (case (ru_uri_start r, ru_uri_end r) of
        (Some i, Some j) \<Rightarrow>
          let k = (case ru_args_start r of Some a \<Rightarrow> a - 1 | None \<Rightarrow> j);
              args = (\<lambda>a. case a of Some a \<Rightarrow> if j > a then slice a j line else [] | None \<Rightarrow> [])
          in if ru_complex r \<or> ru_quoted r then
               (case p_alloc ops pool (k - i + 1) of
                  None \<Rightarrow> Ret (None, pool)
                | Some (pool, m) \<Rightarrow>
                    run_bind (ngx_rtmp_parse_complex_uri merge_slashes (slice i j line) behind m) (\<lambda>ux.
                      case ux of
                        None \<Rightarrow> Ret (None, pool)
                      | Some ux \<Rightarrow>
                          Ret (Some \<lparr>rq_uri = ux_uri ux,
                            rq_args = (case ux_args ux of Some x \<Rightarrow> x | None \<Rightarrow> args (map_option ((+) i) (ux_args_start ux))),
                            rq_unparsed = slice i j line\<rparr>, pool)))
             else Ret (Some \<lparr>rq_uri = slice i k line, rq_args = args (ru_args_start r), rq_unparsed = slice i j line\<rparr>, pool)
      | _ \<Rightarrow> Fault)"

text \<open>
  \<open>ngx_rtmp_process_request_line\<close>: the line is the URL of the connection, the name of the stream and the
  arguments of the command; behind it stands a CR.  (An empty \<open>tc_url\<close> is read in front of its start.)
\<close>

definition request_line :: "bytes \<Rightarrow> bytes \<Rightarrow> bytes \<Rightarrow> bytes" where
  "request_line tc_url name args =
     (if last tc_url = 47 then butlast tc_url else tc_url) @ (if name \<noteq> [] then 47 # name else []) @
     (if args \<noteq> [] then 63 # args else [])"

definition ngx_rtmp_process_request_line ::
    "'p pool_ops \<Rightarrow> 'p \<Rightarrow> bool \<Rightarrow> bytes \<Rightarrow> bytes \<Rightarrow> bytes \<Rightarrow> rtmp_uri \<Rightarrow> (rtmp_request option \<times> 'p) run" where
  "ngx_rtmp_process_request_line ops pool merge_slashes tc_url name args r =
     (case (if name = [] then Some (pool, []) else p_alloc ops pool (length name)) of
        None \<Rightarrow> Ret (None, pool)
      | Some (pool, _) \<Rightarrow>
          if tc_url = [] then Fault
          else
            let line = request_line tc_url name args
            in case p_alloc ops pool (length line + 1) of
                 None \<Rightarrow> Ret (None, pool)
               | Some (pool, _) \<Rightarrow>
                   (case ngx_rtmp_parse_request_line line r of
                      (False, r) \<Rightarrow> Ret (None, pool)
                    | (True, r) \<Rightarrow> ngx_rtmp_process_request_uri ops pool merge_slashes line 13 r))"

section \<open>What the second parser lets through\<close>

lemma usual_iff: "usual ch \<longleftrightarrow> ch \<notin> {0, 10, 13, 32, 35, 37, 43, 46, 47, 63}"
proof -
  have "\<forall>n \<in> set [0..<256]. usual (word_of_nat n) \<longleftrightarrow> word_of_nat n \<notin> {0, 10, 13, 32, 35, 37, 43, 46, 47, 63 :: byte}"
    by code_simp
  moreover have "unat ch \<in> set [0..<256]" using unsigned_less [of ch] by simp
  ultimately have "usual (word_of_nat (unat ch)) \<longleftrightarrow> word_of_nat (unat ch) \<notin> {0, 10, 13, 32, 35, 37, 43, 46, 47, 63 :: byte}" by blast
  then show ?thesis by simp
qed

text \<open>No segment \<open>.\<close> or \<open>..\<close> between two slashes.\<close>

definition clean :: "bytes \<Rightarrow> bool" where
  "clean x \<longleftrightarrow> \<not> sublist [47, 46, 47] x \<and> \<not> sublist [47, 46, 46, 47] x"

definition shape :: "uri_state \<Rightarrow> bytes \<Rightarrow> bool" where
  "shape st x \<longleftrightarrow>
     (case st of
        Sw_slash \<Rightarrow> suffix [47] x
      | Sw_dot \<Rightarrow> suffix [47, 46] x
      | Sw_dot_dot \<Rightarrow> suffix [47, 46, 46] x
      | _ \<Rightarrow> \<not> suffix [47] x \<and> \<not> suffix [47, 46] x \<and> \<not> suffix [47, 46, 46] x)"

lemma sublist_snoc_iff: "sublist xs (ys @ [y]) \<longleftrightarrow> sublist xs ys \<or> suffix xs (ys @ [y])"
proof
  assume "sublist xs (ys @ [y])"
  then obtain ps ss where e: "ys @ [y] = ps @ xs @ ss" by (auto simp: sublist_def)
  show "sublist xs ys \<or> suffix xs (ys @ [y])"
  proof (cases ss rule: rev_cases)
    case Nil
    then show ?thesis using e by (simp add: suffix_def)
  next
    case (snoc zs z)
    then have "ys = ps @ xs @ zs" using e by simp
    then show ?thesis by (auto simp: sublist_def)
  qed
next
  assume "sublist xs ys \<or> suffix xs (ys @ [y])"
  then show "sublist xs (ys @ [y])"
  proof
    assume "sublist xs ys"
    then obtain ps ss where "ys = ps @ xs @ ss" by (auto simp: sublist_def)
    then have "ys @ [y] = ps @ xs @ (ss @ [y])" by simp
    then show ?thesis unfolding sublist_def by blast
  qed (rule suffix_imp_sublist)
qed

lemma suffix_snoc_iff: "suffix (xs @ [x]) (ys @ [y]) \<longleftrightarrow> x = y \<and> suffix xs ys"
  by (auto simp: suffix_def)

lemma suffix_ends:
  "suffix [a] (x @ [c]) \<longleftrightarrow> a = c"
  "suffix [a, b] (x @ [c]) \<longleftrightarrow> b = c \<and> suffix [a] x"
  "suffix [a, b, d] (x @ [c]) \<longleftrightarrow> d = c \<and> suffix [a, b] x"
  "suffix [a, b, d, e] (x @ [c]) \<longleftrightarrow> e = c \<and> suffix [a, b, d] x"
  using suffix_snoc_iff [of "[]" a x c] suffix_snoc_iff [of "[a]" b x c] suffix_snoc_iff [of "[a, b]" d x c]
    suffix_snoc_iff [of "[a, b, d]" e x c] by auto

lemma suffix_last: "suffix (xs @ [a]) x \<Longrightarrow> suffix (ys @ [b]) x \<Longrightarrow> a = b"
  by (auto simp: suffix_def)

lemma slash_dot_dot: "suffix [47, 46] x \<Longrightarrow> \<not> suffix [47, 46, 46] (x :: bytes)"
proof (cases x rule: rev_cases)
  case (snoc y c)
  moreover assume "suffix [47, 46] x"
  ultimately have "suffix [47] y" by (simp add: suffix_ends)
  then have "\<not> suffix [47, 46] y" using suffix_last [of "[]" 47 y "[47]" 46] by auto
  then show ?thesis using snoc by (simp add: suffix_ends)
qed simp

lemma clean_snoc:
  "clean (x @ [c]) \<longleftrightarrow> clean x \<and> (c = 47 \<longrightarrow> \<not> suffix [47, 46] x \<and> \<not> suffix [47, 46, 46] x)"
  by (auto simp: clean_def sublist_snoc_iff suffix_ends)

lemma clean_take: "clean x \<Longrightarrow> clean (take n x)"
proof -
  have "sublist xs x" if "sublist xs (take n x)" for xs
  proof -
    from that obtain ps ss where "take n x = ps @ xs @ ss" by (auto simp: sublist_def)
    then have "x = ps @ xs @ (ss @ drop n x)" by (metis append.assoc append_take_drop_id)
    then show ?thesis unfolding sublist_def by blast
  qed
  then show "clean x \<Longrightarrow> clean (take n x)" by (auto simp: clean_def)
qed

abbreviation ur_out :: "uri_run \<Rightarrow> bytes" where
  "ur_out r \<equiv> take (ur_u r) (ur_mem r)"

abbreviation quoting :: "uri_state \<Rightarrow> bool" where
  "quoting st \<equiv> st = Sw_quoted \<or> st = Sw_quoted_second"

text \<open>\<open>n\<close> bytes are to be read at the start; the result is no longer than what has been read.\<close>

definition uri_inv :: "nat \<Rightarrow> uri_run \<Rightarrow> bool" where
  "uri_inv n r \<longleftrightarrow> length (ur_mem r) = n + 1 \<and> ur_u r + length (ur_rest r) \<le> n \<and> \<not> quoting (ur_quoted_state r) \<and>
     clean (ur_out r) \<and> shape (if quoting (ur_state r) then ur_quoted_state r else ur_state r) (ur_out r) \<and>
     (if ur_u r = 0 then ur_ch r = 47 \<and> ur_state r = Sw_usual else ur_mem r ! 0 = 47)"

text \<open>The bytes left, and a turn more for the second digit.\<close>

definition uri_left :: "uri_run \<Rightarrow> nat" where
  "uri_left r = 2 * length (ur_rest r) + (if ur_state r = Sw_quoted_second then 1 else 0)"

definition turn_ok :: "nat \<Rightarrow> nat \<Rightarrow> uri_turn run \<Rightarrow> bool" where
  "turn_ok n k t \<longleftrightarrow>
     (case t of
        Ret (Turn r) \<Rightarrow> uri_inv n r \<and> 0 < ur_u r \<and> uri_left r < k
      | Ret (To_args r) \<Rightarrow> uri_inv n r \<and> 0 < ur_u r
      | Ret (To_done r) \<Rightarrow> uri_inv n r \<and> 0 < ur_u r
      | Ret (Invalid r) \<Rightarrow> True
      | _ \<Rightarrow> False)"

lemma put_ok:
  assumes "length (ur_mem r) = n + 1" "ur_u r + length (ur_rest r) \<le> n" "ur_rest r \<noteq> []" "\<not> quoting (ur_quoted_state r)"
    and "\<not> quoting (ur_state r)" "clean (ur_out r)" "ur_ch r = 47 \<longrightarrow> \<not> suffix [47, 46] (ur_out r) \<and> \<not> suffix [47, 46, 46] (ur_out r)"
    and "shape (ur_state r) (ur_out r @ [ur_ch r])" "if ur_u r = 0 then ur_ch r = 47 else ur_mem r ! 0 = 47"
    and "2 * length (ur_rest r) \<le> k"
  shows "turn_ok n k (uri_put r)"
proof -
  have u: "ur_u r < length (ur_mem r)" "ur_u r < n" using assms(1-3) by (cases "ur_rest r"; simp)+
  then have out: "take (ur_u r + 1) ((ur_mem r)[ur_u r := ur_ch r]) = ur_out r @ [ur_ch r]"
    by (simp add: take_update_swap take_Suc_conv_app_nth list_update_append)
  have h: "(ur_mem r)[ur_u r := ur_ch r] ! 0 = 47" using assms(9) u(1) by (cases "ur_u r") auto
  let ?r = "uri_next (r\<lparr>ur_mem := (ur_mem r)[ur_u r := ur_ch r], ur_u := ur_u r + 1\<rparr>)"
  have "length (ur_rest r) = Suc (length (tl (ur_rest r)))" using assms(3) by (cases "ur_rest r") auto
  then have l: "ur_u r + 1 + length (tl (ur_rest r)) \<le> n" "2 * length (tl (ur_rest r)) < k" using assms(2,10) by simp_all
  have "clean (ur_out r @ [ur_ch r])" using assms(6,7) by (simp add: clean_snoc)
  then have "uri_inv n ?r" using assms(1,4,5,8) l(1) h out by (simp add: uri_inv_def uri_next_def)
  moreover have "uri_left ?r < k" using l(2) assms(5) by (simp add: uri_left_def uri_next_def)
  moreover have "0 < ur_u ?r" by (simp add: uri_next_def)
  ultimately show ?thesis using u(1) by (simp add: turn_ok_def uri_put_def)
qed

lemma other_ok:
  assumes inv: "uri_inv n r" and "ur_rest r \<noteq> []" and st: "\<not> quoting (ur_state r)" and u: "0 < ur_u r"
    and ch: "ur_ch r \<noteq> 47" "ur_ch r = 46 \<longrightarrow> ur_state r = Sw_usual \<or> ur_state r = Sw_dot_dot"
    and k: "uri_left r \<le> k"
  shows "turn_ok n k (uri_other r)" "usual (ur_ch r) \<Longrightarrow> turn_ok n k (uri_put (r\<lparr>ur_state := Sw_usual\<rparr>))"
proof -
  have k2: "2 * length (ur_rest r) \<le> k" using k by (simp add: uri_left_def)
  have sh: "shape Sw_usual (ur_out r @ [ur_ch r])"
    using inv st ch by (cases "ur_state r") (auto simp: uri_inv_def shape_def suffix_ends dest: suffix_last [of "[]" _ _ "[47]", simplified]
      suffix_last [of "[47]" _ _ "[47, 46]", simplified] suffix_last [of "[]" _ _ "[47, 46]", simplified] slash_dot_dot)
  have put: "turn_ok n k (uri_put (r\<lparr>ur_plus := b, ur_state := Sw_usual\<rparr>))" for b
    by (rule put_ok) (use inv assms(2) u ch(1) sh k2 in \<open>simp_all add: uri_inv_def\<close>)
  have "length (ur_rest r) = Suc (length (tl (ur_rest r)))" using assms(2) by (cases "ur_rest r") auto
  then have l: "ur_u r + length (tl (ur_rest r)) \<le> n" "2 * length (tl (ur_rest r)) < k"
    using inv k2 by (auto simp: uri_inv_def)
  then have "turn_ok n k (Ret (Turn (uri_next (r\<lparr>ur_quoted_state := ur_state r, ur_state := Sw_quoted\<rparr>))))"
    using inv st u by (simp add: turn_ok_def uri_inv_def uri_next_def uri_left_def)
  then show "turn_ok n k (uri_other r)" using put inv u by (simp add: uri_other_def Let_def turn_ok_def)
  show "usual (ur_ch r) \<Longrightarrow> turn_ok n k (uri_put (r\<lparr>ur_state := Sw_usual\<rparr>))" using put [of "ur_plus r"] by simp
qed

lemma prev_slash_some: "prev_slash m k = Some v \<Longrightarrow> 0 < v \<and> v \<le> k \<and> m ! (v - 1) = 47"
  by (induction k) (auto split: if_splits)

lemma take_ends: "0 < v \<Longrightarrow> v \<le> length m \<Longrightarrow> m ! (v - 1) = c \<Longrightarrow> suffix [c] (take v m)"
  by (cases v) (auto simp: take_Suc_conv_app_nth suffix_def)

lemma step_ok:
  assumes inv: "uri_inv n r" and rest: "ur_rest r \<noteq> []" and k: "uri_left r = k"
  shows "turn_ok n k (uri_step merge r)"
proof -
  note i = inv [unfolded uri_inv_def]
  have len: "length (ur_rest r) = Suc (length (tl (ur_rest r)))" using rest by (cases "ur_rest r") auto
  have k2: "2 * length (ur_rest r) \<le> k" using k by (simp add: uri_left_def)
  have l: "length (tl (ur_rest r)) + 1 = length (ur_rest r)" "2 * length (tl (ur_rest r)) + 1 < k" using len k2 by simp_all
  have ulen: "ur_u r \<le> length (ur_mem r)" "ur_u r + length (ur_rest r) \<le> n" using i by auto
  have nu: "ur_ch r = 47 \<or> ur_ch r = 46 \<Longrightarrow> \<not> usual (ur_ch r)" by (auto simp: usual_iff)
  show ?thesis
  proof (cases "ur_state r")
    case Sw_usual
    have u: "ur_ch r \<noteq> 47 \<Longrightarrow> 0 < ur_u r" using i by (cases "ur_u r") auto
    have slash: "turn_ok n k (uri_put (r\<lparr>ur_state := Sw_slash\<rparr>))" if "ur_ch r = 47"
      by (rule put_ok) (use that i rest Sw_usual k2 in \<open>auto simp: shape_def suffix_ends split: if_splits\<close>)
    have same: "r\<lparr>ur_state := Sw_usual\<rparr> = r" using Sw_usual by simp
    show ?thesis
      using other_ok [OF inv rest] Sw_usual u slash same nu k by (auto simp: uri_step_def Let_def)
  next
    case Sw_slash
    then have u: "0 < ur_u r" using i by (cases "ur_u r") auto
    have sl: "suffix [47] (ur_out r)" using i Sw_slash by (simp add: shape_def)
    have nd: "\<not> suffix [47, 46] (ur_out r)" "\<not> suffix [47, 46, 46] (ur_out r)"
      using sl suffix_last [of "[]" 47 "ur_out r" "[47]" 46] suffix_last [of "[]" 47 "ur_out r" "[47, 46]" 46] by auto
    have slash: "turn_ok n k (uri_put r)" if "ur_ch r = 47"
      by (rule put_ok) (use that i rest Sw_slash k2 u nd in \<open>simp_all add: shape_def suffix_ends\<close>)
    have skip: "turn_ok n k (Ret (Turn (uri_next r)))"
      using i Sw_slash u l by (auto simp: turn_ok_def uri_inv_def uri_next_def uri_left_def)
    have dot: "turn_ok n k (uri_put (r\<lparr>ur_state := Sw_dot\<rparr>))" if "ur_ch r = 46"
      by (rule put_ok) (use that i rest Sw_slash k2 u sl in \<open>simp_all add: shape_def suffix_ends\<close>)
    show ?thesis
      using other_ok [OF inv rest] Sw_slash u slash skip dot nu k by (auto simp: uri_step_def Let_def)
  next
    case Sw_dot
    then have u: "0 < ur_u r" using i by (cases "ur_u r") auto
    have sd: "suffix [47, 46] (ur_out r)" using i Sw_dot by (simp add: shape_def)
    then obtain z where z: "ur_out r = z @ [47, 46]" by (auto simp: suffix_def)
    have lu: "length (ur_out r) = ur_u r" using ulen by simp
    then have u2: "ur_u r = length z + 2" using z by simp
    have t: "take (ur_u r - 1) (ur_mem r) = z @ [47]"
    proof -
      have "take (ur_u r - 1) (ur_mem r) = take (ur_u r - 1) (ur_out r)" by (simp add: min_def)
      also have "\<dots> = take (ur_u r - 1) (z @ [47, 46])" by (simp only: z)
      also have "\<dots> = z @ [47]" using u2 by simp
      finally show ?thesis by this
    qed
    have "clean (take (ur_u r - 1) (ur_mem r))" using clean_take [of "ur_out r" "ur_u r - 1"] i by (simp add: min_def)
    then have up: "turn_ok n k (Ret (Turn (uri_next (r\<lparr>ur_state := Sw_slash, ur_u := ur_u r - 1\<rparr>))))"
      using i l u2 t ulen(2) by (simp add: turn_ok_def uri_inv_def uri_next_def uri_left_def shape_def suffix_def)
    have dot: "turn_ok n k (uri_put (r\<lparr>ur_state := Sw_dot_dot\<rparr>))" if "ur_ch r = 46"
      by (rule put_ok) (use that i rest Sw_dot k2 u sd in \<open>simp_all add: shape_def suffix_ends\<close>)
    show ?thesis
      using other_ok [OF inv rest] Sw_dot u up dot nu k by (auto simp: uri_step_def Let_def)
  next
    case Sw_dot_dot
    then have u: "0 < ur_u r" using i by (cases "ur_u r") auto
    have up: "turn_ok n k (Ret (Turn (uri_next (r\<lparr>ur_state := Sw_slash, ur_u := v\<rparr>))))"
      if v: "prev_slash (ur_mem r) (ur_u r - 4) = Some v" for v
    proof -
      have v: "0 < v" "v \<le> ur_u r - 4" "ur_mem r ! (v - 1) = 47" using prev_slash_some [OF v] by simp_all
      have vu: "v \<le> ur_u r" using v(2) by simp
      then have "clean (take v (ur_mem r))" using clean_take [of "ur_out r" v] i by (simp add: min_def)
      moreover have "suffix [47] (take v (ur_mem r))" using take_ends [OF v(1) _ v(3)] v(2) ulen by simp
      ultimately show ?thesis
        using i l u v(1,2) ulen(2) by (simp add: turn_ok_def uri_inv_def uri_next_def uri_left_def shape_def)
    qed
    show ?thesis
      using other_ok [OF inv rest] Sw_dot_dot u up nu k by (auto simp: uri_step_def Let_def turn_ok_def split: option.splits)
  next
    case Sw_quoted
    then have u: "0 < ur_u r" using i by (cases "ur_u r") auto
    have "turn_ok n k (Ret (Turn (uri_next (r\<lparr>ur_quoted := True, ur_decoded := d, ur_state := Sw_quoted_second\<rparr>))))" for d
      using i l u Sw_quoted ulen(2) by (simp add: turn_ok_def uri_inv_def uri_next_def uri_left_def)
    then show ?thesis using Sw_quoted by (auto simp: uri_step_def turn_ok_def split: option.splits)
  next
    case Sw_quoted_second
    then have u: "0 < ur_u r" using i by (cases "ur_u r") auto
    have again: "turn_ok n k (Ret (Turn (r\<lparr>ur_ch := c, ur_plus := b, ur_state := ur_quoted_state r\<rparr>)))" for c b
      using i u k Sw_quoted_second by (auto simp: turn_ok_def uri_inv_def uri_left_def)
    have sh: "shape Sw_usual (ur_out r @ [c])" if "c \<noteq> 47" "c \<noteq> 46" for c
      using that by (simp add: shape_def suffix_ends)
    have put: "turn_ok n k (uri_put (r\<lparr>ur_ch := c, ur_state := Sw_usual\<rparr>))" if "c \<noteq> 47" "c \<noteq> 46" for c
      by (rule put_ok) (use that i rest u k2 sh [OF that] in simp_all)
    have same: "r\<lparr>ur_ch := c, ur_state := ur_quoted_state r\<rparr> = r\<lparr>ur_ch := c, ur_plus := ur_plus r, ur_state := ur_quoted_state r\<rparr>" for c
      by simp
    show ?thesis
      using Sw_quoted_second put again [where b = "ur_plus r"] again
      by (auto simp: uri_step_def uri_quoted_second_def Let_def turn_ok_def [of n k "Ret (Invalid r)"])
  qed
qed

lemma loop_ok: "uri_inv n r \<Longrightarrow> uri_left r < k \<Longrightarrow> ur_rest r \<noteq> [] \<or> 0 < ur_u r \<Longrightarrow>
  \<exists>t. uri_loop k merge r = Ret t \<and> (case t of Turn r \<Rightarrow> False | Invalid r \<Rightarrow> True
    | To_args r \<Rightarrow> uri_inv n r \<and> 0 < ur_u r | To_done r \<Rightarrow> uri_inv n r \<and> 0 < ur_u r)"
proof (induction k arbitrary: r)
  case (Suc k)
  show ?case
  proof (cases "ur_rest r = []")
    case True
    then show ?thesis using Suc.prems by simp
  next
    case False
    from step_ok [OF Suc.prems(1) False refl, of merge] obtain t where t: "uri_step merge r = Ret t"
      "turn_ok n (uri_left r) (Ret t)" by (auto simp: turn_ok_def split: run.splits)
    show ?thesis
    proof (cases t)
      case (Turn r1)
      then have r1: "uri_inv n r1" "uri_left r1 < k" "0 < ur_u r1" using t(2) Suc.prems(2) by (simp_all add: turn_ok_def)
      then show ?thesis using Suc.IH [OF r1(1,2)] t(1) Turn False by simp
    qed (use t False in \<open>simp_all add: turn_ok_def\<close>)
  qed
qed simp

text \<open>
  What holds of a path the second parser returns: it starts with a slash, and no \<open>.\<close> or \<open>..\<close> between two
  slashes stands before its last byte.  The last byte may be one that was left in the memory and may close
  such a segment: a segment at the end of the path is not taken out.
\<close>

definition dots_last :: "bytes \<Rightarrow> bool" where
  "dots_last u \<longleftrightarrow> u \<noteq> [] \<and> hd u = 47 \<and> clean (butlast u)"

lemma dots_last_app: "u \<noteq> [] \<Longrightarrow> hd u = 47 \<Longrightarrow> clean u \<Longrightarrow> length rest \<le> 1 \<Longrightarrow> dots_last (u @ rest)"
  by (cases rest) (auto simp: dots_last_def butlast_append butlast_conv_take clean_take)

definition path_ok :: "nat \<Rightarrow> uri_result option run \<Rightarrow> bool" where
  "path_ok n t \<longleftrightarrow> (\<exists>res. t = Ret res \<and>
     (case res of None \<Rightarrow> True | Some ux \<Rightarrow> length (ux_uri ux) \<le> n + 1 \<and> dots_last (ux_uri ux)))"

lemma finish_ok:
  assumes "uri_inv n r" "0 < ur_u r" "t = To_done r' \<or> t = To_args r'" "ur_mem r' = ur_mem r" "ur_u r' = ur_u r"
  shows "path_ok n (uri_finish l t)"
proof -
  have out: "length (ur_out r) \<le> n" "ur_out r \<noteq> []" "hd (ur_out r) = 47" "clean (ur_out r)" "ur_u r < length (ur_mem r)"
    using assms(1,2) by (cases "ur_mem r"; auto simp: uri_inv_def)+
  have ok: "length (ur_out r @ rest) \<le> n + 1 \<and> dots_last (ur_out r @ rest)" if "length rest \<le> 1" for rest
    using dots_last_app [OF out(2-4) that] out(1) that by simp
  have snoc: "take (Suc (ur_u r)) (ur_mem r) = ur_out r @ [ur_mem r ! ur_u r]" using out(5) by (rule take_Suc_conv_app_nth)
  from assms(3) show ?thesis
  proof
    assume "t = To_done r'"
    then show ?thesis
      using out(5) ok [of "[]"] ok [of "[ur_mem r ! ur_u r]"] assms(4,5) snoc
      by (cases "ur_mem r ! ur_u r = 13") (simp_all add: path_ok_def)
  next
    assume "t = To_args r'"
    then show ?thesis using ok [of "[]"] assms(4,5) by (simp add: path_ok_def Let_def)
  qed
qed

lemma begin_ok:
  assumes "length m = length x + 1" "x = 47 # xs"
  shows "uri_inv (length x) (uri_begin x behind m)" "uri_left (uri_begin x behind m) < 2 * length x + 2"
    "ur_rest (uri_begin x behind m) = xs @ [behind]" "ur_state (uri_begin x behind m) = Sw_usual" "ur_ch (uri_begin x behind m) = 47"
  using assms by (simp_all add: uri_begin_def uri_next_def uri_inv_def clean_def shape_def uri_left_def)

lemma complex_path_ok:
  assumes "length m = length x + 1" "x = 47 # xs"
  shows "path_ok (length x) (ngx_rtmp_parse_complex_uri merge_slashes x behind m)"
proof -
  note b = begin_ok [OF assms, of behind]
  have "ur_rest (uri_begin x behind m) \<noteq> []" using b(3) by simp
  with loop_ok [OF b(1,2)] obtain t where t: "uri_loop (2 * length x + 2) merge_slashes (uri_begin x behind m) = Ret t"
    "case t of Turn r \<Rightarrow> False | Invalid r \<Rightarrow> True
      | To_args r \<Rightarrow> uri_inv (length x) r \<and> 0 < ur_u r | To_done r \<Rightarrow> uri_inv (length x) r \<and> 0 < ur_u r"
    by blast
  have p: "ngx_rtmp_parse_complex_uri merge_slashes x behind m = uri_finish (length x) t"
    by (simp only: ngx_rtmp_parse_complex_uri_def t(1) run_bind.simps)
  show ?thesis
  proof (cases t)
    case (To_done r1)
    then show ?thesis unfolding p using t(2) finish_ok [of "length x" r1 t r1] by simp
  next
    case (To_args r1)
    then show ?thesis unfolding p using t(2) finish_ok [of "length x" r1 t r1] by simp
  qed (use t(2) p in \<open>simp_all add: path_ok_def\<close>)
qed

section \<open>A path with arguments\<close>

text \<open>
  With arguments the memory is that of the path in front of the question mark.  The run over the whole is
  the run over that path, with more bytes behind: \<open>w\<close> is what comes behind the question mark.
\<close>

definition more :: "bytes \<Rightarrow> uri_run \<Rightarrow> uri_run" where
  "more w r = r\<lparr>ur_rest := ur_rest r @ w\<rparr>"

fun more_turn :: "bytes \<Rightarrow> uri_turn \<Rightarrow> uri_turn" where
  "more_turn w (Turn r) = Turn (more w r)"
| "more_turn w (To_args r) = To_args (more w r)"
| "more_turn w (To_done r) = To_done (more w r)"
| "more_turn w (Invalid r) = Invalid (more w r)"

lemma more_simps [simp]:
  "ur_rest (more w r) = ur_rest r @ w" "ur_ch (more w r) = ur_ch r" "ur_state (more w r) = ur_state r" "ur_mem (more w r) = ur_mem r"
  "ur_u (more w r) = ur_u r" "ur_plus (more w r) = ur_plus r" "ur_decoded (more w r) = ur_decoded r"
  "ur_quoted_state (more w r) = ur_quoted_state r" "ur_quoted (more w r) = ur_quoted r"
  by (simp_all add: more_def)

lemma next_more: "ur_rest r \<noteq> [] \<Longrightarrow> uri_next (more w r) = more w (uri_next r)"
  by (simp add: uri_next_def more_def)

lemma put_more: "ur_rest r \<noteq> [] \<Longrightarrow> uri_put (more w r) = run_bind (uri_put r) (\<lambda>t. Ret (more_turn w t))"
  by (simp add: uri_put_def uri_next_def more_def)

lemma more_upd:
  "(more w r)\<lparr>ur_state := st\<rparr> = more w (r\<lparr>ur_state := st\<rparr>)" "(more w r)\<lparr>ur_plus := b\<rparr> = more w (r\<lparr>ur_plus := b\<rparr>)"
  "(more w r)\<lparr>ur_quoted_state := st\<rparr> = more w (r\<lparr>ur_quoted_state := st\<rparr>)" "(more w r)\<lparr>ur_u := n\<rparr> = more w (r\<lparr>ur_u := n\<rparr>)"
  by (simp_all add: more_def)

lemma other_more: "ur_rest r \<noteq> [] \<Longrightarrow> uri_other (more w r) = run_bind (uri_other r) (\<lambda>t. Ret (more_turn w t))"
  by (simp add: uri_other_def Let_def more_upd next_more put_more)

lemma step_more:
  assumes "ur_rest r \<noteq> []" "\<not> quoting (ur_state r)"
  shows "uri_step mg (more w r) = run_bind (uri_step mg r) (\<lambda>t. Ret (more_turn w t))"
  using assms
  by (cases "ur_state r") (simp_all add: uri_step_def Let_def more_upd next_more put_more other_more split: option.split)

lemma plain_step:
  assumes "\<not> quoting (ur_state r)" "ur_ch r \<noteq> 37" "uri_step mg r = Ret (Turn r')"
  shows "\<not> quoting (ur_state r') \<and> ur_ch r' = hd (ur_rest r) \<and> ur_rest r' = tl (ur_rest r)"
  using assms
  by (cases "ur_state r") (auto simp: uri_step_def uri_other_def uri_put_def uri_next_def Let_def split: if_splits option.splits)

lemma loop_args:
  assumes "\<not> quoting (ur_state r)" "37 \<notin> set (ur_ch r # ur_rest r)" "last (ur_ch r # ur_rest r) = 63"
    and "w \<noteq> []" "uri_loop k mg r = Ret t" "k \<le> k'"
  shows "\<exists>t'. uri_loop (Suc k') mg (more w r) = Ret t' \<and>
    (case t of Turn r1 \<Rightarrow> True | Invalid r1 \<Rightarrow> t' = Invalid (more w r1)
     | To_args r1 \<Rightarrow> t' = To_args (more w r1) | To_done r1 \<Rightarrow> t' = To_done (more w r1) \<or> t' = To_args (more w r1))"
  using assms(1-3,5,6)
proof (induction k arbitrary: r k')
  case (Suc k)
  obtain k'' where k': "k' = Suc k''" "k \<le> k''" using Suc.prems(5) by (cases k') auto
  show ?case
  proof (cases "ur_rest r = []")
    case True
    then have "ur_ch r = 63" "t = To_done r" using Suc.prems(3,4) by simp_all
    moreover from this(1) have "uri_step mg (more w r) = Ret (To_args (more w r))"
      using Suc.prems(1) by (cases "ur_state r") (simp_all add: uri_step_def uri_other_def usual_iff Let_def)
    ultimately show ?thesis using True assms(4) by simp
  next
    case False
    note m = step_more [OF False Suc.prems(1), of mg w]
    from Suc.prems(4) False obtain t1 where t1: "uri_step mg r = Ret t1" by (cases "uri_step mg r") auto
    show ?thesis
    proof (cases t1)
      case (Turn r1)
      then have r1: "\<not> quoting (ur_state r1)" "ur_ch r1 = hd (ur_rest r)" "ur_rest r1 = tl (ur_rest r)"
        using plain_step [OF Suc.prems(1) _ t1 [unfolded Turn]] Suc.prems(2) by auto
      then have "ur_ch r1 # ur_rest r1 = ur_rest r" using False by simp
      then have "37 \<notin> set (ur_ch r1 # ur_rest r1)" "last (ur_ch r1 # ur_rest r1) = 63"
        using Suc.prems(2,3) False by auto
      from Suc.IH [OF r1(1) this _ k'(2)] show ?thesis
        using Suc.prems(4) False t1 Turn m k'(1) by simp
    qed (use Suc.prems(4) False t1 m in auto)
  qed
qed simp

lemma args_path_ok:
  assumes "length m = length y + 1" "y = 47 # ys" "37 \<notin> set y" "63 \<notin> set y"
  shows "path_ok (length y) (ngx_rtmp_parse_complex_uri merge_slashes (y @ 63 # z) behind m)"
proof -
  let ?r = "uri_begin y 63 m" and ?w = "z @ [behind]" and ?k = "2 * length y + 2"
  note b = begin_ok [OF assms(1,2), of 63]
  have "ur_rest ?r \<noteq> []" using b(3) by simp
  with loop_ok [OF b(1,2)] obtain t where t: "uri_loop ?k merge_slashes ?r = Ret t"
    "case t of Turn r \<Rightarrow> False | Invalid r \<Rightarrow> True
      | To_args r \<Rightarrow> uri_inv (length y) r \<and> 0 < ur_u r | To_done r \<Rightarrow> uri_inv (length y) r \<and> 0 < ur_u r"
    by blast
  have "uri_begin (y @ 63 # z) behind m = more ?w ?r"
    using assms(2) by (simp add: uri_begin_def uri_next_def more_def)
  moreover have "2 * length (y @ 63 # z) + 2 = Suc (?k + 1 + 2 * length z)" by simp
  moreover obtain t' where t': "uri_loop (Suc (?k + 1 + 2 * length z)) merge_slashes (more ?w ?r) = Ret t'"
    "case t of Turn r1 \<Rightarrow> True | Invalid r1 \<Rightarrow> t' = Invalid (more ?w r1)
     | To_args r1 \<Rightarrow> t' = To_args (more ?w r1) | To_done r1 \<Rightarrow> t' = To_done (more ?w r1) \<or> t' = To_args (more ?w r1)"
    using loop_args [OF _ _ _ _ t(1), of ?w "?k + 1 + 2 * length z"] b assms(2,3) by auto
  ultimately have p: "ngx_rtmp_parse_complex_uri merge_slashes (y @ 63 # z) behind m = uri_finish (length (y @ 63 # z)) t'"
    by (simp only: ngx_rtmp_parse_complex_uri_def run_bind.simps)
  show ?thesis
  proof (cases t)
    case (To_done r1)
    then show ?thesis unfolding p using t(2) t'(2) finish_ok [of "length y" r1 t' "more ?w r1"] by simp
  next
    case (To_args r1)
    then show ?thesis unfolding p using t(2) t'(2) finish_ok [of "length y" r1 t' "more ?w r1"] by simp
  qed (use t(2) t'(2) p in \<open>simp_all add: path_ok_def\<close>)
qed

section \<open>The whole request\<close>

text \<open>
  What the first parser knows of the bytes it has seen.  In front of the first \<open>%\<close>, \<open>#\<close> or \<open>?\<close> the path has
  no slash followed by a dot or a slash, or the path is marked as complex.
\<close>

definition plain_path :: "bytes \<Rightarrow> bool" where
  "plain_path u \<longleftrightarrow> u \<noteq> [] \<and> hd u = 47 \<and> 37 \<notin> set u \<and> 63 \<notin> set u \<and> \<not> sublist [47, 46] u"

definition path_marks :: "bytes \<Rightarrow> rtmp_uri \<Rightarrow> bool" where
  "path_marks xs r \<longleftrightarrow> (\<exists>i. ru_uri_start r = Some i \<and> i < length xs \<and> xs ! i = 47 \<and>
     (case ru_args_start r of
        None \<Rightarrow> ru_complex r \<or> ru_quoted r
      | Some a \<Rightarrow> i < a \<and> a \<le> length xs \<and> xs ! (a - 1) = 63 \<and> plain_path (slice i (a - 1) xs)))"

definition line_inv :: "line_state \<Rightarrow> bytes \<Rightarrow> rtmp_uri \<Rightarrow> bool" where
  "line_inv st xs r \<longleftrightarrow>
     (case st of
        Sw_after_slash_in_uri \<Rightarrow> \<exists>i < length xs. ru_uri_start r = Some i \<and> plain_path (drop i xs) \<and>
          ru_args_start r = None \<and> \<not> ru_complex r \<and> \<not> ru_quoted r
      | Sw_check_uri \<Rightarrow> \<exists>i < length xs. ru_uri_start r = Some i \<and> plain_path (drop i xs) \<and> \<not> suffix [47] xs \<and>
          ru_args_start r = None \<and> \<not> ru_complex r \<and> \<not> ru_quoted r
      | Sw_uri \<Rightarrow> path_marks xs r
      | _ \<Rightarrow> ru_uri_start r = None \<and> ru_args_start r = None \<and> \<not> ru_complex r \<and> \<not> ru_quoted r)"

lemma plain_snoc:
  "plain_path u \<Longrightarrow> c \<noteq> 37 \<Longrightarrow> c \<noteq> 63 \<Longrightarrow> c \<noteq> 46 \<or> \<not> suffix [47] u \<Longrightarrow> plain_path (u @ [c])"
  by (auto simp: plain_path_def sublist_snoc_iff suffix_ends)

lemma plain_slash: "plain_path [47]"
  by (auto simp: plain_path_def sublist_def Cons_eq_append_conv)

lemma plain_clean: "plain_path u \<Longrightarrow> dots_last u"
proof -
  assume u: "plain_path u"
  have "\<not> sublist ([47, 46] @ z) u" for z
  proof
    assume "sublist ([47, 46] @ z) u"
    then obtain ps ss where "u = ps @ [47, 46] @ z @ ss" by (auto simp: sublist_def)
    then have "sublist [47, 46] u" unfolding sublist_def by blast
    then show False using u by (simp add: plain_path_def)
  qed
  from this [of "[47]"] this [of "[46, 47]"] have "clean u" by (simp add: clean_def)
  then show "dots_last u" using dots_last_app [of u "[]"] u by (simp add: plain_path_def)
qed

lemma marks_snoc:
  assumes "path_marks xs r"
  shows "path_marks (xs @ [c]) r"
proof -
  from assms obtain i where i: "ru_uri_start r = Some i" "i < length xs" "xs ! i = 47"
    "case ru_args_start r of None \<Rightarrow> ru_complex r \<or> ru_quoted r
     | Some a \<Rightarrow> i < a \<and> a \<le> length xs \<and> xs ! (a - 1) = 63 \<and> plain_path (slice i (a - 1) xs)"
    by (auto simp: path_marks_def)
  have "(xs @ [c]) ! (a - 1) = xs ! (a - 1) \<and> slice i (a - 1) (xs @ [c]) = slice i (a - 1) xs"
    if "i < a" "a \<le> length xs" for a
  proof -
    have "a - 1 < length xs" using that by linarith
    then show ?thesis using that i(2) by (simp add: nth_append)
  qed
  then have "case ru_args_start r of None \<Rightarrow> ru_complex r \<or> ru_quoted r
     | Some a \<Rightarrow> i < a \<and> a \<le> length (xs @ [c]) \<and> (xs @ [c]) ! (a - 1) = 63 \<and> plain_path (slice i (a - 1) (xs @ [c]))"
    using i(4) by (cases "ru_args_start r") auto
  then show ?thesis unfolding path_marks_def using i(1-3) by (intro exI [of _ i]) (simp add: nth_append)
qed

lemma marks_upd [simp]: "path_marks xs r \<Longrightarrow> path_marks xs (r\<lparr>ru_complex := True\<rparr>)"
  by (auto simp: path_marks_def split: option.splits)

lemma marks_end: "path_marks xs (r\<lparr>ru_uri_end := e\<rparr>) = path_marks xs r"
  by (simp add: path_marks_def cong: option.case_cong)

text \<open>Leaving the plain part of the path: by a mark, or by the question mark.\<close>

lemma plain_marks:
  assumes "i < length xs" "ru_uri_start r = Some i" "plain_path (drop i xs)" "ru_args_start r = None"
  shows "path_marks (xs @ [c]) (r\<lparr>ru_complex := True\<rparr>)" "path_marks (xs @ [c]) (r\<lparr>ru_quoted := True\<rparr>)"
    "path_marks (xs @ [63]) (r\<lparr>ru_args_start := Some (Suc (length xs))\<rparr>)"
proof -
  have "xs ! i = 47" using assms(1,3) by (simp add: plain_path_def hd_drop_conv_nth)
  then show "path_marks (xs @ [c]) (r\<lparr>ru_complex := True\<rparr>)" "path_marks (xs @ [c]) (r\<lparr>ru_quoted := True\<rparr>)"
    "path_marks (xs @ [63]) (r\<lparr>ru_args_start := Some (Suc (length xs))\<rparr>)"
    using assms by (auto simp: path_marks_def nth_append intro!: exI [of _ i])
qed

lemma line_step_inv:
  assumes "line_inv st xs r" "line_step st (length xs) c r = Inr (st', r')"
  shows "line_inv st' (xs @ [c]) r'"
proof -
  have slash: "plain_path (drop (length xs) (xs @ [47]))" by (simp add: plain_slash)
  show ?thesis
  proof (cases st)
    case Sw_after_slash_in_uri
    then obtain i where i: "i < length xs" "ru_uri_start r = Some i" "plain_path (drop i xs)" "ru_args_start r = None"
      "\<not> ru_complex r" "\<not> ru_quoted r" using assms(1) by (auto simp: line_inv_def)
    have p: "plain_path (drop i (xs @ [c]))" if "c \<noteq> 37" "c \<noteq> 63" "c \<noteq> 46"
      using plain_snoc [OF i(3) that(1,2)] that(3) i(1) by simp
    have ns: "\<not> suffix [47] (xs @ [c])" if "c \<noteq> 47" using that by (simp add: suffix_ends)
    show ?thesis
      using assms(2) Sw_after_slash_in_uri i p ns plain_marks [OF i(1-4)]
      by (auto simp: line_after_slash_def line_inv_def usual_iff split: if_splits)
  next
    case Sw_check_uri
    then obtain i where i: "i < length xs" "ru_uri_start r = Some i" "plain_path (drop i xs)" "ru_args_start r = None"
      "\<not> ru_complex r" "\<not> ru_quoted r" "\<not> suffix [47] xs" using assms(1) by (auto simp: line_inv_def)
    have "\<not> suffix [47] (drop i xs)" using i(7) suffix_appendI [of "[47]" "drop i xs" "take i xs"] by auto
    then have p: "plain_path (drop i (xs @ [c]))" if "c \<noteq> 37" "c \<noteq> 63"
      using plain_snoc [OF i(3) that] i(1) by simp
    have ns: "\<not> suffix [47] (xs @ [c])" if "c \<noteq> 47" using that by (simp add: suffix_ends)
    show ?thesis
      using assms(2) Sw_check_uri i p ns plain_marks [OF i(1-4)]
      by (auto simp: line_check_uri_def line_inv_def usual_iff split: if_splits)
  next
    case Sw_uri
    then show ?thesis
      using assms marks_snoc [of xs r c] by (auto simp: line_inv_def split: if_splits)
  qed (use assms slash in \<open>auto simp: line_inv_def line_schema_def line_host_def line_host_end_def Let_def split: if_splits\<close>)
qed

lemma line_loop_inv:
  "line_inv st xs r \<Longrightarrow> line_loop st (length xs) ys r = (True, r') \<Longrightarrow>
   \<exists>st' r0. line_inv st' (xs @ ys) r0 \<and> r' = r0\<lparr>ru_uri_end := Some (length (xs @ ys))\<rparr>"
proof (induction ys arbitrary: st xs r)
  case (Cons c ys)
  from Cons.prems(2) obtain st1 r1 where 1: "line_step st (length xs) c r = Inr (st1, r1)"
    "line_loop st1 (length (xs @ [c])) ys r1 = (True, r')" by (auto split: sum.splits)
  from Cons.IH [OF line_step_inv [OF Cons.prems(1) 1(1)] 1(2)] show ?case by simp
qed auto

text \<open>
  C15: whatever URL is parsed and has a path, with or without arguments, the second step comes to an end and
  writes nothing beyond the memory it allocates; the path it lets through, complex or not, starts with a
  slash and has no segment \<open>.\<close> or \<open>..\<close>, quoted or not, with a slash behind it other than at its end.
\<close>

theorem complex_uri_safe:
  assumes "pool_ok ops" "ngx_rtmp_parse_request_line line no_uri = (True, r)" "ru_uri_start r \<noteq> None"
  shows "\<exists>res pool'. ngx_rtmp_process_request_uri ops pool merge_slashes line behind r = Ret (res, pool') \<and>
    (case res of None \<Rightarrow> True | Some rq \<Rightarrow> length (rq_uri rq) \<le> length line + 1 \<and> dots_last (rq_uri rq))"
proof -
  have "line_inv Sw_start [] no_uri" by (simp add: line_inv_def no_uri_def)
  from line_loop_inv [OF this, of line r] assms(2) obtain st r0 where
    0: "line_inv st line r0" "r = r0\<lparr>ru_uri_end := Some (length line)\<rparr>"
    by (auto simp: ngx_rtmp_parse_request_line_def)
  have alloc: "length m = n" if "p_alloc ops p n = Some (p', m)" for p n p' m
    using that assms(1) by (simp add: pool_ok_def)
  consider (plain) i where "i < length line" "ru_uri_start r = Some i" "plain_path (drop i line)" "ru_args_start r = None"
      "\<not> ru_complex r" "\<not> ru_quoted r"
    | (marks) "path_marks line r"
    using 0 assms(3) by (cases st) (auto simp: line_inv_def marks_end)
  then show ?thesis
  proof cases
    case (plain i)
    then show ?thesis using 0(2) plain_clean by (simp add: ngx_rtmp_process_request_uri_def)
  next
    case marks
    then obtain i where i: "ru_uri_start r = Some i" "i < length line" "line ! i = 47"
      "case ru_args_start r of None \<Rightarrow> ru_complex r \<or> ru_quoted r
       | Some a \<Rightarrow> i < a \<and> a \<le> length line \<and> line ! (a - 1) = 63 \<and> plain_path (slice i (a - 1) line)"
      by (auto simp: path_marks_def)
    define k where "k = (case ru_args_start r of Some a \<Rightarrow> a - 1 | None \<Rightarrow> length line)"
    have k: "i \<le> k" "k \<le> length line" using i by (auto simp: k_def split: option.splits)
    have run: "path_ok (k - i) (ngx_rtmp_parse_complex_uri merge_slashes (slice i (length line) line) behind m)"
      if m: "length m = k - i + 1" for m
    proof (cases "ru_args_start r")
      case None
      have "drop i line = 47 # drop (Suc i) line" using i(2,3) by (metis Cons_nth_drop_Suc)
      from complex_path_ok [OF _ this, of m merge_slashes behind] m None show ?thesis by (simp add: k_def)
    next
      case (Some a)
      define y where "y = slice i (a - 1) line"
      have y: "plain_path y" "i < a" "a \<le> length line" "line ! (a - 1) = 63" using i(4) Some by (simp_all add: y_def)
      have "Suc (a - 1) = a" "a - 1 < length line" using y(2,3) by linarith+
      then have "drop (a - 1) line = 63 # drop a line" using Cons_nth_drop_Suc [of "a - 1" line] y(4) by simp
      moreover have "drop i line = y @ drop (a - 1) line"
        using y(2) append_take_drop_id [of "a - 1 - i" "drop i line", symmetric] by (simp add: y_def)
      ultimately have x: "drop i line = y @ 63 # drop a line" by simp
      have len: "length y = k - i" using y Some by (simp add: k_def y_def)
      obtain ys where ys: "y = 47 # ys" using y(1) by (cases y) (auto simp: plain_path_def)
      have "37 \<notin> set y" "63 \<notin> set y" using y(1) by (simp_all add: plain_path_def)
      then have "path_ok (k - i) (ngx_rtmp_parse_complex_uri merge_slashes (y @ 63 # drop a line) behind m)"
        using args_path_ok [of m y, OF _ ys] len m by simp
      moreover have "slice i (length line) line = y @ 63 # drop a line" unfolding x [symmetric] by simp
      ultimately show ?thesis by (simp only:)
    qed
    show ?thesis
    proof (cases "ru_complex r \<or> ru_quoted r")
      case False
      then obtain a where a: "ru_args_start r = Some a" using i(4) by (cases "ru_args_start r") auto
      have "dots_last (slice i k line)" using plain_clean i(4) a by (simp add: k_def)
      then show ?thesis using False i(1) 0(2) by (simp add: ngx_rtmp_process_request_uri_def k_def)
    next
      case True
      show ?thesis
      proof (cases "p_alloc ops pool (k - i + 1)")
        case None
        then show ?thesis using True i(1) 0(2) by (simp add: ngx_rtmp_process_request_uri_def k_def Let_def)
      next
        case (Some pm)
        obtain p m where pm: "pm = (p, m)" by (cases pm)
        obtain ux where ux: "ngx_rtmp_parse_complex_uri merge_slashes (slice i (length line) line) behind m = Ret ux"
          "case ux of None \<Rightarrow> True | Some ux \<Rightarrow> length (ux_uri ux) \<le> k - i + 1 \<and> dots_last (ux_uri ux)"
          using run [of m] alloc Some pm by (auto simp: path_ok_def)
        have le: "k - i + 1 \<le> length line + 1" using k by simp
        show ?thesis
          using True i(1) 0(2) Some pm ux le
          by (cases ux) (auto simp: ngx_rtmp_process_request_uri_def k_def Let_def)
      qed
    qed
  qed
qed

text \<open>
  The witness: \<open>rtmp://h/a/%2e./b?x#y\<close> in full; the quoted \<open>..\<close> takes \<open>a\<close> with it.  (What is behind the mark
  \<open>%\<close> is not looked at for arguments by the first parser, and is by the second.)
\<close>

theorem complex_uri_safe_witness:
  "\<exists>r rq. ngx_rtmp_parse_request_line
      [114, 116, 109, 112, 58, 47, 47, 104, 47, 97, 47, 37, 50, 101, 46, 47, 98, 63, 120, 35, 121] no_uri = (True, r) \<and>
    ngx_rtmp_process_request_uri unit_pool () True
      [114, 116, 109, 112, 58, 47, 47, 104, 47, 97, 47, 37, 50, 101, 46, 47, 98, 63, 120, 35, 121] 13 r = Ret (Some rq, ()) \<and>
    rq_uri rq = [47, 98] \<and> rq_args rq = [120] \<and> dots_last (rq_uri rq)"
proof -
  let ?line = "[114, 116, 109, 112, 58, 47, 47, 104, 47, 97, 47, 37, 50, 101, 46, 47, 98, 63, 120, 35, 121] :: bytes"
  have "case ngx_rtmp_parse_request_line ?line no_uri of (ok, r) \<Rightarrow> ok \<and> ru_uri_start r \<noteq> None \<and>
      (case ngx_rtmp_process_request_uri unit_pool () True ?line 13 r of
         Ret (Some rq, _) \<Rightarrow> rq_uri rq = [47, 98] \<and> rq_args rq = [120] | _ \<Rightarrow> False)"
    by code_simp
  moreover obtain ok r where p: "ngx_rtmp_parse_request_line ?line no_uri = (ok, r)" by (metis prod.collapse)
  ultimately have q: "ok" "ru_uri_start r \<noteq> None" "case ngx_rtmp_process_request_uri unit_pool () True ?line 13 r of
      Ret (Some rq, _) \<Rightarrow> rq_uri rq = [47, 98] \<and> rq_args rq = [120] | _ \<Rightarrow> False"
    by auto
  from q(3) obtain rq where "ngx_rtmp_process_request_uri unit_pool () True ?line 13 r = Ret (Some rq, ())"
    "rq_uri rq = [47, 98]" "rq_args rq = [120]"
    by (cases "ngx_rtmp_process_request_uri unit_pool () True ?line 13 r") (auto split: option.splits)
  with p q(1,2) have r: "ngx_rtmp_parse_request_line ?line no_uri = (True, r)" "ru_uri_start r \<noteq> None"
    "ngx_rtmp_process_request_uri unit_pool () True ?line 13 r = Ret (Some rq, ())" "rq_uri rq = [47, 98]" "rq_args rq = [120]"
    by simp_all
  have "pool_ok unit_pool" using pool_total_unit by (simp add: pool_total_def)
  from complex_uri_safe [OF this r(1,2), of "()" True 13] r show ?thesis by auto
qed

text \<open>
  The byte behind is there when the memory was not full of carriage returns: the path \<open>/./a\<close> becomes
  \<open>/a\<close> and a byte that was left in the memory; and \<open>/./..\<close> becomes \<open>/../\<close> when it was a slash.
\<close>

lemma complex_uri_stale_byte:
  "\<forall>c \<in> {0, 1, 47, 255}. ngx_rtmp_parse_complex_uri True [47, 46, 47, 97] 13 (replicate 5 c) =
    Ret (Some \<lparr>ux_uri = [47, 97, c], ux_args = None, ux_args_start = None\<rparr>)"
  "ngx_rtmp_parse_complex_uri True [47, 46, 47, 46, 46] 13 (replicate 6 47) =
    Ret (Some \<lparr>ux_uri = [47, 46, 46, 47], ux_args = None, ux_args_start = None\<rparr>)"
  by code_simp+

text \<open>
  The parser leaves such a slash itself: whatever the memory held before, \<open>/aa/../..\<close> becomes \<open>/../\<close>.
\<close>

lemma uri_loop_turn:
  "0 < k \<Longrightarrow> uri_loop k mg r =
     (if ur_rest r = [] then Ret (To_done r)
      else run_bind (uri_step mg r) (\<lambda>t. case t of Turn r \<Rightarrow> uri_loop (k - 1) mg r | _ \<Rightarrow> Ret t))"
  by (cases k) (simp_all cong: uri_turn.case_cong)

lemma prev_slash_turn: "0 < k \<Longrightarrow> prev_slash m k = (if m ! (k - 1) = 47 then Some k else prev_slash m (k - 1))"
  by (cases k) simp_all

lemma complex_uri_climbs:
  assumes "length m = 10"
  shows "ngx_rtmp_parse_complex_uri True [47, 97, 97, 47, 46, 46, 47, 46, 46] 13 m =
    Ret (Some \<lparr>ux_uri = [47, 46, 46, 47], ux_args = None, ux_args_start = None\<rparr>)"
proof -
  obtain a b c d e f g h i j where "m = [a, b, c, d, e, f, g, h, i, j]"
    using assms by (auto simp: length_Suc_conv eval_nat_numeral)
  then show ?thesis
    by (simp add: ngx_rtmp_parse_complex_uri_def uri_begin_def uri_next_def uri_loop_turn uri_step_def usual_iff uri_put_def
        Let_def prev_slash_turn)
qed

end
