(* ===== verification/Rtmp_Handshake.thy ===== *)
theory Rtmp_Handshake
  imports Rtmp_Types
begin

text \<open>
  The RTMP handshake (ngx\_rtmp\_handshake.c).  Both sides send a packet with a digest at a place that is
  computed from other bytes of the packet, and answer with a packet that ends in a digest keyed by
  the one they found.  HMAC-SHA256 of OpenSSL, the generator of random bytes and the handlers of the event
  \<open>NGX_RTMP_HANDSHAKE_DONE\<close> are parameters; the socket is the one of \<open>Rtmp_Types\<close>.  The read timer is left out.
\<close>

section \<open>State\<close>

text \<open>\<open>he_hmac\<close> is \<open>None\<close> when there is no memory for the context of OpenSSL.\<close>

record ('w, 'p, 'r) hs_env =
  he_hmac :: "bytes \<Rightarrow> bytes \<Rightarrow> bytes option"
  he_rand :: "'r \<Rightarrow> byte \<times> 'r"
  he_done :: "'w \<Rightarrow> ngx_rc \<times> 'w"
  he_pool :: "'p pool_ops"

text \<open>
  The handshake's part of \<open>ngx_rtmp_session_t\<close>, with the free buffers and the pool of the server's
  configuration; \<open>hs_cycles\<close> says that \<open>ngx_rtmp_cycle\<close> has taken the connection over.
\<close>

record ('w, 'p, 'r) hs_session =
  hs_conn :: ngx_connection
  hs_buf :: "buf option"
  hs_digest :: "bytes option"
  hs_old :: bool
  hs_stage :: nat
  hs_epoch :: u64
  hs_peer_epoch :: u64
  hs_free :: chain
  hs_conf_pool :: 'p
  hs_pool :: 'p
  hs_random :: 'r
  hs_cycles :: bool
  hs_world :: 'w

abbreviation hs_upd_conn :: "(ngx_connection \<Rightarrow> ngx_connection) \<Rightarrow> ('w, 'p, 'r) hs_session \<Rightarrow> ('w, 'p, 'r) hs_session" where
  "hs_upd_conn f s \<equiv> s\<lparr>hs_conn := f (hs_conn s)\<rparr>"

text \<open>\<open>ngx_rtmp_finalize_session\<close> on this part of the session.\<close>

definition hs_finalize :: "('w, 'p, 'r) hs_session \<Rightarrow> ('w, 'p, 'r) hs_session" where
  "hs_finalize s = hs_upd_conn (\<lambda>c. c\<lparr>c_destroyed := True\<rparr>) s"

definition NGX_RTMP_HANDSHAKE_KEYLEN :: nat where
  "NGX_RTMP_HANDSHAKE_KEYLEN = 32"

definition NGX_RTMP_HANDSHAKE_BUFSIZE :: nat where
  "NGX_RTMP_HANDSHAKE_BUFSIZE = 1537"

text \<open>The bytes both keys end with.\<close>

definition key_tail :: bytes where
  "key_tail = [0xF0, 0xEE, 0xC2, 0x4A, 0x80, 0x68, 0xBE, 0xE8, 0x2E, 0x00, 0xD0, 0xD1,
    0x02, 0x9E, 0x7E, 0x57, 0x6E, 0xEC, 0x5D, 0x2D, 0x29, 0x80, 0x6F, 0xAB,
    0x93, 0xB8, 0xE6, 0x36, 0xCF, 0xEB, 0x31, 0xAE]"

definition key_chars :: "string \<Rightarrow> bytes" where
  "key_chars cs = map (\<lambda>c. word_of_nat (of_char c)) cs"

definition ngx_rtmp_server_key :: bytes where
  "ngx_rtmp_server_key = key_chars ''Genuine Adobe Flash Media Server 001'' @ key_tail"

definition ngx_rtmp_client_key :: bytes where
  "ngx_rtmp_client_key = key_chars ''Genuine Adobe Flash Player 001'' @ key_tail"

definition ngx_rtmp_server_version :: bytes where
  "ngx_rtmp_server_version = [0x0D, 0x0E, 0x0A, 0x0D]"

definition ngx_rtmp_client_version :: bytes where
  "ngx_rtmp_client_version = [0x0C, 0x00, 0x0D, 0x0E]"

definition ngx_rtmp_server_partial_key :: bytes where
  "ngx_rtmp_server_partial_key = take 36 ngx_rtmp_server_key"

definition ngx_rtmp_client_partial_key :: bytes where
  "ngx_rtmp_client_partial_key = take 30 ngx_rtmp_client_key"

section \<open>Digests\<close>

text \<open>\<open>x\<close> is what the buffer holds, and \<open>skip\<close> the offset in it of the 32 bytes that are left out.\<close>

definition ngx_rtmp_make_digest :: "('w, 'p, 'r) hs_env \<Rightarrow> bytes \<Rightarrow> bytes \<Rightarrow> nat option \<Rightarrow> bytes option run" where
  "ngx_rtmp_make_digest env key x skip =
     (case skip of
        Some k \<Rightarrow>
          if k \<le> length x then
            if k + NGX_RTMP_HANDSHAKE_KEYLEN \<le> length x
            then Ret (he_hmac env key (take k x @ drop (k + NGX_RTMP_HANDSHAKE_KEYLEN) x)) else Fault
          else Ret (he_hmac env key x)
      | None \<Rightarrow> Ret (he_hmac env key x))"

text \<open>The sum of the four bytes from \<open>i\<close> on, as the place of a digest behind them.\<close>

definition digest_place :: "bytes \<Rightarrow> nat \<Rightarrow> nat" where
  "digest_place x i = sum_list (map unat (take 4 (drop i x))) mod 728 + i + 4"

definition ngx_rtmp_find_digest :: "('w, 'p, 'r) hs_env \<Rightarrow> bytes \<Rightarrow> bytes \<Rightarrow> nat \<Rightarrow> nat option run" where
  "ngx_rtmp_find_digest env x key base =
     (if length x < base + 4 then Fault
      else
        let offs = digest_place x base
        in run_bind (ngx_rtmp_make_digest env key x (Some offs)) (\<lambda>d.
             if length x < offs + NGX_RTMP_HANDSHAKE_KEYLEN then Fault
             else if d = Some (take NGX_RTMP_HANDSHAKE_KEYLEN (drop offs x)) then Ret (Some offs) else Ret None))"

definition ngx_rtmp_write_digest :: "('w, 'p, 'r) hs_env \<Rightarrow> buf \<Rightarrow> bytes \<Rightarrow> nat \<Rightarrow> (ngx_rc \<times> buf) run" where
  "ngx_rtmp_write_digest env b key base =
     (let x = buf_content b
      in if length x < base + 12 then Fault
         else
           let offs = digest_place x (base + 8)
           in run_bind (ngx_rtmp_make_digest env key x (Some offs)) (\<lambda>d.
                case d of
                  None \<Rightarrow> Ret (NGX_ERROR, b)
                | Some d \<Rightarrow> Ret (NGX_OK, b\<lparr>b_mem := put_at (b_mem b) (b_pos b + offs) d\<rparr>)))"

section \<open>Buffers\<close>

fun random_bytes :: "('r \<Rightarrow> byte \<times> 'r) \<Rightarrow> nat \<Rightarrow> 'r \<Rightarrow> bytes \<times> 'r" where
  "random_bytes rand 0 r = ([], r)"
| "random_bytes rand (Suc n) r =
     (case rand r of (x, r) \<Rightarrow> case random_bytes rand n r of (xs, r) \<Rightarrow> (x # xs, r))"

definition ngx_rtmp_fill_random_buffer :: "('w, 'p, 'r) hs_env \<Rightarrow> 'r \<Rightarrow> buf \<Rightarrow> buf \<times> 'r" where
  "ngx_rtmp_fill_random_buffer env r b =
     (case random_bytes (he_rand env) (buf_room b) r of (xs, r) \<Rightarrow> (buf_write b xs, r))"

definition ngx_rtmp_alloc_handshake_buffer ::
    "('w, 'p, 'r) hs_env \<Rightarrow> ('w, 'p, 'r) hs_session \<Rightarrow> buf option \<times> ('w, 'p, 'r) hs_session" where
  "ngx_rtmp_alloc_handshake_buffer env s =
     (case hs_free s of
        b # cl \<Rightarrow> (Some (b\<lparr>b_pos := 0, b_last := 0\<rparr>),
          s\<lparr>hs_free := cl, hs_conf_pool := p_free_link (he_pool env) (hs_conf_pool s)\<rparr>)
      | [] \<Rightarrow>
          (case p_alloc (he_pool env) (hs_conf_pool s) 80 of
             None \<Rightarrow> (None, s)
           | Some (pool, _) \<Rightarrow>
               (case p_alloc (he_pool env) pool NGX_RTMP_HANDSHAKE_BUFSIZE of
                  None \<Rightarrow> (None, s\<lparr>hs_conf_pool := pool\<rparr>)
                | Some (pool, m) \<Rightarrow>
                    (Some \<lparr>b_mem = replicate (length m) 0, b_pos = 0, b_last = 0\<rparr>, s\<lparr>hs_conf_pool := pool\<rparr>))))"

definition ngx_rtmp_free_handshake_buffers ::
    "('w, 'p, 'r) hs_env \<Rightarrow> ('w, 'p, 'r) hs_session \<Rightarrow> ('w, 'p, 'r) hs_session" where
  "ngx_rtmp_free_handshake_buffers env s =
     (case hs_buf s of
        None \<Rightarrow> s
      | Some b \<Rightarrow>
          (case p_link (he_pool env) (hs_conf_pool s) of
             None \<Rightarrow> s
           | Some pool \<Rightarrow> s\<lparr>hs_conf_pool := pool, hs_free := b # hs_free s, hs_buf := None\<rparr>))"

section \<open>Packets\<close>

definition ngx_rtmp_handshake_create_challenge ::
    "('w, 'p, 'r) hs_env \<Rightarrow> ('w, 'p, 'r) hs_session \<Rightarrow> bytes \<Rightarrow> bytes \<Rightarrow> (ngx_rc \<times> ('w, 'p, 'r) hs_session) run" where
  "ngx_rtmp_handshake_create_challenge env s version key =
     (case hs_buf s of
        None \<Rightarrow> Fault
      | Some b \<Rightarrow>
          let b = b\<lparr>b_pos := 0, b_last := 0\<rparr>;
              b = buf_write b [3];
              b = buf_write b (enc_nat 4 (unat (hs_epoch s)));
              b = buf_write b version;
              (b, r) = ngx_rtmp_fill_random_buffer env (hs_random s) b
          in run_bind (ngx_rtmp_write_digest env (b\<lparr>b_pos := b_pos b + 1\<rparr>) key 0) (\<lambda>(rc, b).
               if rc \<noteq> NGX_OK then Ret (NGX_ERROR, s\<lparr>hs_buf := Some b, hs_random := r\<rparr>)
               else Ret (NGX_OK, s\<lparr>hs_buf := Some (b\<lparr>b_pos := b_pos b - 1\<rparr>), hs_random := r\<rparr>)))"

text \<open>A digest is found, or there is none at either place.\<close>

definition find_either :: "('w, 'p, 'r) hs_env \<Rightarrow> bytes \<Rightarrow> bytes \<Rightarrow> nat option run" where
  "find_either env x key =
     run_bind (ngx_rtmp_find_digest env x key 772) (\<lambda>offs.
       case offs of Some i \<Rightarrow> Ret (Some i) | None \<Rightarrow> ngx_rtmp_find_digest env x key 8)"

definition ngx_rtmp_handshake_parse_challenge ::
    "('w, 'p, 'r) hs_env \<Rightarrow> ('w, 'p, 'r) hs_session \<Rightarrow> bytes \<Rightarrow> bytes \<Rightarrow> (ngx_rc \<times> ('w, 'p, 'r) hs_session) run" where
  "ngx_rtmp_handshake_parse_challenge env s peer_key key =
     (case hs_buf s of
        None \<Rightarrow> Fault
      | Some b \<Rightarrow>
          if b_mem b ! b_pos b \<noteq> 3 then Ret (NGX_ERROR, s)
          else
            let b = b\<lparr>b_pos := b_pos b + 1\<rparr>;
                x = buf_content b;
                s = s\<lparr>hs_buf := Some b, hs_peer_epoch := word_of_nat (be_nat (take 4 x))\<rparr>
            in if take 4 (drop 4 x) = [0, 0, 0, 0] then Ret (NGX_OK, s\<lparr>hs_old := True\<rparr>)
               else run_bind (find_either env x peer_key) (\<lambda>offs.
                 case offs of
                   None \<Rightarrow> Ret (NGX_OK, s\<lparr>hs_old := True\<rparr>)
                 | Some i \<Rightarrow>
                     let b = b\<lparr>b_pos := b_pos b + i, b_last := b_pos b + i + NGX_RTMP_HANDSHAKE_KEYLEN\<rparr>;
                         s = s\<lparr>hs_buf := Some b\<rparr>
                     in run_bind (ngx_rtmp_make_digest env key (buf_content b) None) (\<lambda>d.
                          case d of
                            None \<Rightarrow> Ret (NGX_ERROR, s)
                          | Some d \<Rightarrow>
                              (case p_alloc (he_pool env) (hs_pool s) NGX_RTMP_HANDSHAKE_KEYLEN of
                                 None \<Rightarrow> Fault
                               | Some (pool, _) \<Rightarrow> Ret (NGX_OK, s\<lparr>hs_pool := pool, hs_digest := Some d\<rparr>)))))"

definition ngx_rtmp_handshake_create_response ::
    "('w, 'p, 'r) hs_env \<Rightarrow> ('w, 'p, 'r) hs_session \<Rightarrow> (ngx_rc \<times> ('w, 'p, 'r) hs_session) run" where
  "ngx_rtmp_handshake_create_response env s =
     (case hs_buf s of
        None \<Rightarrow> Fault
      | Some b \<Rightarrow>
          let (b, r) = ngx_rtmp_fill_random_buffer env (hs_random s) (b\<lparr>b_pos := 1, b_last := 1\<rparr>);
              s = s\<lparr>hs_buf := Some b, hs_random := r\<rparr>
          in (case hs_digest s of
                None \<Rightarrow> Ret (NGX_OK, s)
              | Some key \<Rightarrow>
                  let p = length (buf_content b) - NGX_RTMP_HANDSHAKE_KEYLEN
                  in run_bind (ngx_rtmp_make_digest env key (buf_content b) (Some p)) (\<lambda>d.
                       case d of
                         None \<Rightarrow> Ret (NGX_ERROR, s)
                       | Some d \<Rightarrow> Ret (NGX_OK, s\<lparr>hs_buf := Some (b\<lparr>b_mem := put_at (b_mem b) (b_pos b + p) d\<rparr>)\<rparr>))))"

section \<open>The exchange\<close>

text \<open>How the loops of the two handlers end.\<close>

datatype io_end = Io_full | Io_again | Io_error

fun hs_recv_loop :: "bytes list \<Rightarrow> buf \<Rightarrow> io_end \<times> bytes list \<times> buf" where
  "hs_recv_loop segs b =
     (if buf_room b = 0 then (Io_full, segs, b)
      else case segs of
        [] \<Rightarrow> (Io_again, [], b)
      | seg # segs \<Rightarrow>
          if seg = [] then (Io_error, segs, b)
          else if length seg \<le> buf_room b then hs_recv_loop segs (buf_write b seg)
          else (Io_full, drop (buf_room b) seg # segs, buf_write b (take (buf_room b) seg)))"

declare hs_recv_loop.simps [simp del]

fun hs_send_loop :: "send_result list \<Rightarrow> buf \<Rightarrow> bytes \<Rightarrow> io_end \<times> send_result list \<times> buf \<times> bytes" where
  "hs_send_loop sends b wire =
     (if b_pos b = b_last b then (Io_full, sends, b, wire)
      else case sends of
        [] \<Rightarrow> (Io_again, [], b, wire)
      | Send_again # sends \<Rightarrow> (Io_again, sends, b, wire)
      | Send_error # sends \<Rightarrow> (Io_error, sends, b, wire)
      | Sent n # sends \<Rightarrow>
          let k = min n (b_last b - b_pos b)
          in if k = 0 then (Io_again, sends, b, wire)
             else hs_send_loop sends (b\<lparr>b_pos := b_pos b + k\<rparr>) (wire @ take k (drop (b_pos b) (b_mem b))))"

declare hs_send_loop.simps [simp del]

definition hs_recv :: "('w, 'p, 'r) hs_session \<Rightarrow> buf \<Rightarrow> io_end \<times> ('w, 'p, 'r) hs_session" where
  "hs_recv s b =
     (case hs_recv_loop (c_arrivals (hs_conn s)) b of
        (e, segs, b) \<Rightarrow> (e, (hs_upd_conn (\<lambda>c. c\<lparr>c_arrivals := segs\<rparr>) s)\<lparr>hs_buf := Some b\<rparr>))"

definition hs_send :: "('w, 'p, 'r) hs_session \<Rightarrow> buf \<Rightarrow> io_end \<times> ('w, 'p, 'r) hs_session" where
  "hs_send s b =
     (case hs_send_loop (c_sends (hs_conn s)) b (c_wire (hs_conn s)) of
        (e, sends, b, wire) \<Rightarrow> (e, (hs_upd_conn (\<lambda>c. c\<lparr>c_sends := sends, c_wire := wire\<rparr>) s)\<lparr>hs_buf := Some b\<rparr>))"

text \<open>The stages: 1 to 5 on the side of the server, 6 to 10 on that of the client.\<close>

definition set_window :: "nat \<Rightarrow> nat \<Rightarrow> ('w, 'p, 'r) hs_session \<Rightarrow> ('w, 'p, 'r) hs_session" where
  "set_window i j s = s\<lparr>hs_buf := map_option (\<lambda>b. b\<lparr>b_pos := i, b_last := j\<rparr>) (hs_buf s)\<rparr>"

definition hs_end :: "('w, 'p, 'r) hs_session \<Rightarrow> nat" where
  "hs_end s = (case hs_buf s of Some b \<Rightarrow> length (b_mem b) | None \<Rightarrow> 0)"

definition ngx_rtmp_handshake_done ::
    "('w, 'p, 'r) hs_env \<Rightarrow> ('w, 'p, 'r) hs_session \<Rightarrow> ('w, 'p, 'r) hs_session" where
  "ngx_rtmp_handshake_done env s =
     (let s = ngx_rtmp_free_handshake_buffers env s
      in case he_done env (hs_world s) of
           (rc, w) \<Rightarrow> if rc \<noteq> NGX_OK then hs_finalize (s\<lparr>hs_world := w\<rparr>) else s\<lparr>hs_world := w, hs_cycles := True\<rparr>)"

text \<open>
  The handlers call each other when a stage is done; \<open>k\<close> counts the calls, and a handshake has five stages.
\<close>

fun ngx_rtmp_handshake_recv and ngx_rtmp_handshake_send where
  "ngx_rtmp_handshake_recv 0 env timedout s = (Out_of_fuel :: ('w, 'p, 'r) hs_session run)"
| "ngx_rtmp_handshake_recv (Suc k) (env :: ('w, 'p, 'r) hs_env) timedout s =
     (if c_destroyed (hs_conn s) then Ret s
      else if timedout then Ret (hs_finalize (hs_upd_conn (\<lambda>c. c\<lparr>c_timedout := True\<rparr>) s))
      else case hs_buf s of
        None \<Rightarrow> Fault
      | Some b \<Rightarrow>
          (case hs_recv s b of
             (Io_error, s) \<Rightarrow> Ret (hs_finalize s)
           | (Io_again, s) \<Rightarrow> Ret (if c_event_ok (hs_conn s) then s else hs_finalize s)
           | (Io_full, s) \<Rightarrow>
               let s = s\<lparr>hs_stage := hs_stage s + 1\<rparr>
               in if hs_stage s = 2 then
                    run_bind (ngx_rtmp_handshake_parse_challenge env s ngx_rtmp_client_partial_key ngx_rtmp_server_key) (\<lambda>(rc, s).
                      if rc \<noteq> NGX_OK then Ret (hs_finalize s)
                      else if hs_old s then ngx_rtmp_handshake_send k env False (set_window 0 (hs_end s) s)
                      else run_bind (ngx_rtmp_handshake_create_challenge env s ngx_rtmp_server_version ngx_rtmp_server_partial_key) (\<lambda>(rc, s).
                        if rc \<noteq> NGX_OK then Ret (hs_finalize s)
                        else ngx_rtmp_handshake_send k env False s))
                  else if hs_stage s = 5 then Ret (ngx_rtmp_handshake_done env s)
                  else if hs_stage s = 8 then
                    run_bind (ngx_rtmp_handshake_parse_challenge env s ngx_rtmp_server_partial_key ngx_rtmp_client_key) (\<lambda>(rc, s).
                      if rc \<noteq> NGX_OK then Ret (hs_finalize s)
                      else ngx_rtmp_handshake_recv k env False (set_window 1 1 s))
                  else if hs_stage s = 9 then
                    run_bind (ngx_rtmp_handshake_create_response env s) (\<lambda>(rc, s).
                      if rc \<noteq> NGX_OK then Ret (hs_finalize s) else ngx_rtmp_handshake_send k env False s)
                  else Ret s))"
| "ngx_rtmp_handshake_send 0 env timedout s = Out_of_fuel"
| "ngx_rtmp_handshake_send (Suc k) env timedout s =
     (if c_destroyed (hs_conn s) then Ret s
      else if timedout then Ret (hs_finalize (hs_upd_conn (\<lambda>c. c\<lparr>c_timedout := True\<rparr>) s))
      else case hs_buf s of
        None \<Rightarrow> Fault
      | Some b \<Rightarrow>
          (case hs_send (hs_upd_conn (\<lambda>c. c\<lparr>c_write_timer := False\<rparr>) s) b of
             (Io_error, s) \<Rightarrow> Ret (hs_finalize s)
           | (Io_again, s) \<Rightarrow>
               let s = hs_upd_conn (\<lambda>c. c\<lparr>c_write_timer := True\<rparr>) s
               in Ret (if c_event_ok (hs_conn s) then hs_upd_conn (\<lambda>c. c\<lparr>c_write_active := True\<rparr>) s else hs_finalize s)
           | (Io_full, s) \<Rightarrow>
               let s = (hs_upd_conn (\<lambda>c. c\<lparr>c_write_active := False\<rparr>) s)\<lparr>hs_stage := hs_stage s + 1\<rparr>
               in if hs_stage s = 3 then
                    if hs_old s then ngx_rtmp_handshake_send k env False (set_window 1 (hs_end s) s)
                    else run_bind (ngx_rtmp_handshake_create_response env s) (\<lambda>(rc, s).
                      if rc \<noteq> NGX_OK then Ret (hs_finalize s) else ngx_rtmp_handshake_send k env False s)
                  else if hs_stage s = 4 then ngx_rtmp_handshake_recv k env False (set_window 1 1 s)
                  else if hs_stage s = 7 then ngx_rtmp_handshake_recv k env False (set_window 0 0 s)
                  else if hs_stage s = 10 then Ret (ngx_rtmp_handshake_done env s)
                  else Ret s))"

declare ngx_rtmp_handshake_recv.simps [simp del] ngx_rtmp_handshake_send.simps [simp del]

definition ngx_rtmp_handshake :: "('w, 'p, 'r) hs_env \<Rightarrow> ('w, 'p, 'r) hs_session \<Rightarrow> ('w, 'p, 'r) hs_session run" where
  "ngx_rtmp_handshake env s =
     (case ngx_rtmp_alloc_handshake_buffer env s of
        (b, s) \<Rightarrow> ngx_rtmp_handshake_recv 5 env False (s\<lparr>hs_buf := b, hs_stage := 1\<rparr>))"

definition ngx_rtmp_client_handshake ::
    "('w, 'p, 'r) hs_env \<Rightarrow> bool \<Rightarrow> ('w, 'p, 'r) hs_session \<Rightarrow> ('w, 'p, 'r) hs_session run" where
  "ngx_rtmp_client_handshake env async s =
     (case ngx_rtmp_alloc_handshake_buffer env s of
        (b, s) \<Rightarrow>
          run_bind (ngx_rtmp_handshake_create_challenge env (s\<lparr>hs_buf := b, hs_stage := 6\<rparr>)
              ngx_rtmp_client_version ngx_rtmp_client_partial_key) (\<lambda>(rc, s).
            if rc \<noteq> NGX_OK then Ret (hs_finalize s)
            else if async then
              let s = hs_upd_conn (\<lambda>c. c\<lparr>c_write_timer := True\<rparr>) s
              in Ret (if c_event_ok (hs_conn s) then hs_upd_conn (\<lambda>c. c\<lparr>c_write_active := True\<rparr>) s else hs_finalize s)
            else ngx_rtmp_handshake_send 5 env False s))"

section \<open>A digest that is written is found\<close>

definition hs_env_ok :: "('w, 'p, 'r) hs_env \<Rightarrow> bool" where
  "hs_env_ok env \<longleftrightarrow> (\<forall>k x. \<exists>d. he_hmac env k x = Some d \<and> length d = 32) \<and> pool_total (he_pool env) \<and>
     (\<forall>w. fst (he_done env w) = NGX_OK)"

lemma hmac_some:
  assumes "hs_env_ok env"
  obtains d where "he_hmac env k x = Some d" "length d = 32"
  using assms unfolding hs_env_ok_def by blast

text \<open>The packet \<open>x\<close> has a digest with this key at \<open>i\<close>.\<close>

definition digest_at :: "(bytes \<Rightarrow> bytes \<Rightarrow> bytes option) \<Rightarrow> bytes \<Rightarrow> bytes \<Rightarrow> nat \<Rightarrow> bool" where
  "digest_at h key x i \<longleftrightarrow> i + 32 \<le> length x \<and> h key (take i x @ drop (i + 32) x) = Some (take 32 (drop i x))"

lemma place_bound: "i + 4 \<le> digest_place x i" "digest_place x i < i + 732"
  by (simp_all add: digest_place_def)

lemma find_digest_eq:
  assumes "base + 764 \<le> length x"
  shows "ngx_rtmp_find_digest env x key base =
    Ret (if digest_at (he_hmac env) key x (digest_place x base) then Some (digest_place x base) else None)"
  using assms place_bound [where i = base and x = x]
  by (simp add: ngx_rtmp_find_digest_def ngx_rtmp_make_digest_def digest_at_def NGX_RTMP_HANDSHAKE_KEYLEN_def Let_def)

lemma find_either_some:
  assumes "length x = 1536" "digest_at (he_hmac env) key x (digest_place x 8)"
  obtains i where "find_either env x key = Ret (Some i)" "digest_at (he_hmac env) key x i" "i + 32 \<le> 1536"
  using assms by (cases "digest_at (he_hmac env) key x (digest_place x 772)")
    (auto simp: find_either_def find_digest_eq digest_at_def)

lemma put_at_right: "put_at (xs @ ys) (length xs + i) d = xs @ put_at ys i d"
  by (simp add: put_at_def)

lemma put_at_left: "i + length d \<le> length xs \<Longrightarrow> put_at (xs @ ys) i d = put_at xs i d @ ys"
  by (simp add: put_at_def)

lemma write_digest_ok:
  assumes "hs_env_ok env" "buf_ok b" "length (buf_content b) = 1536"
  shows "\<exists>b'. ngx_rtmp_write_digest env b key 0 = Ret (NGX_OK, b') \<and> b_pos b' = b_pos b \<and> b_last b' = b_last b \<and>
    length (b_mem b') = length (b_mem b) \<and> take (b_pos b + 12) (b_mem b') = take (b_pos b + 12) (b_mem b) \<and>
    digest_at (he_hmac env) key (buf_content b') (digest_place (buf_content b') 8)"
proof -
  define x where "x = buf_content b"
  define i where "i = digest_place x 8"
  have i: "12 \<le> i" "i + 32 \<le> 1536" using place_bound [where i = 8 and x = x] by (simp_all add: i_def)
  have len: "b_last b = b_pos b + 1536" "b_pos b + 1536 \<le> length (b_mem b)" using assms(2,3) by (auto simp: buf_ok_def buf_content_def)
  obtain d where d: "he_hmac env key (take i x @ drop (i + 32) x) = Some d" "length d = 32"
    using assms(1) unfolding hs_env_ok_def by blast
  let ?b = "b\<lparr>b_mem := put_at (b_mem b) (b_pos b + i) d\<rparr>"
  have w: "ngx_rtmp_write_digest env b key 0 = Ret (NGX_OK, ?b)"
    using assms(3) i d by (simp add: ngx_rtmp_write_digest_def ngx_rtmp_make_digest_def x_def [symmetric] i_def [symmetric]
        NGX_RTMP_HANDSHAKE_KEYLEN_def Let_def)
  have lx: "length x = 1536" using assms(3) by (simp add: x_def)
  define pre where "pre = take (b_pos b) (b_mem b)"
  define post where "post = drop (b_pos b + 1536) (b_mem b)"
  have "drop (b_pos b) (b_mem b) = x @ post"
    using len by (simp add: x_def post_def buf_content_def) (metis append_take_drop_id drop_drop add.commute)
  then have mem: "b_mem b = pre @ x @ post" by (metis pre_def append_take_drop_id)
  have pre: "length pre = b_pos b" using len by (simp add: pre_def)
  have pm: "put_at (b_mem b) (b_pos b + i) d = pre @ put_at x i d @ post"
    unfolding mem pre [symmetric] put_at_right using put_at_left [of i d x post] i d(2) lx by simp
  have c: "buf_content ?b = put_at x i d"
    using len i d(2) lx pre by (simp add: buf_content_def pm)
  have t: "take i (put_at x i d) = take i x" using i lx by (simp add: put_at_def)
  have dr: "drop i (put_at x i d) = d @ drop (i + 32) x" using i lx d(2) by simp
  have "take 4 (drop 8 (put_at x i d)) = take 4 (drop 8 (take i (put_at x i d)))" using i by (simp add: drop_take)
  also have "\<dots> = take 4 (drop 8 x)" unfolding t using i by (simp add: drop_take)
  finally have p: "digest_place (put_at x i d) 8 = i" by (simp add: digest_place_def i_def)
  have "drop (i + 32) (put_at x i d) = drop (i + 32) x"
    using arg_cong [OF dr, of "drop 32"] d(2) by (simp add: add.commute)
  then have "digest_at (he_hmac env) key (put_at x i d) i"
    unfolding digest_at_def t using dr i d lx by simp
  moreover have "take (b_pos b + 12) (pre @ put_at x i d @ post) = take (b_pos b + 12) (b_mem b)"
    using i lx pre d(2) arg_cong [OF t, of "take 12"] by (simp add: mem)
  moreover have "length (pre @ put_at x i d @ post) = length (b_mem b)" using i d(2) lx by (simp add: mem)
  ultimately show ?thesis using w p c by (intro exI [of _ ?b]) (simp add: pm)
qed

section \<open>The packets\<close>

lemma random_length: "length (fst (random_bytes rand n r)) = n"
  by (induction n arbitrary: r) (auto split: prod.split simp: prod.case_eq_if)

lemma fill_random_ok:
  assumes "b_last b \<le> length (b_mem b)"
  obtains b' r' where "ngx_rtmp_fill_random_buffer env r b = (b', r')" "b_pos b' = b_pos b" "b_last b' = length (b_mem b)"
    "length (b_mem b') = length (b_mem b)" "take (b_last b) (b_mem b') = take (b_last b) (b_mem b)"
proof -
  obtain xs r' where x: "random_bytes (he_rand env) (buf_room b) r = (xs, r')" by force
  then have "length xs = buf_room b" using random_length [of "he_rand env" "buf_room b" r] by simp
  with x assms show thesis
    by (intro that [of "buf_write b xs" r']) (simp_all add: ngx_rtmp_fill_random_buffer_def buf_write_def put_at_def)
qed

text \<open>A buffer with a whole packet in it, and what it says.\<close>

definition whole :: "buf \<Rightarrow> bool" where
  "whole b \<longleftrightarrow> length (b_mem b) = 1537"

definition challenge :: "(bytes \<Rightarrow> bytes \<Rightarrow> bytes option) \<Rightarrow> bytes \<Rightarrow> bytes \<Rightarrow> u64 \<Rightarrow> bytes \<Rightarrow> bool" where
  "challenge h key version epoch m \<longleftrightarrow> length m = 1537 \<and> take 9 m = 3 # enc_nat 4 (unat epoch) @ version \<and>
     digest_at h key (tl m) (digest_place (tl m) 8)"

lemma create_challenge_ok:
  assumes "hs_env_ok env" "hs_buf s = Some b" "whole b" "length version = 4"
  obtains m r where "ngx_rtmp_handshake_create_challenge env s version key =
      Ret (NGX_OK, s\<lparr>hs_buf := Some \<lparr>b_mem = m, b_pos = 0, b_last = 1537\<rparr>, hs_random := r\<rparr>)"
    "challenge (he_hmac env) key version (hs_epoch s) m"
proof -
  let ?b = "buf_write (buf_write (buf_write (b\<lparr>b_pos := 0, b_last := 0\<rparr>) [3]) (enc_nat 4 (unat (hs_epoch s)))) version"
  have b: "b_pos ?b = 0" "b_last ?b = 9" "length (b_mem ?b) = 1537"
    "take 9 (b_mem ?b) = 3 # enc_nat 4 (unat (hs_epoch s)) @ version"
    using assms(3,4) by (simp_all add: buf_write_def whole_def put_at_def)
  obtain b1 r where f: "ngx_rtmp_fill_random_buffer env (hs_random s) ?b = (b1, r)" "b_pos b1 = b_pos ?b" "b_last b1 = length (b_mem ?b)"
    "length (b_mem b1) = length (b_mem ?b)" "take (b_last ?b) (b_mem b1) = take (b_last ?b) (b_mem ?b)"
    by (rule fill_random_ok [of ?b env "hs_random s"]) (use b in simp)
  let ?b1 = "b1\<lparr>b_pos := b_pos b1 + 1\<rparr>"
  have l: "buf_ok ?b1" "length (buf_content ?b1) = 1536" using f b by (simp_all add: buf_ok_def buf_content_def)
  obtain b2 where w: "ngx_rtmp_write_digest env ?b1 key 0 = Ret (NGX_OK, b2)" "b_pos b2 = 1" "b_last b2 = 1537"
    "length (b_mem b2) = 1537" "take 13 (b_mem b2) = take 13 (b_mem b1)"
    "digest_at (he_hmac env) key (buf_content b2) (digest_place (buf_content b2) 8)"
    using write_digest_ok [OF assms(1) l, of key] f b by auto
  have "take 9 (b_mem b2) = take 9 (take 13 (b_mem b2))" by simp
  also have "\<dots> = take 9 (b_mem b1)" unfolding w(5) by simp
  finally have t: "take 9 (b_mem b2) = 3 # enc_nat 4 (unat (hs_epoch s)) @ version" using f(5) b by simp
  have "buf_content b2 = tl (b_mem b2)" using w by (simp add: buf_content_def drop_Suc)
  then have "challenge (he_hmac env) key version (hs_epoch s) (b_mem b2)" using w t by (simp add: challenge_def)
  moreover have "b2\<lparr>b_pos := b_pos b2 - 1\<rparr> = \<lparr>b_mem = b_mem b2, b_pos = 0, b_last = 1537\<rparr>" using w by simp
  ultimately show thesis
    using that [of r "b_mem b2"] assms(2) f(1) w(1) by (simp add: ngx_rtmp_handshake_create_challenge_def Let_def)
qed

lemma parse_challenge_ok:
  assumes "hs_env_ok env" "hs_buf s = Some \<lparr>b_mem = m, b_pos = 0, b_last = 1537\<rparr>"
    and "challenge (he_hmac env) peer_key version epoch m" "version \<noteq> [0, 0, 0, 0]" "length version = 4"
  obtains b i pool d where "ngx_rtmp_handshake_parse_challenge env s peer_key key = Ret (NGX_OK,
      s\<lparr>hs_buf := Some b, hs_peer_epoch := word_of_nat (be_nat (enc_nat 4 (unat epoch))), hs_pool := pool, hs_digest := Some d\<rparr>)"
    "whole b" "digest_at (he_hmac env) peer_key (tl m) i" "he_hmac env key (take 32 (drop i (tl m))) = Some d" "length d = 32"
proof -
  have m: "length m = 1537" "take 9 m = 3 # enc_nat 4 (unat epoch) @ version"
    "digest_at (he_hmac env) peer_key (tl m) (digest_place (tl m) 8)" using assms(3) by (simp_all add: challenge_def)
  have x: "buf_content \<lparr>b_mem = m, b_pos = Suc 0, b_last = 1537\<rparr> = tl m" "length (tl m) = 1536"
    using m(1) by (simp_all add: buf_content_def drop_Suc)
  obtain y ys where ym: "m = y # ys" using m(1) by (cases m) auto
  have h: "m ! 0 = 3" "take 8 (tl m) = enc_nat 4 (unat epoch) @ version" using m(2) unfolding ym by simp_all
  have e: "take 4 (tl m) = enc_nat 4 (unat epoch)" "take 4 (drop 4 (tl m)) = version"
    using arg_cong [OF h(2), of "take 4"] arg_cong [OF h(2), of "drop 4"] assms(5) by (simp_all add: take_drop)
  obtain i where i: "find_either env (tl m) peer_key = Ret (Some i)" "digest_at (he_hmac env) peer_key (tl m) i" "i + 32 \<le> 1536"
    by (rule find_either_some [OF x(2) m(3)])
  let ?b = "\<lparr>b_mem = m, b_pos = Suc i, b_last = Suc i + 32\<rparr>"
  have c: "buf_content ?b = take 32 (drop i (tl m))" by (simp add: buf_content_def drop_Suc)
  obtain d where d: "he_hmac env key (take 32 (drop i (tl m))) = Some d" "length d = 32"
    using hmac_some [OF assms(1)] .
  obtain pool mm where p: "p_alloc (he_pool env) (hs_pool s) 32 = Some (pool, mm)"
    by (rule pool_totalE [of "he_pool env" "hs_pool s" 32]) (use assms(1) in \<open>auto simp: hs_env_ok_def\<close>)
  have "ngx_rtmp_handshake_parse_challenge env s peer_key key = Ret (NGX_OK,
      s\<lparr>hs_buf := Some ?b, hs_peer_epoch := word_of_nat (be_nat (enc_nat 4 (unat epoch))), hs_pool := pool, hs_digest := Some d\<rparr>)"
    using assms(2,4) h(1) e i(1) x(1) c d(1) p
    by (simp add: ngx_rtmp_handshake_parse_challenge_def ngx_rtmp_make_digest_def Let_def NGX_RTMP_HANDSHAKE_KEYLEN_def)
  then show thesis using that [of d pool ?b i] i(2) d m(1) by (simp add: whole_def)
qed

text \<open>The second packet: its last 32 bytes are a digest of the others.\<close>

definition response :: "(bytes \<Rightarrow> bytes \<Rightarrow> bytes option) \<Rightarrow> bytes \<Rightarrow> bytes \<Rightarrow> bool" where
  "response h key x \<longleftrightarrow> length x = 1536 \<and> h key (take 1504 x) = Some (drop 1504 x)"

lemma create_response_ok:
  assumes "hs_env_ok env" "hs_buf s = Some b" "whole b" "hs_digest s = Some key"
  obtains m r where "ngx_rtmp_handshake_create_response env s =
      Ret (NGX_OK, s\<lparr>hs_buf := Some \<lparr>b_mem = m, b_pos = 1, b_last = 1537\<rparr>, hs_random := r\<rparr>)"
    "length m = 1537" "response (he_hmac env) key (tl m)"
proof -
  obtain b1 r where f: "ngx_rtmp_fill_random_buffer env (hs_random s) (b\<lparr>b_pos := 1, b_last := 1\<rparr>) = (b1, r)"
    "b_pos b1 = 1" "b_last b1 = 1537" "length (b_mem b1) = 1537"
    by (rule fill_random_ok [of "b\<lparr>b_pos := 1, b_last := 1\<rparr>" env "hs_random s"]) (use assms(3) in \<open>simp_all add: whole_def\<close>)
  obtain y x where ym: "b_mem b1 = y # x" using f(4) by (cases "b_mem b1") auto
  have x: "buf_content b1 = x" "length x = 1536" using f ym by (simp_all add: buf_content_def)
  obtain d where d: "he_hmac env key (take 1504 x) = Some d" "length d = 32"
    using hmac_some [OF assms(1)] .
  let ?m = "y # take 1504 x @ d"
  have "put_at (y # x) 1505 d = ?m" using put_at_right [of "[y]" x 1504 d] x(2) d(2) by (simp add: put_at_def)
  then have "ngx_rtmp_handshake_create_response env s =
      Ret (NGX_OK, s\<lparr>hs_buf := Some \<lparr>b_mem = ?m, b_pos = 1, b_last = 1537\<rparr>, hs_random := r\<rparr>)"
    using assms(2,4) f ym x d
    by (simp add: ngx_rtmp_handshake_create_response_def ngx_rtmp_make_digest_def NGX_RTMP_HANDSHAKE_KEYLEN_def Let_def)
  then show thesis using that [of r ?m] d x(2) by (simp add: response_def)
qed

end
