(* ===== verification/Rtmp_Exchange.thy ===== *)
theory Rtmp_Exchange
  imports Rtmp_Handshake
begin

text \<open>
  The handshake from end to end: the client's and the server's handlers are run on each other's bytes, which arrive
  in any pieces.  The lemmas of a step say what a handler leaves as it is and where its switch goes on.
\<close>

section \<open>The socket\<close>

text \<open>A row of pieces, none of them empty.\<close>

definition hs_pieces :: "bytes list \<Rightarrow> bytes \<Rightarrow> bool" where
  "hs_pieces segs x \<longleftrightarrow> concat segs = x \<and> [] \<notin> set segs"

lemma recv_loop_full:
  assumes "hs_pieces segs (x @ y)" "length x = buf_room b" "b_last b \<le> length (b_mem b)"
  shows "\<exists>segs'. hs_recv_loop segs b = (Io_full, segs', buf_write b x) \<and> hs_pieces segs' y"
  using assms
proof (induction segs arbitrary: b x)
  case Nil
  then show ?case by (simp add: hs_recv_loop.simps [of "[]" b] hs_pieces_def buf_write_def put_at_def)
next
  case (Cons seg segs)
  have s: "seg \<noteq> []" "[] \<notin> set segs" "seg @ concat segs = x @ y" using Cons.prems(1) by (auto simp: hs_pieces_def)
  show ?case
  proof (cases "length seg \<le> length x")
    case True
    then obtain x' where x: "x = seg @ x'" "concat segs = x' @ y" using s(3) by (auto simp: append_eq_append_conv2)
    let ?b = "buf_write b seg"
    have r: "length x' = buf_room ?b" "b_last ?b \<le> length (b_mem ?b)"
      using Cons.prems(2,3) x(1) True by (simp_all add: buf_write_def)
    have w: "buf_write ?b x' = buf_write b x"
      using Cons.prems(2,3) x(1) by (simp add: buf_write_def put_at_def)
    from Cons.IH [of x' ?b] r x(2) s(2) have "\<exists>segs'. hs_recv_loop segs ?b = (Io_full, segs', buf_write b x) \<and> hs_pieces segs' y"
      unfolding w by (simp add: hs_pieces_def)
    moreover have "buf_room b \<noteq> 0" using Cons.prems(2) x(1) s(1) by auto
    ultimately show ?thesis using s(1) True Cons.prems(2) by (simp add: hs_recv_loop.simps [of "seg # segs" b])
  next
    case False
    then obtain z where z: "seg = x @ z" "z \<noteq> []" "y = z @ concat segs"
      using s(3) by (auto simp: append_eq_append_conv2)
    show ?thesis
    proof (cases "buf_room b = 0")
      case True
      then have "x = []" using Cons.prems(2) by simp
      then show ?thesis using True z s by (intro exI [of _ "seg # segs"])
          (simp add: hs_recv_loop.simps [of "z # segs" b] hs_pieces_def buf_write_def)
    next
      case f: False
      have "hs_recv_loop (seg # segs) b = (Io_full, drop (buf_room b) seg # segs, buf_write b (take (buf_room b) seg))"
        using f False Cons.prems(2) s(1) by (simp add: hs_recv_loop.simps [of "seg # segs" b])
      moreover have "take (buf_room b) seg = x" "drop (buf_room b) seg = z"
        using z(1) Cons.prems(2) by (metis append_eq_conv_conj)+
      ultimately show ?thesis using z(2,3) s(2) by (simp add: hs_pieces_def)
    qed
  qed
qed

text \<open>A socket that takes at least a byte at a time, for \<open>n\<close> bytes.\<close>

definition willing :: "nat \<Rightarrow> send_result list \<Rightarrow> bool" where
  "willing n sends \<longleftrightarrow> (\<forall>x \<in> set sends. \<exists>k>0. x = Sent k) \<and> n \<le> length sends"

lemma send_loop_full:
  assumes "willing (n + (b_last b - b_pos b)) sends" "b_pos b \<le> b_last b" "b_last b \<le> length (b_mem b)"
  shows "\<exists>sends'. hs_send_loop sends b wire = (Io_full, sends', b\<lparr>b_pos := b_last b\<rparr>, wire @ buf_content b) \<and> willing n sends'"
  using assms
proof (induction sends arbitrary: b wire)
  case Nil
  then show ?case by (simp add: hs_send_loop.simps [of "[]" b] willing_def buf_content_def)
next
  case (Cons x sends)
  show ?case
  proof (cases "b_pos b = b_last b")
    case True
    then show ?thesis using Cons.prems(1) by (intro exI [of _ "x # sends"])
        (simp add: hs_send_loop.simps [of "x # sends" b] willing_def buf_content_def)
  next
    case False
    obtain k where k: "x = Sent k" "k > 0" using Cons.prems(1) by (auto simp: willing_def)
    define j where "j = min k (b_last b - b_pos b)"
    have j: "j > 0" "b_pos b + j \<le> b_last b" using k(2) False Cons.prems(2) by (auto simp: j_def)
    let ?b = "b\<lparr>b_pos := b_pos b + j\<rparr>" and ?w = "wire @ take j (drop (b_pos b) (b_mem b))"
    have "n + (b_last b - b_pos b) \<le> Suc (length sends)" using Cons.prems(1) by (simp add: willing_def)
    then have "n + (b_last ?b - b_pos ?b) \<le> length sends" using j by simp
    then have w: "willing (n + (b_last ?b - b_pos ?b)) sends" using Cons.prems(1) by (simp add: willing_def)
    have c: "?w @ buf_content ?b = wire @ buf_content b"
    proof -
      have "b_last b - b_pos b = j + (b_last b - (b_pos b + j))" using j by simp
      then have "take (b_last b - b_pos b) (drop (b_pos b) (b_mem b)) =
          take j (drop (b_pos b) (b_mem b)) @ take (b_last b - (b_pos b + j)) (drop j (drop (b_pos b) (b_mem b)))"
        by (metis take_add)
      then show ?thesis by (simp add: buf_content_def add.commute)
    qed
    from Cons.IH [OF w, of ?w] j(2) Cons.prems(3)
    obtain sends' where "hs_send_loop sends ?b ?w = (Io_full, sends', b\<lparr>b_pos := b_last b\<rparr>, wire @ buf_content b)" "willing n sends'"
      unfolding c by auto
    moreover have "hs_send_loop (x # sends) b wire = hs_send_loop sends ?b ?w"
      using False k j by (simp add: hs_send_loop.simps [of "Sent k # sends" b] Let_def j_def [symmetric])
    ultimately show ?thesis by auto
  qed
qed

section \<open>Both sides together\<close>

abbreviation hs_arrive :: "bytes list \<Rightarrow> ('w, 'p, 'r) hs_session \<Rightarrow> ('w, 'p, 'r) hs_session" where
  "hs_arrive segs s \<equiv> hs_upd_conn (\<lambda>c. c\<lparr>c_arrivals := segs\<rparr>) s"

lemma hs_recv_full:
  assumes "hs_pieces (c_arrivals (hs_conn s)) (x @ y)" "whole b" "length x = 1537 - b_last b" "b_last b \<le> 1537"
  obtains segs where "hs_recv s b = (Io_full, (hs_arrive segs s)\<lparr>hs_buf := Some (buf_write b x)\<rparr>)" "hs_pieces segs y"
  using recv_loop_full [OF assms(1), of b] assms(2-4) by (auto simp: hs_recv_def whole_def)

lemma hs_recv_none:
  assumes "c_arrivals (hs_conn s) = []" "whole b" "b_last b < 1537"
  shows "hs_recv s b = (Io_again, (hs_arrive [] s)\<lparr>hs_buf := Some b\<rparr>)"
  using assms by (simp add: hs_recv_def hs_recv_loop.simps [of "[]" b] whole_def)

lemma hs_send_full:
  assumes "willing (n + (b_last b - b_pos b)) (c_sends (hs_conn s))" "b_pos b \<le> b_last b" "b_last b \<le> length (b_mem b)"
  obtains sends where "hs_send s b = (Io_full,
      (hs_upd_conn (\<lambda>c. c\<lparr>c_sends := sends, c_wire := c_wire c @ buf_content b\<rparr>) s)\<lparr>hs_buf := Some (b\<lparr>b_pos := b_last b\<rparr>)\<rparr>)"
    "willing n sends"
  using send_loop_full [OF assms, of "c_wire (hs_conn s)"] by (auto simp: hs_send_def)

lemma hs_pieces_Nil [simp]: "hs_pieces segs [] \<longleftrightarrow> segs = []"
  by (cases segs) (auto simp: hs_pieces_def)

lemma versions: "length ngx_rtmp_client_version = 4" "length ngx_rtmp_server_version = 4"
  "ngx_rtmp_client_version \<noteq> [0, 0, 0, 0]" "ngx_rtmp_server_version \<noteq> [0, 0, 0, 0]"
  by (simp_all add: ngx_rtmp_client_version_def ngx_rtmp_server_version_def)

text \<open>A connection on which nothing has happened yet.\<close>

definition hs_fresh :: "('w, 'p, 'r) hs_session \<Rightarrow> bool" where
  "hs_fresh s \<longleftrightarrow> \<not> c_destroyed (hs_conn s) \<and> c_wire (hs_conn s) = [] \<and> c_arrivals (hs_conn s) = [] \<and>
     c_event_ok (hs_conn s) \<and> willing 4000 (c_sends (hs_conn s)) \<and> hs_digest s = None \<and> \<not> hs_old s \<and>
     \<not> hs_cycles s \<and> list_all whole (hs_free s)"

lemma alloc_buffer_ok:
  assumes "hs_env_ok env" "list_all whole (hs_free s)"
  obtains b cl pool where "ngx_rtmp_alloc_handshake_buffer env s = (Some b, s\<lparr>hs_free := cl, hs_conf_pool := pool\<rparr>)"
    "whole b" "b_pos b = 0" "b_last b = 0"
proof (cases "hs_free s")
  case Nil
  have t: "pool_total (he_pool env)" using assms(1) by (simp add: hs_env_ok_def)
  obtain p1 m1 where 1: "p_alloc (he_pool env) (hs_conf_pool s) 80 = Some (p1, m1)" by (rule pool_totalE [OF t])
  obtain p2 m2 where 2: "p_alloc (he_pool env) p1 1537 = Some (p2, m2)" "length m2 = 1537" by (rule pool_totalE [OF t])
  show thesis
    by (rule that [of "\<lparr>b_mem = replicate 1537 0, b_pos = 0, b_last = 0\<rparr>" p2 "[]"])
       (use Nil 1 2 in \<open>simp_all add: ngx_rtmp_alloc_handshake_buffer_def NGX_RTMP_HANDSHAKE_BUFSIZE_def whole_def\<close>)
next
  case (Cons b cl)
  show thesis
    by (rule that [of "b\<lparr>b_pos := 0, b_last := 0\<rparr>" "p_free_link (he_pool env) (hs_conf_pool s)" cl])
       (use Cons assms(2) in \<open>simp_all add: ngx_rtmp_alloc_handshake_buffer_def whole_def\<close>)
qed

text \<open>What the handlers leave as it is, and the switches at their ends.\<close>

definition hs_same :: "('w, 'p, 'r) hs_session \<Rightarrow> ('w, 'p, 'r) hs_session \<Rightarrow> bool" where
  "hs_same s s' \<longleftrightarrow> hs_digest s' = hs_digest s \<and> hs_old s' = hs_old s \<and> hs_epoch s' = hs_epoch s \<and>
     hs_peer_epoch s' = hs_peer_epoch s \<and> hs_cycles s' = hs_cycles s \<and>
     c_destroyed (hs_conn s') = c_destroyed (hs_conn s) \<and> c_event_ok (hs_conn s') = c_event_ok (hs_conn s)"

definition after_send where
  "after_send k env s' =
     (if hs_stage s' = 3 then
                    if hs_old s' then ngx_rtmp_handshake_send k env False (set_window 1 (hs_end s') s')
                    else run_bind (ngx_rtmp_handshake_create_response env s') (\<lambda>(rc, s).
                      if rc \<noteq> NGX_OK then Ret (hs_finalize s) else ngx_rtmp_handshake_send k env False s)
                  else if hs_stage s' = 4 then ngx_rtmp_handshake_recv k env False (set_window 1 1 s')
                  else if hs_stage s' = 7 then ngx_rtmp_handshake_recv k env False (set_window 0 0 s')
                  else if hs_stage s' = 10 then Ret (ngx_rtmp_handshake_done env s')
                  else Ret s')"

definition after_recv where
  "after_recv k env s' =
     (if hs_stage s' = 2 then
                    run_bind (ngx_rtmp_handshake_parse_challenge env s' ngx_rtmp_client_partial_key ngx_rtmp_server_key) (\<lambda>(rc, s).
                      if rc \<noteq> NGX_OK then Ret (hs_finalize s)
                      else if hs_old s then ngx_rtmp_handshake_send k env False (set_window 0 (hs_end s) s)
                      else run_bind (ngx_rtmp_handshake_create_challenge env s ngx_rtmp_server_version ngx_rtmp_server_partial_key) (\<lambda>(rc, s).
                        if rc \<noteq> NGX_OK then Ret (hs_finalize s)
                        else ngx_rtmp_handshake_send k env False s))
                  else if hs_stage s' = 5 then Ret (ngx_rtmp_handshake_done env s')
                  else if hs_stage s' = 8 then
                    run_bind (ngx_rtmp_handshake_parse_challenge env s' ngx_rtmp_server_partial_key ngx_rtmp_client_key) (\<lambda>(rc, s).
                      if rc \<noteq> NGX_OK then Ret (hs_finalize s)
                      else ngx_rtmp_handshake_recv k env False (set_window 1 1 s))
                  else if hs_stage s' = 9 then
                    run_bind (ngx_rtmp_handshake_create_response env s') (\<lambda>(rc, s).
                      if rc \<noteq> NGX_OK then Ret (hs_finalize s) else ngx_rtmp_handshake_send k env False s)
                  else Ret s')"

lemma hs_send_step:
  assumes "\<not> c_destroyed (hs_conn s)" "hs_buf s = Some b" "whole b" "b_pos b \<le> b_last b" "b_last b \<le> 1537"
    and "willing (n + (b_last b - b_pos b)) (c_sends (hs_conn s))"
  obtains s' where "ngx_rtmp_handshake_send (Suc k) env False s =
     after_send k env s'"
    "hs_stage s' = hs_stage s + 1" "c_wire (hs_conn s') = c_wire (hs_conn s) @ buf_content b"
    "willing n (c_sends (hs_conn s'))" "hs_buf s' = Some (b\<lparr>b_pos := b_last b\<rparr>)" "hs_same s s'"
    "c_arrivals (hs_conn s') = c_arrivals (hs_conn s)"
proof -
  let ?t = "hs_upd_conn (\<lambda>c. c\<lparr>c_write_timer := False\<rparr>) s"
  obtain sends where s: "hs_send ?t b = (Io_full,
      (hs_upd_conn (\<lambda>c. c\<lparr>c_sends := sends, c_wire := c_wire c @ buf_content b\<rparr>) ?t)\<lparr>hs_buf := Some (b\<lparr>b_pos := b_last b\<rparr>)\<rparr>)"
    "willing n sends"
    by (rule hs_send_full [of n b ?t]) (use assms in \<open>simp_all add: whole_def\<close>)
  define s' where "s' = ((hs_upd_conn (\<lambda>c. c\<lparr>c_sends := sends, c_wire := c_wire c @ buf_content b, c_write_active := False\<rparr>) ?t)
      \<lparr>hs_buf := Some (b\<lparr>b_pos := b_last b\<rparr>), hs_stage := hs_stage s + 1\<rparr>)"
  have e: "(hs_upd_conn (\<lambda>c. c\<lparr>c_write_active := False\<rparr>) u)\<lparr>hs_stage := hs_stage u + 1\<rparr> = s'"
    if "u = (hs_upd_conn (\<lambda>c. c\<lparr>c_sends := sends, c_wire := c_wire c @ buf_content b\<rparr>) ?t)\<lparr>hs_buf := Some (b\<lparr>b_pos := b_last b\<rparr>)\<rparr>" for u
    unfolding that s'_def by simp
  show thesis
  proof (rule that [of s'])
    show "hs_stage s' = hs_stage s + 1" "c_wire (hs_conn s') = c_wire (hs_conn s) @ buf_content b"
      "willing n (c_sends (hs_conn s'))" "hs_buf s' = Some (b\<lparr>b_pos := b_last b\<rparr>)" "hs_same s s'"
      "c_arrivals (hs_conn s') = c_arrivals (hs_conn s)"
      using s(2) by (simp_all add: s'_def hs_same_def)
  qed (simp only: ngx_rtmp_handshake_send.simps if_not_P [OF assms(1)] if_False assms(2) option.case s(1) prod.case io_end.case Let_def e [OF refl] after_send_def)
qed

lemma hs_recv_step:
  assumes "\<not> c_destroyed (hs_conn s)" "hs_buf s = Some b" "whole b" "b_last b \<le> 1537"
    and "hs_pieces (c_arrivals (hs_conn s)) (x @ y)" "length x = 1537 - b_last b"
  obtains s' where "ngx_rtmp_handshake_recv (Suc k) env False s =
     after_recv k env s'"
    "hs_stage s' = hs_stage s + 1" "c_wire (hs_conn s') = c_wire (hs_conn s)"
    "c_sends (hs_conn s') = c_sends (hs_conn s)" "hs_buf s' = Some (buf_write b x)" "hs_same s s'"
    "hs_pieces (c_arrivals (hs_conn s')) y"
proof -
  obtain segs where s: "hs_recv s b = (Io_full, (hs_arrive segs s)\<lparr>hs_buf := Some (buf_write b x)\<rparr>)" "hs_pieces segs y"
    by (rule hs_recv_full [OF assms(5,3,6,4)])
  define s' where "s' = (hs_arrive segs s)\<lparr>hs_buf := Some (buf_write b x), hs_stage := hs_stage s + 1\<rparr>"
  have e: "u\<lparr>hs_stage := hs_stage u + 1\<rparr> = s'" if "u = (hs_arrive segs s)\<lparr>hs_buf := Some (buf_write b x)\<rparr>" for u
    unfolding that s'_def by simp
  show thesis
  proof (rule that [of s'])
    show "hs_stage s' = hs_stage s + 1" "c_wire (hs_conn s') = c_wire (hs_conn s)"
      "c_sends (hs_conn s') = c_sends (hs_conn s)" "hs_buf s' = Some (buf_write b x)" "hs_same s s'"
      "hs_pieces (c_arrivals (hs_conn s')) y"
      using s(2) by (simp_all add: s'_def hs_same_def)
  qed (simp only: ngx_rtmp_handshake_recv.simps if_not_P [OF assms(1)] if_False assms(2) option.case s(1) prod.case io_end.case Let_def e [OF refl] after_recv_def)
qed

lemma hs_recv_wait:
  assumes "\<not> c_destroyed (hs_conn s)" "hs_buf s = Some b" "whole b" "b_last b < 1537"
    and "c_arrivals (hs_conn s) = []" "c_event_ok (hs_conn s)"
  shows "ngx_rtmp_handshake_recv (Suc k) env False s = Ret s"
proof -
  have "(hs_arrive [] s)\<lparr>hs_buf := Some b\<rparr> = s" using assms(2,5) by (cases s; cases "hs_conn s") simp
  then have "hs_recv s b = (Io_again, s)" using hs_recv_none [OF assms(5,3,4)] by simp
  then show ?thesis using assms(1,2,6) by (simp add: ngx_rtmp_handshake_recv.simps)
qed

text \<open>The client has sent its challenge \<open>m\<close> and waits for that of the server.\<close>

definition client_waits :: "bytes \<Rightarrow> ('w, 'p, 'r) hs_session \<Rightarrow> bool" where
  "client_waits m c \<longleftrightarrow> \<not> c_destroyed (hs_conn c) \<and> c_wire (hs_conn c) = m \<and> willing 2000 (c_sends (hs_conn c)) \<and>
     c_event_ok (hs_conn c) \<and> c_arrivals (hs_conn c) = [] \<and> hs_stage c = 7 \<and> \<not> hs_old c \<and>
     (\<exists>b. hs_buf c = Some b \<and> whole b \<and> b_pos b = 0 \<and> b_last b = 0)"

lemma client_starts:
  assumes "hs_env_ok env" "hs_fresh c"
  obtains c1 m where "ngx_rtmp_client_handshake env False c = Ret c1" "client_waits m c1"
    "challenge (he_hmac env) ngx_rtmp_client_partial_key ngx_rtmp_client_version (hs_epoch c) m"
proof -
  have fl: "list_all whole (hs_free c)" using assms(2) by (simp add: hs_fresh_def)
  obtain b cl pool where a: "ngx_rtmp_alloc_handshake_buffer env c = (Some b, c\<lparr>hs_free := cl, hs_conf_pool := pool\<rparr>)"
    "whole b" "b_pos b = 0" "b_last b = 0"
    by (rule alloc_buffer_ok [OF assms(1) fl])
  define c0 where "c0 = c\<lparr>hs_free := cl, hs_conf_pool := pool, hs_buf := Some b, hs_stage := 6\<rparr>"
  have c0: "hs_buf c0 = Some b" "hs_stage c0 = 6" "hs_epoch c0 = hs_epoch c" "hs_conn c0 = hs_conn c" "hs_same c c0"
    by (simp_all add: c0_def hs_same_def)
  obtain m r where m: "ngx_rtmp_handshake_create_challenge env c0 ngx_rtmp_client_version ngx_rtmp_client_partial_key =
      Ret (NGX_OK, c0\<lparr>hs_buf := Some \<lparr>b_mem = m, b_pos = 0, b_last = 1537\<rparr>, hs_random := r\<rparr>)"
    "challenge (he_hmac env) ngx_rtmp_client_partial_key ngx_rtmp_client_version (hs_epoch c0) m"
    by (rule create_challenge_ok [OF assms(1) c0(1) a(2) versions(1)])
  have lm: "length m = 1537" using m(2) by (simp add: challenge_def)
  let ?b = "\<lparr>b_mem = m, b_pos = 0, b_last = 1537\<rparr>"
  define d where "d = c0\<lparr>hs_buf := Some ?b, hs_random := r\<rparr>"
  have d: "\<not> c_destroyed (hs_conn d)" "hs_buf d = Some ?b" "whole ?b" "b_pos ?b \<le> b_last ?b" "b_last ?b \<le> 1537"
    "willing (2000 + (b_last ?b - b_pos ?b)) (c_sends (hs_conn d))"
    using assms(2) by (simp_all add: hs_fresh_def d_def c0 whole_def lm willing_def)
  obtain e where e: "ngx_rtmp_handshake_send (Suc 4) env False d = after_send 4 env e"
    "hs_stage e = hs_stage d + 1" "c_wire (hs_conn e) = c_wire (hs_conn d) @ buf_content ?b"
    "willing 2000 (c_sends (hs_conn e))" "hs_buf e = Some (?b\<lparr>b_pos := b_last ?b\<rparr>)" "hs_same d e"
    "c_arrivals (hs_conn e) = c_arrivals (hs_conn d)"
    by (rule hs_send_step [OF d])
  have st: "hs_stage e = 7" using e(2) by (simp add: d_def c0)
  let ?e = "set_window 0 0 e"
  have w: "client_waits m ?e"
    using e(3-7) st assms(2) lm
    by (simp add: client_waits_def set_window_def hs_same_def hs_fresh_def d_def c0 c0_def buf_content_def whole_def)
  then obtain b' where b': "hs_buf ?e = Some b'" "whole b'" "b_last b' < 1537" by (auto simp: client_waits_def)
  have "ngx_rtmp_handshake_recv (Suc 3) env False ?e = Ret ?e"
    by (rule hs_recv_wait [OF _ b']) (use w in \<open>simp_all add: client_waits_def\<close>)
  then have "after_send 4 env e = Ret ?e" using st by (simp add: after_send_def)
  then have "ngx_rtmp_client_handshake env False c = Ret ?e"
    using e(1) a(1) m(1) by (simp add: ngx_rtmp_client_handshake_def c0_def [symmetric] d_def [symmetric])
  then show thesis using that w m(2) c0(3) by simp
qed

text \<open>The server has answered with the challenge \<open>m\<close> and the response \<open>r\<close>, and waits for the client's response.\<close>

definition server_waits :: "bytes \<Rightarrow> ('w, 'p, 'r) hs_session \<Rightarrow> bool" where
  "server_waits w s \<longleftrightarrow> \<not> c_destroyed (hs_conn s) \<and> c_wire (hs_conn s) = w \<and> hs_stage s = 4 \<and>
     (\<exists>b. hs_buf s = Some b \<and> whole b \<and> b_pos b = 1 \<and> b_last b = 1)"

lemma server_answers:
  assumes "hs_env_ok env" "hs_fresh s" "hs_pieces segs m" "challenge (he_hmac env) ngx_rtmp_client_partial_key ngx_rtmp_client_version ep m"
  obtains s1 i k m2 r where "ngx_rtmp_handshake env (hs_arrive segs s) = Ret s1" "server_waits (m2 @ r) s1"
    "challenge (he_hmac env) ngx_rtmp_server_partial_key ngx_rtmp_server_version (hs_epoch s) m2"
    "response (he_hmac env) k r" "digest_at (he_hmac env) ngx_rtmp_client_partial_key (tl m) i"
    "he_hmac env ngx_rtmp_server_key (take 32 (drop i (tl m))) = Some k" "hs_digest s1 = Some k"
    "hs_peer_epoch s1 = word_of_nat (be_nat (enc_nat 4 (unat ep)))"
proof -
  have fl: "list_all whole (hs_free (hs_arrive segs s))" using assms(2) by (simp add: hs_fresh_def)
  have lm: "length m = 1537" using assms(4) by (simp add: challenge_def)
  obtain b cl pool where a: "ngx_rtmp_alloc_handshake_buffer env (hs_arrive segs s) =
      (Some b, (hs_arrive segs s)\<lparr>hs_free := cl, hs_conf_pool := pool\<rparr>)"
    "whole b" "b_pos b = 0" "b_last b = 0"
    by (rule alloc_buffer_ok [OF assms(1) fl])
  define s0 where "s0 = (hs_arrive segs s)\<lparr>hs_free := cl, hs_conf_pool := pool, hs_buf := Some b, hs_stage := 1\<rparr>"
  have s0: "\<not> c_destroyed (hs_conn s0)" "hs_buf s0 = Some b" "whole b" "b_last b \<le> 1537"
    "hs_pieces (c_arrivals (hs_conn s0)) (m @ [])" "length m = 1537 - b_last b"
    using assms(2,3) a lm by (simp_all add: s0_def hs_fresh_def)
  obtain t where t: "ngx_rtmp_handshake_recv (Suc 4) env False s0 = after_recv 4 env t" "hs_stage t = hs_stage s0 + 1"
    "c_wire (hs_conn t) = c_wire (hs_conn s0)" "c_sends (hs_conn t) = c_sends (hs_conn s0)"
    "hs_buf t = Some (buf_write b m)" "hs_same s0 t" "hs_pieces (c_arrivals (hs_conn t)) []"
    by (rule hs_recv_step [OF s0])
  have bw: "buf_write b m = \<lparr>b_mem = m, b_pos = 0, b_last = 1537\<rparr>"
    using a(2-4) lm by (simp add: buf_write_def put_at_def whole_def)
  obtain b1 i pool1 k where p: "ngx_rtmp_handshake_parse_challenge env t ngx_rtmp_client_partial_key ngx_rtmp_server_key = Ret (NGX_OK,
      t\<lparr>hs_buf := Some b1, hs_peer_epoch := word_of_nat (be_nat (enc_nat 4 (unat ep))), hs_pool := pool1, hs_digest := Some k\<rparr>)"
    "whole b1" "digest_at (he_hmac env) ngx_rtmp_client_partial_key (tl m) i"
    "he_hmac env ngx_rtmp_server_key (take 32 (drop i (tl m))) = Some k" "length k = 32"
    by (rule parse_challenge_ok [OF assms(1) t(5) [unfolded bw] assms(4) versions(3,1)])
  define u where "u = t\<lparr>hs_buf := Some b1, hs_peer_epoch := word_of_nat (be_nat (enc_nat 4 (unat ep))), hs_pool := pool1, hs_digest := Some k\<rparr>"
  have ub: "hs_buf u = Some b1" by (simp add: u_def)
  obtain m2 r2 where c: "ngx_rtmp_handshake_create_challenge env u ngx_rtmp_server_version ngx_rtmp_server_partial_key =
      Ret (NGX_OK, u\<lparr>hs_buf := Some \<lparr>b_mem = m2, b_pos = 0, b_last = 1537\<rparr>, hs_random := r2\<rparr>)"
    "challenge (he_hmac env) ngx_rtmp_server_partial_key ngx_rtmp_server_version (hs_epoch u) m2"
    by (rule create_challenge_ok [OF assms(1) ub p(2) versions(2)])
  define v where "v = u\<lparr>hs_buf := Some \<lparr>b_mem = m2, b_pos = 0, b_last = 1537\<rparr>, hs_random := r2\<rparr>"
  let ?b2 = "\<lparr>b_mem = m2, b_pos = 0, b_last = 1537\<rparr>"
  have l2: "length m2 = 1537" using c(2) by (simp add: challenge_def)
  have v0: "hs_stage v = 2" "hs_digest v = Some k" "hs_peer_epoch v = word_of_nat (be_nat (enc_nat 4 (unat ep)))" "\<not> hs_old v"
    "c_wire (hs_conn v) = []" "c_event_ok (hs_conn v)" "c_arrivals (hs_conn v) = []" "hs_epoch u = hs_epoch s" "\<not> hs_old u"
    using t assms(2) by (simp_all add: v_def u_def s0_def hs_same_def hs_fresh_def)
  have v: "\<not> c_destroyed (hs_conn v)" "hs_buf v = Some ?b2" "whole ?b2" "b_pos ?b2 \<le> b_last ?b2" "b_last ?b2 \<le> 1537"
    "willing (2000 + (b_last ?b2 - b_pos ?b2)) (c_sends (hs_conn v))"
    using t assms(2) l2 by (simp_all add: v_def u_def s0_def hs_same_def hs_fresh_def whole_def willing_def)
  have ar: "after_recv 4 env t = ngx_rtmp_handshake_send (Suc 3) env False v"
  proof -
    have "ngx_rtmp_handshake_parse_challenge env t ngx_rtmp_client_partial_key ngx_rtmp_server_key = Ret (NGX_OK, u)"
      using p(1) by (simp only: u_def)
    moreover have "ngx_rtmp_handshake_create_challenge env u ngx_rtmp_server_version ngx_rtmp_server_partial_key = Ret (NGX_OK, v)"
      using c(1) by (simp only: v_def)
    moreover have "hs_stage t = 2" using t(2) by (simp add: s0_def)
    ultimately show ?thesis using v0(9) by (simp add: after_recv_def)
  qed
  obtain x where x: "ngx_rtmp_handshake_send (Suc 3) env False v = after_send 3 env x" "hs_stage x = hs_stage v + 1"
    "c_wire (hs_conn x) = c_wire (hs_conn v) @ buf_content ?b2" "willing 2000 (c_sends (hs_conn x))"
    "hs_buf x = Some (?b2\<lparr>b_pos := b_last ?b2\<rparr>)" "hs_same v x" "c_arrivals (hs_conn x) = c_arrivals (hs_conn v)"
    by (rule hs_send_step [OF v])
  have xw: "whole (?b2\<lparr>b_pos := b_last ?b2\<rparr>)" "hs_digest x = Some k" using l2 x(6) v0 by (simp_all add: whole_def hs_same_def)
  obtain m3 r3 where y: "ngx_rtmp_handshake_create_response env x =
      Ret (NGX_OK, x\<lparr>hs_buf := Some \<lparr>b_mem = m3, b_pos = 1, b_last = 1537\<rparr>, hs_random := r3\<rparr>)"
    "length m3 = 1537" "response (he_hmac env) k (tl m3)"
    by (rule create_response_ok [OF assms(1) x(5) xw])
  define z where "z = x\<lparr>hs_buf := Some \<lparr>b_mem = m3, b_pos = 1, b_last = 1537\<rparr>, hs_random := r3\<rparr>"
  have yz: "ngx_rtmp_handshake_create_response env x = Ret (NGX_OK, z)" using y(1) by (simp only: z_def)
  let ?b3 = "\<lparr>b_mem = m3, b_pos = 1, b_last = 1537\<rparr>"
  have z: "\<not> c_destroyed (hs_conn z)" "hs_buf z = Some ?b3" "whole ?b3" "b_pos ?b3 \<le> b_last ?b3" "b_last ?b3 \<le> 1537"
    "willing (100 + (b_last ?b3 - b_pos ?b3)) (c_sends (hs_conn z))"
    using x y(2) v(1) by (simp_all add: z_def hs_same_def whole_def willing_def)
  have as: "after_send 3 env x = ngx_rtmp_handshake_send (Suc 2) env False z"
    using x(2,6) v0 yz by (simp add: after_send_def hs_same_def)
  obtain q where q: "ngx_rtmp_handshake_send (Suc 2) env False z = after_send 2 env q" "hs_stage q = hs_stage z + 1"
    "c_wire (hs_conn q) = c_wire (hs_conn z) @ buf_content ?b3" "willing 100 (c_sends (hs_conn q))"
    "hs_buf q = Some (?b3\<lparr>b_pos := b_last ?b3\<rparr>)" "hs_same z q" "c_arrivals (hs_conn q) = c_arrivals (hs_conn z)"
    by (rule hs_send_step [OF z])
  let ?q = "set_window 1 1 q"
  have bc: "buf_content ?b3 = tl m3" "buf_content ?b2 = m2" using y(2) l2 by (simp_all add: buf_content_def drop_Suc)
  have w: "server_waits (m2 @ tl m3) ?q"
    using q x(2,3) v0 y(2) z(1) bc
    by (simp add: server_waits_def set_window_def hs_same_def z_def whole_def)
  have f: "hs_digest ?q = Some k" "hs_peer_epoch ?q = word_of_nat (be_nat (enc_nat 4 (unat ep)))" "c_event_ok (hs_conn ?q)"
    "c_arrivals (hs_conn ?q) = []" "hs_stage q = 4"
    using q x v0 by (simp_all add: set_window_def hs_same_def z_def)
  obtain b' where b': "hs_buf ?q = Some b'" "whole b'" "b_last b' < 1537" using w by (auto simp: server_waits_def)
  have "ngx_rtmp_handshake_recv (Suc 1) env False ?q = Ret ?q"
    by (rule hs_recv_wait [OF _ b' f(4,3)]) (use w in \<open>simp add: server_waits_def\<close>)
  then have "after_send 2 env q = Ret ?q" using f(5) by (simp add: after_send_def numeral_2_eq_2)
  then have "ngx_rtmp_handshake_recv 5 env False s0 = Ret ?q" using t(1) ar x(1) as q(1) by simp
  then have "ngx_rtmp_handshake env (hs_arrive segs s) = Ret ?q"
    using a(1) by (simp only: ngx_rtmp_handshake_def prod.case s0_def)
  then show thesis using that w c(2) y(3) p(3,4) f v0(8) by simp
qed

lemma done_ok:
  assumes "hs_env_ok env" "\<not> c_destroyed (hs_conn s)"
  shows "hs_cycles (ngx_rtmp_handshake_done env s)" "\<not> c_destroyed (hs_conn (ngx_rtmp_handshake_done env s))"
    "c_wire (hs_conn (ngx_rtmp_handshake_done env s)) = c_wire (hs_conn s)" "hs_digest (ngx_rtmp_handshake_done env s) = hs_digest s"
    "hs_peer_epoch (ngx_rtmp_handshake_done env s) = hs_peer_epoch s"
proof -
  have "fst (he_done env w) = NGX_OK" for w using assms(1) by (simp add: hs_env_ok_def)
  then show "hs_cycles (ngx_rtmp_handshake_done env s)" "\<not> c_destroyed (hs_conn (ngx_rtmp_handshake_done env s))"
    "c_wire (hs_conn (ngx_rtmp_handshake_done env s)) = c_wire (hs_conn s)" "hs_digest (ngx_rtmp_handshake_done env s) = hs_digest s"
    "hs_peer_epoch (ngx_rtmp_handshake_done env s) = hs_peer_epoch s"
    using assms(2) by (simp_all add: ngx_rtmp_handshake_done_def ngx_rtmp_free_handshake_buffers_def Let_def case_prod_beta split: option.split)
qed

lemma client_finishes:
  assumes "hs_env_ok env" "client_waits m1 c" "hs_pieces segs (m @ r)"
    "challenge (he_hmac env) ngx_rtmp_server_partial_key ngx_rtmp_server_version ep m" "length r = 1536"
  obtains c2 i k r2 where "ngx_rtmp_handshake_recv 5 env False (hs_arrive segs c) = Ret c2" "hs_cycles c2" "\<not> c_destroyed (hs_conn c2)"
    "c_wire (hs_conn c2) = m1 @ r2" "response (he_hmac env) k r2" "digest_at (he_hmac env) ngx_rtmp_server_partial_key (tl m) i"
    "he_hmac env ngx_rtmp_client_key (take 32 (drop i (tl m))) = Some k"
    "hs_peer_epoch c2 = word_of_nat (be_nat (enc_nat 4 (unat ep)))"
proof -
  have lm: "length m = 1537" using assms(4) by (simp add: challenge_def)
  define s0 where "s0 = hs_arrive segs c"
  obtain b where b: "hs_buf c = Some b" "whole b" "b_pos b = 0" "b_last b = 0" using assms(2) by (auto simp: client_waits_def)
  have s0: "\<not> c_destroyed (hs_conn s0)" "hs_buf s0 = Some b" "whole b" "b_last b \<le> 1537"
    "hs_pieces (c_arrivals (hs_conn s0)) (m @ r)" "length m = 1537 - b_last b"
    using assms(2,3) b lm by (simp_all add: s0_def client_waits_def)
  obtain t where t: "ngx_rtmp_handshake_recv (Suc 4) env False s0 = after_recv 4 env t" "hs_stage t = hs_stage s0 + 1"
    "c_wire (hs_conn t) = c_wire (hs_conn s0)" "c_sends (hs_conn t) = c_sends (hs_conn s0)"
    "hs_buf t = Some (buf_write b m)" "hs_same s0 t" "hs_pieces (c_arrivals (hs_conn t)) r"
    by (rule hs_recv_step [OF s0])
  have bw: "buf_write b m = \<lparr>b_mem = m, b_pos = 0, b_last = 1537\<rparr>"
    using b lm by (simp add: buf_write_def put_at_def whole_def)
  obtain b1 i pool1 k where p: "ngx_rtmp_handshake_parse_challenge env t ngx_rtmp_server_partial_key ngx_rtmp_client_key = Ret (NGX_OK,
      t\<lparr>hs_buf := Some b1, hs_peer_epoch := word_of_nat (be_nat (enc_nat 4 (unat ep))), hs_pool := pool1, hs_digest := Some k\<rparr>)"
    "whole b1" "digest_at (he_hmac env) ngx_rtmp_server_partial_key (tl m) i"
    "he_hmac env ngx_rtmp_client_key (take 32 (drop i (tl m))) = Some k" "length k = 32"
    by (rule parse_challenge_ok [OF assms(1) t(5) [unfolded bw] assms(4) versions(4,2)])
  define u where "u = t\<lparr>hs_buf := Some b1, hs_peer_epoch := word_of_nat (be_nat (enc_nat 4 (unat ep))), hs_pool := pool1, hs_digest := Some k\<rparr>"
  define v where "v = set_window 1 1 u"
  have pu: "ngx_rtmp_handshake_parse_challenge env t ngx_rtmp_server_partial_key ngx_rtmp_client_key = Ret (NGX_OK, u)"
    using p(1) by (simp only: u_def)
  have "hs_stage t = 8" using t(2) assms(2) by (simp add: s0_def client_waits_def)
  then have ar: "after_recv 4 env t = ngx_rtmp_handshake_recv (Suc 3) env False v"
    using pu by (simp add: after_recv_def v_def)
  let ?bv = "b1\<lparr>b_pos := 1, b_last := 1\<rparr>"
  have v: "\<not> c_destroyed (hs_conn v)" "hs_buf v = Some ?bv" "whole ?bv" "b_last ?bv \<le> 1537"
    "hs_pieces (c_arrivals (hs_conn v)) (r @ [])" "length r = 1537 - b_last ?bv"
    using t p(2) assms(2,5) by (simp_all add: v_def u_def s0_def set_window_def hs_same_def client_waits_def whole_def)
  have v0: "hs_stage v = 8" "hs_digest v = Some k" "c_wire (hs_conn v) = m1" "willing 2000 (c_sends (hs_conn v))"
    "hs_peer_epoch v = word_of_nat (be_nat (enc_nat 4 (unat ep)))"
    using t assms(2) by (simp_all add: v_def u_def s0_def set_window_def client_waits_def)
  obtain x where x: "ngx_rtmp_handshake_recv (Suc 3) env False v = after_recv 3 env x" "hs_stage x = hs_stage v + 1"
    "c_wire (hs_conn x) = c_wire (hs_conn v)" "c_sends (hs_conn x) = c_sends (hs_conn v)"
    "hs_buf x = Some (buf_write ?bv r)" "hs_same v x" "hs_pieces (c_arrivals (hs_conn x)) []"
    by (rule hs_recv_step [OF v])
  have xw: "whole (buf_write ?bv r)" "hs_digest x = Some k"
    using p(2) assms(5) v0(2) x(6) by (simp_all add: whole_def buf_write_def put_at_def hs_same_def)
  obtain m3 r3 where y: "ngx_rtmp_handshake_create_response env x =
      Ret (NGX_OK, x\<lparr>hs_buf := Some \<lparr>b_mem = m3, b_pos = 1, b_last = 1537\<rparr>, hs_random := r3\<rparr>)"
    "length m3 = 1537" "response (he_hmac env) k (tl m3)"
    by (rule create_response_ok [OF assms(1) x(5) xw])
  define z where "z = x\<lparr>hs_buf := Some \<lparr>b_mem = m3, b_pos = 1, b_last = 1537\<rparr>, hs_random := r3\<rparr>"
  have yz: "ngx_rtmp_handshake_create_response env x = Ret (NGX_OK, z)" using y(1) by (simp only: z_def)
  let ?b3 = "\<lparr>b_mem = m3, b_pos = 1, b_last = 1537\<rparr>"
  have z: "\<not> c_destroyed (hs_conn z)" "hs_buf z = Some ?b3" "whole ?b3" "b_pos ?b3 \<le> b_last ?b3" "b_last ?b3 \<le> 1537"
    "willing (100 + (b_last ?b3 - b_pos ?b3)) (c_sends (hs_conn z))"
    using x y(2) v(1) v0(4) by (simp_all add: z_def hs_same_def whole_def willing_def)
  have as: "after_recv 3 env x = ngx_rtmp_handshake_send (Suc 2) env False z"
    using x(2) v0(1) yz by (simp add: after_recv_def)
  obtain q where q: "ngx_rtmp_handshake_send (Suc 2) env False z = after_send 2 env q" "hs_stage q = hs_stage z + 1"
    "c_wire (hs_conn q) = c_wire (hs_conn z) @ buf_content ?b3" "willing 100 (c_sends (hs_conn q))"
    "hs_buf q = Some (?b3\<lparr>b_pos := b_last ?b3\<rparr>)" "hs_same z q" "c_arrivals (hs_conn q) = c_arrivals (hs_conn z)"
    by (rule hs_send_step [OF z])
  have bc: "buf_content ?b3 = tl m3" using y(2) by (simp add: buf_content_def drop_Suc)
  have qq: "hs_stage q = 10" "\<not> c_destroyed (hs_conn q)" "c_wire (hs_conn q) = m1 @ tl m3"
    "hs_peer_epoch q = word_of_nat (be_nat (enc_nat 4 (unat ep)))"
    using q(2,3,6) bc x(2,3,6) v0 z(1) by (simp_all add: z_def hs_same_def)
  have "after_send 2 env q = Ret (ngx_rtmp_handshake_done env q)" using qq(1) by (simp add: after_send_def)
  then have "ngx_rtmp_handshake_recv 5 env False s0 = Ret (ngx_rtmp_handshake_done env q)"
    using t(1) ar x(1) as q(1) by simp
  then show thesis
    using that [unfolded s0_def [symmetric]] done_ok [OF assms(1) qq(2)] qq(3,4) y(3) p(3,4) by simp
qed

lemma server_finishes:
  assumes "hs_env_ok env" "server_waits w s" "hs_pieces segs r" "length r = 1536"
  obtains s2 where "ngx_rtmp_handshake_recv 5 env False (hs_arrive segs s) = Ret s2" "hs_cycles s2" "\<not> c_destroyed (hs_conn s2)"
proof -
  define s0 where "s0 = hs_arrive segs s"
  obtain b where b: "hs_buf s = Some b" "whole b" "b_pos b = 1" "b_last b = 1" using assms(2) by (auto simp: server_waits_def)
  have s0: "\<not> c_destroyed (hs_conn s0)" "hs_buf s0 = Some b" "whole b" "b_last b \<le> 1537"
    "hs_pieces (c_arrivals (hs_conn s0)) (r @ [])" "length r = 1537 - b_last b"
    using assms(2-4) b by (simp_all add: s0_def server_waits_def)
  obtain t where t: "ngx_rtmp_handshake_recv (Suc 4) env False s0 = after_recv 4 env t" "hs_stage t = hs_stage s0 + 1"
    "c_wire (hs_conn t) = c_wire (hs_conn s0)" "c_sends (hs_conn t) = c_sends (hs_conn s0)"
    "hs_buf t = Some (buf_write b r)" "hs_same s0 t" "hs_pieces (c_arrivals (hs_conn t)) []"
    by (rule hs_recv_step [OF s0])
  have tt: "hs_stage t = 5" "\<not> c_destroyed (hs_conn t)"
    using t(2,6) s0(1) assms(2) by (simp_all add: s0_def server_waits_def hs_same_def)
  then have "ngx_rtmp_handshake_recv 5 env False s0 = Ret (ngx_rtmp_handshake_done env t)"
    using t(1) by (simp add: after_recv_def)
  then show thesis using that done_ok [OF assms(1) tt(2)] by (simp add: s0_def)
qed

section \<open>Properties\<close>

text \<open>
  C5: between a client and a server that start on fresh connections, the handshake comes to its end on both sides,
  however what is sent is cut into pieces; each side finds the digest of the other's challenge, and its response
  carries the digest keyed by it; the server knows the client's epoch.
\<close>

theorem handshake_completes:
  assumes "hs_env_ok cenv" "hs_env_ok senv" "he_hmac cenv = h" "he_hmac senv = h" "hs_fresh c" "hs_fresh s"
  shows "\<exists>c1. ngx_rtmp_client_handshake cenv False c = Ret c1 \<and>
    (\<forall>segs. hs_pieces segs (c_wire (hs_conn c1)) \<longrightarrow>
      (\<exists>s1 i k m r. ngx_rtmp_handshake senv (hs_arrive segs s) = Ret s1 \<and> c_wire (hs_conn s1) = m @ r \<and>
        digest_at h ngx_rtmp_client_partial_key (tl (c_wire (hs_conn c1))) i \<and>
        h ngx_rtmp_server_key (take 32 (drop i (tl (c_wire (hs_conn c1))))) = Some k \<and> response h k r \<and>
        hs_peer_epoch s1 = word_of_nat (unat (hs_epoch c) mod 2 ^ 32) \<and>
        (\<forall>segs. hs_pieces segs (m @ r) \<longrightarrow>
          (\<exists>c2 i k r'. ngx_rtmp_handshake_recv 5 cenv False (hs_arrive segs c1) = Ret c2 \<and> hs_cycles c2 \<and>
            \<not> c_destroyed (hs_conn c2) \<and> c_wire (hs_conn c2) = c_wire (hs_conn c1) @ r' \<and>
            digest_at h ngx_rtmp_server_partial_key (tl m) i \<and>
            h ngx_rtmp_client_key (take 32 (drop i (tl m))) = Some k \<and> response h k r' \<and>
            (\<forall>segs. hs_pieces segs r' \<longrightarrow>
              (\<exists>s2. ngx_rtmp_handshake_recv 5 senv False (hs_arrive segs s1) = Ret s2 \<and> hs_cycles s2 \<and>
                \<not> c_destroyed (hs_conn s2)))))))"
proof -
  obtain c1 m1 where 1: "ngx_rtmp_client_handshake cenv False c = Ret c1" "client_waits m1 c1"
    "challenge (he_hmac cenv) ngx_rtmp_client_partial_key ngx_rtmp_client_version (hs_epoch c) m1"
    by (rule client_starts [OF assms(1,5)])
  have w: "c_wire (hs_conn c1) = m1" using 1(2) by (simp add: client_waits_def)
  have rl: "length r = 1536" if "response h k r" for k r using that by (simp add: response_def)
  have "\<exists>s1 i k m r. ngx_rtmp_handshake senv (hs_arrive segs s) = Ret s1 \<and> c_wire (hs_conn s1) = m @ r \<and>
        digest_at h ngx_rtmp_client_partial_key (tl m1) i \<and>
        h ngx_rtmp_server_key (take 32 (drop i (tl m1))) = Some k \<and> response h k r \<and>
        hs_peer_epoch s1 = word_of_nat (unat (hs_epoch c) mod 2 ^ 32) \<and>
        (\<forall>segs. hs_pieces segs (m @ r) \<longrightarrow>
          (\<exists>c2 i k r'. ngx_rtmp_handshake_recv 5 cenv False (hs_arrive segs c1) = Ret c2 \<and> hs_cycles c2 \<and>
            \<not> c_destroyed (hs_conn c2) \<and> c_wire (hs_conn c2) = m1 @ r' \<and>
            digest_at h ngx_rtmp_server_partial_key (tl m) i \<and>
            h ngx_rtmp_client_key (take 32 (drop i (tl m))) = Some k \<and> response h k r' \<and>
            (\<forall>segs. hs_pieces segs r' \<longrightarrow>
              (\<exists>s2. ngx_rtmp_handshake_recv 5 senv False (hs_arrive segs s1) = Ret s2 \<and> hs_cycles s2 \<and>
                \<not> c_destroyed (hs_conn s2)))))" if p: "hs_pieces segs m1" for segs
  proof -
    obtain s1 i k m r where 2: "ngx_rtmp_handshake senv (hs_arrive segs s) = Ret s1" "server_waits (m @ r) s1"
      "challenge h ngx_rtmp_server_partial_key ngx_rtmp_server_version (hs_epoch s) m" "response h k r"
      "digest_at h ngx_rtmp_client_partial_key (tl m1) i" "h ngx_rtmp_server_key (take 32 (drop i (tl m1))) = Some k"
      "hs_digest s1 = Some k" "hs_peer_epoch s1 = word_of_nat (be_nat (enc_nat 4 (unat (hs_epoch c))))"
      by (rule server_answers [OF assms(2,6) p 1(3) [unfolded assms(3), folded assms(4)], unfolded assms(4)])
    have ch: "challenge (he_hmac cenv) ngx_rtmp_server_partial_key ngx_rtmp_server_version (hs_epoch s) m"
      using 2(3) assms(3) by simp
    have c: "\<exists>c2 i k r'. ngx_rtmp_handshake_recv 5 cenv False (hs_arrive segs c1) = Ret c2 \<and> hs_cycles c2 \<and>
            \<not> c_destroyed (hs_conn c2) \<and> c_wire (hs_conn c2) = m1 @ r' \<and>
            digest_at h ngx_rtmp_server_partial_key (tl m) i \<and>
            h ngx_rtmp_client_key (take 32 (drop i (tl m))) = Some k \<and> response h k r' \<and>
            (\<forall>segs. hs_pieces segs r' \<longrightarrow>
              (\<exists>s2. ngx_rtmp_handshake_recv 5 senv False (hs_arrive segs s1) = Ret s2 \<and> hs_cycles s2 \<and>
                \<not> c_destroyed (hs_conn s2)))" if q: "hs_pieces segs (m @ r)" for segs
    proof -
      obtain c2 i k r' where 3: "ngx_rtmp_handshake_recv 5 cenv False (hs_arrive segs c1) = Ret c2" "hs_cycles c2"
        "\<not> c_destroyed (hs_conn c2)" "c_wire (hs_conn c2) = m1 @ r'" "response h k r'"
        "digest_at h ngx_rtmp_server_partial_key (tl m) i" "h ngx_rtmp_client_key (take 32 (drop i (tl m))) = Some k"
        by (rule client_finishes [OF assms(1) 1(2) q ch rl [OF 2(4)], unfolded assms(3)])
      have "\<exists>s2. ngx_rtmp_handshake_recv 5 senv False (hs_arrive segs s1) = Ret s2 \<and> hs_cycles s2 \<and>
                \<not> c_destroyed (hs_conn s2)" if "hs_pieces segs r'" for segs
        by (rule server_finishes [OF assms(2) 2(2) that rl [OF 3(5)]]) blast
      with 3 show ?thesis by blast
    qed
    have e: "hs_peer_epoch s1 = word_of_nat (unat (hs_epoch c) mod 2 ^ 32)" using 2(8) by simp
    have sw: "c_wire (hs_conn s1) = m @ r" using 2(2) by (simp add: server_waits_def)
    show ?thesis
      by (intro exI conjI) (rule 2(1), rule sw, rule 2(5), rule 2(6), rule 2(4), rule e, use c in blast)
  qed
  then show ?thesis using 1(1) unfolding w [symmetric] by blast
qed

text \<open>A digest that is always zero, and zeros for random bytes.\<close>

definition zero_hs_env :: "(unit, unit, unit) hs_env" where
  "zero_hs_env = \<lparr>he_hmac = (\<lambda>k x. Some (replicate 32 0)), he_rand = (\<lambda>r. (0, r)), he_done = (\<lambda>w. (NGX_OK, w)), he_pool = unit_pool\<rparr>"

definition zero_hs_session :: "(unit, unit, unit) hs_session" where
  "zero_hs_session = \<lparr>hs_conn = \<lparr>c_destroyed = False, c_timedout = False, c_arrivals = [], c_wire = [],
       c_sends = replicate 4000 (Sent 700), c_write_active = False, c_write_timer = False, c_event_ok = True\<rparr>,
     hs_buf = None, hs_digest = None, hs_old = False, hs_stage = 0, hs_epoch = 5, hs_peer_epoch = 0, hs_free = [],
     hs_conf_pool = (), hs_pool = (), hs_random = (), hs_cycles = False, hs_world = ()\<rparr>"

theorem handshake_completes_witness:
  "\<exists>c1 s1 c2 s2 r. ngx_rtmp_client_handshake zero_hs_env False zero_hs_session = Ret c1 \<and>
    ngx_rtmp_handshake zero_hs_env (hs_arrive (map (\<lambda>x. [x]) (c_wire (hs_conn c1))) zero_hs_session) = Ret s1 \<and>
    ngx_rtmp_handshake_recv 5 zero_hs_env False (hs_arrive (map (\<lambda>x. [x]) (c_wire (hs_conn s1))) c1) = Ret c2 \<and>
    c_wire (hs_conn c2) = c_wire (hs_conn c1) @ r \<and> hs_cycles c2 \<and>
    ngx_rtmp_handshake_recv 5 zero_hs_env False (hs_arrive (map (\<lambda>x. [x]) r) s1) = Ret s2 \<and> hs_cycles s2"
proof -
  have e: "hs_env_ok zero_hs_env" by (simp add: hs_env_ok_def zero_hs_env_def)
  have f: "hs_fresh zero_hs_session" by (simp add: hs_fresh_def zero_hs_session_def willing_def)
  have p: "hs_pieces (map (\<lambda>x. [x]) xs) xs" for xs by (auto simp: hs_pieces_def)
  let ?h = "he_hmac zero_hs_env"
  obtain c1 where 1: "ngx_rtmp_client_handshake zero_hs_env False zero_hs_session = Ret c1"
    and r1: "\<forall>segs. hs_pieces segs (c_wire (hs_conn c1)) \<longrightarrow>
      (\<exists>s1 i k m r. ngx_rtmp_handshake zero_hs_env (hs_arrive segs zero_hs_session) = Ret s1 \<and> c_wire (hs_conn s1) = m @ r \<and>
        digest_at ?h ngx_rtmp_client_partial_key (tl (c_wire (hs_conn c1))) i \<and>
        ?h ngx_rtmp_server_key (take 32 (drop i (tl (c_wire (hs_conn c1))))) = Some k \<and> response ?h k r \<and>
        hs_peer_epoch s1 = word_of_nat (unat (hs_epoch zero_hs_session) mod 2 ^ 32) \<and>
        (\<forall>segs. hs_pieces segs (m @ r) \<longrightarrow>
          (\<exists>c2 i k r'. ngx_rtmp_handshake_recv 5 zero_hs_env False (hs_arrive segs c1) = Ret c2 \<and> hs_cycles c2 \<and>
            \<not> c_destroyed (hs_conn c2) \<and> c_wire (hs_conn c2) = c_wire (hs_conn c1) @ r' \<and>
            digest_at ?h ngx_rtmp_server_partial_key (tl m) i \<and>
            ?h ngx_rtmp_client_key (take 32 (drop i (tl m))) = Some k \<and> response ?h k r' \<and>
            (\<forall>segs. hs_pieces segs r' \<longrightarrow>
              (\<exists>s2. ngx_rtmp_handshake_recv 5 zero_hs_env False (hs_arrive segs s1) = Ret s2 \<and> hs_cycles s2 \<and>
                \<not> c_destroyed (hs_conn s2))))))"
    using handshake_completes [OF e e refl refl f f] by (elim exE conjE) (rule that)
  obtain s1 m r where 2: "ngx_rtmp_handshake zero_hs_env (hs_arrive (map (\<lambda>x. [x]) (c_wire (hs_conn c1))) zero_hs_session) = Ret s1"
    "c_wire (hs_conn s1) = m @ r" and r2: "(\<forall>segs. hs_pieces segs (m @ r) \<longrightarrow>
          (\<exists>c2 i k r'. ngx_rtmp_handshake_recv 5 zero_hs_env False (hs_arrive segs c1) = Ret c2 \<and> hs_cycles c2 \<and>
            \<not> c_destroyed (hs_conn c2) \<and> c_wire (hs_conn c2) = c_wire (hs_conn c1) @ r' \<and>
            digest_at ?h ngx_rtmp_server_partial_key (tl m) i \<and>
            ?h ngx_rtmp_client_key (take 32 (drop i (tl m))) = Some k \<and> response ?h k r' \<and>
            (\<forall>segs. hs_pieces segs r' \<longrightarrow>
              (\<exists>s2. ngx_rtmp_handshake_recv 5 zero_hs_env False (hs_arrive segs s1) = Ret s2 \<and> hs_cycles s2 \<and>
                \<not> c_destroyed (hs_conn s2)))))"
    using r1 [rule_format, OF p] by (elim exE conjE) (rule that)
  obtain c2 r' where 3: "ngx_rtmp_handshake_recv 5 zero_hs_env False (hs_arrive (map (\<lambda>x. [x]) (m @ r)) c1) = Ret c2"
    "hs_cycles c2" "c_wire (hs_conn c2) = c_wire (hs_conn c1) @ r'" and r3: "(\<forall>segs. hs_pieces segs r' \<longrightarrow>
              (\<exists>s2. ngx_rtmp_handshake_recv 5 zero_hs_env False (hs_arrive segs s1) = Ret s2 \<and> hs_cycles s2 \<and>
                \<not> c_destroyed (hs_conn s2)))"
    using r2 [rule_format, OF p] by (elim exE conjE) (rule that)
  obtain s2 where 4: "ngx_rtmp_handshake_recv 5 zero_hs_env False (hs_arrive (map (\<lambda>x. [x]) r') s1) = Ret s2" "hs_cycles s2"
    using r3 [rule_format, OF p] by (elim exE conjE) (rule that)
  show ?thesis
    by (rule exI [of _ c1], rule exI [of _ s1], rule exI [of _ c2], rule exI [of _ s2], rule exI [of _ r'])
       (intro conjI, rule 1, rule 2(1), unfold 2(2), rule 3(1), rule 3(3), rule 3(2), rule 4(1), rule 4(2))
qed

end
