(* ===== verification/Rtmp_Mpegts.thy ===== *)
theory Rtmp_Mpegts
  imports Ts_Roundtrip
begin

text \<open>
  The TS muxer of the RTMP HLS module (hls/ngx\_rtmp\_mpegts.c): frames are cut into packets and written to a
  file, encrypted with AES in CBC mode if the file has a key.  The system calls on the file and the two
  functions of OpenSSL are parameters; a file descriptor is whatever they say it is.
\<close>

section \<open>Files\<close>

text \<open>
  \<open>ngx_open_file\<close> (\<open>None\<close> is \<open>NGX_INVALID_FILE\<close>), \<open>ngx_write_fd\<close> with its result, \<open>ngx_close_file\<close>,
  \<open>AES_set_encrypt_key\<close> (\<open>None\<close> is an error) and \<open>AES_cbc_encrypt\<close>, which returns the new
  initialisation vector and the encrypted bytes.
\<close>

record ('k, 'w) mpegts_env =
  me_open :: "bytes \<Rightarrow> 'w option"
  me_write :: "bytes \<Rightarrow> 'w \<Rightarrow> int \<times> 'w"
  me_close :: "'w \<Rightarrow> 'w"
  me_set_key :: "bytes \<Rightarrow> 'k option"
  me_cbc :: "'k \<Rightarrow> bytes \<Rightarrow> bytes \<Rightarrow> bytes \<times> bytes"

text \<open>\<open>size\<close> is a field of four bits; \<open>buf\<close> and \<open>iv\<close> have 16 bytes.\<close>

record ('k, 'w) ngx_rtmp_mpegts_file =
  mf_fd :: 'w
  mf_encrypt :: bool
  mf_size :: nat
  mf_buf :: bytes
  mf_iv :: bytes
  mf_key :: 'k

text \<open>\<open>out\<close> bytes of the 1024 in \<open>buf\<close> are encrypted; the result has what is left of the input.\<close>

function encrypt_loop :: "('k, 'w) mpegts_env \<Rightarrow> bytes \<Rightarrow> bytes \<Rightarrow> ('k, 'w) ngx_rtmp_mpegts_file \<Rightarrow>
    ngx_rc \<times> bytes \<times> ('k, 'w) ngx_rtmp_mpegts_file" where
  "encrypt_loop env out inn f =
     (let n = length inn div 16 * 16
      in if n = 0 \<and> out = [] then (NGX_OK, inn, f)
         else
           let n = min n (1024 - length out);
               (iv, c) = (if n > 0 then me_cbc env (mf_key f) (mf_iv f) (take n inn) else (mf_iv f, []));
               (rc, fd) = me_write env (out @ c) (mf_fd f);
               f = f\<lparr>mf_iv := iv, mf_fd := fd\<rparr>
           in if rc < 0 then (NGX_ERROR, drop n inn, f) else encrypt_loop env [] (drop n inn) f)"
  by pat_completeness auto
termination
proof (relation "measure (\<lambda>(env, out, inn, f). length inn + length out)", goal_cases)
  case (2 env out inn f n)
  have "length inn - k < length inn + length out" if "0 < k \<or> out \<noteq> []" "inn \<noteq> [] \<or> out \<noteq> []" for k
    using that by (cases inn; cases out) auto
  with 2 show ?case by (cases "out = []") (auto simp: min_def)
qed simp

declare encrypt_loop.simps [simp del]

definition ngx_rtmp_mpegts_write_file ::
    "('k, 'w) mpegts_env \<Rightarrow> ('k, 'w) ngx_rtmp_mpegts_file \<Rightarrow> bytes \<Rightarrow> ngx_rc \<times> ('k, 'w) ngx_rtmp_mpegts_file" where
  "ngx_rtmp_mpegts_write_file env f inn =
     (if \<not> mf_encrypt f then
        (case me_write env inn (mf_fd f) of (rc, fd) \<Rightarrow>
           (if rc < 0 then NGX_ERROR else NGX_OK, f\<lparr>mf_fd := fd\<rparr>))
      else
        let (inn, out, f) =
          (if mf_size f > 0 \<and> mf_size f + length inn \<ge> 16 then
             let k = 16 - mf_size f;
                 buf = take (mf_size f) (mf_buf f) @ take k inn;
                 (iv, c) = me_cbc env (mf_key f) (mf_iv f) buf
             in (drop k inn, c, f\<lparr>mf_buf := buf, mf_iv := iv, mf_size := 0\<rparr>)
           else (inn, [], f))
        in case encrypt_loop env out inn f of
             (rc, inn, f) \<Rightarrow>
               if rc \<noteq> NGX_OK then (rc, f)
               else (NGX_OK, f\<lparr>mf_buf := take (mf_size f) (mf_buf f) @ inn @ drop (mf_size f + length inn) (mf_buf f),
                       mf_size := (mf_size f + length inn) mod 16\<rparr>))"

definition ngx_rtmp_mpegts_header :: bytes where
  "ngx_rtmp_mpegts_header =
     [0x47, 0x40, 0x00, 0x10, 0x00,
      0x00, 0xb0, 0x0d, 0x00, 0x01, 0xc1, 0x00, 0x00,
      0x00, 0x01, 0xf0, 0x01,
      0x2e, 0x70, 0x19, 0x05] @ replicate 167 0xff @
     [0x47, 0x50, 0x01, 0x10, 0x00,
      0x02, 0xb0, 0x17, 0x00, 0x01, 0xc1, 0x00, 0x00,
      0xe1, 0x00,
      0xf0, 0x00,
      0x1b, 0xe1, 0x00, 0xf0, 0x00,
      0x0f, 0xe1, 0x01, 0xf0, 0x00,
      0x2f, 0x44, 0xb9, 0x9b] @ replicate 157 0xff"

definition ngx_rtmp_mpegts_write_header ::
    "('k, 'w) mpegts_env \<Rightarrow> ('k, 'w) ngx_rtmp_mpegts_file \<Rightarrow> ngx_rc \<times> ('k, 'w) ngx_rtmp_mpegts_file" where
  "ngx_rtmp_mpegts_write_header env f = ngx_rtmp_mpegts_write_file env f ngx_rtmp_mpegts_header"

definition ngx_rtmp_mpegts_init_encryption ::
    "('k, 'w) mpegts_env \<Rightarrow> ('k, 'w) ngx_rtmp_mpegts_file \<Rightarrow> bytes \<Rightarrow> u64 \<Rightarrow> ngx_rc \<times> ('k, 'w) ngx_rtmp_mpegts_file" where
  "ngx_rtmp_mpegts_init_encryption env f key iv =
     (case me_set_key env key of
        None \<Rightarrow> (NGX_ERROR, f)
      | Some k \<Rightarrow> (NGX_OK, f\<lparr>mf_key := k, mf_encrypt := True,
          mf_iv := replicate 8 0 @ map (\<lambda>i. ucast (drop_bit i iv)) [56, 48, 40, 32, 24, 16, 8, 0]\<rparr>))"

definition ngx_rtmp_mpegts_open_file ::
    "('k, 'w) mpegts_env \<Rightarrow> ('k, 'w) ngx_rtmp_mpegts_file \<Rightarrow> bytes \<Rightarrow> ngx_rc \<times> ('k, 'w) ngx_rtmp_mpegts_file" where
  "ngx_rtmp_mpegts_open_file env f path =
     (case me_open env path of
        None \<Rightarrow> (NGX_ERROR, f)
      | Some fd \<Rightarrow>
          (case ngx_rtmp_mpegts_write_header env (f\<lparr>mf_fd := fd, mf_size := 0\<rparr>) of
             (rc, f) \<Rightarrow> if rc \<noteq> NGX_OK then (NGX_ERROR, f\<lparr>mf_fd := me_close env (mf_fd f)\<rparr>) else (NGX_OK, f)))"

definition ngx_rtmp_mpegts_close_file ::
    "('k, 'w) mpegts_env \<Rightarrow> ('k, 'w) ngx_rtmp_mpegts_file \<Rightarrow> ngx_rc \<times> ('k, 'w) ngx_rtmp_mpegts_file" where
  "ngx_rtmp_mpegts_close_file env f =
     (if mf_encrypt f then
        let buf = take (mf_size f) (mf_buf f) @ replicate (16 - mf_size f) (word_of_nat (16 - mf_size f));
            (iv, c) = me_cbc env (mf_key f) (mf_iv f) buf;
            (rc, fd) = me_write env c (mf_fd f);
            f = f\<lparr>mf_buf := buf, mf_iv := iv, mf_fd := fd\<rparr>
        in if rc < 0 then (NGX_ERROR, f) else (NGX_OK, f\<lparr>mf_fd := me_close env (mf_fd f)\<rparr>)
      else (NGX_OK, f\<lparr>mf_fd := me_close env (mf_fd f)\<rparr>))"

section \<open>Frames\<close>

record ngx_rtmp_mpegts_frame =
  mr_pts :: u64
  mr_dts :: u64
  mr_pid :: u64
  mr_sid :: u64
  mr_cc :: u64
  mr_key :: bool

definition NGX_RTMP_HLS_DELAY :: u64 where
  "NGX_RTMP_HLS_DELAY = 63000"

definition ngx_rtmp_mpegts_write_pcr :: "u64 \<Rightarrow> bytes" where
  "ngx_rtmp_mpegts_write_pcr pcr =
     [ucast (drop_bit 25 pcr), ucast (drop_bit 17 pcr), ucast (drop_bit 9 pcr), ucast (drop_bit 1 pcr),
      ucast (push_bit 7 pcr OR 0x7e), 0]"

definition ngx_rtmp_mpegts_write_pts :: "u64 \<Rightarrow> u64 \<Rightarrow> bytes" where
  "ngx_rtmp_mpegts_write_pts fb pts =
     (let v1 = (push_bit 4 fb OR push_bit 1 (drop_bit 30 pts AND 0x07)) OR 1;
          v2 = push_bit 1 (drop_bit 15 pts AND 0x7fff) OR 1;
          v3 = push_bit 1 (pts AND 0x7fff) OR 1
      in [ucast v1, ucast (drop_bit 8 v2), ucast v2, ucast (drop_bit 8 v3), ucast v3])"

text \<open>The header of the PES packet; \<open>len\<close> is the size of the frame.\<close>

definition mpegts_pes_header :: "ngx_rtmp_mpegts_frame \<Rightarrow> nat \<Rightarrow> bytes" where
  "mpegts_pes_header r len =
     (let two = mr_dts r \<noteq> mr_pts r;
          header_size = (if two then 10 else 5);
          flags = (if two then 0xc0 else 0x80 :: u64);
          pes_size = len + header_size + 3;
          pes_size = (if pes_size > 0xffff then 0 else pes_size)
      in [0, 0, 1, ucast (mr_sid r), word_of_nat (pes_size div 256), word_of_nat pes_size,
          0x80, ucast flags, word_of_nat header_size] @
         ngx_rtmp_mpegts_write_pts (drop_bit 6 flags) (mr_pts r + NGX_RTMP_HLS_DELAY) @
         (if two then ngx_rtmp_mpegts_write_pts 1 (mr_dts r + NGX_RTMP_HLS_DELAY) else []))"

text \<open>What a packet has in front of the bytes of the frame, before it is known how many there are.\<close>

definition mpegts_head :: "ngx_rtmp_mpegts_frame \<Rightarrow> bool \<Rightarrow> nat \<Rightarrow> bytes" where
  "mpegts_head r first len =
     (let key = first \<and> mr_key r
      in [0x47, ucast (drop_bit 8 (mr_pid r)) OR (if first then 0x40 else 0), ucast (mr_pid r),
          (0x10 OR ucast (mr_cc r AND 0x0f)) OR (if key then 0x20 else 0)] @
         (if key then [7, 0x50] @ ngx_rtmp_mpegts_write_pcr (mr_dts r - NGX_RTMP_HLS_DELAY) else []) @
         (if first then mpegts_pes_header r len else []))"

text \<open>Stuffing in front of the last bytes of a frame.\<close>

definition mpegts_stuff :: "bytes \<Rightarrow> nat \<Rightarrow> bytes" where
  "mpegts_stuff p stuff_size =
     (if p ! 3 AND 0x20 \<noteq> 0 then
        let base = 5 + unat (p ! 4)
        in (take base p)[4 := p ! 4 + word_of_nat stuff_size] @ replicate stuff_size 0xff @ drop base p
      else
        (take 4 p)[3 := p ! 3 OR 0x20] @ [word_of_nat (stuff_size - 1)] @
        (if stuff_size \<ge> 2 then 0 # replicate (stuff_size - 2) 0xff else []) @ drop 4 p)"

definition mpegts_packet :: "ngx_rtmp_mpegts_frame \<Rightarrow> bool \<Rightarrow> bytes \<Rightarrow> bytes \<times> bytes" where
  "mpegts_packet r first dat =
     (let p = mpegts_head r first (length dat);
          body_size = 188 - length p
      in if body_size \<le> length dat then (p @ take body_size dat, drop body_size dat)
         else (mpegts_stuff p (body_size - length dat) @ dat, []))"

lemma length_write_pcr [simp]: "length (ngx_rtmp_mpegts_write_pcr x) = 6"
  by (simp add: ngx_rtmp_mpegts_write_pcr_def)

lemma length_write_pts [simp]: "length (ngx_rtmp_mpegts_write_pts fb x) = 5"
  by (simp add: ngx_rtmp_mpegts_write_pts_def Let_def)

lemma length_head: "length (mpegts_head r first len) \<le> 31"
  by (simp add: mpegts_head_def mpegts_pes_header_def Let_def)

lemma packet_shrinks: "dat \<noteq> [] \<Longrightarrow> length (snd (mpegts_packet r first dat)) < length dat"
  using length_head [of r first "length dat"] by (cases dat) (auto simp: mpegts_packet_def Let_def)

lemma packet_rest: "(p, dat') = mpegts_packet r first dat \<Longrightarrow> dat \<noteq> [] \<Longrightarrow> length dat' < length dat"
  using packet_shrinks [of dat r first] by (metis snd_conv)

text \<open>The result has what is left of the frame, which is nothing unless a write failed.\<close>

function mpegts_frame_loop :: "('k, 'w) mpegts_env \<Rightarrow> ('k, 'w) ngx_rtmp_mpegts_file \<Rightarrow> ngx_rtmp_mpegts_frame \<Rightarrow>
    bool \<Rightarrow> bytes \<Rightarrow> ngx_rc \<times> ('k, 'w) ngx_rtmp_mpegts_file \<times> ngx_rtmp_mpegts_frame \<times> bytes" where
  "mpegts_frame_loop env f r first dat =
     (if dat = [] then (NGX_OK, f, r, [])
      else
        let r = r\<lparr>mr_cc := mr_cc r + 1\<rparr>
        in case mpegts_packet r first dat of
             (packet, dat) \<Rightarrow>
               (case ngx_rtmp_mpegts_write_file env f packet of
                  (rc, f) \<Rightarrow> if rc \<noteq> NGX_OK then (rc, f, r, dat) else mpegts_frame_loop env f r False dat))"
  by pat_completeness auto
termination
  by (relation "measure (\<lambda>(env, f, r, first, dat). length dat)") (simp, auto dest: packet_rest)

declare mpegts_frame_loop.simps [simp del]

definition ngx_rtmp_mpegts_write_frame :: "('k, 'w) mpegts_env \<Rightarrow> ('k, 'w) ngx_rtmp_mpegts_file \<Rightarrow>
    ngx_rtmp_mpegts_frame \<Rightarrow> buf \<Rightarrow> ngx_rc \<times> ('k, 'w) ngx_rtmp_mpegts_file \<times> ngx_rtmp_mpegts_frame \<times> buf" where
  "ngx_rtmp_mpegts_write_frame env f r b =
     (case mpegts_frame_loop env f r True (buf_content b) of
        (rc, f, r, dat) \<Rightarrow> (rc, f, r, b\<lparr>b_pos := b_last b - length dat\<rparr>))"

section \<open>What the environment does\<close>

text \<open>A file takes all bytes it is given; CBC can be taken up where it was left, at the end of a block.\<close>

definition takes_all :: "('k, 'w) mpegts_env \<Rightarrow> ('w \<Rightarrow> bytes) \<Rightarrow> bool" where
  "takes_all env content \<longleftrightarrow>
     (\<forall>x w. 0 \<le> fst (me_write env x w) \<and> content (snd (me_write env x w)) = content w @ x) \<and>
     (\<forall>w. content (me_close env w) = content w) \<and>
     (\<forall>path w. me_open env path = Some w \<longrightarrow> content w = [])"

definition cbc_chains :: "('k, 'w) mpegts_env \<Rightarrow> bool" where
  "cbc_chains env \<longleftrightarrow> (\<forall>k iv. me_cbc env k iv [] = (iv, []) \<and>
     (\<forall>x. 16 dvd length x \<longrightarrow> length (snd (me_cbc env k iv x)) = length x) \<and>
     (\<forall>x y. 16 dvd length x \<longrightarrow> me_cbc env k iv (x @ y) =
        (case me_cbc env k iv x of (iv, c) \<Rightarrow> case me_cbc env k iv y of (iv, d) \<Rightarrow> (iv, c @ d))))"

lemma takes_allE:
  assumes "takes_all env content"
  obtains rc w' where "me_write env x w = (rc, w')" "\<not> rc < 0" "content w' = content w @ x"
  using assms unfolding takes_all_def by (metis prod.collapse not_less)

lemma cbc_append:
  assumes "cbc_chains env" "16 dvd length x"
  shows "fst (me_cbc env k iv (x @ y)) = fst (me_cbc env k (fst (me_cbc env k iv x)) y)"
    "snd (me_cbc env k iv (x @ y)) = snd (me_cbc env k iv x) @ snd (me_cbc env k (fst (me_cbc env k iv x)) y)"
  using assms by (auto simp: cbc_chains_def split: prod.split)

lemma cbc_Nil: "cbc_chains env \<Longrightarrow> me_cbc env k iv [] = (iv, [])"
  by (simp add: cbc_chains_def)

section \<open>Writing is encrypting\<close>

abbreviation blocks :: "bytes \<Rightarrow> nat" where
  "blocks x \<equiv> length x div 16 * 16"

lemma blocks_drop:
  assumes "n \<le> blocks x" "16 dvd n"
  shows "blocks (drop n x) = blocks x - n"
proof -
  obtain k where k: "n = k * 16" using assms(2) by (metis dvd_def mult.commute)
  define m where "m = length x div 16 - k"
  have "length x - n = m * 16 + length x mod 16"
    using assms(1) k by (simp add: m_def diff_mult_distrib)
  then have "(length x - n) div 16 = m" by simp
  then show ?thesis using k by (simp add: m_def diff_mult_distrib)
qed

lemma take_blocks: "n \<le> m \<Longrightarrow> take m x = take n x @ take (m - n) (drop n x)"
  by (metis le_add_diff_inverse take_add)

lemma encrypt_loop_ok:
  assumes "takes_all env content" "cbc_chains env" "16 dvd length out" "length out < 1024"
  shows "\<exists>fd. encrypt_loop env out inn f = (NGX_OK, drop (blocks inn) inn,
      f\<lparr>mf_iv := fst (me_cbc env (mf_key f) (mf_iv f) (take (blocks inn) inn)), mf_fd := fd\<rparr>) \<and>
    content fd = content (mf_fd f) @ out @ snd (me_cbc env (mf_key f) (mf_iv f) (take (blocks inn) inn))"
  using assms
proof (induction env out inn f rule: encrypt_loop.induct)
  case (1 env out inn f)
  let ?cbc = "me_cbc env (mf_key f)" and ?B = "blocks inn"
  show ?case
  proof (cases "?B = 0 \<and> out = []")
    case True
    then show ?thesis using 1(3) by (intro exI [of _ "mf_fd f"]) (simp add: encrypt_loop.simps cbc_Nil)
  next
    case False
    define n where "n = min ?B (1024 - length out)"
    have "16 dvd 1024 - length out" using 1(4) by (simp add: dvd_diff_nat)
    then have n: "n \<le> ?B" "16 dvd n" by (simp_all add: n_def min_def)
    then have dn: "16 dvd length (take n inn)" by (simp add: min_absorb2 order_trans [of n ?B "length inn"])
    obtain iv c where c: "?cbc (mf_iv f) (take n inn) = (iv, c)" by force
    then have c': "(if n > 0 then ?cbc (mf_iv f) (take n inn) else (mf_iv f, [])) = (iv, c)"
      using cbc_Nil [OF 1(3)] by auto
    obtain rc fd where w: "me_write env (out @ c) (mf_fd f) = (rc, fd)" "\<not> rc < 0"
      "content fd = content (mf_fd f) @ out @ c"
      by (rule takes_allE [OF 1(2), of "out @ c" "mf_fd f"]) auto
    let ?f = "f\<lparr>mf_iv := iv, mf_fd := fd\<rparr>"
    have step: "encrypt_loop env out inn f = encrypt_loop env [] (drop n inn) ?f"
      by (subst encrypt_loop.simps) (simp only: Let_def if_not_P [OF False] n_def [symmetric] c' w(1,2) prod.case if_False)
    have bd: "(length inn - n) div 16 * 16 = ?B - n" using blocks_drop [OF n] by simp
    have "\<exists>fd'. encrypt_loop env [] (drop n inn) ?f = (NGX_OK, drop (blocks (drop n inn)) (drop n inn),
        ?f\<lparr>mf_iv := fst (me_cbc env (mf_key ?f) (mf_iv ?f) (take (blocks (drop n inn)) (drop n inn))), mf_fd := fd'\<rparr>) \<and>
      content fd' = content (mf_fd ?f) @ [] @ snd (me_cbc env (mf_key ?f) (mf_iv ?f) (take (blocks (drop n inn)) (drop n inn)))"
      by (rule 1(1) [OF refl False n_def refl c' [symmetric] refl w(1) [symmetric] refl w(2) 1(2,3)]) simp_all
    then obtain fd' where r: "encrypt_loop env [] (drop n inn) ?f = (NGX_OK, drop ?B inn,
        f\<lparr>mf_iv := fst (?cbc iv (take (?B - n) (drop n inn))), mf_fd := fd'\<rparr>)"
      "content fd' = content (mf_fd f) @ out @ c @ snd (?cbc iv (take (?B - n) (drop n inn)))"
      using n(1) w(3) bd by auto
    have "take ?B inn = take n inn @ take (?B - n) (drop n inn)" using n(1) by (rule take_blocks)
    then have "fst (?cbc (mf_iv f) (take ?B inn)) = fst (?cbc iv (take (?B - n) (drop n inn)))"
      "snd (?cbc (mf_iv f) (take ?B inn)) = c @ snd (?cbc iv (take (?B - n) (drop n inn)))"
      using cbc_append [OF 1(3) dn, of "mf_key f" "mf_iv f" "take (?B - n) (drop n inn)"] c by (simp_all only: fst_conv snd_conv)
    then show ?thesis using step r by auto
  qed
qed

text \<open>
  A file that writes what it is given, and one that has written the whole blocks of it encrypted and keeps the
  bytes behind them.
\<close>

definition plain_file :: "('w \<Rightarrow> bytes) \<Rightarrow> bytes \<Rightarrow> ('k, 'w) ngx_rtmp_mpegts_file \<Rightarrow> bool" where
  "plain_file content x f \<longleftrightarrow> \<not> mf_encrypt f \<and> content (mf_fd f) = x"

definition cipher_file ::
    "('k, 'w) mpegts_env \<Rightarrow> ('w \<Rightarrow> bytes) \<Rightarrow> 'k \<Rightarrow> bytes \<Rightarrow> bytes \<Rightarrow> ('k, 'w) ngx_rtmp_mpegts_file \<Rightarrow> bool" where
  "cipher_file env content k iv x f \<longleftrightarrow> mf_encrypt f \<and> mf_key f = k \<and> length (mf_buf f) = 16 \<and>
     mf_size f = length x mod 16 \<and> take (mf_size f) (mf_buf f) = drop (blocks x) x \<and>
     mf_iv f = fst (me_cbc env k iv (take (blocks x) x)) \<and>
     content (mf_fd f) = snd (me_cbc env k iv (take (blocks x) x))"

lemma write_plain:
  assumes "takes_all env content" "plain_file content x f"
  shows "\<exists>f'. ngx_rtmp_mpegts_write_file env f y = (NGX_OK, f') \<and> plain_file content (x @ y) f'"
proof -
  obtain rc fd where "me_write env y (mf_fd f) = (rc, fd)" "\<not> rc < 0" "content fd = content (mf_fd f) @ y"
    by (rule takes_allE [OF assms(1)])
  with assms(2) show ?thesis by (simp add: ngx_rtmp_mpegts_write_file_def plain_file_def)
qed

text \<open>What the loop and the copy behind it do to a file that is at the end of a block.\<close>

lemma write_aligned:
  assumes "takes_all env content" "cbc_chains env" "16 dvd length out" "length out < 1024"
    and "mf_encrypt f" "mf_key f = k" "length (mf_buf f) = 16" "mf_size f = 0" "16 dvd length x"
    and "mf_iv f = fst (me_cbc env k iv x)" "content (mf_fd f) @ out = snd (me_cbc env k iv x)"
  shows "\<exists>f1. encrypt_loop env out y f = (NGX_OK, drop (blocks y) y, f1) \<and>
    cipher_file env content k iv (x @ y)
      (f1\<lparr>mf_buf := take (mf_size f1) (mf_buf f1) @ drop (blocks y) y @ drop (mf_size f1 + length (drop (blocks y) y)) (mf_buf f1),
          mf_size := (mf_size f1 + length (drop (blocks y) y)) mod 16\<rparr>)"
proof -
  obtain fd where l: "encrypt_loop env out y f = (NGX_OK, drop (blocks y) y,
      f\<lparr>mf_iv := fst (me_cbc env k (mf_iv f) (take (blocks y) y)), mf_fd := fd\<rparr>)"
    "content fd = content (mf_fd f) @ out @ snd (me_cbc env k (mf_iv f) (take (blocks y) y))"
    using encrypt_loop_ok [OF assms(1-4), of y f] assms(6) by auto
  obtain q where q: "length x = 16 * q" using assms(9) by (auto simp: dvd_def)
  have b: "blocks (x @ y) = length x + blocks y" using q by simp
  have r: "length y - blocks y = length y mod 16" by (simp add: minus_div_mult_eq_mod)
  have t: "take (blocks (x @ y)) (x @ y) = x @ take (blocks y) y" "drop (blocks (x @ y)) (x @ y) = drop (blocks y) y"
    unfolding b by simp_all
  have m: "length (x @ y) mod 16 = length y mod 16" using q by simp
  have "length y mod 16 < 16" by simp
  then show ?thesis
    unfolding l(1) cipher_file_def t m using assms(5-8) l(2) assms(10,11) r cbc_append [OF assms(2,9), of k iv "take (blocks y) y"]
    by simp
qed

lemma write_cipher:
  assumes "takes_all env content" "cbc_chains env" "cipher_file env content k iv x f"
  shows "\<exists>f'. ngx_rtmp_mpegts_write_file env f y = (NGX_OK, f') \<and> cipher_file env content k iv (x @ y) f'"
proof -
  note c = assms(3) [unfolded cipher_file_def]
  have bx: "16 dvd length (take (blocks x) x)" by (simp add: min_absorb2)
  have x: "take (blocks x) x @ drop (blocks x) x = x" by simp
  have size: "mf_size f < 16" "length (drop (blocks x) x) = mf_size f" using c by (simp_all add: minus_div_mult_eq_mod)
  consider (block) "mf_size f > 0" "mf_size f + length y \<ge> 16" | (start) "mf_size f = 0"
    | (short) "mf_size f > 0" "mf_size f + length y < 16" by linarith
  then show ?thesis
  proof cases
    case block
    define j where "j = 16 - mf_size f"
    define buf where "buf = take (mf_size f) (mf_buf f) @ take j y"
    define z where "z = x @ take j y"
    have j: "j \<le> length y" "0 < j" using block size(1) by (simp_all add: j_def)
    obtain iv' out where e: "me_cbc env k (mf_iv f) buf = (iv', out)" by force
    have "take (mf_size f) (mf_buf f) = drop (blocks x) x" using c by blast
    then have zb: "z = take (blocks x) x @ buf" using x by (metis append_assoc z_def buf_def)
    have bl: "length buf = 16" using c j size(1) by (simp add: buf_def j_def)
    have enc: "mf_encrypt f" "mf_key f = k" using c by blast+
    have zl: "16 dvd length z" unfolding zb using bx bl by (simp only: length_append dvd_add) simp
    have ol: "length out = 16" using assms(2) e bl unfolding cbc_chains_def by (metis dvd_refl snd_conv)
    have zc: "fst (me_cbc env k iv z) = iv'" "snd (me_cbc env k iv z) = content (mf_fd f) @ out"
      unfolding zb using cbc_append [OF assms(2) bx, of k iv buf] c e by simp_all
    let ?f = "f\<lparr>mf_buf := buf, mf_iv := iv', mf_size := 0\<rparr>"
    have "ngx_rtmp_mpegts_write_file env f y =
        (case encrypt_loop env out (drop j y) ?f of
             (rc, inn, f) \<Rightarrow>
               if rc \<noteq> NGX_OK then (rc, f)
               else (NGX_OK, f\<lparr>mf_buf := take (mf_size f) (mf_buf f) @ inn @ drop (mf_size f + length inn) (mf_buf f),
                       mf_size := (mf_size f + length inn) mod 16\<rparr>))"
      using enc block e by (simp add: ngx_rtmp_mpegts_write_file_def Let_def j_def [symmetric] buf_def [symmetric])
    moreover have "z @ drop j y = x @ y" by (simp add: z_def)
    ultimately show ?thesis
      using write_aligned [OF assms(1,2), of out ?f k z iv "drop j y"] ol c bl zl zc by auto
  next
    case start
    then have a: "16 dvd length x" "take (blocks x) x = x" using c by (auto simp: dvd_eq_mod_eq_0)
    have "ngx_rtmp_mpegts_write_file env f y =
        (case encrypt_loop env [] y f of
             (rc, inn, f) \<Rightarrow>
               if rc \<noteq> NGX_OK then (rc, f)
               else (NGX_OK, f\<lparr>mf_buf := take (mf_size f) (mf_buf f) @ inn @ drop (mf_size f + length inn) (mf_buf f),
                       mf_size := (mf_size f + length inn) mod 16\<rparr>))"
      using c start by (simp add: ngx_rtmp_mpegts_write_file_def Let_def)
    then show ?thesis
      using write_aligned [OF assms(1,2), of "[]" f k x iv y] c a start by auto
  next
    case short
    let ?n = "mf_size f + length y"
    have l: "encrypt_loop env [] y f = (NGX_OK, y, f)" using short by (simp add: encrypt_loop.simps)
    have w: "ngx_rtmp_mpegts_write_file env f y = (NGX_OK,
        f\<lparr>mf_buf := take (mf_size f) (mf_buf f) @ y @ drop ?n (mf_buf f), mf_size := ?n\<rparr>)"
      using c short l by (simp add: ngx_rtmp_mpegts_write_file_def Let_def)
    have "length (x @ y) = blocks x + ?n" using c div_mult_mod_eq [of "length x" 16] by simp
    then have "length (x @ y) = length x div 16 * 16 + ?n" by simp
    then have "length (x @ y) div 16 = length x div 16" "length (x @ y) mod 16 = ?n"
      using short by (simp_all only: div_mult_self3 mod_mult_self3) simp_all
    then have b: "blocks (x @ y) = blocks x" "length (x @ y) mod 16 = ?n" by (simp_all only:)
    have bx': "blocks x \<le> length x" by simp
    have tb: "take (mf_size f) (mf_buf f) = drop (blocks x) x" and cf: "mf_encrypt f" "mf_key f = k" "length (mf_buf f) = 16"
        "mf_iv f = fst (me_cbc env k iv (take (blocks x) x))" "content (mf_fd f) = snd (me_cbc env k iv (take (blocks x) x))"
      using c by blast+
    define nb where "nb = take (mf_size f) (mf_buf f) @ y @ drop ?n (mf_buf f)"
    have nb: "take ?n nb = drop (blocks x) x @ y" "length nb = 16"
      using size cf(3) short(2) by (simp_all add: nb_def tb)
    show ?thesis
      unfolding w nb_def [symmetric] cipher_file_def b using cf nb bx' by simp
  qed
qed

section \<open>Writing frames\<close>

text \<open>The packets of a frame.\<close>

function frame_packets :: "ngx_rtmp_mpegts_frame \<Rightarrow> bool \<Rightarrow> bytes \<Rightarrow> bytes list" where
  "frame_packets r first dat =
     (if dat = [] then []
      else
        let r = r\<lparr>mr_cc := mr_cc r + 1\<rparr>
        in case mpegts_packet r first dat of (packet, dat) \<Rightarrow> packet # frame_packets r False dat)"
  by pat_completeness auto
termination
  by (relation "measure (\<lambda>(r, first, dat). length dat)") (simp, auto dest: packet_rest)

declare frame_packets.simps [simp del]

lemma frame_loop_ok:
  assumes "\<forall>f x y. P x f \<longrightarrow> (\<exists>f'. ngx_rtmp_mpegts_write_file env f y = (NGX_OK, f') \<and> P (x @ y) f')" "P x f"
  shows "\<exists>f' r'. mpegts_frame_loop env f r first dat = (NGX_OK, f', r', []) \<and>
    P (x @ concat (frame_packets r first dat)) f'"
  using assms(2)
proof (induction r first dat arbitrary: x f rule: frame_packets.induct)
  case (1 r first dat)
  show ?case
  proof (cases "dat = []")
    case True
    then show ?thesis using 1(2) by (simp add: mpegts_frame_loop.simps frame_packets.simps)
  next
    case False
    obtain p d where p: "mpegts_packet (r\<lparr>mr_cc := mr_cc r + 1\<rparr>) first dat = (p, d)" by force
    obtain f1 where f1: "ngx_rtmp_mpegts_write_file env f p = (NGX_OK, f1)" "P (x @ p) f1" using assms(1) 1(2) by blast
    have "frame_packets r first dat = p # frame_packets (r\<lparr>mr_cc := mr_cc r + 1\<rparr>) False d"
      using False p by (simp add: frame_packets.simps [of r first dat])
    moreover have "mpegts_frame_loop env f r first dat = mpegts_frame_loop env f1 (r\<lparr>mr_cc := mr_cc r + 1\<rparr>) False d"
      using False p f1(1) by (simp add: mpegts_frame_loop.simps [of env f r first dat])
    ultimately show ?thesis using 1(1) [OF False refl p [symmetric] f1(2)] by simp
  qed
qed

text \<open>A file as the HLS module writes it: the header, frames, and the end.\<close>

fun mpegts_write_frames :: "('k, 'w) mpegts_env \<Rightarrow> ('k, 'w) ngx_rtmp_mpegts_file \<Rightarrow>
    (ngx_rtmp_mpegts_frame \<times> buf) list \<Rightarrow> ngx_rc \<times> ('k, 'w) ngx_rtmp_mpegts_file" where
  "mpegts_write_frames env f [] = (NGX_OK, f)"
| "mpegts_write_frames env f ((r, b) # rs) =
     (case ngx_rtmp_mpegts_write_frame env f r b of
        (rc, f, r', b') \<Rightarrow> if rc \<noteq> NGX_OK then (rc, f) else mpegts_write_frames env f rs)"

definition mpegts_write_all :: "('k, 'w) mpegts_env \<Rightarrow> ('k, 'w) ngx_rtmp_mpegts_file \<Rightarrow> bytes \<Rightarrow>
    (ngx_rtmp_mpegts_frame \<times> buf) list \<Rightarrow> ngx_rc \<times> ('k, 'w) ngx_rtmp_mpegts_file" where
  "mpegts_write_all env f path rs =
     (case ngx_rtmp_mpegts_open_file env f path of
        (rc, f) \<Rightarrow> if rc \<noteq> NGX_OK then (rc, f)
          else (case mpegts_write_frames env f rs of
             (rc, f) \<Rightarrow> if rc \<noteq> NGX_OK then (rc, f) else ngx_rtmp_mpegts_close_file env f))"

definition mpegts_bytes :: "(ngx_rtmp_mpegts_frame \<times> buf) list \<Rightarrow> bytes" where
  "mpegts_bytes rs = ngx_rtmp_mpegts_header @ concat (map (\<lambda>(r, b). concat (frame_packets r True (buf_content b))) rs)"

lemma write_frames_ok:
  assumes "\<forall>f x y. P x f \<longrightarrow> (\<exists>f'. ngx_rtmp_mpegts_write_file env f y = (NGX_OK, f') \<and> P (x @ y) f')" "P x f"
  shows "\<exists>f'. mpegts_write_frames env f rs = (NGX_OK, f') \<and>
    P (x @ concat (map (\<lambda>(r, b). concat (frame_packets r True (buf_content b))) rs)) f'"
  using assms(2)
proof (induction rs arbitrary: x f)
  case (Cons rb rs)
  obtain r b where rb: "rb = (r, b)" by force
  obtain f1 r1 where f1: "mpegts_frame_loop env f r True (buf_content b) = (NGX_OK, f1, r1, [])"
    "P (x @ concat (frame_packets r True (buf_content b))) f1"
    using frame_loop_ok [OF assms(1) Cons.prems] by blast
  from Cons.IH [OF f1(2)] f1(1) show ?case by (simp add: rb ngx_rtmp_mpegts_write_frame_def)
qed simp

text \<open>The padding of the last block.\<close>

definition padded :: "bytes \<Rightarrow> bytes" where
  "padded x = x @ replicate (16 - length x mod 16) (word_of_nat (16 - length x mod 16))"

lemma write_all_plain:
  assumes "takes_all env content" "me_open env path = Some w" "\<not> mf_encrypt f"
  shows "\<exists>f'. mpegts_write_all env f path rs = (NGX_OK, f') \<and> content (mf_fd f') = mpegts_bytes rs"
proof -
  let ?P = "plain_file content"
  have P: "\<forall>f x y. ?P x f \<longrightarrow> (\<exists>f'. ngx_rtmp_mpegts_write_file env f y = (NGX_OK, f') \<and> ?P (x @ y) f')"
    using write_plain [OF assms(1)] by blast
  have "?P [] (f\<lparr>mf_fd := w, mf_size := 0\<rparr>)" using assms by (simp add: plain_file_def takes_all_def)
  then obtain f1 where 1: "ngx_rtmp_mpegts_write_file env (f\<lparr>mf_fd := w, mf_size := 0\<rparr>) ngx_rtmp_mpegts_header = (NGX_OK, f1)"
    "?P ngx_rtmp_mpegts_header f1" using P by fastforce
  obtain f2 where "mpegts_write_frames env f1 rs = (NGX_OK, f2)" "?P (mpegts_bytes rs) f2"
    using write_frames_ok [OF P 1(2), of rs] by (auto simp: mpegts_bytes_def)
  with 1(1) assms show ?thesis
    by (simp add: mpegts_write_all_def ngx_rtmp_mpegts_open_file_def ngx_rtmp_mpegts_write_header_def
        ngx_rtmp_mpegts_close_file_def plain_file_def takes_all_def)
qed

lemma close_cipher:
  assumes "takes_all env content" "cbc_chains env" "cipher_file env content k iv x f"
  shows "\<exists>f'. ngx_rtmp_mpegts_close_file env f = (NGX_OK, f') \<and> content (mf_fd f') = snd (me_cbc env k iv (padded x))"
proof -
  note c = assms(3) [unfolded cipher_file_def]
  let ?n = "length x mod 16" and ?m = "blocks x"
  let ?buf = "drop ?m x @ replicate (16 - ?n) (word_of_nat (16 - ?n))"
  obtain iv' d where d: "me_cbc env k (mf_iv f) ?buf = (iv', d)" by force
  obtain rc fd where w: "me_write env d (mf_fd f) = (rc, fd)" "\<not> rc < 0" "content fd = content (mf_fd f) @ d"
    by (rule takes_allE [OF assms(1)])
  have bx: "16 dvd length (take ?m x)" by (simp add: min_absorb2)
  have "padded x = take ?m x @ ?buf" by (simp add: padded_def append_assoc [symmetric] del: append_assoc)
  then have "snd (me_cbc env k iv (padded x)) = content fd"
    using cbc_append [OF assms(2) bx, of k iv ?buf] c d w(3) by simp
  moreover have "take (mf_size f) (mf_buf f) @ replicate (16 - mf_size f) (word_of_nat (16 - mf_size f)) = ?buf" using c by metis
  moreover have "mf_encrypt f" "me_cbc env (mf_key f) (mf_iv f) ?buf = (iv', d)" using c d by blast+
  ultimately show ?thesis
    using w(1,2) assms(1) by (simp only: ngx_rtmp_mpegts_close_file_def Let_def) (simp add: takes_all_def)
qed

text \<open>A write that takes only a part of the bytes is not noticed.\<close>

lemma short_write_unnoticed:
  assumes "\<forall>x. me_write env x w = (0, w)" "\<not> mf_encrypt f" "mf_fd f = w"
  shows "\<exists>f' r' b'. ngx_rtmp_mpegts_write_frame env f r b = (NGX_OK, f', r', b') \<and> mf_fd f' = w"
proof -
  let ?P = "\<lambda>x f. \<not> mf_encrypt f \<and> mf_fd f = w"
  have "\<forall>f x y. ?P x f \<longrightarrow> (\<exists>f'. ngx_rtmp_mpegts_write_file env f y = (NGX_OK, f') \<and> ?P (x @ y) f')"
    using assms(1) by (simp add: ngx_rtmp_mpegts_write_file_def)
  from frame_loop_ok [where P = ?P and x = "[]" and f = f and r = r and first = True and dat = "buf_content b", OF this] assms(2,3) show ?thesis
    by (auto simp: ngx_rtmp_mpegts_write_frame_def)
qed

section \<open>Properties\<close>

text \<open>
  C13: a file that is encrypted holds the encryption of what it would hold otherwise, padded to whole blocks
  with the number of the bytes that are missing, for any sequence of frames and however the packets
  fall on the blocks.
\<close>

theorem mpegts_encrypts:
  assumes "takes_all env content" "cbc_chains env" "me_open env path = Some w" "me_set_key env key = Some k"
    and "\<not> mf_encrypt f" "length (mf_buf f) = 16"
  shows "\<exists>g plain enc. ngx_rtmp_mpegts_init_encryption env f key iv = (NGX_OK, g) \<and>
    mpegts_write_all env f path rs = (NGX_OK, plain) \<and> mpegts_write_all env g path rs = (NGX_OK, enc) \<and>
    content (mf_fd plain) = mpegts_bytes rs \<and>
    content (mf_fd enc) = snd (me_cbc env k (mf_iv g) (padded (content (mf_fd plain))))"
proof -
  obtain plain where p: "mpegts_write_all env f path rs = (NGX_OK, plain)" "content (mf_fd plain) = mpegts_bytes rs"
    using write_all_plain [OF assms(1,3,5)] by blast
  obtain g where g: "ngx_rtmp_mpegts_init_encryption env f key iv = (NGX_OK, g)" "mf_encrypt g" "mf_key g = k" "length (mf_buf g) = 16"
    using assms(4,6) by (simp add: ngx_rtmp_mpegts_init_encryption_def)
  let ?P = "cipher_file env content k (mf_iv g)"
  have P: "\<forall>f x y. ?P x f \<longrightarrow> (\<exists>f'. ngx_rtmp_mpegts_write_file env f y = (NGX_OK, f') \<and> ?P (x @ y) f')"
    using write_cipher [OF assms(1,2)] by blast
  have "?P [] (g\<lparr>mf_fd := w, mf_size := 0\<rparr>)"
    using g assms(1,3) cbc_Nil [OF assms(2)] by (simp add: cipher_file_def takes_all_def)
  then obtain f1 where 1: "ngx_rtmp_mpegts_write_file env (g\<lparr>mf_fd := w, mf_size := 0\<rparr>) ngx_rtmp_mpegts_header = (NGX_OK, f1)"
    "?P ngx_rtmp_mpegts_header f1" using P by fastforce
  obtain f2 where 2: "mpegts_write_frames env f1 rs = (NGX_OK, f2)" "?P (mpegts_bytes rs) f2"
    using write_frames_ok [OF P 1(2), of rs] by (auto simp: mpegts_bytes_def)
  obtain enc where "ngx_rtmp_mpegts_close_file env f2 = (NGX_OK, enc)"
    "content (mf_fd enc) = snd (me_cbc env k (mf_iv g) (padded (mpegts_bytes rs)))"
    using close_cipher [OF assms(1,2) 2(2)] by blast
  with p g(1) 1(1) 2(1) assms(3) show ?thesis
    by (simp add: mpegts_write_all_def ngx_rtmp_mpegts_open_file_def ngx_rtmp_mpegts_write_header_def)
qed

text \<open>A file in memory, with a key that is added to each byte.\<close>

definition memory_env :: "(byte, bytes) mpegts_env" where
  "memory_env = \<lparr>me_open = (\<lambda>path. Some []), me_write = (\<lambda>x w. (int (length x), w @ x)), me_close = id,
     me_set_key = (\<lambda>key. case key of [] \<Rightarrow> None | k # ks \<Rightarrow> Some k), me_cbc = (\<lambda>k iv x. (iv, map ((+) k) x))\<rparr>"

lemma memory_env_laws: "takes_all memory_env id" "cbc_chains memory_env"
  by (simp_all add: memory_env_def takes_all_def cbc_chains_def)

definition fresh_file :: "(byte, bytes) ngx_rtmp_mpegts_file" where
  "fresh_file = \<lparr>mf_fd = [], mf_encrypt = False, mf_size = 0, mf_buf = replicate 16 0, mf_iv = [], mf_key = 0\<rparr>"

theorem mpegts_encrypts_witness:
  "\<exists>g plain enc. ngx_rtmp_mpegts_init_encryption memory_env fresh_file [7] 1 = (NGX_OK, g) \<and>
    mpegts_write_all memory_env fresh_file [] [] = (NGX_OK, plain) \<and> mpegts_write_all memory_env g [] [] = (NGX_OK, enc) \<and>
    mf_fd plain = ngx_rtmp_mpegts_header \<and> mf_fd enc = map ((+) 7) (ngx_rtmp_mpegts_header @ replicate 8 8)"
proof -
  have "padded ngx_rtmp_mpegts_header = ngx_rtmp_mpegts_header @ replicate 8 8"
    by (simp add: padded_def ngx_rtmp_mpegts_header_def)
  moreover have "me_open memory_env [] = Some []" "me_set_key memory_env [7] = Some 7"
    "snd (me_cbc memory_env k iv x) = map ((+) k) x" for k iv x
    by (simp_all add: memory_env_def)
  moreover have "\<not> mf_encrypt fresh_file" "length (mf_buf fresh_file) = 16" by (simp_all add: fresh_file_def)
  ultimately show ?thesis
    using mpegts_encrypts [OF memory_env_laws, of "[]" "[]" "[7]" 7 fresh_file 1 "[]"] by (auto simp: mpegts_bytes_def)
qed

end
