(* ===== verification/Rtmp_Mpegts_Read.thy ===== *)
theory Rtmp_Mpegts_Read
  imports Rtmp_Mpegts
begin

text \<open>
  What the muxer of the HLS module writes is what the reader of the TS module delivers: the two parts of the
  program are written independently of each other, and meet in the format.
\<close>

section \<open>The packets of a frame\<close>

lemma stamp_masks: "(0x07 :: u64) = mask 3" "(0x0e :: u64) = push_bit 1 (mask 3)" "(0x7fff :: u64) = mask 15"
  by (simp_all add: mask_eq_exp_minus_1)

lemma write_pts_stamp: "ngx_rtmp_mpegts_write_pts fb pts = pes_stamp (ucast (push_bit 4 fb) OR 1) pts"
  unfolding ngx_rtmp_mpegts_write_pts_def pes_stamp_def Let_def list.inject stamp_masks
  by (intro conjI refl; rule bit_word_eqI; simp only: bit_or_iff bit_and_iff bit_unsigned_iff bit_push_bit_iff bit_drop_bit_eq o_apply bit_mask_iff bit_1_iff possible_bit_word; auto)

definition es_of :: "ngx_rtmp_mpegts_frame \<Rightarrow> ngx_ts_es" where
  "es_of r = zero_es\<lparr>es_sid := ucast (mr_sid r), es_pid := ucast (mr_pid r),
     es_pts := mr_pts r + NGX_RTMP_HLS_DELAY, es_dts := mr_dts r + NGX_RTMP_HLS_DELAY\<rparr>"

lemma header_same:
  assumes "\<not> pes_plain_sid (ucast (mr_sid r))" "chain_size bufs = len"
  shows "mpegts_pes_header r len = pes_header (es_of r) bufs"
proof -
  have fb: "ngx_rtmp_mpegts_write_pts 2 t = pes_stamp 0x21 t" "ngx_rtmp_mpegts_write_pts 3 t = pes_stamp 0x31 t"
    "ngx_rtmp_mpegts_write_pts 1 t = pes_stamp 0x11 t" for t
    by (subst write_pts_stamp; simp)+
  show ?thesis
    using assms
    by (auto simp: mpegts_pes_header_def pes_header_def pes_optional_def es_of_def put16_len_def Let_def fb)
qed

text \<open>A packet is four bytes, an adaptation field if the fourth byte says so, and the payload.\<close>

definition field_ok :: "byte \<Rightarrow> bytes \<Rightarrow> bool" where
  "field_ok c af \<longleftrightarrow> drop_bit 4 (c AND 0x30) = 1 \<and> af = [] \<or>
     drop_bit 4 (c AND 0x30) = 3 \<and> af \<noteq> [] \<and> length af = Suc (unat (hd af)) \<and> unat (hd af) \<le> 183"

lemma read_parts:
  assumes "field_ok c af"
  shows "\<exists>g. ngx_ts_read_header ([0x47, x, y, c] @ af @ z) = (Inr (4 + length af), g) \<and>
    h_pid g = push_bit 8 (ucast (x AND 0x1f)) + ucast y \<and> (h_pusi g \<longleftrightarrow> x AND 0x40 \<noteq> 0)"
proof -
  have k: "h_pid (read_adaptation p h) = h_pid h" "h_pusi (read_adaptation p h) = h_pusi h" for p h
    by (simp_all add: read_adaptation_def Let_def)
  show ?thesis
  proof (cases af)
    case Nil
    with assms have "drop_bit 4 (c AND 0x30) = 1" by (simp add: field_ok_def)
    with Nil show ?thesis by (simp add: ngx_ts_read_header_def Let_def zero_header_def)
  next
    case (Cons a as)
    with assms have "drop_bit 4 (c AND 0x30) = 3" "length af = Suc (unat a)" "unat a \<le> 183" by (simp_all add: field_ok_def)
    moreover from this have "\<not> a > 183" by (simp add: word_less_nat_alt)
    ultimately show ?thesis using Cons by (simp add: ngx_ts_read_header_def Let_def zero_header_def k)
  qed
qed

lemma pid_of_frame:
  assumes "unat (pid :: u64) < 2 ^ 13"
  shows "push_bit 8 (ucast (((ucast (drop_bit 8 pid) :: byte) OR (if first then 0x40 else 0)) AND 0x1f)) + ucast (ucast pid :: byte) = (ucast pid :: u16)"
    "((ucast (drop_bit 8 pid) :: byte) OR (if first then 0x40 else 0)) AND 0x40 \<noteq> 0 \<longleftrightarrow> first"
proof -
  have u: "unat (ucast pid :: u16) = unat pid" using assms by (simp add: unsigned_ucast_eq take_bit_nat_eq_self)
  have d: "(ucast (drop_bit 8 (ucast pid :: u16)) :: byte) = ucast (drop_bit 8 pid)"
    by (intro bit_word_eqI) (auto simp: bit_simps)
  have l: "(ucast (ucast pid :: u16) :: byte) = ucast pid"
    by (intro bit_word_eqI) (auto simp: bit_simps)
  note p = pid_bytes [of "ucast pid :: u16", unfolded u d l, OF assms]
  show "push_bit 8 (ucast (((ucast (drop_bit 8 pid) :: byte) OR (if first then 0x40 else 0)) AND 0x1f)) + ucast (ucast pid :: byte) = (ucast pid :: u16)"
    "((ucast (drop_bit 8 pid) :: byte) OR (if first then 0x40 else 0)) AND 0x40 \<noteq> 0 \<longleftrightarrow> first"
    using p byte_flag_5bits(1,2) [OF p(1)] by (simp_all add: or.commute)
qed

lemma and_15: "(w :: u64) AND 0x0f = take_bit 4 w"
  by (simp add: take_bit_eq_mask mask_eq_exp_minus_1)

lemma stuff_flag:
  assumes "unat (x :: byte) < 16"
  shows "((0x10 OR x) OR 0x20) AND 0x20 \<noteq> 0" "(0x10 OR x) AND 0x20 = 0"
proof -
  have "\<not> bit x 5" using bit_less_exp [of x 4] assms by fastforce
  moreover have "w AND 0x20 = 0 \<longleftrightarrow> \<not> bit w 5" for w :: byte
  proof -
    have "(0x20 :: byte) = push_bit 5 1" by simp
    then show ?thesis by (metis and_exp_eq_0_iff_not_bit push_bit_of_1)
  qed
  ultimately show "((0x10 OR x) OR 0x20) AND 0x20 \<noteq> 0" "(0x10 OR x) AND 0x20 = 0"
    by (simp_all add: bit_simps)
qed

lemma packet_parts:
  assumes "dat \<noteq> []" and m: "mpegts_packet r first dat = (m, rest)"
  obtains c af pay where
    "m = [0x47, ucast (drop_bit 8 (mr_pid r)) OR (if first then 0x40 else 0), ucast (mr_pid r), c] @ af @
       (if first then mpegts_pes_header r (length dat) else []) @ pay"
    "field_ok c af" "dat = pay @ rest" "pay \<noteq> []" "length m = NGX_TS_PACKET_SIZE"
proof -
  define x where "x = (ucast (mr_cc r AND 0x0f) :: byte)"
  define X where "X = ucast (drop_bit 8 (mr_pid r)) OR (if first then 0x40 else 0 :: byte)"
  define Y where "Y = (ucast (mr_pid r) :: byte)"
  define key where "key \<longleftrightarrow> first \<and> mr_key r"
  define ad where "ad = (if key then [7, 0x50] @ ngx_rtmp_mpegts_write_pcr (mr_dts r - NGX_RTMP_HLS_DELAY) else [])"
  define hdr where "hdr = (if first then mpegts_pes_header r (length dat) else [])"
  define c where "c = (0x10 OR x) OR (if key then 0x20 else 0)"
  define p where "p = [0x47, X, Y, c] @ ad @ hdr"
  have "x = take_bit 4 (ucast (mr_cc r))"
    unfolding x_def and_15 by (intro bit_word_eqI) (auto simp: bit_simps)
  then have x: "unat x < 16" using take_bit_nat_less_exp [of 4 "unat (ucast (mr_cc r) :: byte)"] by (simp add: unsigned_take_bit_eq)
  note cb = byte_cont_4bits [OF x]
  have head: "mpegts_head r first (length dat) = p"
    by (simp add: mpegts_head_def p_def X_def Y_def c_def x_def ad_def hdr_def key_def)
  have ad: "length ad = (if key then 8 else 0)" by (simp add: ad_def)
  have hdr: "length hdr \<le> 19" "key \<Longrightarrow> 14 \<le> length hdr"
    by (simp_all add: hdr_def key_def mpegts_pes_header_def Let_def)
  define body where "body = 188 - length p"
  have body: "body = 184 - length ad - length hdr" "0 < body" using ad hdr(1) by (simp_all add: body_def p_def)
  have pk: "mpegts_packet r first dat = (if body \<le> length dat then (p @ take body dat, drop body dat)
      else (mpegts_stuff p (body - length dat) @ dat, []))"
    by (simp add: mpegts_packet_def head body_def Let_def)
  show thesis
  proof (cases "body \<le> length dat")
    case True
    have "field_ok c ad" using cb(1,3) by (simp add: field_ok_def c_def ad_def)
    moreover have "m = [0x47, X, Y, c] @ ad @ hdr @ take body dat" "rest = drop body dat"
      using m pk True by (simp_all add: p_def)
    moreover have "length m = NGX_TS_PACKET_SIZE"
      using \<open>m = _\<close> True body(1,2) ad hdr(1) by (simp add: NGX_TS_PACKET_SIZE_def)
    moreover have "take body dat \<noteq> []" using assms(1) body(2) by simp
    ultimately show thesis by (intro that [of c ad "take body dat"]) (simp_all add: X_def Y_def hdr_def)
  next
    case False
    define n where "n = body - length dat"
    have n: "1 \<le> n" "n < body" "n + length dat = body" using False assms(1) by (simp_all add: n_def)
    define c' where "c' = (0x10 OR x) OR 0x20"
    have flag: "c AND 0x20 \<noteq> 0 \<longleftrightarrow> key"
      using stuff_flag [OF x] by (simp add: c_def)
    obtain af where af: "mpegts_stuff p n = [0x47, X, Y, c'] @ af @ hdr" "af \<noteq> []" "length af = Suc (unat (hd af))"
      "unat (hd af) \<le> 183" "length af = length ad + n"
    proof (cases key)
      case True
      have "8 + n < 184" using n(2) body(1) ad True by simp
      then have u: "unat (word_of_nat (7 + n) :: byte) = 7 + n" by (subst unat_byte_of_nat) simp
      let ?af = "word_of_nat (7 + n) # 0x50 # ngx_rtmp_mpegts_write_pcr (mr_dts r - NGX_RTMP_HLS_DELAY) @ replicate n 0xff"
      have "mpegts_stuff p n = [0x47, X, Y, c'] @ ?af @ hdr"
        using True flag by (simp add: mpegts_stuff_def p_def ad_def c_def c'_def)
      then show thesis
        using u \<open>8 + n < 184\<close> True ad by (intro that [of ?af]) (simp_all del: of_nat_add unat_byte_of_nat)
    next
      case False
      let ?af = "word_of_nat (n - 1) # (if n \<ge> 2 then 0 # replicate (n - 2) 0xff else [])"
      have "n < 184" using n(2) body(1) by simp
      then have u: "unat (word_of_nat (n - 1) :: byte) = n - 1" by (subst unat_byte_of_nat) simp
      have "mpegts_stuff p n = [0x47, X, Y, c'] @ ?af @ hdr"
        using False flag by (simp add: mpegts_stuff_def p_def ad_def c_def c'_def)
      then show thesis
        using u \<open>n < 184\<close> False ad n(1) by (intro that [of ?af]) (auto simp del: unat_byte_of_nat)
    qed
    have "field_ok c' af" using af(2-4) cb(3) by (simp add: field_ok_def c'_def)
    moreover have mm: "m = [0x47, X, Y, c'] @ af @ hdr @ dat" "rest = []"
      using m pk False af(1) by (simp_all add: n_def)
    moreover have "length m = NGX_TS_PACKET_SIZE"
      unfolding mm(1) using af(5) n(3) body(1,2) ad hdr(1) by (simp add: NGX_TS_PACKET_SIZE_def)
    ultimately show thesis using assms(1) by (intro that [of c' af dat]) (simp_all add: X_def Y_def hdr_def)
  qed
qed

lemma packet_read:
  assumes "dat \<noteq> []" "mpegts_packet r first dat = (m, rest)" "unat (mr_pid r) < 2 ^ 13"
  shows "length m = NGX_TS_PACKET_SIZE" "\<exists>n g. ngx_ts_read_header m = (Inr n, g) \<and> section_hdr (ucast (mr_pid r)) (\<not> first) g"
    "ts_payload m @ rest = (if first then mpegts_pes_header r (length dat) else []) @ dat" "ts_payload m \<noteq> []"
proof -
  obtain c af pay where p:
    "m = [0x47, ucast (drop_bit 8 (mr_pid r)) OR (if first then 0x40 else 0), ucast (mr_pid r), c] @ af @
       (if first then mpegts_pes_header r (length dat) else []) @ pay"
    "field_ok c af" "dat = pay @ rest" "pay \<noteq> []" "length m = NGX_TS_PACKET_SIZE"
    by (rule packet_parts [OF assms(1,2)])
  obtain g where g: "ngx_ts_read_header m = (Inr (4 + length af), g)" "section_hdr (ucast (mr_pid r)) (\<not> first) g"
    using read_parts [OF p(2), of "ucast (drop_bit 8 (mr_pid r)) OR (if first then 0x40 else 0)" "ucast (mr_pid r)"
        "(if first then mpegts_pes_header r (length dat) else []) @ pay"] pid_of_frame [OF assms(3), of first]
    unfolding p(1) by (auto simp: section_hdr_def)
  have "ts_payload m = (if first then mpegts_pes_header r (length dat) else []) @ pay"
  proof -
    obtain q where "m = q @ af @ (if first then mpegts_pes_header r (length dat) else []) @ pay" "length q = 4"
      by (rule that [OF p(1)]) simp
    then show ?thesis using g(1) by (simp add: ts_payload_def)
  qed
  with g p(3-5) show "length m = NGX_TS_PACKET_SIZE"
    "\<exists>n g. ngx_ts_read_header m = (Inr n, g) \<and> section_hdr (ucast (mr_pid r)) (\<not> first) g"
    "ts_payload m @ rest = (if first then mpegts_pes_header r (length dat) else []) @ dat" "ts_payload m \<noteq> []"
    by auto
qed

lemma frame_packets_read:
  assumes "dat \<noteq> []" "unat (mr_pid r) < 2 ^ 13"
  shows "frame_packets r first dat \<noteq> [] \<and> ts_payload (last (frame_packets r first dat)) \<noteq> [] \<and>
    (\<forall>i < length (frame_packets r first dat). length (frame_packets r first dat ! i) = NGX_TS_PACKET_SIZE \<and>
      (\<exists>n g. ngx_ts_read_header (frame_packets r first dat ! i) = (Inr n, g) \<and>
        section_hdr (ucast (mr_pid r)) (\<not> first \<or> 0 < i) g)) \<and>
    concat (map ts_payload (frame_packets r first dat)) = (if first then mpegts_pes_header r (length dat) else []) @ dat"
  using assms
proof (induction r first dat rule: frame_packets.induct)
  case (1 r first dat)
  let ?r = "r\<lparr>mr_cc := mr_cc r + 1\<rparr>"
  obtain m rest where m: "mpegts_packet ?r first dat = (m, rest)" by force
  have f: "frame_packets r first dat = m # frame_packets ?r False rest"
    using 1(2) m by (simp add: frame_packets.simps [of r first dat])
  have h: "mpegts_pes_header ?r n = mpegts_pes_header r n" for n by (cases "mr_dts r = mr_pts r") (simp_all add: mpegts_pes_header_def)
  have pr: "unat (mr_pid ?r) < 2 ^ 13" using 1(3) by simp
  note p = packet_read [OF 1(2) m pr, unfolded h]
  show ?case
  proof (cases "rest = []")
    case True
    then show ?thesis using p unfolding f by (simp add: frame_packets.simps [of ?r False "[]"])
  next
    case False
    note ih = 1(1) [OF 1(2) refl m [symmetric] False pr]
    show ?thesis unfolding f using p ih
      by (auto simp: nth_Cons' h)
  qed
qed

section \<open>The other streams of a program\<close>

definition others_same :: "nat \<Rightarrow> nat \<Rightarrow> ('h, 'w, 'p) ngx_ts_stream \<Rightarrow> ('h, 'w, 'p) ngx_ts_stream \<Rightarrow> bool" where
  "others_same i j ts ts' \<longleftrightarrow> (\<forall>j'. j' \<noteq> j \<longrightarrow> the_es ts' i j' = the_es ts i j') \<and> ts_handlers ts' = ts_handlers ts"

lemma others_trans: "others_same i j ts ts1 \<Longrightarrow> others_same i j ts1 ts2 \<Longrightarrow> others_same i j ts ts2"
  by (simp add: others_same_def)

lemma others_simps [simp]:
  "others_same i j ts (upd_es i j f ts') \<longleftrightarrow> others_same i j ts ts'"
  "others_same i j ts (upd_prog i (\<lambda>pr. pr\<lparr>pr_pcr := v\<rparr>) ts') \<longleftrightarrow> others_same i j ts ts'"
  "others_same i j ts (ts'\<lparr>ts_free := a\<rparr>) \<longleftrightarrow> others_same i j ts ts'"
  "others_same i j ts (ts'\<lparr>ts_world := b\<rparr>) \<longleftrightarrow> others_same i j ts ts'"
  "others_same i j ts ts"
proof -
  have "the_es (upd_es i j f ts') i j' = the_es ts' i j'" if "j' \<noteq> j" for j'
    using that by (cases "i < length (ts_progs ts')") (simp_all add: upd_es_def upd_prog_def not_less list_update_beyond)
  then show "others_same i j ts (upd_es i j f ts') \<longleftrightarrow> others_same i j ts ts'"
    by (auto simp: others_same_def)
qed (simp_all add: others_same_def)

lemma others_note: "others_same i j ts (pes_note ts i j h)"
  by (simp add: pes_note_def Let_def)

lemma others_append:
  "ngx_ts_append_buf ops ts1 h ll b = (rc, ts', ll') \<Longrightarrow> others_same i j ts ts1 \<Longrightarrow> others_same i j ts ts'"
  using append_buf_frame [of ops ts1 h ll b rc ts' ll'] by (simp add: others_same_def)

lemma others_deliver:
  assumes "pes_deliver note_call ts1 i j len f br = (rc, ts')" "others_same i j ts ts1" "ts_handlers ts = [()]"
  shows "others_same i j ts ts'"
proof -
  have h: "ts_handlers ts1 = [()]" using assms(2,3) by (simp add: others_same_def)
  show ?thesis
    using assms(1,2) h
    by (auto simp: pes_deliver_def Let_def run_note ngx_ts_free_chain_def split: prod.splits if_splits)
qed

lemma others_body:
  assumes "read_pes_body ops note_call ts i j h b = (rc, ts')" "ts_handlers ts = [()]"
  shows "others_same i j ts ts'"
proof -
  obtain rc1 ts1 ll where a: "ngx_ts_append_buf ops (pes_note ts i j h) h (es_bufs (the_es (pes_note ts i j h) i j)) b = (rc1, ts1, ll)"
    by (metis prod_cases3)
  have o: "others_same i j ts ts1" using others_append [OF a others_note] .
  show ?thesis
    using assms(1) o unfolding read_pes_body_def Let_def a
    by (auto simp: ngx_ts_free_chain_def split: prod.splits if_splits sum.splits option.splits
        intro: others_deliver [OF _ _ assms(2)])
qed

lemma packet_others:
  assumes "ready ops s" "length m = NGX_TS_PACKET_SIZE" "ngx_ts_read_header m = (Inr n, g)"
    and "h_pid g \<noteq> 0" "find_pid (h_pid g) 0 (ts_progs s) = Some (i, Some j)"
    and "ts_bytes ops note_call m s = (NGX_OK, s')" "j' \<noteq> j"
  shows "the_es s' i j' = the_es s i j'"
proof -
  obtain ts1 b where 1: "same_core s ts1" "ts_bytes ops note_call m s = (case ts_dispatch ops note_call ts1 g b of (rc, t) \<Rightarrow>
       if rc \<noteq> NGX_OK then (NGX_ERROR, t) else (NGX_OK, t\<lparr>ts_buf := None\<rparr>))"
    by (rule feed_ready [OF assms(1-3)])
  have h: "ts_handlers ts1 = [()]" "ts_progs ts1 = ts_progs s"
    using assms(1) 1(1) by (simp_all add: same_core_def ready_def)
  obtain rc t where t: "ts_dispatch ops note_call ts1 g b = (rc, t)" by force
  have "ngx_ts_read_pes ops note_call ts1 i j g (Some b) = (rc, t)"
    using t assms(4,5) h(2) by (simp add: ts_dispatch_def)
  then consider rc' where "read_pes_body ops note_call ts1 i j g None = (rc', t)"
    | "read_pes_body ops note_call ts1 i j g (Some b) = (rc, t)"
    | rc' ts2 where "read_pes_body ops note_call ts1 i j g None = (rc', ts2)"
        "read_pes_body ops note_call ts2 i j g (Some b) = (rc, t)"
    by (auto simp: ngx_ts_read_pes_def split: prod.splits if_splits)
  then have "others_same i j ts1 t"
  proof cases
    case (3 rc' ts2)
    have 2: "others_same i j ts1 ts2" using 3(1) h(1) by (rule others_body)
    moreover from this h(1) have "ts_handlers ts2 = [()]" by (simp add: others_same_def)
    with 3(2) have "others_same i j ts2 t" by (rule others_body)
    ultimately show ?thesis by (rule others_trans)
  qed (rule others_body, assumption, rule h(1))+
  moreover have "s' = t\<lparr>ts_buf := None\<rparr>" using 1(2) t assms(6) by (simp split: if_splits)
  ultimately show ?thesis using h(2) assms(7) by (simp add: others_same_def)
qed

text \<open>The reader between two packets of one stream, with nothing of stream \<open>j'\<close> half read.\<close>

definition pes_alone ::
    "'p pool_ops \<Rightarrow> (u16 \<times> u16 list) list \<Rightarrow> nat \<Rightarrow> nat \<Rightarrow> nat \<Rightarrow> ngx_ts_es \<Rightarrow> chain \<Rightarrow> bytes \<Rightarrow>
     ts_note list \<Rightarrow> bool \<Rightarrow> bytes \<Rightarrow> (unit, ts_note list, 'p) ngx_ts_stream \<Rightarrow> bool" where
  "pes_alone ops K i j j' e bufs payload w started cs ts \<longleftrightarrow>
     pes_waiting ops K i j e bufs payload w started cs ts \<and> j' \<noteq> j \<and> es_bufs (the_es ts i j') = []"

lemma alone_step:
  assumes "pes_alone ops K i j j' e bufs payload w started cs s" "length m = NGX_TS_PACKET_SIZE"
    "ngx_ts_read_header m = (Inr n, g)" "section_hdr (es_pid e) started g"
    "ts_bytes ops note_call m s = (NGX_OK, s')"
  shows "es_bufs (the_es s' i j') = []"
proof -
  have w: "ready ops s" "find_pid (es_pid e) 0 (ts_progs s) = Some (i, Some j)" "es_pid e \<noteq> 0" "j' \<noteq> j"
    using assms(1) by (simp_all add: pes_alone_def pes_waiting_def pes_target_def)
  have "h_pid g = es_pid e" using assms(4) by (simp add: section_hdr_def)
  from packet_others [OF w(1) assms(2,3), unfolded this, OF w(3,2) assms(5) w(4)] assms(1) show ?thesis
    by (simp add: pes_alone_def)
qed

interpretation frames: packet_consumer "ts_bytes ops note_call" "pes_header e bufs @ payload"
  False "section_hdr (es_pid e)" "pes_alone ops K i j j' e bufs payload w"
  "\<lambda>ts. pes_finished ops K i j e payload w ts \<and> es_bufs (the_es ts i j') = []"
  for ops :: "'p pool_ops" and K i j j' e bufs payload w
proof unfold_locales
  fix xs ys :: bytes and s :: "(unit, ts_note list, 'p) ngx_ts_stream"
  show "ts_bytes ops note_call (xs @ ys) s = (case ts_bytes ops note_call xs s of (rc, s') \<Rightarrow>
      if rc \<noteq> NGX_OK then (rc, s') else ts_bytes ops note_call ys s')"
    by (rule ts_bytes_append)
next
  fix started cs m n g xs and s :: "(unit, ts_note list, 'p) ngx_ts_stream"
  assume w: "pes_alone ops K i j j' e bufs payload w started cs s" and m: "length m = NGX_TS_PACKET_SIZE"
    "ngx_ts_read_header m = (Inr n, g)" "section_hdr (es_pid e) started g"
    and tot: "pes_header e bufs @ payload = (cs @ drop n m) @ xs" "xs \<noteq> []"
  have p: "pes_waiting ops K i j e bufs payload w started cs s" using w by (simp add: pes_alone_def)
  from pes.feed_more [OF p m tot] alone_step [OF w m] w
  show "\<exists>s'. ts_bytes ops note_call m s = (NGX_OK, s') \<and>
      pes_alone ops K i j j' e bufs payload w True (cs @ drop n m) s'"
    by (auto simp: pes_alone_def)
next
  fix started cs m n g and pad :: bytes and s :: "(unit, ts_note list, 'p) ngx_ts_stream"
  assume w: "pes_alone ops K i j j' e bufs payload w started cs s" and m: "length m = NGX_TS_PACKET_SIZE"
    "ngx_ts_read_header m = (Inr n, g)" "section_hdr (es_pid e) started g"
    and tot: "cs @ drop n m = (pes_header e bufs @ payload) @ pad" "length pad < length (drop n m)" "False \<or> pad = []"
  have p: "pes_waiting ops K i j e bufs payload w started cs s" using w by (simp add: pes_alone_def)
  from pes.feed_last [OF p m tot] alone_step [OF w m]
  show "\<exists>s'. ts_bytes ops note_call m s = (NGX_OK, s') \<and> pes_finished ops K i j e payload w s' \<and> es_bufs (the_es s' i j') = []"
    by blast
qed

section \<open>A file of two streams\<close>

definition muxed_program :: "(u16 \<times> u16 list) list" where
  "muxed_program = [(0x1001, [0x100, 0x101])]"

definition reader_at :: "ts_note list \<Rightarrow> (unit, ts_note list, unit) ngx_ts_stream \<Rightarrow> bool" where
  "reader_at w ts \<longleftrightarrow> ready unit_pool ts \<and> ts_world ts = w \<and> pid_keys (ts_progs ts) = muxed_program \<and>
     es_bufs (the_es ts 0 0) = [] \<and> es_bufs (the_es ts 0 1) = []"

text \<open>A frame of the video or the audio stream that the length field of a PES packet can hold.\<close>

definition frame_fits :: "ngx_rtmp_mpegts_frame \<times> buf \<Rightarrow> bool" where
  "frame_fits rb \<longleftrightarrow> (case rb of (r, b) \<Rightarrow>
     buf_content b \<noteq> [] \<and> (mr_pid r = 0x100 \<or> mr_pid r = 0x101) \<and> \<not> pes_plain_sid (ucast (mr_sid r)) \<and>
     unat (mr_pts r + NGX_RTMP_HLS_DELAY) < 2 ^ 33 \<and> unat (mr_dts r + NGX_RTMP_HLS_DELAY) < 2 ^ 33 \<and>
     length (buf_content b) + 13 \<le> 0xffff)"

definition frame_note :: "ngx_rtmp_mpegts_frame \<times> buf \<Rightarrow> ts_note" where
  "frame_note rb = (case rb of (r, b) \<Rightarrow>
     \<lparr>n_event = NGX_TS_PES, n_prog = Some 0, n_es = Some (if mr_pid r = 0x100 then 0 else 1),
      n_pts = mr_pts r + NGX_RTMP_HLS_DELAY, n_dts = mr_dts r + NGX_RTMP_HLS_DELAY, n_bytes = buf_content b\<rparr>)"

lemma find_muxed:
  assumes "pid_keys ps = muxed_program"
  shows "find_pid 0x100 0 ps = Some (0, Some 0)" "find_pid 0x101 0 ps = Some (0, Some 1)"
proof -
  obtain p where p: "ps = [p]" "pr_pid p = 0x1001" "map es_pid (pr_es p) = [0x100, 0x101]"
    using assms by (auto simp: pid_keys_def muxed_program_def)
  then obtain a b where "pr_es p = [a, b]" "es_pid a = 0x100" "es_pid b = 0x101" by (auto simp: map_eq_Cons_conv)
  then show "find_pid 0x100 0 ps = Some (0, Some 0)" "find_pid 0x101 0 ps = Some (0, Some 1)" using p by simp_all
qed

lemma muxed_frame_read:
  assumes "reader_at w ts" "frame_fits (r, b)"
  shows "\<exists>ts'. ts_bytes unit_pool note_call (concat (frame_packets r True (buf_content b))) ts = (NGX_OK, ts') \<and>
    reader_at (w @ [frame_note (r, b)]) ts'"
proof -
  let ?dat = "buf_content b" and ?e = "es_of r"
  define j :: nat where "j = (if mr_pid r = 0x100 then 0 else 1)"
  define bufs where "bufs = [whole_buf ?dat]"
  have f: "?dat \<noteq> []" "mr_pid r = 0x100 \<or> mr_pid r = 0x101" "\<not> pes_plain_sid (ucast (mr_sid r))"
    "unat (es_pts ?e) < 2 ^ 33" "unat (es_dts ?e) < 2 ^ 33" "length ?dat + 13 \<le> 0xffff"
    using assms(2) by (auto simp: frame_fits_def es_of_def)
  have cs: "chain_size bufs = length ?dat" by (simp add: bufs_def chain_size_def)
  have pid: "unat (mr_pid r) < 2 ^ 13" "es_pid ?e = 0x100 \<or> es_pid ?e = 0x101" "es_pid ?e = 0x100 \<longleftrightarrow> mr_pid r = 0x100"
    using f(2) by (auto simp: es_of_def)
  have "length (pes_optional ?e) \<le> 13" by (simp add: pes_optional_def)
  then have tgt: "pes_target ?e bufs ?dat"
    using f cs pid(2) by (auto simp: pes_target_def stamped_def pes_len_def es_of_def)
  have find: "find_pid (es_pid ?e) 0 (ts_progs ts) = Some (0, Some j)"
    using assms(1) find_muxed [of "ts_progs ts"] pid(2,3) by (auto simp: reader_at_def j_def)
  have wait: "pes_alone unit_pool muxed_program 0 j (1 - j) ?e bufs ?dat w False [] ts"
    using assms(1) tgt find by (auto simp: pes_alone_def pes_waiting_def reader_at_def j_def)
  note p = frame_packets_read [OF f(1) pid(1), of True]
  have tot: "concat (map ts_payload (frame_packets r True ?dat)) = pes_header ?e bufs @ ?dat"
    using p header_same [OF f(3) cs] by simp
  have pk: "length (frame_packets r True ?dat ! i) = NGX_TS_PACKET_SIZE \<and>
      (\<exists>n g. ngx_ts_read_header (frame_packets r True ?dat ! i) = (Inr n, g) \<and> section_hdr (es_pid ?e) (False \<or> 0 < i) g)"
    if "i < length (frame_packets r True ?dat)" for i
    using p that by (simp add: es_of_def)
  have ne: "frame_packets r True ?dat \<noteq> []" "length [] < length (ts_payload (last (frame_packets r True ?dat)))" using p by auto
  obtain ts' where t: "ts_bytes unit_pool note_call (concat (frame_packets r True ?dat)) ts = (NGX_OK, ts')"
    "pes_finished unit_pool muxed_program 0 j ?e ?dat w ts'" "es_bufs (the_es ts' 0 (1 - j)) = []"
    using frames.feed_all [OF wait ne(1) pk, of "[]"] tot ne(2) by auto
  then have "reader_at (w @ [frame_note (r, b)]) ts'"
    by (auto simp: reader_at_def pes_finished_def j_def frame_note_def pes_note_of_def es_of_def split: if_splits)
  with t(1) show ?thesis by blast
qed

section \<open>The header of a file\<close>

text \<open>A reader that knows nothing yet, the two packets of the header, and what they tell the reader.\<close>

definition fresh_reader :: "(unit, ts_note list, unit) ngx_ts_stream" where
  "fresh_reader = (zero_ts () [])\<lparr>ts_handlers := [()]\<rparr>"

definition pat_packet :: bytes where
  "pat_packet = [0x47, 0x40, 0x00, 0x10, 0x00,
      0x00, 0xb0, 0x0d, 0x00, 0x01, 0xc1, 0x00, 0x00,
      0x00, 0x01, 0xf0, 0x01,
      0x2e, 0x70, 0x19, 0x05] @ replicate 167 0xff"

definition pmt_packet :: bytes where
  "pmt_packet =
     [0x47, 0x50, 0x01, 0x10, 0x00,
      0x02, 0xb0, 0x17, 0x00, 0x01, 0xc1, 0x00, 0x00,
      0xe1, 0x00,
      0xf0, 0x00,
      0x1b, 0xe1, 0x00, 0xf0, 0x00,
      0x0f, 0xe1, 0x01, 0xf0, 0x00,
      0x2f, 0x44, 0xb9, 0x9b] @ replicate 157 0xff"

lemmas byte_reads = ngx_ts_byte_read_skip_def ngx_ts_byte_read16_def ngx_ts_byte_read8_def ngx_ts_byte_read_def first_pos_def ngx_ts_byte_read_init_def

definition pat_buf :: buf where
  "pat_buf = \<lparr>b_mem = pat_packet, b_pos = 4, b_last = 188\<rparr>"

definition pmt_buf :: buf where
  "pmt_buf = \<lparr>b_mem = pmt_packet, b_pos = 4, b_last = 188\<rparr>"

lemma read_pat_head: "ngx_ts_read_header pat_packet = (Inr 4, \<lparr>h_pusi = True, h_cont = 0, h_rand = False, h_pcrf = False,
     h_stuff = False, h_pid = 0, h_pcr = 0\<rparr>)"
  by (simp add: ngx_ts_read_header_def pat_packet_def zero_header_def Let_def)

lemma read_pmt_head: "ngx_ts_read_header pmt_packet = (Inr 4, \<lparr>h_pusi = True, h_cont = 0, h_rand = False, h_pcrf = False,
     h_stuff = False, h_pid = 0x1001, h_pcr = 0\<rparr>)"
  by (simp add: ngx_ts_read_header_def pmt_packet_def zero_header_def Let_def)

lemma pat_head_read: "read_section_head \<lparr>br_cl = [pat_buf], br_p = 4\<rparr> = Some (\<lparr>br_cl = [pat_buf], br_p = 8\<rparr>, 13)"
  by (simp add: read_section_head_def byte_reads pat_buf_def pat_packet_def be_nat_def)

lemma pmt_head_read: "read_section_head \<lparr>br_cl = [pmt_buf], br_p = 4\<rparr> = Some (\<lparr>br_cl = [pmt_buf], br_p = 8\<rparr>, 23)"
  by (simp add: read_section_head_def byte_reads pmt_buf_def pmt_packet_def be_nat_def)

lemma pmt_skip: "ngx_ts_byte_read_skip \<lparr>br_cl = [pmt_buf], br_p = 8\<rparr> n = (if n \<le> 180 then NGX_OK else NGX_AGAIN, 
   if n < 180 then \<lparr>br_cl = [pmt_buf], br_p = 8 + n\<rparr> else \<lparr>br_cl = [], br_p = 0\<rparr>)"
  by (simp add: byte_reads pmt_buf_def)

lemma pat_entries_read: "read_pat_entries 1 \<lparr>br_cl = [pat_buf], br_p = 13\<rparr> = [zero_program\<lparr>pr_number := 1, pr_pid := 0x1001\<rparr>]"
  by (simp add:  byte_reads pat_buf_def pat_packet_def be_nat_def)

lemma pmt_count: "count_es \<lparr>br_cl = [pmt_buf], br_p = 17\<rparr> 10 = Some 2"
  by (simp add: count_es.simps byte_reads pmt_buf_def pmt_packet_def be_nat_def)

lemma table_pos: "b_pos pat_buf = 4" "b_pos pmt_buf = 4" by (simp_all add: pat_buf_def pmt_buf_def)

lemma pat_skip: "ngx_ts_byte_read_skip \<lparr>br_cl = [pat_buf], br_p = 8\<rparr> n = (if n \<le> 180 then NGX_OK else NGX_AGAIN, 
   if n < 180 then \<lparr>br_cl = [pat_buf], br_p = 8 + n\<rparr> else \<lparr>br_cl = [], br_p = 0\<rparr>)"
  by (simp add: byte_reads pat_buf_def)

definition after_pat :: "(unit, ts_note list, unit) ngx_ts_stream" where
  "after_pat = fresh_reader\<lparr>ts_progs := [zero_program\<lparr>pr_number := 1, pr_pid := 0x1001\<rparr>], ts_world := [pat_note],
     ts_free := [pat_buf]\<rparr>"

lemma table_lengths: "length pat_packet = 188" "length pmt_packet = 188" by (simp_all add: pat_packet_def pmt_packet_def)

lemma pat_packet_read: "ngx_ts_read_pat unit_pool note_call (fresh_reader\<lparr>ts_buf := x\<rparr>) \<lparr>h_pusi = True, h_cont = 0, h_rand = False, h_pcrf = False,
     h_stuff = False, h_pid = 0, h_pcr = 0\<rparr> pat_buf = (NGX_OK, after_pat\<lparr>ts_buf := x\<rparr>)"
proof -
  have e: "read_pat_entries (Suc 0) \<lparr>br_cl = [pat_buf], br_p = 13\<rparr> = [zero_program\<lparr>pr_number := 1, pr_pid := 0x1001\<rparr>]" using pat_entries_read by (simp only: One_nat_def)
  show ?thesis
  by (simp add: ngx_ts_read_pat_def fresh_reader_def after_pat_def zero_ts_def ngx_ts_append_buf_def unit_pool_def pat_head_read pat_skip e Let_def ngx_ts_byte_read_init_def
    first_pos_def pat_note_def table_pos run_note ngx_ts_free_chain_def del: read_pat_entries.simps)
qed

definition seen_video :: ngx_ts_es where
  "seen_video = zero_es\<lparr>es_type := 0x1b, es_pid := 0x100, es_video := True\<rparr>"

definition seen_audio :: ngx_ts_es where
  "seen_audio = zero_es\<lparr>es_type := 0x0f, es_pid := 0x101, es_video := False\<rparr>"

lemma pmt_entries_read_Suc: "read_es_entries (Suc (Suc 0)) \<lparr>br_cl = [pmt_buf], br_p = 17\<rparr> = [seen_video, seen_audio]"
  by (simp add: byte_reads pmt_buf_def pmt_packet_def be_nat_def seen_video_def seen_audio_def ngx_ts_video_type_def NGX_TS_VIDEO_MPEG1_def NGX_TS_VIDEO_MPEG2_def NGX_TS_VIDEO_MPEG4_def NGX_TS_VIDEO_AVC_def)

lemma pmt_entries_read: "read_es_entries 2 \<lparr>br_cl = [pmt_buf], br_p = 17\<rparr> = [seen_video, seen_audio]"
  using pmt_entries_read_Suc by (simp only: numeral_2_eq_2)

lemma pmt_reads: "ngx_ts_byte_read16 \<lparr>br_cl = [pmt_buf], br_p = 13\<rparr> = (NGX_OK, 0xe100, \<lparr>br_cl = [pmt_buf], br_p = 15\<rparr>)"
  "ngx_ts_byte_read16 \<lparr>br_cl = [pmt_buf], br_p = 15\<rparr> = (NGX_OK, 0xf000, \<lparr>br_cl = [pmt_buf], br_p = 17\<rparr>)"
  "ngx_ts_byte_read_skip \<lparr>br_cl = [pmt_buf], br_p = 17\<rparr> 0 = (NGX_OK, \<lparr>br_cl = [pmt_buf], br_p = 17\<rparr>)"
  by (simp_all add: byte_reads pmt_buf_def pmt_packet_def be_nat_def)

definition after_pmt :: "(unit, ts_note list, unit) ngx_ts_stream" where
  "after_pmt = fresh_reader\<lparr>ts_progs := [zero_program\<lparr>pr_number := 1, pr_pid := 0x1001, pr_pcr_pid := 0x100, pr_es := [seen_video, seen_audio], pr_video := True\<rparr>],
     ts_world := [pat_note, \<lparr>n_event = NGX_TS_PMT, n_prog = Some 0, n_es = None, n_pts = 0, n_dts = 0, n_bytes = []\<rparr>],
     ts_free := [pmt_buf]\<rparr>"

lemma pmt_packet_read: "ngx_ts_read_pmt unit_pool note_call (after_pat\<lparr>ts_free := [], ts_buf := x\<rparr>) 0 \<lparr>h_pusi = True, h_cont = 0, h_rand = False, h_pcrf = False,
     h_stuff = False, h_pid = 0x1001, h_pcr = 0\<rparr> pmt_buf = (NGX_OK, after_pmt\<lparr>ts_buf := x\<rparr>)"
  by (simp add: ngx_ts_read_pmt_def fresh_reader_def after_pat_def zero_ts_def ngx_ts_append_buf_def unit_pool_def pmt_head_read pmt_skip pmt_count pmt_entries_read pmt_reads Let_def ngx_ts_byte_read_init_def
    first_pos_def pat_note_def table_pos run_note ngx_ts_free_chain_def upd_prog_def zero_program_def after_pmt_def seen_video_def seen_audio_def)

lemma pat_turn: "read_turn unit_pool note_call fresh_reader pat_packet = (NGX_OK, 188, after_pat)"
proof -
  have g: "read_get_buf unit_pool fresh_reader = (fresh_reader\<lparr>ts_buf := Some \<lparr>b_mem = replicate 188 0, b_pos = 0, b_last = 0\<rparr>\<rparr>, Some \<lparr>b_mem = replicate 188 0, b_pos = 0, b_last = 0\<rparr>)"
    by (simp add: read_get_buf_def fresh_reader_def zero_ts_def unit_pool_def NGX_TS_PACKET_SIZE_def Let_def)
  have p: "ngx_ts_read_packet unit_pool note_call (fresh_reader\<lparr>ts_buf := x\<rparr>) \<lparr>b_mem = pat_packet, b_pos = 0, b_last = 188\<rparr> = (NGX_OK, after_pat\<lparr>ts_buf := x\<rparr>)" for x
    by (simp add: ngx_ts_read_packet_def read_pat_head pat_packet_read Let_def pat_buf_def [symmetric])
  show ?thesis by (simp add: read_turn_def g buf_put_def p table_lengths) (simp add: after_pat_def fresh_reader_def zero_ts_def)
qed

lemma pmt_turn: "read_turn unit_pool note_call after_pat pmt_packet = (NGX_OK, 188, after_pmt)"
proof -
  have g: "read_get_buf unit_pool after_pat = (after_pat\<lparr>ts_free := [], ts_buf := Some \<lparr>b_mem = pat_packet, b_pos = 0, b_last = 0\<rparr>\<rparr>, Some \<lparr>b_mem = pat_packet, b_pos = 0, b_last = 0\<rparr>)"
    by (simp add: read_get_buf_def after_pat_def fresh_reader_def zero_ts_def unit_pool_def pat_buf_def Let_def)
  have p: "ngx_ts_read_packet unit_pool note_call (after_pat\<lparr>ts_free := [], ts_buf := x\<rparr>) \<lparr>b_mem = pmt_packet, b_pos = 0, b_last = 188\<rparr> = (NGX_OK, after_pmt\<lparr>ts_buf := x\<rparr>)" for x
  proof -
    have "ts_progs (after_pat\<lparr>ts_free := [], ts_buf := x\<rparr>) = [zero_program\<lparr>pr_number := 1, pr_pid := 0x1001\<rparr>]" by (simp add: after_pat_def)
    then show ?thesis by (simp add: ngx_ts_read_packet_def read_pmt_head pmt_packet_read Let_def pmt_buf_def [symmetric])
  qed
  show ?thesis by (simp add: read_turn_def g buf_put_def p table_lengths) (simp add: after_pmt_def fresh_reader_def zero_ts_def)
qed

definition table_notes :: "ts_note list" where
  "table_notes = [pat_note, \<lparr>n_event = NGX_TS_PMT, n_prog = Some 0, n_es = None, n_pts = 0, n_dts = 0, n_bytes = []\<rparr>]"

lemma header_read:
  "ts_bytes unit_pool note_call ngx_rtmp_mpegts_header fresh_reader = (NGX_OK, after_pmt)" "reader_at table_notes after_pmt"
proof -
  have ok: "pool_ok unit_pool" using pool_total_unit by (simp add: pool_total_def)
  have f: "rd_inv fresh_reader" by (simp add: rd_inv_def ts_inv_def fresh_reader_def zero_ts_def)
  have ne: "pat_packet \<noteq> []" "pmt_packet \<noteq> []" by (simp_all add: pat_packet_def pmt_packet_def)
  have 1: "ts_bytes unit_pool note_call pat_packet fresh_reader = (NGX_OK, after_pat)" "rd_inv after_pat"
    using read_turn_bytes [OF ok handlers_ok_note f ne(1) pat_turn] table_lengths by simp_all
  have 2: "ts_bytes unit_pool note_call pmt_packet after_pat = (NGX_OK, after_pmt)" "rd_inv after_pmt"
    using read_turn_bytes [OF ok handlers_ok_note 1(2) ne(2) pmt_turn] table_lengths by simp_all
  have h: "ngx_rtmp_mpegts_header = pat_packet @ pmt_packet"
    by (simp add: ngx_rtmp_mpegts_header_def pat_packet_def pmt_packet_def)
  show "ts_bytes unit_pool note_call ngx_rtmp_mpegts_header fresh_reader = (NGX_OK, after_pmt)"
    unfolding h ts_bytes_append 1(1) using 2(1) by simp
  have "ready unit_pool after_pmt" using 2(2) by (simp add: ready_def) (simp add: after_pmt_def fresh_reader_def zero_ts_def)
  then show "reader_at table_notes after_pmt"
    by (simp add: reader_at_def after_pmt_def table_notes_def pid_keys_def muxed_program_def seen_video_def seen_audio_def
        fresh_reader_def zero_ts_def zero_program_def zero_es_def)
qed

lemma frames_read:
  assumes "reader_at w ts" "\<forall>rb \<in> set rs. frame_fits rb"
  shows "\<exists>ts'. ts_bytes unit_pool note_call (concat (map (\<lambda>(r, b). concat (frame_packets r True (buf_content b))) rs)) ts
      = (NGX_OK, ts') \<and> reader_at (w @ map frame_note rs) ts'"
  using assms
proof (induction rs arbitrary: w ts)
  case (Cons rb rs)
  obtain r b where rb: "rb = (r, b)" by force
  obtain ts1 where 1: "ts_bytes unit_pool note_call (concat (frame_packets r True (buf_content b))) ts = (NGX_OK, ts1)"
    "reader_at (w @ [frame_note (r, b)]) ts1"
    using muxed_frame_read [OF Cons.prems(1), of r b] Cons.prems(2) rb by auto
  from Cons.IH [OF 1(2)] Cons.prems(2) 1(1) show ?case by (auto simp: rb ts_bytes_append)
qed simp

section \<open>Properties\<close>

text \<open>
  C2: a file written by the RTMP HLS multiplexer, with any sequence of frames of its two streams that fit the
  length field, is read by the TS module as what was written, in whatever pieces the file arrives: an association
  table, a map table, and one packet for each frame with its bytes and its two time stamps, moved by the delay.
\<close>

theorem mpegts_roundtrip:
  assumes "takes_all env content" "me_open env path = Some w" "\<not> mf_encrypt f" "\<forall>rb \<in> set rs. frame_fits rb"
  shows "\<exists>f'. mpegts_write_all env f path rs = (NGX_OK, f') \<and>
    (\<forall>inn. chain_ok inn \<and> flat inn = content (mf_fd f') \<longrightarrow>
      (\<exists>ts inn'. ngx_ts_read (Suc (length (flat inn))) unit_pool note_call fresh_reader inn = Some (NGX_OK, ts, inn') \<and>
        ts_world ts = table_notes @ map frame_note rs))"
proof -
  obtain f' where f': "mpegts_write_all env f path rs = (NGX_OK, f')" "content (mf_fd f') = mpegts_bytes rs"
    using write_all_plain [OF assms(1-3)] by blast
  obtain ts where ts: "ts_bytes unit_pool note_call (mpegts_bytes rs) fresh_reader = (NGX_OK, ts)"
    "reader_at (table_notes @ map frame_note rs) ts"
    using frames_read [OF header_read(2) assms(4)] header_read(1) by (auto simp: mpegts_bytes_def ts_bytes_append)
  have r: "ready unit_pool fresh_reader"
    by (simp add: ready_def rd_inv_def ts_inv_def fresh_reader_def zero_ts_def)
  have "\<exists>ts inn'. ngx_ts_read (Suc (length (flat inn))) unit_pool note_call fresh_reader inn = Some (NGX_OK, ts, inn') \<and>
        ts_world ts = table_notes @ map frame_note rs" if "chain_ok inn \<and> flat inn = content (mf_fd f')" for inn
    using read_any_chain [OF ts(1) r, of inn] that ts(2) f'(2) by (auto simp: reader_at_def)
  with f'(1) show ?thesis by blast
qed

theorem mpegts_roundtrip_witness:
  "\<exists>f'. mpegts_write_all memory_env fresh_file []
      [(\<lparr>mr_pts = 90000, mr_dts = 86400, mr_pid = 0x100, mr_sid = 0xe0, mr_cc = 0, mr_key = True\<rparr>, whole_buf (replicate 300 1)),
       (\<lparr>mr_pts = 90000, mr_dts = 90000, mr_pid = 0x101, mr_sid = 0xc0, mr_cc = 15, mr_key = False\<rparr>, whole_buf [2, 3])] = (NGX_OK, f') \<and>
    (\<forall>inn. chain_ok inn \<and> flat inn = mf_fd f' \<longrightarrow>
      (\<exists>ts inn'. ngx_ts_read (Suc (length (flat inn))) unit_pool note_call fresh_reader inn = Some (NGX_OK, ts, inn') \<and>
        map n_bytes (ts_world ts) = [[], [], replicate 300 1, [2, 3]] \<and> map n_pts (ts_world ts) = [0, 0, 153000, 153000]))"
proof -
  let ?rs = "[(\<lparr>mr_pts = 90000, mr_dts = 86400, mr_pid = 0x100, mr_sid = 0xe0, mr_cc = 0, mr_key = True\<rparr>, whole_buf (replicate 300 1)),
       (\<lparr>mr_pts = 90000, mr_dts = 90000, mr_pid = 0x101, mr_sid = 0xc0, mr_cc = 15, mr_key = False\<rparr>, whole_buf [2, 3])]
      :: (ngx_rtmp_mpegts_frame \<times> buf) list"
  have fit: "\<forall>rb \<in> set ?rs. frame_fits rb"
    by (simp add: frame_fits_def pes_plain_sid_def NGX_RTMP_HLS_DELAY_def)
  have o: "me_open memory_env [] = Some []" "\<not> mf_encrypt fresh_file" by (simp_all add: memory_env_def fresh_file_def)
  have n: "map n_bytes (table_notes @ map frame_note ?rs) = [[], [], replicate 300 1, [2, 3]]"
    "map n_pts (table_notes @ map frame_note ?rs) = [0, 0, 153000, 153000]"
    by (simp_all add: table_notes_def pat_note_def frame_note_def NGX_RTMP_HLS_DELAY_def)
  from mpegts_roundtrip [OF memory_env_laws(1) o fit] n show ?thesis
    by (elim exE conjE) (intro exI conjI, assumption, simp only: id_apply, metis)
qed

end
