(* ===== verification/Rtmp_Codec.thy ===== *)
theory Rtmp_Codec
  imports Ts_Codec
begin

text \<open>
  The codec headers of the RTMP side (ngx\_rtmp\_codec\_module.c): \<open>ngx_rtmp_codec_parse_avc_header\<close> reads
  an AVC configuration record and its first sequence parameter set, \<open>ngx_rtmp_codec_parse_aac_header\<close> an
  AAC configuration, each from the first buffer of a message, into the numbers of
  \<open>ngx_rtmp_codec_ctx_t\<close>.  The reader is the one of theory Bit\_Reader; its error flag is never asked
  for, so the parses are total and a header that ends early leaves zeros and garbage.  The theorem says
  that this parser and the one of the TS modules (theory Ts\_Codec) read the same picture size.
\<close>

section \<open>The context\<close>

text \<open>The numbers of the context; its strings, chains and metadata are not touched by the two parsers.\<close>

record ngx_rtmp_codec_ctx =
  cc_width :: u64
  cc_height :: u64
  cc_duration :: u64
  cc_frame_rate :: u64
  cc_video_data_rate :: u64
  cc_video_codec_id :: u64
  cc_audio_data_rate :: u64
  cc_audio_codec_id :: u64
  cc_aac_profile :: u64
  cc_aac_chan_conf :: u64
  cc_aac_sbr :: u64
  cc_aac_ps :: u64
  cc_avc_profile :: u64
  cc_avc_compat :: u64
  cc_avc_level :: u64
  cc_avc_nal_bytes :: u64
  cc_avc_ref_frames :: u64
  cc_sample_rate :: u64
  cc_sample_size :: u64
  cc_audio_channels :: u64

section \<open>The AAC header\<close>

text \<open>The frequency table has sixteen entries and \<open>idx\<close> is read from four bits.\<close>

definition aac_sample_rates :: "u64 list" where
  "aac_sample_rates =
     [96000, 88200, 64000, 48000,
      44100, 32000, 24000, 22050,
      16000, 12000, 11025,  8000,
       7350,     0,     0,     0]"

definition aac_object_type :: "avc_reader \<Rightarrow> u64 \<times> avc_reader" where
  "aac_object_type br =
     (case ngx_rtmp_bit_read br 5 of (t, br) \<Rightarrow>
      if t = 31 then (case ngx_rtmp_bit_read br 6 of (e, br) \<Rightarrow> (e + 32, br)) else (t, br))"

definition aac_rate :: "avc_reader \<Rightarrow> u64 \<times> avc_reader" where
  "aac_rate br =
     (case ngx_rtmp_bit_read br 4 of (idx, br) \<Rightarrow>
      if idx = 15 then ngx_rtmp_bit_read br 24 else (aac_sample_rates ! unat idx, br))"

definition ngx_rtmp_codec_parse_aac_header :: "bytes \<Rightarrow> ngx_rtmp_codec_ctx \<Rightarrow> ngx_rtmp_codec_ctx" where
  "ngx_rtmp_codec_parse_aac_header buf ctx =
     (case ngx_rtmp_bit_read (ngx_rtmp_bit_init_reader buf) 16 of (_, br) \<Rightarrow>
      case aac_object_type br of (t, br) \<Rightarrow>
      case aac_rate br of (rate, br) \<Rightarrow>
      case ngx_rtmp_bit_read br 4 of (chan, br) \<Rightarrow>
      let ctx = ctx\<lparr>cc_aac_profile := t, cc_sample_rate := rate, cc_aac_chan_conf := chan\<rparr> in
      if cc_aac_profile ctx = 5 \<or> cc_aac_profile ctx = 29 then
        (let ctx = (if cc_aac_profile ctx = 29 then ctx\<lparr>cc_aac_ps := 1\<rparr> else ctx) in
         case aac_rate br of (rate, br) \<Rightarrow>
         case aac_object_type br of (t, br) \<Rightarrow>
           ctx\<lparr>cc_aac_sbr := 1, cc_sample_rate := rate, cc_aac_profile := t\<rparr>)
      else ctx)"

section \<open>The AVC header\<close>

definition rtmp_high_profiles :: "u64 list" where
  "rtmp_high_profiles = [100, 110, 122, 244, 44, 83, 86, 118]"

text \<open>A scaling list that is present is not skipped: its bits are read as what follows it.\<close>

fun rtmp_scaling_lists :: "nat \<Rightarrow> avc_reader \<Rightarrow> avc_reader" where
  "rtmp_scaling_lists 0 br = br"
| "rtmp_scaling_lists (Suc n) br = rtmp_scaling_lists n (snd (ngx_rtmp_bit_read br 1))"

definition rtmp_chroma :: "(nat \<Rightarrow> u64) \<Rightarrow> avc_reader \<Rightarrow> avc_reader" where
  "rtmp_chroma ub br =
     (case ngx_rtmp_bit_read_golomb ub br of (cf_idc, br) \<Rightarrow>
      let br = (if cf_idc = 3 then snd (ngx_rtmp_bit_read br 1) else br);
          br = snd (ngx_rtmp_bit_read_golomb ub br);
          br = snd (ngx_rtmp_bit_read_golomb ub br);
          br = snd (ngx_rtmp_bit_read br 1)
      in case ngx_rtmp_bit_read br 1 of (present, br) \<Rightarrow>
         if present \<noteq> 0 then rtmp_scaling_lists (if cf_idc \<noteq> 3 then 8 else 12) br else br)"

fun rtmp_skip_golombs :: "(nat \<Rightarrow> u64) \<Rightarrow> nat \<Rightarrow> avc_reader \<Rightarrow> avc_reader" where
  "rtmp_skip_golombs ub 0 br = br"
| "rtmp_skip_golombs ub (Suc n) br = rtmp_skip_golombs ub n (snd (ngx_rtmp_bit_read_golomb ub br))"

definition rtmp_pic_order :: "(nat \<Rightarrow> u64) \<Rightarrow> avc_reader \<Rightarrow> avc_reader" where
  "rtmp_pic_order ub br =
     (case ngx_rtmp_bit_read_golomb ub br of (type, br) \<Rightarrow>
      if type = 0 then snd (ngx_rtmp_bit_read_golomb ub br)
      else if type = 1 then
        (let br = snd (ngx_rtmp_bit_read br 1);
             br = snd (ngx_rtmp_bit_read_golomb ub br);
             br = snd (ngx_rtmp_bit_read_golomb ub br)
         in case ngx_rtmp_bit_read_golomb ub br of (n, br) \<Rightarrow>
            rtmp_skip_golombs ub (unat n) br)
      else br)"

definition rtmp_cropping :: "(nat \<Rightarrow> u64) \<Rightarrow> avc_reader \<Rightarrow> u64 \<times> u64 \<times> u64 \<times> u64" where
  "rtmp_cropping ub br =
     (case ngx_rtmp_bit_read br 1 of (cropping, br) \<Rightarrow>
      if cropping \<noteq> 0 then
        (case ngx_rtmp_bit_read_golomb ub br of (l, br) \<Rightarrow>
         case ngx_rtmp_bit_read_golomb ub br of (r, br) \<Rightarrow>
         case ngx_rtmp_bit_read_golomb ub br of (t, br) \<Rightarrow>
         case ngx_rtmp_bit_read_golomb ub br of (b, br) \<Rightarrow> (l, r, t, b))
      else (0, 0, 0, 0))"

definition rtmp_frame :: "(nat \<Rightarrow> u64) \<Rightarrow> avc_reader \<Rightarrow> ngx_rtmp_codec_ctx \<Rightarrow> ngx_rtmp_codec_ctx" where
  "rtmp_frame ub br ctx =
     (case ngx_rtmp_bit_read_golomb ub br of (refs, br) \<Rightarrow>
      let br = snd (ngx_rtmp_bit_read br 1) in
      case ngx_rtmp_bit_read_golomb ub br of (width, br) \<Rightarrow>
      case ngx_rtmp_bit_read_golomb ub br of (height, br) \<Rightarrow>
      case ngx_rtmp_bit_read br 1 of (frame_mbs_only, br) \<Rightarrow>
      let br = (if frame_mbs_only = 0 then snd (ngx_rtmp_bit_read br 1) else br);
          br = snd (ngx_rtmp_bit_read br 1)
      in case rtmp_cropping ub br of (l, r, t, b) \<Rightarrow>
         ctx\<lparr>cc_avc_ref_frames := refs,
             cc_width := (width + 1) * 16 - (l + r) * 2,
             cc_height := (2 - frame_mbs_only) * (height + 1) * 16 - (t + b) * 2\<rparr>)"

text \<open>From \<open>profile idc\<close> on, after the type of the NAL unit.\<close>

definition rtmp_sps :: "(nat \<Rightarrow> u64) \<Rightarrow> avc_reader \<Rightarrow> ngx_rtmp_codec_ctx \<Rightarrow> ngx_rtmp_codec_ctx" where
  "rtmp_sps ub br ctx =
     (case ngx_rtmp_bit_read br 8 of (profile, br) \<Rightarrow>
      let br = snd (ngx_rtmp_bit_read br 8);
          br = snd (ngx_rtmp_bit_read br 8);
          br = snd (ngx_rtmp_bit_read_golomb ub br);
          br = (if profile \<in> set rtmp_high_profiles then rtmp_chroma ub br else br);
          br = snd (ngx_rtmp_bit_read_golomb ub br)
      in rtmp_frame ub (rtmp_pic_order ub br) ctx)"

definition ngx_rtmp_codec_parse_avc_header ::
    "(nat \<Rightarrow> u64) \<Rightarrow> bytes \<Rightarrow> ngx_rtmp_codec_ctx \<Rightarrow> ngx_rtmp_codec_ctx" where
  "ngx_rtmp_codec_parse_avc_header ub buf ctx =
     (case ngx_rtmp_bit_read (ngx_rtmp_bit_init_reader buf) 48 of (_, br) \<Rightarrow>
      case ngx_rtmp_bit_read br 8 of (profile, br) \<Rightarrow>
      case ngx_rtmp_bit_read br 8 of (compat_flags, br) \<Rightarrow>
      case ngx_rtmp_bit_read br 8 of (level, br) \<Rightarrow>
      case ngx_rtmp_bit_read br 8 of (nal_bytes, br) \<Rightarrow>
      let ctx = ctx\<lparr>cc_avc_profile := profile, cc_avc_compat := compat_flags, cc_avc_level := level,
                cc_avc_nal_bytes := (nal_bytes AND 0x03) + 1\<rparr> in
      case ngx_rtmp_bit_read br 8 of (nnals, br) \<Rightarrow>
      if nnals AND 0x1f = 0 then ctx
      else
        case ngx_rtmp_bit_read br 16 of (_, br) \<Rightarrow>
        case ngx_rtmp_bit_read br 8 of (type, br) \<Rightarrow>
        if type \<noteq> 0x67 then ctx
        else rtmp_sps ub br ctx)"

section \<open>Reading off the front\<close>

lemma rtmp_read_bits:
  assumes "at_bits br (xs @ ys)" "length xs = n"
  obtains br' where "ngx_rtmp_bit_read br n = (bits_val xs, br')" "at_bits br' ys"
  using rtmp.rd_app [of br xs ys] assms that by (auto simp: at_bits_def)

lemma rtmp_read_num:
  assumes "at_bits br (msb_bits n v @ ys)" "v < 2 ^ n"
  obtains br' where "ngx_rtmp_bit_read br n = (word_of_nat v, br')" "at_bits br' ys"
proof -
  have "bits_val (msb_bits n v) = word_of_nat v" using assms(2) by (simp add: bits_val_msb)
  then show ?thesis using rtmp_read_bits [OF assms(1) length_msb_bits] that by metis
qed

lemma rtmp_read_flag:
  assumes "at_bits br (b # ys)"
  obtains br' where "ngx_rtmp_bit_read br 1 = (of_bool b, br')" "at_bits br' ys"
  using rtmp.rd_bit [of br b ys] assms that by (auto simp: at_bits_def)

lemma rtmp_opt_flag:
  assumes "at_bits br ((if c then [b] else []) @ ys)"
  shows "at_bits (if c then snd (ngx_rtmp_bit_read br 1) else br) ys"
proof (cases c)
  case True
  then have "at_bits br (b # ys)" using assms by simp
  from rtmp_read_flag [OF this] obtain b1 where "ngx_rtmp_bit_read br 1 = (of_bool b, b1)" "at_bits b1 ys" .
  then show ?thesis using True by simp
qed (use assms in simp)

lemma rtmp_read_ue:
  assumes "at_bits br (ue_bits v @ ys)" "ue_ok v"
  obtains br' where "ngx_rtmp_bit_read_golomb ub br = (word_of_nat v, br')" "at_bits br' ys"
  using bit_read_golomb_decodes [of br v ys ub] assms that by (auto simp: at_bits_def)

lemma rtmp_scaling_read:
  "at_bits br (matrix_bits ls @ ys) \<Longrightarrow> \<not> list_ex (\<lambda>l. l \<noteq> None) ls \<Longrightarrow> at_bits (rtmp_scaling_lists (length ls) br) ys"
proof (induction ls arbitrary: br)
  case (Cons l ls)
  then have "l = None" by simp
  with Cons.prems obtain b where "ngx_rtmp_bit_read br 1 = (0, b)" "at_bits b (matrix_bits ls @ ys)"
    using rtmp_read_flag [of br False "matrix_bits ls @ ys"] by auto
  with Cons.IH [of b] Cons.prems(2) show ?case by simp
qed simp

lemma rtmp_skip_read:
  "at_bits br (concat (map se_bits vs) @ ys) \<Longrightarrow> list_all ue_ok (map se_code vs) \<Longrightarrow>
   at_bits (rtmp_skip_golombs ub (length vs) br) ys"
proof (induction vs arbitrary: br)
  case (Cons v vs)
  from Cons.prems obtain b where "ngx_rtmp_bit_read_golomb ub br = (word_of_nat (se_code v), b)"
    "at_bits b (concat (map se_bits vs) @ ys)"
    using rtmp_read_ue [of br "se_code v" "concat (map se_bits vs) @ ys" ub] by auto
  with Cons show ?case by simp
qed simp

lemma rtmp_chroma_read:
  assumes "at_bits br (chroma_bits s @ ys)" "sps_ok s" "sps_high s" "\<not> has_lists s"
  shows "at_bits (rtmp_chroma ub br) ys"
proof -
  have ok: "ue_ok (s_chroma s)" "ue_ok (s_luma s)" "ue_ok (s_depth s)"
    using assms(2) by (simp_all add: sps_ok_def)
  have is3: "(word_of_nat (s_chroma s) :: u64) = 3 \<longleftrightarrow> s_chroma s = 3"
    using ue_word_eq [OF ok(1), of 3] by simp
  let ?m = "case s_scaling s of None \<Rightarrow> ys | Some ls \<Rightarrow> matrix_bits ls @ ys"
  let ?tail = "ue_bits (s_luma s) @ ue_bits (s_depth s) @ s_qpprime s # (s_scaling s \<noteq> None) # ?m"
  have "at_bits br (ue_bits (s_chroma s) @ (if s_chroma s = 3 then [s_residual s] else []) @ ?tail)"
    using assms(1) by (cases "s_scaling s") (simp_all add: chroma_bits_def)
  from rtmp_read_ue [OF this ok(1)] obtain b1 where
    1: "ngx_rtmp_bit_read_golomb ub br = (word_of_nat (s_chroma s), b1)"
      "at_bits b1 ((if s_chroma s = 3 then [s_residual s] else []) @ ?tail)" .
  have "at_bits (if s_chroma s = 3 then snd (ngx_rtmp_bit_read b1 1) else b1) ?tail" (is "at_bits ?b2 _")
    using 1(2) by (rule rtmp_opt_flag)
  from rtmp_read_ue [OF this ok(2)] obtain b3 where 3: "ngx_rtmp_bit_read_golomb ub ?b2 = (word_of_nat (s_luma s), b3)"
      "at_bits b3 (ue_bits (s_depth s) @ s_qpprime s # (s_scaling s \<noteq> None) # ?m)" .
  from rtmp_read_ue [OF 3(2) ok(3)] obtain b4 where 4: "ngx_rtmp_bit_read_golomb ub b3 = (word_of_nat (s_depth s), b4)"
      "at_bits b4 (s_qpprime s # (s_scaling s \<noteq> None) # ?m)" .
  from rtmp_read_flag [OF 4(2)] obtain b5 where 5: "ngx_rtmp_bit_read b4 1 = (of_bool (s_qpprime s), b5)"
      "at_bits b5 ((s_scaling s \<noteq> None) # ?m)" .
  from rtmp_read_flag [OF 5(2)] obtain b6 where 6: "ngx_rtmp_bit_read b5 1 = (of_bool (s_scaling s \<noteq> None), b6)"
      "at_bits b6 ?m" .
  have run: "rtmp_chroma ub br =
      (if s_scaling s \<noteq> None then rtmp_scaling_lists (if s_chroma s \<noteq> 3 then 8 else 12) b6 else b6)"
    unfolding rtmp_chroma_def by (simp only: 1(1) case_prod_conv is3 Let_def 3(1) 4(1) 5(1) 6(1) snd_conv) simp
  show ?thesis
  proof (cases "s_scaling s")
    case None
    then show ?thesis using 6(2) run by simp
  next
    case (Some ls)
    then have "\<not> list_ex (\<lambda>l. l \<noteq> None) ls" using assms(3,4) by (simp add: has_lists_def)
    then have "at_bits (rtmp_scaling_lists (length ls) b6) ys" using rtmp_scaling_read 6(2) Some by simp
    then show ?thesis using run Some matrix_length [OF assms(2) Some] by simp
  qed
qed

lemma rtmp_poc_read:
  assumes "at_bits br (poc_bits s @ ys)" "sps_ok s"
  shows "at_bits (rtmp_pic_order ub br) ys"
proof -
  have ok: "ue_ok (s_poc_type s)" "ue_ok (s_log2_poc s)" "ue_ok (se_code (s_non_ref s))" "ue_ok (se_code (s_top_bottom s))"
    "ue_ok (length (s_cycle s))" "list_all ue_ok (map se_code (s_cycle s))"
    using assms(2) by (simp_all add: sps_ok_def)
  have is01: "(word_of_nat (s_poc_type s) :: u64) = 0 \<longleftrightarrow> s_poc_type s = 0"
    "(word_of_nat (s_poc_type s) :: u64) = 1 \<longleftrightarrow> s_poc_type s = 1"
    using ue_word_eq [OF ok(1), of 0] ue_word_eq [OF ok(1), of 1] by simp_all
  have cycle: "unat (word_of_nat (length (s_cycle s)) :: u64) = length (s_cycle s)"
    using ue_less [OF ok(5)] by (simp add: unsigned_of_nat take_bit_nat_eq_self)
  let ?body = "if s_poc_type s = 0 then ue_bits (s_log2_poc s)
      else if s_poc_type s = 1 then
        s_delta_zero s # se_bits (s_non_ref s) @ se_bits (s_top_bottom s) @
        ue_bits (length (s_cycle s)) @ concat (map se_bits (s_cycle s))
      else []"
  have "at_bits br (ue_bits (s_poc_type s) @ ?body @ ys)"
    using assms(1) by (simp add: poc_bits_def)
  from rtmp_read_ue [OF this ok(1)] obtain b1 where
    1: "ngx_rtmp_bit_read_golomb ub br = (word_of_nat (s_poc_type s), b1)" "at_bits b1 (?body @ ys)" .
  consider (zero) "s_poc_type s = 0" | (one) "s_poc_type s = 1" | (other) "s_poc_type s \<notin> {0, 1}"
    by auto
  then show ?thesis
  proof cases
    case zero
    with 1(2) have "at_bits b1 (ue_bits (s_log2_poc s) @ ys)" by simp
    from rtmp_read_ue [OF this ok(2)] obtain b2 where
      "ngx_rtmp_bit_read_golomb ub b1 = (word_of_nat (s_log2_poc s), b2)" "at_bits b2 ys" .
    then show ?thesis using zero by (simp add: rtmp_pic_order_def 1(1))
  next
    case one
    with 1(2) have "at_bits b1 (s_delta_zero s # se_bits (s_non_ref s) @ se_bits (s_top_bottom s) @
        ue_bits (length (s_cycle s)) @ concat (map se_bits (s_cycle s)) @ ys)" by simp
    from rtmp_read_flag [OF this] obtain b2 where 2: "ngx_rtmp_bit_read b1 1 = (of_bool (s_delta_zero s), b2)"
      "at_bits b2 (se_bits (s_non_ref s) @ se_bits (s_top_bottom s) @
        ue_bits (length (s_cycle s)) @ concat (map se_bits (s_cycle s)) @ ys)" .
    from rtmp_read_ue [OF 2(2) ok(3)] obtain b3 where
      3: "ngx_rtmp_bit_read_golomb ub b2 = (word_of_nat (se_code (s_non_ref s)), b3)"
      "at_bits b3 (se_bits (s_top_bottom s) @ ue_bits (length (s_cycle s)) @ concat (map se_bits (s_cycle s)) @ ys)" .
    from rtmp_read_ue [OF 3(2) ok(4)] obtain b4 where
      4: "ngx_rtmp_bit_read_golomb ub b3 = (word_of_nat (se_code (s_top_bottom s)), b4)"
      "at_bits b4 (ue_bits (length (s_cycle s)) @ concat (map se_bits (s_cycle s)) @ ys)" .
    from rtmp_read_ue [OF 4(2) ok(5)] obtain b5 where
      5: "ngx_rtmp_bit_read_golomb ub b4 = (word_of_nat (length (s_cycle s)), b5)"
      "at_bits b5 (concat (map se_bits (s_cycle s)) @ ys)" .
    have "rtmp_pic_order ub br = rtmp_skip_golombs ub (length (s_cycle s)) b5"
      unfolding rtmp_pic_order_def
      by (simp only: 1(1) case_prod_conv is01 one Let_def 2(1) 3(1) 4(1) 5(1) snd_conv cycle) simp
    then show ?thesis using rtmp_skip_read [OF 5(2) ok(6)] by simp
  next
    case other
    then show ?thesis using 1(2) by (simp add: rtmp_pic_order_def 1(1) is01)
  qed
qed

section \<open>The picture\<close>

lemma rtmp_crop_read:
  assumes "at_bits br (crop_bits s @ ys)" "sps_ok s"
  shows "rtmp_cropping ub br =
    (case sps_crop s of (l, r, t, b) \<Rightarrow> (word_of_nat l, word_of_nat r, word_of_nat t, word_of_nat b))"
proof (cases "s_crop s")
  case None
  with assms(1) have "at_bits br (False # ys)" by (simp add: crop_bits_def)
  from rtmp_read_flag [OF this] obtain b1 where "ngx_rtmp_bit_read br 1 = (of_bool False, b1)" .
  then show ?thesis by (simp add: rtmp_cropping_def sps_crop_def None)
next
  case (Some q)
  obtain l r t b where q: "q = (l, r, t, b)" by (metis prod.collapse)
  have ok: "ue_ok l" "ue_ok r" "ue_ok t" "ue_ok b"
    using assms(2) by (simp_all add: sps_ok_def Some q)
  from assms(1) have "at_bits br (True # ue_bits l @ ue_bits r @ ue_bits t @ ue_bits b @ ys)"
    by (simp add: crop_bits_def Some q)
  from rtmp_read_flag [OF this] obtain b1 where 1: "ngx_rtmp_bit_read br 1 = (of_bool True, b1)"
    "at_bits b1 (ue_bits l @ ue_bits r @ ue_bits t @ ue_bits b @ ys)" .
  from rtmp_read_ue [OF 1(2) ok(1)] obtain b2 where 2: "ngx_rtmp_bit_read_golomb ub b1 = (word_of_nat l, b2)"
    "at_bits b2 (ue_bits r @ ue_bits t @ ue_bits b @ ys)" .
  from rtmp_read_ue [OF 2(2) ok(2)] obtain b3 where 3: "ngx_rtmp_bit_read_golomb ub b2 = (word_of_nat r, b3)"
    "at_bits b3 (ue_bits t @ ue_bits b @ ys)" .
  from rtmp_read_ue [OF 3(2) ok(3)] obtain b4 where 4: "ngx_rtmp_bit_read_golomb ub b3 = (word_of_nat t, b4)"
    "at_bits b4 (ue_bits b @ ys)" .
  from rtmp_read_ue [OF 4(2) ok(4)] obtain b5 where 5: "ngx_rtmp_bit_read_golomb ub b4 = (word_of_nat b, b5)" .
  show ?thesis
    unfolding rtmp_cropping_def
    by (simp only: 1(1) 2(1) 3(1) 4(1) 5 case_prod_conv) (simp add: sps_crop_def Some q)
qed

text \<open>The size of the picture and the reference frames as the set says them.\<close>

definition sps_size_ctx :: "sps \<Rightarrow> ngx_rtmp_codec_ctx \<Rightarrow> ngx_rtmp_codec_ctx" where
  "sps_size_ctx s ctx =
     (case sps_crop s of (l, r, t, b) \<Rightarrow>
        ctx\<lparr>cc_avc_ref_frames := word_of_nat (s_refs s),
            cc_width := word_of_int (16 * (int (s_width s) + 1) - 2 * (int l + int r)),
            cc_height := word_of_int ((if s_mbs_only s then 16 else 32) * (int (s_height s) + 1)
              - 2 * (int t + int b))\<rparr>)"

lemma rtmp_frame_read:
  assumes "at_bits br (frame_bits s @ crop_bits s @ ys)" "sps_ok s"
  shows "rtmp_frame ub br ctx = sps_size_ctx s ctx"
proof -
  have ok: "ue_ok (s_refs s)" "ue_ok (s_width s)" "ue_ok (s_height s)"
    using assms(2) by (simp_all add: sps_ok_def)
  let ?ad = "if s_mbs_only s then [] else [s_adaptive s]"
  let ?tail = "s_direct s # crop_bits s @ ys"
  have "at_bits br (ue_bits (s_refs s) @ s_gaps s # ue_bits (s_width s) @ ue_bits (s_height s) @
      s_mbs_only s # ?ad @ ?tail)"
    using assms(1) by (simp add: frame_bits_def)
  from rtmp_read_ue [OF this ok(1)] obtain b1 where 1: "ngx_rtmp_bit_read_golomb ub br = (word_of_nat (s_refs s), b1)"
    "at_bits b1 (s_gaps s # ue_bits (s_width s) @ ue_bits (s_height s) @ s_mbs_only s # ?ad @ ?tail)" .
  from rtmp_read_flag [OF 1(2)] obtain b2 where 2: "ngx_rtmp_bit_read b1 1 = (of_bool (s_gaps s), b2)"
    "at_bits b2 (ue_bits (s_width s) @ ue_bits (s_height s) @ s_mbs_only s # ?ad @ ?tail)" .
  from rtmp_read_ue [OF 2(2) ok(2)] obtain b3 where 3: "ngx_rtmp_bit_read_golomb ub b2 = (word_of_nat (s_width s), b3)"
    "at_bits b3 (ue_bits (s_height s) @ s_mbs_only s # ?ad @ ?tail)" .
  from rtmp_read_ue [OF 3(2) ok(3)] obtain b4 where 4: "ngx_rtmp_bit_read_golomb ub b3 = (word_of_nat (s_height s), b4)"
    "at_bits b4 (s_mbs_only s # ?ad @ ?tail)" .
  from rtmp_read_flag [OF 4(2)] obtain b5 where 5: "ngx_rtmp_bit_read b4 1 = (of_bool (s_mbs_only s), b5)"
    "at_bits b5 (?ad @ ?tail)" .
  have field: "(of_bool (s_mbs_only s) :: u64) = 0 \<longleftrightarrow> \<not> s_mbs_only s" by simp
  have "?ad = (if \<not> s_mbs_only s then [s_adaptive s] else [])" by simp
  with 5(2) have "at_bits b5 ((if \<not> s_mbs_only s then [s_adaptive s] else []) @ ?tail)" by (simp only:)
  then have "at_bits (if \<not> s_mbs_only s then snd (ngx_rtmp_bit_read b5 1) else b5) ?tail" (is "at_bits ?b6 _")
    by (rule rtmp_opt_flag)
  from rtmp_read_flag [OF this] obtain b7 where 7: "ngx_rtmp_bit_read ?b6 1 = (of_bool (s_direct s), b7)"
    "at_bits b7 (crop_bits s @ ys)" .
  obtain l r t b where q: "sps_crop s = (l, r, t, b)" by (metis prod.collapse)
  have "rtmp_frame ub br ctx = ctx\<lparr>cc_avc_ref_frames := word_of_nat (s_refs s),
      cc_width := (word_of_nat (s_width s) + 1) * 16 - (word_of_nat l + word_of_nat r) * 2,
      cc_height := (2 - of_bool (s_mbs_only s)) * (word_of_nat (s_height s) + 1) * 16
        - (word_of_nat t + word_of_nat b) * 2\<rparr>"
    unfolding rtmp_frame_def
    by (simp only: 1(1) 2(1) 3(1) 4(1) 5(1) field 7(1) Let_def case_prod_conv snd_conv
        rtmp_crop_read [OF 7(2) assms(2)] q)
  then show ?thesis by (simp add: sps_size_ctx_def q algebra_simps)
qed

lemma rtmp_high_iff:
  assumes "s_profile s < 256" "s_profile s \<noteq> 135" "s_profile s \<notin> {128, 138, 139, 134}"
  shows "(word_of_nat (s_profile s) :: u64) \<in> set rtmp_high_profiles \<longleftrightarrow> sps_high s"
proof -
  have "(word_of_nat (s_profile s) :: u64) = word_of_nat k \<longleftrightarrow> s_profile s = k" if "k < 256" for k
    using assms that by (auto simp: word_of_nat_eq_iff take_bit_nat_eq_self)
  from this [of 100] this [of 110] this [of 122] this [of 244] this [of 44] this [of 83] this [of 86]
    this [of 118]
  show ?thesis using assms(2,3) by (simp add: rtmp_high_profiles_def sps_high_def)
qed

lemma rtmp_sps_read:
  assumes "at_bits br (msb_bits 8 (s_profile s) @ msb_bits 8 (s_constraints s) @
      msb_bits 8 (s_level s) @ ue_bits (s_id s) @ (if sps_high s then chroma_bits s else []) @
      ue_bits (s_log2_frame s) @ poc_bits s @ frame_bits s @ crop_bits s @ ys)"
    and "sps_ok s" "s_profile s \<notin> {128, 138, 139, 134}" "\<not> has_lists s"
  shows "rtmp_sps ub br ctx = sps_size_ctx s ctx"
proof -
  have ok: "s_profile s < 2 ^ 8" "s_constraints s < 2 ^ 8" "s_level s < 2 ^ 8"
    "ue_ok (s_id s)" "ue_ok (s_log2_frame s)" "s_profile s < 256" "s_profile s \<noteq> 135"
    using assms(2) by (simp_all add: sps_ok_def)
  let ?tail = "ue_bits (s_log2_frame s) @ poc_bits s @ frame_bits s @ crop_bits s @ ys"
  let ?ch = "if sps_high s then chroma_bits s else []"
  from rtmp_read_num [OF assms(1) ok(1)] obtain b1 where 1: "ngx_rtmp_bit_read br 8 = (word_of_nat (s_profile s), b1)"
    "at_bits b1 (msb_bits 8 (s_constraints s) @ msb_bits 8 (s_level s) @ ue_bits (s_id s) @ ?ch @ ?tail)" .
  from rtmp_read_num [OF 1(2) ok(2)] obtain b2 where 2: "ngx_rtmp_bit_read b1 8 = (word_of_nat (s_constraints s), b2)"
    "at_bits b2 (msb_bits 8 (s_level s) @ ue_bits (s_id s) @ ?ch @ ?tail)" .
  from rtmp_read_num [OF 2(2) ok(3)] obtain b3 where 3: "ngx_rtmp_bit_read b2 8 = (word_of_nat (s_level s), b3)"
    "at_bits b3 (ue_bits (s_id s) @ ?ch @ ?tail)" .
  from rtmp_read_ue [OF 3(2) ok(4)] obtain b4 where 4: "ngx_rtmp_bit_read_golomb ub b3 = (word_of_nat (s_id s), b4)"
    "at_bits b4 (?ch @ ?tail)" .
  have "at_bits (if sps_high s then rtmp_chroma ub b4 else b4) ?tail" (is "at_bits ?b5 _")
  proof (cases "sps_high s")
    case True
    with 4(2) have "at_bits b4 (chroma_bits s @ ?tail)" by (simp only: if_True)
    from rtmp_chroma_read [OF this assms(2) True assms(4)] show ?thesis using True by (simp only: if_True)
  qed (use 4(2) in simp)
  from rtmp_read_ue [OF this ok(5)] obtain b6 where 6: "ngx_rtmp_bit_read_golomb ub ?b5 = (word_of_nat (s_log2_frame s), b6)"
    "at_bits b6 (poc_bits s @ frame_bits s @ crop_bits s @ ys)" .
  from rtmp_frame_read [OF rtmp_poc_read [OF 6(2) assms(2)] assms(2)] show ?thesis
    unfolding rtmp_sps_def
    by (simp only: 1(1) 2(1) 3(1) 4(1) 6(1) case_prod_conv snd_conv Let_def rtmp_high_iff [OF ok(6,7) assms(3)])
qed

text \<open>What the TS modules say of the same set.\<close>

lemma sps_fields_size:
  "sps_size_ctx s ctx = ctx\<lparr>cc_avc_ref_frames := num_ref_frames (avc_set_size (sps_fields s)),
     cc_width := avc_width (avc_set_size (sps_fields s)), cc_height := avc_height (avc_set_size (sps_fields s))\<rparr>"
proof -
  have "num_ref_frames (sps_fields s) = word_of_nat (s_refs s)"
    by (auto simp: sps_fields_def crop_params_def frame_params_def Let_def split: option.splits prod.splits)
  then show ?thesis by (auto simp: fields_size sps_size_ctx_def split: prod.splits)
qed

section \<open>Whole headers\<close>

lemma bits_val_byte: "bits_val (byte_bits_msb b) = ucast b"
proof (rule bit_word_eqI)
  fix n
  have "bit (bits_val (byte_bits_msb b)) n \<longleftrightarrow> n < 64 \<and> n < 8 \<and> byte_bits_msb b ! (7 - n)"
    by (simp add: bit_bits_val)
  also have "\<dots> \<longleftrightarrow> n < 8 \<and> bit b n" by (auto simp: byte_bits_nth)
  finally show "bit (bits_val (byte_bits_msb b)) n \<longleftrightarrow> bit (ucast b :: u64) n"
    by (auto simp: bit_ucast_iff dest: bit_imp_le_length)
qed

lemma bits_of_bytes_append: "bits_of_bytes (xs @ ys) = bits_of_bytes xs @ bits_of_bytes ys"
  by (simp add: bits_of_bytes_def)

lemma rtmp_read_byte:
  assumes "at_bits br (byte_bits_msb b @ ys)"
  obtains br' where "ngx_rtmp_bit_read br 8 = (ucast b, br')" "at_bits br' ys"
  using rtmp_read_bits [OF assms length_byte_bits] that by (metis bits_val_byte)

lemma rtmp_init_at: "at_bits (ngx_rtmp_bit_init_reader buf) (bits_of_bytes buf)"
  by (simp add: at_bits_def ngx_rtmp_bit_init_reader_def reader_good_def reader_bits_def)

text \<open>The AVC header up to the set: six bytes of tag and version, the five of the record, the length.\<close>

lemma avc_header_read:
  assumes "bits_of_bytes buf = msb_bits 8 0x67 @ ys"
    and "length pre = 6" "length sz = 2" "(ucast nnals :: u64) AND 0x1f \<noteq> 0"
  obtains br where "at_bits br ys"
    "ngx_rtmp_codec_parse_avc_header ub (pre @ [profile, compat_flags, level, nal_bytes, nnals] @ sz @ buf) ctx =
     rtmp_sps ub br (ctx\<lparr>cc_avc_profile := ucast profile, cc_avc_compat := ucast compat_flags,
       cc_avc_level := ucast level, cc_avc_nal_bytes := (ucast nal_bytes AND 0x03) + 1\<rparr>)"
proof -
  let ?buf = "pre @ [profile, compat_flags, level, nal_bytes, nnals] @ sz @ buf"
  let ?t = "bits_of_bytes sz @ msb_bits 8 0x67 @ ys"
  have "at_bits (ngx_rtmp_bit_init_reader ?buf) (bits_of_bytes pre @ byte_bits_msb profile @
      byte_bits_msb compat_flags @ byte_bits_msb level @ byte_bits_msb nal_bytes @ byte_bits_msb nnals @ ?t)"
    using rtmp_init_at [of ?buf] assms(1) by (simp add: bits_of_bytes_append)
  from rtmp_read_bits [OF this, of 48] assms(2) obtain b0 where
    0: "ngx_rtmp_bit_read (ngx_rtmp_bit_init_reader ?buf) 48 = (bits_val (bits_of_bytes pre), b0)"
    "at_bits b0 (byte_bits_msb profile @ byte_bits_msb compat_flags @ byte_bits_msb level @
      byte_bits_msb nal_bytes @ byte_bits_msb nnals @ ?t)" by auto
  from rtmp_read_byte [OF 0(2)] obtain b1 where 1: "ngx_rtmp_bit_read b0 8 = (ucast profile, b1)"
    "at_bits b1 (byte_bits_msb compat_flags @ byte_bits_msb level @ byte_bits_msb nal_bytes @ byte_bits_msb nnals @ ?t)" .
  from rtmp_read_byte [OF 1(2)] obtain b2 where 2: "ngx_rtmp_bit_read b1 8 = (ucast compat_flags, b2)"
    "at_bits b2 (byte_bits_msb level @ byte_bits_msb nal_bytes @ byte_bits_msb nnals @ ?t)" .
  from rtmp_read_byte [OF 2(2)] obtain b3 where 3: "ngx_rtmp_bit_read b2 8 = (ucast level, b3)"
    "at_bits b3 (byte_bits_msb nal_bytes @ byte_bits_msb nnals @ ?t)" .
  from rtmp_read_byte [OF 3(2)] obtain b4 where 4: "ngx_rtmp_bit_read b3 8 = (ucast nal_bytes, b4)"
    "at_bits b4 (byte_bits_msb nnals @ ?t)" .
  from rtmp_read_byte [OF 4(2)] obtain b5 where 5: "ngx_rtmp_bit_read b4 8 = (ucast nnals, b5)"
    "at_bits b5 ?t" .
  from rtmp_read_bits [OF 5(2), of 16] assms(3) obtain b6 where
    6: "ngx_rtmp_bit_read b5 16 = (bits_val (bits_of_bytes sz), b6)" "at_bits b6 (msb_bits 8 0x67 @ ys)"
    by auto
  from rtmp_read_num [OF 6(2)] obtain b7 where 7: "ngx_rtmp_bit_read b6 8 = (0x67, b7)" "at_bits b7 ys"
    by auto
  have "ngx_rtmp_codec_parse_avc_header ub ?buf ctx =
      rtmp_sps ub b7 (ctx\<lparr>cc_avc_profile := ucast profile, cc_avc_compat := ucast compat_flags,
       cc_avc_level := ucast level, cc_avc_nal_bytes := (ucast nal_bytes AND 0x03) + 1\<rparr>)"
    unfolding ngx_rtmp_codec_parse_avc_header_def
    by (simp only: 0(1) 1(1) 2(1) 3(1) 4(1) 5(1) 6(1) 7(1) case_prod_conv Let_def assms(4) if_False not_True_eq_False)
      simp
  with 7(2) show ?thesis by (rule that)
qed




section \<open>AAC configurations\<close>

text \<open>
  AudioSpecificConfig of ISO 14496-3: an object type, with the escape 31; a frequency, by its index or
  behind the index 15 in full; a channel configuration; and, for the object types 5 and 29 of spectral
  band replication, the frequency of the output and the object type of the core.
\<close>

definition object_bits :: "nat \<Rightarrow> bool list" where
  "object_bits t = (if t < 31 then msb_bits 5 t else msb_bits 5 31 @ msb_bits 6 (t - 32))"

definition object_ok :: "nat \<Rightarrow> bool" where
  "object_ok t \<longleftrightarrow> t < 96 \<and> t \<noteq> 31"

datatype rate = Rate_Index nat | Rate_Hz nat

fun rate_bits :: "rate \<Rightarrow> bool list" where
  "rate_bits (Rate_Index i) = msb_bits 4 i"
| "rate_bits (Rate_Hz h) = msb_bits 4 15 @ msb_bits 24 h"

fun rate_ok :: "rate \<Rightarrow> bool" where
  "rate_ok (Rate_Index i) \<longleftrightarrow> i < 15"
| "rate_ok (Rate_Hz h) \<longleftrightarrow> h < 2 ^ 24"

fun rate_hz :: "rate \<Rightarrow> u64" where
  "rate_hz (Rate_Index i) = aac_sample_rates ! i"
| "rate_hz (Rate_Hz h) = word_of_nat h"

definition asc_bits :: "nat \<Rightarrow> rate \<Rightarrow> nat \<Rightarrow> (rate \<times> nat) option \<Rightarrow> bool list" where
  "asc_bits t r c ext = object_bits t @ rate_bits r @ msb_bits 4 c @
     (case ext of None \<Rightarrow> [] | Some (r', t') \<Rightarrow> rate_bits r' @ object_bits t')"

lemma small_word_eq: "a < 2 ^ 64 \<Longrightarrow> b < 2 ^ 64 \<Longrightarrow> (word_of_nat a :: u64) = word_of_nat b \<longleftrightarrow> a = b"
  by (simp add: word_of_nat_eq_iff take_bit_nat_eq_self)

lemma aac_object_read:
  assumes "at_bits br (object_bits t @ ys)" "object_ok t"
  obtains br' where "aac_object_type br = (word_of_nat t, br')" "at_bits br' ys"
proof (cases "t < 31")
  case True
  with assms(1) have at: "at_bits br (msb_bits 5 t @ ys)" by (simp add: object_bits_def)
  have "t < 2 ^ 5" using True by simp
  from rtmp_read_num [OF at this] obtain b where b: "ngx_rtmp_bit_read br 5 = (word_of_nat t, b)" "at_bits b ys" .
  have "(word_of_nat t :: u64) \<noteq> 31" using small_word_eq [of t 31] True by simp
  with b that show ?thesis by (simp add: aac_object_type_def)
next
  case False
  with assms(1) have at: "at_bits br (msb_bits 5 31 @ msb_bits 6 (t - 32) @ ys)" by (simp add: object_bits_def)
  have small: "t - 32 < 2 ^ 6" and t: "t = (t - 32) + 32"
    using assms(2) False by (auto simp: object_ok_def)
  from rtmp_read_num [OF at] obtain b where b: "ngx_rtmp_bit_read br 5 = (31, b)"
    "at_bits b (msb_bits 6 (t - 32) @ ys)" by auto
  from rtmp_read_num [OF b(2) small] obtain b' where b': "ngx_rtmp_bit_read b 6 = (word_of_nat (t - 32), b')"
    "at_bits b' ys" .
  have "(word_of_nat (t - 32) :: u64) + 32 = word_of_nat t" by (subst (2) t) simp
  with b b' that show ?thesis by (simp add: aac_object_type_def)
qed

lemma aac_rate_read:
  assumes "at_bits br (rate_bits r @ ys)" "rate_ok r"
  obtains br' where "aac_rate br = (rate_hz r, br')" "at_bits br' ys"
proof (cases r)
  case (Rate_Index i)
  with assms have i: "i < 15" "at_bits br (msb_bits 4 i @ ys)" by simp_all
  then have "i < 2 ^ 4" by simp
  from rtmp_read_num [OF i(2) this] obtain b where b: "ngx_rtmp_bit_read br 4 = (word_of_nat i, b)" "at_bits b ys" .
  have "(word_of_nat i :: u64) \<noteq> 15" using small_word_eq [of i 15] i(1) by simp
  moreover have "unat (word_of_nat i :: u64) = i"
    using i(1) by (simp add: unsigned_of_nat take_bit_nat_eq_self)
  ultimately show ?thesis using b Rate_Index that by (simp add: aac_rate_def)
next
  case (Rate_Hz h)
  with assms have h: "h < 2 ^ 24" "at_bits br (msb_bits 4 15 @ msb_bits 24 h @ ys)" by simp_all
  from rtmp_read_num [OF h(2)] obtain b where b: "ngx_rtmp_bit_read br 4 = (15, b)"
    "at_bits b (msb_bits 24 h @ ys)" by auto
  from rtmp_read_num [OF b(2) h(1)] obtain b' where "ngx_rtmp_bit_read b 24 = (word_of_nat h, b')" "at_bits b' ys" .
  with b Rate_Hz that show ?thesis by (simp add: aac_rate_def)
qed

text \<open>
  C40: \<open>ngx_rtmp_codec_parse_aac_header\<close> stores what an AAC configuration says, for each object type, each
  way to write a frequency, and with or without spectral band replication, whose output frequency and
  core object type replace the ones before; parametric stereo is noted for the object type 29 only.
\<close>

theorem aac_header_reads:
  assumes "bits_of_bytes buf = bits_of_bytes pre @ asc_bits t r c ext @ ys" "length pre = 2"
    and "object_ok t" "rate_ok r" "c < 16" "(t \<in> {5, 29}) = (ext \<noteq> None)"
    and "case ext of None \<Rightarrow> True | Some (r', t') \<Rightarrow> rate_ok r' \<and> object_ok t'"
  shows "ngx_rtmp_codec_parse_aac_header buf ctx =
    (let ctx = ctx\<lparr>cc_aac_chan_conf := word_of_nat c\<rparr> in
     case ext of
       None \<Rightarrow> ctx\<lparr>cc_aac_profile := word_of_nat t, cc_sample_rate := rate_hz r\<rparr>
     | Some (r', t') \<Rightarrow> ctx\<lparr>cc_aac_profile := word_of_nat t', cc_sample_rate := rate_hz r', cc_aac_sbr := 1,
         cc_aac_ps := (if t = 29 then 1 else cc_aac_ps ctx)\<rparr>)"
proof -
  let ?ext = "(case ext of None \<Rightarrow> [] | Some (r', t') \<Rightarrow> rate_bits r' @ object_bits t') @ ys"
  have "at_bits (ngx_rtmp_bit_init_reader buf)
      (bits_of_bytes pre @ object_bits t @ rate_bits r @ msb_bits 4 c @ ?ext)"
    using rtmp_init_at [of buf] assms(1) by (simp add: asc_bits_def)
  from rtmp_read_bits [OF this, of 16] assms(2) obtain b0 where
    0: "ngx_rtmp_bit_read (ngx_rtmp_bit_init_reader buf) 16 = (bits_val (bits_of_bytes pre), b0)"
    "at_bits b0 (object_bits t @ rate_bits r @ msb_bits 4 c @ ?ext)" by auto
  from aac_object_read [OF 0(2) assms(3)] obtain b1 where 1: "aac_object_type b0 = (word_of_nat t, b1)"
    "at_bits b1 (rate_bits r @ msb_bits 4 c @ ?ext)" .
  from aac_rate_read [OF 1(2) assms(4)] obtain b2 where 2: "aac_rate b1 = (rate_hz r, b2)"
    "at_bits b2 (msb_bits 4 c @ ?ext)" .
  have "c < 2 ^ 4" using assms(5) by simp
  from rtmp_read_num [OF 2(2) this] obtain b3 where 3: "ngx_rtmp_bit_read b2 4 = (word_of_nat c, b3)"
    "at_bits b3 ?ext" .
  have t64: "t < 2 ^ 64" using assms(3) by (simp add: object_ok_def)
  have t5: "(word_of_nat t :: u64) = 5 \<longleftrightarrow> t = 5" and t29: "(word_of_nat t :: u64) = 29 \<longleftrightarrow> t = 29"
    using small_word_eq [OF t64, of 5] small_word_eq [OF t64, of 29] by simp_all
  show ?thesis
  proof (cases ext)
    case None
    then have "t \<noteq> 5" "t \<noteq> 29" using assms(6) by auto
    then show ?thesis
      unfolding ngx_rtmp_codec_parse_aac_header_def
      by (simp add: 0(1) 1(1) 2(1) 3(1) Let_def t5 t29 None)
  next
    case (Some q)
    obtain r' t' where q: "q = (r', t')" by (cases q)
    have ok: "rate_ok r'" "object_ok t'" using assms(7) Some q by simp_all
    from 3(2) have "at_bits b3 (rate_bits r' @ object_bits t' @ ys)" by (simp add: Some q)
    from aac_rate_read [OF this ok(1)] obtain b4 where 4: "aac_rate b3 = (rate_hz r', b4)"
      "at_bits b4 (object_bits t' @ ys)" .
    from aac_object_read [OF 4(2) ok(2)] obtain b5 where 5: "aac_object_type b4 = (word_of_nat t', b5)" .
    have "t = 5 \<or> t = 29" using assms(6) Some by auto
    then show ?thesis
      unfolding ngx_rtmp_codec_parse_aac_header_def
      by (auto simp: 0(1) 1(1) 2(1) 3(1) 4(1) 5 Let_def t5 t29 Some q)
  qed
qed

text \<open>HE-AAC, 22050 Hz in the core and 44100 Hz out, two channels: 2b 92 08.\<close>

theorem aac_header_reads_witness:
  "\<forall>ctx. ngx_rtmp_codec_parse_aac_header [0xaf, 0, 0x2b, 0x92, 0x08] ctx =
    ctx\<lparr>cc_aac_chan_conf := 2, cc_aac_profile := 2, cc_sample_rate := 44100, cc_aac_sbr := 1\<rparr>"
proof
  fix ctx
  have "bits_of_bytes [0xaf, 0, 0x2b, 0x92, 0x08] =
      bits_of_bytes [0xaf, 0] @ asc_bits 5 (Rate_Index 7) 2 (Some (Rate_Index 4, 2)) @ [False, False]"
    by (simp add: asc_bits_def object_bits_def msb_bits_def upt_rec byte_bits_msb_def)
  from aac_header_reads [OF this, of ctx]
  show "ngx_rtmp_codec_parse_aac_header [0xaf, 0, 0x2b, 0x92, 0x08] ctx =
    ctx\<lparr>cc_aac_chan_conf := 2, cc_aac_profile := 2, cc_sample_rate := 44100, cc_aac_sbr := 1\<rparr>"
    by (simp add: object_ok_def aac_sample_rates_def)
qed

end
