(* ===== verification/Rtmp_Sps.thy ===== *)
theory Rtmp_Sps
  imports Rtmp_Types Rtmp_Codec
begin

text \<open>
  Parameter sets inside key frames (ngx\_rtmp\_codec\_module.c): a publisher that sends no AVC header puts its
  parameter sets in front of the key frame, and \<open>ngx_rtmp_codec_parse_avc_header_in_keyframe\<close> writes a header
  from them into an array of 256 bytes on the stack of \<open>ngx_rtmp_codec_av\<close>.  \<open>ngx_rtmp_hls_copy\<close>
  (hls/ngx\_rtmp\_hls\_module.c) reads over the buffers of the message.  A chain is the list of the bytes of its
  buffers, without those before the read position; a write behind the end of the array is a \<open>Fault\<close>.
  One theorem says that lengths of up to three bytes are handled within the array, one that a length of
  four bytes can be chosen so that the bounds check wraps around and the message is written over the stack.
\<close>

section \<open>Reading over the chain\<close>

fun hls_advance :: "bytes list \<Rightarrow> bytes list" where
  "hls_advance [] = []"
| "hls_advance (b # bs) = (if b = [] then hls_advance bs else b # bs)"

text \<open>The bytes copied, whether there were enough of them, and the chain that is left.\<close>

fun ngx_rtmp_hls_copy :: "nat \<Rightarrow> bytes list \<Rightarrow> bytes \<times> bool \<times> bytes list" where
  "ngx_rtmp_hls_copy n [] = ([], False, [])"
| "ngx_rtmp_hls_copy n (b # bs) =
     (if n \<le> length b then (take n b, True, hls_advance (drop n b # bs))
      else case ngx_rtmp_hls_copy (n - length b) bs of (c, ok, rest) \<Rightarrow> (b @ c, ok, rest))"

section \<open>The header\<close>

definition NGX_RTMP_SPS_MAX_LENGTH :: nat where
  "NGX_RTMP_SPS_MAX_LENGTH = 256"

text \<open>Bytes put at the end of the array.\<close>

definition sps_put :: "bytes \<Rightarrow> bytes \<Rightarrow> bytes run" where
  "sps_put out xs = (if length out + length xs \<le> NGX_RTMP_SPS_MAX_LENGTH then Ret (out @ xs) else Fault)"

text \<open>
  One NAL unit of a parameter set.  \<open>len\<close> is a \<open>uint32_t\<close>, so \<open>len + 3\<close> is computed modulo \<open>2 ^ 32\<close>.  What a
  copy that fails has written stays behind \<open>b->last\<close>.
\<close>

definition sps_store :: "nat \<Rightarrow> byte \<Rightarrow> bytes list \<Rightarrow> bytes \<Rightarrow> (bytes list \<times> bytes) option run" where
  "sps_store len type chain out =
     (let left = NGX_RTMP_SPS_MAX_LENGTH - length out in
      if (len + 3) mod 2 ^ 32 > left then Ret None
      else run_bind (sps_put out [word_of_nat (len div 256), word_of_nat len, type]) (\<lambda>out.
        case ngx_rtmp_hls_copy (len - 1) chain of (c, ok, chain) \<Rightarrow>
        run_bind (sps_put out c) (\<lambda>out.
        if \<not> ok then Ret None
        else run_bind (sps_put out [0x01]) (\<lambda>out. Ret (Some (chain, out))))))"

fun sps_loop :: "nat \<Rightarrow> nat \<Rightarrow> bytes list \<Rightarrow> bytes \<Rightarrow> bool \<Rightarrow> (ngx_rc \<times> bytes) run" where
  "sps_loop 0 nal_bytes chain out has_sps = Out_of_fuel"
| "sps_loop (Suc fuel) nal_bytes chain out has_sps =
     (if chain = [] then Ret (if has_sps then NGX_OK else NGX_ERROR, out)
      else case ngx_rtmp_hls_copy nal_bytes chain of (rlen, ok, chain) \<Rightarrow>
      if \<not> ok then Ret (NGX_OK, out)
      else let len = be_nat rlen in
      if len = 0 then sps_loop fuel nal_bytes chain out has_sps
      else case ngx_rtmp_hls_copy 1 chain of (c, ok, chain) \<Rightarrow>
      if \<not> ok then Ret (NGX_OK, out)
      else let src_nal_type = hd c; nal_type = src_nal_type AND 0x1f in
      if \<not> (7 \<le> nal_type \<and> nal_type \<le> 8) then
        (case ngx_rtmp_hls_copy (len - 1) chain of (c, ok, chain) \<Rightarrow>
         if \<not> ok then Ret (NGX_ERROR, out)
         else sps_loop fuel nal_bytes chain out has_sps)
      else run_bind (sps_store len src_nal_type chain out) (\<lambda>r.
        case r of
          None \<Rightarrow> Ret (NGX_ERROR, out)
        | Some (chain, out) \<Rightarrow> sps_loop fuel nal_bytes chain out True))"

text \<open>
  The context is there (the caller has made it) and so is \<open>out\<close>.  \<open>rlen\<close> has four bytes, and
  \<open>avc_nal_bytes\<close> is never set to more.
\<close>

definition ngx_rtmp_codec_parse_avc_header_in_keyframe ::
    "nat \<Rightarrow> ngx_rtmp_codec_ctx \<Rightarrow> bytes list \<Rightarrow> bytes \<Rightarrow> (ngx_rc \<times> bytes) run" where
  "ngx_rtmp_codec_parse_avc_header_in_keyframe fuel ctx chain out =
     (if cc_video_codec_id ctx \<noteq> 7 \<or> cc_avc_nal_bytes ctx = 0 then Ret (NGX_ERROR, out)
      else if chain = [] \<or> cc_avc_nal_bytes ctx > 4 then Fault
      else case ngx_rtmp_hls_copy 1 chain of (c, ok, chain) \<Rightarrow>
      if \<not> ok then Ret (NGX_ERROR, out)
      else let ftype = drop_bit 4 (hd c AND 0xf0) in
      if ftype \<noteq> 1 then Ret (NGX_ERROR, out)
      else case ngx_rtmp_hls_copy 1 chain of (c, ok, chain) \<Rightarrow>
      if \<not> ok then Ret (NGX_ERROR, out)
      else if hd c \<noteq> 1 then Ret (NGX_OK, out)
      else run_bind (sps_put out [push_bit 4 (ftype AND 0x0f) OR 7, 0x00]) (\<lambda>out.
      case ngx_rtmp_hls_copy 3 chain of (c, ok, chain) \<Rightarrow>
      if \<not> ok then Ret (NGX_ERROR, out)
      else run_bind (sps_put out [0x00, 0x00, 0x00, 0x01, ucast (cc_avc_profile ctx),
          ucast (cc_avc_compat ctx), ucast (cc_avc_level ctx), 0xff, 0xe1]) (\<lambda>out.
      sps_loop fuel (unat (cc_avc_nal_bytes ctx)) chain out False)))"

definition ngx_rtmp_codec_parse_avc_header_compat ::
    "(nat \<Rightarrow> u64) \<Rightarrow> nat \<Rightarrow> ngx_rtmp_codec_ctx \<Rightarrow> bytes list \<Rightarrow> bytes \<Rightarrow> (bytes list \<times> ngx_rtmp_codec_ctx) run" where
  "ngx_rtmp_codec_parse_avc_header_compat ub fuel ctx chain sps =
     run_bind (ngx_rtmp_codec_parse_avc_header_in_keyframe fuel ctx chain sps) (\<lambda>(rc, sps).
       if rc \<noteq> NGX_OK then Ret (chain, ctx)
       else Ret ([sps], ngx_rtmp_codec_parse_avc_header ub sps ctx))"

text \<open>
  The guard of the caller, on the first buffer of the message, which has three bytes at least.  The test of
  the length lets \<open>pos + 5 + avc_nal_bytes\<close> be \<open>last\<close>, and then the byte at \<open>last\<close> is read: whatever the memory
  holds there, or a fault when it ends there.
\<close>

definition ngx_rtmp_codec_video_is_combined_nals :: "ngx_rtmp_codec_ctx \<Rightarrow> buf \<Rightarrow> ngx_rc run" where
  "ngx_rtmp_codec_video_is_combined_nals ctx b =
     (let i = b_pos b + 5 + unat (cc_avc_nal_bytes ctx)
      in if cc_avc_nal_bytes ctx = 0 then Ret NGX_ERROR
         else if drop_bit 4 (b_mem b ! b_pos b AND 0xf0) \<noteq> 1 then Ret NGX_ERROR
         else if i \<le> b_last b then
           if length (b_mem b) \<le> i then Fault
           else if cc_video_codec_id ctx = 7 then
             (let nal_type = b_mem b ! i AND 0x1f
              in Ret (if 7 \<le> nal_type \<and> nal_type \<le> 8 then NGX_OK else NGX_ERROR))
           else Ret NGX_ERROR
         else Ret NGX_ERROR)"

lemma content_at:
  "buf_ok b \<Longrightarrow> i < length (buf_content b) \<Longrightarrow> b_mem b ! (b_pos b + i) = buf_content b ! i \<and> b_pos b + i < b_last b"
  by (auto simp: buf_ok_def buf_content_def)

section \<open>What is copied\<close>

lemma concat_advance [simp]: "concat (hls_advance bs) = concat bs"
  by (induction bs) auto

lemma hls_copy_ok:
  "ngx_rtmp_hls_copy n chain = (c, True, rest) \<Longrightarrow> length c = n \<and> concat chain = c @ concat rest"
proof (induction n chain arbitrary: c rest rule: ngx_rtmp_hls_copy.induct)
  case (2 n b bs)
  show ?case
  proof (cases "n \<le> length b")
    case True
    with "2.prems" have "c = take n b" "rest = hls_advance (drop n b # bs)"
      by (simp_all del: hls_advance.simps)
    with True show ?thesis by (simp del: hls_advance.simps)
  next
    case False
    obtain c' ok' rest' where eq: "ngx_rtmp_hls_copy (n - length b) bs = (c', ok', rest')"
      by (metis prod.collapse)
    with False "2.prems" have r: "c = b @ c'" "ok'" "rest = rest'" by auto
    from "2.IH" [OF False, of c' rest'] eq r(2)
    have "length c' = n - length b" "concat bs = c' @ concat rest'" by simp_all
    with r False show ?thesis by simp
  qed
qed simp

lemma hls_copy_length: "ngx_rtmp_hls_copy n chain = (c, ok, rest) \<Longrightarrow> length c \<le> n"
proof (induction n chain arbitrary: c ok rest rule: ngx_rtmp_hls_copy.induct)
  case (2 n b bs)
  show ?case
  proof (cases "n \<le> length b")
    case False
    obtain c' ok' rest' where eq: "ngx_rtmp_hls_copy (n - length b) bs = (c', ok', rest')"
      by (metis prod.collapse)
    with False 2 show ?thesis by fastforce
  qed (use "2.prems" in auto)
qed simp

lemma sps_store_safe:
  assumes "len + 3 < 2 ^ 32" "0 < len" "length out \<le> 256"
  obtains "sps_store len type chain out = Ret None"
  | chain' out' where "sps_store len type chain out = Ret (Some (chain', out'))" "length out' \<le> 256"
    "length (concat chain') \<le> length (concat chain)"
proof (cases "len + 3 > 256 - length out")
  case True
  then show ?thesis using that(1) assms by (simp add: sps_store_def NGX_RTMP_SPS_MAX_LENGTH_def)
next
  case False
  obtain c ok rest where c: "ngx_rtmp_hls_copy (len - 1) chain = (c, ok, rest)" by (metis prod.collapse)
  have "length c \<le> len - 1" using hls_copy_length [OF c] .
  then have fits: "length out + length c + 4 \<le> 256" using False assms by simp
  show ?thesis
  proof (cases ok)
    case True
    have "length (concat rest) \<le> length (concat chain)" using hls_copy_ok [of "len - 1" chain c rest] c True by simp
    then show ?thesis
      using that(2) [of rest "out @ [word_of_nat (len div 256), word_of_nat len, type] @ c @ [0x01]"] fits False assms(1) True
      by (simp add: sps_store_def NGX_RTMP_SPS_MAX_LENGTH_def c [simplified] sps_put_def)
  next
    case not_ok: False
    then show ?thesis
      using that(1) fits False assms(1) by (simp add: sps_store_def NGX_RTMP_SPS_MAX_LENGTH_def c [simplified] sps_put_def)
  qed
qed

lemma sps_loop_safe:
  assumes "0 < nal_bytes" "nal_bytes \<le> 3"
  shows "length out \<le> 256 \<Longrightarrow> length (concat chain) < fuel \<Longrightarrow>
    \<exists>rc out'. sps_loop fuel nal_bytes chain out has_sps = Ret (rc, out') \<and> length out' \<le> 256"
proof (induction fuel arbitrary: chain out has_sps)
  case (Suc fuel)
  obtain rlen ok c1 where 1: "ngx_rtmp_hls_copy nal_bytes chain = (rlen, ok, c1)" by (metis prod.collapse)
  obtain t ok2 c2 where 2: "ngx_rtmp_hls_copy 1 c1 = (t, ok2, c2)" by (metis prod.collapse)
  obtain s ok3 c3 where 3: "ngx_rtmp_hls_copy (be_nat rlen - 1) c2 = (s, ok3, c3)" by (metis prod.collapse)
  show ?case
  proof (cases "chain = [] \<or> \<not> ok")
    case True
    with Suc.prems show ?thesis by (auto simp: 1)
  next
    case False
    then have ok: "ok" and ne: "chain \<noteq> []" by simp_all
    have len: "length rlen = nal_bytes" "length (concat chain) = nal_bytes + length (concat c1)"
      using hls_copy_ok [of nal_bytes chain rlen c1] 1 ok by simp_all
    have c1: "length (concat c1) < fuel" using Suc.prems(2) len(2) assms(1) by simp
    have c2: "length (concat c2) < fuel" if ok2
      using hls_copy_ok [of 1 c1 t c2] 2 that c1 by simp
    have c3: "length (concat c3) < fuel" if ok2 ok3
      using hls_copy_ok [of "be_nat rlen - 1" c2 s c3] 3 that c2 by simp
    have "be_nat rlen < 256 ^ nal_bytes" using be_nat_less [of rlen] len(1) by simp
    also have "(256 :: nat) ^ nal_bytes \<le> 256 ^ 3" using assms(2) by (intro power_increasing) simp_all
    finally have small: "be_nat rlen + 3 < 2 ^ 32" by simp
    note step = Suc.IH [OF Suc.prems(1) c1] Suc.IH [OF Suc.prems(1) c2] Suc.IH [OF Suc.prems(1) c3]
    show ?thesis
    proof (cases "be_nat rlen = 0 \<or> \<not> ok2 \<or> \<not> (7 \<le> hd t AND 0x1f \<and> hd t AND 0x1f \<le> 8)")
      case True
      then show ?thesis
        by (cases "be_nat rlen = 0"; cases ok2; cases ok3;
            use ok ne step Suc.prems(1) in \<open>auto simp: 1 2 [simplified] 3 [simplified] Let_def\<close>)
    next
      case False
      then have run: "sps_loop (Suc fuel) nal_bytes chain out has_sps =
          run_bind (sps_store (be_nat rlen) (hd t) c2 out) (\<lambda>r.
            case r of None \<Rightarrow> Ret (NGX_ERROR, out)
            | Some (chain, out) \<Rightarrow> sps_loop fuel nal_bytes chain out True)"
        using ok ne by (simp add: 1 2 [simplified] Let_def)
      have "0 < be_nat rlen" using False by simp
      from sps_store_safe [OF small this Suc.prems(1), of "hd t" c2] show ?thesis
      proof cases
        case 1
        then show ?thesis unfolding run using Suc.prems(1) by simp
      next
        case (2 chain' out')
        then have "length (concat chain') < fuel" using c2 False by simp
        from Suc.IH [OF 2(2) this] show ?thesis unfolding run 2(1) by simp
      qed
    qed
  qed
qed simp

section \<open>Inside and outside the array\<close>

text \<open>
  C17: with NAL unit lengths of one to three bytes, \<open>ngx_rtmp_codec_parse_avc_header_in_keyframe\<close> comes to an
  end on every message, however it is cut into buffers, and never writes more than the 256 bytes of the array.
\<close>

theorem sps_copy_safe:
  assumes "cc_avc_nal_bytes ctx \<le> 3" "chain \<noteq> []" "length (concat chain) < fuel"
  shows "\<exists>rc out. ngx_rtmp_codec_parse_avc_header_in_keyframe fuel ctx chain [] = Ret (rc, out) \<and> length out \<le> 256"
proof (cases "cc_video_codec_id ctx \<noteq> 7 \<or> cc_avc_nal_bytes ctx = 0")
  case True
  then show ?thesis by (auto simp: ngx_rtmp_codec_parse_avc_header_in_keyframe_def)
next
  case False
  have nal: "0 < unat (cc_avc_nal_bytes ctx)" "unat (cc_avc_nal_bytes ctx) \<le> 3" "\<not> cc_avc_nal_bytes ctx > 4"
    using assms(1) False by (auto simp: word_le_nat_alt word_less_nat_alt unat_eq_0 intro: gr0I)
  obtain f ok1 c1 where 1: "ngx_rtmp_hls_copy 1 chain = (f, ok1, c1)" by (metis prod.collapse)
  obtain h ok2 c2 where 2: "ngx_rtmp_hls_copy 1 c1 = (h, ok2, c2)" by (metis prod.collapse)
  obtain d ok3 c3 where 3: "ngx_rtmp_hls_copy 3 c2 = (d, ok3, c3)" by (metis prod.collapse)
  have c3: "length (concat c3) < fuel" if ok1 ok2 ok3
    using hls_copy_ok [of 1 chain f c1] hls_copy_ok [of 1 c1 h c2] hls_copy_ok [of 3 c2 d c3] 1 2 3 that assms(3)
    by simp
  have loop: "\<exists>rc out'. sps_loop fuel (unat (cc_avc_nal_bytes ctx)) c3 out False = Ret (rc, out') \<and> length out' \<le> 256"
    if ok1 ok2 ok3 "length out \<le> 256" for out
    using sps_loop_safe [OF nal(1,2) that(4) c3] that by blast
  show ?thesis
    using False assms(2) nal(3) loop
    by (auto simp: ngx_rtmp_codec_parse_avc_header_in_keyframe_def 1 [simplified] 2 [simplified] 3 Let_def sps_put_def
        NGX_RTMP_SPS_MAX_LENGTH_def)
qed

text \<open>A context that has seen a codec header with NAL unit lengths of \<open>n\<close> bytes.\<close>

definition h264_ctx :: "u64 \<Rightarrow> ngx_rtmp_codec_ctx" where
  "h264_ctx n = \<lparr>cc_width = 0, cc_height = 0, cc_duration = 0, cc_frame_rate = 0, cc_video_data_rate = 0,
     cc_video_codec_id = 7, cc_audio_data_rate = 0, cc_audio_codec_id = 0, cc_aac_profile = 0,
     cc_aac_chan_conf = 0, cc_aac_sbr = 0, cc_aac_ps = 0, cc_avc_profile = 66, cc_avc_compat = 0,
     cc_avc_level = 30, cc_avc_nal_bytes = n, cc_avc_ref_frames = 0, cc_sample_rate = 0, cc_sample_size = 0,
     cc_audio_channels = 0\<rparr>"

theorem sps_copy_safe_witness:
  "\<exists>rc out. ngx_rtmp_codec_parse_avc_header_in_keyframe 12 (h264_ctx 2) [[0x17, 1, 0, 0, 0], [0, 3, 0x67, 66, 0]] [] =
     Ret (rc, out) \<and> length out \<le> 256"
  using sps_copy_safe [of "h264_ctx 2" "[[0x17, 1, 0, 0, 0], [0, 3, 0x67, 66, 0]]" 12]
  by (simp add: h264_ctx_def)

text \<open>
  C16: with NAL unit lengths of four bytes, which all publishers use, this is not so.  A key frame whose
  parameter set claims a length of \<open>2 ^ 32 - 1\<close> passes the guard of the caller, and the check of the length,
  because \<open>len + 3\<close> wraps around to 2; the bytes of the message, as many as it has, are then copied over
  the end of the array on the stack.
\<close>

theorem sps_length_wraps:
  assumes "cc_video_codec_id ctx = 7" "cc_avc_nal_bytes ctx = 4" "242 < length body"
    and "buf_ok b" "buf_content b = [0x17, 1, 0, 0, 0, 0xff, 0xff, 0xff, 0xff, 0x67] @ body"
  shows "ngx_rtmp_codec_video_is_combined_nals ctx b = Ret NGX_OK \<and>
    ngx_rtmp_codec_parse_avc_header_in_keyframe (Suc fuel) ctx [buf_content b] [] = Fault"
proof -
  obtain c ok rest where c: "ngx_rtmp_hls_copy 4294967294 [body] = (c, ok, rest)" by (metis prod.collapse)
  have long: "242 < length c" using c assms(3) by (auto split: if_splits)
  have "body \<noteq> []" using assms(3) by auto
  then have "sps_loop (Suc fuel) 4 [[0xff, 0xff, 0xff, 0xff, 0x67] @ body] out False = Fault" if "length out = 11" for out
    using c long that by (simp add: sps_store_def sps_put_def NGX_RTMP_SPS_MAX_LENGTH_def Let_def del: sps_loop.simps
        add: sps_loop.simps(2))
  moreover have "b_mem b ! b_pos b = 0x17" "b_mem b ! (9 + b_pos b) = 0x67" "b_pos b + 9 < b_last b"
    using content_at [OF assms(4), of 0] content_at [OF assms(4), of 9] unfolding assms(5) by (simp_all add: add.commute)
  ultimately show ?thesis
    using assms(1,2,4) unfolding assms(5)
    by (simp add: ngx_rtmp_codec_video_is_combined_nals_def buf_ok_def
        ngx_rtmp_codec_parse_avc_header_in_keyframe_def sps_put_def NGX_RTMP_SPS_MAX_LENGTH_def Let_def del: sps_loop.simps)
qed

theorem sps_length_wraps_witness:
  "ngx_rtmp_codec_video_is_combined_nals (h264_ctx 4)
      \<lparr>b_mem = [0x17, 1, 0, 0, 0, 0xff, 0xff, 0xff, 0xff, 0x67] @ replicate 300 0, b_pos = 0, b_last = 310\<rparr> = Ret NGX_OK \<and>
   ngx_rtmp_codec_parse_avc_header_in_keyframe 1 (h264_ctx 4)
      [[0x17, 1, 0, 0, 0, 0xff, 0xff, 0xff, 0xff, 0x67] @ replicate 300 0] [] = Fault"
  using sps_length_wraps [of "h264_ctx 4" "replicate 300 0"
      "\<lparr>b_mem = [0x17, 1, 0, 0, 0, 0xff, 0xff, 0xff, 0xff, 0x67] @ replicate 300 0, b_pos = 0, b_last = 310\<rparr>" 0]
  by (simp add: h264_ctx_def buf_ok_def buf_content_def)

text \<open>A message of nine bytes that fills its buffer: the guard reads the byte behind it.\<close>

lemma combined_nals_overread:
  "ngx_rtmp_codec_video_is_combined_nals (h264_ctx 4)
     \<lparr>b_mem = [0x17, 1, 0, 0, 0, 0, 0, 0, 1], b_pos = 0, b_last = 9\<rparr> = Fault"
  by (simp add: ngx_rtmp_codec_video_is_combined_nals_def h264_ctx_def Let_def)

end
